(* ===== verification/Prelude.thy ===== *)
theory Prelude
  imports Main "HOL-Library.Word"
begin

text \<open>
  Shared vocabulary of the Granary development: the machine integer types of the C++
  sources, the alignment macros of \<^verbatim>\<open>granary/base/base.h\<close>, the architecture
  constants of \<^verbatim>\<open>arch/x86-64/base.h\<close> that several components use, and the generic
  facts on lists, words and options that the component theories share.
\<close>

unbundle bit_operations_syntax

named_theorems granary_simps \<open>defining equations unfolded by the component proofs\<close>
named_theorems align_simps \<open>facts on alignment\<close>

type_synonym u8 = "8 word"
type_synonym u16 = "16 word"
type_synonym u32 = "32 word"
type_synonym u64 = "64 word"

section \<open>Constants of arch/x86-64/base.h\<close>

definition PAGE_SIZE_BYTES :: nat where
  [granary_simps]: "PAGE_SIZE_BYTES = 4096"

definition CODE_ALIGN_BYTES :: nat where
  [granary_simps]: "CODE_ALIGN_BYTES = 1"

definition GPR_WIDTH_BYTES :: nat where
  [granary_simps]: "GPR_WIDTH_BYTES = 8"

definition REDZONE_SIZE_BYTES :: nat where
  [granary_simps]: "REDZONE_SIZE_BYTES = 128"

definition NUM_GENERAL_PURPOSE_REGISTERS :: nat where
  [granary_simps]: "NUM_GENERAL_PURPOSE_REGISTERS = 15"

definition MAX_NUM_SPILL_SLOTS :: nat where
  [granary_simps]: "MAX_NUM_SPILL_SLOTS = 64"

section \<open>The alignment macros\<close>

definition align_factor :: "nat \<Rightarrow> nat \<Rightarrow> nat" where
  "align_factor x align = (if x mod align \<noteq> 0 then align - x mod align else 0)"

definition align_to :: "nat \<Rightarrow> nat \<Rightarrow> nat" where
  "align_to x align = x + align_factor x align"

lemma align_to_ge [align_simps, simp]: "x \<le> align_to x a"
  by (simp add: align_to_def)

lemma align_to_dvd [align_simps]:
  assumes "0 < a"
  shows "a dvd align_to x a"
proof (cases "x mod a = 0")
  case True
  then show ?thesis by (auto simp: align_to_def align_factor_def)
next
  case False
  have "x = x div a * a + x mod a" by simp
  moreover have "x mod a < a" using assms by simp
  ultimately have "x + (a - x mod a) = x div a * a + a" by linarith
  then have "x + (a - x mod a) = (x div a + 1) * a" by simp
  then have "a dvd x + (a - x mod a)" by (metis dvd_triv_right)
  then show ?thesis using False by (simp add: align_to_def align_factor_def)
qed

lemma align_to_less [align_simps]: "0 < a \<Longrightarrow> align_to x a < x + a"
  by (auto simp: align_to_def align_factor_def)

lemma align_to_least [align_simps]:
  assumes "0 < a" "a dvd y" "x \<le> y"
  shows "align_to x a \<le> y"
proof (rule ccontr)
  assume "\<not> align_to x a \<le> y"
  then have lt: "y < align_to x a" by simp
  obtain k where k: "align_to x a = a * k" using align_to_dvd [OF assms(1)] by (auto elim: dvdE)
  obtain m where m: "y = a * m" using assms(2) by (auto elim: dvdE)
  have "m < k" using lt k m assms(1) by simp
  then have "a * Suc m \<le> a * k" by (intro mult_le_mono2 Suc_leI)
  then have "y + a \<le> align_to x a" using k m by simp
  moreover have "align_to x a < x + a" by (rule align_to_less) (rule assms(1))
  ultimately show False using assms(3) by simp
qed

lemma align_to_1 [simp]: "align_to x 1 = x" "align_to x (Suc 0) = x"
  by (simp_all add: align_to_def align_factor_def)

section \<open>Shared facts\<close>

lemma list_update_nth_eq:
  "i < length xs \<Longrightarrow> xs[i := v] ! j = (if i = j then v else xs ! j)"
  by simp

lemma map2_nth:
  "i < length xs \<Longrightarrow> i < length ys \<Longrightarrow> map2 f xs ys ! i = f (xs ! i) (ys ! i)"
  by simp

section \<open>Refinement of operation sequences\<close>

text \<open>An abstract semantics that is partial where a client breaks the contract of an operation,
  and the runs of a sequence of operations.\<close>

fun run_spec :: "('op \<Rightarrow> 'a \<Rightarrow> 'a option) \<Rightarrow> 'op list \<Rightarrow> 'a \<Rightarrow> 'a option" where
  "run_spec spec [] a = Some a"
| "run_spec spec (op # ops) a = Option.bind (spec op a) (run_spec spec ops)"

text \<open>The interface of a component that implements such a semantics: one step of the code
  follows one step of the specification, so every legal sequence of calls does.\<close>

locale refinement =
  fixes rel :: "'c \<Rightarrow> 'a \<Rightarrow> bool" and spec :: "'op \<Rightarrow> 'a \<Rightarrow> 'a option" and impl :: "'op \<Rightarrow> 'c \<Rightarrow> 'c"
  assumes step_refines: "rel c a \<Longrightarrow> spec op a = Some a' \<Longrightarrow> rel (impl op c) a'"
begin

lemma run_refines: "rel c a \<Longrightarrow> run_spec spec ops a = Some a' \<Longrightarrow> rel (fold impl ops c) a'"
  by (induction ops arbitrary: c a) (auto split: bind_splits dest: step_refines)

end

end
