(* ===== verification/Bits.thy ===== *)
theory Bits
  imports Prelude
begin

text \<open>
  The bit containers of \<^verbatim>\<open>granary/base\<close>: \<^verbatim>\<open>packed_array.h\<close>,
  \<^verbatim>\<open>bitset.h\<close> and \<^verbatim>\<open>bloom_filter.h\<close>. A C++ access outside the
  backing array, or a shift by at least the width of its operand, is undefined: the model
  returns \<open>None\<close> there. The locale \<open>bit_container\<close> is the interface the clients rely on;
  it is interpreted by the array-backed and by the integer-backed bit sets.
\<close>

unbundle bit_operations_syntax

section \<open>Packed arrays\<close>

text \<open>The enumerators of \<^verbatim>\<open>PackedArray\<close>, for element width \<open>k\<close> (\<^verbatim>\<open>kSizeBits\<close>)
  and element count \<open>n\<close> (\<^verbatim>\<open>kNumElems\<close>).\<close>

definition pa_SIZE :: "nat \<Rightarrow> nat" where
  "pa_SIZE k = align_to k 2"

definition pa_NUM_ELEMS :: "nat \<Rightarrow> nat" where
  "pa_NUM_ELEMS n = align_to n 8"

definition pa_NUM_PER_BYTE :: "nat \<Rightarrow> nat" where
  "pa_NUM_PER_BYTE k = 8 div pa_SIZE k"

definition pa_NUM_BYTES :: "nat \<Rightarrow> nat \<Rightarrow> nat" where
  "pa_NUM_BYTES k n = pa_NUM_ELEMS n div pa_NUM_PER_BYTE k"

definition pa_BIT_MASK :: "nat \<Rightarrow> u8" where
  "pa_BIT_MASK k = ucast (NOT (push_bit k (0xFF :: u32)))"

definition pa_IndexOf :: "nat \<Rightarrow> nat \<Rightarrow> nat" where
  "pa_IndexOf k i = i div pa_NUM_PER_BYTE k"

definition pa_ShiftOf :: "nat \<Rightarrow> nat \<Rightarrow> nat" where
  "pa_ShiftOf k i = (i mod pa_NUM_PER_BYTE k) * k"

definition PackedArray_new :: "nat \<Rightarrow> nat \<Rightarrow> u8 list" where
  "PackedArray_new k n = replicate (pa_NUM_BYTES k n) 0"

definition PackedArray_Get :: "nat \<Rightarrow> u8 list \<Rightarrow> nat \<Rightarrow> u8 option" where
  "PackedArray_Get k st i =
     (let index = pa_IndexOf k i; shift = pa_ShiftOf k i
      in if index < length st
         then Some (drop_bit shift (st ! index) AND pa_BIT_MASK k)
         else None)"

definition PackedArray_Set :: "nat \<Rightarrow> u8 list \<Rightarrow> nat \<Rightarrow> u8 \<Rightarrow> u8 list option" where
  "PackedArray_Set k st i v =
     (let byte_val = v AND pa_BIT_MASK k; index = pa_IndexOf k i; shift = pa_ShiftOf k i
      in if index < length st
         then let old_val = st ! index AND NOT (push_bit shift (pa_BIT_MASK k))
              in Some (st[index := old_val OR push_bit shift byte_val])
         else None)"

definition PackedArray_Copy :: "u8 list \<Rightarrow> u8 list \<Rightarrow> u8 list" where
  "PackedArray_Copy st that = take (length st) that"

text \<open>The three static assertions of the template.\<close>

definition pa_static_asserts :: "nat \<Rightarrow> nat \<Rightarrow> bool" where
  "pa_static_asserts k n \<longleftrightarrow> 0 < k \<and> k < 8 \<and> n \<le> pa_NUM_BYTES k n * pa_NUM_PER_BYTE k"

section \<open>Bit sets\<close>

text \<open>The general template: a packed array of one-bit elements.\<close>

definition BitSet_SetAll :: "u8 list \<Rightarrow> bool \<Rightarrow> u8 list" where
  "BitSet_SetAll st val = replicate (length st) (if val then 0xFF else 0)"

definition BitSet_new :: "nat \<Rightarrow> u8 list" where
  "BitSet_new n = BitSet_SetAll (PackedArray_new 1 n) False"

definition BitSet_Get :: "u8 list \<Rightarrow> nat \<Rightarrow> bool option" where
  "BitSet_Get st i = map_option (\<lambda>b. b \<noteq> 0) (PackedArray_Get 1 st i)"

definition BitSet_Set :: "u8 list \<Rightarrow> nat \<Rightarrow> bool \<Rightarrow> u8 list option" where
  "BitSet_Set st i val = PackedArray_Set 1 st i (of_bool val)"

definition BitSet_Union :: "u8 list \<Rightarrow> u8 list \<Rightarrow> u8 list" where
  "BitSet_Union st that = map2 (OR) st that"

definition BitSet_Intersect :: "u8 list \<Rightarrow> u8 list \<Rightarrow> u8 list" where
  "BitSet_Intersect st that = map2 (AND) st that"

text \<open>
  The integer-backed specialisation. The source writes \<^verbatim>\<open>1U << i\<close>, a shift of a
  32-bit operand: undefined from \<open>i = 32\<close> on, whatever the storage type is. The mask is
  then converted to the storage type, by truncation or by zero extension.
\<close>

definition one_shl :: "nat \<Rightarrow> u32 option" where
  "one_shl i = (if i < 32 then Some (push_bit i 1) else None)"

definition FastBitSet_new :: "'a::len word" where
  "FastBitSet_new = 0"

definition FastBitSet_Get :: "'a::len word \<Rightarrow> nat \<Rightarrow> bool option" where
  "FastBitSet_Get st i =
     map_option (\<lambda>m. (ucast st :: u64) AND ucast m \<noteq> 0) (one_shl i)"

definition FastBitSet_Set :: "'a::len word \<Rightarrow> nat \<Rightarrow> bool \<Rightarrow> 'a word option" where
  "FastBitSet_Set st i val =
     map_option (\<lambda>m. if val then st OR ucast m else st AND ucast (NOT m)) (one_shl i)"

definition FastBitSet_Copy :: "'a::len word \<Rightarrow> 'a word \<Rightarrow> 'a word" where
  "FastBitSet_Copy st that = that"

definition FastBitSet_SetAll :: "'a::len word \<Rightarrow> bool \<Rightarrow> 'a word" where
  "FastBitSet_SetAll st val = (if val then NOT 0 else 0)"

definition FastBitSet_Union :: "'a::len word \<Rightarrow> 'a word \<Rightarrow> 'a word" where
  "FastBitSet_Union st that = st OR that"

definition FastBitSet_Intersect :: "'a::len word \<Rightarrow> 'a word \<Rightarrow> 'a word" where
  "FastBitSet_Intersect st that = st AND that"

text \<open>Which storage type a \<^verbatim>\<open>BitSet<n>\<close> gets: the table of specialisations. \<open>None\<close>
  stands for the array-backed general template.\<close>

definition bitset_storage_bits :: "nat \<Rightarrow> nat option" where
  "bitset_storage_bits n =
     (if 1 \<le> n \<and> n \<le> 8 then Some 8
      else if 9 \<le> n \<and> n \<le> 16 then Some 16
      else if 17 \<le> n \<and> n \<le> 32 then Some 32
      else if 33 \<le> n \<and> n \<le> 64 then Some 64
      else None)"

section \<open>Bloom filters\<close>

definition NUM_BITS_PER_SLOT :: nat where
  "NUM_BITS_PER_SLOT = 32"

definition BloomFilter_Clear :: "nat \<Rightarrow> u32 list" where
  "BloomFilter_Clear kNumBits = replicate (kNumBits div NUM_BITS_PER_SLOT) 0"

definition bloom_slot :: "nat \<Rightarrow> u32 \<Rightarrow> nat" where
  "bloom_slot kNumBits key = (unat key mod kNumBits) div NUM_BITS_PER_SLOT"

definition bloom_bit :: "nat \<Rightarrow> u32 \<Rightarrow> nat" where
  "bloom_bit kNumBits key = (unat key mod kNumBits) mod NUM_BITS_PER_SLOT"

fun BloomFilter_Add :: "nat \<Rightarrow> u32 list \<Rightarrow> u32 list \<Rightarrow> u32 list" where
  "BloomFilter_Add kNumBits slots [] = slots"
| "BloomFilter_Add kNumBits slots (key # keys) =
     (let slot = bloom_slot kNumBits key; bit = bloom_bit kNumBits key
      in BloomFilter_Add kNumBits (slots[slot := slots ! slot OR push_bit bit 1]) keys)"

fun BloomFilter_MightContain :: "nat \<Rightarrow> u32 list \<Rightarrow> u32 list \<Rightarrow> bool" where
  "BloomFilter_MightContain kNumBits slots [] = True"
| "BloomFilter_MightContain kNumBits slots (key # keys) =
     (let slot = bloom_slot kNumBits key; bit = bloom_bit kNumBits key
      in if slots ! slot AND push_bit bit 1 = 0 then False
         else BloomFilter_MightContain kNumBits slots keys)"

definition bloom_wf :: "nat \<Rightarrow> u32 list \<Rightarrow> bool" where
  "bloom_wf kNumBits slots \<longleftrightarrow>
     0 < kNumBits \<and> kNumBits mod NUM_BITS_PER_SLOT = 0 \<and>
     length slots = kNumBits div NUM_BITS_PER_SLOT"

section \<open>Packed arrays: reading back what was written\<close>

lemma bit_pa_BIT_MASK:
  assumes "k < 8"
  shows "bit (pa_BIT_MASK k) n \<longleftrightarrow> n < k"
proof -
  have mask: "(0xFF :: u32) = mask 8" by (simp add: mask_eq_exp_minus_1)
  have "bit (pa_BIT_MASK k) n \<longleftrightarrow> n < 8 \<and> \<not> (k \<le> n \<and> n - k < 8)"
    unfolding pa_BIT_MASK_def mask
    by (auto simp: bit_unsigned_iff bit_not_iff bit_push_bit_iff bit_mask_iff)
  then show ?thesis using assms by auto
qed

lemma pa_SIZE_ge: "k \<le> pa_SIZE k"
  by (simp add: pa_SIZE_def)

lemma pa_SIZE_le: "0 < k \<Longrightarrow> k < 8 \<Longrightarrow> pa_SIZE k \<le> 8"
  by (simp add: pa_SIZE_def align_to_least)

lemma pa_NUM_PER_BYTE_pos: "0 < k \<Longrightarrow> k < 8 \<Longrightarrow> 0 < pa_NUM_PER_BYTE k"
  using pa_SIZE_le [of k] pa_SIZE_ge [of k]
  by (simp add: pa_NUM_PER_BYTE_def div_greater_zero_iff)

lemma pa_elems_fit:
  assumes "0 < k" "k < 8"
  shows "pa_NUM_PER_BYTE k * k \<le> 8"
proof -
  have "pa_NUM_PER_BYTE k * k \<le> pa_NUM_PER_BYTE k * pa_SIZE k"
    by (simp add: pa_SIZE_ge)
  also have "\<dots> \<le> 8" by (simp add: pa_NUM_PER_BYTE_def)
  finally show ?thesis .
qed

lemma pa_shift_fits:
  assumes "0 < k" "k < 8"
  shows "pa_ShiftOf k i + k \<le> 8"
proof -
  let ?p = "pa_NUM_PER_BYTE k"
  have "i mod ?p < ?p" using pa_NUM_PER_BYTE_pos [OF assms] by simp
  then have "Suc (i mod ?p) * k \<le> ?p * k" by (intro mult_le_mono1) simp
  then show ?thesis using pa_elems_fit [OF assms] by (simp add: pa_ShiftOf_def)
qed

lemma pa_shift_disjoint:
  assumes "i \<noteq> j" "pa_IndexOf k i = pa_IndexOf k j"
  shows "pa_ShiftOf k i + k \<le> pa_ShiftOf k j \<or> pa_ShiftOf k j + k \<le> pa_ShiftOf k i"
proof -
  let ?p = "pa_NUM_PER_BYTE k"
  have "i mod ?p \<noteq> j mod ?p"
    using assms unfolding pa_IndexOf_def by (metis div_mult_mod_eq)
  then consider "Suc (i mod ?p) \<le> j mod ?p" | "Suc (j mod ?p) \<le> i mod ?p" by linarith
  then show ?thesis
  proof cases
    case 1
    then have "Suc (i mod ?p) * k \<le> (j mod ?p) * k" by (rule mult_le_mono1)
    then show ?thesis by (simp add: pa_ShiftOf_def)
  next
    case 2
    then have "Suc (j mod ?p) * k \<le> (i mod ?p) * k" by (rule mult_le_mono1)
    then show ?thesis by (simp add: pa_ShiftOf_def)
  qed
qed

lemma pa_write_read_same:
  fixes w v :: u8
  assumes "s + k \<le> 8" "0 < k" "k < 8"
  shows "drop_bit s ((w AND NOT (push_bit s (pa_BIT_MASK k))) OR push_bit s (v AND pa_BIT_MASK k))
           AND pa_BIT_MASK k = v AND pa_BIT_MASK k"
  by (rule bit_word_eqI) (use assms in \<open>auto simp: bit_simps bit_pa_BIT_MASK\<close>)

lemma pa_write_read_other:
  fixes w v :: u8
  assumes "s + k \<le> 8" "t + k \<le> 8" "0 < k" "k < 8" "s + k \<le> t \<or> t + k \<le> s"
  shows "drop_bit t ((w AND NOT (push_bit s (pa_BIT_MASK k))) OR push_bit s (v AND pa_BIT_MASK k))
           AND pa_BIT_MASK k = drop_bit t w AND pa_BIT_MASK k"
  by (rule bit_word_eqI) (use assms in \<open>auto simp: bit_simps bit_pa_BIT_MASK\<close>)

lemma PackedArray_Set_length:
  "PackedArray_Set k st i v = Some st' \<Longrightarrow> length st' = length st"
  by (auto simp: PackedArray_Set_def Let_def split: if_splits)

lemma PackedArray_Get_Set:
  assumes "0 < k" "k < 8" "PackedArray_Set k st i v = Some st'"
  shows "PackedArray_Get k st' j =
           (if i = j then Some (v AND pa_BIT_MASK k) else PackedArray_Get k st j)"
proof -
  let ?s = "pa_ShiftOf k i" and ?t = "pa_ShiftOf k j"
  have lt: "pa_IndexOf k i < length st"
    and st': "st' = st[pa_IndexOf k i :=
        (st ! pa_IndexOf k i AND NOT (push_bit ?s (pa_BIT_MASK k)))
          OR push_bit ?s (v AND pa_BIT_MASK k)]"
    using assms(3) by (auto simp: PackedArray_Set_def Let_def split: if_splits)
  note fits = pa_shift_fits [OF assms(1,2)]
  consider "i = j" | "i \<noteq> j" "pa_IndexOf k i = pa_IndexOf k j" | "pa_IndexOf k i \<noteq> pa_IndexOf k j"
    by blast
  then show ?thesis
  proof cases
    case 1
    then show ?thesis
      using lt pa_write_read_same [OF fits assms(1,2)] by (simp add: PackedArray_Get_def Let_def st')
  next
    case 2
    then show ?thesis
      using lt pa_write_read_other [OF fits fits assms(1,2) pa_shift_disjoint [OF 2]]
      by (simp add: PackedArray_Get_def Let_def st')
  next
    case 3
    then show ?thesis by (auto simp: PackedArray_Get_def Let_def st')
  qed
qed

lemma PackedArray_Set_defined:
  "pa_IndexOf k i < length st \<Longrightarrow> \<exists>st'. PackedArray_Set k st i v = Some st'"
  by (simp add: PackedArray_Set_def Let_def)

section \<open>The interface of a bit set\<close>

text \<open>
  What the clients of a bit set rely on: within the capacity every operation is defined,
  a write changes one element, and the bulk operations work element by element.
\<close>

locale bit_container =
  fixes get :: "'s \<Rightarrow> nat \<Rightarrow> bool option"
    and put :: "'s \<Rightarrow> nat \<Rightarrow> bool \<Rightarrow> 's option"
    and uni :: "'s \<Rightarrow> 's \<Rightarrow> 's"
    and int :: "'s \<Rightarrow> 's \<Rightarrow> 's"
    and fill :: "'s \<Rightarrow> bool \<Rightarrow> 's"
    and cap :: nat
    and invar :: "'s \<Rightarrow> bool"
  assumes get_total: "invar s \<Longrightarrow> i < cap \<Longrightarrow> get s i \<noteq> None"
    and put_total: "invar s \<Longrightarrow> i < cap \<Longrightarrow> put s i v \<noteq> None"
    and put_invar: "invar s \<Longrightarrow> i < cap \<Longrightarrow> put s i v = Some s' \<Longrightarrow> invar s'"
    and get_put: "invar s \<Longrightarrow> i < cap \<Longrightarrow> j < cap \<Longrightarrow> put s i v = Some s' \<Longrightarrow>
      get s' j = (if i = j then Some v else get s j)"
    and fill_invar: "invar s \<Longrightarrow> invar (fill s v)"
    and get_fill: "invar s \<Longrightarrow> i < cap \<Longrightarrow> get (fill s v) i = Some v"
    and uni_invar: "invar s \<Longrightarrow> invar t \<Longrightarrow> invar (uni s t)"
    and get_uni: "invar s \<Longrightarrow> invar t \<Longrightarrow> i < cap \<Longrightarrow>
      get (uni s t) i = Some (get s i = Some True \<or> get t i = Some True)"
    and int_invar: "invar s \<Longrightarrow> invar t \<Longrightarrow> invar (int s t)"
    and get_int: "invar s \<Longrightarrow> invar t \<Longrightarrow> i < cap \<Longrightarrow>
      get (int s t) i = Some (get s i = Some True \<and> get t i = Some True)"
begin

definition members :: "'s \<Rightarrow> nat set" where
  "members s = {i. i < cap \<and> get s i = Some True}"

lemma members_put:
  assumes "invar s" "i < cap" "put s i v = Some s'"
  shows "members s' = (if v then insert i (members s) else members s - {i})"
  using assms get_put [OF assms(1,2) _ assms(3)] by (auto simp: members_def split: if_splits)

lemma members_fill: "invar s \<Longrightarrow> members (fill s v) = (if v then {..<cap} else {})"
  by (auto simp: members_def get_fill)

lemma members_uni: "invar s \<Longrightarrow> invar t \<Longrightarrow> members (uni s t) = members s \<union> members t"
  by (auto simp: members_def get_uni)

lemma members_int: "invar s \<Longrightarrow> invar t \<Longrightarrow> members (int s t) = members s \<inter> members t"
  by (auto simp: members_def get_int)

end

section \<open>The array-backed bit set implements it\<close>

lemma pa_bit_consts:
  "pa_NUM_PER_BYTE (Suc 0) = 4" "pa_IndexOf (Suc 0) i = i div 4" "pa_ShiftOf (Suc 0) i = i mod 4"
  by (simp_all add: pa_NUM_PER_BYTE_def pa_SIZE_def align_to_def align_factor_def
      pa_IndexOf_def pa_ShiftOf_def flip: numeral_2_eq_2)

lemma pa_BIT_MASK_1: "pa_BIT_MASK (Suc 0) = 1"
  by (rule bit_word_eqI) (auto simp: bit_pa_BIT_MASK bit_1_iff)

lemma bitset_index_less:
  assumes "i < n" "length st = pa_NUM_BYTES 1 n"
  shows "i div 4 < length st"
proof -
  have "8 dvd align_to n 8" by (rule align_to_dvd) simp
  then have "4 dvd align_to n 8" by (rule dvd_trans [rotated]) simp
  moreover have "i < align_to n 8" using assms(1) align_to_ge [of n 8] by linarith
  ultimately have "i div 4 < align_to n 8 div 4" by (auto elim!: dvdE)
  then show ?thesis using assms(2) by (simp add: pa_NUM_BYTES_def pa_bit_consts pa_NUM_ELEMS_def)
qed

lemma BitSet_Get_bit:
  "i div 4 < length st \<Longrightarrow> BitSet_Get st i = Some (bit (st ! (i div 4)) (i mod 4))"
  by (simp add: BitSet_Get_def PackedArray_Get_def pa_bit_consts pa_BIT_MASK_1 and_one_eq
      bit_iff_odd_drop_bit mod_2_eq_odd)

lemma BitSet_Get_Set:
  assumes "BitSet_Set st i v = Some st'"
  shows "BitSet_Get st' j = (if i = j then Some v else BitSet_Get st j)"
  using PackedArray_Get_Set [OF _ _ assms [unfolded BitSet_Set_def], of j]
  by (auto simp: BitSet_Get_def pa_BIT_MASK_1)

lemma bit_all_ones_u8: "bit (0xFF :: u8) (i mod 4)"
proof -
  have "(0xFF :: u8) = mask 8" by (simp add: mask_eq_exp_minus_1)
  moreover have "i mod 4 < 8" by (rule less_trans [of _ 4]) simp_all
  ultimately show ?thesis by (simp only: bit_mask_iff) simp
qed

interpretation slow: bit_container BitSet_Get BitSet_Set BitSet_Union BitSet_Intersect BitSet_SetAll
    n "\<lambda>st. length st = pa_NUM_BYTES 1 n" for n
proof (unfold_locales, goal_cases)
  case (1 s i) then show ?case using bitset_index_less [of i n s] by (simp add: BitSet_Get_bit)
next
  case (2 s i v) then show ?case
    using bitset_index_less [of i n s] PackedArray_Set_defined [of 1 i s]
    by (auto simp: BitSet_Set_def pa_bit_consts)
next
  case (3 s i v s') then show ?case by (auto simp: BitSet_Set_def dest: PackedArray_Set_length)
next
  case (4 s i j v s') then show ?case by (simp add: BitSet_Get_Set)
next
  case (5 s v) then show ?case by (simp add: BitSet_SetAll_def)
next
  case (6 s i v)
  then have "i div 4 < length s" using bitset_index_less [of i n s] by simp
  then show ?case using bit_all_ones_u8 [of i] by (simp add: BitSet_Get_bit BitSet_SetAll_def)
next
  case (7 s t) then show ?case by (simp add: BitSet_Union_def)
next
  case (8 s t i)
  then have "i div 4 < length s" "i div 4 < length t"
    using bitset_index_less [of i n s] bitset_index_less [of i n t] by simp_all
  then show ?case by (simp add: BitSet_Get_bit BitSet_Union_def bit_or_iff)
next
  case (9 s t) then show ?case by (simp add: BitSet_Intersect_def)
next
  case (10 s t i)
  then have "i div 4 < length s" "i div 4 < length t"
    using bitset_index_less [of i n s] bitset_index_less [of i n t] by simp_all
  then show ?case by (simp add: BitSet_Get_bit BitSet_Intersect_def bit_and_iff)
qed

section \<open>The integer-backed bit sets implement it up to 32 bits\<close>

lemma FastBitSet_Get_bit:
  fixes st :: "'a::len word"
  assumes "i < 32"
  shows "FastBitSet_Get st i = Some (bit st i)"
proof -
  have "((ucast st :: u64) AND ucast (push_bit i (1 :: u32)) \<noteq> 0) = bit st i" (is "?l = _")
  proof -
    have "bit ((ucast st :: u64) AND ucast (push_bit i (1 :: u32))) n \<longleftrightarrow> n = i \<and> bit st i" for n
      using assms by (auto simp: bit_and_iff bit_unsigned_iff bit_push_bit_iff bit_exp_iff)
    then show ?thesis by (metis bit_0_eq bit_word_eqI bot_apply bot_bool_def)
  qed
  then show ?thesis using assms by (simp add: FastBitSet_Get_def one_shl_def)
qed

lemma FastBitSet_Set_bit:
  fixes st :: "'a::len word"
  assumes "i < 32" "FastBitSet_Set st i v = Some st'"
  shows "bit st' j \<longleftrightarrow>
    j < LENGTH('a) \<and> (if i = j then v else bit st j \<and> (v \<or> j < 32))"
  using assms
  by (auto simp: FastBitSet_Set_def one_shl_def bit_or_iff bit_and_iff bit_unsigned_iff
      bit_not_iff bit_push_bit_iff bit_exp_iff dest: bit_imp_le_length split: if_splits)

lemma fast_bit_container:
  assumes "LENGTH('a::len) \<le> 32"
  shows "bit_container (FastBitSet_Get :: 'a word \<Rightarrow> _) FastBitSet_Set FastBitSet_Union
           FastBitSet_Intersect FastBitSet_SetAll LENGTH('a) (\<lambda>_. True)"
proof (unfold_locales, goal_cases)
  case (4 s i j v s')
  then have "i < 32" "j < 32" using assms by auto
  then show ?case
    using 4 FastBitSet_Set_bit [OF _ 4(4), of j] by (auto simp: FastBitSet_Get_bit)
qed (use assms in \<open>auto simp: FastBitSet_Get_bit FastBitSet_Set_def one_shl_def FastBitSet_SetAll_def
      FastBitSet_Union_def FastBitSet_Intersect_def bit_or_iff bit_and_iff\<close>)

interpretation fast8: bit_container "FastBitSet_Get :: u8 \<Rightarrow> _" FastBitSet_Set FastBitSet_Union
    FastBitSet_Intersect FastBitSet_SetAll "LENGTH(8)" "\<lambda>_. True"
  by (rule fast_bit_container) simp

interpretation fast16: bit_container "FastBitSet_Get :: u16 \<Rightarrow> _" FastBitSet_Set FastBitSet_Union
    FastBitSet_Intersect FastBitSet_SetAll "LENGTH(16)" "\<lambda>_. True"
  by (rule fast_bit_container) simp

interpretation fast32: bit_container "FastBitSet_Get :: u32 \<Rightarrow> _" FastBitSet_Set FastBitSet_Union
    FastBitSet_Intersect FastBitSet_SetAll "LENGTH(32)" "\<lambda>_. True"
  by (rule fast_bit_container) simp

section \<open>Bloom filters never give a false negative\<close>

lemma bloom_slot_less:
  assumes "bloom_wf n slots"
  shows "bloom_slot n key < length slots"
proof -
  have n: "0 < n" "n mod 32 = 0" "length slots = n div 32"
    using assms by (auto simp: bloom_wf_def NUM_BITS_PER_SLOT_def)
  have "unat key mod n < n" using n(1) by simp
  then have "(unat key mod n) div 32 < n div 32" using n(2) by (auto elim!: dvdE simp: mod_eq_0_iff_dvd)
  then show ?thesis using n(3) by (simp add: bloom_slot_def NUM_BITS_PER_SLOT_def)
qed

lemma BloomFilter_Add_wf: "bloom_wf n slots \<Longrightarrow> bloom_wf n (BloomFilter_Add n slots keys)"
  by (induction n slots keys rule: BloomFilter_Add.induct) (simp_all add: Let_def bloom_wf_def)

lemma BloomFilter_Add_mono:
  assumes "bloom_wf n slots" "bit (slots ! s) b"
  shows "bit (BloomFilter_Add n slots keys ! s) b"
  using assms
proof (induction n slots keys rule: BloomFilter_Add.induct)
  case (2 n slots key keys)
  let ?slots = "slots[bloom_slot n key := slots ! bloom_slot n key OR push_bit (bloom_bit n key) 1]"
  have "bloom_wf n ?slots" using "2.prems" by (simp add: bloom_wf_def)
  moreover have "bit (?slots ! s) b"
    using "2.prems" bloom_slot_less [OF "2.prems"(1)]
    by (cases "s = bloom_slot n key") (auto simp: bit_or_iff)
  ultimately show ?case using "2.IH" by (simp add: Let_def)
qed simp

lemma BloomFilter_MightContain_iff:
  "BloomFilter_MightContain n slots keys \<longleftrightarrow>
     (\<forall>key \<in> set keys. bit (slots ! bloom_slot n key) (bloom_bit n key))"
proof (induction n slots keys rule: BloomFilter_MightContain.induct)
  case (2 n slots key keys)
  have b: "bloom_bit n key < 32" by (simp add: bloom_bit_def NUM_BITS_PER_SLOT_def)
  have "(w AND push_bit (bloom_bit n key) 1 = 0) = (\<not> bit w (bloom_bit n key))" for w :: u32
    using b by (simp add: and_exp_eq_0_iff_not_bit push_bit_of_1)
  then show ?case using 2 by (auto simp: Let_def)
qed simp

lemma BloomFilter_Add_sets:
  assumes "bloom_wf n slots" "key \<in> set keys"
  shows "bit (BloomFilter_Add n slots keys ! bloom_slot n key) (bloom_bit n key)"
  using assms
proof (induction n slots keys rule: BloomFilter_Add.induct)
  case (2 n slots k keys)
  let ?slots = "slots[bloom_slot n k := slots ! bloom_slot n k OR push_bit (bloom_bit n k) 1]"
  have wf: "bloom_wf n ?slots" using "2.prems" by (simp add: bloom_wf_def)
  show ?case
  proof (cases "key = k")
    case True
    have "bloom_bit n k < 32" by (simp add: bloom_bit_def NUM_BITS_PER_SLOT_def)
    then have "bit (?slots ! bloom_slot n k) (bloom_bit n k)"
      using bloom_slot_less [OF "2.prems"(1)] by (simp add: bit_or_iff bit_push_bit_iff bit_exp_iff)
    then show ?thesis using BloomFilter_Add_mono [OF wf] True by (simp add: Let_def)
  next
    case False
    then show ?thesis using "2.IH" "2.prems" wf by (auto simp: Let_def)
  qed
qed simp

section \<open>Properties\<close>

text \<open>a packed array stores its elements independently. For every legal element width,
  reading element \<open>j\<close> after writing element \<open>i\<close> gives the written value (reduced to the
  element width) when \<open>i = j\<close> and the old element otherwise, even where both elements share
  a byte; and every element the template promises room for can be written.\<close>

theorem packed_array_read_after_write:
  assumes "pa_static_asserts k n" and "length st = pa_NUM_BYTES k n" and "i < n"
  shows "\<exists>st'. PackedArray_Set k st i v = Some st' \<and> length st' = length st \<and>
    (\<forall>j. PackedArray_Get k st' j =
       (if j = i then Some (v AND pa_BIT_MASK k) else PackedArray_Get k st j))"
proof -
  have k: "0 < k" "k < 8" and n: "n \<le> pa_NUM_BYTES k n * pa_NUM_PER_BYTE k"
    using assms(1) by (auto simp: pa_static_asserts_def)
  have "i < pa_NUM_BYTES k n * pa_NUM_PER_BYTE k" using n assms(3) by linarith
  then have "pa_IndexOf k i < length st"
    using assms(2) by (simp add: pa_IndexOf_def less_mult_imp_div_less)
  then obtain st' where "PackedArray_Set k st i v = Some st'"
    using PackedArray_Set_defined by blast
  then show ?thesis
    using PackedArray_Get_Set [OF k] PackedArray_Set_length by (auto intro!: exI [of _ st'])
qed

theorem packed_array_read_after_write_witness:
  "\<exists>st'. PackedArray_Set 3 [0, 0, 0, 0 :: u8] 5 6 = Some st' \<and> length st' = length [0, 0, 0, 0 :: u8] \<and>
    (\<forall>j. PackedArray_Get 3 st' j =
       (if j = 5 then Some (6 AND pa_BIT_MASK 3) else PackedArray_Get 3 [0, 0, 0, 0] j))"
proof -
  have "pa_static_asserts 3 7" "length [0, 0, 0, 0 :: u8] = pa_NUM_BYTES 3 7"
    by (simp_all add: pa_static_asserts_def pa_NUM_BYTES_def pa_NUM_ELEMS_def pa_NUM_PER_BYTE_def
        pa_SIZE_def align_to_def align_factor_def)
  then show ?thesis by (rule packed_array_read_after_write) simp
qed

text \<open>The bit set that backs a register set (15 bits, so a 16-bit integer) is a set of bit
  indices. Setting or clearing an index within the width is always defined, and afterwards
  exactly that index has been added or removed.\<close>

theorem fast_bitset_put:
  fixes st :: u16
  assumes "i < 16"
  shows "\<exists>st'. FastBitSet_Set st i v = Some st' \<and>
    {j. j < 16 \<and> FastBitSet_Get st' j = Some True} =
      (if v then insert i {j. j < 16 \<and> FastBitSet_Get st j = Some True}
       else {j. j < 16 \<and> FastBitSet_Get st j = Some True} - {i})"
proof -
  have "i < LENGTH(16)" using assms by simp
  then obtain st' where st': "FastBitSet_Set st i v = Some st'"
    using fast16.put_total [of i st v] by fastforce
  then show ?thesis
    using fast16.members_put [OF TrueI \<open>i < LENGTH(16)\<close> st'] unfolding fast16.members_def by auto
qed

theorem fast_bitset_put_witness:
  "\<exists>st'. FastBitSet_Set (5 :: u16) 14 True = Some st' \<and>
    {j. j < 16 \<and> FastBitSet_Get st' j = Some True} =
      (if True then insert 14 {j. j < 16 \<and> FastBitSet_Get (5 :: u16) j = Some True}
       else {j. j < 16 \<and> FastBitSet_Get (5 :: u16) j = Some True} - {14})"
  by (rule fast_bitset_put) simp

text \<open>the 64-bit specialisation is not a set of 64 indices. Indices from 32 on cannot be
  read or written without an undefined shift, and clearing any index below 32 also clears all
  indices from 32 on, because the complemented 32-bit mask is zero extended.\<close>

theorem fast_bitset_64_clear_drops_high_half:
  fixes st :: u64
  assumes "i < 32"
  shows "\<exists>st'. FastBitSet_Set st i False = Some st' \<and> (\<forall>j \<ge> 32. \<not> bit st' j) \<and>
    (\<forall>j \<ge> 32. FastBitSet_Set st j v = None \<and> FastBitSet_Get st j = None)"
proof -
  obtain st' where st': "FastBitSet_Set st i False = Some st'"
    using assms by (auto simp: FastBitSet_Set_def one_shl_def)
  then have "\<not> bit st' j" if "32 \<le> j" for j
    using FastBitSet_Set_bit [OF assms st'] assms that by auto
  moreover have "FastBitSet_Set st j v = None \<and> FastBitSet_Get st j = None" if "32 \<le> j" for j
    using that by (simp add: FastBitSet_Set_def FastBitSet_Get_def one_shl_def)
  ultimately show ?thesis using st' by blast
qed

theorem fast_bitset_64_clear_drops_high_half_witness:
  "\<exists>st'. FastBitSet_Set (NOT 0 :: u64) 3 False = Some st' \<and> (\<forall>j \<ge> 32. \<not> bit st' j) \<and>
    (\<forall>j \<ge> 32. FastBitSet_Set (NOT 0 :: u64) j True = None \<and> FastBitSet_Get (NOT 0 :: u64) j = None)"
  by (rule fast_bitset_64_clear_drops_high_half) simp

text \<open>a Bloom filter gives no false negatives. Once a set of hashes has been added, a query
  for any sub-collection of them succeeds, whatever is added before or afterwards.\<close>

theorem bloom_no_false_negatives:
  assumes "bloom_wf n slots" and "set query \<subseteq> set keys"
  shows "BloomFilter_MightContain n (BloomFilter_Add n (BloomFilter_Add n slots keys) later) query"
proof -
  have "bit (BloomFilter_Add n slots keys ! bloom_slot n key) (bloom_bit n key)"
    if "key \<in> set query" for key
    using BloomFilter_Add_sets [OF assms(1)] assms(2) that by blast
  then show ?thesis
    using BloomFilter_Add_mono [OF BloomFilter_Add_wf [OF assms(1)]]
    by (auto simp: BloomFilter_MightContain_iff)
qed

theorem bloom_no_false_negatives_witness:
  "BloomFilter_MightContain 64
     (BloomFilter_Add 64 (BloomFilter_Add 64 (BloomFilter_Clear 64) [7, 40, 99]) [12]) [99, 7]"
proof -
  have "bloom_wf 64 (BloomFilter_Clear 64)"
    by (simp add: bloom_wf_def BloomFilter_Clear_def NUM_BITS_PER_SLOT_def)
  then show ?thesis by (rule bloom_no_false_negatives) simp
qed

end
