(* ===== verification/Cstring.thy ===== *)
theory Cstring
  imports Prelude
begin

text \<open>
  The C library routines Granary supplies for itself (\<^verbatim>\<open>granary/base/cstring.cc\<close>), over
  an explicit byte memory. A memory maps addresses to bytes and a pointer is an address;
  \<open>0\<close> is the null pointer. Addresses are natural numbers: a range that wraps around the
  address space is not represented. The loops that search for a terminating NUL are partial
  functions whose value is \<open>None\<close> when there is none.
\<close>

type_synonym mem = "nat \<Rightarrow> u8"

section \<open>Block operations\<close>

function copy_forward_loop :: "mem \<Rightarrow> nat \<Rightarrow> nat \<Rightarrow> nat \<Rightarrow> nat \<Rightarrow> mem" where
  "copy_forward_loop m dest src num_bytes i =
     (if i < num_bytes
      then copy_forward_loop (m(dest + i := m (src + i))) dest src num_bytes (Suc i)
      else m)"
  by pat_completeness auto
termination by (relation "measure (\<lambda>(m, d, s, n, i). n - i)") auto

definition copy_forward :: "mem \<Rightarrow> nat \<Rightarrow> nat \<Rightarrow> nat \<Rightarrow> mem" where
  "copy_forward m dest src num_bytes = copy_forward_loop m dest src num_bytes 0"

function copy_backward_loop :: "mem \<Rightarrow> nat \<Rightarrow> nat \<Rightarrow> nat \<Rightarrow> nat \<Rightarrow> mem" where
  "copy_backward_loop m dest src num_bytes i =
     (if i \<le> num_bytes
      then let j = num_bytes - i
           in copy_backward_loop (m(dest + j := m (src + j))) dest src num_bytes (Suc i)
      else m)"
  by pat_completeness auto
termination by (relation "measure (\<lambda>(m, d, s, n, i). Suc n - i)") auto

definition copy_backward :: "mem \<Rightarrow> nat \<Rightarrow> nat \<Rightarrow> nat \<Rightarrow> mem" where
  "copy_backward m dest src num_bytes = copy_backward_loop m dest src num_bytes 1"

declare copy_forward_loop.simps [simp del] copy_backward_loop.simps [simp del]

definition memmove :: "mem \<Rightarrow> nat \<Rightarrow> nat \<Rightarrow> nat \<Rightarrow> mem \<times> nat" where
  "memmove m dest src num_bytes =
     (if num_bytes \<noteq> 0 \<and> dest \<noteq> src
      then (if dest < src then copy_forward m dest src num_bytes
            else copy_backward m dest src num_bytes, dest)
      else (m, dest))"

definition memcpy :: "mem \<Rightarrow> nat \<Rightarrow> nat \<Rightarrow> nat \<Rightarrow> mem \<times> nat" where
  "memcpy m dest src num_bytes = memmove m dest src num_bytes"

function memset_loop :: "mem \<Rightarrow> nat \<Rightarrow> u8 \<Rightarrow> nat \<Rightarrow> nat \<Rightarrow> mem" where
  "memset_loop m dest val num_bytes i =
     (if i < num_bytes then memset_loop (m(dest + i := val)) dest val num_bytes (Suc i) else m)"
  by pat_completeness auto
termination by (relation "measure (\<lambda>(m, d, v, n, i). n - i)") auto

declare memset_loop.simps [simp del]

definition memset :: "mem \<Rightarrow> nat \<Rightarrow> u32 \<Rightarrow> nat \<Rightarrow> mem \<times> nat" where
  "memset m dest value num_bytes = (memset_loop m dest (ucast value) num_bytes 0, dest)"

function memcmp_loop :: "mem \<Rightarrow> nat \<Rightarrow> nat \<Rightarrow> nat \<Rightarrow> nat \<Rightarrow> int" where
  "memcmp_loop m p1 p2 num_bytes i =
     (if i < num_bytes
      then if m (p1 + i) \<noteq> m (p2 + i)
           then uint (m (p1 + i)) - uint (m (p2 + i))
           else memcmp_loop m p1 p2 num_bytes (Suc i)
      else 0)"
  by pat_completeness auto
termination by (relation "measure (\<lambda>(m, p1, p2, n, i). n - i)") auto

declare memcmp_loop.simps [simp del]

definition memcmp :: "mem \<Rightarrow> nat \<Rightarrow> nat \<Rightarrow> nat \<Rightarrow> int" where
  "memcmp m p1 p2 num_bytes = (if p1 = p2 then 0 else memcmp_loop m p1 p2 num_bytes 0)"

section \<open>String operations\<close>

partial_function (option) strcmp_loop :: "mem \<Rightarrow> nat \<Rightarrow> nat \<Rightarrow> nat \<Rightarrow> int option" where
  "strcmp_loop m p1 p2 i =
     (if m (p1 + i) \<noteq> m (p2 + i) then Some (uint (m (p1 + i)) - uint (m (p2 + i)))
      else if m (p1 + i) = 0 then Some 0
      else strcmp_loop m p1 p2 (Suc i))"

definition strcmp :: "mem \<Rightarrow> nat \<Rightarrow> nat \<Rightarrow> int option" where
  "strcmp m p1 p2 =
     (if p1 = p2 then Some 0
      else if p1 = 0 then Some (-1)
      else if p2 = 0 then Some 1
      else strcmp_loop m p1 p2 0)"

partial_function (option) strcpy_loop :: "mem \<Rightarrow> nat \<Rightarrow> nat \<Rightarrow> nat \<Rightarrow> mem option" where
  "strcpy_loop m dest source i =
     (let chr = m (source + i); m' = m(dest + i := chr)
      in if chr = 0 then Some m' else strcpy_loop m' dest source (Suc i))"

definition strcpy :: "mem \<Rightarrow> nat \<Rightarrow> nat \<Rightarrow> mem option" where
  "strcpy m dest source = (if dest \<noteq> source then strcpy_loop m dest source 0 else Some m)"

text \<open>The loop of \<^verbatim>\<open>strncpy\<close> returns the memory and the value of \<open>i\<close> when it is left.\<close>

function strncpy_loop :: "mem \<Rightarrow> nat \<Rightarrow> nat \<Rightarrow> nat \<Rightarrow> nat \<Rightarrow> mem \<times> nat" where
  "strncpy_loop m dest source max_len i =
     (if i < max_len
      then let chr = m (source + i); m' = m(dest + i := chr)
           in if chr = 0 then (m', i) else strncpy_loop m' dest source max_len (Suc i)
      else (m, i))"
  by pat_completeness auto
termination by (relation "measure (\<lambda>(m, d, s, n, i). n - i)") auto

declare strncpy_loop.simps [simp del]

definition strncpy :: "mem \<Rightarrow> nat \<Rightarrow> nat \<Rightarrow> nat \<Rightarrow> mem" where
  "strncpy m dest source max_len =
     (if dest \<noteq> source
      then let (m', i) = strncpy_loop m dest source max_len 0
           in if max_len \<le> i \<and> max_len \<noteq> 0 then m'(dest + (max_len - 1) := 0) else m'
      else m)"

partial_function (option) strlen_loop :: "mem \<Rightarrow> nat \<Rightarrow> nat \<Rightarrow> nat option" where
  "strlen_loop m str len = (if m str \<noteq> 0 then strlen_loop m (Suc str) (Suc len) else Some len)"

definition strlen :: "mem \<Rightarrow> nat \<Rightarrow> nat option" where
  "strlen m str = (if str \<noteq> 0 then strlen_loop m str 0 else Some 0)"

section \<open>What the block operations do\<close>

lemma copy_forward_loop_apply:
  assumes "dest < src"
  shows "copy_forward_loop m dest src n i a =
    (if dest + i \<le> a \<and> a < dest + n then m (src + (a - dest)) else m a)"
  using assms
proof (induction m dest src n i rule: copy_forward_loop.induct)
  case (1 m dest src n i)
  show ?case
  proof (cases "i < n")
    case True
    have step: "copy_forward_loop m dest src n i =
        copy_forward_loop (m(dest + i := m (src + i))) dest src n (Suc i)"
      using True by (subst copy_forward_loop.simps) simp
    show ?thesis unfolding step "1.IH" [OF True "1.prems"] using True "1.prems" by auto
  next
    case False
    then show ?thesis by (subst copy_forward_loop.simps) auto
  qed
qed

lemma copy_backward_loop_apply:
  assumes "src < dest" "1 \<le> i"
  shows "copy_backward_loop m dest src n i a =
    (if dest \<le> a \<and> a + i \<le> dest + n then m (src + (a - dest)) else m a)"
  using assms
proof (induction m dest src n i rule: copy_backward_loop.induct)
  case (1 m dest src n i)
  show ?case
  proof (cases "i \<le> n")
    case True
    have step: "copy_backward_loop m dest src n i =
        copy_backward_loop (m(dest + (n - i) := m (src + (n - i)))) dest src n (Suc i)"
      using True by (subst copy_backward_loop.simps) (simp add: Let_def)
    have le: "1 \<le> Suc i" by simp
    show ?thesis unfolding step "1.IH" [OF True refl "1.prems"(1) le]
      using True "1.prems" by auto
  next
    case False
    then show ?thesis by (subst copy_backward_loop.simps) auto
  qed
qed

lemma memset_loop_apply:
  "memset_loop m dest v n i a = (if dest + i \<le> a \<and> a < dest + n then v else m a)"
proof (induction m dest v n i rule: memset_loop.induct)
  case (1 m dest v n i)
  show ?case
  proof (cases "i < n")
    case True
    have step: "memset_loop m dest v n i = memset_loop (m(dest + i := v)) dest v n (Suc i)"
      using True by (subst memset_loop.simps) simp
    show ?thesis unfolding step "1.IH" [OF True] using True by auto
  next
    case False
    then show ?thesis by (subst memset_loop.simps) auto
  qed
qed

lemma memcmp_loop_zero_iff:
  "memcmp_loop m p1 p2 n i = 0 \<longleftrightarrow> (\<forall>j. i \<le> j \<and> j < n \<longrightarrow> m (p1 + j) = m (p2 + j))"
proof (induction m p1 p2 n i rule: memcmp_loop.induct)
  case (1 m p1 p2 n i)
  show ?case
  proof (cases "i < n \<and> m (p1 + i) = m (p2 + i)")
    case True
    then show ?thesis using 1
      by (subst memcmp_loop.simps) (auto simp: Suc_le_eq dest: le_imp_less_or_eq)
  next
    case False
    then show ?thesis by (subst memcmp_loop.simps) (auto simp: word_uint_eq_iff)
  qed
qed

section \<open>NUL-terminated strings in memory\<close>

fun cstr_at :: "mem \<Rightarrow> nat \<Rightarrow> u8 list \<Rightarrow> bool" where
  "cstr_at m p [] = (m p = 0)"
| "cstr_at m p (c # cs) = (c \<noteq> 0 \<and> m p = c \<and> cstr_at m (Suc p) cs)"

lemma strlen_loop_cstr: "cstr_at m p cs \<Longrightarrow> strlen_loop m p n = Some (n + length cs)"
  by (induction cs arbitrary: p n) (auto simp: strlen_loop.simps)

lemma strcmp_loop_cstr:
  "cstr_at m (p + i) as \<Longrightarrow> cstr_at m (q + i) bs \<Longrightarrow>
     \<exists>r. strcmp_loop m p q i = Some r \<and> (r = 0 \<longleftrightarrow> as = bs)"
proof (induction as arbitrary: bs i)
  case Nil
  then show ?case
    by (cases bs) (auto simp: strcmp_loop.simps [of m p q i] word_uint_eq_iff)
next
  case (Cons a as)
  show ?case
  proof (cases bs)
    case Nil
    then show ?thesis using Cons.prems
      by (auto simp: strcmp_loop.simps [of m p q i] word_uint_eq_iff)
  next
    case (Cons b bs')
    show ?thesis
    proof (cases "a = b")
      case True
      then have "\<exists>r. strcmp_loop m p q (Suc i) = Some r \<and> (r = 0 \<longleftrightarrow> as = bs')"
        using Cons.IH [of "Suc i" bs'] Cons.prems Cons by simp
      then show ?thesis
        using True Cons Cons.prems by (auto simp: strcmp_loop.simps [of m p q i])
    next
      case False
      then show ?thesis using Cons Cons.prems
        by (auto simp: strcmp_loop.simps [of m p q i] word_uint_eq_iff)
    qed
  qed
qed

lemma strncpy_loop_bounds:
  "strncpy_loop m dest source n i = (m', k) \<Longrightarrow> i \<le> n \<Longrightarrow>
     i \<le> k \<and> k \<le> n \<and> (k < n \<longrightarrow> m' (dest + k) = 0) \<and>
     (\<forall>a. a < dest + i \<or> dest + n \<le> a \<longrightarrow> m' a = m a)"
proof (induction m dest source n i rule: strncpy_loop.induct)
  case (1 m dest source n i)
  let ?m = "m(dest + i := m (source + i))"
  show ?case
  proof (cases "i < n \<and> m (source + i) \<noteq> 0")
    case True
    then have "strncpy_loop ?m dest source n (Suc i) = (m', k)"
      using "1.prems"(1) by (subst (asm) strncpy_loop.simps) (simp add: Let_def)
    then have "Suc i \<le> k \<and> k \<le> n \<and> (k < n \<longrightarrow> m' (dest + k) = 0) \<and>
        (\<forall>a. a < dest + Suc i \<or> dest + n \<le> a \<longrightarrow> m' a = ?m a)"
      by (intro "1.IH" [OF _ refl refl]) (use True in \<open>auto simp: fun_upd_def\<close>)
    then show ?thesis using True by auto
  next
    case False
    then show ?thesis
      using "1.prems" by (subst (asm) strncpy_loop.simps) (auto simp: Let_def split: if_splits)
  qed
qed

section \<open>Properties\<close>

text \<open>\<^verbatim>\<open>memmove\<close> copies the bytes the source range held before the call, for
  overlapping ranges in either direction too, changes nothing outside the destination range,
  and returns the destination.\<close>

theorem memmove_copies:
  "memmove m dest src n =
     ((\<lambda>a. if dest \<le> a \<and> a < dest + n then m (src + (a - dest)) else m a), dest)"
proof -
  consider "n = 0 \<or> dest = src" | "n \<noteq> 0" "dest < src" | "n \<noteq> 0" "src < dest" by linarith
  then show ?thesis
  proof cases
    case 1
    then show ?thesis by (auto simp: memmove_def fun_eq_iff)
  next
    case 2
    then show ?thesis
      by (simp add: memmove_def copy_forward_def fun_eq_iff copy_forward_loop_apply)
  next
    case 3
    then show ?thesis
      by (simp add: memmove_def copy_backward_def fun_eq_iff copy_backward_loop_apply Suc_le_eq)
  qed
qed

text \<open>On two NUL-terminated strings \<^verbatim>\<open>strcmp\<close> returns, and returns zero exactly when
  the strings are equal; \<^verbatim>\<open>strlen\<close> returns their length.\<close>

theorem strcmp_strlen_cstrings:
  assumes "cstr_at m p as" "cstr_at m q bs" "p \<noteq> 0" "q \<noteq> 0"
  shows "(\<exists>r. strcmp m p q = Some r \<and> (r = 0 \<longleftrightarrow> as = bs)) \<and> strlen m p = Some (length as)"
proof (cases "p = q")
  case True
  then have "as = bs" using assms
    by (induction as arbitrary: bs p q) (auto elim: cstr_at.elims)
  then show ?thesis using True assms strlen_loop_cstr [OF assms(1)] by (auto simp: strcmp_def strlen_def)
next
  case False
  then show ?thesis
    using strcmp_loop_cstr [of m p 0 as q bs] strlen_loop_cstr [OF assms(1)] assms
    by (simp add: strcmp_def strlen_def)
qed

theorem strcmp_strlen_cstrings_witness:
  "let m = (\<lambda>_. 0)(8 := 104, 9 := 105, 16 := 104 :: u8)
   in (\<exists>r. strcmp m 8 16 = Some r \<and> (r = 0 \<longleftrightarrow> [104, 105] = [104 :: u8])) \<and> strlen m 8 = Some (length [104, 105 :: u8])"
  unfolding Let_def by (rule strcmp_strlen_cstrings) simp_all

end
