(* ===== verification/Strings.thy ===== *)
theory Strings
  imports Prelude
begin

text \<open>
  String formatting and scanning: \<^verbatim>\<open>granary/base/string.h\<close> and
  \<^verbatim>\<open>granary/base/string.cc\<close>. A NUL-terminated C string that is only read is the list
  of its characters, without the terminator. A character buffer that is written is a list as
  long as the C array. A 64-bit integer is a natural number with the reduction modulo
  \<open>2 ^ 64\<close> written out. Undefined behaviour (a division by zero, a read beyond a
  terminator, a write outside an array, a variadic argument of the wrong type) is \<open>None\<close>.
\<close>

abbreviation NUL :: char where
  "NUL \<equiv> CHR 0x00"

definition char_plus :: "char \<Rightarrow> nat \<Rightarrow> char" where
  "char_plus c n = char_of (of_char c + n)"

definition char_minus :: "char \<Rightarrow> char \<Rightarrow> nat" where
  "char_minus c d = of_char c - of_char d"

definition char_le :: "char \<Rightarrow> char \<Rightarrow> bool" where
  "char_le c d \<longleftrightarrow> (of_char c :: nat) \<le> of_char d"

section \<open>Bounded output buffers\<close>

record write_buffer =
  wb_data :: "char list"  \<comment> \<open>the array between \<open>buffer_begin\<close> and \<open>buffer_end\<close>\<close>
  wb_pos :: nat           \<comment> \<open>\<open>buffer - buffer_begin\<close>\<close>
  wb_end_logical :: nat   \<comment> \<open>\<open>buffer_end_logical - buffer_begin\<close>\<close>
  wb_overrun :: bool      \<comment> \<open>a character was stored outside the array\<close>

definition WriteBuffer :: "char list \<Rightarrow> write_buffer" where
  "WriteBuffer arr =
     \<lparr>wb_data = arr, wb_pos = 0,
      wb_end_logical = (if 0 < length arr then length arr - 1 else length arr), wb_overrun = False\<rparr>"

text \<open>\<^verbatim>\<open>*p = ch\<close> for a pointer \<open>i\<close> characters into the array. A store outside the array is
  recorded; it makes the result of the functions that use the buffer \<open>None\<close>.\<close>

definition wb_store :: "write_buffer \<Rightarrow> nat \<Rightarrow> char \<Rightarrow> write_buffer" where
  "wb_store b i ch =
     (if i < length (wb_data b) then b\<lparr>wb_data := (wb_data b)[i := ch]\<rparr> else b\<lparr>wb_overrun := True\<rparr>)"

definition CanWrite :: "write_buffer \<Rightarrow> bool" where
  "CanWrite b \<longleftrightarrow> wb_pos b < wb_end_logical b"

definition Write_char :: "write_buffer \<Rightarrow> char \<Rightarrow> write_buffer \<times> bool" where
  "Write_char b ch =
     (if CanWrite b
      then ((wb_store b (wb_pos b) ch)\<lparr>wb_pos := Suc (wb_pos b)\<rparr>, True)
      else (b, False))"

text \<open>The range-based loop over a \<^verbatim>\<open>NULTerminatedStringIterator\<close>: every character of
  the string in turn.\<close>

fun Write_string_loop :: "write_buffer \<Rightarrow> string \<Rightarrow> bool \<Rightarrow> write_buffer \<times> bool" where
  "Write_string_loop b [] ret = (b, ret)"
| "Write_string_loop b (ch # str) ret =
     (let (b', ret') = Write_char b ch in Write_string_loop b' str ret')"

definition Write_string :: "write_buffer \<Rightarrow> string \<Rightarrow> write_buffer \<times> bool" where
  "Write_string b str = Write_string_loop b str (CanWrite b)"

definition NumCharsWritten :: "write_buffer \<Rightarrow> nat" where
  "NumCharsWritten b = wb_pos b"

definition Finalize :: "write_buffer \<Rightarrow> write_buffer" where
  "Finalize b =
     (if wb_end_logical b < length (wb_data b)
      then wb_store (wb_store b (wb_end_logical b) NUL) (wb_pos b) NUL
      else b)"

text \<open>\<^verbatim>\<open>CopyString\<close>: \<open>None\<close> stands for a null pointer. The result is the buffer and the
  return value.\<close>

definition CopyString :: "char list option \<Rightarrow> string option \<Rightarrow> (char list option \<times> nat) option" where
  "CopyString buffer str =
     (case (buffer, str) of
        (Some arr, Some s) \<Rightarrow>
          let buff = Finalize (fst (Write_string (WriteBuffer arr) s))
          in if wb_overrun buff then None else Some (Some (wb_data buff), NumCharsWritten buff)
      | _ \<Rightarrow> Some (buffer, 0))"

definition StringsMatch :: "string \<Rightarrow> string \<Rightarrow> bool" where
  "StringsMatch str1 str2 \<longleftrightarrow> str1 = str2"

section \<open>Printing integers\<close>

definition FormatDigit :: "write_buffer \<Rightarrow> nat \<Rightarrow> write_buffer" where
  "FormatDigit buff digit =
     fst (Write_char buff
       (if digit < 10 then char_plus (CHR ''0'') digit else char_plus (CHR ''a'') (digit - 10)))"

text \<open>\<^verbatim>\<open>for (; data / max_base; max_base *= base) {}\<close>, on 64-bit values.\<close>

partial_function (option) grow_max_base :: "nat \<Rightarrow> nat \<Rightarrow> nat \<Rightarrow> nat option" where
  "grow_max_base data base max_base =
     (if max_base = 0 then None
      else if data div max_base \<noteq> 0 then grow_max_base data base (max_base * base mod 2 ^ 64)
      else Some max_base)"

text \<open>\<^verbatim>\<open>for (max_base /= base; max_base; max_base /= base) { ... }\<close>; the division that
  starts the loop is done by the caller.\<close>

partial_function (option) format_digits :: "write_buffer \<Rightarrow> nat \<Rightarrow> nat \<Rightarrow> nat \<Rightarrow> write_buffer option"
where
  "format_digits buff data base max_base =
     (if max_base = 0 then Some buff
      else let digit = data div max_base
           in format_digits (FormatDigit buff digit) (data - digit * max_base) base (max_base div base))"

definition FormatGenericInt :: "write_buffer \<Rightarrow> nat \<Rightarrow> nat \<Rightarrow> write_buffer option" where
  "FormatGenericInt buff data base =
     (if data = 0 then Some (fst (Write_char buff (CHR ''0'')))
      else let has_last_digit = base \<le> data;
               low_digit = data mod base;
               data' = (if has_last_digit then data div base else data)
           in Option.bind (grow_max_base data' base base) (\<lambda>max_base.
              Option.bind (format_digits buff data' base (max_base div base)) (\<lambda>buff'.
              Some (if has_last_digit then FormatDigit buff' low_digit else buff'))))"

section \<open>Scanning integers\<close>

definition DeFormatHexadecimal :: "char \<Rightarrow> nat \<Rightarrow> nat option" where
  "DeFormatHexadecimal digit val =
     (if char_le (CHR ''0'') digit \<and> char_le digit (CHR ''9'')
      then Some ((val * 16 + char_minus digit (CHR ''0'')) mod 2 ^ 64)
      else if char_le (CHR ''a'') digit \<and> char_le digit (CHR ''f'')
      then Some ((val * 16 + (char_minus digit (CHR ''a'') + 10)) mod 2 ^ 64)
      else if char_le (CHR ''A'') digit \<and> char_le digit (CHR ''F'')
      then Some ((val * 16 + (char_minus digit (CHR ''A'') + 10)) mod 2 ^ 64)
      else None)"

definition DeFormatDecimal :: "char \<Rightarrow> nat \<Rightarrow> nat option" where
  "DeFormatDecimal digit val =
     (if char_le (CHR ''0'') digit \<and> char_le digit (CHR ''9'')
      then Some ((val * 10 + char_minus digit (CHR ''0'')) mod 2 ^ 64)
      else None)"

text \<open>What a scan stores through its pointer argument.\<close>

datatype scanned = StoredChar char | Stored64 u64 | Stored32 u32

text \<open>The digit loop: the value, the number of characters consumed and the rest.\<close>

fun deformat_digits :: "(char \<Rightarrow> nat \<Rightarrow> nat option) \<Rightarrow> string \<Rightarrow> nat \<Rightarrow> nat \<Rightarrow> nat \<times> nat" where
  "deformat_digits get_digit [] val len = (val, len)"
| "deformat_digits get_digit (c # buffer) val len =
     (case get_digit c val of
        None \<Rightarrow> (val, len)
      | Some val' \<Rightarrow> deformat_digits get_digit buffer val' (Suc len))"

definition DeFormatGenericInt :: "string \<Rightarrow> bool \<Rightarrow> bool \<Rightarrow> nat \<Rightarrow> scanned \<times> nat" where
  "DeFormatGenericInt buffer is_64_bit is_signed base =
     (let is_negative = (is_signed \<and> buffer \<noteq> [] \<and> hd buffer = CHR ''-'');
          buffer' = (if is_negative then tl buffer else buffer);
          len0 = (if is_negative then 1 else 0);
          get_digit = (if base = 16 then DeFormatHexadecimal else DeFormatDecimal);
          (val, len) = deformat_digits get_digit buffer' 0 len0;
          w = (of_nat val :: u64);
          w' = (if is_negative then - w else w)
      in (if is_64_bit then Stored64 w' else Stored32 (ucast w'), len))"

section \<open>Formatted output\<close>

text \<open>A variadic argument, as the caller pushed it: an \<^verbatim>\<open>int\<close> or \<^verbatim>\<open>unsigned\<close>,
  a 64-bit integer or pointer, or a string.\<close>

datatype vararg = VInt u32 | VLong u64 | VString string

fun va_int :: "vararg list \<Rightarrow> (u32 \<times> vararg list) option" where
  "va_int (VInt i # args) = Some (i, args)"
| "va_int _ = None"

fun va_long :: "vararg list \<Rightarrow> (u64 \<times> vararg list) option" where
  "va_long (VLong i # args) = Some (i, args)"
| "va_long _ = None"

fun va_string :: "vararg list \<Rightarrow> (string \<times> vararg list) option" where
  "va_string (VString s # args) = Some (s, args)"
| "va_string _ = None"

text \<open>One conversion specifier after a \<^verbatim>\<open>%\<close>, other than the modifier \<^verbatim>\<open>l\<close>.
  Negating the most negative integer wraps, as two's complement hardware does.\<close>

definition format_spec ::
  "write_buffer \<Rightarrow> bool \<Rightarrow> nat \<Rightarrow> char \<Rightarrow> vararg list \<Rightarrow> (write_buffer \<times> vararg list) option" where
  "format_spec buff is_long base ch args =
     (if ch = CHR ''%'' then Some (fst (Write_char buff ch), args)
      else if ch = CHR ''c'' then
        Option.bind (va_int args) (\<lambda>(i, args').
          Some (fst (Write_char buff (char_of (unat (ucast i :: u8)))), args'))
      else if ch = CHR ''s'' then
        Option.bind (va_string args) (\<lambda>(s, args'). Some (fst (Write_string buff s), args'))
      else if ch = CHR ''d'' then
        Option.bind (if is_long then va_long args
                     else map_option (\<lambda>(i, args'). (scast i, args')) (va_int args))
          (\<lambda>(generic_int, args').
             let neg = sint generic_int < 0;
                 buff' = (if neg then fst (Write_char buff (CHR ''-'')) else buff);
                 magnitude = (if neg then - generic_int else generic_int)
             in map_option (\<lambda>b. (b, args')) (FormatGenericInt buff' (unat magnitude) 10))
      else if ch = CHR ''u'' \<or> ch = CHR ''x'' \<or> ch = CHR ''p'' then
        let base' = (if ch = CHR ''x'' \<or> ch = CHR ''p'' then 16 else base);
            is_long' = (is_long \<or> ch = CHR ''p'');
            buff' = (if ch = CHR ''p'' then fst (Write_string buff ''0x'') else buff)
        in Option.bind (if is_long' then va_long args
                        else map_option (\<lambda>(i, args'). (ucast i, args')) (va_int args))
             (\<lambda>(generic_uint, args').
                map_option (\<lambda>b. (b, args')) (FormatGenericInt buff' (unat (generic_uint :: u64)) base'))
      else Some (fst (Write_char buff ch), args))"

datatype format_state = STATE_CONTINUE | STATE_SEEN_FORMAT_SPEC

fun format_loop ::
  "write_buffer \<Rightarrow> format_state \<Rightarrow> bool \<Rightarrow> nat \<Rightarrow> string \<Rightarrow> vararg list \<Rightarrow> write_buffer option" where
  "format_loop buff st is_long base [] args = Some buff"
| "format_loop buff STATE_CONTINUE is_long base (ch # fmt) args =
     (if ch = CHR ''%'' then format_loop buff STATE_SEEN_FORMAT_SPEC False 10 fmt args
      else format_loop (fst (Write_char buff ch)) STATE_CONTINUE is_long base fmt args)"
| "format_loop buff STATE_SEEN_FORMAT_SPEC is_long base (ch # fmt) args =
     (if ch = CHR ''l'' then format_loop buff STATE_SEEN_FORMAT_SPEC True base fmt args
      else Option.bind (format_spec buff is_long base ch args) (\<lambda>(buff', args').
             format_loop buff' STATE_CONTINUE is_long base fmt args'))"

text \<open>\<^verbatim>\<open>VFormat\<close>: the buffer after the destructor of the \<^verbatim>\<open>WriteBuffer\<close> has finalised
  it, and the number of characters.\<close>

definition VFormat :: "char list option \<Rightarrow> string option \<Rightarrow> vararg list \<Rightarrow> (char list option \<times> nat) option" where
  "VFormat buffer format args =
     (case (buffer, format) of
        (Some arr, Some fmt) \<Rightarrow>
          if arr = [] then Some (buffer, 0)
          else Option.bind (format_loop (WriteBuffer arr) STATE_CONTINUE False 10 fmt args) (\<lambda>buff.
                 let final = Finalize buff
                 in if wb_overrun final then None else Some (Some (wb_data final), NumCharsWritten buff))
      | _ \<Rightarrow> Some (buffer, 0))"

section \<open>Formatted input\<close>

text \<open>
  A format or buffer pointer is the list of the characters from it up to the terminator;
  the empty list points at the terminator. \<open>seek_spec\<close> is the \<^verbatim>\<open>retry\<close> label: it
  advances the format pointer, reads the conversion character, and goes round again after
  an \<^verbatim>\<open>l\<close>. Reading beyond the terminator is \<open>None\<close>.
\<close>

fun seek_spec :: "string \<Rightarrow> bool \<Rightarrow> (string \<times> bool) option" where
  "seek_spec [] is_64_bit = None"
| "seek_spec (_ # fmt) is_64_bit =
     (if fmt \<noteq> [] \<and> hd fmt = CHR ''l'' then seek_spec fmt True else Some (fmt, is_64_bit))"

lemma seek_spec_length: "seek_spec fmt b = Some (fmt', b') \<Longrightarrow> length fmt' < length fmt"
  by (induction fmt b rule: seek_spec.induct) (auto split: if_splits)

record deformat_state =
  df_is_64_bit :: bool
  df_is_signed :: bool
  df_base :: nat
  df_num_args :: nat
  df_out :: "scanned list"

definition df_store :: "deformat_state \<Rightarrow> scanned \<Rightarrow> deformat_state" where
  "df_store s v = s\<lparr>df_num_args := Suc (df_num_args s), df_out := df_out s @ [v]\<rparr>"

text \<open>The \<^verbatim>\<open>switch\<close> on the conversion character: the new state, the number of buffer
  characters consumed, and whether the scan goes on (\<^verbatim>\<open>break\<close>) or is over
  (\<^verbatim>\<open>goto done\<close>).\<close>

definition deformat_int :: "deformat_state \<Rightarrow> string \<Rightarrow> deformat_state \<times> nat \<times> bool" where
  "deformat_int s buffer =
     (let (v, len) = DeFormatGenericInt buffer (df_is_64_bit s) (df_is_signed s) (df_base s)
      in if len \<noteq> 0 then (df_store s v, len, True)
         else (s\<lparr>df_out := df_out s @ [v]\<rparr>, 0, False))"

definition deformat_switch :: "deformat_state \<Rightarrow> char \<Rightarrow> string \<Rightarrow> deformat_state \<times> nat \<times> bool" where
  "deformat_switch s ch buffer =
     (if ch = CHR ''c'' then (df_store s (StoredChar (if buffer = [] then NUL else hd buffer)), 1, True)
      else if ch = CHR ''d'' then deformat_int (s\<lparr>df_is_signed := True\<rparr>) buffer
      else if ch = CHR ''X'' \<or> ch = CHR ''x'' then
        deformat_int (s\<lparr>df_is_signed := False, df_base := 16\<rparr>) buffer
      else if ch = CHR ''p'' then deformat_int (s\<lparr>df_is_64_bit := True, df_base := 16\<rparr>) buffer
      else if ch = CHR ''u'' then deformat_int s buffer
      else (s, 0, True))"

text \<open>The scanning loop. The result is the final state; the count of de-formatted
  arguments is its field \<open>df_num_args\<close>. Moving a pointer past a terminator and then
  testing the character there is \<open>None\<close>: the format pointer gets there when the format ends
  right after a conversion character was expected, the buffer pointer when \<^verbatim>\<open>%c\<close> reads the
  terminator.\<close>

function DeFormat_loop :: "string \<Rightarrow> string \<Rightarrow> deformat_state \<Rightarrow> deformat_state option" where
  "DeFormat_loop buffer fmt s =
     (if buffer = [] \<or> fmt = [] then Some s
      else if hd fmt \<noteq> CHR ''%'' then
        if hd fmt \<noteq> hd buffer then Some s else DeFormat_loop (tl buffer) (tl fmt) s
      else
        let escaped = (tl fmt \<noteq> [] \<and> hd (tl fmt) = CHR ''%'')
        in if escaped \<and> hd buffer \<noteq> CHR ''%'' then Some s
           else
             let buffer1 = (if escaped then tl buffer else buffer);
                 fmt1 = (if escaped then tl (tl fmt) else fmt)
             in case seek_spec fmt1 (df_is_64_bit s) of
                  None \<Rightarrow> None
                | Some (fmt2, is_64_bit) \<Rightarrow>
                    let (s', n, go_on) = deformat_switch (s\<lparr>df_is_64_bit := is_64_bit\<rparr>)
                                           (if fmt2 = [] then NUL else hd fmt2) buffer1
                    in if \<not> go_on then Some s'
                       else if length buffer1 < n then None
                       else if fmt2 = [] then (if drop n buffer1 = [] then Some s' else None)
                       else DeFormat_loop (drop n buffer1) (tl fmt2) s')"
  by pat_completeness auto
termination
proof (relation "measure (\<lambda>(b, f, s). length f)", goal_cases)
  case (3 buffer fmt s escaped buffer1 fmt1 a fmt2 is_64_bit x s' y n go_on)
  then have "length fmt2 < length fmt1" by (auto dest: seek_spec_length)
  moreover have "length fmt1 \<le> length fmt" using 3 by auto
  ultimately show ?case by auto
qed auto

declare DeFormat_loop.simps [simp del]

definition DeFormat :: "string \<Rightarrow> string \<Rightarrow> (nat \<times> scanned list) option" where
  "DeFormat buffer fmt =
     map_option (\<lambda>s. (df_num_args s, df_out s))
       (DeFormat_loop buffer fmt
          \<lparr>df_is_64_bit = False, df_is_signed = False, df_base = 10, df_num_args = 0, df_out = []\<rparr>)"

section \<open>Fixed-length strings\<close>

record fixed_string =
  fls_str :: "char list"  \<comment> \<open>\<^verbatim>\<open>kLen + 1\<close> characters\<close>
  fls_len :: nat

text \<open>The constructor terminates the string at its first character and leaves the rest of the
  array as it finds it.\<close>

definition FixedLengthString :: "char list \<Rightarrow> fixed_string" where
  "FixedLengthString uninitialised = \<lparr>fls_str = uninitialised[0 := NUL], fls_len = 0\<rparr>"

definition fls_Format :: "nat \<Rightarrow> fixed_string \<Rightarrow> string \<Rightarrow> vararg list \<Rightarrow> fixed_string option" where
  "fls_Format kLen s fmt args =
     Option.bind (VFormat (Some (take kLen (fls_str s))) (Some fmt) args) (\<lambda>(arr, n).
       Some \<lparr>fls_str = the arr @ drop kLen (fls_str s), fls_len = n\<rparr>)"

definition fls_UpdateFormat :: "nat \<Rightarrow> fixed_string \<Rightarrow> string \<Rightarrow> vararg list \<Rightarrow> fixed_string option" where
  "fls_UpdateFormat kLen s fmt args =
     (let len = fls_len s; remaining = kLen - len
      in Option.bind (VFormat (Some (take remaining (drop len (fls_str s)))) (Some fmt) args)
           (\<lambda>(arr, n).
              Some \<lparr>fls_str = take len (fls_str s) @ the arr @ drop (len + remaining) (fls_str s),
                    fls_len = len + n\<rparr>))"

section \<open>Comma-separated strings\<close>

text \<open>
  The strings the functor is applied to, in order. The inner loop copies at most
  \<^verbatim>\<open>kBufferLen - 1\<close> characters of the token, and \<^verbatim>\<open>last_space\<close> is non-null exactly
  when the last character it copied is a space.
\<close>

definition is_space_or_comma :: "char \<Rightarrow> bool" where
  "is_space_or_comma c \<longleftrightarrow> c = CHR '' '' \<or> c = CHR '',''"

definition token_for_functor :: "nat \<Rightarrow> string \<Rightarrow> string list" where
  "token_for_functor kBufferLen tok =
     (let buff = take (kBufferLen - 1) tok
      in if buff = [] then []
         else [if last buff = CHR '' '' then butlast buff else buff])"

function ForEachCommaSeparatedString :: "nat \<Rightarrow> string \<Rightarrow> string list" where
  "ForEachCommaSeparatedString kBufferLen str =
     (let str1 = dropWhile is_space_or_comma str;
          tok = takeWhile (\<lambda>c. c \<noteq> CHR '','') str1;
          str2 = dropWhile (\<lambda>c. c \<noteq> CHR '','') str1
      in token_for_functor kBufferLen tok @
         (if str2 = [] then [] else ForEachCommaSeparatedString kBufferLen str2))"
  by pat_completeness auto
termination
proof (relation "measure (\<lambda>(k, str). length str)", goal_cases)
  case (2 k str str1 tok str2)
  have ne: "str1 \<noteq> []" using 2(3,4) by (metis dropWhile.simps(1))
  then have "hd str1 \<noteq> CHR '',''"
    using 2 hd_dropWhile [of is_space_or_comma str] by (auto simp: is_space_or_comma_def)
  then have "length (dropWhile (\<lambda>c. c \<noteq> CHR '','') str1) < length str1"
    using ne length_dropWhile_le [of "\<lambda>c. c \<noteq> CHR '',''" "tl str1"] by (cases str1) auto
  moreover have "length str1 \<le> length str" using 2 by (simp add: length_dropWhile_le)
  ultimately show ?case using 2 by simp
qed simp

declare ForEachCommaSeparatedString.simps [simp del]

section \<open>Output buffers: the text written so far\<close>

definition wb_wf :: "write_buffer \<Rightarrow> bool" where
  "wb_wf b \<longleftrightarrow> wb_end_logical b = length (wb_data b) - 1 \<and> wb_pos b \<le> wb_end_logical b \<and> \<not> wb_overrun b"

definition wb_text :: "write_buffer \<Rightarrow> string" where
  "wb_text b = take (wb_pos b) (wb_data b)"

definition write_chars :: "write_buffer \<Rightarrow> string \<Rightarrow> write_buffer" where
  "write_chars b str = foldl (\<lambda>b ch. fst (Write_char b ch)) b str"

lemma write_chars_simps [simp]:
  "write_chars b [] = b"
  "write_chars b (c # str) = write_chars (fst (Write_char b c)) str"
  "write_chars b (s @ t) = write_chars (write_chars b s) t"
  by (simp_all add: write_chars_def)

lemma fst_Write_string_loop: "fst (Write_string_loop b str ret) = write_chars b str"
  by (induction b str ret rule: Write_string_loop.induct) (simp_all add: case_prod_beta)

lemma fst_Write_string [simp]: "fst (Write_string b str) = write_chars b str"
  by (simp add: Write_string_def fst_Write_string_loop)

lemma WriteBuffer_wf [simp]:
  "wb_wf (WriteBuffer arr)" "wb_text (WriteBuffer arr) = []" "wb_data (WriteBuffer arr) = arr"
  by (auto simp: wb_wf_def wb_text_def WriteBuffer_def)

lemma wb_store_frame [simp]:
  "length (wb_data (wb_store b i c)) = length (wb_data b)" "wb_pos (wb_store b i c) = wb_pos b"
  "wb_end_logical (wb_store b i c) = wb_end_logical b"
  "wb_overrun (wb_store b i c) \<longleftrightarrow> wb_overrun b \<or> length (wb_data b) \<le> i"
  by (auto simp: wb_store_def)

lemma wb_store_data [simp]: "i < length (wb_data b) \<Longrightarrow> wb_data (wb_store b i c) = (wb_data b)[i := c]"
  by (simp add: wb_store_def)

lemma Write_char_frame [simp]:
  "length (wb_data (fst (Write_char b c))) = length (wb_data b)"
  "wb_end_logical (fst (Write_char b c)) = wb_end_logical b"
  by (simp_all add: Write_char_def)

lemma Write_char_wf [simp]: "wb_wf b \<Longrightarrow> wb_wf (fst (Write_char b c))"
  by (auto simp: wb_wf_def Write_char_def CanWrite_def)

lemma Write_char_text:
  assumes "wb_wf b"
  shows "wb_text (fst (Write_char b c)) = take (wb_end_logical b) (wb_text b @ [c])"
  using assms
  by (auto simp: wb_text_def Write_char_def CanWrite_def wb_wf_def take_Suc_conv_app_nth min_def)

lemma write_chars_frame [simp]:
  "length (wb_data (write_chars b s)) = length (wb_data b)"
  "wb_end_logical (write_chars b s) = wb_end_logical b"
  by (induction s arbitrary: b) simp_all

lemma write_chars_wf [simp]: "wb_wf b \<Longrightarrow> wb_wf (write_chars b s)"
  by (induction s arbitrary: b) simp_all

lemma wb_text_length: "wb_wf b \<Longrightarrow> length (wb_text b) = wb_pos b"
  by (auto simp: wb_wf_def wb_text_def)

lemma write_chars_text:
  "wb_wf b \<Longrightarrow> wb_text (write_chars b s) = take (wb_end_logical b) (wb_text b @ s)"
proof (induction s arbitrary: b)
  case Nil
  then show ?case by (simp add: wb_text_length wb_wf_def)
next
  case (Cons c s)
  let ?b = "fst (Write_char b c)" and ?n = "wb_end_logical b"
  have "wb_text (write_chars ?b s) = take ?n (take ?n (wb_text b @ [c]) @ s)"
    using Cons by (simp add: Write_char_text)
  also have "\<dots> = take ?n ((wb_text b @ [c]) @ s)"
    by (cases "length (wb_text b @ [c]) \<le> ?n") simp_all
  finally show ?case by simp
qed

section \<open>Printing integers is total and prints the numeral\<close>

fun digits_of :: "nat \<Rightarrow> nat \<Rightarrow> nat list" where
  "digits_of base n = (if base < 2 \<or> n < base then [n] else digits_of base (n div base) @ [n mod base])"

declare digits_of.simps [simp del]

definition digit_char :: "nat \<Rightarrow> char" where
  "digit_char d = (if d < 10 then char_plus (CHR ''0'') d else char_plus (CHR ''a'') (d - 10))"

fun fixed_digits :: "nat \<Rightarrow> nat \<Rightarrow> nat \<Rightarrow> nat list" where
  "fixed_digits base 0 d = [d]"
| "fixed_digits base (Suc k) d = d div base ^ Suc k # fixed_digits base k (d mod base ^ Suc k)"

lemma FormatDigit_eq: "FormatDigit b d = write_chars b [digit_char d]"
  by (simp add: FormatDigit_def digit_char_def)

lemma fixed_digits_snoc:
  "2 \<le> base \<Longrightarrow> fixed_digits base (Suc k) d = fixed_digits base k (d div base) @ [d mod base]"
proof (induction k arbitrary: d)
  case 0
  then show ?case by simp
next
  case (Suc k)
  let ?B = "base ^ Suc k"
  have "fixed_digits base (Suc k) (d mod (base * ?B)) =
        fixed_digits base k ((d mod (base * ?B)) div base) @ [(d mod (base * ?B)) mod base]"
    using Suc by blast
  moreover have "(d mod (base * ?B)) div base = d div base mod ?B"
    using Suc.prems by (simp add: mod_mult2_eq)
  moreover have "(d mod (base * ?B)) mod base = d mod base"
    by (simp add: mod_mult2_eq)
  moreover have "d div (base * ?B) = d div base div ?B" by (rule div_mult2_eq)
  ultimately show ?case by (simp add: fixed_digits.simps(2) [of base "Suc k" d])
qed

lemma fixed_digits_eq:
  assumes "2 \<le> base" "base ^ k \<le> d" "d < base ^ Suc k"
  shows "fixed_digits base k d = digits_of base d"
  using assms(2,3)
proof (induction k arbitrary: d)
  case 0
  then show ?case by (simp add: digits_of.simps)
next
  case (Suc k)
  have "base ^ k \<le> d div base"
    using Suc.prems(1) assms(1) by (simp add: less_eq_div_iff_mult_less_eq mult.commute)
  moreover have "d div base < base ^ Suc k"
    using Suc.prems(2) by (simp add: less_mult_imp_div_less mult.commute)
  ultimately have "fixed_digits base (Suc k) d = digits_of base (d div base) @ [d mod base]"
    using Suc.IH fixed_digits_snoc [OF assms(1)] by simp
  moreover have "base \<le> d"
  proof -
    have "base ^ 1 \<le> base ^ Suc k" using assms(1) by (intro power_increasing) auto
    then show ?thesis using Suc.prems(1) by (simp only: power_one_right)
  qed
  ultimately show ?case using assms(1) by (simp add: digits_of.simps [of base d])
qed

lemma format_digits_eq:
  assumes "2 \<le> base"
  shows "format_digits b d base (base ^ k) = Some (write_chars b (map digit_char (fixed_digits base k d)))"
proof (induction k arbitrary: b d)
  case 0
  have "format_digits b d base 1 = Some (FormatDigit b d)"
    using assms by (subst format_digits.simps) (simp add: format_digits.simps [of _ _ base 0] Let_def)
  then show ?case by (simp add: FormatDigit_eq)
next
  case (Suc k)
  have "d - d div (base * base ^ k) * (base * base ^ k) = d mod (base * base ^ k)"
    by (simp add: minus_div_mult_eq_mod)
  then show ?case using assms Suc
    by (simp add: format_digits.simps [of b d base "base * base ^ k"] Let_def FormatDigit_eq)
qed

lemma grow_max_base_from:
  assumes "2 \<le> base" "d * base < 2 ^ 64"
  shows "base ^ k \<le> d \<Longrightarrow>
    \<exists>K. grow_max_base d base (base ^ Suc k) = Some (base ^ Suc K) \<and> base ^ K \<le> d \<and> d < base ^ Suc K"
proof (induction "d - base ^ k" arbitrary: k rule: less_induct)
  case less
  show ?case
  proof (cases "base ^ Suc k \<le> d")
    case True
    have lt: "base ^ k < base ^ Suc k" using assms(1) by (intro power_strict_increasing) auto
    have "base ^ Suc k * base \<le> d * base" using True by (rule mult_le_mono1)
    then have "base ^ Suc k * base < 2 ^ 64" using assms(2) by (rule order_le_less_trans)
    then have "base ^ Suc k * base mod 2 ^ 64 = base ^ Suc (Suc k)"
      by (subst mod_less) (simp_all only: power_Suc2)
    moreover have "d div base ^ Suc k \<noteq> 0" using True assms(1) by (simp add: div_greater_zero_iff)
    moreover have "\<exists>K. grow_max_base d base (base ^ Suc (Suc k)) = Some (base ^ Suc K) \<and>
        base ^ K \<le> d \<and> d < base ^ Suc K"
    proof (rule less.hyps)
      show "d - base ^ Suc k < d - base ^ k" using True lt by linarith
    qed (rule True)
    ultimately show ?thesis
      using assms(1) by (simp add: grow_max_base.simps [of d base "base ^ Suc k"] del: power_Suc)
  next
    case False
    then show ?thesis
      using assms(1) less.prems
      by (intro exI [of _ k]) (simp add: grow_max_base.simps [of d base "base ^ Suc k"] del: power_Suc)
  qed
qed

lemma grow_max_base_total:
  assumes "2 \<le> base" "0 < d" "d * base < 2 ^ 64 \<or> d < base"
  shows "\<exists>K. grow_max_base d base base = Some (base ^ Suc K) \<and> base ^ K \<le> d \<and> d < base ^ Suc K"
proof (cases "d < base")
  case True
  then show ?thesis using assms
    by (intro exI [of _ 0]) (simp add: grow_max_base.simps [of d base base])
next
  case False
  then show ?thesis using grow_max_base_from [of base d 0] assms by simp
qed

lemma digit_char_0: "digit_char 0 = CHR ''0''"
  by code_simp

lemma FormatGenericInt_eq:
  assumes "2 \<le> base" "n < 2 ^ 64"
  shows "FormatGenericInt b n base = Some (write_chars b (map digit_char (digits_of base n)))"
proof (cases "n = 0")
  case True
  then show ?thesis using assms
    by (simp add: FormatGenericInt_def digits_of.simps digit_char_0)
next
  case False
  let ?d = "if base \<le> n then n div base else n"
  have "?d * base \<le> n \<or> ?d < base" by simp
  then have "?d * base < 2 ^ 64 \<or> ?d < base" using assms(2) by linarith
  moreover have "0 < ?d" using False assms(1) by (simp add: div_greater_zero_iff)
  ultimately obtain K where K: "grow_max_base ?d base base = Some (base ^ Suc K)"
      "base ^ K \<le> ?d" "?d < base ^ Suc K"
    using grow_max_base_total [OF assms(1)] by blast
  have digits: "format_digits b ?d base (base ^ Suc K div base) =
      Some (write_chars b (map digit_char (digits_of base ?d)))"
    using format_digits_eq [OF assms(1)] fixed_digits_eq [OF assms(1) K(2,3)] assms(1) by simp
  show ?thesis
  proof (cases "base \<le> n")
    case True
    then have "digits_of base n = digits_of base (n div base) @ [n mod base]"
      using assms(1) by (simp add: digits_of.simps [of base n])
    then show ?thesis
      using True False K(1) digits by (simp add: FormatGenericInt_def Let_def FormatDigit_eq)
  next
    case not_le: False
    then show ?thesis
      using False K(1) digits by (simp add: FormatGenericInt_def Let_def)
  qed
qed

section \<open>Scanning what was printed\<close>

lemma char_codes:
  "(of_char (CHR ''0'') :: nat) = 48" "(of_char (CHR ''9'') :: nat) = 57"
  "(of_char (CHR ''a'') :: nat) = 97" "(of_char (CHR ''f'') :: nat) = 102"
  by simp_all

lemma of_char_digit_char:
  "d < 16 \<Longrightarrow> (of_char (digit_char d) :: nat) = (if d < 10 then 48 + d else 87 + d)"
  unfolding digit_char_def char_plus_def char_codes by (simp add: of_char_of)

lemma digit_char_decimal:
  assumes "d < 10"
  shows "char_le (CHR ''0'') (digit_char d) \<and> char_le (digit_char d) (CHR ''9'') \<and>
    char_minus (digit_char d) (CHR ''0'') = d"
  using assms of_char_digit_char [of d] unfolding char_le_def char_minus_def char_codes by simp

lemma digit_char_letter:
  assumes "10 \<le> d" "d < 16"
  shows "\<not> char_le (digit_char d) (CHR ''9'') \<and> char_le (CHR ''a'') (digit_char d) \<and>
    char_le (digit_char d) (CHR ''f'') \<and> char_minus (digit_char d) (CHR ''a'') + 10 = d"
  using assms of_char_digit_char [of d] unfolding char_le_def char_minus_def char_codes by simp

lemma DeFormatDecimal_digit: "d < 10 \<Longrightarrow> DeFormatDecimal (digit_char d) v = Some ((v * 10 + d) mod 2 ^ 64)"
  using digit_char_decimal [of d] by (simp add: DeFormatDecimal_def)

lemma DeFormatHexadecimal_digit:
  assumes "d < 16"
  shows "DeFormatHexadecimal (digit_char d) v = Some ((v * 16 + d) mod 2 ^ 64)"
proof (cases "d < 10")
  case True
  then show ?thesis using digit_char_decimal [of d] by (simp add: DeFormatHexadecimal_def)
next
  case False
  then have "\<not> char_le (digit_char d) (CHR ''9'')" "char_le (CHR ''a'') (digit_char d)"
      "char_le (digit_char d) (CHR ''f'')" "char_minus (digit_char d) (CHR ''a'') + 10 = d"
    using digit_char_letter [of d] assms by auto
  then show ?thesis by (simp add: DeFormatHexadecimal_def)
qed

lemma digits_of_less: "2 \<le> base \<Longrightarrow> d \<in> set (digits_of base n) \<Longrightarrow> d < base"
proof (induction base n rule: digits_of.induct)
  case (1 base n)
  then show ?case by (cases "n < base") (auto simp: digits_of.simps [of base n])
qed

lemma digits_of_nonempty: "digits_of base n \<noteq> []"
  by (simp add: digits_of.simps)

lemma digits_of_value:
  "2 \<le> base \<Longrightarrow> foldl (\<lambda>v d. v * base + d) 0 (digits_of base n) = n"
proof (induction base n rule: digits_of.induct)
  case (1 base n)
  then show ?case by (cases "n < base") (auto simp: digits_of.simps [of base n])
qed

lemma digits_of_length:
  "2 \<le> base \<Longrightarrow> n < base ^ Suc k \<Longrightarrow> length (digits_of base n) \<le> Suc k"
proof (induction k arbitrary: n)
  case 0
  then show ?case by (simp add: digits_of.simps)
next
  case (Suc k)
  have "n div base < base ^ Suc k"
    using Suc.prems(2) by (simp add: less_mult_imp_div_less mult.commute)
  then show ?case using Suc.IH [of "n div base"] Suc.prems(1) by (simp add: digits_of.simps [of base n])
qed

lemma foldl_mod:
  "foldl (\<lambda>v d. (v * base + d) mod (M :: nat)) (v mod M) ds = foldl (\<lambda>v d. v * base + d) v ds mod M"
proof (induction ds arbitrary: v)
  case (Cons d ds)
  have "(v mod M * base + d) mod M = (v * base + d) mod M" by (metis mod_add_left_eq mod_mult_left_eq)
  then show ?case using Cons [of "v * base + d"] by simp
qed simp

lemma deformat_digits_eq:
  assumes "\<And>d v. d < base \<Longrightarrow> get (digit_char d) v = Some ((v * base + d) mod M)"
    and "\<forall>d \<in> set ds. d < base"
  shows "deformat_digits get (map digit_char ds) v len =
    (foldl (\<lambda>v d. (v * base + d) mod M) v ds, len + length ds)"
  using assms(2)
proof (induction ds arbitrary: v len)
  case (Cons d ds)
  then show ?case using assms(1) [of d v] by simp
qed simp

lemma deformat_printed:
  assumes "base = 10 \<or> base = 16" "n < 2 ^ 64"
  shows "deformat_digits (if base = 16 then DeFormatHexadecimal else DeFormatDecimal)
           (map digit_char (digits_of base n)) 0 0 = (n, length (digits_of base n))"
proof -
  have b: "2 \<le> base" using assms(1) by auto
  have "deformat_digits (if base = 16 then DeFormatHexadecimal else DeFormatDecimal)
      (map digit_char (digits_of base n)) 0 0 =
    (foldl (\<lambda>v d. (v * base + d) mod 2 ^ 64) 0 (digits_of base n), 0 + length (digits_of base n))"
    using assms(1) digits_of_less [OF b]
    by (intro deformat_digits_eq) (auto simp: DeFormatDecimal_digit DeFormatHexadecimal_digit)
  then show ?thesis
    using foldl_mod [of base "2 ^ 64" 0 "digits_of base n"] digits_of_value [OF b, of n] assms(2) by simp
qed

lemma DeFormat_printed:
  assumes "(base, spec) = (10, CHR ''u'') \<or> (base, spec) = (16, CHR ''x'')"
  shows "DeFormat (map digit_char (digits_of base (unat (w :: u64)))) [CHR ''%'', CHR ''l'', spec] =
    Some (1, [Stored64 w])"
proof -
  let ?ds = "map digit_char (digits_of base (unat w))"
  have w: "unat w < 2 ^ 64" using unsigned_less [of w, where ?'a = nat] by simp
  have b: "base = 10 \<or> base = 16" using assms by auto
  note scan = deformat_printed [OF b w]
  have "DeFormatGenericInt ?ds True False base = (Stored64 w, length ?ds)"
    using scan by (simp add: DeFormatGenericInt_def)
  moreover have "length ?ds \<noteq> 0" by (simp add: digits_of_nonempty)
  ultimately show ?thesis using assms
    by (auto simp: DeFormat_def DeFormat_loop.simps [of ?ds] DeFormat_loop.simps [of "[]"]
        deformat_switch_def deformat_int_def df_store_def Let_def digits_of_nonempty)
qed

section \<open>Formatted output stays within its buffer\<close>

text \<open>What the finalised buffer holds. A buffer with room for the terminator is written inside its
  array only.\<close>

lemma Finalize_wf:
  assumes "wb_wf b" "wb_data b \<noteq> []"
  shows "\<not> wb_overrun (Finalize b)" "length (wb_data (Finalize b)) = length (wb_data b)"
    "wb_data (Finalize b) ! wb_pos b = NUL" "take (wb_pos b) (wb_data (Finalize b)) = wb_text b"
proof -
  have "wb_end_logical b < length (wb_data b)" "wb_pos b < length (wb_data b)" "wb_pos b \<le> wb_end_logical b"
    using assms by (auto simp: wb_wf_def less_Suc_eq_le simp flip: length_greater_0_conv)
  then show "\<not> wb_overrun (Finalize b)" "length (wb_data (Finalize b)) = length (wb_data b)"
    "wb_data (Finalize b) ! wb_pos b = NUL" "take (wb_pos b) (wb_data (Finalize b)) = wb_text b"
    using assms(1) by (auto simp: Finalize_def wb_wf_def wb_text_def)
qed

text \<open>The arguments that a conversion consumes: what remains of them when the first one has the type
  the conversion reads.\<close>

definition spec_args :: "bool \<Rightarrow> char \<Rightarrow> vararg list \<Rightarrow> vararg list option" where
  "spec_args is_long ch args =
     (if ch = CHR ''s'' then map_option snd (va_string args)
      else if ch = CHR ''c'' then map_option snd (va_int args)
      else if ch = CHR ''p'' then map_option snd (va_long args)
      else if ch = CHR ''d'' \<or> ch = CHR ''u'' \<or> ch = CHR ''x'' then
        if is_long then map_option snd (va_long args) else map_option snd (va_int args)
      else Some args)"

text \<open>The arguments fit the format.\<close>

fun args_match :: "format_state \<Rightarrow> bool \<Rightarrow> string \<Rightarrow> vararg list \<Rightarrow> bool" where
  "args_match st is_long [] args = True"
| "args_match STATE_CONTINUE is_long (ch # fmt) args =
     (if ch = CHR ''%'' then args_match STATE_SEEN_FORMAT_SPEC False fmt args
      else args_match STATE_CONTINUE is_long fmt args)"
| "args_match STATE_SEEN_FORMAT_SPEC is_long (ch # fmt) args =
     (if ch = CHR ''l'' then args_match STATE_SEEN_FORMAT_SPEC True fmt args
      else case spec_args is_long ch args of
             None \<Rightarrow> False
           | Some args' \<Rightarrow> args_match STATE_CONTINUE is_long fmt args')"

text \<open>A conversion with a fitting argument writes some text.\<close>

lemma FormatGenericInt_word:
  "2 \<le> k \<Longrightarrow> FormatGenericInt b (unat (w :: u64)) k = Some (write_chars b (map digit_char (digits_of k (unat w))))"
  using FormatGenericInt_eq [of k "unat w" b] unsigned_less [of w, where ?'a = nat] by simp

lemma va_cases:
  "va_int args = Some (i, args') \<longleftrightarrow> args = VInt i # args'"
  "va_long args = Some (l, args') \<longleftrightarrow> args = VLong l # args'"
  "va_string args = Some (s, args') \<longleftrightarrow> args = VString s # args'"
  by (cases args; cases "hd args"; auto)+

lemma format_spec_total:
  assumes "spec_args is_long ch args = Some args'" "2 \<le> base"
  shows "\<exists>str. format_spec b is_long base ch args = Some (write_chars b str, args')"
proof -
  have one: "fst (Write_char b c) = write_chars b [c]" for c by simp
  note word = FormatGenericInt_word write_chars_simps(3) [symmetric]
  consider "ch = CHR ''s''" | "ch = CHR ''c''" | "ch = CHR ''p''" | "ch = CHR ''d''" | "ch = CHR ''u'' \<or> ch = CHR ''x''"
    | "ch \<noteq> CHR ''s''" "ch \<noteq> CHR ''c''" "ch \<noteq> CHR ''p''" "ch \<noteq> CHR ''d''" "\<not> (ch = CHR ''u'' \<or> ch = CHR ''x'')" by blast
  then show ?thesis
  proof cases
    case 1
    then show ?thesis using assms(1) by (auto simp: spec_args_def format_spec_def va_cases)
  next
    case 2
    then show ?thesis using assms(1)
      by (auto simp: spec_args_def format_spec_def va_cases one simp del: write_chars_simps(2))
  next
    case 3
    then show ?thesis using assms(1)
      by (auto simp: spec_args_def format_spec_def va_cases word simp del: write_chars_simps)
  next
    case 4
    then show ?thesis using assms(1)
      by (auto simp: spec_args_def format_spec_def va_cases one word Let_def simp del: write_chars_simps split: if_splits)
  next
    case 5
    then show ?thesis using assms
      by (auto simp: spec_args_def format_spec_def va_cases word simp del: write_chars_simps split: if_splits)
  next
    case 6
    then have "args' = args" using assms(1) by (simp add: spec_args_def)
    then show ?thesis using 6 by (intro exI [of _ "[ch]"]) (simp add: format_spec_def)
  qed
qed

lemma format_loop_total:
  "args_match st is_long fmt args \<Longrightarrow> 2 \<le> base \<Longrightarrow>
   \<exists>str. format_loop b st is_long base fmt args = Some (write_chars b str)"
proof (induction b st is_long base fmt args rule: format_loop.induct)
  case (1 b st is_long base args)
  show ?case by (rule exI [of _ "[]"]) simp
next
  case (2 b is_long base ch fmt args)
  show ?case
  proof (cases "ch = CHR ''%''")
    case False
    then obtain str where "format_loop (fst (Write_char b ch)) STATE_CONTINUE is_long base fmt args =
        Some (write_chars (fst (Write_char b ch)) str)"
      using 2 by auto
    then show ?thesis using False by (intro exI [of _ "ch # str"]) simp
  qed (use 2 in auto)
next
  case (3 b is_long base ch fmt args)
  show ?case
  proof (cases "ch = CHR ''l''")
    case False
    then obtain args' where a: "spec_args is_long ch args = Some args'" "args_match STATE_CONTINUE is_long fmt args'"
      using "3.prems"(1) by (auto split: option.splits)
    obtain s where s: "format_spec b is_long base ch args = Some (write_chars b s, args')"
      using format_spec_total [OF a(1) "3.prems"(2)] by blast
    obtain t where "format_loop (write_chars b s) STATE_CONTINUE is_long base fmt args' = Some (write_chars (write_chars b s) t)"
      using "3.IH"(2) [OF False s refl a(2) "3.prems"(2)] by blast
    then show ?thesis using False s by (intro exI [of _ "s @ t"]) simp
  qed (use 3 in auto)
qed

section \<open>Comma-separated strings\<close>

fun join_commas :: "string list \<Rightarrow> string" where
  "join_commas [] = []"
| "join_commas [t] = t"
| "join_commas (t # ts) = t @ CHR '','' # join_commas ts"

definition plain_token :: "string \<Rightarrow> bool" where
  "plain_token t \<longleftrightarrow> t \<noteq> [] \<and> (\<forall>c \<in> set t. \<not> is_space_or_comma c)"

lemma plain_token_functor:
  assumes "plain_token t" "1 < k"
  shows "token_for_functor k t = [take (k - 1) t]"
proof -
  have "take (k - 1) t \<noteq> []" using assms by (simp add: plain_token_def)
  moreover from this have "last (take (k - 1) t) \<in> set t" by (meson in_set_takeD last_in_set)
  ultimately show ?thesis
    using assms by (auto simp: token_for_functor_def Let_def plain_token_def is_space_or_comma_def)
qed

lemma plain_token_take:
  assumes "plain_token t"
  shows "takeWhile (\<lambda>c. c \<noteq> CHR '','') (t @ CHR '','' # rest) = t"
    and "dropWhile (\<lambda>c. c \<noteq> CHR '','') (t @ CHR '','' # rest) = CHR '','' # rest"
    and "takeWhile (\<lambda>c. c \<noteq> CHR '','') t = t" and "dropWhile (\<lambda>c. c \<noteq> CHR '','') t = []"
  using assms by (auto simp: plain_token_def is_space_or_comma_def takeWhile_eq_all_conv
      dropWhile_append takeWhile_append)

lemma plain_token_skip:
  "plain_token t \<Longrightarrow> dropWhile is_space_or_comma (t @ rest) = t @ rest"
  by (cases t) (auto simp: plain_token_def)

lemma ForEachCommaSeparatedString_comma:
  "ForEachCommaSeparatedString k (CHR '','' # str) = ForEachCommaSeparatedString k str"
  by (simp add: ForEachCommaSeparatedString.simps [of k "CHR '','' # str"]
      ForEachCommaSeparatedString.simps [of k str] is_space_or_comma_def)

lemma ForEachCommaSeparatedString_join:
  assumes "1 < k"
  shows "\<forall>t \<in> set ts. plain_token t \<Longrightarrow>
    ForEachCommaSeparatedString k (join_commas ts) = map (take (k - 1)) ts"
proof (induction ts rule: join_commas.induct)
  case 1
  then show ?case by (simp add: ForEachCommaSeparatedString.simps [of k "[]"] token_for_functor_def)
next
  case (2 t)
  then have t: "plain_token t" by simp
  have "CHR '','' \<notin> set t" using t by (auto simp: plain_token_def is_space_or_comma_def)
  then show ?case
    using plain_token_skip [OF t, of "[]"] plain_token_functor [OF t assms]
    by (simp add: ForEachCommaSeparatedString.simps [of k t] plain_token_take(3,4) [OF t])
next
  case (3 t u ts)
  then have t: "plain_token t" by simp
  have "ForEachCommaSeparatedString k (t @ CHR '','' # join_commas (u # ts)) =
      take (k - 1) t # ForEachCommaSeparatedString k (CHR '','' # join_commas (u # ts))"
    by (subst ForEachCommaSeparatedString.simps)
      (simp add: plain_token_skip [OF t] plain_token_take [OF t] plain_token_functor [OF t assms])
  then show ?case using 3 by (simp add: ForEachCommaSeparatedString_comma)
qed

section \<open>Properties\<close>

text \<open>C33: formatted output never leaves its buffer. Whatever the format, the arguments that fit
  it and the size of the buffer, \<^verbatim>\<open>VFormat\<close> returns without a store outside the array (such a
  store makes the result \<open>None\<close>), the returned count leaves room for the terminator, and a
  terminator stands right after the counted characters.\<close>

theorem VFormat_in_bounds:
  assumes "args_match STATE_CONTINUE False fmt args" and "arr \<noteq> []"
  shows "\<exists>arr' n. VFormat (Some arr) (Some fmt) args = Some (Some arr', n) \<and>
    length arr' = length arr \<and> n < length arr \<and> arr' ! n = NUL"
proof -
  obtain str where str: "format_loop (WriteBuffer arr) STATE_CONTINUE False 10 fmt args = Some (write_chars (WriteBuffer arr) str)"
    using format_loop_total [OF assms(1)] by fastforce
  let ?b = "write_chars (WriteBuffer arr) str"
  have wf: "wb_wf ?b" and len: "length (wb_data ?b) = length arr" by simp_all
  then have ne: "wb_data ?b \<noteq> []" using assms(2) by (metis length_0_conv)
  have "wb_pos ?b < length arr" using wf len assms(2) by (cases arr) (auto simp: wb_wf_def)
  then show ?thesis using str assms(2) Finalize_wf [OF wf ne] len by (simp add: VFormat_def NumCharsWritten_def Let_def)
qed

theorem VFormat_in_bounds_witness:
  "\<exists>arr' n. VFormat (Some ''...'') (Some ''a%s%%%lx'') [VString ''zzz'', VLong 7] = Some (Some arr', n) \<and>
     length arr' = length ''...'' \<and> n < length ''...'' \<and> arr' ! n = NUL"
  by (rule VFormat_in_bounds) (simp_all add: spec_args_def)

text \<open>C32: printing and scanning are inverse. For every 64-bit value, in decimal and in
  hexadecimal, formatting into a buffer of at least 21 characters succeeds and scanning the
  text that was written gives the value back. In particular the digit loops of
  \<^verbatim>\<open>FormatGenericInt\<close> terminate without the divisor overflowing.\<close>

theorem format_deformat_roundtrip:
  assumes "21 \<le> length arr" and "spec = CHR ''u'' \<or> spec = CHR ''x''"
  shows "\<exists>arr' n. VFormat (Some arr) (Some [CHR ''%'', CHR ''l'', spec]) [VLong w] = Some (Some arr', n) \<and>
    DeFormat (take n arr') [CHR ''%'', CHR ''l'', spec] = Some (1, [Stored64 w])"
proof -
  define base :: nat where "base = (if spec = CHR ''u'' then 10 else 16)"
  let ?ds = "map digit_char (digits_of base (unat w))" and ?b = "WriteBuffer arr"
  have w: "unat w < 2 ^ 64" using unsigned_less [of w, where ?'a = nat] by simp
  have base: "2 \<le> base" by (simp add: base_def)
  have "unat w < base ^ Suc 19" using w by (auto simp: base_def intro: order_less_le_trans)
  then have len: "length ?ds \<le> 20" using digits_of_length [OF base, of "unat w" 19] by simp
  have out: "format_loop ?b STATE_CONTINUE False 10 [CHR ''%'', CHR ''l'', spec] [VLong w] =
      Some (write_chars ?b ?ds)"
    using assms(2) FormatGenericInt_eq [OF base w] by (auto simp: format_spec_def base_def)
  let ?b' = "write_chars ?b ?ds"
  have log: "wb_end_logical ?b = length arr - 1" by (simp add: WriteBuffer_def)
  have "wb_text ?b' = ?ds" using write_chars_text [of ?b ?ds] log len assms(1) by simp
  moreover have wf: "wb_wf ?b'" by simp
  ultimately have pos: "wb_pos ?b' = length ?ds" by (metis wb_text_length)
  have "length (wb_data ?b') = length arr" by simp
  then have ne: "wb_data ?b' \<noteq> []" using assms(1) by (metis list.size(3) not_numeral_le_zero)
  have "take (wb_pos ?b') (wb_data (Finalize ?b')) = ?ds"
    using \<open>wb_text ?b' = ?ds\<close> len log assms(1)
    using Finalize_wf(4) [OF wf ne] by simp
  then show ?thesis
    using out DeFormat_printed [of base spec w] assms Finalize_wf(1) [OF wf ne]
    by (auto simp: VFormat_def NumCharsWritten_def Let_def base_def)
qed

theorem format_deformat_roundtrip_witness:
  "\<exists>arr' n. VFormat (Some (replicate 21 NUL)) (Some ''%lx'') [VLong 48879] = Some (Some arr', n) \<and>
    DeFormat (take n arr') ''%lx'' = Some (1, [Stored64 48879])"
  by (rule format_deformat_roundtrip) simp_all

text \<open>Scanning is not re-entrant across conversions. The base, the signedness and the
  width chosen by one conversion stay in force for the next: after a \<^verbatim>\<open>%x\<close>, a \<^verbatim>\<open>%d\<close> reads
  hexadecimal. And a \<^verbatim>\<open>%%\<close> at the end of a format makes the scan read past the format's
  terminator.\<close>

theorem DeFormat_sticky_conversions:
  "DeFormat ''a 10'' ''%x %d'' = Some (2, [Stored32 10, Stored32 16]) \<and>
   DeFormat ''10'' ''%d'' = Some (1, [Stored32 10]) \<and>
   DeFormat ''5%ab'' ''%d%%a'' = None"
  by (simp add: DeFormat_def DeFormat_loop.simps [of "CHR ''a'' # s" for s]
      DeFormat_loop.simps [of "CHR '' '' # s" for s] DeFormat_loop.simps [of "CHR ''1'' # s" for s]
      DeFormat_loop.simps [of "CHR ''5'' # s" for s] DeFormat_loop.simps [of "CHR ''%'' # s" for s]
      DeFormat_loop.simps [of "[]"] deformat_switch_def deformat_int_def DeFormatGenericInt_def
      DeFormatHexadecimal_def DeFormatDecimal_def char_le_def char_minus_def df_store_def Let_def)

text \<open>Splitting inverts joining. A list of non-empty names without spaces and commas,
  joined by commas, is split into exactly these names, in order, each cut to the size of the
  token buffer.\<close>

theorem comma_split_join:
  assumes "1 < k" and "\<forall>t \<in> set ts. plain_token t"
  shows "ForEachCommaSeparatedString k (join_commas ts) = map (take (k - 1)) ts"
  using assms by (rule ForEachCommaSeparatedString_join)

theorem comma_split_join_witness:
  "ForEachCommaSeparatedString 32 (join_commas [''poly_code'', ''count_bbs'']) =
     map (take (32 - 1)) [''poly_code'', ''count_bbs'']"
  by (rule comma_split_join) (simp_all add: plain_token_def is_space_or_comma_def)

end
