(* ===== verification/Options.thy ===== *)
theory Options
  imports Strings
begin

text \<open>
  Command-line options: \<^verbatim>\<open>granary/base/option.cc\<close> and \<^verbatim>\<open>option.h\<close>. The option
  string is a character array of fixed size that the pre-processing pass cuts up in place; a
  pointer into it is an index. The registered options are nodes of a singly linked list,
  held in a map from node addresses to nodes. A failed assertion is \<open>None\<close>.
\<close>

section \<open>The option string\<close>

definition MAX_NUM_OPTIONS :: nat where
  "MAX_NUM_OPTIONS = 32"

definition MAX_OPTIONS_LENGTH :: nat where
  "MAX_OPTIONS_LENGTH = 1024 - 1"

datatype value_ptr = EmptyLiteral | InString nat

datatype scan_state =
  IN_OPTION | IN_VALUE | IN_LITERAL_VALUE | SEEN_EQUAL | SEEN_DASH | ELSEWHERE

record option_string =
  OPTION_STRING :: "char list"
  OPTION_STRING_LENGTH :: nat
  OPTION_NAMES :: "nat list"        \<comment> \<open>the non-null prefix of the array\<close>
  OPTION_VALUES :: "value_ptr list"
  scan_st :: scan_state


fun CopyStringIntoOptions :: "char list \<Rightarrow> nat \<Rightarrow> string \<Rightarrow> char list \<times> nat" where
  "CopyStringIntoOptions arr offset [] = (arr, offset)"
| "CopyStringIntoOptions arr offset (c # str) =
     (if offset < MAX_OPTIONS_LENGTH
      then CopyStringIntoOptions (arr[offset := c]) (Suc offset) str
      else (arr, offset))"

definition TerminateOptionString :: "option_string \<Rightarrow> nat \<Rightarrow> option_string option" where
  "TerminateOptionString s len =
     (if len < MAX_OPTIONS_LENGTH
      then Some (s\<lparr>OPTION_STRING := (OPTION_STRING s)[len := NUL], OPTION_STRING_LENGTH := len\<rparr>)
      else None)"

definition IsValidOptionChar :: "char \<Rightarrow> bool" where
  "IsValidOptionChar ch \<longleftrightarrow>
     (char_le (CHR ''a'') ch \<and> char_le ch (CHR ''z'')) \<or>
     (char_le (CHR ''A'') ch \<and> char_le ch (CHR ''Z'')) \<or> ch = CHR ''_''"

definition IsValidValueChar :: "char \<Rightarrow> bool" where
  "IsValidValueChar ch \<longleftrightarrow>
     char_le (CHR '' '') ch \<and> ch \<noteq> CHR '' '' \<and> char_le ch (CHR ''~'') \<and>
     ch \<noteq> CHR ''['' \<and> ch \<noteq> CHR '']''"

text \<open>One character of the scan. A thirty-third option, which would be stored beyond the arrays, and
  a character that no value may have inside brackets fail an assertion.\<close>

definition process_char :: "nat \<Rightarrow> option_string \<Rightarrow> option_string option" where
  "process_char i s =
     (let ch = OPTION_STRING s ! i;
          cut = (\<lambda>s. s\<lparr>OPTION_STRING := (OPTION_STRING s)[i := NUL]\<rparr>);
          last = length (OPTION_NAMES s) - 1
      in case scan_st s of
           IN_OPTION \<Rightarrow>
             Some (let s1 = (if \<not> IsValidOptionChar ch then cut (s\<lparr>scan_st := ELSEWHERE\<rparr>) else s)
                   in if ch = CHR ''='' then s1\<lparr>scan_st := SEEN_EQUAL\<rparr> else s1)
         | IN_VALUE \<Rightarrow>
             Some (if \<not> IsValidValueChar ch then cut (s\<lparr>scan_st := ELSEWHERE\<rparr>) else s)
         | IN_LITERAL_VALUE \<Rightarrow>
             if ch = CHR '']'' then Some (cut (s\<lparr>scan_st := ELSEWHERE\<rparr>))
             else if ch \<noteq> CHR '' '' \<and> \<not> IsValidValueChar ch then None
             else Some s
         | SEEN_EQUAL \<Rightarrow>
             Some (if ch = CHR ''['' then
                     cut (s\<lparr>scan_st := IN_LITERAL_VALUE,
                            OPTION_VALUES := (OPTION_VALUES s)[last := InString (Suc i)]\<rparr>)
                   else if IsValidValueChar ch then
                     s\<lparr>scan_st := IN_VALUE, OPTION_VALUES := (OPTION_VALUES s)[last := InString i]\<rparr>
                   else s\<lparr>scan_st := ELSEWHERE\<rparr>)
         | SEEN_DASH \<Rightarrow>
             if ch = CHR ''-'' then
               if length (OPTION_NAMES s) < MAX_NUM_OPTIONS then
                 Some (cut (s\<lparr>scan_st := IN_OPTION,
                              OPTION_VALUES := OPTION_VALUES s @ [EmptyLiteral],
                              OPTION_NAMES := OPTION_NAMES s @ [Suc i]\<rparr>))
               else None
             else Some (cut (s\<lparr>scan_st := ELSEWHERE\<rparr>))
         | ELSEWHERE \<Rightarrow>
             Some (cut (if ch = CHR ''-'' then s\<lparr>scan_st := SEEN_DASH\<rparr> else s)))"

fun process_chars :: "nat list \<Rightarrow> option_string \<Rightarrow> option_string option" where
  "process_chars [] s = Some s"
| "process_chars (i # is) s = Option.bind (process_char i s) (process_chars is)"

text \<open>A scan counts its options from zero: it fills the two arrays from the start and leaves
  what an earlier scan put beyond its last option.\<close>

definition ProcessOptionString :: "option_string \<Rightarrow> option_string option" where
  "ProcessOptionString s =
     map_option (\<lambda>t. t\<lparr>OPTION_NAMES := OPTION_NAMES t @ drop (length (OPTION_NAMES t)) (OPTION_NAMES s),
                      OPTION_VALUES := OPTION_VALUES t @ drop (length (OPTION_VALUES t)) (OPTION_VALUES s)\<rparr>)
       (process_chars [0..<OPTION_STRING_LENGTH s]
          (s\<lparr>scan_st := ELSEWHERE, OPTION_NAMES := [], OPTION_VALUES := []\<rparr>))"

text \<open>The C string a pointer into the option string denotes.\<close>

definition cstr_from :: "char list \<Rightarrow> nat \<Rightarrow> string" where
  "cstr_from arr i = takeWhile (\<lambda>c. c \<noteq> NUL) (drop i arr)"

definition value_string :: "option_string \<Rightarrow> value_ptr \<Rightarrow> string" where
  "value_string s v = (case v of EmptyLiteral \<Rightarrow> [] | InString i \<Rightarrow> cstr_from (OPTION_STRING s) i)"

fun find_value :: "option_string \<Rightarrow> nat list \<Rightarrow> value_ptr list \<Rightarrow> string \<Rightarrow> string option" where
  "find_value s (n # ns) (v # vs) name =
     (if StringsMatch (cstr_from (OPTION_STRING s) n) name then Some (value_string s v)
      else find_value s ns vs name)"
| "find_value s _ _ name = None"

definition FindValueForName :: "option_string \<Rightarrow> string \<Rightarrow> string option" where
  "FindValueForName s name = find_value s (OPTION_NAMES s) (OPTION_VALUES s) name"

section \<open>Options and their parsers\<close>

datatype flag_value = FlagString string | FlagBool bool | FlagInt u32 | FlagMask u64

datatype option_kind =
  ParseStringOption | ParseBoolOption | ParseIntOption | ParsePositiveIntOption
| ParseUintOption | ParsePositiveUintOption | ParseBitMaskOption

record option_node =
  o_next :: "nat option"
  o_name :: string
  o_alt_name :: string
  o_parse :: option_kind
  o_value :: flag_value
  o_has_value :: bool
  o_docstring :: string
  o_tool_name :: string

text \<open>The definition macros: each declares a flag with its default value and the option that
  names it, its negation and its parser.\<close>

definition REGISTER_OPTION ::
  "string \<Rightarrow> option_kind \<Rightarrow> flag_value \<Rightarrow> string \<Rightarrow> string \<Rightarrow> option_node" where
  "REGISTER_OPTION name parser default_value docstring tool_name =
     \<lparr>o_next = None, o_name = name, o_alt_name = ''no_'' @ name, o_parse = parser,
      o_value = default_value, o_has_value = False, o_docstring = docstring, o_tool_name = tool_name\<rparr>"



definition DEFINE_int :: "string \<Rightarrow> u32 \<Rightarrow> string \<Rightarrow> string \<Rightarrow> option_node" where
  "DEFINE_int name default_value = REGISTER_OPTION name ParseIntOption (FlagInt default_value)"

definition DEFINE_positive_int :: "string \<Rightarrow> u32 \<Rightarrow> string \<Rightarrow> string \<Rightarrow> option_node" where
  "DEFINE_positive_int name default_value = REGISTER_OPTION name ParsePositiveIntOption (FlagInt default_value)"

definition DEFINE_uint :: "string \<Rightarrow> u32 \<Rightarrow> string \<Rightarrow> string \<Rightarrow> option_node" where
  "DEFINE_uint name default_value = REGISTER_OPTION name ParseUintOption (FlagInt default_value)"

definition DEFINE_positive_uint :: "string \<Rightarrow> u32 \<Rightarrow> string \<Rightarrow> string \<Rightarrow> option_node" where
  "DEFINE_positive_uint name default_value = REGISTER_OPTION name ParsePositiveUintOption (FlagInt default_value)"

definition DEFINE_mask :: "string \<Rightarrow> u64 \<Rightarrow> string \<Rightarrow> string \<Rightarrow> option_node" where
  "DEFINE_mask name default_value = REGISTER_OPTION name ParseBitMaskOption (FlagMask default_value)"

definition set_flag :: "option_node \<Rightarrow> flag_value \<Rightarrow> option_node" where
  "set_flag opt v = opt\<lparr>o_has_value := True, o_value := v\<rparr>"

definition parse_string_option :: "option_string \<Rightarrow> option_node \<Rightarrow> option_node" where
  "parse_string_option s opt =
     (case FindValueForName s (o_name opt) of
        Some val \<Rightarrow> set_flag opt (FlagString val) | None \<Rightarrow> opt)"

text \<open>The alternative name asserts that it has no value.\<close>

definition parse_bool_option :: "option_string \<Rightarrow> option_node \<Rightarrow> option_node option" where
  "parse_bool_option s opt =
     (case FindValueForName s (o_name opt) of
        Some val \<Rightarrow>
          let ch = (if val = [] then NUL else hd val)
          in Some (if ch \<in> set ''1yYtT'' \<or> ch = NUL then set_flag opt (FlagBool True)
                   else if ch \<in> set ''0nNfF'' then set_flag opt (FlagBool False)
                   else opt)
      | None \<Rightarrow>
          (case FindValueForName s (o_alt_name opt) of
             Some alt_value \<Rightarrow>
               if (if alt_value = [] then NUL else hd alt_value) = NUL
               then Some (set_flag opt (FlagBool False)) else None
           | None \<Rightarrow> Some opt))"

text \<open>The 32-bit variable a \<^verbatim>\<open>%d\<close> or \<^verbatim>\<open>%u\<close> scan stored into, when the scan counted it.\<close>

definition scan_32 :: "string \<Rightarrow> string \<Rightarrow> u32 option" where
  "scan_32 val fmt =
     (case DeFormat val fmt of
        Some (n, [Stored32 w]) \<Rightarrow> if n \<noteq> 0 then Some w else None
      | _ \<Rightarrow> None)"

definition scan_64 :: "string \<Rightarrow> string \<Rightarrow> u64 option" where
  "scan_64 val fmt =
     (case DeFormat val fmt of
        Some (n, [Stored64 w]) \<Rightarrow> if n \<noteq> 0 then Some w else None
      | _ \<Rightarrow> None)"

definition parse_int_option :: "option_string \<Rightarrow> option_node \<Rightarrow> option_node" where
  "parse_int_option s opt =
     (case FindValueForName s (o_name opt) of
        Some val \<Rightarrow> (case scan_32 val ''%d'' of Some w \<Rightarrow> set_flag opt (FlagInt w) | None \<Rightarrow> opt)
      | None \<Rightarrow> opt)"

definition parse_positive_int_option :: "option_string \<Rightarrow> option_node \<Rightarrow> option_node" where
  "parse_positive_int_option s opt =
     (case FindValueForName s (o_name opt) of
        Some val \<Rightarrow>
          (case scan_32 val ''%u'' of
             Some w \<Rightarrow> if 0 < sint w then set_flag opt (FlagInt w) else opt
           | None \<Rightarrow> opt)
      | None \<Rightarrow> opt)"

definition parse_uint_option :: "option_string \<Rightarrow> option_node \<Rightarrow> option_node" where
  "parse_uint_option s opt =
     (case FindValueForName s (o_name opt) of
        Some val \<Rightarrow> (case scan_32 val ''%u'' of Some w \<Rightarrow> set_flag opt (FlagInt w) | None \<Rightarrow> opt)
      | None \<Rightarrow> opt)"

definition parse_positive_uint_option :: "option_string \<Rightarrow> option_node \<Rightarrow> option_node" where
  "parse_positive_uint_option s opt =
     (case FindValueForName s (o_name opt) of
        Some val \<Rightarrow>
          (case scan_32 val ''%u'' of
             Some w \<Rightarrow> if 0 < w then set_flag opt (FlagInt w) else opt
           | None \<Rightarrow> opt)
      | None \<Rightarrow> opt)"

definition parse_bit_mask_option :: "option_string \<Rightarrow> option_node \<Rightarrow> option_node" where
  "parse_bit_mask_option s opt =
     (case FindValueForName s (o_name opt) of
        Some val \<Rightarrow>
          (case scan_64 val ''0x%lx'' of
             Some w \<Rightarrow> set_flag opt (FlagMask w)
           | None \<Rightarrow>
               (case scan_64 val ''0X%lx'' of
                  Some w \<Rightarrow> set_flag opt (FlagMask w)
                | None \<Rightarrow>
                    (case scan_64 val ''%lx'' of
                       Some w \<Rightarrow> set_flag opt (FlagMask w)
                     | None \<Rightarrow> opt)))
      | None \<Rightarrow> opt)"

definition parse_option :: "option_string \<Rightarrow> option_node \<Rightarrow> option_node option" where
  "parse_option s opt =
     (case o_parse opt of
        ParseStringOption \<Rightarrow> Some (parse_string_option s opt)
      | ParseBoolOption \<Rightarrow> parse_bool_option s opt
      | ParseIntOption \<Rightarrow> Some (parse_int_option s opt)
      | ParsePositiveIntOption \<Rightarrow> Some (parse_positive_int_option s opt)
      | ParseUintOption \<Rightarrow> Some (parse_uint_option s opt)
      | ParsePositiveUintOption \<Rightarrow> Some (parse_positive_uint_option s opt)
      | ParseBitMaskOption \<Rightarrow> Some (parse_bit_mask_option s opt))"

section \<open>Registration and initialisation\<close>

record options =
  opt_string :: option_string
  opt_heap :: "nat \<Rightarrow> option_node"
  OPTIONS :: "nat option"
  OPTIONS_INITIALIZED :: bool

definition AddOption :: "options \<Rightarrow> nat \<Rightarrow> options option" where
  "AddOption g p =
     Option.bind (if OPTIONS_INITIALIZED g
                  then map_option (\<lambda>opt. g\<lparr>opt_heap := (opt_heap g)(p := opt)\<rparr>)
                         (parse_option (opt_string g) (opt_heap g p))
                  else Some g)
       (\<lambda>g1. Some (if o_next (opt_heap g1 p) = None
                   then g1\<lparr>opt_heap := (opt_heap g1)(p := (opt_heap g1 p)\<lparr>o_next := OPTIONS g1\<rparr>),
                           OPTIONS := Some p\<rparr>
                   else g1))"

text \<open>The loop over the linked list; it does not end on a cyclic list.\<close>

partial_function (option) process_pending ::
  "option_string \<Rightarrow> (nat \<Rightarrow> option_node) \<Rightarrow> nat option \<Rightarrow> (nat \<Rightarrow> option_node) option" where
  "process_pending s heap node =
     (case node of
        None \<Rightarrow> Some heap
      | Some p \<Rightarrow>
          Option.bind (parse_option s (heap p)) (\<lambda>opt. process_pending s (heap(p := opt)) (o_next opt)))"

definition ProcessPendingOptions :: "options \<Rightarrow> options option" where
  "ProcessPendingOptions g =
     map_option (\<lambda>heap. g\<lparr>opt_heap := heap\<rparr>) (process_pending (opt_string g) (opt_heap g) (OPTIONS g))"


text \<open>The command-line variant: the arguments after the first, joined by single spaces.\<close>

fun copy_args :: "char list \<Rightarrow> nat \<Rightarrow> string \<Rightarrow> string list \<Rightarrow> char list \<times> nat" where
  "copy_args arr offset sep [] = (arr, offset)"
| "copy_args arr offset sep (arg # argv) =
     (let (arr1, offset1) = CopyStringIntoOptions arr offset sep;
          (arr2, offset2) = CopyStringIntoOptions arr1 offset1 arg
      in copy_args arr2 offset2 '' '' argv)"

definition InitOptions_argv :: "options \<Rightarrow> string list \<Rightarrow> options option" where
  "InitOptions_argv g argv =
     (let (arr, len) = copy_args (OPTION_STRING (opt_string g)) 0 [] (drop 1 argv)
      in Option.bind
           (Option.bind (TerminateOptionString ((opt_string g)\<lparr>OPTION_STRING := arr\<rparr>) len) ProcessOptionString)
           (\<lambda>s'. ProcessPendingOptions (g\<lparr>opt_string := s', OPTIONS_INITIALIZED := True\<rparr>)))"

section \<open>Line breaking of the help text\<close>

definition BUFFER_MAX_LENGTH :: nat where
  "BUFFER_MAX_LENGTH = 80 - 8"

text \<open>The loop of \<^verbatim>\<open>BufferDocString\<close>, over the rest of the document string, with the text
  copied so far, the room left, and the text and the rest at the last stop.\<close>

fun buffer_doc_loop ::
  "string \<Rightarrow> nat \<Rightarrow> string \<Rightarrow> string \<Rightarrow> string \<Rightarrow> string \<times> string" where
  "buffer_doc_loop buff 0 doc last_stop doc_last_stop = (last_stop, doc_last_stop)"
| "buffer_doc_loop buff (Suc room) [] last_stop doc_last_stop = (buff, [])"
| "buffer_doc_loop buff (Suc room) (c # doc) last_stop doc_last_stop =
     (if c = CHR '' '' then buffer_doc_loop (buff @ [c]) room doc buff doc
      else if c = CHR ''\<newline>'' then (buff, doc)
      else buffer_doc_loop (buff @ [c]) room doc last_stop doc_last_stop)"

definition BufferDocString :: "string \<Rightarrow> string \<times> string" where
  "BufferDocString doc = buffer_doc_loop [] BUFFER_MAX_LENGTH doc [] doc"

text \<open>The lines \<^verbatim>\<open>PrintAllOptions\<close> prints of one document string.\<close>

partial_function (option) doc_lines :: "string \<Rightarrow> string list option" where
  "doc_lines doc =
     (let (line_buff, doc') = BufferDocString doc
      in if doc' = [] then Some [line_buff]
         else Option.bind (doc_lines doc') (\<lambda>rest. Some (line_buff # rest)))"

text \<open>The help output: the name, the tool name and the lines of each registered option, in
  list order.\<close>

partial_function (option) PrintAllOptions ::
  "(nat \<Rightarrow> option_node) \<Rightarrow> nat option \<Rightarrow> (string \<times> string \<times> string list) list option" where
  "PrintAllOptions heap node =
     (case node of
        None \<Rightarrow> Some []
      | Some p \<Rightarrow>
          Option.bind (doc_lines (o_docstring (heap p))) (\<lambda>lines.
          Option.bind (PrintAllOptions heap (o_next (heap p))) (\<lambda>rest.
            Some ((o_name (heap p), o_tool_name (heap p), lines) # rest))))"

section \<open>Scanning a printed list of options\<close>

text \<open>A list of options as a user writes it: \<^verbatim>\<open>--name\<close> or \<^verbatim>\<open>--name=value\<close>, each followed
  by a space; and what the scan leaves of it in the array.\<close>

definition print_opt :: "string \<times> string option \<Rightarrow> string" where
  "print_opt x = ''--'' @ fst x @ (case snd x of None \<Rightarrow> [] | Some v \<Rightarrow> CHR ''='' # v) @ '' ''"

definition cut_opt :: "string \<times> string option \<Rightarrow> string" where
  "cut_opt x = [NUL, NUL] @ fst x @ (case snd x of None \<Rightarrow> [] | Some v \<Rightarrow> NUL # v) @ [NUL]"



lemma cut_opt_length [simp]: "length (cut_opt x) = length (print_opt x)"
  by (simp add: cut_opt_def print_opt_def split: option.splits)



lemma invalid_chars [simp]:
  "\<not> IsValidOptionChar (CHR ''='')" "\<not> IsValidOptionChar (CHR '' '')" "\<not> IsValidValueChar (CHR '' '')"
  by (simp_all add: IsValidOptionChar_def IsValidValueChar_def char_le_def)











section \<open>Looking values up\<close>







section \<open>The registered options\<close>

fun opt_chain :: "(nat \<Rightarrow> option_node) \<Rightarrow> nat option \<Rightarrow> nat list \<Rightarrow> bool" where
  "opt_chain heap node [] \<longleftrightarrow> node = None"
| "opt_chain heap node (p # ps) \<longleftrightarrow> node = Some p \<and> p \<notin> set ps \<and> opt_chain heap (o_next (heap p)) ps"

lemma set_flag_next [simp]: "o_next (set_flag opt v) = o_next opt"
  by (simp add: set_flag_def)

lemmas parser_defs =
  parse_string_option_def parse_bool_option_def parse_int_option_def parse_positive_int_option_def
  parse_uint_option_def parse_positive_uint_option_def parse_bit_mask_option_def

lemma parse_option_next: "parse_option s opt = Some opt' \<Longrightarrow> o_next opt' = o_next opt"
  by (cases "o_parse opt") (auto simp: parse_option_def parser_defs Let_def split: option.splits if_splits)

lemma opt_chain_cong:
  "opt_chain heap node ps \<Longrightarrow> (\<And>p. p \<in> set ps \<Longrightarrow> o_next (heap' p) = o_next (heap p)) \<Longrightarrow>
   opt_chain heap' node ps"
  by (induction ps arbitrary: node) auto


lemma AddOption_chain:
  assumes "opt_chain (opt_heap g) (OPTIONS g) ps" "p \<notin> set ps" "o_next (opt_heap g p) = None" "AddOption g p = Some g'"
  shows "opt_chain (opt_heap g') (OPTIONS g') (p # ps)"
proof -
  obtain opt where opt: "(if OPTIONS_INITIALIZED g then parse_option (opt_string g) (opt_heap g p)
      else Some (opt_heap g p)) = Some opt"
    using assms(4) by (cases "OPTIONS_INITIALIZED g") (auto simp: AddOption_def bind_eq_Some_conv)
  moreover from this have "o_next opt = None"
    using assms(3) parse_option_next [of "opt_string g" "opt_heap g p"] by (auto split: if_splits)
  ultimately have g': "g' = g\<lparr>opt_heap := (opt_heap g)(p := opt\<lparr>o_next := OPTIONS g\<rparr>), OPTIONS := Some p\<rparr>"
    using assms(4) by (cases "OPTIONS_INITIALIZED g") (simp_all add: AddOption_def)
  have "opt_chain (opt_heap g') (OPTIONS g) ps"
    using assms(1) by (rule opt_chain_cong) (use assms(2) in \<open>auto simp: g'\<close>)
  then show ?thesis using assms(2) by (simp add: g')
qed

section \<open>Round trip\<close>









section \<open>The help text\<close>

abbreviation is_break :: "char \<Rightarrow> bool" where
  "is_break c \<equiv> c = CHR '' '' \<or> c = CHR ''\<newline>''"

text \<open>Every word of a document string fits on a line.\<close>

fun words_fit :: "string \<Rightarrow> bool" where
  "words_fit [] = True"
| "words_fit (c # doc) \<longleftrightarrow>
     length (takeWhile (\<lambda>c. \<not> is_break c) (c # doc)) < BUFFER_MAX_LENGTH \<and> words_fit doc"

lemma words_fit_append: "words_fit (xs @ ys) \<Longrightarrow> words_fit ys"
  by (induction xs) auto

lemma buffer_doc_loop_cases:
  assumes "buffer_doc_loop buff room doc last_stop doc_last_stop = (line, rest)"
    and "(\<exists>c. is_break c \<and> buff @ doc = last_stop @ c # doc_last_stop \<and> length last_stop \<le> length buff) \<or>
         length (takeWhile (\<lambda>c. \<not> is_break c) doc) < room"
  shows "length line \<le> length buff + room \<and>
    (buff @ doc = line \<and> rest = [] \<or> (\<exists>c. is_break c \<and> buff @ doc = line @ c # rest))"
  using assms
proof (induction buff room doc last_stop doc_last_stop rule: buffer_doc_loop.induct)
  case (3 buff room c doc last_stop doc_last_stop)
  consider (space) "c = CHR '' ''" | (newline) "c = CHR ''\<newline>''" | (other) "\<not> is_break c" by blast
  then show ?case
  proof cases
    case space
    then have "buffer_doc_loop (buff @ [c]) room doc buff doc = (line, rest)" using 3 by simp
    moreover have "\<exists>c'. is_break c' \<and> (buff @ [c]) @ doc = buff @ c' # doc \<and> length buff \<le> length (buff @ [c])"
      using space by simp
    ultimately show ?thesis using "3.IH"(1) space by simp
  next
    case newline
    then show ?thesis using "3.prems"(1) by simp
  next
    case other
    have "buffer_doc_loop (buff @ [c]) room doc last_stop doc_last_stop = (line, rest)"
      using other "3.prems"(1) by simp
    moreover have "(\<exists>c'. is_break c' \<and> (buff @ [c]) @ doc = last_stop @ c' # doc_last_stop \<and>
        length last_stop \<le> length (buff @ [c])) \<or> length (takeWhile (\<lambda>c. \<not> is_break c) doc) < room"
      using "3.prems"(2)
    proof
      assume "\<exists>c'. is_break c' \<and> buff @ c # doc = last_stop @ c' # doc_last_stop \<and> length last_stop \<le> length buff"
      then obtain c' where "is_break c'" "buff @ c # doc = last_stop @ c' # doc_last_stop" "length last_stop \<le> length buff"
        by blast
      then show ?thesis by (intro disjI1 exI [of _ c']) simp
    qed (use other in simp)
    ultimately show ?thesis using "3.IH"(2) other by simp
  qed
qed (simp_all, blast+)

lemma BufferDocString_cases:
  assumes "words_fit doc" "BufferDocString doc = (line, rest)"
  shows "length line \<le> BUFFER_MAX_LENGTH"
    and "doc = line \<and> rest = [] \<or> (\<exists>c. is_break c \<and> doc = line @ c # rest)"
proof -
  have "length (takeWhile (\<lambda>c. \<not> is_break c) doc) < BUFFER_MAX_LENGTH"
    using assms(1) by (cases doc) (auto simp: BUFFER_MAX_LENGTH_def)
  with assms(2) buffer_doc_loop_cases [of "[]" BUFFER_MAX_LENGTH doc "[]" doc line rest]
  show "length line \<le> BUFFER_MAX_LENGTH"
    "doc = line \<and> rest = [] \<or> (\<exists>c. is_break c \<and> doc = line @ c # rest)"
    by (simp_all add: BufferDocString_def)
qed

text \<open>The help text of an option whose words are all shorter than a line is printed
  completely: the loop over \<^verbatim>\<open>BufferDocString\<close> ends, every line fits in the 72 columns, and the
  lines carry exactly the document's characters other than spaces and line breaks.\<close>

theorem doc_lines_terminates:
  assumes "words_fit doc"
  shows "\<exists>lines. doc_lines doc = Some lines \<and> list_all (\<lambda>l. length l \<le> BUFFER_MAX_LENGTH) lines \<and>
    filter (\<lambda>c. \<not> is_break c) (concat lines) = filter (\<lambda>c. \<not> is_break c) doc"
  using assms
proof (induction doc rule: length_induct)
  case (1 doc)
  obtain line rest where br: "BufferDocString doc = (line, rest)" by fastforce
  note cs = BufferDocString_cases [OF "1.prems" br]
  show ?case
  proof (cases "rest = []")
    case True
    then show ?thesis
      using cs br by (subst doc_lines.simps) auto
  next
    case False
    then obtain c where c: "is_break c" "doc = line @ c # rest" using cs by auto
    have "words_fit rest" using "1.prems" words_fit_append [of "line @ [c]" rest] c(2) by simp
    then obtain lines where l: "doc_lines rest = Some lines" "list_all (\<lambda>l. length l \<le> BUFFER_MAX_LENGTH) lines"
        "filter (\<lambda>c. \<not> is_break c) (concat lines) = filter (\<lambda>c. \<not> is_break c) rest"
      using "1.IH" [rule_format, of rest] c(2) by auto
    have "doc_lines doc = Some (line # lines)"
      using br False l(1) by (subst doc_lines.simps) simp
    then show ?thesis using l(2,3) cs(1) c by auto
  qed
qed

theorem doc_lines_terminates_witness:
  "\<exists>lines. doc_lines ''Enable mirroring'' = Some lines \<and>
     filter (\<lambda>c. \<not> is_break c) (concat lines) = ''Enablemirroring''"
  using doc_lines_terminates [of "''Enable mirroring''"] by (auto simp: BUFFER_MAX_LENGTH_def)

text \<open>A word as long as a line makes no progress: the caller's loop sees the same document
  again.\<close>

lemma BufferDocString_long_word:
  "BufferDocString (replicate 72 (CHR ''x'') @ doc) = ([], replicate 72 (CHR ''x'') @ doc)"
proof -
  have "buffer_doc_loop buff n (replicate n (CHR ''x'') @ doc) ls dls = (ls, dls)" for buff n ls dls
    by (induction n arbitrary: buff) auto
  then show ?thesis by (simp add: BufferDocString_def BUFFER_MAX_LENGTH_def)
qed

end
