(* ===== verification/Locks.thy ===== *)
theory Locks
  imports Prelude
begin

text \<open>
  The locks of \<^verbatim>\<open>granary/base/lock.cc\<close>: the ticket spin lock and the reader/writer lock, as
  step relations over the lock's atomic words and a program counter per thread. Every rule is
  one atomic access of the source; the accesses are interleaved arbitrarily and are
  sequentially consistent. The lock words have their 32 bits and wrap around.
\<close>

unbundle bit_operations_syntax

section \<open>Transition systems\<close>

inductive reachable :: "('s \<Rightarrow> bool) \<Rightarrow> ('s \<Rightarrow> 's \<Rightarrow> bool) \<Rightarrow> 's \<Rightarrow> bool" for init step where
  reachable_init: "init s \<Longrightarrow> reachable init step s"
| reachable_step: "reachable init step s \<Longrightarrow> step s s' \<Longrightarrow> reachable init step s'"

text \<open>A lock protocol: an invariant of the reachable states that grants exclusion.\<close>

locale lock_protocol =
  fixes init :: "'s \<Rightarrow> bool" and step :: "'s \<Rightarrow> 's \<Rightarrow> bool" and inv :: "'s \<Rightarrow> bool"
    and conflict :: "'s \<Rightarrow> nat \<Rightarrow> nat \<Rightarrow> bool"
  assumes inv_init: "init s \<Longrightarrow> inv s"
    and inv_step: "inv s \<Longrightarrow> step s s' \<Longrightarrow> inv s'"
    and inv_exclusion: "inv s \<Longrightarrow> conflict s t u \<Longrightarrow> t = u"
begin

lemma reachable_inv: "reachable init step s \<Longrightarrow> inv s"
  by (induction rule: reachable.induct) (auto intro: inv_init inv_step)

lemma exclusion: "reachable init step s \<Longrightarrow> conflict s t u \<Longrightarrow> t = u"
  using reachable_inv inv_exclusion by blast

end

section \<open>The ticket lock\<close>

record spin_lock =
  serving_ticket :: u32
  next_ticket :: u32

definition SpinLock_new :: spin_lock where
  "SpinLock_new = \<lparr>serving_ticket = 0, next_ticket = 0\<rparr>"

datatype spin_pc = Idle | Spinning u32 | Holding

text \<open>\<^verbatim>\<open>spin_region\<close> is the life of a thread that enters and leaves locked regions: outside,
  in the constructor's \<^verbatim>\<open>Acquire\<close>, inside.\<close>

type_synonym spin_region = "spin_lock \<times> (nat \<Rightarrow> spin_pc)"

definition spin_init :: "spin_region \<Rightarrow> bool" where
  "spin_init s \<longleftrightarrow> s = (SpinLock_new, \<lambda>_. Idle)"

inductive spin_step :: "nat \<Rightarrow> spin_region \<Rightarrow> spin_region \<Rightarrow> bool" for n where
  take_ticket: "t < n \<Longrightarrow> pc t = Idle \<Longrightarrow>
    spin_step n (l, pc) (l\<lparr>next_ticket := next_ticket l + 1\<rparr>, pc(t := Spinning (next_ticket l)))"
| spin: "t < n \<Longrightarrow> pc t = Spinning k \<Longrightarrow> k \<noteq> serving_ticket l \<Longrightarrow> spin_step n (l, pc) (l, pc)"
| enter: "t < n \<Longrightarrow> pc t = Spinning k \<Longrightarrow> k = serving_ticket l \<Longrightarrow>
    spin_step n (l, pc) (l, pc(t := Holding))"
| Release: "t < n \<Longrightarrow> pc t = Holding \<Longrightarrow>
    spin_step n (l, pc) (l\<lparr>serving_ticket := serving_ticket l + 1\<rparr>, pc(t := Idle))"

inductive_cases spin_stepE: "spin_step n (l, pc) s'"

text \<open>How many tickets are served before a thread's own.\<close>

definition turns :: "spin_lock \<Rightarrow> spin_pc \<Rightarrow> nat" where
  "turns l p = (case p of Spinning k \<Rightarrow> unat (k - serving_ticket l) | _ \<Rightarrow> 0)"

definition waiting :: "(nat \<Rightarrow> spin_pc) \<Rightarrow> nat set" where
  "waiting pc = {t. pc t \<noteq> Idle}"

text \<open>The threads in the lock hold the consecutive tickets from the one being served on.\<close>

definition spin_inv :: "nat \<Rightarrow> spin_region \<Rightarrow> bool" where
  "spin_inv n s = (case s of (l, pc) \<Rightarrow>
     waiting pc \<subseteq> {..<n} \<and> inj_on (\<lambda>t. turns l (pc t)) (waiting pc) \<and>
     (\<forall>t \<in> waiting pc. turns l (pc t) < card (waiting pc)) \<and>
     unat (next_ticket l - serving_ticket l) = card (waiting pc))"

lemma waiting_upd [simp]:
  "waiting (pc(t := Idle)) = waiting pc - {t}" "p \<noteq> Idle \<Longrightarrow> waiting (pc(t := p)) = insert t (waiting pc)"
  by (auto simp: waiting_def)

lemma waiting_iff: "t \<in> waiting pc \<longleftrightarrow> pc t \<noteq> Idle"
  by (simp add: waiting_def)

lemma turns_serving [simp]: "turns (l\<lparr>next_ticket := k\<rparr>) p = turns l p" "turns l Holding = 0"
  by (simp_all add: turns_def split: spin_pc.splits)

lemma unat_minus_Suc: "k \<noteq> (s :: 'a :: len word) \<Longrightarrow> unat (k - (s + 1)) = unat (k - s) - 1"
  by (metis diff_diff_add eq_iff_diff_eq_0 unat_minus_one)

lemma unat_minus_Suc': "0 < unat (k - s :: 'a :: len word) \<Longrightarrow> unat (k - (s + 1)) = unat (k - s) - 1"
  by (rule unat_minus_Suc) auto

lemma unat_plus_one: "Suc (unat (w :: 'a :: len word)) < 2 ^ LENGTH('a) \<Longrightarrow> unat (w + 1) = Suc (unat w)"
  by (simp add: unat_word_ariths)

lemma spin_inv_step:
  assumes n: "n < 2 ^ 32" and inv: "spin_inv n (l, pc)" and step: "spin_step n (l, pc) s'"
  shows "spin_inv n s'"
  using step
proof cases
  case (take_ticket t)
  let ?l = "l\<lparr>next_ticket := next_ticket l + 1\<rparr>" and ?pc = "pc(t := Spinning (next_ticket l))"
  let ?c = "card (waiting pc)"
  have sub: "insert t (waiting pc) \<subseteq> {..<n}" and nw: "t \<notin> waiting pc"
    using inv take_ticket by (auto simp: spin_inv_def waiting_iff)
  then have fin: "finite (waiting pc)" by (blast intro: finite_subset)
  have "card (insert t (waiting pc)) \<le> n" using card_mono [OF _ sub] by simp
  then have c: "Suc ?c < 2 ^ 32" using n nw fin by simp
  have turn: "turns ?l (?pc t) = ?c" using inv by (simp add: turns_def spin_inv_def)
  have old: "turns ?l (?pc u) = turns l (pc u)" if "u \<in> waiting pc" for u using that nw by auto
  have less: "turns l (pc u) < ?c" if "u \<in> waiting pc" for u using that inv by (simp add: spin_inv_def)
  have "inj_on (\<lambda>u. turns ?l (?pc u)) (insert t (waiting pc))"
    unfolding inj_on_insert
  proof
    show "inj_on (\<lambda>u. turns ?l (?pc u)) (waiting pc)"
      using inv by (subst inj_on_cong [OF old]) (auto simp: spin_inv_def)
    show "turns ?l (?pc t) \<notin> (\<lambda>u. turns ?l (?pc u)) ` (waiting pc - {t})"
    proof
      assume "turns ?l (?pc t) \<in> (\<lambda>u. turns ?l (?pc u)) ` (waiting pc - {t})"
      then obtain u where u: "u \<in> waiting pc" and "turns ?l (?pc t) = turns ?l (?pc u)" by blast
      then have "?c = turns l (pc u)" by (simp only: turn old)
      with less [OF u] show False by simp
    qed
  qed
  moreover have "turns ?l (?pc u) < Suc ?c" if "u \<in> insert t (waiting pc)" for u
  proof (cases "u = t")
    case True
    then show ?thesis using turn by (simp only: lessI)
  next
    case False
    then have "u \<in> waiting pc" using that by simp
    then show ?thesis by (simp only: old less less_SucI)
  qed
  then have "\<forall>u \<in> insert t (waiting pc). turns ?l (?pc u) < Suc ?c" by (rule ballI)
  moreover have "unat (next_ticket l + 1 - serving_ticket l) = Suc ?c"
  proof -
    have "unat (next_ticket l - serving_ticket l) = ?c" using inv by (simp add: spin_inv_def)
    then show ?thesis
      unfolding diff_add_eq [symmetric] using c unat_plus_one [of "next_ticket l - serving_ticket l"] by simp
  qed
  ultimately show ?thesis
    using take_ticket sub nw fin by (simp add: spin_inv_def)
next
  case (enter t k)
  have "turns l (pc t) = 0" using enter by (simp add: turns_def)
  then have "turns l ((pc(t := Holding)) u) = turns l (pc u)" for u by simp
  moreover have "waiting (pc(t := Holding)) = waiting pc"
    using enter by (auto simp: waiting_def)
  ultimately show ?thesis using enter inv by (simp add: spin_inv_def)
next
  case (Release t)
  let ?l = "l\<lparr>serving_ticket := serving_ticket l + 1\<rparr>"
  let ?c = "card (waiting pc)"
  have t: "t \<in> waiting pc" "turns l (pc t) = 0" using Release by (simp_all add: waiting_iff)
  have fin: "finite (waiting pc)" using inv by (auto simp: spin_inv_def intro: finite_subset)
  have pos: "0 < turns l (pc u)" if "u \<in> waiting pc - {t}" for u
    using that t inv by (fastforce simp: spin_inv_def inj_on_def)
  have turn: "turns ?l (pc u) = turns l (pc u) - 1" if "u \<in> waiting pc - {t}" for u
    using pos [OF that] by (cases "pc u") (simp_all add: turns_def unat_minus_Suc')
  have upd: "turns ?l ((pc(t := Idle)) u) = turns l (pc u) - 1" if "u \<in> waiting pc - {t}" for u
    using that turn by simp
  have "inj_on (\<lambda>u. turns ?l ((pc(t := Idle)) u)) (waiting pc - {t})"
  proof (subst inj_on_cong [OF upd])
    show "inj_on (\<lambda>u. turns l (pc u) - 1) (waiting pc - {t})"
    proof (rule inj_onI)
      fix u v
      assume "u \<in> waiting pc - {t}" "v \<in> waiting pc - {t}" "turns l (pc u) - 1 = turns l (pc v) - 1"
      then have "turns l (pc u) = turns l (pc v)" using pos [of u] pos [of v] by linarith
      then show "u = v"
        using inv \<open>u \<in> _\<close> \<open>v \<in> _\<close> by (auto simp: spin_inv_def inj_on_def)
    qed
  qed
  moreover have "\<forall>u \<in> waiting pc - {t}. turns ?l ((pc(t := Idle)) u) < card (waiting pc - {t})"
  proof
    fix u assume u: "u \<in> waiting pc - {t}"
    then have "turns l (pc u) < ?c" using inv by (auto simp: spin_inv_def)
    then show "turns ?l ((pc(t := Idle)) u) < card (waiting pc - {t})"
      using upd [OF u] pos [OF u] t fin by simp
  qed
  moreover have "next_ticket l \<noteq> serving_ticket l"
    using inv t(1) fin card_gt_0_iff [of "waiting pc"] by (auto simp: spin_inv_def)
  then have "unat (next_ticket l - (serving_ticket l + 1)) = card (waiting pc - {t})"
    using inv t fin by (simp add: spin_inv_def unat_minus_Suc)
  ultimately show ?thesis
    using Release inv by (auto simp: spin_inv_def)
qed (use inv in simp)

interpretation spin: lock_protocol spin_init "spin_step n" "\<lambda>s. n < 2 ^ 32 \<longrightarrow> spin_inv n s"
    "\<lambda>s t u. n < 2 ^ 32 \<and> snd s t = Holding \<and> snd s u = Holding" for n
proof
  fix s
  assume "spin_init s"
  then show "n < 2 ^ 32 \<longrightarrow> spin_inv n s"
    by (simp add: spin_init_def spin_inv_def SpinLock_new_def waiting_def)
next
  fix s s'
  assume "n < 2 ^ 32 \<longrightarrow> spin_inv n s" "spin_step n s s'"
  then show "n < 2 ^ 32 \<longrightarrow> spin_inv n s'" by (cases s) (auto intro: spin_inv_step)
next
  fix s t u
  assume "n < 2 ^ 32 \<longrightarrow> spin_inv n s" "n < 2 ^ 32 \<and> snd s t = Holding \<and> snd s u = Holding"
  then show "t = u"
    by (cases s) (auto simp: spin_inv_def inj_on_def waiting_def)
qed

lemma spin_inv_first:
  assumes "spin_inv n (l, pc)" "waiting pc \<noteq> {}"
  obtains t where "t \<in> waiting pc" "turns l (pc t) = 0"
proof -
  have fin: "finite (waiting pc)" using assms(1) by (auto simp: spin_inv_def intro: finite_subset)
  have "(\<lambda>t. turns l (pc t)) ` waiting pc = {..<card (waiting pc)}"
    using assms(1) fin by (intro card_subset_eq) (auto simp: spin_inv_def card_image)
  moreover have "0 < card (waiting pc)" using assms(2) fin by (simp add: card_gt_0_iff)
  ultimately show ?thesis using that by (metis imageE lessThan_iff)
qed

text \<open>C1. The ticket lock gives mutual exclusion and cannot block: with fewer than \<open>2 ^ 32\<close>
  threads, in every state any interleaving reaches, at most one thread is in its locked
  region, and as long as some thread is in \<^verbatim>\<open>Acquire\<close> or in its region, one of them can
  take a step that changes the lock's state (the holder can release, or the thread whose
  ticket is served enters). The tickets may wrap around in between.\<close>

theorem spin_lock_correct:
  assumes "n < 2 ^ 32" "reachable spin_init (spin_step n) (l, pc)"
  shows "(\<forall>t u. pc t = Holding \<and> pc u = Holding \<longrightarrow> t = u) \<and>
    ((\<exists>t. pc t \<noteq> Idle) \<longrightarrow> (\<exists>u < n. pc u = Holding \<or> pc u = Spinning (serving_ticket l)))"
proof (intro conjI impI)
  have inv: "spin_inv n (l, pc)" using spin.reachable_inv [OF assms(2)] assms(1) by simp
  show "\<forall>t u. pc t = Holding \<and> pc u = Holding \<longrightarrow> t = u"
    using spin.exclusion [OF assms(2)] assms(1) by simp
  assume "\<exists>t. pc t \<noteq> Idle"
  then have "waiting pc \<noteq> {}" by (auto simp: waiting_def)
  then obtain u where u: "u \<in> waiting pc" "turns l (pc u) = 0" using spin_inv_first [OF inv] by blast
  then have "pc u = Holding \<or> pc u = Spinning (serving_ticket l)"
    by (cases "pc u") (simp_all add: waiting_def turns_def unat_eq_0)
  moreover have "u < n" using u(1) inv by (auto simp: spin_inv_def)
  ultimately show "\<exists>u < n. pc u = Holding \<or> pc u = Spinning (serving_ticket l)" by blast
qed

definition spin_sample :: spin_region where
  "spin_sample = (\<lparr>serving_ticket = 0, next_ticket = 2\<rparr>, (\<lambda>_. Idle)(0 := Holding, 1 := Spinning 1))"

lemma spin_sample_reachable: "reachable spin_init (spin_step 2) spin_sample"
proof -
  let ?l = "\<lambda>k. \<lparr>serving_ticket = 0, next_ticket = k\<rparr>"
  let ?r = "reachable spin_init (spin_step 2)"
  have "?r (?l 0, \<lambda>_. Idle)"
    by (rule reachable_init) (simp add: spin_init_def SpinLock_new_def)
  then have "?r (?l 1, (\<lambda>_. Idle)(0 := Spinning 0))"
    by (rule reachable_step) (use take_ticket [of 0 2 "\<lambda>_. Idle" "?l 0"] in simp)
  then have "?r (?l 2, (\<lambda>_. Idle)(0 := Spinning 0, 1 := Spinning 1))"
    by (rule reachable_step) (use take_ticket [of 1 2 "(\<lambda>_. Idle)(0 := Spinning 0)" "?l 1"] in simp)
  then have "?r (?l 2, ((\<lambda>_. Idle)(0 := Spinning 0, 1 := Spinning 1))(0 := Holding))"
    by (rule reachable_step) (use enter [of 0 2 "(\<lambda>_. Idle)(0 := Spinning 0, 1 := Spinning 1)" 0 "?l 2"] in simp)
  moreover have "((\<lambda>_ :: nat. Idle)(0 := Spinning 0, 1 := Spinning 1))(0 := Holding) =
      (\<lambda>_. Idle)(0 := Holding, 1 := Spinning (1 :: u32))" by (simp add: fun_eq_iff)
  ultimately show ?thesis by (simp add: spin_sample_def)
qed

theorem spin_lock_correct_witness:
  "snd spin_sample 1 \<noteq> Holding \<and>
   (\<exists>u < 2. snd spin_sample u = Holding \<or> snd spin_sample u = Spinning (serving_ticket (fst spin_sample)))"
proof -
  have "snd spin_sample 0 = Holding" "\<exists>t. snd spin_sample t \<noteq> Idle"
    by (auto simp: spin_sample_def intro: exI [of _ 0])
  then show ?thesis
    using spin_lock_correct [of 2 "fst spin_sample" "snd spin_sample"] spin_sample_reachable
    by auto
qed

section \<open>The reader/writer lock\<close>

type_synonym rw_lock = u32

definition rw_new :: rw_lock where
  "rw_new = 0"

text \<open>Where a thread is in the acquire operations: before the load and before the
  compare-and-exchange of \<^verbatim>\<open>TryReadAcquire\<close> (with whether \<^verbatim>\<open>ReadAcquire\<close> called it),
  before that of \<^verbatim>\<open>TryWriteAcquire\<close>, before the load and before the
  compare-and-exchange of \<^verbatim>\<open>WriteAcquire\<close>, and in its wait for the readers.\<close>

datatype rw_pc =
  Outside | ReadLoad bool | ReadCAS bool u32 | Reading
| TryWriteCAS | WriteLoad | WriteCAS u32 | WriteWait | Writing

definition try_read_load :: "u32 \<Rightarrow> u32" where
  "try_read_load lock = lock AND 0x7fffffff"

type_synonym rw_region = "rw_lock \<times> (nat \<Rightarrow> rw_pc)"

definition rw_init :: "rw_region \<Rightarrow> bool" where
  "rw_init s \<longleftrightarrow> s = (rw_new, \<lambda>_. Outside)"

text \<open>A weak compare-and-exchange may fail although the value is the expected one; a failed
  one gives the value it saw.\<close>

inductive rw_step :: "nat \<Rightarrow> rw_region \<Rightarrow> rw_region \<Rightarrow> bool" for n where
  try_read: "t < n \<Longrightarrow> pc t = Outside \<Longrightarrow> rw_step n (lock, pc) (lock, pc(t := ReadLoad blocking))"
| read_load: "t < n \<Longrightarrow> pc t = ReadLoad blocking \<Longrightarrow>
    rw_step n (lock, pc) (lock, pc(t := ReadCAS blocking (try_read_load lock)))"
| read_cas: "t < n \<Longrightarrow> pc t = ReadCAS blocking old_value \<Longrightarrow> lock = old_value \<Longrightarrow>
    rw_step n (lock, pc) (old_value + 1, pc(t := Reading))"
| read_contention: "t < n \<Longrightarrow> pc t = ReadCAS blocking old_value \<Longrightarrow> lock < 0x80000000 \<Longrightarrow>
    rw_step n (lock, pc) (lock, pc(t := ReadLoad blocking))"
| read_refused: "t < n \<Longrightarrow> pc t = ReadCAS blocking old_value \<Longrightarrow> \<not> lock < 0x80000000 \<Longrightarrow>
    rw_step n (lock, pc) (lock, pc(t := if blocking then ReadLoad True else Outside))"
| ReadRelease: "t < n \<Longrightarrow> pc t = Reading \<Longrightarrow> rw_step n (lock, pc) (lock - 1, pc(t := Outside))"
| try_write: "t < n \<Longrightarrow> pc t = Outside \<Longrightarrow> rw_step n (lock, pc) (lock, pc(t := TryWriteCAS))"
| try_write_cas: "t < n \<Longrightarrow> pc t = TryWriteCAS \<Longrightarrow> lock = 0 \<Longrightarrow>
    rw_step n (lock, pc) (0x80000000, pc(t := Writing))"
| try_write_refused: "t < n \<Longrightarrow> pc t = TryWriteCAS \<Longrightarrow> rw_step n (lock, pc) (lock, pc(t := Outside))"
| WriteAcquire: "t < n \<Longrightarrow> pc t = Outside \<Longrightarrow> rw_step n (lock, pc) (lock, pc(t := WriteLoad))"
| write_load: "t < n \<Longrightarrow> pc t = WriteLoad \<Longrightarrow>
    rw_step n (lock, pc) (lock, pc(t := WriteCAS (lock AND 0x7fffffff)))"
| write_cas: "t < n \<Longrightarrow> pc t = WriteCAS old_value \<Longrightarrow> lock = old_value \<Longrightarrow>
    rw_step n (lock, pc) (old_value OR 0x80000000, pc(t := WriteWait))"
| write_retry: "t < n \<Longrightarrow> pc t = WriteCAS old_value \<Longrightarrow> rw_step n (lock, pc) (lock, pc(t := WriteLoad))"
| write_wait: "t < n \<Longrightarrow> pc t = WriteWait \<Longrightarrow> lock AND 0x7fffffff \<noteq> 0 \<Longrightarrow> rw_step n (lock, pc) (lock, pc)"
| write_enter: "t < n \<Longrightarrow> pc t = WriteWait \<Longrightarrow> lock AND 0x7fffffff = 0 \<Longrightarrow>
    rw_step n (lock, pc) (lock, pc(t := Writing))"
| WriteRelease: "t < n \<Longrightarrow> pc t = Writing \<Longrightarrow> rw_step n (lock, pc) (0, pc(t := Outside))"

definition readers :: "(nat \<Rightarrow> rw_pc) \<Rightarrow> nat set" where
  "readers pc = {t. pc t = Reading}"

definition writers :: "(nat \<Rightarrow> rw_pc) \<Rightarrow> nat set" where
  "writers pc = {t. pc t = WriteWait \<or> pc t = Writing}"

text \<open>The low 31 bits count the readers, the top bit says that there is a writer, and there is
  at most one; a thread about to exchange has seen the top bit clear.\<close>

definition rw_inv :: "nat \<Rightarrow> rw_region \<Rightarrow> bool" where
  "rw_inv n s = (case s of (lock, pc) \<Rightarrow>
     readers pc \<subseteq> {..<n} \<and> writers pc \<subseteq> {..<n} \<and>
     (\<forall>t u. t \<in> writers pc \<longrightarrow> u \<in> writers pc \<longrightarrow> t = u) \<and>
     unat lock = card (readers pc) + (if writers pc = {} then 0 else 2 ^ 31) \<and>
     (\<forall>t. pc t = Writing \<longrightarrow> readers pc = {}) \<and>
     (\<forall>t b v. pc t = ReadCAS b v \<or> pc t = WriteCAS v \<longrightarrow> unat v < 2 ^ 31))"

lemma readers_upd: "readers (pc(t := p)) = (if p = Reading then insert t (readers pc) else readers pc - {t})"
  by (auto simp: readers_def)

lemma writers_upd:
  "writers (pc(t := p)) = (if p = WriteWait \<or> p = Writing then insert t (writers pc) else writers pc - {t})"
  by (auto simp: writers_def)

lemma unat_low_31: "unat ((w :: u32) AND 0x7fffffff) = unat w mod 2 ^ 31"
proof -
  have "w AND 0x7fffffff = take_bit 31 w" by (simp add: take_bit_eq_mask mask_eq_exp_minus_1)
  then show ?thesis by (simp add: take_bit_eq_mod unat_mod)
qed

lemma and_exp_eq_0: "\<not> bit (w :: 'a :: len word) n \<Longrightarrow> w AND 2 ^ n = 0"
  by (rule bit_eqI) (auto simp: bit_and_iff bit_exp_iff)

lemma or_top_bit:
  assumes "unat (w :: u32) < 2 ^ 31"
  shows "unat (w OR 0x80000000) = unat w + 2 ^ 31"
proof -
  have "bit w 31 \<longleftrightarrow> bit (unat w) 31" by (simp add: bit_unsigned_iff)
  then have b: "\<not> bit w 31" using assms by (simp add: bit_iff_odd)
  have top: "(0x80000000 :: u32) = 2 ^ 31" by simp
  have "w AND 2 ^ 31 = 0" using b by (rule and_exp_eq_0)
  then have "w OR 2 ^ 31 = w + 2 ^ 31" by (rule disjunctive_add_eq_or [symmetric])
  then show ?thesis using assms by (simp add: unat_word_ariths)
qed

text \<open>Moves that neither take nor give the lock.\<close>

definition between :: "rw_pc \<Rightarrow> bool" where
  "between p \<longleftrightarrow> p \<notin> {Reading, WriteWait, Writing}"

lemma rw_inv_between:
  assumes "rw_inv n (lock, pc)" "between (pc t)" "between p"
    and "\<And>b v. p = ReadCAS b v \<or> p = WriteCAS v \<Longrightarrow> unat v < 2 ^ 31"
  shows "rw_inv n (lock, pc(t := p))"
proof -
  have "t \<notin> readers pc" "t \<notin> writers pc"
    using assms(2) by (auto simp: between_def readers_def writers_def)
  then have "readers (pc(t := p)) = readers pc" "writers (pc(t := p)) = writers pc"
    using assms(3) by (auto simp: between_def readers_upd writers_upd)
  then show ?thesis
    using assms by (auto simp: rw_inv_def between_def)
qed

lemma rw_inv_finite:
  "rw_inv n (lock, pc) \<Longrightarrow> finite (readers pc)" "rw_inv n (lock, pc) \<Longrightarrow> card (readers pc) \<le> n"
  by (auto simp: rw_inv_def intro: finite_subset dest: card_mono [rotated])

lemma rw_inv_seen:
  "rw_inv n (lock, pc) \<Longrightarrow> pc t = ReadCAS b v \<Longrightarrow> unat v < 2 ^ 31"
  "rw_inv n (lock, pc) \<Longrightarrow> pc t = WriteCAS v \<Longrightarrow> unat v < 2 ^ 31"
  by (simp_all add: rw_inv_def)

lemma rw_inv_unlocked:
  "rw_inv n (lock, pc) \<Longrightarrow> unat lock < 2 ^ 31 \<Longrightarrow> writers pc = {} \<and> unat lock = card (readers pc)"
  by (auto simp: rw_inv_def split: if_splits)

lemma unat_minus_one': "0 < unat (w :: 'a :: len word) \<Longrightarrow> unat (w - 1) = unat w - 1"
  by (rule unat_minus_one) auto

lemma rw_inv_step:
  assumes n: "n < 2 ^ 31" and inv: "rw_inv n (lock, pc)" and step: "rw_step n (lock, pc) s'"
  shows "rw_inv n s'"
  using step
proof cases
  case (read_load t blocking)
  then show ?thesis
    by (auto intro!: rw_inv_between [OF inv] simp: between_def try_read_load_def unat_low_31)
next
  case (read_cas t blocking old_value)
  then have old: "unat lock < 2 ^ 31" using rw_inv_seen(1) [OF inv] by blast
  have t: "t \<notin> readers pc" "t \<notin> writers pc" using read_cas by (auto simp: readers_def writers_def)
  have sub: "insert t (readers pc) \<subseteq> {..<n}" using inv read_cas by (auto simp: rw_inv_def)
  have "card (insert t (readers pc)) \<le> n" using card_mono [OF _ sub] by simp
  then have "Suc (unat lock) < 2 ^ 32" using rw_inv_unlocked [OF inv old] rw_inv_finite [OF inv] t n by simp
  then have "unat (lock + 1) = Suc (unat lock)" by (intro unat_plus_one) simp
  moreover have "\<forall>u. (pc(t := Reading)) u \<noteq> Writing"
    using rw_inv_unlocked [OF inv old] by (auto simp: writers_def)
  ultimately show ?thesis
    using read_cas inv rw_inv_unlocked [OF inv old] rw_inv_finite [OF inv] t sub
    by (auto simp: rw_inv_def readers_upd writers_upd)
next
  case (ReadRelease t)
  then have t: "t \<in> readers pc" "t \<notin> writers pc" by (auto simp: readers_def writers_def)
  then have pos: "0 < card (readers pc)" using rw_inv_finite [OF inv] card_gt_0_iff by blast
  then have "0 < unat lock" using inv by (auto simp: rw_inv_def)
  then have "unat (lock - 1) = unat lock - 1" by (rule unat_minus_one')
  then show ?thesis
    using ReadRelease inv pos t rw_inv_finite [OF inv] by (auto simp: rw_inv_def readers_upd writers_upd)
next
  case (try_write_cas t)
  then have "writers pc = {}" "readers pc = {}"
    using rw_inv_unlocked [OF inv] rw_inv_finite [OF inv] by auto
  then show ?thesis
    using try_write_cas inv by (auto simp: rw_inv_def readers_upd writers_upd)
next
  case (write_load t)
  then show ?thesis
    by (auto intro!: rw_inv_between [OF inv] simp: between_def unat_low_31)
next
  case (write_cas t old_value)
  then have old: "unat lock < 2 ^ 31" using rw_inv_seen(2) [OF inv] by blast
  have t: "t \<notin> readers pc" using write_cas by (auto simp: readers_def)
  show ?thesis
    using write_cas inv rw_inv_unlocked [OF inv old] t or_top_bit [OF old]
    by (auto simp: rw_inv_def readers_upd writers_upd)
next
  case (write_enter t)
  then have w: "t \<in> writers pc" "t \<notin> readers pc" by (auto simp: writers_def readers_def)
  then have "unat lock = card (readers pc) + 2 ^ 31" using inv by (auto simp: rw_inv_def)
  moreover have "unat lock mod 2 ^ 31 = 0" using write_enter unat_low_31 [of lock] by simp
  moreover have "card (readers pc) < 2 ^ 31" using rw_inv_finite(2) [OF inv] n by simp
  ultimately have "card (readers pc) = 0" by simp
  then have "readers pc = {}" using rw_inv_finite [OF inv] by simp
  then show ?thesis
    using write_enter inv w by (auto simp: rw_inv_def readers_upd writers_upd)
next
  case (WriteRelease t)
  then have "t \<in> writers pc" by (simp add: writers_def)
  then have "writers pc = {t}" "readers pc = {}" using inv WriteRelease by (auto simp: rw_inv_def)
  then show ?thesis
    using WriteRelease inv by (auto simp: rw_inv_def readers_upd writers_upd)
qed (use inv in \<open>auto intro!: rw_inv_between [OF inv] simp: between_def split: if_splits\<close>)

interpretation rw: lock_protocol rw_init "rw_step n" "\<lambda>s. n < 2 ^ 31 \<longrightarrow> rw_inv n s"
    "\<lambda>s t u. n < 2 ^ 31 \<and> snd s t = Writing \<and> (snd s u = Writing \<or> snd s u = Reading)" for n
proof
  fix s
  assume "rw_init s"
  then show "n < 2 ^ 31 \<longrightarrow> rw_inv n s"
    by (simp add: rw_init_def rw_inv_def rw_new_def readers_def writers_def)
next
  fix s s'
  assume "n < 2 ^ 31 \<longrightarrow> rw_inv n s" "rw_step n s s'"
  then show "n < 2 ^ 31 \<longrightarrow> rw_inv n s'" by (cases s) (auto intro: rw_inv_step)
next
  fix s t u
  assume "n < 2 ^ 31 \<longrightarrow> rw_inv n s"
    "n < 2 ^ 31 \<and> snd s t = Writing \<and> (snd s u = Writing \<or> snd s u = Reading)"
  then show "t = u"
    by (cases s) (auto simp: rw_inv_def readers_def writers_def)
qed

text \<open>C2. The reader/writer lock excludes: with fewer than \<open>2 ^ 31\<close> threads, in every state
  any interleaving reaches (spurious failures of the weak exchanges included), a thread that
  holds the write side is the only one inside, at most one thread holds or waits for the
  write side with the top bit set, and the lock word is exactly the number of readers plus
  that bit. So the last reader to leave makes a waiting writer's next test succeed, and the
  plain store of \<^verbatim>\<open>WriteRelease\<close> loses no reader.\<close>

theorem rw_lock_correct:
  assumes "n < 2 ^ 31" "reachable rw_init (rw_step n) (lock, pc)"
  shows "(\<forall>t u. pc t = Writing \<and> (pc u = Writing \<or> pc u = Reading) \<longrightarrow> t = u) \<and>
    (\<forall>t u. pc t \<in> {WriteWait, Writing} \<and> pc u \<in> {WriteWait, Writing} \<longrightarrow> t = u) \<and>
    unat lock = card {t. pc t = Reading} + (if \<exists>t. pc t \<in> {WriteWait, Writing} then 2 ^ 31 else 0)"
proof -
  have inv: "rw_inv n (lock, pc)" using rw.reachable_inv [OF assms(2)] assms(1) by simp
  have "\<forall>t u. pc t = Writing \<and> (pc u = Writing \<or> pc u = Reading) \<longrightarrow> t = u"
    using rw.exclusion [OF assms(2)] assms(1) by auto
  moreover have "\<forall>t u. pc t \<in> {WriteWait, Writing} \<and> pc u \<in> {WriteWait, Writing} \<longrightarrow> t = u"
    using inv by (auto simp: rw_inv_def writers_def)
  moreover have "unat lock = card {t. pc t = Reading} + (if \<exists>t. pc t \<in> {WriteWait, Writing} then 2 ^ 31 else 0)"
    using inv by (auto simp: rw_inv_def writers_def readers_def)
  ultimately show ?thesis by blast
qed

definition rw_sample :: "nat \<Rightarrow> rw_pc" where
  "rw_sample = (\<lambda>_. Outside)(1 := Reading)"

lemma rw_sample_reachable: "reachable rw_init (rw_step 2) (1, rw_sample)"
proof -
  let ?r = "reachable rw_init (rw_step 2)"
  have "?r (0, \<lambda>_. Outside)" by (rule reachable_init) (simp add: rw_init_def rw_new_def)
  then have "?r (0, (\<lambda>_. Outside)(1 := ReadLoad False))"
    by (rule reachable_step) (use try_read [of 1 2 "\<lambda>_. Outside" 0 False] in simp)
  then have "?r (0, (\<lambda>_. Outside)(1 := ReadCAS False 0))"
    by (rule reachable_step) (use read_load [of 1 2 "(\<lambda>_. Outside)(1 := ReadLoad False)" False 0] in \<open>simp add: try_read_load_def\<close>)
  then have "?r (1, (\<lambda>_. Outside)(1 := Reading))"
    by (rule reachable_step) (use read_cas [of 1 2 "(\<lambda>_. Outside)(1 := ReadCAS False 0)" False 0 0] in simp)
  then show ?thesis by (simp add: rw_sample_def)
qed

theorem rw_lock_correct_witness:
  "unat (1 :: u32) = card {t. rw_sample t = Reading} +
     (if \<exists>t. rw_sample t \<in> {WriteWait, Writing} then 2 ^ 31 else 0)"
  by (rule conjunct2 [OF conjunct2 [OF rw_lock_correct [OF _ rw_sample_reachable]]]) simp

end
