(* ===== verification/Lists.thy ===== *)
theory Lists
  imports Prelude
begin

text \<open>
  The intrusive lists of \<^verbatim>\<open>granary/base/list.h\<close>: the doubly linked \<^verbatim>\<open>ListHead\<close> and
  \<^verbatim>\<open>ListOfListHead\<close> with their iterators, and the zipper over singly linked lists. Nodes
  live in an explicit heap from addresses to links, so the order of the stores and their
  aliasing is that of the code. The abstraction relation says which heaps hold which list.
\<close>

section \<open>List heads\<close>

record list_head =
  lh_next :: "nat option"
  lh_prev :: "nat option"

type_synonym list_heap = "nat \<Rightarrow> list_head"

definition ListHead_new :: list_head where
  "ListHead_new = \<lparr>lh_next = None, lh_prev = None\<rparr>"

definition set_next :: "list_heap \<Rightarrow> nat \<Rightarrow> nat option \<Rightarrow> list_heap" where
  "set_next h p v = h(p := (h p)\<lparr>lh_next := v\<rparr>)"

definition set_prev :: "list_heap \<Rightarrow> nat \<Rightarrow> nat option \<Rightarrow> list_heap" where
  "set_prev h p v = h(p := (h p)\<lparr>lh_prev := v\<rparr>)"

text \<open>The conditional stores \<^verbatim>\<open>if (p) p->list.next = v\<close> and \<^verbatim>\<open>if (p) p->list.prev = v\<close>.\<close>

fun set_next_if :: "list_heap \<Rightarrow> nat option \<Rightarrow> nat option \<Rightarrow> list_heap" where
  "set_next_if h None v = h"
| "set_next_if h (Some p) v = set_next h p v"

fun set_prev_if :: "list_heap \<Rightarrow> nat option \<Rightarrow> nat option \<Rightarrow> list_heap" where
  "set_prev_if h None v = h"
| "set_prev_if h (Some p) v = set_prev h p v"

partial_function (option) ListHead_Last :: "list_heap \<Rightarrow> nat \<Rightarrow> nat option" where
  "ListHead_Last h cur =
     (case lh_next (h cur) of None \<Rightarrow> Some cur | Some n \<Rightarrow> ListHead_Last h n)"

partial_function (option) ListHead_First :: "list_heap \<Rightarrow> nat \<Rightarrow> nat option" where
  "ListHead_First h cur =
     (case lh_prev (h cur) of None \<Rightarrow> Some cur | Some n \<Rightarrow> ListHead_First h n)"

definition SetNext :: "list_heap \<Rightarrow> nat \<Rightarrow> nat \<Rightarrow> list_heap" where
  "SetNext h self new_next =
     (let h1 = set_next h new_next (lh_next (h self));
          h2 = set_prev h1 new_next (Some self);
          h3 = set_prev_if h2 (lh_next (h2 self)) (Some new_next)
      in set_next h3 self (Some new_next))"

definition SetPrevious :: "list_heap \<Rightarrow> nat \<Rightarrow> nat \<Rightarrow> list_heap" where
  "SetPrevious h self new_prev =
     (let h1 = set_next h new_prev (Some self);
          h2 = set_prev h1 new_prev (lh_prev (h1 self));
          h3 = set_next_if h2 (lh_prev (h2 self)) (Some new_prev)
      in set_prev h3 self (Some new_prev))"

definition Unlink :: "list_heap \<Rightarrow> nat \<Rightarrow> list_heap" where
  "Unlink h self =
     (let h1 = set_next_if h (lh_prev (h self)) (lh_next (h self));
          h2 = set_prev_if h1 (lh_next (h1 self)) (lh_prev (h1 self))
      in set_prev (set_next h2 self None) self None)"

definition IsLinked :: "list_heap \<Rightarrow> nat \<Rightarrow> bool" where
  "IsLinked h self \<longleftrightarrow> lh_prev (h self) \<noteq> None \<or> lh_next (h self) \<noteq> None"

section \<open>Lists of list heads\<close>

record list_of_heads =
  l_first :: "nat option"
  l_last :: "nat option"

definition ListOfListHead_new :: list_of_heads where
  "ListOfListHead_new = \<lparr>l_first = None, l_last = None\<rparr>"

type_synonym list_state = "list_heap \<times> list_of_heads"

definition Prepend :: "list_state \<Rightarrow> nat \<Rightarrow> list_state" where
  "Prepend s elm = (case s of (h, l) \<Rightarrow>
     let h1 = (case l_first l of None \<Rightarrow> h | Some f \<Rightarrow> SetPrevious h f elm);
         l1 = (if l_last l = None then l\<lparr>l_last := Some elm\<rparr> else l)
     in (h1, l1\<lparr>l_first := Some elm\<rparr>))"

definition Append :: "list_state \<Rightarrow> nat \<Rightarrow> list_state" where
  "Append s elm = (case s of (h, l) \<Rightarrow>
     let h1 = (case l_last l of None \<Rightarrow> h | Some f \<Rightarrow> SetNext h f elm);
         l1 = (if l_first l = None then l\<lparr>l_first := Some elm\<rparr> else l)
     in (h1, l1\<lparr>l_last := Some elm\<rparr>))"

definition InsertBefore :: "list_state \<Rightarrow> nat \<Rightarrow> nat \<Rightarrow> list_state" where
  "InsertBefore s before_elm new_elm =
     (if Some before_elm = l_first (snd s) then Prepend s new_elm
      else (SetPrevious (fst s) before_elm new_elm, snd s))"

definition InsertAfter :: "list_state \<Rightarrow> nat \<Rightarrow> nat \<Rightarrow> list_state" where
  "InsertAfter s after_elm new_elm =
     (if Some after_elm = l_last (snd s) then Append s new_elm
      else (SetNext (fst s) after_elm new_elm, snd s))"

definition Remove :: "list_state \<Rightarrow> nat \<Rightarrow> list_state" where
  "Remove s elm = (case s of (h, l) \<Rightarrow>
     let elm_next = lh_next (h elm);
         elm_prev = lh_prev (h elm);
         h1 = Unlink h elm;
         l1 = (if l_last l = Some elm then l\<lparr>l_last := elm_prev\<rparr> else l);
         l2 = (if l_first l1 = Some elm then l1\<lparr>l_first := elm_next\<rparr> else l1)
     in (h1, l2))"

text \<open>\<^verbatim>\<open>Extend\<close> moves the elements of a second list to the end of the first.\<close>

definition Extend :: "list_heap \<Rightarrow> list_of_heads \<Rightarrow> list_of_heads \<Rightarrow> list_heap \<times> list_of_heads \<times> list_of_heads" where
  "Extend h l that =
     (let (h', l') =
        (if l_first l = None then (h, l\<lparr>l_first := l_first that, l_last := l_last that\<rparr>)
         else case l_first that of
           None \<Rightarrow> (h, l)
         | Some tf \<Rightarrow>
             let h1 = set_next_if h (l_last l) (Some tf);
                 h2 = set_prev h1 tf (l_last l)
             in (h2, l\<lparr>l_last := l_last that\<rparr>))
      in (h', l', that\<lparr>l_first := None, l_last := None\<rparr>))"

text \<open>The iterators: the elements a range-based loop visits.\<close>

partial_function (option) ListHeadIterator :: "list_heap \<Rightarrow> nat option \<Rightarrow> nat list option" where
  "ListHeadIterator h cur =
     (case cur of None \<Rightarrow> Some []
      | Some p \<Rightarrow> Option.bind (ListHeadIterator h (lh_next (h p))) (\<lambda>rest. Some (p # rest)))"

partial_function (option) ReverseListHeadIterator :: "list_heap \<Rightarrow> nat option \<Rightarrow> nat list option" where
  "ReverseListHeadIterator h cur =
     (case cur of None \<Rightarrow> Some []
      | Some p \<Rightarrow> Option.bind (ReverseListHeadIterator h (lh_prev (h p))) (\<lambda>rest. Some (p # rest)))"

section \<open>Which heaps hold which list\<close>

fun head_or :: "'a list \<Rightarrow> 'a option \<Rightarrow> 'a option" where
  "head_or [] d = d"
| "head_or (x # xs) d = Some x"

definition last_or :: "'a option \<Rightarrow> 'a list \<Rightarrow> 'a option" where
  "last_or d xs = (if xs = [] then d else Some (last xs))"

fun dlseg :: "list_heap \<Rightarrow> nat option \<Rightarrow> nat list \<Rightarrow> nat option \<Rightarrow> bool" where
  "dlseg h before [] after \<longleftrightarrow> True"
| "dlseg h before (x # xs) after \<longleftrightarrow>
     lh_prev (h x) = before \<and> lh_next (h x) = head_or xs after \<and> dlseg h (Some x) xs after"

definition holds_list :: "list_state \<Rightarrow> nat list \<Rightarrow> bool" where
  "holds_list s xs \<longleftrightarrow>
     dlseg (fst s) None xs None \<and> distinct xs \<and>
     l_first (snd s) = head_or xs None \<and> l_last (snd s) = last_or None xs"

lemma last_or_simps [simp]:
  "last_or d [] = d" "last_or d (xs @ [x]) = Some x" "last_or d (x # xs) = last_or (Some x) xs"
  by (simp_all add: last_or_def)

lemma head_or_append [simp]: "head_or (xs @ ys) d = head_or xs (head_or ys d)"
  by (cases xs) simp_all

lemma last_or_append [simp]: "last_or d (xs @ ys) = last_or (last_or d xs) ys"
  by (induction xs arbitrary: d) simp_all

lemma dlseg_append [simp]:
  "dlseg h before (xs @ ys) after \<longleftrightarrow>
     dlseg h before xs (head_or ys after) \<and> dlseg h (last_or before xs) ys after"
  by (induction xs arbitrary: before) auto

lemma dlseg_frame:
  "(\<And>x. x \<in> set xs \<Longrightarrow> h' x = h x) \<Longrightarrow> dlseg h' before xs after = dlseg h before xs after"
  by (induction xs arbitrary: before) auto

text \<open>Only the last element's forward link depends on what follows a segment, and only the first
  element's backward link on what precedes it.\<close>

lemma dlseg_set_next:
  "distinct (xs @ [x]) \<Longrightarrow> dlseg h before (xs @ [x]) after \<Longrightarrow>
   dlseg (set_next h x v) before (xs @ [x]) v"
proof -
  assume a: "distinct (xs @ [x])" "dlseg h before (xs @ [x]) after"
  then have "dlseg (set_next h x v) before xs (Some x) = dlseg h before xs (Some x)"
    by (intro dlseg_frame) (auto simp: set_next_def)
  with a show ?thesis by (simp add: set_next_def)
qed

lemma dlseg_set_prev:
  "distinct (x # xs) \<Longrightarrow> dlseg h before (x # xs) after \<Longrightarrow> dlseg (set_prev h x v) v (x # xs) after"
proof -
  assume a: "distinct (x # xs)" "dlseg h before (x # xs) after"
  then have "dlseg (set_prev h x v) (Some x) xs after = dlseg h (Some x) xs after"
    by (intro dlseg_frame) (auto simp: set_prev_def)
  with a show ?thesis by (simp add: set_prev_def)
qed

lemma set_next_apply: "set_next h p v q = (if q = p then (h q)\<lparr>lh_next := v\<rparr> else h q)"
  by (simp add: set_next_def)

lemma set_prev_apply: "set_prev h p v q = (if q = p then (h q)\<lparr>lh_prev := v\<rparr> else h q)"
  by (simp add: set_prev_def)

lemma set_next_if_apply: "set_next_if h p v q = (if Some q = p then (h q)\<lparr>lh_next := v\<rparr> else h q)"
  by (cases p) (simp_all add: set_next_apply)

lemma set_prev_if_apply: "set_prev_if h p v q = (if Some q = p then (h q)\<lparr>lh_prev := v\<rparr> else h q)"
  by (cases p) (simp_all add: set_prev_apply)

lemmas link_simps = set_next_apply set_prev_apply set_next_if_apply set_prev_if_apply

section \<open>The operations on held lists\<close>

definition unlinked :: "list_heap \<Rightarrow> nat \<Rightarrow> bool" where
  "unlinked h p \<longleftrightarrow> \<not> IsLinked h p"

lemma unlinked_iff: "unlinked h p \<longleftrightarrow> lh_next (h p) = None \<and> lh_prev (h p) = None"
  by (auto simp: unlinked_def IsLinked_def)

lemma SetNext_dlseg:
  assumes "dlseg h None (as @ x # bs) None" "distinct (as @ x # bs)" "e \<notin> set (as @ x # bs)"
  shows "dlseg (SetNext h x e) None (as @ x # e # bs) None"
proof -
  have nx: "lh_next (h x) = head_or bs None" using assms(1) by simp
  have e: "e \<noteq> x" using assms(3) by auto
  have h': "SetNext h x e y =
      (if y = x then (h x)\<lparr>lh_next := Some e\<rparr>
       else if y = e then (h e)\<lparr>lh_next := head_or bs None, lh_prev := Some x\<rparr>
       else if Some y = head_or bs None then (h y)\<lparr>lh_prev := Some e\<rparr> else h y)" for y
    using assms(2,3) e by (cases bs) (auto simp: SetNext_def Let_def link_simps nx)
  have "dlseg (SetNext h x e) None as (Some x) = dlseg h None as (Some x)"
    using assms(2,3) by (intro dlseg_frame) (cases bs; auto simp: h')
  moreover have "dlseg (SetNext h x e) (Some e) bs None"
  proof (cases bs)
    case (Cons b bs')
    then have "dlseg (SetNext h x e) (Some b) bs' None = dlseg h (Some b) bs' None"
      using assms(2,3) by (intro dlseg_frame) (auto simp: h')
    then show ?thesis using assms Cons by (auto simp: h')
  qed simp
  ultimately show ?thesis using assms e by (auto simp: h')
qed

lemma SetPrevious_dlseg:
  assumes "dlseg h None (as @ x # bs) None" "distinct (as @ x # bs)" "e \<notin> set (as @ x # bs)"
  shows "dlseg (SetPrevious h x e) None (as @ e # x # bs) None"
proof -
  have pv: "lh_prev (h x) = last_or None as" using assms(1) by simp
  have e: "e \<noteq> x" using assms(3) by auto
  have la: "last_or None as = Some y \<Longrightarrow> y \<in> set as" for y by (auto simp: last_or_def split: if_splits)
  have h': "SetPrevious h x e y =
      (if y = x then (h x)\<lparr>lh_prev := Some e\<rparr>
       else if y = e then (h e)\<lparr>lh_next := Some x, lh_prev := last_or None as\<rparr>
       else if Some y = last_or None as then (h y)\<lparr>lh_next := Some e\<rparr> else h y)" for y
    using assms(2,3) e la by (auto simp: SetPrevious_def Let_def link_simps pv)
  have "dlseg (SetPrevious h x e) (Some x) bs None = dlseg h (Some x) bs None"
    using assms(2,3) by (intro dlseg_frame) (auto simp: h' dest!: la [OF sym])
  moreover have "dlseg (SetPrevious h x e) None as (Some e)"
  proof (cases as rule: rev_cases)
    case (snoc as' a)
    then have "dlseg (SetPrevious h x e) None as' (Some a) = dlseg h None as' (Some a)"
      using assms(2,3) by (intro dlseg_frame) (auto simp: h')
    then show ?thesis using assms snoc by (auto simp: h')
  qed simp
  ultimately show ?thesis using assms e by (auto simp: h')
qed

lemma Unlink_dlseg:
  assumes "dlseg h None (as @ x # bs) None" "distinct (as @ x # bs)"
  shows "dlseg (Unlink h x) None (as @ bs) None" "unlinked (Unlink h x) x"
    "\<And>y. y \<notin> set (as @ x # bs) \<Longrightarrow> Unlink h x y = h y"
proof -
  have pv: "lh_prev (h x) = last_or None as" and nx: "lh_next (h x) = head_or bs None"
    using assms(1) by simp_all
  have la: "last_or None as = Some y \<Longrightarrow> y \<in> set as" for y by (auto simp: last_or_def split: if_splits)
  have hb: "head_or bs None = Some y \<Longrightarrow> y \<in> set bs" for y by (cases bs) auto
  have ne: "last_or None as \<noteq> Some x" "head_or bs None \<noteq> Some x" using la [of x] hb [of x] assms(2) by auto
  have h': "Unlink h x y =
      (if y = x then (h x)\<lparr>lh_next := None, lh_prev := None\<rparr>
       else if Some y = last_or None as then (h y)\<lparr>lh_next := head_or bs None\<rparr>
       else if Some y = head_or bs None then (h y)\<lparr>lh_prev := last_or None as\<rparr> else h y)" for y
    using assms(2) ne la [of y] hb [of y] by (auto simp: Unlink_def Let_def link_simps pv nx)
  have "dlseg (Unlink h x) None as (head_or bs None)"
  proof (cases as rule: rev_cases)
    case (snoc as' a)
    then have "dlseg (Unlink h x) None as' (Some a) = dlseg h None as' (Some a)"
      using assms(2) by (intro dlseg_frame) (auto simp: h' dest!: hb [OF sym])
    then show ?thesis using assms snoc by (auto simp: h')
  qed simp
  moreover have "dlseg (Unlink h x) (last_or None as) bs None"
  proof (cases bs)
    case (Cons b bs')
    then have "dlseg (Unlink h x) (Some b) bs' None = dlseg h (Some b) bs' None"
      using assms(2) by (intro dlseg_frame) (auto simp: h' dest!: la [OF sym])
    then show ?thesis using assms Cons la by (auto simp: h')
  qed simp
  ultimately show "dlseg (Unlink h x) None (as @ bs) None" by simp
  show "unlinked (Unlink h x) x" by (simp add: unlinked_iff h')
  show "Unlink h x y = h y" if "y \<notin> set (as @ x # bs)" for y using that la [of y] hb [of y] by (auto simp: h')
qed

text \<open>Elements outside the list keep their links: the frame every operation respects.\<close>

lemma SetNext_frame: "y \<noteq> x \<Longrightarrow> y \<noteq> e \<Longrightarrow> lh_next (h x) \<noteq> Some y \<Longrightarrow> SetNext h x e y = h y"
  by (cases "lh_next (h x)") (auto simp: SetNext_def Let_def link_simps split: if_splits)

lemma SetPrevious_frame: "y \<noteq> x \<Longrightarrow> y \<noteq> e \<Longrightarrow> lh_prev (h x) \<noteq> Some y \<Longrightarrow> SetPrevious h x e y = h y"
  by (auto simp: SetPrevious_def Let_def link_simps)

lemma head_or_in: "head_or xs None = Some y \<Longrightarrow> y \<in> set xs"
  by (cases xs) auto

lemma last_or_in: "last_or None xs = Some y \<Longrightarrow> y \<in> set xs"
  by (auto simp: last_or_def split: if_splits)

lemma InsertAfter_holds:
  assumes "holds_list s (as @ x # bs)" "e \<notin> set (as @ x # bs)" "unlinked (fst s) e"
  shows "holds_list (InsertAfter s x e) (as @ x # e # bs)"
    and "y \<notin> set (as @ x # bs) \<Longrightarrow> y \<noteq> e \<Longrightarrow> fst (InsertAfter s x e) y = fst s y"
proof -
  obtain h l where s: "s = (h, l)" by (cases s)
  have d: "dlseg h None (as @ x # bs) None" "distinct (as @ x # bs)"
    and l: "l_first l = head_or as (Some x)" "l_last l = last_or (Some x) bs"
    using assms(1) by (auto simp: holds_list_def s)
  have fst_ne: "l_first l \<noteq> None" using l(1) by (cases as) auto
  have last_iff: "Some x = l_last l \<longleftrightarrow> bs = []"
    using l(2) d(2) by (auto simp: last_or_def)
  have res: "InsertAfter s x e = (SetNext h x e, if bs = [] then l\<lparr>l_last := Some e\<rparr> else l)"
    using last_iff fst_ne l(2) by (auto simp: InsertAfter_def Append_def s Let_def)
  show "holds_list (InsertAfter s x e) (as @ x # e # bs)"
    using SetNext_dlseg [OF d] assms(2) d(2) l
    by (auto simp: res holds_list_def last_or_def)
  show "fst (InsertAfter s x e) y = fst s y" if "y \<notin> set (as @ x # bs)" "y \<noteq> e"
    using that d(1) head_or_in [of bs y] unfolding res by (auto simp: s intro!: SetNext_frame)
qed

lemma InsertBefore_holds:
  assumes "holds_list s (as @ x # bs)" "e \<notin> set (as @ x # bs)" "unlinked (fst s) e"
  shows "holds_list (InsertBefore s x e) (as @ e # x # bs)"
    and "y \<notin> set (as @ x # bs) \<Longrightarrow> y \<noteq> e \<Longrightarrow> fst (InsertBefore s x e) y = fst s y"
proof -
  obtain h l where s: "s = (h, l)" by (cases s)
  have d: "dlseg h None (as @ x # bs) None" "distinct (as @ x # bs)"
    and l: "l_first l = head_or as (Some x)" "l_last l = last_or (Some x) bs"
    using assms(1) by (auto simp: holds_list_def s)
  have last_ne: "l_last l \<noteq> None" using l(2) by (auto simp: last_or_def split: if_splits)
  have first_iff: "Some x = l_first l \<longleftrightarrow> as = []"
    using l(1) d(2) by (cases as) auto
  have res: "InsertBefore s x e = (SetPrevious h x e, if as = [] then l\<lparr>l_first := Some e\<rparr> else l)"
    using first_iff last_ne l(1) by (auto simp: InsertBefore_def Prepend_def s Let_def)
  show "holds_list (InsertBefore s x e) (as @ e # x # bs)"
    using SetPrevious_dlseg [OF d] assms(2) d(2) l
    by (cases as) (auto simp: res holds_list_def last_or_def)
  show "fst (InsertBefore s x e) y = fst s y" if "y \<notin> set (as @ x # bs)" "y \<noteq> e"
    using that d(1) last_or_in [of as y] unfolding res by (auto simp: s intro!: SetPrevious_frame)
qed

lemma Append_holds:
  assumes "holds_list s xs" "e \<notin> set xs" "unlinked (fst s) e"
  shows "holds_list (Append s e) (xs @ [e])"
    and "y \<notin> set xs \<Longrightarrow> y \<noteq> e \<Longrightarrow> fst (Append s e) y = fst s y"
proof -
  have "holds_list (Append s e) (xs @ [e]) \<and> (y \<notin> set xs \<longrightarrow> y \<noteq> e \<longrightarrow> fst (Append s e) y = fst s y)"
  proof (cases xs rule: rev_cases)
    case Nil
    then show ?thesis
      using assms by (cases s) (simp add: holds_list_def Append_def unlinked_iff)
  next
    case (snoc as x)
    then have "Append s e = InsertAfter s x e"
      using assms(1) by (simp add: holds_list_def InsertAfter_def)
    then show ?thesis
      using InsertAfter_holds(1) [of s as x "[]" e] InsertAfter_holds(2) [of s as x "[]" e y] assms snoc by auto
  qed
  then show "holds_list (Append s e) (xs @ [e])"
    "y \<notin> set xs \<Longrightarrow> y \<noteq> e \<Longrightarrow> fst (Append s e) y = fst s y" by auto
qed

lemma Prepend_holds:
  assumes "holds_list s xs" "e \<notin> set xs" "unlinked (fst s) e"
  shows "holds_list (Prepend s e) (e # xs)"
    and "y \<notin> set xs \<Longrightarrow> y \<noteq> e \<Longrightarrow> fst (Prepend s e) y = fst s y"
proof -
  have "holds_list (Prepend s e) (e # xs) \<and> (y \<notin> set xs \<longrightarrow> y \<noteq> e \<longrightarrow> fst (Prepend s e) y = fst s y)"
  proof (cases xs)
    case Nil
    then show ?thesis
      using assms by (cases s) (simp add: holds_list_def Prepend_def unlinked_iff)
  next
    case (Cons x bs)
    then have "Prepend s e = InsertBefore s x e"
      using assms(1) by (simp add: holds_list_def InsertBefore_def)
    then show ?thesis
      using InsertBefore_holds(1) [of s "[]" x bs e] InsertBefore_holds(2) [of s "[]" x bs e y] assms Cons by auto
  qed
  then show "holds_list (Prepend s e) (e # xs)"
    "y \<notin> set xs \<Longrightarrow> y \<noteq> e \<Longrightarrow> fst (Prepend s e) y = fst s y" by auto
qed

lemma Remove_holds:
  assumes "holds_list s (as @ x # bs)"
  shows "holds_list (Remove s x) (as @ bs)" "unlinked (fst (Remove s x)) x"
    and "y \<notin> set (as @ x # bs) \<Longrightarrow> fst (Remove s x) y = fst s y"
proof -
  obtain h l where s: "s = (h, l)" by (cases s)
  have d: "dlseg h None (as @ x # bs) None" "distinct (as @ x # bs)"
    and l: "l_first l = head_or as (Some x)" "l_last l = last_or (Some x) bs"
    using assms by (auto simp: holds_list_def s)
  have links: "lh_next (h x) = head_or bs None" "lh_prev (h x) = last_or None as" using d(1) by simp_all
  have last_iff: "l_last l = Some x \<longleftrightarrow> bs = []" using l(2) d(2) by (auto simp: last_or_def)
  have first_iff: "l_first l = Some x \<longleftrightarrow> as = []" using l(1) d(2) by (cases as) auto
  have res: "Remove s x = (Unlink h x,
      l\<lparr>l_first := head_or as (head_or bs None), l_last := last_or (last_or None as) bs\<rparr>)"
    using last_iff first_iff links l by (cases as; cases bs) (auto simp: Remove_def s Let_def last_or_def)
  show "holds_list (Remove s x) (as @ bs)"
    using Unlink_dlseg(1) [OF d] d(2) by (simp add: res holds_list_def)
  show "unlinked (fst (Remove s x)) x" using Unlink_dlseg(2) [OF d] by (simp add: res)
  show "fst (Remove s x) y = fst s y" if "y \<notin> set (as @ x # bs)"
    using Unlink_dlseg(3) [OF d that] unfolding res by (simp add: s)
qed

lemma Extend_holds:
  assumes "holds_list (h, l) xs" "holds_list (h, that) ys" "set xs \<inter> set ys = {}"
  shows "case Extend h l that of (h', l', that') \<Rightarrow> holds_list (h', l') (xs @ ys) \<and> holds_list (h', that') []"
proof (cases "xs = [] \<or> ys = []")
  case True
  then show ?thesis
    using assms by (cases xs) (auto simp: Extend_def holds_list_def)
next
  case False
  then obtain as x where xs: "xs = as @ [x]" by (cases xs rule: rev_cases) auto
  obtain y bs where ys: "ys = y # bs" using False by (cases ys) auto
  have d: "dlseg h None (as @ [x]) None" "dlseg h None (y # bs) None" "distinct (as @ [x])" "distinct (y # bs)"
    using assms(1,2) by (auto simp: holds_list_def xs ys)
  have ne: "l_first l \<noteq> None" using assms(1) by (cases as) (auto simp: holds_list_def xs)
  have res: "Extend h l that = (set_prev (set_next h x (Some y)) y (Some x),
      l\<lparr>l_last := l_last that\<rparr>, that\<lparr>l_first := None, l_last := None\<rparr>)"
    using assms(1,2) ne by (auto simp: Extend_def holds_list_def xs ys)
  let ?h = "set_prev (set_next h x (Some y)) y (Some x)"
  have "dlseg ?h None (as @ [x]) (Some y) = dlseg (set_next h x (Some y)) None (as @ [x]) (Some y)"
    using assms(3) by (intro dlseg_frame) (auto simp: set_prev_apply xs ys)
  then have 1: "dlseg ?h None (as @ [x]) (Some y)" using dlseg_set_next [OF d(3,1)] by simp
  have "dlseg (set_next h x (Some y)) None (y # bs) None = dlseg h None (y # bs) None"
    using assms(3) by (intro dlseg_frame) (auto simp: set_next_apply xs ys)
  then have "dlseg (set_next h x (Some y)) None (y # bs) None" using d(2) by blast
  then have 2: "dlseg ?h (Some x) (y # bs) None" by (rule dlseg_set_prev [OF d(4)])
  show ?thesis
    using 1 2 assms d by (auto simp: res holds_list_def xs ys)
qed

section \<open>Iteration\<close>

lemma ListHeadIterator_seg: "dlseg h before xs None \<Longrightarrow> ListHeadIterator h (head_or xs None) = Some xs"
proof (induction xs arbitrary: before)
  case (Cons x xs)
  then have "ListHeadIterator h (lh_next (h x)) = Some xs" using Cons.IH [of "Some x"] by simp
  then show ?case by (simp add: ListHeadIterator.simps [of h "Some x"])
qed (simp add: ListHeadIterator.simps)

lemma ReverseListHeadIterator_seg:
  "dlseg h None xs after \<Longrightarrow> ReverseListHeadIterator h (last_or None xs) = Some (rev xs)"
proof (induction xs arbitrary: after rule: rev_induct)
  case (snoc x xs)
  then have "ReverseListHeadIterator h (last_or None xs) = Some (rev xs)" by auto
  then show ?case using snoc.prems by (simp add: ReverseListHeadIterator.simps [of h "Some x"])
qed (simp add: ReverseListHeadIterator.simps)

lemma holds_list_iterate:
  assumes "holds_list s xs"
  shows "ListHeadIterator (fst s) (l_first (snd s)) = Some xs"
    and "ReverseListHeadIterator (fst s) (l_last (snd s)) = Some (rev xs)"
  using assms ListHeadIterator_seg ReverseListHeadIterator_seg by (auto simp: holds_list_def)

lemma ListHead_Last_seg: "dlseg h before (x # xs) None \<Longrightarrow> ListHead_Last h x = Some (last (x # xs))"
proof (induction xs arbitrary: before x)
  case (Cons y ys)
  then show ?case using ListHead_Last.simps [of h x] by simp
qed (simp add: ListHead_Last.simps)

section \<open>Scripts of operations\<close>

text \<open>The calls a client makes on one list, what they do to the list as a sequence (\<open>None\<close> where
  the client breaks the contract that the operations assert), and the code.\<close>

datatype list_op =
  OpPrepend nat | OpAppend nat | OpBefore nat nat | OpAfter nat nat | OpRemove nat

fun abs_before :: "nat \<Rightarrow> nat \<Rightarrow> nat list \<Rightarrow> nat list" where
  "abs_before b e [] = []"
| "abs_before b e (x # xs) = (if x = b then e # x # xs else x # abs_before b e xs)"

fun abs_after :: "nat \<Rightarrow> nat \<Rightarrow> nat list \<Rightarrow> nat list" where
  "abs_after a e [] = []"
| "abs_after a e (x # xs) = (if x = a then x # e # xs else x # abs_after a e xs)"

fun abs_op :: "list_op \<Rightarrow> nat list \<Rightarrow> nat list option" where
  "abs_op (OpPrepend e) xs = (if e \<in> set xs then None else Some (e # xs))"
| "abs_op (OpAppend e) xs = (if e \<in> set xs then None else Some (xs @ [e]))"
| "abs_op (OpBefore b e) xs = (if e \<in> set xs \<or> b \<notin> set xs then None else Some (abs_before b e xs))"
| "abs_op (OpAfter a e) xs = (if e \<in> set xs \<or> a \<notin> set xs then None else Some (abs_after a e xs))"
| "abs_op (OpRemove e) xs = (if e \<in> set xs then Some (remove1 e xs) else None)"


fun do_op :: "list_op \<Rightarrow> list_state \<Rightarrow> list_state" where
  "do_op (OpPrepend e) s = Prepend s e"
| "do_op (OpAppend e) s = Append s e"
| "do_op (OpBefore b e) s = InsertBefore s b e"
| "do_op (OpAfter a e) s = InsertAfter s a e"
| "do_op (OpRemove e) s = Remove s e"

lemma abs_before_split: "b \<notin> set as \<Longrightarrow> abs_before b e (as @ b # bs) = as @ e # b # bs"
  by (induction as) auto

lemma abs_after_split: "a \<notin> set as \<Longrightarrow> abs_after a e (as @ a # bs) = as @ a # e # bs"
  by (induction as) auto

text \<open>A state holds a list when its nodes are linked in that order and every other node is
  unlinked; that is the simulation relation.\<close>

definition owns :: "list_state \<Rightarrow> nat list \<Rightarrow> bool" where
  "owns s xs \<longleftrightarrow> holds_list s xs \<and> (\<forall>p. p \<notin> set xs \<longrightarrow> unlinked (fst s) p)"

lemma owns_insert:
  assumes "owns s xs" "e \<notin> set xs" "holds_list s' ys" "set ys = insert e (set xs)"
    and "\<And>y. y \<notin> set xs \<Longrightarrow> y \<noteq> e \<Longrightarrow> fst s' y = fst s y"
  shows "owns s' ys"
  using assms by (auto simp: owns_def unlinked_iff)

lemma owns_remove:
  assumes "owns s (as @ x # bs)"
  shows "owns (Remove s x) (as @ bs)"
proof -
  have hs: "holds_list s (as @ x # bs)" using assms by (simp add: owns_def)
  have "unlinked (fst (Remove s x)) p" if "p \<notin> set (as @ bs)" for p
  proof (cases "p = x")
    case False
    then have "fst (Remove s x) p = fst s p" using Remove_holds(3) [OF hs] that by simp
    then show ?thesis using assms that False by (simp add: owns_def unlinked_iff)
  qed (use Remove_holds(2) [OF hs] in simp)
  then show ?thesis using Remove_holds(1) [OF hs] by (simp add: owns_def)
qed

lemma do_op_simulates:
  assumes "owns s xs" "abs_op op xs = Some ys"
  shows "owns (do_op op s) ys"
proof -
  have hs: "holds_list s xs" and d: "distinct xs" using assms(1) by (auto simp: owns_def holds_list_def)
  have un: "p \<notin> set xs \<Longrightarrow> unlinked (fst s) p" for p using assms(1) by (simp add: owns_def)
  show ?thesis
  proof (cases op)
    case (OpPrepend e)
    with assms(2) have e: "e \<notin> set xs" "ys = e # xs" by (auto split: if_splits)
    show ?thesis
      using owns_insert [OF assms(1) e(1) Prepend_holds(1) [OF hs e(1) un [OF e(1)]]] Prepend_holds(2) [OF hs e(1) un [OF e(1)]] e OpPrepend
      by simp
  next
    case (OpAppend e)
    with assms(2) have e: "e \<notin> set xs" "ys = xs @ [e]" by (auto split: if_splits)
    show ?thesis
      using owns_insert [OF assms(1) e(1) Append_holds(1) [OF hs e(1) un [OF e(1)]]] Append_holds(2) [OF hs e(1) un [OF e(1)]] e OpAppend
      by simp
  next
    case (OpBefore b e)
    with assms(2) have e: "e \<notin> set xs" "b \<in> set xs" by (auto split: if_splits)
    then obtain as bs where x: "xs = as @ b # bs" by (auto simp: in_set_conv_decomp)
    then have "ys = as @ e # b # bs" using assms(2) OpBefore e d by (simp add: abs_before_split)
    then show ?thesis
      using owns_insert [OF assms(1) e(1) InsertBefore_holds(1) [of s as b bs e]] InsertBefore_holds(2) [of s as b bs e]
        hs e un [OF e(1)] OpBefore x by auto
  next
    case (OpAfter b e)
    with assms(2) have e: "e \<notin> set xs" "b \<in> set xs" by (auto split: if_splits)
    then obtain as bs where x: "xs = as @ b # bs" by (auto simp: in_set_conv_decomp)
    then have "ys = as @ b # e # bs" using assms(2) OpAfter e d by (simp add: abs_after_split)
    then show ?thesis
      using owns_insert [OF assms(1) e(1) InsertAfter_holds(1) [of s as b bs e]] InsertAfter_holds(2) [of s as b bs e]
        hs e un [OF e(1)] OpAfter x by auto
  next
    case (OpRemove e)
    with assms(2) have e: "e \<in> set xs" "ys = remove1 e xs" by (auto split: if_splits)
    then obtain as bs where x: "xs = as @ e # bs" by (auto simp: in_set_conv_decomp)
    then have "ys = as @ bs" using e d by (simp add: remove1_append)
    then show ?thesis
      using owns_remove [of s as e bs] assms(1) x OpRemove by simp
  qed
qed

interpretation dll: refinement owns abs_op do_op
  by unfold_locales (rule do_op_simulates)

definition empty_heap :: list_heap where
  "empty_heap = (\<lambda>_. ListHead_new)"

lemma owns_empty: "owns (empty_heap, ListOfListHead_new) []"
  by (simp add: owns_def holds_list_def unlinked_iff empty_heap_def ListHead_new_def ListOfListHead_new_def)

text \<open>C30. The doubly linked list implements sequences. After any script of prepends, appends,
  insertions before and after elements and removals that respects the operations' contract
  (an inserted element is not yet in the list, a position or a removed element is), starting
  from an empty list, walking the list forward gives the sequence the script specifies,
  walking it backward gives the reverse, and both walks end.\<close>

theorem list_script_refines:
  assumes "run_spec abs_op ops [] = Some xs"
  shows "let (h, l) = fold do_op ops (empty_heap, ListOfListHead_new)
         in ListHeadIterator h (l_first l) = Some xs \<and> ReverseListHeadIterator h (l_last l) = Some (rev xs)"
proof -
  have "owns (fold do_op ops (empty_heap, ListOfListHead_new)) xs"
    using dll.run_refines [OF owns_empty assms] .
  then show ?thesis
    using holds_list_iterate by (auto simp: owns_def case_prod_beta)
qed

theorem list_script_refines_witness:
  "let (h, l) = fold do_op [OpAppend 1, OpAppend 2, OpBefore 2 3, OpPrepend 4, OpRemove 1, OpAfter 2 5]
       (empty_heap, ListOfListHead_new)
   in ListHeadIterator h (l_first l) = Some [4, 3, 2, 5] \<and>
      ReverseListHeadIterator h (l_last l) = Some [5, 2, 3, 4]"
  using list_script_refines [of "[OpAppend 1, OpAppend 2, OpBefore 2 3, OpPrepend 4, OpRemove 1, OpAfter 2 5]" "[4, 3, 2, 5]"]
  by simp

section \<open>The zipper over singly linked lists\<close>

text \<open>A zipper points to the cell that holds the pointer to the current element: the list
  variable or the \<^verbatim>\<open>next\<close> field of a node. It caches the element it last gave out, to know
  after the loop body whether that element has been unlinked.\<close>

datatype cell = ListVar | NextOf nat

record slist =
  s_list :: "nat option"
  s_next :: "nat \<Rightarrow> nat option"

fun read_cell :: "slist \<Rightarrow> cell \<Rightarrow> nat option" where
  "read_cell s ListVar = s_list s"
| "read_cell s (NextOf p) = s_next s p"

fun write_cell :: "slist \<Rightarrow> cell \<Rightarrow> nat option \<Rightarrow> slist" where
  "write_cell s ListVar v = s\<lparr>s_list := v\<rparr>"
| "write_cell s (NextOf p) v = s\<lparr>s_next := (s_next s)(p := v)\<rparr>"

record zipper =
  z_ptr :: "cell option"
  z_cache :: "nat option"

record zip_elem =
  e_ptr :: cell
  e_curr :: "nat option"

definition LinkedListZipper :: "slist \<Rightarrow> cell \<Rightarrow> zipper" where
  "LinkedListZipper s c = \<lparr>z_ptr = (if read_cell s c = None then None else Some c), z_cache = None\<rparr>"

definition zip_deref :: "slist \<Rightarrow> zipper \<Rightarrow> cell \<Rightarrow> zipper \<times> zip_elem" where
  "zip_deref s z c = (z\<lparr>z_cache := read_cell s c\<rparr>, \<lparr>e_ptr = c, e_curr = read_cell s c\<rparr>)"

definition zip_at_end :: "slist \<Rightarrow> zipper \<Rightarrow> bool" where
  "zip_at_end s z = (case z_ptr z of None \<Rightarrow> True | Some c \<Rightarrow> read_cell s c = None)"

definition zip_advance :: "slist \<Rightarrow> zipper \<Rightarrow> cell \<Rightarrow> zipper" where
  "zip_advance s z c =
     (case read_cell s c of
        Some p \<Rightarrow> z\<lparr>z_ptr := (if z_cache z = Some p then Some (NextOf p) else Some c), z_cache := None\<rparr>
      | None \<Rightarrow> z\<lparr>z_ptr := None, z_cache := None\<rparr>)"

definition zip_InsertBefore :: "slist \<Rightarrow> zip_elem \<Rightarrow> nat \<Rightarrow> slist \<times> zip_elem" where
  "zip_InsertBefore s e prev =
     (let s1 = write_cell s (NextOf prev) (e_curr e);
          s2 = write_cell s1 (e_ptr e) (Some prev)
      in (s2, e\<lparr>e_ptr := NextOf prev\<rparr>))"

definition zip_InsertAfter :: "slist \<Rightarrow> nat \<Rightarrow> nat \<Rightarrow> slist" where
  "zip_InsertAfter s cur nxt = write_cell s (NextOf cur) (Some nxt)"

definition zip_Unlink :: "slist \<Rightarrow> cell \<Rightarrow> nat \<Rightarrow> slist" where
  "zip_Unlink s c cur = write_cell s c (s_next s cur)"

fun slseg :: "slist \<Rightarrow> nat option \<Rightarrow> nat list \<Rightarrow> bool" where
  "slseg s p [] \<longleftrightarrow> p = None"
| "slseg s p (x # xs) \<longleftrightarrow> p = Some x \<and> slseg s (s_next s x) xs"

partial_function (option) LinkedListIterator :: "slist \<Rightarrow> nat option \<Rightarrow> nat list option" where
  "LinkedListIterator s cur =
     (case cur of None \<Rightarrow> Some []
      | Some p \<Rightarrow> Option.bind (LinkedListIterator s (s_next s p)) (\<lambda>rest. Some (p # rest)))"

text \<open>The last element a loop over the iterator visits, null when it visits none.\<close>

definition LinkedListIterator_Last :: "slist \<Rightarrow> nat option \<Rightarrow> nat option option" where
  "LinkedListIterator_Last s first =
     map_option (\<lambda>elems. fold (\<lambda>elem last. Some elem) elems None) (LinkedListIterator s first)"

lemma LinkedListIterator_seg: "slseg s p xs \<Longrightarrow> LinkedListIterator s p = Some xs"
proof (induction xs arbitrary: p)
  case (Cons x xs)
  then show ?case by (simp add: LinkedListIterator.simps [of s "Some x"])
qed (simp add: LinkedListIterator.simps)

lemma LinkedListIterator_Last_seg:
  assumes "slseg s p xs"
  shows "LinkedListIterator_Last s p = Some (last_or None xs)"
proof -
  have "fold (\<lambda>elem last. Some elem) xs d = last_or d xs" for d by (induction xs arbitrary: d) simp_all
  then show ?thesis by (simp add: LinkedListIterator_Last_def LinkedListIterator_seg [OF assms])
qed

lemma slseg_frame: "(\<And>x. x \<in> set xs \<Longrightarrow> s_next s' x = s_next s x) \<Longrightarrow> slseg s' p xs = slseg s p xs"
  by (induction xs arbitrary: p) auto

text \<open>The cell that holds the pointer to what follows a prefix of the list.\<close>

definition cell_after :: "nat list \<Rightarrow> cell" where
  "cell_after as = (if as = [] then ListVar else NextOf (last as))"

lemma slseg_append_read:
  "slseg s (s_list s) (as @ bs) \<Longrightarrow> read_cell s (cell_after as) = head_or bs None"
proof (induction as rule: rev_induct)
  case Nil
  then show ?case by (cases bs) (simp_all add: cell_after_def)
next
  case (snoc a as)
  have "slseg s p (as @ a # bs) \<Longrightarrow> slseg s (s_next s a) bs" for p
    by (induction as arbitrary: p) auto
  then show ?case using snoc.prems by (cases bs) (auto simp: cell_after_def)
qed

lemma slseg_write:
  assumes "slseg s (s_list s) (as @ bs)" "distinct (as @ bs)" "set as \<inter> set cs = {}" "slseg s v cs"
  shows "slseg (write_cell s (cell_after as) v) (s_list (write_cell s (cell_after as) v)) (as @ cs)"
proof (cases as rule: rev_cases)
  case Nil
  then show ?thesis using assms(4) slseg_frame [of cs "s\<lparr>s_list := v\<rparr>" s] by (simp add: cell_after_def)
next
  case (snoc as' a)
  let ?s = "write_cell s (cell_after as) v"
  have nx: "s_next ?s = (s_next s)(a := v)" "s_list ?s = s_list s" by (simp_all add: cell_after_def snoc)
  have "slseg s p (as' @ a # bs) \<Longrightarrow> distinct (as' @ [a]) \<Longrightarrow> slseg ?s v cs \<Longrightarrow> slseg ?s p (as' @ a # cs)" for p
    by (induction as' arbitrary: p) (auto simp: nx)
  moreover have "slseg ?s v cs = slseg s v cs"
    using assms(3) by (intro slseg_frame) (auto simp: cell_after_def snoc)
  ultimately show ?thesis unfolding nx(2) using assms by (simp add: snoc)
qed

text \<open>The zipper edits a singly linked list in place. At an element \<open>x\<close> of the list,
  \<^verbatim>\<open>InsertBefore\<close> puts a new node in front of it and \<^verbatim>\<open>Unlink\<close> takes it out, both keeping
  all other elements; \<^verbatim>\<open>InsertAfter\<close> of a fresh node, however, cuts off everything that
  followed \<open>x\<close>, because it overwrites the link without preserving its old value.\<close>

theorem zipper_edits:
  assumes "slseg s (s_list s) (as @ x # bs)" "distinct (as @ x # bs)" "e \<notin> set (as @ x # bs)" "s_next s e = None"
  shows "(let (s', elem) = zip_InsertBefore s (snd (zip_deref s z (cell_after as))) e
          in slseg s' (s_list s') (as @ e # x # bs) \<and> e_curr elem = Some x \<and> read_cell s' (e_ptr elem) = Some x) \<and>
    slseg (zip_Unlink s (cell_after as) x) (s_list (zip_Unlink s (cell_after as) x)) (as @ bs) \<and>
    slseg (zip_InsertAfter s x e) (s_list (zip_InsertAfter s x e)) (as @ [x, e])"
proof (intro conjI)
  have tail: "slseg s p (as @ x # bs) \<Longrightarrow> slseg s (s_next s x) bs" for p
    by (induction as arbitrary: p) auto
  have rd: "read_cell s (cell_after as) = Some x" using slseg_append_read [OF assms(1)] by simp
  let ?s1 = "write_cell s (NextOf e) (Some x)"
  have seg1: "slseg ?s1 (s_list ?s1) (as @ x # bs)" "slseg ?s1 (Some e) (e # x # bs)"
  proof -
    have fr: "y \<in> set (as @ x # bs) \<Longrightarrow> s_next ?s1 y = s_next s y" for y using assms(3) by auto
    have "slseg ?s1 (s_list s) (as @ x # bs)" "slseg ?s1 (s_next s x) bs"
      using slseg_frame [of "as @ x # bs" ?s1 s] slseg_frame [of bs ?s1 s] fr assms(1) tail [OF assms(1)]
      by (metis, simp)
    then show "slseg ?s1 (s_list ?s1) (as @ x # bs)" "slseg ?s1 (Some e) (e # x # bs)"
      using assms(3) by auto
  qed
  let ?s2 = "write_cell ?s1 (cell_after as) (Some e)"
  have "slseg ?s2 (s_list ?s2) (as @ e # x # bs)"
    using slseg_write [OF seg1(1) assms(2) _ seg1(2)] assms(2,3) by auto
  moreover have "s_next ?s2 e = Some x"
    using assms(3) by (cases as rule: rev_cases) (auto simp: cell_after_def)
  ultimately show "let (s', elem) = zip_InsertBefore s (snd (zip_deref s z (cell_after as))) e
      in slseg s' (s_list s') (as @ e # x # bs) \<and> e_curr elem = Some x \<and> read_cell s' (e_ptr elem) = Some x"
    by (simp add: zip_InsertBefore_def zip_deref_def rd)
  show "slseg (zip_Unlink s (cell_after as) x) (s_list (zip_Unlink s (cell_after as) x)) (as @ bs)"
    using slseg_write [OF assms(1,2) _ tail [OF assms(1)]] assms(2) by (auto simp: zip_Unlink_def)
  have "slseg s (s_list s) ((as @ [x]) @ bs)" "slseg s (Some e) [e]" using assms(1,4) by simp_all
  then show "slseg (zip_InsertAfter s x e) (s_list (zip_InsertAfter s x e)) (as @ [x, e])"
    using slseg_write [of s "as @ [x]" bs "[e]" "Some e"] assms(2,3)
    by (simp add: zip_InsertAfter_def cell_after_def)
qed

definition sample_slist :: slist where
  "sample_slist = \<lparr>s_list = Some 1, s_next = Map.empty(1 := Some 2, 2 := Some 3)\<rparr>"

theorem zipper_edits_witness:
  "slseg (zip_InsertAfter sample_slist 2 9) (s_list (zip_InsertAfter sample_slist 2 9)) [1, 2, 9]"
  using zipper_edits [of sample_slist "[1]" 2 "[3]" 9] by (simp add: sample_slist_def)

end
