(* ===== verification/Disjoint.thy ===== *)
theory Disjoint
  imports Prelude
begin

text \<open>
  The embedded union-find sets of \<^verbatim>\<open>granary/base/disjoint_set.h\<close>. The sets are nodes in a heap:
  a parent pointer and a value per address. \<^verbatim>\<open>Find\<close> recurses along the parents and compresses
  the path; it does not return on a cyclic heap, which is \<open>None\<close>. The client of the
  component, the assembler, relies on the merged sets being the equivalence closure of the
  unions made; that is the interface below.
\<close>

section \<open>Model\<close>

record 'v sets =
  ds_parent :: "nat \<Rightarrow> nat"
  ds_value :: "nat \<Rightarrow> 'v"

definition DisjointSet_new :: "'v sets \<Rightarrow> nat \<Rightarrow> 'v \<Rightarrow> 'v sets" where
  "DisjointSet_new s this default_value =
     s\<lparr>ds_parent := (ds_parent s)(this := this), ds_value := (ds_value s)(this := default_value)\<rparr>"

partial_function (option) find_root :: "(nat \<Rightarrow> nat) \<Rightarrow> nat \<Rightarrow> ((nat \<Rightarrow> nat) \<times> nat) option" where
  "find_root parent this =
     (if parent this \<noteq> this
      then Option.bind (find_root parent (parent this)) (\<lambda>(parent', root).
             Some (parent'(this := root), root))
      else Some (parent, parent this))"

definition Find :: "'v sets \<Rightarrow> nat \<Rightarrow> ('v sets \<times> nat) option" where
  "Find s this =
     Option.bind (find_root (ds_parent s) this) (\<lambda>(parent, root). Some (s\<lparr>ds_parent := parent\<rparr>, root))"

text \<open>\<^verbatim>\<open>T()\<close>, the default of the value type, is a parameter.\<close>

definition Union :: "'v \<Rightarrow> 'v sets \<Rightarrow> nat \<Rightarrow> nat \<Rightarrow> 'v sets option" where
  "Union default_value s this that =
     Option.bind (Find s this) (\<lambda>(s1, this_root).
     Option.bind (Find s1 that) (\<lambda>(s2, that_root).
       Some (let link = (\<lambda>child parent. s2\<lparr>ds_parent := (ds_parent s2)(child := parent)\<rparr>)
             in if this_root = that_root then s2
                else if default_value = ds_value s2 this_root then link this_root that_root
                else if default_value = ds_value s2 that_root then link that_root this_root
                else if this_root < that_root then link that_root this_root
                else if this_root > that_root then link this_root that_root
                else s2)))"

definition set_eq :: "'v sets \<Rightarrow> nat \<Rightarrow> nat \<Rightarrow> ('v sets \<times> bool) option" where
  "set_eq s this that =
     Option.bind (Find s this) (\<lambda>(s1, r1).
     Option.bind (Find s1 that) (\<lambda>(s2, r2). Some (s2, r1 = r2)))"

definition Value :: "'v sets \<Rightarrow> nat \<Rightarrow> ('v sets \<times> 'v) option" where
  "Value s this = Option.bind (Find s this) (\<lambda>(s1, r). Some (s1, ds_value s1 r))"

section \<open>Roots\<close>

inductive is_root :: "(nat \<Rightarrow> nat) \<Rightarrow> nat \<Rightarrow> nat \<Rightarrow> bool" for p where
  root_here: "p x = x \<Longrightarrow> is_root p x x"
| root_up: "p x \<noteq> x \<Longrightarrow> is_root p (p x) r \<Longrightarrow> is_root p x r"

lemma is_root_fixed: "is_root p x r \<Longrightarrow> p r = r"
  by (induction rule: is_root.induct) auto

lemma is_root_self: "p r = r \<Longrightarrow> is_root p r s \<longleftrightarrow> s = r"
  by (auto elim: is_root.cases intro: root_here)

lemma is_root_det: "is_root p x r \<Longrightarrow> is_root p x s \<Longrightarrow> r = s"
proof (induction rule: is_root.induct)
  case (root_here x)
  then show ?case by (simp add: is_root_self)
next
  case (root_up x r)
  then show ?case by (auto elim: is_root.cases [of _ x s])
qed

lemma is_root_step: "p x \<noteq> x \<Longrightarrow> is_root p x r \<longleftrightarrow> is_root p (p x) r"
  by (auto elim: is_root.cases intro: root_up)

text \<open>Pointing a node at its root changes no root.\<close>

lemma compress:
  assumes "is_root p x r" "p x \<noteq> x"
  shows "is_root (p(x := r)) y s \<longleftrightarrow> is_root p y s"
proof -
  have r: "p r = r" "r \<noteq> x" using assms is_root_fixed [OF assms(1)] by auto
  define q where "q = p(x := r)"
  have q: "q x = r" "z \<noteq> x \<Longrightarrow> q z = p z" for z by (simp_all add: q_def)
  have rr: "is_root q r r" using r q by (intro root_here) simp
  have "is_root q y s \<Longrightarrow> is_root p y s"
  proof (induction rule: is_root.induct)
    case (root_here y)
    then show ?case using r q by (cases "y = x") (auto intro: is_root.root_here)
  next
    case (root_up y s)
    then show ?case
      using assms r is_root_self [of p r] q by (cases "y = x") (auto intro: is_root.root_up)
  qed
  moreover have "is_root p y s \<Longrightarrow> is_root q y s"
  proof (induction rule: is_root.induct)
    case (root_here y)
    then show ?case using assms(2) q by (cases "y = x") (auto intro: is_root.root_here)
  next
    case (root_up y s)
    show ?case
    proof (cases "y = x")
      case True
      then have "s = r" using root_up assms(1) is_root_det by (metis is_root.root_up)
      then show ?thesis using True rr r q is_root.root_up [of q x r] by simp
    next
      case False
      then show ?thesis using root_up q is_root.root_up [of q y s] by simp
    qed
  qed
  ultimately show ?thesis by (auto simp: q_def)
qed

lemma find_root_correct:
  "is_root p x r \<Longrightarrow> \<exists>p'. find_root p x = Some (p', r) \<and> is_root p' = is_root p"
proof (induction rule: is_root.induct)
  case (root_here x)
  then show ?case by (simp add: find_root.simps)
next
  case (root_up x r)
  then obtain p' where p': "find_root p (p x) = Some (p', r)" "is_root p' = is_root p" by blast
  have x: "is_root p x r" using root_up by (auto intro: is_root.root_up)
  have ne: "p' x \<noteq> x"
  proof
    assume "p' x = x"
    then have "is_root p x x" using p'(2) root_here [of p' x] by simp
    then show False using is_root_fixed root_up(1) by blast
  qed
  have "is_root (p'(x := r)) y s = is_root p y s" for y s
    using compress [of p' x r y s] p'(2) x ne by simp
  then have "is_root (p'(x := r)) = is_root p" by (simp add: fun_eq_iff)
  moreover have "find_root p x = Some (p'(x := r), r)"
    using root_up(1) p'(1) by (simp add: find_root.simps [of p x])
  ultimately show ?case by blast
qed

text \<open>Hanging one root under another merges their trees.\<close>

lemma link_root:
  assumes "p c = c" "p r = r" "c \<noteq> r"
  shows "is_root (p(c := r)) y s \<longleftrightarrow> (if is_root p y c then s = r else is_root p y s)"
proof -
  define q where "q = p(c := r)"
  have q: "q c = r" "z \<noteq> c \<Longrightarrow> q z = p z" for z by (simp_all add: q_def)
  have up: "is_root p y t \<Longrightarrow> is_root q y (if t = c then r else t)" for t
  proof (induction rule: is_root.induct)
    case (root_here y)
    have "is_root q r r" using assms q(2) [of r] by (intro is_root.root_here) simp
    then have "is_root q c r" using q(1) assms is_root.root_up [of q c r] by simp
    then show ?case using root_here assms q by (auto intro: is_root.root_here)
  next
    case (root_up y t)
    then have "y \<noteq> c" using assms(1) by auto
    then show ?case using root_up q is_root.root_up [of q y] by simp
  qed
  have "is_root q y s \<Longrightarrow> if is_root p y c then s = r else is_root p y s"
  proof (induction rule: is_root.induct)
    case (root_here y)
    then show ?case using assms q by (cases "y = c") (auto simp: is_root_self)
  next
    case (root_up y s)
    show ?case
    proof (cases "y = c")
      case True
      then show ?thesis
        using root_up q assms is_root_self [of p r] is_root_self [of p c] by auto
    next
      case False
      then have "is_root p y t = is_root p (p y) t" for t using root_up q is_root_step [of p y t] by simp
      then show ?thesis using root_up.IH unfolding q(2) [OF False] by simp
    qed
  qed
  then show ?thesis using up [of c] up [of s] unfolding q_def by (auto split: if_splits)
qed

section \<open>Partitions\<close>

fun unions :: "('s \<Rightarrow> nat \<Rightarrow> nat \<Rightarrow> 's option) \<Rightarrow> (nat \<times> nat) list \<Rightarrow> 's \<Rightarrow> 's option" where
  "unions merge [] s = Some s"
| "unions merge ((x, y) # ps) s = Option.bind (merge s x y) (unions merge ps)"

text \<open>The interface: a state stands for a partition, and a union merges two of its classes.\<close>

locale partition =
  fixes inv :: "'s \<Rightarrow> bool" and same :: "'s \<Rightarrow> nat \<Rightarrow> nat \<Rightarrow> bool"
    and merge :: "'s \<Rightarrow> nat \<Rightarrow> nat \<Rightarrow> 's option"
  assumes same_equivp: "inv s \<Longrightarrow> equivp (same s)"
    and union_merges: "inv s \<Longrightarrow> \<exists>s'. merge s x y = Some s' \<and> inv s' \<and>
      (\<forall>a b. same s' a b \<longleftrightarrow> same s a b \<or> same s a x \<and> same s y b \<or> same s a y \<and> same s x b)"
begin

definition classes :: "'s \<Rightarrow> (nat \<times> nat) set" where
  "classes s = {(a, b). same s a b}"

lemma classes_refl_trans: "inv s \<Longrightarrow> (a, a) \<in> classes s"
  "inv s \<Longrightarrow> (a, b) \<in> classes s \<Longrightarrow> (b, c) \<in> classes s \<Longrightarrow> (a, c) \<in> classes s"
  using same_equivp [of s] by (auto simp: classes_def dest: equivp_reflp equivp_transp)

lemma classes_rtrancl: "inv s \<Longrightarrow> R \<subseteq> classes s \<Longrightarrow> R\<^sup>* \<subseteq> classes s"
proof (rule subrelI)
  fix a b assume "inv s" "R \<subseteq> classes s" "(a, b) \<in> R\<^sup>*"
  from this(3) show "(a, b) \<in> classes s"
    by (induction rule: rtrancl_induct) (use \<open>inv s\<close> \<open>R \<subseteq> classes s\<close> classes_refl_trans in blast)+
qed

lemma union_classes:
  assumes "inv s"
  shows "\<exists>s'. merge s x y = Some s' \<and> inv s' \<and> classes s' = (classes s \<union> {(x, y), (y, x)})\<^sup>*"
proof -
  let ?R = "classes s \<union> {(x, y), (y, x)}"
  obtain s' where s': "merge s x y = Some s'" "inv s'"
    "\<forall>a b. same s' a b \<longleftrightarrow> same s a b \<or> same s a x \<and> same s y b \<or> same s a y \<and> same s x b"
    using union_merges [OF assms] by blast
  have refl: "same s a a" for a using same_equivp [OF assms] by (rule equivp_reflp)
  have "?R \<subseteq> classes s'" using s'(3) refl by (auto simp: classes_def)
  then have "?R\<^sup>* \<subseteq> classes s'" by (rule classes_rtrancl [OF s'(2)])
  moreover have "(a, b) \<in> ?R\<^sup>*" if "(a, b) \<in> classes s'" for a b
  proof -
    have "(a, b) \<in> ?R \<or> ((a, x) \<in> ?R \<and> (x, y) \<in> ?R \<and> (y, b) \<in> ?R) \<or> ((a, y) \<in> ?R \<and> (y, x) \<in> ?R \<and> (x, b) \<in> ?R)"
      using that s'(3) by (auto simp: classes_def)
    moreover have "(a, b) \<in> ?R\<^sup>*" if "(a, c) \<in> ?R" "(c, d) \<in> ?R" "(d, b) \<in> ?R" for c d
      by (rule converse_rtrancl_into_rtrancl [OF that(1) converse_rtrancl_into_rtrancl [OF that(2) r_into_rtrancl [OF that(3)]]])
    ultimately show "(a, b) \<in> ?R\<^sup>*" by (elim disjE conjE) (rule r_into_rtrancl, assumption, blast, blast)
  qed
  then have "classes s' \<subseteq> ?R\<^sup>*" by (rule subrelI)
  ultimately have "classes s' = ?R\<^sup>*" by (rule subset_antisym [rotated])
  with s'(1,2) show ?thesis by auto
qed

lemma unions_classes:
  "inv s \<Longrightarrow> \<exists>s'. unions merge ps s = Some s' \<and> inv s' \<and> classes s' = (classes s \<union> set ps \<union> (set ps)\<inverse>)\<^sup>*"
proof (induction ps arbitrary: s)
  case Nil
  then have "(classes s)\<^sup>* = classes s" using classes_rtrancl [of s "classes s"] by auto
  then show ?case using Nil by simp
next
  case (Cons xy ps)
  obtain x y where xy: "xy = (x, y)" by (cases xy)
  obtain s1 where s1: "merge s x y = Some s1" "inv s1" "classes s1 = (classes s \<union> {(x, y), (y, x)})\<^sup>*"
    using union_classes [OF Cons.prems] by blast
  obtain s' where s': "unions merge ps s1 = Some s'" "inv s'" "classes s' = (classes s1 \<union> (set ps \<union> (set ps)\<inverse>))\<^sup>*"
    using Cons.IH [OF s1(2)] by (auto simp: Un_assoc)
  have "classes s' = (classes s \<union> {(x, y), (y, x)} \<union> (set ps \<union> (set ps)\<inverse>))\<^sup>*"
    using s'(3) s1(3) rtrancl_Un_rtrancl [of "classes s \<union> {(x, y), (y, x)}" "set ps \<union> (set ps)\<inverse>"]
      rtrancl_Un_rtrancl [of "(classes s \<union> {(x, y), (y, x)})\<^sup>*" "set ps \<union> (set ps)\<inverse>"] by simp
  moreover have "classes s \<union> {(x, y), (y, x)} \<union> (set ps \<union> (set ps)\<inverse>) =
      classes s \<union> set (xy # ps) \<union> (set (xy # ps))\<inverse>" by (auto simp: xy)
  ultimately show ?case using s1(1) s'(1,2) by (simp add: xy)
qed

end

section \<open>The forest is a partition\<close>

definition forest :: "'v sets \<Rightarrow> bool" where
  "forest s \<longleftrightarrow> (\<forall>x. \<exists>r. is_root (ds_parent s) x r)"

definition same_set :: "'v sets \<Rightarrow> nat \<Rightarrow> nat \<Rightarrow> bool" where
  "same_set s a b \<longleftrightarrow> (\<exists>r. is_root (ds_parent s) a r \<and> is_root (ds_parent s) b r)"

definition root :: "'v sets \<Rightarrow> nat \<Rightarrow> nat" where
  "root s x = (THE r. is_root (ds_parent s) x r)"

lemma root_iff: "forest s \<Longrightarrow> is_root (ds_parent s) x r \<longleftrightarrow> r = root s x"
  unfolding root_def forest_def by (metis is_root_det theI)

lemma same_set_iff: "forest s \<Longrightarrow> same_set s a b \<longleftrightarrow> root s a = root s b"
  by (auto simp: same_set_def root_iff)

lemma same_set_equivp: "forest s \<Longrightarrow> equivp (same_set s)"
  by (simp add: equivp_def fun_eq_iff same_set_iff) metis

lemma root_fixed: "forest s \<Longrightarrow> ds_parent s (root s x) = root s x"
  using is_root_fixed root_iff by blast

lemma Find_correct:
  assumes "forest s"
  obtains s' where "Find s x = Some (s', root s x)" "forest s'" "root s' = root s" "ds_value s' = ds_value s"
proof -
  obtain p' where p': "find_root (ds_parent s) x = Some (p', root s x)" "is_root p' = is_root (ds_parent s)"
    using find_root_correct [of "ds_parent s" x] assms root_iff by blast
  let ?s = "s\<lparr>ds_parent := p'\<rparr>"
  have "forest ?s" using assms p'(2) by (simp add: forest_def)
  moreover have "root ?s = root s" by (simp add: root_def fun_eq_iff p'(2))
  ultimately show ?thesis using that [of ?s] p'(1) by (simp add: Find_def)
qed

lemma link_forest:
  assumes "forest s" "c = root s x" "r = root s y" "c \<noteq> r"
  defines "s' \<equiv> s\<lparr>ds_parent := (ds_parent s)(c := r)\<rparr>"
  shows "forest s'" "root s' z = (if root s z = c then r else root s z)"
proof -
  have "is_root (ds_parent s') z t \<longleftrightarrow> (if is_root (ds_parent s) z c then t = r else is_root (ds_parent s) z t)" for z t
    using link_root [of "ds_parent s" c r z t] root_fixed [OF assms(1)] assms(2-4) by (simp add: s'_def)
  then have eq: "is_root (ds_parent s') z t \<longleftrightarrow> t = (if root s z = c then r else root s z)" for z t
    using root_iff [OF assms(1)] by auto
  then show "forest s'" by (simp add: forest_def)
  then show "root s' z = (if root s z = c then r else root s z)" using eq root_iff by blast
qed

lemma Union_correct:
  assumes "forest s"
  shows "\<exists>s'. Union d s x y = Some s' \<and> forest s' \<and> ds_value s' = ds_value s \<and>
    (\<exists>r \<in> {root s x, root s y}.
       (\<forall>z. root s' z = (if root s z = root s x \<or> root s z = root s y then r else root s z)) \<and>
       (ds_value s r = d \<longrightarrow> ds_value s (root s x) = d \<and> ds_value s (root s y) = d))"
proof -
  obtain s1 where s1: "Find s x = Some (s1, root s x)" "forest s1" "root s1 = root s" "ds_value s1 = ds_value s"
    by (rule Find_correct [OF assms])
  obtain s2 where s2: "Find s1 y = Some (s2, root s y)" "forest s2" "root s2 = root s" "ds_value s2 = ds_value s"
    using Find_correct [OF s1(2), of y] s1(3,4) by metis
  let ?link = "\<lambda>c r. s2\<lparr>ds_parent := (ds_parent s2)(c := r)\<rparr>"
  have xy: "forest (?link (root s x) (root s y))"
      "root (?link (root s x) (root s y)) z = (if root s z = root s x then root s y else root s z)"
    if "root s x \<noteq> root s y" for z
    using link_forest(1) [OF s2(2), of "root s x" x "root s y" y]
      link_forest(2) [OF s2(2), of "root s x" x "root s y" y z] s2(3) that by auto
  have yx: "forest (?link (root s y) (root s x))"
      "root (?link (root s y) (root s x)) z = (if root s z = root s y then root s x else root s z)"
    if "root s x \<noteq> root s y" for z
    using link_forest(1) [OF s2(2), of "root s y" y "root s x" x]
      link_forest(2) [OF s2(2), of "root s y" y "root s x" x z] s2(3) that by auto
  show ?thesis
    using s1(1) s2 xy yx by (auto simp: Union_def Let_def)
qed

text \<open>A set with the default value joins the other one.\<close>

lemma Union_default:
  assumes "forest s" "ds_value s (root s x) = d"
  obtains s' where "Union d s x y = Some s'" "forest s'" "ds_value s' = ds_value s"
    "\<And>z. root s' z = (if root s z = root s x then root s y else root s z)"
proof -
  obtain s1 where s1: "Find s x = Some (s1, root s x)" "forest s1" "root s1 = root s" "ds_value s1 = ds_value s"
    by (rule Find_correct [OF assms(1)])
  obtain s2 where s2: "Find s1 y = Some (s2, root s y)" "forest s2" "root s2 = root s" "ds_value s2 = ds_value s"
    using Find_correct [OF s1(2), of y] s1(3,4) by metis
  show thesis
  proof (cases "root s x = root s y")
    case True
    then show thesis using s1(1) s2 by (intro that [of s2]) (simp_all add: Union_def)
  next
    case False
    let ?s = "s2\<lparr>ds_parent := (ds_parent s2)(root s x := root s y)\<rparr>"
    have "root s2 x = root s x" "root s2 y = root s y" using s2(3) by simp_all
    then have "forest ?s" "root ?s z = (if root s z = root s x then root s y else root s z)" for z
      using link_forest [OF s2(2), of "root s x" x "root s y" y] False s2(3) by simp_all
    then show thesis
      using s1(1) s2 assms(2) False by (intro that [of ?s]) (simp_all add: Union_def Let_def)
  qed
qed

interpretation uf: partition forest same_set "Union d" for d
proof
  fix s :: "'a sets" and x y
  assume f: "forest s"
  then show "equivp (same_set s)" by (rule same_set_equivp)
  obtain s' r where s': "Union d s x y = Some s'" "forest s'" "r \<in> {root s x, root s y}"
    "\<forall>z. root s' z = (if root s z = root s x \<or> root s z = root s y then r else root s z)"
    using Union_correct [OF f, of d x y] by blast
  then have "\<forall>a b. same_set s' a b \<longleftrightarrow> same_set s a b \<or> same_set s a x \<and> same_set s y b \<or> same_set s a y \<and> same_set s x b"
    unfolding same_set_iff [OF f] same_set_iff [OF s'(2)] by (auto; metis)
  with s' show "\<exists>s'. Union d s x y = Some s' \<and> forest s' \<and>
      (\<forall>a b. same_set s' a b \<longleftrightarrow> same_set s a b \<or> same_set s a x \<and> same_set s y b \<or> same_set s a y \<and> same_set s x b)"
    by blast
qed

definition singletons :: "(nat \<Rightarrow> 'v) \<Rightarrow> 'v sets" where
  "singletons v = \<lparr>ds_parent = id, ds_value = v\<rparr>"

lemma singletons_forest: "forest (singletons v)" "same_set (singletons v) a b \<longleftrightarrow> a = b"
  by (auto simp: forest_def same_set_def singletons_def is_root_self)

text \<open>C5. Union-find computes the equivalence closure. Starting from singleton sets, after any
  sequence of unions, all of which return, comparing two sets returns, and returns true exactly
  when a chain of the unions made links them; the comparison keeps the classes although it
  compresses paths.\<close>

theorem union_find_closure:
  "\<exists>s'. unions (Union d) ps (singletons v) = Some s' \<and>
     (\<forall>a b. \<exists>s''. set_eq s' a b = Some (s'', (a, b) \<in> (set ps \<union> (set ps)\<inverse>)\<^sup>*) \<and> same_set s'' = same_set s')"
proof -
  have f: "forest (singletons v)" and cl: "uf.classes (singletons v) = Id"
    using singletons_forest [of v] by (auto simp: uf.classes_def)
  obtain s' where s': "unions (Union d) ps (singletons v) = Some s'" "forest s'"
      "uf.classes s' = (Id \<union> set ps \<union> (set ps)\<inverse>)\<^sup>*"
    using uf.unions_classes [OF f, of d ps] cl by auto
  have "(Id \<union> set ps \<union> (set ps)\<inverse>)\<^sup>* = (set ps \<union> (set ps)\<inverse>)\<^sup>*"
    by (metis Un_assoc Un_commute rtrancl_reflcl)
  then have rel: "root s' a = root s' b \<longleftrightarrow> (a, b) \<in> (set ps \<union> (set ps)\<inverse>)\<^sup>*" for a b
    using s'(2,3) by (auto simp: uf.classes_def same_set_iff)
  have "\<exists>s''. set_eq s' a b = Some (s'', (a, b) \<in> (set ps \<union> (set ps)\<inverse>)\<^sup>*) \<and> same_set s'' = same_set s'" for a b
  proof -
    obtain s1 where s1: "Find s' a = Some (s1, root s' a)" "forest s1" "root s1 = root s'"
      using Find_correct [OF s'(2)] by metis
    obtain s2 where s2: "Find s1 b = Some (s2, root s' b)" "forest s2" "root s2 = root s'"
      using Find_correct [OF s1(2)] s1(3) by metis
    have "same_set s2 = same_set s'" using s2 s'(2) by (simp add: fun_eq_iff same_set_iff)
    then show ?thesis using s1 s2 rel by (simp add: set_eq_def)
  qed
  with s'(1) show ?thesis by blast
qed

text \<open>A union keeps the interesting value: it returns, and afterwards the value read through
  either of the two sets is one of the two values they had before, and it is the default value
  only if both were. The values of all other sets are unchanged.\<close>

theorem union_value:
  assumes "forest s"
  shows "\<exists>s'. Union d s x y = Some s' \<and>
    (\<forall>z. \<exists>s''. Value s' z = Some (s'', ds_value s (root s' z))) \<and>
    root s' x = root s' y \<and> root s' x \<in> {root s x, root s y} \<and>
    (ds_value s (root s' x) = d \<longrightarrow> ds_value s (root s x) = d \<and> ds_value s (root s y) = d) \<and>
    (\<forall>z. \<not> same_set s z x \<longrightarrow> \<not> same_set s z y \<longrightarrow> root s' z = root s z)"
proof -
  obtain s' r where s': "Union d s x y = Some s'" "forest s'" "ds_value s' = ds_value s" "r \<in> {root s x, root s y}"
    "\<forall>z. root s' z = (if root s z = root s x \<or> root s z = root s y then r else root s z)"
    "ds_value s r = d \<longrightarrow> ds_value s (root s x) = d \<and> ds_value s (root s y) = d"
    using Union_correct [OF assms, of d x y] by blast
  have "\<exists>s''. Value s' z = Some (s'', ds_value s (root s' z))" for z
    using Find_correct [OF s'(2), of z] s'(3) by (metis (mono_tags, lifting) Value_def bind.bind_lunit case_prod_conv)
  with s' show ?thesis using same_set_iff [OF assms] by auto
qed

theorem union_value_witness:
  "\<exists>s'. Union (0 :: int) (singletons (\<lambda>x. if x = 2 then 7 else 0)) 1 2 = Some s' \<and>
     ds_value (singletons (\<lambda>x. if x = 2 then 7 else 0)) (root s' 1) \<noteq> (0 :: int)"
proof -
  let ?s = "singletons (\<lambda>x. if x = 2 then 7 else (0 :: int))"
  have f: "forest ?s" by (rule singletons_forest)
  have "root ?s 2 = 2" using root_iff [OF f, of 2 2] by (simp add: singletons_def is_root_self)
  then have "ds_value ?s (root ?s 2) \<noteq> 0" by (simp add: singletons_def)
  with union_value [OF f, of 0 1 2] show ?thesis by blast
qed

end
