(* ===== verification/Tiny.thy ===== *)
theory Tiny
  imports Prelude
begin

text \<open>
  The small containers of \<^verbatim>\<open>granary/base/tiny_vector.h\<close>, \<^verbatim>\<open>tiny_set.h\<close> and
  \<^verbatim>\<open>tiny_map.h\<close>. A vector is a chain of chunks of \<^verbatim>\<open>kMinSize\<close> elements; the last word of a
  chunk is either the number of its elements or, once it is full and another was needed, the
  pointer to the next chunk. Those two cases of the C union are the two constructors below (a
  pointer is larger than \<^verbatim>\<open>kMinSize\<close>, which is how the code tells them apart). Sets and maps
  keep the default value as the mark of an empty slot; it is the parameter \<open>d\<close>.
\<close>

section \<open>Vectors\<close>

datatype 'a tiny_vector =
  Chunk (chunk_elems: "'a list") (num_elems: nat)
| Full (chunk_elems: "'a list") (next_chunk: "'a tiny_vector")

definition TinyVector_new :: "nat \<Rightarrow> 'a \<Rightarrow> 'a tiny_vector" where
  "TinyVector_new kMinSize d = Chunk (replicate kMinSize d) 0"

text \<open>A store to the first free slot; \<open>Vec_Append\<close> of a chunk just allocated is such a store
  because \<^verbatim>\<open>kMinSize\<close> is positive.\<close>

definition append_here :: "'a list \<Rightarrow> nat \<Rightarrow> 'a \<Rightarrow> 'a tiny_vector" where
  "append_here es n val = Chunk (es[n := val]) (Suc n)"

fun Vec_Append :: "nat \<Rightarrow> 'a \<Rightarrow> 'a tiny_vector \<Rightarrow> 'a \<Rightarrow> 'a tiny_vector" where
  "Vec_Append kMinSize d (Chunk es n) val =
     (if n < kMinSize then append_here es n val
      else Full es (append_here (replicate kMinSize d) 0 val))"
| "Vec_Append kMinSize d (Full es nx) val = Full es (Vec_Append kMinSize d nx val)"

fun Vec_Size :: "nat \<Rightarrow> 'a tiny_vector \<Rightarrow> nat" where
  "Vec_Size kMinSize (Chunk es n) = n"
| "Vec_Size kMinSize (Full es nx) = kMinSize + Vec_Size kMinSize nx"

text \<open>\<^verbatim>\<open>ElementAt\<close> does no bounds check; following the count of the last chunk as a pointer is
  \<open>None\<close>.\<close>

fun ElementAt :: "nat \<Rightarrow> 'a tiny_vector \<Rightarrow> nat \<Rightarrow> 'a option" where
  "ElementAt kMinSize (Chunk es n) index = (if index < kMinSize then Some (es ! index) else None)"
| "ElementAt kMinSize (Full es nx) index =
     (if index < kMinSize then Some (es ! index) else ElementAt kMinSize nx (index - kMinSize))"

text \<open>A store through the reference that \<^verbatim>\<open>operator[]\<close> or an iterator gives.\<close>

fun Vec_store :: "nat \<Rightarrow> 'a tiny_vector \<Rightarrow> nat \<Rightarrow> 'a \<Rightarrow> 'a tiny_vector" where
  "Vec_store kMinSize (Chunk es n) index val = Chunk (es[index := val]) n"
| "Vec_store kMinSize (Full es nx) index val =
     (if index < kMinSize then Full (es[index := val]) nx
      else Full es (Vec_store kMinSize nx (index - kMinSize) val))"

text \<open>The iterator is a chunk and an index into it, or the end.\<close>

type_synonym 'a vec_iter = "('a tiny_vector \<times> nat) option"

fun is_empty_chunk :: "'a tiny_vector \<Rightarrow> bool" where
  "is_empty_chunk (Chunk es n) \<longleftrightarrow> n = 0"
| "is_empty_chunk (Full es nx) \<longleftrightarrow> False"

definition Vec_begin :: "'a tiny_vector \<Rightarrow> 'a vec_iter" where
  "Vec_begin v = (if is_empty_chunk v then None else Some (v, 0))"

fun Iterator_inc :: "nat \<Rightarrow> 'a tiny_vector \<Rightarrow> nat \<Rightarrow> 'a vec_iter" where
  "Iterator_inc kMinSize (Chunk es n) i =
     (if Suc i < kMinSize then if n \<le> Suc i then None else Some (Chunk es n, Suc i)
      else None)"
| "Iterator_inc kMinSize (Full es nx) i =
     (if Suc i < kMinSize then Some (Full es nx, Suc i)
      else if is_empty_chunk nx then None else Some (nx, 0))"

text \<open>The elements a range-based loop visits.\<close>

partial_function (option) Vec_iterate :: "nat \<Rightarrow> 'a vec_iter \<Rightarrow> 'a list option" where
  "Vec_iterate kMinSize it =
     (case it of
        None \<Rightarrow> Some []
      | Some (v, i) \<Rightarrow>
          Option.bind (Vec_iterate kMinSize (Iterator_inc kMinSize v i)) (\<lambda>rest.
            Some (chunk_elems v ! i # rest)))"

text \<open>What the loops visit, as a function of the vector (\<open>Vec_iterate_elems\<close> below), the copy
  constructor and \<^verbatim>\<open>Clear\<close>.\<close>

fun Vec_elems :: "'a tiny_vector \<Rightarrow> 'a list" where
  "Vec_elems (Chunk es n) = take n es"
| "Vec_elems (Full es nx) = es @ Vec_elems nx"

definition Vec_copy :: "nat \<Rightarrow> 'a \<Rightarrow> 'a tiny_vector \<Rightarrow> 'a tiny_vector" where
  "Vec_copy kMinSize d that =
     fold (\<lambda>elem v. Vec_Append kMinSize d v elem) (Vec_elems that) (TinyVector_new kMinSize d)"

definition Vec_Clear :: "nat \<Rightarrow> 'a \<Rightarrow> 'a tiny_vector \<Rightarrow> 'a tiny_vector" where
  "Vec_Clear kMinSize d v = (if is_empty_chunk v then v else TinyVector_new kMinSize d)"

section \<open>Sets\<close>

record 'a tiny_set =
  ts_elems :: "'a tiny_vector"
  ts_size :: nat

definition TinySet_new :: "nat \<Rightarrow> 'a \<Rightarrow> 'a tiny_set" where
  "TinySet_new kMinSize d = \<lparr>ts_elems = TinyVector_new kMinSize d, ts_size = 0\<rparr>"

definition Contains :: "'a tiny_set \<Rightarrow> 'a \<Rightarrow> bool" where
  "Contains s elem \<longleftrightarrow> elem \<in> set (Vec_elems (ts_elems s))"

definition Add :: "nat \<Rightarrow> 'a \<Rightarrow> 'a tiny_set \<Rightarrow> 'a \<Rightarrow> 'a tiny_set \<times> bool" where
  "Add kMinSize d s elem =
     (if \<not> Contains s elem
      then (s\<lparr>ts_elems := Vec_Append kMinSize d (ts_elems s) elem, ts_size := ts_size s + 1\<rparr>, True)
      else (s, False))"

text \<open>The position of the first element a loop finds.\<close>

fun index_of :: "('a \<Rightarrow> bool) \<Rightarrow> 'a list \<Rightarrow> nat option" where
  "index_of P [] = None"
| "index_of P (x # xs) = (if P x then Some 0 else map_option Suc (index_of P xs))"

definition Set_Remove :: "nat \<Rightarrow> 'a \<Rightarrow> 'a tiny_set \<Rightarrow> 'a \<Rightarrow> 'a tiny_set \<times> bool" where
  "Set_Remove kMinSize d s elem =
     (case index_of (\<lambda>e. e = elem) (Vec_elems (ts_elems s)) of
        Some i \<Rightarrow> (s\<lparr>ts_elems := Vec_store kMinSize (ts_elems s) i d, ts_size := ts_size s - 1\<rparr>, True)
      | None \<Rightarrow> (s, False))"

text \<open>The set's iterator skips the empty slots.\<close>

definition Set_elems :: "'a \<Rightarrow> 'a tiny_set \<Rightarrow> 'a list" where
  "Set_elems d s = filter (\<lambda>e. d \<noteq> e) (Vec_elems (ts_elems s))"

definition Set_Union :: "nat \<Rightarrow> 'a \<Rightarrow> 'a tiny_set \<Rightarrow> 'a tiny_set \<Rightarrow> 'a tiny_set" where
  "Set_Union kMinSize d s that = fold (\<lambda>elem s. fst (Add kMinSize d s elem)) (Set_elems d that) s"

section \<open>Maps\<close>

record ('k, 'v) tiny_map =
  tm_elems :: "('k \<times> 'v) tiny_vector"
  tm_size :: nat

definition TinyMap_new :: "nat \<Rightarrow> 'k \<Rightarrow> 'v \<Rightarrow> ('k, 'v) tiny_map" where
  "TinyMap_new kMinSize dk dv = \<lparr>tm_elems = TinyVector_new kMinSize (dk, dv), tm_size = 0\<rparr>"

definition Exists :: "('k, 'v) tiny_map \<Rightarrow> 'k \<Rightarrow> bool" where
  "Exists m key \<longleftrightarrow> (\<exists>entry \<in> set (Vec_elems (tm_elems m)). fst entry = key)"

fun last_empty :: "'k \<Rightarrow> ('k \<times> 'v) list \<Rightarrow> nat option" where
  "last_empty dk [] = None"
| "last_empty dk (x # xs) =
     (case last_empty dk xs of Some i \<Rightarrow> Some (Suc i) | None \<Rightarrow> if dk = fst x then Some 0 else None)"

text \<open>\<^verbatim>\<open>operator[]\<close>: the index of the entry whose value it refers to, with the entry made when the
  key is new. That the key is not the default one, which it and \<^verbatim>\<open>Remove\<close> assert, is a premise of
  what is shown of them.\<close>

definition Map_ref :: "nat \<Rightarrow> 'k \<Rightarrow> 'v \<Rightarrow> ('k, 'v) tiny_map \<Rightarrow> 'k \<Rightarrow> ('k, 'v) tiny_map \<times> nat" where
  "Map_ref kMinSize dk dv m key =
     (let es = Vec_elems (tm_elems m)
      in case index_of (\<lambda>entry. fst entry = key) es of
           Some i \<Rightarrow> (m, i)
         | None \<Rightarrow>
             (case last_empty dk es of
                Some i \<Rightarrow> (m\<lparr>tm_elems := Vec_store kMinSize (tm_elems m) i (key, dv), tm_size := tm_size m + 1\<rparr>, i)
              | None \<Rightarrow>
                  (m\<lparr>tm_elems := Vec_Append kMinSize (dk, dv) (tm_elems m) (key, dv), tm_size := tm_size m + 1\<rparr>,
                   length es)))"

text \<open>Reading and assigning through that reference.\<close>

definition Map_get :: "nat \<Rightarrow> 'k \<Rightarrow> 'v \<Rightarrow> ('k, 'v) tiny_map \<Rightarrow> 'k \<Rightarrow> ('k, 'v) tiny_map \<times> 'v" where
  "Map_get kMinSize dk dv m key =
     (let (m', i) = Map_ref kMinSize dk dv m key in (m', snd (Vec_elems (tm_elems m') ! i)))"

definition Map_put :: "nat \<Rightarrow> 'k \<Rightarrow> 'v \<Rightarrow> ('k, 'v) tiny_map \<Rightarrow> 'k \<Rightarrow> 'v \<Rightarrow> ('k, 'v) tiny_map" where
  "Map_put kMinSize dk dv m key val =
     (let (m', i) = Map_ref kMinSize dk dv m key
      in m'\<lparr>tm_elems := Vec_store kMinSize (tm_elems m') i (fst (Vec_elems (tm_elems m') ! i), val)\<rparr>)"

text \<open>\<^verbatim>\<open>entry.~MapPair(); new (&entry) MapPair;\<close> with the defaulted constructor runs the default
  constructors of \<^verbatim>\<open>K\<close> and \<^verbatim>\<open>V\<close>, which leave a field of a scalar type as it is. What a pair holds
  afterwards depends on the template arguments: it is the parameter \<open>init\<close>, a function of
  what the pair held before (\<open>keep_scalars\<close> when both are scalar types).\<close>

definition keep_scalars :: "'k \<times> 'v \<Rightarrow> 'k \<times> 'v" where
  "keep_scalars entry = entry"

definition Map_Remove :: "nat \<Rightarrow> ('k \<times> 'v \<Rightarrow> 'k \<times> 'v) \<Rightarrow> ('k, 'v) tiny_map \<Rightarrow> 'k \<Rightarrow> ('k, 'v) tiny_map" where
  "Map_Remove kMinSize init m key =
     (let es = Vec_elems (tm_elems m)
      in case index_of (\<lambda>entry. fst entry = key) es of
           Some i \<Rightarrow> m\<lparr>tm_elems := Vec_store kMinSize (tm_elems m) i (init (es ! i)), tm_size := tm_size m - 1\<rparr>
         | None \<Rightarrow> m)"

text \<open>The entry, key and value iterators skip the empty entries.\<close>

definition Map_entries :: "'k \<Rightarrow> ('k, 'v) tiny_map \<Rightarrow> ('k \<times> 'v) list" where
  "Map_entries dk m = filter (\<lambda>entry. dk \<noteq> fst entry) (Vec_elems (tm_elems m))"

definition Map_Keys :: "'k \<Rightarrow> ('k, 'v) tiny_map \<Rightarrow> 'k list" where
  "Map_Keys dk m = map fst (Map_entries dk m)"

definition Map_Values :: "'k \<Rightarrow> ('k, 'v) tiny_map \<Rightarrow> 'v list" where
  "Map_Values dk m = map snd (Map_entries dk m)"

section \<open>Vectors hold lists\<close>

fun vec_wf :: "nat \<Rightarrow> 'a tiny_vector \<Rightarrow> bool" where
  "vec_wf k (Chunk es n) \<longleftrightarrow> length es = k \<and> n \<le> k"
| "vec_wf k (Full es nx) \<longleftrightarrow> length es = k \<and> vec_wf k nx"

lemma vec_new [simp]: "vec_wf k (TinyVector_new k d)" "Vec_elems (TinyVector_new k d) = []"
  by (simp_all add: TinyVector_new_def)

lemma Vec_Append_wf: "0 < k \<Longrightarrow> vec_wf k v \<Longrightarrow> vec_wf k (Vec_Append k d v x)"
  by (induction k d v x rule: Vec_Append.induct) (auto simp: append_here_def Suc_le_eq)

lemma Vec_Append_elems:
  "0 < k \<Longrightarrow> vec_wf k v \<Longrightarrow> Vec_elems (Vec_Append k d v x) = Vec_elems v @ [x]"
proof (induction k d v x rule: Vec_Append.induct)
  case (1 k d es n val)
  then show ?case
    by (cases k) (auto simp: append_here_def take_Suc_conv_app_nth list_update_append)
qed simp

lemma Vec_Size_length: "vec_wf k v \<Longrightarrow> Vec_Size k v = length (Vec_elems v)"
  by (induction v) auto

lemma ElementAt_nth:
  "vec_wf k v \<Longrightarrow> i < length (Vec_elems v) \<Longrightarrow> ElementAt k v i = Some (Vec_elems v ! i)"
  by (induction k v i rule: ElementAt.induct) (auto simp: nth_append)

lemma Vec_store_wf: "vec_wf k v \<Longrightarrow> vec_wf k (Vec_store k v i x)"
  by (induction k v i x rule: Vec_store.induct) auto

lemma Vec_store_elems:
  "vec_wf k v \<Longrightarrow> i < length (Vec_elems v) \<Longrightarrow> Vec_elems (Vec_store k v i x) = (Vec_elems v)[i := x]"
  by (induction k v i x rule: Vec_store.induct) (auto simp: take_update_swap list_update_append)

lemma Vec_copy_correct: "0 < k \<Longrightarrow> vec_wf k (Vec_copy k d v) \<and> Vec_elems (Vec_copy k d v) = Vec_elems v"
proof -
  assume k: "0 < k"
  have "vec_wf k w \<Longrightarrow> vec_wf k (fold (\<lambda>e v. Vec_Append k d v e) xs w) \<and>
      Vec_elems (fold (\<lambda>e v. Vec_Append k d v e) xs w) = Vec_elems w @ xs" for xs w
    by (induction xs arbitrary: w) (auto simp: Vec_Append_wf [OF k] Vec_Append_elems [OF k])
  then show ?thesis by (simp add: Vec_copy_def)
qed

lemma iterate_chunk:
  "n \<le> k \<Longrightarrow> length es = k \<Longrightarrow> i < n \<Longrightarrow> Vec_iterate k (Some (Chunk es n, i)) = Some (drop i (take n es))"
proof (induction "n - i" arbitrary: i)
  case (Suc m)
  have hd: "drop i (take n es) = es ! i # drop (Suc i) (take n es)"
    using Suc.prems by (simp add: Cons_nth_drop_Suc [symmetric])
  show ?case
  proof (cases "Suc i < n")
    case True
    then have "Vec_iterate k (Some (Chunk es n, Suc i)) = Some (drop (Suc i) (take n es))"
      using Suc by simp
    then show ?thesis
      using True Suc.prems hd by (simp add: Vec_iterate.simps [of k "Some (Chunk es n, i)"])
  next
    case False
    then have "Iterator_inc k (Chunk es n) i = None" "drop (Suc i) (take n es) = []" using Suc.prems by auto
    then show ?thesis
      using hd by (simp add: Vec_iterate.simps [of k "Some (Chunk es n, i)"] Vec_iterate.simps [of k None])
  qed
qed simp

lemma iterate_full:
  "Vec_iterate k (Vec_begin nx) = Some ys \<Longrightarrow> length es = k \<Longrightarrow> i < k \<Longrightarrow>
   Vec_iterate k (Some (Full es nx, i)) = Some (drop i es @ ys)"
proof (induction "k - i" arbitrary: i)
  case (Suc m)
  have hd: "drop i es = es ! i # drop (Suc i) es" using Suc.prems by (simp add: Cons_nth_drop_Suc)
  show ?case
  proof (cases "Suc i < k")
    case True
    then have "Vec_iterate k (Some (Full es nx, Suc i)) = Some (drop (Suc i) es @ ys)" using Suc by simp
    then show ?thesis
      using True hd by (simp add: Vec_iterate.simps [of k "Some (Full es nx, i)"])
  next
    case False
    then have "Iterator_inc k (Full es nx) i = Vec_begin nx" "drop (Suc i) es = []"
      using Suc.prems by (auto simp: Vec_begin_def)
    then show ?thesis
      using hd Suc.prems(1) by (simp add: Vec_iterate.simps [of k "Some (Full es nx, i)"])
  qed
qed simp

lemma Vec_iterate_elems: "0 < k \<Longrightarrow> vec_wf k v \<Longrightarrow> Vec_iterate k (Vec_begin v) = Some (Vec_elems v)"
proof (induction v)
  case (Chunk es n)
  then show ?case
    using iterate_chunk [of n k es 0] by (simp add: Vec_begin_def Vec_iterate.simps [of k None])
next
  case (Full es nx)
  then show ?case
    using iterate_full [of k nx "Vec_elems nx" es 0] by (simp add: Vec_begin_def)
qed

text \<open>The chunked vector is a list: after any sequence of appends to an empty vector of
  positive chunk size, iterating over it ends and visits exactly the appended elements in
  order, its size is their number, indexing gives each of them, and so do the iteration
  over, the size of and the indexing of a copy.\<close>

theorem tiny_vector_is_list:
  assumes "0 < k" "v = fold (\<lambda>x v. Vec_Append k d v x) xs (TinyVector_new k d)" "w \<in> {v, Vec_copy k d v}"
  shows "Vec_iterate k (Vec_begin w) = Some xs \<and> Vec_Size k w = length xs \<and>
    (\<forall>i < length xs. ElementAt k w i = Some (xs ! i))"
proof -
  have "vec_wf k u \<Longrightarrow> vec_wf k (fold (\<lambda>x v. Vec_Append k d v x) xs u) \<and>
      Vec_elems (fold (\<lambda>x v. Vec_Append k d v x) xs u) = Vec_elems u @ xs" for u
    by (induction xs arbitrary: u) (auto simp: Vec_Append_wf [OF assms(1)] Vec_Append_elems [OF assms(1)])
  then have "vec_wf k w" "Vec_elems w = xs"
    using assms Vec_copy_correct [OF assms(1), of d v] vec_new [of k d] by auto
  then show ?thesis
    using Vec_iterate_elems [OF assms(1)] Vec_Size_length ElementAt_nth by blast
qed

theorem tiny_vector_is_list_witness:
  "Vec_iterate 2 (Vec_begin (fold (\<lambda>x v. Vec_Append 2 0 v x) [5, 6, 7 :: int] (TinyVector_new 2 0))) = Some [5, 6, 7]"
  by (rule conjunct1 [OF tiny_vector_is_list [OF _ refl, of _ _ 0]]) simp_all

section \<open>Sets hold sets\<close>

lemma index_of_None: "index_of P xs = None \<longleftrightarrow> (\<forall>x \<in> set xs. \<not> P x)"
  by (induction xs) auto

lemma index_of_Some: "index_of P xs = Some i \<Longrightarrow> i < length xs \<and> P (xs ! i)"
  by (induction xs arbitrary: i) (auto split: if_splits)

text \<open>The elements that are not empty slots are distinct and counted.\<close>

definition set_wf :: "nat \<Rightarrow> 'a \<Rightarrow> 'a tiny_set \<Rightarrow> bool" where
  "set_wf k d s \<longleftrightarrow> vec_wf k (ts_elems s) \<and> distinct (Set_elems d s) \<and> ts_size s = length (Set_elems d s)"

lemma filter_update_other:
  "i < length xs \<Longrightarrow> xs ! i \<noteq> d \<Longrightarrow>
   filter (\<lambda>e. d \<noteq> e) (xs[i := d]) = filter (\<lambda>e. d \<noteq> e) (take i xs) @ filter (\<lambda>e. d \<noteq> e) (drop (Suc i) xs)"
  by (simp add: upd_conv_take_nth_drop)

lemma filter_split_at:
  "i < length xs \<Longrightarrow> P (xs ! i) \<Longrightarrow> filter P xs = filter P (take i xs) @ xs ! i # filter P (drop (Suc i) xs)"
  by (subst id_take_nth_drop) auto

datatype 'a set_op = OpAdd 'a | OpDelete 'a | OpUnion "'a tiny_set"

fun set_spec :: "nat \<Rightarrow> 'a \<Rightarrow> 'a set_op \<Rightarrow> 'a set \<Rightarrow> 'a set option" where
  "set_spec k d (OpAdd x) A = (if x = d then None else Some (insert x A))"
| "set_spec k d (OpDelete x) A = (if x = d then None else Some (A - {x}))"
| "set_spec k d (OpUnion t) A = (if set_wf k d t then Some (A \<union> set (Set_elems d t)) else None)"

fun set_impl :: "nat \<Rightarrow> 'a \<Rightarrow> 'a set_op \<Rightarrow> 'a tiny_set \<Rightarrow> 'a tiny_set" where
  "set_impl k d (OpAdd x) s = fst (Add k d s x)"
| "set_impl k d (OpDelete x) s = fst (Set_Remove k d s x)"
| "set_impl k d (OpUnion t) s = Set_Union k d s t"

definition set_rel :: "nat \<Rightarrow> 'a \<Rightarrow> 'a tiny_set \<Rightarrow> 'a set \<Rightarrow> bool" where
  "set_rel k d s A \<longleftrightarrow> 0 < k \<and> set_wf k d s \<and> set (Set_elems d s) = A"

lemma Contains_iff: "x \<noteq> d \<Longrightarrow> Contains s x \<longleftrightarrow> x \<in> set (Set_elems d s)"
  by (auto simp: Contains_def Set_elems_def)

lemma Add_rel: "set_rel k d s A \<Longrightarrow> x \<noteq> d \<Longrightarrow> set_rel k d (fst (Add k d s x)) (insert x A)"
  by (auto simp: set_rel_def set_wf_def Add_def Contains_iff Set_elems_def Vec_Append_wf Vec_Append_elems)

lemma Remove_rel:
  assumes "set_rel k d s A" "x \<noteq> d"
  shows "set_rel k d (fst (Set_Remove k d s x)) (A - {x})"
proof (cases "index_of (\<lambda>e. e = x) (Vec_elems (ts_elems s))")
  case None
  then have "x \<notin> A" using assms by (auto simp: index_of_None set_rel_def Set_elems_def)
  then show ?thesis using None assms by (simp add: Set_Remove_def)
next
  case (Some i)
  let ?es = "Vec_elems (ts_elems s)"
  have i: "i < length ?es" "?es ! i = x" using index_of_Some [OF Some] by auto
  let ?a = "filter (\<lambda>e. d \<noteq> e) (take i ?es)" and ?b = "filter (\<lambda>e. d \<noteq> e) (drop (Suc i) ?es)"
  have old: "Set_elems d s = ?a @ x # ?b"
    using filter_split_at [of i ?es "\<lambda>e. d \<noteq> e"] i assms(2) by (simp add: Set_elems_def)
  have wf: "vec_wf k (ts_elems s)" using assms by (simp add: set_rel_def set_wf_def)
  have new: "Set_elems d (fst (Set_Remove k d s x)) = ?a @ ?b"
    using Some i assms(2) Vec_store_elems [OF wf i(1), of d] filter_update_other [OF i(1), of d]
    by (simp add: Set_elems_def Set_Remove_def)
  show ?thesis
    using assms(1) Some unfolding set_rel_def set_wf_def old new
    by (auto simp: Set_Remove_def Vec_store_wf)
qed

lemma Union_rel:
  "set_rel k d s A \<Longrightarrow> set_rel k d (Set_Union k d s t) (A \<union> set (Set_elems d t))"
proof -
  assume "set_rel k d s A"
  moreover have "d \<notin> set xs \<Longrightarrow> set_rel k d s A \<Longrightarrow>
      set_rel k d (fold (\<lambda>x s. fst (Add k d s x)) xs s) (A \<union> set xs)" for xs s A
  proof (induction xs arbitrary: s A)
    case (Cons x xs)
    then show ?case using Cons.IH [OF _ Add_rel [of k d s A x]] by auto
  qed simp
  moreover have "d \<notin> set (Set_elems d t)" by (simp add: Set_elems_def)
  ultimately show ?thesis by (simp add: Set_Union_def)
qed

interpretation tset: refinement "set_rel k d" "set_spec k d" "set_impl k d" for k d
proof
  fix c A op A'
  assume "set_rel k d c A" "set_spec k d op A = Some A'"
  then show "set_rel k d (set_impl k d op c) A'"
    by (cases op) (auto simp: Add_rel Remove_rel Union_rel split: if_splits)
qed

lemma TinySet_new_rel: "0 < k \<Longrightarrow> set_rel k d (TinySet_new k d) {}"
  by (simp add: set_rel_def set_wf_def TinySet_new_def Set_elems_def)

text \<open>The tiny set implements finite sets: after any sequence of additions, removals and
  unions with other sets, none of them with the default value, membership is membership in
  the mathematical set, the size is its cardinality, and iterating visits each element once.\<close>

theorem tiny_set_refines:
  assumes "0 < k" "run_spec (set_spec k d) ops {} = Some A"
  shows "let s = fold (set_impl k d) ops (TinySet_new k d)
         in (\<forall>x. x \<noteq> d \<longrightarrow> Contains s x = (x \<in> A)) \<and> ts_size s = card A \<and>
            distinct (Set_elems d s) \<and> set (Set_elems d s) = A"
proof -
  have "set_rel k d (fold (set_impl k d) ops (TinySet_new k d)) A"
    using tset.run_refines [OF TinySet_new_rel [OF assms(1)] assms(2)] .
  then show ?thesis
    by (auto simp: set_rel_def set_wf_def Contains_iff distinct_card)
qed

theorem tiny_set_refines_witness:
  "let s = fold (set_impl 2 (0 :: int)) [OpAdd 3, OpAdd 4, OpAdd 3, OpDelete 4, OpAdd 5] (TinySet_new 2 0)
   in (\<forall>x. x \<noteq> 0 \<longrightarrow> Contains s x = (x \<in> {5, 3})) \<and> ts_size s = card {5, 3 :: int} \<and>
      distinct (Set_elems 0 s) \<and> set (Set_elems 0 s) = {5, 3}"
  by (rule tiny_set_refines) auto

section \<open>Maps hold maps\<close>

lemma last_empty_None: "last_empty dk es = None \<longleftrightarrow> (\<forall>x \<in> set es. fst x \<noteq> dk)"
  by (induction es) (auto split: option.splits)

lemma last_empty_Some: "last_empty dk es = Some i \<Longrightarrow> i < length es \<and> fst (es ! i) = dk"
  by (induction es arbitrary: i) (auto split: option.splits if_splits)

definition map_wf :: "nat \<Rightarrow> 'k \<Rightarrow> ('k, 'v) tiny_map \<Rightarrow> bool" where
  "map_wf k dk m \<longleftrightarrow> vec_wf k (tm_elems m) \<and> distinct (Map_Keys dk m) \<and> tm_size m = length (Map_Keys dk m)"

definition map_rel :: "nat \<Rightarrow> 'k \<Rightarrow> ('k, 'v) tiny_map \<Rightarrow> ('k \<rightharpoonup> 'v) \<Rightarrow> bool" where
  "map_rel k dk m f \<longleftrightarrow> 0 < k \<and> map_wf k dk m \<and> map_of (Map_entries dk m) = f"

abbreviation live :: "'k \<Rightarrow> ('k \<times> 'v) list \<Rightarrow> ('k \<times> 'v) list" where
  "live dk \<equiv> filter (\<lambda>entry. dk \<noteq> fst entry)"

text \<open>Replacing one entry of the list of live entries.\<close>

lemma live_update:
  assumes "i < length es" "dk \<noteq> fst e"
  shows "live dk (es[i := e]) = live dk (take i es) @ e # live dk (drop (Suc i) es)"
    and "live dk es = live dk (take i es) @ (if dk = fst (es ! i) then [] else [es ! i]) @ live dk (drop (Suc i) es)"
proof -
  show "live dk (es[i := e]) = live dk (take i es) @ e # live dk (drop (Suc i) es)"
    using assms by (simp add: upd_conv_take_nth_drop)
  show "live dk es = live dk (take i es) @ (if dk = fst (es ! i) then [] else [es ! i]) @ live dk (drop (Suc i) es)"
    by (subst id_take_nth_drop [OF assms(1)]) simp
qed

lemma live_clear:
  assumes "i < length es" "fst e = dk"
  shows "live dk (es[i := e]) = live dk (take i es) @ live dk (drop (Suc i) es)"
  using assms by (simp add: upd_conv_take_nth_drop)

lemma map_of_mid:
  "distinct (map fst (as @ (key, v) # bs)) \<Longrightarrow> map_of (as @ (key, v) # bs) = (map_of (as @ bs))(key \<mapsto> v)"
  by (induction as) (auto simp: fun_eq_iff)

lemma map_of_notin: "key \<notin> fst ` set es \<Longrightarrow> map_of es key = None"
  by (simp add: map_of_eq_None_iff)

text \<open>The reference: a live entry for the key, whose value is the old one or the default.\<close>

lemma Map_ref_correct:
  assumes rel: "map_rel k dk m f" and key: "key \<noteq> dk" and ref: "Map_ref k dk dv m key = (m', i)"
  shows "map_rel k dk m' (f(key \<mapsto> case f key of None \<Rightarrow> dv | Some v \<Rightarrow> v))"
    and "i < length (Vec_elems (tm_elems m'))" "fst (Vec_elems (tm_elems m') ! i) = key"
proof -
  let ?es = "Vec_elems (tm_elems m)"
  have k: "0 < k" and wf: "vec_wf k (tm_elems m)" and dist: "distinct (map fst (live dk ?es))"
    and sz: "tm_size m = length (live dk ?es)" and f: "f = map_of (live dk ?es)"
    using rel by (auto simp: map_rel_def map_wf_def Map_Keys_def Map_entries_def)
  have "map_rel k dk m' (f(key \<mapsto> case f key of None \<Rightarrow> dv | Some v \<Rightarrow> v)) \<and>
    i < length (Vec_elems (tm_elems m')) \<and> fst (Vec_elems (tm_elems m') ! i) = key"
  proof (cases "index_of (\<lambda>entry. fst entry = key) ?es")
    case (Some j)
    then have j: "j < length ?es" "fst (?es ! j) = key" "m' = m" "i = j"
      using index_of_Some [OF Some] ref by (auto simp: Map_ref_def)
    then have "?es ! j \<in> set (live dk ?es)" using key by auto
    then have "f key = Some (snd (?es ! j))" using dist f j(2) by (metis map_of_is_SomeI prod.collapse)
    then show ?thesis using j rel by (simp add: fun_upd_idem)
  next
    case None
    then have nk: "key \<notin> fst ` set (live dk ?es)" by (auto simp: index_of_None)
    then have fk: "f key = None" by (simp add: f map_of_notin)
    show ?thesis
    proof (cases "last_empty dk ?es")
      case (Some j)
      then have j: "j < length ?es" "fst (?es ! j) = dk" "i = j"
        "m' = m\<lparr>tm_elems := Vec_store k (tm_elems m) j (key, dv), tm_size := tm_size m + 1\<rparr>"
        using last_empty_Some [OF Some] ref None by (auto simp: Map_ref_def)
      let ?a = "live dk (take j ?es)" and ?b = "live dk (drop (Suc j) ?es)"
      have old: "live dk ?es = ?a @ ?b" using live_update(2) [OF j(1), of dk "(key, dv)"] j(2) key by simp
      have es': "Vec_elems (tm_elems m') = ?es[j := (key, dv)]" using Vec_store_elems [OF wf j(1)] j(4) by simp
      then have new: "live dk (Vec_elems (tm_elems m')) = ?a @ (key, dv) # ?b"
        using live_update(1) [OF j(1), of dk "(key, dv)"] key by simp
      have d': "distinct (map fst (?a @ (key, dv) # ?b))" using dist nk unfolding old by auto
      have "map_of (?a @ (key, dv) # ?b) = f(key \<mapsto> dv)" using map_of_mid [OF d'] f old by simp
      then show ?thesis
        using j es' new d' sz old k fk Vec_store_wf [OF wf]
        by (simp add: map_rel_def map_wf_def Map_Keys_def Map_entries_def)
    next
      case (None)
      then have m': "i = length ?es"
        "m' = m\<lparr>tm_elems := Vec_Append k (dk, dv) (tm_elems m) (key, dv), tm_size := tm_size m + 1\<rparr>"
        using ref \<open>index_of _ ?es = None\<close> by (auto simp: Map_ref_def)
      then have es': "Vec_elems (tm_elems m') = ?es @ [(key, dv)]" using Vec_Append_elems [OF k wf] by simp
      then have new: "live dk (Vec_elems (tm_elems m')) = live dk ?es @ [(key, dv)]" using key by simp
      have d': "distinct (map fst (live dk ?es @ [(key, dv)]))" using dist nk by auto
      have "map_of (live dk ?es @ [(key, dv)]) = f(key \<mapsto> dv)" using map_of_mid [OF d'] f by simp
      then show ?thesis
        using m' es' new d' sz k fk Vec_Append_wf [OF k wf]
        by (simp add: map_rel_def map_wf_def Map_Keys_def Map_entries_def)
    qed
  qed
  then show "map_rel k dk m' (f(key \<mapsto> case f key of None \<Rightarrow> dv | Some v \<Rightarrow> v))"
    "i < length (Vec_elems (tm_elems m'))" "fst (Vec_elems (tm_elems m') ! i) = key" by auto
qed

lemma Map_put_rel:
  assumes rel: "map_rel k dk m f" and key: "key \<noteq> dk"
  shows "map_rel k dk (Map_put k dk dv m key val) (f(key \<mapsto> val))"
proof -
  obtain m' i where ref: "Map_ref k dk dv m key = (m', i)" by (cases "Map_ref k dk dv m key")
  note mr = Map_ref_correct [OF rel key ref]
  let ?es = "Vec_elems (tm_elems m')"
  let ?a = "live dk (take i ?es)" and ?b = "live dk (drop (Suc i) ?es)"
  have wf: "vec_wf k (tm_elems m')" using mr(1) by (simp add: map_rel_def map_wf_def)
  have old: "live dk ?es = ?a @ ?es ! i # ?b"
    using live_update(2) [OF mr(2), of dk "(key, val)"] mr(3) key by simp
  have put: "Map_put k dk dv m key val = m'\<lparr>tm_elems := Vec_store k (tm_elems m') i (key, val)\<rparr>"
    using ref mr(3) by (simp add: Map_put_def)
  have new: "live dk (Vec_elems (Vec_store k (tm_elems m') i (key, val))) = ?a @ (key, val) # ?b"
    using Vec_store_elems [OF wf mr(2)] live_update(1) [OF mr(2), of dk "(key, val)"] key by simp
  have e: "?es ! i = (key, snd (?es ! i))" using mr(3) by (metis prod.collapse)
  have dist: "distinct (map fst (?a @ (key, snd (?es ! i)) # ?b))"
    using mr(1) old e by (simp add: map_rel_def map_wf_def Map_Keys_def Map_entries_def)
  then have dist': "distinct (map fst (?a @ (key, val) # ?b))" by simp
  have "(map_of (?a @ ?b))(key \<mapsto> snd (?es ! i)) = f(key \<mapsto> case f key of None \<Rightarrow> dv | Some v \<Rightarrow> v)"
    using mr(1) old e map_of_mid [OF dist] by (simp add: map_rel_def Map_entries_def)
  then have "(map_of (?a @ ?b))(key \<mapsto> val) = f(key \<mapsto> val)" by (metis fun_upd_upd)
  then have "map_of (?a @ (key, val) # ?b) = f(key \<mapsto> val)" using map_of_mid [OF dist'] by simp
  then show ?thesis
    using mr(1) new dist' old Vec_store_wf [OF wf]
    by (simp add: put map_rel_def map_wf_def Map_Keys_def Map_entries_def)
qed

text \<open>The default constructor of the key type resets the key.\<close>

definition resets_key :: "'k \<Rightarrow> ('k \<times> 'v \<Rightarrow> 'k \<times> 'v) \<Rightarrow> bool" where
  "resets_key dk init \<longleftrightarrow> (\<forall>e. fst (init e) = dk)"

lemma Map_Remove_rel:
  assumes rel: "map_rel k dk m f" and key: "key \<noteq> dk" and init: "resets_key dk init"
  shows "map_rel k dk (Map_Remove k init m key) (f(key := None))"
proof (cases "index_of (\<lambda>entry. fst entry = key) (Vec_elems (tm_elems m))")
  case None
  then have "f key = None" using rel by (auto simp: index_of_None map_rel_def Map_entries_def map_of_eq_None_iff)
  then show ?thesis using None rel by (simp add: Map_Remove_def fun_upd_idem)
next
  case (Some i)
  let ?es = "Vec_elems (tm_elems m)"
  have i: "i < length ?es" "fst (?es ! i) = key" using index_of_Some [OF Some] by auto
  have wf: "vec_wf k (tm_elems m)" using rel by (simp add: map_rel_def map_wf_def)
  let ?a = "live dk (take i ?es)" and ?b = "live dk (drop (Suc i) ?es)"
  have e: "?es ! i = (key, snd (?es ! i))" using i(2) by (metis prod.collapse)
  have old: "live dk ?es = ?a @ (key, snd (?es ! i)) # ?b"
    using live_update(2) [OF i(1), of dk "?es ! i"] i(2) key e by simp
  have new: "live dk (Vec_elems (Vec_store k (tm_elems m) i (init (?es ! i)))) = ?a @ ?b"
    using Vec_store_elems [OF wf i(1)] live_clear [OF i(1), of "init (?es ! i)" dk] init
    unfolding resets_key_def by metis
  have dist: "distinct (map fst (?a @ (key, snd (?es ! i)) # ?b))"
    using rel old by (simp add: map_rel_def map_wf_def Map_Keys_def Map_entries_def)
  have nk: "map_of (?a @ ?b) key = None" using dist by (intro map_of_notin) auto
  have "f = (map_of (?a @ ?b))(key \<mapsto> snd (?es ! i))"
    using rel old map_of_mid [OF dist] by (simp add: map_rel_def Map_entries_def)
  then have "f(key := None) = map_of (?a @ ?b)" using nk by (simp add: fun_upd_idem)
  then show ?thesis
    using rel new old dist Some Vec_store_wf [OF wf]
    by (simp add: Map_Remove_def Let_def map_rel_def map_wf_def Map_Keys_def Map_entries_def)
qed

text \<open>The specified operations. An erasure is specified only when the default constructor of the key
  type resets the key.\<close>

datatype ('k, 'v) map_op = OpPut 'k 'v | OpTouch 'k | OpErase 'k

fun map_spec :: "'k \<Rightarrow> 'v \<Rightarrow> ('k \<times> 'v \<Rightarrow> 'k \<times> 'v) \<Rightarrow> ('k, 'v) map_op \<Rightarrow> ('k \<rightharpoonup> 'v) \<Rightarrow> ('k \<rightharpoonup> 'v) option" where
  "map_spec dk dv init (OpPut key v) f = (if key = dk then None else Some (f(key \<mapsto> v)))"
| "map_spec dk dv init (OpTouch key) f =
     (if key = dk then None else Some (f(key \<mapsto> case f key of None \<Rightarrow> dv | Some v \<Rightarrow> v)))"
| "map_spec dk dv init (OpErase key) f = (if key = dk \<or> \<not> resets_key dk init then None else Some (f(key := None)))"

fun map_impl :: "nat \<Rightarrow> 'k \<Rightarrow> 'v \<Rightarrow> ('k \<times> 'v \<Rightarrow> 'k \<times> 'v) \<Rightarrow> ('k, 'v) map_op \<Rightarrow> ('k, 'v) tiny_map \<Rightarrow> ('k, 'v) tiny_map" where
  "map_impl k dk dv init (OpPut key v) m = Map_put k dk dv m key v"
| "map_impl k dk dv init (OpTouch key) m = fst (Map_ref k dk dv m key)"
| "map_impl k dk dv init (OpErase key) m = Map_Remove k init m key"

interpretation tmap: refinement "map_rel k dk" "map_spec dk dv init" "map_impl k dk dv init" for k dk dv init
proof
  fix c :: "('a, 'b) tiny_map" and f op f'
  assume "map_rel k dk c f" "map_spec dk dv init op f = Some f'"
  then show "map_rel k dk (map_impl k dk dv init op c) f'"
    by (cases op) (auto simp: Map_put_rel Map_Remove_rel Map_ref_correct(1) [OF _ _ prod.collapse [symmetric]]
        split: if_splits)
qed

lemma Map_get_value:
  assumes "map_rel k dk m f" "key \<noteq> dk"
  shows "snd (Map_get k dk dv m key) = (case f key of None \<Rightarrow> dv | Some v \<Rightarrow> v)"
proof -
  obtain m' i where ref: "Map_ref k dk dv m key = (m', i)" by (cases "Map_ref k dk dv m key")
  note mr = Map_ref_correct [OF assms ref]
  let ?es = "Vec_elems (tm_elems m')"
  have "?es ! i \<in> set (live dk ?es)" using mr(2,3) assms(2) by auto
  then have "map_of (live dk ?es) key = Some (snd (?es ! i))"
    using mr(1,3) by (metis map_of_is_SomeI map_rel_def map_wf_def Map_Keys_def Map_entries_def prod.collapse)
  then show ?thesis using mr(1) ref by (simp add: map_rel_def Map_entries_def Map_get_def)
qed

lemma Exists_iff: "key \<noteq> dk \<Longrightarrow> Exists m key \<longleftrightarrow> key \<in> set (Map_Keys dk m)"
  by (force simp: Exists_def Map_Keys_def Map_entries_def)

text \<open>C8. The tiny map implements finite maps: after any sequence of assignments through
  \<^verbatim>\<open>operator[]\<close>, plain accesses through it (which create default entries) and, for a key type
  whose default constructor resets the key, removals, none of them with the default key, a key
  exists exactly when the specified map has it, reading it gives its value (or the default), the
  size is the number of keys, and the key iterator visits each key once. Freed entries are reused
  in between. For a scalar key type nothing is claimed of removals: \<open>Map_Remove_scalar\<close> below.\<close>

theorem tiny_map_refines:
  assumes "0 < k" "run_spec (map_spec dk dv init) ops Map.empty = Some f"
  shows "let m = fold (map_impl k dk dv init) ops (TinyMap_new k dk dv)
         in (\<forall>key. key \<noteq> dk \<longrightarrow> Exists m key = (f key \<noteq> None) \<and>
               snd (Map_get k dk dv m key) = (case f key of None \<Rightarrow> dv | Some v \<Rightarrow> v)) \<and>
            tm_size m = card (dom f) \<and> distinct (Map_Keys dk m) \<and> set (Map_Keys dk m) = dom f"
proof -
  let ?m = "fold (map_impl k dk dv init) ops (TinyMap_new k dk dv)"
  have "map_rel k dk (TinyMap_new k dk dv) Map.empty"
    using assms(1) by (simp add: map_rel_def map_wf_def TinyMap_new_def Map_entries_def Map_Keys_def)
  then have rel: "map_rel k dk ?m f" by (rule tmap.run_refines [OF _ assms(2)])
  then have f: "f = map_of (Map_entries dk ?m)" by (simp add: map_rel_def)
  have keys: "set (Map_Keys dk ?m) = dom f" "distinct (Map_Keys dk ?m)" "tm_size ?m = length (Map_Keys dk ?m)"
    using rel unfolding f Map_Keys_def by (simp_all add: dom_map_of_conv_image_fst map_rel_def map_wf_def Map_Keys_def)
  have "Exists ?m key = (f key \<noteq> None)" if "key \<noteq> dk" for key
    using Exists_iff [OF that, of ?m] keys(1) by auto
  moreover have "tm_size ?m = card (dom f)" using keys distinct_card [of "Map_Keys dk ?m"] by simp
  ultimately show ?thesis using keys Map_get_value [OF rel] by (auto simp: Let_def)
qed

theorem tiny_map_refines_witness:
  "let m = fold (map_impl 1 (0 :: int) (0 :: int) (\<lambda>(x, v). (0, v))) [OpPut 3 7, OpPut 4 8, OpErase 3, OpPut 5 9] (TinyMap_new 1 0 0)
   in snd (Map_get 1 0 0 m 5) = 9 \<and> \<not> Exists m 3"
  using tiny_map_refines [of 1 "0 :: int" "0 :: int" "\<lambda>(x, v). (0, v)" "[OpPut 3 7, OpPut 4 8, OpErase 3, OpPut 5 9]"]
  by (simp add: Let_def resets_key_def case_prod_beta)

text \<open>A removal with scalar keys and values, the only template arguments the sources use, leaves the
  entry in place: the key still exists, with its value, but the size has gone down.\<close>

theorem Map_Remove_scalar:
  assumes "Exists m key" "map_wf k dk m"
  shows "Map_Remove k keep_scalars m key = m\<lparr>tm_elems := tm_elems (Map_Remove k keep_scalars m key), tm_size := tm_size m - 1\<rparr> \<and>
    Vec_elems (tm_elems (Map_Remove k keep_scalars m key)) = Vec_elems (tm_elems m) \<and>
    Exists (Map_Remove k keep_scalars m key) key"
proof -
  obtain i where i: "index_of (\<lambda>entry. fst entry = key) (Vec_elems (tm_elems m)) = Some i"
    using assms(1) index_of_None [of "\<lambda>entry. fst entry = key" "Vec_elems (tm_elems m)"]
    by (cases "index_of (\<lambda>entry. fst entry = key) (Vec_elems (tm_elems m))") (auto simp: Exists_def)
  have wf: "vec_wf k (tm_elems m)" using assms(2) by (simp add: map_wf_def)
  have "Vec_elems (tm_elems (Map_Remove k keep_scalars m key)) = Vec_elems (tm_elems m)"
    using i index_of_Some [OF i] Vec_store_elems [OF wf] by (simp add: Map_Remove_def keep_scalars_def)
  moreover from this have "Exists (Map_Remove k keep_scalars m key) key" using assms(1) by (simp add: Exists_def)
  ultimately show ?thesis using i by (simp add: Map_Remove_def)
qed

end
