(* ===== verification/Modules.thy ===== *)
theory Modules
  imports Strings Lists
begin

text \<open>
  Loaded modules and their address ranges: \<^verbatim>\<open>os/module.cc\<close> and \<^verbatim>\<open>os/module.h\<close>. A module's
  ranges are a singly linked list that the module owns; it is a list here, edited the way the
  zipper of \<^verbatim>\<open>list.h\<close> edits it (theory Lists). Addresses and offsets have 64 bits. The
  operating system's scan for built-in modules, \<^verbatim>\<open>ReRegisterAllBuiltIn\<close>, is a parameter.
\<close>

section \<open>Address ranges\<close>

record address_range =
  begin_addr :: u64
  end_addr :: u64
  begin_offset :: u64
  end_offset :: u64
  perms :: u32

definition ModuleAddressRange :: "u64 \<Rightarrow> u64 \<Rightarrow> u64 \<Rightarrow> u32 \<Rightarrow> address_range" where
  "ModuleAddressRange b e off p =
     \<lparr>begin_addr = b, end_addr = e, begin_offset = off, end_offset = off + (e - b), perms = p\<rparr>"

fun FindRange :: "address_range list \<Rightarrow> u64 \<Rightarrow> address_range option" where
  "FindRange [] addr = None"
| "FindRange (rng # ranges) addr =
     (if begin_addr rng \<le> addr \<and> addr < end_addr rng then Some rng
      else if begin_addr rng > addr then None
      else FindRange ranges addr)"

text \<open>\<^verbatim>\<open>RemoveRangeConflicts\<close>: the zipper loop. An \<^verbatim>\<open>InsertAfter\<close> leaves the new range as the only
  successor of the current one.\<close>

fun RemoveRangeConflicts :: "u64 \<Rightarrow> u64 \<Rightarrow> address_range list \<Rightarrow> address_range list \<times> bool" where
  "RemoveRangeConflicts b e [] = ([], False)"
| "RemoveRangeConflicts b e (cur # rest) =
     (if begin_addr cur < e \<and> end_addr cur > b then
        if begin_addr cur < b then
          let rest' = (if e < end_addr cur
                       then [ModuleAddressRange e (end_addr cur)
                               (begin_offset cur + (e - begin_addr cur)) (perms cur)]
                       else rest);
              cur' = cur\<lparr>end_offset := end_offset cur - (end_addr cur - b), end_addr := b\<rparr>
          in if e < end_addr cur
             then (cur' # rest', True)
             else (cur' # fst (RemoveRangeConflicts b e rest), True)
        else if e < end_addr cur then
          (cur\<lparr>begin_offset := begin_offset cur + (e - begin_addr cur), begin_addr := e\<rparr> #
             fst (RemoveRangeConflicts b e rest), True)
        else (fst (RemoveRangeConflicts b e rest), True)
      else if e < begin_addr cur then (cur # rest, False)
      else let (rest', ret) = RemoveRangeConflicts b e rest in (cur # rest', ret))"

fun AddRangeNoConflict :: "address_range \<Rightarrow> address_range list \<Rightarrow> address_range list" where
  "AddRangeNoConflict rng [] = [rng]"
| "AddRangeNoConflict rng (cur # rest) =
     (if begin_addr rng < begin_addr cur then rng # cur # rest
      else cur # AddRangeNoConflict rng rest)"

section \<open>Modules\<close>

definition kMaxModulePathLength :: nat where
  "kMaxModulePathLength = 256"

text \<open>The part of a path after the last slash, then up to a period or a dash.\<close>

fun after_last_slash :: "string \<Rightarrow> string \<Rightarrow> string" where
  "after_last_slash [] name = name"
| "after_last_slash (c # path) name = after_last_slash path (if c = CHR ''/'' then path else name)"

definition PathToName :: "string \<Rightarrow> string" where
  "PathToName path = takeWhile (\<lambda>ch. ch \<noteq> CHR ''.'' \<and> ch \<noteq> CHR ''-'') (after_last_slash path path)"

record module =
  m_id :: nat               \<comment> \<open>the address of the object\<close>
  m_path :: string
  m_name :: string
  m_ranges :: "address_range list"

definition Module_new :: "nat \<Rightarrow> string \<Rightarrow> module option" where
  "Module_new this raw_path =
     (case CopyString (Some (replicate kMaxModulePathLength NUL)) (Some raw_path) of
        Some (Some buffer, _) \<Rightarrow>
          let path = takeWhile (\<lambda>c. c \<noteq> NUL) buffer
          in Some \<lparr>m_id = this, m_path = path, m_name = PathToName path, m_ranges = []\<rparr>
      | _ \<Rightarrow> None)"

definition OffsetOfPC :: "module \<Rightarrow> u64 \<Rightarrow> (nat \<times> u64) option" where
  "OffsetOfPC m pc =
     (case FindRange (m_ranges m) pc of
        None \<Rightarrow> None
      | Some rng \<Rightarrow> Some (m_id m, begin_offset rng + (pc - begin_addr rng)))"

definition Module_Contains :: "module \<Rightarrow> u64 \<Rightarrow> bool" where
  "Module_Contains m pc \<longleftrightarrow> FindRange (m_ranges m) pc \<noteq> None"

definition AddRange_range :: "module \<Rightarrow> address_range \<Rightarrow> module" where
  "AddRange_range m rng =
     m\<lparr>m_ranges := AddRangeNoConflict rng
         (fst (RemoveRangeConflicts (begin_addr rng) (end_addr rng) (m_ranges m)))\<rparr>"

text \<open>The public \<^verbatim>\<open>AddRange\<close> swaps its bounds until the first is below the second.\<close>

partial_function (option) AddRange :: "module \<Rightarrow> u64 \<Rightarrow> u64 \<Rightarrow> u64 \<Rightarrow> u32 \<Rightarrow> module option" where
  "AddRange m b e off p =
     (if b < e then Some (AddRange_range m (ModuleAddressRange b e off p))
      else AddRange m e b off p)"

definition Module_RemoveRange :: "module \<Rightarrow> u64 \<Rightarrow> u64 \<Rightarrow> module \<times> bool" where
  "Module_RemoveRange m b e =
     (let (rs, ret) = RemoveRangeConflicts b e (m_ranges m) in (m\<lparr>m_ranges := rs\<rparr>, ret))"

definition RemoveRanges :: "module \<Rightarrow> module" where
  "RemoveRanges m = m\<lparr>m_ranges := []\<rparr>"

section \<open>The module manager\<close>

record module_manager =
  mm_modules :: "module list"

definition ModuleManager_new :: module_manager where
  "ModuleManager_new = \<lparr>mm_modules = []\<rparr>"

text \<open>Two attempts, with a re-scan of the built-in modules in between (and none after the second).\<close>

definition FindByAppPC ::
  "(module_manager \<Rightarrow> module_manager) \<Rightarrow> module_manager \<Rightarrow> u64 \<Rightarrow> module_manager \<times> module option" where
  "FindByAppPC ReRegisterAllBuiltIn mm pc =
     (case find (\<lambda>m. Module_Contains m pc) (mm_modules mm) of
        Some m \<Rightarrow> (mm, Some m)
      | None \<Rightarrow>
          let mm' = ReRegisterAllBuiltIn mm
          in (mm', find (\<lambda>m. Module_Contains m pc) (mm_modules mm')))"

fun find_offset :: "module list \<Rightarrow> u64 \<Rightarrow> (nat \<times> u64) option" where
  "find_offset [] pc = None"
| "find_offset (m # ms) pc = (case OffsetOfPC m pc of Some off \<Rightarrow> Some off | None \<Rightarrow> find_offset ms pc)"

definition FindOffsetOfPC ::
  "(module_manager \<Rightarrow> module_manager) \<Rightarrow> module_manager \<Rightarrow> u64 \<Rightarrow> module_manager \<times> (nat \<times> u64) option" where
  "FindOffsetOfPC ReRegisterAllBuiltIn mm pc =
     (case find_offset (mm_modules mm) pc of
        Some off \<Rightarrow> (mm, Some off)
      | None \<Rightarrow> let mm' = ReRegisterAllBuiltIn mm in (mm', find_offset (mm_modules mm') pc))"

definition FindByPath :: "module_manager \<Rightarrow> string \<Rightarrow> module option" where
  "FindByPath mm path = find (\<lambda>m. StringsMatch (m_path m) path) (mm_modules mm)"

definition FindByName :: "module_manager \<Rightarrow> string \<Rightarrow> module option" where
  "FindByName mm name = find (\<lambda>m. StringsMatch (m_name m) name) (mm_modules mm)"

definition Register :: "module_manager \<Rightarrow> module \<Rightarrow> module_manager" where
  "Register mm m = mm\<lparr>mm_modules := m # mm_modules mm\<rparr>"

definition Manager_RemoveRange :: "module_manager \<Rightarrow> u64 \<Rightarrow> u64 \<Rightarrow> module_manager \<times> bool" where
  "Manager_RemoveRange mm b e =
     (let res = map (\<lambda>m. Module_RemoveRange m b e) (mm_modules mm)
      in (mm\<lparr>mm_modules := map fst res\<rparr>, list_ex snd res))"

section \<open>The range list\<close>

text \<open>The invariant stated in the code: ranges are not empty, sorted and disjoint.\<close>

fun ranges_ok :: "address_range list \<Rightarrow> bool" where
  "ranges_ok [] \<longleftrightarrow> True"
| "ranges_ok (r # rs) \<longleftrightarrow>
     begin_addr r < end_addr r \<and> (\<forall>r' \<in> set rs. end_addr r \<le> begin_addr r') \<and> ranges_ok rs"

text \<open>The module offset of an address: what \<^verbatim>\<open>OffsetOfPC\<close> computes from the range list.\<close>

definition offset_in :: "address_range list \<Rightarrow> u64 \<Rightarrow> u64 option" where
  "offset_in rs a = map_option (\<lambda>r. begin_offset r + (a - begin_addr r)) (FindRange rs a)"

lemma OffsetOfPC_offset_in: "OffsetOfPC m pc = map_option (Pair (m_id m)) (offset_in (m_ranges m) pc)"
  by (simp add: OffsetOfPC_def offset_in_def split: option.splits)

lemma offset_in_Nil [simp]: "offset_in [] a = None"
  by (simp add: offset_in_def)

lemma offset_in_Cons [simp]:
  "offset_in (r # rs) a =
     (if begin_addr r \<le> a \<and> a < end_addr r then Some (begin_offset r + (a - begin_addr r))
      else if a < begin_addr r then None else offset_in rs a)"
  by (simp add: offset_in_def)

lemma offset_in_below: "ranges_ok rs \<Longrightarrow> \<forall>r \<in> set rs. a < begin_addr r \<Longrightarrow> offset_in rs a = None"
  by (cases rs) auto

text \<open>A range that reaches beyond both ends of the removed interval is split; this is sound only
  at the end of the list.\<close>

fun splits_last_only :: "u64 \<Rightarrow> u64 \<Rightarrow> address_range list \<Rightarrow> bool" where
  "splits_last_only b e [] \<longleftrightarrow> True"
| "splits_last_only b e (r # rs) \<longleftrightarrow> (begin_addr r < b \<and> e < end_addr r \<longrightarrow> rs = []) \<and> splits_last_only b e rs"

lemma RemoveRangeConflicts_bounds:
  "b < e \<Longrightarrow> ranges_ok rs \<Longrightarrow> \<forall>r \<in> set rs. x \<le> begin_addr r \<Longrightarrow>
   \<forall>r \<in> set (fst (RemoveRangeConflicts b e rs)). x \<le> begin_addr r"
proof (induction rs)
  case (Cons r rs)
  then have "\<forall>r \<in> set (fst (RemoveRangeConflicts b e rs)). x \<le> begin_addr r" by simp
  then show ?case
    using Cons.prems by (auto simp: Let_def ModuleAddressRange_def split: if_splits prod.splits)
qed simp

text \<open>What the loop does at one element, as the four ways a range can meet the interval.\<close>

lemma RemoveRangeConflicts_steps:
  assumes "b < e" "begin_addr r < end_addr r"
  shows "end_addr r \<le> b \<or> e = begin_addr r \<Longrightarrow>
      fst (RemoveRangeConflicts b e (r # rs)) = r # fst (RemoveRangeConflicts b e rs)"
    and "e < begin_addr r \<Longrightarrow> fst (RemoveRangeConflicts b e (r # rs)) = r # rs"
    and "begin_addr r < b \<Longrightarrow> b < end_addr r \<Longrightarrow> end_addr r \<le> e \<Longrightarrow>
      fst (RemoveRangeConflicts b e (r # rs)) =
        r\<lparr>end_offset := end_offset r - (end_addr r - b), end_addr := b\<rparr> # fst (RemoveRangeConflicts b e rs)"
    and "begin_addr r < b \<Longrightarrow> e < end_addr r \<Longrightarrow>
      fst (RemoveRangeConflicts b e (r # rs)) =
        [r\<lparr>end_offset := end_offset r - (end_addr r - b), end_addr := b\<rparr>,
         ModuleAddressRange e (end_addr r) (begin_offset r + (e - begin_addr r)) (perms r)]"
    and "b \<le> begin_addr r \<Longrightarrow> begin_addr r < e \<Longrightarrow> e < end_addr r \<Longrightarrow>
      fst (RemoveRangeConflicts b e (r # rs)) =
        r\<lparr>begin_offset := begin_offset r + (e - begin_addr r), begin_addr := e\<rparr> # fst (RemoveRangeConflicts b e rs)"
    and "b \<le> begin_addr r \<Longrightarrow> end_addr r \<le> e \<Longrightarrow>
      fst (RemoveRangeConflicts b e (r # rs)) = fst (RemoveRangeConflicts b e rs)"
  using assms by (auto simp: Let_def case_prod_beta)

definition removed_ok :: "u64 \<Rightarrow> u64 \<Rightarrow> address_range list \<Rightarrow> address_range list \<Rightarrow> bool" where
  "removed_ok b e rs rs' \<longleftrightarrow>
     ranges_ok rs' \<and> (\<forall>a. offset_in rs' a = (if b \<le> a \<and> a < e then None else offset_in rs a)) \<and>
     (\<forall>r \<in> set rs'. end_addr r \<le> b \<or> e \<le> begin_addr r)"

lemma offset_shift: "(off :: u64) + (e - b) + (a - e) = off + (a - b)"
  by (simp add: algebra_simps)

lemma RemoveRangeConflicts_correct:
  "b < e \<Longrightarrow> ranges_ok rs \<Longrightarrow> splits_last_only b e rs \<Longrightarrow> removed_ok b e rs (fst (RemoveRangeConflicts b e rs))"
proof (induction rs)
  case Nil
  then show ?case by (simp add: removed_ok_def)
next
  case (Cons r rs)
  let ?rs = "fst (RemoveRangeConflicts b e rs)"
  have be: "b < e" and r: "begin_addr r < end_addr r" and ok: "ranges_ok rs"
    and above: "\<forall>r' \<in> set rs. end_addr r \<le> begin_addr r'" using Cons.prems by auto
  have IH: "removed_ok b e rs ?rs" using Cons by simp
  have above': "\<forall>r' \<in> set ?rs. end_addr r \<le> begin_addr r'"
    using RemoveRangeConflicts_bounds [OF be ok above] .
  have below: "x < end_addr r \<Longrightarrow> offset_in rs x = None" for x
    using offset_in_below [OF ok] above by (meson order_less_le_trans)
  note st = RemoveRangeConflicts_steps [OF be r, of rs]
  consider "end_addr r \<le> b \<or> e = begin_addr r" | "e < begin_addr r"
    | "begin_addr r < b" "b < end_addr r" "end_addr r \<le> e" | "begin_addr r < b" "e < end_addr r"
    | "b \<le> begin_addr r" "begin_addr r < e" "e < end_addr r" | "b \<le> begin_addr r" "end_addr r \<le> e"
    by (metis linorder_not_less order_le_less)
  then show ?case
  proof cases
    case 1
    then show ?thesis
      unfolding st(1) [OF 1] using IH r be above' below by (auto simp: removed_ok_def)
  next
    case 2
    then show ?thesis
      unfolding st(2) [OF 2] using r be ok above below by (fastforce simp: removed_ok_def)
  next
    case 3
    then show ?thesis
      unfolding st(3) [OF 3] using IH r be above' below by (fastforce simp: removed_ok_def)
  next
    case 4
    then have "rs = []" using Cons.prems(3) by simp
    with 4 show ?thesis
      unfolding st(4) [OF 4] using r be
      by (auto simp: removed_ok_def ModuleAddressRange_def offset_shift)
  next
    case 5
    then show ?thesis
      unfolding st(5) [OF 5] using IH r be above' below
      by (fastforce simp: removed_ok_def offset_shift)
  next
    case 6
    then show ?thesis
      unfolding st(6) [OF 6] using IH r be above' below by (fastforce simp: removed_ok_def)
  qed
qed

lemma AddRangeNoConflict_set: "set (AddRangeNoConflict r rs) = insert r (set rs)"
  by (induction rs) auto

lemma AddRangeNoConflict_correct:
  assumes "begin_addr n < end_addr n" "ranges_ok rs"
    and "\<forall>r \<in> set rs. end_addr r \<le> begin_addr n \<or> end_addr n \<le> begin_addr r"
  shows "ranges_ok (AddRangeNoConflict n rs) \<and>
    offset_in (AddRangeNoConflict n rs) a =
      (if begin_addr n \<le> a \<and> a < end_addr n then Some (begin_offset n + (a - begin_addr n)) else offset_in rs a)"
  using assms
proof (induction rs)
  case (Cons r rs)
  then have IH: "ranges_ok (AddRangeNoConflict n rs)"
    "offset_in (AddRangeNoConflict n rs) a =
      (if begin_addr n \<le> a \<and> a < end_addr n then Some (begin_offset n + (a - begin_addr n)) else offset_in rs a)"
    by auto
  show ?case
  proof (cases "begin_addr n < begin_addr r")
    case True
    then have "end_addr n \<le> begin_addr r" using Cons.prems by fastforce
    moreover have "\<forall>r' \<in> set rs. end_addr n \<le> begin_addr r'"
      using calculation Cons.prems(2) by fastforce
    ultimately show ?thesis
      using True Cons.prems by auto
  next
    case False
    then have "end_addr r \<le> begin_addr n" using Cons.prems by fastforce
    then show ?thesis
      using False IH Cons.prems(1,2) by (auto simp: AddRangeNoConflict_set)
  qed
qed simp

lemma AddRange_terminates:
  "b < e \<Longrightarrow> AddRange m b e off p = Some (AddRange_range m (ModuleAddressRange b e off p))"
  "e < b \<Longrightarrow> AddRange m b e off p = Some (AddRange_range m (ModuleAddressRange e b off p))"
proof -
  show *: "b < e \<Longrightarrow> AddRange m b e off p = Some (AddRange_range m (ModuleAddressRange b e off p))" for b e
    by (simp add: AddRange.simps [of m b e])
  show "e < b \<Longrightarrow> AddRange m b e off p = Some (AddRange_range m (ModuleAddressRange e b off p))"
    using * [of e b] by (simp add: AddRange.simps [of m b e])
qed

text \<open>C26. Adding an address range to a module whose existing ranges it does not split, the last one
  excepted, returns for two different bounds, given in either order, and keeps the range list
  sorted and free of overlaps. Afterwards every address in the new range maps to its offset in it, and every
  other address to the offset it had before. A range that is not the last one and extends beyond both ends of the
  new range is excluded, as its upper part is lost.\<close>

theorem AddRange_offsets:
  assumes "ranges_ok (m_ranges m)" "b < e" "splits_last_only b e (m_ranges m)"
    and "(x, y) = (b, e) \<or> (x, y) = (e, b)"
  shows "\<exists>m'. AddRange m x y off p = Some m' \<and> ranges_ok (m_ranges m') \<and>
    (\<forall>pc. OffsetOfPC m' pc = (if b \<le> pc \<and> pc < e then Some (m_id m, off + (pc - b)) else OffsetOfPC m pc)) \<and>
    (\<forall>pc. Module_Contains m' pc \<longleftrightarrow> b \<le> pc \<and> pc < e \<or> Module_Contains m pc)"
proof -
  let ?r = "ModuleAddressRange b e off p"
  let ?rs = "fst (RemoveRangeConflicts b e (m_ranges m))"
  have rm: "removed_ok b e (m_ranges m) ?rs"
    by (rule RemoveRangeConflicts_correct [OF assms(2,1,3)])
  have add: "AddRange m x y off p = Some (m\<lparr>m_ranges := AddRangeNoConflict ?r ?rs\<rparr>)"
    using AddRange_terminates [of b e m off p] AddRange_terminates(2) [of b e m off p] assms(2,4)
    by (auto simp: AddRange_range_def ModuleAddressRange_def)
  have ins: "ranges_ok (AddRangeNoConflict ?r ?rs) \<and>
      offset_in (AddRangeNoConflict ?r ?rs) pc =
        (if b \<le> pc \<and> pc < e then Some (off + (pc - b)) else offset_in (m_ranges m) pc)" for pc
    using AddRangeNoConflict_correct [of ?r ?rs pc] rm assms(2)
    by (auto simp: removed_ok_def ModuleAddressRange_def)
  have cont: "Module_Contains m' pc \<longleftrightarrow> offset_in (m_ranges m') pc \<noteq> None" for m' pc
    by (simp add: Module_Contains_def offset_in_def)
  show ?thesis
    using add ins by (auto simp: OffsetOfPC_offset_in cont)
qed

definition sample_module :: module where
  "sample_module = \<lparr>m_id = 1, m_path = ''/lib/libc.so'', m_name = ''libc'',
     m_ranges = [ModuleAddressRange 0x1000 0x2000 0 5, ModuleAddressRange 0x4000 0x8000 0x1000 5]\<rparr>"

theorem AddRange_offsets_witness:
  "\<exists>m'. AddRange sample_module 0x6000 0x5000 0x77 3 = Some m' \<and>
     OffsetOfPC m' 0x5001 = Some (1, 0x78) \<and> OffsetOfPC m' 0x6001 = Some (1, 0x3001) \<and>
     OffsetOfPC m' 0x1001 = Some (1, 1)"
proof -
  have "\<exists>m'. AddRange sample_module 0x6000 0x5000 0x77 3 = Some m' \<and> ranges_ok (m_ranges m') \<and>
    (\<forall>pc. OffsetOfPC m' pc = (if 0x5000 \<le> pc \<and> pc < 0x6000 then Some (m_id sample_module, 0x77 + (pc - 0x5000))
        else OffsetOfPC sample_module pc)) \<and>
    (\<forall>pc. Module_Contains m' pc \<longleftrightarrow> 0x5000 \<le> pc \<and> pc < 0x6000 \<or> Module_Contains sample_module pc)"
    by (rule AddRange_offsets) (simp_all add: sample_module_def ModuleAddressRange_def)
  then show ?thesis
    by (auto simp: sample_module_def OffsetOfPC_def ModuleAddressRange_def)
qed

text \<open>C34. What the previous theorem excludes is real. Removing an interval strictly inside a range
  that is not the last one loses every later range of the module; and adding a range with equal
  bounds never returns.\<close>

theorem RemoveRange_split_loses_tail:
  assumes "begin_addr r < b" "b < e" "e < end_addr r" "end_addr r \<le> a"
  shows "offset_in (fst (RemoveRangeConflicts b e (r # rs))) a = None \<and> AddRange m c c off p = None"
proof
  show "offset_in (fst (RemoveRangeConflicts b e (r # rs))) a = None"
    using assms by (auto simp: ModuleAddressRange_def)
  have "AddRange m x y off p = Some m' \<Longrightarrow> x \<noteq> y" for x y m'
    by (rule AddRange.raw_induct [where P = "\<lambda>m x y off p m'. x \<noteq> y"]) (auto split: if_splits, blast)
  then show "AddRange m c c off p = None" by (cases "AddRange m c c off p") auto
qed

theorem RemoveRange_split_loses_tail_witness:
  "OffsetOfPC (fst (Module_RemoveRange sample_module 0x1400 0x1800)) 0x4000 = None \<and>
   OffsetOfPC sample_module 0x4000 = Some (1, 0x1000)"
  using RemoveRange_split_loses_tail [where r = "ModuleAddressRange 0x1000 0x2000 0 5" and b = "0x1400" and
      e = "0x1800" and a = "0x4000" and rs = "[ModuleAddressRange 0x4000 0x8000 0x1000 5]"]
  by (simp add: OffsetOfPC_offset_in Module_RemoveRange_def case_prod_beta sample_module_def ModuleAddressRange_def)

lemma find_SomeD: "find P xs = Some x \<Longrightarrow> x \<in> set xs \<and> P x"
  by (induction xs) (auto split: if_splits)

text \<open>Finding the module of a program counter gives the first registered module that contains
  it; when there is none the built-in modules are registered again once and the search
  repeated, and only if that fails too is the result null. The offset search agrees with it:
  it finds an offset in exactly that module.\<close>

theorem FindByAppPC_correct:
  assumes "FindByAppPC rereg mm pc = (mm', res)"
  shows "(case res of
            Some m \<Rightarrow> m \<in> set (mm_modules mm') \<and> Module_Contains m pc
          | None \<Rightarrow> mm' = rereg mm \<and> (\<forall>m \<in> set (mm_modules mm) \<union> set (mm_modules mm'). \<not> Module_Contains m pc)) \<and>
    (mm' = mm \<or> (\<forall>m \<in> set (mm_modules mm). \<not> Module_Contains m pc) \<and> mm' = rereg mm) \<and>
    FindOffsetOfPC rereg mm pc = (mm', Option.bind res (\<lambda>m. OffsetOfPC m pc))"
proof -
  have off: "find_offset ms pc = Option.bind (find (\<lambda>m. Module_Contains m pc) ms) (\<lambda>m. OffsetOfPC m pc)" for ms
    by (induction ms) (auto simp: OffsetOfPC_def Module_Contains_def split: option.splits)
  have ne: "Module_Contains m pc \<longleftrightarrow> OffsetOfPC m pc \<noteq> None" for m
    by (simp add: OffsetOfPC_def Module_Contains_def split: option.splits)
  show ?thesis
  proof (cases "find (\<lambda>m. Module_Contains m pc) (mm_modules mm)")
    case (Some m)
    then have "mm' = mm" "res = Some m" using assms by (simp_all add: FindByAppPC_def)
    moreover obtain o' where "OffsetOfPC m pc = Some o'" using find_SomeD [OF Some] ne by auto
    ultimately show ?thesis using Some find_SomeD [OF Some] by (simp add: FindOffsetOfPC_def off)
  next
    case None
    then have mm': "mm' = rereg mm" "res = find (\<lambda>m. Module_Contains m pc) (mm_modules (rereg mm))"
      using assms by (auto simp: FindByAppPC_def Let_def)
    have no: "\<forall>m \<in> set (mm_modules mm). \<not> Module_Contains m pc" using None by (auto simp: find_None_iff)
    have "FindOffsetOfPC rereg mm pc = (mm', Option.bind res (\<lambda>m. OffsetOfPC m pc))"
      using None mm' by (simp add: FindOffsetOfPC_def off Let_def)
    moreover have "case res of
        Some m \<Rightarrow> m \<in> set (mm_modules mm') \<and> Module_Contains m pc
      | None \<Rightarrow> mm' = rereg mm \<and> (\<forall>m \<in> set (mm_modules mm) \<union> set (mm_modules mm'). \<not> Module_Contains m pc)"
    proof (cases res)
      case None
      then have "\<forall>m \<in> set (mm_modules mm'). \<not> Module_Contains m pc" using mm' by (auto simp: find_None_iff)
      then show ?thesis using None no mm'(1) by auto
    next
      case (Some m)
      then have "m \<in> set (mm_modules mm') \<and> Module_Contains m pc"
        using find_SomeD [of "\<lambda>m. Module_Contains m pc" "mm_modules mm'" m] mm' by simp
      then show ?thesis by (simp add: Some)
    qed
    ultimately show ?thesis using no mm'(1) by blast
  qed
qed

theorem FindByAppPC_correct_witness:
  "FindOffsetOfPC (\<lambda>mm. Register mm sample_module) ModuleManager_new 0x1004 =
     (Register ModuleManager_new sample_module, Some (1, 4))"
proof -
  have "FindByAppPC (\<lambda>mm. Register mm sample_module) ModuleManager_new 0x1004 =
      (Register ModuleManager_new sample_module, Some sample_module)"
    by (simp add: FindByAppPC_def Register_def ModuleManager_new_def Module_Contains_def sample_module_def
        ModuleAddressRange_def)
  from FindByAppPC_correct [OF this] show ?thesis
    by (simp add: OffsetOfPC_def sample_module_def ModuleAddressRange_def)
qed

end
