(* ===== verification/Pages.thy ===== *)
theory Pages
  imports Prelude
begin

text \<open>
  The page allocator of \<^verbatim>\<open>os/memory.h\<close> and \<^verbatim>\<open>os/memory.cc\<close>. A heap of \<^verbatim>\<open>kNumPages\<close> pages is
  handed out by a bump counter; once that is used up, freed pages are found by a first-fit
  search in a bit set of 64-bit slots. A page is its index in the heap, and the address of
  page \<open>p\<close> is \<open>heap + 4096 * p\<close>; a null pointer is \<open>None\<close>. The calls are atomic with respect to
  each other: the counter is an atomic word and the bit set is only used under its spin lock.
\<close>

unbundle bit_operations_syntax

section \<open>Model\<close>

definition kNumBitsPerFreeSetSlot :: nat where
  "kNumBitsPerFreeSetSlot = 64"

definition kNumSlotsInFreeSet :: "nat \<Rightarrow> nat" where
  "kNumSlotsInFreeSet kNumPages = kNumPages div kNumBitsPerFreeSetSlot + 1"

record page_allocator =
  free_pages :: "u64 list"
  num_allocated_pages :: u64
  heap :: nat

definition PageAllocator :: "nat \<Rightarrow> nat \<Rightarrow> page_allocator" where
  "PageAllocator kNumPages heap_addr =
     \<lparr>free_pages = replicate (kNumSlotsInFreeSet kNumPages) 0, num_allocated_pages = 0, heap = heap_addr\<rparr>"

definition page_addr :: "page_allocator \<Rightarrow> nat \<Rightarrow> nat" where
  "page_addr pa page = heap pa + PAGE_SIZE_BYTES * page"

definition EndAddress :: "nat \<Rightarrow> page_allocator \<Rightarrow> nat" where
  "EndAddress kNumPages pa = page_addr pa kNumPages"

text \<open>The inner loop of \<^verbatim>\<open>AllocatePagesSlow\<close> over the bits of one slot, from \<open>bt\<close> on, with the
  first set bit of the current run (64 for none): the run found.\<close>

function scan_slot :: "u64 \<Rightarrow> nat \<Rightarrow> nat \<Rightarrow> nat \<Rightarrow> nat option" where
  "scan_slot w num bt first_set_bit =
     (if bt < 64 then
        if bit w bt then scan_slot w num (Suc bt) (if bt < first_set_bit then bt else first_set_bit)
        else if first_set_bit < bt then
          if num \<le> bt - first_set_bit then Some first_set_bit else scan_slot w num (Suc bt) 64
        else scan_slot w num (Suc bt) first_set_bit
      else if num \<le> 64 - first_set_bit then Some first_set_bit else None)"
  by pat_completeness auto
termination by (relation "measure (\<lambda>(w, num, bt, first_set_bit). 64 - bt)") auto

declare scan_slot.simps [simp del]

fun scan_slots :: "u64 list \<Rightarrow> nat \<Rightarrow> nat \<Rightarrow> (nat \<times> nat) option" where
  "scan_slots [] num i = None"
| "scan_slots (w # ws) num i =
     (if w = 0 then scan_slots ws num (Suc i)
      else case scan_slot w num 0 64 of
             Some first_set_bit \<Rightarrow> Some (i, first_set_bit)
           | None \<Rightarrow> scan_slots ws num (Suc i))"

text \<open>Clearing the bits of the run.\<close>

fun clear_run :: "u64 \<Rightarrow> nat \<Rightarrow> nat \<Rightarrow> u64" where
  "clear_run w first_set_bit 0 = w"
| "clear_run w first_set_bit (Suc num) = clear_run (w AND NOT (push_bit first_set_bit 1)) (Suc first_set_bit) num"

definition AllocatePagesSlow :: "page_allocator \<Rightarrow> nat \<Rightarrow> page_allocator \<times> nat option" where
  "AllocatePagesSlow pa num =
     (case scan_slots (free_pages pa) num 0 of
        None \<Rightarrow> (pa, None)
      | Some (i, first_set_bit) \<Rightarrow>
          (pa\<lparr>free_pages := (free_pages pa)[i := clear_run (free_pages pa ! i) first_set_bit num]\<rparr>,
           Some (first_set_bit + i * kNumBitsPerFreeSetSlot)))"

definition FreePage :: "page_allocator \<Rightarrow> nat \<Rightarrow> page_allocator" where
  "FreePage pa addr =
     (let page = (addr - heap pa) div PAGE_SIZE_BYTES;
          slot = page div kNumBitsPerFreeSetSlot;
          bt = page mod kNumBitsPerFreeSetSlot
      in pa\<lparr>free_pages := (free_pages pa)[slot := free_pages pa ! slot OR push_bit bt 1]\<rparr>)"

text \<open>\<^verbatim>\<open>num_allocated_pages\<close> is an atomic \<^verbatim>\<open>size_t\<close>: \<^verbatim>\<open>fetch_add\<close> and the sum that is compared with
  the number of pages wrap around at 64 bits, and a request that fails or is served from the free
  set advances the counter as well.\<close>

definition AllocatePages :: "nat \<Rightarrow> page_allocator \<Rightarrow> nat \<Rightarrow> page_allocator \<times> nat option" where
  "AllocatePages kNumPages pa num =
     (let index = num_allocated_pages pa;
          after = index + of_nat num;
          pa1 = pa\<lparr>num_allocated_pages := after\<rparr>
      in if kNumPages > unat after then (pa1, Some (unat index)) else AllocatePagesSlow pa1 num)"

definition FreePages :: "page_allocator \<Rightarrow> nat \<Rightarrow> nat \<Rightarrow> page_allocator" where
  "FreePages pa addr num = fold (\<lambda>i pa. FreePage pa (addr + i * PAGE_SIZE_BYTES)) [0..<num] pa"

text \<open>The two static heaps and the symbols that tell where they are.\<close>

record memory =
  gBlockMemory :: page_allocator
  gHeapMemory :: page_allocator
  granary_code_cache_begin :: "nat option"
  granary_code_cache_end :: "nat option"
  granary_heap_begin :: "nat option"
  granary_heap_end :: "nat option"

definition kCodeCacheNumPages :: nat where
  "kCodeCacheNumPages = 40960"

definition kHeapNumPages :: nat where
  "kHeapNumPages = 40960"

text \<open>The static initialisers, with the addresses of the two arrays of pages.\<close>

definition static_memory :: "nat \<Rightarrow> nat \<Rightarrow> memory" where
  "static_memory block_pages heap_pages =
     \<lparr>gBlockMemory = PageAllocator kCodeCacheNumPages block_pages,
      gHeapMemory = PageAllocator kHeapNumPages heap_pages,
      granary_code_cache_begin = None, granary_code_cache_end = None,
      granary_heap_begin = None, granary_heap_end = None\<rparr>"

definition InitHeap :: "memory \<Rightarrow> memory" where
  "InitHeap g = g\<lparr>granary_code_cache_begin := Some (page_addr (gBlockMemory g) 0),
     granary_code_cache_end := Some (EndAddress kCodeCacheNumPages (gBlockMemory g)),
     granary_heap_begin := Some (page_addr (gHeapMemory g) 0),
     granary_heap_end := Some (EndAddress kHeapNumPages (gHeapMemory g))\<rparr>"

text \<open>The arrays of pages are static, so the allocators built anew have the same addresses.\<close>

definition ExitHeap :: "memory \<Rightarrow> memory" where
  "ExitHeap g = static_memory (heap (gBlockMemory g)) (heap (gHeapMemory g))"

definition AllocateDataPages :: "memory \<Rightarrow> nat \<Rightarrow> memory \<times> nat option" where
  "AllocateDataPages g num =
     (let (pa, p) = AllocatePages kHeapNumPages (gHeapMemory g) num
      in (g\<lparr>gHeapMemory := pa\<rparr>, map_option (page_addr (gHeapMemory g)) p))"

definition FreeDataPages :: "memory \<Rightarrow> nat \<Rightarrow> nat \<Rightarrow> memory" where
  "FreeDataPages g addr num = g\<lparr>gHeapMemory := FreePages (gHeapMemory g) addr num\<rparr>"

definition AllocateCodePages :: "memory \<Rightarrow> nat \<Rightarrow> memory \<times> nat option" where
  "AllocateCodePages g num =
     (let (pa, p) = AllocatePages kCodeCacheNumPages (gBlockMemory g) num
      in (g\<lparr>gBlockMemory := pa\<rparr>, map_option (page_addr (gBlockMemory g)) p))"

definition FreeCodePages :: "memory \<Rightarrow> nat \<Rightarrow> nat \<Rightarrow> memory" where
  "FreeCodePages g addr num = g\<lparr>gBlockMemory := FreePages (gBlockMemory g) addr num\<rparr>"

section \<open>The first-fit search\<close>

text \<open>What the search is after: a run of set bits.\<close>

definition run_at :: "u64 \<Rightarrow> nat \<Rightarrow> nat \<Rightarrow> bool" where
  "run_at w f num \<longleftrightarrow> f + num \<le> 64 \<and> (\<forall>j < num. bit w (f + j))"

text \<open>The loop invariant: either no run is open, or the bits since its first one are all set, and
  the bit before it is not.\<close>

definition run_open :: "u64 \<Rightarrow> nat \<Rightarrow> nat \<Rightarrow> bool" where
  "run_open w bt f \<longleftrightarrow> f = 64 \<or> f < bt \<and> (\<forall>j. f \<le> j \<and> j < bt \<longrightarrow> bit w j)"

lemma scan_slot_sound:
  "scan_slot w num bt f = Some g \<Longrightarrow> bt \<le> 64 \<Longrightarrow> run_open w bt f \<Longrightarrow> 0 < num \<Longrightarrow> run_at w g num"
proof (induction w num bt f rule: scan_slot.induct)
  case (1 w num bt f)
  show ?case
  proof (cases "bt < 64")
    case False
    then have "bt = 64" using "1.prems" by simp
    then show ?thesis
      using "1.prems" by (subst (asm) scan_slot.simps) (auto simp: run_at_def run_open_def split: if_splits)
  next
    case lt: True
    show ?thesis
    proof (cases "bit w bt")
      case True
      have "run_open w (Suc bt) (if bt < f then bt else f)"
        using "1.prems"(3) True lt by (auto simp: run_open_def less_Suc_eq le_less_Suc_eq)
      then show ?thesis
        using "1.IH"(1) [OF lt True] "1.prems" lt True by (subst (asm) (2) scan_slot.simps) simp
    next
      case False
      show ?thesis
      proof (cases "f < bt")
        case True
        then have op: "f \<noteq> 64" "\<forall>j. f \<le> j \<and> j < bt \<longrightarrow> bit w j" using "1.prems"(3) lt by (auto simp: run_open_def)
        show ?thesis
        proof (cases "num \<le> bt - f")
          case fits: True
          then have "g = f" using "1.prems"(1) lt False True by (subst (asm) scan_slot.simps) simp
          then show ?thesis using fits op lt True by (auto simp: run_at_def)
        next
          case nofit: False
          then have "scan_slot w num (Suc bt) 64 = Some g"
            using "1.prems"(1) lt False True by (subst (asm) scan_slot.simps) simp
          then show ?thesis using "1.IH"(2) [OF lt False True nofit] lt "1.prems"(4) by (simp add: run_open_def)
        qed
      next
        case closed: False
        then have "f = 64" using "1.prems"(3) by (auto simp: run_open_def)
        then have "scan_slot w num (Suc bt) f = Some g"
          using "1.prems"(1) lt False closed by (subst (asm) scan_slot.simps) simp
        then show ?thesis
          using "1.IH"(3) [OF lt False closed] lt "1.prems"(4) \<open>f = 64\<close> by (simp add: run_open_def)
      qed
    qed
  qed
qed

lemma scan_slot_complete:
  "scan_slot w num bt f = None \<Longrightarrow> bt \<le> 64 \<Longrightarrow> run_open w bt f \<Longrightarrow> 0 < num \<Longrightarrow>
   (if f = 64 then bt else f) \<le> g \<Longrightarrow> \<not> run_at w g num"
proof (induction w num bt f rule: scan_slot.induct)
  case (1 w num bt f)
  show ?case
  proof (cases "bt < 64")
    case False
    then show ?thesis
      using "1.prems" by (subst (asm) scan_slot.simps) (auto simp: run_at_def run_open_def split: if_splits)
  next
    case lt: True
    show ?thesis
    proof (cases "bit w bt")
      case True
      have "run_open w (Suc bt) (if bt < f then bt else f)"
        using "1.prems"(3) True lt by (auto simp: run_open_def less_Suc_eq le_less_Suc_eq)
      moreover have "scan_slot w num (Suc bt) (if bt < f then bt else f) = None"
        using "1.prems"(1) lt True by (subst (asm) scan_slot.simps) simp
      ultimately show ?thesis
        using "1.IH"(1) [OF lt True] "1.prems"(3-5) lt by (auto simp: run_open_def split: if_splits)
    next
      case unset: False
      have skip: "run_at w g num \<Longrightarrow> g \<le> bt \<Longrightarrow> num \<le> bt - g"
        using unset by (auto simp: run_at_def) (metis add_diff_inverse_nat leI not_less)
      show ?thesis
      proof (cases "f < bt")
        case True
        then have nofit: "\<not> num \<le> bt - f" and rec: "scan_slot w num (Suc bt) 64 = None"
          using "1.prems"(1) lt unset by (subst (asm) scan_slot.simps; simp split: if_splits)+
        have "f \<noteq> 64" using True lt by simp
        then have "run_at w g num \<Longrightarrow> Suc bt \<le> g" using skip nofit "1.prems"(5) by (cases "g \<le> bt") auto
        then show ?thesis
          using "1.IH"(2) [OF lt unset True nofit rec] lt "1.prems"(4) by (auto simp: run_open_def)
      next
        case closed: False
        then have f: "f = 64" using "1.prems"(3) by (auto simp: run_open_def)
        have rec: "scan_slot w num (Suc bt) f = None"
          using "1.prems"(1) lt unset closed by (subst (asm) scan_slot.simps) simp
        have "run_at w g num \<Longrightarrow> Suc bt \<le> g" using skip "1.prems"(4,5) f by (cases "g \<le> bt") auto
        then show ?thesis
          using "1.IH"(3) [OF lt unset closed rec] lt "1.prems"(4) f by (auto simp: run_open_def)
      qed
    qed
  qed
qed

lemma scan_slots_sound:
  "scan_slots ws num i = Some (j, f) \<Longrightarrow> 0 < num \<Longrightarrow>
   i \<le> j \<and> j < i + length ws \<and> run_at (ws ! (j - i)) f num"
proof (induction ws arbitrary: i)
  case (Cons w ws)
  show ?case
  proof (cases "w = 0 \<or> scan_slot w num 0 64 = None")
    case True
    then have "scan_slots ws num (Suc i) = Some (j, f)" using Cons.prems by (auto split: if_splits)
    then have "Suc i \<le> j" "j < Suc i + length ws" "run_at (ws ! (j - Suc i)) f num"
      using Cons.IH Cons.prems(2) by blast+
    then show ?thesis by (simp add: nth_Cons')
  next
    case False
    then obtain g where g: "scan_slot w num 0 64 = Some g" by auto
    then show ?thesis
      using Cons.prems False scan_slot_sound [OF g] by (simp add: run_open_def)
  qed
qed simp

lemma scan_slots_complete:
  "scan_slots ws num i = None \<Longrightarrow> 0 < num \<Longrightarrow> w \<in> set ws \<Longrightarrow> \<not> run_at w f num"
proof (induction ws arbitrary: i)
  case (Cons v ws)
  have "\<not> run_at v f num" if "v \<noteq> 0"
    using that Cons.prems scan_slot_complete [of v num 0 64 f]
    by (auto simp: run_open_def split: option.splits)
  moreover have "\<not> run_at (0 :: u64) f num" using Cons.prems(2) by (auto simp: run_at_def)
  moreover have "scan_slots ws num (Suc i) = None" using Cons.prems(1) by (auto split: if_splits option.splits)
  ultimately show ?case using Cons by (cases "v = 0") auto
qed simp

section \<open>Who owns a page\<close>

definition free_set :: "page_allocator \<Rightarrow> nat set" where
  "free_set pa = {p. p div 64 < length (free_pages pa) \<and> bit (free_pages pa ! (p div 64)) (p mod 64)}"

lemma bit_clear_run: "bit (clear_run w f num) j \<longleftrightarrow> bit w j \<and> \<not> (f \<le> j \<and> j < f + num)"
proof (induction num arbitrary: w f)
  case (Suc num)
  have "bit (w AND NOT (push_bit f 1)) j \<longleftrightarrow> bit w j \<and> j \<noteq> f"
    by (auto simp: bit_and_iff bit_not_iff bit_push_bit_iff bit_1_iff bit_exp_iff dest: bit_imp_le_length)
  then show ?case using Suc by auto
qed auto

text \<open>The invariant: freed pages and the pages that clients hold are different, and all of them
  have been handed out by the counter.\<close>

definition pages_inv :: "nat \<Rightarrow> page_allocator \<Rightarrow> nat set \<Rightarrow> bool" where
  "pages_inv n pa live \<longleftrightarrow>
     length (free_pages pa) = kNumSlotsInFreeSet n \<and> free_set pa \<inter> live = {} \<and>
     free_set pa \<union> live \<subseteq> {..<unat (num_allocated_pages pa)} \<inter> {..<n}"

lemma PageAllocator_inv: "pages_inv n (PageAllocator n h) {}"
  by (auto simp: pages_inv_def PageAllocator_def free_set_def)

lemma AllocatePagesSlow_correct:
  assumes "AllocatePagesSlow pa num = (pa', res)" "0 < num" "length (free_pages pa) = k"
  shows "case res of
      None \<Rightarrow> pa' = pa \<and> (\<forall>i < k. \<forall>f. \<not> run_at (free_pages pa ! i) f num)
    | Some p \<Rightarrow> {p..<p + num} \<subseteq> free_set pa \<and> free_set pa' = free_set pa - {p..<p + num} \<and>
        length (free_pages pa') = k \<and> num_allocated_pages pa' = num_allocated_pages pa \<and> heap pa' = heap pa"
proof (cases "scan_slots (free_pages pa) num 0")
  case None
  then show ?thesis
    using assms scan_slots_complete [OF None assms(2)] by (auto simp: AllocatePagesSlow_def)
next
  case (Some q)
  obtain i f where q: "q = (i, f)" by (cases q)
  have i: "i < k" and run: "run_at (free_pages pa ! i) f num"
    using scan_slots_sound [of "free_pages pa" num 0 i f] Some assms(2,3) q by auto
  let ?p = "f + i * 64"
  have res: "res = Some ?p" and pa': "pa' = pa\<lparr>free_pages := (free_pages pa)[i := clear_run (free_pages pa ! i) f num]\<rparr>"
    using assms(1) Some q by (auto simp: AllocatePagesSlow_def kNumBitsPerFreeSetSlot_def)
  have f: "f + num \<le> 64" using run by (simp add: run_at_def)
  have mem: "x \<in> {?p..<?p + num} \<longleftrightarrow> x div 64 = i \<and> f \<le> x mod 64 \<and> x mod 64 < f + num" for x
  proof
    assume "x \<in> {?p..<?p + num}"
    then obtain j where j: "x = (f + j) + i * 64" "j < num" by (metis add.assoc add.commute atLeastLessThan_iff less_diff_conv2 nat_le_iff_add add_less_cancel_left)
    then show "x div 64 = i \<and> f \<le> x mod 64 \<and> x mod 64 < f + num" using f by auto
  next
    assume "x div 64 = i \<and> f \<le> x mod 64 \<and> x mod 64 < f + num"
    then show "x \<in> {?p..<?p + num}" using div_mult_mod_eq [of x 64] by auto
  qed
  have "{?p..<?p + num} \<subseteq> free_set pa"
  proof
    fix x assume "x \<in> {?p..<?p + num}"
    then have x: "x div 64 = i" "f \<le> x mod 64" "x mod 64 < f + num" using mem by auto
    then have "x mod 64 - f < num" by linarith
    then have "bit (free_pages pa ! i) (f + (x mod 64 - f))" using run unfolding run_at_def by blast
    then show "x \<in> free_set pa" using x i assms(3) by (simp add: free_set_def)
  qed
  moreover have "free_set pa' = free_set pa - {?p..<?p + num}"
  proof (rule set_eqI)
    fix x
    have "x \<in> free_set pa' \<longleftrightarrow> x \<in> free_set pa \<and> \<not> (x div 64 = i \<and> f \<le> x mod 64 \<and> x mod 64 < f + num)"
      using i assms(3) by (auto simp: free_set_def pa' bit_clear_run nth_list_update)
    then show "x \<in> free_set pa' \<longleftrightarrow> x \<in> free_set pa - {?p..<?p + num}" using mem [of x] by blast
  qed
  ultimately show ?thesis using assms(3) by (simp add: res pa')
qed

text \<open>The counter does not wrap around for a request.\<close>

definition counter_fits :: "page_allocator \<Rightarrow> nat \<Rightarrow> bool" where
  "counter_fits pa num \<longleftrightarrow> unat (num_allocated_pages pa) + num < 2 ^ 64"

lemma counter_after: "counter_fits pa num \<Longrightarrow> unat (num_allocated_pages pa + of_nat num) = unat (num_allocated_pages pa) + num"
  by (simp add: counter_fits_def unat_word_ariths unat_of_nat)

lemma AllocatePages_correct:
  assumes "pages_inv n pa live" "0 < num" "counter_fits pa num" "AllocatePages n pa num = (pa', res)"
  shows "case res of
      None \<Rightarrow> pages_inv n pa' live \<and>
        (\<forall>i < kNumSlotsInFreeSet n. \<forall>f. \<not> run_at (free_pages pa ! i) f num)
    | Some p \<Rightarrow> {p..<p + num} \<inter> live = {} \<and> p + num \<le> n \<and> pages_inv n pa' (live \<union> {p..<p + num})" (is "?res pa' res")
    and "heap pa' = heap pa"
proof -
  let ?pa = "pa\<lparr>num_allocated_pages := num_allocated_pages pa + of_nat num\<rparr>"
  have len: "length (free_pages pa) = kNumSlotsInFreeSet n" using assms(1) by (simp add: pages_inv_def)
  have fs: "free_set ?pa = free_set pa" by (simp add: free_set_def)
  note after = counter_after [OF assms(3)]
  have "?res pa' res \<and> heap pa' = heap pa"
  proof (cases "unat (num_allocated_pages pa) + num < n")
    case True
    then have "pa' = ?pa" "res = Some (unat (num_allocated_pages pa))"
      using assms(4) by (auto simp: AllocatePages_def Let_def after)
    then show ?thesis
      using assms(1) True by (auto simp: pages_inv_def fs after)
  next
    case False
    then have slow: "AllocatePagesSlow ?pa num = (pa', res)" using assms(4) by (simp add: AllocatePages_def Let_def after)
    show ?thesis
    proof (cases res)
      case None
      then show ?thesis
        using AllocatePagesSlow_correct [OF slow assms(2) refl] assms(1) len by (auto simp: pages_inv_def fs after)
    next
      case (Some p)
      have sl: "{p..<p + num} \<subseteq> free_set pa" "free_set pa' = free_set pa - {p..<p + num}"
        "length (free_pages pa') = kNumSlotsInFreeSet n" "unat (num_allocated_pages pa') = unat (num_allocated_pages pa) + num"
        "heap pa' = heap pa"
        using AllocatePagesSlow_correct [OF slow assms(2) refl] Some len by (auto simp: fs after)
      have "p + num - 1 \<in> free_set pa" using sl(1) assms(2) by auto
      then have "p + num - 1 < n" using assms(1) by (auto simp: pages_inv_def)
      then have "p + num \<le> n" by simp
      moreover have "pages_inv n pa' (live \<union> {p..<p + num})"
        using assms(1) sl unfolding pages_inv_def by fastforce
      ultimately show ?thesis using Some sl(1,5) assms(1) unfolding pages_inv_def by auto
    qed
  qed
  then show "?res pa' res" "heap pa' = heap pa" by auto
qed

lemma FreePage_correct:
  assumes "pages_inv n pa live" "p \<in> live"
  shows "pages_inv n (FreePage pa (page_addr pa p)) (live - {p})" "heap (FreePage pa (page_addr pa p)) = heap pa"
    "free_set (FreePage pa (page_addr pa p)) = insert p (free_set pa)"
    "num_allocated_pages (FreePage pa (page_addr pa p)) = num_allocated_pages pa"
proof -
  let ?pa = "FreePage pa (page_addr pa p)"
  have p: "p < n" using assms by (auto simp: pages_inv_def)
  have page: "(page_addr pa p - heap pa) div PAGE_SIZE_BYTES = p" by (simp add: page_addr_def PAGE_SIZE_BYTES_def)
  have slot: "p div 64 < length (free_pages pa)"
    using p assms(1) by (auto simp: pages_inv_def kNumSlotsInFreeSet_def kNumBitsPerFreeSetSlot_def less_Suc_eq_le div_le_mono)
  have eq: "?pa = pa\<lparr>free_pages := (free_pages pa)[p div 64 := free_pages pa ! (p div 64) OR push_bit (p mod 64) 1]\<rparr>"
    by (simp add: FreePage_def page kNumBitsPerFreeSetSlot_def Let_def)
  have "p mod 64 < LENGTH(64)" by simp
  then have b: "bit (w OR 2 ^ (p mod 64)) j \<longleftrightarrow> bit w j \<or> j = p mod 64" for j and w :: u64
    by (auto simp: bit_or_iff bit_exp_iff)
  have same: "q div 64 = p div 64 \<Longrightarrow> q mod 64 = p mod 64 \<longleftrightarrow> q = p" for q
    by (metis div_mult_mod_eq)
  show fs: "free_set ?pa = insert p (free_set pa)"
    using slot same by (auto simp: eq free_set_def b nth_list_update split: if_splits)
  then show "pages_inv n ?pa (live - {p})" using assms by (auto simp: eq pages_inv_def)
  show "heap ?pa = heap pa" "num_allocated_pages ?pa = num_allocated_pages pa" by (simp_all add: eq)
qed

lemma FreePages_correct:
  assumes "pages_inv n pa live" "{p..<p + num} \<subseteq> live"
  shows "pages_inv n (FreePages pa (page_addr pa p) num) (live - {p..<p + num}) \<and>
    heap (FreePages pa (page_addr pa p) num) = heap pa \<and>
    free_set (FreePages pa (page_addr pa p) num) = free_set pa \<union> {p..<p + num} \<and>
    num_allocated_pages (FreePages pa (page_addr pa p) num) = num_allocated_pages pa"
  using assms
proof (induction num)
  case (Suc num)
  let ?pa = "FreePages pa (page_addr pa p) num"
  have "{p..<p + num} \<subseteq> live" using Suc.prems(2) by auto
  then have IH: "pages_inv n ?pa (live - {p..<p + num})" "heap ?pa = heap pa"
      "free_set ?pa = free_set pa \<union> {p..<p + num}" "num_allocated_pages ?pa = num_allocated_pages pa"
    using Suc by auto
  have "page_addr ?pa (p + num) = page_addr pa p + num * PAGE_SIZE_BYTES"
    using IH(2) by (simp add: page_addr_def algebra_simps)
  moreover have "FreePages pa (page_addr pa p) (Suc num) = FreePage ?pa (page_addr pa p + num * PAGE_SIZE_BYTES)"
    by (simp add: FreePages_def)
  moreover have "live - {p..<p + Suc num} = live - {p..<p + num} - {p + num}"
    "{p..<p + Suc num} = insert (p + num) {p..<p + num}" by auto
  ultimately show ?case
    using FreePage_correct [OF IH(1), of "p + num"] subsetD [OF Suc.prems(2), of "p + num"] IH(2-4) by auto
qed (simp add: FreePages_def)

text \<open>A free run that lies in one slot is found once the counter is used up.\<close>

lemma AllocatePages_reuses:
  assumes "pages_inv n pa live" "0 < num" "counter_fits pa num" "n \<le> unat (num_allocated_pages pa) + num"
    and "{q..<q + num} \<subseteq> free_set pa" "q mod 64 + num \<le> 64"
  shows "\<exists>pa' p. AllocatePages n pa num = (pa', Some p)"
proof -
  obtain pa' res where al: "AllocatePages n pa num = (pa', res)" by (cases "AllocatePages n pa num")
  have slot: "(q + j) div 64 = q div 64 \<and> (q + j) mod 64 = q mod 64 + j" if "j < num" for j
  proof -
    have "q mod 64 + j < 64" using that assms(6) by simp
    moreover have "q + j = (q mod 64 + j) + q div 64 * 64" by simp
    ultimately show ?thesis by (metis div_mult_self3 div_less add.left_neutral mod_less mod_mult_self1 add.commute zero_neq_numeral)
  qed
  have fs: "q + j \<in> free_set pa" if "j < num" for j using assms(5) that by auto
  have "q div 64 < kNumSlotsInFreeSet n" using fs [OF assms(2)] assms(1) by (simp add: free_set_def pages_inv_def)
  moreover have "run_at (free_pages pa ! (q div 64)) (q mod 64) num"
    using fs slot assms(6) by (auto simp: run_at_def free_set_def)
  ultimately show ?thesis using AllocatePages_correct(1) [OF assms(1-3) al] al by (cases res) auto
qed

text \<open>When the counter cannot wrap around: a request that is served from the free set takes as
  many pages out of it as it adds to the counter, so a run of successful requests stays within a
  bound that holds at the start.\<close>

definition budget_ok :: "page_allocator \<Rightarrow> bool" where
  "budget_ok pa \<longleftrightarrow> unat (num_allocated_pages pa) + card (free_set pa) < 2 ^ 63"

lemma PageAllocator_budget: "budget_ok (PageAllocator n h)"
proof -
  have "free_set (PageAllocator n h) = {}" by (auto simp: PageAllocator_def free_set_def)
  then show ?thesis by (simp add: budget_ok_def PageAllocator_def)
qed

lemma budget_fits: "budget_ok pa \<Longrightarrow> num * PAGE_SIZE_BYTES < 2 ^ 64 \<Longrightarrow> counter_fits pa num"
  by (simp add: budget_ok_def counter_fits_def PAGE_SIZE_BYTES_def)

lemma AllocatePages_budget:
  assumes "pages_inv n pa live" "0 < num" "num * PAGE_SIZE_BYTES < 2 ^ 64" "n < 2 ^ 62" "budget_ok pa"
    and "AllocatePages n pa num = (pa', Some p)"
  shows "budget_ok pa'"
proof -
  let ?pa = "pa\<lparr>num_allocated_pages := num_allocated_pages pa + of_nat num\<rparr>"
  have fs: "free_set ?pa = free_set pa" by (simp add: free_set_def)
  have sub: "free_set pa \<subseteq> {..<n}" using assms(1) by (auto simp: pages_inv_def)
  note after = counter_after [OF budget_fits [OF assms(5,3)]]
  show ?thesis
  proof (cases "unat (num_allocated_pages pa) + num < n")
    case True
    then have "pa' = ?pa" using assms(6) by (simp add: AllocatePages_def Let_def after)
    moreover have "card (free_set pa) \<le> n" using card_mono [OF _ sub] by simp
    ultimately show ?thesis using True assms(4) by (simp add: budget_ok_def fs after)
  next
    case False
    then have slow: "AllocatePagesSlow ?pa num = (pa', Some p)" using assms(6) by (simp add: AllocatePages_def Let_def after)
    have sl: "{p..<p + num} \<subseteq> free_set pa" "free_set pa' = free_set pa - {p..<p + num}"
        "num_allocated_pages pa' = num_allocated_pages pa + of_nat num"
      using AllocatePagesSlow_correct [OF slow assms(2) refl] by (auto simp: fs)
    have "finite (free_set pa)" using sub finite_subset by blast
    then have "card (free_set pa') = card (free_set pa) - num" "num \<le> card (free_set pa)"
      using card_mono [OF _ sl(1)] by (simp_all add: sl(1,2) card_Diff_subset)
    then show ?thesis using assms(5) by (simp add: budget_ok_def sl(3) after)
  qed
qed

text \<open>C7. Pages are never handed out twice, and freed pages come back. In any state whose freed
  pages and held pages are disjoint (which the empty allocator establishes and every operation
  keeps), and as long as the 64-bit counter of requested pages does not wrap around, an
  allocation either gives a run of pages inside the heap that no client holds, or null, the latter
  only when no slot of the free set has a long enough run of free pages. Freeing a run that is
  held adds exactly its pages to the free set, and once the counter has used up the heap, a
  request that fits into a part of the freed run that lies in one slot succeeds.\<close>

theorem page_allocator_exclusive:
  assumes "pages_inv n pa live" "0 < num" "counter_fits pa num" "AllocatePages n pa num = (pa', res)"
    and "{q..<q + k} \<subseteq> live"
  shows "(case res of
      None \<Rightarrow> pages_inv n pa' live \<and>
        (\<forall>i < kNumSlotsInFreeSet n. \<forall>f. \<not> run_at (free_pages pa ! i) f num)
    | Some p \<Rightarrow> {p..<p + num} \<inter> live = {} \<and> p + num \<le> n \<and> pages_inv n pa' (live \<union> {p..<p + num})) \<and>
    pages_inv n (FreePages pa (page_addr pa q) k) (live - {q..<q + k}) \<and>
    free_set (FreePages pa (page_addr pa q) k) = free_set pa \<union> {q..<q + k} \<and>
    (n \<le> unat (num_allocated_pages pa) + num \<and> num \<le> k \<and> q mod 64 + num \<le> 64 \<longrightarrow>
       (\<exists>pa2 p. AllocatePages n (FreePages pa (page_addr pa q) k) num = (pa2, Some p)))"
proof -
  note free = FreePages_correct [OF assms(1,5)]
  let ?pa = "FreePages pa (page_addr pa q) k"
  have "\<exists>pa2 p. AllocatePages n ?pa num = (pa2, Some p)"
    if "n \<le> unat (num_allocated_pages pa) + num" "num \<le> k" "q mod 64 + num \<le> 64"
    using free that assms(2,3) by (intro AllocatePages_reuses [of n ?pa "live - {q..<q + k}" num q])
      (auto simp: counter_fits_def)
  then show ?thesis using AllocatePages_correct(1) [OF assms(1-4)] free by blast
qed

text \<open>A heap of four pages with three of them held: a further page comes from nowhere, and once
  page 0 and page 1 are freed, a request for two pages succeeds.\<close>

theorem page_allocator_exclusive_witness:
  "case AllocatePages 4 (PageAllocator 4 0x10000) 3 of
     (pa, p) \<Rightarrow> p = Some 0 \<and> pages_inv 4 pa {0, 1, 2} \<and> snd (AllocatePages 4 pa 2) = None \<and>
       free_set (FreePages pa 0x10000 2) = {0, 1} \<and>
       snd (AllocatePages 4 (FreePages pa 0x10000 2) 2) \<noteq> None"
proof -
  let ?pa = "(PageAllocator 4 0x10000)\<lparr>num_allocated_pages := 3\<rparr>"
  have al: "AllocatePages 4 (PageAllocator 4 0x10000) 3 = (?pa, Some 0)"
    by (simp add: AllocatePages_def PageAllocator_def Let_def)
  have fits: "counter_fits (PageAllocator 4 0x10000) 3" "counter_fits ?pa 2"
    by (simp_all add: counter_fits_def PageAllocator_def)
  have set3: "{0..<0 + 3} = {0, 1, 2 :: nat}" "{0..<0 + 2} = {0, 1 :: nat}" by auto
  have inv: "pages_inv 4 ?pa {0, 1, 2}"
    using page_allocator_exclusive [OF PageAllocator_inv _ fits(1) al, of 0 0] set3 by simp
  obtain pa' res where al2: "AllocatePages 4 ?pa 2 = (pa', res)" by (cases "AllocatePages 4 ?pa 2")
  have none: "res = None"
    using al2 by (simp add: AllocatePages_def AllocatePagesSlow_def PageAllocator_def kNumSlotsInFreeSet_def
        kNumBitsPerFreeSetSlot_def Let_def)
  have "page_addr ?pa 0 = 0x10000" "free_set ?pa = {}"
    by (auto simp: page_addr_def PageAllocator_def free_set_def)
  then show ?thesis
    using page_allocator_exclusive [OF inv _ fits(2) al2, of 0 2] set3 al al2 none inv
    by (auto simp: PageAllocator_def)
qed

text \<open>Why the counter must not wrap around: it is advanced by every request, so after enough of
  them it comes back to 0. A request that makes it do so is given memory outside the heap, and
  the next one is given the first pages of the heap, whoever holds them.\<close>

theorem counter_wraps:
  assumes "unat (num_allocated_pages pa) + num = 2 ^ 64" "m < n" "n < 2 ^ 64"
  shows "\<exists>pa1 pa2. AllocatePages n pa num = (pa1, Some (2 ^ 64 - num)) \<and> AllocatePages n pa1 m = (pa2, Some 0)"
proof -
  have "unat (num_allocated_pages pa + of_nat num) = 0"
    using assms(1) by (simp add: unat_word_ariths unat_of_nat mod_simps)
  then have "num_allocated_pages pa + of_nat num = 0" by (simp only: unat_eq_0)
  moreover have "unat (of_nat m :: u64) = m" using assms(2,3) by (simp add: unat_of_nat)
  moreover have "unat (num_allocated_pages pa) = 2 ^ 64 - num" using assms(1) by simp
  ultimately show ?thesis using assms(2) by (simp add: AllocatePages_def Let_def)
qed

end
