(* ===== verification/Code_Cache.thy ===== *)
theory Code_Cache
  imports Pages
begin

text \<open>
  The clients of the page allocator: the code caches of \<^verbatim>\<open>granary/cache.cc\<close> and the slab
  allocator behind \<^verbatim>\<open>new\<close> and \<^verbatim>\<open>delete\<close> of \<^verbatim>\<open>granary/base/new.cc\<close> and \<^verbatim>\<open>new.h\<close>. Both take
  slabs of pages from a source of pages, which is the argument \<open>alloc\<close> of their definitions;
  what they rely on is the locale \<open>page_source\<close>, and the two heaps of \<^verbatim>\<open>os/memory.cc\<close> are its
  instances. Each operation runs under the component's spin lock and is atomic here. Addresses
  are natural numbers, a null pointer is \<open>None\<close>.
\<close>

section \<open>Code caches\<close>

datatype code_cache_kind =
  kCodeCacheKindHot | kCodeCacheKindCold | kCodeCacheKindFrozen | kCodeCacheKindSubZero | kCodeCacheKindEdge

record code_cache =
  slab_num_pages :: nat
  slab_num_bytes :: nat
  slab_byte_offset :: nat
  slab_list :: "nat option list"   \<comment> \<open>the begin addresses, the current slab first\<close>

type_synonym 's pages_fn = "'s \<Rightarrow> nat \<Rightarrow> 's \<times> nat option"

definition AllocateSlab :: "'s pages_fn \<Rightarrow> 's \<Rightarrow> nat \<Rightarrow> nat option list \<Rightarrow> 's \<times> nat option list" where
  "AllocateSlab alloc s num_pages nxt = (let (s', begin) = alloc s num_pages in (s', begin # nxt))"

definition CodeCache_new :: "'s pages_fn \<Rightarrow> 's \<Rightarrow> nat \<Rightarrow> 's \<times> code_cache" where
  "CodeCache_new alloc s slab_size =
     (let (s', slabs) = AllocateSlab alloc s slab_size []
      in (s', \<lparr>slab_num_pages = slab_size, slab_num_bytes = slab_size * PAGE_SIZE_BYTES,
               slab_byte_offset = 0, slab_list = slabs\<rparr>))"

text \<open>Indexing a pointer, where a null \<open>begin\<close> is address 0.\<close>

definition index_pointer :: "nat option \<Rightarrow> nat \<Rightarrow> nat option" where
  "index_pointer begin i =
     (case begin of Some b \<Rightarrow> Some (b + i) | None \<Rightarrow> if i = 0 then None else Some i)"

definition CodeCache_AllocateCode :: "'s pages_fn \<Rightarrow> 's \<Rightarrow> code_cache \<Rightarrow> nat \<Rightarrow> 's \<times> code_cache \<times> nat option" where
  "CodeCache_AllocateCode alloc s c nbytes =
     (let aligned_offset = align_to (slab_byte_offset c) CODE_ALIGN_BYTES;
          new_offset = aligned_offset + nbytes
      in if new_offset \<ge> slab_num_bytes c then
           let (s', slabs) = AllocateSlab alloc s (slab_num_pages c) (slab_list c)
           in (s', c\<lparr>slab_list := slabs, slab_byte_offset := nbytes\<rparr>, hd slabs)
         else (s, c\<lparr>slab_byte_offset := new_offset\<rparr>, index_pointer (hd (slab_list c)) aligned_offset))"

type_synonym code_caches = "code_cache_kind \<Rightarrow> code_cache"

definition AllocateCode ::
  "'s pages_fn \<Rightarrow> 's \<Rightarrow> code_caches \<Rightarrow> code_cache_kind \<Rightarrow> nat \<Rightarrow> 's \<times> code_caches \<times> nat option" where
  "AllocateCode alloc s caches kind num_bytes =
     (if num_bytes = 0 then (s, caches, None)
      else let (s', c', addr) = CodeCache_AllocateCode alloc s (caches kind) num_bytes
           in (s', caches(kind := c'), addr))"

definition kinds :: "code_cache_kind list" where
  "kinds = [kCodeCacheKindHot, kCodeCacheKindCold, kCodeCacheKindFrozen, kCodeCacheKindSubZero, kCodeCacheKindEdge]"

definition DIRECT_EDGE_ENTRY_CODE_SIZE_BYTES :: nat where
  "DIRECT_EDGE_ENTRY_CODE_SIZE_BYTES = 48"

definition INDIRECT_EDGE_ENTRY_CODE_SIZE_BYTES :: nat where
  "INDIRECT_EDGE_ENTRY_CODE_SIZE_BYTES = 48"

text \<open>A sequence of allocations with their results. \<^verbatim>\<open>InitCodeCache\<close> constructs every cache and
  allocates the four generated functions from the edge cache; the code generators write only
  into those blocks.\<close>

fun allocate_all ::
  "'s pages_fn \<Rightarrow> 's \<Rightarrow> code_caches \<Rightarrow> (code_cache_kind \<times> nat) list \<Rightarrow> 's \<times> code_caches \<times> nat option list" where
  "allocate_all alloc s caches [] = (s, caches, [])"
| "allocate_all alloc s caches ((kind, nbytes) # reqs) =
     (let (s1, caches1, addr) = AllocateCode alloc s caches kind nbytes;
          (s2, caches2, addrs) = allocate_all alloc s1 caches1 reqs
      in (s2, caches2, addr # addrs))"

definition construct_caches :: "'s pages_fn \<Rightarrow> 's \<Rightarrow> nat \<Rightarrow> code_caches \<Rightarrow> 's \<times> code_caches" where
  "construct_caches alloc s slab_size caches =
     fold (\<lambda>kind (s, caches). let (s', c) = CodeCache_new alloc s slab_size in (s', caches(kind := c)))
       kinds (s, caches)"

definition generated_functions :: "(code_cache_kind \<times> nat) list" where
  "generated_functions =
     [(kCodeCacheKindEdge, DIRECT_EDGE_ENTRY_CODE_SIZE_BYTES),
      (kCodeCacheKindEdge, INDIRECT_EDGE_ENTRY_CODE_SIZE_BYTES),
      (kCodeCacheKindEdge, DIRECT_EDGE_ENTRY_CODE_SIZE_BYTES),
      (kCodeCacheKindEdge, DIRECT_EDGE_ENTRY_CODE_SIZE_BYTES)]"

definition InitCodeCache :: "'s pages_fn \<Rightarrow> 's \<Rightarrow> nat \<Rightarrow> code_caches \<Rightarrow> 's \<times> code_caches \<times> nat option list" where
  "InitCodeCache alloc s slab_size caches =
     (let (s1, caches1) = construct_caches alloc s slab_size caches
      in allocate_all alloc s1 caches1 generated_functions)"

text \<open>The destructor deletes the descriptors of the slabs, which it returns here; their pages
  stay with the cache's heap.\<close>

definition CodeCache_destroy :: "code_cache \<Rightarrow> code_cache \<times> nat option list" where
  "CodeCache_destroy c = (c\<lparr>slab_byte_offset := 0\<rparr>, slab_list c)"

definition ExitCodeCache :: "code_caches \<Rightarrow> code_caches \<times> nat option list" where
  "ExitCodeCache caches =
     (fst \<circ> CodeCache_destroy \<circ> caches, concat (map (snd \<circ> CodeCache_destroy \<circ> caches) kinds))"

definition EstimatedCachePC :: "nat \<Rightarrow> nat \<Rightarrow> nat" where
  "EstimatedCachePC code_cache_begin code_cache_end =
     code_cache_begin + (code_cache_end - code_cache_begin) div 2"

lemma allocate_all_append:
  "allocate_all alloc s caches reqs = (s1, caches1, addrs) \<Longrightarrow>
   allocate_all alloc s1 caches1 reqs' = (s2, caches2, addrs') \<Longrightarrow>
   allocate_all alloc s caches (reqs @ reqs') = (s2, caches2, addrs @ addrs')"
  by (induction reqs arbitrary: s caches addrs) (auto split: prod.splits)

section \<open>Sources of pages\<close>

text \<open>\<open>pinv s A\<close>: the source is in order and the bytes \<open>A\<close> are handed out. Nothing is said of a
  request that fails: it fails an assertion of \<^verbatim>\<open>AllocatePagesSlow\<close>.\<close>

locale page_source =
  fixes pinv :: "'s \<Rightarrow> nat set \<Rightarrow> bool" and alloc :: "'s pages_fn"
  assumes alloc_fresh: "pinv s A \<Longrightarrow> 0 < num \<Longrightarrow> num * PAGE_SIZE_BYTES < 2 ^ 64 \<Longrightarrow>
      alloc s num = (s', Some a) \<Longrightarrow>
      {a..<a + num * PAGE_SIZE_BYTES} \<inter> A = {} \<and> pinv s' (A \<union> {a..<a + num * PAGE_SIZE_BYTES})"

text \<open>The bytes a cache can still give out of its current slab.\<close>

definition avail :: "code_cache \<Rightarrow> nat set" where
  "avail c = (case hd (slab_list c) of
     None \<Rightarrow> {} | Some b \<Rightarrow> {b + slab_byte_offset c..<b + slab_num_bytes c})"

definition block :: "nat option \<Rightarrow> nat \<Rightarrow> nat set" where
  "block addr nbytes = (case addr of None \<Rightarrow> {} | Some a \<Rightarrow> {a..<a + nbytes})"

definition cache_shape :: "code_cache \<Rightarrow> bool" where
  "cache_shape c \<longleftrightarrow> 0 < slab_num_pages c \<and> slab_num_bytes c < 2 ^ 64 \<and> slab_num_bytes c = slab_num_pages c * PAGE_SIZE_BYTES \<and> slab_list c \<noteq> []"

text \<open>No allocation of a slab has failed.\<close>

definition slabs_ok :: "code_caches \<Rightarrow> bool" where
  "slabs_ok caches \<longleftrightarrow> (\<forall>k. None \<notin> set (slab_list (caches k)))"

lemma AllocateCode_slabs:
  "AllocateCode alloc s caches k nbytes = (s', caches', r) \<Longrightarrow> slabs_ok caches' \<Longrightarrow> slabs_ok caches"
  by (fastforce simp: AllocateCode_def CodeCache_AllocateCode_def AllocateSlab_def slabs_ok_def Let_def split: prod.splits if_splits)

lemma allocate_all_slabs:
  "allocate_all alloc s caches reqs = (s', caches', rs) \<Longrightarrow> slabs_ok caches' \<Longrightarrow> slabs_ok caches"
proof (induction reqs arbitrary: s caches rs)
  case (Cons req reqs)
  then obtain s1 c1 r rs1 where st: "AllocateCode alloc s caches (fst req) (snd req) = (s1, c1, r)"
      "allocate_all alloc s1 c1 reqs = (s', caches', rs1)"
    by (cases req) (auto split: prod.splits)
  show ?case by (rule AllocateCode_slabs [OF st(1) Cons.IH [OF st(2) Cons.prems(2)]])
qed simp

lemma all_kinds:
  "(\<forall>k. P k) \<longleftrightarrow> P kCodeCacheKindHot \<and> P kCodeCacheKindCold \<and> P kCodeCacheKindFrozen \<and>
     P kCodeCacheKindSubZero \<and> P kCodeCacheKindEdge"
  by (metis code_cache_kind.exhaust)

text \<open>The invariant of the caches: what they can still give out is disjoint from each other and
  from the blocks given out before, \<open>U\<close>, and all of it is theirs.\<close>

definition caches_inv :: "('s \<Rightarrow> nat set \<Rightarrow> bool) \<Rightarrow> 's \<Rightarrow> code_caches \<Rightarrow> code_cache_kind set \<Rightarrow> nat set \<Rightarrow> bool" where
  "caches_inv pinv s caches K U \<longleftrightarrow>
     (\<exists>A. pinv s A \<and> U \<subseteq> A \<and> (\<forall>k \<in> K. cache_shape (caches k) \<and> avail (caches k) \<subseteq> A - U) \<and>
        (\<forall>k \<in> K. \<forall>l \<in> K. k \<noteq> l \<longrightarrow> avail (caches k) \<inter> avail (caches l) = {}))"

lemma align_code [simp]: "align_to off CODE_ALIGN_BYTES = off"
  by (simp add: CODE_ALIGN_BYTES_def align_to_def align_factor_def)

lemma caches_inv_update:
  assumes "\<forall>l \<in> K. cache_shape (caches l) \<and> avail (caches l) \<subseteq> A - U"
    and "\<forall>l \<in> K. \<forall>m \<in> K. l \<noteq> m \<longrightarrow> avail (caches l) \<inter> avail (caches m) = {}"
    and "pinv s' A'" "A \<subseteq> A'" "U \<union> B \<subseteq> A'" "cache_shape c'" "avail c' \<subseteq> A' - (U \<union> B)"
    and "\<forall>l \<in> K - {k}. avail (caches l) \<inter> (avail c' \<union> B) = {}"
  shows "caches_inv pinv s' (caches(k := c')) (insert k K) (U \<union> B)"
  unfolding caches_inv_def
proof (intro exI [of _ A'] conjI ballI impI)
  fix l assume "l \<in> insert k K"
  then show "cache_shape ((caches(k := c')) l)" "avail ((caches(k := c')) l) \<subseteq> A' - (U \<union> B)"
    using assms by (cases "l = k"; auto; blast)+
next
  fix l m assume "l \<in> insert k K" "m \<in> insert k K" "l \<noteq> m"
  then show "avail ((caches(k := c')) l) \<inter> avail ((caches(k := c')) m) = {}"
    using assms(2,8) by (cases "l = k"; cases "m = k"; auto; blast)
qed (use assms in auto)

context page_source
begin

lemma alloc_block:
  assumes "pinv s A" "0 < num" "num * PAGE_SIZE_BYTES < 2 ^ 64" "alloc s num = (s', r)" "r \<noteq> None"
  shows "block r (num * PAGE_SIZE_BYTES) \<inter> A = {}" "pinv s' (A \<union> block r (num * PAGE_SIZE_BYTES))"
  using alloc_fresh [OF assms(1-3)] assms(4,5) by (cases r; auto simp: block_def)+

lemma CodeCache_new_inv:
  assumes "caches_inv pinv s caches K U" "0 < slab_size" "k \<notin> K" "CodeCache_new alloc s slab_size = (s', c)"
    and "slab_size * PAGE_SIZE_BYTES < 2 ^ 64" "None \<notin> set (slab_list c)"
  shows "caches_inv pinv s' (caches(k := c)) (insert k K) U"
proof -
  obtain A where A: "pinv s A" "U \<subseteq> A" "\<forall>k \<in> K. cache_shape (caches k) \<and> avail (caches k) \<subseteq> A - U"
      "\<forall>k \<in> K. \<forall>l \<in> K. k \<noteq> l \<longrightarrow> avail (caches k) \<inter> avail (caches l) = {}"
    using assms(1) by (auto simp: caches_inv_def)
  obtain r where r: "alloc s slab_size = (s', r)" and
      c: "c = \<lparr>slab_num_pages = slab_size, slab_num_bytes = slab_size * PAGE_SIZE_BYTES, slab_byte_offset = 0, slab_list = [r]\<rparr>"
    using assms(4) by (auto simp: CodeCache_new_def AllocateSlab_def split: prod.splits)
  let ?B = "block r (slab_size * PAGE_SIZE_BYTES)"
  have av: "avail c = ?B" by (simp add: c avail_def block_def split: option.splits)
  have "r \<noteq> None" using assms(6) by (cases r) (auto simp: c)
  then have B: "?B \<inter> A = {}" "pinv s' (A \<union> ?B)" using alloc_block [OF A(1) assms(2,5) r] by auto
  have "cache_shape c" using assms(2,5) by (simp add: c cache_shape_def)
  moreover have "\<forall>l \<in> K - {k}. avail (caches l) \<inter> (avail c \<union> {}) = {}"
    using A(3) B(1) by (auto simp: av)
  moreover have "avail c \<subseteq> A \<union> ?B - (U \<union> {})" using A(2) B(1) by (auto simp: av)
  ultimately have "caches_inv pinv s' (caches(k := c)) (insert k K) (U \<union> {})"
    using caches_inv_update [where K = K and caches = caches and A = A and A' = "A \<union> ?B" and U = U and B = "{}" and c' = c and k = k
        and pinv = pinv and s' = s', OF A(3,4) B(2)] A(2) by auto
  then show ?thesis by simp
qed

lemma AllocateCode_inv:
  assumes "caches_inv pinv s caches K U" "k \<in> K" "nbytes \<le> slab_num_bytes (caches k)"
    and "AllocateCode alloc s caches k nbytes = (s', caches', r)" "slabs_ok caches'"
  shows "block r nbytes \<inter> U = {} \<and> caches_inv pinv s' caches' K (U \<union> block r nbytes) \<and>
    (\<forall>l. slab_num_bytes (caches' l) = slab_num_bytes (caches l))"
proof (cases "nbytes = 0")
  case True
  then show ?thesis using assms by (auto simp: AllocateCode_def block_def)
next
  case False
  obtain A where A: "pinv s A" "U \<subseteq> A" "\<forall>k \<in> K. cache_shape (caches k) \<and> avail (caches k) \<subseteq> A - U"
      "\<forall>k \<in> K. \<forall>l \<in> K. k \<noteq> l \<longrightarrow> avail (caches k) \<inter> avail (caches l) = {}"
    using assms(1) by (auto simp: caches_inv_def)
  let ?c = "caches k"
  have sh: "cache_shape ?c" using A(3) assms(2) by blast
  obtain c' where c': "CodeCache_AllocateCode alloc s ?c nbytes = (s', c', r)" "caches' = caches(k := c')"
    using assms(4) False by (auto simp: AllocateCode_def split: prod.splits)
  show ?thesis
  proof (cases "slab_byte_offset ?c + nbytes \<ge> slab_num_bytes ?c")
    case True
    then obtain b where b: "alloc s (slab_num_pages ?c) = (s', b)" "r = b"
        "c' = ?c\<lparr>slab_list := b # slab_list ?c, slab_byte_offset := nbytes\<rparr>"
      using c' by (auto simp: CodeCache_AllocateCode_def AllocateSlab_def split: prod.splits)
    let ?B = "block b (slab_num_bytes ?c)"
    have "None \<notin> set (slab_list (caches' k))" using assms(5) unfolding slabs_ok_def by blast
    then have "b \<noteq> None" by (cases b) (auto simp: c'(2) b(3))
    then have B: "?B \<inter> A = {}" "pinv s' (A \<union> ?B)"
      using alloc_block [OF A(1) _ _ b(1)] sh by (simp_all add: cache_shape_def)
    have blk: "block r nbytes \<subseteq> ?B" using assms(3) b(2) by (auto simp: block_def split: option.splits)
    have av: "avail c' \<subseteq> ?B - block r nbytes" "cache_shape c'"
      using b(2) sh by (auto simp: b(3) avail_def block_def cache_shape_def split: option.splits)
    have "caches_inv pinv s' caches' K (U \<union> block r nbytes)"
    proof -
      have "\<forall>l \<in> K - {k}. avail (caches l) \<inter> (avail c' \<union> block r nbytes) = {}"
        using A(3) av(1) blk B(1) by blast
      then have "caches_inv pinv s' (caches(k := c')) (insert k K) (U \<union> block r nbytes)"
        using A B av blk by (intro caches_inv_update [where A = A and A' = "A \<union> ?B"]) auto
      then show ?thesis using assms(2) by (simp add: c'(2) insert_absorb)
    qed
    moreover have "block r nbytes \<inter> U = {}" using blk B(1) A(2) by blast
    ultimately show ?thesis using c'(2) b(3) by simp
  next
    case fits: False
    have "hd (slab_list ?c) \<in> set (slab_list ?c)" using sh by (simp add: cache_shape_def)
    then obtain b where b: "hd (slab_list ?c) = Some b"
      using AllocateCode_slabs [OF assms(4,5)] unfolding slabs_ok_def by (metis option.exhaust)
    have r: "s' = s" "r = Some (b + slab_byte_offset ?c)"
        "c' = ?c\<lparr>slab_byte_offset := slab_byte_offset ?c + nbytes\<rparr>"
      using c' fits b by (auto simp: CodeCache_AllocateCode_def Let_def index_pointer_def)
    have blk: "block r nbytes \<subseteq> avail ?c" using fits by (auto simp: r b block_def avail_def)
    have av: "avail c' \<subseteq> avail ?c - block r nbytes" "cache_shape c'"
      using sh by (auto simp: r b avail_def block_def cache_shape_def)
    have "avail ?c \<subseteq> A - U" using A(3) assms(2) by blast
    moreover have "caches_inv pinv s' caches' K (U \<union> block r nbytes)"
    proof -
      have "\<forall>l \<in> K - {k}. avail (caches l) \<inter> (avail c' \<union> block r nbytes) = {}"
        using A(4) av(1) blk assms(2) by blast
      then have "caches_inv pinv s (caches(k := c')) (insert k K) (U \<union> block r nbytes)"
        using A(2) av blk \<open>avail ?c \<subseteq> A - U\<close> A by (intro caches_inv_update [where A = A and A' = A]) auto
      then show ?thesis using assms(2) by (simp add: c'(2) r(1) insert_absorb)
    qed
    ultimately show ?thesis using blk c'(2) r(3) by auto
  qed
qed

text \<open>The blocks of a sequence of allocations.\<close>

lemma allocate_all_inv:
  assumes "caches_inv pinv s caches UNIV U" "\<forall>(k, n) \<in> set reqs. n \<le> slab_num_bytes (caches k)"
    and "allocate_all alloc s caches reqs = (s', caches', rs)" "slabs_ok caches'"
  shows "length rs = length reqs \<and>
    (\<forall>i < length reqs. block (rs ! i) (snd (reqs ! i)) \<inter> U = {}) \<and>
    (\<forall>i j. i < j \<longrightarrow> j < length reqs \<longrightarrow> block (rs ! i) (snd (reqs ! i)) \<inter> block (rs ! j) (snd (reqs ! j)) = {}) \<and>
    caches_inv pinv s' caches' UNIV (U \<union> (\<Union>i < length reqs. block (rs ! i) (snd (reqs ! i)))) \<and>
    (\<forall>l. slab_num_bytes (caches' l) = slab_num_bytes (caches l))"
  using assms
proof (induction reqs arbitrary: s caches U rs)
  case (Cons req reqs)
  obtain k n where req: "req = (k, n)" by (cases req)
  obtain s1 c1 r rs1 where r: "AllocateCode alloc s caches k n = (s1, c1, r)"
      "allocate_all alloc s1 c1 reqs = (s', caches', rs1)" "rs = r # rs1"
    using Cons.prems(3) by (auto simp: req split: prod.splits)
  have st: "block r n \<inter> U = {}" "caches_inv pinv s1 c1 UNIV (U \<union> block r n)"
      "\<forall>l. slab_num_bytes (c1 l) = slab_num_bytes (caches l)"
    using AllocateCode_inv [OF Cons.prems(1) UNIV_I _ r(1)] allocate_all_slabs [OF r(2) Cons.prems(4)] Cons.prems(2)
    by (auto simp: req)
  have sz: "\<forall>(k, n) \<in> set reqs. n \<le> slab_num_bytes (c1 k)" using Cons.prems(2) st(3) by auto
  note IH = Cons.IH [OF st(2) sz r(2) Cons.prems(4)]
  have nth: "block (rs ! i) (snd ((req # reqs) ! i)) =
      (if i = 0 then block r n else block (rs1 ! (i - 1)) (snd (reqs ! (i - 1))))" for i
    by (cases i) (simp_all add: r(3) req)
  have un: "(\<Union>i < length (req # reqs). block (rs ! i) (snd ((req # reqs) ! i))) =
      block r n \<union> (\<Union>i < length reqs. block (rs1 ! i) (snd (reqs ! i)))"
    by (simp add: lessThan_Suc_eq_insert_0 r(3) req)
  have "length rs = length (req # reqs)" using IH r(3) by simp
  moreover have "\<forall>i < length (req # reqs). block (rs ! i) (snd ((req # reqs) ! i)) \<inter> U = {}"
    unfolding nth
  proof (intro allI impI)
    fix i assume "i < length (req # reqs)"
    then have "i = 0 \<or> i - 1 < length reqs" by auto
    then show "(if i = 0 then block r n else block (rs1 ! (i - 1)) (snd (reqs ! (i - 1)))) \<inter> U = {}"
      using IH st(1) by auto
  qed
  moreover have "\<forall>i j. i < j \<longrightarrow> j < length (req # reqs) \<longrightarrow>
      block (rs ! i) (snd ((req # reqs) ! i)) \<inter> block (rs ! j) (snd ((req # reqs) ! j)) = {}"
  proof (intro allI impI)
    fix i j assume ij: "i < j" "j < length (req # reqs)"
    show "block (rs ! i) (snd ((req # reqs) ! i)) \<inter> block (rs ! j) (snd ((req # reqs) ! j)) = {}"
    proof (cases i)
      case 0
      have "block (rs1 ! (j - 1)) (snd (reqs ! (j - 1))) \<inter> (U \<union> block r n) = {}" using IH ij by auto
      then show ?thesis using 0 ij unfolding nth by auto
    next
      case (Suc i')
      then have "i - 1 < j - 1" "j - 1 < length reqs" using ij by auto
      then show ?thesis using IH Suc ij unfolding nth by auto
    qed
  qed
  ultimately show ?case using IH st(3) unfolding un by (simp add: Un_assoc)
qed simp

lemma construct_caches_inv:
  assumes "pinv s {}" "0 < slab_size" "construct_caches alloc s slab_size caches = (s', caches')"
    and "slab_size * PAGE_SIZE_BYTES < 2 ^ 64" "slabs_ok caches'"
  shows "caches_inv pinv s' caches' UNIV {} \<and> (\<forall>k. slab_num_bytes (caches' k) = slab_size * PAGE_SIZE_BYTES)"
proof -
  let ?f = "\<lambda>kind (s, caches). let (s', c) = CodeCache_new alloc s slab_size in (s', caches(kind := c))"
  have bytes: "CodeCache_new alloc s slab_size = (s', c) \<Longrightarrow> slab_num_bytes c = slab_size * PAGE_SIZE_BYTES" for s s' c
    by (auto simp: CodeCache_new_def split: prod.splits)
  have kept: "k \<notin> set ks \<Longrightarrow> fold ?f ks (s, caches) = (s', caches') \<Longrightarrow> caches' k = caches k" for k ks s caches
    by (induction ks arbitrary: s caches) (auto split: prod.splits)
  have "caches_inv pinv s caches K {} \<Longrightarrow> \<forall>k \<in> K. slab_num_bytes (caches k) = slab_size * PAGE_SIZE_BYTES \<Longrightarrow>
      distinct ks \<Longrightarrow> set ks \<inter> K = {} \<Longrightarrow> fold ?f ks (s, caches) = (s', caches') \<Longrightarrow>
      caches_inv pinv s' caches' (K \<union> set ks) {} \<and>
      (\<forall>k \<in> K \<union> set ks. slab_num_bytes (caches' k) = slab_size * PAGE_SIZE_BYTES)" for ks K s caches
  proof (induction ks arbitrary: K s caches)
    case (Cons k ks)
    obtain s1 c where c: "CodeCache_new alloc s slab_size = (s1, c)" by (cases "CodeCache_new alloc s slab_size")
    have "caches' k = c" using kept [of k ks s1 "caches(k := c)"] Cons.prems(3,5) c by (simp add: fun_upd_def)
    then have "None \<notin> set (slab_list c)" using assms(5) unfolding slabs_ok_def by metis
    then have "caches_inv pinv s1 (caches(k := c)) (insert k K) {}"
      using CodeCache_new_inv [OF Cons.prems(1) assms(2) _ c assms(4)] Cons.prems(4) by auto
    moreover have "\<forall>l \<in> insert k K. slab_num_bytes ((caches(k := c)) l) = slab_size * PAGE_SIZE_BYTES"
      using Cons.prems(2) bytes [OF c] by simp
    moreover have "distinct ks" "set ks \<inter> insert k K = {}" "fold ?f ks (s1, caches(k := c)) = (s', caches')"
      using Cons.prems(3-5) c by (simp_all add: fun_upd_def)
    ultimately have "caches_inv pinv s' caches' (insert k K \<union> set ks) {} \<and>
        (\<forall>k \<in> insert k K \<union> set ks. slab_num_bytes (caches' k) = slab_size * PAGE_SIZE_BYTES)" by (rule Cons.IH)
    then show ?case by simp
  qed simp
  moreover have "caches_inv pinv s caches {} {}" using assms(1) by (auto simp: caches_inv_def)
  moreover have "set kinds = UNIV" "distinct kinds"
    using code_cache_kind.exhaust by (auto simp: kinds_def)
  ultimately show ?thesis
    using assms(3) unfolding construct_caches_def by fastforce
qed

end

section \<open>The two heaps as sources of pages\<close>

text \<open>The bytes of a set of pages.\<close>

definition page_bytes :: "page_allocator \<Rightarrow> nat set \<Rightarrow> nat set" where
  "page_bytes pa pages = {x. heap pa \<le> x \<and> (x - heap pa) div PAGE_SIZE_BYTES \<in> pages}"

definition heap_ok :: "nat \<Rightarrow> page_allocator \<Rightarrow> nat set \<Rightarrow> bool" where
  "heap_ok n pa A \<longleftrightarrow> (\<exists>pages. pages_inv n pa pages \<and> A = page_bytes pa pages) \<and> budget_ok pa"

definition code_heap :: "memory \<Rightarrow> nat set \<Rightarrow> bool" where
  "code_heap g A \<longleftrightarrow> heap_ok kCodeCacheNumPages (gBlockMemory g) A"

definition data_heap :: "memory \<Rightarrow> nat set \<Rightarrow> bool" where
  "data_heap g A \<longleftrightarrow> heap_ok kHeapNumPages (gHeapMemory g) A"

lemma page_bytes_run: "page_bytes pa {p..<p + num} = {page_addr pa p..<page_addr pa p + num * PAGE_SIZE_BYTES}"
proof (rule set_eqI)
  fix x
  show "x \<in> page_bytes pa {p..<p + num} \<longleftrightarrow> x \<in> {page_addr pa p..<page_addr pa p + num * PAGE_SIZE_BYTES}"
  proof (cases "heap pa \<le> x")
    case True
    then obtain y where x: "x = heap pa + y" using le_Suc_ex by blast
    have "p \<le> y div 4096 \<longleftrightarrow> 4096 * p \<le> y" "y div 4096 < p + num \<longleftrightarrow> y < 4096 * p + num * 4096"
      by (simp_all add: less_eq_div_iff_mult_less_eq div_less_iff_less_mult algebra_simps)
    then show ?thesis by (simp add: page_bytes_def page_addr_def PAGE_SIZE_BYTES_def x)
  qed (auto simp: page_bytes_def page_addr_def)
qed

lemma page_bytes_disjoint: "P \<inter> Q = {} \<Longrightarrow> page_bytes pa P \<inter> page_bytes pa Q = {}"
  by (auto simp: page_bytes_def)

lemma page_bytes_Un: "page_bytes pa (P \<union> Q) = page_bytes pa P \<union> page_bytes pa Q"
  by (auto simp: page_bytes_def)

lemma page_bytes_heap: "heap pa' = heap pa \<Longrightarrow> page_bytes pa' = page_bytes pa"
  by (auto simp: page_bytes_def fun_eq_iff)

text \<open>What an allocation of pages does to the bytes handed out.\<close>

lemma AllocatePages_bytes:
  assumes "heap_ok n pa A" "0 < num" "num * PAGE_SIZE_BYTES < 2 ^ 64" "n < 2 ^ 62" "AllocatePages n pa num = (pa', Some p)"
  shows "{page_addr pa p..<page_addr pa p + num * PAGE_SIZE_BYTES} \<inter> A = {} \<and>
    heap_ok n pa' (A \<union> {page_addr pa p..<page_addr pa p + num * PAGE_SIZE_BYTES}) \<and> heap pa' = heap pa"
proof -
  obtain live where live: "pages_inv n pa live" "A = page_bytes pa live" and budget: "budget_ok pa"
    using assms(1) by (auto simp: heap_ok_def)
  note fits = budget_fits [OF budget assms(3)]
  have al: "{p..<p + num} \<inter> live = {}" "pages_inv n pa' (live \<union> {p..<p + num})" and heap: "heap pa' = heap pa"
    using AllocatePages_correct [OF live(1) assms(2) fits assms(5)] by auto
  have "budget_ok pa'" using AllocatePages_budget [OF live(1) assms(2-4) budget assms(5)] .
  moreover have "page_bytes pa' (live \<union> {p..<p + num}) =
      A \<union> {page_addr pa p..<page_addr pa p + num * PAGE_SIZE_BYTES}"
    using page_bytes_heap [OF heap] by (simp add: page_bytes_Un page_bytes_run live(2))
  ultimately have "heap_ok n pa' (A \<union> {page_addr pa p..<page_addr pa p + num * PAGE_SIZE_BYTES})"
    using al(2) unfolding heap_ok_def by metis
  then show ?thesis
    using page_bytes_disjoint [OF al(1), of pa] heap by (simp add: page_bytes_run live(2))
qed

interpretation code_pages: page_source code_heap AllocateCodePages
proof
  fix s A num s' a
  assume h: "code_heap s A" "(0 :: nat) < num" "num * PAGE_SIZE_BYTES < 2 ^ 64"
    and al: "AllocateCodePages s num = (s', Some a)"
  obtain pa' q where q: "AllocatePages kCodeCacheNumPages (gBlockMemory s) num = (pa', Some q)"
      "s' = s\<lparr>gBlockMemory := pa'\<rparr>" "a = page_addr (gBlockMemory s) q"
    using al by (auto simp: AllocateCodePages_def split: prod.splits)
  show "{a..<a + num * PAGE_SIZE_BYTES} \<inter> A = {} \<and> code_heap s' (A \<union> {a..<a + num * PAGE_SIZE_BYTES})"
    using AllocatePages_bytes [OF h(1) [unfolded code_heap_def] h(2,3) _ q(1)]
    by (simp add: code_heap_def q(2,3) kCodeCacheNumPages_def)
qed

interpretation data_pages: page_source data_heap AllocateDataPages
proof
  fix s A num s' a
  assume h: "data_heap s A" "(0 :: nat) < num" "num * PAGE_SIZE_BYTES < 2 ^ 64"
    and al: "AllocateDataPages s num = (s', Some a)"
  obtain pa' q where q: "AllocatePages kHeapNumPages (gHeapMemory s) num = (pa', Some q)"
      "s' = s\<lparr>gHeapMemory := pa'\<rparr>" "a = page_addr (gHeapMemory s) q"
    using al by (auto simp: AllocateDataPages_def split: prod.splits)
  show "{a..<a + num * PAGE_SIZE_BYTES} \<inter> A = {} \<and> data_heap s' (A \<union> {a..<a + num * PAGE_SIZE_BYTES})"
    using AllocatePages_bytes [OF h(1) [unfolded data_heap_def] h(2,3) _ q(1)]
    by (simp add: data_heap_def q(2,3) kHeapNumPages_def)
qed

lemma InitHeap_sources: "code_heap (InitHeap (static_memory pages heap_pages)) {}" "data_heap (InitHeap (static_memory pages heap_pages)) {}"
  by (auto simp: code_heap_def data_heap_def heap_ok_def InitHeap_def static_memory_def page_bytes_def PageAllocator_budget
      intro: exI [of _ "{}"] PageAllocator_inv)

text \<open>C35. Blocks of code never overlap. Starting from fresh heaps, \<^verbatim>\<open>InitCodeCache\<close> followed by any
  sequence of allocations from any of the code caches, none of them larger than a slab (whose size
  in bytes is a \<^verbatim>\<open>size_t\<close>), gives blocks that are disjoint from each other and from the four generated functions, as long as the
  code heap has pages for the slabs.\<close>

theorem code_blocks_disjoint:
  assumes "0 < slab_size" "48 \<le> slab_size * PAGE_SIZE_BYTES" "slab_size * PAGE_SIZE_BYTES < 2 ^ 64"
    and "\<forall>(kind, nbytes) \<in> set reqs. nbytes \<le> slab_size * PAGE_SIZE_BYTES"
    and "InitCodeCache AllocateCodePages (InitHeap (static_memory pages heap_pages)) slab_size caches0 = (s, caches, generated)"
    and "allocate_all AllocateCodePages s caches reqs = (s', caches', addrs)"
    and "slabs_ok caches'" "i < j" "j < length (generated_functions @ reqs)"
  shows "block ((generated @ addrs) ! i) (snd ((generated_functions @ reqs) ! i)) \<inter>
         block ((generated @ addrs) ! j) (snd ((generated_functions @ reqs) ! j)) = {}"
proof -
  obtain s1 c1 where c1: "construct_caches AllocateCodePages (InitHeap (static_memory pages heap_pages)) slab_size caches0 = (s1, c1)"
      "allocate_all AllocateCodePages s1 c1 generated_functions = (s, caches, generated)"
    using assms(5) by (auto simp: InitCodeCache_def split: prod.splits)
  have "slabs_ok c1" using allocate_all_slabs [OF c1(2)] allocate_all_slabs [OF assms(6)] assms(7) by blast
  note init = code_pages.construct_caches_inv [OF InitHeap_sources(1) assms(1) c1(1) assms(3) this]
  have "allocate_all AllocateCodePages s1 c1 (generated_functions @ reqs) = (s', caches', generated @ addrs)"
    using allocate_all_append [OF c1(2) assms(6)] .
  moreover have "\<forall>(k, n) \<in> set (generated_functions @ reqs). n \<le> slab_num_bytes (c1 k)"
    using init assms(2,4) by (auto simp: generated_functions_def DIRECT_EDGE_ENTRY_CODE_SIZE_BYTES_def INDIRECT_EDGE_ENTRY_CODE_SIZE_BYTES_def)
  ultimately show ?thesis
    using code_pages.allocate_all_inv init assms(7-9) by blast
qed

theorem code_blocks_disjoint_witness:
  "case InitCodeCache AllocateCodePages (InitHeap (static_memory 0x100000 0x900000)) 8 (\<lambda>_. \<lparr>slab_num_pages = 0, slab_num_bytes = 0, slab_byte_offset = 0, slab_list = []\<rparr>) of
     (s, caches, generated) \<Rightarrow>
       generated = [Some 0x120000, Some 0x120030, Some 0x120060, Some 0x120090] \<and>
       (case allocate_all AllocateCodePages s caches [(kCodeCacheKindEdge, 32600), (kCodeCacheKindHot, 20)] of
          (s', caches', addrs) \<Rightarrow> addrs = [Some 0x128000, Some 0x100000] \<and>
            block ((generated @ addrs) ! 3) 48 \<inter> block ((generated @ addrs) ! 4) 32600 = {})"
proof -
  let ?c0 = "\<lambda>_. \<lparr>slab_num_pages = 0, slab_num_bytes = 0, slab_byte_offset = 0, slab_list = []\<rparr>"
  let ?reqs = "[(kCodeCacheKindEdge, 32600), (kCodeCacheKindHot, 20)]"
  obtain s caches g where i: "InitCodeCache AllocateCodePages (InitHeap (static_memory 0x100000 0x900000)) 8 ?c0 = (s, caches, g)"
    by (metis prod_cases3)
  obtain s' caches' a where r: "allocate_all AllocateCodePages s caches ?reqs = (s', caches', a)"
    by (metis prod_cases3)
  have g: "g = [Some 0x120000, Some 0x120030, Some 0x120060, Some 0x120090] \<and> a = [Some 0x128000, Some 0x100000] \<and>
      slabs_ok caches'"
    using r i by (auto simp: InitCodeCache_def construct_caches_def kinds_def generated_functions_def CodeCache_new_def
        AllocateSlab_def AllocateCodePages_def AllocatePages_def InitHeap_def static_memory_def PageAllocator_def AllocateCode_def
        CodeCache_AllocateCode_def Let_def page_addr_def kCodeCacheNumPages_def PAGE_SIZE_BYTES_def
        DIRECT_EDGE_ENTRY_CODE_SIZE_BYTES_def INDIRECT_EDGE_ENTRY_CODE_SIZE_BYTES_def index_pointer_def slabs_ok_def all_kinds)
  show ?thesis
    using code_blocks_disjoint [OF _ _ _ _ i r, of 3 4] g
    by (simp add: i r generated_functions_def DIRECT_EDGE_ENTRY_CODE_SIZE_BYTES_def PAGE_SIZE_BYTES_def
        del: allocate_all.simps)
qed

end
