(* ===== verification/Slab.thy ===== *)
theory Slab
  imports Code_Cache Locks
begin

text \<open>
  The slab allocator behind operators \<^verbatim>\<open>new\<close> and \<^verbatim>\<open>delete\<close> (\<^verbatim>\<open>granary/base/new.h\<close> and
  \<^verbatim>\<open>new.cc\<close>), the second client of the page allocator. Its two lists are threaded through the
  memory it manages: the first word of a slab links to the previous slab, the first word of a
  freed object to the next free object. The model has that memory as a store from addresses
  to pointer-sized words (0 is the null pointer), which the clients write too, so that the
  theorems cover the aliasing of live objects, free objects and slab headers. The two spin
  locks make each part of an operation atomic.
\<close>

section \<open>Model\<close>

definition kNewAllocatorNumPagesPerSlab :: nat where
  "kNewAllocatorNumPagesPerSlab = 4"

definition kNewAllocatorNumBytesPerSlab :: nat where
  "kNewAllocatorNumBytesPerSlab = PAGE_SIZE_BYTES * kNewAllocatorNumPagesPerSlab"

type_synonym store = "nat \<Rightarrow> nat"

definition POINTER_SIZE :: nat where
  "POINTER_SIZE = 8"

record slab_allocator =
  sa_offset :: nat
  start_offset :: nat
  max_offset :: nat
  allocation_size :: nat
  object_size :: nat
  sa_slab_list :: nat
  free_list :: nat

definition SlabAllocator :: "nat \<Rightarrow> nat \<Rightarrow> nat \<Rightarrow> nat \<Rightarrow> slab_allocator" where
  "SlabAllocator start end_offset aligned_size sizeof_T =
     \<lparr>sa_offset = end_offset, start_offset = start, max_offset = end_offset,
      allocation_size = aligned_size, object_size = sizeof_T, sa_slab_list = 0, free_list = 0\<rparr>"

text \<open>Operations return \<open>None\<close> where the code writes the header of a slab through a null pointer
  because the page allocator had no pages left.\<close>

definition New_AllocateSlab :: "'s pages_fn \<Rightarrow> 's \<Rightarrow> store \<Rightarrow> nat \<Rightarrow> ('s \<times> store \<times> nat) option" where
  "New_AllocateSlab alloc s mem next_slab =
     (case alloc s kNewAllocatorNumPagesPerSlab of
        (s', None) \<Rightarrow> None
      | (s', Some slab_memory) \<Rightarrow> Some (s', mem(slab_memory := next_slab), slab_memory))"

definition SlabForAllocation ::
  "'s pages_fn \<Rightarrow> 's \<Rightarrow> store \<Rightarrow> slab_allocator \<Rightarrow> ('s \<times> store \<times> slab_allocator) option" where
  "SlabForAllocation alloc s mem a =
     (if sa_offset a \<ge> max_offset a then
        case New_AllocateSlab alloc s mem (sa_slab_list a) of
          None \<Rightarrow> None
        | Some (s', mem', slab) \<Rightarrow> Some (s', mem', a\<lparr>sa_slab_list := slab, sa_offset := start_offset a\<rparr>)
      else Some (s, mem, a))"

definition AllocateFromFreeList :: "store \<Rightarrow> slab_allocator \<Rightarrow> slab_allocator \<times> nat" where
  "AllocateFromFreeList mem a =
     (if free_list a = 0 then (a, 0) else (a\<lparr>free_list := mem (free_list a)\<rparr>, free_list a))"

definition Allocate ::
  "'s pages_fn \<Rightarrow> 's \<Rightarrow> store \<Rightarrow> slab_allocator \<Rightarrow> ('s \<times> store \<times> slab_allocator \<times> nat) option" where
  "Allocate alloc s mem a =
     (let (a1, address) = AllocateFromFreeList mem a
      in if address = 0 then
           case SlabForAllocation alloc s mem a1 of
             None \<Rightarrow> None
           | Some (s', mem', a2) \<Rightarrow>
               Some (s', mem', a2\<lparr>sa_offset := sa_offset a2 + allocation_size a2\<rparr>, sa_slab_list a2 + sa_offset a2)
         else Some (s, mem, a1, address))"

definition Free :: "store \<Rightarrow> slab_allocator \<Rightarrow> nat \<Rightarrow> store \<times> slab_allocator" where
  "Free mem a address = (mem(address := free_list a), a\<lparr>free_list := address\<rparr>)"

text \<open>The loop of the destructor, over the slabs from \<open>slab\<close> on.\<close>

partial_function (option) free_slabs :: "store \<Rightarrow> ('s \<Rightarrow> nat \<Rightarrow> nat \<Rightarrow> 's) \<Rightarrow> slab_allocator \<Rightarrow> nat \<Rightarrow> 's \<Rightarrow> 's option" where
  "free_slabs mem dealloc a slab s =
     (if slab = 0 then Some s
      else free_slabs mem dealloc a (mem slab) (dealloc s (sa_slab_list a) kNewAllocatorNumPagesPerSlab))"

definition SlabAllocator_destroy ::
  "store \<Rightarrow> ('s \<Rightarrow> nat \<Rightarrow> nat \<Rightarrow> 's) \<Rightarrow> slab_allocator \<Rightarrow> 's \<Rightarrow> ('s \<times> slab_allocator) option" where
  "SlabAllocator_destroy mem dealloc a s =
     map_option (\<lambda>s'. (s', a\<lparr>sa_slab_list := 0, free_list := 0\<rparr>)) (free_slabs mem dealloc a (sa_slab_list a) s)"

subsection \<open>The constants of OperatorNewAllocator\<close>

text \<open>The layout of a class of \<open>sizeof_T\<close> bytes with alignment \<open>align\<close> that asks for alignment
  \<open>requested\<close>. The subtractions of \<^verbatim>\<open>kNumObjsPerSlab\<close> are of 64-bit unsigned numbers.\<close>

definition kMinimumAlignment :: "nat \<Rightarrow> nat \<Rightarrow> nat" where
  "kMinimumAlignment requested align = (if requested < align then align else requested)"

definition kAlignedSize :: "nat \<Rightarrow> nat \<Rightarrow> nat \<Rightarrow> nat" where
  "kAlignedSize sizeof_T requested align = align_to sizeof_T (kMinimumAlignment requested align)"

definition kStartOffset :: "nat \<Rightarrow> nat \<Rightarrow> nat" where
  "kStartOffset requested align = align_to POINTER_SIZE (kMinimumAlignment requested align)"

definition kNumObjsPerSlab :: "nat \<Rightarrow> nat \<Rightarrow> nat \<Rightarrow> nat" where
  "kNumObjsPerSlab sizeof_T requested align =
     nat ((int kNewAllocatorNumBytesPerSlab - int (kStartOffset requested align) -
           (int (kAlignedSize sizeof_T requested align) - 1)) mod 2 ^ 64) div kAlignedSize sizeof_T requested align"

definition kEndOffset :: "nat \<Rightarrow> nat \<Rightarrow> nat \<Rightarrow> nat" where
  "kEndOffset sizeof_T requested align =
     kStartOffset requested align + kNumObjsPerSlab sizeof_T requested align * kAlignedSize sizeof_T requested align"

definition OperatorNewAllocator :: "nat \<Rightarrow> nat \<Rightarrow> nat \<Rightarrow> slab_allocator" where
  "OperatorNewAllocator sizeof_T requested align =
     SlabAllocator (kStartOffset requested align) (kEndOffset sizeof_T requested align)
       (kAlignedSize sizeof_T requested align) sizeof_T"

section \<open>The invariant\<close>

text \<open>A linked list in the store.\<close>

fun chain :: "store \<Rightarrow> nat \<Rightarrow> nat list \<Rightarrow> bool" where
  "chain mem p [] \<longleftrightarrow> p = 0"
| "chain mem p (x # xs) \<longleftrightarrow> p = x \<and> x \<noteq> 0 \<and> chain mem (mem x) xs"

lemma chain_update [simp]: "y \<notin> set xs \<Longrightarrow> chain (mem(y := v)) p xs = chain mem p xs"
  by (induction xs arbitrary: p) auto

definition obj :: "slab_allocator \<Rightarrow> nat \<Rightarrow> nat set" where
  "obj a x = {x..<x + allocation_size a}"

definition hdr :: "nat \<Rightarrow> nat set" where
  "hdr b = {b..<b + POINTER_SIZE}"

definition room :: "slab_allocator \<Rightarrow> nat set" where
  "room a = {sa_slab_list a + sa_offset a..<sa_slab_list a + max_offset a}"

definition layout_ok :: "nat \<Rightarrow> slab_allocator \<Rightarrow> bool" where
  "layout_ok al a \<longleftrightarrow> POINTER_SIZE \<le> allocation_size a \<and> POINTER_SIZE \<le> start_offset a \<and>
     start_offset a < max_offset a \<and> max_offset a \<le> kNewAllocatorNumBytesPerSlab \<and>
     allocation_size a dvd max_offset a - start_offset a \<and>
     al dvd start_offset a \<and> al dvd allocation_size a \<and> al dvd PAGE_SIZE_BYTES"

text \<open>The regions: the objects \<open>S\<close>, the headers of the slabs \<open>H\<close> and the room left in the current
  slab are disjoint parts of the memory \<open>A\<close> that the page allocator gave out.\<close>

definition regions_ok :: "nat set \<Rightarrow> slab_allocator \<Rightarrow> nat set \<Rightarrow> nat set \<Rightarrow> bool" where
  "regions_ok A a S H \<longleftrightarrow> room a \<subseteq> A \<and> (\<forall>x \<in> S. x \<noteq> 0 \<and> obj a x \<subseteq> A \<and> obj a x \<inter> room a = {}) \<and>
     (\<forall>b \<in> H. b \<noteq> 0 \<and> hdr b \<subseteq> A \<and> hdr b \<inter> room a = {}) \<and> (\<forall>x \<in> S. \<forall>b \<in> H. obj a x \<inter> hdr b = {}) \<and>
     (\<forall>x \<in> S. \<forall>y \<in> S. x \<noteq> y \<longrightarrow> obj a x \<inter> obj a y = {})"

definition offsets_ok :: "nat \<Rightarrow> slab_allocator \<Rightarrow> bool" where
  "offsets_ok al a \<longleftrightarrow> sa_offset a \<le> max_offset a \<and> allocation_size a dvd max_offset a - sa_offset a \<and>
     al dvd sa_offset a \<and> al dvd sa_slab_list a \<and> (sa_slab_list a = 0 \<longrightarrow> sa_offset a = max_offset a)"

definition lists_ok :: "store \<Rightarrow> slab_allocator \<Rightarrow> nat set \<Rightarrow> nat list \<Rightarrow> nat list \<Rightarrow> bool" where
  "lists_ok mem a live fl slabs \<longleftrightarrow> chain mem (free_list a) fl \<and> distinct fl \<and> set fl \<inter> live = {} \<and>
     chain mem (sa_slab_list a) slabs"

type_synonym 's slab_state = "'s \<times> store \<times> slab_allocator \<times> nat set"

fun slab_inv :: "('s \<Rightarrow> nat set \<Rightarrow> bool) \<Rightarrow> nat \<Rightarrow> 's slab_state \<Rightarrow> bool" where
  "slab_inv pinv al (s, mem, a, live) \<longleftrightarrow>
     (\<exists>A fl slabs. pinv s A \<and> layout_ok al a \<and> offsets_ok al a \<and> lists_ok mem a live fl slabs \<and>
        regions_ok A a (set fl \<union> live) (set slabs) \<and> (\<forall>x \<in> set fl \<union> live. al dvd x))"

text \<open>The steps of the clients: new, delete of an object they hold, a write into an object they
  hold, and pages taken by another allocator, whose size in bytes is a \<^verbatim>\<open>size_t\<close>. A request for
  pages that fails ends in the assertion of \<^verbatim>\<open>AllocatePagesSlow\<close>, so no step follows it.\<close>

inductive slab_step :: "'s pages_fn \<Rightarrow> 's slab_state \<Rightarrow> 's slab_state \<Rightarrow> bool" for alloc where
  step_new: "Allocate alloc s mem a = Some (s', mem', a', addr) \<Longrightarrow>
     slab_step alloc (s, mem, a, live) (s', mem', a', insert addr live)"
| step_delete: "addr \<in> live \<Longrightarrow> Free mem a addr = (mem', a') \<Longrightarrow>
     slab_step alloc (s, mem, a, live) (s, mem', a', live - {addr})"
| step_write: "x \<in> live \<Longrightarrow> x \<le> y \<Longrightarrow> y + POINTER_SIZE \<le> x + allocation_size a \<Longrightarrow>
     slab_step alloc (s, mem, a, live) (s, mem(y := v), a, live)"
| step_pages: "0 < num \<Longrightarrow> num * PAGE_SIZE_BYTES < 2 ^ 64 \<Longrightarrow> alloc s num = (s', Some b) \<Longrightarrow>
     slab_step alloc (s, mem, a, live) (s', mem, a, live)"

section \<open>Operations keep the invariant\<close>

lemma obj_mem: "layout_ok al a \<Longrightarrow> x \<in> obj a x"
  by (auto simp: layout_ok_def obj_def POINTER_SIZE_def)

lemma hdr_mem: "b \<in> hdr b"
  by (auto simp: hdr_def POINTER_SIZE_def)

lemma regions_okD:
  assumes "regions_ok A a S H"
  shows "room a \<subseteq> A" "x \<in> S \<Longrightarrow> x \<noteq> 0" "x \<in> S \<Longrightarrow> obj a x \<subseteq> A" "x \<in> S \<Longrightarrow> obj a x \<inter> room a = {}"
    "b \<in> H \<Longrightarrow> b \<noteq> 0" "b \<in> H \<Longrightarrow> hdr b \<subseteq> A" "b \<in> H \<Longrightarrow> hdr b \<inter> room a = {}"
    "x \<in> S \<Longrightarrow> b \<in> H \<Longrightarrow> obj a x \<inter> hdr b = {}" "x \<in> S \<Longrightarrow> y \<in> S \<Longrightarrow> x \<noteq> y \<Longrightarrow> obj a x \<inter> obj a y = {}"
  using assms by (simp_all add: regions_ok_def)

lemma regions_ok_mono: "regions_ok A a S H \<Longrightarrow> A \<subseteq> B \<Longrightarrow> regions_ok B a S H"
  unfolding regions_ok_def by (meson order_trans)

lemma regions_ok_carve:
  assumes "regions_ok A a S H" "obj a addr \<subseteq> room a" "room a' \<subseteq> room a - obj a addr" "obj a' = obj a" "addr \<noteq> 0"
  shows "regions_ok A a' (insert addr S) H"
  unfolding regions_ok_def assms(4)
proof (intro conjI ballI impI)
  show "room a' \<subseteq> A" using assms(3) regions_okD(1) [OF assms(1)] by blast
next
  fix x assume "x \<in> insert addr S"
  then consider "x = addr" | "x \<in> S" by blast
  then show "x \<noteq> 0" "obj a x \<subseteq> A" "obj a x \<inter> room a' = {}"
    using assms(2,3,5) regions_okD(1-4) [OF assms(1)] by (cases; blast)+
next
  fix b assume "b \<in> H"
  then show "b \<noteq> 0" "hdr b \<subseteq> A" "hdr b \<inter> room a' = {}" using assms(3) regions_okD(5-7) [OF assms(1)] by blast+
next
  fix x b assume "x \<in> insert addr S" "b \<in> H"
  then show "obj a x \<inter> hdr b = {}" using assms(2) regions_okD(7,8) [OF assms(1)] by blast
next
  fix x y assume "x \<in> insert addr S" "y \<in> insert addr S" "x \<noteq> y"
  then show "obj a x \<inter> obj a y = {}" using assms(2) regions_okD(4,9) [OF assms(1)] by blast
qed

lemma regions_ok_new_slab:
  assumes "regions_ok A a S H" "B \<inter> A = {}" "hdr b \<subseteq> B" "room a' \<subseteq> B" "hdr b \<inter> room a' = {}" "obj a' = obj a" "b \<noteq> 0"
  shows "regions_ok (A \<union> B) a' S (insert b H)"
  unfolding regions_ok_def assms(6)
proof (intro conjI ballI impI)
  show "room a' \<subseteq> A \<union> B" using assms(4) by blast
next
  fix x assume x: "x \<in> S"
  then show "x \<noteq> 0" "obj a x \<subseteq> A \<union> B" "obj a x \<inter> room a' = {}"
    using assms(2,4) regions_okD(2,3) [OF assms(1) x] by blast+
next
  fix c assume "c \<in> insert b H"
  then consider "c = b" | "c \<in> H" by blast
  then show "c \<noteq> 0" "hdr c \<subseteq> A \<union> B" "hdr c \<inter> room a' = {}"
    using assms(2-5,7) regions_okD(5,6) [OF assms(1)] by (cases; blast)+
next
  fix x c assume x: "x \<in> S" and "c \<in> insert b H"
  then consider "c = b" | "c \<in> H" by blast
  then show "obj a x \<inter> hdr c = {}"
    using assms(2,3) regions_okD(3,8) [OF assms(1) x] by (cases; blast)
next
  fix x y assume "x \<in> S" "y \<in> S" "x \<noteq> y"
  then show "obj a x \<inter> obj a y = {}" using regions_okD(9) [OF assms(1)] by blast
qed

lemma obj_not_hdr:
  assumes "regions_ok A a S H" "x \<in> S" "y \<in> obj a x"
  shows "y \<notin> H"
proof
  assume "y \<in> H"
  then have "obj a x \<inter> hdr y = {}" using assms by (auto simp: regions_ok_def)
  then show False using assms(3) hdr_mem by blast
qed

lemma AllocateFromFreeList_inv:
  assumes "slab_inv pinv al (s, mem, a, live)" "AllocateFromFreeList mem a = (a', addr)" "addr \<noteq> 0"
  shows "slab_inv pinv al (s, mem, a', insert addr live) \<and> al dvd addr \<and>
    (\<forall>x \<in> live. obj a addr \<inter> obj a x = {}) \<and> addr \<notin> live"
proof -
  obtain A fl slabs where inv: "pinv s A" "layout_ok al a" "offsets_ok al a" "lists_ok mem a live fl slabs"
      "regions_ok A a (set fl \<union> live) (set slabs)" "\<forall>x \<in> set fl \<union> live. al dvd x"
    using assms(1) by auto
  have a': "a' = a\<lparr>free_list := mem (free_list a)\<rparr>" "addr = free_list a"
    using assms(2,3) by (auto simp: AllocateFromFreeList_def split: if_splits)
  then obtain fl' where fl: "fl = addr # fl'"
    using inv(4) assms(3) by (cases fl) (auto simp: lists_ok_def)
  have "lists_ok mem a' (insert addr live) fl' slabs" using inv(4) by (auto simp: lists_ok_def a' fl)
  moreover have "set fl \<union> live = set fl' \<union> insert addr live" by (auto simp: fl)
  ultimately have "slab_inv pinv al (s, mem, a', insert addr live)"
    using inv by (auto simp: a' layout_ok_def offsets_ok_def regions_ok_def room_def obj_def)
  moreover have "addr \<notin> live" using inv(4) by (auto simp: lists_ok_def fl)
  ultimately show ?thesis using inv(5,6) by (auto simp: regions_ok_def fl)
qed

lemma Free_inv:
  assumes "slab_inv pinv al (s, mem, a, live)" "addr \<in> live" "Free mem a addr = (mem', a')"
  shows "slab_inv pinv al (s, mem', a', live - {addr})"
proof -
  obtain A fl slabs where inv: "pinv s A" "layout_ok al a" "offsets_ok al a" "lists_ok mem a live fl slabs"
      "regions_ok A a (set fl \<union> live) (set slabs)" "\<forall>x \<in> set fl \<union> live. al dvd x"
    using assms(1) by auto
  have a': "mem' = mem(addr := free_list a)" "a' = a\<lparr>free_list := addr\<rparr>" using assms(3) by (auto simp: Free_def)
  have "addr \<notin> set slabs" "addr \<noteq> 0" "addr \<notin> set fl"
    using inv(4,5) assms(2) obj_not_hdr [OF inv(5) _ obj_mem [OF inv(2)]]
    by (auto simp: regions_ok_def lists_ok_def)
  then have "lists_ok mem' a' (live - {addr}) (addr # fl) slabs"
    using inv(4) assms(2) by (auto simp: lists_ok_def a')
  moreover have frame: "layout_ok al a' = layout_ok al a" "offsets_ok al a' = offsets_ok al a"
      "regions_ok A a' = regions_ok A a"
    by (simp_all add: a' layout_ok_def offsets_ok_def regions_ok_def room_def obj_def fun_eq_iff)
  moreover have "set (addr # fl) \<union> (live - {addr}) = set fl \<union> live" using assms(2) by auto
  ultimately show ?thesis
    using inv frame unfolding slab_inv.simps by metis
qed

lemma write_inv:
  assumes "slab_inv pinv al (s, mem, a, live)" "x \<in> live" "x \<le> y" "y + POINTER_SIZE \<le> x + allocation_size a"
  shows "slab_inv pinv al (s, mem(y := v), a, live)"
proof -
  obtain A fl slabs where inv: "pinv s A" "layout_ok al a" "offsets_ok al a" "lists_ok mem a live fl slabs"
      "regions_ok A a (set fl \<union> live) (set slabs)" "\<forall>x \<in> set fl \<union> live. al dvd x"
    using assms(1) by auto
  have y: "y \<in> obj a x" using assms(3,4) by (auto simp: obj_def POINTER_SIZE_def)
  have "y \<notin> set slabs" using obj_not_hdr [OF inv(5) _ y] assms(2) by blast
  moreover have "y \<notin> set fl"
  proof
    assume yf: "y \<in> set fl"
    then have "y \<noteq> x" using inv(4) assms(2) by (auto simp: lists_ok_def)
    then have "obj a x \<inter> obj a y = {}" using inv(5) yf assms(2) by (auto simp: regions_ok_def)
    then show False using y obj_mem [OF inv(2)] by blast
  qed
  ultimately have "lists_ok (mem(y := v)) a live fl slabs" using inv(4) by (auto simp: lists_ok_def)
  then show ?thesis using inv by auto
qed

text \<open>What the slab allocator needs of its source of pages beyond \<open>page_source\<close>: blocks are
  aligned to pages and not at the null address.\<close>

locale aligned_source = page_source +
  assumes alloc_aligned: "pinv s A \<Longrightarrow> 0 < num \<Longrightarrow> num * PAGE_SIZE_BYTES < 2 ^ 64 \<Longrightarrow> alloc s num = (s', Some a) \<Longrightarrow> 0 < a \<and> PAGE_SIZE_BYTES dvd a"

context aligned_source
begin

text \<open>Carving an object out of a current slab with room.\<close>

lemma carve_inv:
  assumes "slab_inv pinv al (s, mem, a, live)" "sa_offset a < max_offset a"
    and "a' = a\<lparr>sa_offset := sa_offset a + allocation_size a\<rparr>" "addr = sa_slab_list a + sa_offset a"
  shows "slab_inv pinv al (s, mem, a', insert addr live) \<and> al dvd addr \<and>
    (\<forall>x \<in> live. obj a addr \<inter> obj a x = {}) \<and> addr \<notin> live \<and> addr \<noteq> 0"
proof -
  obtain A fl slabs where inv: "pinv s A" "layout_ok al a" "offsets_ok al a" "lists_ok mem a live fl slabs"
      "regions_ok A a (set fl \<union> live) (set slabs)" "\<forall>x \<in> set fl \<union> live. al dvd x"
    using assms(1) by auto
  have fit: "sa_offset a + allocation_size a \<le> max_offset a"
    using inv(3) assms(2) by (auto simp: offsets_ok_def dest: dvd_imp_le)
  have room: "obj a addr \<subseteq> room a" "room a' \<subseteq> room a" "room a' \<inter> obj a addr = {}"
    using fit by (auto simp: obj_def room_def assms(3,4))
  have new: "\<forall>x \<in> set fl \<union> live. obj a x \<inter> obj a addr = {}" "\<forall>b \<in> set slabs. obj a addr \<inter> hdr b = {}"
    using regions_okD(4,7) [OF inv(5)] room(1) by fastforce+
  have fresh: "addr \<notin> set fl \<union> live" using new(1) obj_mem [OF inv(2), of addr] by blast
  have "sa_slab_list a \<noteq> 0" using inv(3) assms(2) by (auto simp: offsets_ok_def)
  then have nz: "addr \<noteq> 0" by (simp add: assms(4))
  have dv: "al dvd addr" using inv(3) by (auto simp: offsets_ok_def assms(4))
  have "allocation_size a dvd max_offset a - sa_offset a - allocation_size a"
    using inv(3) dvd_diff_nat [of "allocation_size a" "max_offset a - sa_offset a" "allocation_size a"]
    by (simp add: offsets_ok_def)
  then have "offsets_ok al a'"
    using inv(2,3) fit \<open>sa_slab_list a \<noteq> 0\<close> unfolding offsets_ok_def layout_ok_def assms(3)
    by (simp add: diff_diff_left)
  moreover have "layout_ok al a'" using inv(2) by (simp add: layout_ok_def assms(3))
  moreover have "lists_ok mem a' (insert addr live) fl slabs"
    using inv(4) fresh by (simp add: lists_ok_def assms(3))
  moreover have "obj a' = obj a" by (auto simp: obj_def assms(3))
  then have "regions_ok A a' (set fl \<union> insert addr live) (set slabs)"
    using regions_ok_carve [OF inv(5) room(1), of a'] room(2,3) nz by auto
  ultimately have "slab_inv pinv al (s, mem, a', insert addr live)"
    using inv(1,6) dv by auto
  then show ?thesis using dv new(1) fresh nz by (auto simp: Int_commute)
qed

lemma SlabForAllocation_inv:
  assumes "slab_inv pinv al (s, mem, a, live)" "SlabForAllocation alloc s mem a = Some (s', mem', a')"
  shows "slab_inv pinv al (s', mem', a', live) \<and> sa_offset a' < max_offset a' \<and> allocation_size a' = allocation_size a"
proof (cases "sa_offset a < max_offset a")
  case True
  then show ?thesis using assms by (auto simp: SlabForAllocation_def)
next
  case False
  obtain A fl slabs where inv: "pinv s A" "layout_ok al a" "offsets_ok al a" "lists_ok mem a live fl slabs"
      "regions_ok A a (set fl \<union> live) (set slabs)" "\<forall>x \<in> set fl \<union> live. al dvd x"
    using assms(1) by auto
  obtain b where b: "alloc s kNewAllocatorNumPagesPerSlab = (s', Some b)" "mem' = mem(b := sa_slab_list a)"
      "a' = a\<lparr>sa_slab_list := b, sa_offset := start_offset a\<rparr>"
    using assms(2) False by (auto simp: SlabForAllocation_def New_AllocateSlab_def split: option.splits prod.splits)
  have n: "0 < kNewAllocatorNumPagesPerSlab" "kNewAllocatorNumPagesPerSlab * PAGE_SIZE_BYTES < 2 ^ 64"
    by (simp_all add: kNewAllocatorNumPagesPerSlab_def PAGE_SIZE_BYTES_def)
  let ?B = "{b..<b + kNewAllocatorNumBytesPerSlab}"
  have B: "?B \<inter> A = {}" "pinv s' (A \<union> ?B)" and al: "0 < b" "PAGE_SIZE_BYTES dvd b"
    using alloc_fresh [OF inv(1) n b(1)] alloc_aligned [OF inv(1) n b(1)]
    by (auto simp: kNewAllocatorNumBytesPerSlab_def mult.commute)
  have reg: "hdr b \<subseteq> ?B" "room a' \<subseteq> ?B" "hdr b \<inter> room a' = {}"
    using inv(2) by (auto simp: hdr_def room_def b(3) layout_ok_def)
  have "b \<notin> A" using reg(1) hdr_mem B(1) by blast
  then have "b \<notin> set slabs" "b \<notin> set fl"
    using regions_okD(6) [OF inv(5), of b] regions_okD(3) [OF inv(5), of b]
      hdr_mem [of b] obj_mem [OF inv(2), of b] by auto
  then have lists: "lists_ok mem' a' live fl (b # slabs)" using inv(4) al by (simp add: lists_ok_def b)
  have "al dvd b" using inv(2) al by (auto simp: layout_ok_def intro: dvd_trans)
  then have offs: "offsets_ok al a'" using inv(2) al by (auto simp: layout_ok_def offsets_ok_def b(3))
  have lay: "layout_ok al a'" using inv(2) by (simp add: layout_ok_def b(3))
  have "obj a' = obj a" by (auto simp: obj_def b(3))
  then have "regions_ok (A \<union> ?B) a' (set fl \<union> live) (set (b # slabs))"
    using regions_ok_new_slab [OF inv(5) B(1) reg] al(1) by simp
  with lists offs lay have "slab_inv pinv al (s', mem', a', live)" using B(2) inv(6) unfolding slab_inv.simps by blast
  then show ?thesis using inv(2) by (simp add: b(3) layout_ok_def)
qed

lemma Allocate_inv:
  assumes "slab_inv pinv al (s, mem, a, live)" "Allocate alloc s mem a = Some (s', mem', a', addr)"
  shows "slab_inv pinv al (s', mem', a', insert addr live)" "al dvd addr"
    "\<forall>x \<in> live. obj a addr \<inter> obj a x = {}" "addr \<notin> live" "addr \<noteq> 0"
proof -
  obtain a1 p where p: "AllocateFromFreeList mem a = (a1, p)" by (cases "AllocateFromFreeList mem a")
  have "slab_inv pinv al (s', mem', a', insert addr live) \<and> al dvd addr \<and>
      (\<forall>x \<in> live. obj a addr \<inter> obj a x = {}) \<and> addr \<notin> live \<and> addr \<noteq> 0"
  proof (cases "p = 0")
    case False
    then show ?thesis
      using AllocateFromFreeList_inv [OF assms(1) p False] assms(2) p by (auto simp: Allocate_def)
  next
    case True
    then have "a1 = a" using p by (auto simp: AllocateFromFreeList_def split: if_splits)
    then obtain a2 where a2: "SlabForAllocation alloc s mem a = Some (s', mem', a2)"
        "a' = a2\<lparr>sa_offset := sa_offset a2 + allocation_size a2\<rparr>" "addr = sa_slab_list a2 + sa_offset a2"
      using assms(2) p True by (auto simp: Allocate_def split: option.splits)
    note sl = SlabForAllocation_inv [OF assms(1) a2(1)]
    then have "obj a2 = obj a" by (auto simp: obj_def)
    then show ?thesis using carve_inv [OF _ _ a2(2,3)] sl by metis
  qed
  then show "slab_inv pinv al (s', mem', a', insert addr live)" "al dvd addr"
    "\<forall>x \<in> live. obj a addr \<inter> obj a x = {}" "addr \<notin> live" "addr \<noteq> 0" by auto
qed

lemma pages_inv_step:
  assumes "slab_inv pinv al (s, mem, a, live)" "0 < num" "num * PAGE_SIZE_BYTES < 2 ^ 64" "alloc s num = (s', Some b)"
  shows "slab_inv pinv al (s', mem, a, live)"
proof -
  obtain A fl slabs where inv: "pinv s A" "layout_ok al a" "offsets_ok al a" "lists_ok mem a live fl slabs"
      "regions_ok A a (set fl \<union> live) (set slabs)" "\<forall>x \<in> set fl \<union> live. al dvd x"
    using assms(1) by auto
  let ?B = "{b..<b + num * PAGE_SIZE_BYTES}"
  have "regions_ok (A \<union> ?B) a (set fl \<union> live) (set slabs)"
    using regions_ok_mono [OF inv(5)] by simp
  then show ?thesis using inv alloc_fresh [OF inv(1) assms(2-4)] unfolding slab_inv.simps by blast
qed

lemma slab_step_inv: "slab_step alloc x y \<Longrightarrow> slab_inv pinv al x \<Longrightarrow> slab_inv pinv al y"
  by (induction rule: slab_step.induct) (auto simp del: slab_inv.simps intro: Allocate_inv Free_inv write_inv pages_inv_step)

lemma slab_reachable_inv:
  assumes "reachable (\<lambda>x. x = (s0, mem0, a0, {})) (slab_step alloc) x"
    and "slab_inv pinv al (s0, mem0, a0, {})"
  shows "slab_inv pinv al x"
  using assms by (induction rule: reachable.induct) (auto simp del: slab_inv.simps intro: slab_step_inv)

end

section \<open>The data heap, and the layout of OperatorNewAllocator\<close>

text \<open>The arrays of page frames are aligned to pages.\<close>

definition aligned_heap :: "memory \<Rightarrow> nat set \<Rightarrow> bool" where
  "aligned_heap g A \<longleftrightarrow> data_heap g A \<and> 0 < heap (gHeapMemory g) \<and> PAGE_SIZE_BYTES dvd heap (gHeapMemory g)"

lemma AllocateDataPages_heap:
  assumes "data_heap g A" "0 < num" "num * PAGE_SIZE_BYTES < 2 ^ 64" "AllocateDataPages g num = (g', Some a)"
  shows "heap (gHeapMemory g') = heap (gHeapMemory g)"
  using AllocatePages_bytes [OF assms(1) [unfolded data_heap_def] assms(2,3)] assms(4)
  by (auto simp: AllocateDataPages_def kHeapNumPages_def split: prod.splits)

interpretation heap_pages: aligned_source aligned_heap AllocateDataPages
proof
  fix s A num s' a
  assume *: "aligned_heap s A" "(0 :: nat) < num" "num * PAGE_SIZE_BYTES < 2 ^ 64" "AllocateDataPages s num = (s', Some a)"
  then have "data_heap s A" by (simp add: aligned_heap_def)
  from data_pages.alloc_fresh [OF this *(2-4)] AllocateDataPages_heap [OF this *(2-4)] *(1)
  show "{a..<a + num * PAGE_SIZE_BYTES} \<inter> A = {} \<and> aligned_heap s' (A \<union> {a..<a + num * PAGE_SIZE_BYTES})"
    by (simp add: aligned_heap_def)
  show "0 < a \<and> PAGE_SIZE_BYTES dvd a"
    using * by (auto simp: aligned_heap_def AllocateDataPages_def page_addr_def split: prod.splits)
qed

lemma OperatorNewAllocator_layout:
  assumes "0 < align" "kMinimumAlignment requested align dvd PAGE_SIZE_BYTES"
    and "POINTER_SIZE \<le> kAlignedSize sizeof_T requested align"
    and "kStartOffset requested align + 2 * kAlignedSize sizeof_T requested align \<le> Suc kNewAllocatorNumBytesPerSlab"
  shows "layout_ok (kMinimumAlignment requested align) (OperatorNewAllocator sizeof_T requested align)"
proof -
  let ?al = "kMinimumAlignment requested align" and ?asz = "kAlignedSize sizeof_T requested align"
  let ?st = "kStartOffset requested align" and ?n = "kNumObjsPerSlab sizeof_T requested align"
  have al: "0 < ?al" using assms(1) by (auto simp: kMinimumAlignment_def)
  have asz: "0 < ?asz" using assms(3) by (simp add: POINTER_SIZE_def)
  let ?r = "kNewAllocatorNumBytesPerSlab - ?st - (?asz - 1)"
  have "int kNewAllocatorNumBytesPerSlab - int ?st - (int ?asz - 1) = int ?r"
    using assms(4) asz by (simp add: of_nat_diff)
  moreover have "int ?r < 2 ^ 64"
    by (simp add: kNewAllocatorNumBytesPerSlab_def kNewAllocatorNumPagesPerSlab_def PAGE_SIZE_BYTES_def)
  ultimately have n: "?n = ?r div ?asz" by (simp add: kNumObjsPerSlab_def)
  have "?asz \<le> ?r" using assms(4) asz by linarith
  then have "1 \<le> ?n" using asz by (simp add: n div_greater_zero_iff Suc_leI)
  then have "?st < ?st + ?n * ?asz" using asz by simp
  moreover have "?n * ?asz \<le> ?r" by (simp add: n)
  then have "?st + ?n * ?asz \<le> kNewAllocatorNumBytesPerSlab" using assms(4) asz by linarith
  moreover have "POINTER_SIZE \<le> ?st" by (simp add: kStartOffset_def)
  moreover have "?al dvd ?st" "?al dvd ?asz" using al by (simp_all add: kStartOffset_def kAlignedSize_def align_to_dvd)
  ultimately show ?thesis
    using assms(2,3) by (simp add: layout_ok_def OperatorNewAllocator_def SlabAllocator_def kEndOffset_def)
qed

lemma SlabAllocator_inv:
  assumes "layout_ok al (SlabAllocator st en asz sz)" "aligned_heap g A"
  shows "slab_inv aligned_heap al (g, mem, SlabAllocator st en asz sz, {})"
proof -
  let ?a = "SlabAllocator st en asz sz"
  have st: "sa_offset ?a = max_offset ?a" "sa_slab_list ?a = 0" "free_list ?a = 0"
    by (simp_all add: SlabAllocator_def)
  have "al dvd max_offset ?a - start_offset ?a" using assms(1) by (auto simp: layout_ok_def intro: dvd_trans)
  then have "al dvd max_offset ?a" using assms(1) unfolding layout_ok_def by (metis dvd_diffD less_imp_le)
  then show ?thesis using assms st
    by (auto intro!: exI [of _ A] exI [of _ "[]"] simp: offsets_ok_def lists_ok_def regions_ok_def room_def)
qed

lemma slab_step_size:
  "slab_step alloc x y \<Longrightarrow> allocation_size (fst (snd (snd y))) = allocation_size (fst (snd (snd x)))"
  by (induction rule: slab_step.induct)
    (auto simp: Allocate_def AllocateFromFreeList_def SlabForAllocation_def Free_def
      split: option.splits if_splits prod.splits)

lemma slab_reachable_size:
  "reachable (\<lambda>x. x = (s0, mem0, a0, live0)) (slab_step alloc) x \<Longrightarrow> allocation_size (fst (snd (snd x))) = allocation_size a0"
  by (induction rule: reachable.induct) (auto dest: slab_step_size)

text \<open>C27. Operator \<^verbatim>\<open>new\<close> never gives out memory in use. For a class whose layout fits a slab, whatever
  the order of allocations, deletions, writes into live objects and page allocations by others
  since the allocator was constructed, a successful \<^verbatim>\<open>new\<close> gives a non-null address with the
  requested alignment whose object is disjoint from every live object.\<close>

theorem new_exclusive:
  assumes "0 < align" "kMinimumAlignment requested align dvd PAGE_SIZE_BYTES"
    and "POINTER_SIZE \<le> kAlignedSize sizeof_T requested align"
    and "kStartOffset requested align + 2 * kAlignedSize sizeof_T requested align \<le> Suc kNewAllocatorNumBytesPerSlab"
    and "aligned_heap g0 A"
    and "reachable (\<lambda>x. x = (g0, mem0, OperatorNewAllocator sizeof_T requested align, {}))
           (slab_step AllocateDataPages) (g, mem, a, live)"
    and "Allocate AllocateDataPages g mem a = Some (g', mem', a', addr)"
  shows "addr \<noteq> 0 \<and> kMinimumAlignment requested align dvd addr \<and>
    (\<forall>x \<in> live. {addr..<addr + allocation_size a} \<inter> {x..<x + allocation_size a} = {})"
proof -
  have "slab_inv aligned_heap (kMinimumAlignment requested align) (g, mem, a, live)"
    using heap_pages.slab_reachable_inv [OF assms(6)]
      SlabAllocator_inv [OF OperatorNewAllocator_layout [OF assms(1-4), unfolded OperatorNewAllocator_def] assms(5)]
    by (simp add: OperatorNewAllocator_def)
  from heap_pages.Allocate_inv [OF this assms(7)] show ?thesis by (simp add: obj_def)
qed

theorem new_exclusive_witness:
  "case Allocate AllocateDataPages (static_memory 0x100000 0x900000) (\<lambda>_. 0) (OperatorNewAllocator 40 1 8) of
     None \<Rightarrow> False
   | Some (g, mem, a, x) \<Rightarrow>
       (case Allocate AllocateDataPages g mem a of
          None \<Rightarrow> False
        | Some (g', mem', a', y) \<Rightarrow> y = 0x900030 \<and> {y..<y + 40} \<inter> {x..<x + 40} = {})"
proof -
  let ?g0 = "static_memory 0x100000 0x900000" and ?a0 = "OperatorNewAllocator 40 1 8"
  have k: "kMinimumAlignment 1 8 = 8" "kAlignedSize 40 1 8 = 40" "kStartOffset 1 8 = 8"
    by (simp_all add: kMinimumAlignment_def kAlignedSize_def kStartOffset_def align_to_def align_factor_def POINTER_SIZE_def)
  then have a0: "?a0 = \<lparr>sa_offset = 16328, start_offset = 8, max_offset = 16328, allocation_size = 40,
      object_size = 40, sa_slab_list = 0, free_list = 0\<rparr>"
    by (simp add: OperatorNewAllocator_def SlabAllocator_def kEndOffset_def kNumObjsPerSlab_def
        kNewAllocatorNumBytesPerSlab_def kNewAllocatorNumPagesPerSlab_def PAGE_SIZE_BYTES_def)
  note evals = Allocate_def AllocateFromFreeList_def SlabForAllocation_def New_AllocateSlab_def AllocateDataPages_def
    AllocatePages_def static_memory_def PageAllocator_def kHeapNumPages_def kNewAllocatorNumPagesPerSlab_def page_addr_def Let_def
  obtain g mem a where st: "Allocate AllocateDataPages ?g0 (\<lambda>_. 0) ?a0 = Some (g, mem, a, 0x900008)" "allocation_size a = 40"
    unfolding a0 by (simp add: evals)
  obtain g' mem' a' where st': "Allocate AllocateDataPages g mem a = Some (g', mem', a', 0x900030)"
    using st unfolding a0 by (auto simp: evals)
  have "aligned_heap ?g0 {}"
    using InitHeap_sources(2) by (simp add: aligned_heap_def data_heap_def InitHeap_def static_memory_def PageAllocator_def PAGE_SIZE_BYTES_def)
  moreover have "reachable (\<lambda>x. x = (?g0, (\<lambda>_. 0), ?a0, {})) (slab_step AllocateDataPages) (g, mem, a, {0x900008})"
    using step_new [OF st(1), of "{}"] by (rule reachable_step [rotated]) (simp add: reachable_init)
  ultimately show ?thesis
    using new_exclusive [of 8 1 40 ?g0 "{}" "\<lambda>_. 0" g mem a "{0x900008}" g' mem' a' "0x900030"] st st' k
    by (simp add: POINTER_SIZE_def PAGE_SIZE_BYTES_def kNewAllocatorNumBytesPerSlab_def kNewAllocatorNumPagesPerSlab_def)
qed

text \<open>The destructor of a slab allocator returns, for any list of slabs, and what it frees is
  the slab at the head of the list, once per slab: the other slabs are not given back.\<close>

theorem destroy_frees_head:
  assumes "chain mem (sa_slab_list a) slabs"
  shows "SlabAllocator_destroy mem dealloc a s =
    Some (((\<lambda>s. dealloc s (sa_slab_list a) kNewAllocatorNumPagesPerSlab) ^^ length slabs) s,
          a\<lparr>sa_slab_list := 0, free_list := 0\<rparr>)"
proof -
  have "chain mem p xs \<Longrightarrow> free_slabs mem dealloc a p s =
      Some (((\<lambda>s. dealloc s (sa_slab_list a) kNewAllocatorNumPagesPerSlab) ^^ length xs) s)" for p xs s
  proof (induction xs arbitrary: p s)
    case (Cons x xs)
    then show ?case
      using funpow_swap1 [of "\<lambda>s. dealloc s (sa_slab_list a) kNewAllocatorNumPagesPerSlab" "length xs" s]
      by (subst free_slabs.simps) simp
  qed (simp add: free_slabs.simps)
  then show ?thesis using assms by (simp add: SlabAllocator_destroy_def)
qed

theorem destroy_frees_head_witness:
  "SlabAllocator_destroy ((\<lambda>_. 0)(0x8000 := 0x4000)) (\<lambda>frees addr num. (addr, num) # frees)
     \<lparr>sa_offset = 8, start_offset = 8, max_offset = 16328, allocation_size = 40, object_size = 40,
      sa_slab_list = 0x8000, free_list = 0\<rparr> [] =
   Some ([(0x8000, 4), (0x8000, 4)], \<lparr>sa_offset = 8, start_offset = 8, max_offset = 16328, allocation_size = 40,
      object_size = 40, sa_slab_list = 0, free_list = 0\<rparr>)"
  by (subst destroy_frees_head [of _ _ "[0x8000, 0x4000]"])
    (simp_all add: numeral_2_eq_2 kNewAllocatorNumPagesPerSlab_def)

end
