(* ===== verification/Metadata.thy ===== *)
theory Metadata
  imports Slab
begin

text \<open>
  The meta-data manager of \<^verbatim>\<open>granary/metadata.cc\<close> and \<^verbatim>\<open>metadata.h\<close>: every class of meta-data has a
  static description (a size, an alignment and a table of operations); the first allocation lays
  the registered classes out in one block of memory, which is then allocated, constructed,
  copied, compared, unified and joined class by class. A component of a block is a value in a
  store from addresses to values; a description is named by its address.
\<close>

section \<open>Model\<close>

text \<open>The values of Granary's own classes of meta-data (\<^verbatim>\<open>app.h\<close>, \<^verbatim>\<open>cache.h\<close>, \<^verbatim>\<open>index.h\<close>) and of the
  classes that tools add.\<close>

datatype 'v component =
    AppMetaData (app_start_pc: u64)
  | CacheMetaData (cache_start_pc: u64) (native_addresses: "nat list")
  | IndexMetaData (index_next: nat)
  | ToolMetaData 'v

datatype UnificationStatus = kUnificationStatusAccept | kUnificationStatusAdapt | kUnificationStatusReject

text \<open>The numeric values of the enumerators, which order them.\<close>

primrec status_value :: "UnificationStatus \<Rightarrow> nat" where
  "status_value kUnificationStatusAccept = 0"
| "status_value kUnificationStatusAdapt = 1"
| "status_value kUnificationStatusReject = 2"

instantiation UnificationStatus :: linorder
begin

definition less_eq_UnificationStatus :: "UnificationStatus \<Rightarrow> UnificationStatus \<Rightarrow> bool" where
  "a \<le> b \<longleftrightarrow> status_value a \<le> status_value b"

definition less_UnificationStatus :: "UnificationStatus \<Rightarrow> UnificationStatus \<Rightarrow> bool" where
  "a < b \<longleftrightarrow> status_value a < status_value b"

instance
proof
  fix x y :: UnificationStatus
  show "x \<le> y \<Longrightarrow> y \<le> x \<Longrightarrow> x = y"
    by (cases x; cases y) (simp_all add: less_eq_UnificationStatus_def)
qed (auto simp: less_eq_UnificationStatus_def less_UnificationStatus_def)

end

definition UINTPTR_MAX :: nat where
  "UINTPTR_MAX = 2 ^ 64 - 1"

text \<open>\<^verbatim>\<open>MetaDataDescription\<close>. A destructor returns the native addresses that it deletes.\<close>

record 'v description =
  d_id :: int
  d_offset :: nat
  d_size :: nat
  d_align :: nat
  d_initialize :: "'v component"
  d_copy_initialize :: "'v component \<Rightarrow> 'v component"
  d_destroy :: "'v component \<Rightarrow> nat list"
  d_compare_equals :: "('v component \<Rightarrow> 'v component \<Rightarrow> bool) option"
  d_can_unify :: "('v component \<Rightarrow> 'v component \<Rightarrow> UnificationStatus) option"
  d_join :: "'v component \<Rightarrow> 'v component \<Rightarrow> 'v component"

text \<open>The descriptions of Granary's own classes, as the templates build them.\<close>

definition AppMetaData_description :: "'v description" where
  "AppMetaData_description =
     \<lparr>d_id = -1, d_offset = UINTPTR_MAX, d_size = 8, d_align = 8, d_initialize = AppMetaData 0,
      d_copy_initialize = (\<lambda>that. that), d_destroy = (\<lambda>_. []),
      d_compare_equals = Some (\<lambda>a b. app_start_pc a = app_start_pc b), d_can_unify = None,
      d_join = (\<lambda>a existing. existing)\<rparr>"

definition CacheMetaData_description :: "'v description" where
  "CacheMetaData_description =
     \<lparr>d_id = -1, d_offset = UINTPTR_MAX, d_size = 16, d_align = 8, d_initialize = CacheMetaData 0 [],
      d_copy_initialize = (\<lambda>that. CacheMetaData 0 []), d_destroy = native_addresses,
      d_compare_equals = None, d_can_unify = None, d_join = (\<lambda>a existing. a)\<rparr>"

definition IndexMetaData_description :: "'v description" where
  "IndexMetaData_description =
     \<lparr>d_id = -1, d_offset = UINTPTR_MAX, d_size = 8, d_align = 8, d_initialize = IndexMetaData 0,
      d_copy_initialize = (\<lambda>that. IndexMetaData 0), d_destroy = (\<lambda>_. []),
      d_compare_equals = None, d_can_unify = None, d_join = (\<lambda>a existing. a)\<rparr>"

definition kMaxNumManagedMetaData :: nat where
  "kMaxNumManagedMetaData = 32"

record 'v manager =
  gNextDescriptionId :: int
  gAlign :: nat
  gSize :: nat
  gIsFinalized :: bool
  gDescriptions :: "nat option list"
  gAllocator :: slab_allocator
  descs :: "nat \<Rightarrow> 'v description"

definition static_manager :: "(nat \<Rightarrow> 'v description) \<Rightarrow> 'v manager" where
  "static_manager descriptions =
     \<lparr>gNextDescriptionId = 0, gAlign = 0, gSize = 0, gIsFinalized = False,
      gDescriptions = replicate kMaxNumManagedMetaData None, gAllocator = SlabAllocator 0 0 0 0,
      descs = descriptions\<rparr>"

text \<open>The loops over \<^verbatim>\<open>gDescriptions\<close> stop at the first null entry.\<close>

definition registered :: "'v manager \<Rightarrow> nat list" where
  "registered m = map the (takeWhile (\<lambda>d. d \<noteq> None) (gDescriptions m))"

definition layout_step :: "nat \<Rightarrow> 'v manager \<Rightarrow> 'v manager" where
  "layout_step k m =
     (let desc = descs m k;
          sz = gSize m + align_factor (gSize m) (d_align desc)
      in m\<lparr>gAlign := max (d_align desc) (gAlign m), gSize := sz + d_size desc,
           descs := (descs m)(k := desc\<lparr>d_offset := sz\<rparr>)\<rparr>)"

definition Finalize :: "'v manager \<Rightarrow> 'v manager" where
  "Finalize m =
     (let m1 = fold layout_step (registered m) (m\<lparr>gIsFinalized := True\<rparr>)
      in m1\<lparr>gSize := gSize m1 + align_factor (gSize m1) (gAlign m1)\<rparr>)"

text \<open>The sizes are 64-bit unsigned numbers.\<close>

definition InitAllocator :: "'v manager \<Rightarrow> 'v manager" where
  "InitAllocator m =
     (let offset = align_to POINTER_SIZE (gSize m);
          remaining_size = int kNewAllocatorNumBytesPerSlab - int offset;
          max_num_allocs = nat ((remaining_size - int (gSize m) + 1) mod 2 ^ 64) div gSize m;
          max_offset = offset + max_num_allocs * gSize m
      in m\<lparr>gAllocator := SlabAllocator offset max_offset (gSize m) (gSize m)\<rparr>)"

text \<open>Registration writes past the array of descriptions when it is full (\<open>None\<close>).\<close>

definition AddMetaData :: "nat \<Rightarrow> 'v manager \<Rightarrow> 'v manager option" where
  "AddMetaData k m =
     (let m1 = (if d_id (descs m k) = -1
                then m\<lparr>gNextDescriptionId := gNextDescriptionId m + 1,
                       descs := (descs m)(k := (descs m k)\<lparr>d_id := gNextDescriptionId m\<rparr>)\<rparr>
                else m);
          i = d_id (descs m1 k)
      in if 0 \<le> i \<and> nat i < length (gDescriptions m1)
         then Some (m1\<lparr>gDescriptions := (gDescriptions m1)[nat i := Some k]\<rparr>) else None)"

text \<open>The addresses of the three static descriptions of Granary's own classes.\<close>

definition kAppDescription :: nat where "kAppDescription = 0"
definition kCacheDescription :: nat where "kCacheDescription = 1"
definition kIndexDescription :: nat where "kIndexDescription = 2"

definition InitMetaData :: "'v manager \<Rightarrow> 'v manager option" where
  "InitMetaData m =
     Option.bind (AddMetaData kAppDescription
         (m\<lparr>gNextDescriptionId := 0, gAlign := 0, gSize := 0, gIsFinalized := False\<rparr>)) (\<lambda>m1.
     Option.bind (AddMetaData kCacheDescription m1) (AddMetaData kIndexDescription))"

definition unregister :: "nat option \<Rightarrow> (nat \<Rightarrow> 'v description) \<Rightarrow> nat \<Rightarrow> 'v description" where
  "unregister entry ds =
     (case entry of None \<Rightarrow> ds | Some k \<Rightarrow> ds(k := (ds k)\<lparr>d_id := -1, d_offset := UINTPTR_MAX\<rparr>))"

definition ExitMetaData ::
  "store \<Rightarrow> ('s \<Rightarrow> nat \<Rightarrow> nat \<Rightarrow> 's) \<Rightarrow> 's \<Rightarrow> 'v manager \<Rightarrow> ('s \<times> 'v manager) option" where
  "ExitMetaData mem dealloc s m =
     (let m1 = m\<lparr>descs := fold unregister (gDescriptions m) (descs m),
                 gDescriptions := map (\<lambda>_. None) (gDescriptions m)\<rparr>
      in if gIsFinalized m
         then map_option (\<lambda>(s', a). (s', m1\<lparr>gAllocator := a\<rparr>)) (SlabAllocator_destroy mem dealloc (gAllocator m) s)
         else Some (s, m1))"

type_synonym 'v cstore = "nat \<Rightarrow> 'v component"

definition slot :: "'v manager \<Rightarrow> nat \<Rightarrow> nat \<Rightarrow> nat" where
  "slot m this k = this + d_offset (descs m k)"

definition BlockMetaData_init :: "'v manager \<Rightarrow> 'v cstore \<Rightarrow> nat \<Rightarrow> 'v cstore" where
  "BlockMetaData_init m cs this =
     fold (\<lambda>k cs. cs(slot m this k := d_initialize (descs m k))) (registered m) cs"

definition BlockMetaData_init_pc :: "'v manager \<Rightarrow> 'v cstore \<Rightarrow> nat \<Rightarrow> u64 \<Rightarrow> 'v cstore" where
  "BlockMetaData_init_pc m cs this app_pc =
     (BlockMetaData_init m cs this)(slot m this kAppDescription := AppMetaData app_pc)"

definition BlockMetaData_destroy :: "'v manager \<Rightarrow> 'v cstore \<Rightarrow> nat \<Rightarrow> nat list" where
  "BlockMetaData_destroy m cs this =
     concat (map (\<lambda>k. d_destroy (descs m k) (cs (slot m this k))) (registered m))"

definition BlockMetaData_copy :: "'v manager \<Rightarrow> 'v cstore \<Rightarrow> nat \<Rightarrow> nat \<Rightarrow> 'v cstore" where
  "BlockMetaData_copy m cs this that =
     fold (\<lambda>k cs. cs(slot m that k := d_copy_initialize (descs m k) (cs (slot m this k))))
       (registered m) (BlockMetaData_init m cs that)"

fun equals_loop :: "'v manager \<Rightarrow> 'v cstore \<Rightarrow> nat \<Rightarrow> nat \<Rightarrow> nat list \<Rightarrow> bool" where
  "equals_loop m cs this that [] = True"
| "equals_loop m cs this that (k # ks) =
     (case d_compare_equals (descs m k) of
        None \<Rightarrow> equals_loop m cs this that ks
      | Some eq \<Rightarrow> if \<not> eq (cs (slot m this k)) (cs (slot m that k)) then False
                   else equals_loop m cs this that ks)"

definition Equals :: "'v manager \<Rightarrow> 'v cstore \<Rightarrow> nat \<Rightarrow> nat \<Rightarrow> bool" where
  "Equals m cs this that = equals_loop m cs this that (registered m)"

definition CanUnifyWith :: "'v manager \<Rightarrow> 'v cstore \<Rightarrow> nat \<Rightarrow> nat \<Rightarrow> UnificationStatus" where
  "CanUnifyWith m cs this that =
     fold (\<lambda>k status. case d_can_unify (descs m k) of
             None \<Rightarrow> status
           | Some unify \<Rightarrow> (let l = unify (cs (slot m this k)) (cs (slot m that k))
                            in if status < l then l else status))
       (registered m) kUnificationStatusAccept"

definition JoinWith :: "'v manager \<Rightarrow> 'v cstore \<Rightarrow> nat \<Rightarrow> nat \<Rightarrow> 'v cstore" where
  "JoinWith m cs this that =
     fold (\<lambda>k cs. cs(slot m this k := d_join (descs m k) (cs (slot m this k)) (cs (slot m that k)))) (registered m) cs"

text \<open>Operator \<^verbatim>\<open>new\<close>: the zeroing of the new block is overwritten by its constructor.\<close>

definition BlockMetaData_new ::
  "'s pages_fn \<Rightarrow> 's \<Rightarrow> store \<Rightarrow> 'v manager \<Rightarrow> ('s \<times> store \<times> 'v manager \<times> nat) option" where
  "BlockMetaData_new alloc s mem m =
     (let m1 = (if \<not> gIsFinalized m then InitAllocator (Finalize m) else m)
      in case Allocate alloc s mem (gAllocator m1) of
           None \<Rightarrow> None
         | Some (s', mem', a', addr) \<Rightarrow> Some (s', mem', m1\<lparr>gAllocator := a'\<rparr>, addr))"

definition BlockMetaData_delete :: "store \<Rightarrow> 'v manager \<Rightarrow> nat \<Rightarrow> store \<times> 'v manager" where
  "BlockMetaData_delete mem m address =
     (let (mem', a') = Free mem (gAllocator m) address in (mem', m\<lparr>gAllocator := a'\<rparr>))"

text \<open>The trace of recent blocks: a ring buffer with a 32-bit counter.\<close>

definition GRANARY_META_LOG_LENGTH :: nat where
  "GRANARY_META_LOG_LENGTH = 4096"

definition TraceMetaData :: "bool \<Rightarrow> nat list \<times> u32 \<Rightarrow> nat \<Rightarrow> nat list \<times> u32" where
  "TraceMetaData FLAG_debug_trace_meta st meta =
     (case st of (granary_meta_log, i) \<Rightarrow>
        if FLAG_debug_trace_meta
        then (granary_meta_log[unat i mod GRANARY_META_LOG_LENGTH := meta], i + 1) else st)"

section \<open>The layout of a block\<close>

text \<open>The layout that \<open>Finalize\<close> is to establish: components are aligned, in order, inside the block
  and do not overlap.\<close>

definition laid_out :: "'v manager \<Rightarrow> nat list \<Rightarrow> nat \<Rightarrow> bool" where
  "laid_out m ks sz \<longleftrightarrow>
     (\<forall>k \<in> set ks. d_align (descs m k) dvd d_offset (descs m k) \<and> d_offset (descs m k) + d_size (descs m k) \<le> sz \<and>
        d_align (descs m k) \<le> gAlign m) \<and>
     sorted_wrt (\<lambda>k l. d_offset (descs m k) + d_size (descs m k) \<le> d_offset (descs m l)) ks"

lemma layout_step_other: "k \<noteq> l \<Longrightarrow> descs (layout_step k m) l = descs m l"
  by (simp add: layout_step_def Let_def)

lemma layout_fold:
  assumes "laid_out m done (gSize m)" "distinct (done @ ks)" "\<forall>k \<in> set ks. 0 < d_align (descs m k)"
  shows "laid_out (fold layout_step ks m) (done @ ks) (gSize (fold layout_step ks m))"
  using assms
proof (induction ks arbitrary: m "done")
  case (Cons k ks)
  let ?m = "layout_step k m" and ?d = "descs m k"
  let ?sz = "gSize m + align_factor (gSize m) (d_align ?d)"
  have sz: "gSize m \<le> ?sz" "gSize ?m = ?sz + d_size ?d" "gAlign ?m = max (d_align ?d) (gAlign m)"
    by (simp_all add: layout_step_def Let_def)
  have "?sz = align_to (gSize m) (d_align ?d)" by (simp add: align_to_def)
  then have al: "d_align ?d dvd ?sz" using align_to_dvd Cons.prems(3) by simp
  have k: "descs ?m k = ?d\<lparr>d_offset := ?sz\<rparr>" by (simp add: layout_step_def Let_def)
  have old: "descs ?m l = descs m l" if "l \<in> set done" for l
    using that Cons.prems(2) by (intro layout_step_other) auto
  have "laid_out ?m (done @ [k]) (gSize ?m)"
    using Cons.prems(1) sz(1) al unfolding laid_out_def sz(2,3)
    by (auto simp: k old sorted_wrt_append intro: order_trans max.coboundedI2)
      (metis (mono_tags, lifting) old sorted_wrt_mono_rel)
  moreover have "\<forall>l \<in> set ks. 0 < d_align (descs ?m l)"
    using Cons.prems(2,3) by (auto simp: layout_step_def Let_def)
  ultimately show ?case using Cons.IH [of ?m "done @ [k]"] Cons.prems(2) by simp
qed simp

lemma layout_fold_frame [simp]:
  "gDescriptions (fold layout_step ks m) = gDescriptions m" "gIsFinalized (fold layout_step ks m) = gIsFinalized m"
  "d_size (descs (fold layout_step ks m) k) = d_size (descs m k)"
  "d_align (descs (fold layout_step ks m) k) = d_align (descs m k)"
  "d_can_unify (descs (fold layout_step ks m) k) = d_can_unify (descs m k)"
  "d_compare_equals (descs (fold layout_step ks m) k) = d_compare_equals (descs m k)"
  by (induction ks arbitrary: m) (auto simp: layout_step_def Let_def)

definition fresh_manager :: "'v manager \<Rightarrow> bool" where
  "fresh_manager m \<longleftrightarrow> gSize m = 0 \<and> gAlign m = 0 \<and> distinct (registered m) \<and> registered m \<noteq> [] \<and>
     (\<forall>k \<in> set (registered m). 0 < d_align (descs m k))"

lemma Finalize_frame:
  "registered (Finalize m) = registered m" "gIsFinalized (Finalize m)"
  "d_size (descs (Finalize m) k) = d_size (descs m k)" "d_align (descs (Finalize m) k) = d_align (descs m k)"
  "d_can_unify (descs (Finalize m) k) = d_can_unify (descs m k)"
  "d_compare_equals (descs (Finalize m) k) = d_compare_equals (descs m k)"
  by (simp_all add: Finalize_def Let_def registered_def)

lemma Finalize_laid_out:
  assumes "fresh_manager m"
  shows "laid_out (Finalize m) (registered m) (gSize (Finalize m))" "0 < gAlign (Finalize m)"
    "gAlign (Finalize m) dvd gSize (Finalize m)"
proof -
  let ?m0 = "m\<lparr>gIsFinalized := True\<rparr>" let ?m1 = "fold layout_step (registered m) ?m0"
  have "laid_out ?m1 ([] @ registered m) (gSize ?m1)"
    using assms by (intro layout_fold) (auto simp: laid_out_def fresh_manager_def)
  then have lo: "laid_out ?m1 (registered m) (gSize ?m1)" by simp
  have eq: "descs (Finalize m) = descs ?m1" "gAlign (Finalize m) = gAlign ?m1"
      "gSize (Finalize m) = align_to (gSize ?m1) (gAlign ?m1)"
    by (simp_all add: Finalize_def Let_def align_to_def)
  have "gSize ?m1 \<le> gSize (Finalize m)" by (simp add: eq)
  then show "laid_out (Finalize m) (registered m) (gSize (Finalize m))"
    using lo unfolding laid_out_def eq(1,2) by (meson order_trans)
  obtain k where k: "k \<in> set (registered m)"
    using assms unfolding fresh_manager_def by (meson list.set_sel(1))
  have "d_align (descs ?m1 k) \<le> gAlign ?m1" using lo k unfolding laid_out_def by blast
  moreover have "0 < d_align (descs m k)" using assms k by (simp add: fresh_manager_def)
  ultimately show pos: "0 < gAlign (Finalize m)" by (simp add: eq)
  show "gAlign (Finalize m) dvd gSize (Finalize m)" using pos by (simp add: eq align_to_dvd)
qed

lemma InitAllocator_frame:
  "registered (InitAllocator m) = registered m" "gSize (InitAllocator m) = gSize m" "gAlign (InitAllocator m) = gAlign m"
  "descs (InitAllocator m) = descs m" "gIsFinalized (InitAllocator m) = gIsFinalized m"
  by (simp_all add: InitAllocator_def Let_def registered_def)

text \<open>The slab allocator of meta-data blocks.\<close>

lemma InitAllocator_layout:
  assumes "POINTER_SIZE \<le> gSize m" "3 * gSize m \<le> Suc kNewAllocatorNumBytesPerSlab"
    and "al dvd gSize m" "al dvd PAGE_SIZE_BYTES"
  shows "layout_ok al (gAllocator (InitAllocator m))"
proof -
  let ?n = "nat ((int kNewAllocatorNumBytesPerSlab - int (gSize m) - int (gSize m) + 1) mod 2 ^ 64) div gSize m"
  let ?r = "kNewAllocatorNumBytesPerSlab + 1 - 2 * gSize m"
  have sz: "0 < gSize m" using assms(1) by (simp add: POINTER_SIZE_def)
  have "POINTER_SIZE mod gSize m = 0 \<and> gSize m = POINTER_SIZE \<or> POINTER_SIZE mod gSize m = POINTER_SIZE"
    using assms(1) by (cases "gSize m = POINTER_SIZE") auto
  then have off: "align_to POINTER_SIZE (gSize m) = gSize m"
    using assms(1) by (auto simp: align_to_def align_factor_def POINTER_SIZE_def)
  have r: "int kNewAllocatorNumBytesPerSlab - int (gSize m) - int (gSize m) + 1 = int ?r"
    using assms(2) by simp
  have "int ?r < 2 ^ 64"
    by (simp add: kNewAllocatorNumBytesPerSlab_def kNewAllocatorNumPagesPerSlab_def PAGE_SIZE_BYTES_def)
  then have n: "?n = ?r div gSize m" unfolding r by simp
  have "gSize m \<le> ?r" using assms(2) by linarith
  then have "1 \<le> ?r div gSize m" using sz by (simp add: div_greater_zero_iff Suc_leI)
  then have "1 \<le> ?n" by (simp only: n)
  then have "gSize m < gSize m + ?n * gSize m" using sz by simp
  moreover have "?n * gSize m \<le> ?r" unfolding n by (rule div_times_less_eq_dividend)
  then have "gSize m + ?n * gSize m \<le> kNewAllocatorNumBytesPerSlab" using assms(2) sz by linarith
  ultimately show ?thesis
    using assms by (simp add: layout_ok_def InitAllocator_def Let_def SlabAllocator_def off)
qed

section \<open>Operations on blocks\<close>

text \<open>Two blocks that the slab allocator can have given out are at least a block apart.\<close>

definition apart :: "nat \<Rightarrow> nat \<Rightarrow> nat \<Rightarrow> bool" where
  "apart sz this that \<longleftrightarrow> this + sz \<le> that \<or> that + sz \<le> this"

text \<open>A finalised manager, whose classes are not empty.\<close>

definition manager_ok :: "'v manager \<Rightarrow> bool" where
  "manager_ok m \<longleftrightarrow> laid_out m (registered m) (gSize m) \<and> (\<forall>k \<in> set (registered m). 0 < d_size (descs m k)) \<and>
     distinct (registered m)"

lemma slot_inj:
  assumes "manager_ok m" "k \<in> set (registered m)" "l \<in> set (registered m)" "slot m this k = slot m this l"
  shows "k = l"
proof (rule ccontr)
  assume "k \<noteq> l"
  obtain i j where ij: "i < length (registered m)" "j < length (registered m)" "registered m ! i = k" "registered m ! j = l"
    using assms(2,3) by (metis in_set_conv_nth)
  have sorted: "sorted_wrt (\<lambda>k l. d_offset (descs m k) + d_size (descs m k) \<le> d_offset (descs m l)) (registered m)"
    using assms(1) by (simp add: manager_ok_def laid_out_def)
  have pos: "0 < d_size (descs m k)" "0 < d_size (descs m l)" using assms(1-3) by (auto simp: manager_ok_def)
  have "i \<noteq> j" using ij \<open>k \<noteq> l\<close> by blast
  then consider "i < j" | "j < i" by linarith
  then show False
  proof cases
    case 1
    then show False using sorted_wrt_nth_less [OF sorted 1 ij(2)] ij pos assms(4) by (simp add: slot_def)
  next
    case 2
    then show False using sorted_wrt_nth_less [OF sorted 2 ij(1)] ij pos assms(4) by (simp add: slot_def)
  qed
qed

lemma slot_bounds:
  assumes "manager_ok m" "k \<in> set (registered m)"
  shows "this \<le> slot m this k" "slot m this k < this + gSize m"
  using assms by (fastforce simp: manager_ok_def laid_out_def slot_def)+

lemma slot_apart:
  assumes "manager_ok m" "k \<in> set (registered m)" "l \<in> set (registered m)" "apart (gSize m) this that"
  shows "slot m this k \<noteq> slot m that l"
  using slot_bounds [OF assms(1,2), of this] slot_bounds [OF assms(1,3), of that] assms(4)
  by (auto simp: apart_def)

text \<open>The loops that write one component of \<open>this\<close> at a time, from that component and the
  components of another block.\<close>

lemma component_fold:
  assumes "\<forall>k \<in> set ks. \<forall>l \<in> set ks. w k = w l \<longrightarrow> k = l" "\<forall>k \<in> set ks. \<forall>l \<in> set ks. w k \<noteq> r l" "distinct ks"
  shows "fold (\<lambda>k cs. cs(w k := f k (cs (w k)) (cs (r k)))) ks cs x =
    (case find (\<lambda>k. w k = x) ks of None \<Rightarrow> cs x | Some k \<Rightarrow> f k (cs (w k)) (cs (r k)))"
  using assms
proof (induction ks arbitrary: cs)
  case (Cons k ks)
  let ?cs = "cs(w k := f k (cs (w k)) (cs (r k)))"
  have IH: "fold (\<lambda>k cs. cs(w k := f k (cs (w k)) (cs (r k)))) ks ?cs x =
      (case find (\<lambda>k. w k = x) ks of None \<Rightarrow> ?cs x | Some k \<Rightarrow> f k (?cs (w k)) (?cs (r k)))"
    using Cons.prems by (intro Cons.IH) auto
  show ?case
  proof (cases "find (\<lambda>k. w k = x) ks")
    case None
    then show ?thesis unfolding fold_Cons o_apply IH by simp
  next
    case (Some l)
    then have l: "l \<in> set ks" "w l = x" by (auto simp: find_Some_iff)
    then have "w l \<noteq> w k" using Cons.prems(1,3) by (metis distinct.simps(2) list.set_intros(1,2))
    moreover have "r l \<noteq> w k" using Cons.prems(2) l(1) by (metis list.set_intros(1,2))
    ultimately show ?thesis unfolding fold_Cons o_apply IH using Some l by auto
  qed
qed simp

lemma find_slot:
  assumes "manager_ok m" "k \<in> set (registered m)"
  shows "find (\<lambda>l. slot m this l = slot m this k) (registered m) = Some k"
proof -
  obtain i where i: "i < length (registered m)" "registered m ! i = k" using assms(2) by (metis in_set_conv_nth)
  have "slot m this (registered m ! j) \<noteq> slot m this k" if "j < i" for j
    using that i assms slot_inj [OF assms(1) nth_mem, of j k this]
    by (metis less_trans manager_ok_def nth_eq_iff_index_eq less_irrefl)
  then show ?thesis using i unfolding find_Some_iff by blast
qed

lemma JoinWith_component:
  assumes "manager_ok m" "apart (gSize m) this that"
  shows "JoinWith m cs this that x =
    (case find (\<lambda>k. slot m this k = x) (registered m) of
       None \<Rightarrow> cs x | Some k \<Rightarrow> d_join (descs m k) (cs (slot m this k)) (cs (slot m that k)))"
  unfolding JoinWith_def
proof (rule component_fold [where f = "\<lambda>k. d_join (descs m k)"])
  show "\<forall>k \<in> set (registered m). \<forall>l \<in> set (registered m). slot m this k = slot m this l \<longrightarrow> k = l"
    using slot_inj [OF assms(1)] by blast
  show "\<forall>k \<in> set (registered m). \<forall>l \<in> set (registered m). slot m this k \<noteq> slot m that l"
    using slot_apart [OF assms(1) _ _ assms(2)] by blast
qed (use assms(1) in \<open>simp add: manager_ok_def\<close>)

lemma BlockMetaData_init_component:
  assumes "manager_ok m"
  shows "BlockMetaData_init m cs this x =
    (case find (\<lambda>k. slot m this k = x) (registered m) of None \<Rightarrow> cs x | Some k \<Rightarrow> d_initialize (descs m k))"
  unfolding BlockMetaData_init_def
proof (rule component_fold [where f = "\<lambda>k _ _. d_initialize (descs m k)" and r = "\<lambda>l. this + gSize m"])
  show "\<forall>k \<in> set (registered m). \<forall>l \<in> set (registered m). slot m this k = slot m this l \<longrightarrow> k = l"
    using slot_inj [OF assms(1)] by blast
  show "\<forall>k \<in> set (registered m). \<forall>l \<in> set (registered m). slot m this k \<noteq> this + gSize m"
    using slot_bounds(2) [OF assms(1), of _ this] by fastforce
qed (use assms(1) in \<open>simp add: manager_ok_def\<close>)

lemma apart_sym: "apart sz this that \<longleftrightarrow> apart sz that this"
  by (auto simp: apart_def)

lemma find_slot_apart:
  assumes "manager_ok m" "k \<in> set (registered m)" "apart (gSize m) this that"
  shows "find (\<lambda>l. slot m that l = slot m this k) (registered m) = None"
  using slot_apart [OF assms(1,2) _ assms(3)] unfolding find_None_iff by metis

lemma BlockMetaData_copy_component:
  assumes "manager_ok m" "apart (gSize m) this that"
  shows "BlockMetaData_copy m cs this that x =
    (case find (\<lambda>k. slot m that k = x) (registered m) of
       None \<Rightarrow> cs x | Some k \<Rightarrow> d_copy_initialize (descs m k) (cs (slot m this k)))"
proof -
  have copy: "BlockMetaData_copy m cs this that x =
    (case find (\<lambda>k. slot m that k = x) (registered m) of None \<Rightarrow> BlockMetaData_init m cs that x
     | Some k \<Rightarrow> d_copy_initialize (descs m k) (BlockMetaData_init m cs that (slot m this k)))"
    unfolding BlockMetaData_copy_def
  proof (rule component_fold [where f = "\<lambda>k _. d_copy_initialize (descs m k)"])
    show "\<forall>k \<in> set (registered m). \<forall>l \<in> set (registered m). slot m that k = slot m that l \<longrightarrow> k = l"
      using slot_inj [OF assms(1)] by blast
    show "\<forall>k \<in> set (registered m). \<forall>l \<in> set (registered m). slot m that k \<noteq> slot m this l"
      using slot_apart [OF assms(1) _ _ assms(2)] by metis
  qed (use assms(1) in \<open>simp add: manager_ok_def\<close>)
  have src: "BlockMetaData_init m cs that (slot m this k) = cs (slot m this k)" if "k \<in> set (registered m)" for k
    using find_slot_apart [OF assms(1) that assms(2)] by (simp add: BlockMetaData_init_component [OF assms(1)])
  show ?thesis
  proof (cases "find (\<lambda>k. slot m that k = x) (registered m)")
    case None
    then show ?thesis using copy by (simp add: BlockMetaData_init_component [OF assms(1)])
  next
    case (Some k)
    then have "k \<in> set (registered m)" by (auto simp: find_Some_iff)
    then show ?thesis using copy src Some by simp
  qed
qed

lemma equals_loop_iff:
  "equals_loop m cs this that ks \<longleftrightarrow>
     (\<forall>k \<in> set ks. \<forall>eq. d_compare_equals (descs m k) = Some eq \<longrightarrow> eq (cs (slot m this k)) (cs (slot m that k)))"
  by (induction ks) (auto split: option.splits)

lemma CanUnifyWith_le:
  "CanUnifyWith m cs this that \<le> s \<longleftrightarrow>
     (\<forall>k \<in> set (registered m). \<forall>unify. d_can_unify (descs m k) = Some unify \<longrightarrow>
        unify (cs (slot m this k)) (cs (slot m that k)) \<le> s)"
proof -
  have "fold (\<lambda>k status. case d_can_unify (descs m k) of
             None \<Rightarrow> status
           | Some unify \<Rightarrow> (let l = unify (cs (slot m this k)) (cs (slot m that k)) in if status < l then l else status))
       ks s0 \<le> s \<longleftrightarrow> s0 \<le> s \<and> (\<forall>k \<in> set ks. \<forall>unify. d_can_unify (descs m k) = Some unify \<longrightarrow>
        unify (cs (slot m this k)) (cs (slot m that k)) \<le> s)" for ks s0
    by (induction ks arbitrary: s0) (auto simp: Let_def split: option.splits)
  moreover have "kUnificationStatusAccept \<le> s" by (cases s) (simp_all add: less_eq_UnificationStatus_def)
  ultimately show ?thesis by (simp add: CanUnifyWith_def)
qed

section \<open>Properties\<close>

text \<open>C38. The layout of block meta-data. For any registered classes of meta-data with positive
  alignments, finalising places every class at an offset of its alignment, in order of
  registration and without overlap, inside a block whose size is a multiple of the largest
  alignment.\<close>

theorem Finalize_layout:
  assumes "fresh_manager m" "m' = Finalize m"
  shows "registered m' = registered m \<and> gAlign m' dvd gSize m' \<and>
    (\<forall>k \<in> set (registered m). d_align (descs m k) dvd d_offset (descs m' k) \<and>
       d_align (descs m k) \<le> gAlign m' \<and> d_offset (descs m' k) + d_size (descs m k) \<le> gSize m') \<and>
    (\<forall>i j. i < j \<longrightarrow> j < length (registered m) \<longrightarrow>
       d_offset (descs m' (registered m ! i)) + d_size (descs m (registered m ! i)) \<le> d_offset (descs m' (registered m ! j)))"
  using Finalize_laid_out [OF assms(1)] Finalize_frame [of m] assms(2)
  by (auto simp: laid_out_def sorted_wrt_iff_nth_less)

definition example_descs :: "nat \<Rightarrow> nat description" where
  "example_descs k =
     (if k = kAppDescription then AppMetaData_description
      else if k = kCacheDescription then CacheMetaData_description
      else if k = kIndexDescription then IndexMetaData_description
      else \<lparr>d_id = -1, d_offset = UINTPTR_MAX, d_size = 3, d_align = 2, d_initialize = ToolMetaData 0,
            d_copy_initialize = id, d_destroy = (\<lambda>_. []), d_compare_equals = None,
            d_can_unify = Some (\<lambda>a b. if a = b then kUnificationStatusAccept else kUnificationStatusAdapt),
            d_join = (\<lambda>a b. b)\<rparr>)"

definition example_registered :: "nat manager" where
  "example_registered = the (Option.bind (InitMetaData (static_manager example_descs)) (AddMetaData 3))"

lemma static_entries:
  "replicate kMaxNumManagedMetaData None = None # None # None # None # replicate 28 None"
  by (simp add: kMaxNumManagedMetaData_def numeral_eq_Suc)

lemma example_registered_descs:
  "registered example_registered = [0, 1, 2, 3]" "gSize example_registered = 0" "gAlign example_registered = 0"
  "map (\<lambda>k. (d_size (descs example_registered k), d_align (descs example_registered k))) [0, 1, 2, 3] =
     [(8, 8), (16, 8), (8, 8), (3, 2)]"
  by (simp_all add: example_registered_def registered_def static_manager_def static_entries example_descs_def InitMetaData_def
      AddMetaData_def kAppDescription_def kCacheDescription_def kIndexDescription_def AppMetaData_description_def
      CacheMetaData_description_def IndexMetaData_description_def Let_def)

theorem Finalize_layout_witness:
  "gSize (Finalize example_registered) = 40 \<and>
   map (\<lambda>k. d_offset (descs (Finalize example_registered) k)) (registered (Finalize example_registered)) = [0, 8, 24, 32] \<and>
   gAlign (Finalize example_registered) dvd gSize (Finalize example_registered)"
proof -
  have "fresh_manager example_registered"
    using example_registered_descs(4) by (simp add: fresh_manager_def example_registered_descs(1-3))
  moreover have "gSize (Finalize example_registered) = 40 \<and>
      map (\<lambda>k. d_offset (descs (Finalize example_registered) k)) [0, 1, 2, 3] = [0, 8, 24, 32]"
    using example_registered_descs(4)
    by (simp add: Finalize_def example_registered_descs layout_step_def Let_def align_factor_def)
  ultimately show ?thesis using Finalize_layout [of example_registered "Finalize example_registered"] by (simp add: Finalize_frame example_registered_descs(1))
qed

text \<open>Copies of block meta-data. In a laid-out manager, copying a block into a new one that does
  not overlap it sets every component of the new block from the same component of the old one,
  changes nothing else (in particular not the old block), and the copy equals the original
  whenever the copy constructor of every indexable class makes equal values.\<close>

theorem BlockMetaData_copy_correct:
  assumes "manager_ok m" "apart (gSize m) this that" "cs' = BlockMetaData_copy m cs this that"
  shows "(\<forall>k \<in> set (registered m). cs' (slot m that k) = d_copy_initialize (descs m k) (cs (slot m this k))) \<and>
    (\<forall>x. x < that \<or> that + gSize m \<le> x \<longrightarrow> cs' x = cs x) \<and>
    ((\<forall>k \<in> set (registered m). \<forall>eq. d_compare_equals (descs m k) = Some eq \<longrightarrow>
        eq (cs (slot m this k)) (d_copy_initialize (descs m k) (cs (slot m this k)))) \<longrightarrow> Equals m cs' this that)"
proof (intro conjI impI)
  show copy: "\<forall>k \<in> set (registered m). cs' (slot m that k) = d_copy_initialize (descs m k) (cs (slot m this k))"
    by (simp add: assms(3) BlockMetaData_copy_component [OF assms(1,2)] find_slot [OF assms(1)])
  show frame: "\<forall>x. x < that \<or> that + gSize m \<le> x \<longrightarrow> cs' x = cs x"
  proof (intro allI impI)
    fix x assume "x < that \<or> that + gSize m \<le> x"
    then have "find (\<lambda>k. slot m that k = x) (registered m) = None"
      using slot_bounds [OF assms(1), of _ that] unfolding find_None_iff by fastforce
    then show "cs' x = cs x" by (simp add: assms(3) BlockMetaData_copy_component [OF assms(1,2)])
  qed
  have "cs' (slot m this k) = cs (slot m this k)" if "k \<in> set (registered m)" for k
    using find_slot_apart [OF assms(1) that assms(2)]
    by (simp add: assms(3) BlockMetaData_copy_component [OF assms(1,2)])
  moreover assume "\<forall>k \<in> set (registered m). \<forall>eq. d_compare_equals (descs m k) = Some eq \<longrightarrow>
        eq (cs (slot m this k)) (d_copy_initialize (descs m k) (cs (slot m this k)))"
  ultimately show "Equals m cs' this that" using copy by (simp add: Equals_def equals_loop_iff)
qed

lemma example_ok: "manager_ok (Finalize example_registered)"
proof -
  have fresh: "fresh_manager example_registered"
    using example_registered_descs(4) by (simp add: fresh_manager_def example_registered_descs(1-3))
  show ?thesis
    using Finalize_laid_out(1) [OF fresh] example_registered_descs(1,4)
    by (simp add: manager_ok_def Finalize_frame)
qed

lemma example_size: "gSize (Finalize example_registered) = 40" "gAlign (Finalize example_registered) = 8"
  using example_registered_descs(4)
  by (simp_all add: Finalize_def example_registered_descs layout_step_def Let_def align_factor_def)

theorem BlockMetaData_copy_correct_witness:
  "BlockMetaData_copy (Finalize example_registered) (\<lambda>_. ToolMetaData 7) 0x1000 0x1028
       (slot (Finalize example_registered) 0x1028 3) =
     d_copy_initialize (descs (Finalize example_registered) 3) (ToolMetaData 7)"
  using BlockMetaData_copy_correct [OF example_ok, of "0x1000" "0x1028" _ "\<lambda>_. ToolMetaData 7"]
  by (simp add: example_size apart_def Finalize_frame example_registered_descs(1))

text \<open>Comparison and unification of block meta-data. Two blocks are equal exactly when all their
  indexable components are; unification accepts exactly when every unifiable component does and
  rejects exactly when one of them rejects.\<close>

theorem Equals_CanUnifyWith_spec:
  "(Equals m cs this that \<longleftrightarrow>
      (\<forall>k eq. k \<in> set (registered m) \<and> d_compare_equals (descs m k) = Some eq \<longrightarrow>
         eq (cs (slot m this k)) (cs (slot m that k)))) \<and>
   (CanUnifyWith m cs this that = kUnificationStatusAccept \<longleftrightarrow>
      (\<forall>k unify. k \<in> set (registered m) \<and> d_can_unify (descs m k) = Some unify \<longrightarrow>
         unify (cs (slot m this k)) (cs (slot m that k)) = kUnificationStatusAccept)) \<and>
   (CanUnifyWith m cs this that = kUnificationStatusReject \<longleftrightarrow>
      (\<exists>k unify. k \<in> set (registered m) \<and> d_can_unify (descs m k) = Some unify \<and>
         unify (cs (slot m this k)) (cs (slot m that k)) = kUnificationStatusReject))"
proof (intro conjI)
  have accept: "x \<le> kUnificationStatusAccept \<longleftrightarrow> x = kUnificationStatusAccept" for x
    by (cases x) (simp_all add: less_eq_UnificationStatus_def)
  have adapt: "x \<le> kUnificationStatusAdapt \<longleftrightarrow> x \<noteq> kUnificationStatusReject" for x
    by (cases x) (simp_all add: less_eq_UnificationStatus_def)
  show "CanUnifyWith m cs this that = kUnificationStatusAccept \<longleftrightarrow>
      (\<forall>k unify. k \<in> set (registered m) \<and> d_can_unify (descs m k) = Some unify \<longrightarrow>
         unify (cs (slot m this k)) (cs (slot m that k)) = kUnificationStatusAccept)"
    using CanUnifyWith_le [of m cs this that kUnificationStatusAccept] unfolding accept by blast
  show "CanUnifyWith m cs this that = kUnificationStatusReject \<longleftrightarrow>
      (\<exists>k unify. k \<in> set (registered m) \<and> d_can_unify (descs m k) = Some unify \<and>
         unify (cs (slot m this k)) (cs (slot m that k)) = kUnificationStatusReject)"
    using CanUnifyWith_le [of m cs this that kUnificationStatusAdapt] unfolding adapt by blast
qed (auto simp: Equals_def equals_loop_iff)

theorem Equals_CanUnifyWith_spec_witness:
  "CanUnifyWith (Finalize example_registered) (\<lambda>_. ToolMetaData 7) 0x1000 0x1028 = kUnificationStatusAccept"
proof -
  have "d_can_unify (descs (Finalize example_registered) k) = d_can_unify (example_descs k)" for k
    by (simp add: Finalize_frame Let_def example_registered_def InitMetaData_def AddMetaData_def static_manager_def
        static_entries kAppDescription_def kCacheDescription_def kIndexDescription_def example_descs_def
        AppMetaData_description_def CacheMetaData_description_def IndexMetaData_description_def)
  then have "\<forall>k unify. d_can_unify (descs (Finalize example_registered) k) = Some unify \<longrightarrow>
      unify (ToolMetaData 7) (ToolMetaData 7) = kUnificationStatusAccept"
    by (auto simp: example_descs_def AppMetaData_description_def CacheMetaData_description_def
        IndexMetaData_description_def split: if_splits)
  then show ?thesis
    using Equals_CanUnifyWith_spec [of "Finalize example_registered" "\<lambda>_. ToolMetaData 7" "0x1000" "0x1028"] by blast
qed

text \<open>C28. Blocks of meta-data on the heap. Once the first block has laid out the registered classes,
  and as long as a block is small enough for a slab, every new block is disjoint from the live
  blocks whatever was allocated, deleted and written before, and every component of it is
  aligned as its class requires (alignments being powers of two, they divide the largest one).\<close>

theorem metadata_blocks_disjoint:
  assumes "fresh_manager m" "m1 = InitAllocator (Finalize m)"
    and "POINTER_SIZE \<le> gSize m1" "3 * gSize m1 \<le> Suc kNewAllocatorNumBytesPerSlab" "gAlign m1 dvd PAGE_SIZE_BYTES"
    and "aligned_heap g0 A"
    and "reachable (\<lambda>x. x = (g0, mem0, gAllocator m1, {})) (slab_step AllocateDataPages) (g, mem, a, live)"
    and "BlockMetaData_new AllocateDataPages g mem (m1\<lparr>gAllocator := a\<rparr>) = Some (g', mem', m', addr)"
  shows "addr \<noteq> 0 \<and> (\<forall>x \<in> live. apart (gSize m1) addr x) \<and>
    (\<forall>k \<in> set (registered m1). d_align (descs m1 k) dvd gAlign m1 \<longrightarrow> d_align (descs m1 k) dvd slot m1 addr k)"
proof -
  have m1: "gSize m1 = gSize (Finalize m)" "gAlign m1 = gAlign (Finalize m)" "registered m1 = registered m"
      "descs m1 = descs (Finalize m)" "gIsFinalized m1" "allocation_size (gAllocator m1) = gSize m1"
    by (simp_all add: assms(2) InitAllocator_def Let_def registered_def Finalize_def SlabAllocator_def)
  have "layout_ok (gAlign m1) (gAllocator m1)"
    using InitAllocator_layout [of "Finalize m" "gAlign m1"] Finalize_laid_out(3) [OF assms(1)] assms(2-5) m1(1,2) by simp
  then have "slab_inv aligned_heap (gAlign m1) (g0, mem0, gAllocator m1, {})"
    using SlabAllocator_inv [OF _ assms(6)] by (simp add: assms(2) InitAllocator_def Let_def)
  then have inv: "slab_inv aligned_heap (gAlign m1) (g, mem, a, live)"
    using heap_pages.slab_reachable_inv [OF assms(7)] by blast
  have al: "allocation_size a = gSize m1" using slab_reachable_size [OF assms(7)] m1(6) by simp
  obtain a' where "Allocate AllocateDataPages g mem a = Some (g', mem', a', addr)"
    using assms(8) m1(5) by (auto simp: BlockMetaData_new_def split: option.splits)
  note new = heap_pages.Allocate_inv [OF inv this]
  have sz: "0 < gSize m1" using assms(3) by (simp add: POINTER_SIZE_def)
  have "apart (gSize m1) addr x" if "x \<in> live" for x
  proof (rule ccontr)
    assume "\<not> apart (gSize m1) addr x"
    then have "max addr x \<in> obj a addr \<inter> obj a x" using sz by (auto simp: apart_def obj_def al)
    then show False using new(3) that by blast
  qed
  moreover have "d_align (descs m1 k) dvd slot m1 addr k"
    if "k \<in> set (registered m1)" "d_align (descs m1 k) dvd gAlign m1" for k
    using that new(2) Finalize_laid_out(1) [OF assms(1)]
    by (auto simp: slot_def laid_out_def m1(3,4) intro: dvd_add dvd_trans)
  ultimately show ?thesis using new(5) by blast
qed

theorem metadata_blocks_disjoint_witness:
  "case BlockMetaData_new AllocateDataPages (static_memory 0x100000 0x900000) (\<lambda>_. 0) (InitAllocator (Finalize example_registered)) of
     None \<Rightarrow> False
   | Some (g, mem, m, addr) \<Rightarrow> addr \<noteq> 0 \<and> 8 dvd slot (InitAllocator (Finalize example_registered)) addr 2"
proof -
  let ?g0 = "static_memory 0x100000 0x900000" and ?m1 = "InitAllocator (Finalize example_registered)"
  have d: "gSize ?m1 = 40" "gAlign ?m1 = 8" "gIsFinalized ?m1" "registered ?m1 = [0, 1, 2, 3]" "d_align (descs ?m1 2) = 8"
    using example_registered_descs(4) example_size
    by (simp_all add: InitAllocator_frame Finalize_frame example_registered_descs(1))
  have fresh: "fresh_manager example_registered"
    using example_registered_descs(4) by (simp add: fresh_manager_def example_registered_descs(1-3))
  obtain g mem a where al: "Allocate AllocateDataPages ?g0 (\<lambda>_. 0) (gAllocator ?m1) = Some (g, mem, a, 0x900028)"
    by (simp add: InitAllocator_def Let_def example_size align_to_def align_factor_def POINTER_SIZE_def SlabAllocator_def
        Allocate_def AllocateFromFreeList_def SlabForAllocation_def New_AllocateSlab_def AllocateDataPages_def
        AllocatePages_def static_memory_def PageAllocator_def kHeapNumPages_def kNewAllocatorNumPagesPerSlab_def page_addr_def)
  then have new: "BlockMetaData_new AllocateDataPages ?g0 (\<lambda>_. 0) (?m1\<lparr>gAllocator := gAllocator ?m1\<rparr>) =
      Some (g, mem, ?m1\<lparr>gAllocator := a\<rparr>, 0x900028)" "?m1\<lparr>gAllocator := gAllocator ?m1\<rparr> = ?m1"
    using d(3) by (simp_all add: BlockMetaData_new_def)
  have "aligned_heap ?g0 {}"
    using InitHeap_sources(2) by (simp add: aligned_heap_def data_heap_def InitHeap_def static_memory_def PageAllocator_def PAGE_SIZE_BYTES_def)
  moreover have "reachable (\<lambda>x. x = (?g0, \<lambda>_. 0, gAllocator ?m1, {})) (slab_step AllocateDataPages) (?g0, \<lambda>_. 0, gAllocator ?m1, {})"
    by (simp add: reachable_init)
  ultimately show ?thesis
    using metadata_blocks_disjoint [OF fresh refl _ _ _ _ _ new(1)] d new
    by (simp add: POINTER_SIZE_def PAGE_SIZE_BYTES_def kNewAllocatorNumBytesPerSlab_def kNewAllocatorNumPagesPerSlab_def)
qed

end
