(* ===== verification/Index.thy ===== *)
theory Index
  imports Metadata
begin

text \<open>
  The code cache index of \<^verbatim>\<open>granary/index.cc\<close> and \<^verbatim>\<open>index.h\<close>: a two-level radix tree over the
  program counter of a block, with a linked list of meta-data in every bucket, and the log of
  meta-data that is not indexed. A bucket's list is threaded through the \<^verbatim>\<open>IndexMetaData\<close>
  component of the blocks, in the component store of theory Metadata. A null pointer is 0. An
  addition is modelled as a whole, and again as the three accesses to the first level that it
  consists of: the lock it takes is that of the second-level index, which does not order the
  accesses of two additions to the first level.
\<close>

section \<open>Model\<close>

definition kNumIgnoredBits :: nat where "kNumIgnoredBits = 3"
definition kMaxFirstIndex :: nat where "kMaxFirstIndex = 4096"
definition kMaxSecondIndex :: nat where "kMaxSecondIndex = PAGE_SIZE_BYTES div POINTER_SIZE"
definition kNumBitsSecondIndex :: nat where "kNumBitsSecondIndex = 9"

record code_index =
  gIndex :: "nat \<Rightarrow> (nat \<Rightarrow> nat) option"
  gUnindexedMeta :: "nat \<Rightarrow> nat"

definition empty_index :: code_index where
  "empty_index = \<lparr>gIndex = (\<lambda>_. None), gUnindexedMeta = (\<lambda>_. 0)\<rparr>"

definition IndexOf :: "u64 \<Rightarrow> nat \<times> nat" where
  "IndexOf addr =
     (unat (drop_bit (kNumIgnoredBits + kNumBitsSecondIndex) addr) mod kMaxFirstIndex,
      unat (drop_bit kNumIgnoredBits addr) mod kMaxSecondIndex)"

definition AppPCOf :: "'v manager \<Rightarrow> 'v cstore \<Rightarrow> nat \<Rightarrow> u64" where
  "AppPCOf m cs meta = app_start_pc (cs (slot m meta kAppDescription))"

definition next_of :: "'v manager \<Rightarrow> 'v cstore \<Rightarrow> nat \<Rightarrow> nat" where
  "next_of m cs meta = index_next (cs (slot m meta kIndexDescription))"

definition set_next :: "'v manager \<Rightarrow> 'v cstore \<Rightarrow> nat \<Rightarrow> nat \<Rightarrow> 'v cstore" where
  "set_next m cs meta nxt = cs(slot m meta kIndexDescription := IndexMetaData nxt)"

text \<open>\<^verbatim>\<open>MatchMetaData\<close>: the loop over the bucket \<open>ls\<close>, from \<open>cur\<close> on.\<close>

partial_function (option) match_loop ::
  "'v manager \<Rightarrow> 'v cstore \<Rightarrow> nat \<Rightarrow> nat \<Rightarrow> nat \<Rightarrow> UnificationStatus \<times> nat \<Rightarrow> (UnificationStatus \<times> nat) option" where
  "match_loop m cs ls search cur response =
     (if cur = 0 then Some response
      else if \<not> Equals m cs search cur then match_loop m cs ls search (next_of m cs cur) response
      else case CanUnifyWith m cs search ls of
             kUnificationStatusAccept \<Rightarrow> Some (kUnificationStatusAccept, cur)
           | kUnificationStatusAdapt \<Rightarrow>
               match_loop m cs ls search (next_of m cs cur)
                 (if fst response \<noteq> kUnificationStatusAdapt then (kUnificationStatusAdapt, cur) else response)
           | kUnificationStatusReject \<Rightarrow> match_loop m cs ls search (next_of m cs cur) response)"

definition MatchMetaData :: "'v manager \<Rightarrow> 'v cstore \<Rightarrow> nat \<Rightarrow> nat \<Rightarrow> (UnificationStatus \<times> nat) option" where
  "MatchMetaData m cs ls search = match_loop m cs ls search ls (kUnificationStatusReject, 0)"

definition FindMetaDataInIndex :: "'v manager \<Rightarrow> 'v cstore \<Rightarrow> code_index \<Rightarrow> nat \<Rightarrow> (UnificationStatus \<times> nat) option" where
  "FindMetaDataInIndex m cs idx meta =
     (if meta = 0 then Some (kUnificationStatusReject, 0)
      else let (first, second) = IndexOf (AppPCOf m cs meta)
           in case gIndex idx first of
                None \<Rightarrow> Some (kUnificationStatusReject, 0)
              | Some array \<Rightarrow>
                  if array second \<noteq> 0 then MatchMetaData m cs (array second) meta
                  else Some (kUnificationStatusReject, 0))"

text \<open>A new second-level array is a zeroed page; without a page the zeroing faults (\<open>None\<close>).\<close>

definition MetaDataArray_new :: "'s pages_fn \<Rightarrow> 's \<Rightarrow> ('s \<times> (nat \<Rightarrow> nat)) option" where
  "MetaDataArray_new alloc s = (case alloc s 1 of (s', None) \<Rightarrow> None | (s', Some page) \<Rightarrow> Some (s', \<lambda>_. 0))"

definition AddMetaDataToIndex ::
  "'s pages_fn \<Rightarrow> 'v manager \<Rightarrow> nat \<Rightarrow> 's \<times> 'v cstore \<times> code_index \<Rightarrow> ('s \<times> 'v cstore \<times> code_index) option" where
  "AddMetaDataToIndex alloc m meta st =
     (let (s, cs, idx) = st; (first, second) = IndexOf (AppPCOf m cs meta)
      in Option.bind (case gIndex idx first of Some array \<Rightarrow> Some (s, array) | None \<Rightarrow> MetaDataArray_new alloc s)
           (\<lambda>(s', array).
              Some (s', set_next m cs meta (array second),
                    idx\<lparr>gIndex := (gIndex idx)(first \<mapsto> array(second := meta))\<rparr>)))"

text \<open>The same addition as separate accesses: reading the first level, installing a second-level
  array if there was none, and linking the block (\<open>None\<close> is a fault).\<close>

definition add_check :: "'v manager \<Rightarrow> 'v cstore \<Rightarrow> nat \<Rightarrow> code_index \<Rightarrow> bool" where
  "add_check m cs meta idx \<longleftrightarrow> gIndex idx (fst (IndexOf (AppPCOf m cs meta))) = None"

definition add_install ::
  "'s pages_fn \<Rightarrow> 'v manager \<Rightarrow> 'v cstore \<Rightarrow> nat \<Rightarrow> bool \<Rightarrow> 's \<times> code_index \<Rightarrow> ('s \<times> code_index) option" where
  "add_install alloc m cs meta was_null st =
     (let (s, idx) = st
      in if was_null
         then Option.bind (MetaDataArray_new alloc s) (\<lambda>(s', array).
                Some (s', idx\<lparr>gIndex := (gIndex idx)(fst (IndexOf (AppPCOf m cs meta)) \<mapsto> array)\<rparr>))
         else Some st)"

definition add_link :: "'v manager \<Rightarrow> nat \<Rightarrow> 'v cstore \<times> code_index \<Rightarrow> ('v cstore \<times> code_index) option" where
  "add_link m meta st =
     (let (cs, idx) = st; (first, second) = IndexOf (AppPCOf m cs meta)
      in case gIndex idx first of
           None \<Rightarrow> None
         | Some array \<Rightarrow> Some (set_next m cs meta (array second),
                               idx\<lparr>gIndex := (gIndex idx)(first \<mapsto> array(second := meta))\<rparr>))"

definition AddMetaDataToLog :: "'v manager \<Rightarrow> nat \<Rightarrow> 'v cstore \<times> code_index \<Rightarrow> 'v cstore \<times> code_index" where
  "AddMetaDataToLog m meta st =
     (let (cs, idx) = st; (first, second) = IndexOf (AppPCOf m cs meta)
      in (set_next m cs meta (gUnindexedMeta idx first), idx\<lparr>gUnindexedMeta := (gUnindexedMeta idx)(first := meta)\<rparr>))"

text \<open>The iterator over a linked list of meta-data.\<close>

partial_function (option) walk :: "(nat \<Rightarrow> nat) \<Rightarrow> nat \<Rightarrow> nat list option" where
  "walk nxt cur = (if cur = 0 then Some [] else Option.bind (walk nxt (nxt cur)) (\<lambda>xs. Some (cur # xs)))"

definition array_heads :: "(nat \<Rightarrow> nat) option \<Rightarrow> nat list" where
  "array_heads arr = (case arr of None \<Rightarrow> [] | Some array \<Rightarrow> map array [0..<kMaxSecondIndex])"

datatype IndexedStatus = kMetaDataIndexed | kMetaDataUnindexed

text \<open>\<^verbatim>\<open>ForEachMetaData\<close>: the calls of the function it is given.\<close>

definition ForEachMetaData :: "'v manager \<Rightarrow> 'v cstore \<Rightarrow> code_index \<Rightarrow> (nat \<times> IndexedStatus) list option" where
  "ForEachMetaData m cs idx =
     Option.bind (those (map (walk (next_of m cs)) (concat (map (array_heads \<circ> gIndex idx) [0..<kMaxFirstIndex])))) (\<lambda>indexed.
     Option.bind (those (map (walk (next_of m cs) \<circ> gUnindexedMeta idx) [0..<kMaxFirstIndex])) (\<lambda>unindexed.
       Some (map (\<lambda>meta. (meta, kMetaDataIndexed)) (concat indexed) @ map (\<lambda>meta. (meta, kMetaDataUnindexed)) (concat unindexed))))"

text \<open>\<^verbatim>\<open>ExitIndex\<close>: the blocks that are deleted, in order, and the index that is left.\<close>

definition ExitIndex :: "'v manager \<Rightarrow> 'v cstore \<Rightarrow> code_index \<Rightarrow> (nat list \<times> code_index) option" where
  "ExitIndex m cs idx = map_option (\<lambda>calls. (map fst calls, empty_index)) (ForEachMetaData m cs idx)"

section \<open>Blocks in an index\<close>

text \<open>What the index needs of the manager: Granary's own classes are registered with their own
  comparison functions.\<close>

definition index_manager :: "'v manager \<Rightarrow> bool" where
  "index_manager m \<longleftrightarrow> manager_ok m \<and> kAppDescription \<in> set (registered m) \<and> kIndexDescription \<in> set (registered m) \<and>
     d_compare_equals (descs m kAppDescription) = Some (\<lambda>a b. app_start_pc a = app_start_pc b) \<and>
     d_compare_equals (descs m kIndexDescription) = None \<and> d_can_unify (descs m kIndexDescription) = None"

text \<open>What it needs of the comparison: blocks that compare equal have the same program counter, so
  that they share a bucket.\<close>

locale block_comparison =
  fixes pc_of :: "'m \<Rightarrow> 'pc" and eq :: "'m \<Rightarrow> 'm \<Rightarrow> bool"
  assumes eq_pc: "eq a b \<Longrightarrow> pc_of a = pc_of b"
begin

lemma find_in_bucket: "find (eq s) (filter (\<lambda>x. f (pc_of x) = f (pc_of s)) ms) = find (eq s) ms"
  by (induction ms) (auto dest: eq_pc)

end

interpretation own_classes: block_comparison "AppPCOf m cs" "\<lambda>a b. index_manager m \<and> Equals m cs a b" for m cs
  by unfold_locales (auto simp: index_manager_def Equals_def equals_loop_iff AppPCOf_def)

text \<open>Linking a block changes no program counter and no comparison.\<close>

lemma set_next_other:
  assumes "index_manager m" "k \<in> set (registered m)" "k \<noteq> kIndexDescription \<or> apart (gSize m) x meta" "x = meta \<or> apart (gSize m) x meta"
  shows "set_next m cs meta v (slot m x k) = cs (slot m x k)"
proof -
  have i: "kIndexDescription \<in> set (registered m)" "manager_ok m" using assms(1) by (auto simp: index_manager_def)
  have "slot m x k \<noteq> slot m meta kIndexDescription"
    using assms(2-4) slot_inj [OF i(2) assms(2) i(1)] slot_apart [OF i(2) assms(2) i(1)] by (auto simp: apart_def)
  then show ?thesis by (simp add: set_next_def)
qed

lemma set_next_same:
  assumes "index_manager m" "x = meta \<or> apart (gSize m) x meta" "y = meta \<or> apart (gSize m) y meta"
  shows "AppPCOf m (set_next m cs meta v) x = AppPCOf m cs x"
    "Equals m (set_next m cs meta v) x y = Equals m cs x y"
    "CanUnifyWith m (set_next m cs meta v) x y = CanUnifyWith m cs x y"
proof -
  have ne: "kAppDescription \<noteq> kIndexDescription" by (simp add: kAppDescription_def kIndexDescription_def)
  show "AppPCOf m (set_next m cs meta v) x = AppPCOf m cs x"
    using assms ne by (simp add: AppPCOf_def index_manager_def set_next_other)
  show "Equals m (set_next m cs meta v) x y = Equals m cs x y"
    unfolding Equals_def equals_loop_iff
  proof (intro ball_cong refl iff_allI imp_cong)
    fix k eq assume k: "k \<in> set (registered m)" "d_compare_equals (descs m k) = Some eq"
    then have "k \<noteq> kIndexDescription" using assms(1) by (auto simp: index_manager_def)
    then show "eq (set_next m cs meta v (slot m x k)) (set_next m cs meta v (slot m y k)) = eq (cs (slot m x k)) (cs (slot m y k))"
      using assms(2,3) set_next_other [OF assms(1) k(1)] by simp
  qed
  show "CanUnifyWith m (set_next m cs meta v) x y = CanUnifyWith m cs x y"
    unfolding CanUnifyWith_def
  proof (rule fold_cong [OF refl refl])
    fix k assume k: "k \<in> set (registered m)"
    show "(\<lambda>status. case d_can_unify (descs m k) of None \<Rightarrow> status
        | Some unify \<Rightarrow> let l = unify (set_next m cs meta v (slot m x k)) (set_next m cs meta v (slot m y k))
            in if status < l then l else status) =
      (\<lambda>status. case d_can_unify (descs m k) of None \<Rightarrow> status
        | Some unify \<Rightarrow> let l = unify (cs (slot m x k)) (cs (slot m y k)) in if status < l then l else status)"
    proof (cases "k = kIndexDescription")
      case True
      then show ?thesis using assms(1) by (simp add: index_manager_def)
    next
      case False
      then have "set_next m cs meta v (slot m x k) = cs (slot m x k)" "set_next m cs meta v (slot m y k) = cs (slot m y k)"
        using set_next_other [OF assms(1) k] assms(2,3) by simp_all
      then show ?thesis by (cases "d_can_unify (descs m k)") simp_all
    qed
  qed
qed

section \<open>The index as a list of blocks\<close>

definition head_of :: "code_index \<Rightarrow> nat \<times> nat \<Rightarrow> nat" where
  "head_of idx b = (case gIndex idx (fst b) of None \<Rightarrow> 0 | Some array \<Rightarrow> array (snd b))"

text \<open>The index holds the blocks \<open>ms\<close>, the most recent one first: every bucket links the blocks
  whose program counters map to it.\<close>

definition index_holds :: "'v manager \<Rightarrow> 'v cstore \<Rightarrow> code_index \<Rightarrow> nat list \<Rightarrow> bool" where
  "index_holds m cs idx ms \<longleftrightarrow> 0 \<notin> set ms \<and> sorted_wrt (apart (gSize m)) ms \<and>
     (\<forall>b. chain (next_of m cs) (head_of idx b) (filter (\<lambda>x. IndexOf (AppPCOf m cs x) = b) ms))"

lemma chain_cong:
  "(\<And>x. x \<in> set xs \<Longrightarrow> f x = g x) \<Longrightarrow> chain f p xs = chain g p xs"
  by (induction xs arbitrary: p) auto

lemma index_holds_empty: "index_holds m cs empty_index []"
  by (simp add: index_holds_def empty_index_def head_of_def)

lemma AddMetaDataToIndex_holds:
  assumes "index_manager m" "index_holds m cs idx ms" "meta \<noteq> 0" "\<forall>x \<in> set ms. apart (gSize m) meta x"
    and "AddMetaDataToIndex alloc m meta (s, cs, idx) = Some (s', cs', idx')"
  shows "index_holds m cs' idx' (meta # ms)"
proof -
  let ?b = "IndexOf (AppPCOf m cs meta)"
  obtain f sc where b: "?b = (f, sc)" by (cases ?b)
  define array where "array = (case gIndex idx f of None \<Rightarrow> \<lambda>_. 0 | Some array \<Rightarrow> array)"
  have st: "cs' = set_next m cs meta (array sc)" "gIndex idx' = (gIndex idx)(f \<mapsto> array(sc := meta))"
    using assms(5)
    by (auto simp: AddMetaDataToIndex_def MetaDataArray_new_def array_def b split: prod.splits option.splits bind_splits)
  have cs': "cs' = set_next m cs meta (head_of idx ?b)"
    by (simp add: st(1) array_def head_of_def b split: option.splits)
  have hd: "head_of idx' = (head_of idx)(?b := meta)"
    by (rule ext) (auto simp: head_of_def st(2) b array_def split: option.splits)
  have pc: "AppPCOf m cs' x = AppPCOf m cs x" if "x \<in> set (meta # ms)" for x
    using that assms(4) set_next_same(1) [OF assms(1), of x meta meta] by (auto simp: cs' apart_sym)
  have i: "kIndexDescription \<in> set (registered m)" using assms(1) by (simp add: index_manager_def)
  have nx: "next_of m cs' x = next_of m cs x" if "x \<in> set ms" for x
    using that assms(4) set_next_other [OF assms(1) i, of x meta] by (auto simp: cs' next_of_def apart_sym)
  have meta: "next_of m cs' meta = head_of idx ?b" by (simp add: cs' next_of_def set_next_def)
  have "chain (next_of m cs') (head_of idx' b) (filter (\<lambda>x. IndexOf (AppPCOf m cs' x) = b) (meta # ms))" for b
  proof -
    have f: "filter (\<lambda>x. IndexOf (AppPCOf m cs' x) = b) (meta # ms) =
        (if b = ?b then [meta] else []) @ filter (\<lambda>x. IndexOf (AppPCOf m cs x) = b) ms"
      using pc by (auto intro!: filter_cong)
    have "chain (next_of m cs') (head_of idx b) (filter (\<lambda>x. IndexOf (AppPCOf m cs x) = b) ms)"
      using assms(2) nx chain_cong [of "filter (\<lambda>x. IndexOf (AppPCOf m cs x) = b) ms" "next_of m cs'" "next_of m cs"]
      by (cases b) (simp add: index_holds_def)
    then show ?thesis unfolding f hd using meta assms(3) by (cases "b = ?b") simp_all
  qed
  then show ?thesis using assms(2-4) by (simp add: index_holds_def)
qed

text \<open>What a search of a bucket finds.\<close>

definition match_result :: "UnificationStatus \<Rightarrow> nat option \<Rightarrow> UnificationStatus \<times> nat" where
  "match_result status found =
     (case found of
        Some x \<Rightarrow> if status = kUnificationStatusReject then (kUnificationStatusReject, 0) else (status, x)
      | None \<Rightarrow> (kUnificationStatusReject, 0))"

lemma match_loop_result:
  assumes "chain (next_of m cs) cur xs" "CanUnifyWith m cs search ls = status"
  shows "match_loop m cs ls search cur response =
    Some (if status = kUnificationStatusReject \<or> find (Equals m cs search) xs = None \<or>
             status = kUnificationStatusAdapt \<and> fst response = kUnificationStatusAdapt
          then response else (status, the (find (Equals m cs search) xs)))"
  using assms(1)
proof (induction xs arbitrary: cur response)
  case Nil
  then show ?case by (simp add: match_loop.simps)
next
  case (Cons x xs)
  then have cur: "cur = x" "x \<noteq> 0" "chain (next_of m cs) (next_of m cs x) xs" by auto
  note IH = Cons.IH [OF cur(3)]
  show ?case
    by (subst match_loop.simps, simp only: IH cur) (use cur(2) in \<open>auto simp: assms(2) split: UnificationStatus.splits\<close>)
qed

lemma FindMetaDataInIndex_result:
  assumes "index_manager m" "index_holds m cs idx ms" "search \<noteq> 0"
  shows "FindMetaDataInIndex m cs idx search =
    Some (match_result (CanUnifyWith m cs search (head_of idx (IndexOf (AppPCOf m cs search)))) (find (Equals m cs search) ms))"
proof -
  let ?b = "IndexOf (AppPCOf m cs search)"
  let ?xs = "filter (\<lambda>x. IndexOf (AppPCOf m cs x) = ?b) ms"
  have ch: "chain (next_of m cs) (head_of idx ?b) ?xs" using assms(2) unfolding index_holds_def by blast
  have fd: "find (Equals m cs search) ?xs = find (Equals m cs search) ms"
    using own_classes.find_in_bucket [of m cs search IndexOf ms] assms(1) by simp
  show ?thesis
  proof (cases "head_of idx ?b = 0")
    case True
    then have "?xs = []" using ch by (cases ?xs) auto
    then have "find (Equals m cs search) ms = None" using fd by (metis find.simps(1))
    then show ?thesis
      using True assms(3) by (auto simp: FindMetaDataInIndex_def head_of_def match_result_def split: prod.splits option.splits)
  next
    case False
    then have "FindMetaDataInIndex m cs idx search = MatchMetaData m cs (head_of idx ?b) search"
      using assms(3) by (auto simp: FindMetaDataInIndex_def head_of_def split: prod.splits option.splits)
    then show ?thesis
      by (auto simp: MatchMetaData_def match_loop_result [OF ch refl] fd match_result_def split: option.splits)
  qed
qed

text \<open>The log of blocks that are not indexed, and sequences of additions to the two.\<close>

definition log_holds :: "'v manager \<Rightarrow> 'v cstore \<Rightarrow> code_index \<Rightarrow> nat list \<Rightarrow> bool" where
  "log_holds m cs idx ls \<longleftrightarrow> 0 \<notin> set ls \<and>
     (\<forall>i. chain (next_of m cs) (gUnindexedMeta idx i) (filter (\<lambda>x. fst (IndexOf (AppPCOf m cs x)) = i) ls))"

datatype index_op = ToIndex nat | ToLog nat

primrec op_meta :: "index_op \<Rightarrow> nat" where
  "op_meta (ToIndex meta) = meta"
| "op_meta (ToLog meta) = meta"

fun index_run ::
  "'s pages_fn \<Rightarrow> 'v manager \<Rightarrow> index_op list \<Rightarrow> 's \<times> 'v cstore \<times> code_index \<Rightarrow> ('s \<times> 'v cstore \<times> code_index) option" where
  "index_run alloc m [] st = Some st"
| "index_run alloc m (ToIndex meta # ops) st = Option.bind (AddMetaDataToIndex alloc m meta st) (index_run alloc m ops)"
| "index_run alloc m (ToLog meta # ops) (s, cs, idx) = index_run alloc m ops (s, AddMetaDataToLog m meta (cs, idx))"

definition indexed :: "index_op list \<Rightarrow> nat list" where
  "indexed ops = List.map_filter (\<lambda>op. case op of ToIndex meta \<Rightarrow> Some meta | ToLog _ \<Rightarrow> None) (rev ops)"

definition logged :: "index_op list \<Rightarrow> nat list" where
  "logged ops = List.map_filter (\<lambda>op. case op of ToIndex _ \<Rightarrow> None | ToLog meta \<Rightarrow> Some meta) (rev ops)"

text \<open>Linking a block that is apart from the others changes none of their lists.\<close>

lemma set_next_list:
  assumes "index_manager m" "\<forall>x \<in> set xs. apart (gSize m) meta x"
  shows "chain (next_of m (set_next m cs meta v)) p (filter (\<lambda>x. f (AppPCOf m (set_next m cs meta v) x)) xs) =
    chain (next_of m cs) p (filter (\<lambda>x. f (AppPCOf m cs x)) xs)"
proof -
  have i: "kIndexDescription \<in> set (registered m)" using assms(1) by (simp add: index_manager_def)
  have "filter (\<lambda>x. f (AppPCOf m (set_next m cs meta v) x)) xs = filter (\<lambda>x. f (AppPCOf m cs x)) xs"
  proof (rule filter_cong [OF refl])
    fix x assume "x \<in> set xs"
    then show "f (AppPCOf m (set_next m cs meta v) x) = f (AppPCOf m cs x)"
      using set_next_same(1) [OF assms(1), of x meta meta cs v] assms(2) by (simp add: apart_sym)
  qed
  moreover have "chain (next_of m (set_next m cs meta v)) p ys = chain (next_of m cs) p ys" if "set ys \<subseteq> set xs" for ys
    using that assms(2) set_next_other [OF assms(1) i, of _ meta cs v]
    by (intro chain_cong) (auto simp: next_of_def apart_sym)
  ultimately show ?thesis by (simp add: filter_is_subset)
qed

lemma set_next_holds:
  assumes "index_manager m" "\<forall>x \<in> set xs. apart (gSize m) meta x"
  shows "index_holds m (set_next m cs meta v) idx xs \<longleftrightarrow> index_holds m cs idx xs"
    "log_holds m (set_next m cs meta v) idx xs \<longleftrightarrow> log_holds m cs idx xs"
  unfolding index_holds_def log_holds_def
  using set_next_list [OF assms, of cs v _ "\<lambda>pc. IndexOf pc = _"] set_next_list [OF assms, of cs v _ "\<lambda>pc. fst (IndexOf pc) = _"]
  by simp_all

lemma AddMetaDataToIndex_shape:
  assumes "AddMetaDataToIndex alloc m meta (s, cs, idx) = Some (s', cs', idx')"
  shows "gUnindexedMeta idx' = gUnindexedMeta idx \<and> (\<exists>v. cs' = set_next m cs meta v)"
  using assms by (auto simp: AddMetaDataToIndex_def split: prod.splits bind_splits)

lemma AddMetaDataToLog_holds:
  assumes "index_manager m" "index_holds m cs idx ms" "log_holds m cs idx ls" "meta \<noteq> 0"
    and "\<forall>x \<in> set ms \<union> set ls. apart (gSize m) meta x" "AddMetaDataToLog m meta (cs, idx) = (cs', idx')"
  shows "index_holds m cs' idx' ms \<and> log_holds m cs' idx' (meta # ls)"
proof -
  obtain f sc where b: "IndexOf (AppPCOf m cs meta) = (f, sc)" by (cases "IndexOf (AppPCOf m cs meta)")
  have st: "cs' = set_next m cs meta (gUnindexedMeta idx f)" "idx' = idx\<lparr>gUnindexedMeta := (gUnindexedMeta idx)(f := meta)\<rparr>"
    using assms(6) by (auto simp: AddMetaDataToLog_def b)
  have "index_holds m cs' idx ms" "log_holds m cs' idx ls"
    using set_next_holds [OF assms(1)] assms(2,3,5) by (auto simp: st(1))
  moreover have "AppPCOf m cs' meta = AppPCOf m cs meta" "next_of m cs' meta = gUnindexedMeta idx f"
    using set_next_same(1) [OF assms(1), of meta meta meta] by (simp_all add: st(1) next_of_def) (simp add: set_next_def)
  ultimately show ?thesis using assms(4) b
    by (auto simp: index_holds_def log_holds_def st(2) head_of_def)
qed

lemma indexed_Cons [simp]:
  "indexed [] = []" "logged [] = []"
  "indexed (ToIndex meta # ops) = indexed ops @ [meta]" "indexed (ToLog meta # ops) = indexed ops"
  "logged (ToIndex meta # ops) = logged ops" "logged (ToLog meta # ops) = logged ops @ [meta]"
  by (simp_all add: indexed_def logged_def map_filter_simps map_filter_def)

lemma index_run_holds:
  assumes "index_manager m" "index_holds m cs idx ms" "log_holds m cs idx ls" "index_run alloc m ops (s, cs, idx) = Some (s', cs', idx')"
    and "0 \<notin> op_meta ` set ops" "sorted_wrt (apart (gSize m)) (map op_meta ops)"
    and "\<forall>x \<in> op_meta ` set ops. \<forall>y \<in> set ms \<union> set ls. apart (gSize m) x y"
  shows "index_holds m cs' idx' (indexed ops @ ms) \<and> log_holds m cs' idx' (logged ops @ ls)"
  using assms(2-)
proof (induction ops arbitrary: s cs idx ms ls)
  case (Cons op ops)
  show ?case
  proof (cases op)
    case (ToIndex meta)
    then obtain s1 cs1 idx1 where st: "AddMetaDataToIndex alloc m meta (s, cs, idx) = Some (s1, cs1, idx1)"
        "index_run alloc m ops (s1, cs1, idx1) = Some (s', cs', idx')"
      using Cons.prems(3) by (auto split: bind_splits)
    have "index_holds m cs1 idx1 (meta # ms)"
      using AddMetaDataToIndex_holds [OF assms(1) Cons.prems(1) _ _ st(1)] Cons.prems(4,6) ToIndex by auto
    moreover have "log_holds m cs1 idx1 ls"
    proof -
      obtain v where v: "gUnindexedMeta idx1 = gUnindexedMeta idx" "cs1 = set_next m cs meta v"
        using AddMetaDataToIndex_shape [OF st(1)] by auto
      have "log_holds m cs1 idx ls"
        using set_next_holds(2) [OF assms(1), of ls meta] Cons.prems(2,6) ToIndex v(2) by simp
      then show ?thesis by (simp add: log_holds_def v(1))
    qed
    ultimately show ?thesis
      using Cons.IH [OF _ _ st(2), of "meta # ms" ls] Cons.prems(4-6) ToIndex by (auto simp: apart_sym)
  next
    case (ToLog meta)
    obtain cs1 idx1 where st: "AddMetaDataToLog m meta (cs, idx) = (cs1, idx1)" by (cases "AddMetaDataToLog m meta (cs, idx)")
    have "index_holds m cs1 idx1 ms \<and> log_holds m cs1 idx1 (meta # ls)"
      using AddMetaDataToLog_holds [OF assms(1) Cons.prems(1,2) _ _ st] Cons.prems(4,6) ToLog by auto
    moreover have "index_run alloc m ops (s, cs1, idx1) = Some (s', cs', idx')" using Cons.prems(3) ToLog st by simp
    ultimately show ?thesis
      using Cons.IH [of cs1 idx1 ms "meta # ls"] Cons.prems(4-6) ToLog by (auto simp: apart_sym)
  qed
qed simp

section \<open>The manager that Granary sets up\<close>

text \<open>Registration keeps the table of descriptions dense, in order of registration.\<close>

definition dense :: "'v manager \<Rightarrow> nat list \<Rightarrow> bool" where
  "dense m ks \<longleftrightarrow> gNextDescriptionId m = int (length ks) \<and> length ks \<le> kMaxNumManagedMetaData \<and>
     gDescriptions m = map Some ks @ replicate (kMaxNumManagedMetaData - length ks) None"

definition same_table :: "'v description \<Rightarrow> 'v description \<Rightarrow> bool" where
  "same_table d e \<longleftrightarrow> d_size d = d_size e \<and> d_align d = d_align e \<and> d_compare_equals d = d_compare_equals e \<and>
     d_can_unify d = d_can_unify e"

lemma registered_dense: "dense m ks \<Longrightarrow> registered m = ks"
proof -
  have "takeWhile (\<lambda>d. d \<noteq> None) (map Some ks @ replicate n None) = map Some ks" for n
    by (induction ks) (auto simp: takeWhile_replicate)
  then show "dense m ks \<Longrightarrow> registered m = ks" by (simp add: dense_def registered_def comp_def)
qed

lemma AddMetaData_dense:
  assumes "dense m ks" "d_id (descs m k) = -1" "length ks < kMaxNumManagedMetaData"
  shows "\<exists>m'. AddMetaData k m = Some m' \<and> dense m' (ks @ [k]) \<and> (\<forall>l. l \<noteq> k \<longrightarrow> descs m' l = descs m l) \<and>
    same_table (descs m' k) (descs m k) \<and> gSize m' = gSize m \<and> gAlign m' = gAlign m"
proof -
  obtain n where n: "kMaxNumManagedMetaData - length ks = Suc n" using assms(3) by (cases "kMaxNumManagedMetaData - length ks") auto
  then have "(map Some ks @ replicate (kMaxNumManagedMetaData - length ks) None)[length ks := Some k] =
      map Some (ks @ [k]) @ replicate (kMaxNumManagedMetaData - length (ks @ [k])) None"
    by (simp add: list_update_append)
  then show ?thesis
    using assms n by (auto simp: AddMetaData_def dense_def same_table_def Let_def)
qed

fun add_classes :: "nat list \<Rightarrow> 'v manager \<Rightarrow> 'v manager option" where
  "add_classes [] m = Some m"
| "add_classes (k # ks) m = Option.bind (AddMetaData k m) (add_classes ks)"

lemma add_classes_dense:
  assumes "dense m ks" "\<forall>k \<in> set ls. d_id (descs m k) = -1" "distinct ls" "length ks + length ls \<le> kMaxNumManagedMetaData"
  shows "\<exists>m'. add_classes ls m = Some m' \<and> dense m' (ks @ ls) \<and> (\<forall>l. same_table (descs m' l) (descs m l)) \<and>
    gSize m' = gSize m \<and> gAlign m' = gAlign m"
  using assms
proof (induction ls arbitrary: m ks)
  case (Cons k ls)
  obtain m1 where m1: "AddMetaData k m = Some m1" "dense m1 (ks @ [k])" "\<forall>l. l \<noteq> k \<longrightarrow> descs m1 l = descs m l"
      "same_table (descs m1 k) (descs m k)" "gSize m1 = gSize m" "gAlign m1 = gAlign m"
    using AddMetaData_dense [OF Cons.prems(1), of k] Cons.prems(2,4) by auto
  have "\<forall>l \<in> set ls. d_id (descs m1 l) = -1" using Cons.prems(2,3) m1(3) by (metis distinct.simps(2) list.set_intros(2))
  then obtain m' where m': "add_classes ls m1 = Some m'" "dense m' ((ks @ [k]) @ ls)"
      "\<forall>l. same_table (descs m' l) (descs m1 l)" "gSize m' = gSize m1" "gAlign m' = gAlign m1"
    using Cons.IH [OF m1(2)] Cons.prems(3,4) by auto
  moreover have "same_table (descs m' l) (descs m l)" for l
    using m'(3) m1(3,4) by (cases "l = k") (auto simp: same_table_def)
  ultimately show ?case using m1 by auto
qed (simp add: same_table_def)

text \<open>Granary's own classes, followed by those of the tools.\<close>

definition own_descs :: "(nat \<Rightarrow> 'v description) \<Rightarrow> bool" where
  "own_descs ds \<longleftrightarrow> ds kAppDescription = AppMetaData_description \<and> ds kCacheDescription = CacheMetaData_description \<and>
     ds kIndexDescription = IndexMetaData_description"

definition setup_manager :: "(nat \<Rightarrow> 'v description) \<Rightarrow> nat list \<Rightarrow> 'v manager option" where
  "setup_manager ds tools = Option.bind (InitMetaData (static_manager ds)) (add_classes tools)"

lemma setup_manager_classes:
  "setup_manager ds tools = add_classes ([kAppDescription, kCacheDescription, kIndexDescription] @ tools)
     (static_manager ds)"
proof -
  have "static_manager ds\<lparr>gNextDescriptionId := 0, gAlign := 0, gSize := 0, gIsFinalized := False\<rparr> = static_manager ds"
    by (simp add: static_manager_def)
  then show ?thesis by (auto simp: setup_manager_def InitMetaData_def split: bind_splits)
qed

text \<open>C37. Registration of meta-data classes. Registering Granary's own classes and up to 29 classes of
  tools, each once, succeeds, lists them in order of registration, and the layout made of them
  is one in which the comparisons the index relies on are those of the registered classes.\<close>

theorem setup_manager_ok:
  assumes "own_descs ds" "distinct tools" "set tools \<inter> {kAppDescription, kCacheDescription, kIndexDescription} = {}"
    and "length tools \<le> 29" "\<forall>k \<in> set tools. d_id (ds k) = -1 \<and> 0 < d_size (ds k) \<and> 0 < d_align (ds k)"
  shows "\<exists>m. setup_manager ds tools = Some m \<and> index_manager (Finalize m) \<and>
    registered (Finalize m) = [kAppDescription, kCacheDescription, kIndexDescription] @ tools"
proof -
  let ?own = "[kAppDescription, kCacheDescription, kIndexDescription]"
  note desc_defs = kAppDescription_def kCacheDescription_def kIndexDescription_def
  have "dense (static_manager ds) []" by (simp add: dense_def static_manager_def)
  moreover have own: "\<forall>k \<in> set (?own @ tools). d_id (ds k) = -1 \<and> 0 < d_size (ds k) \<and> 0 < d_align (ds k)"
    using assms(1,5) by (auto simp: own_descs_def AppMetaData_description_def CacheMetaData_description_def IndexMetaData_description_def)
  moreover have dist: "distinct (?own @ tools)" using assms(2,3) by (auto simp: desc_defs)
  ultimately obtain m where m: "setup_manager ds tools = Some m" "dense m (?own @ tools)"
      "\<forall>l. same_table (descs m l) (ds l)" "gSize m = 0" "gAlign m = 0"
    using add_classes_dense [of "static_manager ds" "[]" "?own @ tools"] assms(4) unfolding setup_manager_classes
    by (auto simp: static_manager_def kMaxNumManagedMetaData_def)
  have reg: "registered m = ?own @ tools" using registered_dense [OF m(2)] .
  have "fresh_manager m" using m(3-5) own dist reg by (auto simp: fresh_manager_def same_table_def)
  then have "manager_ok (Finalize m)"
    using Finalize_laid_out(1) [of m] own dist m(3) by (auto simp: manager_ok_def Finalize_frame reg same_table_def)
  moreover have "d_compare_equals (descs (Finalize m) k) = d_compare_equals (ds k)" "d_can_unify (descs (Finalize m) k) = d_can_unify (ds k)" for k
    using m(3) by (auto simp: Finalize_frame same_table_def)
  ultimately show ?thesis
    using m(1) reg assms(1)
    by (auto simp: index_manager_def Finalize_frame own_descs_def AppMetaData_description_def IndexMetaData_description_def)
qed

lemma example_own: "own_descs example_descs"
  by (simp add: own_descs_def example_descs_def kAppDescription_def kCacheDescription_def kIndexDescription_def)

theorem setup_manager_ok_witness:
  "\<exists>m. setup_manager example_descs [3, 4] = Some m \<and> registered (Finalize m) = [0, 1, 2, 3, 4]"
proof -
  have "\<forall>k \<in> {3, 4}. d_id (example_descs k) = -1 \<and> 0 < d_size (example_descs k) \<and> 0 < d_align (example_descs k)"
    by (simp add: example_descs_def kAppDescription_def kCacheDescription_def kIndexDescription_def)
  then show ?thesis
    using setup_manager_ok [OF example_own, of "[3, 4]"]
    by (auto simp: kAppDescription_def kCacheDescription_def kIndexDescription_def)
qed

section \<open>Properties of the index\<close>

text \<open>C6. The index finds what was added. After any sequence of additions of distinct blocks to the
  index and to the log, starting from the empty index, a search returns. If the block searched for can be
  unified with the head of its bucket, the search finds the most recently indexed block that
  equals it, with the unification status that it has with that head. It is rejected if there
  is no equal block, and also, whatever is indexed, if the head of the bucket rejects it: the code asks for the
  unification with the head and not with the equal block.\<close>

theorem index_lookup:
  assumes "index_manager m" "0 \<notin> op_meta ` set ops" "sorted_wrt (apart (gSize m)) (map op_meta ops)"
    and "index_run alloc m ops (s, cs, empty_index) = Some (s', cs', idx')" "search \<noteq> 0"
  shows "FindMetaDataInIndex m cs' idx' search =
    Some (match_result (CanUnifyWith m cs' search (head_of idx' (IndexOf (AppPCOf m cs' search))))
            (find (Equals m cs' search) (indexed ops)))"
proof -
  have "log_holds m cs empty_index []" by (simp add: log_holds_def empty_index_def)
  from index_run_holds [OF assms(1) index_holds_empty this assms(4,2,3)]
  have "index_holds m cs' idx' (indexed ops)" by simp
  then show ?thesis by (rule FindMetaDataInIndex_result [OF assms(1) _ assms(5)])
qed

lemma walk_chain: "chain nxt p xs \<Longrightarrow> walk nxt p = Some xs"
proof (induction xs arbitrary: p)
  case (Cons x xs)
  then show ?case by (subst walk.simps) simp
qed (simp add: walk.simps)

lemma those_Some: "(\<And>x. x \<in> set xs \<Longrightarrow> f x = Some (g x)) \<Longrightarrow> those (map f xs) = Some (map g xs)"
  by (induction xs) auto

lemma set_heads:
  "set (concat (map (array_heads \<circ> gIndex idx) [0..<kMaxFirstIndex])) =
   head_of idx ` {b. fst b < kMaxFirstIndex \<and> snd b < kMaxSecondIndex \<and> gIndex idx (fst b) \<noteq> None}" (is "?l = ?r")
proof
  show "?l \<subseteq> ?r"
  proof
    fix x assume "x \<in> ?l"
    then obtain i where i: "i < kMaxFirstIndex" "x \<in> set (array_heads (gIndex idx i))" by auto
    then obtain array where "gIndex idx i = Some array" by (cases "gIndex idx i") (auto simp: array_heads_def)
    with i obtain j where "gIndex idx i = Some array" "j < kMaxSecondIndex" "x = array j"
      by (auto simp: array_heads_def)
    with i(1) show "x \<in> ?r" by (intro image_eqI [of _ _ "(i, j)"]) (auto simp: head_of_def)
  qed
  show "?r \<subseteq> ?l" by (auto simp: head_of_def array_heads_def)
qed

lemma IndexOf_bounds: "fst (IndexOf pc) < kMaxFirstIndex" "snd (IndexOf pc) < kMaxSecondIndex"
  by (simp_all add: IndexOf_def kMaxFirstIndex_def kMaxSecondIndex_def PAGE_SIZE_BYTES_def POINTER_SIZE_def)

text \<open>C36. No block is lost. After such a sequence, iterating over all meta-data returns and visits
  exactly the indexed and the logged blocks, each under its own status.\<close>

theorem ForEachMetaData_visits_all:
  assumes "index_manager m" "0 \<notin> op_meta ` set ops" "sorted_wrt (apart (gSize m)) (map op_meta ops)"
    and "index_run alloc m ops (s, cs, empty_index) = Some (s', cs', idx')"
  shows "\<exists>calls. ForEachMetaData m cs' idx' = Some calls \<and>
    set calls = (\<lambda>meta. (meta, kMetaDataIndexed)) ` set (indexed ops) \<union> (\<lambda>meta. (meta, kMetaDataUnindexed)) ` set (logged ops)"
proof -
  have "log_holds m cs empty_index []" by (simp add: log_holds_def empty_index_def)
  from index_run_holds [OF assms(1) index_holds_empty this assms(4,2,3)]
  have ih: "\<forall>b. chain (next_of m cs') (head_of idx' b) (filter (\<lambda>x. IndexOf (AppPCOf m cs' x) = b) (indexed ops))"
    and lh: "\<forall>i. chain (next_of m cs') (gUnindexedMeta idx' i) (filter (\<lambda>x. fst (IndexOf (AppPCOf m cs' x)) = i) (logged ops))"
    unfolding index_holds_def log_holds_def by auto
  let ?heads = "concat (map (array_heads \<circ> gIndex idx') [0..<kMaxFirstIndex])"
  let ?buckets = "{b. fst b < kMaxFirstIndex \<and> snd b < kMaxSecondIndex \<and> gIndex idx' (fst b) \<noteq> None}"
  have heads: "set ?heads = head_of idx' ` ?buckets"
    by (rule set_heads)
  define contents where "contents p = the (walk (next_of m cs') p)" for p
  have bucket: "walk (next_of m cs') (head_of idx' b) = Some (filter (\<lambda>x. IndexOf (AppPCOf m cs' x) = b) (indexed ops))" for b
    using walk_chain ih by blast
  have w: "those (map (walk (next_of m cs')) ?heads) = Some (map contents ?heads)"
  proof (rule those_Some)
    fix p assume "p \<in> set ?heads"
    then obtain b where "p = head_of idx' b" unfolding heads by blast
    then show "walk (next_of m cs') p = Some (contents p)" using bucket by (simp add: contents_def)
  qed
  have l: "those (map (walk (next_of m cs') \<circ> gUnindexedMeta idx') [0..<kMaxFirstIndex]) =
      Some (map (\<lambda>i. filter (\<lambda>x. fst (IndexOf (AppPCOf m cs' x)) = i) (logged ops)) [0..<kMaxFirstIndex])"
    by (rule those_Some) (use walk_chain lh in auto)
  have "x \<in> (\<Union>b \<in> ?buckets. set (contents (head_of idx' b)))" if x: "x \<in> set (indexed ops)" for x
  proof -
    let ?b = "IndexOf (AppPCOf m cs' x)"
    have "x \<in> set (contents (head_of idx' ?b))" using x by (simp add: contents_def bucket)
    moreover have "gIndex idx' (fst ?b) \<noteq> None"
    proof
      assume "gIndex idx' (fst ?b) = None"
      then have "head_of idx' ?b = 0" by (simp add: head_of_def)
      then have "contents (head_of idx' ?b) = []" by (simp add: contents_def walk.simps)
      then show False using \<open>x \<in> set (contents (head_of idx' ?b))\<close> by simp
    qed
    ultimately show ?thesis using IndexOf_bounds by blast
  qed
  moreover have "set (contents (head_of idx' b)) \<subseteq> set (indexed ops)" for b by (simp add: contents_def bucket)
  ultimately have "(\<Union>b \<in> ?buckets. set (contents (head_of idx' b))) = set (indexed ops)" by blast
  moreover have "set (concat (map contents ?heads)) = (\<Union>b \<in> ?buckets. set (contents (head_of idx' b)))"
    by (subst set_concat) (simp only: set_map heads image_image)
  ultimately have "set (concat (map contents ?heads)) = set (indexed ops)" by (simp only:)
  moreover have "set (concat (map (\<lambda>i. filter (\<lambda>x. fst (IndexOf (AppPCOf m cs' x)) = i) (logged ops)) [0..<kMaxFirstIndex])) =
      set (logged ops)"
    using IndexOf_bounds(1) by auto
  ultimately show ?thesis unfolding ForEachMetaData_def w l by (simp del: set_concat)
qed

text \<open>A run of the index over two blocks of the example manager, 40 bytes apart, the second in the
  log.\<close>

lemma example_index_manager: "index_manager (Finalize example_registered)"
proof -
  have "registered (Finalize example_registered) = [0, 1, 2, 3]" by (simp add: Finalize_frame example_registered_descs(1))
  moreover have "d_compare_equals (descs example_registered 0) = Some (\<lambda>a b. app_start_pc a = app_start_pc b)"
      "d_compare_equals (descs example_registered 2) = None" "d_can_unify (descs example_registered 2) = None"
    by (simp_all add: example_registered_def InitMetaData_def AddMetaData_def static_manager_def static_entries
        Let_def example_descs_def kAppDescription_def kCacheDescription_def kIndexDescription_def
        AppMetaData_description_def CacheMetaData_description_def IndexMetaData_description_def)
  ultimately show ?thesis
    using example_ok by (simp add: index_manager_def kAppDescription_def kIndexDescription_def Finalize_frame)
qed

text \<open>A run over three blocks of the example, a block apart, the last of them in the log.\<close>

definition example_store :: "nat \<Rightarrow> nat component" where
  "example_store x = (if (x - 0x1000) mod 40 = 0 then AppMetaData 0x400 else if (x - 0x1000) mod 40 = 24 then IndexMetaData 0
     else if (x - 0x1000) mod 40 = 8 then CacheMetaData 0 [] else ToolMetaData x)"

definition example_ops :: "index_op list" where
  "example_ops = [ToIndex 0x1000, ToIndex 0x1028, ToLog 0x1050]"

definition example_alloc :: "nat pages_fn" where
  "example_alloc n num = (n + num, Some (0x10000 + 4096 * n))"

lemma example_run: "\<exists>s cs idx. index_run example_alloc (Finalize example_registered) example_ops (0, example_store, empty_index) = Some (s, cs, idx)"
  by (simp add: example_ops_def AddMetaDataToIndex_def AddMetaDataToLog_def MetaDataArray_new_def example_alloc_def empty_index_def
      split: prod.splits option.splits bind_splits)

theorem index_lookup_witness:
  "\<exists>s cs idx. index_run example_alloc (Finalize example_registered) example_ops (0, example_store, empty_index) = Some (s, cs, idx) \<and>
     FindMetaDataInIndex (Finalize example_registered) cs idx 0x1078 =
       Some (match_result (CanUnifyWith (Finalize example_registered) cs 0x1078
           (head_of idx (IndexOf (AppPCOf (Finalize example_registered) cs 0x1078))))
         (find (Equals (Finalize example_registered) cs 0x1078) [0x1028, 0x1000]))"
proof -
  obtain s cs idx where run: "index_run example_alloc (Finalize example_registered) example_ops (0, example_store, empty_index) = Some (s, cs, idx)"
    using example_run by blast
  have "sorted_wrt (apart 40) (map op_meta example_ops)" "0 \<notin> op_meta ` set example_ops" "indexed example_ops = [0x1028, 0x1000]"
    by (simp_all add: example_ops_def apart_def)
  then show ?thesis
    using index_lookup [OF example_index_manager _ _ run, of "0x1078"] run by (auto simp: example_size)
qed

theorem ForEachMetaData_visits_all_witness:
  "\<exists>s cs idx calls. index_run example_alloc (Finalize example_registered) example_ops (0, example_store, empty_index) = Some (s, cs, idx) \<and>
     ForEachMetaData (Finalize example_registered) cs idx = Some calls \<and>
     set calls = {(0x1000, kMetaDataIndexed), (0x1028, kMetaDataIndexed), (0x1050, kMetaDataUnindexed)}"
proof -
  obtain s cs idx where run: "index_run example_alloc (Finalize example_registered) example_ops (0, example_store, empty_index) = Some (s, cs, idx)"
    using example_run by blast
  have "sorted_wrt (apart 40) (map op_meta example_ops)" "0 \<notin> op_meta ` set example_ops" "indexed example_ops = [0x1028, 0x1000]"
      "logged example_ops = [0x1050]"
    by (simp_all add: example_ops_def apart_def)
  then obtain calls where "ForEachMetaData (Finalize example_registered) cs idx = Some calls"
      "set calls = {(0x1028, kMetaDataIndexed), (0x1000, kMetaDataIndexed), (0x1050, kMetaDataUnindexed)}"
    using ForEachMetaData_visits_all [OF example_index_manager _ _ run] by (auto simp: example_size)
  then show ?thesis using run by blast
qed

text \<open>C39. The lock of an addition does not protect the first level. Run alone, the three accesses of
  an addition are the addition. But when two blocks share a first-level index that is still
  empty and differ in the second-level index, so that they take different locks, both can find
  the first level empty; the block linked first is then lost, and a search for it is rejected.\<close>

theorem index_race_loses_block:
  assumes "index_manager m" "x \<noteq> 0" "apart (gSize m) x y"
    and "IndexOf (AppPCOf m cs x) = (f, i)" "IndexOf (AppPCOf m cs y) = (f, j)" "i \<noteq> j"
    and "add_install alloc m cs x (add_check m cs x idx) (s, idx) = Some (s1, idx1)" "add_link m x (cs, idx1) = Some (cs2, idx2)"
    and "add_install alloc m cs2 y (add_check m cs y idx) (s1, idx2) = Some (s3, idx3)" "add_link m y (cs2, idx3) = Some (cs4, idx4)"
  shows "AddMetaDataToIndex alloc m x (s, cs, idx) = Some (s1, cs2, idx2) \<and>
    (gIndex idx f = None \<longrightarrow> FindMetaDataInIndex m cs4 idx4 x = Some (kUnificationStatusReject, 0))"
proof (intro conjI impI)
  show "AddMetaDataToIndex alloc m x (s, cs, idx) = Some (s1, cs2, idx2)"
    using assms(4,7,8)
    by (auto simp: add_install_def add_check_def add_link_def AddMetaDataToIndex_def split: option.splits prod.splits bind_splits if_splits)
next
  assume null: "gIndex idx f = None"
  have pc: "AppPCOf m (set_next m cs x v) x = AppPCOf m cs x" "AppPCOf m (set_next m cs x v) y = AppPCOf m cs y" for cs v
    using set_next_same(1) [OF assms(1), of _ x x] assms(3) by (auto simp: apart_sym)
  have pcy: "AppPCOf m (set_next m cs y v) x = AppPCOf m cs x" for cs v
    using set_next_same(1) [OF assms(1), of x y y] assms(3) by auto
  obtain v where cs2: "cs2 = set_next m cs x v" using assms(8) by (auto simp: add_link_def split: option.splits prod.splits)
  have y2: "IndexOf (AppPCOf m cs2 y) = (f, j)" and x2: "IndexOf (AppPCOf m cs2 x) = (f, i)"
    using pc assms(4,5) by (simp_all add: cs2)
  have "gIndex idx3 f = Some (\<lambda>_. 0)"
    using assms(9) null y2 assms(5) by (auto simp: add_install_def add_check_def MetaDataArray_new_def split: bind_splits prod.splits option.splits)
  then have "gIndex idx4 f = Some ((\<lambda>_. 0)(j := y))" "cs4 = set_next m cs2 y 0"
    using assms(10) y2 by (auto simp: add_link_def)
  then show "FindMetaDataInIndex m cs4 idx4 x = Some (kUnificationStatusReject, 0)"
    using assms(2,6) x2 by (simp add: FindMetaDataInIndex_def pcy)
qed

definition race_store :: "nat \<Rightarrow> nat component" where
  "race_store x = (if x = 0x1000 then AppMetaData 0x400 else if x = 0x1028 then AppMetaData 0x408 else IndexMetaData 0)"

theorem index_race_loses_block_witness:
  "\<exists>cs4 idx4. FindMetaDataInIndex (Finalize example_registered) cs4 idx4 0x1000 = Some (kUnificationStatusReject, 0) \<and>
     gIndex idx4 0 \<noteq> None"
proof -
  let ?m = "Finalize example_registered"
  have off: "d_offset (descs ?m 0) = 0" "d_offset (descs ?m 2) = 24"
    using example_registered_descs(4)
    by (simp_all add: Finalize_def example_registered_descs layout_step_def Let_def align_factor_def)
  have pcs: "IndexOf (AppPCOf ?m race_store 0x1000) = (0, 128)" "IndexOf (AppPCOf ?m race_store 0x1028) = (0, 129)"
    by (simp_all add: IndexOf_def AppPCOf_def slot_def kAppDescription_def off race_store_def kNumIgnoredBits_def
        kNumBitsSecondIndex_def kMaxFirstIndex_def kMaxSecondIndex_def PAGE_SIZE_BYTES_def POINTER_SIZE_def drop_bit_eq_div unat_div)
  let ?idx1 = "empty_index\<lparr>gIndex := [0 \<mapsto> \<lambda>_. 0]\<rparr>"
  have s1: "add_install example_alloc ?m race_store 0x1000 (add_check ?m race_store 0x1000 empty_index) (0, empty_index) = Some (1, ?idx1)"
    by (simp add: add_install_def add_check_def pcs empty_index_def MetaDataArray_new_def example_alloc_def)
  let ?cs2 = "set_next ?m race_store 0x1000 0" and ?idx2 = "empty_index\<lparr>gIndex := [0 \<mapsto> (\<lambda>_. 0)(128 := 0x1000)]\<rparr>"
  have s2: "add_link ?m 0x1000 (race_store, ?idx1) = Some (?cs2, ?idx2)"
    by (simp add: add_link_def pcs empty_index_def)
  have pc2: "IndexOf (AppPCOf ?m ?cs2 0x1028) = (0, 129)"
    using set_next_same(1) [OF example_index_manager, of "0x1028" "0x1000" "0x1000" race_store 0] pcs(2)
    by (simp add: apart_def example_size)
  have s3: "add_install example_alloc ?m ?cs2 0x1028 (add_check ?m race_store 0x1028 empty_index) (1, ?idx2) = Some (2, ?idx1)"
    by (simp add: add_install_def add_check_def pcs pc2 empty_index_def MetaDataArray_new_def example_alloc_def)
  obtain cs4 idx4 where s4: "add_link ?m 0x1028 (?cs2, ?idx1) = Some (cs4, idx4)" "gIndex idx4 0 \<noteq> None"
    by (simp add: add_link_def pc2 empty_index_def)
  have "FindMetaDataInIndex ?m cs4 idx4 0x1000 = Some (kUnificationStatusReject, 0)"
    using index_race_loses_block [OF example_index_manager _ _ pcs _ s1 s2 s3 s4(1)]
    by (simp add: apart_def example_size empty_index_def)
  then show ?thesis using s4(2) by blast
qed

end
