(* ===== verification/Registers.thy ===== *)
theory Registers
  imports Prelude Bits
begin

text \<open>
  Registers (\<^verbatim>\<open>granary/code/register.h\<close>, \<^verbatim>\<open>granary/code/register.cc\<close>,
  \<^verbatim>\<open>arch/x86-64/register.cc\<close>), the architectural operands that name them
  (\<^verbatim>\<open>arch/x86-64/operand.h\<close>) and the register usage counter of
  \<^verbatim>\<open>granary/code/fragment.cc\<close>: virtual registers, their conversion from and to the
  decoder's registers, sets of general-purpose registers, and the used and live register sets
  an instruction gives.

  The decoder library is not part of the sources.  The functions of it that the code calls are
  the fields of the record \<^verbatim>\<open>xed_api\<close>, an argument of the definitions that use them;
  \<^verbatim>\<open>xed_documented\<close> states what the library's headers document of them.  The numbers of
  the registers are the enumerators of \<^verbatim>\<open>xed-reg-enum.h\<close>.
\<close>

section \<open>The decoder library's interface\<close>

datatype xed_encoder_operand_type =
    XED_ENCODER_OPERAND_TYPE_INVALID | XED_ENCODER_OPERAND_TYPE_BRDISP
  | XED_ENCODER_OPERAND_TYPE_REG | XED_ENCODER_OPERAND_TYPE_IMM0
  | XED_ENCODER_OPERAND_TYPE_SIMM0 | XED_ENCODER_OPERAND_TYPE_IMM1
  | XED_ENCODER_OPERAND_TYPE_MEM | XED_ENCODER_OPERAND_TYPE_PTR
  | XED_ENCODER_OPERAND_TYPE_SEG0 | XED_ENCODER_OPERAND_TYPE_SEG1
  | XED_ENCODER_OPERAND_TYPE_OTHER

datatype xed_operand_action =
    XED_OPERAND_ACTION_INVALID | XED_OPERAND_ACTION_RW | XED_OPERAND_ACTION_R
  | XED_OPERAND_ACTION_W | XED_OPERAND_ACTION_RCW | XED_OPERAND_ACTION_CW
  | XED_OPERAND_ACTION_CRW | XED_OPERAND_ACTION_CR

record xed_api =
  xed_operand_action_read :: "xed_operand_action \<Rightarrow> bool"
  xed_operand_action_written :: "xed_operand_action \<Rightarrow> bool"
  xed_operand_action_conditional_read :: "xed_operand_action \<Rightarrow> bool"
  xed_operand_action_conditional_write :: "xed_operand_action \<Rightarrow> bool"
  xed_get_largest_enclosing_register :: "nat \<Rightarrow> nat"
  xed_get_register_width_bits64 :: "nat \<Rightarrow> nat"

definition XED_REG_INVALID :: nat where [granary_simps]: "XED_REG_INVALID = 0"
definition XED_REG_FLAGS :: nat where [granary_simps]: "XED_REG_FLAGS = 39"
definition XED_REG_RFLAGS :: nat where [granary_simps]: "XED_REG_RFLAGS = 41"
definition XED_REG_AX :: nat where [granary_simps]: "XED_REG_AX = 42"
definition XED_REG_SP :: nat where [granary_simps]: "XED_REG_SP = 46"
definition XED_REG_R15W :: nat where [granary_simps]: "XED_REG_R15W = 57"
definition XED_REG_EAX :: nat where [granary_simps]: "XED_REG_EAX = 58"
definition XED_REG_ESP :: nat where [granary_simps]: "XED_REG_ESP = 62"
definition XED_REG_R15D :: nat where [granary_simps]: "XED_REG_R15D = 73"
definition XED_REG_RAX :: nat where [granary_simps]: "XED_REG_RAX = 74"
definition XED_REG_RSP :: nat where [granary_simps]: "XED_REG_RSP = 78"
definition XED_REG_R15 :: nat where [granary_simps]: "XED_REG_R15 = 89"
definition XED_REG_AL :: nat where [granary_simps]: "XED_REG_AL = 90"
definition XED_REG_SPL :: nat where [granary_simps]: "XED_REG_SPL = 94"
definition XED_REG_R15B :: nat where [granary_simps]: "XED_REG_R15B = 105"
definition XED_REG_AH :: nat where [granary_simps]: "XED_REG_AH = 106"
definition XED_REG_BH :: nat where [granary_simps]: "XED_REG_BH = 109"
definition XED_REG_RIP :: nat where [granary_simps]: "XED_REG_RIP = 111"
definition XED_REG_IP :: nat where [granary_simps]: "XED_REG_IP = 113"
definition XED_REG_DS :: nat where [granary_simps]: "XED_REG_DS = 154"
definition XED_REG_LAST :: nat where [granary_simps]: "XED_REG_LAST = 280"

text \<open>What the headers document: an action is a read when its value is read, conditionally or
  not; the largest enclosing register of a part of a general-purpose register is the 64-bit
  register, and no other register has a general-purpose one around it.\<close>

definition doc_enclosing :: "nat \<Rightarrow> nat" where
  "doc_enclosing r =
     (if XED_REG_AX \<le> r \<and> r \<le> XED_REG_R15W then XED_REG_RAX + (r - XED_REG_AX)
      else if XED_REG_EAX \<le> r \<and> r \<le> XED_REG_R15D then XED_REG_RAX + (r - XED_REG_EAX)
      else if XED_REG_AL \<le> r \<and> r \<le> XED_REG_R15B then XED_REG_RAX + (r - XED_REG_AL)
      else if XED_REG_AH \<le> r \<and> r \<le> XED_REG_BH then XED_REG_RAX + (r - XED_REG_AH)
      else r)"

definition doc_width :: "nat \<Rightarrow> nat" where
  "doc_width r =
     (if XED_REG_AX \<le> r \<and> r \<le> XED_REG_R15W then 16
      else if XED_REG_EAX \<le> r \<and> r \<le> XED_REG_R15D then 32
      else if XED_REG_AL \<le> r \<and> r \<le> XED_REG_BH then 8 else 64)"

definition is_gpr_part :: "nat \<Rightarrow> bool" where
  "is_gpr_part r = (XED_REG_AX \<le> r \<and> r \<le> XED_REG_BH)"

definition xed_documented :: "xed_api \<Rightarrow> bool" where
  "xed_documented X \<longleftrightarrow>
     (\<forall>a. xed_operand_action_read X a \<longleftrightarrow>
        a \<in> {XED_OPERAND_ACTION_RW, XED_OPERAND_ACTION_R, XED_OPERAND_ACTION_RCW,
             XED_OPERAND_ACTION_CRW, XED_OPERAND_ACTION_CR}) \<and>
     (\<forall>a. xed_operand_action_written X a \<longleftrightarrow>
        a \<in> {XED_OPERAND_ACTION_RW, XED_OPERAND_ACTION_W, XED_OPERAND_ACTION_RCW,
             XED_OPERAND_ACTION_CW, XED_OPERAND_ACTION_CRW}) \<and>
     (\<forall>a. xed_operand_action_conditional_read X a \<longleftrightarrow>
        a \<in> {XED_OPERAND_ACTION_CRW, XED_OPERAND_ACTION_CR}) \<and>
     (\<forall>a. xed_operand_action_conditional_write X a \<longleftrightarrow>
        a \<in> {XED_OPERAND_ACTION_RCW, XED_OPERAND_ACTION_CW}) \<and>
     (\<forall>r. is_gpr_part r \<longrightarrow> xed_get_largest_enclosing_register X r = doc_enclosing r \<and>
                            xed_get_register_width_bits64 X r = doc_width r) \<and>
     (\<forall>r. \<not> is_gpr_part r \<longrightarrow> \<not> is_gpr_part (xed_get_largest_enclosing_register X r))"

definition doc_xed :: xed_api where
  "doc_xed = \<lparr>
     xed_operand_action_read =
       (\<lambda>a. a \<in> {XED_OPERAND_ACTION_RW, XED_OPERAND_ACTION_R, XED_OPERAND_ACTION_RCW,
                 XED_OPERAND_ACTION_CRW, XED_OPERAND_ACTION_CR}),
     xed_operand_action_written =
       (\<lambda>a. a \<in> {XED_OPERAND_ACTION_RW, XED_OPERAND_ACTION_W, XED_OPERAND_ACTION_RCW,
                 XED_OPERAND_ACTION_CW, XED_OPERAND_ACTION_CRW}),
     xed_operand_action_conditional_read =
       (\<lambda>a. a \<in> {XED_OPERAND_ACTION_CRW, XED_OPERAND_ACTION_CR}),
     xed_operand_action_conditional_write =
       (\<lambda>a. a \<in> {XED_OPERAND_ACTION_RCW, XED_OPERAND_ACTION_CW}),
     xed_get_largest_enclosing_register = doc_enclosing,
     xed_get_register_width_bits64 = doc_width\<rparr>"

lemma xed_documented_doc_xed: "xed_documented doc_xed"
  by (simp add: xed_documented_def doc_xed_def doc_enclosing_def is_gpr_part_def granary_simps)

section \<open>Virtual registers\<close>

datatype VirtualRegisterKind =
    kVirtualRegisterKindInvalid | kVirtualRegisterKindUnschedulable | kVirtualRegisterKindArchGpr
  | kVirtualRegisterKindVirtualGpr | kVirtualRegisterKindSlot

definition kMinTemporaryVirtualRegister :: nat where
  [granary_simps]: "kMinTemporaryVirtualRegister = 1024"
definition kMinTraceVirtualRegister :: nat where
  [granary_simps]: "kMinTraceVirtualRegister = 2048"
definition kMinGlobalVirtualRegister :: nat where
  [granary_simps]: "kMinGlobalVirtualRegister = 3072"

record VirtualRegister =
  reg_num :: u16
  vr_kind :: VirtualRegisterKind
  num_bytes :: u16
  byte_mask :: u8
  preserved_byte_mask :: u8
  is_legacy :: bool
  is_scheduled :: bool
  is_stack_pointer :: bool

definition VirtualRegister_default :: VirtualRegister where
  "VirtualRegister_default = \<lparr>reg_num = 0, vr_kind = kVirtualRegisterKindInvalid, num_bytes = 0,
     byte_mask = 0, preserved_byte_mask = 0, is_legacy = False, is_scheduled = False,
     is_stack_pointer = False\<rparr>"

text \<open>The constructor; \<^const>\<open>None\<close> is a failed assertion.\<close>

definition VirtualRegister_new :: "VirtualRegisterKind \<Rightarrow> u8 \<Rightarrow> u16 \<Rightarrow> VirtualRegister option" where
  "VirtualRegister_new k bytes num =
     (if bytes \<noteq> 0 \<and> bytes AND (bytes - 1) = 0 \<and> unat bytes < 32
      then Some (VirtualRegister_default\<lparr>reg_num := num, vr_kind := k, num_bytes := ucast bytes,
             byte_mask := ucast (NOT (push_bit (unat bytes) (NOT 0 :: u32)))\<rparr>)
      else None)"

definition BitWidth :: "VirtualRegister \<Rightarrow> nat" where
  "BitWidth r = unat (num_bytes r) * 8"

definition ByteWidth :: "VirtualRegister \<Rightarrow> nat" where
  "ByteWidth r = unat (num_bytes r)"

definition PreservesBytesOnWrite :: "VirtualRegister \<Rightarrow> bool" where
  "PreservesBytesOnWrite r \<longleftrightarrow> preserved_byte_mask r \<noteq> 0"

definition IsNative :: "VirtualRegister \<Rightarrow> bool" where
  "IsNative r \<longleftrightarrow> vr_kind r = kVirtualRegisterKindUnschedulable \<or>
                  vr_kind r = kVirtualRegisterKindArchGpr"

definition IsGeneralPurpose :: "VirtualRegister \<Rightarrow> bool" where
  "IsGeneralPurpose r \<longleftrightarrow> vr_kind r = kVirtualRegisterKindArchGpr \<or>
                          vr_kind r = kVirtualRegisterKindVirtualGpr"

definition IsVirtual :: "VirtualRegister \<Rightarrow> bool" where
  "IsVirtual r \<longleftrightarrow> vr_kind r = kVirtualRegisterKindVirtualGpr"

definition VirtualRegister_IsValid :: "VirtualRegister \<Rightarrow> bool" where
  "VirtualRegister_IsValid r \<longleftrightarrow> vr_kind r \<noteq> kVirtualRegisterKindInvalid"

definition IsVirtualSlot :: "VirtualRegister \<Rightarrow> bool" where
  "IsVirtualSlot r \<longleftrightarrow> vr_kind r = kVirtualRegisterKindSlot"

definition MarkAsScheduled :: "VirtualRegister \<Rightarrow> VirtualRegister" where
  "MarkAsScheduled r = r\<lparr>is_scheduled := True\<rparr>"

definition MarkAsStackPointerAlias :: "VirtualRegister \<Rightarrow> VirtualRegister" where
  "MarkAsStackPointerAlias r = r\<lparr>is_stack_pointer := True\<rparr>"

definition Number :: "VirtualRegister \<Rightarrow> nat" where
  "Number r = unat (reg_num r)"

text \<open>The comparison operator looks at the number and the kind only.\<close>

definition vr_eq :: "VirtualRegister \<Rightarrow> VirtualRegister \<Rightarrow> bool" where
  "vr_eq r r' \<longleftrightarrow> reg_num r = reg_num r' \<and> vr_kind r = vr_kind r'"

section \<open>Conversion from and to the decoder's registers\<close>

definition LOW_BYTE :: u8 where [granary_simps]: "LOW_BYTE = 0x1"
definition BYTE_2 :: u8 where [granary_simps]: "BYTE_2 = 0x2"
definition LOW_2_BYTES :: u8 where [granary_simps]: "LOW_2_BYTES = 0x3"
definition LOW_4_BYTES :: u8 where [granary_simps]: "LOW_4_BYTES = 0xF"
definition ALL_8_BYTES :: u8 where [granary_simps]: "ALL_8_BYTES = 0xFF"
definition HIGH_6_BYTES :: u8 where [granary_simps]: "HIGH_6_BYTES = 0xFC"
definition HIGH_7_BYTES :: u8 where [granary_simps]: "HIGH_7_BYTES = 0xFE"
definition HIGH_6_LOW_1_BYTE :: u8 where [granary_simps]: "HIGH_6_LOW_1_BYTE = 0xFD"

text \<open>The switch over the parts of the general-purpose registers.  Each group of case labels is
  a range of the enumeration without the stack pointer, which returned before.\<close>

definition decode_masks :: "nat \<Rightarrow> VirtualRegister \<Rightarrow> VirtualRegister option" where
  "decode_masks reg r =
     (if XED_REG_AX \<le> reg \<and> reg \<le> XED_REG_R15W \<and> reg \<noteq> XED_REG_SP
      then Some (r\<lparr>byte_mask := LOW_2_BYTES, preserved_byte_mask := HIGH_6_BYTES\<rparr>)
      else if XED_REG_EAX \<le> reg \<and> reg \<le> XED_REG_R15D \<and> reg \<noteq> XED_REG_ESP
      then Some (r\<lparr>byte_mask := LOW_4_BYTES\<rparr>)
      else if XED_REG_RAX \<le> reg \<and> reg \<le> XED_REG_R15 \<and> reg \<noteq> XED_REG_RSP
      then Some (r\<lparr>byte_mask := ALL_8_BYTES\<rparr>)
      else if XED_REG_AL \<le> reg \<and> reg \<le> XED_REG_R15B \<and> reg \<noteq> XED_REG_SPL
      then Some (r\<lparr>byte_mask := LOW_BYTE, preserved_byte_mask := HIGH_7_BYTES\<rparr>)
      else if XED_REG_AH \<le> reg \<and> reg \<le> XED_REG_BH
      then Some (r\<lparr>byte_mask := BYTE_2, preserved_byte_mask := HIGH_6_LOW_1_BYTE\<rparr>)
      else None)"

definition DecodeFromNative :: "xed_api \<Rightarrow> nat \<Rightarrow> VirtualRegister option" where
  "DecodeFromNative X reg =
     (if reg = XED_REG_INVALID \<or> XED_REG_LAST \<le> reg then Some VirtualRegister_default
      else
        let widest_reg = xed_get_largest_enclosing_register X reg;
            r = VirtualRegister_default\<lparr>is_scheduled := True,
                  num_bytes := ucast (of_nat (xed_get_register_width_bits64 X reg div 8) :: u8),
                  is_stack_pointer := (widest_reg = XED_REG_RSP)\<rparr>
        in if widest_reg < XED_REG_RAX \<or> XED_REG_R15 < widest_reg \<or> is_stack_pointer r
           then Some (r\<lparr>vr_kind := kVirtualRegisterKindUnschedulable, reg_num := of_nat reg\<rparr>)
           else
             let num = widest_reg - XED_REG_RAX;
                 num = (if XED_REG_RSP < widest_reg then num - 1 else num)
             in decode_masks reg (r\<lparr>vr_kind := kVirtualRegisterKindArchGpr, reg_num := of_nat num,
                  is_legacy := XED_REG_AH \<le> reg \<and> reg \<le> XED_REG_BH\<rparr>))"

definition EncodeToNative :: "VirtualRegister \<Rightarrow> nat" where
  "EncodeToNative r =
     (if vr_kind r = kVirtualRegisterKindUnschedulable then Number r
      else if vr_kind r \<noteq> kVirtualRegisterKindArchGpr then XED_REG_INVALID
      else
        let w = Number r + XED_REG_RAX;
            widest_reg = (if XED_REG_RSP \<le> w then w + 1 else w)
        in if byte_mask r = LOW_2_BYTES then widest_reg - (XED_REG_RAX - XED_REG_AX)
           else if byte_mask r = LOW_4_BYTES then widest_reg - (XED_REG_RAX - XED_REG_EAX)
           else if byte_mask r = ALL_8_BYTES then widest_reg
           else if byte_mask r = LOW_BYTE then widest_reg + (XED_REG_AL - XED_REG_RAX)
           else if byte_mask r = BYTE_2 then widest_reg + (XED_REG_AH - XED_REG_RAX)
           else XED_REG_INVALID)"

definition EffectiveWriteWidth :: "VirtualRegister \<Rightarrow> nat option" where
  "EffectiveWriteWidth r =
     (if preserved_byte_mask r = 0 then Some GPR_WIDTH_BYTES
      else if preserved_byte_mask r = LOW_BYTE then Some 1
      else if preserved_byte_mask r = HIGH_6_BYTES then Some 2
      else if preserved_byte_mask r = HIGH_7_BYTES then Some 1
      else if preserved_byte_mask r = HIGH_6_LOW_1_BYTE then Some 1
      else None)"

definition Widen :: "VirtualRegister \<Rightarrow> nat \<Rightarrow> VirtualRegister option" where
  "Widen r dest_byte_width =
     (if dest_byte_width = 1
      then Some (r\<lparr>num_bytes := 1, byte_mask := LOW_BYTE, preserved_byte_mask := HIGH_7_BYTES\<rparr>)
      else if dest_byte_width = 2
      then Some (r\<lparr>num_bytes := 2, byte_mask := LOW_2_BYTES, preserved_byte_mask := HIGH_6_BYTES\<rparr>)
      else if dest_byte_width = 4
      then Some (r\<lparr>num_bytes := 4, byte_mask := LOW_4_BYTES, preserved_byte_mask := 0\<rparr>)
      else if dest_byte_width = 8
      then Some (r\<lparr>num_bytes := 8, byte_mask := ALL_8_BYTES, preserved_byte_mask := 0\<rparr>)
      else None)"

definition IsStackPointer :: "VirtualRegister \<Rightarrow> bool" where
  "IsStackPointer r =
     (if vr_kind r = kVirtualRegisterKindUnschedulable
      then Number r = XED_REG_RSP \<or> Number r = XED_REG_ESP \<or> Number r = XED_REG_SP \<or>
           Number r = XED_REG_SPL
      else False)"

definition IsInstructionPointer :: "VirtualRegister \<Rightarrow> bool" where
  "IsInstructionPointer r \<longleftrightarrow> XED_REG_RIP \<le> Number r \<and> Number r \<le> XED_REG_IP"

definition IsFlags :: "VirtualRegister \<Rightarrow> bool" where
  "IsFlags r \<longleftrightarrow> XED_REG_FLAGS \<le> Number r \<and> Number r \<le> XED_REG_RFLAGS"

section \<open>Allocating virtual registers\<close>

text \<open>The counter is a 16-bit atomic; an allocation returns the register and the new value.\<close>

definition AllocateVirtualRegister :: "u16 \<Rightarrow> nat \<Rightarrow> (VirtualRegister \<times> u16) option" where
  "AllocateVirtualRegister gNextVirtualRegister bytes =
     (if 0 < bytes \<and> bytes \<le> GPR_WIDTH_BYTES \<and>
         kMinGlobalVirtualRegister \<le> unat gNextVirtualRegister
      then map_option (\<lambda>r. (r, gNextVirtualRegister + 1))
             (VirtualRegister_new kVirtualRegisterKindVirtualGpr (of_nat bytes) gNextVirtualRegister)
      else None)"

definition FreeAllVirtualRegisters :: u16 where
  "FreeAllVirtualRegisters = of_nat kMinGlobalVirtualRegister"

fun allocate_many :: "nat \<Rightarrow> u16 \<Rightarrow> nat \<Rightarrow> VirtualRegister list option" where
  "allocate_many 0 next bytes = Some []"
| "allocate_many (Suc n) next bytes =
     (case AllocateVirtualRegister next bytes of None \<Rightarrow> None
      | Some (r, next') \<Rightarrow> map_option ((#) r) (allocate_many n next' bytes))"

section \<open>Sets of general-purpose registers\<close>

text \<open>A set of the 15 registers is a bit set of that capacity, so its storage is one 16-bit
  integer (\<^const>\<open>bitset_storage_bits\<close>); \<^const>\<open>None\<close> is a failed assertion on the number.\<close>

type_synonym RegisterSet = u16

definition RegisterSet_KillAll :: "RegisterSet \<Rightarrow> RegisterSet" where
  "RegisterSet_KillAll s = FastBitSet_SetAll s False"

definition RegisterSet_ReviveAll :: "RegisterSet \<Rightarrow> RegisterSet" where
  "RegisterSet_ReviveAll s = FastBitSet_SetAll s True"

definition Kill_num :: "RegisterSet \<Rightarrow> nat \<Rightarrow> RegisterSet option" where
  "Kill_num s num = (if num < NUM_GENERAL_PURPOSE_REGISTERS then FastBitSet_Set s num False else None)"

definition Revive_num :: "RegisterSet \<Rightarrow> nat \<Rightarrow> RegisterSet option" where
  "Revive_num s num = (if num < NUM_GENERAL_PURPOSE_REGISTERS then FastBitSet_Set s num True else None)"

definition IsLive :: "RegisterSet \<Rightarrow> nat \<Rightarrow> bool option" where
  "IsLive s num = (if num < NUM_GENERAL_PURPOSE_REGISTERS then FastBitSet_Get s num else None)"

definition IsDead :: "RegisterSet \<Rightarrow> nat \<Rightarrow> bool option" where
  "IsDead s num = (if num < NUM_GENERAL_PURPOSE_REGISTERS
                   then map_option Not (FastBitSet_Get s num) else None)"

definition Kill :: "RegisterSet \<Rightarrow> VirtualRegister \<Rightarrow> RegisterSet option" where
  "Kill s r = (if IsNative r \<and> IsGeneralPurpose r then Kill_num s (Number r) else Some s)"

definition WriteKill :: "RegisterSet \<Rightarrow> VirtualRegister \<Rightarrow> RegisterSet option" where
  "WriteKill s r =
     (if IsNative r \<and> IsGeneralPurpose r
      then if PreservesBytesOnWrite r then Revive_num s (Number r) else Kill_num s (Number r)
      else Some s)"

definition Revive :: "RegisterSet \<Rightarrow> VirtualRegister \<Rightarrow> RegisterSet option" where
  "Revive s r = (if IsNative r \<and> IsGeneralPurpose r then Revive_num s (Number r) else Some s)"

text \<open>The storage is an array of one integer, so the loops run once.\<close>

definition RegisterSet_Union :: "RegisterSet \<Rightarrow> RegisterSet \<Rightarrow> bool \<times> RegisterSet" where
  "RegisterSet_Union s t = (let new_val = s OR t in (new_val \<noteq> s, new_val))"

definition RegisterSet_Intersect :: "RegisterSet \<Rightarrow> RegisterSet \<Rightarrow> bool \<times> RegisterSet" where
  "RegisterSet_Intersect s t = (let new_val = s AND t in (new_val \<noteq> s, new_val))"

definition RegisterSet_Equals :: "RegisterSet \<Rightarrow> RegisterSet \<Rightarrow> bool" where
  "RegisterSet_Equals s t \<longleftrightarrow> s = t"

text \<open>The iterator: \<^verbatim>\<open>Advance\<close> skips to the next live register, a dereference gives the
  64-bit register of that number.\<close>

fun Advance_fuel :: "nat \<Rightarrow> RegisterSet \<Rightarrow> nat \<Rightarrow> nat" where
  "Advance_fuel 0 s num = num"
| "Advance_fuel (Suc f) s num =
     (if num < NUM_GENERAL_PURPOSE_REGISTERS \<and> IsLive s num \<noteq> Some True
      then Advance_fuel f s (num + 1) else num)"

definition Advance :: "RegisterSet \<Rightarrow> nat \<Rightarrow> nat" where
  "Advance s num = Advance_fuel (NUM_GENERAL_PURPOSE_REGISTERS - num) s num"

fun iterate_fuel :: "nat \<Rightarrow> RegisterSet \<Rightarrow> nat \<Rightarrow> nat list" where
  "iterate_fuel 0 s num = []"
| "iterate_fuel (Suc f) s num =
     (let n = Advance s num in
      if n = NUM_GENERAL_PURPOSE_REGISTERS then [] else n # iterate_fuel f s (n + 1))"

definition RegisterSet_iterate :: "RegisterSet \<Rightarrow> nat list" where
  "RegisterSet_iterate s = iterate_fuel (Suc NUM_GENERAL_PURPOSE_REGISTERS) s 0"

section \<open>Operands and instructions\<close>

text \<open>An architectural operand.  The register of a register operand or of a memory operand that
  is not compound, and the base of a compound one, are the same word of the union
  (\<^verbatim>\<open>op_reg\<close>); the other members are read only for the types that have them.\<close>

record Operand =
  op_type :: xed_encoder_operand_type
  op_width :: u16
  op_rw :: xed_operand_action
  op_segment :: nat
  op_reg :: VirtualRegister
  mem_index :: VirtualRegister
  mem_disp :: "32 word"
  mem_scale :: u8
  op_imm :: u64
  is_sticky :: bool
  is_explicit :: bool
  is_compound :: bool
  is_effective_address :: bool
  is_annotation_instr :: bool
  is_definition :: bool

definition Operand_new :: Operand where
  "Operand_new = \<lparr>op_type = XED_ENCODER_OPERAND_TYPE_INVALID, op_width = 0,
     op_rw = XED_OPERAND_ACTION_INVALID, op_segment = XED_REG_INVALID,
     op_reg = VirtualRegister_default, mem_index = VirtualRegister_default, mem_disp = 0,
     mem_scale = 0, op_imm = 0, is_sticky = False, is_explicit = False, is_compound = False,
     is_effective_address = False, is_annotation_instr = False, is_definition = False\<rparr>"

definition IsRead :: "xed_api \<Rightarrow> Operand \<Rightarrow> bool" where
  "IsRead X op = xed_operand_action_read X (op_rw op)"

definition IsWrite :: "xed_api \<Rightarrow> Operand \<Rightarrow> bool" where
  "IsWrite X op = xed_operand_action_written X (op_rw op)"

definition IsConditionalWrite :: "xed_api \<Rightarrow> Operand \<Rightarrow> bool" where
  "IsConditionalWrite X op = xed_operand_action_conditional_write X (op_rw op)"

definition IsReadWrite :: "xed_api \<Rightarrow> Operand \<Rightarrow> bool" where
  "IsReadWrite X op \<longleftrightarrow> IsRead X op \<and> IsWrite X op"

definition Operand_IsValid :: "Operand \<Rightarrow> bool" where
  "Operand_IsValid op \<longleftrightarrow> op_type op \<noteq> XED_ENCODER_OPERAND_TYPE_INVALID"

definition IsRegister :: "Operand \<Rightarrow> bool" where
  "IsRegister op \<longleftrightarrow> op_type op = XED_ENCODER_OPERAND_TYPE_REG"

definition IsMemory :: "Operand \<Rightarrow> bool" where
  "IsMemory op \<longleftrightarrow> op_type op = XED_ENCODER_OPERAND_TYPE_MEM \<or>
                  op_type op = XED_ENCODER_OPERAND_TYPE_PTR"

definition IsCompoundMemory :: "Operand \<Rightarrow> bool" where
  "IsCompoundMemory op \<longleftrightarrow> op_type op = XED_ENCODER_OPERAND_TYPE_MEM \<and> is_compound op"

definition IsPointer :: "Operand \<Rightarrow> bool" where
  "IsPointer op \<longleftrightarrow> op_type op = XED_ENCODER_OPERAND_TYPE_PTR"

definition IsImmediate :: "Operand \<Rightarrow> bool" where
  "IsImmediate op \<longleftrightarrow>
     op_type op \<in> {XED_ENCODER_OPERAND_TYPE_BRDISP, XED_ENCODER_OPERAND_TYPE_IMM0,
                   XED_ENCODER_OPERAND_TYPE_SIMM0, XED_ENCODER_OPERAND_TYPE_IMM1}"

definition IsBranchTarget :: "Operand \<Rightarrow> bool" where
  "IsBranchTarget op \<longleftrightarrow> op_type op = XED_ENCODER_OPERAND_TYPE_BRDISP"

text \<open>The assignment operator keeps the destination's width, action and whether it is an
  effective address.\<close>

definition Operand_assign :: "Operand \<Rightarrow> Operand \<Rightarrow> Operand" where
  "Operand_assign this that =
     that\<lparr>op_width := (if op_width this \<noteq> 0 then op_width this else op_width that),
          op_rw := (if op_rw this \<noteq> XED_OPERAND_ACTION_INVALID then op_rw this else op_rw that),
          is_effective_address := is_effective_address this, is_explicit := True,
          is_sticky := False\<rparr>"

text \<open>The registers of a memory operand that are valid, base first.\<close>

definition CountMatchedRegisters :: "Operand \<Rightarrow> VirtualRegister list" where
  "CountMatchedRegisters op =
     (if op_type op = XED_ENCODER_OPERAND_TYPE_MEM
      then if is_compound op
           then (if VirtualRegister_IsValid (op_reg op) then [op_reg op] else []) @
                (if VirtualRegister_IsValid (mem_index op) then [mem_index op] else [])
           else [op_reg op]
      else [])"

definition MatchRegister :: "Operand \<Rightarrow> VirtualRegister option" where
  "MatchRegister op =
     (if op_type op = XED_ENCODER_OPERAND_TYPE_MEM \<and> \<not> is_compound op then Some (op_reg op)
      else None)"

definition MatchSegmentRegister :: "xed_api \<Rightarrow> Operand \<Rightarrow> VirtualRegister option" where
  "MatchSegmentRegister X op =
     (if op_segment op \<noteq> XED_REG_INVALID \<and> op_segment op \<noteq> XED_REG_DS
      then DecodeFromNative X (op_segment op) else None)"

section \<open>Used and live registers of an instruction\<close>

fun opt_fold :: "('a \<Rightarrow> 's \<Rightarrow> 's option) \<Rightarrow> 'a list \<Rightarrow> 's \<Rightarrow> 's option" where
  "opt_fold f [] s = Some s"
| "opt_fold f (x # xs) s = Option.bind (f x s) (opt_fold f xs)"

definition Used_Visit_op :: "Operand \<Rightarrow> RegisterSet \<Rightarrow> RegisterSet option" where
  "Used_Visit_op op s =
     (if IsRegister op then Revive s (op_reg op)
      else if IsMemory op \<and> \<not> IsPointer op
      then if is_compound op
           then Option.bind (Revive s (op_reg op)) (\<lambda>s'. Revive s' (mem_index op))
           else Revive s (op_reg op)
      else Some s)"

definition Used_Visit :: "Operand list \<Rightarrow> RegisterSet \<Rightarrow> RegisterSet option" where
  "Used_Visit ops s = opt_fold Used_Visit_op ops s"

definition UsesLegacyRegisters :: "Operand list \<Rightarrow> bool" where
  "UsesLegacyRegisters ops \<longleftrightarrow> list_ex (\<lambda>op. IsRegister op \<and> is_legacy (op_reg op)) ops"

definition ReviveRestrictedRegisters :: "Operand list \<Rightarrow> RegisterSet \<Rightarrow> RegisterSet option" where
  "ReviveRestrictedRegisters ops s =
     (if UsesLegacyRegisters ops
      then opt_fold (\<lambda>num s. Revive_num s num) [14, 13, 12, 11, 10, 9, 8, 7] s
      else Some s)"

definition Live_Visit_op :: "xed_api \<Rightarrow> Operand \<Rightarrow> RegisterSet \<Rightarrow> RegisterSet option" where
  "Live_Visit_op X op s =
     (if IsRegister op
      then if IsRead X op \<or> IsConditionalWrite X op \<or> PreservesBytesOnWrite (op_reg op)
           then Revive s (op_reg op)
           else if IsWrite X op then Kill s (op_reg op) else None
      else if IsMemory op \<and> \<not> IsPointer op
      then if is_compound op
           then Option.bind (Revive s (op_reg op)) (\<lambda>s'. Revive s' (mem_index op))
           else Revive s (op_reg op)
      else Some s)"

definition Live_Visit :: "xed_api \<Rightarrow> Operand list \<Rightarrow> RegisterSet \<Rightarrow> RegisterSet option" where
  "Live_Visit X ops s = opt_fold (Live_Visit_op X) ops s"

section \<open>Counting the uses of the general-purpose registers\<close>

type_synonym RegisterUsageCounter = "nat list"

definition ClearGPRUseCounters :: RegisterUsageCounter where
  "ClearGPRUseCounters = replicate NUM_GENERAL_PURPOSE_REGISTERS 0"

definition CountGPRUse :: "VirtualRegister \<Rightarrow> RegisterUsageCounter \<Rightarrow> RegisterUsageCounter" where
  "CountGPRUse r c =
     (if IsNative r \<and> IsGeneralPurpose r then c[Number r := c ! Number r + 1] else c)"

definition NumUses :: "RegisterUsageCounter \<Rightarrow> nat \<Rightarrow> nat option" where
  "NumUses c num = (if num < NUM_GENERAL_PURPOSE_REGISTERS then Some (c ! num) else None)"

text \<open>The loop over an instruction's operand array stops at the first invalid one.\<close>

fun CountGPRUses_instr :: "Operand list \<Rightarrow> RegisterUsageCounter \<Rightarrow> RegisterUsageCounter" where
  "CountGPRUses_instr [] c = c"
| "CountGPRUses_instr (op # ops) c =
     (if IsRegister op then CountGPRUses_instr ops (CountGPRUse (op_reg op) c)
      else if IsMemory op \<and> \<not> IsPointer op
      then CountGPRUses_instr ops
             (if is_compound op then CountGPRUse (mem_index op) (CountGPRUse (op_reg op) c)
              else CountGPRUse (op_reg op) c)
      else if \<not> Operand_IsValid op then c
      else CountGPRUses_instr ops c)"

section \<open>Decoding and encoding registers\<close>

lemma xed_documentedD:
  assumes "xed_documented X"
  shows "is_gpr_part r \<Longrightarrow> xed_get_largest_enclosing_register X r = doc_enclosing r"
    and "is_gpr_part r \<Longrightarrow> xed_get_register_width_bits64 X r = doc_width r"
    and "\<not> is_gpr_part r \<Longrightarrow> \<not> is_gpr_part (xed_get_largest_enclosing_register X r)"
  using assms unfolding xed_documented_def by blast+

lemma Number_of_nat: "n < 2 ^ 16 \<Longrightarrow> reg_num r = of_nat n \<Longrightarrow> Number r = n"
  by (simp add: Number_def unat_of_nat)

lemma byte_mask_consts [simp]:
  "LOW_2_BYTES \<noteq> LOW_4_BYTES" "LOW_2_BYTES \<noteq> ALL_8_BYTES" "LOW_2_BYTES \<noteq> LOW_BYTE"
  "LOW_2_BYTES \<noteq> BYTE_2" "LOW_4_BYTES \<noteq> ALL_8_BYTES" "LOW_4_BYTES \<noteq> LOW_BYTE"
  "LOW_4_BYTES \<noteq> BYTE_2" "ALL_8_BYTES \<noteq> LOW_BYTE" "ALL_8_BYTES \<noteq> BYTE_2" "LOW_BYTE \<noteq> BYTE_2"
  by (simp_all add: granary_simps)

definition gpr_index :: "nat \<Rightarrow> nat" where
  "gpr_index r = (if XED_REG_RSP < doc_enclosing r then doc_enclosing r - XED_REG_RAX - 1
                  else doc_enclosing r - XED_REG_RAX)"

definition is_sp_part :: "nat \<Rightarrow> bool" where
  "is_sp_part r \<longleftrightarrow> r \<in> {XED_REG_RSP, XED_REG_ESP, XED_REG_SP, XED_REG_SPL}"

lemma decode_gpr:
  assumes X: "xed_documented X" and r: "is_gpr_part r" "\<not> is_sp_part r"
  obtains vr where "DecodeFromNative X r = Some vr" "vr_kind vr = kVirtualRegisterKindArchGpr"
    "Number vr = gpr_index r" "ByteWidth vr = doc_width r div 8"
    "byte_mask vr =
       (if r \<le> XED_REG_R15W then LOW_2_BYTES else if r \<le> XED_REG_R15D then LOW_4_BYTES
        else if r \<le> XED_REG_R15 then ALL_8_BYTES else if r \<le> XED_REG_R15B then LOW_BYTE
        else BYTE_2)"
    "preserved_byte_mask vr =
       (if r \<le> XED_REG_R15W then HIGH_6_BYTES else if r \<le> XED_REG_R15 then 0
        else if r \<le> XED_REG_R15B then HIGH_7_BYTES else HIGH_6_LOW_1_BYTE)"
    "is_legacy vr \<longleftrightarrow> XED_REG_AH \<le> r"
proof -
  have enc: "xed_get_largest_enclosing_register X r = doc_enclosing r"
    and w: "xed_get_register_width_bits64 X r = doc_width r"
    using xed_documentedD [OF X] r by blast+
  have rng: "\<not> (r = XED_REG_INVALID \<or> XED_REG_LAST \<le> r)"
    using r by (simp add: is_gpr_part_def granary_simps)
  have wide: "\<not> (doc_enclosing r < XED_REG_RAX \<or> XED_REG_R15 < doc_enclosing r \<or>
                doc_enclosing r = XED_REG_RSP)"
    using r by (auto simp: is_gpr_part_def is_sp_part_def doc_enclosing_def granary_simps)
  have small: "gpr_index r < 2 ^ 16"
    using wide by (auto simp: gpr_index_def granary_simps)
  have width: "unat (ucast (of_nat (doc_width r div 8) :: u8) :: u16) = doc_width r div 8"
    by (simp add: doc_width_def)
  define v where "v = VirtualRegister_default\<lparr>is_scheduled := True,
    num_bytes := ucast (of_nat (doc_width r div 8) :: u8), is_stack_pointer := False,
    vr_kind := kVirtualRegisterKindArchGpr, reg_num := of_nat (gpr_index r),
    is_legacy := XED_REG_AH \<le> r \<and> r \<le> XED_REG_BH\<rparr>"
  have dec: "DecodeFromNative X r = decode_masks r v"
    using rng wide by (simp add: DecodeFromNative_def enc w Let_def v_def gpr_index_def)
  have masks: "decode_masks r v = Some (v\<lparr>byte_mask :=
      (if r \<le> XED_REG_R15W then LOW_2_BYTES else if r \<le> XED_REG_R15D then LOW_4_BYTES
       else if r \<le> XED_REG_R15 then ALL_8_BYTES else if r \<le> XED_REG_R15B then LOW_BYTE
       else BYTE_2),
      preserved_byte_mask :=
      (if r \<le> XED_REG_R15W then HIGH_6_BYTES else if r \<le> XED_REG_R15 then 0
       else if r \<le> XED_REG_R15B then HIGH_7_BYTES else HIGH_6_LOW_1_BYTE)\<rparr>)" (is "_ = Some ?w")
    using r by (auto simp: decode_masks_def is_gpr_part_def is_sp_part_def v_def
        VirtualRegister_default_def XED_REG_AX_def XED_REG_R15W_def XED_REG_EAX_def
        XED_REG_R15D_def XED_REG_RAX_def XED_REG_R15_def XED_REG_AL_def XED_REG_R15B_def
        XED_REG_AH_def XED_REG_BH_def)
  show thesis
  proof (rule that [of ?w])
    show "Number ?w = gpr_index r" by (rule Number_of_nat [OF small]) (simp add: v_def)
    show "ByteWidth ?w = doc_width r div 8" by (simp add: ByteWidth_def v_def width)
    show "is_legacy ?w \<longleftrightarrow> XED_REG_AH \<le> r" using r by (simp add: v_def is_gpr_part_def)
  qed (use dec masks in \<open>simp_all add: v_def\<close>)
qed

lemma decode_other:
  assumes X: "xed_documented X" and r: "0 < r" "r < XED_REG_LAST" "\<not> is_gpr_part r \<or> is_sp_part r"
  obtains vr where "DecodeFromNative X r = Some vr" "vr_kind vr = kVirtualRegisterKindUnschedulable"
    "Number vr = r" "is_stack_pointer vr \<Longrightarrow> is_sp_part r \<or> \<not> is_gpr_part r"
proof -
  let ?w = "xed_get_largest_enclosing_register X r"
  have w: "?w < XED_REG_RAX \<or> XED_REG_R15 < ?w \<or> ?w = XED_REG_RSP"
  proof (cases "is_gpr_part r")
    case True
    then have "is_sp_part r" "?w = doc_enclosing r" using r xed_documentedD(1) [OF X] by auto
    then show ?thesis by (auto simp: is_sp_part_def doc_enclosing_def granary_simps)
  next
    case False
    then show ?thesis using xed_documentedD(3) [OF X]
      by (force simp: is_gpr_part_def granary_simps)
  qed
  have dec: "\<exists>vr. DecodeFromNative X r = Some vr \<and> vr_kind vr = kVirtualRegisterKindUnschedulable \<and>
      reg_num vr = of_nat r"
    using w r by (auto simp: DecodeFromNative_def Let_def XED_REG_INVALID_def)
  have "r < 2 ^ 16" using r by (simp add: granary_simps)
  with dec r show thesis using Number_of_nat [of r] that by blast
qed

section \<open>Sets of registers\<close>

definition live_regs :: "RegisterSet \<Rightarrow> nat set" where
  "live_regs s = {i. i < NUM_GENERAL_PURPOSE_REGISTERS \<and> bit s i}"

text \<open>The number of the general-purpose register a register stands for, and that it is one of
  the 15 the sets hold.\<close>

definition gprs :: "VirtualRegister \<Rightarrow> nat set" where
  "gprs r = (if IsNative r \<and> IsGeneralPurpose r then {Number r} else {})"

definition reg_ok :: "VirtualRegister \<Rightarrow> bool" where
  "reg_ok r \<longleftrightarrow> (IsNative r \<and> IsGeneralPurpose r \<longrightarrow> Number r < NUM_GENERAL_PURPOSE_REGISTERS)"

lemma FastBitSet_Set_defined: "i < 32 \<Longrightarrow> \<exists>s'. FastBitSet_Set s i v = Some s'"
  by (simp add: FastBitSet_Set_def one_shl_def)

lemma set_num:
  assumes "n < NUM_GENERAL_PURPOSE_REGISTERS"
  obtains s' where "FastBitSet_Set (s :: u16) n v = Some s'"
    "live_regs s' = (if v then insert n (live_regs s) else live_regs s - {n})"
proof -
  have n: "n < 32" using assms by (simp add: granary_simps)
  then obtain s' where s': "FastBitSet_Set s n v = Some s'" using FastBitSet_Set_defined by blast
  have "live_regs s' = (if v then insert n (live_regs s) else live_regs s - {n})"
    using assms by (auto simp: live_regs_def FastBitSet_Set_bit [OF n s'] granary_simps)
  with s' show thesis by (rule that)
qed

lemma Revive_regs:
  assumes "reg_ok r"
  obtains s' where "Revive s r = Some s'" "live_regs s' = live_regs s \<union> gprs r"
proof (cases "IsNative r \<and> IsGeneralPurpose r")
  case True
  then have n: "Number r < NUM_GENERAL_PURPOSE_REGISTERS" using assms by (simp add: reg_ok_def)
  show thesis
    by (rule set_num [OF n, of s True], rule that)
      (use True n in \<open>auto simp: Revive_def Revive_num_def gprs_def\<close>)
qed (use that in \<open>auto simp: Revive_def gprs_def\<close>)

lemma Kill_regs:
  assumes "reg_ok r"
  obtains s' where "Kill s r = Some s'" "live_regs s' = live_regs s - gprs r"
proof (cases "IsNative r \<and> IsGeneralPurpose r")
  case True
  then have n: "Number r < NUM_GENERAL_PURPOSE_REGISTERS" using assms by (simp add: reg_ok_def)
  show thesis
    by (rule set_num [OF n, of s False], rule that)
      (use True n in \<open>auto simp: Kill_def Kill_num_def gprs_def\<close>)
qed (use that in \<open>auto simp: Kill_def gprs_def\<close>)

lemma WriteKill_regs:
  assumes "reg_ok r"
  obtains s' where "WriteKill s r = Some s'"
    "live_regs s' = (if PreservesBytesOnWrite r then live_regs s \<union> gprs r else live_regs s - gprs r)"
  using assms that Revive_regs [of r s] Kill_regs [of r s]
  by (metis Kill_def Revive_def WriteKill_def)

lemma Union_regs: "live_regs (snd (RegisterSet_Union s t)) = live_regs s \<union> live_regs t"
  by (auto simp: live_regs_def RegisterSet_Union_def Let_def bit_or_iff)

lemma Intersect_regs: "live_regs (snd (RegisterSet_Intersect s t)) = live_regs s \<inter> live_regs t"
  by (auto simp: live_regs_def RegisterSet_Intersect_def Let_def bit_and_iff)

lemma all_regs [simp]:
  "live_regs (RegisterSet_KillAll s) = {}"
  "live_regs (RegisterSet_ReviveAll s) = {..<NUM_GENERAL_PURPOSE_REGISTERS}"
  by (auto simp: live_regs_def RegisterSet_KillAll_def RegisterSet_ReviveAll_def
      FastBitSet_SetAll_def granary_simps)

lemma IsLive_regs:
  "n < NUM_GENERAL_PURPOSE_REGISTERS \<Longrightarrow> IsLive s n = Some (n \<in> live_regs s)"
  "n < NUM_GENERAL_PURPOSE_REGISTERS \<Longrightarrow> IsDead s n = Some (n \<notin> live_regs s)"
  by (simp_all add: IsLive_def IsDead_def live_regs_def FastBitSet_Get_bit granary_simps)

subsection \<open>The iterator gives the live registers in order\<close>

lemma Advance_fuel_next:
  "NUM_GENERAL_PURPOSE_REGISTERS - num \<le> f \<Longrightarrow> num \<le> NUM_GENERAL_PURPOSE_REGISTERS \<Longrightarrow>
   num \<le> Advance_fuel f s num \<and> Advance_fuel f s num \<le> NUM_GENERAL_PURPOSE_REGISTERS \<and>
   (\<forall>i. num \<le> i \<longrightarrow> i < Advance_fuel f s num \<longrightarrow> i \<notin> live_regs s) \<and>
   (Advance_fuel f s num < NUM_GENERAL_PURPOSE_REGISTERS \<longrightarrow> Advance_fuel f s num \<in> live_regs s)"
proof (induction f arbitrary: num)
  case (Suc f)
  show ?case
  proof (cases "num < NUM_GENERAL_PURPOSE_REGISTERS \<and> IsLive s num \<noteq> Some True")
    case True
    then have "num \<notin> live_regs s" using IsLive_regs(1) [of num s] by auto
    then have low: "i \<notin> live_regs s" if "num \<le> i" "num + 1 \<le> i \<Longrightarrow> i \<notin> live_regs s" for i
      using that by (cases "i = num") auto
    have "num + 1 \<le> NUM_GENERAL_PURPOSE_REGISTERS" "NUM_GENERAL_PURPOSE_REGISTERS - (num + 1) \<le> f"
      using True Suc.prems by auto
    note ih = Suc.IH [OF this(2) this(1)]
    have eq: "Advance_fuel (Suc f) s num = Advance_fuel f s (num + 1)" using True by simp
    show ?thesis unfolding eq using ih low by (meson add_leD1)
  next
    case False
    then have "Advance_fuel (Suc f) s num = num" by auto
    then show ?thesis using False Suc.prems IsLive_regs(1) [of num s] by auto
  qed
qed simp

lemma Advance_next:
  assumes "num \<le> NUM_GENERAL_PURPOSE_REGISTERS"
  shows "num \<le> Advance s num" "Advance s num \<le> NUM_GENERAL_PURPOSE_REGISTERS"
    "num \<le> i \<Longrightarrow> i < Advance s num \<Longrightarrow> i \<notin> live_regs s"
    "Advance s num < NUM_GENERAL_PURPOSE_REGISTERS \<Longrightarrow> Advance s num \<in> live_regs s"
  using Advance_fuel_next [OF _ assms, of _ s] by (auto simp: Advance_def)

lemma iterate_fuel_eq:
  "NUM_GENERAL_PURPOSE_REGISTERS - num < f \<Longrightarrow> num \<le> NUM_GENERAL_PURPOSE_REGISTERS \<Longrightarrow>
   iterate_fuel f s num = filter (\<lambda>i. i \<in> live_regs s) [num..<NUM_GENERAL_PURPOSE_REGISTERS]"
proof (induction f arbitrary: num)
  case (Suc f)
  let ?N = NUM_GENERAL_PURPOSE_REGISTERS
  define n where "n = Advance s num"
  note adv = Advance_next [OF Suc.prems(2), where s = s, folded n_def]
  obtain k where "?N = n + k" using adv(2) le_Suc_ex by blast
  then have split: "[num..<?N] = [num..<n] @ [n..<?N]"
    using upt_add_eq_append [OF adv(1), of k] by simp
  have skip: "filter (\<lambda>i. i \<in> live_regs s) [num..<n] = []" using adv(3) by (auto simp: filter_empty_conv)
  show ?case
  proof (cases "n = ?N")
    case True
    have "iterate_fuel (Suc f) s num = []" using True by (simp add: n_def [symmetric] Let_def)
    moreover have "filter (\<lambda>i. i \<in> live_regs s) [n..<?N] = []" using True by simp
    ultimately show ?thesis unfolding split filter_append skip by simp
  next
    case False
    then have lt: "n < ?N" using adv(2) by simp
    then have "[n..<?N] = n # [n + 1..<?N]" by (simp add: upt_conv_Cons)
    moreover have "iterate_fuel f s (n + 1) = filter (\<lambda>i. i \<in> live_regs s) [n + 1..<?N]"
      using lt adv(1) Suc.prems by (intro Suc.IH) auto
    moreover have "iterate_fuel (Suc f) s num = n # iterate_fuel f s (n + 1)"
      using False by (simp add: n_def [symmetric] Let_def)
    ultimately show ?thesis unfolding split using skip adv(4) lt by simp
  qed
qed simp

lemma RegisterSet_iterate_eq:
  "RegisterSet_iterate s = filter (\<lambda>i. i \<in> live_regs s) [0..<NUM_GENERAL_PURPOSE_REGISTERS]"
  unfolding RegisterSet_iterate_def by (rule iterate_fuel_eq) simp_all

subsection \<open>Transfer functions of an instruction\<close>

text \<open>The registers an operand mentions, and those it writes without needing their old value.\<close>

definition op_ok :: "Operand \<Rightarrow> bool" where
  "op_ok op \<longleftrightarrow> reg_ok (op_reg op) \<and> reg_ok (mem_index op)"

definition op_mentions :: "Operand \<Rightarrow> nat set" where
  "op_mentions op =
     (if IsRegister op then gprs (op_reg op)
      else if IsMemory op \<and> \<not> IsPointer op
      then if is_compound op then gprs (op_reg op) \<union> gprs (mem_index op) else gprs (op_reg op)
      else {})"

definition op_overwrites :: "xed_api \<Rightarrow> Operand \<Rightarrow> bool" where
  "op_overwrites X op \<longleftrightarrow> IsRegister op \<and> op_rw op = XED_OPERAND_ACTION_W \<and>
                          \<not> PreservesBytesOnWrite (op_reg op)"

definition op_uses :: "xed_api \<Rightarrow> Operand \<Rightarrow> nat set" where
  "op_uses X op = (if op_overwrites X op then {} else op_mentions op)"

definition op_defs :: "xed_api \<Rightarrow> Operand \<Rightarrow> nat set" where
  "op_defs X op = (if op_overwrites X op then op_mentions op else {})"

lemma revive_operand:
  assumes "op_ok op"
  obtains s' where
    "(if is_compound op then Option.bind (Revive s (op_reg op)) (\<lambda>s'. Revive s' (mem_index op))
      else Revive s (op_reg op)) = Some s'"
    "live_regs s' = live_regs s \<union>
       (if is_compound op then gprs (op_reg op) \<union> gprs (mem_index op) else gprs (op_reg op))"
proof -
  obtain s1 where s1: "Revive s (op_reg op) = Some s1" "live_regs s1 = live_regs s \<union> gprs (op_reg op)"
    using assms Revive_regs unfolding op_ok_def by metis
  obtain s2 where "Revive s1 (mem_index op) = Some s2"
    "live_regs s2 = live_regs s1 \<union> gprs (mem_index op)"
    using assms Revive_regs unfolding op_ok_def by metis
  with s1 show thesis by (cases "is_compound op") (auto intro: that)
qed

lemma Used_Visit_op_regs:
  assumes "op_ok op"
  obtains s' where "Used_Visit_op op s = Some s'" "live_regs s' = live_regs s \<union> op_mentions op"
proof (cases "IsRegister op")
  case True
  obtain s' where "Revive s (op_reg op) = Some s'" "live_regs s' = live_regs s \<union> gprs (op_reg op)"
    using assms Revive_regs unfolding op_ok_def by metis
  with True show thesis by (intro that) (auto simp: Used_Visit_op_def op_mentions_def)
next
  case False
  obtain s' where "(if is_compound op then Option.bind (Revive s (op_reg op)) (\<lambda>s'. Revive s' (mem_index op))
      else Revive s (op_reg op)) = Some s'"
    "live_regs s' = live_regs s \<union>
       (if is_compound op then gprs (op_reg op) \<union> gprs (mem_index op) else gprs (op_reg op))"
    using revive_operand [OF assms] by blast
  with False show thesis
    by (cases "IsMemory op \<and> \<not> IsPointer op")
      (auto simp: Used_Visit_op_def op_mentions_def intro: that)
qed

lemma Used_Visit_regs:
  "list_all op_ok ops \<Longrightarrow> \<exists>s'. Used_Visit ops s = Some s' \<and>
     live_regs s' = live_regs s \<union> (\<Union>op\<in>set ops. op_mentions op)"
proof (induction ops arbitrary: s)
  case (Cons op ops)
  then have "op_ok op" by simp
  then obtain s1 where "Used_Visit_op op s = Some s1" "live_regs s1 = live_regs s \<union> op_mentions op"
    by (rule Used_Visit_op_regs)
  then show ?case using Cons.IH [of s1] Cons.prems by (auto simp: Used_Visit_def)
qed (simp add: Used_Visit_def)

definition op_action_ok :: "Operand \<Rightarrow> bool" where
  "op_action_ok op \<longleftrightarrow> (IsRegister op \<longrightarrow> op_rw op \<noteq> XED_OPERAND_ACTION_INVALID)"

lemma actions_documented:
  assumes "xed_documented X"
  shows "IsRead X op \<longleftrightarrow> op_rw op \<in> {XED_OPERAND_ACTION_RW, XED_OPERAND_ACTION_R,
            XED_OPERAND_ACTION_RCW, XED_OPERAND_ACTION_CRW, XED_OPERAND_ACTION_CR}"
    "IsWrite X op \<longleftrightarrow> op_rw op \<in> {XED_OPERAND_ACTION_RW, XED_OPERAND_ACTION_W,
            XED_OPERAND_ACTION_RCW, XED_OPERAND_ACTION_CW, XED_OPERAND_ACTION_CRW}"
    "IsConditionalWrite X op \<longleftrightarrow> op_rw op \<in> {XED_OPERAND_ACTION_RCW, XED_OPERAND_ACTION_CW}"
  using assms by (simp_all add: xed_documented_def IsRead_def IsWrite_def IsConditionalWrite_def)

lemma Live_Visit_op_regs:
  assumes X: "xed_documented X" and op: "op_ok op" "op_action_ok op"
  obtains s' where "Live_Visit_op X op s = Some s'"
    "live_regs s' = (live_regs s - op_defs X op) \<union> op_uses X op"
proof (cases "IsRegister op")
  case True
  obtain s1 where s1: "Revive s (op_reg op) = Some s1" "live_regs s1 = live_regs s \<union> gprs (op_reg op)"
    using op Revive_regs unfolding op_ok_def by metis
  obtain s2 where s2: "Kill s (op_reg op) = Some s2" "live_regs s2 = live_regs s - gprs (op_reg op)"
    using op Kill_regs unfolding op_ok_def by metis
  have rw: "op_rw op \<noteq> XED_OPERAND_ACTION_INVALID" using op True by (simp add: op_action_ok_def)
  have cond: "IsRead X op \<or> IsConditionalWrite X op \<or> PreservesBytesOnWrite (op_reg op) \<longleftrightarrow>
      \<not> op_overwrites X op"
    using rw True by (cases "op_rw op") (simp_all add: actions_documented [OF X] op_overwrites_def)
  have w: "op_overwrites X op \<Longrightarrow> IsWrite X op"
    by (simp add: actions_documented [OF X] op_overwrites_def)
  show thesis
  proof (cases "op_overwrites X op")
    case True
    with \<open>IsRegister op\<close> cond w s2 show thesis
      by (intro that) (auto simp: Live_Visit_op_def op_uses_def op_defs_def op_mentions_def)
  next
    case False
    with \<open>IsRegister op\<close> cond s1 show thesis
      by (intro that) (auto simp: Live_Visit_op_def op_uses_def op_defs_def op_mentions_def)
  qed
next
  case False
  then have "\<not> op_overwrites X op" by (simp add: op_overwrites_def)
  moreover have "Live_Visit_op X op s = Used_Visit_op op s"
    using False by (simp add: Live_Visit_op_def Used_Visit_op_def)
  moreover obtain s' where "Used_Visit_op op s = Some s'" "live_regs s' = live_regs s \<union> op_mentions op"
    using Used_Visit_op_regs [OF op(1)] by blast
  ultimately show thesis by (intro that) (auto simp: op_uses_def op_defs_def)
qed

text \<open>The operand list is in evaluation order for the tracker when no operand overwrites a
  register that an earlier operand uses: destinations come before sources.\<close>

fun defs_first :: "xed_api \<Rightarrow> Operand list \<Rightarrow> bool" where
  "defs_first X [] = True"
| "defs_first X (op # ops) = (list_all (\<lambda>op'. op_uses X op \<inter> op_defs X op' = {}) ops \<and> defs_first X ops)"

lemma Live_Visit_regs:
  "xed_documented X \<Longrightarrow> list_all op_ok ops \<Longrightarrow> list_all op_action_ok ops \<Longrightarrow> defs_first X ops \<Longrightarrow>
   \<exists>s'. Live_Visit X ops s = Some s' \<and>
     live_regs s' = (live_regs s - (\<Union>op\<in>set ops. op_defs X op)) \<union> (\<Union>op\<in>set ops. op_uses X op)"
proof (induction ops arbitrary: s)
  case (Cons op ops)
  obtain s1 where s1: "Live_Visit_op X op s = Some s1"
    "live_regs s1 = (live_regs s - op_defs X op) \<union> op_uses X op"
    by (rule Live_Visit_op_regs [OF Cons.prems(1), of op s]) (use Cons.prems in auto)
  obtain s2 where s2: "Live_Visit X ops s1 = Some s2"
    "live_regs s2 = (live_regs s1 - (\<Union>op\<in>set ops. op_defs X op)) \<union> (\<Union>op\<in>set ops. op_uses X op)"
    using Cons.IH [of s1] Cons.prems by auto
  have "op_uses X op \<inter> (\<Union>op\<in>set ops. op_defs X op) = {}"
    using Cons.prems(4) by (auto simp: list_all_iff)
  then have "live_regs s2 = (live_regs s - (\<Union>op\<in>set (op # ops). op_defs X op)) \<union>
      (\<Union>op\<in>set (op # ops). op_uses X op)"
    unfolding s1(2) s2(2) by auto
  then show ?case using s1 s2 by (auto simp: Live_Visit_def)
qed (simp add: Live_Visit_def)

section \<open>Properties\<close>

lemma doc_enclosing_range:
  assumes "is_gpr_part r" "\<not> is_sp_part r"
  shows "74 \<le> doc_enclosing r" "doc_enclosing r \<le> 89" "doc_enclosing r \<noteq> 78"
  using assms by (auto simp: is_gpr_part_def is_sp_part_def doc_enclosing_def granary_simps)

lemma widest_of_index:
  assumes "is_gpr_part r" "\<not> is_sp_part r" "n = gpr_index r"
  shows "(if XED_REG_RSP \<le> n + XED_REG_RAX then n + XED_REG_RAX + 1 else n + XED_REG_RAX) =
     doc_enclosing r"
  using doc_enclosing_range [OF assms(1,2)] assms(3)
  by (auto simp: gpr_index_def XED_REG_RSP_def XED_REG_RAX_def)

lemma EncodeToNative_gpr:
  assumes "vr_kind vr = kVirtualRegisterKindArchGpr" "is_gpr_part r" "\<not> is_sp_part r"
    "Number vr = gpr_index r" "byte_mask vr = ALL_8_BYTES"
  shows "EncodeToNative vr = doc_enclosing r"
  unfolding EncodeToNative_def Let_def widest_of_index [OF assms(2-4)]
  by (simp add: assms byte_mask_consts [symmetric])

lemma EncodeToNative_part:
  assumes "vr_kind vr = kVirtualRegisterKindArchGpr" "is_gpr_part r" "\<not> is_sp_part r"
    "Number vr = gpr_index r"
    "byte_mask vr =
       (if r \<le> XED_REG_R15W then LOW_2_BYTES else if r \<le> XED_REG_R15D then LOW_4_BYTES
        else if r \<le> XED_REG_R15 then ALL_8_BYTES else if r \<le> XED_REG_R15B then LOW_BYTE
        else BYTE_2)"
  shows "EncodeToNative vr = r"
proof -
  note w = widest_of_index [OF assms(2-4)]
  consider "r \<le> XED_REG_R15W" | "XED_REG_R15W < r" "r \<le> XED_REG_R15D"
    | "XED_REG_R15D < r" "r \<le> XED_REG_R15" | "XED_REG_R15 < r" "r \<le> XED_REG_R15B"
    | "XED_REG_R15B < r" by linarith
  then show ?thesis
    using assms(1,2,5) unfolding EncodeToNative_def w Let_def
    by cases (auto simp: doc_enclosing_def is_gpr_part_def granary_simps)
qed

lemma Widen_8:
  "\<exists>w. Widen vr 8 = Some w \<and> vr_kind w = vr_kind vr \<and> Number w = Number vr \<and>
     byte_mask w = ALL_8_BYTES \<and> \<not> PreservesBytesOnWrite w"
  by (simp add: Widen_def Number_def PreservesBytesOnWrite_def)

text \<open>C29: every register of the decoder converts to a virtual register and back to itself.  A
  part of a general-purpose register other than the stack pointer becomes an architectural
  general-purpose register with a number below 15, its width in bytes, and widening it to eight
  bytes and converting back gives its largest enclosing register; every other register, the stack
  pointer included, is unschedulable.\<close>

theorem register_roundtrip:
  assumes "xed_documented X" "0 < r" "r < XED_REG_LAST"
  shows "\<exists>vr. DecodeFromNative X r = Some vr \<and> EncodeToNative vr = r \<and>
     (if is_gpr_part r \<and> \<not> is_sp_part r
      then vr_kind vr = kVirtualRegisterKindArchGpr \<and> Number vr < NUM_GENERAL_PURPOSE_REGISTERS \<and>
           BitWidth vr = doc_width r \<and>
           (\<exists>w. Widen vr 8 = Some w \<and> vr_eq w vr \<and>
                EncodeToNative w = xed_get_largest_enclosing_register X r)
      else vr_kind vr = kVirtualRegisterKindUnschedulable \<and> (IsStackPointer vr \<longleftrightarrow> is_sp_part r))"
proof (cases "is_gpr_part r \<and> \<not> is_sp_part r")
  case True
  then have gpr: "is_gpr_part r" "\<not> is_sp_part r" by auto
  obtain vr where vr: "DecodeFromNative X r = Some vr" "vr_kind vr = kVirtualRegisterKindArchGpr"
    "Number vr = gpr_index r" "ByteWidth vr = doc_width r div 8"
    "byte_mask vr =
       (if r \<le> XED_REG_R15W then LOW_2_BYTES else if r \<le> XED_REG_R15D then LOW_4_BYTES
        else if r \<le> XED_REG_R15 then ALL_8_BYTES else if r \<le> XED_REG_R15B then LOW_BYTE
        else BYTE_2)"
    using decode_gpr [OF assms(1) gpr] by metis
  have "gpr_index r < NUM_GENERAL_PURPOSE_REGISTERS"
    using doc_enclosing_range [OF gpr]
    by (auto simp: gpr_index_def XED_REG_RSP_def XED_REG_RAX_def NUM_GENERAL_PURPOSE_REGISTERS_def)
  moreover have "BitWidth vr = doc_width r"
    using vr(4) by (auto simp: BitWidth_def ByteWidth_def doc_width_def split: if_splits)
  moreover obtain w where "Widen vr 8 = Some w" "vr_eq w vr" "EncodeToNative w = doc_enclosing r"
    using Widen_8 [of vr] EncodeToNative_gpr [OF _ gpr] vr
    by (auto simp: vr_eq_def Number_def word_unat_eq_iff)
  ultimately show ?thesis
    using vr EncodeToNative_part [OF vr(2) gpr vr(3,5)] True xed_documentedD(1) [OF assms(1) gpr(1)]
    by auto
next
  case False
  obtain vr where vr: "DecodeFromNative X r = Some vr"
    "vr_kind vr = kVirtualRegisterKindUnschedulable" "Number vr = r"
    using decode_other [OF assms] False by metis
  then show ?thesis using False
    by (auto simp: EncodeToNative_def IsStackPointer_def is_sp_part_def)
qed

theorem register_roundtrip_witness:
  "\<exists>vr. DecodeFromNative doc_xed 107 = Some vr \<and> EncodeToNative vr = 107 \<and> Number vr < 15"
proof -
  have "is_gpr_part 107 \<and> \<not> is_sp_part 107"
    by (simp add: is_gpr_part_def is_sp_part_def granary_simps)
  then show ?thesis
    using register_roundtrip [OF xed_documented_doc_xed, of 107]
    by (auto simp: XED_REG_LAST_def NUM_GENERAL_PURPOSE_REGISTERS_def)
qed

text \<open>visiting an instruction updates the live registers as a backward liveness analysis
  must: what it overwrites entirely dies and what it uses becomes live, where a conditional or
  partial write counts as a use; this holds for operands listed destinations first.  The used
  registers gain every general-purpose register the operands name.\<close>

theorem register_visit_transfer:
  assumes "xed_documented X" "list_all op_ok ops" "list_all op_action_ok ops" "defs_first X ops"
  shows "\<exists>l u. Live_Visit X ops s = Some l \<and> Used_Visit ops t = Some u \<and>
     live_regs l = (live_regs s - (\<Union>op\<in>set ops. op_defs X op)) \<union> (\<Union>op\<in>set ops. op_uses X op) \<and>
     live_regs u = live_regs t \<union> (\<Union>op\<in>set ops. op_defs X op) \<union> (\<Union>op\<in>set ops. op_uses X op)"
proof -
  have "op_mentions op = op_defs X op \<union> op_uses X op" for op by (auto simp: op_defs_def op_uses_def)
  then have all: "(\<Union>op\<in>set ops. op_mentions op) =
      (\<Union>op\<in>set ops. op_defs X op) \<union> (\<Union>op\<in>set ops. op_uses X op)" by auto
  obtain u where "Used_Visit ops t = Some u"
    "live_regs u = live_regs t \<union> (\<Union>op\<in>set ops. op_mentions op)"
    using Used_Visit_regs [OF assms(2)] by blast
  then show ?thesis using Live_Visit_regs [OF assms, of s] unfolding all by (auto simp: Un_assoc)
qed

definition example_reg :: "u16 \<Rightarrow> VirtualRegister" where
  "example_reg n = VirtualRegister_default\<lparr>reg_num := n, vr_kind := kVirtualRegisterKindArchGpr,
     num_bytes := 8, byte_mask := ALL_8_BYTES\<rparr>"

definition example_mov :: "Operand list" where
  "example_mov =
     [Operand_new\<lparr>op_type := XED_ENCODER_OPERAND_TYPE_REG, op_rw := XED_OPERAND_ACTION_W,
        op_reg := example_reg 0\<rparr>,
      Operand_new\<lparr>op_type := XED_ENCODER_OPERAND_TYPE_MEM, op_rw := XED_OPERAND_ACTION_R,
        op_reg := example_reg 3\<rparr>]"

theorem register_visit_transfer_witness:
  "\<exists>l. Live_Visit doc_xed example_mov 1 = Some l \<and> live_regs l = {3}"
proof -
  have ok: "list_all op_ok example_mov" "list_all op_action_ok example_mov"
    "defs_first doc_xed example_mov"
    by (simp_all add: example_mov_def op_ok_def reg_ok_def op_action_ok_def op_defs_def
        op_overwrites_def IsRegister_def Operand_new_def example_reg_def VirtualRegister_default_def
        Number_def IsNative_def IsGeneralPurpose_def granary_simps)
  have "live_regs (1 :: u16) = {0}" by (auto simp: live_regs_def bit_1_iff granary_simps)
  moreover have "(\<Union>op\<in>set example_mov. op_defs doc_xed op) = {0}"
    "(\<Union>op\<in>set example_mov. op_uses doc_xed op) = {3}"
    by (simp_all add: example_mov_def op_defs_def op_uses_def op_overwrites_def op_mentions_def
        IsRegister_def IsMemory_def IsPointer_def gprs_def Operand_new_def example_reg_def
        VirtualRegister_default_def Number_def IsNative_def IsGeneralPurpose_def
        PreservesBytesOnWrite_def)
  ultimately show ?thesis
    using register_visit_transfer [OF xed_documented_doc_xed ok, of 1 0] by auto
qed

lemma allocate_many_regs:
  assumes "bytes \<in> {1, 2, 4, 8}" "kMinGlobalVirtualRegister \<le> unat next" "unat next + n \<le> 2 ^ 16"
  shows "\<exists>rs. allocate_many n next bytes = Some rs \<and> map Number rs = [unat next..<unat next + n] \<and>
     list_all IsVirtual rs"
  using assms(2,3)
proof (induction n arbitrary: "next")
  case (Suc n)
  obtain r where r: "VirtualRegister_new kVirtualRegisterKindVirtualGpr (of_nat bytes) next = Some r"
    "reg_num r = next" "IsVirtual r"
    using assms(1) by (auto simp: VirtualRegister_new_def IsVirtual_def)
  then have alloc: "AllocateVirtualRegister next bytes = Some (r, next + 1)"
    using assms(1) Suc.prems(1) by (auto simp: AllocateVirtualRegister_def GPR_WIDTH_BYTES_def)
  have num: "Number r = unat next" using r by (simp add: Number_def)
  show ?case
  proof (cases n)
    case 0
    then show ?thesis using alloc num r by simp
  next
    case Suc' [simp]: (Suc m)
    have "unat (next + 1) = unat next + 1" using Suc.prems(2) by (simp add: unat_word_ariths)
    moreover then obtain rs where "allocate_many n (next + 1) bytes = Some rs"
      "map Number rs = [unat next + 1..<unat next + 1 + n]" "list_all IsVirtual rs"
      using Suc.IH [of "next + 1"] Suc.prems by auto
    ultimately show ?thesis using alloc num r by (auto simp: upt_rec [of "unat next"] simp del: upt_Suc)
  qed
qed simp

lemma allocate_wrapped: "AllocateVirtualRegister 0 bytes = None"
  by (simp add: AllocateVirtualRegister_def granary_simps)

text \<open>After the registers are freed, up to 62464 virtual registers of a size that is a power
  of two get distinct numbers from 3072 on, so no virtual register has the number of a general-purpose
  register or of another virtual register; the next allocation after that wraps the 16-bit counter
  to zero and the one that follows it fails its assertion.\<close>

theorem virtual_registers_distinct:
  assumes "bytes \<in> {1, 2, 4, 8}" "n \<le> 2 ^ 16 - kMinGlobalVirtualRegister"
  shows "(\<exists>rs. allocate_many n FreeAllVirtualRegisters bytes = Some rs \<and> length rs = n \<and>
            distinct (map Number rs) \<and> list_all IsVirtual rs \<and>
            list_all (\<lambda>r. kMinGlobalVirtualRegister \<le> Number r) rs) \<and>
         AllocateVirtualRegister (FreeAllVirtualRegisters + of_nat (2 ^ 16 - kMinGlobalVirtualRegister))
           bytes = None"
proof -
  have u: "unat FreeAllVirtualRegisters = kMinGlobalVirtualRegister"
    by (simp add: FreeAllVirtualRegisters_def granary_simps)
  have "unat FreeAllVirtualRegisters + n \<le> 2 ^ 16"
    unfolding u using assms(2) by (simp add: granary_simps)
  then obtain rs where rs: "allocate_many n FreeAllVirtualRegisters bytes = Some rs"
    "map Number rs = [kMinGlobalVirtualRegister..<kMinGlobalVirtualRegister + n]"
    "list_all IsVirtual rs"
    using allocate_many_regs [OF assms(1), of FreeAllVirtualRegisters n] u by auto
  have "length rs = n" using arg_cong [OF rs(2), of length] by simp
  moreover have "distinct (map Number rs)" by (simp add: rs(2))
  moreover have "\<forall>m\<in>set (map Number rs). kMinGlobalVirtualRegister \<le> m" unfolding rs(2) by simp
  then have "list_all (\<lambda>r. kMinGlobalVirtualRegister \<le> Number r) rs" by (simp add: list_all_iff)
  moreover have "FreeAllVirtualRegisters + of_nat (2 ^ 16 - kMinGlobalVirtualRegister) = 0"
    by (simp add: FreeAllVirtualRegisters_def granary_simps)
  ultimately show ?thesis using rs by (simp add: allocate_wrapped)
qed

theorem virtual_registers_distinct_witness:
  "\<exists>rs. allocate_many 2 FreeAllVirtualRegisters 4 = Some rs \<and> distinct (map Number rs)"
  using virtual_registers_distinct [of 4 2] by (auto simp: kMinGlobalVirtualRegister_def)

text \<open>A set filled register by register is not equal to one filled at once: the latter also has
  the sixteenth bit of the storage set, which is no register, and the comparison looks at the
  storage.\<close>

theorem revive_all_not_equal:
  "\<exists>s. opt_fold (\<lambda>num s. Revive_num s num) [0..<NUM_GENERAL_PURPOSE_REGISTERS] 0 = Some s \<and>
     live_regs s = live_regs (RegisterSet_ReviveAll 0) \<and>
     \<not> RegisterSet_Equals s (RegisterSet_ReviveAll 0)"
proof (intro exI conjI)
  show "opt_fold (\<lambda>num s. Revive_num s num) [0..<NUM_GENERAL_PURPOSE_REGISTERS] 0 = Some 0x7FFF"
    by (simp add: granary_simps upt_rec Revive_num_def FastBitSet_Set_def one_shl_def)
  have "bit (0x7FFF :: u16) i" if "i < 15" for i
  proof -
    have m: "(0x7FFF :: u16) = mask 15" by (simp add: mask_eq_exp_minus_1)
    show ?thesis unfolding m using that by (simp add: bit_mask_iff)
  qed
  then show "live_regs 0x7FFF = live_regs (RegisterSet_ReviveAll 0)"
    unfolding all_regs by (auto simp: live_regs_def granary_simps)
  show "\<not> RegisterSet_Equals 0x7FFF (RegisterSet_ReviveAll 0)"
    by (simp add: RegisterSet_Equals_def RegisterSet_ReviveAll_def FastBitSet_SetAll_def)
qed

end
