(* ===== verification/Fragments.thy ===== *)
theory Fragments
  imports Registers Code_Cache Disjoint
begin

text \<open>
  The data the assembler's passes share (\<^verbatim>\<open>granary/code/fragment.h\<close>,
  \<^verbatim>\<open>granary/code/fragment.cc\<close>): fragments of instructions, their attributes, flag and
  stack information, the instructions in them (\<^verbatim>\<open>granary/cfg/instruction.h\<close>,
  \<^verbatim>\<open>arch/x86-64/instruction.h\<close>), and the checked casts of
  \<^verbatim>\<open>granary/base/cast.h\<close>.

  Fragments and instructions are mutable objects that several pointers reach, so the state has a
  heap of each; an address is a number.  A list of fragments is the sequence of their addresses:
  the intrusive list of the code implements sequences (\<^verbatim>\<open>Lists\<close>).  The partition and
  flag-zone sets embedded in the fragments are two union-find heaps indexed by the fragment
  (\<^verbatim>\<open>Disjoint\<close>).  Sets of virtual registers are sets: the chunked sets of the code
  implement them (\<^verbatim>\<open>Tiny\<close>).
\<close>

section \<open>Instructions\<close>

datatype xed_category =
    XED_CATEGORY_CALL | XED_CATEGORY_COND_BR | XED_CATEGORY_UNCOND_BR | XED_CATEGORY_INTERRUPT
  | XED_CATEGORY_SYSCALL | XED_CATEGORY_SYSRET | XED_CATEGORY_NOP | XED_CATEGORY_WIDENOP
  | XED_CATEGORY_SEMAPHORE | XED_CATEGORY_MISC | XED_CATEGORY_MPX | XED_CATEGORY_INVALID | XED_CATEGORY_OTHER

definition XED_ICLASS_IRET :: nat where [granary_simps]: "XED_ICLASS_IRET = 269"
definition XED_ICLASS_IRETD :: nat where [granary_simps]: "XED_ICLASS_IRETD = 270"
definition XED_ICLASS_IRETQ :: nat where [granary_simps]: "XED_ICLASS_IRETQ = 271"
definition XED_ICLASS_JB :: nat where [granary_simps]: "XED_ICLASS_JB = 272"
definition XED_ICLASS_JMP :: nat where [granary_simps]: "XED_ICLASS_JMP = 276"
definition XED_ICLASS_JRCXZ :: nat where [granary_simps]: "XED_ICLASS_JRCXZ = 288"
definition XED_ICLASS_LOOP :: nat where [granary_simps]: "XED_ICLASS_LOOP = 362"
definition XED_ICLASS_LOOPE :: nat where [granary_simps]: "XED_ICLASS_LOOPE = 363"
definition XED_ICLASS_LOOPNE :: nat where [granary_simps]: "XED_ICLASS_LOOPNE = 364"
definition XED_ICLASS_RET_FAR :: nat where [granary_simps]: "XED_ICLASS_RET_FAR = 633"
definition XED_ICLASS_RET_NEAR :: nat where [granary_simps]: "XED_ICLASS_RET_NEAR = 634"

text \<open>The class of a native instruction; a control-flow instruction has a target block, of which
  the assembler asks only whether it is native with a known address or already cached.\<close>

datatype target_block = NativeBlock "nat option" | CachedBlock | OtherBlock

datatype instr_class = PlainInstruction | BranchInstruction | ControlFlowInstruction target_block

record NativeInstruction =
  iclass :: nat
  iform :: nat
  category :: xed_category
  ops :: "Operand list"
  has_prefix_rep :: bool
  has_prefix_repne :: bool
  dont_encode :: bool
  isel :: nat
  effective_operand_width :: u16
  decoded_length :: u8
  decoded_pc :: nat
  num_explicit_ops :: nat
  num_ops :: nat
  has_prefix_lock :: bool
  reads_from_stack_pointer :: bool
  writes_to_stack_pointer :: bool
  analyzed_stack_usage :: bool
  is_atomic :: bool
  is_sticky_instr :: bool
  is_stack_blind :: bool
  is_tail_call :: bool
  meta_data :: u64
  ni_class :: instr_class
  used_vrs :: "nat list"
  defined_vr :: nat

text \<open>A cleared instruction: the constructor sets all bytes to zero.\<close>

definition Instruction_new :: NativeInstruction where
  "Instruction_new = \<lparr>iclass = 0, iform = 0, category = XED_CATEGORY_INVALID, ops = [], has_prefix_rep = False,
     has_prefix_repne = False, dont_encode = False, isel = 0, effective_operand_width = 0, decoded_length = 0,
     decoded_pc = 0, num_explicit_ops = 0, num_ops = 0, has_prefix_lock = False, reads_from_stack_pointer = False,
     writes_to_stack_pointer = False, analyzed_stack_usage = False, is_atomic = False, is_sticky_instr = False,
     is_stack_blind = False, is_tail_call = False, meta_data = 0, ni_class = PlainInstruction, used_vrs = [], defined_vr = 0\<rparr>"

datatype InstructionAnnotation =
    kAnnotNoOp | kAnnotBeginBlock | kAnnotEndBlock | kAnnotationCodeCacheKind | kAnnotationLabel
  | kAnnotInvalidStack | kAnnotSaveRegister | kAnnotRestoreRegister | kAnnotSwapRestoreRegister
  | kAnnotReviveRegisters | kAnnotCondLeaveNativeStack | kAnnotCondEnterNativeStack
  | kAnnotUpdateAddressWhenEncoded | kAnnotLogicalInstructionBoundary
  | kAnnotInterruptDeliveryStateChange | kAnnotInlineAssembly | kAnnotContextFunctionCall
  | kAnnotInlineFunctionCall

datatype annotation_data = NoData | RegData VirtualRegister | RegSetData RegisterSet

datatype Instruction = Native NativeInstruction | Annotation InstructionAnnotation annotation_data

definition IsFunctionCall :: "NativeInstruction \<Rightarrow> bool" where
  "IsFunctionCall i \<longleftrightarrow> category i = XED_CATEGORY_CALL"

definition IsFunctionReturn :: "NativeInstruction \<Rightarrow> bool" where
  "IsFunctionReturn i \<longleftrightarrow> iclass i = XED_ICLASS_RET_FAR \<or> iclass i = XED_ICLASS_RET_NEAR"

definition IsInterruptCall :: "NativeInstruction \<Rightarrow> bool" where
  "IsInterruptCall i \<longleftrightarrow> category i = XED_CATEGORY_INTERRUPT"

definition IsInterruptReturn :: "NativeInstruction \<Rightarrow> bool" where
  "IsInterruptReturn i \<longleftrightarrow> iclass i = XED_ICLASS_IRET \<or> iclass i = XED_ICLASS_IRETD \<or>
                          iclass i = XED_ICLASS_IRETQ"

definition IsSystemCall :: "NativeInstruction \<Rightarrow> bool" where
  "IsSystemCall i \<longleftrightarrow> category i = XED_CATEGORY_SYSCALL"

definition IsSystemReturn :: "NativeInstruction \<Rightarrow> bool" where
  "IsSystemReturn i \<longleftrightarrow> category i = XED_CATEGORY_SYSRET"

definition IsConditionalJump :: "NativeInstruction \<Rightarrow> bool" where
  "IsConditionalJump i \<longleftrightarrow> category i = XED_CATEGORY_COND_BR"

definition IsUnconditionalJump :: "NativeInstruction \<Rightarrow> bool" where
  "IsUnconditionalJump i \<longleftrightarrow> category i = XED_CATEGORY_UNCOND_BR"

definition IsJump :: "NativeInstruction \<Rightarrow> bool" where
  "IsJump i \<longleftrightarrow> IsUnconditionalJump i \<or> IsConditionalJump i"

definition IsNoOp :: "NativeInstruction \<Rightarrow> bool" where
  "IsNoOp i \<longleftrightarrow> category i = XED_CATEGORY_NOP \<or> category i = XED_CATEGORY_WIDENOP"

text \<open>The operand array is filled from the front, so its first element is invalid when the list
  of operands is empty.\<close>

definition first_op_type :: "NativeInstruction \<Rightarrow> xed_encoder_operand_type" where
  "first_op_type i = (case ops i of [] \<Rightarrow> XED_ENCODER_OPERAND_TYPE_INVALID | op # _ \<Rightarrow> op_type op)"

definition arch_HasIndirectTarget :: "NativeInstruction \<Rightarrow> bool" where
  "arch_HasIndirectTarget i =
     (if IsFunctionCall i \<or> IsUnconditionalJump i
      then first_op_type i = XED_ENCODER_OPERAND_TYPE_REG \<or>
           first_op_type i = XED_ENCODER_OPERAND_TYPE_MEM \<or>
           first_op_type i = XED_ENCODER_OPERAND_TYPE_PTR
      else IsFunctionReturn i \<or> IsInterruptCall i \<or> IsInterruptReturn i \<or> IsSystemCall i \<or>
           IsSystemReturn i)"

definition HasIndirectTarget :: "NativeInstruction \<Rightarrow> bool" where
  "HasIndirectTarget i =
     (case ni_class i of
        ControlFlowInstruction t \<Rightarrow>
          (if arch_HasIndirectTarget i
           then (case t of NativeBlock pc \<Rightarrow> pc = None | CachedBlock \<Rightarrow> False | OtherBlock \<Rightarrow> True)
           else False)
      | _ \<Rightarrow> arch_HasIndirectTarget i)"

definition DontEncode :: "NativeInstruction \<Rightarrow> NativeInstruction" where
  "DontEncode i = i\<lparr>dont_encode := True\<rparr>"

section \<open>Fragments\<close>

datatype frag_class =
    Fragment_base | CodeFragment | FlagEntryFragment | FlagExitFragment | PartitionEntryFragment
  | PartitionExitFragment | NonLocalEntryFragment | ExitFragment

fun TypeId :: "frag_class \<Rightarrow> nat" where
  "TypeId Fragment_base = 2"
| "TypeId CodeFragment = 2 * 3"
| "TypeId FlagEntryFragment = 2 * 3 * 5"
| "TypeId FlagExitFragment = 2 * 3 * 7"
| "TypeId PartitionEntryFragment = 2 * 11"
| "TypeId PartitionExitFragment = 2 * 13"
| "TypeId NonLocalEntryFragment = 2 * 17"
| "TypeId ExitFragment = 2 * 19"

definition IsDerivedFrom :: "frag_class \<Rightarrow> frag_class \<Rightarrow> bool" where
  "IsDerivedFrom derived c = (derived = Fragment_base \<or> TypeId c mod TypeId derived = 0)"

datatype FragmentKind = kFragmentKindInvalid | kFragmentKindApp | kFragmentKindInst

datatype StackStatus = kStackStatusValid | kStackStatusInvalid

record FlagUsageInfo =
  entry_live_flags :: u32
  exit_live_flags :: u32
  all_read_flags :: u32
  all_written_flags :: u32

definition FlagUsageInfo_new :: FlagUsageInfo where
  "FlagUsageInfo_new = \<lparr>entry_live_flags = 0, exit_live_flags = 0, all_read_flags = 0,
     all_written_flags = 0\<rparr>"

record FlagZone =
  killed_flags :: u32
  live_flags :: u32

definition FlagZone_new :: FlagZone where
  "FlagZone_new = \<lparr>killed_flags = 0, live_flags = 0\<rparr>"

record CodeAttributes =
  follows_partition_entrypoint :: bool
  branch_is_function_call :: bool
  can_add_succ_to_partition :: bool
  can_add_pred_to_partition :: bool
  has_native_instrs :: bool
  reads_flags :: bool
  modifies_flags :: bool
  is_block_head :: bool
  is_compensation_frag :: bool

definition CodeAttributes_new :: CodeAttributes where
  "CodeAttributes_new = \<lparr>follows_partition_entrypoint = False, branch_is_function_call = False,
     can_add_succ_to_partition = True, can_add_pred_to_partition = True, has_native_instrs = False,
     reads_flags = False, modifies_flags = False, is_block_head = False,
     is_compensation_frag = False\<rparr>"

record StackFrameInfo =
  entry_offset :: int
  exit_offset :: int

record Fragment =
  f_class :: frag_class
  f_next :: "nat option"
  encoded_order :: nat
  num_predecessors :: nat
  encoded_pc :: "nat option"
  block_meta :: "nat option"
  f_kind :: FragmentKind
  f_cache :: code_cache_kind
  stack_status :: StackStatus
  f_instrs :: "nat list"
  app_flags :: FlagUsageInfo
  inst_flags :: FlagUsageInfo
  entry_exit_frag :: "nat option"
  succ_fall :: "nat option"
  succ_branch :: "nat option"
  branch_instr :: "nat option"
  fall_through_instr :: "nat option"
  stack_frame :: StackFrameInfo
  attr :: CodeAttributes
  entry_regs :: "nat set"
  exit_regs :: "nat set"
  def_regs :: "nat \<Rightarrow> u16"

definition Fragment_new :: "frag_class \<Rightarrow> Fragment" where
  "Fragment_new c = \<lparr>f_class = c, f_next = None, encoded_order = 0, num_predecessors = 0,
     encoded_pc = None, block_meta = None,
     f_kind = (if c = ExitFragment then kFragmentKindApp else kFragmentKindInvalid),
     f_cache = kCodeCacheKindHot, stack_status = kStackStatusValid, f_instrs = [],
     app_flags = FlagUsageInfo_new, inst_flags = FlagUsageInfo_new, entry_exit_frag = None,
     succ_fall = None, succ_branch = None, branch_instr = None, fall_through_instr = None,
     stack_frame = \<lparr>entry_offset = 0, exit_offset = 0\<rparr>, attr = CodeAttributes_new,
     entry_regs = {}, exit_regs = {}, def_regs = (\<lambda>_. 0)\<rparr>"

record PartitionInfo =
  entry_frag :: "nat option"
  uses_vrs :: bool
  num_slots :: nat
  part_id :: nat
  min_frame_offset :: int
  analyze_stack_frame :: bool

definition PartitionInfo_new :: "nat \<Rightarrow> PartitionInfo" where
  "PartitionInfo_new i = \<lparr>entry_frag = None, uses_vrs = False, num_slots = 0, part_id = i,
     min_frame_offset = 0, analyze_stack_frame = True\<rparr>"

section \<open>The state of the assembler\<close>

record frag_state =
  frag_at :: "nat \<Rightarrow> Fragment"
  instr_at :: "nat \<Rightarrow> Instruction"
  flist :: "nat list"
  next_frag :: nat
  next_instr :: nat
  parts :: "nat option sets"
  zones :: "FlagZone sets"
  info_at :: "nat \<Rightarrow> PartitionInfo"
  next_info :: nat

definition upd_frag :: "nat \<Rightarrow> (Fragment \<Rightarrow> Fragment) \<Rightarrow> frag_state \<Rightarrow> frag_state" where
  "upd_frag a f s = s\<lparr>frag_at := (frag_at s)(a := f (frag_at s a))\<rparr>"

text \<open>A new object of a class: the constructors of the two embedded sets make it a set of its
  own.\<close>

definition alloc_frag :: "frag_class \<Rightarrow> frag_state \<Rightarrow> nat \<times> frag_state" where
  "alloc_frag c s =
     (let a = next_frag s in
      (a, s\<lparr>frag_at := (frag_at s)(a := Fragment_new c), next_frag := a + 1,
            parts := DisjointSet_new (parts s) a None,
            zones := DisjointSet_new (zones s) a FlagZone_new\<rparr>))"

text \<open>A checked cast fails on a null pointer.\<close>

definition IsA :: "frag_class \<Rightarrow> frag_state \<Rightarrow> nat option \<Rightarrow> bool" where
  "IsA c s p = (case p of None \<Rightarrow> False | Some a \<Rightarrow> IsDerivedFrom c (f_class (frag_at s a)))"

definition is_code :: "frag_state \<Rightarrow> nat \<Rightarrow> bool" where
  "is_code s a = IsA CodeFragment s (Some a)"

text \<open>The successors of a fragment, fall-through first.\<close>

definition successors :: "Fragment \<Rightarrow> nat option list" where
  "successors f = [succ_fall f, succ_branch f]"

definition code_succs :: "frag_state \<Rightarrow> nat \<Rightarrow> nat list" where
  "code_succs s a = filter (is_code s) (map the (filter (\<lambda>p. p \<noteq> None) (successors (frag_at s a))))"

text \<open>Instructions of a fragment that are native.\<close>

definition native_at :: "frag_state \<Rightarrow> nat \<Rightarrow> NativeInstruction option" where
  "native_at s i = (case instr_at s i of Native n \<Rightarrow> Some n | _ \<Rightarrow> None)"

definition is_cfi :: "frag_state \<Rightarrow> nat option \<Rightarrow> bool" where
  "is_cfi s p = (case p of None \<Rightarrow> False
     | Some i \<Rightarrow> (case native_at s i of None \<Rightarrow> False
        | Some n \<Rightarrow> (case ni_class n of ControlFlowInstruction _ \<Rightarrow> True | _ \<Rightarrow> False)))"

text \<open>Where a fragment goes in the list, and one of its two successors.\<close>

fun insert_after :: "nat \<Rightarrow> nat \<Rightarrow> nat list \<Rightarrow> nat list" where
  "insert_after a b [] = []"
| "insert_after a b (x # xs) = (if x = a then x # b # xs else x # insert_after a b xs)"

datatype succ_sel = kFragSuccFallThrough | kFragSuccBranch

definition get_succ :: "succ_sel \<Rightarrow> Fragment \<Rightarrow> nat option" where
  "get_succ sel f = (case sel of kFragSuccFallThrough \<Rightarrow> succ_fall f | kFragSuccBranch \<Rightarrow> succ_branch f)"

definition set_succ :: "succ_sel \<Rightarrow> nat option \<Rightarrow> Fragment \<Rightarrow> Fragment" where
  "set_succ sel p f = (case sel of kFragSuccFallThrough \<Rightarrow> f\<lparr>succ_fall := p\<rparr>
                       | kFragSuccBranch \<Rightarrow> f\<lparr>succ_branch := p\<rparr>)"

section \<open>Order of the code caches\<close>

text \<open>The enumeration of code caches orders them from hot to cold.\<close>

fun cache_rank :: "code_cache_kind \<Rightarrow> nat" where
  "cache_rank kCodeCacheKindHot = 0"
| "cache_rank kCodeCacheKindCold = 1"
| "cache_rank kCodeCacheKindFrozen = 2"
| "cache_rank kCodeCacheKindSubZero = 3"
| "cache_rank kCodeCacheKindEdge = 4"

lemma cache_rank_inj: "cache_rank a = cache_rank b \<Longrightarrow> a = b"
  by (cases a; cases b) simp_all

instantiation code_cache_kind :: linorder
begin

definition less_eq_code_cache_kind :: "code_cache_kind \<Rightarrow> code_cache_kind \<Rightarrow> bool" where
  "less_eq_code_cache_kind a b = (cache_rank a \<le> cache_rank b)"

definition less_code_cache_kind :: "code_cache_kind \<Rightarrow> code_cache_kind \<Rightarrow> bool" where
  "less_code_cache_kind a b = (cache_rank a < cache_rank b)"

instance
  by standard (auto simp: less_eq_code_cache_kind_def less_code_cache_kind_def intro: cache_rank_inj)

end

section \<open>Counting the uses of registers in fragments\<close>

definition CountGPRUses_annot ::
    "InstructionAnnotation \<Rightarrow> annotation_data \<Rightarrow> RegisterUsageCounter \<Rightarrow> RegisterUsageCounter" where
  "CountGPRUses_annot annotation d c =
     (if annotation \<in> {kAnnotSaveRegister, kAnnotRestoreRegister, kAnnotSwapRestoreRegister}
      then (case d of RegData r \<Rightarrow> CountGPRUse r c | _ \<Rightarrow> c)
      else if annotation = kAnnotReviveRegisters
      then (case d of RegSetData used_regs \<Rightarrow>
              fold (\<lambda>num c. c[num := c ! num + 1]) (RegisterSet_iterate used_regs) c
            | _ \<Rightarrow> c)
      else c)"

definition CountGPRUses_frag ::
    "frag_state \<Rightarrow> nat \<Rightarrow> RegisterUsageCounter \<Rightarrow> RegisterUsageCounter" where
  "CountGPRUses_frag s a c =
     fold (\<lambda>i c. case instr_at s i of Native n \<Rightarrow> CountGPRUses_instr (ops n) c
                  | Annotation annotation d \<Rightarrow> CountGPRUses_annot annotation d c)
       (f_instrs (frag_at s a)) c"

definition CountGPRUses :: "frag_state \<Rightarrow> RegisterUsageCounter \<Rightarrow> RegisterUsageCounter" where
  "CountGPRUses s c = fold (CountGPRUses_frag s) (flist s) c"

section \<open>Facts on the state\<close>

lemma frag_at_upd_frag: "frag_at (upd_frag a f s) b = (if a = b then f (frag_at s a) else frag_at s b)"
  by (simp add: upd_frag_def)

lemma upd_frag_sel [simp]:
  "instr_at (upd_frag a f s) = instr_at s" "flist (upd_frag a f s) = flist s"
  "next_frag (upd_frag a f s) = next_frag s" "parts (upd_frag a f s) = parts s"
  "zones (upd_frag a f s) = zones s" "next_instr (upd_frag a f s) = next_instr s"
  "info_at (upd_frag a f s) = info_at s" "next_info (upd_frag a f s) = next_info s"
  by (simp_all add: upd_frag_def)

lemma is_code_iff:
  "is_code s a \<longleftrightarrow> f_class (frag_at s a) \<in> {CodeFragment, FlagEntryFragment, FlagExitFragment}"
  by (cases "f_class (frag_at s a)") (simp_all add: is_code_def IsA_def IsDerivedFrom_def)

lemma is_code_upd_frag:
  "(\<And>x. f_class (f x) = f_class x) \<Longrightarrow> is_code (upd_frag a f s) b = is_code s b"
  by (simp add: is_code_iff frag_at_upd_frag)

lemma code_succs_upd_frag:
  "(\<And>x. f_class (f x) = f_class x) \<Longrightarrow> (\<And>x. succ_fall (f x) = succ_fall x) \<Longrightarrow>
   (\<And>x. succ_branch (f x) = succ_branch x) \<Longrightarrow> code_succs (upd_frag a f s) b = code_succs s b"
  by (simp add: code_succs_def successors_def is_code_upd_frag frag_at_upd_frag cong: filter_cong)

lemma forest_new: "forest s \<Longrightarrow> forest (DisjointSet_new s a v)"
proof -
  assume f: "forest s"
  let ?p = "(ds_parent s)(a := a)"
  have "is_root (ds_parent s) x r \<Longrightarrow> \<exists>r. is_root ?p x r" for x r
  proof (induction rule: is_root.induct)
    case (root_here x)
    then show ?case by (intro exI [of _ x] is_root.root_here) simp
  next
    case (root_up x r)
    then obtain r' where "is_root ?p (ds_parent s x) r'" by blast
    then have "is_root ?p x (if x = a then a else r')"
      using root_up(1) is_root.root_here [of ?p a] is_root.root_up [of ?p x r'] by (cases "x = a") simp_all
    then show ?case by blast
  qed
  then show ?thesis using f unfolding forest_def DisjointSet_new_def by fastforce
qed

lemma Union_forest: "forest s \<Longrightarrow> \<exists>s'. Union d s x y = Some s' \<and> forest s'"
  using Union_correct [of s d x y] by blast

lemma get_set_succ [simp]:
  "get_succ sel (set_succ sel' p f) = (if sel = sel' then p else get_succ sel f)"
  "f_class (set_succ sel p f) = f_class f" "entry_regs (set_succ sel p f) = entry_regs f"
  "exit_regs (set_succ sel p f) = exit_regs f" "attr (set_succ sel p f) = attr f"
  by (auto simp: get_succ_def set_succ_def split: succ_sel.split)

lemma set_insert_after: "a \<in> set xs \<Longrightarrow> set (insert_after a b xs) = insert b (set xs)"
  by (induction xs) auto

text \<open>The casts follow the class hierarchy: the class numbers divide each other exactly where one
  class derives from the other.\<close>

lemma IsDerivedFrom_hierarchy:
  "IsDerivedFrom d c \<longleftrightarrow>
     d = c \<or> d = Fragment_base \<or> (d = CodeFragment \<and> c \<in> {FlagEntryFragment, FlagExitFragment})"
  by (cases d; cases c) (simp_all add: IsDerivedFrom_def)

end
