(* ===== verification/Partitions.thy ===== *)
theory Partitions
  imports Fragments
begin

text \<open>
  The pass that groups fragments into partitions
  (\<^verbatim>\<open>granary/code/assemble/3_partition_fragments.cc\<close>): one fragment with an invalid stack
  makes the stack invalid in all of them, and code fragments are put into the partition of a code
  successor unless their attributes forbid it.  The option to spill to the stack is a parameter.
\<close>

section \<open>Model\<close>

definition InitStackValidity :: "bool \<Rightarrow> frag_state \<Rightarrow> frag_state" where
  "InitStackValidity FLAG_try_spill_VRs_to_stack s =
     (let valid = FLAG_try_spill_VRs_to_stack \<and>
            list_all (\<lambda>a. stack_status (frag_at s a) \<noteq> kStackStatusInvalid) (flist s)
      in if valid then s
         else fold (\<lambda>a. upd_frag a (\<lambda>f. f\<lparr>stack_status := kStackStatusInvalid\<rparr>)) (flist s) s)"

definition group_edge :: "nat \<Rightarrow> nat option \<Rightarrow> frag_state \<Rightarrow> frag_state option" where
  "group_edge a p s =
     (case p of None \<Rightarrow> Some s
      | Some b \<Rightarrow>
          if \<not> is_code s b then Some s
          else Option.bind (set_eq (parts s) a b) (\<lambda>(ps, same).
                 let s1 = s\<lparr>parts := ps\<rparr> in
                 if same \<or> \<not> can_add_pred_to_partition (attr (frag_at s b)) then Some s1
                 else map_option (\<lambda>ps'. s1\<lparr>parts := ps'\<rparr>) (Union None (parts s1) a b)))"

definition group_frag :: "nat \<Rightarrow> frag_state \<Rightarrow> frag_state option" where
  "group_frag a s =
     (if is_code s a \<and> can_add_succ_to_partition (attr (frag_at s a))
      then opt_fold (group_edge a) (successors (frag_at s a)) s else Some s)"

definition GroupFragments :: "frag_state \<Rightarrow> frag_state option" where
  "GroupFragments s = opt_fold group_frag (flist s) s"

definition PartitionFragments :: "bool \<Rightarrow> frag_state \<Rightarrow> frag_state option" where
  "PartitionFragments flag s = GroupFragments (InitStackValidity flag s)"

section \<open>Grouping\<close>

text \<open>The edges along which a partition may grow.\<close>

definition group_edges :: "frag_state \<Rightarrow> nat set \<Rightarrow> (nat \<times> nat) set" where
  "group_edges s A = {(a, b). a \<in> A \<and> is_code s a \<and> can_add_succ_to_partition (attr (frag_at s a)) \<and>
     Some b \<in> set (successors (frag_at s a)) \<and> is_code s b \<and>
     can_add_pred_to_partition (attr (frag_at s b))}"

lemma set_eq_classes:
  assumes "forest s"
  obtains s' where "set_eq s x y = Some (s', same_set s x y)" "forest s'" "same_set s' = same_set s"
proof -
  obtain s1 where s1: "Find s x = Some (s1, root s x)" "forest s1" "root s1 = root s"
    by (rule Find_correct [OF assms])
  obtain s2 where s2: "Find s1 y = Some (s2, root s1 y)" "forest s2" "root s2 = root s1"
    by (rule Find_correct [OF s1(2)])
  have "same_set s2 = same_set s"
    using s1 s2 assms by (intro ext) (simp add: same_set_iff)
  then show thesis using s1 s2 assms by (intro that [of s2]) (simp_all add: set_eq_def same_set_iff)
qed

abbreviation part_rel :: "frag_state \<Rightarrow> (nat \<times> nat) set" where
  "part_rel s \<equiv> uf.classes (parts s)"

lemma part_rel_closed: "forest (parts s) \<Longrightarrow> E \<subseteq> part_rel s \<Longrightarrow> (part_rel s \<union> E \<union> E\<inverse>)\<^sup>* = part_rel s"
proof -
  assume f: "forest (parts s)" and E: "E \<subseteq> part_rel s"
  have "sym (part_rel s)"
    using same_set_equivp [OF f] by (auto simp: sym_def uf.classes_def dest: equivp_symp)
  then have "part_rel s \<union> E \<union> E\<inverse> \<subseteq> part_rel s" using E by (auto dest: symD)
  then have "(part_rel s \<union> E \<union> E\<inverse>)\<^sup>* \<subseteq> part_rel s" by (rule uf.classes_rtrancl [OF f])
  then show ?thesis by auto
qed

lemma closure_step: "((S \<union> E \<union> E\<inverse>)\<^sup>* \<union> F \<union> F\<inverse>)\<^sup>* = (S \<union> (E \<union> F) \<union> (E \<union> F)\<inverse>)\<^sup>*"
proof -
  have "((S \<union> E \<union> E\<inverse>)\<^sup>* \<union> (F \<union> F\<inverse>))\<^sup>* = ((S \<union> E \<union> E\<inverse>) \<union> (F \<union> F\<inverse>))\<^sup>*"
    using rtrancl_Un_rtrancl [of "S \<union> E \<union> E\<inverse>" "F \<union> F\<inverse>"]
      rtrancl_Un_rtrancl [of "(S \<union> E \<union> E\<inverse>)\<^sup>*" "F \<union> F\<inverse>"] by simp
  moreover have "(S \<union> E \<union> E\<inverse>) \<union> (F \<union> F\<inverse>) = S \<union> (E \<union> F) \<union> (E \<union> F)\<inverse>" by auto
  ultimately show ?thesis by (simp add: Un_assoc)
qed

text \<open>Only the sets change.\<close>

definition same_frags :: "frag_state \<Rightarrow> frag_state \<Rightarrow> bool" where
  "same_frags s t \<longleftrightarrow> t = s\<lparr>parts := parts t\<rparr>"

lemma same_fragsD:
  assumes "same_frags s t"
  shows "frag_at t = frag_at s" "flist t = flist s" "is_code t a = is_code s a" "zones t = zones s"
proof -
  have t: "t = s\<lparr>parts := parts t\<rparr>" using assms by (simp add: same_frags_def)
  show "frag_at t = frag_at s" "flist t = flist s" "zones t = zones s" by (subst t, simp)+
  then show "is_code t a = is_code s a" by (simp add: is_code_iff)
qed

lemma same_frags_trans: "same_frags s t \<Longrightarrow> same_frags t u \<Longrightarrow> same_frags s u"
proof -
  assume t: "same_frags s t" and u: "same_frags t u"
  have "u = t\<lparr>parts := parts u\<rparr>" "t = s\<lparr>parts := parts t\<rparr>" using t u by (simp_all add: same_frags_def)
  then have "u = s\<lparr>parts := parts t\<rparr>\<lparr>parts := parts u\<rparr>" by simp
  then show "same_frags s u" by (simp add: same_frags_def)
qed

definition group_rel :: "frag_state \<Rightarrow> (nat \<times> nat) set \<Rightarrow> frag_state \<Rightarrow> bool" where
  "group_rel s E t \<longleftrightarrow> same_frags s t \<and> forest (parts t) \<and> part_rel t = (part_rel s \<union> E \<union> E\<inverse>)\<^sup>*"

lemma group_rel_refl: "forest (parts s) \<Longrightarrow> group_rel s {} s"
  using part_rel_closed [of s "{}"] by (simp add: group_rel_def same_frags_def)

lemma group_rel_trans: "group_rel s E t \<Longrightarrow> group_rel t F u \<Longrightarrow> group_rel s (E \<union> F) u"
  by (auto simp: group_rel_def closure_step intro: same_frags_trans)

lemma group_edge_rel:
  assumes f: "forest (parts s)"
  shows "\<exists>t. group_edge a p s = Some t \<and>
     group_rel s {(a, b) |b. p = Some b \<and> is_code s b \<and> can_add_pred_to_partition (attr (frag_at s b))} t"
proof (cases "\<exists>b. p = Some b \<and> is_code s b")
  case False
  then have "group_edge a p s = Some s" by (auto simp: group_edge_def split: option.split)
  moreover have e: "{(a, b) |b. p = Some b \<and> is_code s b \<and> can_add_pred_to_partition (attr (frag_at s b))} = {}"
    using False by blast
  ultimately show ?thesis unfolding e using group_rel_refl [OF f] by blast
next
  case True
  then obtain b where b: "p = Some b" "is_code s b" by blast
  obtain ps where ps: "set_eq (parts s) a b = Some (ps, same_set (parts s) a b)" "forest ps"
    "same_set ps = same_set (parts s)"
    by (rule set_eq_classes [OF f])
  let ?s1 = "s\<lparr>parts := ps\<rparr>"
  have rel: "part_rel ?s1 = part_rel s" using ps(3) by (simp add: uf.classes_def)
  have s1: "group_rel s {} ?s1"
    using ps(2) part_rel_closed [OF f, of "{}"] rel by (simp add: group_rel_def same_frags_def)
  show ?thesis
  proof (cases "can_add_pred_to_partition (attr (frag_at s b))")
    case False
    then have "group_edge a p s = Some ?s1" using b ps(1) by (simp add: group_edge_def)
    moreover have e: "{(a, c) |c. p = Some c \<and> is_code s c \<and> can_add_pred_to_partition (attr (frag_at s c))} = {}"
      using False b by auto
    ultimately show ?thesis unfolding e using s1 by blast
  next
    case True
    have edge: "{(a, c) |c. p = Some c \<and> is_code s c \<and> can_add_pred_to_partition (attr (frag_at s c))} = {(a, b)}"
      using b True by auto
    show ?thesis
    proof (cases "same_set (parts s) a b")
      case same: True
      then have "group_edge a p s = Some ?s1" using b ps(1) True by (simp add: group_edge_def)
      moreover have "{(a, b)} \<subseteq> part_rel s" using same by (simp add: uf.classes_def)
      then have "group_rel s {(a, b)} ?s1"
        using ps(2) part_rel_closed [OF f, of "{(a, b)}"] rel by (simp add: group_rel_def same_frags_def)
      ultimately show ?thesis unfolding edge by blast
    next
      case False
      obtain ps' where ps': "Union None ps a b = Some ps'" "forest ps'"
        "uf.classes ps' = (uf.classes ps \<union> {(a, b), (b, a)})\<^sup>*"
        using uf.union_classes [OF ps(2), of None a b] by blast
      have "group_edge a p s = Some (?s1\<lparr>parts := ps'\<rparr>)"
        using b ps(1) True False ps'(1) by (simp add: group_edge_def)
      moreover have conv: "{(a, b)}\<inverse> = {(b, a)}" by auto
      have "group_rel s {(a, b)} (?s1\<lparr>parts := ps'\<rparr>)"
        using ps'(2,3) rel by (simp add: group_rel_def same_frags_def conv insert_commute)
      ultimately show ?thesis unfolding edge by blast
    qed
  qed
qed

lemma group_rel_forest: "group_rel s E t \<Longrightarrow> forest (parts t)"
  by (simp add: group_rel_def)

lemma group_frag_rel:
  assumes f: "forest (parts s)"
  shows "\<exists>t. group_frag a s = Some t \<and> group_rel s (group_edges s {a}) t"
proof (cases "is_code s a \<and> can_add_succ_to_partition (attr (frag_at s a))")
  case False
  then have "group_edges s {a} = {}" by (auto simp: group_edges_def)
  then show ?thesis using False group_rel_refl [OF f] by (auto simp: group_frag_def)
next
  case True
  let ?e = "\<lambda>s p. {(a, b) |b. p = Some b \<and> is_code s b \<and> can_add_pred_to_partition (attr (frag_at s b))}"
  obtain s1 where s1: "group_edge a (succ_fall (frag_at s a)) s = Some s1"
    "group_rel s (?e s (succ_fall (frag_at s a))) s1"
    using group_edge_rel [OF f] by blast
  obtain s2 where s2: "group_edge a (succ_branch (frag_at s a)) s1 = Some s2"
    "group_rel s1 (?e s1 (succ_branch (frag_at s a))) s2"
    using group_edge_rel [OF group_rel_forest [OF s1(2)]] by blast
  have same: "same_frags s s1" using s1(2) by (simp add: group_rel_def)
  have "?e s1 p = ?e s p" for p by (simp add: same_fragsD [OF same])
  then have "group_rel s (?e s (succ_fall (frag_at s a)) \<union> ?e s (succ_branch (frag_at s a))) s2"
    using group_rel_trans [OF s1(2) s2(2)] by simp
  moreover have "?e s (succ_fall (frag_at s a)) \<union> ?e s (succ_branch (frag_at s a)) = group_edges s {a}"
    using True by (auto simp: group_edges_def successors_def)
  moreover have "group_frag a s = Some s2" using True s1(1) s2(1) by (simp add: group_frag_def successors_def)
  ultimately show ?thesis by auto
qed

lemma group_edges_same: "same_frags s t \<Longrightarrow> group_edges t A = group_edges s A"
  by (simp add: group_edges_def same_fragsD)

lemma group_edges_Un: "group_edges s (A \<union> B) = group_edges s A \<union> group_edges s B"
  by (auto simp: group_edges_def)

lemma GroupFragments_rel:
  "forest (parts s) \<Longrightarrow> \<exists>t. opt_fold group_frag as s = Some t \<and> group_rel s (group_edges s (set as)) t"
proof (induction as arbitrary: s)
  case Nil
  have "group_edges s {} = {}" by (simp add: group_edges_def)
  then show ?case using group_rel_refl [OF Nil] by simp
next
  case (Cons a as)
  obtain s1 where s1: "group_frag a s = Some s1" "group_rel s (group_edges s {a}) s1"
    using group_frag_rel [OF Cons.prems] by blast
  obtain t where t: "opt_fold group_frag as s1 = Some t" "group_rel s1 (group_edges s1 (set as)) t"
    using Cons.IH [OF group_rel_forest [OF s1(2)]] by blast
  have "same_frags s s1" using s1(2) by (simp add: group_rel_def)
  then have "group_rel s (group_edges s {a} \<union> group_edges s (set as)) t"
    using group_rel_trans [OF s1(2) t(2)] group_edges_same by simp
  then show ?case using s1(1) t(1) group_edges_Un [of s "{a}" "set as"] by auto
qed

section \<open>Properties\<close>

lemma fold_stack:
  "frag_at (fold (\<lambda>a. upd_frag a (\<lambda>f. f\<lparr>stack_status := x\<rparr>)) as s) b =
     (if b \<in> set as then (frag_at s b)\<lparr>stack_status := x\<rparr> else frag_at s b)"
  "parts (fold (\<lambda>a. upd_frag a (\<lambda>f. f\<lparr>stack_status := x\<rparr>)) as s) = parts s"
  "flist (fold (\<lambda>a. upd_frag a (\<lambda>f. f\<lparr>stack_status := x\<rparr>)) as s) = flist s"
  by (induction as arbitrary: s) (auto simp: frag_at_upd_frag)

lemma InitStackValidity_frag:
  "\<exists>x. frag_at (InitStackValidity flag s) b = (frag_at s b)\<lparr>stack_status := x\<rparr>"
proof -
  have "frag_at s b = (frag_at s b)\<lparr>stack_status := stack_status (frag_at s b)\<rparr>" by simp
  then show ?thesis unfolding InitStackValidity_def Let_def by (simp only: fold_stack split: if_split) blast
qed

lemma InitStackValidity_edges: "group_edges (InitStackValidity flag s) A = group_edges s A"
proof -
  let ?t = "InitStackValidity flag s"
  have "is_code ?t b = is_code s b" "attr (frag_at ?t b) = attr (frag_at s b)"
    "successors (frag_at ?t b) = successors (frag_at s b)" for b
    using InitStackValidity_frag [of flag s b] by (auto simp: is_code_iff successors_def)
  then show ?thesis by (simp add: group_edges_def)
qed

text \<open>C20: partitioning returns, and two fragments end up in the same partition exactly when they were
  before or are connected by edges from a code fragment that may share its partition with its
  successors to a code fragment that may share its partition with its predecessors; the stack is
  invalid everywhere in the list when the option forbids spilling to it or some fragment found it
  invalid, and unchanged otherwise.\<close>

theorem partitions_are_components:
  assumes "forest (parts s)"
  shows "\<exists>t. PartitionFragments flag s = Some t \<and> forest (parts t) \<and>
     (\<forall>a b. same_set (parts t) a b \<longleftrightarrow>
        (a, b) \<in> ({(c, d). same_set (parts s) c d} \<union> group_edges s (set (flist s)) \<union>
                 (group_edges s (set (flist s)))\<inverse>)\<^sup>*) \<and>
     (\<forall>a\<in>set (flist s). stack_status (frag_at t a) =
        (if flag \<and> list_all (\<lambda>b. stack_status (frag_at s b) = kStackStatusValid) (flist s)
         then kStackStatusValid else kStackStatusInvalid))"
proof -
  let ?s = "InitStackValidity flag s"
  have parts: "parts ?s = parts s" and fl: "flist ?s = flist s"
    by (simp_all add: InitStackValidity_def Let_def fold_stack)
  obtain t where t: "GroupFragments ?s = Some t" "group_rel ?s (group_edges ?s (set (flist ?s))) t"
    using GroupFragments_rel [of ?s "flist ?s"] assms parts by (auto simp: GroupFragments_def)
  have rel: "uf.classes (parts t) = (uf.classes (parts s) \<union> group_edges s (set (flist s)) \<union>
      (group_edges s (set (flist s)))\<inverse>)\<^sup>*"
    using t(2) by (simp add: group_rel_def parts fl InitStackValidity_edges)
  have "frag_at t = frag_at ?s" using t(2) same_fragsD by (simp add: group_rel_def)
  moreover have "stack_status f \<noteq> kStackStatusInvalid \<longleftrightarrow> stack_status f = kStackStatusValid" for f
    by (cases "stack_status f") simp_all
  ultimately have "stack_status (frag_at t a) =
        (if flag \<and> list_all (\<lambda>b. stack_status (frag_at s b) = kStackStatusValid) (flist s)
         then kStackStatusValid else kStackStatusInvalid)" if "a \<in> set (flist s)" for a
    using that by (auto simp: InitStackValidity_def Let_def fold_stack list_all_iff)
  moreover have "same_set (parts t) a b \<longleftrightarrow> (a, b) \<in> ({(c, d). same_set (parts s) c d} \<union>
      group_edges s (set (flist s)) \<union> (group_edges s (set (flist s)))\<inverse>)\<^sup>*" for a b
    using rel unfolding uf.classes_def by blast
  moreover have "PartitionFragments flag s = Some t" using t(1) by (simp add: PartitionFragments_def)
  moreover have "forest (parts t)" using t(2) by (rule group_rel_forest)
  ultimately show ?thesis by blast
qed

definition chain_frags :: frag_state where
  "chain_frags =
     \<lparr>frag_at = (\<lambda>a. if a = 0 then (Fragment_new CodeFragment)\<lparr>succ_fall := Some 1\<rparr>
                    else if a = 1 then (Fragment_new CodeFragment)\<lparr>succ_fall := Some 2\<rparr>
                    else Fragment_new CodeFragment),
      instr_at = (\<lambda>_. Annotation kAnnotNoOp NoData), flist = [0, 1, 2], next_frag = 3, next_instr = 0,
      parts = singletons (\<lambda>_. None), zones = singletons (\<lambda>_. FlagZone_new),
      info_at = (\<lambda>_. PartitionInfo_new 0), next_info = 0\<rparr>"

theorem partitions_are_components_witness:
  "\<exists>t. PartitionFragments True chain_frags = Some t \<and> same_set (parts t) 0 2"
proof -
  have e: "(0, 1) \<in> group_edges chain_frags {0, 1, 2}" "(1, 2) \<in> group_edges chain_frags {0, 1, 2}"
    by (simp_all add: group_edges_def chain_frags_def is_code_iff Fragment_new_def CodeAttributes_new_def
        successors_def)
  let ?R = "{(c, d). same_set (parts chain_frags) c d} \<union> group_edges chain_frags {0, 1, 2} \<union>
    (group_edges chain_frags {0, 1, 2})\<inverse>"
  have "(0, 2) \<in> ?R\<^sup>*" using e by (intro converse_rtrancl_into_rtrancl [of 0 1] r_into_rtrancl) auto
  moreover have "forest (parts chain_frags)" "set (flist chain_frags) = {0, 1, 2}"
    by (simp_all add: chain_frags_def singletons_forest)
  ultimately show ?thesis using partitions_are_components [of chain_frags True] by auto
qed

end
