(* ===== verification/Flags.thy ===== *)
theory Flags
  imports Fragments
begin

text \<open>
  The first half of the pass that adds entry and exit fragments
  (\<^verbatim>\<open>granary/code/assemble/4_add_entry_exit_fragments.cc\<close> and
  \<^verbatim>\<open>arch/x86-64/assemble/4_add_entry_exit_fragments.cc\<close>): the kinds of the fragments, the
  analysis of the live arithmetic flags, and the flag zones.

  The two tables of flag uses are generated when Granary is built, so they are a parameter.
  \<^const>\<open>None\<close> is a failed assertion, or the analysis running forever.
\<close>

section \<open>Flags of an instruction\<close>

record flag_tables =
  form_read :: "nat \<Rightarrow> u32"
  form_written :: "nat \<Rightarrow> u32"
  is_conditional_write :: "nat \<Rightarrow> bool"

definition ALL_AFLAGS_WITH_DF :: u32 where [granary_simps]: "ALL_AFLAGS_WITH_DF = 3285"
definition ALL_AFLAGS_WITHOUT_DF :: u32 where [granary_simps]: "ALL_AFLAGS_WITHOUT_DF = 2261"
definition ZF :: u32 where [granary_simps]: "ZF = push_bit 6 1"

definition AllArithmeticFlags :: u32 where
  "AllArithmeticFlags = ALL_AFLAGS_WITHOUT_DF"

definition VisitInstructionFlags ::
    "flag_tables \<Rightarrow> NativeInstruction \<Rightarrow> FlagUsageInfo \<Rightarrow> FlagUsageInfo" where
  "VisitInstructionFlags T ni flags =
     (let rep = has_prefix_rep ni \<or> has_prefix_repne ni;
          read = (if rep then form_read T (iform ni) OR ZF else form_read T (iform ni));
          written = (if rep then form_written T (iform ni) OR ZF else form_written T (iform ni));
          flags1 = flags\<lparr>all_written_flags := all_written_flags flags OR (written AND ALL_AFLAGS_WITH_DF),
                         all_read_flags := all_read_flags flags OR (read AND ALL_AFLAGS_WITH_DF)\<rparr>;
          entry = (if is_conditional_write T (iclass ni)
                   then entry_live_flags flags1 OR (written AND ALL_AFLAGS_WITH_DF)
                   else entry_live_flags flags1 AND (NOT written AND ALL_AFLAGS_WITH_DF))
      in flags1\<lparr>entry_live_flags := entry OR (read AND ALL_AFLAGS_WITH_DF)\<rparr>)"

section \<open>Kinds of fragments\<close>

definition copy_kind :: "nat \<Rightarrow> frag_state \<Rightarrow> frag_state" where
  "copy_kind a s =
     fold (\<lambda>b s. upd_frag a (\<lambda>f. f\<lparr>f_kind := f_kind (frag_at s b)\<rparr>) s) (code_succs s a) s"

definition PropagateFragKind :: "nat \<Rightarrow> frag_state \<Rightarrow> frag_state" where
  "PropagateFragKind a s =
     (if is_code s a
      then if f_kind (frag_at s a) \<noteq> kFragmentKindInvalid then s
           else let s1 = copy_kind a s; has_code_succ = (code_succs s a \<noteq> []) in
                if f_kind (frag_at s1 a) = kFragmentKindInvalid
                then upd_frag a (\<lambda>f. f\<lparr>f_kind := (if has_code_succ then kFragmentKindInst
                                                   else kFragmentKindApp)\<rparr>) s1
                else s1
      else if f_kind (frag_at s a) = kFragmentKindInvalid
      then upd_frag a (\<lambda>f. f\<lparr>f_kind := kFragmentKindApp\<rparr>) s
      else s)"

definition PropagateFragKinds :: "frag_state \<Rightarrow> frag_state" where
  "PropagateFragKinds s = fold PropagateFragKind (rev (flist s)) s"

section \<open>Live flags\<close>

record LiveFlags =
  lf_app :: u32
  lf_inst :: u32

definition LiveFlagsOnEntry :: "frag_state \<Rightarrow> nat option \<Rightarrow> LiveFlags" where
  "LiveFlagsOnEntry s p =
     (if IsA ExitFragment s p then \<lparr>lf_app = AllArithmeticFlags, lf_inst = 0\<rparr>
      else (case p of
          Some a \<Rightarrow> \<lparr>lf_app = entry_live_flags (app_flags (frag_at s a)),
                     lf_inst = entry_live_flags (inst_flags (frag_at s a))\<rparr>
        | None \<Rightarrow> \<lparr>lf_app = 0, lf_inst = 0\<rparr>))"

text \<open>A branch instruction is native.\<close>

definition branches_always :: "frag_state \<Rightarrow> nat \<Rightarrow> bool" where
  "branches_always s a =
     (case branch_instr (frag_at s a) of None \<Rightarrow> False
      | Some i \<Rightarrow> (case native_at s i of None \<Rightarrow> False | Some n \<Rightarrow> \<not> IsConditionalJump n))"

definition LiveFlagsOnExit :: "frag_state \<Rightarrow> nat \<Rightarrow> LiveFlags" where
  "LiveFlagsOnExit s a =
     (if IsA ExitFragment s (Some a) then \<lparr>lf_app = AllArithmeticFlags, lf_inst = 0\<rparr>
      else if branches_always s a then LiveFlagsOnEntry s (succ_branch (frag_at s a))
      else let fall_live = LiveFlagsOnEntry s (succ_fall (frag_at s a));
               branch_live = LiveFlagsOnEntry s (succ_branch (frag_at s a))
           in \<lparr>lf_app = lf_app fall_live OR lf_app branch_live,
               lf_inst = lf_inst fall_live OR lf_inst branch_live\<rparr>)"

definition InitFlagsUse :: "frag_state \<Rightarrow> frag_state" where
  "InitFlagsUse s =
     fold (\<lambda>a s. if IsA ExitFragment s (Some a)
                  then upd_frag a (\<lambda>f. f\<lparr>app_flags :=
                         \<lparr>entry_live_flags = AllArithmeticFlags, exit_live_flags = AllArithmeticFlags,
                          all_read_flags = AllArithmeticFlags, all_written_flags = AllArithmeticFlags\<rparr>\<rparr>) s
                  else s)
       (rev (flist s)) s"

definition natives :: "frag_state \<Rightarrow> nat \<Rightarrow> NativeInstruction list" where
  "natives s a = List.map_filter (native_at s) (f_instrs (frag_at s a))"

text \<open>The value the analysis computes for a fragment from the exit flags, by visiting its native
  instructions from the last to the first.\<close>

definition visit_flags :: "flag_tables \<Rightarrow> frag_state \<Rightarrow> nat \<Rightarrow> u32 \<Rightarrow> FlagUsageInfo \<Rightarrow> FlagUsageInfo" where
  "visit_flags T s a exit flags =
     fold (VisitInstructionFlags T) (rev (natives s a))
       (flags\<lparr>exit_live_flags := exit, entry_live_flags := exit\<rparr>)"

definition TryUpdateFlagsUse :: "flag_tables \<Rightarrow> nat \<Rightarrow> frag_state \<Rightarrow> (frag_state \<times> bool) option" where
  "TryUpdateFlagsUse T a s =
     (let f = frag_at s a; exit_flags = LiveFlagsOnExit s a in
      case f_kind f of
        kFragmentKindInvalid \<Rightarrow> None
      | kFragmentKindApp \<Rightarrow>
          let new_flags = visit_flags T s a (lf_app exit_flags) (app_flags f)
          in Some (upd_frag a (\<lambda>f. f\<lparr>app_flags := new_flags\<rparr>) s, app_flags f \<noteq> new_flags)
      | kFragmentKindInst \<Rightarrow>
          let new_flags = visit_flags T s a (lf_inst exit_flags) (inst_flags f)
          in Some (upd_frag a (\<lambda>f. f\<lparr>app_flags := (app_flags f)
                       \<lparr>exit_live_flags := exit_live_flags (app_flags f) OR lf_app exit_flags,
                        entry_live_flags := entry_live_flags (app_flags f) OR lf_app exit_flags\<rparr>,
                     inst_flags := new_flags\<rparr>) s,
                   inst_flags f \<noteq> new_flags))"

definition flags_visit :: "flag_tables \<Rightarrow> nat \<Rightarrow> frag_state \<times> bool \<Rightarrow> (frag_state \<times> bool) option" where
  "flags_visit T a = (\<lambda>(s, changed). map_option (\<lambda>(s', c). (s', c \<or> changed)) (TryUpdateFlagsUse T a s))"

definition flags_round :: "flag_tables \<Rightarrow> frag_state \<Rightarrow> (frag_state \<times> bool) option" where
  "flags_round T s = opt_fold (flags_visit T) (rev (flist s)) (s, False)"

partial_function (option) flags_loop :: "flag_tables \<Rightarrow> frag_state \<Rightarrow> frag_state option" where
  "flags_loop T s =
     Option.bind (flags_round T s) (\<lambda>(s', changed).
       if changed then flags_loop T s' else Some s')"

definition AnalyzeFlagsUse :: "flag_tables \<Rightarrow> frag_state \<Rightarrow> frag_state option" where
  "AnalyzeFlagsUse T s = flags_loop T (InitFlagsUse s)"

section \<open>Flag zones\<close>

definition CombineFlagZones_edge :: "nat \<Rightarrow> nat option \<Rightarrow> frag_state \<Rightarrow> frag_state option" where
  "CombineFlagZones_edge a p s =
     (case p of None \<Rightarrow> Some s
      | Some b \<Rightarrow>
          if \<not> is_code s b then Some s
          else Option.bind (set_eq (parts s) a b) (\<lambda>(ps, same).
                 let s1 = s\<lparr>parts := ps\<rparr>; f = frag_at s1 b;
                     join = (\<lambda>s2. map_option (\<lambda>zs. s2\<lparr>zones := zs\<rparr>) (Union FlagZone_new (zones s2) a b)) in
                 if \<not> same then Some s1
                 else if f_kind (frag_at s1 a) \<noteq> f_kind f
                 then if f_kind f \<noteq> kFragmentKindApp \<or> branch_instr f \<noteq> None \<or>
                         all_read_flags (app_flags f) \<noteq> 0 \<or> all_written_flags (app_flags f) \<noteq> 0
                      then Some s1
                      else join (upd_frag b (\<lambda>f. f\<lparr>f_kind := kFragmentKindInst\<rparr>) s1)
                 else join s1))"

definition CombineFlagZones :: "frag_state \<Rightarrow> frag_state option" where
  "CombineFlagZones s =
     opt_fold (\<lambda>a s. if is_code s a
                      then opt_fold (CombineFlagZones_edge a) (successors (frag_at s a)) s else Some s)
       (flist s) s"

text \<open>The check of debug builds that the attributes of a code fragment agree with its flags comes
  before the update.\<close>

definition UpdateFlagZone :: "nat \<Rightarrow> frag_state \<Rightarrow> frag_state option" where
  "UpdateFlagZone a s =
     (let f = frag_at s a in
      if f_kind f \<noteq> kFragmentKindInst then Some s
      else Option.bind (Find (zones s) a) (\<lambda>(zs, r).
        if is_code s a \<and> modifies_flags (attr f) \<noteq> (all_written_flags (inst_flags f) \<noteq> 0) then None
        else let z = ds_value zs r in
          Some (s\<lparr>zones := zs\<lparr>ds_value := (ds_value zs)(r :=
             \<lparr>killed_flags = killed_flags z OR all_written_flags (inst_flags f),
              live_flags = live_flags z OR exit_live_flags (app_flags f)\<rparr>)\<rparr>\<rparr>)))"

definition UpdateFlagZones :: "frag_state \<Rightarrow> frag_state option" where
  "UpdateFlagZones s = opt_fold UpdateFlagZone (flist s) s"

definition IsFlagInstCode :: "nat \<Rightarrow> frag_state \<Rightarrow> (frag_state \<times> bool) option" where
  "IsFlagInstCode a s =
     (if f_kind (frag_at s a) \<noteq> kFragmentKindInst then Some (s, False)
      else map_option (\<lambda>(zs, z). (s\<lparr>zones := zs\<rparr>, killed_flags z \<noteq> 0)) (Value (zones s) a))"

section \<open>Specification: paths along which a flag is live\<close>

text \<open>What an instruction does to one flag, given by its bit: it makes the flag live, or it keeps
  it as it is.\<close>

definition rep_flags :: "NativeInstruction \<Rightarrow> u32 \<Rightarrow> u32" where
  "rep_flags ni w = (if has_prefix_rep ni \<or> has_prefix_repne ni then w OR ZF else w)"

definition uses_flag :: "flag_tables \<Rightarrow> nat \<Rightarrow> NativeInstruction \<Rightarrow> bool" where
  "uses_flag T k ni \<longleftrightarrow> bit ALL_AFLAGS_WITH_DF k \<and>
     (bit (rep_flags ni (form_read T (iform ni))) k \<or>
      is_conditional_write T (iclass ni) \<and> bit (rep_flags ni (form_written T (iform ni))) k)"

definition keeps_flag :: "flag_tables \<Rightarrow> nat \<Rightarrow> NativeInstruction \<Rightarrow> bool" where
  "keeps_flag T k ni \<longleftrightarrow> is_conditional_write T (iclass ni) \<or>
     bit ALL_AFLAGS_WITH_DF k \<and> \<not> bit (rep_flags ni (form_written T (iform ni))) k"

text \<open>The edges control can leave a fragment along.\<close>

definition live_succs :: "frag_state \<Rightarrow> nat \<Rightarrow> nat set" where
  "live_succs s a = {b. succ_branch (frag_at s a) = Some b \<or>
     \<not> branches_always s a \<and> succ_fall (frag_at s a) = Some b}"

definition is_exit :: "frag_state \<Rightarrow> nat \<Rightarrow> bool" where
  "is_exit s a = IsA ExitFragment s (Some a)"

text \<open>The instructions that count for the flags of one kind of code.  Application flags pass
  through instrumentation code; instrumentation flags do not leave it.\<close>

definition kind_instrs :: "FragmentKind \<Rightarrow> frag_state \<Rightarrow> nat \<Rightarrow> NativeInstruction list" where
  "kind_instrs m s a = (if f_kind (frag_at s a) = m then natives s a else [])"

inductive flag_live :: "flag_tables \<Rightarrow> frag_state \<Rightarrow> FragmentKind \<Rightarrow> nat \<Rightarrow> nat \<Rightarrow> NativeInstruction list \<Rightarrow> bool"
  for T s m k where
  live_use: "uses_flag T k ni \<Longrightarrow> flag_live T s m k a (ni # nis)"
| live_keep: "flag_live T s m k a nis \<Longrightarrow> keeps_flag T k ni \<Longrightarrow> flag_live T s m k a (ni # nis)"
| live_exit: "is_exit s a \<Longrightarrow> m = kFragmentKindApp \<Longrightarrow> bit AllArithmeticFlags k \<Longrightarrow> flag_live T s m k a []"
| live_edge: "\<not> is_exit s a \<Longrightarrow> b \<in> live_succs s a \<Longrightarrow>
    m = kFragmentKindApp \<or> f_kind (frag_at s b) = kFragmentKindInst \<Longrightarrow>
    flag_live T s m k b (kind_instrs m s b) \<Longrightarrow> flag_live T s m k a []"

inductive_simps flag_live_Cons: "flag_live T s m k a (ni # nis)"
inductive_simps flag_live_Nil: "flag_live T s m k a []"

definition flag_live_on_entry :: "flag_tables \<Rightarrow> frag_state \<Rightarrow> FragmentKind \<Rightarrow> nat \<Rightarrow> nat \<Rightarrow> bool" where
  "flag_live_on_entry T s m k a = flag_live T s m k a (kind_instrs m s a)"

section \<open>The transfer function\<close>

fun flag_transfer :: "flag_tables \<Rightarrow> nat \<Rightarrow> NativeInstruction list \<Rightarrow> bool \<Rightarrow> bool" where
  "flag_transfer T k [] x = x"
| "flag_transfer T k (ni # nis) x \<longleftrightarrow> uses_flag T k ni \<or> keeps_flag T k ni \<and> flag_transfer T k nis x"

lemma flag_live_transfer:
  "flag_live T s m k a nis \<longleftrightarrow> flag_transfer T k nis (flag_live T s m k a [])"
  by (induction nis) (auto simp: flag_live_Cons)

lemma flag_transfer_mono: "(x \<Longrightarrow> y) \<Longrightarrow> flag_transfer T k nis x \<Longrightarrow> flag_transfer T k nis y"
  by (induction nis) auto

lemma Visit_entry_bit:
  "bit (entry_live_flags (VisitInstructionFlags T ni fl)) k \<longleftrightarrow>
     uses_flag T k ni \<or> keeps_flag T k ni \<and> bit (entry_live_flags fl) k"
proof (cases "k < 32")
  case True
  then show ?thesis
    by (auto simp: VisitInstructionFlags_def Let_def uses_flag_def keeps_flag_def rep_flags_def
        bit_or_iff bit_and_iff bit_not_iff)
next
  case False
  then have "\<not> bit (w :: u32) k" for w by (auto dest: bit_imp_le_length)
  then show ?thesis by (simp add: uses_flag_def)
qed

lemma Visit_exit [simp]: "exit_live_flags (VisitInstructionFlags T ni fl) = exit_live_flags fl"
  by (simp add: VisitInstructionFlags_def Let_def)

lemma visit_entry_bit:
  "bit (entry_live_flags (visit_flags T s a e fl)) k \<longleftrightarrow> flag_transfer T k (natives s a) (bit e k)"
proof -
  have "bit (entry_live_flags (fold (VisitInstructionFlags T) (rev nis) fl')) k \<longleftrightarrow>
    flag_transfer T k nis (bit (entry_live_flags fl') k)" for nis fl'
    by (induction nis arbitrary: fl') (simp_all add: Visit_entry_bit)
  then show ?thesis by (simp add: visit_flags_def)
qed

lemma visit_exit [simp]: "exit_live_flags (visit_flags T s a e fl) = e"
proof -
  have "exit_live_flags (fold (VisitInstructionFlags T) nis fl') = exit_live_flags fl'" for nis fl'
    by (induction nis arbitrary: fl') simp_all
  then show ?thesis by (simp add: visit_flags_def)
qed

section \<open>The order on flags\<close>

definition flags_sub :: "u32 \<Rightarrow> u32 \<Rightarrow> bool" where
  "flags_sub v w \<longleftrightarrow> (\<forall>k. bit v k \<longrightarrow> bit w k)"

definition info_le :: "FlagUsageInfo \<Rightarrow> FlagUsageInfo \<Rightarrow> bool" where
  "info_le f g \<longleftrightarrow> flags_sub (entry_live_flags f) (entry_live_flags g) \<and>
     flags_sub (exit_live_flags f) (exit_live_flags g) \<and>
     flags_sub (all_read_flags f) (all_read_flags g) \<and>
     flags_sub (all_written_flags f) (all_written_flags g)"

lemma flags_sub_refl [simp]: "flags_sub v v" and flags_sub_0 [simp]: "flags_sub 0 v"
  by (simp_all add: flags_sub_def)

lemma flags_sub_trans: "flags_sub u v \<Longrightarrow> flags_sub v w \<Longrightarrow> flags_sub u w"
  by (simp add: flags_sub_def)

lemma flags_sub_or:
  "flags_sub v w \<Longrightarrow> flags_sub v' w' \<Longrightarrow> flags_sub (v OR v') (w OR w')" "flags_sub v (v OR w)"
  by (auto simp: flags_sub_def bit_or_iff)

lemma info_le_refl [simp]: "info_le f f" and info_le_new [simp]: "info_le FlagUsageInfo_new f"
  by (simp_all add: info_le_def FlagUsageInfo_new_def)

lemma info_le_trans: "info_le f g \<Longrightarrow> info_le g h \<Longrightarrow> info_le f h"
  by (auto simp: info_le_def intro: flags_sub_trans)

text \<open>The number of flags not yet set bounds the number of changes.\<close>

definition flags_wt :: "u32 \<Rightarrow> nat" where
  "flags_wt w = card {k. k < 32 \<and> \<not> bit w k}"

definition info_wt :: "FlagUsageInfo \<Rightarrow> nat" where
  "info_wt f = flags_wt (entry_live_flags f) + flags_wt (exit_live_flags f) +
     flags_wt (all_read_flags f) + flags_wt (all_written_flags f)"

lemma flags_wt_le: "flags_sub v w \<Longrightarrow> flags_wt w \<le> flags_wt v"
  by (auto simp: flags_wt_def flags_sub_def intro!: card_mono)

lemma flags_wt_less:
  assumes "flags_sub v w" "v \<noteq> w"
  shows "flags_wt w < flags_wt v"
proof -
  obtain k where "bit v k \<noteq> bit w k" using assms(2) by (auto simp: bit_eq_iff)
  then have k: "bit w k" "\<not> bit v k" using assms(1) by (auto simp: flags_sub_def)
  then have "k < 32" by (auto dest: bit_imp_le_length)
  then have "{k. k < 32 \<and> \<not> bit w k} \<subset> {k. k < 32 \<and> \<not> bit v k}"
    using k assms(1) by (auto simp: flags_sub_def)
  then show ?thesis unfolding flags_wt_def by (intro psubset_card_mono) auto
qed

lemma info_wt_le: "info_le f g \<Longrightarrow> info_wt g \<le> info_wt f"
  unfolding info_le_def info_wt_def by (auto dest!: flags_wt_le)

lemma info_wt_less:
  assumes "info_le f g" "f \<noteq> g"
  shows "info_wt g < info_wt f"
proof -
  note le = assms(1) [unfolded info_le_def]
  have "entry_live_flags f \<noteq> entry_live_flags g \<or> exit_live_flags f \<noteq> exit_live_flags g \<or>
    all_read_flags f \<noteq> all_read_flags g \<or> all_written_flags f \<noteq> all_written_flags g"
    using assms(2) by (cases f; cases g) auto
  then show ?thesis
    using le flags_wt_le [of "entry_live_flags f"] flags_wt_le [of "exit_live_flags f"]
      flags_wt_le [of "all_read_flags f"] flags_wt_le [of "all_written_flags f"]
      flags_wt_less [of "entry_live_flags f"] flags_wt_less [of "exit_live_flags f"]
      flags_wt_less [of "all_read_flags f"] flags_wt_less [of "all_written_flags f"]
    unfolding info_wt_def by fastforce
qed

lemma Visit_mono: "info_le f g \<Longrightarrow> info_le (VisitInstructionFlags T ni f) (VisitInstructionFlags T ni g)"
  by (auto simp: info_le_def flags_sub_def Visit_entry_bit)
    (auto simp: VisitInstructionFlags_def Let_def bit_or_iff)

lemma Visit_extends:
  "flags_sub (all_read_flags f) (all_read_flags (VisitInstructionFlags T ni f))"
  "flags_sub (all_written_flags f) (all_written_flags (VisitInstructionFlags T ni f))"
  by (simp_all add: VisitInstructionFlags_def Let_def flags_sub_or)

lemma fold_Visit_mono:
  "info_le f g \<Longrightarrow> info_le (fold (VisitInstructionFlags T) nis f) (fold (VisitInstructionFlags T) nis g)"
  by (induction nis arbitrary: f g) (simp_all add: Visit_mono)

lemma fold_Visit_read: "flags_sub (all_read_flags f) (all_read_flags (fold (VisitInstructionFlags T) nis f))"
  by (induction nis arbitrary: f) (auto intro: flags_sub_trans [OF Visit_extends(1)])

lemma fold_Visit_written:
  "flags_sub (all_written_flags f) (all_written_flags (fold (VisitInstructionFlags T) nis f))"
  by (induction nis arbitrary: f) (simp_all, blast intro: flags_sub_trans Visit_extends(2))

lemma visit_mono:
  "flags_sub e e' \<Longrightarrow> info_le f g \<Longrightarrow> info_le (visit_flags T s a e f) (visit_flags T s a e' g)"
  unfolding visit_flags_def by (rule fold_Visit_mono) (simp add: info_le_def)

lemma visit_extends:
  "flags_sub (all_read_flags f) (all_read_flags (visit_flags T s a e f))"
  "flags_sub (all_written_flags f) (all_written_flags (visit_flags T s a e f))"
  using fold_Visit_read [of "f\<lparr>exit_live_flags := e, entry_live_flags := e\<rparr>"]
    fold_Visit_written [of "f\<lparr>exit_live_flags := e, entry_live_flags := e\<rparr>"]
  by (simp_all add: visit_flags_def)

section \<open>One step of the analysis\<close>

text \<open>States that differ in the flags only.\<close>

definition same_but_flags :: "frag_state \<Rightarrow> frag_state \<Rightarrow> bool" where
  "same_but_flags s t \<longleftrightarrow> t = s\<lparr>frag_at := frag_at t\<rparr> \<and>
     (\<forall>a. frag_at t a = (frag_at s a)\<lparr>app_flags := app_flags (frag_at t a), inst_flags := inst_flags (frag_at t a)\<rparr>)"

lemma same_but_flags_refl [simp]: "same_but_flags s s"
  by (simp add: same_but_flags_def)

lemma same_but_flags_sel:
  assumes "same_but_flags s t"
  shows "flist t = flist s" "instr_at t = instr_at s" "zones t = zones s" "parts t = parts s"
proof -
  have t: "t = s\<lparr>frag_at := frag_at t\<rparr>" using assms by (simp add: same_but_flags_def)
  show "flist t = flist s" "instr_at t = instr_at s" "zones t = zones s" "parts t = parts s"
    by (subst t, simp)+
qed

lemma same_but_flags_frag:
  assumes "same_but_flags s t"
  shows "f_kind (frag_at t a) = f_kind (frag_at s a)" "f_class (frag_at t a) = f_class (frag_at s a)"
    "succ_fall (frag_at t a) = succ_fall (frag_at s a)" "succ_branch (frag_at t a) = succ_branch (frag_at s a)"
    "branch_instr (frag_at t a) = branch_instr (frag_at s a)" "f_instrs (frag_at t a) = f_instrs (frag_at s a)"
    "attr (frag_at t a) = attr (frag_at s a)"
proof -
  have t: "frag_at t a = (frag_at s a)\<lparr>app_flags := app_flags (frag_at t a), inst_flags := inst_flags (frag_at t a)\<rparr>"
    using assms by (simp add: same_but_flags_def)
  show "f_kind (frag_at t a) = f_kind (frag_at s a)" "f_class (frag_at t a) = f_class (frag_at s a)"
    "succ_fall (frag_at t a) = succ_fall (frag_at s a)" "succ_branch (frag_at t a) = succ_branch (frag_at s a)"
    "branch_instr (frag_at t a) = branch_instr (frag_at s a)" "f_instrs (frag_at t a) = f_instrs (frag_at s a)"
    "attr (frag_at t a) = attr (frag_at s a)"
    by (subst t, simp)+
qed

lemma same_but_flags_graph:
  assumes "same_but_flags s t"
  shows "is_exit t a = is_exit s a" "live_succs t a = live_succs s a" "natives t a = natives s a"
    "kind_instrs m t a = kind_instrs m s a" "is_code t a = is_code s a"
    "branches_always t a = branches_always s a"
proof -
  note eq = same_but_flags_sel [OF assms] same_but_flags_frag [OF assms]
  have nat: "native_at t = native_at s" by (intro ext) (simp add: native_at_def eq)
  then show "natives t a = natives s a" by (simp add: natives_def eq)
  then show "kind_instrs m t a = kind_instrs m s a" by (simp add: kind_instrs_def eq)
  show "branches_always t a = branches_always s a" unfolding branches_always_def eq nat ..
  then show "live_succs t a = live_succs s a" by (simp add: live_succs_def eq)
  show "is_exit t a = is_exit s a" "is_code t a = is_code s a"
    by (simp_all add: is_exit_def IsA_def eq is_code_iff)
qed

lemma same_but_flags_trans:
  assumes "same_but_flags s t" "same_but_flags t u"
  shows "same_but_flags s u"
proof -
  have "u = t\<lparr>frag_at := frag_at u\<rparr>" "t = s\<lparr>frag_at := frag_at t\<rparr>"
    using assms by (simp_all add: same_but_flags_def)
  then have "u = s\<lparr>frag_at := frag_at t\<rparr>\<lparr>frag_at := frag_at u\<rparr>" by simp
  then have "u = s\<lparr>frag_at := frag_at u\<rparr>" by simp
  moreover have "frag_at u a = (frag_at s a)\<lparr>app_flags := app_flags (frag_at u a),
      inst_flags := inst_flags (frag_at u a)\<rparr>" for a
  proof -
    have "frag_at u a = (frag_at t a)\<lparr>app_flags := app_flags (frag_at u a), inst_flags := inst_flags (frag_at u a)\<rparr>"
      "frag_at t a = (frag_at s a)\<lparr>app_flags := app_flags (frag_at t a), inst_flags := inst_flags (frag_at t a)\<rparr>"
      using assms by (simp_all add: same_but_flags_def)
    then have "frag_at u a = (frag_at s a)\<lparr>app_flags := app_flags (frag_at t a), inst_flags := inst_flags (frag_at t a)\<rparr>
       \<lparr>app_flags := app_flags (frag_at u a), inst_flags := inst_flags (frag_at u a)\<rparr>" by simp
    then show ?thesis by simp
  qed
  ultimately show ?thesis by (simp add: same_but_flags_def)
qed

definition set_flags :: "nat \<Rightarrow> FlagUsageInfo \<times> FlagUsageInfo \<Rightarrow> frag_state \<Rightarrow> frag_state" where
  "set_flags a p = upd_frag a (\<lambda>f. f\<lparr>app_flags := fst p, inst_flags := snd p\<rparr>)"

lemma same_but_flags_set [simp]: "same_but_flags s (set_flags a p s)"
  by (simp add: same_but_flags_def set_flags_def upd_frag_def)

lemma frag_at_set_flags:
  "app_flags (frag_at (set_flags a p s) b) = (if a = b then fst p else app_flags (frag_at s b))"
  "inst_flags (frag_at (set_flags a p s) b) = (if a = b then snd p else inst_flags (frag_at s b))"
  by (simp_all add: set_flags_def frag_at_upd_frag)

text \<open>What one visit of a fragment makes of its flags.\<close>

definition flow :: "flag_tables \<Rightarrow> frag_state \<Rightarrow> nat \<Rightarrow> FlagUsageInfo \<times> FlagUsageInfo" where
  "flow T s a =
     (let f = frag_at s a; e = LiveFlagsOnExit s a in
      if f_kind f = kFragmentKindApp then (visit_flags T s a (lf_app e) (app_flags f), inst_flags f)
      else ((app_flags f)\<lparr>exit_live_flags := exit_live_flags (app_flags f) OR lf_app e,
                          entry_live_flags := entry_live_flags (app_flags f) OR lf_app e\<rparr>,
            visit_flags T s a (lf_inst e) (inst_flags f)))"

definition flow_changed :: "flag_tables \<Rightarrow> frag_state \<Rightarrow> nat \<Rightarrow> bool" where
  "flow_changed T s a =
     (if f_kind (frag_at s a) = kFragmentKindApp then app_flags (frag_at s a) \<noteq> fst (flow T s a)
      else inst_flags (frag_at s a) \<noteq> snd (flow T s a))"

lemma TryUpdateFlagsUse_flow:
  "f_kind (frag_at s a) \<noteq> kFragmentKindInvalid \<Longrightarrow>
   TryUpdateFlagsUse T a s = Some (set_flags a (flow T s a) s, flow_changed T s a)"
  by (cases "f_kind (frag_at s a)")
    (simp_all add: TryUpdateFlagsUse_def flow_def flow_changed_def set_flags_def upd_frag_def Let_def)

lemma LiveFlagsOnEntry_bit:
  "bit (lf_app (LiveFlagsOnEntry s (Some b))) k \<longleftrightarrow>
     (if is_exit s b then bit AllArithmeticFlags k else bit (entry_live_flags (app_flags (frag_at s b))) k)"
  "bit (lf_inst (LiveFlagsOnEntry s (Some b))) k \<longleftrightarrow>
     \<not> is_exit s b \<and> bit (entry_live_flags (inst_flags (frag_at s b))) k"
  by (simp_all add: LiveFlagsOnEntry_def is_exit_def)

lemma LiveFlagsOnEntry_None [simp]:
  "lf_app (LiveFlagsOnEntry s None) = 0" "lf_inst (LiveFlagsOnEntry s None) = 0"
  by (simp_all add: LiveFlagsOnEntry_def IsA_def)

lemma LiveFlagsOnExit_bit:
  "bit (lf_app (LiveFlagsOnExit s a)) k \<longleftrightarrow>
     (if is_exit s a then bit AllArithmeticFlags k
      else \<exists>b\<in>live_succs s a. bit (lf_app (LiveFlagsOnEntry s (Some b))) k)"
  "bit (lf_inst (LiveFlagsOnExit s a)) k \<longleftrightarrow>
     \<not> is_exit s a \<and> (\<exists>b\<in>live_succs s a. bit (lf_inst (LiveFlagsOnEntry s (Some b))) k)"
  by (cases "succ_fall (frag_at s a)"; cases "succ_branch (frag_at s a)";
      auto simp: LiveFlagsOnExit_def is_exit_def live_succs_def Let_def bit_or_iff)+

section \<open>Growth\<close>

definition st_le :: "frag_state \<Rightarrow> frag_state \<Rightarrow> bool" where
  "st_le s t \<longleftrightarrow> same_but_flags s t \<and> (\<forall>a. info_le (app_flags (frag_at s a)) (app_flags (frag_at t a)) \<and>
     info_le (inst_flags (frag_at s a)) (inst_flags (frag_at t a)))"

lemma st_leD:
  assumes "st_le s t"
  shows "same_but_flags s t" "info_le (app_flags (frag_at s a)) (app_flags (frag_at t a))"
    "info_le (inst_flags (frag_at s a)) (inst_flags (frag_at t a))"
  using assms by (simp_all add: st_le_def)

lemma st_le_refl [simp]: "st_le s s"
  by (simp add: st_le_def)

lemma st_le_trans: "st_le s t \<Longrightarrow> st_le t u \<Longrightarrow> st_le s u"
  unfolding st_le_def using same_but_flags_trans info_le_trans by blast

lemma LiveFlagsOnExit_mono:
  assumes le: "st_le s t"
  shows "flags_sub (lf_app (LiveFlagsOnExit s a)) (lf_app (LiveFlagsOnExit t a))"
    "flags_sub (lf_inst (LiveFlagsOnExit s a)) (lf_inst (LiveFlagsOnExit t a))"
proof -
  note eq = same_but_flags_graph [OF st_leD(1) [OF le]]
  have sub: "bit (entry_live_flags (app_flags (frag_at s b))) k \<Longrightarrow> bit (entry_live_flags (app_flags (frag_at t b))) k"
    "bit (entry_live_flags (inst_flags (frag_at s b))) k \<Longrightarrow> bit (entry_live_flags (inst_flags (frag_at t b))) k" for b k
    using st_leD(2,3) [OF le, of b] by (auto simp: info_le_def flags_sub_def)
  show "flags_sub (lf_app (LiveFlagsOnExit s a)) (lf_app (LiveFlagsOnExit t a))"
    unfolding flags_sub_def LiveFlagsOnExit_bit LiveFlagsOnEntry_bit eq by (auto split: if_splits intro: sub)
  show "flags_sub (lf_inst (LiveFlagsOnExit s a)) (lf_inst (LiveFlagsOnExit t a))"
    unfolding flags_sub_def LiveFlagsOnExit_bit LiveFlagsOnEntry_bit eq by (auto split: if_splits intro: sub)
qed

lemma visit_flags_same: "same_but_flags s t \<Longrightarrow> visit_flags T t a = visit_flags T s a"
  by (intro ext) (simp add: visit_flags_def same_but_flags_graph)

lemma flow_mono:
  assumes le: "st_le s t"
  shows "info_le (fst (flow T s a)) (fst (flow T t a))" "info_le (snd (flow T s a)) (snd (flow T t a))"
proof -
  note eq = same_but_flags_frag [OF st_leD(1) [OF le]] visit_flags_same [OF st_leD(1) [OF le]]
  have or: "info_le (f\<lparr>exit_live_flags := exit_live_flags f OR v, entry_live_flags := entry_live_flags f OR v\<rparr>)
      (g\<lparr>exit_live_flags := exit_live_flags g OR w, entry_live_flags := entry_live_flags g OR w\<rparr>)"
    if "info_le f g" "flags_sub v w" for f g v w
    using that by (simp add: info_le_def flags_sub_or)
  show "info_le (fst (flow T s a)) (fst (flow T t a))"
    by (simp add: flow_def Let_def eq visit_mono or LiveFlagsOnExit_mono [OF le] st_leD(2) [OF le])
  show "info_le (snd (flow T s a)) (snd (flow T t a))"
    by (simp add: flow_def Let_def eq visit_mono LiveFlagsOnExit_mono [OF le] st_leD(3) [OF le])
qed

text \<open>No visit takes a flag away, and that stays so.\<close>

definition growing :: "flag_tables \<Rightarrow> frag_state \<Rightarrow> bool" where
  "growing T s \<longleftrightarrow> (\<forall>a\<in>set (flist s). info_le (app_flags (frag_at s a)) (fst (flow T s a)) \<and>
     info_le (inst_flags (frag_at s a)) (snd (flow T s a)))"

lemma step_le:
  assumes "growing T s" "a \<in> set (flist s)"
  shows "st_le s (set_flags a (flow T s a) s)"
  using assms by (auto simp: st_le_def growing_def frag_at_set_flags)

lemma step_growing:
  assumes g: "growing T s" and a: "a \<in> set (flist s)"
  shows "growing T (set_flags a (flow T s a) s)"
proof -
  let ?t = "set_flags a (flow T s a) s"
  note le = step_le [OF g a]
  have "info_le (app_flags (frag_at ?t b)) (fst (flow T ?t b)) \<and> info_le (inst_flags (frag_at ?t b)) (snd (flow T ?t b))"
    if "b \<in> set (flist s)" for b
    using g that flow_mono [OF le, of T b]
    by (auto simp: growing_def frag_at_set_flags intro: info_le_trans)
  then show ?thesis using same_but_flags_sel(1) [OF st_leD(1) [OF le]] by (simp add: growing_def)
qed

definition state_wt :: "frag_state \<Rightarrow> nat" where
  "state_wt s = (\<Sum>a\<in>set (flist s). info_wt (app_flags (frag_at s a)) + info_wt (inst_flags (frag_at s a)))"

lemma state_wt_le:
  assumes le: "st_le s t"
  shows "state_wt t \<le> state_wt s"
  unfolding state_wt_def same_but_flags_sel(1) [OF st_leD(1) [OF le]]
  by (intro sum_mono add_mono info_wt_le st_leD(2,3) [OF le])

lemma state_wt_less:
  assumes le: "st_le s t" and a: "a \<in> set (flist s)"
    and ne: "app_flags (frag_at s a) \<noteq> app_flags (frag_at t a) \<or> inst_flags (frag_at s a) \<noteq> inst_flags (frag_at t a)"
  shows "state_wt t < state_wt s"
  unfolding state_wt_def same_but_flags_sel(1) [OF st_leD(1) [OF le]]
proof (intro sum_strict_mono_ex1 ballI bexI [of _ a])
  show "info_wt (app_flags (frag_at t a)) + info_wt (inst_flags (frag_at t a))
      < info_wt (app_flags (frag_at s a)) + info_wt (inst_flags (frag_at s a))"
    using ne info_wt_le [OF st_leD(2) [OF le]] info_wt_le [OF st_leD(3) [OF le]]
      info_wt_less [OF st_leD(2) [OF le]] info_wt_less [OF st_leD(3) [OF le]]
    by (metis add_le_less_mono add_less_le_mono)
qed (auto simp: a intro!: add_mono info_wt_le st_leD(2,3) [OF le])

section \<open>Every flag found live is live\<close>

text \<open>What earlier passes establish of the list: kinds are decided, successors are listed, and exit
  fragments hold no instructions.\<close>

definition flag_graph :: "frag_state \<Rightarrow> bool" where
  "flag_graph s \<longleftrightarrow> (\<forall>a\<in>set (flist s). f_kind (frag_at s a) \<noteq> kFragmentKindInvalid \<and>
     live_succs s a \<subseteq> set (flist s) \<and> (is_exit s a \<longrightarrow> natives s a = []))"

definition sound_info :: "flag_tables \<Rightarrow> frag_state \<Rightarrow> FragmentKind \<Rightarrow> nat \<Rightarrow> FlagUsageInfo \<Rightarrow> bool" where
  "sound_info T s m a fl \<longleftrightarrow> (\<forall>k. (bit (entry_live_flags fl) k \<longrightarrow> flag_live_on_entry T s m k a) \<and>
     (bit (exit_live_flags fl) k \<longrightarrow> flag_live T s m k a []))"

text \<open>The flags in a state, measured against the paths of the graph it started from.\<close>

definition sound_flags :: "flag_tables \<Rightarrow> frag_state \<Rightarrow> frag_state \<Rightarrow> bool" where
  "sound_flags T s0 s \<longleftrightarrow> (\<forall>a\<in>set (flist s0). sound_info T s0 kFragmentKindApp a (app_flags (frag_at s a)) \<and>
     (if f_kind (frag_at s0 a) = kFragmentKindInst then sound_info T s0 kFragmentKindInst a (inst_flags (frag_at s a))
      else entry_live_flags (inst_flags (frag_at s a)) = 0))"

lemma sound_visit:
  assumes "f_kind (frag_at s0 a) = m" "natives s a = natives s0 a" "\<And>k. bit e k \<Longrightarrow> flag_live T s0 m k a []"
  shows "sound_info T s0 m a (visit_flags T s a e fl)"
proof -
  have "flag_live_on_entry T s0 m k a" if "flag_transfer T k (natives s a) (bit e k)" for k
    using flag_transfer_mono [OF assms(3) that] flag_live_transfer [of T s0 m k a "natives s0 a"]
    by (simp add: flag_live_on_entry_def kind_instrs_def assms(1,2))
  then show ?thesis using assms(3) by (simp add: sound_info_def visit_entry_bit)
qed

lemma sound_exit:
  assumes sb: "same_but_flags s0 s" and graph: "flag_graph s0" and snd: "sound_flags T s0 s" and a: "a \<in> set (flist s0)"
  shows "bit (lf_app (LiveFlagsOnExit s a)) k \<Longrightarrow> flag_live T s0 kFragmentKindApp k a []"
    "bit (lf_inst (LiveFlagsOnExit s a)) k \<Longrightarrow> flag_live T s0 kFragmentKindInst k a []"
proof -
  note eq = same_but_flags_graph [OF sb]
  have exit: "flag_live T s0 kFragmentKindApp k b (kind_instrs kFragmentKindApp s0 b)"
    if "b \<in> set (flist s0)" "is_exit s0 b" "bit AllArithmeticFlags k" for b
    using that graph by (simp add: flag_graph_def kind_instrs_def live_exit)
  have b: "flag_live_on_entry T s0 kFragmentKindApp k b"
    if "b \<in> set (flist s0)" "bit (lf_app (LiveFlagsOnEntry s (Some b))) k" for b
    using that snd exit
    by (auto simp: LiveFlagsOnEntry_bit eq sound_flags_def sound_info_def flag_live_on_entry_def split: if_splits)
  have succ: "b \<in> set (flist s0)" if "b \<in> live_succs s0 a" for b
    using that a graph by (auto simp: flag_graph_def)
  show "bit (lf_app (LiveFlagsOnExit s a)) k \<Longrightarrow> flag_live T s0 kFragmentKindApp k a []"
    using b succ unfolding LiveFlagsOnExit_bit eq flag_live_on_entry_def
    by (auto split: if_splits intro: live_exit live_edge)
  have "f_kind (frag_at s0 b) = kFragmentKindInst \<and> flag_live_on_entry T s0 kFragmentKindInst k b"
    if "b \<in> set (flist s0)" "bit (lf_inst (LiveFlagsOnEntry s (Some b))) k" for b
    using that snd by (auto simp: LiveFlagsOnEntry_bit sound_flags_def sound_info_def split: if_splits)
  then show "bit (lf_inst (LiveFlagsOnExit s a)) k \<Longrightarrow> flag_live T s0 kFragmentKindInst k a []"
    using succ unfolding LiveFlagsOnExit_bit eq flag_live_on_entry_def by (auto intro: live_edge)
qed

lemma sound_flow:
  assumes sb: "same_but_flags s0 s" and graph: "flag_graph s0" and snd: "sound_flags T s0 s" and a: "a \<in> set (flist s0)"
  shows "sound_flags T s0 (set_flags a (flow T s a) s)"
proof -
  note exit = sound_exit [OF sb graph snd a] and eq = same_but_flags_graph [OF sb] same_but_flags_frag [OF sb]
  have app: "sound_info T s0 kFragmentKindApp a (app_flags (frag_at s a))" using snd a by (simp add: sound_flags_def)
  have "sound_info T s0 kFragmentKindApp a (fst (flow T s a))"
  proof (cases "f_kind (frag_at s0 a) = kFragmentKindApp")
    case True
    then show ?thesis using exit(1) by (simp add: flow_def Let_def eq sound_visit)
  next
    case False
    then have "flag_live_on_entry T s0 kFragmentKindApp k a = flag_live T s0 kFragmentKindApp k a []" for k
      by (simp add: flag_live_on_entry_def kind_instrs_def)
    then show ?thesis
      using False app exit(1) by (auto simp: flow_def Let_def eq sound_info_def bit_or_iff)
  qed
  moreover have "f_kind (frag_at s0 a) = kFragmentKindInst \<Longrightarrow> sound_info T s0 kFragmentKindInst a (snd (flow T s a))"
    using exit(2) by (simp add: flow_def Let_def eq sound_visit)
  moreover have "f_kind (frag_at s0 a) = kFragmentKindInst \<or> f_kind (frag_at s0 a) = kFragmentKindApp"
    using graph a by (cases "f_kind (frag_at s0 a)") (auto simp: flag_graph_def)
  moreover have "f_kind (frag_at s0 a) = kFragmentKindApp \<Longrightarrow> snd (flow T s a) = inst_flags (frag_at s a)"
    by (simp add: flow_def Let_def eq)
  ultimately show ?thesis
    using snd by (auto simp: sound_flags_def frag_at_set_flags)
qed

section \<open>A round without changes\<close>

text \<open>A visit that reports no change may still have changed the application flags of an
  instrumentation fragment.\<close>

definition quiet :: "frag_state \<Rightarrow> frag_state \<Rightarrow> bool" where
  "quiet s t \<longleftrightarrow> same_but_flags s t \<and> (\<forall>a. inst_flags (frag_at t a) = inst_flags (frag_at s a) \<and>
     (f_kind (frag_at s a) \<noteq> kFragmentKindInst \<longrightarrow> app_flags (frag_at t a) = app_flags (frag_at s a)))"

definition no_inst :: "frag_state \<Rightarrow> bool" where
  "no_inst s \<longleftrightarrow> (\<forall>a\<in>set (flist s). f_kind (frag_at s a) \<noteq> kFragmentKindInst)"

definition settled :: "flag_tables \<Rightarrow> frag_state \<Rightarrow> nat \<Rightarrow> bool" where
  "settled T s a \<longleftrightarrow>
     (f_kind (frag_at s a) = kFragmentKindInst \<longrightarrow> inst_flags (frag_at s a) = snd (flow T s a)) \<and>
     (no_inst s \<longrightarrow> app_flags (frag_at s a) = fst (flow T s a))"

lemma quiet_refl: "quiet s s"
  by (simp add: quiet_def)

lemma quiet_trans: "quiet s t \<Longrightarrow> quiet t u \<Longrightarrow> quiet s u"
  unfolding quiet_def using same_but_flags_trans same_but_flags_frag(1) by metis

lemma quiet_exit:
  assumes q: "quiet s t" and graph: "flag_graph s" and a: "a \<in> set (flist s)"
  shows "lf_inst (LiveFlagsOnExit t a) = lf_inst (LiveFlagsOnExit s a)"
    "no_inst s \<Longrightarrow> lf_app (LiveFlagsOnExit t a) = lf_app (LiveFlagsOnExit s a)"
proof -
  have sb: "same_but_flags s t" using q by (simp add: quiet_def)
  note eq = same_but_flags_graph [OF sb]
  have "inst_flags (frag_at t b) = inst_flags (frag_at s b)" for b using q by (simp add: quiet_def)
  then show "lf_inst (LiveFlagsOnExit t a) = lf_inst (LiveFlagsOnExit s a)"
    by (intro bit_eqI) (simp only: LiveFlagsOnExit_bit LiveFlagsOnEntry_bit eq)
  assume "no_inst s"
  then have "app_flags (frag_at t b) = app_flags (frag_at s b)" if "b \<in> live_succs s a" for b
    using q graph a that by (auto simp: quiet_def no_inst_def flag_graph_def)
  then show "lf_app (LiveFlagsOnExit t a) = lf_app (LiveFlagsOnExit s a)"
    by (intro bit_eqI) (simp add: LiveFlagsOnExit_bit LiveFlagsOnEntry_bit eq)
qed

lemma settled_quiet:
  assumes q: "quiet s t" and graph: "flag_graph s" and a: "a \<in> set (flist s)" and st: "settled T s a"
  shows "settled T t a"
proof -
  have sb: "same_but_flags s t" using q by (simp add: quiet_def)
  note eq = same_but_flags_frag [OF sb] visit_flags_same [OF sb] same_but_flags_sel [OF sb]
  have "no_inst t = no_inst s" by (simp add: no_inst_def eq)
  moreover have "snd (flow T t a) = snd (flow T s a)" if "f_kind (frag_at s a) = kFragmentKindInst"
    using q that by (simp add: flow_def Let_def eq quiet_exit(1) [OF q graph a] quiet_def)
  moreover have "fst (flow T t a) = fst (flow T s a) \<and> app_flags (frag_at t a) = app_flags (frag_at s a)" if "no_inst s"
  proof -
    have "app_flags (frag_at t a) = app_flags (frag_at s a)" using q a that by (simp add: quiet_def no_inst_def)
    then show ?thesis by (simp add: flow_def Let_def eq quiet_exit(2) [OF q graph a that])
  qed
  moreover have "inst_flags (frag_at t a) = inst_flags (frag_at s a)" using q by (simp add: quiet_def)
  ultimately show ?thesis using st by (simp add: settled_def eq)
qed

lemma step_unchanged:
  assumes "\<not> flow_changed T s a" "flag_graph s" "a \<in> set (flist s)"
  shows "quiet s (set_flags a (flow T s a) s)" "settled T s a"
proof -
  have k: "f_kind (frag_at s a) = kFragmentKindInst \<or> f_kind (frag_at s a) = kFragmentKindApp"
    using assms(2,3) by (cases "f_kind (frag_at s a)") (auto simp: flag_graph_def)
  have inst: "snd (flow T s a) = inst_flags (frag_at s a)"
    using assms(1) k by (auto simp: flow_changed_def flow_def Let_def split: if_splits)
  then show "quiet s (set_flags a (flow T s a) s)"
    using assms(1) k by (auto simp: quiet_def frag_at_set_flags flow_changed_def)
  show "settled T s a"
    using assms(1,3) k inst by (auto simp: settled_def flow_changed_def no_inst_def)
qed

section \<open>Rounds and the loop\<close>

definition flags_inv :: "flag_tables \<Rightarrow> frag_state \<Rightarrow> frag_state \<Rightarrow> bool" where
  "flags_inv T s0 s \<longleftrightarrow> same_but_flags s0 s \<and> growing T s \<and> sound_flags T s0 s"

lemma flag_graph_same: "same_but_flags s t \<Longrightarrow> flag_graph t = flag_graph s"
  by (simp add: flag_graph_def same_but_flags_sel same_but_flags_frag same_but_flags_graph)

lemma flags_inv_step:
  assumes "flags_inv T s0 s" "flag_graph s0" "a \<in> set (flist s0)"
  shows "flags_inv T s0 (set_flags a (flow T s a) s)" "st_le s (set_flags a (flow T s a) s)"
proof -
  have sb: "same_but_flags s0 s" using assms(1) by (simp add: flags_inv_def)
  then have a: "a \<in> set (flist s)" using assms(3) by (simp add: same_but_flags_sel)
  show "flags_inv T s0 (set_flags a (flow T s a) s)"
    using assms a sound_flow [OF sb] step_growing same_but_flags_trans [OF sb]
    by (simp add: flags_inv_def)
  show "st_le s (set_flags a (flow T s a) s)"
    using assms a step_le by (simp add: flags_inv_def)
qed

lemma flags_visits:
  assumes "flags_inv T s0 s" "flag_graph s0" "set as \<subseteq> set (flist s0)"
  shows "\<exists>t c. opt_fold (flags_visit T) as (s, c0) = Some (t, c) \<and> flags_inv T s0 t \<and> st_le s t \<and>
     (c \<longrightarrow> c0 \<or> state_wt t < state_wt s) \<and> (\<not> c \<longrightarrow> \<not> c0 \<and> quiet s t \<and> (\<forall>a\<in>set as. settled T t a))"
  using assms
proof (induction as arbitrary: s c0)
  case Nil
  then show ?case by (simp add: quiet_refl)
next
  case (Cons a as)
  let ?s = "set_flags a (flow T s a) s" and ?c = "flow_changed T s a \<or> c0"
  have a: "a \<in> set (flist s0)" and sb: "same_but_flags s0 s"
    using Cons.prems by (simp_all add: flags_inv_def)
  have a': "a \<in> set (flist s)" using a sb by (simp add: same_but_flags_sel)
  have graph: "flag_graph s" using Cons.prems(2) flag_graph_same [OF sb] by simp
  note step = flags_inv_step [OF Cons.prems(1,2) a]
  have sb1: "same_but_flags s ?s" using step(2) by (simp add: st_leD)
  have graph1: "flag_graph ?s" using graph flag_graph_same [OF sb1] by simp
  obtain t c where t: "opt_fold (flags_visit T) as (?s, ?c) = Some (t, c)" "flags_inv T s0 t" "st_le ?s t"
    "c \<longrightarrow> ?c \<or> state_wt t < state_wt ?s" "\<not> c \<longrightarrow> \<not> ?c \<and> quiet ?s t \<and> (\<forall>a\<in>set as. settled T t a)"
    using Cons.IH [OF step(1) Cons.prems(2)] Cons.prems(3) by (metis insert_subset list.set(2))
  have "f_kind (frag_at s a) \<noteq> kFragmentKindInvalid" using graph a' by (simp add: flag_graph_def)
  then have "opt_fold (flags_visit T) (a # as) (s, c0) = Some (t, c)"
    using t(1) by (simp add: flags_visit_def TryUpdateFlagsUse_flow)
  moreover have "state_wt ?s < state_wt s" if "flow_changed T s a"
    using that state_wt_less [OF step(2) a'] by (auto simp: flow_changed_def frag_at_set_flags split: if_splits)
  then have "c \<longrightarrow> c0 \<or> state_wt t < state_wt s"
    using t(4) state_wt_le [OF t(3)] state_wt_le [OF step(2)] by force
  moreover have "\<not> c0 \<and> quiet s t \<and> (\<forall>b\<in>set (a # as). settled T t b)" if "\<not> c"
  proof -
    have q: "\<not> flow_changed T s a" "\<not> c0" "quiet ?s t" "\<forall>a\<in>set as. settled T t a" using t(5) that by auto
    note u = step_unchanged [OF q(1) graph a']
    have "a \<in> set (flist ?s)" using a' same_but_flags_sel(1) [OF sb1] by simp
    then have "settled T t a"
      using settled_quiet [OF q(3) graph1] settled_quiet [OF u(1) graph a' u(2)] by simp
    then show ?thesis using q quiet_trans [OF u(1) q(3)] by simp
  qed
  ultimately show ?case using t(2) st_le_trans [OF step(2) t(3)] by blast
qed

lemma flags_loop_settles:
  assumes "flags_inv T s0 s" "flag_graph s0"
  shows "\<exists>t. flags_loop T s = Some t \<and> flags_inv T s0 t \<and> (\<forall>a\<in>set (flist s0). settled T t a)"
  using assms(1)
proof (induction "state_wt s" arbitrary: s rule: less_induct)
  case less
  have fl: "flist s = flist s0" using less.prems by (simp add: flags_inv_def same_but_flags_sel)
  obtain t c where t: "flags_round T s = Some (t, c)" "flags_inv T s0 t" "c \<longrightarrow> state_wt t < state_wt s"
    "\<not> c \<longrightarrow> (\<forall>a\<in>set (flist s0). settled T t a)"
    using flags_visits [OF less.prems assms(2), of "rev (flist s)" False] fl by (auto simp: flags_round_def)
  show ?case
  proof (cases c)
    case True
    then obtain u where "flags_loop T t = Some u" "flags_inv T s0 u" "\<forall>a\<in>set (flist s0). settled T u a"
      using less.hyps t(2,3) by blast
    then show ?thesis using True t(1) by (subst flags_loop.simps) simp
  next
    case False
    then show ?thesis using t by (subst flags_loop.simps) simp
  qed
qed

section \<open>Every live flag is found\<close>

text \<open>What the settled flags of a fragment satisfy.\<close>

lemma settled_inst:
  assumes sb: "same_but_flags s0 t" and st: "settled T t b" and k: "f_kind (frag_at s0 b) = kFragmentKindInst"
  shows "exit_live_flags (inst_flags (frag_at t b)) = lf_inst (LiveFlagsOnExit t b)"
    "bit (entry_live_flags (inst_flags (frag_at t b))) k =
       flag_transfer T k (natives s0 b) (bit (exit_live_flags (inst_flags (frag_at t b))) k)"
proof -
  note eq = same_but_flags_frag [OF sb] same_but_flags_graph [OF sb]
  have "inst_flags (frag_at t b) = visit_flags T t b (lf_inst (LiveFlagsOnExit t b)) (inst_flags (frag_at t b))"
    using st k by (simp add: settled_def flow_def Let_def eq)
  then show "exit_live_flags (inst_flags (frag_at t b)) = lf_inst (LiveFlagsOnExit t b)"
    "bit (entry_live_flags (inst_flags (frag_at t b))) k =
       flag_transfer T k (natives s0 b) (bit (exit_live_flags (inst_flags (frag_at t b))) k)"
    using visit_exit visit_entry_bit eq by metis+
qed

lemma settled_app:
  assumes sb: "same_but_flags s0 t" and st: "settled T t b" and ni: "no_inst s0"
    and graph: "flag_graph s0" and b: "b \<in> set (flist s0)"
  shows "exit_live_flags (app_flags (frag_at t b)) = lf_app (LiveFlagsOnExit t b)"
    "bit (entry_live_flags (app_flags (frag_at t b))) k =
       flag_transfer T k (natives s0 b) (bit (exit_live_flags (app_flags (frag_at t b))) k)"
    "f_kind (frag_at s0 b) = kFragmentKindApp"
proof -
  note eq = same_but_flags_frag [OF sb] same_but_flags_graph [OF sb]
  have ni': "no_inst t" using ni by (simp add: no_inst_def eq same_but_flags_sel [OF sb])
  show k: "f_kind (frag_at s0 b) = kFragmentKindApp"
    using b ni graph by (cases "f_kind (frag_at s0 b)") (auto simp: no_inst_def flag_graph_def)
  have "app_flags (frag_at t b) = visit_flags T t b (lf_app (LiveFlagsOnExit t b)) (app_flags (frag_at t b))"
    using st k ni' by (simp add: settled_def flow_def Let_def eq)
  then show "exit_live_flags (app_flags (frag_at t b)) = lf_app (LiveFlagsOnExit t b)"
    "bit (entry_live_flags (app_flags (frag_at t b))) k =
       flag_transfer T k (natives s0 b) (bit (exit_live_flags (app_flags (frag_at t b))) k)"
    using visit_exit visit_entry_bit eq by metis+
qed

lemma flag_graph_succ: "flag_graph s \<Longrightarrow> a \<in> set (flist s) \<Longrightarrow> b \<in> live_succs s a \<Longrightarrow> b \<in> set (flist s)"
  by (auto simp: flag_graph_def)

lemma flag_live_at_exit:
  assumes "flag_graph s" "b \<in> set (flist s)" "is_exit s b" "flag_live T s m k b (kind_instrs m s b)"
  shows "m = kFragmentKindApp" "bit AllArithmeticFlags k"
  using assms by (auto simp: flag_graph_def kind_instrs_def flag_live_Nil split: if_splits)

lemma complete_inst:
  assumes live: "flag_live T s0 m k a nis" and sb: "same_but_flags s0 t" and graph: "flag_graph s0"
    and st: "\<And>a. a \<in> set (flist s0) \<Longrightarrow> settled T t a"
    and "m = kFragmentKindInst" "a \<in> set (flist s0)" "f_kind (frag_at s0 a) = kFragmentKindInst"
  shows "flag_transfer T k nis (bit (exit_live_flags (inst_flags (frag_at t a))) k)"
  using live assms(5-)
proof (induction rule: flag_live.induct)
  case (live_edge a b)
  have b: "b \<in> set (flist s0)" "f_kind (frag_at s0 b) = kFragmentKindInst"
    using live_edge flag_graph_succ [OF graph] by auto
  have "bit (entry_live_flags (inst_flags (frag_at t b))) k"
    using live_edge b settled_inst [OF sb st [OF b(1)] b(2)] by (simp add: kind_instrs_def)
  moreover have "\<not> is_exit s0 b"
    using flag_live_at_exit [OF graph b(1) _ live_edge.hyps(4)] live_edge.prems(1) by auto
  ultimately show ?case
    using live_edge settled_inst(1) [OF sb st]
    by (auto simp: LiveFlagsOnExit_bit LiveFlagsOnEntry_bit same_but_flags_graph [OF sb])
qed simp_all

lemma complete_app:
  assumes live: "flag_live T s0 m k a nis" and sb: "same_but_flags s0 t" and graph: "flag_graph s0"
    and st: "\<And>a. a \<in> set (flist s0) \<Longrightarrow> settled T t a" and ni: "no_inst s0"
    and "m = kFragmentKindApp" "a \<in> set (flist s0)"
  shows "flag_transfer T k nis (bit (exit_live_flags (app_flags (frag_at t a))) k)"
  using live assms(6-)
proof (induction rule: flag_live.induct)
  case (live_exit a)
  then show ?case
    using settled_app(1) [OF sb st ni graph] by (simp add: LiveFlagsOnExit_bit same_but_flags_graph [OF sb])
next
  case (live_edge a b)
  have b: "b \<in> set (flist s0)" using live_edge flag_graph_succ [OF graph] by auto
  have "bit (entry_live_flags (app_flags (frag_at t b))) k"
    using live_edge b settled_app [OF sb st [OF b] ni graph b] by (simp add: kind_instrs_def)
  moreover have "bit AllArithmeticFlags k" if "is_exit s0 b"
    using flag_live_at_exit [OF graph b that live_edge.hyps(4)] by simp
  ultimately show ?case
    using live_edge settled_app(1) [OF sb st ni graph]
    by (auto simp: LiveFlagsOnExit_bit LiveFlagsOnEntry_bit same_but_flags_graph [OF sb])
qed simp_all

section \<open>The start\<close>

definition exit_info :: FlagUsageInfo where
  "exit_info = \<lparr>entry_live_flags = AllArithmeticFlags, exit_live_flags = AllArithmeticFlags,
     all_read_flags = AllArithmeticFlags, all_written_flags = AllArithmeticFlags\<rparr>"

lemma InitFlagsUse_frag:
  "same_but_flags s (InitFlagsUse s)"
  "app_flags (frag_at (InitFlagsUse s) a) =
     (if a \<in> set (flist s) \<and> is_exit s a then exit_info else app_flags (frag_at s a))"
  "inst_flags (frag_at (InitFlagsUse s) a) = inst_flags (frag_at s a)"
proof -
  let ?step = "\<lambda>a s. if IsA ExitFragment s (Some a) then upd_frag a (\<lambda>f. f\<lparr>app_flags := exit_info\<rparr>) s else s"
  have "same_but_flags s t \<longrightarrow> same_but_flags s (fold ?step as t) \<and>
    app_flags (frag_at (fold ?step as t) a) =
      (if a \<in> set as \<and> is_exit s a then exit_info else app_flags (frag_at t a)) \<and>
    inst_flags (frag_at (fold ?step as t) a) = inst_flags (frag_at t a)" for as t
  proof (induction as arbitrary: t)
    case (Cons b as)
    have "same_but_flags t (?step b t)"
      by (simp add: same_but_flags_def upd_frag_def)
    then have "same_but_flags s (?step b t)" if "same_but_flags s t" using that same_but_flags_trans by blast
    moreover have "is_exit t b = is_exit s b" if "same_but_flags s t" using that by (simp add: same_but_flags_graph)
    ultimately show ?case using Cons [of "?step b t"] by (auto simp: frag_at_upd_frag is_exit_def)
  qed simp
  note this [of s "rev (flist s)"]
  moreover have "InitFlagsUse s = fold ?step (rev (flist s)) s"
    unfolding InitFlagsUse_def exit_info_def ..
  ultimately show "same_but_flags s (InitFlagsUse s)"
    "app_flags (frag_at (InitFlagsUse s) a) =
       (if a \<in> set (flist s) \<and> is_exit s a then exit_info else app_flags (frag_at s a))"
    "inst_flags (frag_at (InitFlagsUse s) a) = inst_flags (frag_at s a)"
    using same_but_flags_refl by (simp_all only: set_rev)
qed

text \<open>The flags of new fragments.\<close>

definition fresh_flags :: "frag_state \<Rightarrow> bool" where
  "fresh_flags s \<longleftrightarrow> (\<forall>a\<in>set (flist s). app_flags (frag_at s a) = FlagUsageInfo_new \<and>
     inst_flags (frag_at s a) = FlagUsageInfo_new)"

lemma sound_new: "sound_info T s m a FlagUsageInfo_new"
  by (simp add: sound_info_def FlagUsageInfo_new_def)

lemma InitFlagsUse_inv:
  assumes fresh: "fresh_flags s" and graph: "flag_graph s"
  shows "flags_inv T s (InitFlagsUse s)"
proof -
  let ?t = "InitFlagsUse s"
  note sb = InitFlagsUse_frag(1) [of s] and fl = InitFlagsUse_frag(2,3) [of s]
  have inst: "inst_flags (frag_at ?t a) = FlagUsageInfo_new"
    and app: "app_flags (frag_at ?t a) = (if is_exit s a then exit_info else FlagUsageInfo_new)"
    if "a \<in> set (flist s)" for a
    using that fresh by (simp_all add: fl fresh_flags_def)
  have "info_le exit_info (fst (flow T ?t a))" if "a \<in> set (flist s)" "is_exit s a" for a
  proof -
    have "natives ?t a = []" using graph that by (simp add: flag_graph_def same_but_flags_graph [OF sb])
    moreover have "lf_app (LiveFlagsOnExit ?t a) = AllArithmeticFlags"
      using that by (intro bit_eqI) (simp add: LiveFlagsOnExit_bit same_but_flags_graph [OF sb])
    ultimately show ?thesis
      using app that by (simp add: flow_def Let_def visit_flags_def info_le_def exit_info_def flags_sub_or)
  qed
  then have "growing T ?t" using app inst by (simp add: growing_def same_but_flags_sel [OF sb])
  moreover have "sound_info T s kFragmentKindApp a exit_info" if "a \<in> set (flist s)" "is_exit s a" for a
    using that graph
    by (simp add: sound_info_def exit_info_def flag_live_on_entry_def kind_instrs_def flag_graph_def live_exit)
  then have "sound_flags T s ?t" using app inst sound_new by (simp add: sound_flags_def) (simp add: FlagUsageInfo_new_def)
  ultimately show ?thesis using sb by (simp add: flags_inv_def)
qed

section \<open>Properties\<close>

text \<open>C24: the analysis of the flags returns, whatever the tables say of the instructions, and changes
  nothing but the flags.  In instrumentation fragments it finds exactly the instrumentation flags
  that are live on entry: those that some path through instrumentation code reads before it
  writes them.  No application flag is found live that is not, and in a list without
  instrumentation fragments exactly the live ones are found.\<close>

theorem AnalyzeFlagsUse_live:
  assumes "flag_graph s" "fresh_flags s"
  shows "\<exists>t. AnalyzeFlagsUse T s = Some t \<and> same_but_flags s t \<and> (\<forall>a\<in>set (flist s). \<forall>k.
     (f_kind (frag_at s a) = kFragmentKindInst \<longrightarrow>
        bit (entry_live_flags (inst_flags (frag_at t a))) k = flag_live_on_entry T s kFragmentKindInst k a) \<and>
     (bit (entry_live_flags (app_flags (frag_at t a))) k \<longrightarrow> flag_live_on_entry T s kFragmentKindApp k a) \<and>
     (no_inst s \<longrightarrow>
        bit (entry_live_flags (app_flags (frag_at t a))) k = flag_live_on_entry T s kFragmentKindApp k a))"
proof -
  obtain t where t: "flags_loop T (InitFlagsUse s) = Some t" "flags_inv T s t" "\<forall>a\<in>set (flist s). settled T t a"
    using flags_loop_settles [OF InitFlagsUse_inv [OF assms(2,1)] assms(1)] by blast
  have sb: "same_but_flags s t" and snd: "sound_flags T s t" using t(2) by (simp_all add: flags_inv_def)
  have app: "flag_live_on_entry T s kFragmentKindApp k a"
    if "a \<in> set (flist s)" "bit (entry_live_flags (app_flags (frag_at t a))) k" for a k
    using that snd by (auto simp: sound_flags_def sound_info_def)
  have inst: "bit (entry_live_flags (inst_flags (frag_at t a))) k = flag_live_on_entry T s kFragmentKindInst k a"
    if a: "a \<in> set (flist s)" and k: "f_kind (frag_at s a) = kFragmentKindInst" for a k
    using complete_inst [OF _ sb assms(1), where T = T and k = k] t(3) settled_inst(2) [OF sb _ k] snd a k
    by (auto simp: sound_flags_def sound_info_def flag_live_on_entry_def kind_instrs_def)
  have app': "bit (entry_live_flags (app_flags (frag_at t a))) k"
    if a: "a \<in> set (flist s)" and n: "no_inst s" and l: "flag_live_on_entry T s kFragmentKindApp k a" for a k
    using complete_app [OF _ sb assms(1) _ n, where T = T and k = k] t(3)
      settled_app(2,3) [OF sb _ n assms(1) a] l a
    by (auto simp: flag_live_on_entry_def kind_instrs_def)
  have "AnalyzeFlagsUse T s = Some t" using t(1) by (simp add: AnalyzeFlagsUse_def)
  then show ?thesis using sb app inst app' by blast
qed

text \<open>A list in which control goes against the order of the list: fragment 4, application code, to
  the instrumentation fragment 3, to fragment 2, application code that reads the zero flag.\<close>

definition zf_tables :: flag_tables where
  "zf_tables = \<lparr>form_read = (\<lambda>i. if i = 1 then ZF else 0), form_written = (\<lambda>i. if i = 2 then 0xFFFFFFFF else 0),
     is_conditional_write = (\<lambda>_. False)\<rparr>"

definition plain_instr :: "nat \<Rightarrow> NativeInstruction" where
  "plain_instr i = Instruction_new\<lparr>iform := i, category := XED_CATEGORY_OTHER\<rparr>"

definition kind_frag :: "FragmentKind \<Rightarrow> nat option \<Rightarrow> nat list \<Rightarrow> FlagUsageInfo \<Rightarrow> Fragment" where
  "kind_frag k p is fl =
     (Fragment_new CodeFragment)\<lparr>f_kind := k, succ_fall := p, f_instrs := is, app_flags := fl\<rparr>"

definition backward_frags :: "FlagUsageInfo \<Rightarrow> FlagUsageInfo \<Rightarrow> FlagUsageInfo \<Rightarrow> frag_state" where
  "backward_frags x i y =
     \<lparr>frag_at = (\<lambda>_. Fragment_new CodeFragment)(2 := kind_frag kFragmentKindApp None [0] x,
        3 := kind_frag kFragmentKindInst (Some 2) [] i, 4 := kind_frag kFragmentKindApp (Some 3) [] y),
      instr_at = (\<lambda>_. Native (plain_instr 1)), flist = [2, 3, 4], next_frag = 5, next_instr = 1,
      parts = singletons (\<lambda>_. None), zones = singletons (\<lambda>_. FlagZone_new),
      info_at = (\<lambda>_. PartitionInfo_new 0), next_info = 0\<rparr>"

lemmas backward_simps = backward_frags_def kind_frag_def Fragment_new_def IsA_def IsDerivedFrom_def

lemma backward_facts:
  "natives (backward_frags x i y) a = (if a = 2 then [plain_instr 1] else [])"
  "branches_always (backward_frags x i y) a = False"
  "IsA ExitFragment (backward_frags x i y) p = False"
  by (simp_all add: natives_def branches_always_def backward_simps native_at_def List.map_filter_def split: option.split)

lemma backward_get:
  "f_kind (frag_at (backward_frags x i y) 2) = kFragmentKindApp"
  "f_kind (frag_at (backward_frags x i y) 3) = kFragmentKindInst"
  "f_kind (frag_at (backward_frags x i y) 4) = kFragmentKindApp"
  "app_flags (frag_at (backward_frags x i y) 2) = x" "app_flags (frag_at (backward_frags x i y) 3) = i"
  "app_flags (frag_at (backward_frags x i y) 4) = y" "flist (backward_frags x i y) = [2, 3, 4]"
  "inst_flags (frag_at (backward_frags x i y) a) = FlagUsageInfo_new"
  by (simp_all add: backward_simps)

lemma backward_exit:
  "LiveFlagsOnExit (backward_frags x i y) 2 = \<lparr>lf_app = 0, lf_inst = 0\<rparr>"
  "LiveFlagsOnExit (backward_frags x i y) 3 = \<lparr>lf_app = entry_live_flags x, lf_inst = 0\<rparr>"
  "LiveFlagsOnExit (backward_frags x i y) 4 = \<lparr>lf_app = entry_live_flags i, lf_inst = 0\<rparr>"
  by (simp_all add: LiveFlagsOnExit_def LiveFlagsOnEntry_def backward_facts Let_def)
    (simp_all add: backward_simps FlagUsageInfo_new_def)

lemma backward_set:
  "set_flags 2 (z, FlagUsageInfo_new) (backward_frags x i y) = backward_frags z i y"
  "set_flags 3 (z, FlagUsageInfo_new) (backward_frags x i y) = backward_frags x z y"
  "set_flags 4 (z, FlagUsageInfo_new) (backward_frags x i y) = backward_frags x i z"
  by (simp_all add: set_flags_def upd_frag_def backward_simps fun_eq_iff)

definition read_info :: "FlagUsageInfo \<Rightarrow> FlagUsageInfo" where
  "read_info x = x\<lparr>entry_live_flags := ZF, exit_live_flags := 0, all_read_flags := all_read_flags x OR ZF\<rparr>"

definition pass_info :: "u32 \<Rightarrow> FlagUsageInfo \<Rightarrow> FlagUsageInfo" where
  "pass_info w y = y\<lparr>entry_live_flags := w, exit_live_flags := w\<rparr>"

lemma backward_flow:
  "flow zf_tables (backward_frags x i y) 2 = (read_info x, FlagUsageInfo_new)"
  "flow zf_tables (backward_frags x i y) 3 =
     (i\<lparr>entry_live_flags := entry_live_flags i OR entry_live_flags x,
        exit_live_flags := exit_live_flags i OR entry_live_flags x\<rparr>, FlagUsageInfo_new)"
  "flow zf_tables (backward_frags x i y) 4 = (pass_info (entry_live_flags i) y, FlagUsageInfo_new)"
  by (simp_all add: flow_def Let_def backward_get backward_exit visit_flags_def backward_facts pass_info_def
      read_info_def FlagUsageInfo_new_def VisitInstructionFlags_def zf_tables_def plain_instr_def Instruction_new_def granary_simps)

lemma backward_round:
  "flags_round zf_tables (backward_frags x i y) =
     Some (backward_frags (read_info x)
             (i\<lparr>entry_live_flags := entry_live_flags i OR entry_live_flags x,
                exit_live_flags := exit_live_flags i OR entry_live_flags x\<rparr>)
             (pass_info (entry_live_flags i) y),
           x \<noteq> read_info x \<or> y \<noteq> pass_info (entry_live_flags i) y)"
  by (simp add: flags_round_def flags_visit_def TryUpdateFlagsUse_flow backward_get backward_flow backward_set
      flow_changed_def disj_commute)

abbreviation backward_start :: frag_state where
  "backward_start \<equiv> backward_frags FlagUsageInfo_new FlagUsageInfo_new FlagUsageInfo_new"

lemma backward_succs: "live_succs (backward_frags x i y) a = (if a = 3 then {2} else if a = 4 then {3} else {})"
  by (simp add: live_succs_def backward_facts) (auto simp: backward_simps)

lemma backward_graph: "flag_graph backward_start" "fresh_flags backward_start"
  by (simp_all add: flag_graph_def fresh_flags_def backward_get backward_succs is_exit_def backward_facts)

theorem AnalyzeFlagsUse_live_witness:
  "\<exists>t. AnalyzeFlagsUse zf_tables backward_start = Some t \<and>
     \<not> bit (entry_live_flags (inst_flags (frag_at t 3))) 6"
proof -
  have three: "3 \<in> set (flist backward_start)" "f_kind (frag_at backward_start 3) = kFragmentKindInst"
    by (simp_all add: backward_get)
  obtain t where t: "AnalyzeFlagsUse zf_tables backward_start = Some t"
    "bit (entry_live_flags (inst_flags (frag_at t 3))) 6 =
       flag_live_on_entry zf_tables backward_start kFragmentKindInst 6 3"
    using AnalyzeFlagsUse_live [OF backward_graph, of zf_tables] three by blast
  have "\<not> flag_live_on_entry zf_tables backward_start kFragmentKindInst 6 3"
    by (simp add: flag_live_on_entry_def kind_instrs_def backward_facts flag_live_Nil backward_succs backward_get)
  then show ?thesis using t by auto
qed

text \<open>a change of the application flags of an instrumentation fragment does not count as a change,
  so the analysis can stop before it has reached the fragments in front of it: here the zero flag
  is live on entry to fragment 4, which is not found.\<close>

theorem AnalyzeFlagsUse_misses_flag:
  "flag_graph backward_start \<and> fresh_flags backward_start \<and>
   flag_live_on_entry zf_tables backward_start kFragmentKindApp 6 4 \<and>
   (\<exists>t. AnalyzeFlagsUse zf_tables backward_start = Some t \<and>
     \<not> bit (entry_live_flags (app_flags (frag_at t 4))) 6)"
proof -
  let ?n = FlagUsageInfo_new
  let ?x = "read_info ?n" and ?i = "?n\<lparr>entry_live_flags := ZF, exit_live_flags := ZF\<rparr>"
  have live: "flag_live zf_tables backward_start kFragmentKindApp 6 2 [plain_instr 1]"
    by (rule live_use) (simp add: uses_flag_def rep_flags_def plain_instr_def Instruction_new_def zf_tables_def granary_simps bit_simps)
  have "flag_live_on_entry zf_tables backward_start kFragmentKindApp 6 4"
    using live by (simp add: flag_live_on_entry_def kind_instrs_def backward_facts flag_live_Nil backward_succs
        backward_get is_exit_def)
  moreover have "InitFlagsUse backward_start = backward_start"
    by (simp add: InitFlagsUse_def backward_get backward_facts)
  moreover have "?x \<noteq> ?n" "read_info ?x = ?x"
    by (simp_all add: read_info_def FlagUsageInfo_new_def granary_simps)
  then have r1: "flags_round zf_tables backward_start = Some (backward_frags ?x ?n ?n, True)"
    and r2: "flags_round zf_tables (backward_frags ?x ?n ?n) = Some (backward_frags ?x ?i ?n, False)"
    by (simp_all add: backward_round pass_info_def) (simp_all add: read_info_def FlagUsageInfo_new_def)
  have "flags_loop zf_tables backward_start = Some (backward_frags ?x ?i ?n)"
    by (subst flags_loop.simps, simp add: r1, subst flags_loop.simps, simp add: r2)
  ultimately show ?thesis using backward_graph by (simp add: AnalyzeFlagsUse_def backward_get) (simp add: FlagUsageInfo_new_def)
qed

section \<open>Kinds and zones\<close>

lemma copy_kind_frag:
  "\<exists>k. \<forall>b. frag_at (copy_kind a s) b = (if b = a then (frag_at s a)\<lparr>f_kind := k\<rparr> else frag_at s b)"
proof -
  let ?copy = "\<lambda>b s. upd_frag a (\<lambda>f. f\<lparr>f_kind := f_kind (frag_at s b)\<rparr>) s"
  have "\<exists>k. \<forall>b. frag_at (fold ?copy bs s) b = (if b = a then (frag_at s a)\<lparr>f_kind := k\<rparr> else frag_at s b)" for bs
  proof (induction bs arbitrary: s)
    case Nil
    show ?case by (intro exI [of _ "f_kind (frag_at s a)"]) simp
  next
    case (Cons b bs)
    obtain k where "\<forall>c. frag_at (fold ?copy bs (?copy b s)) c =
      (if c = a then (frag_at (?copy b s) a)\<lparr>f_kind := k\<rparr> else frag_at (?copy b s) c)"
      using Cons [of "?copy b s"] by blast
    then show ?case by (intro exI [of _ k]) (simp add: frag_at_upd_frag)
  qed
  then show ?thesis unfolding copy_kind_def .
qed

text \<open>A visited fragment has a kind, which is the one it had if it had one; the others are as they
  were.\<close>

lemma PropagateFragKind_frag:
  "f_kind (frag_at (PropagateFragKind a s) a) \<noteq> kFragmentKindInvalid"
  "f_kind (frag_at s b) \<noteq> kFragmentKindInvalid \<or> b \<noteq> a \<Longrightarrow> frag_at (PropagateFragKind a s) b = frag_at s b"
proof -
  obtain k where k: "\<forall>b. frag_at (copy_kind a s) b = (if b = a then (frag_at s a)\<lparr>f_kind := k\<rparr> else frag_at s b)"
    using copy_kind_frag by blast
  show "f_kind (frag_at (PropagateFragKind a s) a) \<noteq> kFragmentKindInvalid"
    by (simp add: PropagateFragKind_def Let_def frag_at_upd_frag)
  show "f_kind (frag_at s b) \<noteq> kFragmentKindInvalid \<or> b \<noteq> a \<Longrightarrow> frag_at (PropagateFragKind a s) b = frag_at s b"
    using k by (auto simp: PropagateFragKind_def Let_def frag_at_upd_frag)
qed

lemma PropagateFragKinds_decides:
  "a \<in> set (flist s) \<Longrightarrow> f_kind (frag_at (PropagateFragKinds s) a) \<noteq> kFragmentKindInvalid"
  "f_kind (frag_at s a) \<noteq> kFragmentKindInvalid \<Longrightarrow> frag_at (PropagateFragKinds s) a = frag_at s a"
proof -
  have keep: "f_kind (frag_at s a) \<noteq> kFragmentKindInvalid \<Longrightarrow> frag_at (fold PropagateFragKind as s) a = frag_at s a"
    for as s by (induction as arbitrary: s) (simp_all add: PropagateFragKind_frag)
  then show "f_kind (frag_at s a) \<noteq> kFragmentKindInvalid \<Longrightarrow> frag_at (PropagateFragKinds s) a = frag_at s a"
    by (simp add: PropagateFragKinds_def)
  have "a \<in> set as \<Longrightarrow> f_kind (frag_at (fold PropagateFragKind as s) a) \<noteq> kFragmentKindInvalid" for as
    by (induction as arbitrary: s) (auto simp: keep PropagateFragKind_frag)
  then show "a \<in> set (flist s) \<Longrightarrow> f_kind (frag_at (PropagateFragKinds s) a) \<noteq> kFragmentKindInvalid"
    by (simp add: PropagateFragKinds_def)
qed

definition zone_value :: "frag_state \<Rightarrow> nat \<Rightarrow> FlagZone" where
  "zone_value s a = ds_value (zones s) (root (zones s) a)"

definition modifies_flags_ok :: "frag_state \<Rightarrow> nat \<Rightarrow> bool" where
  "modifies_flags_ok s a \<longleftrightarrow> (f_kind (frag_at s a) = kFragmentKindInst \<and> is_code s a \<longrightarrow>
     modifies_flags (attr (frag_at s a)) = (all_written_flags (inst_flags (frag_at s a)) \<noteq> 0))"

lemma sets_value_update [simp]:
  "root (zs\<lparr>ds_value := v\<rparr>) = root zs" "forest (zs\<lparr>ds_value := v\<rparr>) = forest zs"
  by (auto simp: root_def forest_def fun_eq_iff)

text \<open>One fragment's contribution to its zone.\<close>

lemma UpdateFlagZone_value:
  assumes f: "forest (zones s)" and ok: "modifies_flags_ok s a"
  shows "\<exists>t. UpdateFlagZone a s = Some t \<and> frag_at t = frag_at s \<and> flist t = flist s \<and> forest (zones t) \<and>
     root (zones t) = root (zones s) \<and>
     zone_value t b = (let z = zone_value s b; f = frag_at s a in
       if f_kind f = kFragmentKindInst \<and> root (zones s) a = root (zones s) b
       then \<lparr>killed_flags = killed_flags z OR all_written_flags (inst_flags f),
             live_flags = live_flags z OR exit_live_flags (app_flags f)\<rparr>
       else z)"
proof (cases "f_kind (frag_at s a) = kFragmentKindInst")
  case False
  then show ?thesis using f by (simp add: UpdateFlagZone_def)
next
  case True
  obtain zs where zs: "Find (zones s) a = Some (zs, root (zones s) a)" "forest zs" "root zs = root (zones s)"
    "ds_value zs = ds_value (zones s)"
    by (rule Find_correct [OF f])
  have "\<not> (is_code s a \<and> modifies_flags (attr (frag_at s a)) \<noteq> (all_written_flags (inst_flags (frag_at s a)) \<noteq> 0))"
    using ok True by (auto simp: modifies_flags_ok_def)
  then show ?thesis using True zs by (auto simp: UpdateFlagZone_def Let_def zone_value_def)
qed

lemma UpdateFlagZones_fold:
  assumes "forest (zones s)" "\<And>a. a \<in> set as \<Longrightarrow> modifies_flags_ok s a"
  shows "\<exists>t. opt_fold UpdateFlagZone as s = Some t \<and> frag_at t = frag_at s \<and> forest (zones t) \<and>
     root (zones t) = root (zones s) \<and> (\<forall>b k.
       bit (killed_flags (zone_value t b)) k = (bit (killed_flags (zone_value s b)) k \<or>
         (\<exists>a\<in>set as. f_kind (frag_at s a) = kFragmentKindInst \<and> root (zones s) a = root (zones s) b \<and>
            bit (all_written_flags (inst_flags (frag_at s a))) k)) \<and>
       bit (live_flags (zone_value t b)) k = (bit (live_flags (zone_value s b)) k \<or>
         (\<exists>a\<in>set as. f_kind (frag_at s a) = kFragmentKindInst \<and> root (zones s) a = root (zones s) b \<and>
            bit (exit_live_flags (app_flags (frag_at s a))) k)))"
  using assms
proof (induction as arbitrary: s)
  case Nil
  then show ?case by simp
next
  case (Cons a as)
  have ok: "modifies_flags_ok s a" using Cons.prems by simp
  obtain s1 where s1: "UpdateFlagZone a s = Some s1" "frag_at s1 = frag_at s" "forest (zones s1)"
    "root (zones s1) = root (zones s)"
    using UpdateFlagZone_value [OF Cons.prems(1) ok] by blast
  have v: "zone_value s1 b = (let z = zone_value s b; f = frag_at s a in
       if f_kind f = kFragmentKindInst \<and> root (zones s) a = root (zones s) b
       then \<lparr>killed_flags = killed_flags z OR all_written_flags (inst_flags f),
             live_flags = live_flags z OR exit_live_flags (app_flags f)\<rparr>
       else z)" for b
    using UpdateFlagZone_value [OF Cons.prems(1) ok, of b] s1(1) by auto
  have "modifies_flags_ok s1 b" if "b \<in> set as" for b
    using Cons.prems(2) [of b] that s1(2) by (simp add: modifies_flags_ok_def is_code_iff)
  then obtain t where "opt_fold UpdateFlagZone as s1 = Some t" "frag_at t = frag_at s1 \<and> forest (zones t) \<and>
     root (zones t) = root (zones s1) \<and> (\<forall>b k.
       bit (killed_flags (zone_value t b)) k = (bit (killed_flags (zone_value s1 b)) k \<or>
         (\<exists>a\<in>set as. f_kind (frag_at s1 a) = kFragmentKindInst \<and> root (zones s1) a = root (zones s1) b \<and>
            bit (all_written_flags (inst_flags (frag_at s1 a))) k)) \<and>
       bit (live_flags (zone_value t b)) k = (bit (live_flags (zone_value s1 b)) k \<or>
         (\<exists>a\<in>set as. f_kind (frag_at s1 a) = kFragmentKindInst \<and> root (zones s1) a = root (zones s1) b \<and>
            bit (exit_live_flags (app_flags (frag_at s1 a))) k)))"
    using Cons.IH [OF s1(3)] by blast
  then show ?case using s1 by (auto simp: v Let_def bit_or_iff)
qed

text \<open>after the zones are updated, the killed flags of a fragment's zone are those that were
  killed in it before and those written by an instrumentation fragment of the zone, and its live
  flags are those that were live and the application flags live on exit from such a fragment;
  which fragments share a zone does not change.\<close>

theorem flag_zone_values:
  assumes "forest (zones s)" "list_all (modifies_flags_ok s) (flist s)"
  shows "\<exists>t. UpdateFlagZones s = Some t \<and> same_set (zones t) = same_set (zones s) \<and> (\<forall>b k.
     bit (killed_flags (zone_value t b)) k = (bit (killed_flags (zone_value s b)) k \<or>
       list_ex (\<lambda>a. f_kind (frag_at s a) = kFragmentKindInst \<and> same_set (zones s) a b \<and>
          bit (all_written_flags (inst_flags (frag_at s a))) k) (flist s)) \<and>
     bit (live_flags (zone_value t b)) k = (bit (live_flags (zone_value s b)) k \<or>
       list_ex (\<lambda>a. f_kind (frag_at s a) = kFragmentKindInst \<and> same_set (zones s) a b \<and>
          bit (exit_live_flags (app_flags (frag_at s a))) k) (flist s)))"
proof -
  obtain t where t: "UpdateFlagZones s = Some t" "forest (zones t)" "root (zones t) = root (zones s)"
    "\<forall>b k. bit (killed_flags (zone_value t b)) k = (bit (killed_flags (zone_value s b)) k \<or>
         (\<exists>a\<in>set (flist s). f_kind (frag_at s a) = kFragmentKindInst \<and> root (zones s) a = root (zones s) b \<and>
            bit (all_written_flags (inst_flags (frag_at s a))) k)) \<and>
       bit (live_flags (zone_value t b)) k = (bit (live_flags (zone_value s b)) k \<or>
         (\<exists>a\<in>set (flist s). f_kind (frag_at s a) = kFragmentKindInst \<and> root (zones s) a = root (zones s) b \<and>
            bit (exit_live_flags (app_flags (frag_at s a))) k))"
    using UpdateFlagZones_fold [OF assms(1), of "flist s"] assms(2)
    unfolding UpdateFlagZones_def list_all_iff by blast
  have "same_set (zones t) = same_set (zones s)" using t(2,3) assms(1) by (intro ext) (simp add: same_set_iff)
  then show ?thesis
    using t(1,4) unfolding list_ex_iff same_set_iff [OF assms(1)] by (intro exI [of _ t] conjI)
qed

theorem flag_zone_values_witness:
  "\<exists>t. UpdateFlagZones (backward_frags FlagUsageInfo_new (pass_info ZF FlagUsageInfo_new) FlagUsageInfo_new) = Some t \<and>
     bit (live_flags (zone_value t 3)) 6"
proof -
  let ?s = "backward_frags FlagUsageInfo_new (pass_info ZF FlagUsageInfo_new) FlagUsageInfo_new"
  have "forest (zones ?s)" by (simp add: backward_simps singletons_forest)
  moreover have "list_all (modifies_flags_ok ?s) (flist ?s)"
    by (simp add: backward_get modifies_flags_ok_def)
      (simp add: backward_simps CodeAttributes_new_def FlagUsageInfo_new_def)
  moreover have "same_set (zones ?s) 3 3" by (simp add: backward_simps singletons_forest)
  then have "list_ex (\<lambda>a. f_kind (frag_at ?s a) = kFragmentKindInst \<and> same_set (zones ?s) a 3 \<and>
          bit (exit_live_flags (app_flags (frag_at ?s a))) 6) (flist ?s)"
    by (simp add: backward_get pass_info_def granary_simps bit_simps)
  ultimately show ?thesis using flag_zone_values [of ?s] by blast
qed

end
