(* ===== verification/Entry_Exit.thy ===== *)
theory Entry_Exit
  imports Flags
begin

text \<open>
  The second half of \<^verbatim>\<open>granary/code/assemble/4_add_entry_exit_fragments.cc\<close>: fragments are put
  on the edges that enter and leave partitions and flag zones, partitions are labelled, and the
  kinds of code caches are propagated.

  The tests on an edge compare union-find sets, which compresses paths, so they return a state as
  well.  \<^const>\<open>None\<close> is a failed assertion, or a loop running forever.
\<close>

section \<open>Which edges need a fragment\<close>

type_synonym edge_test = "nat \<Rightarrow> nat \<Rightarrow> frag_state \<Rightarrow> (frag_state \<times> bool) option"

definition same_partition :: edge_test where
  "same_partition a b s = map_option (\<lambda>(ps, same). (s\<lparr>parts := ps\<rparr>, same)) (set_eq (parts s) a b)"

definition same_zone :: edge_test where
  "same_zone a b s = map_option (\<lambda>(zs, same). (s\<lparr>zones := zs\<rparr>, same)) (set_eq (zones s) a b)"

definition IsFlagEntry :: edge_test where
  "IsFlagEntry cur nxt s =
     (if IsA FlagEntryFragment s (Some cur) \<or> IsA FlagEntryFragment s (Some nxt) then Some (s, False)
      else Option.bind (same_partition cur nxt s) (\<lambda>(s1, same).
        if \<not> same then Some (s1, False)
        else Option.bind (same_zone cur nxt s1) (\<lambda>(s2, same).
          if same then Some (s2, False) else IsFlagInstCode nxt s2)))"

definition IsFlagExit :: edge_test where
  "IsFlagExit cur nxt s =
     (if IsA FlagExitFragment s (Some cur) \<or> IsA FlagExitFragment s (Some nxt) then Some (s, False)
      else Option.bind (same_partition cur nxt s) (\<lambda>(s1, same).
        if \<not> same then Some (s1, False)
        else Option.bind (same_zone cur nxt s1) (\<lambda>(s2, same).
          if same then Some (s2, False) else IsFlagInstCode cur s2)))"

definition IsPartitionEntry :: edge_test where
  "IsPartitionEntry cur nxt s =
     (if IsA PartitionEntryFragment s (Some cur) \<or> IsA PartitionEntryFragment s (Some nxt) \<or>
         IsA ExitFragment s (Some nxt)
      then Some (s, False)
      else if IsA NonLocalEntryFragment s (Some cur)
      then Some (s, \<not> is_cfi s (branch_instr (frag_at s nxt)))
      else if \<not> (is_code s cur \<and> is_code s nxt) then None
      else if is_cfi s (branch_instr (frag_at s nxt)) then Some (s, False)
      else map_option (\<lambda>(s', same). (s', \<not> same)) (same_partition cur nxt s))"

definition IsPartitionExit :: edge_test where
  "IsPartitionExit cur nxt s =
     (if IsA PartitionExitFragment s (Some cur) \<or> IsA PartitionExitFragment s (Some nxt) \<or>
         IsA PartitionEntryFragment s (Some cur) \<or> is_cfi s (branch_instr (frag_at s cur))
      then Some (s, False)
      else map_option (\<lambda>(s', same). (s', \<not> same)) (same_partition cur nxt s))"

section \<open>Adding fragments\<close>

definition ResetEntryExitFrag :: "frag_state \<Rightarrow> frag_state" where
  "ResetEntryExitFrag s = fold (\<lambda>a. upd_frag a (\<lambda>f. f\<lparr>entry_exit_frag := None\<rparr>)) (flist s) s"

definition MakeFragment :: "frag_class \<Rightarrow> nat \<Rightarrow> nat \<Rightarrow> frag_state \<Rightarrow> (frag_state \<times> nat) option" where
  "MakeFragment T inherit succ s =
     (let (frag, s1) = alloc_frag T s; i = frag_at s1 inherit;
          s2 = upd_frag frag (\<lambda>f. f\<lparr>block_meta := block_meta i, f_kind := kFragmentKindInst,
                 f_cache := f_cache i, stack_status := stack_status i, succ_fall := Some succ\<rparr>) s1
      in Option.bind (Union None (parts s2) frag inherit) (\<lambda>ps.
         Option.bind (if T \<noteq> PartitionEntryFragment \<and> T \<noteq> PartitionExitFragment
                      then Union FlagZone_new (zones s2) frag inherit else Some (zones s2)) (\<lambda>zs.
           let live = entry_live_flags (app_flags (frag_at s2 succ)) in
           Some (upd_frag frag (\<lambda>f. f\<lparr>app_flags := (app_flags f)\<lparr>exit_live_flags := live, entry_live_flags := live\<rparr>\<rparr>)
                   (s2\<lparr>parts := ps, zones := zs\<rparr>), frag))))"

text \<open>The two functions that put a fragment on an edge differ in the fragment whose partition the
  new one joins: the source for exits, the target for entries.\<close>

definition place_frag ::
    "frag_class \<Rightarrow> nat \<Rightarrow> nat \<Rightarrow> succ_sel \<Rightarrow> nat \<Rightarrow> frag_state \<Rightarrow> frag_state option" where
  "place_frag T own cur sel succ s =
     Option.bind (MakeFragment T own succ s) (\<lambda>(s1, frag).
       let s2 = s1\<lparr>flist := insert_after cur frag (flist s1)\<rparr>;
           s3 = upd_frag cur (set_succ sel (Some frag)) s2
       in Some (upd_frag succ (\<lambda>f. f\<lparr>entry_exit_frag := Some frag\<rparr>) s3))"

definition add_on_edge ::
    "(nat \<Rightarrow> nat \<Rightarrow> nat) \<Rightarrow> edge_test \<Rightarrow> frag_class \<Rightarrow> nat \<Rightarrow> succ_sel \<Rightarrow> frag_state \<Rightarrow> frag_state option" where
  "add_on_edge owner is_end T cur sel s =
     (case get_succ sel (frag_at s cur) of None \<Rightarrow> Some s
      | Some succ \<Rightarrow>
          Option.bind (is_end cur succ s) (\<lambda>(s1, crosses).
            if \<not> crosses then Some s1
            else let own = owner cur succ in
                 case entry_exit_frag (frag_at s1 succ) of None \<Rightarrow> place_frag T own cur sel succ s1
                 | Some back_link \<Rightarrow>
                     Option.bind (same_partition own back_link s1) (\<lambda>(s2, same).
                       if same then Some (upd_frag cur (set_succ sel (Some back_link)) s2)
                       else place_frag T own cur sel succ s2)))"

definition AddExitFragment ::
    "edge_test \<Rightarrow> frag_class \<Rightarrow> nat \<Rightarrow> succ_sel \<Rightarrow> frag_state \<Rightarrow> frag_state option" where
  "AddExitFragment = add_on_edge (\<lambda>cur succ. cur)"

definition AddEntryFragment ::
    "edge_test \<Rightarrow> frag_class \<Rightarrow> nat \<Rightarrow> succ_sel \<Rightarrow> frag_state \<Rightarrow> frag_state option" where
  "AddEntryFragment = add_on_edge (\<lambda>cur succ. succ)"

text \<open>A walk over the list while it grows: the iterator follows the links of the fragment it is
  at.\<close>

fun next_in :: "nat \<Rightarrow> nat list \<Rightarrow> nat option" where
  "next_in a (x # y # zs) = (if x = a then Some y else next_in a (y # zs))"
| "next_in a _ = None"

definition first_in :: "nat list \<Rightarrow> nat option" where
  "first_in xs = (case xs of [] \<Rightarrow> None | x # _ \<Rightarrow> Some x)"

partial_function (option) walk_frags ::
    "(nat \<Rightarrow> frag_state \<Rightarrow> frag_state option) \<Rightarrow> nat option \<Rightarrow> frag_state \<Rightarrow> frag_state option" where
  "walk_frags visit p s =
     (case p of None \<Rightarrow> Some s
      | Some a \<Rightarrow> Option.bind (visit a s) (\<lambda>s'. walk_frags visit (next_in a (flist s')) s'))"

definition AddExitFragments :: "edge_test \<Rightarrow> frag_class \<Rightarrow> frag_state \<Rightarrow> frag_state option" where
  "AddExitFragments is_end T s =
     (let s1 = ResetEntryExitFrag s in
      walk_frags (\<lambda>a s. Option.bind (AddExitFragment is_end T a kFragSuccFallThrough s)
                                   (AddExitFragment is_end T a kFragSuccBranch))
        (first_in (flist s1)) s1)"

definition AddEntryFragments :: "edge_test \<Rightarrow> frag_class \<Rightarrow> frag_state \<Rightarrow> frag_state option" where
  "AddEntryFragments is_end T s =
     walk_frags (\<lambda>a s. Option.bind (AddEntryFragment is_end T a kFragSuccFallThrough s)
                                  (AddEntryFragment is_end T a kFragSuccBranch))
       (first_in (flist s)) s"

section \<open>Labels and code caches\<close>

definition LabelPartition :: "nat \<Rightarrow> frag_state \<times> nat \<Rightarrow> (frag_state \<times> nat) option" where
  "LabelPartition a = (\<lambda>(s, next_id).
     Option.bind (Find (parts s) a) (\<lambda>(ps, r).
       let (s1, next_id') =
             (case ds_value ps r of
                Some _ \<Rightarrow> (s\<lparr>parts := ps\<rparr>, next_id)
              | None \<Rightarrow> (s\<lparr>parts := ps\<lparr>ds_value := (ds_value ps)(r := Some (next_info s))\<rparr>,
                          info_at := (info_at s)(next_info s := PartitionInfo_new (next_id + 1)),
                          next_info := next_info s + 1\<rparr>, next_id + 1));
           s2 = fold (\<lambda>p s. case p of None \<Rightarrow> s
                       | Some b \<Rightarrow> upd_frag b (\<lambda>f. f\<lparr>num_predecessors := num_predecessors f + 1\<rparr>) s)
                  (successors (frag_at s1 a)) s1;
           s3 = (if IsA PartitionEntryFragment s2 (Some a)
                 then case succ_fall (frag_at s2 a) of None \<Rightarrow> s2
                      | Some b \<Rightarrow> if is_code s2 b
                          then upd_frag b (\<lambda>f. f\<lparr>attr := (attr f)\<lparr>follows_partition_entrypoint := True\<rparr>\<rparr>) s2
                          else s2
                 else s2)
       in Some (s3, next_id')))"

definition LabelPartitions :: "frag_state \<Rightarrow> frag_state option" where
  "LabelPartitions s = map_option fst (opt_fold LabelPartition (flist s) (s, 0))"

definition PropagateCodeCacheKind :: "nat \<Rightarrow> nat option \<Rightarrow> frag_state \<Rightarrow> frag_state" where
  "PropagateCodeCacheKind a p s =
     (case p of None \<Rightarrow> s
      | Some b \<Rightarrow>
          if 1 \<ge> num_predecessors (frag_at s b) \<and> f_cache (frag_at s a) = f_cache (frag_at s b)
          then upd_frag b (\<lambda>f. f\<lparr>f_cache := f_cache (frag_at s a)\<rparr>) s else s)"

definition PropagateCodeCacheKinds :: "frag_state \<Rightarrow> frag_state" where
  "PropagateCodeCacheKinds s =
     fold (\<lambda>a s. fold (PropagateCodeCacheKind a) (successors (frag_at s a)) s) (flist s) s"

text \<open>An empty list has no first fragment.\<close>

definition AddFirstEntry :: "frag_state \<Rightarrow> frag_state option" where
  "AddFirstEntry s =
     (case first_in (flist s) of None \<Rightarrow> None
      | Some first_frag \<Rightarrow>
          if is_cfi s (branch_instr (frag_at s first_frag)) then Some s
          else Option.bind (MakeFragment PartitionEntryFragment first_frag first_frag s) (\<lambda>(s1, first_entry).
            Some (upd_frag first_frag (\<lambda>f. f\<lparr>entry_exit_frag := Some first_entry\<rparr>)
                    (s1\<lparr>flist := first_entry # flist s1\<rparr>))))"

definition AddEntryAndExitFragments :: "flag_tables \<Rightarrow> frag_state \<Rightarrow> frag_state option" where
  "AddEntryAndExitFragments T s =
     Option.bind (AnalyzeFlagsUse T (PropagateFragKinds s)) (\<lambda>s1.
     Option.bind (CombineFlagZones s1) (\<lambda>s2.
     Option.bind (UpdateFlagZones s2) (\<lambda>s3.
     Option.bind (AddFirstEntry (ResetEntryExitFrag s3)) (\<lambda>s4.
     Option.bind (AddEntryFragments IsPartitionEntry PartitionEntryFragment s4) (\<lambda>s5.
     Option.bind (AddExitFragments IsPartitionExit PartitionExitFragment s5) (\<lambda>s6.
     Option.bind (AddEntryFragments IsFlagEntry FlagEntryFragment (ResetEntryExitFrag s6)) (\<lambda>s7.
     Option.bind (AddExitFragments IsFlagExit FlagExitFragment (ResetEntryExitFrag s7)) (\<lambda>s8.
       map_option PropagateCodeCacheKinds (LabelPartitions s8)))))))))"

section \<open>Sets in a growing heap\<close>

text \<open>Sets whose members are allocated; an address that is not is alone in its set.\<close>

definition sets_ok :: "nat \<Rightarrow> 'v sets \<Rightarrow> bool" where
  "sets_ok n ss \<longleftrightarrow> forest ss \<and> (\<forall>x<n. root ss x < n) \<and> (\<forall>x\<ge>n. root ss x = x)"

definition same_sets :: "'v sets \<Rightarrow> 'v sets \<Rightarrow> bool" where
  "same_sets p q \<longleftrightarrow> root q = root p \<and> ds_value q = ds_value p \<and> (forest p \<longrightarrow> forest q)"

lemma same_sets_refl [simp]: "same_sets p p"
  by (simp add: same_sets_def)

lemma same_sets_ok: "same_sets p q \<Longrightarrow> sets_ok n p \<Longrightarrow> sets_ok n q"
  by (simp add: same_sets_def sets_ok_def)

lemma set_eq_same_sets:
  assumes "forest p"
  shows "\<exists>q. set_eq p a b = Some (q, root p a = root p b) \<and> same_sets p q"
proof -
  obtain p1 where 1: "Find p a = Some (p1, root p a)" "forest p1" "root p1 = root p" "ds_value p1 = ds_value p"
    by (rule Find_correct [OF assms])
  obtain p2 where 2: "Find p1 b = Some (p2, root p1 b)" "forest p2" "root p2 = root p1" "ds_value p2 = ds_value p1"
    by (rule Find_correct [OF 1(2)])
  show ?thesis using 1 2 by (simp add: set_eq_def same_sets_def)
qed

lemma Value_same_sets:
  assumes "forest p"
  shows "\<exists>q. Value p a = Some (q, ds_value p (root p a)) \<and> same_sets p q"
proof -
  obtain q where "Find p a = Some (q, root p a)" "forest q" "root q = root p" "ds_value q = ds_value p"
    by (rule Find_correct [OF assms])
  then show ?thesis by (simp add: Value_def same_sets_def)
qed

text \<open>A new member with the default value, alone or joined to an allocated one.\<close>

lemma sets_ok_new:
  assumes "sets_ok n p"
  shows "sets_ok (Suc n) (DisjointSet_new p n v)" "root (DisjointSet_new p n v) = root p"
    "ds_value (DisjointSet_new p n v) = (ds_value p)(n := v)"
proof -
  have "ds_parent p n = n" using assms root_fixed [of p n] by (simp add: sets_ok_def)
  then have "(ds_parent p)(n := n) = ds_parent p" by (intro ext) simp
  then have eq: "DisjointSet_new p n v = p\<lparr>ds_value := (ds_value p)(n := v)\<rparr>"
    unfolding DisjointSet_new_def by simp
  then show "root (DisjointSet_new p n v) = root p" "ds_value (DisjointSet_new p n v) = (ds_value p)(n := v)"
    by simp_all
  show "sets_ok (Suc n) (DisjointSet_new p n v)"
    using assms unfolding eq sets_ok_def sets_value_update by (auto simp: less_Suc_eq)
qed

lemma sets_ok_join:
  assumes ok: "sets_ok n p" and m: "m < n"
  obtains q where "Union d (DisjointSet_new p n d) n m = Some q" "sets_ok (Suc n) q"
    "\<And>x. x < n \<Longrightarrow> root q x = root p x" "\<And>x. x < n \<Longrightarrow> ds_value q x = ds_value p x"
proof -
  let ?p = "DisjointSet_new p n d"
  note new = sets_ok_new [OF ok, of d]
  have f: "forest ?p" using new(1) by (simp add: sets_ok_def)
  have n: "root p n = n" using ok by (simp add: sets_ok_def)
  have "ds_value ?p (root ?p n) = d" by (simp add: new n)
  then obtain q where q: "Union d ?p n m = Some q" "forest q" "ds_value q = ds_value ?p"
    "\<And>z. root q z = (if root ?p z = root ?p n then root ?p m else root ?p z)"
    using Union_default [OF f, of n d m] by blast
  have r: "root q z = (if root p z = n then root p m else root p z)" for z
    using q(4) by (simp add: new n)
  have old: "root q x = root p x" if "x < n" for x
    using ok that by (simp add: r sets_ok_def) (metis less_irrefl)
  have "sets_ok (Suc n) q"
    using ok m q(2) by (auto simp: sets_ok_def r less_Suc_eq)
  then show thesis using q old by (intro that [of q]) (simp_all add: new)
qed

section \<open>What the tests see\<close>

definition st_ok :: "frag_state \<Rightarrow> bool" where
  "st_ok s \<longleftrightarrow> sets_ok (next_frag s) (parts s) \<and> sets_ok (next_frag s) (zones s)"

text \<open>Path compression is invisible.\<close>

definition compressed :: "frag_state \<Rightarrow> frag_state \<Rightarrow> bool" where
  "compressed s t \<longleftrightarrow> t = s\<lparr>parts := parts t, zones := zones t\<rparr> \<and>
     same_sets (parts s) (parts t) \<and> same_sets (zones s) (zones t)"

record edge_view =
  v_class :: frag_class
  v_kind :: FragmentKind
  v_cfi :: bool
  v_part :: nat
  v_zone :: nat
  v_killed :: u32

definition view :: "frag_state \<Rightarrow> nat \<Rightarrow> edge_view" where
  "view s a = \<lparr>v_class = f_class (frag_at s a), v_kind = f_kind (frag_at s a),
     v_cfi = is_cfi s (branch_instr (frag_at s a)), v_part = root (parts s) a, v_zone = root (zones s) a,
     v_killed = killed_flags (zone_value s a)\<rparr>"

lemma view_sel [simp]:
  "v_class (view s a) = f_class (frag_at s a)" "v_kind (view s a) = f_kind (frag_at s a)"
  "v_cfi (view s a) = is_cfi s (branch_instr (frag_at s a))" "v_part (view s a) = root (parts s) a"
  "v_zone (view s a) = root (zones s) a" "v_killed (view s a) = killed_flags (zone_value s a)"
  by (simp_all add: view_def)

lemma is_cfi_cong:
  assumes "instr_at t = instr_at s"
  shows "is_cfi t = is_cfi s"
proof -
  have "native_at t = native_at s" by (intro ext) (simp add: native_at_def assms)
  then show ?thesis by (intro ext) (simp only: is_cfi_def)
qed

lemma compressedD:
  assumes "compressed s t"
  shows "frag_at t = frag_at s" "flist t = flist s" "next_frag t = next_frag s" "view t a = view s a"
    "st_ok s \<Longrightarrow> st_ok t"
proof -
  have t: "t = s\<lparr>parts := parts t, zones := zones t\<rparr>" and ss: "same_sets (parts s) (parts t)" "same_sets (zones s) (zones t)"
    using assms by (simp_all add: compressed_def)
  show 1: "frag_at t = frag_at s" "flist t = flist s" "next_frag t = next_frag s" by (subst t, simp)+
  have "instr_at t = instr_at s" by (subst t, simp)
  then have "is_cfi t = is_cfi s" by (rule is_cfi_cong)
  then show "view t a = view s a" using ss by (simp add: view_def 1 zone_value_def same_sets_def)
  show "st_ok s \<Longrightarrow> st_ok t" using ss unfolding st_ok_def 1 by (auto intro: same_sets_ok)
qed

lemma compressed_refl [simp]: "compressed s s"
  by (simp add: compressed_def)

lemma compressed_trans:
  assumes "compressed s t" "compressed t u"
  shows "compressed s u"
proof -
  have "u = t\<lparr>parts := parts u, zones := zones u\<rparr>" "t = s\<lparr>parts := parts t, zones := zones t\<rparr>"
    using assms by (simp_all add: compressed_def)
  then have "u = s\<lparr>parts := parts t, zones := zones t\<rparr>\<lparr>parts := parts u, zones := zones u\<rparr>" by simp
  then have "u = s\<lparr>parts := parts u, zones := zones u\<rparr>" by simp
  then show ?thesis using assms by (simp add: compressed_def same_sets_def)
qed

lemma IsA_leaf:
  "IsA c s (Some a) \<longleftrightarrow> f_class (frag_at s a) = c \<or> c = Fragment_base \<or>
     (c = CodeFragment \<and> f_class (frag_at s a) \<in> {FlagEntryFragment, FlagExitFragment})"
  by (auto simp: IsA_def IsDerivedFrom_hierarchy)

lemma same_partition_test:
  assumes "st_ok s"
  shows "\<exists>t. same_partition a b s = Some (t, root (parts s) a = root (parts s) b) \<and> compressed s t"
proof -
  obtain q where "set_eq (parts s) a b = Some (q, root (parts s) a = root (parts s) b)" "same_sets (parts s) q"
    using set_eq_same_sets assms by (metis sets_ok_def st_ok_def)
  then show ?thesis by (simp add: same_partition_def compressed_def)
qed

lemma same_zone_test:
  assumes "st_ok s"
  shows "\<exists>t. same_zone a b s = Some (t, root (zones s) a = root (zones s) b) \<and> compressed s t"
proof -
  obtain q where "set_eq (zones s) a b = Some (q, root (zones s) a = root (zones s) b)" "same_sets (zones s) q"
    using set_eq_same_sets assms by (metis sets_ok_def st_ok_def)
  then show ?thesis by (simp add: same_zone_def compressed_def)
qed

lemma IsFlagInstCode_test:
  assumes "st_ok s"
  shows "\<exists>t. IsFlagInstCode a s =
      Some (t, f_kind (frag_at s a) = kFragmentKindInst \<and> killed_flags (zone_value s a) \<noteq> 0) \<and> compressed s t"
proof -
  obtain q where "Value (zones s) a = Some (q, zone_value s a)" "same_sets (zones s) q"
    using Value_same_sets assms by (metis sets_ok_def st_ok_def zone_value_def)
  then show ?thesis by (auto simp: IsFlagInstCode_def compressed_def)
qed

text \<open>The tests, as functions of what they see.\<close>

definition flag_zone_border :: "frag_class \<Rightarrow> edge_view \<Rightarrow> edge_view \<Rightarrow> bool" where
  "flag_zone_border T x y \<longleftrightarrow> v_class x \<noteq> T \<and> v_class y \<noteq> T \<and> v_part x = v_part y \<and> v_zone x \<noteq> v_zone y"

definition in_flag_code :: "edge_view \<Rightarrow> bool" where
  "in_flag_code x \<longleftrightarrow> v_kind x = kFragmentKindInst \<and> v_killed x \<noteq> 0"

definition flag_entry :: "edge_view \<Rightarrow> edge_view \<Rightarrow> bool" where
  "flag_entry x y \<longleftrightarrow> flag_zone_border FlagEntryFragment x y \<and> in_flag_code y"

definition flag_exit :: "edge_view \<Rightarrow> edge_view \<Rightarrow> bool" where
  "flag_exit x y \<longleftrightarrow> flag_zone_border FlagExitFragment x y \<and> in_flag_code x"

definition v_code :: "edge_view \<Rightarrow> bool" where
  "v_code x \<longleftrightarrow> v_class x \<in> {CodeFragment, FlagEntryFragment, FlagExitFragment}"

definition partition_entry :: "edge_view \<Rightarrow> edge_view \<Rightarrow> bool" where
  "partition_entry x y \<longleftrightarrow> v_class x \<noteq> PartitionEntryFragment \<and>
     v_class y \<notin> {PartitionEntryFragment, ExitFragment} \<and> \<not> v_cfi y \<and>
     (v_class x = NonLocalEntryFragment \<or> v_part x \<noteq> v_part y)"

definition partition_entry_legal :: "edge_view \<Rightarrow> edge_view \<Rightarrow> bool" where
  "partition_entry_legal x y \<longleftrightarrow> v_class x \<in> {PartitionEntryFragment, NonLocalEntryFragment} \<or>
     v_class y \<in> {PartitionEntryFragment, ExitFragment} \<or> v_code x \<and> v_code y"

definition partition_exit :: "edge_view \<Rightarrow> edge_view \<Rightarrow> bool" where
  "partition_exit x y \<longleftrightarrow> v_class x \<notin> {PartitionExitFragment, PartitionEntryFragment} \<and>
     v_class y \<noteq> PartitionExitFragment \<and> \<not> v_cfi x \<and> v_part x \<noteq> v_part y"

lemma flag_border_test:
  assumes "st_ok s"
  obtains s1 s2 where "same_partition a b s = Some (s1, root (parts s) a = root (parts s) b)" "compressed s s1"
    "same_zone a b s1 = Some (s2, root (zones s) a = root (zones s) b)" "compressed s s2" "st_ok s2"
proof -
  obtain s1 where 1: "same_partition a b s = Some (s1, root (parts s) a = root (parts s) b)" "compressed s s1"
    using same_partition_test [OF assms] by blast
  obtain s2 where 2: "same_zone a b s1 = Some (s2, root (zones s1) a = root (zones s1) b)" "compressed s1 s2"
    using same_zone_test [OF compressedD(5) [OF 1(2) assms]] by blast
  have "root (zones s1) = root (zones s)" using 1(2) by (simp add: compressed_def same_sets_def)
  then show thesis
    using 1 2 compressed_trans [OF 1(2) 2(2)] compressedD(5) assms by (intro that [of s1 s2]) auto
qed

lemma IsFlagEntry_test:
  assumes ok: "st_ok s"
  shows "\<exists>t. IsFlagEntry a b s = Some (t, flag_entry (view s a) (view s b)) \<and> compressed s t"
proof -
  obtain s1 s2 where 1: "same_partition a b s = Some (s1, root (parts s) a = root (parts s) b)" "compressed s s1"
    and 2: "same_zone a b s1 = Some (s2, root (zones s) a = root (zones s) b)" "compressed s s2" "st_ok s2"
    by (rule flag_border_test [OF ok])
  obtain s3 where 3: "IsFlagInstCode b s2 = Some (s3, in_flag_code (view s b))" "compressed s s3"
    using IsFlagInstCode_test [OF 2(3), of b] compressed_trans [OF 2(2)] compressedD(4) [OF 2(2), of b]
    by (auto simp: in_flag_code_def simp flip: view_sel)
  show ?thesis
    using 1 2 3 by (auto simp: IsFlagEntry_def flag_entry_def flag_zone_border_def IsA_leaf)
qed

lemma IsFlagExit_test:
  assumes ok: "st_ok s"
  shows "\<exists>t. IsFlagExit a b s = Some (t, flag_exit (view s a) (view s b)) \<and> compressed s t"
proof -
  obtain s1 s2 where 1: "same_partition a b s = Some (s1, root (parts s) a = root (parts s) b)" "compressed s s1"
    and 2: "same_zone a b s1 = Some (s2, root (zones s) a = root (zones s) b)" "compressed s s2" "st_ok s2"
    by (rule flag_border_test [OF ok])
  obtain s3 where 3: "IsFlagInstCode a s2 = Some (s3, in_flag_code (view s a))" "compressed s s3"
    using IsFlagInstCode_test [OF 2(3), of a] compressed_trans [OF 2(2)] compressedD(4) [OF 2(2), of a]
    by (auto simp: in_flag_code_def simp flip: view_sel)
  show ?thesis
    using 1 2 3 by (auto simp: IsFlagExit_def flag_exit_def flag_zone_border_def IsA_leaf)
qed

lemma IsPartitionEntry_test:
  assumes ok: "st_ok s" and legal: "partition_entry_legal (view s a) (view s b)"
  shows "\<exists>t. IsPartitionEntry a b s = Some (t, partition_entry (view s a) (view s b)) \<and> compressed s t"
proof -
  obtain t where "same_partition a b s = Some (t, root (parts s) a = root (parts s) b)" "compressed s t"
    using same_partition_test [OF ok] by blast
  then show ?thesis
    using legal
    by (auto simp: IsPartitionEntry_def partition_entry_def partition_entry_legal_def v_code_def IsA_leaf is_code_iff)
qed

lemma IsPartitionExit_test:
  assumes ok: "st_ok s"
  shows "\<exists>t. IsPartitionExit a b s = Some (t, partition_exit (view s a) (view s b)) \<and> compressed s t"
proof -
  obtain t where "same_partition a b s = Some (t, root (parts s) a = root (parts s) b)" "compressed s t"
    using same_partition_test [OF ok] by blast
  then show ?thesis by (auto simp: IsPartitionExit_def partition_exit_def IsA_leaf)
qed

section \<open>A new fragment\<close>

lemma view_frame:
  assumes "f_class (frag_at t a) = f_class (frag_at s a)" "f_kind (frag_at t a) = f_kind (frag_at s a)"
    "branch_instr (frag_at t a) = branch_instr (frag_at s a)" "instr_at t = instr_at s"
    "root (parts t) a = root (parts s) a" "root (zones t) a = root (zones s) a"
    "ds_value (zones t) (root (zones s) a) = ds_value (zones s) (root (zones s) a)"
  shows "view t a = view s a"
  using assms by (simp add: view_def zone_value_def is_cfi_cong [of t s])

lemma MakeFragment_effect:
  assumes ok: "st_ok s" and own: "own < next_frag s" and succ: "succ < next_frag s"
  obtains t e where "MakeFragment T own succ s = Some (t, next_frag s)"
    "frag_at t = (frag_at s)(next_frag s := e)" "next_frag t = Suc (next_frag s)" "flist t = flist s"
    "st_ok t" "\<And>a. a < next_frag s \<Longrightarrow> view t a = view s a" "instr_at t = instr_at s"
    "f_class e = T" "succ_fall e = Some succ" "succ_branch e = None" "entry_exit_frag e = None"
proof -
  let ?n = "next_frag s"
  have sp: "sets_ok ?n (parts s)" and sz: "sets_ok ?n (zones s)" using ok by (simp_all add: st_ok_def)
  obtain ps where ps: "Union None (DisjointSet_new (parts s) ?n None) ?n own = Some ps" "sets_ok (Suc ?n) ps"
    "\<And>x. x < ?n \<Longrightarrow> root ps x = root (parts s) x" "\<And>x. x < ?n \<Longrightarrow> ds_value ps x = ds_value (parts s) x"
    by (rule sets_ok_join [OF sp own]) blast
  let ?z = "DisjointSet_new (zones s) ?n FlagZone_new"
  obtain zs where zs: "(if T \<noteq> PartitionEntryFragment \<and> T \<noteq> PartitionExitFragment
      then Union FlagZone_new ?z ?n own else Some ?z) = Some zs"
    "sets_ok (Suc ?n) zs" "\<And>x. x < ?n \<Longrightarrow> root zs x = root (zones s) x"
    "\<And>x. x < ?n \<Longrightarrow> ds_value zs x = ds_value (zones s) x"
  proof (cases "T \<noteq> PartitionEntryFragment \<and> T \<noteq> PartitionExitFragment")
    case True
    obtain zs where "Union FlagZone_new ?z ?n own = Some zs" "sets_ok (Suc ?n) zs"
      "\<And>x. x < ?n \<Longrightarrow> root zs x = root (zones s) x" "\<And>x. x < ?n \<Longrightarrow> ds_value zs x = ds_value (zones s) x"
      by (rule sets_ok_join [OF sz own]) blast
    then show thesis using True that [of zs] by simp
  next
    case False
    note new = sets_ok_new [OF sz, of FlagZone_new]
    show thesis by (rule that [of ?z]) (use False new in auto)
  qed
  let ?i = "frag_at s own"
  define live where "live = entry_live_flags (app_flags (frag_at s succ))"
  define e where "e = (Fragment_new T)\<lparr>block_meta := block_meta ?i, f_kind := kFragmentKindInst, f_cache := f_cache ?i,
     stack_status := stack_status ?i, succ_fall := Some succ,
     app_flags := FlagUsageInfo_new\<lparr>exit_live_flags := live, entry_live_flags := live\<rparr>\<rparr>"
  let ?t = "s\<lparr>frag_at := (frag_at s)(?n := e), next_frag := Suc ?n, parts := ps, zones := zs\<rparr>"
  have e: "f_class e = T" "succ_fall e = Some succ" "succ_branch e = None" "entry_exit_frag e = None"
    by (simp_all add: e_def Fragment_new_def)
  have ne: "own \<noteq> ?n" "succ \<noteq> ?n" using own succ by simp_all
  have make: "MakeFragment T own succ s = Some (?t, ?n)"
    using zs(1)
    by (cases "T = PartitionEntryFragment \<or> T = PartitionExitFragment")
      (auto simp: MakeFragment_def alloc_frag_def upd_frag_def Let_def e_def live_def Fragment_new_def ne ps(1))
  have root: "root (zones s) a < ?n" if "a < ?n" for a using sz that by (simp add: sets_ok_def)
  show thesis
  proof (rule that [OF make, of e])
    show "view ?t a = view s a" if "a < ?n" for a
      using that ps zs root by (intro view_frame) simp_all
    show "st_ok ?t" using ps zs by (simp add: st_ok_def)
  qed (simp_all add: e)
qed

section \<open>The invariant of the walks\<close>

text \<open>A fragment of class \<open>T\<close> that does nothing but go to \<open>b\<close>.\<close>

definition goes_to :: "frag_class \<Rightarrow> frag_state \<Rightarrow> nat \<Rightarrow> nat \<Rightarrow> bool" where
  "goes_to T s b e \<longleftrightarrow> f_class (frag_at s e) = T \<and> succ_fall (frag_at s e) = Some b \<and> succ_branch (frag_at s e) = None"

definition edge_inv :: "frag_class \<Rightarrow> (edge_view \<Rightarrow> edge_view \<Rightarrow> bool) \<Rightarrow> frag_state \<Rightarrow> bool" where
  "edge_inv T legal s \<longleftrightarrow> st_ok s \<and> distinct (flist s) \<and> set (flist s) \<subseteq> {..<next_frag s} \<and>
     (\<forall>a\<in>set (flist s). \<forall>sel b. get_succ sel (frag_at s a) = Some b \<longrightarrow>
        b \<in> set (flist s) \<and> legal (view s a) (view s b)) \<and>
     (\<forall>b\<in>set (flist s). \<forall>e. entry_exit_frag (frag_at s b) = Some e \<longrightarrow> e \<in> set (flist s) \<and> goes_to T s b e)"

text \<open>An edge stays, or gets a fragment of class \<open>T\<close> put on it if neither end has that class.\<close>

definition edge_via :: "frag_class \<Rightarrow> frag_state \<Rightarrow> frag_state \<Rightarrow> nat \<Rightarrow> succ_sel \<Rightarrow> bool" where
  "edge_via T s t a sel \<longleftrightarrow> get_succ sel (frag_at t a) = get_succ sel (frag_at s a) \<or>
     (\<exists>b e. f_class (frag_at s a) \<noteq> T \<and> get_succ sel (frag_at s a) = Some b \<and> f_class (frag_at s b) \<noteq> T \<and>
        get_succ sel (frag_at t a) = Some e \<and> e \<in> set (flist t) \<and> goes_to T t b e)"

definition grows :: "frag_class \<Rightarrow> frag_state \<Rightarrow> frag_state \<Rightarrow> bool" where
  "grows T s t \<longleftrightarrow> set (flist s) \<subseteq> set (flist t) \<and> (\<forall>a\<in>set (flist s). view t a = view s a) \<and>
     (\<forall>a\<in>set (flist s). \<forall>sel. edge_via T s t a sel) \<and>
     (\<forall>a\<in>set (flist t) - set (flist s). f_class (frag_at t a) = T)"

lemma edge_invD:
  assumes "edge_inv T legal s"
  shows "st_ok s" "distinct (flist s)" "a \<in> set (flist s) \<Longrightarrow> a < next_frag s"
    "a \<in> set (flist s) \<Longrightarrow> get_succ sel (frag_at s a) = Some b \<Longrightarrow> b \<in> set (flist s) \<and> legal (view s a) (view s b)"
    "b \<in> set (flist s) \<Longrightarrow> entry_exit_frag (frag_at s b) = Some e \<Longrightarrow> e \<in> set (flist s) \<and> goes_to T s b e"
  using assms unfolding edge_inv_def by blast+

lemma view_class: "view t a = view s b \<Longrightarrow> f_class (frag_at t a) = f_class (frag_at s b)"
  by (metis view_sel(1))

lemma goes_to_get: "goes_to T s b e \<longleftrightarrow> f_class (frag_at s e) = T \<and>
    get_succ kFragSuccFallThrough (frag_at s e) = Some b \<and> get_succ kFragSuccBranch (frag_at s e) = None"
  by (simp add: goes_to_def get_succ_def)

lemma grows_refl: "grows T s s"
  by (simp add: grows_def edge_via_def)

lemma grows_goes_to:
  assumes "grows T t u" "e \<in> set (flist t)" "goes_to T t b e"
  shows "goes_to T u b e"
proof -
  have "f_class (frag_at u e) = f_class (frag_at t e)" using assms by (intro view_class) (simp add: grows_def)
  moreover have "edge_via T t u e sel" for sel using assms by (simp add: grows_def)
  ultimately show ?thesis using assms(3) unfolding goes_to_get edge_via_def by metis
qed

lemma grows_trans:
  assumes inv: "edge_inv T legal s" and st: "grows T s t" and tu: "grows T t u"
  shows "grows T s u"
proof -
  have sub: "set (flist s) \<subseteq> set (flist t)" "set (flist t) \<subseteq> set (flist u)" using st tu by (simp_all add: grows_def)
  have view: "view t a = view s a" "view u a = view t a" if "a \<in> set (flist s)" for a
    using st tu that by (auto simp: grows_def)
  have "edge_via T s u a sel" if a: "a \<in> set (flist s)" for a sel
  proof (cases "get_succ sel (frag_at t a) = get_succ sel (frag_at s a)")
    case True
    have "edge_via T t u a sel" using tu a sub by (auto simp: grows_def)
    then consider "get_succ sel (frag_at u a) = get_succ sel (frag_at s a)"
      | b e where "f_class (frag_at t a) \<noteq> T" "get_succ sel (frag_at s a) = Some b" "f_class (frag_at t b) \<noteq> T"
        "get_succ sel (frag_at u a) = Some e" "e \<in> set (flist u)" "goes_to T u b e"
      using True unfolding edge_via_def by metis
    then show ?thesis
    proof cases
      case 2
      have "f_class (frag_at t b) = f_class (frag_at s b)"
        using edge_invD(4) [OF inv a 2(2)] by (intro view_class view(1)) simp
      then show ?thesis using 2 view_class [OF view(1) [OF a]] unfolding edge_via_def by metis
    qed (simp add: edge_via_def)
  next
    case False
    have "edge_via T s t a sel" using st a by (simp add: grows_def)
    then obtain b e where b: "f_class (frag_at s a) \<noteq> T" "get_succ sel (frag_at s a) = Some b"
      "f_class (frag_at s b) \<noteq> T" "get_succ sel (frag_at t a) = Some e" "e \<in> set (flist t)" "goes_to T t b e"
      using False by (auto simp: edge_via_def)
    have "edge_via T t u a sel" using tu a sub by (auto simp: grows_def)
    moreover have "f_class (frag_at t e) = T" using b by (simp add: goes_to_def)
    ultimately have "get_succ sel (frag_at u a) = Some e" using b(4) by (auto simp: edge_via_def)
    then show ?thesis using b sub grows_goes_to [OF tu b(5,6)] by (auto simp: edge_via_def)
  qed
  moreover have "f_class (frag_at u a) = T" if "a \<in> set (flist u) - set (flist s)" for a
  proof (cases "a \<in> set (flist t)")
    case True
    then have "view u a = view t a" "f_class (frag_at t a) = T" using st tu that by (auto simp: grows_def)
    then show ?thesis using view_class [of u a t a] by simp
  qed (use tu that in \<open>auto simp: grows_def\<close>)
  moreover have "view u a = view s a" if "a \<in> set (flist s)" for a using view that by simp
  ultimately show ?thesis using sub unfolding grows_def by blast
qed

lemma edge_inv_compressed:
  assumes c: "compressed s t" and inv: "edge_inv T legal s"
  shows "edge_inv T legal t" "grows T s t"
proof -
  note eq = compressedD(1-4) [OF c]
  show "edge_inv T legal t"
    using inv compressedD(5) [OF c] unfolding edge_inv_def goes_to_def eq by blast
  show "grows T s t" unfolding grows_def edge_via_def eq by simp
qed

section \<open>One edge\<close>

lemma view_upd:
  assumes "\<And>f. f_class (g f) = f_class f" "\<And>f. f_kind (g f) = f_kind f" "\<And>f. branch_instr (g f) = branch_instr f"
  shows "view (upd_frag a g s) b = view s b"
  by (rule view_frame) (simp_all add: frag_at_upd_frag assms)

lemma st_ok_upd: "st_ok (upd_frag a g s) = st_ok s"
  by (simp add: st_ok_def)

lemma view_flist: "view (s\<lparr>flist := xs\<rparr>) a = view s a"
  by (rule view_frame) simp_all

lemma set_succ_sel [simp]:
  "f_kind (set_succ sel p f) = f_kind f" "branch_instr (set_succ sel p f) = branch_instr f"
  "entry_exit_frag (set_succ sel p f) = entry_exit_frag f"
  by (simp_all add: set_succ_def split: succ_sel.split)

lemma get_succ_link [simp]: "get_succ sel (f\<lparr>entry_exit_frag := p\<rparr>) = get_succ sel f"
  by (simp add: get_succ_def split: succ_sel.split)

text \<open>Sending an edge to another fragment.\<close>

definition redirect :: "nat \<Rightarrow> succ_sel \<Rightarrow> nat \<Rightarrow> frag_state \<Rightarrow> frag_state" where
  "redirect a sel e = upd_frag a (set_succ sel (Some e))"

lemma redirect_frag:
  "get_succ sel' (frag_at (redirect a sel e s) x) =
     (if x = a \<and> sel' = sel then Some e else get_succ sel' (frag_at s x))"
  "f_class (frag_at (redirect a sel e s) x) = f_class (frag_at s x)"
  "entry_exit_frag (frag_at (redirect a sel e s) x) = entry_exit_frag (frag_at s x)"
  "view (redirect a sel e s) x = view s x" "flist (redirect a sel e s) = flist s"
  "next_frag (redirect a sel e s) = next_frag s" "st_ok (redirect a sel e s) = st_ok s"
  by (simp_all add: redirect_def frag_at_upd_frag view_upd st_ok_def)

lemma redirect_goes_to: "a \<noteq> x \<Longrightarrow> goes_to T (redirect a sel e s) b x = goes_to T s b x"
  by (auto simp: goes_to_get redirect_frag)

lemma redirect_inv:
  assumes inv: "edge_inv T legal s" and a: "a \<in> set (flist s)" "f_class (frag_at s a) \<noteq> T"
    and b: "get_succ sel (frag_at s a) = Some b" "f_class (frag_at s b) \<noteq> T"
    and e: "e \<in> set (flist s)" "goes_to T s b e"
    and legal: "\<And>x y. v_class y = T \<Longrightarrow> legal x y"
  shows "edge_inv T legal (redirect a sel e s)" "grows T s (redirect a sel e s)"
proof -
  let ?t = "redirect a sel e s"
  have ecl: "f_class (frag_at s e) = T" using e(2) by (simp add: goes_to_def)
  have ne: "a \<noteq> x" if "goes_to T s c x" for c x using that a(2) by (auto simp: goes_to_def)
  have "c \<in> set (flist s) \<and> legal (view s x) (view s c)"
    if "x \<in> set (flist s)" "get_succ sel' (frag_at ?t x) = Some c" for x sel' c
    using that edge_invD(4) [OF inv that(1), of sel' c] e(1) ecl
    by (auto simp: redirect_frag split: if_splits intro!: legal)
  moreover have "x \<in> set (flist s) \<and> goes_to T ?t c x"
    if "c \<in> set (flist s)" "entry_exit_frag (frag_at s c) = Some x" for c x
    using edge_invD(5) [OF inv that] ne redirect_goes_to by blast
  ultimately show "edge_inv T legal ?t"
    using edge_invD(1,2) [OF inv] edge_invD(3) [OF inv] unfolding edge_inv_def redirect_frag(3-7) by blast
  have "goes_to T ?t b e" using e(2) redirect_goes_to [OF ne [OF e(2)]] by simp
  then have "edge_via T s ?t x sel'" for x sel'
    using a b e(1) by (auto simp: edge_via_def redirect_frag)
  then show "grows T s ?t" unfolding grows_def redirect_frag(4,5) by blast
qed

lemma in_set_insert_after: "x \<in> set (insert_after a b xs) \<Longrightarrow> x = b \<or> x \<in> set xs"
  by (induction xs) (auto split: if_splits)

lemma distinct_insert_after: "distinct xs \<Longrightarrow> b \<notin> set xs \<Longrightarrow> distinct (insert_after a b xs)"
  by (induction xs) (auto dest: in_set_insert_after)

text \<open>A new fragment takes its place in the list and becomes the back link of its successor.\<close>

definition link_new :: "nat \<Rightarrow> nat \<Rightarrow> nat \<Rightarrow> frag_state \<Rightarrow> frag_state" where
  "link_new a b n s = upd_frag b (\<lambda>f. f\<lparr>entry_exit_frag := Some n\<rparr>) (s\<lparr>flist := insert_after a n (flist s)\<rparr>)"

lemma new_frag_inv:
  assumes inv: "edge_inv T legal s" and mem: "a \<in> set (flist s)" "b \<in> set (flist s)" "own \<in> set (flist s)"
    and legal: "\<And>x y. v_class x = T \<Longrightarrow> legal x y"
  obtains u where "MakeFragment T own b s = Some (u, next_frag s)" "flist u = flist s"
    "edge_inv T legal (link_new a b (next_frag s) u)" "grows T s (link_new a b (next_frag s) u)"
    "goes_to T (link_new a b (next_frag s) u) b (next_frag s)"
    "\<And>x sel. x \<in> set (flist s) \<Longrightarrow>
       get_succ sel (frag_at (link_new a b (next_frag s) u) x) = get_succ sel (frag_at s x)"
proof -
  let ?n = "next_frag s"
  have lt: "x < ?n" if "x \<in> set (flist s)" for x using edge_invD(3) [OF inv that] .
  obtain t e where t: "MakeFragment T own b s = Some (t, ?n)" "frag_at t = (frag_at s)(?n := e)"
    "next_frag t = Suc ?n" "flist t = flist s" "st_ok t" "\<And>a. a < ?n \<Longrightarrow> view t a = view s a"
    "f_class e = T" "succ_fall e = Some b" "succ_branch e = None" "entry_exit_frag e = None"
    using MakeFragment_effect [OF edge_invD(1) [OF inv] lt lt, OF mem(3,2)] by metis
  let ?u = "link_new a b ?n t"
  have fl: "set (flist ?u) = insert ?n (set (flist s))" using set_insert_after [OF mem(1)] t(4) by (simp add: link_new_def)
  have bn: "b \<noteq> ?n" using lt [OF mem(2)] by simp
  have new: "f_class (frag_at ?u ?n) = T" "get_succ kFragSuccFallThrough (frag_at ?u ?n) = Some b"
    "get_succ kFragSuccBranch (frag_at ?u ?n) = None" "entry_exit_frag (frag_at ?u ?n) = None"
    using t bn by (simp_all add: link_new_def frag_at_upd_frag get_succ_def)
  have old: "get_succ sel (frag_at ?u x) = get_succ sel (frag_at s x)" "f_class (frag_at ?u x) = f_class (frag_at s x)"
    "entry_exit_frag (frag_at ?u x) = (if x = b then Some ?n else entry_exit_frag (frag_at s x))"
    if "x \<in> set (flist s)" for x sel
    using lt [OF that] t(2) by (auto simp: link_new_def frag_at_upd_frag)
  have view: "view ?u x = view s x" if "x \<in> set (flist s)" for x
    using t(6) [OF lt [OF that]] by (simp add: link_new_def view_upd view_flist)
  have goes: "goes_to T ?u b ?n" using new by (simp add: goes_to_get)
  have "y \<in> set (flist ?u) \<and> legal (view ?u x) (view ?u y)"
    if "x \<in> set (flist ?u)" "get_succ sel (frag_at ?u x) = Some y" for x sel y
  proof (cases "x = ?n")
    case True
    then have "y = b" using that(2) new by (cases sel) auto
    then show ?thesis using True new(1) mem(2) fl by (auto intro: legal)
  next
    case False
    then have x: "x \<in> set (flist s)" using that(1) fl by simp
    then show ?thesis using edge_invD(4) [OF inv x, of sel y] that(2) old(1) [OF x] view fl by auto
  qed
  moreover have "y \<in> set (flist ?u) \<and> goes_to T ?u x y"
    if "x \<in> set (flist ?u)" "entry_exit_frag (frag_at ?u x) = Some y" for x y
  proof (cases "x = b")
    case True
    then show ?thesis using that(2) old(3) [OF mem(2)] goes fl by simp
  next
    case False
    then have x: "x \<in> set (flist s)" "entry_exit_frag (frag_at s x) = Some y"
      using that new(4) fl old(3) by auto
    then show ?thesis using edge_invD(5) [OF inv x] old(1,2) fl by (auto simp: goes_to_get)
  qed
  moreover have "?n \<notin> set (flist s)" using lt by blast
  then have "distinct (flist ?u)" using distinct_insert_after [OF edge_invD(2) [OF inv]] t(4) by (simp add: link_new_def)
  moreover have "st_ok ?u" "next_frag ?u = Suc ?n" using t(3,5) by (simp_all add: link_new_def st_ok_def)
  moreover have "set (flist ?u) \<subseteq> {..<Suc ?n}" using fl lt by (auto simp: less_Suc_eq)
  ultimately have inv': "edge_inv T legal ?u" unfolding edge_inv_def by (metis (no_types))
  have "grows T s ?u" using view old(1) new(1) fl by (auto simp: grows_def edge_via_def)
  then show thesis using t(1,4) inv' goes old(1) that by blast
qed

lemma link_redirect:
  "upd_frag b (\<lambda>f. f\<lparr>entry_exit_frag := Some n\<rparr>)
     (upd_frag a (set_succ sel (Some n)) (s\<lparr>flist := insert_after a n (flist s)\<rparr>)) =
   redirect a sel n (link_new a b n s)"
proof -
  have swap: "(set_succ sel p f)\<lparr>entry_exit_frag := q\<rparr> = set_succ sel p (f\<lparr>entry_exit_frag := q\<rparr>)" for p q f
    by (cases f; cases sel) (simp_all add: set_succ_def)
  show ?thesis
    by (cases "a = b") (simp_all add: redirect_def link_new_def upd_frag_def swap fun_upd_twist)
qed

text \<open>The edges of a fragment need no further fragment.\<close>

definition clean :: "(edge_view \<Rightarrow> edge_view \<Rightarrow> bool) \<Rightarrow> frag_state \<Rightarrow> nat \<Rightarrow> bool" where
  "clean crosses s a \<longleftrightarrow> (\<forall>sel b. get_succ sel (frag_at s a) = Some b \<longrightarrow> \<not> crosses (view s a) (view s b))"

definition edge_step ::
    "frag_class \<Rightarrow> (edge_view \<Rightarrow> edge_view \<Rightarrow> bool) \<Rightarrow> nat \<Rightarrow> succ_sel \<Rightarrow> frag_state \<Rightarrow> frag_state \<Rightarrow> bool" where
  "edge_step T crosses a sel s t \<longleftrightarrow> grows T s t \<and>
     (flist t = flist s \<or> flist t = insert_after a (next_frag s) (flist s) \<and> f_class (frag_at s a) \<noteq> T) \<and>
     (\<forall>x\<in>set (flist s). \<forall>sel'. x \<noteq> a \<or> sel' \<noteq> sel \<longrightarrow> get_succ sel' (frag_at t x) = get_succ sel' (frag_at s x)) \<and>
     (\<forall>b. get_succ sel (frag_at t a) = Some b \<longrightarrow> \<not> crosses (view t a) (view t b))"

lemma edge_stepD:
  assumes "edge_step T crosses a sel s t"
  shows "grows T s t"
    "flist t = flist s \<or> flist t = insert_after a (next_frag s) (flist s) \<and> f_class (frag_at s a) \<noteq> T"
    "x \<in> set (flist s) \<Longrightarrow> x \<noteq> a \<or> sel' \<noteq> sel \<Longrightarrow> get_succ sel' (frag_at t x) = get_succ sel' (frag_at s x)"
    "get_succ sel (frag_at t a) = Some b \<Longrightarrow> \<not> crosses (view t a) (view t b)"
  using assms unfolding edge_step_def by blast+

lemma insert_after_append: "a \<notin> set pre \<Longrightarrow> insert_after a n (pre @ a # zs) = pre @ a # n # zs"
  by (induction pre) auto

lemma next_in_append: "a \<notin> set pre \<Longrightarrow> next_in a (pre @ a # zs) = first_in zs"
proof (induction pre)
  case Nil
  then show ?case by (cases zs) (simp_all add: first_in_def)
next
  case (Cons x pre)
  then show ?case by (cases pre) auto
qed

text \<open>A pass is given by its test, the class of the fragments it makes, and the fragment whose
  partition they join.  The interface: the test decides a relation on what can be seen of the two
  ends, which holds on no edge from or to a fragment of that class.\<close>

locale edge_pass =
  fixes is_end :: edge_test and T :: frag_class and owner :: "nat \<Rightarrow> nat \<Rightarrow> nat"
    and crosses :: "edge_view \<Rightarrow> edge_view \<Rightarrow> bool" and legal :: "edge_view \<Rightarrow> edge_view \<Rightarrow> bool"
  assumes test: "st_ok s \<Longrightarrow> legal (view s a) (view s b) \<Longrightarrow>
      \<exists>t. is_end a b s = Some (t, crosses (view s a) (view s b)) \<and> compressed s t"
    and from_new: "v_class x = T \<Longrightarrow> \<not> crosses x y \<and> legal x y"
    and to_new: "v_class y = T \<Longrightarrow> \<not> crosses x y \<and> legal x y"
    and owner: "owner a b = a \<or> owner a b = b"
begin

lemma crosses_class: "crosses (view s a) (view s b) \<Longrightarrow> f_class (frag_at s a) \<noteq> T \<and> f_class (frag_at s b) \<noteq> T"
  using from_new [of "view s a"] to_new [of "view s b"] by auto

lemma make_step:
  assumes inv: "edge_inv T legal s" and a: "a \<in> set (flist s)" and b: "get_succ sel (frag_at s a) = Some b"
    and c: "crosses (view s a) (view s b)"
  obtains u where "MakeFragment T (owner a b) b s = Some (u, next_frag s)"
    "edge_inv T legal (redirect a sel (next_frag s) (link_new a b (next_frag s) u))"
    "grows T s (redirect a sel (next_frag s) (link_new a b (next_frag s) u))"
    "flist (redirect a sel (next_frag s) (link_new a b (next_frag s) u)) = insert_after a (next_frag s) (flist s)"
    "\<And>x sel'. x \<in> set (flist s) \<Longrightarrow> x \<noteq> a \<or> sel' \<noteq> sel \<Longrightarrow>
       get_succ sel' (frag_at (redirect a sel (next_frag s) (link_new a b (next_frag s) u)) x) = get_succ sel' (frag_at s x)"
proof -
  let ?n = "next_frag s"
  have b': "b \<in> set (flist s)" using edge_invD(4) [OF inv a b] by simp
  then have own: "owner a b \<in> set (flist s)" using a owner [of a b] by auto
  obtain u where u: "MakeFragment T (owner a b) b s = Some (u, ?n)" "flist u = flist s"
    "edge_inv T legal (link_new a b ?n u)" "grows T s (link_new a b ?n u)" "goes_to T (link_new a b ?n u) b ?n"
    "\<And>x sel. x \<in> set (flist s) \<Longrightarrow> get_succ sel (frag_at (link_new a b ?n u) x) = get_succ sel (frag_at s x)"
    using new_frag_inv [OF inv a b' own] from_new by metis
  let ?v = "link_new a b ?n u"
  have fl: "flist ?v = insert_after a ?n (flist s)" using u(2) by (simp add: link_new_def)
  then have n: "?n \<in> set (flist ?v)" "a \<in> set (flist ?v)" using set_insert_after [OF a] a by simp_all
  have view: "view ?v x = view s x" if "x \<in> set (flist s)" for x using u(4) that by (simp add: grows_def)
  have cl: "f_class (frag_at ?v a) \<noteq> T" "f_class (frag_at ?v b) \<noteq> T"
    using crosses_class [OF c] view_class [OF view [OF a]] view_class [OF view [OF b']] by simp_all
  have "get_succ sel (frag_at ?v a) = Some b" using u(6) a b by simp
  note r = redirect_inv [OF u(3) n(2) cl(1) this cl(2) n(1) u(5)]
  show thesis
  proof (rule that [OF u(1)])
    show "edge_inv T legal (redirect a sel ?n ?v)" using r to_new by blast
    show "grows T s (redirect a sel ?n ?v)" using r to_new grows_trans [OF inv u(4)] by blast
    show "flist (redirect a sel ?n ?v) = insert_after a ?n (flist s)" by (simp add: redirect_frag fl)
    show "get_succ sel' (frag_at (redirect a sel ?n ?v) x) = get_succ sel' (frag_at s x)"
      if "x \<in> set (flist s)" "x \<noteq> a \<or> sel' \<noteq> sel" for x sel'
      using that u(6) by (auto simp: redirect_frag)
  qed
qed

lemma place_step:
  assumes s2: "compressed s s2" and inv: "edge_inv T legal s" and a: "a \<in> set (flist s)"
    and b: "get_succ sel (frag_at s a) = Some b" and c: "crosses (view s a) (view s b)"
  shows "\<exists>t. place_frag T (owner a b) a sel b s2 = Some t \<and> edge_inv T legal t \<and> edge_step T crosses a sel s t"
proof -
  note inv2 = edge_inv_compressed [OF s2 inv] and eq2 = compressedD(1-4) [OF s2]
  let ?n = "next_frag s2"
  obtain u where u: "MakeFragment T (owner a b) b s2 = Some (u, ?n)"
    "edge_inv T legal (redirect a sel ?n (link_new a b ?n u))"
    "grows T s2 (redirect a sel ?n (link_new a b ?n u))"
    "flist (redirect a sel ?n (link_new a b ?n u)) = insert_after a ?n (flist s2)"
    "\<And>x sel'. x \<in> set (flist s2) \<Longrightarrow> x \<noteq> a \<or> sel' \<noteq> sel \<Longrightarrow>
       get_succ sel' (frag_at (redirect a sel ?n (link_new a b ?n u)) x) = get_succ sel' (frag_at s2 x)"
    by (rule make_step [OF inv2(1), of a sel b]) (use a b c eq2 in auto)
  let ?t = "redirect a sel ?n (link_new a b ?n u)"
  have n: "?n \<in> set (flist ?t)" "?n \<notin> set (flist s2)"
    using u(4) set_insert_after [of a "flist s2"] a eq2 edge_invD(3) [OF inv2(1), of ?n] by auto
  then have "f_class (frag_at ?t ?n) = T" using u(3) by (simp add: grows_def)
  then have new: "\<not> crosses (view ?t a) (view ?t ?n)" using to_new by simp
  have "edge_step T crosses a sel s ?t"
    unfolding edge_step_def
  proof (intro conjI)
    show "grows T s ?t" by (rule grows_trans [OF inv inv2(2) u(3)])
    show "\<forall>b. get_succ sel (frag_at ?t a) = Some b \<longrightarrow> \<not> crosses (view ?t a) (view ?t b)"
      using new by (simp add: redirect_frag(1))
  qed (use u(4,5) eq2 crosses_class [OF c] in auto)
  then show ?thesis using u(1,2) by (simp add: place_frag_def link_redirect)
qed

lemma add_on_edge_step:
  assumes inv: "edge_inv T legal s" and a: "a \<in> set (flist s)"
  obtains t where "add_on_edge owner is_end T a sel s = Some t" "edge_inv T legal t" "edge_step T crosses a sel s t"
proof (cases "get_succ sel (frag_at s a)")
  case None
  then show thesis using inv grows_refl by (intro that [of s]) (simp_all add: add_on_edge_def edge_step_def)
next
  case (Some b)
  note b = edge_invD(4) [OF inv a Some]
  obtain s1 where s1: "is_end a b s = Some (s1, crosses (view s a) (view s b))" "compressed s s1"
    using test [OF edge_invD(1) [OF inv]] b by blast
  note inv1 = edge_inv_compressed [OF s1(2) inv] and eq1 = compressedD(1-4) [OF s1(2)]
  show thesis
  proof (cases "crosses (view s a) (view s b)")
    case False
    then have "edge_step T crosses a sel s s1" using Some inv1(2) by (simp add: edge_step_def eq1)
    then show thesis using False Some s1(1) inv1(1) by (intro that [of s1]) (simp_all add: add_on_edge_def)
  next
    case True
    note cl = crosses_class [OF True]
    note make = place_step [OF _ inv a Some True]
    show thesis
    proof (cases "entry_exit_frag (frag_at s1 b)")
      case None
      then show thesis using Some s1(1) True make [OF s1(2)] that by (auto simp: add_on_edge_def Let_def)
    next
      case (Some e)
      obtain s2 where s2: "same_partition (owner a b) e s1 =
          Some (s2, root (parts s1) (owner a b) = root (parts s1) e)" "compressed s1 s2"
        using same_partition_test [OF edge_invD(1) [OF inv1(1)]] by blast
      have c2: "compressed s s2" by (rule compressed_trans [OF s1(2) s2(2)])
      note inv2 = edge_inv_compressed [OF c2 inv] and eq2 = compressedD(1-4) [OF c2]
      show thesis
      proof (cases "root (parts s1) (owner a b) = root (parts s1) e")
        case False
        then show thesis
          using \<open>get_succ sel (frag_at s a) = Some b\<close> s1(1) s2(1) True Some make [OF c2] that
          by (auto simp: add_on_edge_def Let_def)
      next
        case same: True
        have e: "e \<in> set (flist s2)" "goes_to T s2 b e"
          using edge_invD(5) [OF inv2(1), of b e] b Some eq1 eq2 by simp_all
        have "get_succ sel (frag_at s2 a) = Some b" "a \<in> set (flist s2)" "f_class (frag_at s2 a) \<noteq> T"
          "f_class (frag_at s2 b) \<noteq> T"
          using \<open>get_succ sel (frag_at s a) = Some b\<close> a cl eq2 by simp_all
        note r = redirect_inv [OF inv2(1) this(2,3,1,4) e]
        let ?t = "redirect a sel e s2"
        have t: "edge_inv T legal ?t" "grows T s2 ?t" using r to_new by blast+
        have "\<not> crosses (view ?t a) (view ?t e)"
          using to_new [of "view ?t e"] e(2) by (simp add: goes_to_def redirect_frag(2))
        then have "edge_step T crosses a sel s ?t"
          using grows_trans [OF inv inv2(2) t(2)] by (auto simp: edge_step_def redirect_frag eq2)
        moreover have "add_on_edge owner is_end T a sel s = Some ?t"
          using \<open>get_succ sel (frag_at s a) = Some b\<close> s1(1) s2(1) True Some same
          by (simp add: add_on_edge_def Let_def redirect_def)
        ultimately show thesis using t(1) that by blast
      qed
    qed
  qed
qed

end

section \<open>The walk\<close>

definition visit_edges :: "(nat \<Rightarrow> nat \<Rightarrow> nat) \<Rightarrow> edge_test \<Rightarrow> frag_class \<Rightarrow> nat \<Rightarrow> frag_state \<Rightarrow> frag_state option" where
  "visit_edges owner is_end T a s =
     Option.bind (add_on_edge owner is_end T a kFragSuccFallThrough s) (add_on_edge owner is_end T a kFragSuccBranch)"

text \<open>A weight of the rest of a walk: a fragment that can get fragments put on its two edges counts
  more than two that cannot.\<close>

definition walk_wt :: "frag_class \<Rightarrow> frag_state \<Rightarrow> nat list \<Rightarrow> nat" where
  "walk_wt T s xs = sum_list (map (\<lambda>x. if f_class (frag_at s x) = T then 1 else 3) xs)"

lemma edge_step_list:
  assumes "edge_step T crosses a sel s t" "flist s = pre @ a # zs" "distinct (flist s)" "a < next_frag s"
  shows "\<exists>news. flist t = pre @ a # news @ zs \<and> length news \<le> 1 \<and> (f_class (frag_at s a) = T \<longrightarrow> news = [])"
proof -
  have "a \<notin> set pre" using assms(2,3) by simp
  then show ?thesis
    using edge_stepD(2) [OF assms(1)] assms(2) by (auto simp: insert_after_append)
qed

lemma clean_grows:
  assumes "grows T s t" "edge_inv T legal s" "x \<in> set (flist s)" "clean crosses s x"
    "\<And>sel. get_succ sel (frag_at t x) = get_succ sel (frag_at s x)"
  shows "clean crosses t x"
  unfolding clean_def
proof (intro allI impI)
  fix sel b assume "get_succ sel (frag_at t x) = Some b"
  then have b: "get_succ sel (frag_at s x) = Some b" using assms(5) by simp
  then have "view t x = view s x" "view t b = view s b"
    using assms(1,3) edge_invD(4) [OF assms(2,3) b] by (simp_all add: grows_def)
  then show "\<not> crosses (view t x) (view t b)" using assms(4) b by (simp add: clean_def)
qed

context edge_pass
begin

lemma visit_step:
  assumes inv: "edge_inv T legal s" and fl: "flist s = pre @ a # zs"
  obtains t news where "visit_edges owner is_end T a s = Some t" "edge_inv T legal t" "grows T s t"
    "flist t = pre @ a # news @ zs" "length news \<le> 2" "f_class (frag_at s a) = T \<longrightarrow> news = []"
    "clean crosses t a" "\<And>x sel. x \<in> set (flist s) \<Longrightarrow> x \<noteq> a \<Longrightarrow> get_succ sel (frag_at t x) = get_succ sel (frag_at s x)"
proof -
  have a: "a \<in> set (flist s)" using fl by simp
  obtain s1 where s1: "add_on_edge owner is_end T a kFragSuccFallThrough s = Some s1" "edge_inv T legal s1"
    "edge_step T crosses a kFragSuccFallThrough s s1"
    by (rule add_on_edge_step [OF inv a])
  obtain n1 where n1: "flist s1 = pre @ a # n1 @ zs" "length n1 \<le> 1" "f_class (frag_at s a) = T \<longrightarrow> n1 = []"
    using edge_step_list [OF s1(3) fl edge_invD(2,3) [OF inv]] a by blast
  have a1: "a \<in> set (flist s1)" using n1 by simp
  obtain t where t: "add_on_edge owner is_end T a kFragSuccBranch s1 = Some t" "edge_inv T legal t"
    "edge_step T crosses a kFragSuccBranch s1 t"
    by (rule add_on_edge_step [OF s1(2) a1])
  obtain n2 where n2: "flist t = pre @ a # n2 @ n1 @ zs" "length n2 \<le> 1" "f_class (frag_at s1 a) = T \<longrightarrow> n2 = []"
    using edge_step_list [OF t(3) n1(1) edge_invD(2,3) [OF s1(2)]] a1 by blast
  have g: "grows T s t" by (rule grows_trans [OF inv edge_stepD(1) [OF s1(3)] edge_stepD(1) [OF t(3)]])
  have view1: "view s1 a = view s a" using edge_stepD(1) [OF s1(3)] a by (simp add: grows_def)
  have clean: "clean crosses t a"
    unfolding clean_def
  proof (intro allI impI)
    fix sel b assume b: "get_succ sel (frag_at t a) = Some b"
    show "\<not> crosses (view t a) (view t b)"
    proof (cases sel)
      case kFragSuccFallThrough
      then have b1: "get_succ sel (frag_at s1 a) = Some b" using b edge_stepD(3) [OF t(3) a1, of sel] by simp
      then have "view t b = view s1 b" "view t a = view s1 a"
        using edge_invD(4) [OF s1(2) a1 b1] edge_stepD(1) [OF t(3)] a1 by (simp_all add: grows_def)
      then show ?thesis using edge_stepD(4) [OF s1(3), of b] b1 kFragSuccFallThrough by simp
    next
      case kFragSuccBranch
      then show ?thesis using edge_stepD(4) [OF t(3), of b] b by simp
    qed
  qed
  have other: "get_succ sel (frag_at t x) = get_succ sel (frag_at s x)" if "x \<in> set (flist s)" "x \<noteq> a" for x sel
  proof -
    have "x \<in> set (flist s1)" using that(1) edge_stepD(1) [OF s1(3)] by (auto simp: grows_def)
    then show ?thesis using edge_stepD(3) [OF t(3)] edge_stepD(3) [OF s1(3) that(1)] that(2) by simp
  qed
  have news: "flist t = pre @ a # (n2 @ n1) @ zs" "length (n2 @ n1) \<le> 2"
    "f_class (frag_at s a) = T \<longrightarrow> n2 @ n1 = []"
    using n1 n2 view_class [OF view1] by auto
  have "visit_edges owner is_end T a s = Some t" using s1(1) t(1) by (simp add: visit_edges_def)
  then show thesis by (rule that [OF _ t(2) g news clean]) (rule other)
qed

lemma walk_clean:
  assumes "edge_inv T legal s" "flist s = pre @ ys" "\<And>x. x \<in> set pre \<Longrightarrow> clean crosses s x"
  shows "\<exists>t. walk_frags (visit_edges owner is_end T) (first_in ys) s = Some t \<and> edge_inv T legal t \<and> grows T s t \<and>
     (\<forall>x\<in>set (flist t). clean crosses t x)"
  using assms
proof (induction "walk_wt T s ys" arbitrary: s pre ys rule: less_induct)
  case less
  show ?case
  proof (cases ys)
    case Nil
    have "walk_frags (visit_edges owner is_end T) None s = Some s" by (subst walk_frags.simps) simp
    then show ?thesis using Nil less.prems grows_refl by (auto simp: first_in_def)
  next
    case (Cons a zs)
    then have fl: "flist s = pre @ a # zs" using less.prems by simp
    obtain s1 news where s1: "visit_edges owner is_end T a s = Some s1" "edge_inv T legal s1" "grows T s s1"
      "flist s1 = pre @ a # news @ zs" "length news \<le> 2" "f_class (frag_at s a) = T \<longrightarrow> news = []"
      "clean crosses s1 a" "\<And>x sel. x \<in> set (flist s) \<Longrightarrow> x \<noteq> a \<Longrightarrow> get_succ sel (frag_at s1 x) = get_succ sel (frag_at s x)"
      by (rule visit_step [OF less.prems(1) fl]) blast
    have d: "distinct (pre @ a # zs)" "distinct (pre @ a # news @ zs)"
      using edge_invD(2) [OF less.prems(1)] edge_invD(2) [OF s1(2)] fl s1(4) by simp_all
    have new: "f_class (frag_at s1 x) = T" if "x \<in> set news" for x
      using s1(3,4) that d fl by (auto simp: grows_def)
    have old: "f_class (frag_at s1 x) = f_class (frag_at s x)" if "x \<in> set zs" for x
      using s1(3) that fl by (intro view_class) (simp add: grows_def)
    have "map (\<lambda>x. if f_class (frag_at s1 x) = T then 1 else 3) news = map (\<lambda>_. 1 :: nat) news"
      using new by simp
    then have "walk_wt T s1 (news @ zs) = length news + walk_wt T s zs"
      using old by (simp add: walk_wt_def sum_list_triv cong: map_cong)
    then have wt: "walk_wt T s1 (news @ zs) < walk_wt T s ys"
      using s1(5,6) Cons by (auto simp: walk_wt_def)
    have "clean crosses s1 x" if "x \<in> set (pre @ [a])" for x
    proof (cases "x = a")
      case False
      then have x: "x \<in> set (flist s)" "clean crosses s x" using that fl less.prems(3) by auto
      then show ?thesis using clean_grows [OF s1(3) less.prems(1) x s1(8)] False by blast
    qed (use s1(7) in simp)
    then obtain t where t: "walk_frags (visit_edges owner is_end T) (first_in (news @ zs)) s1 = Some t"
      "edge_inv T legal t" "grows T s1 t" "\<forall>x\<in>set (flist t). clean crosses t x"
      using less.hyps [OF wt s1(2), of "pre @ [a]"] s1(4) by auto
    have "next_in a (flist s1) = first_in (news @ zs)" using d(2) s1(4) next_in_append by simp
    then have "walk_frags (visit_edges owner is_end T) (first_in ys) s = Some t"
      using Cons s1(1) t(1) by (subst walk_frags.simps) (simp add: first_in_def)
    then show ?thesis using t grows_trans [OF less.prems(1) s1(3) t(3)] by blast
  qed
qed

end

section \<open>The four passes\<close>

definition any_edge :: "edge_view \<Rightarrow> edge_view \<Rightarrow> bool" where
  "any_edge x y = True"

interpretation flag_entries: edge_pass IsFlagEntry FlagEntryFragment "\<lambda>a b. b" flag_entry any_edge
  using IsFlagEntry_test by unfold_locales (auto simp: flag_entry_def flag_zone_border_def any_edge_def)

interpretation flag_exits: edge_pass IsFlagExit FlagExitFragment "\<lambda>a b. a" flag_exit any_edge
  using IsFlagExit_test by unfold_locales (auto simp: flag_exit_def flag_zone_border_def any_edge_def)

interpretation partition_entries:
  edge_pass IsPartitionEntry PartitionEntryFragment "\<lambda>a b. b" partition_entry partition_entry_legal
  using IsPartitionEntry_test by unfold_locales (auto simp: partition_entry_def partition_entry_legal_def)

interpretation partition_exits: edge_pass IsPartitionExit PartitionExitFragment "\<lambda>a b. a" partition_exit any_edge
  using IsPartitionExit_test by unfold_locales (auto simp: partition_exit_def any_edge_def)

lemma add_visits:
  "AddExitFragments is_end T s = walk_frags (visit_edges (\<lambda>a b. a) is_end T) (first_in (flist (ResetEntryExitFrag s)))
     (ResetEntryExitFrag s)"
  "AddEntryFragments is_end T s = walk_frags (visit_edges (\<lambda>a b. b) is_end T) (first_in (flist s)) s"
proof -
  have "visit_edges (\<lambda>a b. a) is_end T = (\<lambda>a s. Option.bind (AddExitFragment is_end T a kFragSuccFallThrough s)
      (AddExitFragment is_end T a kFragSuccBranch))"
    "visit_edges (\<lambda>a b. b) is_end T = (\<lambda>a s. Option.bind (AddEntryFragment is_end T a kFragSuccFallThrough s)
      (AddEntryFragment is_end T a kFragSuccBranch))"
    by (intro ext, simp add: visit_edges_def AddExitFragment_def AddEntryFragment_def)+
  then show "AddExitFragments is_end T s = walk_frags (visit_edges (\<lambda>a b. a) is_end T)
      (first_in (flist (ResetEntryExitFrag s))) (ResetEntryExitFrag s)"
    "AddEntryFragments is_end T s = walk_frags (visit_edges (\<lambda>a b. b) is_end T) (first_in (flist s)) s"
    by (simp_all add: AddExitFragments_def AddEntryFragments_def Let_def)
qed

lemma ResetEntryExitFrag_frag:
  "flist (ResetEntryExitFrag s) = flist s" "next_frag (ResetEntryExitFrag s) = next_frag s"
  "st_ok (ResetEntryExitFrag s) = st_ok s" "view (ResetEntryExitFrag s) a = view s a"
  "get_succ sel (frag_at (ResetEntryExitFrag s) a) = get_succ sel (frag_at s a)"
  "f_class (frag_at (ResetEntryExitFrag s) a) = f_class (frag_at s a)"
  "entry_exit_frag (frag_at (ResetEntryExitFrag s) a) = (if a \<in> set (flist s) then None else entry_exit_frag (frag_at s a))"
proof -
  let ?r = "\<lambda>as s. fold (\<lambda>a. upd_frag a (\<lambda>f. f\<lparr>entry_exit_frag := None\<rparr>)) as s"
  have "flist (?r as s) = flist s \<and> next_frag (?r as s) = next_frag s \<and> st_ok (?r as s) = st_ok s \<and>
    view (?r as s) a = view s a \<and> get_succ sel (frag_at (?r as s) a) = get_succ sel (frag_at s a) \<and>
    f_class (frag_at (?r as s) a) = f_class (frag_at s a) \<and>
    entry_exit_frag (frag_at (?r as s) a) = (if a \<in> set as then None else entry_exit_frag (frag_at s a))" for as
    by (induction as arbitrary: s) (simp_all add: st_ok_upd view_upd frag_at_upd_frag)
  then show "flist (ResetEntryExitFrag s) = flist s" "next_frag (ResetEntryExitFrag s) = next_frag s"
    "st_ok (ResetEntryExitFrag s) = st_ok s" "view (ResetEntryExitFrag s) a = view s a"
    "get_succ sel (frag_at (ResetEntryExitFrag s) a) = get_succ sel (frag_at s a)"
    "f_class (frag_at (ResetEntryExitFrag s) a) = f_class (frag_at s a)"
    "entry_exit_frag (frag_at (ResetEntryExitFrag s) a) = (if a \<in> set (flist s) then None else entry_exit_frag (frag_at s a))"
    by (simp_all add: ResetEntryExitFrag_def)
qed

lemma edge_inv_Reset:
  assumes "edge_inv T legal s"
  shows "edge_inv T' legal (ResetEntryExitFrag s)"
  unfolding edge_inv_def ResetEntryExitFrag_frag(1-5)
proof (intro conjI)
  show "\<forall>b\<in>set (flist s). \<forall>e. entry_exit_frag (frag_at (ResetEntryExitFrag s) b) = Some e \<longrightarrow>
      e \<in> set (flist s) \<and> goes_to T' (ResetEntryExitFrag s) b e"
    by (simp add: ResetEntryExitFrag_frag)
qed (use edge_invD(1-4) [OF assms] in blast)+

lemma edge_via_Reset: "edge_via T (ResetEntryExitFrag s) t a sel = edge_via T s t a sel"
  by (simp add: edge_via_def ResetEntryExitFrag_frag)

text \<open>A pass: how it walks, its test, the class of its fragments, and the edges its test accepts.\<close>

definition boundary_passes ::
    "((edge_test \<Rightarrow> frag_class \<Rightarrow> frag_state \<Rightarrow> frag_state option) \<times> edge_test \<times> frag_class \<times>
      (edge_view \<Rightarrow> edge_view \<Rightarrow> bool)) set" where
  "boundary_passes = {(AddEntryFragments, IsPartitionEntry, PartitionEntryFragment, partition_entry_legal),
     (AddExitFragments, IsPartitionExit, PartitionExitFragment, any_edge),
     (AddEntryFragments, IsFlagEntry, FlagEntryFragment, any_edge),
     (AddExitFragments, IsFlagExit, FlagExitFragment, any_edge)}"

context edge_pass
begin

lemma walk_result:
  assumes "edge_inv T legal r"
  shows "\<exists>t. walk_frags (visit_edges owner is_end T) (first_in (flist r)) r = Some t \<and> edge_inv T legal t \<and>
     (\<forall>a\<in>set (flist t). \<forall>sel b. get_succ sel (frag_at t a) = Some b \<longrightarrow> (\<exists>u. is_end a b t = Some (u, False))) \<and>
     grows T r t"
proof -
  obtain t where t: "walk_frags (visit_edges owner is_end T) (first_in (flist r)) r = Some t" "edge_inv T legal t"
    "grows T r t" "\<forall>x\<in>set (flist t). clean crosses t x"
    using walk_clean [OF assms, of "[]" "flist r"] by auto
  have "\<exists>u. is_end a b t = Some (u, False)" if "a \<in> set (flist t)" "get_succ sel (frag_at t a) = Some b" for a sel b
  proof -
    have "\<not> crosses (view t a) (view t b)" using t(4) that by (auto simp: clean_def)
    then show ?thesis using test [OF edge_invD(1) [OF t(2)], of a b] edge_invD(4) [OF t(2) that] by auto
  qed
  then show ?thesis using t by blast
qed

end

lemma grows_Reset:
  assumes "grows T (ResetEntryExitFrag s) t"
  shows "grows T s t"
  using assms unfolding grows_def edge_via_Reset ResetEntryExitFrag_frag(1,4) .

section \<open>Properties\<close>

text \<open>C23: each of the four passes that put fragments on edges returns, on every list whose fragments
  have their successors in it.  Afterwards the pass's test fails on every edge of the list, so
  every entry to and exit from a partition or a flag zone has its fragment.  All fragments are
  kept, the new ones have the class of the pass, and every edge is kept, either as it was or through
  one fragment of that class that leads to the old target and nowhere else.\<close>

theorem boundary_fragments_placed:
  assumes "(add, is_end, T, legal) \<in> boundary_passes" "edge_inv T legal s"
  shows "\<exists>t. add is_end T s = Some t \<and> edge_inv T legal t \<and>
     (\<forall>a\<in>set (flist t). \<forall>sel b. get_succ sel (frag_at t a) = Some b \<longrightarrow> (\<exists>u. is_end a b t = Some (u, False))) \<and>
     set (flist s) \<subseteq> set (flist t) \<and> (\<forall>a\<in>set (flist t) - set (flist s). f_class (frag_at t a) = T) \<and>
     (\<forall>a\<in>set (flist s). \<forall>sel. edge_via T s t a sel)"
proof -
  have fin: ?thesis if "\<exists>t. add is_end T s = Some t \<and> edge_inv T legal t \<and>
     (\<forall>a\<in>set (flist t). \<forall>sel b. get_succ sel (frag_at t a) = Some b \<longrightarrow> (\<exists>u. is_end a b t = Some (u, False))) \<and>
     grows T s t"
    using that unfolding grows_def by blast
  note reset = edge_inv_Reset [OF assms(2)]
  consider "add = AddEntryFragments" "is_end = IsPartitionEntry" "T = PartitionEntryFragment" "legal = partition_entry_legal"
    | "add = AddExitFragments" "is_end = IsPartitionExit" "T = PartitionExitFragment" "legal = any_edge"
    | "add = AddEntryFragments" "is_end = IsFlagEntry" "T = FlagEntryFragment" "legal = any_edge"
    | "add = AddExitFragments" "is_end = IsFlagExit" "T = FlagExitFragment" "legal = any_edge"
    using assms(1) by (auto simp: boundary_passes_def)
  then show ?thesis
  proof cases
    case 1
    show ?thesis
      using partition_entries.walk_result assms(2) by (intro fin) (simp add: 1 add_visits)
  next
    case 2
    show ?thesis
      using partition_exits.walk_result [of "ResetEntryExitFrag s"] reset grows_Reset
      by (intro fin) (simp only: 2 add_visits, blast)
  next
    case 3
    show ?thesis
      using flag_entries.walk_result assms(2) by (intro fin) (simp add: 3 add_visits)
  next
    case 4
    show ?thesis
      using flag_exits.walk_result [of "ResetEntryExitFrag s"] reset grows_Reset
      by (intro fin) (simp only: 4 add_visits, blast)
  qed
qed

definition two_partitions :: frag_state where
  "two_partitions =
     \<lparr>frag_at = (\<lambda>a. if a = 0 then (Fragment_new CodeFragment)\<lparr>succ_fall := Some 1\<rparr> else Fragment_new CodeFragment),
      instr_at = (\<lambda>_. Annotation kAnnotNoOp NoData), flist = [0, 1], next_frag = 2, next_instr = 0,
      parts = singletons (\<lambda>_. None), zones = singletons (\<lambda>_. FlagZone_new),
      info_at = (\<lambda>_. PartitionInfo_new 0), next_info = 0\<rparr>"

lemma sets_ok_singletons: "sets_ok n (singletons v)"
proof -
  have "root (singletons v) x = x" for x
    using root_iff [OF singletons_forest(1), of v x x] by (simp add: singletons_def is_root_self)
  then show ?thesis by (simp add: sets_ok_def singletons_forest)
qed

theorem boundary_fragments_placed_witness:
  "\<exists>t. AddExitFragments IsPartitionExit PartitionExitFragment two_partitions = Some t \<and> 0 \<in> set (flist t) \<and>
     edge_via PartitionExitFragment two_partitions t 0 kFragSuccFallThrough"
proof -
  have "st_ok two_partitions" by (simp add: st_ok_def two_partitions_def sets_ok_singletons)
  moreover have "get_succ sel (frag_at two_partitions a) = Some b \<longrightarrow> b = 1" for sel a b
    by (cases sel) (simp_all add: two_partitions_def get_succ_def Fragment_new_def)
  moreover have "entry_exit_frag (frag_at two_partitions a) = None" for a
    by (simp add: two_partitions_def Fragment_new_def)
  moreover have fl: "flist two_partitions = [0, 1]" "next_frag two_partitions = 2" by (simp_all add: two_partitions_def)
  ultimately have "edge_inv PartitionExitFragment any_edge two_partitions"
    by (auto simp: edge_inv_def any_edge_def)
  moreover have "(AddExitFragments, IsPartitionExit, PartitionExitFragment, any_edge) \<in> boundary_passes"
    by (simp add: boundary_passes_def)
  ultimately obtain t where "AddExitFragments IsPartitionExit PartitionExitFragment two_partitions = Some t"
    "set (flist two_partitions) \<subseteq> set (flist t)"
    "\<forall>a\<in>set (flist two_partitions). \<forall>sel. edge_via PartitionExitFragment two_partitions t a sel"
    using boundary_fragments_placed [of AddExitFragments IsPartitionExit PartitionExitFragment any_edge two_partitions]
    by blast
  then show ?thesis using fl by auto
qed

text \<open>The propagation of code cache kinds asks for the two kinds to be equal already.\<close>

lemma PropagateCodeCacheKinds_identity: "PropagateCodeCacheKinds s = s"
proof -
  have "PropagateCodeCacheKind a p s = s" for a p s
    by (cases p) (simp_all add: PropagateCodeCacheKind_def upd_frag_def)
  then have "fold (PropagateCodeCacheKind a) ps s = s" for a ps s by (induction ps) simp_all
  then have "fold (\<lambda>a s. fold (PropagateCodeCacheKind a) (successors (frag_at s a)) s) as s = s" for as
    by (induction as) simp_all
  then show ?thesis by (simp add: PropagateCodeCacheKinds_def)
qed

section \<open>Labels of partitions\<close>

definition label :: "frag_state \<Rightarrow> nat \<Rightarrow> nat option" where
  "label s a = ds_value (parts s) (root (parts s) a)"

text \<open>Labels given so far to the partitions of the fragments in \<open>D\<close>.\<close>

definition label_inv :: "frag_state \<Rightarrow> nat set \<Rightarrow> frag_state \<times> nat \<Rightarrow> bool" where
  "label_inv s D = (\<lambda>(t, k). forest (parts t) \<and> root (parts t) = root (parts s) \<and> next_info t = next_info s + k \<and>
     (\<forall>j<k. part_id (info_at t (next_info s + j)) = j + 1) \<and>
     (\<forall>r. ds_value (parts t) r \<noteq> None \<longleftrightarrow> r \<in> root (parts s) ` D) \<and>
     inj_on (ds_value (parts t)) (root (parts s) ` D) \<and>
     ds_value (parts t) ` root (parts s) ` D = Some ` {next_info s..<next_info s + k})"

lemma LabelPartition_step:
  assumes inv: "label_inv s D (t, k)"
  shows "\<exists>u k'. LabelPartition a (t, k) = Some (u, k') \<and> label_inv s (insert a D) (u, k')"
proof -
  let ?R = "root (parts s) ` D" and ?r = "root (parts s) a" and ?n = "next_info s + k"
  have f: "forest (parts t)" and rt: "root (parts t) = root (parts s)" and ni: "next_info t = ?n"
    and ids: "\<And>j. j < k \<Longrightarrow> part_id (info_at t (next_info s + j)) = j + 1"
    and dom: "\<And>r. ds_value (parts t) r \<noteq> None \<longleftrightarrow> r \<in> ?R"
    and inj: "inj_on (ds_value (parts t)) ?R"
    and img: "ds_value (parts t) ` ?R = Some ` {next_info s..<?n}"
    using inv by (simp_all add: label_inv_def)
  obtain ps where ps: "Find (parts t) a = Some (ps, ?r)" "forest ps" "root ps = root (parts s)"
    "ds_value ps = ds_value (parts t)"
    using Find_correct [OF f, of a] rt by metis
  define s1 where "s1 = (case ds_value ps ?r of Some _ \<Rightarrow> (t\<lparr>parts := ps\<rparr>, k)
      | None \<Rightarrow> (t\<lparr>parts := ps\<lparr>ds_value := (ds_value ps)(?r := Some ?n)\<rparr>,
          info_at := (info_at t)(?n := PartitionInfo_new (k + 1)), next_info := ?n + 1\<rparr>, k + 1))"
  have inv1: "label_inv s (insert a D) s1"
  proof (cases "ds_value ps ?r")
    case None
    then have r: "?r \<notin> ?R" using dom [of ?r] ps(4) by metis
    define v where "v = (ds_value (parts t))(?r := Some ?n)"
    have vr: "v ?r = Some ?n" by (simp add: v_def)
    have vx: "v x = ds_value (parts t) x" if "x \<noteq> ?r" for x using that by (simp add: v_def)
    have R: "v x = ds_value (parts t) x" if "x \<in> ?R" for x using vx r that by metis
    have img': "v ` ?R = Some ` {next_info s..<?n}" using img R by (metis image_cong)
    have "inj_on v ?R" using inj inj_on_cong [of ?R v "ds_value (parts t)"] R by blast
    moreover have "v ?r \<notin> v ` ?R" unfolding img' vr by auto
    ultimately have inj': "inj_on v (insert ?r ?R)" using r by simp
    have "{next_info s..<?n + 1} = insert ?n {next_info s..<?n}" by auto
    then have img'': "v ` insert ?r ?R = Some ` {next_info s..<?n + 1}"
      using img' v_def by (simp only: image_insert fun_upd_same)
    have dom': "v x \<noteq> None \<longleftrightarrow> x \<in> insert ?r ?R" for x using dom by (auto simp: v_def)
    have ids': "part_id (((info_at t)(?n := PartitionInfo_new (k + 1))) (next_info s + j)) = j + 1" if "j < k + 1" for j
      using that ids by (auto simp: PartitionInfo_new_def less_Suc_eq)
    have "s1 = (t\<lparr>parts := ps\<lparr>ds_value := v\<rparr>, info_at := (info_at t)(?n := PartitionInfo_new (k + 1)),
        next_info := ?n + 1\<rparr>, k + 1)"
      using None by (simp add: s1_def v_def ps(4))
    then show ?thesis
      using inj' img'' dom' ids' ps(2,3) unfolding label_inv_def image_insert by simp
  next
    case (Some i)
    then have "insert ?r ?R = ?R" using dom [of ?r] ps(4) by auto
    then show ?thesis using Some ps ids dom inj img ni by (simp add: s1_def label_inv_def)
  qed
  have frame: "label_inv s E (upd_frag b g u, k') = label_inv s E (u, k')" for E b g u k'
    by (simp add: label_inv_def)
  have fold: "label_inv s E (fold (\<lambda>p s. case p of None \<Rightarrow> s
      | Some b \<Rightarrow> upd_frag b (\<lambda>f. f\<lparr>num_predecessors := num_predecessors f + 1\<rparr>) s) qs u, k') = label_inv s E (u, k')" for E qs u k'
    by (induction qs arbitrary: u) (auto simp: frame split: option.split)
  show ?thesis
    using inv1 ps(1) unfolding s1_def
    by (auto simp: LabelPartition_def Let_def ni frame fold split: option.split)
qed

lemma LabelPartitions_fold:
  "label_inv s D (t, k) \<Longrightarrow> \<exists>u k'. opt_fold LabelPartition as (t, k) = Some (u, k') \<and> label_inv s (D \<union> set as) (u, k')"
proof (induction as arbitrary: D t k)
  case (Cons a as)
  obtain u k' where u: "LabelPartition a (t, k) = Some (u, k')" "label_inv s (insert a D) (u, k')"
    using LabelPartition_step [OF Cons.prems] by blast
  have "insert a D \<union> set as = D \<union> set (a # as)" by simp
  then show ?case using Cons.IH [OF u(2)] u(1) by simp
qed simp

text \<open>labelling the partitions returns and numbers them one to some count: every fragment of the
  list gets a label, two of them the same label exactly when they are in the same partition, and
  the identities of the labels are the numbers from one to the count.\<close>

theorem partitions_labelled:
  assumes "forest (parts s)" "\<forall>r. ds_value (parts s) r = None"
  shows "\<exists>t N. LabelPartitions s = Some t \<and> (\<forall>a\<in>set (flist s). label t a \<noteq> None) \<and>
     (\<forall>a b. {a, b} \<subseteq> set (flist s) \<longrightarrow> (label t a = label t b \<longleftrightarrow> same_set (parts s) a b)) \<and>
     (\<lambda>a. part_id (info_at t (the (label t a)))) ` set (flist s) = {1..N}"
proof -
  have "label_inv s {} (s, 0)" using assms by (simp add: label_inv_def)
  then obtain t N where t: "opt_fold LabelPartition (flist s) (s, 0) = Some (t, N)" "label_inv s (set (flist s)) (t, N)"
    using LabelPartitions_fold [of s "{}" s 0 "flist s"] by auto
  let ?R = "root (parts s) ` set (flist s)" and ?v = "ds_value (parts t)"
  have lab: "label t a = ?v (root (parts s) a)" for a using t(2) by (simp add: label_inv_def label_def)
  have inj: "inj_on ?v ?R" and img: "?v ` ?R = Some ` {next_info s..<next_info s + N}"
    and dom: "\<And>r. ?v r \<noteq> None \<longleftrightarrow> r \<in> ?R"
    and ids: "\<And>j. j < N \<Longrightarrow> part_id (info_at t (next_info s + j)) = j + 1"
    using t(2) by (simp_all add: label_inv_def)
  have "label t a = label t b \<longleftrightarrow> same_set (parts s) a b" if "{a, b} \<subseteq> set (flist s)" for a b
    using that inj_on_eq_iff [OF inj, of "root (parts s) a" "root (parts s) b"]
    by (simp add: lab same_set_iff [OF assms(1)])
  moreover have "(\<lambda>a. part_id (info_at t (the (label t a)))) ` set (flist s) = {1..N}"
  proof -
    have "(\<lambda>a. part_id (info_at t (the (label t a)))) ` set (flist s) = (\<lambda>l. part_id (info_at t (the l))) ` ?v ` ?R"
      by (simp add: lab image_image)
    also have "\<dots> = (\<lambda>i. part_id (info_at t i)) ` {next_info s..<next_info s + N}"
      unfolding img by (simp add: image_image)
    also have "{next_info s..<next_info s + N} = (\<lambda>j. next_info s + j) ` {..<N}"
      by (simp add: lessThan_atLeast0 add.commute)
    also have "(\<lambda>i. part_id (info_at t i)) ` (\<lambda>j. next_info s + j) ` {..<N} = (\<lambda>j. j + 1) ` {..<N}"
      unfolding image_image using ids by (intro image_cong) auto
    also have "\<dots> = Suc ` {0..<N}" by (simp add: lessThan_atLeast0)
    also have "\<dots> = {1..N}"
      by (simp only: image_Suc_atLeastLessThan atLeastLessThanSuc_atLeastAtMost One_nat_def)
    finally show ?thesis .
  qed
  moreover have "label t a \<noteq> None" if "a \<in> set (flist s)" for a using dom that by (simp add: lab)
  ultimately show ?thesis using t(1) by (auto simp: LabelPartitions_def)
qed

theorem partitions_labelled_witness:
  "\<exists>t N. LabelPartitions two_partitions = Some t \<and> label t 0 \<noteq> label t 1 \<and>
     (\<lambda>a. part_id (info_at t (the (label t a)))) ` {0, 1} = {1..N}"
proof -
  have fl: "set (flist two_partitions) = {0, 1}" and ne: "\<not> same_set (parts two_partitions) 0 1"
    by (simp_all add: two_partitions_def singletons_forest)
  have "forest (parts two_partitions)" "\<forall>r. ds_value (parts two_partitions) r = None"
    by (simp add: two_partitions_def singletons_forest, simp add: two_partitions_def singletons_def)
  then obtain t N where "LabelPartitions two_partitions = Some t"
    "\<forall>a b. {a, b} \<subseteq> {0, 1} \<longrightarrow> (label t a = label t b \<longleftrightarrow> same_set (parts two_partitions) a b)"
    "(\<lambda>a. part_id (info_at t (the (label t a)))) ` {0, 1} = {1..N}"
    using partitions_labelled [of two_partitions] unfolding fl by blast
  then show ?thesis using ne by blast
qed

end
