(* ===== verification/Track_VRs.thy ===== *)
theory Track_VRs
  imports Fragments
begin

text \<open>
  The assembler's pass that tracks virtual registers through the fragment graph
  (\<^verbatim>\<open>granary/code/assemble/6_track_virtual_regs.cc\<close> and its architecture-specific part):
  the registers each instruction uses and defines, the registers live on entry to and exit from
  each fragment, their propagation against the control flow, the extension of live ranges, and
  the compensating fragments on edges where a live register dies.

  \<^const>\<open>None\<close> is a failed assertion, or the propagation loop running forever.
\<close>

section \<open>Registers used and defined by an instruction\<close>

definition IfClearedByXor :: "NativeInstruction \<Rightarrow> nat \<Rightarrow> bool" where
  "IfClearedByXor ni op = (op = 0 \<and> vr_eq (op_reg (ops ni ! 0)) (op_reg (ops ni ! 1)))"

definition IfClearedBySub :: "NativeInstruction \<Rightarrow> nat \<Rightarrow> bool" where
  "IfClearedBySub ni op = (op = 0 \<and> vr_eq (op_reg (ops ni ! 0)) (op_reg (ops ni ! 1)))"

definition IfClearedByAnd :: "NativeInstruction \<Rightarrow> nat \<Rightarrow> bool" where
  "IfClearedByAnd ni op = (op = 0 \<and> op_imm (ops ni ! 1) = 0)"

text \<open>The numbers are the instruction forms \<^verbatim>\<open>XOR_GPR8_GPR8_30\<close>, \<^verbatim>\<open>_32\<close>,
  \<^verbatim>\<open>XOR_GPRv_GPRv_31\<close>, \<^verbatim>\<open>_33\<close>, the four of \<^verbatim>\<open>SUB\<close> and the four of
  \<^verbatim>\<open>AND\<close> with an immediate.  An operand is given by its index.\<close>

definition OperandIsWrite :: "NativeInstruction \<Rightarrow> nat \<Rightarrow> bool" where
  "OperandIsWrite ni op =
     (if iform ni \<in> {5827, 5828, 5832, 5833} then IfClearedByXor ni op
      else if iform ni \<in> {1742, 1743, 1747, 1748} then IfClearedBySub ni op
      else if iform ni \<in> {76, 77, 81, 82} then IfClearedByAnd ni op
      else False)"

type_synonym op_state = "NativeInstruction \<times> (nat \<Rightarrow> u16)"

definition add_use :: "nat \<Rightarrow> op_state \<Rightarrow> op_state option" where
  "add_use vr_id = (\<lambda>(ni, defs).
     if length (used_vrs ni) < 4 then Some (ni\<lparr>used_vrs := used_vrs ni @ [vr_id]\<rparr>, defs) else None)"

definition add_def :: "nat \<Rightarrow> op_state \<Rightarrow> op_state option" where
  "add_def vr_id = (\<lambda>(ni, defs).
     if defined_vr ni = 0 then Some (ni\<lparr>defined_vr := vr_id\<rparr>, defs) else None)"

definition AddOperand ::
    "xed_api \<Rightarrow> nat \<Rightarrow> Operand \<Rightarrow> VirtualRegister \<Rightarrow> op_state \<Rightarrow> op_state option" where
  "AddOperand X i op reg = (\<lambda>(ni, defs).
     if \<not> IsVirtual reg then Some (ni, defs)
     else let vr_id = Number reg; defs' = defs(vr_id := defs vr_id + 1) in
       if IsMemory op then add_use vr_id (ni, defs)
       else if IsConditionalWrite X op \<or> IsReadWrite X op
       then if OperandIsWrite ni i then add_def vr_id (ni, defs') else add_use vr_id (ni, defs')
       else if IsWrite X op
       then if \<not> is_definition op \<and> PreservesBytesOnWrite reg then add_use vr_id (ni, defs')
            else add_def vr_id (ni, defs')
       else add_use vr_id (ni, defs))"

definition AddOpVRs :: "xed_api \<Rightarrow> nat \<times> Operand \<Rightarrow> op_state \<Rightarrow> op_state option" where
  "AddOpVRs X = (\<lambda>(i, op) st.
     if \<not> is_explicit op then Some st
     else if IsRegister op then AddOperand X i op (op_reg op) st
     else if IsMemory op
     then if IsPointer op then Some st
          else (case CountMatchedRegisters op of [] \<Rightarrow> Some st
                | [r1] \<Rightarrow> Option.bind (AddOperand X i op r1 st) (AddOperand X i op VirtualRegister_default)
                | r1 # r2 # _ \<Rightarrow> Option.bind (AddOperand X i op r1 st) (AddOperand X i op r2))
     else Some st)"

definition valid_ops :: "NativeInstruction \<Rightarrow> (nat \<times> Operand) list" where
  "valid_ops ni = filter (\<lambda>(i, op). Operand_IsValid op) (enumerate 0 (ops ni))"

text \<open>What the second half of the function does with the registers of the instruction.\<close>

definition instr_regs :: "NativeInstruction \<Rightarrow> Fragment \<Rightarrow> Fragment" where
  "instr_regs ni f =
     (let used = set (filter (\<lambda>v. v \<noteq> 0) (used_vrs ni));
          f1 = f\<lparr>entry_regs := entry_regs f \<union> used, exit_regs := exit_regs f \<union> used\<rparr>
      in if defined_vr ni \<noteq> 0
         then f1\<lparr>entry_regs := entry_regs f1 - {defined_vr ni},
                 exit_regs := insert (defined_vr ni) (exit_regs f1)\<rparr>
         else f1)"

definition FindInstructionVRs_instr :: "xed_api \<Rightarrow> nat \<Rightarrow> nat \<Rightarrow> frag_state \<Rightarrow> frag_state option" where
  "FindInstructionVRs_instr X a i s =
     (case native_at s i of None \<Rightarrow> Some s
      | Some ni \<Rightarrow>
          map_option (\<lambda>(ni', defs).
             upd_frag a (\<lambda>f. instr_regs ni' (f\<lparr>def_regs := defs\<rparr>))
               (s\<lparr>instr_at := (instr_at s)(i := Native ni')\<rparr>))
           (opt_fold (AddOpVRs X) (valid_ops ni) (ni, def_regs (frag_at s a))))"

definition FindInstructionVRs_frag :: "xed_api \<Rightarrow> nat \<Rightarrow> frag_state \<Rightarrow> frag_state option" where
  "FindInstructionVRs_frag X a s =
     (if is_code s a then opt_fold (FindInstructionVRs_instr X a) (rev (f_instrs (frag_at s a))) s
      else Some s)"

definition FindInstructionVRs :: "xed_api \<Rightarrow> frag_state \<Rightarrow> frag_state option" where
  "FindInstructionVRs X s = opt_fold (FindInstructionVRs_frag X) (flist s) s"

section \<open>Back-propagation\<close>

text \<open>One edge: the registers live on entry to the successor and not yet on exit from the
  predecessor.  The result says whether there were any.\<close>

definition BackPropagate_edge :: "nat \<Rightarrow> nat \<Rightarrow> frag_state \<times> bool \<Rightarrow> frag_state \<times> bool" where
  "BackPropagate_edge pred succ = (\<lambda>(s, changed).
     let new = entry_regs (frag_at s succ) - exit_regs (frag_at s pred) in
     (upd_frag pred (\<lambda>f. f\<lparr>exit_regs := exit_regs f \<union> new,
         entry_regs := (if follows_partition_entrypoint (attr f) then entry_regs f
                        else entry_regs f \<union> new)\<rparr>) s,
      new \<noteq> {} \<or> changed))"

definition BackPropagate_frag :: "nat \<Rightarrow> frag_state \<times> bool \<Rightarrow> frag_state \<times> bool" where
  "BackPropagate_frag a = (\<lambda>(s, changed).
     if is_code s a then fold (BackPropagate_edge a) (code_succs s a) (s, changed) else (s, changed))"

definition BackPropagate_round :: "frag_state \<Rightarrow> frag_state \<times> bool" where
  "BackPropagate_round s = fold BackPropagate_frag (rev (flist s)) (s, False)"

partial_function (option) BackPropagateEntryDefs :: "frag_state \<Rightarrow> frag_state option" where
  "BackPropagateEntryDefs s =
     (let r = BackPropagate_round s in if snd r then BackPropagateEntryDefs (fst r) else Some (fst r))"

section \<open>Extending live ranges\<close>

definition GetDefSet :: "frag_state \<Rightarrow> nat \<Rightarrow> nat set" where
  "GetDefSet s a = {v \<in> exit_regs (frag_at s a). v \<notin> entry_regs (frag_at s a)}"

text \<open>Whether the edge to a successor stays in the partition and goes to code at least as hot;
  the comparison of the partitions compresses paths.\<close>

definition extend_edge :: "nat \<Rightarrow> nat option \<Rightarrow> frag_state \<Rightarrow> (frag_state \<times> bool) option" where
  "extend_edge a p s =
     (case p of None \<Rightarrow> Some (s, False)
      | Some b \<Rightarrow>
          if f_cache (frag_at s a) < f_cache (frag_at s b) then Some (s, False)
          else Option.bind (set_eq (parts s) a b) (\<lambda>(ps, same).
                 Some (s\<lparr>parts := ps\<rparr>, same \<and> is_code s b)))"

definition extend_exit :: "nat \<Rightarrow> frag_state \<Rightarrow> frag_state option" where
  "extend_exit a s =
     (if is_code s a
      then map_option (\<lambda>(s', def_set). upd_frag a (\<lambda>f. f\<lparr>exit_regs := exit_regs f \<union> def_set\<rparr>) s')
             (opt_fold (\<lambda>p (s, def_set).
                Option.bind (extend_edge a p s) (\<lambda>(s', ok).
                  Some (s', if ok then def_set \<union> GetDefSet s' (the p) else def_set)))
               (successors (frag_at s a)) (s, {}))
      else Some s)"

definition extend_entry :: "nat \<Rightarrow> frag_state \<Rightarrow> frag_state option" where
  "extend_entry a s =
     (if is_code s a
      then opt_fold (\<lambda>p s.
             Option.bind (extend_edge a p s) (\<lambda>(s', ok).
               Some (if ok
                     then upd_frag (the p)
                            (\<lambda>f. f\<lparr>entry_regs := entry_regs f \<union> GetDefSet s' (the p)\<rparr>) s'
                     else s')))
             (successors (frag_at s a)) s
      else Some s)"

definition ExtendLiveRanges :: "frag_state \<Rightarrow> frag_state option" where
  "ExtendLiveRanges s =
     Option.bind (opt_fold extend_exit (rev (flist s)) s) (\<lambda>s1.
       opt_fold extend_entry (rev (flist s1)) s1)"

section \<open>Compensating fragments\<close>

definition MakeCompensatingFrag ::
    "nat \<Rightarrow> succ_sel \<Rightarrow> nat \<Rightarrow> nat set \<Rightarrow> nat set \<Rightarrow> frag_state \<Rightarrow> frag_state option" where
  "MakeCompensatingFrag pred sel succ entry exit s =
     (let (comp, s1) = alloc_frag CodeFragment s;
          p = frag_at s1 pred; q = frag_at s1 succ
      in Option.bind (Union None (parts s1) comp pred) (\<lambda>parts'.
         Option.bind (Union FlagZone_new (zones s1) comp succ) (\<lambda>zones'.
           let s2 = upd_frag comp (\<lambda>f. f\<lparr>attr := (attr f)\<lparr>is_compensation_frag := True\<rparr>,
                      entry_regs := entry_regs f \<union> entry, exit_regs := exit_regs f \<union> exit,
                      block_meta := block_meta p, stack_status := stack_status p,
                      f_cache := (if f_cache p < f_cache q then f_cache q else f_cache p),
                      succ_fall := Some succ\<rparr>)
                    (s1\<lparr>parts := parts', zones := zones'\<rparr>)
           in Some ((upd_frag pred (set_succ sel (Some comp)) s2)
                      \<lparr>flist := insert_after pred comp (flist s)\<rparr>))))"

definition AddCompensatingFragment :: "nat \<Rightarrow> succ_sel \<Rightarrow> frag_state \<Rightarrow> frag_state option" where
  "AddCompensatingFragment pred sel s =
     (case get_succ sel (frag_at s pred) of None \<Rightarrow> Some s
      | Some succ \<Rightarrow>
          if exit_regs (frag_at s pred) = {} then Some s
          else if is_code s succ
          then if is_compensation_frag (attr (frag_at s succ)) then Some s
               else if exit_regs (frag_at s pred) \<subseteq> entry_regs (frag_at s succ) then Some s
               else MakeCompensatingFrag pred sel succ (exit_regs (frag_at s pred))
                      (entry_regs (frag_at s succ)) s
          else MakeCompensatingFrag pred sel succ (exit_regs (frag_at s pred)) {} s)"

definition AddCompensating_frag :: "nat \<Rightarrow> frag_state \<Rightarrow> frag_state option" where
  "AddCompensating_frag a s =
     (if is_code s a \<and> \<not> is_compensation_frag (attr (frag_at s a))
      then Option.bind (AddCompensatingFragment a kFragSuccFallThrough s)
             (AddCompensatingFragment a kFragSuccBranch)
      else Some s)"

text \<open>The list is walked backwards and a compensating fragment goes after the current one, so
  the walk is over the fragments the list had.\<close>

definition AddCompensatingFragments :: "frag_state \<Rightarrow> frag_state option" where
  "AddCompensatingFragments s = opt_fold AddCompensating_frag (rev (flist s)) s"

definition TrackVirtualRegs :: "xed_api \<Rightarrow> frag_state \<Rightarrow> frag_state option" where
  "TrackVirtualRegs X s =
     Option.bind (FindInstructionVRs X s) (\<lambda>s1.
     Option.bind (BackPropagateEntryDefs s1) (\<lambda>s2.
     Option.bind (ExtendLiveRanges s2) AddCompensatingFragments))"

section \<open>Back-propagation computes the live registers\<close>

text \<open>The specification: a register is live on entry to a fragment when some path of code edges
  leads to a fragment that uses it before defining it, through fragments that neither mention it
  nor follow the entry of a partition.\<close>

inductive live_in :: "frag_state \<Rightarrow> nat \<Rightarrow> nat \<Rightarrow> bool" for s where
  live_here: "v \<in> entry_regs (frag_at s a) \<Longrightarrow> live_in s v a"
| live_succ: "a \<in> set (flist s) \<Longrightarrow> is_code s a \<Longrightarrow> b \<in> set (code_succs s a) \<Longrightarrow> live_in s v b \<Longrightarrow>
    v \<notin> exit_regs (frag_at s a) \<Longrightarrow> \<not> follows_partition_entrypoint (attr (frag_at s a)) \<Longrightarrow>
    live_in s v a"

inductive_cases live_inE: "live_in s v a"

text \<open>The part of a state the propagation does not change.\<close>

definition core :: "Fragment \<Rightarrow> Fragment" where
  "core f = f\<lparr>entry_regs := {}, exit_regs := {}, def_regs := (\<lambda>_. 0)\<rparr>"

definition no_frags :: "frag_state \<Rightarrow> frag_state" where
  "no_frags s = s\<lparr>frag_at := (\<lambda>_. Fragment_new CodeFragment), instr_at := (\<lambda>_. Annotation kAnnotNoOp NoData)\<rparr>"

definition same_core :: "frag_state \<Rightarrow> frag_state \<Rightarrow> bool" where
  "same_core s t \<longleftrightarrow> no_frags t = no_frags s \<and> (\<forall>a. core (frag_at t a) = core (frag_at s a))"

lemma no_frags_upd [simp]: "no_frags (upd_frag a f s) = no_frags s"
  by (simp add: no_frags_def upd_frag_def)

lemma no_fragsD:
  assumes "no_frags t = no_frags s"
  shows "flist t = flist s" "parts t = parts s" "zones t = zones s" "next_frag t = next_frag s"
  using assms by (cases s; cases t; simp add: no_frags_def)+

lemma core_regs [simp]:
  "core (f\<lparr>exit_regs := x\<rparr>) = core f" "core (f\<lparr>entry_regs := x\<rparr>) = core f"
  "core (f\<lparr>def_regs := d\<rparr>) = core f"
  by (simp_all add: core_def)

lemma coreD:
  assumes "core f = core g"
  shows "f_class f = f_class g" "succ_fall f = succ_fall g" "succ_branch f = succ_branch g"
    "attr f = attr g" "f_cache f = f_cache g" "f_instrs f = f_instrs g"
  using assms by (cases f; cases g; simp add: core_def)+

lemma same_coreD:
  assumes "same_core s t"
  shows "flist t = flist s" "is_code t a = is_code s a" "code_succs t a = code_succs s a"
    "attr (frag_at t a) = attr (frag_at s a)" "parts t = parts s" "zones t = zones s"
    "next_frag t = next_frag s" "f_class (frag_at t a) = f_class (frag_at s a)"
    "successors (frag_at t a) = successors (frag_at s a)" "f_cache (frag_at t a) = f_cache (frag_at s a)"
proof -
  have c: "core (frag_at t b) = core (frag_at s b)" for b using assms by (simp add: same_core_def)
  show "flist t = flist s" "parts t = parts s" "zones t = zones s" "next_frag t = next_frag s"
    using assms no_fragsD [of t s] by (simp_all add: same_core_def)
  have code: "is_code t b = is_code s b" for b using coreD(1) [OF c [of b]] by (simp add: is_code_iff)
  then show "is_code t a = is_code s a" .
  show succ: "successors (frag_at t a) = successors (frag_at s a)"
    using coreD [OF c [of a]] by (simp add: successors_def)
  show "code_succs t a = code_succs s a" 
    using ext [of "is_code t" "is_code s", OF code] succ by (simp add: code_succs_def)
  show "attr (frag_at t a) = attr (frag_at s a)" "f_class (frag_at t a) = f_class (frag_at s a)"
    "f_cache (frag_at t a) = f_cache (frag_at s a)"
    using coreD [OF c [of a]] by simp_all
qed

definition bp_inv :: "frag_state \<Rightarrow> frag_state \<Rightarrow> bool" where
  "bp_inv s t \<longleftrightarrow> same_core s t \<and>
     (\<forall>a. exit_regs (frag_at s a) \<subseteq> exit_regs (frag_at t a) \<and>
          exit_regs (frag_at t a) \<subseteq> exit_regs (frag_at s a) \<union>
            {v. a \<in> set (flist s) \<and> is_code s a \<and> (\<exists>b\<in>set (code_succs s a). live_in s v b)} \<and>
          entry_regs (frag_at t a) = entry_regs (frag_at s a) \<union>
            (if follows_partition_entrypoint (attr (frag_at s a)) then {}
             else exit_regs (frag_at t a) - exit_regs (frag_at s a)))"

lemma bp_inv_refl: "bp_inv s s"
  by (auto simp: bp_inv_def same_core_def)

lemma bp_inv_live: "bp_inv s t \<Longrightarrow> v \<in> entry_regs (frag_at t a) \<Longrightarrow> live_in s v a"
  unfolding bp_inv_def by (drule conjunct2, drule spec [of _ a]) (auto split: if_splits intro: live_here live_succ)

lemma same_core_upd: "same_core s t \<Longrightarrow> core (f (frag_at t a)) = core (frag_at t a) \<Longrightarrow>
    same_core s (upd_frag a f t)"
  by (simp add: same_core_def frag_at_upd_frag)

lemma same_core_edge: "same_core s t \<Longrightarrow> same_core s (fst (BackPropagate_edge a b (t, c)))"
  by (simp add: BackPropagate_edge_def Let_def same_core_upd)

lemma bp_inv_edge:
  assumes inv: "bp_inv s t" and a: "a \<in> set (flist s)" "is_code s a" "b \<in> set (code_succs s a)"
  shows "bp_inv s (fst (BackPropagate_edge a b (t, c)))"
proof -
  define new where "new = entry_regs (frag_at t b) - exit_regs (frag_at t a)"
  let ?t = "fst (BackPropagate_edge a b (t, c))"
  have core: "same_core s t" using inv by (simp add: bp_inv_def)
  note attr = same_coreD(4) [OF core]
  have live: "new \<subseteq> {v. live_in s v b}" using bp_inv_live [OF inv] by (auto simp: new_def)
  have exit: "exit_regs (frag_at ?t x) = (if x = a then exit_regs (frag_at t a) \<union> new else exit_regs (frag_at t x))" for x
    by (simp add: BackPropagate_edge_def Let_def frag_at_upd_frag new_def)
  have entry: "entry_regs (frag_at ?t x) = (if x = a \<and> \<not> follows_partition_entrypoint (attr (frag_at s a))
      then entry_regs (frag_at t a) \<union> new else entry_regs (frag_at t x))" for x
    by (simp add: BackPropagate_edge_def Let_def frag_at_upd_frag new_def attr)
  have dis: "new \<inter> exit_regs (frag_at s a) = {}" using inv by (auto simp: new_def bp_inv_def)
  show ?thesis unfolding bp_inv_def exit entry
    using same_core_edge [OF core] inv live dis a by (auto simp: bp_inv_def)
qed

text \<open>The number of registers the fragments of the list can still gain.\<close>

definition nodes :: "frag_state \<Rightarrow> nat set" where
  "nodes s = set (flist s) \<union> (\<Union>a\<in>set (flist s). set (code_succs s a))"

definition live_universe :: "frag_state \<Rightarrow> nat set" where
  "live_universe s = (\<Union>a\<in>nodes s. entry_regs (frag_at s a))"

definition bp_measure :: "frag_state \<Rightarrow> frag_state \<Rightarrow> nat" where
  "bp_measure s t = (\<Sum>a\<in>set (flist s). card (live_universe s - exit_regs (frag_at t a)))"

lemma live_in_universe: "live_in s v a \<Longrightarrow> a \<in> nodes s \<Longrightarrow> v \<in> live_universe s"
  by (induction rule: live_in.induct) (auto simp: live_universe_def nodes_def)

lemma bp_measure_edge:
  assumes inv: "bp_inv s t" and fin: "finite (live_universe s)"
    and a: "a \<in> set (flist s)" "is_code s a" "b \<in> set (code_succs s a)"
  shows "bp_measure s (fst (BackPropagate_edge a b (t, c))) \<le> bp_measure s t"
    and "\<not> entry_regs (frag_at t b) \<subseteq> exit_regs (frag_at t a) \<Longrightarrow>
         bp_measure s (fst (BackPropagate_edge a b (t, c))) < bp_measure s t"
proof -
  let ?t = "fst (BackPropagate_edge a b (t, c))" and ?U = "live_universe s"
  have exit: "exit_regs (frag_at ?t x) = (if x = a then exit_regs (frag_at t a) \<union>
      entry_regs (frag_at t b) else exit_regs (frag_at t x))" for x
    by (simp add: BackPropagate_edge_def Let_def frag_at_upd_frag)
  have le: "card (?U - exit_regs (frag_at ?t x)) \<le> card (?U - exit_regs (frag_at t x))" for x
    using fin by (auto simp: exit intro!: card_mono)
  then show "bp_measure s ?t \<le> bp_measure s t" unfolding bp_measure_def by (rule sum_mono)
  assume "\<not> entry_regs (frag_at t b) \<subseteq> exit_regs (frag_at t a)"
  then obtain v where v: "v \<in> entry_regs (frag_at t b)" "v \<notin> exit_regs (frag_at t a)" by blast
  have "b \<in> nodes s" using a by (auto simp: nodes_def)
  then have "v \<in> ?U" using bp_inv_live [OF inv v(1)] live_in_universe by blast
  then have "?U - exit_regs (frag_at ?t a) \<subset> ?U - exit_regs (frag_at t a)"
    using v by (auto simp: exit)
  then have "card (?U - exit_regs (frag_at ?t a)) < card (?U - exit_regs (frag_at t a))"
    using fin by (intro psubset_card_mono) auto
  then show "bp_measure s ?t < bp_measure s t"
    unfolding bp_measure_def using a(1) le by (intro sum_strict_mono_ex1) auto
qed

text \<open>A round visits every code edge out of a fragment of the list.\<close>

definition code_edges :: "frag_state \<Rightarrow> nat list \<Rightarrow> (nat \<times> nat) list" where
  "code_edges s as = concat (map (\<lambda>a. if is_code s a then map (Pair a) (code_succs s a) else []) as)"

abbreviation run_edges :: "(nat \<times> nat) list \<Rightarrow> frag_state \<times> bool \<Rightarrow> frag_state \<times> bool" where
  "run_edges es \<equiv> fold (\<lambda>(a, b). BackPropagate_edge a b) es"

lemma in_code_edges:
  "(a, b) \<in> set (code_edges s as) \<longleftrightarrow> a \<in> set as \<and> is_code s a \<and> b \<in> set (code_succs s a)"
  by (auto simp: code_edges_def)

lemma run_edges_map: "fold (BackPropagate_edge a) bs st = run_edges (map (Pair a) bs) st"
  by (induction bs arbitrary: st) auto

lemma run_edges_core: "same_core s t \<Longrightarrow> same_core s (fst (run_edges es (t, c)))"
proof (induction es arbitrary: t c)
  case (Cons e es)
  obtain a b where e: "e = (a, b)" by (cases e)
  have "same_core s (fst (BackPropagate_edge a b (t, c)))" by (rule same_core_edge [OF Cons.prems])
  then show ?case using Cons.IH by (cases "BackPropagate_edge a b (t, c)") (simp add: e)
qed simp

lemma round_edges:
  assumes "same_core s t"
  shows "fold BackPropagate_frag as (t, c) = run_edges (code_edges s as) (t, c)"
  using assms
proof (induction as arbitrary: t c)
  case (Cons a as)
  let ?es = "if is_code s a then map (Pair a) (code_succs s a) else []"
  have step: "BackPropagate_frag a (t, c) = run_edges ?es (t, c)"
    by (simp add: BackPropagate_frag_def same_coreD [OF Cons.prems] run_edges_map)
  obtain t' c' where t': "run_edges ?es (t, c) = (t', c')" by (cases "run_edges ?es (t, c)")
  then have "same_core s t'" using run_edges_core [OF Cons.prems, of ?es c] by simp
  then have "fold BackPropagate_frag as (t', c') = run_edges (code_edges s as) (t', c')" by (rule Cons.IH)
  moreover have "code_edges s (a # as) = ?es @ code_edges s as" by (simp add: code_edges_def)
  ultimately show ?case using step t' by simp
qed (simp add: code_edges_def)

lemma edge_unchanged:
  assumes "\<not> snd (BackPropagate_edge a b (t, c))"
  shows "BackPropagate_edge a b (t, c) = (t, False) \<and> \<not> c \<and>
    entry_regs (frag_at t b) \<subseteq> exit_regs (frag_at t a)"
proof -
  have sub: "entry_regs (frag_at t b) - exit_regs (frag_at t a) = {}" and c: "\<not> c"
    using assms by (simp_all add: BackPropagate_edge_def Let_def)
  have "BackPropagate_edge a b (t, c) = (t, False)"
    using c unfolding BackPropagate_edge_def Let_def prod.case sub by (simp add: upd_frag_def)
  then show ?thesis using sub c by blast
qed

definition edges_stable :: "frag_state \<Rightarrow> (nat \<times> nat) list \<Rightarrow> bool" where
  "edges_stable t = list_all (\<lambda>(a, b). entry_regs (frag_at t b) \<subseteq> exit_regs (frag_at t a))"

lemma run_edges_step:
  assumes fin: "finite (live_universe s)"
  shows "bp_inv s t \<Longrightarrow> set es \<subseteq> set (code_edges s (flist s)) \<Longrightarrow> run_edges es (t, c) = (t', c') \<Longrightarrow>
     bp_inv s t' \<and> bp_measure s t' \<le> bp_measure s t \<and>
     (c' \<longrightarrow> c \<or> bp_measure s t' < bp_measure s t) \<and>
     (\<not> c' \<longrightarrow> t' = t \<and> \<not> c \<and> edges_stable t es)"
proof (induction es arbitrary: t c)
  case (Cons e es)
  obtain a b where e: "e = (a, b)" by (cases e)
  have ab: "a \<in> set (flist s)" "is_code s a" "b \<in> set (code_succs s a)"
    using Cons.prems(2) by (auto simp: e in_code_edges)
  obtain t1 c1 where t1: "BackPropagate_edge a b (t, c) = (t1, c1)"
    by (cases "BackPropagate_edge a b (t, c)")
  have inv1: "bp_inv s t1" using bp_inv_edge [OF Cons.prems(1) ab, of c] t1 by simp
  note m = bp_measure_edge [OF Cons.prems(1) fin ab, of c, unfolded t1 fst_conv]
  have c1: "c1 \<longrightarrow> c \<or> \<not> entry_regs (frag_at t b) \<subseteq> exit_regs (frag_at t a)"
    using t1 by (auto simp: BackPropagate_edge_def Let_def)
  have same: "\<not> c1 \<Longrightarrow> t1 = t \<and> \<not> c \<and> entry_regs (frag_at t b) \<subseteq> exit_regs (frag_at t a)"
    using edge_unchanged [of a b t c] t1 by auto
  have "run_edges es (t1, c1) = (t', c')" using Cons.prems(3) by (simp add: e t1)
  note ih = Cons.IH [OF inv1 _ this]
  have "set es \<subseteq> set (code_edges s (flist s))" using Cons.prems(2) by auto
  note ih = ih [OF this]
  have "c' \<longrightarrow> c \<or> bp_measure s t' < bp_measure s t" using ih m c1 by fastforce
  moreover have "\<not> c' \<longrightarrow> t' = t \<and> \<not> c \<and> edges_stable t (e # es)"
    using ih same by (auto simp: e edges_stable_def)
  ultimately show ?case using ih m(1) by auto
qed (auto simp: edges_stable_def)

lemma BackPropagateEntryDefs_returns:
  assumes fin: "finite (live_universe s)"
  shows "bp_inv s t \<Longrightarrow> \<exists>t'. BackPropagateEntryDefs t = Some t' \<and> bp_inv s t' \<and>
     edges_stable t' (code_edges s (rev (flist s)))"
proof (induction "bp_measure s t" arbitrary: t rule: less_induct)
  case less
  have core: "same_core s t" using less.prems by (simp add: bp_inv_def)
  obtain t1 c1 where r: "BackPropagate_round t = (t1, c1)" by (cases "BackPropagate_round t")
  then have run: "run_edges (code_edges s (rev (flist s))) (t, False) = (t1, c1)"
    using round_edges [OF core, of "rev (flist s)" False]
    by (simp add: BackPropagate_round_def same_coreD(1) [OF core])
  have sub: "set (code_edges s (rev (flist s))) = set (code_edges s (flist s))"
    by (auto simp: in_code_edges)
  note step = run_edges_step [OF fin less.prems _ run, unfolded sub, OF order_refl]
  show ?case
  proof (cases c1)
    case True
    then have "\<exists>t'. BackPropagateEntryDefs t1 = Some t' \<and> bp_inv s t' \<and>
        edges_stable t' (code_edges s (rev (flist s)))"
      using step by (intro less.hyps) auto
    then show ?thesis using True r by (subst BackPropagateEntryDefs.simps) (simp add: Let_def)
  next
    case False
    then have "BackPropagateEntryDefs t = Some t1"
      using r by (subst BackPropagateEntryDefs.simps) (simp add: Let_def)
    then show ?thesis using False step by auto
  qed
qed

lemma BackPropagateEntryDefs_live:
  assumes "finite (live_universe s)"
  obtains t where "BackPropagateEntryDefs s = Some t" "same_core s t"
    "\<And>a. entry_regs (frag_at t a) = {v. live_in s v a}"
    "\<And>a. exit_regs (frag_at t a) = exit_regs (frag_at s a) \<union>
       {v. a \<in> set (flist s) \<and> is_code s a \<and> (\<exists>b\<in>set (code_succs s a). live_in s v b)}"
proof -
  obtain t where t: "BackPropagateEntryDefs s = Some t" "bp_inv s t"
    and stable: "\<And>a b. a \<in> set (flist s) \<Longrightarrow> is_code s a \<Longrightarrow> b \<in> set (code_succs s a) \<Longrightarrow>
      entry_regs (frag_at t b) \<subseteq> exit_regs (frag_at t a)"
    using BackPropagateEntryDefs_returns [OF assms bp_inv_refl]
    by (fastforce simp: edges_stable_def list_all_iff in_code_edges)
  have eq: "entry_regs (frag_at t a) = entry_regs (frag_at s a) \<union>
      (if follows_partition_entrypoint (attr (frag_at s a)) then {}
       else exit_regs (frag_at t a) - exit_regs (frag_at s a))" for a
    using t(2) by (simp add: bp_inv_def)
  have "live_in s v a \<Longrightarrow> v \<in> entry_regs (frag_at t a)" for v a
  proof (induction rule: live_in.induct)
    case (live_here v a)
    then show ?case using eq by simp
  next
    case (live_succ a b v)
    then have "v \<in> exit_regs (frag_at t a)" using stable by blast
    then show ?case using live_succ eq by simp
  qed
  then have entry: "entry_regs (frag_at t a) = {v. live_in s v a}" for a
    using bp_inv_live [OF t(2)] by blast
  have "exit_regs (frag_at t a) = exit_regs (frag_at s a) \<union>
       {v. a \<in> set (flist s) \<and> is_code s a \<and> (\<exists>b\<in>set (code_succs s a). live_in s v b)}" for a
    using t(2) stable entry unfolding bp_inv_def by (intro equalityI) blast+
  with entry t show thesis by (intro that) (auto simp: bp_inv_def)
qed

section \<open>Registers live within a fragment\<close>

definition instr_uses :: "NativeInstruction \<Rightarrow> nat set" where
  "instr_uses ni = set (filter (\<lambda>v. v \<noteq> 0) (used_vrs ni))"

definition instr_defines :: "NativeInstruction \<Rightarrow> nat \<Rightarrow> bool" where
  "instr_defines ni v \<longleftrightarrow> v \<noteq> 0 \<and> defined_vr ni = v"

definition natives :: "frag_state \<Rightarrow> nat list \<Rightarrow> NativeInstruction list" where
  "natives s is = concat (map (\<lambda>i. case native_at s i of None \<Rightarrow> [] | Some ni \<Rightarrow> [ni]) is)"

text \<open>What the walk over the instructions computes, last instruction first.\<close>

definition walk_regs :: "NativeInstruction list \<Rightarrow> nat set" where
  "walk_regs nis = foldr (\<lambda>ni e. (e \<union> instr_uses ni) - {v. instr_defines ni v}) nis {}"

lemma walk_regs_iff:
  "v \<in> walk_regs nis \<longleftrightarrow>
     (\<exists>k<length nis. v \<in> instr_uses (nis ! k) \<and> (\<forall>j\<le>k. \<not> instr_defines (nis ! j) v))"
proof (induction nis)
  case (Cons ni nis)
  have "v \<in> walk_regs (ni # nis) \<longleftrightarrow> (v \<in> walk_regs nis \<or> v \<in> instr_uses ni) \<and> \<not> instr_defines ni v"
    by (auto simp: walk_regs_def)
  also have "\<dots> \<longleftrightarrow> (\<exists>k<length (ni # nis). v \<in> instr_uses ((ni # nis) ! k) \<and>
      (\<forall>j\<le>k. \<not> instr_defines ((ni # nis) ! j) v))" (is "?l \<longleftrightarrow> ?r")
  proof
    assume l: ?l
    show ?r
    proof (cases "v \<in> instr_uses ni")
      case True
      then show ?thesis using l by (intro exI [of _ 0]) auto
    next
      case False
      then obtain k where "k < length nis" "v \<in> instr_uses (nis ! k)" "\<forall>j\<le>k. \<not> instr_defines (nis ! j) v"
        using l Cons.IH by blast
      then show ?thesis using l by (intro exI [of _ "Suc k"]) (auto simp: less_Suc_eq_0_disj nth_Cons split: nat.splits)
    qed
  next
    assume ?r
    then obtain k where k: "k < length (ni # nis)" "v \<in> instr_uses ((ni # nis) ! k)"
      "\<forall>j\<le>k. \<not> instr_defines ((ni # nis) ! j) v" by blast
    show ?l
    proof (cases k)
      case 0
      then show ?thesis using k by auto
    next
      case (Suc m)
      then have "\<forall>j\<le>m. \<not> instr_defines (nis ! j) v" using k(3) by (metis Suc_le_mono nth_Cons_Suc)
      then have "v \<in> walk_regs nis" using k Suc Cons.IH by auto
      moreover have "\<not> instr_defines ni v" using k(3) by (metis le0 nth_Cons_0)
      ultimately show ?thesis by simp
    qed
  qed
  finally show ?case .
qed (simp add: walk_regs_def)

lemma instr_regs_entry:
  "entry_regs (instr_regs ni f) = (entry_regs f \<union> instr_uses ni) - {v. instr_defines ni v}"
  "exit_regs (instr_regs ni f) = exit_regs f \<union> instr_uses ni \<union> {v. instr_defines ni v}"
  by (auto simp: instr_regs_def instr_uses_def instr_defines_def Let_def)

lemma instr_regs_core [simp]: "core (instr_regs ni f) = core f"
  by (simp add: instr_regs_def Let_def)

lemma instr_regs_instrs [simp]: "f_instrs (instr_regs ni f) = f_instrs f"
  by (rule coreD(6)) simp

lemma FindInstructionVRs_instr_frag:
  assumes "FindInstructionVRs_instr X a i s = Some s'"
  shows "frag_at s' b = (if b = a then frag_at s' a else frag_at s b)"
    "entry_regs (frag_at s' a) = (case native_at s' i of None \<Rightarrow> entry_regs (frag_at s a)
       | Some ni \<Rightarrow> (entry_regs (frag_at s a) \<union> instr_uses ni) - {v. instr_defines ni v})"
    "exit_regs (frag_at s' a) = (case native_at s' i of None \<Rightarrow> exit_regs (frag_at s a)
       | Some ni \<Rightarrow> exit_regs (frag_at s a) \<union> instr_uses ni \<union> {v. instr_defines ni v})"
    "j \<noteq> i \<Longrightarrow> native_at s' j = native_at s j" "f_instrs (frag_at s' a) = f_instrs (frag_at s a)"
  using assms unfolding FindInstructionVRs_instr_def
  by (auto simp: frag_at_upd_frag instr_regs_entry native_at_def
      split: option.splits Instruction.splits if_splits)

lemma FindInstructionVRs_list:
  "opt_fold (FindInstructionVRs_instr X a) is s = Some s' \<Longrightarrow> distinct is \<Longrightarrow>
   (\<forall>b. b \<noteq> a \<longrightarrow> frag_at s' b = frag_at s b) \<and> f_instrs (frag_at s' a) = f_instrs (frag_at s a) \<and>
   (\<forall>j. j \<notin> set is \<longrightarrow> native_at s' j = native_at s j) \<and>
   entry_regs (frag_at s' a) = foldl (\<lambda>e ni. (e \<union> instr_uses ni) - {v. instr_defines ni v})
     (entry_regs (frag_at s a)) (natives s' is) \<and>
   exit_regs (frag_at s' a) = exit_regs (frag_at s a) \<union>
     (\<Union>ni\<in>set (natives s' is). instr_uses ni \<union> {v. instr_defines ni v})"
proof (induction "is" arbitrary: s)
  case (Cons i "is")
  obtain s1 where s1: "FindInstructionVRs_instr X a i s = Some s1"
    "opt_fold (FindInstructionVRs_instr X a) is s1 = Some s'"
    using Cons.prems(1) by (auto simp: bind_eq_Some_conv)
  note st = FindInstructionVRs_instr_frag [OF s1(1)]
  note ih = Cons.IH [OF s1(2)]
  have d: "distinct is" "i \<notin> set is" using Cons.prems(2) by auto
  have i: "native_at s' i = native_at s1 i" using ih [OF d(1)] d(2) by blast
  have nat: "natives s' (i # is) = (case native_at s1 i of None \<Rightarrow> [] | Some ni \<Rightarrow> [ni]) @ natives s' is"
    by (simp add: natives_def i)
  have "frag_at s' b = frag_at s b" if "b \<noteq> a" for b using ih [OF d(1)] st(1) [of b] that by simp
  moreover have "native_at s' j = native_at s j" if "j \<notin> set (i # is)" for j
    using ih [OF d(1)] st(4) [of j] that by simp
  moreover have "f_instrs (frag_at s' a) = f_instrs (frag_at s a)" using ih [OF d(1)] st(5) by simp
  moreover have "entry_regs (frag_at s' a) = foldl (\<lambda>e ni. (e \<union> instr_uses ni) - {v. instr_defines ni v})
      (entry_regs (frag_at s a)) (natives s' (i # is))"
    unfolding nat using ih [OF d(1)] st(2) by (simp split: option.split)
  moreover have "exit_regs (frag_at s' a) = exit_regs (frag_at s a) \<union>
      (\<Union>ni\<in>set (natives s' (i # is)). instr_uses ni \<union> {v. instr_defines ni v})"
    unfolding nat using ih [OF d(1)] st(3) by (simp add: Un_assoc split: option.split)
  ultimately show ?case by blast
qed (simp add: natives_def)

lemma same_core_instr: "same_core r s \<Longrightarrow> same_core r (s\<lparr>instr_at := is\<rparr>)"
  by (simp add: same_core_def no_frags_def)

lemma FindInstructionVRs_instr_core:
  assumes "FindInstructionVRs_instr X a i s = Some s'" "same_core r s"
  shows "same_core r s'"
proof (cases "native_at s i")
  case (Some ni)
  then obtain ni' defs where "s' = upd_frag a (\<lambda>f. instr_regs ni' (f\<lparr>def_regs := defs\<rparr>))
      (s\<lparr>instr_at := (instr_at s)(i := Native ni')\<rparr>)"
    using assms(1) by (auto simp: FindInstructionVRs_instr_def)
  then show ?thesis using same_core_upd [OF same_core_instr [OF assms(2)]] by simp
qed (use assms in \<open>simp add: FindInstructionVRs_instr_def\<close>)

lemma FindInstructionVRs_instr_finite:
  assumes "FindInstructionVRs_instr X a i s = Some s'" "\<forall>b. finite (entry_regs (frag_at s b))"
  shows "\<forall>b. finite (entry_regs (frag_at s' b))"
proof
  fix b
  have "finite (instr_uses ni)" for ni by (simp add: instr_uses_def)
  then have "finite (entry_regs (frag_at s' a))"
    unfolding FindInstructionVRs_instr_frag(2) [OF assms(1)] using assms(2)
    by (cases "native_at s' i") simp_all
  then show "finite (entry_regs (frag_at s' b))"
    using FindInstructionVRs_instr_frag(1) [OF assms(1), of b] assms(2) by (cases "b = a") simp_all
qed

lemma opt_fold_invariant:
  "opt_fold f xs s = Some s' \<Longrightarrow> P s \<Longrightarrow>
   (\<And>x s s'. x \<in> set xs \<Longrightarrow> f x s = Some s' \<Longrightarrow> P s \<Longrightarrow> P s') \<Longrightarrow> P s'"
  by (induction xs arbitrary: s) (auto simp: bind_eq_Some_conv)

lemma opt_fold_total:
  assumes "P s" "\<And>x s. x \<in> set xs \<Longrightarrow> P s \<Longrightarrow> \<exists>s'. f x s = Some s' \<and> P s'"
  shows "\<exists>s'. opt_fold f xs s = Some s' \<and> P s'"
  using assms
proof (induction xs arbitrary: s)
  case (Cons x xs)
  obtain s1 where s1: "f x s = Some s1" "P s1" using Cons.prems by (metis list.set_intros(1))
  then show ?case using Cons.IH [of s1] Cons.prems(2) by auto
qed simp

lemma FindInstructionVRs_frame:
  assumes "FindInstructionVRs X s = Some s'" "\<forall>b. finite (entry_regs (frag_at s b))"
  shows "same_core s s' \<and> (\<forall>b. finite (entry_regs (frag_at s' b)))"
proof -
  let ?P = "\<lambda>t. same_core s t \<and> (\<forall>b. finite (entry_regs (frag_at t b)))"
  have "?P s" using assms(2) by (simp add: same_core_def)
  moreover have "?P t'" if "FindInstructionVRs_frag X a t = Some t'" "?P t" for a t t'
  proof (cases "is_code t a")
    case True
    then have "opt_fold (FindInstructionVRs_instr X a) (rev (f_instrs (frag_at t a))) t = Some t'"
      using that(1) by (simp add: FindInstructionVRs_frag_def)
    then show ?thesis using that(2)
      by (rule opt_fold_invariant [where P = ?P])
        (use FindInstructionVRs_instr_core FindInstructionVRs_instr_finite in blast)
  qed (use that in \<open>simp add: FindInstructionVRs_frag_def\<close>)
  ultimately show ?thesis
    using assms(1) unfolding FindInstructionVRs_def by (rule opt_fold_invariant [where P = ?P, rotated]) blast
qed

section \<open>Compensating fragments\<close>

definition edge_ok :: "frag_state \<Rightarrow> nat \<Rightarrow> succ_sel \<Rightarrow> bool" where
  "edge_ok s a sel = (case get_succ sel (frag_at s a) of None \<Rightarrow> True
     | Some b \<Rightarrow> exit_regs (frag_at s a) = {} \<or>
                (is_code s b \<and> exit_regs (frag_at s a) \<subseteq> entry_regs (frag_at s b)))"

lemma MakeCompensatingFrag_effect:
  assumes "forest (parts s)" "forest (zones s)" "pred < next_frag s" "succ < next_frag s"
  obtains s' c where "MakeCompensatingFrag pred sel succ entry exit s = Some s'"
    "forest (parts s')" "forest (zones s')" "next_frag s' = Suc (next_frag s)"
    "flist s' = insert_after pred (next_frag s) (flist s)"
    "frag_at s' = (frag_at s)(next_frag s := c, pred := set_succ sel (Some (next_frag s)) (frag_at s pred))"
    "f_class c = CodeFragment" "is_compensation_frag (attr c)" "entry_regs c = entry"
    "exit_regs c = exit" "succ_fall c = Some succ" "succ_branch c = None"
proof -
  let ?n = "next_frag s"
  let ?p = "DisjointSet_new (parts s) ?n None" and ?z = "DisjointSet_new (zones s) ?n FlagZone_new"
  obtain p' where p': "Union None ?p ?n pred = Some p'" "forest p'"
    using Union_forest [OF forest_new [OF assms(1)]] by blast
  obtain z' where z': "Union FlagZone_new ?z ?n succ = Some z'" "forest z'"
    using Union_forest [OF forest_new [OF assms(2)]] by blast
  have ne: "pred \<noteq> ?n" "succ \<noteq> ?n" using assms by auto
  define c where "c = (Fragment_new CodeFragment)\<lparr>attr := CodeAttributes_new\<lparr>is_compensation_frag := True\<rparr>,
     entry_regs := entry, exit_regs := exit, block_meta := block_meta (frag_at s pred),
     stack_status := stack_status (frag_at s pred),
     f_cache := (if f_cache (frag_at s pred) < f_cache (frag_at s succ) then f_cache (frag_at s succ)
                 else f_cache (frag_at s pred)), succ_fall := Some succ\<rparr>"
  have c: "f_class c = CodeFragment" "is_compensation_frag (attr c)" "entry_regs c = entry"
    "exit_regs c = exit" "succ_fall c = Some succ" "succ_branch c = None"
    by (simp_all add: c_def Fragment_new_def)
  have "\<exists>s'. MakeCompensatingFrag pred sel succ entry exit s = Some s' \<and> parts s' = p' \<and> zones s' = z' \<and>
     next_frag s' = Suc ?n \<and> flist s' = insert_after pred ?n (flist s) \<and>
     frag_at s' = (frag_at s)(?n := c, pred := set_succ sel (Some ?n) (frag_at s pred))"
    using ne by (simp add: MakeCompensatingFrag_def alloc_frag_def Let_def p'(1) z'(1) upd_frag_def
        c_def Fragment_new_def fun_upd_twist)
  then show thesis using p' z' c that by blast
qed

text \<open>The state after some edges were treated: the original fragments keep everything but the
  successors of treated edges, the new ones are compensating fragments.\<close>

definition comp_frag_ok :: "frag_state \<Rightarrow> nat \<Rightarrow> Fragment \<Rightarrow> bool" where
  "comp_frag_ok r c f \<longleftrightarrow> f_class f = CodeFragment \<and> is_compensation_frag (attr f) \<and>
     succ_branch f = None \<and>
     (\<exists>q<next_frag r. succ_fall f = Some q \<and>
        (exit_regs f = {} \<or> (is_code r q \<and> exit_regs f \<subseteq> entry_regs (frag_at r q))))"

definition same_regs :: "Fragment \<Rightarrow> Fragment \<Rightarrow> bool" where
  "same_regs f g \<longleftrightarrow> f_class f = f_class g \<and> attr f = attr g \<and> entry_regs f = entry_regs g \<and>
                     exit_regs f = exit_regs g"

definition comp_inv :: "frag_state \<Rightarrow> (nat \<times> succ_sel) set \<Rightarrow> frag_state \<Rightarrow> bool" where
  "comp_inv r D s \<longleftrightarrow> forest (parts s) \<and> forest (zones s) \<and> next_frag r \<le> next_frag s \<and>
     set (flist s) = set (flist r) \<union> {next_frag r..<next_frag s} \<and>
     (\<forall>b<next_frag r. same_regs (frag_at s b) (frag_at r b) \<and>
        (\<forall>sel. (b, sel) \<notin> D \<longrightarrow> get_succ sel (frag_at s b) = get_succ sel (frag_at r b))) \<and>
     (\<forall>c\<in>{next_frag r..<next_frag s}. comp_frag_ok r c (frag_at s c)) \<and>
     (\<forall>(b, sel)\<in>D. b < next_frag r \<and> edge_ok s b sel)"

text \<open>What the pass needs of the fragment list: its fragments and their successors are allocated
  and none is a compensating fragment yet.\<close>

definition frags_wf :: "frag_state \<Rightarrow> bool" where
  "frags_wf s \<longleftrightarrow> forest (parts s) \<and> forest (zones s) \<and>
     (\<forall>a\<in>set (flist s). a < next_frag s \<and> (\<forall>sel b. get_succ sel (frag_at s a) = Some b \<longrightarrow> b < next_frag s)) \<and>
     (\<forall>b<next_frag s. \<not> is_compensation_frag (attr (frag_at s b)))"

lemma is_code_same_regs: "same_regs (frag_at s b) (frag_at r b) \<Longrightarrow> is_code s b = is_code r b"
  by (simp add: same_regs_def is_code_iff)

lemma comp_inv_init: "frags_wf s \<Longrightarrow> comp_inv s {} s"
  by (auto simp: comp_inv_def frags_wf_def same_regs_def)

lemma edge_ok_cong:
  assumes "get_succ sel (frag_at s' a) = get_succ sel (frag_at s a)"
    "exit_regs (frag_at s' a) = exit_regs (frag_at s a)"
    "\<And>b. get_succ sel (frag_at s a) = Some b \<Longrightarrow> same_regs (frag_at s' b) (frag_at s b)"
  shows "edge_ok s' a sel = edge_ok s a sel"
proof (cases "get_succ sel (frag_at s a)")
  case (Some b)
  then show ?thesis using assms(1,2) assms(3) [OF Some]
    by (simp add: edge_ok_def is_code_same_regs [OF assms(3) [OF Some]]) (simp add: same_regs_def)
qed (simp add: edge_ok_def assms(1))

lemma comp_inv_done:
  assumes "comp_inv r D s" "b < next_frag r" "edge_ok s b sel"
  shows "comp_inv r (insert (b, sel) D) s"
  using assms by (auto simp: comp_inv_def)

lemma comp_inv_make:
  assumes inv: "comp_inv r D s" and a: "a < next_frag r" "a \<in> set (flist r)" "q < next_frag r"
    and new: "entry = exit_regs (frag_at s a)"
      "exit = {} \<or> (is_code r q \<and> exit \<subseteq> entry_regs (frag_at r q))"
    and undone: "(a, sel) \<notin> D" and bound: "\<And>b sel' c. (b, sel') \<in> D \<Longrightarrow> get_succ sel' (frag_at s b) = Some c \<Longrightarrow> c < next_frag s"
  shows "\<exists>s'. MakeCompensatingFrag a sel q entry exit s = Some s' \<and> comp_inv r (insert (a, sel) D) s' \<and>
    (\<forall>b sel' c. (b, sel') \<in> insert (a, sel) D \<longrightarrow> get_succ sel' (frag_at s' b) = Some c \<longrightarrow> c < next_frag s')"
proof -
  let ?n = "next_frag s"
  have n: "next_frag r \<le> ?n" using inv by (simp add: comp_inv_def)
  have fst: "forest (parts s)" "forest (zones s)" "a < ?n" "q < ?n"
    using inv a n by (auto simp: comp_inv_def)
  obtain s' c where s': "MakeCompensatingFrag a sel q entry exit s = Some s'"
    "forest (parts s')" "forest (zones s')" "next_frag s' = Suc ?n"
    "flist s' = insert_after a ?n (flist s)"
    "frag_at s' = (frag_at s)(?n := c, a := set_succ sel (Some ?n) (frag_at s a))"
    and c: "f_class c = CodeFragment" "is_compensation_frag (attr c)" "entry_regs c = entry"
    "exit_regs c = exit" "succ_fall c = Some q" "succ_branch c = None"
    by (rule MakeCompensatingFrag_effect [OF fst])
  have at: "frag_at s' b = (if b = a then set_succ sel (Some ?n) (frag_at s a)
      else if b = ?n then c else frag_at s b)" for b
    using s'(6) by simp
  have regs: "same_regs (frag_at s' b) (frag_at s b)" if "b \<noteq> ?n" for b
    using that by (simp add: at same_regs_def)
  have keep: "edge_ok s' b sel' = edge_ok s b sel'" if "(b, sel') \<in> D" for b sel'
  proof (rule edge_ok_cong)
    have "b < next_frag r" using inv that by (auto simp: comp_inv_def)
    then have "b \<noteq> ?n" using n by simp
    then show "get_succ sel' (frag_at s' b) = get_succ sel' (frag_at s b)"
      "exit_regs (frag_at s' b) = exit_regs (frag_at s b)"
      using undone that by (auto simp: at)
    show "same_regs (frag_at s' d) (frag_at s d)" if "get_succ sel' (frag_at s b) = Some d" for d
      using bound [OF \<open>(b, sel') \<in> D\<close> that] by (intro regs) simp
  qed
  have mine: "edge_ok s' a sel"
    using a n c(1,3) new(1) by (auto simp: edge_ok_def at is_code_iff)
  have "set (flist s') = insert ?n (set (flist s))"
    unfolding s'(5) using inv a(2) by (intro set_insert_after) (simp add: comp_inv_def)
  also have "\<dots> = set (flist r) \<union> {next_frag r..<next_frag s'}"
    using inv n by (auto simp: comp_inv_def s'(4))
  finally have lst: "set (flist s') = set (flist r) \<union> {next_frag r..<next_frag s'}" .
  have old: "same_regs (frag_at s' b) (frag_at r b)" "(b, sel') \<notin> insert (a, sel) D \<Longrightarrow>
      get_succ sel' (frag_at s' b) = get_succ sel' (frag_at r b)" if "b < next_frag r" for b sel'
    using inv that n by (auto simp: comp_inv_def at same_regs_def)
  have comps: "comp_frag_ok r d (frag_at s' d)" if "d \<in> {next_frag r..<next_frag s'}" for d
  proof (cases "d = ?n")
    case True
    then show ?thesis using c a new(2) n by (auto simp: comp_frag_ok_def at)
  next
    case False
    then have "d \<in> {next_frag r..<?n}" using that s'(4) by auto
    then show ?thesis using inv False a(1) by (auto simp: comp_inv_def at)
  qed
  have "comp_inv r (insert (a, sel) D) s'"
    unfolding comp_inv_def using s'(2,3,4) n lst old comps keep mine inv a(1)
    by (auto simp: comp_inv_def)
  moreover have "d < next_frag s'"
    if "(b, sel') \<in> insert (a, sel) D" "get_succ sel' (frag_at s' b) = Some d" for b sel' d
  proof (cases "(b, sel') = (a, sel)")
    case True
    then show ?thesis using that(2) s'(4) by (simp add: at)
  next
    case False
    then have "(b, sel') \<in> D" "b \<noteq> ?n" using that inv n by (auto simp: comp_inv_def)
    then have "get_succ sel' (frag_at s b) = Some d" using that(2) False by (auto simp: at split: if_splits)
    then show ?thesis using bound [OF \<open>(b, sel') \<in> D\<close>] s'(4) by fastforce
  qed
  ultimately show ?thesis using s'(1) by blast
qed

definition comp_state :: "frag_state \<Rightarrow> (nat \<times> succ_sel) set \<Rightarrow> frag_state \<Rightarrow> bool" where
  "comp_state r D s \<longleftrightarrow> comp_inv r D s \<and>
     (\<forall>b sel c. (b, sel) \<in> D \<longrightarrow> get_succ sel (frag_at s b) = Some c \<longrightarrow> c < next_frag s)"

lemma AddCompensatingFragment_step:
  assumes st: "comp_state r D s" and wf: "frags_wf r" and a: "a \<in> set (flist r)" and undone: "(a, sel) \<notin> D"
  shows "\<exists>s'. AddCompensatingFragment a sel s = Some s' \<and> comp_state r (insert (a, sel) D) s'"
proof -
  have inv: "comp_inv r D s" using st by (simp add: comp_state_def)
  have ar: "a < next_frag r" using wf a by (auto simp: frags_wf_def)
  have succ: "get_succ sel (frag_at s a) = get_succ sel (frag_at r a)"
    using inv ar undone by (auto simp: comp_inv_def)
  have n: "next_frag r \<le> next_frag s" using inv by (simp add: comp_inv_def)
  have skip: "comp_state r (insert (a, sel) D) s" if "edge_ok s a sel"
  proof -
    have "c < next_frag s" if "get_succ sel (frag_at s a) = Some c" for c
      using that wf a n unfolding succ frags_wf_def by fastforce
    then show ?thesis using st comp_inv_done [OF inv ar that] by (auto simp: comp_state_def)
  qed
  show ?thesis
  proof (cases "get_succ sel (frag_at s a)")
    case None
    then show ?thesis using skip by (simp add: AddCompensatingFragment_def edge_ok_def)
  next
    case (Some q)
    then have q: "q < next_frag r" using wf a unfolding succ frags_wf_def by blast
    then have regs: "same_regs (frag_at s q) (frag_at r q)" using inv by (auto simp: comp_inv_def)
    have nc: "\<not> is_compensation_frag (attr (frag_at s q))"
      using regs wf q by (simp add: same_regs_def frags_wf_def)
    have code: "is_code s q = is_code r q" using regs by (rule is_code_same_regs)
    note make = comp_inv_make [OF inv ar a q refl _ undone]
    have bnd: "\<And>b sel' c. (b, sel') \<in> D \<Longrightarrow> get_succ sel' (frag_at s b) = Some c \<Longrightarrow> c < next_frag s"
      using st by (auto simp: comp_state_def)
    consider "edge_ok s a sel" | "\<not> edge_ok s a sel" "is_code s q" | "\<not> edge_ok s a sel" "\<not> is_code s q"
      by blast
    then show ?thesis
    proof cases
      case 1
      then have "AddCompensatingFragment a sel s = Some s"
        using Some by (auto simp: AddCompensatingFragment_def edge_ok_def)
      then show ?thesis using skip 1 by simp
    next
      case 2
      then have "AddCompensatingFragment a sel s =
          MakeCompensatingFrag a sel q (exit_regs (frag_at s a)) (entry_regs (frag_at s q)) s"
        using Some nc by (auto simp: AddCompensatingFragment_def edge_ok_def)
      moreover have "entry_regs (frag_at s q) = {} \<or> is_code r q \<and> entry_regs (frag_at s q) \<subseteq> entry_regs (frag_at r q)"
        using 2 regs code by (simp add: same_regs_def)
      ultimately show ?thesis using make [OF _ bnd] by (simp add: comp_state_def)
    next
      case 3
      then have "AddCompensatingFragment a sel s = MakeCompensatingFrag a sel q (exit_regs (frag_at s a)) {} s"
        using Some by (auto simp: AddCompensatingFragment_def edge_ok_def)
      then show ?thesis using make [OF _ bnd, of "{}"] by (simp add: comp_state_def)
    qed
  qed
qed

definition treated :: "frag_state \<Rightarrow> nat set \<Rightarrow> (nat \<times> succ_sel) set" where
  "treated r A = {(a, sel). a \<in> A \<and> is_code r a}"

lemma treated_insert: "treated r (insert a A) = treated r A \<union> (if is_code r a then {a} \<times> UNIV else {})"
  by (auto simp: treated_def)

lemma AddCompensating_frag_step:
  assumes st: "comp_state r D s" and wf: "frags_wf r" and a: "a \<in> set (flist r)"
    and undone: "\<And>sel. (a, sel) \<notin> D"
  shows "\<exists>s'. AddCompensating_frag a s = Some s' \<and>
    comp_state r (D \<union> (if is_code r a then {a} \<times> UNIV else {})) s'"
proof -
  have ar: "a < next_frag r" using wf a by (auto simp: frags_wf_def)
  then have regs: "same_regs (frag_at s a) (frag_at r a)" using st by (auto simp: comp_state_def comp_inv_def)
  have code: "is_code s a = is_code r a" using regs by (rule is_code_same_regs)
  have nc: "\<not> is_compensation_frag (attr (frag_at s a))"
    using regs wf ar by (simp add: same_regs_def frags_wf_def)
  show ?thesis
  proof (cases "is_code r a")
    case True
    obtain s1 where s1: "AddCompensatingFragment a kFragSuccFallThrough s = Some s1"
      "comp_state r (insert (a, kFragSuccFallThrough) D) s1"
      using AddCompensatingFragment_step [OF st wf a undone] by blast
    moreover obtain s2 where "AddCompensatingFragment a kFragSuccBranch s1 = Some s2"
      "comp_state r (insert (a, kFragSuccBranch) (insert (a, kFragSuccFallThrough) D)) s2"
      using AddCompensatingFragment_step [OF s1(2) wf a] undone by auto
    moreover have "D \<union> {a} \<times> UNIV = insert (a, kFragSuccBranch) (insert (a, kFragSuccFallThrough) D)"
      by (auto intro: succ_sel.exhaust)
    ultimately show ?thesis using True code nc by (auto simp: AddCompensating_frag_def)
  next
    case False
    then show ?thesis using code st by (simp add: AddCompensating_frag_def)
  qed
qed

lemma AddCompensating_list:
  "comp_state r (treated r (set done)) s \<Longrightarrow> frags_wf r \<Longrightarrow>
   set as \<subseteq> set (flist r) \<Longrightarrow> distinct as \<Longrightarrow> set as \<inter> set done = {} \<Longrightarrow>
   \<exists>s'. opt_fold AddCompensating_frag as s = Some s' \<and>
     comp_state r (treated r (set as \<union> set done)) s'"
proof (induction as arbitrary: s "done")
  case (Cons a as)
  have "\<And>sel. (a, sel) \<notin> (treated r (set done))"
    using Cons.prems(5) by (auto simp: treated_def)
  then obtain s1 where s1: "AddCompensating_frag a s = Some s1"
    "comp_state r ((treated r (set done)) \<union>
       (if is_code r a then {a} \<times> UNIV else {})) s1"
    using AddCompensating_frag_step [OF Cons.prems(1,2), of a] Cons.prems(3) by auto
  have "comp_state r (treated r (set (a # done))) s1"
    using s1(2) by (simp add: treated_insert)
  then have "\<exists>s'. opt_fold AddCompensating_frag as s1 = Some s' \<and>
      comp_state r (treated r (set as \<union> set (a # done))) s'"
    using Cons.prems by (intro Cons.IH) auto
  then show ?case using s1(1) by simp
qed simp

text \<open>After the pass every edge of the list carries only registers its target expects.\<close>

definition vr_consistent :: "frag_state \<Rightarrow> bool" where
  "vr_consistent s \<longleftrightarrow> (\<forall>a\<in>set (flist s). is_code s a \<longrightarrow> (\<forall>sel. edge_ok s a sel))"

lemma AddCompensatingFragments_consistent:
  assumes wf: "frags_wf s" and "distinct (flist s)"
  shows "\<exists>s'. AddCompensatingFragments s = Some s' \<and> vr_consistent s'"
proof -
  have "comp_state s (treated s (set [])) s"
    using comp_inv_init [OF wf] by (simp add: comp_state_def treated_def)
  then obtain s' where s': "AddCompensatingFragments s = Some s'"
    "comp_state s (treated s (set (flist s))) s'"
    using AddCompensating_list [of s "[]" s "rev (flist s)"] assms by (auto simp: AddCompensatingFragments_def)
  then have inv: "comp_inv s (treated s (set (flist s))) s'"
    by (simp add: comp_state_def)
  have "edge_ok s' a sel" if a: "a \<in> set (flist s')" "is_code s' a" for a sel
  proof (cases "a \<in> set (flist s)")
    case True
    then have "a < next_frag s" using wf by (auto simp: frags_wf_def)
    then have "is_code s a" using inv a(2) is_code_same_regs by (auto simp: comp_inv_def)
    then show ?thesis using inv True by (auto simp: comp_inv_def treated_def)
  next
    case False
    then have "a \<in> {next_frag s..<next_frag s'}" using a(1) inv by (auto simp: comp_inv_def)
    then have c: "comp_frag_ok s a (frag_at s' a)" using inv by (auto simp: comp_inv_def)
    then obtain q where q: "q < next_frag s" "succ_fall (frag_at s' a) = Some q"
      "exit_regs (frag_at s' a) = {} \<or> is_code s q \<and> exit_regs (frag_at s' a) \<subseteq> entry_regs (frag_at s q)"
      by (auto simp: comp_frag_ok_def)
    then have "same_regs (frag_at s' q) (frag_at s q)" using inv by (auto simp: comp_inv_def)
    then show ?thesis using q c is_code_same_regs [of s' q s]
      by (cases sel) (auto simp: edge_ok_def get_succ_def comp_frag_ok_def same_regs_def)
  qed
  then show ?thesis using s'(1) by (auto simp: vr_consistent_def)
qed

section \<open>Extending live ranges keeps the graph\<close>

definition same_shape :: "frag_state \<Rightarrow> frag_state \<Rightarrow> bool" where
  "same_shape r s \<longleftrightarrow> forest (parts s) \<and> zones s = zones r \<and> flist s = flist r \<and>
     next_frag s = next_frag r \<and>
     (\<forall>b. f_class (frag_at s b) = f_class (frag_at r b) \<and> attr (frag_at s b) = attr (frag_at r b) \<and>
          successors (frag_at s b) = successors (frag_at r b))"

lemma get_succ_successors: "successors f = successors g \<Longrightarrow> get_succ sel f = get_succ sel g"
  by (cases sel) (simp_all add: successors_def get_succ_def)

lemma frags_wf_shape: "frags_wf r \<Longrightarrow> same_shape r s \<Longrightarrow> frags_wf s"
  using get_succ_successors unfolding frags_wf_def same_shape_def by metis

lemma set_eq_forest: "forest s \<Longrightarrow> \<exists>s' b. set_eq s x y = Some (s', b) \<and> forest s'"
proof -
  assume f: "forest s"
  obtain s1 where s1: "Find s x = Some (s1, root s x)" "forest s1" using Find_correct [OF f] by metis
  obtain s2 where "Find s1 y = Some (s2, root s1 y)" "forest s2" using Find_correct [OF s1(2)] by metis
  then show ?thesis using s1 by (simp add: set_eq_def)
qed

lemma extend_edge_shape:
  assumes "same_shape r s"
  shows "\<exists>s' ok. extend_edge a p s = Some (s', ok) \<and> same_shape r s' \<and> (ok \<longrightarrow> p \<noteq> None)"
proof -
  have f: "forest (parts s)" using assms by (simp add: same_shape_def)
  show ?thesis
  proof (cases p)
    case (Some b)
    obtain ps e where "set_eq (parts s) a b = Some (ps, e)" "forest ps" using set_eq_forest [OF f] by blast
    then show ?thesis using assms Some by (auto simp: extend_edge_def same_shape_def)
  qed (use assms in \<open>auto simp: extend_edge_def\<close>)
qed

lemma same_shape_upd:
  assumes "same_shape r s" "\<And>f. f_class (g f) = f_class f" "\<And>f. attr (g f) = attr f"
    "\<And>f. successors (g f) = successors f"
  shows "same_shape r (upd_frag a g s)"
  using assms by (simp add: same_shape_def frag_at_upd_frag)

lemma extend_exit_shape:
  assumes "same_shape r s"
  shows "\<exists>s'. extend_exit a s = Some s' \<and> same_shape r s'"
proof (cases "is_code s a")
  case True
  let ?f = "\<lambda>p (s, def_set). Option.bind (extend_edge a p s) (\<lambda>(s', ok).
              Some (s', if ok then def_set \<union> GetDefSet s' (the p) else def_set))"
  have "\<exists>st. opt_fold ?f (successors (frag_at s a)) (s, {}) = Some st \<and> same_shape r (fst st)"
  proof (rule opt_fold_total [where P = "\<lambda>st. same_shape r (fst st)"])
    fix p and st :: "frag_state \<times> nat set" assume "same_shape r (fst st)"
    moreover obtain t d where st: "st = (t, d)" by (cases st)
    ultimately obtain t' ok where "extend_edge a p t = Some (t', ok)" "same_shape r t'"
      using extend_edge_shape [of r t a p] by auto
    then show "\<exists>st'. ?f p st = Some st' \<and> same_shape r (fst st')" by (simp add: st)
  qed (simp add: assms)
  then obtain s1 d where "opt_fold (\<lambda>p (s, def_set).
                Option.bind (extend_edge a p s) (\<lambda>(s', ok).
                  Some (s', if ok then def_set \<union> GetDefSet s' (the p) else def_set)))
               (successors (frag_at s a)) (s, {}) = Some (s1, d)" "same_shape r s1" by auto
  then show ?thesis using True
    by (auto simp: extend_exit_def successors_def intro!: same_shape_upd)
qed (use assms in \<open>simp add: extend_exit_def\<close>)

lemma extend_entry_shape:
  assumes "same_shape r s"
  shows "\<exists>s'. extend_entry a s = Some s' \<and> same_shape r s'"
proof (cases "is_code s a")
  case True
  have "\<exists>s'. opt_fold (\<lambda>p s. Option.bind (extend_edge a p s) (\<lambda>(s', ok).
               Some (if ok then upd_frag (the p) (\<lambda>f. f\<lparr>entry_regs := entry_regs f \<union> GetDefSet s' (the p)\<rparr>) s'
                     else s'))) (successors (frag_at s a)) s = Some s' \<and> same_shape r s'"
  proof (rule opt_fold_total [where P = "same_shape r"])
    fix p t assume "same_shape r t"
    then obtain t' ok where "extend_edge a p t = Some (t', ok)" "same_shape r t'"
      using extend_edge_shape by blast
    then show "\<exists>s'. Option.bind (extend_edge a p t) (\<lambda>(s', ok).
               Some (if ok then upd_frag (the p) (\<lambda>f. f\<lparr>entry_regs := entry_regs f \<union> GetDefSet s' (the p)\<rparr>) s'
                     else s')) = Some s' \<and> same_shape r s'"
      by (auto intro!: same_shape_upd simp: successors_def)
  qed (rule assms)
  then show ?thesis using True by (simp add: extend_entry_def)
qed (use assms in \<open>simp add: extend_entry_def\<close>)

lemma ExtendLiveRanges_shape:
  assumes "forest (parts s)"
  shows "\<exists>s'. ExtendLiveRanges s = Some s' \<and> same_shape s s'"
proof -
  have init: "same_shape s s" using assms by (simp add: same_shape_def)
  obtain s1 where s1: "opt_fold extend_exit (rev (flist s)) s = Some s1" "same_shape s s1"
    using opt_fold_total [of "same_shape s" s "rev (flist s)" extend_exit] init extend_exit_shape by blast
  obtain s2 where "opt_fold extend_entry (rev (flist s1)) s1 = Some s2" "same_shape s s2"
    using opt_fold_total [of "same_shape s" s1 "rev (flist s1)" extend_entry] s1(2) extend_entry_shape by blast
  then show ?thesis using s1 by (auto simp: ExtendLiveRanges_def)
qed

lemma frags_wf_core: "frags_wf s \<Longrightarrow> same_core s t \<Longrightarrow> frags_wf t"
proof -
  assume wf: "frags_wf s" and c: "same_core s t"
  have "get_succ sel (frag_at t a) = get_succ sel (frag_at s a)" for sel a
    by (rule get_succ_successors) (rule same_coreD(9) [OF c])
  then show ?thesis using wf by (simp add: frags_wf_def same_coreD [OF c])
qed

section \<open>Properties\<close>

text \<open>C4: back-propagation ends, whatever cycles the fragment graph has, and computes exactly the
  live registers: a register is live on entry to a fragment when a path of code edges leads from
  it to a fragment that needs the register, through fragments that do not mention it and do not
  follow the entry of a partition; the registers live on exit are those the fragment mentions and
  those live on entry to a successor.  Nothing else of the fragments changes.\<close>

theorem back_propagation_live:
  assumes "finite (live_universe s)"
  shows "\<exists>t. BackPropagateEntryDefs s = Some t \<and> same_core s t \<and>
     (\<forall>a. entry_regs (frag_at t a) = {v. live_in s v a}) \<and>
     (\<forall>a. exit_regs (frag_at t a) = exit_regs (frag_at s a) \<union>
        {v. a \<in> set (flist s) \<and> is_code s a \<and> (\<exists>b\<in>set (code_succs s a). live_in s v b)})"
  by (rule BackPropagateEntryDefs_live [OF assms]) blast

definition example_frags :: frag_state where
  "example_frags =
     \<lparr>frag_at = (\<lambda>a. if a = 0 then (Fragment_new CodeFragment)\<lparr>succ_fall := Some 1\<rparr>
                    else if a = 1 then (Fragment_new CodeFragment)
                           \<lparr>succ_fall := Some 0, succ_branch := Some 2, entry_regs := {7}, exit_regs := {7, 8}\<rparr>
                    else Fragment_new ExitFragment),
      instr_at = (\<lambda>_. Annotation kAnnotNoOp NoData), flist = [0, 1, 2], next_frag = 3, next_instr = 0,
      parts = singletons (\<lambda>_. None), zones = singletons (\<lambda>_. FlagZone_new),
      info_at = (\<lambda>_. PartitionInfo_new 0), next_info = 0\<rparr>"

lemma example_frags_simps [simp]:
  "frag_at example_frags 0 = (Fragment_new CodeFragment)\<lparr>succ_fall := Some 1\<rparr>"
  "frag_at example_frags (Suc 0) = (Fragment_new CodeFragment)
     \<lparr>succ_fall := Some 0, succ_branch := Some 2, entry_regs := {7}, exit_regs := {7, 8}\<rparr>"
  "flist example_frags = [0, 1, 2]" "next_frag example_frags = 3"
  by (simp_all add: example_frags_def)

lemma example_frags_code: "is_code example_frags 0" "code_succs example_frags 0 = [1]"
  by (simp_all add: is_code_iff code_succs_def successors_def Fragment_new_def example_frags_def)

theorem back_propagation_live_witness:
  "\<exists>t. BackPropagateEntryDefs example_frags = Some t \<and> 7 \<in> entry_regs (frag_at t 0)"
proof -
  have "finite (entry_regs (frag_at example_frags a))" for a
    by (simp add: example_frags_def Fragment_new_def)
  moreover have "finite (nodes example_frags)" by (simp add: nodes_def)
  ultimately have fin: "finite (live_universe example_frags)" unfolding live_universe_def by blast
  have "live_in example_frags 7 1" by (rule live_here) simp
  then have "live_in example_frags 7 0"
    by (rule live_succ [rotated 3]) (simp_all add: example_frags_code, simp_all add: Fragment_new_def CodeAttributes_new_def)
  then show ?thesis using back_propagation_live [OF fin] by auto
qed

text \<open>C3: the whole pass returns when no instruction breaks its assertions, and afterwards every edge
  out of a code fragment of the list is consistent: either no virtual register is live on exit, or
  the successor is a code fragment on whose entry all of them are live.  So every register that
  dies on an edge dies in a compensating fragment.\<close>

theorem track_virtual_regs_consistent:
  assumes "frags_wf s" "distinct (flist s)" "\<forall>b. finite (entry_regs (frag_at s b))"
    "FindInstructionVRs X s = Some s1"
  shows "\<exists>s'. TrackVirtualRegs X s = Some s' \<and> vr_consistent s'"
proof -
  have s1: "same_core s s1" "\<forall>b. finite (entry_regs (frag_at s1 b))"
    using FindInstructionVRs_frame [OF assms(4,3)] by auto
  have "finite (nodes s1)" by (simp add: nodes_def)
  then have "finite (live_universe s1)" using s1(2) unfolding live_universe_def by blast
  then obtain s2 where s2: "BackPropagateEntryDefs s1 = Some s2" "same_core s1 s2"
    by (rule BackPropagateEntryDefs_live)
  have wf2: "frags_wf s2" using frags_wf_core [OF frags_wf_core [OF assms(1) s1(1)] s2(2)] .
  then have "forest (parts s2)" by (simp add: frags_wf_def)
  then obtain s3 where s3: "ExtendLiveRanges s2 = Some s3" "same_shape s2 s3"
    using ExtendLiveRanges_shape by blast
  have "distinct (flist s3)"
    using assms(2) s3(2) by (simp add: same_shape_def same_coreD(1) [OF s1(1)] same_coreD(1) [OF s2(2)])
  then obtain s4 where "AddCompensatingFragments s3 = Some s4" "vr_consistent s4"
    using AddCompensatingFragments_consistent [OF frags_wf_shape [OF wf2 s3(2)]] by blast
  then show ?thesis using assms(4) s2(1) s3(1) by (simp add: TrackVirtualRegs_def)
qed

theorem track_virtual_regs_consistent_witness:
  "\<exists>s'. TrackVirtualRegs doc_xed example_frags = Some s' \<and> vr_consistent s'"
proof (rule track_virtual_regs_consistent)
  show "frags_wf example_frags"
    by (auto simp: frags_wf_def example_frags_def Fragment_new_def CodeAttributes_new_def get_succ_def
        singletons_forest split: succ_sel.splits)
  show "\<forall>b. finite (entry_regs (frag_at example_frags b))"
    by (simp add: example_frags_def Fragment_new_def)
  show "FindInstructionVRs doc_xed example_frags = Some example_frags"
    by (simp add: FindInstructionVRs_def FindInstructionVRs_frag_def example_frags_def Fragment_new_def)
qed simp

lemma natives_rev: "natives s (rev is) = rev (natives s is)"
  by (induction "is") (auto simp: natives_def split: option.split)

lemma FindInstructionVRs_frag_regs:
  assumes "is_code s a" "distinct (f_instrs (frag_at s a))" "entry_regs (frag_at s a) = {}"
    "exit_regs (frag_at s a) = {}" "FindInstructionVRs_frag X a s = Some s'"
  defines "nis \<equiv> natives s' (f_instrs (frag_at s a))"
  shows "entry_regs (frag_at s' a) = walk_regs nis"
    "exit_regs (frag_at s' a) = (\<Union>ni\<in>set nis. instr_uses ni \<union> {v. instr_defines ni v})"
proof -
  let ?is = "rev (f_instrs (frag_at s a))"
  have run: "opt_fold (FindInstructionVRs_instr X a) ?is s = Some s'"
    using assms(1,5) by (simp add: FindInstructionVRs_frag_def)
  have rev: "natives s' ?is = rev nis"
    by (simp add: nis_def natives_rev)
  note regs = FindInstructionVRs_list [OF run, unfolded rev assms(3,4)]
  have "distinct ?is" using assms(2) by simp
  then have e: "entry_regs (frag_at s' a) =
      foldl (\<lambda>e ni. (e \<union> instr_uses ni) - {v. instr_defines ni v}) {} (rev nis)"
    and x: "exit_regs (frag_at s' a) = {} \<union> (\<Union>ni\<in>set (rev nis). instr_uses ni \<union> {v. instr_defines ni v})"
    using regs by blast+
  show "entry_regs (frag_at s' a) = walk_regs nis"
    unfolding e walk_regs_def by (simp add: foldr_conv_foldl)
  show "exit_regs (frag_at s' a) = (\<Union>ni\<in>set nis. instr_uses ni \<union> {v. instr_defines ni v})"
    unfolding x by simp
qed

text \<open>within a fragment none of whose instructions defines a register it also uses, the registers
  recorded as live on entry are exactly those that some instruction uses and no earlier instruction
  defines, and those recorded as live on exit are the ones its instructions use or define.\<close>

theorem fragment_live_on_entry:
  assumes "is_code s a" "distinct (f_instrs (frag_at s a))" "entry_regs (frag_at s a) = {}"
    "exit_regs (frag_at s a) = {}" "FindInstructionVRs_frag X a s = Some s'"
    "nis = natives s' (f_instrs (frag_at s a))"
    "\<forall>ni\<in>set nis. \<forall>v\<in>instr_uses ni. \<not> instr_defines ni v"
  shows "entry_regs (frag_at s' a) =
      {v. \<exists>k<length nis. v \<in> instr_uses (nis ! k) \<and> (\<forall>j<k. \<not> instr_defines (nis ! j) v)} \<and>
    exit_regs (frag_at s' a) = (\<Union>ni\<in>set nis. instr_uses ni \<union> {v. instr_defines ni v})"
proof -
  have "(\<forall>j\<le>k. \<not> instr_defines (nis ! j) v) \<longleftrightarrow> (\<forall>j<k. \<not> instr_defines (nis ! j) v)"
    if "k < length nis" "v \<in> instr_uses (nis ! k)" for k v
    using assms(7) that by (metis le_less nth_mem)
  then have "walk_regs nis =
      {v. \<exists>k<length nis. v \<in> instr_uses (nis ! k) \<and> (\<forall>j<k. \<not> instr_defines (nis ! j) v)}"
    unfolding set_eq_iff walk_regs_iff by blast
  then show ?thesis using FindInstructionVRs_frag_regs [OF assms(1-5)] assms(6) by simp
qed

definition vreg :: "u16 \<Rightarrow> VirtualRegister" where
  "vreg n = VirtualRegister_default\<lparr>reg_num := n, vr_kind := kVirtualRegisterKindVirtualGpr,
     num_bytes := 8, byte_mask := ALL_8_BYTES\<rparr>"

text \<open>A load from the address in one virtual register into another.\<close>

definition load_instr :: "u16 \<Rightarrow> u16 \<Rightarrow> NativeInstruction" where
  "load_instr dst src = Instruction_new\<lparr>iclass := 384, iform := 1000, category := XED_CATEGORY_OTHER,
     ops := [Operand_new\<lparr>op_type := XED_ENCODER_OPERAND_TYPE_REG, op_rw := XED_OPERAND_ACTION_W,
              op_reg := vreg dst, is_explicit := True\<rparr>,
            Operand_new\<lparr>op_type := XED_ENCODER_OPERAND_TYPE_MEM, op_rw := XED_OPERAND_ACTION_R,
              op_reg := vreg src, is_explicit := True\<rparr>]\<rparr>"

definition load_state :: "u16 \<Rightarrow> u16 \<Rightarrow> frag_state" where
  "load_state dst src = example_frags\<lparr>
     frag_at := (\<lambda>_. (Fragment_new CodeFragment)\<lparr>f_instrs := [0]\<rparr>), flist := [0],
     instr_at := (\<lambda>_. Native (load_instr dst src))\<rparr>"

lemma load_vrs:
  "opt_fold (AddOpVRs doc_xed) (valid_ops (load_instr dst src)) (load_instr dst src, \<lambda>_. 0) =
   Some ((load_instr dst src)\<lparr>used_vrs := [unat src], defined_vr := unat dst\<rparr>, (\<lambda>_. 0)(unat dst := 1))"
  by (simp add: load_instr_def Instruction_new_def valid_ops_def Operand_IsValid_def Operand_new_def AddOpVRs_def
      AddOperand_def add_use_def add_def_def IsRegister_def IsMemory_def IsPointer_def
      CountMatchedRegisters_def vreg_def VirtualRegister_default_def IsVirtual_def Number_def
      IsConditionalWrite_def IsReadWrite_def IsRead_def IsWrite_def doc_xed_def
      PreservesBytesOnWrite_def Let_def enumerate_eq_zip upt_rec)

lemma load_state_find:
  "\<exists>s'. FindInstructionVRs_frag doc_xed 0 (load_state dst src) = Some s' \<and>
     natives s' [0] = [(load_instr dst src)\<lparr>used_vrs := [unat src], defined_vr := unat dst\<rparr>]"
  by (simp add: FindInstructionVRs_frag_def load_state_def is_code_iff Fragment_new_def
      FindInstructionVRs_instr_def native_at_def load_vrs natives_def)

lemma load_state_frag:
  "is_code (load_state dst src) 0" "f_instrs (frag_at (load_state dst src) 0) = [0]"
  "entry_regs (frag_at (load_state dst src) 0) = {}" "exit_regs (frag_at (load_state dst src) 0) = {}"
  by (simp_all add: load_state_def is_code_iff Fragment_new_def)

theorem fragment_live_on_entry_witness:
  "\<exists>s'. FindInstructionVRs_frag doc_xed 0 (load_state 3072 3073) = Some s' \<and>
     entry_regs (frag_at s' 0) = {3073}"
proof -
  obtain s' where s': "FindInstructionVRs_frag doc_xed 0 (load_state 3072 3073) = Some s'"
    "natives s' [0] = [(load_instr 3072 3073)\<lparr>used_vrs := [3073], defined_vr := 3072\<rparr>]"
    using load_state_find [of 3072 3073] by auto
  note frag = load_state_frag [of 3072 3073]
  have "entry_regs (frag_at s' 0) = {3073}"
    using fragment_live_on_entry [OF frag(1) _ frag(3,4) s'(1), unfolded frag(2) s'(2), OF _ refl]
    by (auto simp: instr_uses_def instr_defines_def)
  then show ?thesis using s'(1) by blast
qed

text \<open>An instruction that uses and defines the same register, such as a load through a register
  into that register, makes it dead on entry: the removal of the defined register comes after the
  addition of the used ones, while the walk goes backwards.\<close>

theorem use_and_def_not_live:
  assumes "is_code s a" "distinct (f_instrs (frag_at s a))" "entry_regs (frag_at s a) = {}"
    "exit_regs (frag_at s a) = {}" "FindInstructionVRs_frag X a s = Some s'"
    "natives s' (f_instrs (frag_at s a)) = ni # nis" "v \<in> instr_uses ni" "instr_defines ni v"
  shows "v \<notin> entry_regs (frag_at s' a)"
  using FindInstructionVRs_frag_regs(1) [OF assms(1-5)] assms(6-8) by (simp add: walk_regs_def)

theorem use_and_def_not_live_witness:
  "\<exists>s'. FindInstructionVRs_frag doc_xed 0 (load_state 3072 3072) = Some s' \<and>
     3072 \<notin> entry_regs (frag_at s' 0)"
proof -
  obtain s' where s': "FindInstructionVRs_frag doc_xed 0 (load_state 3072 3072) = Some s'"
    "natives s' [0] = [(load_instr 3072 3072)\<lparr>used_vrs := [3072], defined_vr := 3072\<rparr>]"
    using load_state_find [of 3072 3072] by auto
  note frag = load_state_frag [of 3072 3072]
  have "3072 \<notin> entry_regs (frag_at s' 0)"
    by (rule use_and_def_not_live [OF frag(1) _ frag(3,4) s'(1), unfolded frag(2), OF _ s'(2)])
      (simp_all add: instr_uses_def instr_defines_def)
  then show ?thesis using s'(1) by blast
qed

end
