(* ===== verification/Jumps.thy ===== *)
theory Jumps
  imports Fragments
begin

text \<open>
  The assembler's last two passes: placing the fragments in the order in which they are encoded
  and connecting them with jumps where falling through is not possible
  (\<^verbatim>\<open>granary/code/assemble/10_add_connecting_jumps.cc\<close> and its architecture-specific
  part), and finding the fragments at which the blocks are entered
  (\<^verbatim>\<open>granary/code/assemble/11_find_block_entrypoints.cc\<close>).

  The functions that build instructions are generated and not part of the sources: a relative
  conditional branch of a class built in place of an instruction and a relative jump to an address
  are the fields of a record that the definitions take.  \<^const>\<open>None\<close> is a null pointer
  dereference, or a loop that runs forever.
\<close>

section \<open>Negating a branch\<close>

record instruction_builder =
  cond_branch :: "nat \<Rightarrow> NativeInstruction \<Rightarrow> NativeInstruction"
  jmp_relbrd :: "nat option \<Rightarrow> NativeInstruction"

definition IsNearRelativeJump :: "NativeInstruction \<Rightarrow> bool" where
  "IsNearRelativeJump ni \<longleftrightarrow>
     iclass ni \<in> {XED_ICLASS_JRCXZ, XED_ICLASS_LOOP, XED_ICLASS_LOOPE, XED_ICLASS_LOOPNE}"

text \<open>The classes of the builders in the table, indexed from \<^verbatim>\<open>JB\<close>: the enumeration has
  \<^verbatim>\<open>JB\<close>, \<^verbatim>\<open>JBE\<close>, \<^verbatim>\<open>JL\<close>, \<^verbatim>\<open>JLE\<close>, \<^verbatim>\<open>JMP\<close>, \<^verbatim>\<open>JMP_FAR\<close>,
  \<^verbatim>\<open>JNB\<close>, \<^verbatim>\<open>JNBE\<close>, \<^verbatim>\<open>JNL\<close>, \<^verbatim>\<open>JNLE\<close>, \<^verbatim>\<open>JNO\<close>, \<^verbatim>\<open>JNP\<close>,
  \<^verbatim>\<open>JNS\<close>, \<^verbatim>\<open>JNZ\<close>, \<^verbatim>\<open>JO\<close>, \<^verbatim>\<open>JP\<close>, \<^verbatim>\<open>JRCXZ\<close>, \<^verbatim>\<open>JS\<close>,
  \<^verbatim>\<open>JZ\<close> from 272 on.\<close>

definition kReversedCFIBuilders :: "nat option list" where
  "kReversedCFIBuilders =
     [Some 278, Some 279, Some 280, Some 281, None, None, Some 272, Some 273, Some 274, Some 275,
      Some 286, Some 287, Some 289, Some 290, Some 282, Some 283, None, Some 284, Some 285]"

definition reversed_class :: "nat \<Rightarrow> nat option" where
  "reversed_class c =
     (if XED_ICLASS_JB \<le> c \<and> c - XED_ICLASS_JB < length kReversedCFIBuilders
      then kReversedCFIBuilders ! (c - XED_ICLASS_JB) else None)"

definition TryNegateBranchCondition ::
    "instruction_builder \<Rightarrow> nat option \<Rightarrow> frag_state \<Rightarrow> (frag_state \<times> bool) option" where
  "TryNegateBranchCondition B instr s =
     (case instr of None \<Rightarrow> Some (s, False)
      | Some i \<Rightarrow>
          (case native_at s i of None \<Rightarrow> None
           | Some ni \<Rightarrow>
               if IsNearRelativeJump ni then Some (s, False)
               else if HasIndirectTarget ni then Some (s, False)
               else if \<not> IsConditionalJump ni then Some (s, False)
               else (case reversed_class (iclass ni) of None \<Rightarrow> None
                     | Some c \<Rightarrow>
                         Some (s\<lparr>instr_at := (instr_at s)(i := Native (cond_branch B c ni))\<rparr>, True))))"

section \<open>Ordering the fragments\<close>

record work_list =
  wl_next :: "nat option"
  wl_next_ptr :: "nat option"
  wl_order :: nat

definition Enqueue :: "nat option \<Rightarrow> work_list \<times> frag_state \<Rightarrow> work_list \<times> frag_state" where
  "Enqueue p = (\<lambda>(w, s).
     case p of None \<Rightarrow> (w, s)
     | Some a \<Rightarrow>
         if encoded_order (frag_at s a) = 0
         then (w\<lparr>wl_next := Some a, wl_order := wl_order w + 1\<rparr>,
               upd_frag a (\<lambda>f. f\<lparr>f_next := wl_next w, encoded_order := wl_order w\<rparr>) s)
         else (w, s))"

definition OrderFragment ::
    "instruction_builder \<Rightarrow> nat \<Rightarrow> work_list \<times> frag_state \<Rightarrow> (work_list \<times> frag_state) option" where
  "OrderFragment B a = (\<lambda>(w, s).
     let f = frag_at s a; fall = succ_fall f; branch = succ_branch f in
     case (fall, branch) of
       (None, None) \<Rightarrow> Some (w, s)
     | (None, Some _) \<Rightarrow> Some (Enqueue branch (w, s))
     | (Some _, None) \<Rightarrow> Some (Enqueue fall (w, s))
     | (Some x, Some y) \<Rightarrow>
         if f_cache (frag_at s y) < f_cache (frag_at s x)
         then map_option (\<lambda>s'. Enqueue branch (Enqueue fall (w, s')))
                (if f_cache f = f_cache (frag_at s y)
                 then map_option (\<lambda>(s1, negated).
                        if negated
                        then upd_frag a (\<lambda>f. f\<lparr>succ_fall := branch, succ_branch := fall\<rparr>) s1
                        else s1) (TryNegateBranchCondition B (branch_instr f) s)
                 else Some s)
         else if f_cache (frag_at s x) < f_cache (frag_at s y)
         then Some (Enqueue fall (Enqueue branch (w, s)))
         else Option.bind (branch_instr f) (\<lambda>i.
              Option.bind (native_at s i) (\<lambda>ni.
                if IsNearRelativeJump ni then Some (Enqueue branch (Enqueue fall (w, s)))
                else Some (Enqueue fall (Enqueue branch (w, s))))))"

definition EnqueueStragglerFragments :: "work_list \<times> frag_state \<Rightarrow> work_list \<times> frag_state" where
  "EnqueueStragglerFragments st =
     fold (\<lambda>a st. if IsA NonLocalEntryFragment (snd st) (Some a) then Enqueue (Some a) st else st)
       (rev (flist (snd st))) st"

text \<open>One iteration of the ordering loop: the first fragment of the work list gets the next
  number and is chained where \<^verbatim>\<open>next_ptr\<close> points.\<close>

definition dequeue :: "nat \<Rightarrow> nat \<Rightarrow> work_list \<times> frag_state \<Rightarrow> (work_list \<times> frag_state) option" where
  "dequeue order cur = (\<lambda>(w, s).
     let w1 = w\<lparr>wl_next := f_next (frag_at s cur)\<rparr>;
         s1 = upd_frag cur (\<lambda>f. f\<lparr>f_next := None, encoded_order := order\<rparr>) s
     in (case wl_next_ptr w of None \<Rightarrow> None
         | Some p \<Rightarrow> Some (w1\<lparr>wl_next_ptr := Some cur\<rparr>,
                          upd_frag p (\<lambda>f. f\<lparr>f_next := Some cur\<rparr>) s1)))"

partial_function (option) OrderFragments ::
    "instruction_builder \<Rightarrow> nat \<Rightarrow> work_list \<times> frag_state \<Rightarrow> (work_list \<times> frag_state) option" where
  "OrderFragments B order st =
     (case wl_next (fst st) of None \<Rightarrow> Some st
      | Some cur \<Rightarrow>
          Option.bind (dequeue order cur st) (\<lambda>st1.
          Option.bind (OrderFragment B cur st1) (OrderFragments B (order + 1))))"

section \<open>Connecting jumps\<close>

definition AddFallThroughJump :: "instruction_builder \<Rightarrow> nat \<Rightarrow> nat \<Rightarrow> frag_state \<Rightarrow> frag_state" where
  "AddFallThroughJump B a fall s =
     (let j = next_instr s in
      upd_frag a (\<lambda>f. f\<lparr>fall_through_instr := Some j, f_instrs := f_instrs f @ [j]\<rparr>)
        (s\<lparr>instr_at := (instr_at s)(j := Native (jmp_relbrd B (encoded_pc (frag_at s fall)))),
           next_instr := j + 1\<rparr>))"

definition dont_encode_branch :: "nat \<Rightarrow> frag_state \<Rightarrow> frag_state option" where
  "dont_encode_branch i s =
     map_option (\<lambda>ni. s\<lparr>instr_at := (instr_at s)(i := Native (DontEncode ni))\<rparr>) (native_at s i)"

definition connect :: "instruction_builder \<Rightarrow> nat \<Rightarrow> frag_state \<Rightarrow> frag_state option" where
  "connect B a s =
     (let f = frag_at s a in
      case succ_fall f of
        None \<Rightarrow>
          (case (succ_branch f, branch_instr f) of
             (Some b, Some i) \<Rightarrow>
               if f_next f = Some b \<and> f_cache f = f_cache (frag_at s b) \<and>
                  encoded_pc (frag_at s b) = None
               then dont_encode_branch i s else Some s
           | _ \<Rightarrow> Some s)
      | Some q \<Rightarrow>
          if Some q \<noteq> f_next f \<or> encoded_pc (frag_at s q) \<noteq> None \<or> f_cache f \<noteq> f_cache (frag_at s q)
          then Some (AddFallThroughJump B a q s) else Some s)"

partial_function (option) connect_all ::
    "instruction_builder \<Rightarrow> nat option \<Rightarrow> frag_state \<Rightarrow> frag_state option" where
  "connect_all B p s =
     (case p of None \<Rightarrow> Some s
      | Some a \<Rightarrow>
          Option.bind (connect B a s) (\<lambda>s'. connect_all B (f_next (frag_at s' a)) s'))"

definition start_order :: "frag_state \<Rightarrow> work_list \<times> frag_state" where
  "start_order s =
     (let first = hd (flist s);
          (w, s1) = Enqueue (Some first)
            (EnqueueStragglerFragments (\<lparr>wl_next = None, wl_next_ptr = None, wl_order = 1\<rparr>, s))
      in (w\<lparr>wl_next_ptr := Some first\<rparr>, s1))"

definition AddConnectingJumps :: "instruction_builder \<Rightarrow> frag_state \<Rightarrow> frag_state option" where
  "AddConnectingJumps B s =
     (case flist s of [] \<Rightarrow> None
      | first # _ \<Rightarrow>
          Option.bind (OrderFragments B 1 (start_order s)) (\<lambda>(w, s1). connect_all B (Some first) s1))"

section \<open>Entry fragments of the blocks\<close>

definition set_entry :: "(nat option \<Rightarrow> bool) \<Rightarrow> nat \<Rightarrow> frag_state \<Rightarrow> frag_state option" where
  "set_entry cond a s =
     Option.bind (Value (parts s) a) (\<lambda>(ps, v).
     Option.bind v (\<lambda>p.
       let s1 = s\<lparr>parts := ps\<rparr> in
       Some (if cond (entry_frag (info_at s1 p))
             then s1\<lparr>info_at := (info_at s1)(p := (info_at s1 p)\<lparr>entry_frag := Some a\<rparr>)\<rparr>
             else s1)))"

definition FindBlockEntrypointFragments :: "frag_state \<Rightarrow> frag_state option" where
  "FindBlockEntrypointFragments s =
     Option.bind
       (opt_fold (\<lambda>a s. if is_code s a \<and> is_block_head (attr (frag_at s a))
                        then set_entry (\<lambda>e. e = None) a s else Some s) (flist s) s)
       (\<lambda>s1. opt_fold (\<lambda>a s. if IsA PartitionEntryFragment s (Some a)
                             then set_entry (\<lambda>e. e \<noteq> None) a s else Some s) (flist s1) s1)"

section \<open>Negation\<close>

lemma reversed_class_simps:
  assumes "reversed_class c = Some d"
  shows "c \<in> {272, 273, 274, 275, 278, 279, 280, 281, 282, 283, 284, 285, 286, 287, 289, 290}"
proof -
  define k where "k = c - 272"
  have k: "k < 19" "c = 272 + k" "kReversedCFIBuilders ! k = Some d"
    using assms by (auto simp: k_def reversed_class_def kReversedCFIBuilders_def XED_ICLASS_JB_def
        split: if_splits)
  have "k \<in> set [0..<19]" using k(1) by simp
  then show ?thesis using k by (auto simp: upt_rec kReversedCFIBuilders_def)
qed

text \<open>Negating a condition twice gives the condition back.\<close>

lemma reversed_class_involution: "reversed_class c = Some d \<Longrightarrow> d \<noteq> c \<and> reversed_class d = Some c"
  using reversed_class_simps [of c d]
  by (auto simp: reversed_class_def kReversedCFIBuilders_def XED_ICLASS_JB_def)

text \<open>What the generated builders promise: a branch built has the class asked for and is a
  conditional jump, and keeps the kind of object it is built in.\<close>

definition builder_ok :: "instruction_builder \<Rightarrow> bool" where
  "builder_ok B \<longleftrightarrow> (\<forall>c ni. iclass (cond_branch B c ni) = c \<and>
     category (cond_branch B c ni) = XED_CATEGORY_COND_BR \<and> ni_class (cond_branch B c ni) = ni_class ni)"

definition negatable :: "NativeInstruction \<Rightarrow> bool" where
  "negatable ni \<longleftrightarrow> (IsConditionalJump ni \<and> \<not> IsNearRelativeJump ni \<and> \<not> HasIndirectTarget ni \<longrightarrow>
     reversed_class (iclass ni) \<noteq> None)"

definition branches_ok :: "frag_state \<Rightarrow> bool" where
  "branches_ok s \<longleftrightarrow>
     (\<forall>b i. branch_instr (frag_at s b) = Some i \<longrightarrow> (\<exists>ni. native_at s i = Some ni \<and> negatable ni)) \<and>
     (\<forall>b. succ_fall (frag_at s b) \<noteq> None \<and> succ_branch (frag_at s b) \<noteq> None \<longrightarrow>
        branch_instr (frag_at s b) \<noteq> None)"

lemma branches_okD:
  assumes "branches_ok s" "succ_fall (frag_at s b) \<noteq> None" "succ_branch (frag_at s b) \<noteq> None"
  obtains i ni where "branch_instr (frag_at s b) = Some i" "native_at s i = Some ni" "negatable ni"
  using assms unfolding branches_ok_def by blast

section \<open>Ordering\<close>

fun chain :: "(nat \<Rightarrow> nat option) \<Rightarrow> nat option \<Rightarrow> nat list \<Rightarrow> bool" where
  "chain nx p [] = (p = None)"
| "chain nx p (a # as) = (p = Some a \<and> chain nx (nx a) as)"

lemma nexts_chain_cong: "(\<And>a. a \<in> set as \<Longrightarrow> nx a = nx' a) \<Longrightarrow> chain nx p as = chain nx' p as"
  by (induction as arbitrary: p) auto

definition succ_set :: "Fragment \<Rightarrow> nat set" where
  "succ_set f = {q. succ_fall f = Some q \<or> succ_branch f = Some q}"

abbreviation nexts :: "frag_state \<Rightarrow> nat \<Rightarrow> nat option" where
  "nexts s a \<equiv> f_next (frag_at s a)"

text \<open>The state of the ordering: the fragments placed so far and those on the work list.  After
  the first fragment is placed it points to itself, until another one is.\<close>

definition order_inv :: "nat list \<Rightarrow> nat list \<Rightarrow> work_list \<times> frag_state \<Rightarrow> bool" where
  "order_inv D W = (\<lambda>(w, s).
     D \<noteq> [] \<and> distinct (D @ W) \<and> chain (nexts s) (wl_next w) W \<and> 0 < wl_order w \<and>
     wl_next_ptr w = Some (last D) \<and>
     (\<forall>a. encoded_order (frag_at s a) \<noteq> 0 \<longleftrightarrow> a \<in> set D \<union> set W) \<and>
     (\<forall>i<length D. encoded_order (frag_at s (D ! i)) = i + 1 \<and>
        nexts s (D ! i) = (if Suc i < length D then Some (D ! Suc i)
                           else if length D = 1 then Some (D ! 0) else None)))"

text \<open>What ordering keeps of the fragments.\<close>

definition same_code :: "Fragment \<Rightarrow> Fragment \<Rightarrow> bool" where
  "same_code f g \<longleftrightarrow> succ_set f = succ_set g \<and> f_cache f = f_cache g \<and> encoded_pc f = encoded_pc g \<and>
     f_class f = f_class g \<and> f_instrs f = f_instrs g \<and> branch_instr f = branch_instr g"

definition order_frame :: "frag_state \<Rightarrow> frag_state \<Rightarrow> bool" where
  "order_frame s t \<longleftrightarrow> flist t = flist s \<and> next_instr t = next_instr s \<and>
     (\<forall>b. same_code (frag_at t b) (frag_at s b)) \<and> (branches_ok s \<longrightarrow> branches_ok t)"

lemma order_frame_refl: "order_frame s s"
  by (simp add: order_frame_def same_code_def)

lemma order_frame_trans: "order_frame s t \<Longrightarrow> order_frame t u \<Longrightarrow> order_frame s u"
  by (auto simp: order_frame_def same_code_def)

lemma order_frame_upd:
  assumes "\<And>f. f_class (g f) = f_class f" "\<And>f. succ_fall (g f) = succ_fall f"
    "\<And>f. succ_branch (g f) = succ_branch f" "\<And>f. f_cache (g f) = f_cache f"
    "\<And>f. encoded_pc (g f) = encoded_pc f" "\<And>f. f_instrs (g f) = f_instrs f"
    "\<And>f. branch_instr (g f) = branch_instr f"
  shows "order_frame s (upd_frag a g s)"
  using assms by (simp add: order_frame_def same_code_def succ_set_def frag_at_upd_frag branches_ok_def
      native_at_def)

lemma Enqueue_step:
  assumes inv: "order_inv D W (w, s)"
  obtains W' w' s' where "Enqueue (Some q) (w, s) = (w', s')" "order_inv D W' (w', s')"
    "set D \<union> set W' = insert q (set D \<union> set W)" "order_frame s s'"
proof (cases "q \<in> set D \<union> set W")
  case True
  then have "encoded_order (frag_at s q) \<noteq> 0" using inv by (auto simp: order_inv_def)
  then show thesis using inv True order_frame_refl by (intro that [of w s W]) (auto simp: Enqueue_def)
next
  case False
  then have q: "encoded_order (frag_at s q) = 0" using inv by (auto simp: order_inv_def)
  let ?s = "upd_frag q (\<lambda>f. f\<lparr>f_next := wl_next w, encoded_order := wl_order w\<rparr>) s"
  let ?w = "w\<lparr>wl_next := Some q, wl_order := wl_order w + 1\<rparr>"
  have nx: "b \<noteq> q \<Longrightarrow> nexts ?s b = nexts s b" for b by (simp add: frag_at_upd_frag)
  have "chain (nexts ?s) (wl_next w) W = chain (nexts s) (wl_next w) W"
    using False by (intro nexts_chain_cong nx) auto
  then have W: "chain (nexts ?s) (Some q) (q # W)" using inv by (simp add: order_inv_def frag_at_upd_frag)
  have D: "i < length D \<Longrightarrow> D ! i \<noteq> q" for i using False by auto
  have enc: "encoded_order (frag_at ?s a) \<noteq> 0 \<longleftrightarrow> a \<in> insert q (set D \<union> set W)" for a
    using inv by (auto simp: order_inv_def frag_at_upd_frag)
  have "order_inv D (q # W) (?w, ?s)"
    using inv False W D enc by (auto simp: order_inv_def frag_at_upd_frag simp del: chain.simps)
  then show thesis
    using q by (intro that [of ?w ?s "q # W"]) (auto simp: Enqueue_def intro: order_frame_upd)
qed

lemma Enqueue_option:
  assumes inv: "order_inv D W (w, s)"
  obtains W' w' s' where "Enqueue p (w, s) = (w', s')" "order_inv D W' (w', s')"
    "set D \<union> set W' = set D \<union> set W \<union> set_option p" "order_frame s s'"
proof (cases p)
  case None
  then show thesis using inv order_frame_refl by (intro that [of w s W]) (auto simp: Enqueue_def)
next
  case (Some q)
  obtain W' w' s' where "Enqueue (Some q) (w, s) = (w', s')" "order_inv D W' (w', s')"
    "set D \<union> set W' = insert q (set D \<union> set W)" "order_frame s s'"
    by (rule Enqueue_step [OF inv])
  with Some show thesis by (intro that) auto
qed

lemma Enqueue_two:
  assumes inv: "order_inv D W (w, s)"
  obtains W' w' s' where "Enqueue q (Enqueue p (w, s)) = (w', s')" "order_inv D W' (w', s')"
    "set D \<union> set W' = set D \<union> set W \<union> set_option p \<union> set_option q" "order_frame s s'"
proof -
  obtain W1 w1 s1 where 1: "Enqueue p (w, s) = (w1, s1)" "order_inv D W1 (w1, s1)"
    "set D \<union> set W1 = set D \<union> set W \<union> set_option p" "order_frame s s1"
    by (rule Enqueue_option [OF inv])
  obtain W2 w2 s2 where "Enqueue q (w1, s1) = (w2, s2)" "order_inv D W2 (w2, s2)"
    "set D \<union> set W2 = set D \<union> set W1 \<union> set_option q" "order_frame s1 s2"
    by (rule Enqueue_option [OF 1(2)])
  with 1 show thesis using order_frame_trans that [of w2 s2 W2] by auto
qed

lemma order_inv_cong:
  assumes "order_inv D W (w, s)" "\<And>a. nexts t a = nexts s a"
    "\<And>a. encoded_order (frag_at t a) = encoded_order (frag_at s a)"
  shows "order_inv D W (w, t)"
  using assms by (simp add: order_inv_def cong: nexts_chain_cong)

lemma TryNegate_step:
  assumes B: "builder_ok B" and ok: "branches_ok s" "i \<in> set_option (branch_instr (frag_at s a))"
    "native_at s i = Some ni" "negatable ni"
  obtains s' negated where "TryNegateBranchCondition B (Some i) s = Some (s', negated)"
    "frag_at s' = frag_at s" "flist s' = flist s" "next_instr s' = next_instr s" "branches_ok s'"
proof (cases "IsNearRelativeJump ni \<or> HasIndirectTarget ni \<or> \<not> IsConditionalJump ni")
  case True
  then show thesis using ok(1,3) by (intro that [of s False]) (auto simp: TryNegateBranchCondition_def)
next
  case False
  then obtain c where c: "reversed_class (iclass ni) = Some c" using ok(4) by (auto simp: negatable_def)
  let ?n = "cond_branch B c ni" and ?s = "s\<lparr>instr_at := (instr_at s)(i := Native (cond_branch B c ni))\<rparr>"
  have "reversed_class c \<noteq> None" using reversed_class_involution [OF c] by simp
  then have n: "negatable ?n" using B by (simp add: negatable_def builder_ok_def)
  have nat: "native_at ?s j = (if j = i then Some ?n else native_at s j)" for j
    by (simp add: native_at_def)
  have "branches_ok ?s" using ok(1) n unfolding branches_ok_def nat by auto
  then show thesis using False c ok(3)
    by (intro that [of ?s True]) (auto simp: TryNegateBranchCondition_def)
qed

lemma OrderFragment_step:
  assumes B: "builder_ok B" and inv: "order_inv D W (w, s)" and ok: "branches_ok s"
  obtains W' w' s' where "OrderFragment B a (w, s) = Some (w', s')" "order_inv D W' (w', s')"
    "set D \<union> set W' = set D \<union> set W \<union> succ_set (frag_at s a)" "order_frame s s'"
proof -
  let ?f = "frag_at s a"
  have enq: "\<exists>W' w' s'. Enqueue q (Enqueue p (w, t)) = (w', s') \<and> order_inv D W' (w', s') \<and>
      set D \<union> set W' = set D \<union> set W \<union> succ_set ?f \<and> order_frame s s'"
    if "order_inv D W (w, t)" "order_frame s t" "set_option p \<union> set_option q = succ_set ?f" for p q t
    using Enqueue_two [OF that(1), of q p] that(2,3) order_frame_trans by (metis Un_assoc)
  have one: "Enqueue None st = st" for st by (cases st) (simp add: Enqueue_def)
  have swap: "\<exists>t. (if f_cache ?f = f_cache (frag_at s y) then
        map_option (\<lambda>(s1, negated). if negated
          then upd_frag a (\<lambda>f. f\<lparr>succ_fall := succ_branch ?f, succ_branch := succ_fall ?f\<rparr>) s1 else s1)
          (TryNegateBranchCondition B (branch_instr ?f) s) else Some s) = Some t \<and>
      order_inv D W (w, t) \<and> order_frame s t"
    if both: "succ_fall ?f = Some x" "succ_branch ?f = Some y" for x y
  proof (cases "f_cache ?f = f_cache (frag_at s y)")
    case True
    obtain i ni where i: "branch_instr ?f = Some i" "native_at s i = Some ni" "negatable ni"
      using branches_okD [OF ok, of a] both by auto
    obtain s1 negated where s1: "TryNegateBranchCondition B (Some i) s = Some (s1, negated)"
      "frag_at s1 = frag_at s" "flist s1 = flist s" "next_instr s1 = next_instr s" "branches_ok s1"
      using TryNegate_step [OF B ok _ i(2,3), of a] i(1) by auto
    define t where "t = (if negated then upd_frag a
      (\<lambda>f. f\<lparr>succ_fall := succ_branch ?f, succ_branch := succ_fall ?f\<rparr>) s1 else s1)"
    have "branches_ok t"
      using s1(5) i(1) both unfolding t_def branches_ok_def by (simp add: frag_at_upd_frag native_at_def s1(2))
    then have "order_frame s t"
      using s1 both by (auto simp: t_def order_frame_def same_code_def succ_set_def frag_at_upd_frag)
    moreover have "order_inv D W (w, t)"
      by (rule order_inv_cong [OF inv]) (simp_all add: t_def frag_at_upd_frag s1(2))
    ultimately show ?thesis using True i(1) s1(1) by (simp add: t_def)
  qed (use inv order_frame_refl in simp)
  consider (none) "succ_fall ?f = None" "succ_branch ?f = None"
    | (branch) y where "succ_fall ?f = None" "succ_branch ?f = Some y"
    | (fall) x where "succ_fall ?f = Some x" "succ_branch ?f = None"
    | (both) x y where "succ_fall ?f = Some x" "succ_branch ?f = Some y"
    by (cases "succ_fall ?f"; cases "succ_branch ?f") auto
  then have "\<exists>W' w' s'. OrderFragment B a (w, s) = Some (w', s') \<and> order_inv D W' (w', s') \<and>
      set D \<union> set W' = set D \<union> set W \<union> succ_set ?f \<and> order_frame s s'"
  proof cases
    case none
    then show ?thesis using inv order_frame_refl by (auto simp: OrderFragment_def Let_def succ_set_def)
  next
    case branch
    have "set_option (Some y) \<union> set_option None = succ_set ?f" using branch by (auto simp: succ_set_def)
    from enq [OF inv order_frame_refl this] show ?thesis
      using branch by (simp add: OrderFragment_def Let_def one)
  next
    case fall
    have "set_option (Some x) \<union> set_option None = succ_set ?f" using fall by (auto simp: succ_set_def)
    from enq [OF inv order_frame_refl this] show ?thesis
      using fall by (simp add: OrderFragment_def Let_def one)
  next
    case both
    have sets: "set_option (Some x) \<union> set_option (Some y) = succ_set ?f"
      "set_option (Some y) \<union> set_option (Some x) = succ_set ?f"
      using both by (auto simp: succ_set_def)
    obtain i ni where i: "branch_instr ?f = Some i" "native_at s i = Some ni"
      by (rule branches_okD [OF ok, of a]) (simp_all add: both)
    obtain t where t: "(if f_cache ?f = f_cache (frag_at s y) then
        map_option (\<lambda>(s1, negated). if negated
          then upd_frag a (\<lambda>f. f\<lparr>succ_fall := Some y, succ_branch := Some x\<rparr>) s1 else s1)
          (TryNegateBranchCondition B (branch_instr ?f) s) else Some s) = Some t"
      "order_inv D W (w, t)" "order_frame s t"
      using swap [OF both] unfolding both by blast
    note e = enq [OF inv order_frame_refl sets(1)] enq [OF inv order_frame_refl sets(2)]
      enq [OF t(2,3) sets(1)]
    show ?thesis using e i t(1) unfolding OrderFragment_def Let_def prod.case both option.case
      by (simp split: if_split)
  qed
  then show thesis using that by blast
qed

lemma dequeue_step:
  assumes inv: "order_inv D (a # W) (w, s)"
  obtains w' s' where "dequeue (length D + 1) a (w, s) = Some (w', s')" "order_inv (D @ [a]) W (w', s')"
    "order_frame s s'"
proof -
  let ?p = "last D"
  have D: "D \<noteq> []" "distinct (D @ a # W)" "wl_next_ptr w = Some ?p" using inv by (auto simp: order_inv_def)
  let ?w = "w\<lparr>wl_next := nexts s a, wl_next_ptr := Some a\<rparr>"
  let ?s1 = "upd_frag a (\<lambda>f. f\<lparr>f_next := None, encoded_order := length D + 1\<rparr>) s"
  let ?s = "upd_frag ?p (\<lambda>f. f\<lparr>f_next := Some a\<rparr>) ?s1"
  have "?p \<in> set D" by (rule last_in_set [OF D(1)])
  with D(2) have p: "?p \<in> set D" "?p \<noteq> a" "?p \<notin> set W" "a \<notin> set W" "a \<notin> set D" by auto
  have nx: "nexts ?s b = (if b = ?p then Some a else if b = a then None else nexts s b)" for b
    using p by (simp add: frag_at_upd_frag)
  have enc: "encoded_order (frag_at ?s b) = (if b = a then length D + 1 else encoded_order (frag_at s b))" for b
    using p by (simp add: frag_at_upd_frag)
  have "chain (nexts ?s) (nexts s a) W = chain (nexts s) (nexts s a) W"
    using p by (intro nexts_chain_cong) (auto simp: frag_at_upd_frag)
  then have W: "chain (nexts ?s) (nexts s a) W" using inv by (simp add: order_inv_def)
  have links: "encoded_order (frag_at ?s ((D @ [a]) ! i)) = i + 1 \<and>
      nexts ?s ((D @ [a]) ! i) = (if Suc i < length (D @ [a]) then Some ((D @ [a]) ! Suc i)
        else if length (D @ [a]) = 1 then Some ((D @ [a]) ! 0) else None)" if "i < length (D @ [a])" for i
  proof (cases "i < length D")
    case True
    then have di: "D ! i \<noteq> a" "D ! i \<in> set D" using p by auto
    have last: "D ! i = ?p \<longleftrightarrow> Suc i = length D"
      using True D by (simp add: last_conv_nth nth_eq_iff_index_eq) linarith
    have old: "encoded_order (frag_at s (D ! i)) = i + 1" "Suc i \<noteq> length D \<Longrightarrow> nexts s (D ! i) = Some (D ! Suc i)"
      using inv True by (auto simp: order_inv_def)
    show ?thesis using True di last old unfolding nx enc
      by (cases "Suc i = length D") (auto simp: nth_append)
  next
    case False
    then have "i = length D" using that by simp
    then show ?thesis using D(1) p unfolding nx enc by (auto simp: nth_append)
  qed
  have "order_inv (D @ [a]) W (?w, ?s)"
    using inv W links enc by (auto simp: order_inv_def)
  moreover have "dequeue (length D + 1) a (w, s) = Some (?w, ?s)"
    using D(3) by (simp add: dequeue_def Let_def)
  moreover have "order_frame s ?s"
    by (rule order_frame_trans [OF order_frame_upd order_frame_upd]) simp_all
  ultimately show thesis using that by blast
qed

subsection \<open>What becomes of the edges\<close>

text \<open>A fragment keeps its successors and its branch, or the two successors are swapped and the
  branch is negated.\<close>

definition unchanged :: "frag_state \<Rightarrow> frag_state \<Rightarrow> nat \<Rightarrow> bool" where
  "unchanged s t b \<longleftrightarrow> succ_fall (frag_at t b) = succ_fall (frag_at s b) \<and> succ_branch (frag_at t b) = succ_branch (frag_at s b) \<and>
     branch_instr (frag_at t b) = branch_instr (frag_at s b) \<and>
     (\<forall>i. branch_instr (frag_at s b) = Some i \<longrightarrow> native_at t i = native_at s i)"

definition swapped :: "instruction_builder \<Rightarrow> frag_state \<Rightarrow> frag_state \<Rightarrow> nat \<Rightarrow> bool" where
  "swapped B s t b \<longleftrightarrow> succ_fall (frag_at s b) \<noteq> None \<and> succ_branch (frag_at s b) \<noteq> None \<and>
     succ_fall (frag_at t b) = succ_branch (frag_at s b) \<and> succ_branch (frag_at t b) = succ_fall (frag_at s b) \<and>
     branch_instr (frag_at t b) = branch_instr (frag_at s b) \<and>
     (\<exists>i ni c. branch_instr (frag_at s b) = Some i \<and> native_at s i = Some ni \<and> reversed_class (iclass ni) = Some c \<and>
        native_at t i = Some (cond_branch B c ni))"

definition one_branch :: "frag_state \<Rightarrow> bool" where
  "one_branch s \<longleftrightarrow> (\<forall>b b' i. branch_instr (frag_at s b) = Some i \<and> branch_instr (frag_at s b') = Some i \<longrightarrow> b = b')"

lemma unchanged_refl [simp]: "unchanged s s b"
  by (simp add: unchanged_def)

lemma unchanged_trans: "unchanged s t b \<Longrightarrow> unchanged t u b \<Longrightarrow> unchanged s u b"
  by (auto simp: unchanged_def)

lemma swapped_trans: "swapped B s t b \<Longrightarrow> unchanged t u b \<Longrightarrow> swapped B s u b" "unchanged s t b \<Longrightarrow> swapped B t u b \<Longrightarrow> swapped B s u b"
  by (auto simp: swapped_def unchanged_def)

lemma one_branch_frame: "order_frame s t \<Longrightarrow> one_branch t = one_branch s"
  by (simp add: order_frame_def same_code_def one_branch_def)

lemma Enqueue_unchanged: "unchanged s (snd (Enqueue p (w, s))) b"
  by (auto simp: Enqueue_def unchanged_def frag_at_upd_frag native_at_def split: option.split)

lemma Enqueue_two_unchanged: "unchanged s t b \<Longrightarrow> unchanged s (snd (Enqueue q (Enqueue p (w, t)))) b"
  using unchanged_trans [OF _ unchanged_trans [OF Enqueue_unchanged [of t p w b] Enqueue_unchanged [of "snd (Enqueue p (w, t))" q "fst (Enqueue p (w, t))" b]]]
  by simp

lemma dequeue_unchanged: "dequeue order a (w, s) = Some (w', s') \<Longrightarrow> unchanged s s' b"
  by (auto simp: dequeue_def Let_def unchanged_def frag_at_upd_frag native_at_def split: option.splits)

lemma TryNegate_edges:
  assumes "TryNegateBranchCondition B (branch_instr (frag_at s a)) s = Some (s1, negated)" "one_branch s"
  shows "frag_at s1 = frag_at s" "b \<noteq> a \<Longrightarrow> unchanged s s1 b" "\<not> negated \<Longrightarrow> s1 = s"
    "negated \<Longrightarrow> \<exists>i ni c. branch_instr (frag_at s a) = Some i \<and> native_at s i = Some ni \<and> reversed_class (iclass ni) = Some c \<and>
       native_at s1 i = Some (cond_branch B c ni)"
  using assms by (auto simp: TryNegateBranchCondition_def unchanged_def one_branch_def native_at_def split: option.splits if_splits)

text \<open>What placing the successors of one fragment does to the edges.\<close>

lemma OrderFragment_edges:
  assumes "OrderFragment B a (w, s) = Some (w', s')" "one_branch s"
  shows "unchanged s s' a \<or> swapped B s s' a" "b \<noteq> a \<Longrightarrow> unchanged s s' b"
proof -
  let ?f = "frag_at s a"
  have enq: "unchanged t (snd (Enqueue q (Enqueue p (w, t)))) c" for p q t c by (rule Enqueue_two_unchanged) simp
  have one: "unchanged t (snd (Enqueue p (w, t))) c" for p t c by (rule Enqueue_unchanged)
  have "(unchanged s s' a \<or> swapped B s s' a) \<and> (\<forall>b. b \<noteq> a \<longrightarrow> unchanged s s' b)"
  proof (cases "\<exists>x y t. succ_fall ?f = Some x \<and> succ_branch ?f = Some y \<and> f_cache (frag_at s y) < f_cache (frag_at s x) \<and>
      f_cache ?f = f_cache (frag_at s y) \<and> TryNegateBranchCondition B (branch_instr ?f) s = Some (t, True)")
    case True
    then obtain x y s1 where c: "succ_fall ?f = Some x" "succ_branch ?f = Some y" "f_cache (frag_at s y) < f_cache (frag_at s x)"
      "f_cache ?f = f_cache (frag_at s y)" "TryNegateBranchCondition B (branch_instr ?f) s = Some (s1, True)" by blast
    let ?t = "upd_frag a (\<lambda>f. f\<lparr>succ_fall := Some y, succ_branch := Some x\<rparr>) s1"
    have s': "s' = snd (Enqueue (Some y) (Enqueue (Some x) (w, ?t)))"
      using assms(1) c by (auto simp: OrderFragment_def Let_def)
    note n = TryNegate_edges [OF c(5) assms(2)]
    have at: "native_at ?t = native_at s1" by (simp add: native_at_def fun_eq_iff)
    have "swapped B s ?t a" using n(4) c(1,2) unfolding swapped_def at by (auto simp: frag_at_upd_frag n(1))
    then have "swapped B s s' a" using swapped_trans(1) [OF _ enq] s' by metis
    moreover have "unchanged s s' b" if "b \<noteq> a" for b
    proof -
      have "unchanged s ?t b" using n(2) [OF that] that unfolding unchanged_def at by (simp add: frag_at_upd_frag)
      then show ?thesis using unchanged_trans [OF _ enq] s' by metis
    qed
    ultimately show ?thesis by blast
  next
    case False
    have neg: "TryNegateBranchCondition B (branch_instr ?f) s = Some (t, False) \<Longrightarrow> t = s" for t
      using TryNegate_edges(3) [OF _ assms(2)] by blast
    have "s' = s \<or> (\<exists>p. s' = snd (Enqueue p (w, s))) \<or> (\<exists>p q. s' = snd (Enqueue q (Enqueue p (w, s))))"
      using assms(1) False neg
      by (auto simp: OrderFragment_def Let_def bind_eq_Some_conv prod_eq_iff split: option.splits if_splits) metis+
    then show ?thesis using enq one by auto
  qed
  then show "unchanged s s' a \<or> swapped B s s' a" "b \<noteq> a \<Longrightarrow> unchanged s s' b" by auto
qed

text \<open>A set of fragments the ordering stays in.\<close>

definition closed_set :: "frag_state \<Rightarrow> nat set \<Rightarrow> bool" where
  "closed_set s U \<longleftrightarrow> finite U \<and> (\<forall>a\<in>U. succ_set (frag_at s a) \<subseteq> U)"

lemma closed_set_frame: "order_frame s t \<Longrightarrow> closed_set t U = closed_set s U"
  by (simp add: order_frame_def same_code_def closed_set_def)

lemma OrderFragments_step:
  assumes B: "builder_ok B" and inv: "order_inv D W (w, s)" "W = a # W1" and ok: "branches_ok s"
  obtains w' s' W' where "OrderFragments B (length D + 1) (w, s) = OrderFragments B (length D + 2) (w', s')"
    "order_inv (D @ [a]) W' (w', s')" "order_frame s s'"
    "set (D @ [a]) \<union> set W' = set D \<union> set W \<union> succ_set (frag_at s a)"
    "one_branch s \<longrightarrow> (unchanged s s' a \<or> swapped B s s' a) \<and> (\<forall>b. b \<noteq> a \<longrightarrow> unchanged s s' b)"
proof -
  obtain w1 s1 where 1: "dequeue (length D + 1) a (w, s) = Some (w1, s1)"
    "order_inv (D @ [a]) W1 (w1, s1)" "order_frame s s1"
    using dequeue_step inv by blast
  have "branches_ok s1" using 1(3) ok by (simp add: order_frame_def)
  then obtain W' w' s' where 2: "OrderFragment B a (w1, s1) = Some (w', s')"
    "order_inv (D @ [a]) W' (w', s')" "order_frame s1 s'"
    "set (D @ [a]) \<union> set W' = set (D @ [a]) \<union> set W1 \<union> succ_set (frag_at s1 a)"
    by (rule OrderFragment_step [OF B 1(2)]) blast
  have "succ_set (frag_at s1 a) = succ_set (frag_at s a)"
    using 1(3) by (simp add: order_frame_def same_code_def)
  moreover have "wl_next w = Some a" using inv by (simp add: order_inv_def)
  moreover have "OrderFragments B (length D + 1) (w, s) = OrderFragments B (length D + 2) (w', s')"
    if "wl_next w = Some a"
    using that 1(1) 2(1) by (subst OrderFragments.simps) simp
  moreover have un: "unchanged s s1 b" for b by (rule dequeue_unchanged [OF 1(1)])
  have "one_branch s \<longrightarrow> (unchanged s s' a \<or> swapped B s s' a) \<and> (\<forall>b. b \<noteq> a \<longrightarrow> unchanged s s' b)"
    using OrderFragment_edges [OF 2(1)] one_branch_frame [OF 1(3)] un unchanged_trans swapped_trans(2) by metis
  ultimately show thesis
    using 1 2 inv(2) order_frame_trans [OF 1(3) 2(3)] by (intro that [of w' s' W']) auto
qed

lemma OrderFragments_returns:
  assumes B: "builder_ok B"
  shows "order_inv D W (w, s) \<Longrightarrow> branches_ok s \<Longrightarrow> closed_set s U \<Longrightarrow> set D \<union> set W \<subseteq> U \<Longrightarrow>
    (\<Union>a\<in>set D. succ_set (frag_at s a)) \<subseteq> set D \<union> set W \<Longrightarrow>
    \<exists>L w' s'. OrderFragments B (length D + 1) (w, s) = Some (w', s') \<and> order_inv L [] (w', s') \<and>
      order_frame s s' \<and> hd L = hd D \<and> set D \<union> set W \<subseteq> set L \<and> set L \<subseteq> U \<and>
      (\<Union>a\<in>set L. succ_set (frag_at s' a)) \<subseteq> set L \<and>
      (one_branch s \<longrightarrow> (\<forall>b. unchanged s s' b \<or> b \<notin> set D \<and> swapped B s s' b))"
proof (induction "card (U - set D)" arbitrary: D W w s rule: less_induct)
  case less
  note inv = less.prems(1)
  show ?case
  proof (cases W)
    case Nil
    then have "wl_next w = None" using inv by (simp add: order_inv_def)
    then have "OrderFragments B (length D + 1) (w, s) = Some (w, s)"
      by (subst OrderFragments.simps) simp
    then show ?thesis using less.prems Nil order_frame_refl
      by - (rule exI [of _ D], rule exI [of _ w], rule exI [of _ s], simp)
  next
    case (Cons a W1)
    obtain w' s' W' where st: "OrderFragments B (length D + 1) (w, s) = OrderFragments B (length D + 2) (w', s')"
      "order_inv (D @ [a]) W' (w', s')" "order_frame s s'"
      "set (D @ [a]) \<union> set W' = set D \<union> set W \<union> succ_set (frag_at s a)"
      "one_branch s \<longrightarrow> (unchanged s s' a \<or> swapped B s s' a) \<and> (\<forall>b. b \<noteq> a \<longrightarrow> unchanged s s' b)"
      by (rule OrderFragments_step [OF B inv Cons less.prems(2)])
    have a: "a \<in> U" "a \<notin> set D" using less.prems(4) Cons inv by (auto simp: order_inv_def)
    then have "U - set (D @ [a]) \<subset> U - set D" by auto
    moreover have fin: "finite U" using less.prems(3) by (simp add: closed_set_def)
    ultimately have lt: "card (U - set (D @ [a])) < card (U - set D)"
      by (intro psubset_card_mono) auto
    have succs: "succ_set (frag_at s' b) = succ_set (frag_at s b)" for b
      using st(3) by (simp add: order_frame_def same_code_def)
    have ok: "branches_ok s'" using st(3) less.prems(2) by (simp add: order_frame_def)
    have closed: "closed_set s' U" using closed_set_frame [OF st(3)] less.prems(3) by simp
    have sub: "set (D @ [a]) \<union> set W' \<subseteq> U"
      unfolding st(4) using less.prems(3,4) a(1) by (auto simp: closed_set_def)
    have cl: "(\<Union>b\<in>set (D @ [a]). succ_set (frag_at s' b)) \<subseteq> set (D @ [a]) \<union> set W'"
      unfolding st(4) succs using less.prems(5) by auto
    obtain L w2 s2 where L: "OrderFragments B (length (D @ [a]) + 1) (w', s') = Some (w2, s2)"
      "order_inv L [] (w2, s2)" "order_frame s' s2" "hd L = hd (D @ [a])"
      "set (D @ [a]) \<union> set W' \<subseteq> set L" "set L \<subseteq> U" "(\<Union>a\<in>set L. succ_set (frag_at s2 a)) \<subseteq> set L"
      "one_branch s' \<longrightarrow> (\<forall>b. unchanged s' s2 b \<or> b \<notin> set (D @ [a]) \<and> swapped B s' s2 b)"
      using less.hyps [OF lt st(2) ok closed sub cl] by (elim exE conjE) (rule that)
    have edges: "unchanged s s2 b \<or> b \<notin> set D \<and> swapped B s s2 b" if "one_branch s" for b
    proof (cases "b = a")
      case True
      then have "unchanged s' s2 b" using L(8) one_branch_frame [OF st(3)] that by auto
      then show ?thesis using mp [OF st(5) that] True a(2) unchanged_trans swapped_trans(1) by metis
    next
      case False
      then have un: "unchanged s s' b" using mp [OF st(5) that] by blast
      have "unchanged s' s2 b \<or> b \<notin> set (D @ [a]) \<and> swapped B s' s2 b" using L(8) one_branch_frame [OF st(3)] that by simp
      then show ?thesis using unchanged_trans [OF un, of s2] swapped_trans(2) [OF un, of B s2] by auto
    qed
    have "D \<noteq> []" using inv by (simp add: order_inv_def)
    then have "hd L = hd D" using L(4) by simp
    moreover have "set D \<union> set W \<subseteq> set L" using L(5) st(4) by blast
    moreover have "OrderFragments B (length D + 1) (w, s) = Some (w2, s2)" using L(1) st(1) by simp
    ultimately show ?thesis
      using L(2,6,7) edges order_frame_trans [OF st(3) L(3)] by - (rule exI [of _ L], rule exI [of _ w2], rule exI [of _ s2], simp)
  qed
qed

subsection \<open>The start\<close>

text \<open>The work list before the loop starts.\<close>

definition start_inv :: "nat list \<Rightarrow> work_list \<times> frag_state \<Rightarrow> bool" where
  "start_inv W = (\<lambda>(w, s). distinct W \<and> chain (nexts s) (wl_next w) W \<and> 0 < wl_order w \<and>
     (\<forall>a. encoded_order (frag_at s a) \<noteq> 0 \<longleftrightarrow> a \<in> set W))"

lemma start_Enqueue:
  assumes inv: "start_inv W (w, s)"
  obtains w' s' where "Enqueue (Some q) (w, s) = (w', s')"
    "start_inv (if q \<in> set W then W else q # W) (w', s')" "order_frame s s'"
proof (cases "q \<in> set W")
  case True
  then have "encoded_order (frag_at s q) \<noteq> 0" using inv by (auto simp: start_inv_def)
  then show thesis using inv True order_frame_refl by (intro that [of w s]) (auto simp: Enqueue_def)
next
  case False
  then have q: "encoded_order (frag_at s q) = 0" using inv by (auto simp: start_inv_def)
  let ?s = "upd_frag q (\<lambda>f. f\<lparr>f_next := wl_next w, encoded_order := wl_order w\<rparr>) s"
  let ?w = "w\<lparr>wl_next := Some q, wl_order := wl_order w + 1\<rparr>"
  have "chain (nexts ?s) (wl_next w) W = chain (nexts s) (wl_next w) W"
    using False by (intro nexts_chain_cong) (auto simp: frag_at_upd_frag)
  then have "start_inv (q # W) (?w, ?s)"
    using inv False by (auto simp: start_inv_def frag_at_upd_frag)
  then show thesis
    using q False by (intro that [of ?w ?s]) (auto simp: Enqueue_def intro: order_frame_upd)
qed

lemma stragglers:
  assumes "start_inv [] (w, s)"
  obtains W w' s' where "EnqueueStragglerFragments (w, s) = (w', s')" "start_inv W (w', s')"
    "order_frame s s'" "set W = {a \<in> set (flist s). IsA NonLocalEntryFragment s (Some a)}"
proof -
  let ?f = "\<lambda>a st. if IsA NonLocalEntryFragment (snd st) (Some a) then Enqueue (Some a) st else st"
  have "\<exists>W' w' s'. fold ?f as (w, t) = (w', s') \<and> start_inv W' (w', s') \<and> order_frame t s' \<and>
      set W' = set W \<union> {a \<in> set as. IsA NonLocalEntryFragment t (Some a)}"
    if "start_inv W (w, t)" for as W w t
    using that
  proof (induction as arbitrary: W w t)
    case (Cons a as)
    have "\<exists>W1 w1 t1. ?f a (w, t) = (w1, t1) \<and> start_inv W1 (w1, t1) \<and> order_frame t t1 \<and>
        set W1 = set W \<union> (if IsA NonLocalEntryFragment t (Some a) then {a} else {})"
    proof (cases "IsA NonLocalEntryFragment t (Some a)")
      case True
      obtain w1 t1 where "Enqueue (Some a) (w, t) = (w1, t1)"
        "start_inv (if a \<in> set W then W else a # W) (w1, t1)" "order_frame t t1"
        by (rule start_Enqueue [OF Cons.prems])
      then show ?thesis using True
        by (intro exI [of _ "if a \<in> set W then W else a # W"]) auto
    qed (use Cons.prems order_frame_refl in auto)
    then obtain W1 w1 t1 where 1: "?f a (w, t) = (w1, t1)" "start_inv W1 (w1, t1)" "order_frame t t1"
      "set W1 = set W \<union> (if IsA NonLocalEntryFragment t (Some a) then {a} else {})" by blast
    have IsA: "IsA NonLocalEntryFragment t1 p = IsA NonLocalEntryFragment t p" for p
      using 1(3) by (auto simp: order_frame_def same_code_def IsA_def split: option.split)
    obtain W' w' s' where 2: "fold ?f as (w1, t1) = (w', s')" "start_inv W' (w', s')" "order_frame t1 s'"
      "set W' = set W1 \<union> {a \<in> set as. IsA NonLocalEntryFragment t1 (Some a)}"
      using Cons.IH [OF 1(2)] by blast
    have "set W' = set W \<union> {b \<in> set (a # as). IsA NonLocalEntryFragment t (Some b)}"
      unfolding 2(4) 1(4) IsA by auto
    moreover have "fold ?f (a # as) (w, t) = (w', s')" using 1(1) 2(1) by simp
    ultimately show ?case using 2(2) order_frame_trans [OF 1(3) 2(3)] by blast
  qed (auto simp: order_frame_refl)
  from this [OF assms, of "rev (flist s)"] show thesis
    using that by (auto simp: EnqueueStragglerFragments_def)
qed

lemma stragglers_unchanged: "unchanged s (snd (EnqueueStragglerFragments (w, s))) b"
proof -
  have "unchanged t u b \<Longrightarrow>
      unchanged t (snd (fold (\<lambda>a st. if IsA NonLocalEntryFragment (snd st) (Some a) then Enqueue (Some a) st else st) as (w, u))) b" for t u w as
  proof (induction as arbitrary: w u)
    case (Cons a as)
    show ?case
    proof (cases "IsA NonLocalEntryFragment u (Some a)")
      case True
      obtain w1 u1 where e: "Enqueue (Some a) (w, u) = (w1, u1)" by (cases "Enqueue (Some a) (w, u)")
      have "unchanged t u1 b" using unchanged_trans [OF Cons.prems Enqueue_unchanged [of u "Some a" w b]] e by simp
      then show ?thesis using Cons.IH [of u1 w1] True e by simp
    qed (use Cons in simp)
  qed simp
  then show ?thesis by (simp add: EnqueueStragglerFragments_def)
qed

text \<open>What the passes before leave: fragments not ordered yet, starting with one that is not an
  entry from elsewhere, whose successors are allocated.\<close>

definition order_ready :: "frag_state \<Rightarrow> bool" where
  "order_ready s \<longleftrightarrow> flist s \<noteq> [] \<and> (\<forall>a. encoded_order (frag_at s a) = 0) \<and> branches_ok s \<and>
     \<not> IsA NonLocalEntryFragment s (Some (hd (flist s))) \<and>
     set (flist s) \<subseteq> {..<next_frag s} \<and> closed_set s {..<next_frag s}"

lemma start_first:
  assumes B: "builder_ok B" and ready: "order_ready s"
  obtains w1 s1 W where "OrderFragments B 1 (start_order s) = OrderFragments B 2 (w1, s1)"
    "order_inv [hd (flist s)] W (w1, s1)" "order_frame s s1"
    "insert (hd (flist s)) (set W) = insert (hd (flist s)) {a \<in> set (flist s). IsA NonLocalEntryFragment s (Some a)} \<union>
       succ_set (frag_at s (hd (flist s)))"
    "one_branch s \<longrightarrow> (\<forall>b. unchanged s s1 b \<or> b = hd (flist s) \<and> swapped B s s1 b)"
proof -
  let ?a = "hd (flist s)" and ?w = "\<lparr>wl_next = None, wl_next_ptr = None, wl_order = 1\<rparr>"
  have "start_inv [] (?w, s)" using ready by (simp add: start_inv_def order_ready_def)
  then obtain W w1 s1 where 1: "EnqueueStragglerFragments (?w, s) = (w1, s1)" "start_inv W (w1, s1)"
    "order_frame s s1" "set W = {a \<in> set (flist s). IsA NonLocalEntryFragment s (Some a)}"
    by (rule stragglers)
  have a: "?a \<notin> set W" using 1(4) ready by (simp add: order_ready_def)
  obtain w2 s2 where 2: "Enqueue (Some ?a) (w1, s1) = (w2, s2)" "start_inv (?a # W) (w2, s2)"
    "order_frame s1 s2"
    using start_Enqueue [OF 1(2), of ?a] a by auto
  let ?w2 = "w2\<lparr>wl_next_ptr := Some ?a\<rparr>"
  have start: "start_order s = (?w2, s2)"
    unfolding start_order_def Let_def 1(1) 2(1) by simp
  have un2: "unchanged s s2 b" for b
    using unchanged_trans [of s s1 b s2] stragglers_unchanged [of s ?w b] Enqueue_unchanged [of s1 "Some ?a" w1 b] 1(1) 2(1) by simp
  let ?w3 = "?w2\<lparr>wl_next := nexts s2 ?a\<rparr>"
  let ?s3 = "upd_frag ?a (\<lambda>f. f\<lparr>f_next := Some ?a\<rparr>)
    (upd_frag ?a (\<lambda>f. f\<lparr>f_next := None, encoded_order := 1\<rparr>) s2)"
  have deq: "dequeue 1 ?a (?w2, s2) = Some (?w3, ?s3)" by (simp add: dequeue_def Let_def)
  have "chain (nexts ?s3) (nexts s2 ?a) W = chain (nexts s2) (nexts s2 ?a) W"
    using a by (intro nexts_chain_cong) (auto simp: frag_at_upd_frag)
  then have inv: "order_inv [?a] W (?w3, ?s3)"
    using 2(2) by (auto simp: start_inv_def order_inv_def frag_at_upd_frag)
  have fr: "order_frame s ?s3"
    by (rule order_frame_trans [OF 1(3)], rule order_frame_trans [OF 2(3)],
        rule order_frame_trans [OF order_frame_upd order_frame_upd]) simp_all
  then have "branches_ok ?s3" using ready by (simp add: order_frame_def order_ready_def)
  then obtain W' w' s' where 4: "OrderFragment B ?a (?w3, ?s3) = Some (w', s')"
    "order_inv [?a] W' (w', s')" "set [?a] \<union> set W' = set [?a] \<union> set W \<union> succ_set (frag_at ?s3 ?a)"
    "order_frame ?s3 s'"
    by (rule OrderFragment_step [OF B inv])
  have edges: "unchanged s s' b \<or> b = ?a \<and> swapped B s s' b" if "one_branch s" for b
  proof -
    have un: "unchanged s ?s3 b" using unchanged_trans [OF un2 dequeue_unchanged [OF deq]] .
    have ob: "one_branch ?s3" using one_branch_frame [OF fr] that by simp
    show ?thesis
      using OrderFragment_edges [OF 4(1) ob] unchanged_trans [OF un, of s'] swapped_trans(2) [OF un, of B s'] by (cases "b = ?a") auto
  qed
  have "wl_next ?w2 = Some ?a" using 2(2) by (simp add: start_inv_def)
  then have "OrderFragments B 1 (start_order s) = OrderFragments B 2 (w', s')"
    unfolding start using deq 4(1) by (subst OrderFragments.simps) (simp add: numeral_2_eq_2)
  moreover have "succ_set (frag_at ?s3 ?a) = succ_set (frag_at s ?a)"
    using fr unfolding order_frame_def same_code_def by blast
  ultimately show thesis
    using 4 1(4) order_frame_trans [OF fr 4(4)] edges by (intro that [of w' s' W']) auto
qed

lemma OrderFragments_complete:
  assumes B: "builder_ok B" and ready: "order_ready s"
  obtains L w' s' where "OrderFragments B 1 (start_order s) = Some (w', s')" "order_inv L [] (w', s')"
    "order_frame s s'" "hd L = hd (flist s)" "set L \<subseteq> {..<next_frag s}"
    "{a \<in> set (flist s). IsA NonLocalEntryFragment s (Some a)} \<subseteq> set L"
    "(\<Union>a\<in>set L. succ_set (frag_at s a)) \<subseteq> set L"
    "one_branch s \<longrightarrow> (\<forall>b. unchanged s s' b \<or> swapped B s s' b)"
proof -
  let ?a = "hd (flist s)"
  obtain w1 s1 W where 1: "OrderFragments B 1 (start_order s) = OrderFragments B 2 (w1, s1)"
    "order_inv [?a] W (w1, s1)" "order_frame s s1"
    "insert ?a (set W) = insert ?a {a \<in> set (flist s). IsA NonLocalEntryFragment s (Some a)} \<union>
       succ_set (frag_at s ?a)"
    "one_branch s \<longrightarrow> (\<forall>b. unchanged s s1 b \<or> b = ?a \<and> swapped B s s1 b)"
    by (rule start_first [OF B ready])
  have ok: "branches_ok s1" using 1(3) ready by (simp add: order_frame_def order_ready_def)
  have cl: "closed_set s1 {..<next_frag s}"
    using closed_set_frame [OF 1(3)] ready by (simp add: order_ready_def)
  have "?a \<in> {..<next_frag s}" using ready hd_in_set unfolding order_ready_def by blast
  then have "insert ?a {a \<in> set (flist s). IsA NonLocalEntryFragment s (Some a)} \<union>
       succ_set (frag_at s ?a) \<subseteq> {..<next_frag s}"
    using ready unfolding order_ready_def closed_set_def by blast
  then have sub: "set [?a] \<union> set W \<subseteq> {..<next_frag s}" using 1(4) by simp
  have "succ_set (frag_at s1 ?a) = succ_set (frag_at s ?a)" using 1(3) by (simp add: order_frame_def same_code_def)
  then have clo: "(\<Union>a\<in>set [?a]. succ_set (frag_at s1 a)) \<subseteq> set [?a] \<union> set W" using 1(4) by auto
  obtain L w' s' where L: "OrderFragments B (length [?a] + 1) (w1, s1) = Some (w', s')"
    "order_inv L [] (w', s')" "order_frame s1 s'" "hd L = hd [?a]" "set [?a] \<union> set W \<subseteq> set L"
    "set L \<subseteq> {..<next_frag s}" "(\<Union>a\<in>set L. succ_set (frag_at s' a)) \<subseteq> set L"
    "one_branch s1 \<longrightarrow> (\<forall>b. unchanged s1 s' b \<or> b \<notin> set [?a] \<and> swapped B s1 s' b)"
    using OrderFragments_returns [OF B 1(2) ok cl sub clo] by (elim exE conjE) (rule that)
  have edges: "unchanged s s' b \<or> swapped B s s' b" if "one_branch s" for b
  proof -
    have 2: "unchanged s1 s' b \<or> b \<notin> set [?a] \<and> swapped B s1 s' b" using L(8) one_branch_frame [OF 1(3)] that by simp
    consider "unchanged s s1 b" | "b = ?a" "swapped B s s1 b" using 1(5) \<open>one_branch s\<close> by blast
    then show ?thesis
    proof cases
      case 1
      then show ?thesis using 2 unchanged_trans [OF 1, of s'] swapped_trans(2) [OF 1, of B s'] by auto
    next
      case 2
      then have "unchanged s1 s' b" using \<open>unchanged s1 s' b \<or> _\<close> by simp
      then show ?thesis using swapped_trans(1) [OF \<open>swapped B s s1 b\<close>] by simp
    qed
  qed
  have fr: "order_frame s s'" using order_frame_trans [OF 1(3) L(3)] .
  then have "succ_set (frag_at s' a) = succ_set (frag_at s a)" for a by (simp add: order_frame_def same_code_def)
  then show thesis using 1(1,4) L(1-7) fr edges by (intro that [of w' s' L]) (auto simp: numeral_2_eq_2)
qed

lemma order_inv_chain:
  assumes "order_inv L [] (w, s)" "1 < length L"
  shows "chain (nexts s) (Some (hd L)) L"
proof -
  have "k < length L \<Longrightarrow> chain (nexts s) (Some (L ! k)) (drop k L)" for k
  proof (induction "length L - k" arbitrary: k)
    case (Suc m)
    have nx: "nexts s (L ! k) = (if Suc k < length L then Some (L ! Suc k) else None)"
      using assms Suc.prems by (auto simp: order_inv_def)
    have drop: "drop k L = L ! k # drop (Suc k) L" using Suc.prems by (simp add: Cons_nth_drop_Suc)
    show ?case
    proof (cases "Suc k < length L")
      case True
      then have "chain (nexts s) (Some (L ! Suc k)) (drop (Suc k) L)" using Suc.hyps by (intro Suc.hyps(1)) auto
      then show ?thesis using nx True by (simp add: drop)
    qed (use nx in \<open>simp add: drop\<close>)
  qed simp
  moreover have "L \<noteq> []" using assms(2) by auto
  ultimately show ?thesis using hd_conv_nth [of L] by fastforce
qed

section \<open>Connecting the ordered fragments\<close>

text \<open>A fall-through edge is kept by adjacency in the same cache, or by a jump at the end.\<close>

definition connected :: "instruction_builder \<Rightarrow> nat \<Rightarrow> frag_state \<Rightarrow> nat \<Rightarrow> bool" where
  "connected B n s a \<longleftrightarrow> (\<forall>q. succ_fall (frag_at s a) = Some q \<longrightarrow>
     (nexts s a = Some q \<and> f_cache (frag_at s a) = f_cache (frag_at s q) \<and> encoded_pc (frag_at s q) = None) \<or>
     (\<exists>j js. n \<le> j \<and> j < next_instr s \<and> fall_through_instr (frag_at s a) = Some j \<and> f_instrs (frag_at s a) = js @ [j] \<and>
           instr_at s j = Native (jmp_relbrd B (encoded_pc (frag_at s q)))))"

definition same_place :: "Fragment \<Rightarrow> Fragment \<Rightarrow> bool" where
  "same_place f g \<longleftrightarrow> f_next f = f_next g \<and> succ_fall f = succ_fall g \<and> succ_branch f = succ_branch g \<and>
     f_cache f = f_cache g \<and> encoded_pc f = encoded_pc g \<and> branch_instr f = branch_instr g \<and>
     encoded_order f = encoded_order g"

text \<open>Branch instructions are native and were allocated before \<^verbatim>\<open>n\<close>.\<close>

definition branch_instrs_ok :: "nat \<Rightarrow> frag_state \<Rightarrow> bool" where
  "branch_instrs_ok n s \<longleftrightarrow> n \<le> next_instr s \<and>
     (\<forall>b i. branch_instr (frag_at s b) = Some i \<longrightarrow> i < n \<and> native_at s i \<noteq> None)"

definition connect_frame :: "nat \<Rightarrow> nat set \<Rightarrow> frag_state \<Rightarrow> frag_state \<Rightarrow> bool" where
  "connect_frame n A s t \<longleftrightarrow> (\<forall>b. same_place (frag_at t b) (frag_at s b)) \<and> next_instr s \<le> next_instr t \<and>
     (\<forall>b. b \<notin> A \<longrightarrow> frag_at t b = frag_at s b) \<and>
     (\<forall>j. n \<le> j \<and> j < next_instr s \<longrightarrow> instr_at t j = instr_at s j)"

lemma connect_frame_refl: "connect_frame n A s s"
  by (simp add: connect_frame_def same_place_def)

lemma connect_frame_trans:
  "connect_frame n A s t \<Longrightarrow> connect_frame n A' t u \<Longrightarrow> connect_frame n (A \<union> A') s u"
  by (auto simp: connect_frame_def same_place_def)

lemma native_at_upd_instr:
  "native_at (s\<lparr>instr_at := (instr_at s)(j := Native ni), next_instr := m\<rparr>) i =
     (if i = j then Some ni else native_at s i)"
  "native_at (s\<lparr>instr_at := (instr_at s)(j := Native ni)\<rparr>) i = (if i = j then Some ni else native_at s i)"
  by (simp_all add: native_at_def)

lemma connect_jump:
  assumes "branch_instrs_ok n s" "succ_fall (frag_at s a) = Some q"
  shows "branch_instrs_ok n (AddFallThroughJump B a q s)" "connected B n (AddFallThroughJump B a q s) a"
    "connect_frame n {a} s (AddFallThroughJump B a q s)"
proof -
  let ?j = "next_instr s" and ?t = "AddFallThroughJump B a q s"
  have nat: "native_at ?t i = (if i = ?j then Some (jmp_relbrd B (encoded_pc (frag_at s q))) else native_at s i)" for i
    by (simp add: AddFallThroughJump_def Let_def native_at_def)
  have at: "frag_at ?t b = (if b = a then (frag_at s a)\<lparr>fall_through_instr := Some ?j,
      f_instrs := f_instrs (frag_at s a) @ [?j]\<rparr> else frag_at s b)" for b
    by (auto simp: AddFallThroughJump_def Let_def frag_at_upd_frag)
  have nxt: "next_instr ?t = ?j + 1" by (simp add: AddFallThroughJump_def Let_def)
  have ins: "instr_at ?t i = (if i = ?j then Native (jmp_relbrd B (encoded_pc (frag_at s q))) else instr_at s i)" for i
    by (simp add: AddFallThroughJump_def Let_def)
  show "branch_instrs_ok n ?t"
    using assms(1) unfolding branch_instrs_ok_def nat nxt by (auto simp: at)
  show "connect_frame n {a} s ?t"
    unfolding connect_frame_def same_place_def nxt ins by (simp add: at)
  show "connected B n ?t a"
    using assms unfolding connected_def ins nxt by (simp add: at branch_instrs_ok_def)
qed

lemma dont_encode_step:
  assumes "branch_instrs_ok n s" "branch_instr (frag_at s a) = Some i"
  obtains t where "dont_encode_branch i s = Some t" "branch_instrs_ok n t" "connect_frame n {} s t"
    "frag_at t = frag_at s"
proof -
  obtain ni where ni: "native_at s i = Some ni" "i < n" using assms by (fastforce simp: branch_instrs_ok_def)
  let ?t = "s\<lparr>instr_at := (instr_at s)(i := Native (DontEncode ni))\<rparr>"
  have "branch_instrs_ok n ?t" using assms(1) by (auto simp: branch_instrs_ok_def native_at_upd_instr)
  moreover have "connect_frame n {} s ?t" using ni(2) by (auto simp: connect_frame_def same_place_def)
  ultimately show thesis using ni(1) by (intro that [of ?t]) (simp_all add: dont_encode_branch_def)
qed

lemma connect_step:
  assumes ok: "branch_instrs_ok n s"
  obtains t where "connect B a s = Some t" "branch_instrs_ok n t" "connected B n t a" "connect_frame n {a} s t"
proof (cases "succ_fall (frag_at s a)")
  case None
  show thesis
  proof (cases "\<exists>b i. succ_branch (frag_at s a) = Some b \<and> branch_instr (frag_at s a) = Some i \<and>
      nexts s a = Some b \<and> f_cache (frag_at s a) = f_cache (frag_at s b) \<and> encoded_pc (frag_at s b) = None")
    case True
    then obtain b i where b: "succ_branch (frag_at s a) = Some b" "branch_instr (frag_at s a) = Some i"
      "nexts s a = Some b" "f_cache (frag_at s a) = f_cache (frag_at s b)" "encoded_pc (frag_at s b) = None"
      by blast
    obtain t where t: "dont_encode_branch i s = Some t" "branch_instrs_ok n t" "connect_frame n {} s t"
      "frag_at t = frag_at s"
      by (rule dont_encode_step [OF ok b(2)])
    have "connected B n t a" using None t(4) by (simp add: connected_def)
    moreover have "connect_frame n {a} s t" using connect_frame_trans [OF t(3) connect_frame_refl [of n "{a}"]] by simp
    ultimately show thesis using b None t(1,2) by (intro that [of t]) (auto simp: connect_def Let_def)
  next
    case False
    then have "connect B a s = Some s" using None
      by (cases "succ_branch (frag_at s a)"; cases "branch_instr (frag_at s a)") (auto simp: connect_def Let_def)
    then show thesis using None ok connect_frame_refl by (intro that [of s]) (auto simp: connected_def)
  qed
next
  case (Some q)
  show thesis
  proof (cases "Some q \<noteq> nexts s a \<or> encoded_pc (frag_at s q) \<noteq> None \<or> f_cache (frag_at s a) \<noteq> f_cache (frag_at s q)")
    case True
    then have "connect B a s = Some (AddFallThroughJump B a q s)" using Some by (simp add: connect_def Let_def)
    then show thesis using connect_jump [OF ok Some] by (intro that)
  next
    case False
    then have nx: "nexts s a = Some q" "encoded_pc (frag_at s q) = None" "f_cache (frag_at s a) = f_cache (frag_at s q)"
      by auto
    then have "connect B a s = Some s" "connected B n s a"
      using Some by (simp_all add: connect_def connected_def)
    then show thesis using ok connect_frame_refl by (intro that [of s])
  qed
qed

lemma connected_frame:
  assumes "connected B n s a" "connect_frame n A s t" "a \<notin> A"
  shows "connected B n t a"
proof -
  have a: "frag_at t a = frag_at s a" using assms(2,3) by (simp add: connect_frame_def)
  have q: "same_place (frag_at t q) (frag_at s q)" for q using assms(2) by (simp add: connect_frame_def)
  have j: "n \<le> j \<Longrightarrow> j < next_instr s \<Longrightarrow> instr_at t j = instr_at s j \<and> j < next_instr t" for j
    using assms(2) by (simp add: connect_frame_def)
  show ?thesis using assms(1) q j unfolding connected_def a same_place_def by metis
qed

lemma connect_all_chain:
  "chain (nexts s) p L \<Longrightarrow> distinct L \<Longrightarrow> branch_instrs_ok n s \<Longrightarrow>
   \<exists>t. connect_all B p s = Some t \<and> connect_frame n (set L) s t \<and> (\<forall>a\<in>set L. connected B n t a)"
proof (induction L arbitrary: p s)
  case Nil
  then have "connect_all B p s = Some s" by (subst connect_all.simps) simp
  then show ?case using connect_frame_refl by auto
next
  case (Cons a L)
  obtain s1 where s1: "connect B a s = Some s1" "branch_instrs_ok n s1" "connected B n s1 a"
    "connect_frame n {a} s s1"
    by (rule connect_step [OF Cons.prems(3)])
  have nx: "nexts s1 b = nexts s b" for b using s1(4) by (simp add: connect_frame_def same_place_def)
  then have "chain (nexts s1) (nexts s1 a) L"
    using Cons.prems(1) nexts_chain_cong [of L "nexts s1" "nexts s"] by (simp add: nx)
  then obtain t where t: "connect_all B (nexts s1 a) s1 = Some t" "connect_frame n (set L) s1 t"
    "\<forall>a\<in>set L. connected B n t a"
    using Cons.IH [OF _ _ s1(2)] Cons.prems(2) by auto
  have "connected B n t a" using connected_frame [OF s1(3) t(2)] Cons.prems(2) by simp
  moreover have "connect_frame n (set (a # L)) s t" using connect_frame_trans [OF s1(4) t(2)] by simp
  moreover have "connect_all B p s = Some t"
    using Cons.prems(1) s1(1) t(1) by (subst connect_all.simps) simp
  ultimately show ?case using t(3) by auto
qed

text \<open>The connecting pass leaves the branches as they are, but for one that goes to the fragment placed
  next and ends a fragment without a fall-through edge: it is not encoded.\<close>

definition branch_kept :: "frag_state \<Rightarrow> frag_state \<Rightarrow> nat \<Rightarrow> bool" where
  "branch_kept s t a \<longleftrightarrow> (\<forall>i. branch_instr (frag_at s a) = Some i \<longrightarrow> native_at t i = native_at s i \<or>
     (succ_fall (frag_at t a) = None \<and> native_at t i = map_option DontEncode (native_at s i) \<and>
      (\<exists>b. succ_branch (frag_at t a) = Some b \<and> nexts t a = Some b \<and> f_cache (frag_at t a) = f_cache (frag_at t b) \<and>
         encoded_pc (frag_at t b) = None)))"

lemma connect_branch:
  assumes "connect B a s = Some t" "branch_instrs_ok n s"
  shows "branch_kept s t a" "i < n \<Longrightarrow> branch_instr (frag_at s a) \<noteq> Some i \<Longrightarrow> native_at t i = native_at s i"
proof -
  have fresh: "i \<noteq> next_instr s" if "i < n" for i using assms(2) that by (auto simp: branch_instrs_ok_def)
  have lt: "branch_instr (frag_at s a) = Some i \<Longrightarrow> i < n" for i using assms(2) by (auto simp: branch_instrs_ok_def)
  show "branch_kept s t a"
    using assms(1) fresh lt
    by (auto simp: branch_kept_def connect_def Let_def AddFallThroughJump_def dont_encode_branch_def native_at_def frag_at_upd_frag
        split: option.splits if_splits)
  show "native_at t i = native_at s i" if "i < n" "branch_instr (frag_at s a) \<noteq> Some i"
    using assms(1) fresh [OF that(1)] that(2)
    by (auto simp: connect_def Let_def AddFallThroughJump_def dont_encode_branch_def native_at_def split: option.splits if_splits)
qed

lemma branch_kept_frame:
  assumes "branch_kept s t a" "connect_frame n A t u" "\<And>i. branch_instr (frag_at s a) = Some i \<Longrightarrow> native_at u i = native_at t i"
  shows "branch_kept s u a"
proof -
  have "same_place (frag_at u b) (frag_at t b)" for b using assms(2) by (simp add: connect_frame_def)
  then have same: "succ_fall (frag_at u b) = succ_fall (frag_at t b)" "succ_branch (frag_at u b) = succ_branch (frag_at t b)"
      "nexts u b = nexts t b" "f_cache (frag_at u b) = f_cache (frag_at t b)" "encoded_pc (frag_at u b) = encoded_pc (frag_at t b)" for b
    by (simp_all add: same_place_def)
  show ?thesis using assms(1,3) unfolding branch_kept_def same by simp
qed

lemma branch_kept_cong:
  assumes "branch_kept s1 t a" "branch_instr (frag_at s1 a) = branch_instr (frag_at s a)"
    and "\<And>i. branch_instr (frag_at s a) = Some i \<Longrightarrow> native_at s1 i = native_at s i"
  shows "branch_kept s t a"
  unfolding branch_kept_def
proof (intro allI impI)
  fix i assume i: "branch_instr (frag_at s a) = Some i"
  have "branch_instr (frag_at s1 a) = Some i" using assms(2) i by simp
  then show "native_at t i = native_at s i \<or>
     (succ_fall (frag_at t a) = None \<and> native_at t i = map_option DontEncode (native_at s i) \<and>
      (\<exists>b. succ_branch (frag_at t a) = Some b \<and> nexts t a = Some b \<and> f_cache (frag_at t a) = f_cache (frag_at t b) \<and>
         encoded_pc (frag_at t b) = None))"
    using assms(1) unfolding branch_kept_def assms(3) [OF i, symmetric] by blast
qed

lemma connect_all_branches:
  "chain (nexts s) p L \<Longrightarrow> distinct L \<Longrightarrow> branch_instrs_ok n s \<Longrightarrow> one_branch s \<Longrightarrow> connect_all B p s = Some t \<Longrightarrow>
   (\<forall>a\<in>set L. branch_kept s t a) \<and> (\<forall>i<n. (\<forall>a\<in>set L. branch_instr (frag_at s a) \<noteq> Some i) \<longrightarrow> native_at t i = native_at s i)"
proof (induction L arbitrary: p s)
  case Nil
  then have "t = s" by (simp add: connect_all.simps [of B None])
  then show ?case by simp
next
  case (Cons a L)
  obtain s1 where s1: "connect B a s = Some s1" "branch_instrs_ok n s1" "connect_frame n {a} s s1"
    by (rule connect_step [OF Cons.prems(3)])
  have place: "same_place (frag_at s1 b) (frag_at s b)" for b using s1(3) by (simp add: connect_frame_def)
  then have nx: "nexts s1 b = nexts s b" and br: "branch_instr (frag_at s1 b) = branch_instr (frag_at s b)" for b
    by (simp_all add: same_place_def)
  have ch: "chain (nexts s1) (nexts s1 a) L"
    using Cons.prems(1) nexts_chain_cong [of L "nexts s1" "nexts s"] by (simp add: nx)
  have ob: "one_branch s1" using Cons.prems(4) by (simp add: one_branch_def br)
  have t: "connect_all B (nexts s1 a) s1 = Some t"
    using Cons.prems(1,5) s1(1) by (simp add: connect_all.simps [of B "Some a"])
  have dist: "distinct L" "a \<notin> set L" using Cons.prems(2) by auto
  note IH = Cons.IH [OF ch dist(1) s1(2) ob t, unfolded br]
  note one = connect_branch [OF s1(1) Cons.prems(3)]
  obtain t' where "connect_all B (nexts s1 a) s1 = Some t'" "connect_frame n (set L) s1 t'"
    using connect_all_chain [OF ch dist(1) s1(2)] by blast
  then have fr: "connect_frame n (set L) s1 t" using t by simp
  have lt: "branch_instr (frag_at s b) = Some i \<Longrightarrow> i < n" for b i using Cons.prems(3) by (auto simp: branch_instrs_ok_def)
  have other: "branch_instr (frag_at s b) \<noteq> Some i" if "branch_instr (frag_at s c) = Some i" "b \<noteq> c" for b c i
    using Cons.prems(4) that by (auto simp: one_branch_def)
  have "branch_kept s t a"
  proof (rule branch_kept_frame [OF one(1) fr])
    fix i assume i: "branch_instr (frag_at s a) = Some i"
    then have "\<forall>c\<in>set L. branch_instr (frag_at s c) \<noteq> Some i" using other dist(2) by metis
    then show "native_at t i = native_at s1 i" using IH lt [OF i] by blast
  qed
  moreover have "branch_kept s t b" if b: "b \<in> set L" for b
  proof -
    have "native_at s1 i = native_at s i" if "branch_instr (frag_at s b) = Some i" for i
    proof -
      have "a \<noteq> b" using b dist(2) by blast
      then show ?thesis using one(2) [OF lt [OF that]] other [OF that] by simp
    qed
    then show ?thesis using IH b by (intro branch_kept_cong [of s1 t b s]) (simp_all add: br)
  qed
  moreover have "native_at t i = native_at s i" if "i < n" "\<forall>c\<in>set (a # L). branch_instr (frag_at s c) \<noteq> Some i" for i
    using IH one(2) [OF that(1)] that by simp
  ultimately show ?case by auto
qed

text \<open>What becomes of the edges in the end.\<close>

definition edges_kept :: "instruction_builder \<Rightarrow> frag_state \<Rightarrow> frag_state \<Rightarrow> nat \<Rightarrow> bool" where
  "edges_kept B s t a \<longleftrightarrow>
     (succ_fall (frag_at t a) = succ_fall (frag_at s a) \<and> succ_branch (frag_at t a) = succ_branch (frag_at s a) \<and> branch_kept s t a) \<or>
     swapped B s t a"

lemma edges_kept_compose:
  assumes "unchanged s s1 a \<or> swapped B s s1 a" "branch_kept s1 t a" "same_place (frag_at t a) (frag_at s1 a)"
  shows "edges_kept B s t a"
  using assms(1)
proof
  assume "unchanged s s1 a"
  then have "succ_fall (frag_at t a) = succ_fall (frag_at s a)" "succ_branch (frag_at t a) = succ_branch (frag_at s a)"
    using assms(3) by (simp_all add: unchanged_def same_place_def)
  moreover have "branch_kept s t a"
  proof (rule branch_kept_cong [OF assms(2)])
    show "branch_instr (frag_at s1 a) = branch_instr (frag_at s a)" using \<open>unchanged s s1 a\<close> by (simp add: unchanged_def)
    show "native_at s1 i = native_at s i" if "branch_instr (frag_at s a) = Some i" for i
      using \<open>unchanged s s1 a\<close> that unfolding unchanged_def by blast
  qed
  ultimately show ?thesis by (simp add: edges_kept_def)
next
  assume sw: "swapped B s s1 a"
  then have ne: "succ_fall (frag_at t a) \<noteq> None" using assms(3) by (simp add: swapped_def same_place_def)
  have "native_at t i = native_at s1 i" if i: "branch_instr (frag_at s1 a) = Some i" for i
    using mp [OF spec [OF assms(2) [unfolded branch_kept_def]] i] ne by simp
  then have "unchanged s1 t a" using assms(3) by (simp add: unchanged_def same_place_def)
  then show ?thesis using swapped_trans(1) [OF sw] by (simp add: edges_kept_def)
qed

section \<open>Properties\<close>

text \<open>C19: let the first fragment have a successor other than itself (a fragment without one is chained
  after itself and the pass does not end: \<open>lone_fragment_diverges\<close>), and let no two fragments share
  a branch. Then the ordering of the fragments ends, and places every fragment that the first
  one, or an entry from elsewhere, reaches exactly once: the chain of \<^verbatim>\<open>next\<close> pointers from
  the first fragment is a list without repetition, numbered from one, closed under successors. The
  connecting pass ends too. Every fragment keeps its two successors and its branch (which is not
  encoded when it goes to the fragment placed next and there is no fall-through), or its successors are
  swapped and its branch is negated; and every fall-through edge there is in the end is kept by
  placing the successor next in the same cache or by a jump at the end of the fragment.\<close>

theorem connecting_jumps_correct:
  assumes "builder_ok B" "order_ready s" "succ_set (frag_at s (hd (flist s))) - {hd (flist s)} \<noteq> {}"
    "\<forall>b. set_option (branch_instr (frag_at s b)) \<subseteq> {..<next_instr s}" "one_branch s"
  shows "\<exists>t L. AddConnectingJumps B s = Some t \<and> distinct L \<and> hd L = hd (flist s) \<and>
     chain (\<lambda>a. f_next (frag_at t a)) (Some (hd (flist s))) L \<and>
     (\<forall>i<length L. encoded_order (frag_at t (L ! i)) = i + 1) \<and>
     {a \<in> set (flist s). IsA NonLocalEntryFragment s (Some a)} \<subseteq> set L \<and>
     (\<Union>a\<in>set L. succ_set (frag_at s a)) \<subseteq> set L \<and>
     (\<forall>a\<in>set L. edges_kept B s t a \<and> connected B (next_instr s) t a)"
proof -
  let ?a = "hd (flist s)"
  obtain L w1 s1 where L: "OrderFragments B 1 (start_order s) = Some (w1, s1)" "order_inv L [] (w1, s1)"
    "order_frame s s1" "hd L = ?a" "{a \<in> set (flist s). IsA NonLocalEntryFragment s (Some a)} \<subseteq> set L"
    "(\<Union>a\<in>set L. succ_set (frag_at s a)) \<subseteq> set L" "one_branch s \<longrightarrow> (\<forall>b. unchanged s s1 b \<or> swapped B s s1 b)"
    by (rule OrderFragments_complete [OF assms(1,2)])
  have ne: "L \<noteq> []" "distinct L" using L(2) by (auto simp: order_inv_def)
  then have "?a \<in> set L" using L(4) hd_in_set by metis
  then obtain q where "q \<in> set L" "?a \<in> set L" "q \<noteq> ?a" using assms(3) L(6) by blast
  then have len: "1 < length L" by (cases L; cases "tl L") auto
  note ch = order_inv_chain [OF L(2) len, unfolded L(4)]
  have "branches_ok s1" using assms(2) L(3) by (simp add: order_frame_def order_ready_def)
  moreover have "branch_instr (frag_at s1 b) = branch_instr (frag_at s b)" for b
    using L(3) by (simp add: order_frame_def same_code_def)
  ultimately have ok: "branch_instrs_ok (next_instr s) s1"
    using assms(4) L(3) by (fastforce simp: branch_instrs_ok_def branches_ok_def order_frame_def)
  obtain t where t: "connect_all B (Some ?a) s1 = Some t" "connect_frame (next_instr s) (set L) s1 t"
    "\<forall>a\<in>set L. connected B (next_instr s) t a"
    using connect_all_chain [OF ch ne(2) ok] by blast
  have same: "f_next (frag_at t b) = nexts s1 b" "encoded_order (frag_at t b) = encoded_order (frag_at s1 b)" for b
    using t(2) by (simp_all add: connect_frame_def same_place_def)
  have "one_branch s1" using one_branch_frame [OF L(3)] assms(5) by simp
  then have kept: "\<forall>a\<in>set L. branch_kept s1 t a" using connect_all_branches [OF ch ne(2) ok _ t(1)] by blast
  have place: "same_place (frag_at t a) (frag_at s1 a)" for a using t(2) by (simp add: connect_frame_def)
  have edges: "\<forall>a\<in>set L. edges_kept B s t a"
    using edges_kept_compose [OF spec [OF mp [OF L(7) assms(5)]] bspec [OF kept] place] by blast
  have "AddConnectingJumps B s = Some t"
    using assms(2) L(1) t(1) by (cases "flist s") (auto simp: AddConnectingJumps_def order_ready_def)
  moreover have "chain (\<lambda>a. f_next (frag_at t a)) (Some ?a) L" using ch by (simp add: same)
  moreover have "\<forall>i<length L. encoded_order (frag_at t (L ! i)) = i + 1"
    using L(2) by (simp add: same order_inv_def)
  ultimately show ?thesis using L(4-6) ne(2) t(3) edges by - (rule exI [of _ t], rule exI [of _ L], simp)
qed

definition plain_builder :: instruction_builder where
  "plain_builder = \<lparr>cond_branch = (\<lambda>c ni. ni\<lparr>iclass := c, category := XED_CATEGORY_COND_BR\<rparr>),
     jmp_relbrd = (\<lambda>_. Instruction_new\<lparr>iclass := XED_ICLASS_JMP, category := XED_CATEGORY_UNCOND_BR\<rparr>)\<rparr>"

lemma plain_builder_ok: "builder_ok plain_builder"
  by (simp add: builder_ok_def plain_builder_def Instruction_new_def)

definition two_frags :: "frag_state" where
  "two_frags =
     \<lparr>frag_at = (\<lambda>a. if a = 0 then (Fragment_new CodeFragment)\<lparr>succ_fall := Some 1, f_cache := kCodeCacheKindCold\<rparr>
                    else Fragment_new ExitFragment),
      instr_at = (\<lambda>_. Annotation kAnnotNoOp NoData), flist = [0, 1], next_frag = 2, next_instr = 0,
      parts = singletons (\<lambda>_. None), zones = singletons (\<lambda>_. FlagZone_new),
      info_at = (\<lambda>_. PartitionInfo_new 0), next_info = 0\<rparr>"

lemma two_frags_simps:
  "frag_at two_frags 0 = (Fragment_new CodeFragment)\<lparr>succ_fall := Some 1, f_cache := kCodeCacheKindCold\<rparr>"
  "a \<noteq> 0 \<Longrightarrow> frag_at two_frags a = Fragment_new ExitFragment" "flist two_frags = [0, 1]"
  "next_frag two_frags = 2" "next_instr two_frags = 0"
  by (simp_all add: two_frags_def)

lemma two_frags_ready: "order_ready two_frags"
proof -
  have "succ_set (frag_at two_frags 0) = {1}"
    by (auto simp: succ_set_def two_frags_simps Fragment_new_def)
  moreover have "succ_set (frag_at two_frags a) = {}" if "a \<noteq> 0" for a
    using that by (simp add: succ_set_def two_frags_simps Fragment_new_def)
  ultimately have "succ_set (frag_at two_frags a) \<subseteq> {..<2}" for a by (cases "a = 0") auto
  then have "closed_set two_frags {..<2}" by (simp add: closed_set_def)
  moreover have "branch_instr (frag_at two_frags b) = None" "encoded_order (frag_at two_frags b) = 0"
    "succ_branch (frag_at two_frags b) = None" for b
    by (simp_all add: two_frags_def Fragment_new_def)
  ultimately show ?thesis
    by (auto simp: order_ready_def branches_ok_def two_frags_simps IsA_def Fragment_new_def
        IsDerivedFrom_def less_2_cases_iff)
qed

theorem connecting_jumps_correct_witness:
  "\<exists>t L. AddConnectingJumps plain_builder two_frags = Some t \<and> distinct L \<and> {0, 1 :: nat} \<subseteq> set L \<and>
     succ_fall (frag_at t 0) = Some 1 \<and> connected plain_builder 0 t 0"
proof -
  have s: "succ_set (frag_at two_frags 0) = {1}"
    by (auto simp: succ_set_def two_frags_simps Fragment_new_def)
  have b: "\<forall>b. set_option (branch_instr (frag_at two_frags b)) \<subseteq> {..<next_instr two_frags}"
    by (simp add: two_frags_def Fragment_new_def)
  have ob: "one_branch two_frags" by (simp add: one_branch_def two_frags_def Fragment_new_def)
  obtain t L where t: "AddConnectingJumps plain_builder two_frags = Some t" "distinct L"
    "chain (\<lambda>a. f_next (frag_at t a)) (Some 0) L"
    "(\<Union>a\<in>set L. succ_set (frag_at two_frags a)) \<subseteq> set L"
    "\<forall>a\<in>set L. edges_kept plain_builder two_frags t a \<and> connected plain_builder 0 t a"
    using connecting_jumps_correct [OF plain_builder_ok two_frags_ready _ b] s ob
    by (auto simp: two_frags_simps(3,5))
  then have "0 \<in> set L" by (cases L) auto
  then have "1 \<in> set L" using t(4) s by blast
  moreover have "succ_fall (frag_at t 0) = Some 1"
    using t(5) \<open>0 \<in> set L\<close> by (auto simp: edges_kept_def swapped_def two_frags_def Fragment_new_def)
  ultimately show ?thesis using \<open>0 \<in> set L\<close> t by (intro exI [of _ t] exI [of _ L]) auto
qed

text \<open>A fragment list whose first fragment has no other successor and no entry from elsewhere makes
  the pass run forever: the first fragment is chained after itself.\<close>

lemma connect_nexts: "connect B a s = Some t \<Longrightarrow> nexts t b = nexts s b"
  by (auto simp: connect_def Let_def AddFallThroughJump_def dont_encode_branch_def frag_at_upd_frag
      split: option.splits if_splits)

lemma connect_all_cyclic:
  "connect_all B p s = Some t \<Longrightarrow> p = Some a \<Longrightarrow> nexts s a = Some a \<Longrightarrow> False"
proof (induction rule: connect_all.raw_induct [rotated, consumes 1])
  case (1 connect_all B p s t)
  then obtain s1 where "connect B a s = Some s1" "connect_all B (nexts s1 a) s1 = Some t"
    by (auto simp: bind_eq_Some_conv)
  then show False using 1 connect_nexts by metis
qed

theorem lone_fragment_diverges:
  assumes "builder_ok B" "order_ready s" "flist s = [a]" "succ_set (frag_at s a) \<subseteq> {a}"
  shows "AddConnectingJumps B s = None"
proof -
  obtain w1 s1 W where 1: "OrderFragments B 1 (start_order s) = OrderFragments B 2 (w1, s1)"
    "order_inv [a] W (w1, s1)"
    "insert a (set W) = insert a {b \<in> {a}. IsA NonLocalEntryFragment s (Some b)} \<union> succ_set (frag_at s a)"
    using start_first [OF assms(1,2)] assms(3) by (metis list.sel(1) list.set(1) list.set(2))
  then have "set W \<subseteq> {a}" using assms(4) by blast
  moreover have "a \<notin> set W" using 1(2) by (simp add: order_inv_def)
  ultimately have "W = []" by (cases W) auto
  then have "wl_next w1 = None" "nexts s1 a = Some a" using 1(2) by (simp_all add: order_inv_def)
  then have "OrderFragments B 1 (start_order s) = Some (w1, s1)"
    unfolding 1(1) by (subst OrderFragments.simps) simp
  then have "AddConnectingJumps B s = connect_all B (Some a) s1"
    by (simp add: AddConnectingJumps_def assms(3))
  then show ?thesis
    using connect_all_cyclic [of B "Some a" s1 _ a] \<open>nexts s1 a = Some a\<close> by (cases "connect_all B (Some a) s1") auto
qed

section \<open>Block entries\<close>

text \<open>The entry of a partition is recorded once a fragment of it begins a block, and only then
  moved to the fragment that enters the partition.\<close>

lemma set_entry_effect:
  assumes "set_entry c a s = Some t"
  shows "frag_at t = frag_at s" "flist t = flist s"
    "entry_frag (info_at t p) = entry_frag (info_at s p) \<or>
       (c (entry_frag (info_at s p)) \<and> entry_frag (info_at t p) = Some a)"
  using assms by (auto simp: set_entry_def Let_def bind_eq_Some_conv split: if_splits)

end
