(* ===== verification/Tools.thy ===== *)
theory Tools
  imports Slab Strings
begin

text \<open>
  The tool manager of \<^verbatim>\<open>granary/tool.cc\<close> and the list of clients of
  \<^verbatim>\<open>granary/client.cc\<close>: registration of tool descriptions and of their ordered
  dependencies, requests from the command line, the recursive activation of the requested tools,
  the layout of the instances of all active tools in one block, the slab allocator of such blocks,
  and construction and destruction of the instances. It is shown that activation always returns,
  that it activates exactly the tools that the dependencies reach, each once and after its
  dependencies, that the instances are aligned and disjoint, and that a block given to
  \<^verbatim>\<open>FreeTools\<close> is the one \<^verbatim>\<open>AllocateTools\<close> took.
\<close>

section \<open>Model\<close>

definition kMaxNumTools :: nat where
  "kMaxNumTools = 64"

definition kMaxToolNameLength :: nat where
  "kMaxToolNameLength = 32"

text \<open>A \<^verbatim>\<open>ToolDescription\<close>. Descriptions are static objects, here the addresses of
  \<open>descs\<close>; \<open>td_name\<close> is the row of \<^verbatim>\<open>gToolNames\<close> the name points to. The four
  functions of the description are parameters of the operations that call them.\<close>

record tool_description =
  td_id :: nat
  next_dependency_offset :: nat
  is_active :: bool
  td_name :: "nat option"
  td_size :: nat
  td_align :: nat
  allocation_offset :: nat

definition ToolDescriptor :: "nat \<Rightarrow> nat \<Rightarrow> tool_description" where
  "ToolDescriptor sizeof_T alignof_T =
     \<lparr>td_id = 0, next_dependency_offset = 1, is_active = False, td_name = None,
      td_size = sizeof_T, td_align = alignof_T, allocation_offset = 0\<rparr>"

text \<open>The static variables of the file, and the descriptions they point to.\<close>

record tool_manager =
  gNextToolId :: nat
  gRegisteredTools :: "nat option list"
  gToolNames :: "char list list"
  gActiveTools :: "nat option list"
  gNextActiveTool :: nat
  gToolDependencies :: "nat list list"
  gPrevRequestedTool :: "nat option"
  gAllocationSize :: nat
  gAllocationAlign :: nat
  gToolAllocator :: "slab_allocator option"
  descs :: "nat \<Rightarrow> tool_description"

definition static_tool_manager :: "(nat \<Rightarrow> tool_description) \<Rightarrow> tool_manager" where
  "static_tool_manager ds =
     \<lparr>gNextToolId = 0, gRegisteredTools = replicate kMaxNumTools None,
      gToolNames = replicate kMaxNumTools (replicate kMaxToolNameLength NUL),
      gActiveTools = replicate kMaxNumTools None, gNextActiveTool = 0,
      gToolDependencies = replicate kMaxNumTools (replicate kMaxNumTools 0),
      gPrevRequestedTool = None, gAllocationSize = 0, gAllocationAlign = 0,
      gToolAllocator = None, descs = ds\<rparr>"

text \<open>The string that starts a character array.\<close>

definition c_str :: "char list \<Rightarrow> string" where
  "c_str buff = takeWhile (\<lambda>c. c \<noteq> NUL) buff"

text \<open>The loop of \<^verbatim>\<open>IdForName\<close> and \<^verbatim>\<open>DescForName\<close>: the first row with the name.\<close>

definition find_name :: "tool_manager \<Rightarrow> string \<Rightarrow> nat option" where
  "find_name m name = find (\<lambda>i. StringsMatch name (c_str (gToolNames m ! i))) [0..<kMaxNumTools]"

text \<open>\<open>None\<close> is a failed assertion or a store outside an array.\<close>

definition IdForName :: "string \<Rightarrow> tool_manager \<Rightarrow> (tool_manager \<times> nat) option" where
  "IdForName name m =
     (case find_name m name of
        Some i \<Rightarrow> Some (m, i)
      | None \<Rightarrow>
          let tid = gNextToolId m
          in if tid < kMaxNumTools then
               case CopyString (Some (gToolNames m ! tid)) (Some name) of
                 Some (Some row, _) \<Rightarrow>
                   Some (m\<lparr>gNextToolId := tid + 1, gToolNames := (gToolNames m)[tid := row]\<rparr>, tid)
               | _ \<Rightarrow> None
             else None)"

definition DescForName :: "string \<Rightarrow> tool_manager \<Rightarrow> nat option" where
  "DescForName name m =
     (case find_name m name of Some i \<Rightarrow> gRegisteredTools m ! i | None \<Rightarrow> None)"

definition upd_desc :: "nat \<Rightarrow> (tool_description \<Rightarrow> tool_description) \<Rightarrow> tool_manager \<Rightarrow> tool_manager" where
  "upd_desc d f m = m\<lparr>descs := (descs m)(d := f (descs m d))\<rparr>"

definition set_dep :: "nat \<Rightarrow> nat \<Rightarrow> nat \<Rightarrow> tool_manager \<Rightarrow> tool_manager" where
  "set_dep i j dep m =
     m\<lparr>gToolDependencies := (gToolDependencies m)[i := (gToolDependencies m ! i)[j := dep]]\<rparr>"

definition RequestTool :: "string \<Rightarrow> tool_manager \<Rightarrow> tool_manager" where
  "RequestTool name m =
     (case DescForName name m of
        None \<Rightarrow> m
      | Some desc \<Rightarrow>
          (case gPrevRequestedTool m of
             None \<Rightarrow> m
           | Some prev \<Rightarrow> set_dep (td_id (descs m desc)) 0 (td_id (descs m prev)) m)
          \<lparr>gPrevRequestedTool := Some desc\<rparr>)"

text \<open>The statements of \<^verbatim>\<open>ActivateTool\<close> after its loop. \<open>None\<close>: the write is past the end
  of \<^verbatim>\<open>gActiveTools\<close>.\<close>

definition place_tool :: "nat \<Rightarrow> tool_manager \<Rightarrow> tool_manager option" where
  "place_tool desc m =
     (let td = descs m desc;
          off = gAllocationSize m + align_factor (gAllocationSize m) (td_align td)
      in if gNextActiveTool m < kMaxNumTools then
           Some (upd_desc desc (\<lambda>d. d\<lparr>allocation_offset := off\<rparr>) m
             \<lparr>gAllocationSize := off + td_size td,
              gAllocationAlign := max (td_align td) (gAllocationAlign m),
              gActiveTools := (gActiveTools m)[gNextActiveTool m := Some desc],
              gNextActiveTool := gNextActiveTool m + 1\<rparr>)
         else None)"

definition mark_active :: "nat \<Rightarrow> tool_manager \<Rightarrow> tool_manager" where
  "mark_active desc = upd_desc desc (\<lambda>d. d\<lparr>is_active := True\<rparr>)"

text \<open>The body of \<^verbatim>\<open>ActivateTool\<close> from iteration \<open>i\<close> of its loop on. A call for a
  dependency that is active returns at once; one that is not is marked and its own loop is run.
  The read of \<^verbatim>\<open>gToolDependencies\<close> past the end of a row, and of \<^verbatim>\<open>gRegisteredTools\<close>
  past its end, is \<open>None\<close>.\<close>

partial_function (option) ActivateTool_from :: "nat \<Rightarrow> nat \<Rightarrow> tool_manager \<Rightarrow> tool_manager option" where
  "ActivateTool_from desc i m =
     (if i < next_dependency_offset (descs m desc) then
        (if td_id (descs m desc) < kMaxNumTools \<and> i < kMaxNumTools \<and>
            gToolDependencies m ! td_id (descs m desc) ! i < kMaxNumTools then
           (case gRegisteredTools m ! (gToolDependencies m ! td_id (descs m desc) ! i) of
              None \<Rightarrow> ActivateTool_from desc (i + 1) m
            | Some dep_desc \<Rightarrow>
                if is_active (descs m dep_desc) then ActivateTool_from desc (i + 1) m
                else Option.bind (ActivateTool_from dep_desc 0 (mark_active dep_desc m))
                       (\<lambda>m'. ActivateTool_from desc (i + 1) m'))
         else None)
      else place_tool desc m)"

declare ActivateTool_from.simps [code] free_slabs.simps [code]

definition ActivateTool :: "nat \<Rightarrow> tool_manager \<Rightarrow> tool_manager option" where
  "ActivateTool desc m =
     (if is_active (descs m desc) then Some m else ActivateTool_from desc 0 (mark_active desc m))"

text \<open>The tools requested in a user-space build without Valgrind; \<open>FLAG_tools\<close> is the value of
  the command line option, \<open>None\<close> for a null pointer.\<close>

definition RequestTools :: "string option \<Rightarrow> tool_manager \<Rightarrow> tool_manager" where
  "RequestTools FLAG_tools m =
     (let m1 = RequestTool ''user'' m
      in case FLAG_tools of
           None \<Rightarrow> m1
         | Some flag \<Rightarrow> fold RequestTool (ForEachCommaSeparatedString kMaxToolNameLength flag) m1)"

text \<open>The loop of \<^verbatim>\<open>AddInstrumentationTool\<close> over the required tools. A write past the end of
  the row of dependencies is \<open>None\<close>.\<close>

fun add_required :: "nat \<Rightarrow> nat \<Rightarrow> string list \<Rightarrow> tool_manager \<Rightarrow> tool_manager option" where
  "add_required tid desc [] m = Some m"
| "add_required tid desc (dep_name # rest) m =
     (case IdForName dep_name m of
        None \<Rightarrow> None
      | Some (m1, dep_id) \<Rightarrow>
          let off = next_dependency_offset (descs m1 desc)
          in if off < kMaxNumTools then
               add_required tid desc rest
                 (set_dep tid off dep_id (upd_desc desc (\<lambda>d. d\<lparr>next_dependency_offset := off + 1\<rparr>) m1))
             else None)"

definition AddInstrumentationTool :: "nat \<Rightarrow> string \<Rightarrow> string list \<Rightarrow> tool_manager \<Rightarrow> tool_manager option" where
  "AddInstrumentationTool desc name required_tools m =
     (case IdForName name m of
        None \<Rightarrow> None
      | Some (m1, tid) \<Rightarrow>
          let m2 = upd_desc desc (\<lambda>d. d\<lparr>td_id := tid, next_dependency_offset := 1, is_active := False,
                     td_name := Some tid, allocation_offset := 0\<rparr>) m1;
              m3 = m2\<lparr>gRegisteredTools := (gRegisteredTools m2)[tid := Some desc]\<rparr>
          in add_required tid desc required_tools (set_dep tid 0 tid m3))"

text \<open>\<^verbatim>\<open>InitToolManager\<close>. \<open>None\<close>: the argument of \<^verbatim>\<open>ActivateTool\<close> is a null pointer,
  activation fails, or the size that divides is zero. The subtractions are of 64-bit numbers.\<close>

definition tool_slab_allocator :: "nat \<Rightarrow> nat \<Rightarrow> slab_allocator" where
  "tool_slab_allocator alloc_size alloc_align =
     (let asize = align_to alloc_size alloc_align;
          offset = align_to POINTER_SIZE alloc_align;
          max_num_allocs = nat ((int kNewAllocatorNumBytesPerSlab - int offset - int asize + 1) mod 2 ^ 64) div asize
      in SlabAllocator offset (offset + max_num_allocs * asize) asize asize)"

definition InitToolManager :: "string option \<Rightarrow> tool_manager \<Rightarrow> tool_manager option" where
  "InitToolManager FLAG_tools m =
     (let m1 = RequestTools FLAG_tools m
      in case gPrevRequestedTool m1 of
           None \<Rightarrow> None
         | Some desc \<Rightarrow>
             Option.bind (ActivateTool desc m1)
               (\<lambda>m2. if align_to (gAllocationSize m2) (gAllocationAlign m2) = 0 then None
                     else Some (m2\<lparr>gToolAllocator :=
                       Some (tool_slab_allocator (gAllocationSize m2) (gAllocationAlign m2))\<rparr>)))"

text \<open>\<^verbatim>\<open>ExitToolManager\<close> runs the destructor of the allocator; \<open>dealloc\<close> is
  \<^verbatim>\<open>os::FreeDataPages\<close>. The names and the descriptions keep their values.\<close>

definition ExitToolManager ::
  "store \<Rightarrow> ('s \<Rightarrow> nat \<Rightarrow> nat \<Rightarrow> 's) \<Rightarrow> 's \<Rightarrow> tool_manager \<Rightarrow> ('s \<times> tool_manager) option" where
  "ExitToolManager mem dealloc s m =
     (case gToolAllocator m of
        None \<Rightarrow> None
      | Some a \<Rightarrow>
          map_option (\<lambda>(s', _). (s',
              m\<lparr>gToolAllocator := None, gNextToolId := 0, gRegisteredTools := replicate kMaxNumTools None,
                gActiveTools := replicate kMaxNumTools None, gNextActiveTool := 0,
                gToolDependencies := replicate kMaxNumTools (replicate kMaxNumTools 0),
                gPrevRequestedTool := None, gAllocationSize := 0, gAllocationAlign := 0\<rparr>))
            (SlabAllocator_destroy mem dealloc a s))"

text \<open>The loops over \<^verbatim>\<open>gActiveTools\<close>, which stop at the first null pointer.\<close>

fun for_active :: "(nat \<Rightarrow> 'c \<Rightarrow> 'c) \<Rightarrow> nat option list \<Rightarrow> 'c \<Rightarrow> 'c" where
  "for_active f [] c = c"
| "for_active f (None # rest) c = c"
| "for_active f (Some desc # rest) c = for_active f rest (f desc c)"

definition InitTools :: "(nat \<Rightarrow> 'r \<Rightarrow> 'c \<Rightarrow> 'c) \<Rightarrow> 'r \<Rightarrow> tool_manager \<Rightarrow> 'c \<Rightarrow> 'c" where
  "InitTools tool_init reason m = for_active (\<lambda>desc. tool_init desc reason) (gActiveTools m)"

definition ExitTools :: "(nat \<Rightarrow> 'r \<Rightarrow> 'c \<Rightarrow> 'c) \<Rightarrow> 'r \<Rightarrow> tool_manager \<Rightarrow> 'c \<Rightarrow> 'c" where
  "ExitTools tool_exit reason m = for_active (\<lambda>desc. tool_exit desc reason) (gActiveTools m)"

text \<open>An instance is its table of virtual functions, the pointer to the next instance, and the
  members of its class. The loop of \<^verbatim>\<open>AllocateTools\<close> keeps the store, the head of the list
  and \<^verbatim>\<open>prev_tool\<close>, \<open>None\<close> while it points to the local variable.\<close>

definition tool_next :: "nat \<Rightarrow> nat" where
  "tool_next tool = tool + 8"

definition link_tool :: "nat option \<Rightarrow> nat \<Rightarrow> store \<times> nat \<Rightarrow> store \<times> nat" where
  "link_tool prev_tool tool st =
     (case prev_tool of None \<Rightarrow> (fst st, tool) | Some p \<Rightarrow> ((fst st)(p := tool), snd st))"

definition construct_tool ::
  "(nat \<Rightarrow> nat \<Rightarrow> store \<Rightarrow> store) \<Rightarrow> tool_manager \<Rightarrow> nat \<Rightarrow> nat \<Rightarrow> (store \<times> nat) \<times> nat option \<Rightarrow> (store \<times> nat) \<times> nat option" where
  "construct_tool construct m mem_addr desc st =
     (let tool = mem_addr + allocation_offset (descs m desc);
          ((mem, tools), prev_tool) = st
      in (link_tool prev_tool tool (construct desc tool mem, tools), Some (tool_next tool)))"

definition AllocateTools ::
  "(nat \<Rightarrow> nat \<Rightarrow> store \<Rightarrow> store) \<Rightarrow> 's pages_fn \<Rightarrow> 's \<Rightarrow> store \<Rightarrow> tool_manager \<Rightarrow>
   ('s \<times> store \<times> tool_manager \<times> nat) option" where
  "AllocateTools construct alloc s mem m =
     (case gToolAllocator m of
        None \<Rightarrow> None
      | Some a \<Rightarrow>
          (case Allocate alloc s mem a of
             None \<Rightarrow> None
           | Some (s', mem', a', addr) \<Rightarrow>
               let ((mem2, tools), _) = for_active (construct_tool construct m addr) (gActiveTools m) ((mem', 0), None)
               in Some (s', mem2, m\<lparr>gToolAllocator := Some a'\<rparr>, tools)))"

definition FreeTools ::
  "(nat \<Rightarrow> nat \<Rightarrow> store \<Rightarrow> store) \<Rightarrow> store \<Rightarrow> tool_manager \<Rightarrow> nat \<Rightarrow> (store \<times> tool_manager) option" where
  "FreeTools destruct mem m tools =
     (let mem1 = for_active (\<lambda>desc. destruct desc (tools + allocation_offset (descs m desc))) (gActiveTools m) mem
      in case gToolAllocator m of
           None \<Rightarrow> None
         | Some a \<Rightarrow> (let (mem2, a') = Free mem1 a tools in Some (mem2, m\<lparr>gToolAllocator := Some a'\<rparr>)))"

subsection \<open>The list of clients\<close>

text \<open>The global list of clients: each constructor puts its object at the head, and initialisation
  goes from the head. \<open>client_init\<close> is the virtual method \<^verbatim>\<open>Init\<close>.\<close>

definition Client_new :: "'k \<Rightarrow> 'k list \<Rightarrow> 'k list" where
  "Client_new client clients = client # clients"

definition InitClients :: "('k \<Rightarrow> 'c \<Rightarrow> 'c) \<Rightarrow> 'k list \<Rightarrow> 'c \<Rightarrow> 'c" where
  "InitClients client_init clients = fold client_init clients"

definition ExitClients :: "'k list \<Rightarrow> 'k list" where
  "ExitClients clients = []"

section \<open>Activation\<close>

text \<open>What activation leaves as it is, the registered tools, and the dependencies between
  registered tools.\<close>

definition same_static :: "tool_manager \<Rightarrow> tool_manager \<Rightarrow> bool" where
  "same_static m m' \<longleftrightarrow> gRegisteredTools m' = gRegisteredTools m \<and> gToolDependencies m' = gToolDependencies m \<and>
     gToolNames m' = gToolNames m \<and> gNextToolId m' = gNextToolId m \<and> gPrevRequestedTool m' = gPrevRequestedTool m \<and>
     (\<forall>d. td_id (descs m' d) = td_id (descs m d) \<and> next_dependency_offset (descs m' d) = next_dependency_offset (descs m d) \<and>
          td_name (descs m' d) = td_name (descs m d) \<and> td_size (descs m' d) = td_size (descs m d) \<and>
          td_align (descs m' d) = td_align (descs m d))"

lemma same_static_refl [simp]: "same_static m m"
  by (simp add: same_static_def)

lemma same_static_trans: "same_static m m' \<Longrightarrow> same_static m' m'' \<Longrightarrow> same_static m m''"
  by (simp add: same_static_def)

definition registered :: "tool_manager \<Rightarrow> nat \<Rightarrow> bool" where
  "registered m d \<longleftrightarrow> Some d \<in> set (gRegisteredTools m)"

definition depends_at :: "tool_manager \<Rightarrow> nat \<Rightarrow> nat \<Rightarrow> nat \<Rightarrow> bool" where
  "depends_at m d j y \<longleftrightarrow> j < next_dependency_offset (descs m d) \<and>
     gRegisteredTools m ! (gToolDependencies m ! td_id (descs m d) ! j) = Some y"

definition depends :: "tool_manager \<Rightarrow> (nat \<times> nat) set" where
  "depends m = {(x, y). registered m x \<and> x \<noteq> y \<and> (\<exists>j. depends_at m x j y)}"

lemma same_static_depends:
  assumes "same_static m m'"
  shows "registered m' = registered m" "depends_at m' = depends_at m" "depends m' = depends m"
proof -
  show r: "registered m' = registered m" using assms by (simp add: registered_def same_static_def fun_eq_iff)
  show d: "depends_at m' = depends_at m" using assms by (simp add: depends_at_def same_static_def fun_eq_iff)
  show "depends m' = depends m" by (simp add: depends_def r d)
qed

text \<open>The shape of the tables. An alignment is a power of two in the language.\<close>

definition tables_ok :: "tool_manager \<Rightarrow> bool" where
  "tables_ok m \<longleftrightarrow> length (gRegisteredTools m) = kMaxNumTools \<and> length (gToolDependencies m) = kMaxNumTools \<and>
     (\<forall>row \<in> set (gToolDependencies m). length row = kMaxNumTools) \<and>
     (\<forall>i d. i < kMaxNumTools \<and> gRegisteredTools m ! i = Some d \<longrightarrow>
        td_id (descs m d) = i \<and> 0 < next_dependency_offset (descs m d) \<and>
        next_dependency_offset (descs m d) \<le> kMaxNumTools \<and> (\<exists>k. td_align (descs m d) = 2 ^ k) \<and>
        (\<forall>j < next_dependency_offset (descs m d). gToolDependencies m ! i ! j < kMaxNumTools))"

lemma tables_ok_static: "same_static m m' \<Longrightarrow> tables_ok m' = tables_ok m"
  by (simp add: same_static_def tables_ok_def)

lemma tables_ok_registered:
  assumes "tables_ok m" "registered m d"
  shows "td_id (descs m d) < kMaxNumTools" "gRegisteredTools m ! td_id (descs m d) = Some d"
    "next_dependency_offset (descs m d) \<le> kMaxNumTools" "\<exists>k. td_align (descs m d) = 2 ^ k"
    "j < next_dependency_offset (descs m d) \<Longrightarrow> gToolDependencies m ! td_id (descs m d) ! j < kMaxNumTools"
    "0 < next_dependency_offset (descs m d)"
proof -
  obtain i where i: "i < kMaxNumTools" "gRegisteredTools m ! i = Some d"
    using assms by (auto simp: registered_def tables_ok_def in_set_conv_nth)
  with assms(1) have "td_id (descs m d) = i \<and> 0 < next_dependency_offset (descs m d) \<and> next_dependency_offset (descs m d) \<le> kMaxNumTools \<and>
        (\<exists>k. td_align (descs m d) = 2 ^ k) \<and>
        (\<forall>j < next_dependency_offset (descs m d). gToolDependencies m ! i ! j < kMaxNumTools)"
    by (simp add: tables_ok_def)
  then show "td_id (descs m d) < kMaxNumTools" "gRegisteredTools m ! td_id (descs m d) = Some d"
    "next_dependency_offset (descs m d) \<le> kMaxNumTools" "\<exists>k. td_align (descs m d) = 2 ^ k"
    "j < next_dependency_offset (descs m d) \<Longrightarrow> gToolDependencies m ! td_id (descs m d) ! j < kMaxNumTools"
    "0 < next_dependency_offset (descs m d)"
    using i by auto
qed

lemma registered_finite: "finite {d. registered m d}"
proof -
  have "{d. registered m d} \<subseteq> the ` set (gRegisteredTools m)" by (force simp: registered_def image_iff)
  then show ?thesis by (rule finite_subset) simp
qed

lemma registered_card:
  assumes "tables_ok m"
  shows "card {d. registered m d} \<le> kMaxNumTools"
proof -
  have "{d. registered m d} \<subseteq> the ` set (gRegisteredTools m)" by (force simp: registered_def image_iff)
  then have "card {d. registered m d} \<le> card (the ` set (gRegisteredTools m))" by (rule card_mono [rotated]) simp
  also have "\<dots> \<le> length (gRegisteredTools m)"
    using card_image_le [of "set (gRegisteredTools m)" the] card_length [of "gRegisteredTools m"] by simp
  finally show ?thesis using assms by (simp add: tables_ok_def)
qed

text \<open>The layout: the instances of the active tools \<open>xs\<close> follow each other in the block, each at
  its alignment, the first at the start of the block.\<close>

definition tool_end :: "tool_manager \<Rightarrow> nat \<Rightarrow> nat" where
  "tool_end m d = allocation_offset (descs m d) + td_size (descs m d)"

definition laid_out :: "tool_manager \<Rightarrow> nat list \<Rightarrow> bool" where
  "laid_out m xs \<longleftrightarrow> sorted_wrt (\<lambda>x y. tool_end m x \<le> allocation_offset (descs m y)) xs \<and>
     (\<forall>x \<in> set xs. td_align (descs m x) dvd allocation_offset (descs m x) \<and> tool_end m x \<le> gAllocationSize m \<and>
        td_align (descs m x) dvd gAllocationAlign m) \<and>
     (if xs = [] then gAllocationSize m = 0 \<and> gAllocationAlign m = 0
      else allocation_offset (descs m (hd xs)) = 0 \<and> (\<exists>k. gAllocationAlign m = 2 ^ k))"

definition active_tools_are :: "tool_manager \<Rightarrow> nat list \<Rightarrow> bool" where
  "active_tools_are m xs \<longleftrightarrow> distinct xs \<and> (\<forall>x \<in> set xs. registered m x \<and> is_active (descs m x)) \<and>
     gNextActiveTool m = length xs \<and> gActiveTools m = map Some xs @ replicate (kMaxNumTools - length xs) None"

lemma max_power2_dvd:
  "(\<exists>k. a = 2 ^ k) \<Longrightarrow> b = 0 \<or> (\<exists>k. b = 2 ^ k) \<Longrightarrow>
    (a :: nat) dvd max a b \<and> (b \<noteq> 0 \<longrightarrow> b dvd max a b) \<and> (\<exists>k. max a b = 2 ^ k)"
  by (auto simp: max_def le_imp_power_dvd)

lemma laid_out_snoc:
  assumes "laid_out m xs" "d \<notin> set xs" "\<exists>k. td_align (descs m d) = 2 ^ k" "place_tool d m = Some m'"
  shows "laid_out m' (xs @ [d])"
proof -
  define off where "off = align_to (gAllocationSize m) (td_align (descs m d))"
  have pos: "0 < td_align (descs m d)" using assms(3) by auto
  have off: "td_align (descs m d) dvd off" "gAllocationSize m \<le> off"
    using pos by (simp_all add: off_def align_to_dvd)
  have m': "allocation_offset (descs m' d) = off" "gAllocationSize m' = off + td_size (descs m d)"
    "gAllocationAlign m' = max (td_align (descs m d)) (gAllocationAlign m)"
    "td_size (descs m' y) = td_size (descs m y)" "td_align (descs m' y) = td_align (descs m y)"
    "y \<noteq> d \<Longrightarrow> allocation_offset (descs m' y) = allocation_offset (descs m y)" for y
    using assms(4) by (auto simp: place_tool_def Let_def upd_desc_def off_def align_to_def split: if_splits)
  have old: "x \<in> set xs \<Longrightarrow> allocation_offset (descs m' x) = allocation_offset (descs m x) \<and> tool_end m' x = tool_end m x" for x
    using assms(2) m'(4) m'(6) [of x] by (cases "x = d") (auto simp: tool_end_def)
  have sorted: "sorted_wrt (\<lambda>x y. tool_end m' x \<le> allocation_offset (descs m' y)) (xs @ [d])"
    using assms(1) old off m'(1) unfolding laid_out_def sorted_wrt_append
    by (fastforce elim!: sorted_wrt_mono_rel [rotated])
  have al: "gAllocationAlign m = 0 \<or> (\<exists>k. gAllocationAlign m = 2 ^ k)" "xs \<noteq> [] \<Longrightarrow> gAllocationAlign m \<noteq> 0"
    using assms(1) by (auto simp: laid_out_def split: if_splits)
  note mx = max_power2_dvd [OF assms(3) al(1)]
  have "\<forall>x \<in> set (xs @ [d]). td_align (descs m' x) dvd allocation_offset (descs m' x) \<and>
      tool_end m' x \<le> gAllocationSize m' \<and> td_align (descs m' x) dvd gAllocationAlign m'"
    using assms(1) old off m' mx al(2) unfolding laid_out_def
    by (fastforce simp: tool_end_def intro: dvd_trans)
  moreover have "allocation_offset (descs m' (hd (xs @ [d]))) = 0"
    using assms(1) old m'(1) by (cases xs) (auto simp: laid_out_def off_def align_to_def align_factor_def)
  ultimately show ?thesis using sorted mx m'(3) by (simp add: laid_out_def)
qed

lemma place_tool_ok:
  assumes "tables_ok m" "active_tools_are m xs" "laid_out m xs" "registered m d" "is_active (descs m d)" "d \<notin> set xs"
  obtains m' where "place_tool d m = Some m'" "active_tools_are m' (xs @ [d])" "laid_out m' (xs @ [d])"
    "same_static m m'" "\<And>x. is_active (descs m' x) = is_active (descs m x)"
proof -
  have "length xs + 1 = card (set (d # xs))" using assms(2,6) by (simp add: active_tools_are_def distinct_card)
  also have "\<dots> \<le> card {x. registered m x}"
    using assms(2,4) by (intro card_mono registered_finite) (auto simp: active_tools_are_def)
  finally have len: "length xs < kMaxNumTools" using registered_card [OF assms(1)] by simp
  then obtain m' where m': "place_tool d m = Some m'"
    using assms(2) by (auto simp: place_tool_def active_tools_are_def Let_def)
  then have st: "same_static m m'" "is_active (descs m' x) = is_active (descs m x)" for x
    by (auto simp: place_tool_def Let_def upd_desc_def same_static_def split: if_splits)
  have rep: "replicate (kMaxNumTools - length xs) None = None # replicate (kMaxNumTools - Suc (length xs)) None"
    using len by (metis Suc_diff_Suc replicate_Suc)
  have "active_tools_are m' (xs @ [d])"
    using m' assms(2,4,5,6) len st(2) same_static_depends(1) [OF st(1)]
    by (auto simp: active_tools_are_def place_tool_def Let_def list_update_append upd_desc_def rep split: if_splits)
  moreover have "laid_out m' (xs @ [d])"
    using laid_out_snoc [OF assms(3,6) _ m'] tables_ok_registered(4) [OF assms(1,4)] by blast
  ultimately show ?thesis using that m' st by blast
qed

text \<open>In the order of activation, every dependency is active before its dependent.\<close>

fun deps_first :: "(nat \<times> nat) set \<Rightarrow> nat set \<Rightarrow> nat list \<Rightarrow> bool" where
  "deps_first R A [] \<longleftrightarrow> True"
| "deps_first R A (x # xs) \<longleftrightarrow> R `` {x} \<subseteq> A \<and> deps_first R (insert x A) xs"

lemma deps_first_append:
  "deps_first R A (xs @ ys) \<longleftrightarrow> deps_first R A xs \<and> deps_first R (A \<union> set xs) ys"
  by (induction xs arbitrary: A) (auto simp: Un_insert_left [symmetric] simp del: Un_insert_left)

lemma deps_first_nth:
  "deps_first R A xs \<Longrightarrow> k < length xs \<Longrightarrow> (xs ! k, y) \<in> R \<Longrightarrow> y \<in> A \<union> set (take k xs)"
proof (induction xs arbitrary: A k)
  case (Cons x xs)
  then show ?case by (cases k) auto
qed simp

text \<open>The result of running the loop for \<open>d\<close> from iteration \<open>i\<close> on: \<open>ys\<close> are the tools it
  activates, all of them reached from \<open>d\<close>, and all dependencies end up active.\<close>

definition activates :: "tool_manager \<Rightarrow> nat list \<Rightarrow> nat \<Rightarrow> nat \<Rightarrow> tool_manager \<Rightarrow> nat list \<Rightarrow> bool" where
  "activates m xs d i m' ys \<longleftrightarrow>
     active_tools_are m' (xs @ ys @ [d]) \<and> laid_out m' (xs @ ys @ [d]) \<and> same_static m m' \<and>
     (\<forall>x. is_active (descs m' x) \<longleftrightarrow> is_active (descs m x) \<or> x \<in> set ys) \<and>
     (\<forall>x \<in> set ys. \<not> is_active (descs m x) \<and> (d, x) \<in> (depends m)\<^sup>+ \<and>
        (\<forall>y. (x, y) \<in> depends m \<longrightarrow> is_active (descs m' y))) \<and>
     (\<forall>j y. i \<le> j \<and> depends_at m d j y \<longrightarrow> is_active (descs m' y))"

definition on_stack_above :: "tool_manager \<Rightarrow> nat list \<Rightarrow> nat \<Rightarrow> bool" where
  "on_stack_above m xs d \<longleftrightarrow> (\<forall>s. is_active (descs m s) \<and> s \<notin> set xs \<longrightarrow> (s, d) \<in> (depends m)\<^sup>*)"

lemma activates_deps_listed:
  assumes "activates m xs d 0 m' ys" "acyclic (depends m)" "on_stack_above m xs d"
  shows "depends m `` {d} \<subseteq> set (xs @ ys)"
proof
  fix y assume "y \<in> depends m `` {d}"
  then have dep: "(d, y) \<in> depends m" by simp
  then have "is_active (descs m' y)" using assms(1) by (auto simp: activates_def depends_def)
  then have "is_active (descs m y) \<or> y \<in> set ys" using assms(1) by (simp add: activates_def)
  moreover have False if "is_active (descs m y)" "y \<notin> set xs"
  proof -
    have "(y, d) \<in> (depends m)\<^sup>*" using that assms(3) by (simp add: on_stack_above_def)
    with dep have "(d, d) \<in> (depends m)\<^sup>+" by (rule rtrancl_into_trancl2)
    then show False using assms(2) by (simp add: acyclic_def)
  qed
  ultimately show "y \<in> set (xs @ ys)" by auto
qed

definition inactive :: "tool_manager \<Rightarrow> nat set" where
  "inactive m = {x. registered m x \<and> \<not> is_active (descs m x)}"

lemma inactive_finite: "finite (inactive m)"
  using registered_finite [of m] by (auto simp: inactive_def intro: finite_subset)

lemma mark_active_simps [simp]:
  "same_static m (mark_active d m)" "is_active (descs (mark_active d m) x) \<longleftrightarrow> x = d \<or> is_active (descs m x)"
  "gActiveTools (mark_active d m) = gActiveTools m" "gNextActiveTool (mark_active d m) = gNextActiveTool m"
  "allocation_offset (descs (mark_active d m) x) = allocation_offset (descs m x)"
  "gAllocationSize (mark_active d m) = gAllocationSize m" "gAllocationAlign (mark_active d m) = gAllocationAlign m"
  by (auto simp: mark_active_def upd_desc_def same_static_def)

lemma mark_active_keeps:
  assumes "active_tools_are m xs" "laid_out m xs"
  shows "active_tools_are (mark_active d m) xs" "laid_out (mark_active d m) xs"
proof -
  have st: "same_static m (mark_active d m)" by simp
  then show "active_tools_are (mark_active d m) xs"
    using assms(1) same_static_depends(1) [OF st] by (simp add: active_tools_are_def)
  have "tool_end (mark_active d m) = tool_end m" "td_align (descs (mark_active d m) x) = td_align (descs m x)" for x
    using st by (auto simp: tool_end_def same_static_def)
  then show "laid_out (mark_active d m) xs" using assms(2) by (simp add: laid_out_def)
qed

text \<open>One activation of a dependency \<open>e\<close> and the rest of the loop compose.\<close>

lemma activates_step:
  assumes step: "depends_at m d i e" "\<not> is_active (descs m e)" "registered m d" "d \<noteq> e"
    and dep: "activates (mark_active e m) xs e 0 m1 ys"
    and rest: "activates m1 (xs @ ys @ [e]) d (Suc i) m2 zs"
  shows "activates m xs d i m2 (ys @ [e] @ zs)"
proof -
  have mk: "same_static m (mark_active e m)" by simp
  have s1: "same_static m m1" using dep same_static_trans [OF mk] by (simp add: activates_def)
  note D0 = same_static_depends [OF mk] and D1 = same_static_depends [OF s1]
  have a1: "is_active (descs m1 x) \<longleftrightarrow> x = e \<or> is_active (descs m x) \<or> x \<in> set ys" for x
    using dep by (simp add: activates_def)
  have a2: "is_active (descs m2 x) \<longleftrightarrow> is_active (descs m1 x) \<or> x \<in> set zs" for x
    using rest by (simp add: activates_def)
  have de: "(d, e) \<in> depends m" using step by (auto simp: depends_def)
  have ys: "\<not> is_active (descs m x) \<and> (d, x) \<in> (depends m)\<^sup>+ \<and> (\<forall>y. (x, y) \<in> depends m \<longrightarrow> is_active (descs m2 y))"
    if "x \<in> set ys" for x
  proof -
    from dep [unfolded activates_def D0] that
    have "\<not> is_active (descs m x)" "(e, x) \<in> (depends m)\<^sup>+" "\<forall>y. (x, y) \<in> depends m \<longrightarrow> is_active (descs m1 y)"
      unfolding mark_active_simps by blast+
    then show ?thesis using trancl_into_trancl2 [OF de] a2 by blast
  qed
  have e: "(\<forall>y. (e, y) \<in> depends m \<longrightarrow> is_active (descs m2 y))"
  proof (intro allI impI)
    fix y assume "(e, y) \<in> depends m"
    then obtain j where "depends_at m e j y" by (auto simp: depends_def)
    then have "is_active (descs m1 y)" using dep unfolding activates_def D0 by blast
    then show "is_active (descs m2 y)" by (simp add: a2)
  qed
  have zs: "\<not> is_active (descs m x) \<and> (d, x) \<in> (depends m)\<^sup>+ \<and> (\<forall>y. (x, y) \<in> depends m \<longrightarrow> is_active (descs m2 y))"
    if "x \<in> set zs" for x
    using that rest a1 unfolding activates_def D1 by blast
  have later: "is_active (descs m2 y)" if "i \<le> j" "depends_at m d j y" for j y
  proof (cases "j = i")
    case True
    then have "y = e" using that(2) step(1) by (simp add: depends_at_def)
    then show ?thesis by (simp add: a1 a2)
  next
    case False
    then have "Suc i \<le> j" using that(1) by simp
    then show ?thesis using that(2) rest unfolding activates_def D1 by blast
  qed
  show ?thesis
    unfolding activates_def
  proof (intro conjI allI ballI impI)
    show "active_tools_are m2 (xs @ (ys @ [e] @ zs) @ [d])" "laid_out m2 (xs @ (ys @ [e] @ zs) @ [d])"
      using rest by (simp_all add: activates_def)
    show "same_static m m2" using rest same_static_trans [OF s1] by (simp add: activates_def)
    show "is_active (descs m2 x) = (is_active (descs m x) \<or> x \<in> set (ys @ [e] @ zs))" for x
      by (auto simp: a1 a2)
  next
    fix x assume "x \<in> set (ys @ [e] @ zs)"
    then consider "x \<in> set ys" | "x = e" | "x \<in> set zs" by auto
    then have "\<not> is_active (descs m x) \<and> (d, x) \<in> (depends m)\<^sup>+ \<and> (\<forall>y. (x, y) \<in> depends m \<longrightarrow> is_active (descs m2 y))"
      using ys zs e de step(2) by cases auto
    then show "\<not> is_active (descs m x)" "(d, x) \<in> (depends m)\<^sup>+" "(x, y) \<in> depends m \<Longrightarrow> is_active (descs m2 y)" for y
      by blast+
  qed (use later in blast)
qed

lemma on_stack_step:
  assumes "on_stack_above m xs d" "(d, e) \<in> depends m"
  shows "on_stack_above (mark_active e m) xs e"
proof -
  have "depends (mark_active e m) = depends m" by (rule same_static_depends) simp
  then show ?thesis using assms by (auto simp: on_stack_above_def intro: rtrancl_into_rtrancl)
qed

lemma on_stack_resume:
  assumes "on_stack_above m xs d" "activates (mark_active e m) xs e 0 m1 ys"
  shows "on_stack_above m1 (xs @ ys @ [e]) d"
proof -
  have "same_static m m1" using assms(2) same_static_trans [of m "mark_active e m"] by (simp add: activates_def)
  then have "depends m1 = depends m" by (rule same_static_depends)
  then show ?thesis using assms by (auto simp: on_stack_above_def activates_def)
qed

text \<open>The loop returns, and activates what \<open>activates\<close> says; when no tool depends on itself
  through others, in an order that respects the dependencies.\<close>

definition from_ok :: "tool_manager \<Rightarrow> nat list \<Rightarrow> nat \<Rightarrow> nat \<Rightarrow> bool" where
  "from_ok m xs d i \<longleftrightarrow> (\<exists>m' ys. ActivateTool_from d i m = Some m' \<and> activates m xs d i m' ys \<and>
     (acyclic (depends m) \<and> on_stack_above m xs d \<longrightarrow> deps_first (depends m) (set xs) ys))"

lemma from_ok_step:
  assumes "registered m d" "i < kMaxNumTools" "depends_at m d i e" "\<not> is_active (descs m e)" "d \<noteq> e"
    and "td_id (descs m d) < kMaxNumTools" "gToolDependencies m ! td_id (descs m d) ! i < kMaxNumTools"
    and m1: "ActivateTool_from e 0 (mark_active e m) = Some m1" "activates (mark_active e m) xs e 0 m1 ys"
      "acyclic (depends m) \<and> on_stack_above (mark_active e m) xs e \<longrightarrow> deps_first (depends m) (set xs) ys"
    and "from_ok m1 (xs @ ys @ [e]) d (Suc i)"
  shows "from_ok m xs d i"
proof -
  have mk: "same_static m (mark_active e m)" by simp
  have s1: "same_static m m1" using m1(2) same_static_trans [OF mk] by (simp add: activates_def)
  obtain m2 zs where m2: "ActivateTool_from d (Suc i) m1 = Some m2"
    "activates m1 (xs @ ys @ [e]) d (Suc i) m2 zs"
    "acyclic (depends m) \<and> on_stack_above m1 (xs @ ys @ [e]) d \<longrightarrow> deps_first (depends m) (set (xs @ ys @ [e])) zs"
    using assms(11) by (auto simp: from_ok_def same_static_depends [OF s1])
  have "ActivateTool_from d i m = Some m2"
    using assms m2(1) by (subst ActivateTool_from.simps) (simp add: depends_at_def)
  moreover have "activates m xs d i m2 (ys @ [e] @ zs)"
    by (rule activates_step [OF assms(3,4,1,5) m1(2) m2(2)])
  moreover have "deps_first (depends m) (set xs) (ys @ [e] @ zs)" if ac: "acyclic (depends m)" "on_stack_above m xs d"
  proof -
    have "(d, e) \<in> depends m" using assms by (auto simp: depends_def)
    note above = on_stack_step [OF ac(2) this]
    have "depends m `` {e} \<subseteq> set (xs @ ys)"
      using activates_deps_listed [OF m1(2)] above ac(1) by (simp add: same_static_depends [OF mk])
    then show ?thesis
      using m1(3) m2(3) ac above on_stack_resume [OF ac(2) m1(2)] by (simp add: deps_first_append Un_assoc)
  qed
  ultimately show ?thesis unfolding from_ok_def by blast
qed

lemma from_ok_skip:
  assumes "i < next_dependency_offset (descs m d)" "i < kMaxNumTools" "\<nexists>e. depends_at m d i e \<and> \<not> is_active (descs m e)"
    and "td_id (descs m d) < kMaxNumTools" "gToolDependencies m ! td_id (descs m d) ! i < kMaxNumTools"
    and "from_ok m xs d (Suc i)"
  shows "from_ok m xs d i"
proof -
  have eq: "ActivateTool_from d i m = ActivateTool_from d (Suc i) m"
    using assms by (subst ActivateTool_from.simps) (auto simp: depends_at_def split: option.split)
  obtain m' ys where m': "ActivateTool_from d (Suc i) m = Some m'" "activates m xs d (Suc i) m' ys"
    "acyclic (depends m) \<and> on_stack_above m xs d \<longrightarrow> deps_first (depends m) (set xs) ys"
    using assms(6) by (auto simp: from_ok_def)
  have "is_active (descs m' y)" if "i \<le> j" "depends_at m d j y" for j y
  proof (cases "i = j")
    case True
    then have "is_active (descs m y)" using that(2) assms(3) by blast
    then show ?thesis using m'(2) by (simp add: activates_def)
  next
    case False
    then have "Suc i \<le> j" using that(1) by simp
    then show ?thesis using that(2) m'(2) unfolding activates_def by blast
  qed
  then have "activates m xs d i m' ys" using m'(2) unfolding activates_def by blast
  with m' eq show ?thesis by (auto simp: from_ok_def)
qed

lemma inactive_mark:
  assumes "registered m e" "\<not> is_active (descs m e)"
  shows "card (inactive (mark_active e m)) + 1 \<le> card (inactive m)"
proof -
  have "registered (mark_active e m) = registered m" by (rule same_static_depends) simp
  then have "inactive (mark_active e m) = inactive m - {e}" by (auto simp: inactive_def)
  moreover have "e \<in> inactive m" using assms by (simp add: inactive_def)
  ultimately show ?thesis using card_Suc_Diff1 [OF inactive_finite] by fastforce
qed

lemma inactive_activates:
  assumes "activates (mark_active e m) xs e 0 m1 ys"
  shows "card (inactive m1) \<le> card (inactive m)"
proof -
  have "same_static m m1" using assms same_static_trans [of m "mark_active e m"] by (simp add: activates_def)
  then have "registered m1 = registered m" by (rule same_static_depends)
  then have "inactive m1 \<subseteq> inactive m" using assms by (auto simp: inactive_def activates_def)
  then show ?thesis by (rule card_mono [OF inactive_finite])
qed

text \<open>The measure: every activation makes one more tool active, and a row has at most 64
  dependencies.\<close>

lemma ActivateTool_from_ok:
  assumes "tables_ok m" "active_tools_are m xs" "laid_out m xs" "registered m d" "is_active (descs m d)" "d \<notin> set xs"
  shows "from_ok m xs d i"
  using assms
proof (induction "card (inactive m) * 65 + (next_dependency_offset (descs m d) - i)" arbitrary: m xs d i rule: less_induct)
  case less
  note R = tables_ok_registered [OF less.prems(1,4)]
  show ?case
  proof (cases "i < next_dependency_offset (descs m d)")
    case False
    obtain m' where m': "place_tool d m = Some m'" "active_tools_are m' (xs @ [d])" "laid_out m' (xs @ [d])"
      "same_static m m'" "\<And>x. is_active (descs m' x) = is_active (descs m x)"
      by (rule place_tool_ok [OF less.prems]) blast
    have "\<not> (i \<le> j \<and> depends_at m d j y)" for j y using False by (auto simp: depends_at_def)
    then have "activates m xs d i m' []" using m'(2-5) unfolding activates_def by (simp del: imp_disjL) blast
    moreover have "ActivateTool_from d i m = Some m'" using m'(1) False by (subst ActivateTool_from.simps) simp
    ultimately show ?thesis unfolding from_ok_def by (intro exI conjI) auto
  next
    case True
    then have i: "i < kMaxNumTools" "gToolDependencies m ! td_id (descs m d) ! i < kMaxNumTools" using R by auto
    show ?thesis
    proof (cases "\<exists>e. depends_at m d i e \<and> \<not> is_active (descs m e)")
      case False
      have "card (inactive m) * 65 + (next_dependency_offset (descs m d) - Suc i) <
          card (inactive m) * 65 + (next_dependency_offset (descs m d) - i)" using True by linarith
      from less.hyps [OF this less.prems] False show ?thesis by (intro from_ok_skip [OF True i(1) _ R(1) i(2)])
    next
      case e: True
      then obtain e where e: "depends_at m d i e" "\<not> is_active (descs m e)" by blast
      let ?m = "mark_active e m"
      have st: "same_static m ?m" by simp
      have ed: "d \<noteq> e" using e(2) less.prems(5) by auto
      have reg: "registered m e" using e(1) i less.prems(1) by (auto simp: depends_at_def registered_def tables_ok_def in_set_conv_nth)
      have ex: "e \<notin> set xs" using less.prems(2) e(2) by (auto simp: active_tools_are_def)
      have "next_dependency_offset (descs ?m e) \<le> kMaxNumTools"
        using tables_ok_registered(3) [OF less.prems(1) reg] st by (simp add: same_static_def)
      then have "card (inactive ?m) * 65 + (next_dependency_offset (descs ?m e) - 0) <
          card (inactive m) * 65 + (next_dependency_offset (descs m d) - i)"
        using inactive_mark [OF reg e(2)] True by (simp add: kMaxNumTools_def)
      from less.hyps [OF this] have "from_ok ?m xs e 0"
        using mark_active_keeps [OF less.prems(2,3)] less.prems(1) reg ex
        by (simp add: tables_ok_static [OF st] same_static_depends [OF st])
      then obtain m1 ys where m1: "ActivateTool_from e 0 ?m = Some m1" "activates ?m xs e 0 m1 ys"
        "acyclic (depends m) \<and> on_stack_above ?m xs e \<longrightarrow> deps_first (depends m) (set xs) ys"
        unfolding from_ok_def same_static_depends [OF st] by blast
      have s1: "same_static m m1" using m1(2) same_static_trans [OF st] by (simp add: activates_def)
      have "next_dependency_offset (descs m1 d) = next_dependency_offset (descs m d)"
        using s1 by (simp add: same_static_def)
      then have lt: "card (inactive m1) * 65 + (next_dependency_offset (descs m1 d) - Suc i) <
          card (inactive m) * 65 + (next_dependency_offset (descs m d) - i)"
        using True inactive_activates [OF m1(2)] by linarith
      have "d \<notin> set (xs @ ys @ [e])" using less.prems(5,6) ed m1(2) by (auto simp: activates_def)
      then have "from_ok m1 (xs @ ys @ [e]) d (Suc i)"
        using less.prems m1(2)
        by (intro less.hyps [OF lt]) (auto simp: tables_ok_static [OF s1] same_static_depends [OF s1] activates_def)
      then show ?thesis
        by (rule from_ok_step [OF less.prems(4) i(1) e ed R(1) i(2) m1])
    qed
  qed
qed

section \<open>Properties of activation\<close>

text \<open>A manager before activation: registrations and requests only.\<close>

definition no_active_tools :: "tool_manager \<Rightarrow> bool" where
  "no_active_tools m \<longleftrightarrow> gActiveTools m = replicate kMaxNumTools None \<and> gNextActiveTool m = 0 \<and>
     gAllocationSize m = 0 \<and> gAllocationAlign m = 0 \<and> (\<forall>d. \<not> is_active (descs m d))"

lemma no_active_tools_empty: "no_active_tools m \<Longrightarrow> active_tools_are m [] \<and> laid_out m []"
  by (simp add: no_active_tools_def active_tools_are_def laid_out_def)

lemma ActivateTool_reaches:
  assumes "tables_ok m" "no_active_tools m" "registered m d"
  obtains m' xs where "ActivateTool d m = Some m'" "same_static m m'" "active_tools_are m' xs" "laid_out m' xs"
    "xs \<noteq> []" "last xs = d" "set xs = (depends m)\<^sup>* `` {d}" "acyclic (depends m) \<Longrightarrow> deps_first (depends m) {} xs"
proof -
  let ?m = "mark_active d m"
  have st: "same_static m ?m" by simp
  have none: "\<not> is_active (descs m x)" for x using assms(2) by (simp add: no_active_tools_def)
  have "from_ok ?m [] d 0"
    using no_active_tools_empty [OF assms(2)] assms(1,3)
    by (intro ActivateTool_from_ok) (auto simp: tables_ok_static [OF st] same_static_depends [OF st] intro: mark_active_keeps)
  then obtain m' ys where m': "ActivateTool_from d 0 ?m = Some m'" and ac: "activates ?m [] d 0 m' ys"
    and ord: "acyclic (depends m) \<and> on_stack_above ?m [] d \<longrightarrow> deps_first (depends m) {} ys"
    unfolding from_ok_def same_static_depends [OF st] by auto
  note D = same_static_depends [OF st] and A = ac [unfolded activates_def]
  have active: "is_active (descs m' x) \<longleftrightarrow> x \<in> set (ys @ [d])" for x using A none by auto
  have stack: "on_stack_above ?m [] d" using none by (simp add: on_stack_above_def)
  have closed: "y \<in> set (ys @ [d])" if xy: "(x, y) \<in> depends m" and "x \<in> set (ys @ [d])" for x y
  proof -
    from that(2) consider "x \<in> set ys" | "x = d" by auto
    then have "is_active (descs m' y)"
    proof cases
      case 1
      then show ?thesis using A xy unfolding D by blast
    next
      case 2
      then obtain j where "depends_at ?m d j y" using xy by (auto simp: depends_def D)
      then show ?thesis using A by blast
    qed
    then show ?thesis by (simp only: active)
  qed
  have "(d, x) \<in> (depends m)\<^sup>* \<Longrightarrow> x \<in> set (ys @ [d])" for x
    by (induction rule: rtrancl_induct) (auto dest: closed)
  moreover have "(d, x) \<in> (depends m)\<^sup>*" if "x \<in> set (ys @ [d])" for x
    using that A unfolding D by (auto dest: trancl_into_rtrancl)
  ultimately have reach: "set (ys @ [d]) = (depends m)\<^sup>* `` {d}" by auto
  have order: "deps_first (depends m) {} (ys @ [d])" if "acyclic (depends m)"
    using that ord stack activates_deps_listed [OF ac _ stack] by (simp add: D deps_first_append)
  have "ActivateTool d m = Some m'" using m' none by (simp add: ActivateTool_def)
  moreover have "same_static m m'" using A same_static_trans [OF st] by simp
  ultimately show ?thesis using that [of m' "ys @ [d]"] A reach order by simp
qed

section \<open>Registration and requests\<close>

lemma find_name_less: "find_name m name = Some i \<Longrightarrow> i < kMaxNumTools"
  by (auto simp: find_name_def find_Some_iff)

lemma IdForName_frame:
  assumes "IdForName name m = Some (m', i)"
  shows "i < kMaxNumTools" "descs m' = descs m" "gRegisteredTools m' = gRegisteredTools m"
    "gToolDependencies m' = gToolDependencies m" "no_active_tools m' = no_active_tools m" "tables_ok m' = tables_ok m"
  using assms find_name_less [of m name]
  by (auto simp: IdForName_def Let_def no_active_tools_def tables_ok_def split: option.splits if_splits)

text \<open>Registration of a description keeps the tables well-formed.\<close>

lemma set_dep_tables:
  assumes "tables_ok m" "i < kMaxNumTools" "j < kMaxNumTools" "dep < kMaxNumTools"
  shows "tables_ok (set_dep i j dep m)"
proof -
  have len: "length (gToolDependencies m ! i) = kMaxNumTools" "length (gToolDependencies m) = kMaxNumTools"
    using assms(1,2) by (simp_all add: tables_ok_def)
  have "\<forall>row \<in> set ((gToolDependencies m)[i := (gToolDependencies m ! i)[j := dep]]). length row = kMaxNumTools"
    using assms(1) len by (auto simp: tables_ok_def dest!: set_update_subset_insert [THEN subsetD])
  then show ?thesis using assms len by (simp add: tables_ok_def set_dep_def nth_list_update)
qed

lemma set_dep_other [simp]:
  "descs (set_dep i j dep m) = descs m" "gRegisteredTools (set_dep i j dep m) = gRegisteredTools m"
  "no_active_tools (set_dep i j dep m) = no_active_tools m" "gToolNames (set_dep i j dep m) = gToolNames m"
  "gPrevRequestedTool (set_dep i j dep m) = gPrevRequestedTool m"
  by (simp_all add: set_dep_def no_active_tools_def)

lemma set_dep_nth:
  assumes "tables_ok m" "i < kMaxNumTools" "j < kMaxNumTools"
  shows "gToolDependencies (set_dep i j dep m) ! k ! l =
    (if k = i \<and> l = j then dep else gToolDependencies m ! k ! l)"
proof -
  have "length (gToolDependencies m ! i) = kMaxNumTools" "length (gToolDependencies m) = kMaxNumTools"
    using assms(1,2) by (simp_all add: tables_ok_def)
  then show ?thesis using assms by (auto simp: set_dep_def nth_list_update)
qed

lemma upd_desc_simps [simp]:
  "descs (upd_desc d f m) x = (if x = d then f (descs m d) else descs m x)"
  "gRegisteredTools (upd_desc d f m) = gRegisteredTools m" "gToolDependencies (upd_desc d f m) = gToolDependencies m"
  "gActiveTools (upd_desc d f m) = gActiveTools m" "gNextActiveTool (upd_desc d f m) = gNextActiveTool m"
  "gAllocationSize (upd_desc d f m) = gAllocationSize m" "gAllocationAlign (upd_desc d f m) = gAllocationAlign m"
  by (simp_all add: upd_desc_def)

lemma upd_desc_tables:
  assumes "tables_ok m" "registered m d" "next_dependency_offset (descs m d) < kMaxNumTools"
    and "gToolDependencies m ! td_id (descs m d) ! next_dependency_offset (descs m d) < kMaxNumTools"
  shows "tables_ok (upd_desc d (\<lambda>t. t\<lparr>next_dependency_offset := next_dependency_offset (descs m d) + 1\<rparr>) m)"
  using assms by (auto simp: tables_ok_def less_Suc_eq)

lemma upd_desc_active:
  "(\<And>t. is_active (f t) \<Longrightarrow> is_active t) \<Longrightarrow> no_active_tools m \<Longrightarrow> no_active_tools (upd_desc d f m)"
  by (auto simp: no_active_tools_def)

lemma set_dep_upd_desc: "set_dep i j dep (upd_desc d f m) = upd_desc d f (set_dep i j dep m)"
  by (simp add: set_dep_def upd_desc_def)

lemma add_required_ok:
  "add_required (td_id (descs m d)) d names m = Some m' \<Longrightarrow> tables_ok m \<Longrightarrow> registered m d \<Longrightarrow> no_active_tools m \<Longrightarrow>
    tables_ok m' \<and> no_active_tools m'"
proof (induction names arbitrary: m)
  case (Cons name names)
  obtain m1 dep where i: "IdForName name m = Some (m1, dep)" using Cons.prems(1) by (auto split: option.splits)
  note F = IdForName_frame [OF i]
  let ?off = "next_dependency_offset (descs m1 d)"
  let ?m = "set_dep (td_id (descs m d)) ?off dep m1"
  let ?m2 = "upd_desc d (\<lambda>t. t\<lparr>next_dependency_offset := ?off + 1\<rparr>) ?m"
  have off: "?off < kMaxNumTools" and run: "add_required (td_id (descs m d)) d names ?m2 = Some m'"
    using Cons.prems(1) i by (auto simp: Let_def set_dep_upd_desc split: if_splits)
  note R = tables_ok_registered [OF Cons.prems(2,3)]
  have ok: "tables_ok m1" using F Cons.prems(2) by simp
  then have "tables_ok ?m" using set_dep_tables R(1) off F(1) by blast
  moreover have "registered ?m d" using Cons.prems(3) F(3) by (simp add: registered_def)
  ultimately have "tables_ok ?m2"
    using upd_desc_tables [of ?m d] off F(1,2) R(1) set_dep_nth [OF ok R(1) off] by simp
  moreover have "td_id (descs ?m2 d) = td_id (descs m d)" "registered ?m2 d"
    using F Cons.prems(3) by (simp_all add: registered_def)
  moreover have "no_active_tools ?m2" by (rule upd_desc_active) (use F(5) Cons.prems(4) in simp_all)
  ultimately show ?case using Cons.IH [of ?m2] run by simp
qed simp

lemma AddInstrumentationTool_tables:
  assumes "AddInstrumentationTool d name required m = Some m'" "tables_ok m" "no_active_tools m" "\<not> registered m d"
    and "\<exists>k. td_align (descs m d) = 2 ^ k"
  shows "tables_ok m' \<and> no_active_tools m'"
proof -
  obtain m1 i where i: "IdForName name m = Some (m1, i)" using assms(1) by (auto simp: AddInstrumentationTool_def split: option.splits)
  note F = IdForName_frame [OF i]
  let ?m2 = "upd_desc d (\<lambda>t. t\<lparr>td_id := i, next_dependency_offset := 1, is_active := False,
      td_name := Some i, allocation_offset := 0\<rparr>) m1"
  let ?m3 = "?m2\<lparr>gRegisteredTools := (gRegisteredTools ?m2)[i := Some d]\<rparr>"
  let ?m4 = "set_dep i 0 i ?m3"
  have ok: "tables_ok m1" and len: "length (gRegisteredTools m1) = kMaxNumTools" "length (gToolDependencies m1) = kMaxNumTools"
    "length (gToolDependencies m1 ! i) = kMaxNumTools"
    using F assms(2) by (simp_all add: tables_ok_def)
  have other: "gRegisteredTools m1 ! k = Some x \<Longrightarrow> k < kMaxNumTools \<Longrightarrow> x \<noteq> d" for k x
    using assms(2,4) F(3) nth_mem [of k "gRegisteredTools m"] by (auto simp: registered_def tables_ok_def)
  have deps: "gToolDependencies ?m4 ! k ! l = (if k = i \<and> l = 0 then i else gToolDependencies m1 ! k ! l)" for k l
    using len F(1) by (auto simp: set_dep_def nth_list_update)
  have rows: "\<forall>row \<in> set (gToolDependencies ?m4). length row = kMaxNumTools"
    using ok len by (auto simp: set_dep_def tables_ok_def dest!: set_update_subset_insert [THEN subsetD])
  have "td_id (descs ?m4 x) = k \<and> 0 < next_dependency_offset (descs ?m4 x) \<and>
      next_dependency_offset (descs ?m4 x) \<le> kMaxNumTools \<and> (\<exists>k. td_align (descs ?m4 x) = 2 ^ k) \<and>
      (\<forall>j < next_dependency_offset (descs ?m4 x). gToolDependencies ?m4 ! k ! j < kMaxNumTools)"
    if "k < kMaxNumTools" "gRegisteredTools ?m4 ! k = Some x" for k x
  proof (cases "k = i")
    case True
    then have "x = d" using that len by simp
    then show ?thesis using True F(1,2) assms(5) deps by (simp add: kMaxNumTools_def)
  next
    case False
    then have x: "gRegisteredTools m1 ! k = Some x" "x \<noteq> d" using that other by auto
    then show ?thesis unfolding deps using ok False that(1) by (simp add: tables_ok_def)
  qed
  moreover have "length (gRegisteredTools ?m4) = kMaxNumTools" "length (gToolDependencies ?m4) = kMaxNumTools"
    using len by (simp_all add: set_dep_def)
  ultimately have "tables_ok ?m4" using rows unfolding tables_ok_def by blast
  moreover have "registered ?m4 d" using len F(1) by (simp add: registered_def set_update_memI)
  moreover have "no_active_tools ?m4" using assms(3) F by (simp add: no_active_tools_def set_dep_def)
  moreover have "add_required (td_id (descs ?m4 d)) d required ?m4 = Some m'"
    using assms(1) i by (simp add: AddInstrumentationTool_def Let_def)
  ultimately show ?thesis using add_required_ok by blast
qed

lemma prev_requested_frame [simp]:
  "tables_ok (m\<lparr>gPrevRequestedTool := p\<rparr>) = tables_ok m" "no_active_tools (m\<lparr>gPrevRequestedTool := p\<rparr>) = no_active_tools m"
  by (simp_all add: tables_ok_def no_active_tools_def)

lemma add_required_frame:
  "add_required tid d names m = Some m' \<Longrightarrow> td_align (descs m' x) = td_align (descs m x) \<and> registered m' = registered m"
proof (induction names arbitrary: m)
  case (Cons name names)
  obtain m1 dep where i: "IdForName name m = Some (m1, dep)" using Cons.prems(1) by (auto split: option.splits)
  note F = IdForName_frame [OF i]
  let ?m2 = "set_dep tid (next_dependency_offset (descs m1 d)) dep
      (upd_desc d (\<lambda>t. t\<lparr>next_dependency_offset := next_dependency_offset (descs m1 d) + 1\<rparr>) m1)"
  have "add_required tid d names ?m2 = Some m'" using Cons.prems(1) i by (auto simp: Let_def split: if_splits)
  from Cons.IH [OF this] show ?case using F by (simp add: registered_def fun_eq_iff)
qed simp

lemma AddInstrumentationTool_frame:
  assumes "AddInstrumentationTool d name required m = Some m'"
  shows "td_align (descs m' x) = td_align (descs m x) \<and> (registered m' x \<longrightarrow> registered m x \<or> x = d)"
proof -
  obtain m1 i where i: "IdForName name m = Some (m1, i)" using assms by (auto simp: AddInstrumentationTool_def split: option.splits)
  note F = IdForName_frame [OF i]
  let ?m = "upd_desc d (\<lambda>t. t\<lparr>td_id := i, next_dependency_offset := 1, is_active := False,
      td_name := Some i, allocation_offset := 0\<rparr>) m1"
  let ?m4 = "set_dep i 0 i (?m\<lparr>gRegisteredTools := (gRegisteredTools ?m)[i := Some d]\<rparr>)"
  have "add_required i d required ?m4 = Some m'" using assms i by (simp add: AddInstrumentationTool_def Let_def)
  from add_required_frame [OF this, of x]
  have "td_align (descs m' x) = td_align (descs m x)" "registered m' x = registered ?m4 x" using F by simp_all
  moreover have "registered ?m4 x \<Longrightarrow> registered m x \<or> x = d"
    using F(3) by (auto simp: registered_def dest!: set_update_subset_insert [THEN subsetD])
  ultimately show ?thesis by blast
qed

text \<open>The tools that a list of names requests: those that are registered. After the requests,
  each depends on the one before it.\<close>

definition requested :: "tool_manager \<Rightarrow> string list \<Rightarrow> nat list" where
  "requested m names = List.map_filter (\<lambda>name. DescForName name m) names"

definition linked :: "tool_manager \<Rightarrow> nat list \<Rightarrow> bool" where
  "linked m ds \<longleftrightarrow> (\<forall>k. Suc k < length ds \<longrightarrow> depends_at m (ds ! Suc k) 0 (ds ! k))"

definition after_requests :: "tool_manager \<Rightarrow> tool_manager \<Rightarrow> nat list \<Rightarrow> bool" where
  "after_requests m m' ds \<longleftrightarrow> tables_ok m' \<and> no_active_tools m' \<and> descs m' = descs m \<and>
     gRegisteredTools m' = gRegisteredTools m \<and> gToolNames m' = gToolNames m \<and>
     gPrevRequestedTool m' = (if ds = [] then None else Some (last ds)) \<and> (\<forall>d \<in> set ds. registered m d) \<and>
     linked m' ds"

lemma DescForName_registered:
  assumes "tables_ok m" "DescForName name m = Some d"
  shows "registered m d"
proof -
  obtain i where i: "find_name m name = Some i" "gRegisteredTools m ! i = Some d"
    using assms(2) by (auto simp: DescForName_def split: option.splits)
  then have "i < length (gRegisteredTools m)" using find_name_less assms(1) by (simp add: tables_ok_def)
  then show ?thesis using i(2) nth_mem [of i "gRegisteredTools m"] by (simp add: registered_def)
qed

lemma RequestTool_link:
  assumes "after_requests m m' ds" "registered m d" "d \<notin> set ds" "ds \<noteq> []"
  shows "after_requests m (set_dep (td_id (descs m' d)) 0 (td_id (descs m' (last ds))) m'\<lparr>gPrevRequestedTool := Some d\<rparr>) (ds @ [d])"
    (is "after_requests m (?m\<lparr>gPrevRequestedTool := Some d\<rparr>) _")
proof -
  note A = assms(1) [unfolded after_requests_def]
  have reg: "registered m' x = registered m x" for x using A by (simp add: registered_def)
  have last: "registered m' (last ds)" using A assms(4) reg by simp
  note R = tables_ok_registered [OF conjunct1 [OF A]]
  have id: "td_id (descs m' d) < kMaxNumTools" "td_id (descs m' (last ds)) < kMaxNumTools"
    using R(1) reg assms(2) last by auto
  have zero: "0 < kMaxNumTools" by (simp add: kMaxNumTools_def)
  have deps: "gToolDependencies ?m ! k ! l =
      (if k = td_id (descs m' d) \<and> l = 0 then td_id (descs m' (last ds)) else gToolDependencies m' ! k ! l)" for k l
    by (rule set_dep_nth [OF conjunct1 [OF A] id(1) zero])
  have ok: "tables_ok (?m\<lparr>gPrevRequestedTool := Some d\<rparr>)"
    using set_dep_tables [OF conjunct1 [OF A] id(1) zero id(2)] by (simp add: tables_ok_def)
  have link: "depends_at (?m\<lparr>gPrevRequestedTool := Some d\<rparr>) ((ds @ [d]) ! Suc k) 0 ((ds @ [d]) ! k)"
    if "Suc k < length (ds @ [d])" for k
  proof (cases "Suc k < length ds")
    case True
    then have nd: "ds ! Suc k \<noteq> d" "registered m' (ds ! Suc k)" using assms(3) A reg by (auto dest: nth_mem)
    then have "td_id (descs m' (ds ! Suc k)) \<noteq> td_id (descs m' d)"
      using R(2) [of d] R(2) [of "ds ! Suc k"] reg assms(2) by auto
    moreover have "depends_at m' (ds ! Suc k) 0 (ds ! k)" using True A by (simp add: linked_def)
    ultimately show ?thesis using True by (simp add: depends_at_def deps nth_append)
  next
    case False
    then have "(ds @ [d]) ! Suc k = d" "(ds @ [d]) ! k = last ds"
      using that assms(4) by (auto simp: nth_append last_conv_nth less_Suc_eq dest: sym [of "Suc k"])
    then show ?thesis using deps R(2) [OF last] R(6) [of d] reg assms(2) by (simp add: depends_at_def)
  qed
  then show ?thesis using A ok assms(2) unfolding after_requests_def linked_def
    by (auto simp: no_active_tools_def set_dep_def)
qed

lemma RequestTool_requests:
  assumes "after_requests m m' ds" "\<forall>d \<in> set (requested m [name]). d \<notin> set ds"
  shows "after_requests m (RequestTool name m') (ds @ requested m [name])"
proof -
  note A = assms(1) [unfolded after_requests_def]
  have D: "DescForName name m' = DescForName name m"
    using A by (simp add: DescForName_def find_name_def split: option.split)
  show ?thesis
  proof (cases "DescForName name m")
    case None
    then show ?thesis using assms(1) D by (simp add: RequestTool_def requested_def map_filter_simps)
  next
    case (Some d)
    then have reg: "registered m d" using A DescForName_registered [of m' name d] D by (simp add: registered_def)
    have req: "requested m [name] = [d]" using Some by (simp add: requested_def map_filter_simps)
    show ?thesis
    proof (cases "ds = []")
      case True
      then have "RequestTool name m' = m'\<lparr>gPrevRequestedTool := Some d\<rparr>" using A D Some by (simp add: RequestTool_def)
      then show ?thesis using A True req reg
        by (simp add: after_requests_def linked_def)
    next
      case False
      then have "RequestTool name m' =
          set_dep (td_id (descs m' d)) 0 (td_id (descs m' (last ds))) m'\<lparr>gPrevRequestedTool := Some d\<rparr>"
        using A D Some by (simp add: RequestTool_def)
      then show ?thesis using RequestTool_link [OF assms(1) reg _ False] assms(2) req by simp
    qed
  qed
qed

lemma requested_append: "requested m (xs @ ys) = requested m xs @ requested m ys"
  by (simp add: requested_def map_filter_def)

lemma fold_RequestTool:
  assumes "tables_ok m" "no_active_tools m" "gPrevRequestedTool m = None" "distinct (requested m names)"
  shows "after_requests m (fold RequestTool names m) (requested m names)"
  using assms(4)
proof (induction names rule: rev_induct)
  case Nil
  then show ?case using assms by (simp add: after_requests_def requested_def linked_def map_filter_simps)
next
  case (snoc name names)
  then have "after_requests m (fold RequestTool names m) (requested m names)"
    "\<forall>d \<in> set (requested m [name]). d \<notin> set (requested m names)" by (auto simp: requested_append)
  then show ?case using RequestTool_requests by (simp add: requested_append)
qed

definition requested_names :: "string option \<Rightarrow> string list" where
  "requested_names FLAG_tools =
     ''user'' # (case FLAG_tools of None \<Rightarrow> [] | Some flag \<Rightarrow> ForEachCommaSeparatedString kMaxToolNameLength flag)"

lemma RequestTools_fold: "RequestTools flag m = fold RequestTool (requested_names flag) m"
  by (simp add: RequestTools_def requested_names_def Let_def split: option.split)

lemma linked_reaches:
  assumes "linked m ds" "distinct ds" "\<forall>d \<in> set ds. registered m d"
  shows "k < length ds \<Longrightarrow> (last ds, ds ! k) \<in> (depends m)\<^sup>*"
proof (induction "length ds - Suc k" arbitrary: k)
  case 0
  then have "k = length ds - 1" by simp
  then show ?case using 0 by (cases ds) (auto simp: last_conv_nth)
next
  case (Suc n)
  then have k: "Suc k < length ds" by simp
  then have "(last ds, ds ! Suc k) \<in> (depends m)\<^sup>*" using Suc by auto
  moreover have "(ds ! Suc k, ds ! k) \<in> depends m"
    using k assms by (auto simp: depends_def linked_def nth_eq_iff_index_eq dest: nth_mem)
  ultimately show ?case by (rule rtrancl_into_rtrancl)
qed

lemma deps_first_before:
  assumes "deps_first R {} xs" "(x, y) \<in> R" "x \<in> set xs"
  shows "\<exists>ps qs. xs = ps @ x # qs \<and> y \<in> set ps"
proof -
  obtain k where k: "k < length xs" "xs ! k = x" using assms(3) by (auto simp: in_set_conv_nth)
  then have "xs = take k xs @ x # drop (Suc k) xs" by (metis id_take_nth_drop)
  moreover have "y \<in> set (take k xs)" using deps_first_nth [OF assms(1) k(1)] assms(2) k(2) by simp
  ultimately show ?thesis by blast
qed

text \<open>C21. Initialisation of the tool manager returns. When the tools that the command line requests
  are registered and none is requested twice, the active tools are exactly those that the last
  requested tool depends on, directly or not, all requested tools among them and each once; their
  instances lie one after the other in the block, each at its alignment; and if no tool depends on
  itself through others, every tool comes after the tools it depends on, and every requested tool
  after the one requested before it.\<close>

theorem InitToolManager_activates:
  assumes "tables_ok m" "no_active_tools m" "gPrevRequestedTool m = None"
    and "0 < td_size (descs m (last ds))" "requested m (requested_names flag) = ds" "ds \<noteq> []" "distinct ds"
  defines "R \<equiv> depends (RequestTools flag m)"
  shows "\<exists>m' xs. InitToolManager flag m = Some m' \<and> active_tools_are m' xs \<and> laid_out m' xs \<and>
    set xs = R\<^sup>* `` {last ds} \<and> set ds \<subseteq> set xs \<and>
    (acyclic R \<longrightarrow> (\<forall>x y. x \<in> set xs \<and> (x, y) \<in> R \<longrightarrow> (\<exists>ps qs. xs = ps @ x # qs \<and> y \<in> set ps)) \<and>
       (\<forall>k. Suc k < length ds \<longrightarrow> (\<exists>ps qs. xs = ps @ ds ! Suc k # qs \<and> ds ! k \<in> set ps)))"
proof -
  let ?m = "RequestTools flag m"
  have after: "after_requests m ?m ds"
    using fold_RequestTool [OF assms(1-3)] assms(5,7) unfolding RequestTools_fold by blast
  note A = after [unfolded after_requests_def]
  have reg: "\<forall>d \<in> set ds. registered ?m d" using A by (simp add: registered_def)
  then have last: "registered ?m (last ds)" using assms(6) by simp
  obtain m1 xs where m1: "ActivateTool (last ds) ?m = Some m1" "same_static ?m m1" "active_tools_are m1 xs" "laid_out m1 xs"
    "xs \<noteq> []" "last xs = last ds" "set xs = R\<^sup>* `` {last ds}" "acyclic R \<Longrightarrow> deps_first R {} xs"
    unfolding R_def using ActivateTool_reaches [of ?m "last ds"] A last by blast
  have "last ds \<in> set xs" using m1(5,6) by (metis last_in_set)
  then have "0 < gAllocationSize m1"
    using m1(2,4) assms(4) A by (force simp: laid_out_def tool_end_def same_static_def)
  then have "align_to (gAllocationSize m1) (gAllocationAlign m1) \<noteq> 0" by (metis align_to_ge le_zero_eq less_numeral_extra(3))
  then obtain a where init: "InitToolManager flag m = Some (m1\<lparr>gToolAllocator := Some a\<rparr>)"
    using m1(1) A assms(6) by (simp add: InitToolManager_def Let_def)
  have ds: "set ds \<subseteq> set xs"
    using linked_reaches [of ?m ds] A reg assms(7) m1(7) unfolding R_def by (auto simp: in_set_conv_nth)
  have pair: "(ds ! Suc k, ds ! k) \<in> R \<and> ds ! Suc k \<in> set xs" if "Suc k < length ds" for k
    using that A reg assms(7) ds unfolding R_def
    by (auto simp: depends_def linked_def nth_eq_iff_index_eq dest: nth_mem)
  have "active_tools_are (m1\<lparr>gToolAllocator := Some a\<rparr>) xs" "laid_out (m1\<lparr>gToolAllocator := Some a\<rparr>) xs"
    using m1(3,4) by (simp_all add: active_tools_are_def registered_def laid_out_def tool_end_def)
  then show ?thesis using init m1(7,8) ds pair deps_first_before by blast
qed

text \<open>Three descriptions, of which the second requires the third, registered in that order.\<close>

definition example_registrations :: "tool_manager option" where
  "example_registrations =
     Option.bind (AddInstrumentationTool 2 ''user'' [] (static_tool_manager (\<lambda>_. ToolDescriptor 16 8)))
       (\<lambda>m. Option.bind (AddInstrumentationTool 3 ''count'' [''util''] m) (AddInstrumentationTool 4 ''util'' []))"

lemma static_tool_manager_ok:
  "tables_ok (static_tool_manager (\<lambda>_. ToolDescriptor k l)) \<and> no_active_tools (static_tool_manager (\<lambda>_. ToolDescriptor k l)) \<and>
   (\<forall>d. \<not> registered (static_tool_manager (\<lambda>_. ToolDescriptor k l)) d)"
  by (auto simp: static_tool_manager_def tables_ok_def no_active_tools_def ToolDescriptor_def registered_def)

lemma example_registrations_ok:
  assumes "example_registrations = Some m"
  shows "tables_ok m \<and> no_active_tools m"
proof -
  obtain m1 m2 where m: "AddInstrumentationTool 2 ''user'' [] (static_tool_manager (\<lambda>_. ToolDescriptor 16 8)) = Some m1"
    "AddInstrumentationTool 3 ''count'' [''util''] m1 = Some m2" "AddInstrumentationTool 4 ''util'' [] m2 = Some m"
    using assms by (auto simp: example_registrations_def bind_eq_Some_conv)
  note S = static_tool_manager_ok [of 16 8]
  have "td_align (descs (static_tool_manager (\<lambda>_. ToolDescriptor 16 8)) x) = 2 ^ 3" for x
    by (simp add: static_tool_manager_def ToolDescriptor_def)
  then have al: "td_align (descs m1 x) = 2 ^ 3" "td_align (descs m2 x) = 2 ^ 3" for x
    using AddInstrumentationTool_frame [OF m(1), of x] AddInstrumentationTool_frame [OF m(2), of x] by simp_all
  have "\<not> registered m1 3" "\<not> registered m2 4"
    using S AddInstrumentationTool_frame [OF m(1), of 3] AddInstrumentationTool_frame [OF m(1), of 4]
      AddInstrumentationTool_frame [OF m(2), of 4] by auto
  moreover have "tables_ok m1 \<and> no_active_tools m1"
    by (rule AddInstrumentationTool_tables [OF m(1)]) (use S in \<open>auto simp: static_tool_manager_def ToolDescriptor_def intro: exI [of _ 3]\<close>)
  ultimately have "tables_ok m2 \<and> no_active_tools m2" "\<not> registered m2 4"
    using AddInstrumentationTool_tables [OF m(2)] al by blast+
  then show ?thesis using AddInstrumentationTool_tables [OF m(3)] al by blast
qed

theorem InitToolManager_activates_witness:
  "case example_registrations of
     None \<Rightarrow> False
   | Some m \<Rightarrow> \<exists>m' xs. InitToolManager (Some ''count'') m = Some m' \<and> active_tools_are m' xs \<and> laid_out m' xs \<and>
       {2, 3} \<subseteq> set xs"
proof -
  have "case example_registrations of
      None \<Rightarrow> False
    | Some m \<Rightarrow> gPrevRequestedTool m = None \<and> 0 < td_size (descs m 3) \<and>
        requested m (requested_names (Some ''count'')) = [2, 3]" by code_simp
  then obtain m where m: "example_registrations = Some m" "gPrevRequestedTool m = None" "0 < td_size (descs m 3)"
    "requested m (requested_names (Some ''count'')) = [2, 3]" by (auto split: option.splits)
  then obtain m' xs where "InitToolManager (Some ''count'') m = Some m'" "active_tools_are m' xs" "laid_out m' xs"
    "set [2, 3] \<subseteq> set xs"
    using InitToolManager_activates [of m "[2, 3]" "Some ''count''"] example_registrations_ok [OF m(1)] by auto
  then show ?thesis unfolding m(1) option.case by auto
qed

section \<open>Blocks of instances\<close>

lemma for_active_list: "for_active f (map Some xs @ replicate n None) c = fold f xs c"
  by (induction xs arbitrary: c) (cases n, simp_all)

lemma for_active_tools: "active_tools_are m xs \<Longrightarrow> for_active f (gActiveTools m) = fold f xs"
  by (simp add: active_tools_are_def for_active_list fun_eq_iff)

text \<open>The list that \<^verbatim>\<open>ToolIterator\<close> walks.\<close>

fun tool_list :: "store \<Rightarrow> nat \<Rightarrow> nat list \<Rightarrow> bool" where
  "tool_list mem p [] \<longleftrightarrow> p = 0"
| "tool_list mem p (t # ts) \<longleftrightarrow> p = t \<and> t \<noteq> 0 \<and> tool_list mem (mem (tool_next t)) ts"

text \<open>What the constructor of a class of tools does: it writes to the instance only, and the
  constructor of \<^verbatim>\<open>InstrumentationTool\<close> that it runs clears \<^verbatim>\<open>next\<close>. An instance has room
  for the two members of \<^verbatim>\<open>InstrumentationTool\<close>.\<close>

definition constructs :: "tool_manager \<Rightarrow> (nat \<Rightarrow> nat \<Rightarrow> store \<Rightarrow> store) \<Rightarrow> bool" where
  "constructs m construct \<longleftrightarrow> (\<forall>d. 16 \<le> td_size (descs m d)) \<and>
     (\<forall>d t mem. construct d t mem (tool_next t) = 0 \<and>
        (\<forall>y. y \<notin> {t..<t + td_size (descs m d)} \<longrightarrow> construct d t mem y = mem y))"

lemma tool_list_snoc:
  assumes "tool_list mem p ts" "ts \<noteq> []" "t \<noteq> 0" "mem' (tool_next t) = 0" "mem' (tool_next (last ts)) = t"
    and "\<And>x. x \<in> set (butlast ts) \<Longrightarrow> mem' (tool_next x) = mem (tool_next x)"
  shows "tool_list mem' p (ts @ [t])"
  using assms
proof (induction ts arbitrary: p)
  case (Cons x ts)
  then show ?case by (cases "ts = []") auto
qed simp

definition instance_at :: "tool_manager \<Rightarrow> nat \<Rightarrow> nat \<Rightarrow> nat" where
  "instance_at m addr d = addr + allocation_offset (descs m d)"

definition spaced :: "tool_manager \<Rightarrow> nat list \<Rightarrow> bool" where
  "spaced m xs \<longleftrightarrow> sorted_wrt (\<lambda>x y. tool_end m x \<le> allocation_offset (descs m y)) xs"

lemma instances_disjoint:
  assumes "spaced m xs" "i < j" "j < length xs"
  shows "instance_at m addr (xs ! i) + td_size (descs m (xs ! i)) \<le> instance_at m addr (xs ! j)"
proof -
  have "tool_end m (xs ! i) \<le> allocation_offset (descs m (xs ! j))"
    using sorted_wrt_nth_less [OF assms(1) [unfolded spaced_def]] assms(2,3) by simp
  then show ?thesis by (simp add: tool_end_def instance_at_def)
qed

definition built :: "tool_manager \<Rightarrow> nat \<Rightarrow> store \<Rightarrow> nat list \<Rightarrow> (store \<times> nat) \<times> nat option \<Rightarrow> bool" where
  "built m addr mem0 ps st \<longleftrightarrow> (case st of ((mem, tools), prev) \<Rightarrow>
     tool_list mem tools (map (instance_at m addr) ps) \<and>
     prev = (if ps = [] then None else Some (tool_next (instance_at m addr (last ps)))) \<and>
     (\<forall>y. (\<forall>x \<in> set ps. y \<notin> {instance_at m addr x..<instance_at m addr x + td_size (descs m x)}) \<longrightarrow> mem y = mem0 y))"

lemma construct_tool_built:
  assumes "constructs m construct" "built m addr mem0 ps st" "addr \<noteq> 0" "spaced m (ps @ [d])"
  shows "built m addr mem0 (ps @ [d]) (construct_tool construct m addr d st)"
proof -
  obtain mem tools prev where st: "st = ((mem, tools), prev)" by (metis prod.exhaust)
  let ?t = "instance_at m addr d" and ?ts = "map (instance_at m addr) ps"
  note B = assms(2) [unfolded st built_def prod.case] and C = assms(1) [unfolded constructs_def]
  have size: "16 \<le> td_size (descs m x)" for x using C by blast
  have new: "construct d ?t mem (tool_next ?t) = 0"
    "y \<notin> {?t..<?t + td_size (descs m d)} \<Longrightarrow> construct d ?t mem y = mem y" for y using C by blast+
  have below: "instance_at m addr x + td_size (descs m x) \<le> ?t" if x: "x \<in> set ps" for x
  proof -
    obtain i where "i < length ps" "ps ! i = x" using x by (auto simp: in_set_conv_nth)
    then show ?thesis using instances_disjoint [OF assms(4), of i "length ps" addr] by (simp add: nth_append)
  qed
  have nz: "?t \<noteq> 0" using assms(3) by (simp add: instance_at_def)
  show ?thesis
  proof (cases "ps = []")
    case True
    then have "construct_tool construct m addr d st = ((construct d ?t mem, ?t), Some (tool_next ?t))"
      using B by (simp add: construct_tool_def st link_tool_def instance_at_def Let_def)
    then show ?thesis using True B nz new by (simp add: built_def)
  next
    case False
    let ?p = "tool_next (instance_at m addr (last ps))"
    let ?mem = "(construct d ?t mem)(?p := ?t)"
    have st': "construct_tool construct m addr d st = ((?mem, tools), Some (tool_next ?t))"
      using B False by (simp add: construct_tool_def st link_tool_def instance_at_def Let_def)
    have lst: "?p < ?t" "instance_at m addr (last ps) \<le> ?p" "?p < instance_at m addr (last ps) + td_size (descs m (last ps))"
      using below [of "last ps"] size [of "last ps"] False by (simp_all add: tool_next_def)
    have old: "?mem (tool_next x) = mem (tool_next x)" if "x \<in> set (butlast ?ts)" for x
    proof -
      have "x \<in> instance_at m addr ` set (butlast ps)" using that by (simp add: map_butlast [symmetric])
      then obtain i where i: "i < length ps - 1" "instance_at m addr (ps ! i) = x"
        by (auto simp: in_set_conv_nth nth_butlast)
      then have "x + td_size (descs m (ps ! i)) \<le> instance_at m addr (last ps)"
        using instances_disjoint [OF assms(4), of i "length ps - 1" addr] False
        by (simp add: nth_append last_conv_nth)
      then have "tool_next x < ?p" using size [of "ps ! i"] by (simp add: tool_next_def)
      then show ?thesis using lst new(2) [of "tool_next x"] by simp
    qed
    have "tool_list ?mem tools (?ts @ [?t])"
    proof (rule tool_list_snoc [of mem])
      show "?mem (tool_next ?t) = 0" using new(1) lst(1) by (simp add: tool_next_def)
      show "?mem (tool_next (last ?ts)) = ?t" using False by (simp add: last_map)
    qed (use B False nz old in \<open>blast | simp\<close>)+
    moreover have "?mem y = mem0 y"
      if "\<forall>x \<in> set (ps @ [d]). y \<notin> {instance_at m addr x..<instance_at m addr x + td_size (descs m x)}" for y
    proof -
      have "y \<noteq> ?p" using that lst False by auto
      then show ?thesis using that B new(2) [of y] by simp
    qed
    ultimately show ?thesis unfolding st' built_def by simp
  qed
qed

lemma construct_tools_built:
  assumes "constructs m construct" "addr \<noteq> 0"
  shows "spaced m xs \<Longrightarrow> built m addr mem xs (fold (construct_tool construct m addr) xs ((mem, 0), None))"
proof (induction xs rule: rev_induct)
  case Nil
  then show ?case by (simp add: built_def)
next
  case (snoc d xs)
  have "spaced m xs" using snoc.prems by (simp add: spaced_def sorted_wrt_append)
  then show ?case using construct_tool_built [OF assms(1) _ assms(2) snoc.prems] snoc.IH by simp
qed

text \<open>The allocator of blocks is the one that operator \<^verbatim>\<open>new\<close> would have for a class of the size
  and the alignment of a block.\<close>

lemma align_to_idem: "0 < a \<Longrightarrow> align_to (align_to x a) a = align_to x a"
  using align_to_dvd [of a x] by (simp add: align_to_def [of "align_to x a"] align_factor_def)

lemma tool_slab_allocator_eq:
  assumes "0 < al"
  shows "tool_slab_allocator sz al = OperatorNewAllocator (align_to sz al) 1 al"
proof -
  have al: "kMinimumAlignment 1 al = al" using assms by (auto simp: kMinimumAlignment_def)
  then show ?thesis
    using align_to_idem [OF assms]
    by (simp add: tool_slab_allocator_def OperatorNewAllocator_def Let_def kEndOffset_def kNumObjsPerSlab_def
        kStartOffset_def kAlignedSize_def algebra_simps)
qed

lemma tool_slab_allocator_layout:
  assumes "0 < al" "al dvd PAGE_SIZE_BYTES" "POINTER_SIZE \<le> sz"
    and "align_to POINTER_SIZE al + 2 * align_to sz al \<le> Suc kNewAllocatorNumBytesPerSlab"
  shows "layout_ok al (tool_slab_allocator sz al)"
proof -
  have al: "kMinimumAlignment (Suc 0) al = al" using assms(1) by (auto simp: kMinimumAlignment_def)
  have "POINTER_SIZE \<le> align_to sz al" using assms(3) align_to_ge [of sz al] by linarith
  then show ?thesis
    using OperatorNewAllocator_layout [of al 1 "align_to sz al"] assms
    by (simp add: tool_slab_allocator_eq al kStartOffset_def kAlignedSize_def align_to_idem)
qed

text \<open>C22. A block of instances. While the manager's allocator has only been used to take and give
  back blocks, \<^verbatim>\<open>AllocateTools\<close> returns a block that no instance in use touches, as a
  linked list of the instances of all active tools in the order of activation, each inside the
  block and at its alignment; nothing outside the block changes; and \<^verbatim>\<open>FreeTools\<close>, which is
  given the pointer to the first instance, puts that block at the head of the allocator's free
  list.\<close>

theorem AllocateTools_block:
  assumes "active_tools_are m xs" "laid_out m xs" "xs \<noteq> []" "constructs m construct"
    and "0 < gAllocationAlign m" "gAllocationAlign m dvd PAGE_SIZE_BYTES" "POINTER_SIZE \<le> gAllocationSize m"
    and "align_to POINTER_SIZE (gAllocationAlign m) + 2 * align_to (gAllocationSize m) (gAllocationAlign m)
           \<le> Suc kNewAllocatorNumBytesPerSlab"
    and "aligned_heap g0 A" "gToolAllocator m = Some a"
    and "reachable (\<lambda>x. x = (g0, mem0, tool_slab_allocator (gAllocationSize m) (gAllocationAlign m), {}))
           (slab_step AllocateDataPages) (g, mem, a, live)"
    and "Allocate AllocateDataPages g mem a = Some (g', mem', a', addr)"
  shows "\<exists>mem2. AllocateTools construct AllocateDataPages g mem m = Some (g', mem2, m\<lparr>gToolAllocator := Some a'\<rparr>, addr) \<and>
    tool_list mem2 addr (map (\<lambda>d. addr + allocation_offset (descs m d)) xs) \<and>
    (\<forall>d \<in> set xs. td_align (descs m d) dvd addr + allocation_offset (descs m d) \<and>
       allocation_offset (descs m d) + td_size (descs m d) \<le> allocation_size a) \<and>
    (\<forall>x \<in> live. {addr..<addr + allocation_size a} \<inter> {x..<x + allocation_size a} = {}) \<and>
    (\<forall>y. y \<notin> {addr..<addr + allocation_size a} \<longrightarrow> mem2 y = mem' y) \<and>
    (\<exists>mem3 m'. FreeTools destruct mem2 (m\<lparr>gToolAllocator := Some a'\<rparr>) addr = Some (mem3, m') \<and>
       gToolAllocator m' = Some (a'\<lparr>free_list := addr\<rparr>) \<and> mem3 addr = free_list a')"
proof -
  let ?a0 = "tool_slab_allocator (gAllocationSize m) (gAllocationAlign m)"
  have lay: "layout_ok (gAllocationAlign m) ?a0" by (rule tool_slab_allocator_layout [OF assms(5-8)])
  have inv: "slab_inv aligned_heap (gAllocationAlign m) (g, mem, a, live)"
    by (rule heap_pages.slab_reachable_inv [OF assms(11)])
      (use SlabAllocator_inv [OF _ assms(9)] lay in \<open>simp add: tool_slab_allocator_def Let_def\<close>)
  note R = heap_pages.Allocate_inv [OF inv assms(12)]
  have sz: "allocation_size a = align_to (gAllocationSize m) (gAllocationAlign m)"
    using slab_reachable_size [OF assms(11)] by (simp add: tool_slab_allocator_def SlabAllocator_def Let_def)
  have fit: "tool_end m d \<le> allocation_size a" if "d \<in> set xs" for d
  proof -
    have "tool_end m d \<le> gAllocationSize m" using that assms(2) by (simp add: laid_out_def)
    then show ?thesis using sz align_to_ge [of "gAllocationSize m" "gAllocationAlign m"] by linarith
  qed
  have addr: "addr \<noteq> 0" "gAllocationAlign m dvd addr"
    "\<forall>x \<in> live. {addr..<addr + allocation_size a} \<inter> {x..<x + allocation_size a} = {}"
    using R by (auto simp: obj_def)
  have "spaced m xs" using assms(2) by (simp add: spaced_def laid_out_def)
  then have b: "built m addr mem' xs (fold (construct_tool construct m addr) xs ((mem', 0), None))"
    by (rule construct_tools_built [OF assms(4) addr(1)])
  obtain mem2 tools prev where f: "fold (construct_tool construct m addr) xs ((mem', 0), None) = ((mem2, tools), prev)"
    by (metis prod.exhaust)
  have tl: "tool_list mem2 tools (map (instance_at m addr) xs)"
    and frame: "\<And>y. (\<forall>x \<in> set xs. y \<notin> {instance_at m addr x..<instance_at m addr x + td_size (descs m x)}) \<Longrightarrow> mem2 y = mem' y"
    using b by (simp_all add: f built_def)
  have "tools = instance_at m addr (hd xs)" using tl assms(3) by (cases xs) auto
  then have tools: "tools = addr" using assms(2,3) by (simp add: instance_at_def laid_out_def)
  have "AllocateTools construct AllocateDataPages g mem m = Some (g', mem2, m\<lparr>gToolAllocator := Some a'\<rparr>, addr)"
    using assms(10,12) f tools by (simp add: AllocateTools_def for_active_tools [OF assms(1)])
  moreover have "tool_list mem2 addr (map (\<lambda>d. addr + allocation_offset (descs m d)) xs)"
    using tl tools unfolding instance_at_def by simp
  moreover have "td_align (descs m d) dvd addr + allocation_offset (descs m d) \<and>
      allocation_offset (descs m d) + td_size (descs m d) \<le> allocation_size a" if "d \<in> set xs" for d
    using that assms(2) fit [OF that] addr(2) by (auto simp: laid_out_def tool_end_def intro: dvd_trans)
  moreover have "mem2 y = mem' y" if "y \<notin> {addr..<addr + allocation_size a}" for y
    using frame [of y] that fit by (force simp: instance_at_def tool_end_def)
  ultimately show ?thesis using addr(3) by (auto simp: FreeTools_def Free_def Let_def)
qed

text \<open>Two active tools of 24 bytes.\<close>

definition example_tool :: "nat \<Rightarrow> tool_description" where
  "example_tool off = ToolDescriptor 24 8\<lparr>is_active := True, allocation_offset := off\<rparr>"

definition example_manager :: tool_manager where
  "example_manager = static_tool_manager (\<lambda>d. example_tool (if d = 3 then 0 else 24))
     \<lparr>gRegisteredTools := [Some 3, Some 4] @ replicate 62 None, gActiveTools := [Some 3, Some 4] @ replicate 62 None,
      gNextActiveTool := 2, gAllocationSize := 48, gAllocationAlign := 8, gToolAllocator := Some (tool_slab_allocator 48 8)\<rparr>"

lemma example_manager_ok: "active_tools_are example_manager [3, 4] \<and> laid_out example_manager [3, 4]"
  by (simp add: example_manager_def active_tools_are_def laid_out_def tool_end_def registered_def kMaxNumTools_def
      static_tool_manager_def example_tool_def ToolDescriptor_def) (rule exI [of _ 3], simp)

theorem AllocateTools_block_witness:
  "case AllocateTools (\<lambda>d t mem. mem(t + 8 := 0)) AllocateDataPages (static_memory 0x100000 0x900000) (\<lambda>_. 0) example_manager of
     None \<Rightarrow> False
   | Some (g, mem, m, tools) \<Rightarrow> tools = 0x900008 \<and> tool_list mem 0x900008 [0x900008, 0x900020]"
proof -
  let ?g0 = "static_memory 0x100000 0x900000" and ?a0 = "tool_slab_allocator 48 8" and ?c = "\<lambda>d t mem. mem(t + 8 := 0)"
  have a0: "?a0 = \<lparr>sa_offset = 16328, start_offset = 8, max_offset = 16328, allocation_size = 48,
      object_size = 48, sa_slab_list = 0, free_list = 0\<rparr>"
    by (simp add: tool_slab_allocator_def SlabAllocator_def Let_def align_to_def align_factor_def POINTER_SIZE_def
        kNewAllocatorNumBytesPerSlab_def kNewAllocatorNumPagesPerSlab_def PAGE_SIZE_BYTES_def)
  note evals = Allocate_def AllocateFromFreeList_def SlabForAllocation_def New_AllocateSlab_def AllocateDataPages_def
    AllocatePages_def static_memory_def PageAllocator_def kHeapNumPages_def kNewAllocatorNumPagesPerSlab_def page_addr_def Let_def
  obtain g mem a where st: "Allocate AllocateDataPages ?g0 (\<lambda>_. 0) ?a0 = Some (g, mem, a, 0x900008)"
    unfolding a0 by (simp add: evals)
  have heap: "aligned_heap ?g0 {}"
    using InitHeap_sources(2) by (simp add: aligned_heap_def data_heap_def InitHeap_def static_memory_def PageAllocator_def PAGE_SIZE_BYTES_def)
  have m: "gToolAllocator example_manager = Some ?a0" "gAllocationSize example_manager = 48" "gAllocationAlign example_manager = 8"
    "constructs example_manager ?c" "map (\<lambda>d. 0x900008 + allocation_offset (descs example_manager d)) [3, 4] = [0x900008, 0x900020]"
    by (simp_all add: example_manager_def constructs_def tool_next_def static_tool_manager_def example_tool_def ToolDescriptor_def)
  obtain mem2 where "AllocateTools ?c AllocateDataPages ?g0 (\<lambda>_. 0) example_manager =
      Some (g, mem2, example_manager\<lparr>gToolAllocator := Some a\<rparr>, 0x900008)"
    "tool_list mem2 0x900008 (map (\<lambda>d. 0x900008 + allocation_offset (descs example_manager d)) [3, 4])"
    using AllocateTools_block [of example_manager "[3, 4]" ?c ?g0 "{}" ?a0 "\<lambda>_. 0" ?g0 "\<lambda>_. 0" "{}" g mem a "0x900008"]
      example_manager_ok heap st m(1-4) reachable_init [of "\<lambda>x. x = (?g0, \<lambda>_. 0, ?a0, {})" _ "slab_step AllocateDataPages", OF refl]
    by (auto simp del: tool_list.simps list.map simp: POINTER_SIZE_def PAGE_SIZE_BYTES_def kNewAllocatorNumBytesPerSlab_def kNewAllocatorNumPagesPerSlab_def
        align_to_def align_factor_def)
  then show ?thesis unfolding m(5) by simp
qed

section \<open>Behaviour on repeated requests and after exit\<close>

text \<open>A request replaces dependency 0 of its tool, so a tool that the command line names twice no
  longer leads to what was requested before its first occurrence: here the tool \<^verbatim>\<open>user\<close>, which
  the manager requests itself so that it has priority over all others, is not active.\<close>

lemma repeated_request_drops_user:
  "Option.bind example_registrations
     (\<lambda>m. let m1 = RequestTools (Some ''count,util,count'') m
          in Option.bind (ActivateTool (the (gPrevRequestedTool m1)) m1) (\<lambda>m2. Some (take 3 (gActiveTools m2)))) =
   Some [Some 4, Some 3, None]"
  by code_simp

text \<open>\<^verbatim>\<open>ExitToolManager\<close> restarts the ids at 0 and keeps the names. Registered again, a tool is
  found under its old name and takes no id, and the next new tool gets the id of the first one,
  whose place it takes: both descriptions then have id 0 and only the second is registered.\<close>

lemma exit_keeps_names:
  "Option.bind example_registrations
     (\<lambda>m. Option.bind (ExitToolManager (\<lambda>_. 0) (\<lambda>s _ _. s) () (m\<lparr>gToolAllocator := Some (SlabAllocator 8 56 48 48)\<rparr>))
     (\<lambda>(_, m). Option.bind (AddInstrumentationTool 2 ''user'' [] m)
     (\<lambda>m. Option.bind (AddInstrumentationTool 5 ''trace'' [] m)
     (\<lambda>m. Some (td_id (descs m 2), td_id (descs m 5), take 2 (gRegisteredTools m)))))) =
   Some (0, 0, [Some 5, None])"
  by code_simp

end
