(* ===== verification/Save_Flags.thy ===== *)
theory Save_Flags
  imports Flags
begin

text \<open>
  The assembler's pass that saves and restores the flags around instrumentation code
  (\<^verbatim>\<open>granary/code/assemble/5_save_and_restore_flags.cc\<close> and its architecture-specific part):
  code that saves the flags a zone kills and the application still needs goes into the flag entry
  fragments, code that restores them into the flag exit fragments. The instructions come from the
  generated builders, which are a parameter. It is shown what each fragment holds after the pass,
  and that on a machine where the four instructions do what their documentation says, the code in
  the exit fragment brings back the flags that the code in the entry fragment saved, both leaving
  the application's register as it is.
\<close>

section \<open>Model\<close>

record flag_builder =
  lahf :: NativeInstruction
  seto_al :: NativeInstruction
  add_al_7f :: NativeInstruction
  sahf :: NativeInstruction

definition REG_RAX :: VirtualRegister where
  "REG_RAX = VirtualRegister_default\<lparr>reg_num := 0, vr_kind := kVirtualRegisterKindArchGpr, num_bytes := 8,
     byte_mask := ALL_8_BYTES, is_scheduled := True\<rparr>"

text \<open>Bits of the flags: \<^verbatim>\<open>of\<close> and \<^verbatim>\<open>df\<close> of \<^verbatim>\<open>xed_flag_set_t\<close>.\<close>

definition OF_bit :: nat where [granary_simps]: "OF_bit = 11"
definition DF_bit :: nat where [granary_simps]: "DF_bit = 10"

text \<open>A new instruction at one of the ends of a fragment.\<close>

definition Prepend :: "nat \<Rightarrow> Instruction \<Rightarrow> frag_state \<Rightarrow> frag_state" where
  "Prepend a i s =
     upd_frag a (\<lambda>f. f\<lparr>f_instrs := next_instr s # f_instrs f\<rparr>)
       (s\<lparr>instr_at := (instr_at s)(next_instr s := i), next_instr := next_instr s + 1\<rparr>)"

definition Append :: "nat \<Rightarrow> Instruction \<Rightarrow> frag_state \<Rightarrow> frag_state" where
  "Append a i s =
     upd_frag a (\<lambda>f. f\<lparr>f_instrs := f_instrs f @ [next_instr s]\<rparr>)
       (s\<lparr>instr_at := (instr_at s)(next_instr s := i), next_instr := next_instr s + 1\<rparr>)"

definition rax_annotation :: "InstructionAnnotation \<Rightarrow> Instruction" where
  "rax_annotation annotation = Annotation annotation (RegData REG_RAX)"

definition flags_to_save :: "bool \<Rightarrow> FlagZone \<Rightarrow> u32" where
  "flags_to_save FLAG_always_spill_flags zone =
     (if FLAG_always_spill_flags then killed_flags zone else killed_flags zone AND live_flags zone)"

text \<open>\<open>None\<close> is the failed assertion that the zone does not kill the direction flag.\<close>

definition InjectSaveFlags :: "flag_builder \<Rightarrow> bool \<Rightarrow> nat \<Rightarrow> frag_state \<Rightarrow> frag_state option" where
  "InjectSaveFlags B FLAG_always_spill_flags frag s =
     Option.bind (Value (zones s) frag) (\<lambda>(zs, zone).
       let s = s\<lparr>zones := zs\<rparr>; flags = flags_to_save FLAG_always_spill_flags zone
       in if flags = 0 then Some s
          else if bit (killed_flags zone) DF_bit then None
          else
            let s = Prepend frag (rax_annotation kAnnotSwapRestoreRegister) s;
                s = (if bit flags OF_bit then Prepend frag (Native (seto_al B)) s else s);
                s = Prepend frag (Native (lahf B)) s
            in Some (Prepend frag (rax_annotation kAnnotSaveRegister) s))"

definition InjectRestoreFlags :: "flag_builder \<Rightarrow> bool \<Rightarrow> nat \<Rightarrow> frag_state \<Rightarrow> frag_state option" where
  "InjectRestoreFlags B FLAG_always_spill_flags frag s =
     Option.bind (Value (zones s) frag) (\<lambda>(zs, zone).
       let s = s\<lparr>zones := zs\<rparr>; flags = flags_to_save FLAG_always_spill_flags zone
       in if flags = 0 then Some s
          else
            let s = Prepend frag (rax_annotation kAnnotSwapRestoreRegister) s;
                s = (if bit flags OF_bit then Append frag (Native (add_al_7f B)) s else s);
                s = Append frag (Native (sahf B)) s
            in Some (Append frag (rax_annotation kAnnotRestoreRegister) s))"

definition InjectSaveAndRestoreFlags_frag :: "flag_builder \<Rightarrow> bool \<Rightarrow> nat \<Rightarrow> frag_state \<Rightarrow> frag_state option" where
  "InjectSaveAndRestoreFlags_frag B spill frag s =
     (if IsA FlagEntryFragment s (Some frag) then InjectSaveFlags B spill frag s
      else if IsA FlagExitFragment s (Some frag) then InjectRestoreFlags B spill frag s
      else Some s)"

definition SaveAndRestoreFlags :: "flag_builder \<Rightarrow> bool \<Rightarrow> frag_state \<Rightarrow> frag_state option" where
  "SaveAndRestoreFlags B spill s = opt_fold (InjectSaveAndRestoreFlags_frag B spill) (flist s) s"

section \<open>The code in the fragments\<close>

definition save_code :: "flag_builder \<Rightarrow> u32 \<Rightarrow> Instruction list" where
  "save_code B flags =
     (if flags = 0 then []
      else [rax_annotation kAnnotSaveRegister, Native (lahf B)] @
           (if bit flags OF_bit then [Native (seto_al B)] else []) @ [rax_annotation kAnnotSwapRestoreRegister])"

definition restore_code :: "flag_builder \<Rightarrow> u32 \<Rightarrow> Instruction list \<Rightarrow> Instruction list" where
  "restore_code B flags old =
     (if flags = 0 then old
      else rax_annotation kAnnotSwapRestoreRegister # old @
           (if bit flags OF_bit then [Native (add_al_7f B)] else []) @
           [Native (sahf B), rax_annotation kAnnotRestoreRegister])"

definition code_of :: "frag_state \<Rightarrow> nat \<Rightarrow> Instruction list" where
  "code_of s a = map (instr_at s) (f_instrs (frag_at s a))"

text \<open>Every instruction in a fragment of the list has been allocated.\<close>

definition instrs_allocated :: "frag_state \<Rightarrow> bool" where
  "instrs_allocated s \<longleftrightarrow> (\<forall>a. \<forall>i \<in> set (f_instrs (frag_at s a)). i < next_instr s)"

lemma Prepend_simps [simp]:
  "flist (Prepend a i s) = flist s" "zones (Prepend a i s) = zones s" "parts (Prepend a i s) = parts s"
  "f_class (frag_at (Prepend a i s) b) = f_class (frag_at s b)"
  "flist (Append a i s) = flist s" "zones (Append a i s) = zones s" "parts (Append a i s) = parts s"
  "f_class (frag_at (Append a i s) b) = f_class (frag_at s b)"
  by (simp_all add: Prepend_def Append_def frag_at_upd_frag)

lemma instrs_allocated_ends [simp]:
  "instrs_allocated s \<Longrightarrow> instrs_allocated (Prepend a i s)" "instrs_allocated s \<Longrightarrow> instrs_allocated (Append a i s)"
  by (auto simp: instrs_allocated_def Prepend_def Append_def frag_at_upd_frag less_Suc_eq)

lemma code_of_ends [simp]:
  assumes "instrs_allocated s"
  shows "code_of (Prepend a i s) b = (if b = a then i # code_of s b else code_of s b)"
    "code_of (Append a i s) b = (if b = a then code_of s b @ [i] else code_of s b)"
proof -
  have "instr_at s x = ((instr_at s)(next_instr s := i)) x" if "x \<in> set (f_instrs (frag_at s b))" for x
    using assms that by (auto simp: instrs_allocated_def)
  then show "code_of (Prepend a i s) b = (if b = a then i # code_of s b else code_of s b)"
    "code_of (Append a i s) b = (if b = a then code_of s b @ [i] else code_of s b)"
    by (auto simp: code_of_def Prepend_def Append_def frag_at_upd_frag)
qed

lemma zones_update_simps [simp]:
  "instrs_allocated (s\<lparr>zones := zs\<rparr>) = instrs_allocated s" "code_of (s\<lparr>zones := zs\<rparr>) = code_of s"
  by (simp_all add: instrs_allocated_def code_of_def fun_eq_iff)

lemma Value_correct:
  assumes "forest s"
  obtains s' where "Value s x = Some (s', ds_value s (root s x))" "forest s'" "root s' = root s" "ds_value s' = ds_value s"
proof -
  obtain s' where "Find s x = Some (s', root s x)" "forest s'" "root s' = root s" "ds_value s' = ds_value s"
    by (rule Find_correct [OF assms])
  then show ?thesis by (intro that [of s']) (simp_all add: Value_def)
qed

definition zone_flags :: "bool \<Rightarrow> frag_state \<Rightarrow> nat \<Rightarrow> u32" where
  "zone_flags spill s a = flags_to_save spill (zone_value s a)"

text \<open>What the pass makes of the code of a fragment.\<close>

definition flag_code :: "flag_builder \<Rightarrow> bool \<Rightarrow> frag_state \<Rightarrow> nat \<Rightarrow> Instruction list" where
  "flag_code B spill s a =
     (if f_class (frag_at s a) = FlagEntryFragment then save_code B (zone_flags spill s a) @ code_of s a
      else if f_class (frag_at s a) = FlagExitFragment then restore_code B (zone_flags spill s a) (code_of s a)
      else code_of s a)"

definition no_df_killed :: "bool \<Rightarrow> frag_state \<Rightarrow> nat \<Rightarrow> bool" where
  "no_df_killed spill s a \<longleftrightarrow> (f_class (frag_at s a) = FlagEntryFragment \<and> zone_flags spill s a \<noteq> 0 \<longrightarrow>
     \<not> bit (killed_flags (zone_value s a)) DF_bit)"

definition same_but_code :: "frag_state \<Rightarrow> frag_state \<Rightarrow> bool" where
  "same_but_code s t \<longleftrightarrow> instrs_allocated t \<and> forest (zones t) \<and> flist t = flist s \<and>
     (\<forall>a. zone_value t a = zone_value s a \<and> f_class (frag_at t a) = f_class (frag_at s a))"

lemma IsA_flag [simp]:
  "IsA FlagEntryFragment s (Some a) \<longleftrightarrow> f_class (frag_at s a) = FlagEntryFragment"
  "IsA FlagExitFragment s (Some a) \<longleftrightarrow> f_class (frag_at s a) = FlagExitFragment"
  by (cases "f_class (frag_at s a)"; simp add: IsA_def IsDerivedFrom_def)
    (cases "f_class (frag_at s a)"; simp add: IsA_def IsDerivedFrom_def)

lemma InjectSaveAndRestoreFlags_frag_code:
  assumes "instrs_allocated s" "forest (zones s)" "no_df_killed spill s a"
  shows "\<exists>t. InjectSaveAndRestoreFlags_frag B spill a s = Some t \<and> same_but_code s t \<and>
    code_of t = (code_of s)(a := flag_code B spill s a)"
proof -
  obtain zs where zs: "Value (zones s) a = Some (zs, zone_value s a)" "forest zs" "root zs = root (zones s)"
    "ds_value zs = ds_value (zones s)"
    unfolding zone_value_def by (rule Value_correct [OF assms(2)])
  have keep: "same_but_code s t" if "instrs_allocated t" "zones t = zs" "flist t = flist s"
    "\<And>b. f_class (frag_at t b) = f_class (frag_at s b)" for t
    using that zs by (simp add: same_but_code_def zone_value_def)
  consider "f_class (frag_at s a) = FlagEntryFragment" | "f_class (frag_at s a) = FlagExitFragment"
    | "f_class (frag_at s a) \<noteq> FlagEntryFragment" "f_class (frag_at s a) \<noteq> FlagExitFragment" by blast
  then show ?thesis
  proof cases
    case 1
    then have "zone_flags spill s a \<noteq> 0 \<Longrightarrow> \<not> bit (killed_flags (zone_value s a)) DF_bit"
      using assms(3) by (simp add: no_df_killed_def)
    then show ?thesis using 1 assms(1) zs(1)
      by (auto simp: InjectSaveAndRestoreFlags_frag_def InjectSaveFlags_def Let_def zone_flags_def flag_code_def
          save_code_def fun_eq_iff intro!: keep)
  next
    case 2
    then show ?thesis using assms(1) zs(1)
      by (auto simp: InjectSaveAndRestoreFlags_frag_def InjectRestoreFlags_def Let_def zone_flags_def flag_code_def
          restore_code_def fun_eq_iff intro!: keep)
  next
    case 3
    then show ?thesis using assms(1,2)
      by (auto simp: InjectSaveAndRestoreFlags_frag_def flag_code_def same_but_code_def)
  qed
qed

lemma SaveAndRestoreFlags_fold:
  assumes "instrs_allocated s" "forest (zones s)" "distinct as" "\<And>a. a \<in> set as \<Longrightarrow> no_df_killed spill s a"
  shows "\<exists>t. opt_fold (InjectSaveAndRestoreFlags_frag B spill) as s = Some t \<and>
    (\<forall>a. code_of t a = (if a \<in> set as then flag_code B spill s a else code_of s a))"
  using assms
proof (induction as arbitrary: s)
  case (Cons a as)
  obtain t where t: "InjectSaveAndRestoreFlags_frag B spill a s = Some t" "same_but_code s t"
    "code_of t = (code_of s)(a := flag_code B spill s a)"
    using InjectSaveAndRestoreFlags_frag_code [OF Cons.prems(1,2), of spill a] Cons.prems(4) [of a] by auto
  have "no_df_killed spill t b" if "b \<in> set as" for b
    using Cons.prems(4) [of b] that t(2) by (simp add: no_df_killed_def same_but_code_def zone_flags_def)
  then obtain u where u: "opt_fold (InjectSaveAndRestoreFlags_frag B spill) as t = Some u"
    "\<And>b. code_of u b = (if b \<in> set as then flag_code B spill t b else code_of t b)"
    using Cons.IH [of t] t(2) Cons.prems(3) by (auto simp: same_but_code_def)
  have "flag_code B spill t b = flag_code B spill s b" if "b \<noteq> a" for b
    using that t(2,3) by (simp add: flag_code_def same_but_code_def zone_flags_def)
  then have "code_of u b = (if b \<in> set (a # as) then flag_code B spill s b else code_of s b)" for b
    using u(2) [of b] t(3) Cons.prems(3) by (cases "b = a") auto
  then show ?case using t(1) u(1) by simp
qed simp

section \<open>The machine\<close>

text \<open>The part of the machine that the code works on: register \<open>rax\<close>, the flags, and the slot in
  which the annotations keep \<open>rax\<close>.\<close>

record flag_machine =
  rax :: u64
  eflags :: u32
  rax_slot :: u64

definition ah :: "u64 \<Rightarrow> u8" where "ah r = ucast (drop_bit 8 r)"
definition al :: "u64 \<Rightarrow> u8" where "al r = ucast r"

definition set_al :: "u8 \<Rightarrow> u64 \<Rightarrow> u64" where
  "set_al v r = (r AND NOT (mask 8)) OR ucast v"

definition set_ah :: "u8 \<Rightarrow> u64 \<Rightarrow> u64" where
  "set_ah v r = (r AND NOT (push_bit 8 (mask 8))) OR push_bit 8 (ucast v)"

text \<open>The flags in the byte of \<^verbatim>\<open>LAHF\<close> and \<^verbatim>\<open>SAHF\<close>: carry, parity, adjust, zero, sign.\<close>

definition LAHF_FLAGS :: u8 where "LAHF_FLAGS = 0xD5"

definition run_annotation :: "InstructionAnnotation \<Rightarrow> flag_machine \<Rightarrow> flag_machine" where
  "run_annotation annotation m =
     (case annotation of
        kAnnotSaveRegister \<Rightarrow> m\<lparr>rax_slot := rax m\<rparr>
      | kAnnotRestoreRegister \<Rightarrow> m\<lparr>rax := rax_slot m\<rparr>
      | kAnnotSwapRestoreRegister \<Rightarrow> m\<lparr>rax := rax_slot m, rax_slot := rax m\<rparr>
      | _ \<Rightarrow> m)"

definition run_instr :: "(NativeInstruction \<Rightarrow> flag_machine \<Rightarrow> flag_machine) \<Rightarrow> Instruction \<Rightarrow> flag_machine \<Rightarrow> flag_machine" where
  "run_instr sem i m = (case i of Native n \<Rightarrow> sem n m | Annotation annotation _ \<Rightarrow> run_annotation annotation m)"

definition run_code :: "(NativeInstruction \<Rightarrow> flag_machine \<Rightarrow> flag_machine) \<Rightarrow> Instruction list \<Rightarrow> flag_machine \<Rightarrow> flag_machine" where
  "run_code sem = fold (run_instr sem)"

text \<open>The documented effect of the four instructions. Of the flags that \<^verbatim>\<open>ADD\<close> sets, only the
  overflow flag is needed; that it keeps the direction flag is not.\<close>

definition flag_instrs_ok :: "(NativeInstruction \<Rightarrow> flag_machine \<Rightarrow> flag_machine) \<Rightarrow> flag_builder \<Rightarrow> bool" where
  "flag_instrs_ok sem B \<longleftrightarrow> (\<forall>m.
     sem (lahf B) m = m\<lparr>rax := set_ah ((ucast (eflags m) AND LAHF_FLAGS) OR 2) (rax m)\<rparr> \<and>
     sem (seto_al B) m = m\<lparr>rax := set_al (if bit (eflags m) OF_bit then 1 else 0) (rax m)\<rparr> \<and>
     sem (sahf B) m = m\<lparr>eflags := (eflags m AND NOT (ucast LAHF_FLAGS)) OR ucast (ah (rax m) AND LAHF_FLAGS)\<rparr> \<and>
     rax (sem (add_al_7f B) m) = set_al (al (rax m) + 0x7F) (rax m) \<and>
     rax_slot (sem (add_al_7f B) m) = rax_slot m \<and>
     (bit (eflags (sem (add_al_7f B) m)) OF_bit \<longleftrightarrow>
        0 \<le>s al (rax m) \<and> al (rax m) + 0x7F <s 0))"

lemma ax_bits:
  "bit (ah r) k \<longleftrightarrow> k < 8 \<and> bit r (8 + k)" "bit (al r) k \<longleftrightarrow> k < 8 \<and> bit r k"
  "bit (set_al v r) k \<longleftrightarrow> (if k < 8 then bit v k else bit r k)"
  "bit (set_ah v r) k \<longleftrightarrow> (if 8 \<le> k \<and> k < 16 then bit v (k - 8) else bit r k)"
  using bit_imp_le_length [of v k] bit_imp_le_length [of r k] bit_imp_le_length [of v "k - 8"]
  by (auto simp: ah_def al_def set_al_def set_ah_def bit_simps)

lemma ax_parts [simp]:
  "ah (set_ah v r) = v" "al (set_ah v r) = al r" "ah (set_al v r) = ah r" "al (set_al v r) = v"
  by (auto simp: ax_bits intro!: bit_word_eqI)

lemma sahf_bits:
  "bit ((e AND NOT (ucast LAHF_FLAGS)) OR ucast (h AND LAHF_FLAGS)) k =
     (if bit LAHF_FLAGS k then bit h k else bit (e :: u32) k)"
  using bit_imp_le_length [of LAHF_FLAGS k] bit_imp_le_length [of e k] by (auto simp: bit_simps)

lemma LAHF_FLAGS_bits: "bit LAHF_FLAGS k \<longleftrightarrow> k \<in> {0, 2, 4, 6, 7}"
proof (cases "k < 8")
  case True
  then consider "k = 0" | "k = 1" | "k = 2" | "k = 3" | "k = 4" | "k = 5" | "k = 6" | "k = 7" by linarith
  then show ?thesis by cases (simp_all add: LAHF_FLAGS_def)
next
  case False
  then show ?thesis using bit_imp_le_length [of LAHF_FLAGS k] by auto
qed

lemma lahf_bits:
  assumes "bit LAHF_FLAGS k"
  shows "bit ((ucast (e :: u32) AND LAHF_FLAGS) OR 2) k = bit e k"
proof -
  have "\<not> bit (2 :: u8) k" "k < 8" using assms by (auto simp: LAHF_FLAGS_bits)
  then show ?thesis using assms by (simp add: bit_simps)
qed

lemma ALL_AFLAGS_eq: "ALL_AFLAGS_WITHOUT_DF = ucast LAHF_FLAGS OR push_bit OF_bit 1"
  by (simp add: ALL_AFLAGS_WITHOUT_DF_def LAHF_FLAGS_def OF_bit_def)

lemma ALL_AFLAGS_bits: "bit ALL_AFLAGS_WITHOUT_DF k \<longleftrightarrow> bit LAHF_FLAGS k \<or> k = OF_bit"
proof -
  have "bit (push_bit 11 1 :: u32) k \<longleftrightarrow> k = 11" unfolding bit_push_bit_iff bit_1_iff by auto
  then show ?thesis
    unfolding ALL_AFLAGS_eq OF_bit_def bit_or_iff bit_unsigned_iff by (auto simp: LAHF_FLAGS_bits)
qed

text \<open>The saved byte pair: the low flags in \<open>ah\<close> and the overflow flag in \<open>al\<close>.\<close>

definition saves :: "u32 \<Rightarrow> u32 \<Rightarrow> u64 \<Rightarrow> bool" where
  "saves flags e r \<longleftrightarrow> (\<forall>k. bit LAHF_FLAGS k \<longrightarrow> bit (ah r) k = bit e k) \<and>
     (bit flags OF_bit \<longrightarrow> al r = (if bit e OF_bit then 1 else 0))"

lemma run_code_simps [simp]:
  "run_code sem [] m = m" "run_code sem (i # is) m = run_code sem is (run_instr sem i m)"
  "run_instr sem (Native n) m = sem n m"
  "run_instr sem (rax_annotation kAnnotSaveRegister) m = m\<lparr>rax_slot := rax m\<rparr>"
  "run_instr sem (rax_annotation kAnnotRestoreRegister) m = m\<lparr>rax := rax_slot m\<rparr>"
  "run_instr sem (rax_annotation kAnnotSwapRestoreRegister) m = m\<lparr>rax := rax_slot m, rax_slot := rax m\<rparr>"
  by (simp_all add: run_code_def run_instr_def run_annotation_def rax_annotation_def)

lemma run_save_code:
  assumes "flag_instrs_ok sem B" "flags \<noteq> 0"
  shows "\<exists>r. run_code sem (save_code B flags) m = m\<lparr>rax_slot := r\<rparr> \<and> saves flags (eflags m) r"
proof -
  have lahf: "sem (lahf B) n = n\<lparr>rax := set_ah ((ucast (eflags n) AND LAHF_FLAGS) OR 2) (rax n)\<rparr>"
    and seto: "sem (seto_al B) n = n\<lparr>rax := set_al (if bit (eflags n) OF_bit then 1 else 0) (rax n)\<rparr>" for n
    using assms(1) by (simp_all add: flag_instrs_ok_def)
  show ?thesis using assms(2)
    by (cases "bit flags OF_bit") (auto simp: save_code_def lahf seto saves_def lahf_bits)
qed

lemma run_restore_code:
  assumes "flag_instrs_ok sem B" "flags \<noteq> 0" "saves flags e (rax_slot m)"
  defines "m' \<equiv> run_code sem (restore_code B flags []) m"
  shows "rax m' = rax m" "bit LAHF_FLAGS k \<Longrightarrow> bit (eflags m') k = bit e k"
    "bit flags OF_bit \<Longrightarrow> bit (eflags m') OF_bit = bit e OF_bit"
    "\<not> bit flags OF_bit \<Longrightarrow> \<not> bit LAHF_FLAGS k \<Longrightarrow> bit (eflags m') k = bit (eflags m) k"
proof -
  let ?r = "rax_slot m"
  have sahf: "sem (sahf B) n = n\<lparr>eflags := (eflags n AND NOT (ucast LAHF_FLAGS)) OR ucast (ah (rax n) AND LAHF_FLAGS)\<rparr>" for n
    using assms(1) by (simp add: flag_instrs_ok_def)
  have add: "rax (sem (add_al_7f B) n) = set_al (al (rax n) + 0x7F) (rax n)" "rax_slot (sem (add_al_7f B) n) = rax_slot n"
    "bit (eflags (sem (add_al_7f B) n)) OF_bit \<longleftrightarrow> 0 \<le>s al (rax n) \<and> al (rax n) + 0x7F <s 0" for n
    using assms(1) by (simp_all add: flag_instrs_ok_def)
  have nof: "\<not> bit LAHF_FLAGS OF_bit" by (simp add: LAHF_FLAGS_bits OF_bit_def)
  have al: "0 \<le>s al ?r \<and> al ?r + 0x7F <s 0 \<longleftrightarrow> bit e OF_bit" if "bit flags OF_bit"
    using that assms(3) by (cases "bit e OF_bit") (simp_all add: saves_def word_sle_eq word_sless_alt)
  have low: "bit LAHF_FLAGS k \<Longrightarrow> bit (ah ?r) k = bit e k" for k using assms(3) by (simp add: saves_def)
  show "rax m' = rax m" "bit LAHF_FLAGS k \<Longrightarrow> bit (eflags m') k = bit e k"
    "bit flags OF_bit \<Longrightarrow> bit (eflags m') OF_bit = bit e OF_bit"
    "\<not> bit flags OF_bit \<Longrightarrow> \<not> bit LAHF_FLAGS k \<Longrightarrow> bit (eflags m') k = bit (eflags m) k"
    using assms(2) nof al low
    by (auto simp: m'_def restore_code_def sahf add sahf_bits)
qed

text \<open>C25. Saving and restoring the flags. For a flag entry fragment and a flag exit fragment of one zone, both
  empty before the pass: the code in the entry fragment changes neither the application's register nor the
  flags; and when the code in the exit fragment runs, with the slot as the entry fragment left it, it keeps
  the register and leaves every arithmetic flag with its value at the entry, if the flag is one that the
  zone kills and the application needs, or if the code in between kept it.\<close>

theorem flags_saved_and_restored:
  assumes "instrs_allocated s" "forest (zones s)" "distinct (flist s)" "list_all (no_df_killed spill s) (flist s)"
    and "a \<in> set (flist s)" "f_class (frag_at s a) = FlagEntryFragment" "code_of s a = []"
    and "b \<in> set (flist s)" "f_class (frag_at s b) = FlagExitFragment" "code_of s b = []"
    and "same_set (zones s) a b" "flag_instrs_ok sem B"
  shows "\<exists>t. SaveAndRestoreFlags B spill s = Some t \<and> (\<forall>m0 m1.
    let m = run_code sem (code_of t a) m0; m' = run_code sem (code_of t b) m1
    in rax m = rax m0 \<and> eflags m = eflags m0 \<and>
       (rax_slot m1 = rax_slot m \<longrightarrow> rax m' = rax m1 \<and>
          (\<forall>k. bit ALL_AFLAGS_WITHOUT_DF k \<and>
               (bit (flags_to_save spill (zone_value s a)) k \<or> bit (eflags m1) k = bit (eflags m0) k) \<longrightarrow>
             bit (eflags m') k = bit (eflags m0) k)))"
proof -
  obtain t where t: "SaveAndRestoreFlags B spill s = Some t" "\<And>c. c \<in> set (flist s) \<Longrightarrow> code_of t c = flag_code B spill s c"
    using SaveAndRestoreFlags_fold [OF assms(1-3), of spill B] assms(4) by (auto simp: SaveAndRestoreFlags_def list_all_iff)
  let ?fl = "flags_to_save spill (zone_value s a)"
  have same: "zone_value s b = zone_value s a" using assms(2,11) by (simp add: zone_value_def same_set_iff)
  have code: "code_of t a = save_code B ?fl" "code_of t b = restore_code B ?fl []"
    using t(2) assms(5-10) same by (simp_all add: flag_code_def zone_flags_def)
  have "rax (run_code sem (save_code B ?fl) m0) = rax m0 \<and> eflags (run_code sem (save_code B ?fl) m0) = eflags m0 \<and>
    (rax_slot m1 = rax_slot (run_code sem (save_code B ?fl) m0) \<longrightarrow>
       rax (run_code sem (restore_code B ?fl []) m1) = rax m1 \<and>
       (\<forall>k. bit ALL_AFLAGS_WITHOUT_DF k \<and> (bit ?fl k \<or> bit (eflags m1) k = bit (eflags m0) k) \<longrightarrow>
          bit (eflags (run_code sem (restore_code B ?fl []) m1)) k = bit (eflags m0) k))" for m0 m1
  proof (cases "?fl = 0")
    case True
    then show ?thesis by (simp add: save_code_def restore_code_def)
  next
    case False
    obtain r where r: "run_code sem (save_code B ?fl) m0 = m0\<lparr>rax_slot := r\<rparr>" "saves ?fl (eflags m0) r"
      using run_save_code [OF assms(12) False] by blast
    note R = run_restore_code [OF assms(12) False, of "eflags m0" m1]
    show ?thesis using r R by (cases "bit ?fl OF_bit") (auto simp: ALL_AFLAGS_bits)
  qed
  note run = this
  show ?thesis
  proof (intro exI conjI allI)
    show "SaveAndRestoreFlags B spill s = Some t" by (rule t(1))
  next
    fix m0 m1
    show "let m = run_code sem (code_of t a) m0; m' = run_code sem (code_of t b) m1
      in rax m = rax m0 \<and> eflags m = eflags m0 \<and>
         (rax_slot m1 = rax_slot m \<longrightarrow> rax m' = rax m1 \<and>
            (\<forall>k. bit ALL_AFLAGS_WITHOUT_DF k \<and>
                 (bit (flags_to_save spill (zone_value s a)) k \<or> bit (eflags m1) k = bit (eflags m0) k) \<longrightarrow>
               bit (eflags m') k = bit (eflags m0) k))"
      unfolding code Let_def by (rule run)
  qed
qed

text \<open>An entry fragment and an exit fragment in one zone that kills the zero and the overflow flag,
  and a machine with the documented instructions.\<close>

definition zone_frags :: frag_state where
  "zone_frags = (backward_frags FlagUsageInfo_new FlagUsageInfo_new FlagUsageInfo_new)
     \<lparr>frag_at := (\<lambda>a. if a = 2 then Fragment_new FlagEntryFragment else Fragment_new FlagExitFragment), flist := [2, 3],
      zones := (singletons (\<lambda>_. \<lparr>killed_flags = 0x840, live_flags = 0x840\<rparr>))\<lparr>ds_parent := id(3 := 2)\<rparr>\<rparr>"

definition example_builder :: flag_builder where
  "example_builder = \<lparr>lahf = plain_instr 1, seto_al = plain_instr 2, add_al_7f = plain_instr 3, sahf = plain_instr 4\<rparr>"

definition example_sem :: "NativeInstruction \<Rightarrow> flag_machine \<Rightarrow> flag_machine" where
  "example_sem n m =
     (if iform n = 1 then m\<lparr>rax := set_ah ((ucast (eflags m) AND LAHF_FLAGS) OR 2) (rax m)\<rparr>
      else if iform n = 2 then m\<lparr>rax := set_al (if bit (eflags m) OF_bit then 1 else 0) (rax m)\<rparr>
      else if iform n = 3 then m\<lparr>rax := set_al (al (rax m) + 0x7F) (rax m),
        eflags := (if 0 \<le>s al (rax m) \<and> al (rax m) + 0x7F <s 0 then push_bit OF_bit 1 else 0)\<rparr>
      else m\<lparr>eflags := (eflags m AND NOT (ucast LAHF_FLAGS)) OR ucast (ah (rax m) AND LAHF_FLAGS)\<rparr>)"

theorem flags_saved_and_restored_witness:
  "\<exists>t. SaveAndRestoreFlags example_builder False zone_frags = Some t \<and>
     bit (eflags (run_code example_sem (code_of t 3)
       (run_code example_sem (code_of t 2) \<lparr>rax = 5, eflags = 0x840, rax_slot = 0\<rparr>\<lparr>eflags := 0\<rparr>))) 11"
proof -
  let ?v = "\<lambda>_ :: nat. \<lparr>killed_flags = 0x840, live_flags = 0x840\<rparr> :: FlagZone" and ?m0 = "\<lparr>rax = 5, eflags = 0x840, rax_slot = 0\<rparr>"
  have rt: "root (singletons ?v) x = x" for x
    using root_iff [OF singletons_forest(1), of ?v x x] by (simp add: singletons_def is_root.intros)
  have "forest (zones zone_frags)" "root (zones zone_frags) 3 = 2" "root (zones zone_frags) 2 = 2"
    using link_forest(1) [OF singletons_forest(1), of 3 ?v 3 2 2] link_forest(2) [OF singletons_forest(1), of 3 ?v 3 2 2 3]
      link_forest(2) [OF singletons_forest(1), of 3 ?v 3 2 2 2] rt
    by (simp_all add: zone_frags_def) (simp_all add: singletons_def)
  note z = this
  have v: "flags_to_save False (zone_value zone_frags a) = 0x840" "killed_flags (zone_value zone_frags a) = 0x840" for a
    by (simp_all add: zone_value_def flags_to_save_def zone_frags_def singletons_def)
  have c: "code_of zone_frags a = []" "instrs_allocated zone_frags" "flist zone_frags = [2, 3]"
    "f_class (frag_at zone_frags 2) = FlagEntryFragment" "f_class (frag_at zone_frags 3) = FlagExitFragment" for a
    by (simp_all add: zone_frags_def code_of_def instrs_allocated_def Fragment_new_def backward_frags_def)
  have ok: "flag_instrs_ok example_sem example_builder"
    by (simp add: flag_instrs_ok_def example_sem_def example_builder_def plain_instr_def Instruction_new_def OF_bit_def)
  have "list_all (no_df_killed False zone_frags) [2, 3]" by (simp add: no_df_killed_def v DF_bit_def)
  then obtain t where t: "SaveAndRestoreFlags example_builder False zone_frags = Some t" and
    "\<forall>m0 m1. let m = run_code example_sem (code_of t 2) m0; m' = run_code example_sem (code_of t 3) m1
      in rax m = rax m0 \<and> eflags m = eflags m0 \<and> (rax_slot m1 = rax_slot m \<longrightarrow> rax m' = rax m1 \<and>
        (\<forall>k. bit ALL_AFLAGS_WITHOUT_DF k \<and> (bit (0x840 :: u32) k \<or> bit (eflags m1) k = bit (eflags m0) k) \<longrightarrow>
           bit (eflags m') k = bit (eflags m0) k))"
    using flags_saved_and_restored [of zone_frags False 2 3 example_sem example_builder] z c ok v
    by (auto simp: same_set_iff)
  then have "bit (eflags (run_code example_sem (code_of t 3) (run_code example_sem (code_of t 2) ?m0\<lparr>eflags := 0\<rparr>))) 11 =
      bit (eflags ?m0) 11"
    by (simp add: Let_def ALL_AFLAGS_bits OF_bit_def)
  then show ?thesis using t by auto
qed

end
