(* ===== verification/Schedule_Regs.thy ===== *)
theory Schedule_Regs
  imports Save_Flags "HOL-Library.Monad_Syntax"
begin

text \<open>
  The assembler's pass that gives virtual registers a home
  (\<^verbatim>\<open>granary/code/assemble/8_schedule_registers.cc\<close> and its architecture-specific part):
  each virtual register gets a preferred general-purpose register or a spill slot across the
  control-flow edges, its uses in a fragment are replaced by general-purpose registers whose own
  values wait in spill slots, and the save and restore annotations become moves to and from slots.
  The moves and exchanges come from the generated builders, which are a parameter, as is the order
  in which a set of registers is iterated. \<^const>\<open>None\<close> is a failed assertion.
\<close>

section \<open>Moves between registers and slots\<close>

record gpr_builder =
  mov_mem_gpr :: "VirtualRegister \<Rightarrow> VirtualRegister \<Rightarrow> NativeInstruction"
  mov_gpr_mem :: "VirtualRegister \<Rightarrow> VirtualRegister \<Rightarrow> NativeInstruction"
  xchg_gpr_gpr :: "VirtualRegister \<Rightarrow> VirtualRegister \<Rightarrow> NativeInstruction"
  xchg_mem_gpr :: "VirtualRegister \<Rightarrow> VirtualRegister \<Rightarrow> NativeInstruction"

definition set_op_width :: "nat \<Rightarrow> u16 \<Rightarrow> NativeInstruction \<Rightarrow> NativeInstruction" where
  "set_op_width n w ni = ni\<lparr>ops := (ops ni)[n := (ops ni ! n)\<lparr>op_width := w\<rparr>]\<rparr>"

definition SaveGPRToSlot :: "gpr_builder \<Rightarrow> VirtualRegister \<Rightarrow> VirtualRegister \<Rightarrow> Instruction option" where
  "SaveGPRToSlot B gpr slot =
     (if IsNative gpr \<and> IsVirtualSlot slot then do {
        gpr \<leftarrow> Widen gpr GPR_WIDTH_BYTES;
        slot \<leftarrow> Widen slot GPR_WIDTH_BYTES;
        Some (Native (set_op_width 0 64 (mov_mem_gpr B slot gpr)))
      } else None)"

definition RestoreGPRFromSlot :: "gpr_builder \<Rightarrow> VirtualRegister \<Rightarrow> VirtualRegister \<Rightarrow> Instruction option" where
  "RestoreGPRFromSlot B gpr slot =
     (if IsNative gpr \<and> IsVirtualSlot slot then do {
        gpr \<leftarrow> Widen gpr GPR_WIDTH_BYTES;
        slot \<leftarrow> Widen slot GPR_WIDTH_BYTES;
        Some (Native (set_op_width 1 64 (mov_gpr_mem B gpr slot)))
      } else None)"

definition SwapGPRWithGPR :: "gpr_builder \<Rightarrow> VirtualRegister \<Rightarrow> VirtualRegister \<Rightarrow> Instruction option" where
  "SwapGPRWithGPR B gpr1 gpr2 =
     (if IsNative gpr1 \<and> IsNative gpr2 then do {
        gpr1 \<leftarrow> Widen gpr1 GPR_WIDTH_BYTES;
        gpr2 \<leftarrow> Widen gpr2 GPR_WIDTH_BYTES;
        Some (Native (xchg_gpr_gpr B gpr1 gpr2))
      } else None)"

definition SwapGPRWithSlot :: "gpr_builder \<Rightarrow> VirtualRegister \<Rightarrow> VirtualRegister \<Rightarrow> Instruction option" where
  "SwapGPRWithSlot B gpr slot =
     (if IsNative gpr \<and> IsVirtualSlot slot then do {
        gpr \<leftarrow> Widen gpr GPR_WIDTH_BYTES;
        slot \<leftarrow> Widen slot GPR_WIDTH_BYTES;
        Some (Native (set_op_width 0 64 (xchg_mem_gpr B slot gpr)))
      } else None)"

section \<open>Replacing a register in an instruction\<close>

definition TryReplaceReg ::
    "VirtualRegister \<Rightarrow> VirtualRegister \<Rightarrow> VirtualRegister \<Rightarrow> (VirtualRegister \<times> bool) option" where
  "TryReplaceReg old_reg new_reg curr_reg =
     (if vr_eq curr_reg old_reg then map_option (\<lambda>r. (r, True)) (Widen new_reg (ByteWidth curr_reg))
      else Some (curr_reg, False))"

definition TryReplaceRegInOperand ::
    "VirtualRegister \<Rightarrow> VirtualRegister \<Rightarrow> Operand \<Rightarrow> (Operand \<times> bool) option" where
  "TryReplaceRegInOperand old_reg new_reg op =
     (if IsRegister op then map_option (\<lambda>(r, ret). (op\<lparr>op_reg := r\<rparr>, ret)) (TryReplaceReg old_reg new_reg (op_reg op))
      else if IsMemory op \<and> \<not> IsPointer op then
        if is_compound op then do {
          (base, ret) \<leftarrow> TryReplaceReg old_reg new_reg (op_reg op);
          (index, ret') \<leftarrow> TryReplaceReg old_reg new_reg (mem_index op);
          Some (op\<lparr>op_reg := base, mem_index := index\<rparr>, ret' \<or> ret)
        }
        else map_option (\<lambda>(r, ret). (op\<lparr>op_reg := r\<rparr>, ret)) (TryReplaceReg old_reg new_reg (op_reg op))
      else Some (op, False))"

fun replace_ops ::
    "VirtualRegister \<Rightarrow> VirtualRegister \<Rightarrow> Operand list \<Rightarrow> bool \<Rightarrow> (Operand list \<times> bool) option" where
  "replace_ops old_reg new_reg [] changed = Some ([], changed)"
| "replace_ops old_reg new_reg (op # rest) changed =
     (if \<not> Operand_IsValid op \<or> \<not> is_explicit op then Some (op # rest, changed)
      else do {
        (op, ret) \<leftarrow> TryReplaceRegInOperand old_reg new_reg op;
        (rest, changed) \<leftarrow> replace_ops old_reg new_reg rest (ret \<or> changed);
        Some (op # rest, changed)
      })"

definition TryReplaceRegInInstruction ::
    "NativeInstruction \<Rightarrow> VirtualRegister \<Rightarrow> VirtualRegister \<Rightarrow> (NativeInstruction \<times> bool) option" where
  "TryReplaceRegInInstruction instr old_reg new_reg =
     map_option (\<lambda>(os, changed). (instr\<lparr>ops := os\<rparr>, changed)) (replace_ops old_reg new_reg (ops instr) False)"

section \<open>The scheduler\<close>

definition NthArchGPR :: "nat \<Rightarrow> VirtualRegister" where
  "NthArchGPR n = the (VirtualRegister_new kVirtualRegisterKindArchGpr 8 (of_nat n))"

definition NthSpillSlot :: "nat \<Rightarrow> VirtualRegister option" where
  "NthSpillSlot n =
     (if n < MAX_NUM_SPILL_SLOTS then VirtualRegister_new kVirtualRegisterKindSlot 8 (of_nat n) else None)"

definition vr_register :: "nat \<Rightarrow> VirtualRegister" where
  "vr_register vr_id = the (VirtualRegister_new kVirtualRegisterKindVirtualGpr 8 (of_nat vr_id))"

record RegisterScheduler =
  sch_num_slots :: nat
  slot_for_gpr :: "nat list"
  gpr_has_slot :: RegisterSet
  gpr_counts :: RegisterUsageCounter

definition RegisterScheduler_new :: RegisterScheduler where
  "RegisterScheduler_new = \<lparr>sch_num_slots = 0, slot_for_gpr = replicate NUM_GENERAL_PURPOSE_REGISTERS 0,
     gpr_has_slot = 0, gpr_counts = ClearGPRUseCounters\<rparr>"

definition ResetGlobal :: "frag_state \<Rightarrow> RegisterScheduler \<Rightarrow> RegisterScheduler" where
  "ResetGlobal s sched = sched\<lparr>gpr_counts := CountGPRUses s ClearGPRUseCounters\<rparr>"

definition ResetLocal :: "frag_state \<Rightarrow> nat \<Rightarrow> RegisterScheduler \<Rightarrow> RegisterScheduler" where
  "ResetLocal s frag sched = sched\<lparr>gpr_counts := CountGPRUses_frag s frag ClearGPRUseCounters\<rparr>"

definition ResetGPRSlots :: "RegisterScheduler \<Rightarrow> RegisterScheduler" where
  "ResetGPRSlots sched = sched\<lparr>gpr_has_slot := RegisterSet_KillAll (gpr_has_slot sched)\<rparr>"

definition SlotForGPR :: "VirtualRegister \<Rightarrow> RegisterScheduler \<Rightarrow> (VirtualRegister \<times> RegisterScheduler) option" where
  "SlotForGPR gpr sched =
     (if IsNative gpr \<and> IsGeneralPurpose gpr then do {
        has_slot \<leftarrow> IsLive (gpr_has_slot sched) (Number gpr);
        sched \<leftarrow> (if has_slot then Some sched
                  else map_option (\<lambda>used. sched\<lparr>slot_for_gpr := (slot_for_gpr sched)[Number gpr := sch_num_slots sched],
                         sch_num_slots := sch_num_slots sched + 1, gpr_has_slot := used\<rparr>)
                       (Revive_num (gpr_has_slot sched) (Number gpr)));
        map_option (\<lambda>slot. (slot, sched)) (NthSpillSlot (slot_for_gpr sched ! Number gpr))
      } else None)"

text \<open>The default virtual register is returned when every register is used.\<close>

fun preferred_from :: "RegisterScheduler \<Rightarrow> RegisterSet \<Rightarrow> nat list \<Rightarrow> VirtualRegister option" where
  "preferred_from sched used_regs [] = Some VirtualRegister_default"
| "preferred_from sched used_regs (i # rest) = do {
     live \<leftarrow> IsLive used_regs i;
     num_uses \<leftarrow> NumUses (gpr_counts sched) i;
     if \<not> live \<and> num_uses = 0 then Some (NthArchGPR i) else preferred_from sched used_regs rest
   }"

definition GetPreferredGPR :: "RegisterScheduler \<Rightarrow> RegisterSet \<Rightarrow> VirtualRegister option" where
  "GetPreferredGPR sched used_regs = preferred_from sched used_regs [0..<NUM_GENERAL_PURPOSE_REGISTERS]"

definition gpr_candidate ::
    "RegisterScheduler \<Rightarrow> RegisterSet \<Rightarrow> nat \<Rightarrow> bool \<times> nat \<times> nat \<Rightarrow> (bool \<times> nat \<times> nat) option" where
  "gpr_candidate sched used_regs i = (\<lambda>(found_reg, min_gpr_num, min_num_uses). do {
     live \<leftarrow> IsLive used_regs i;
     if live then Some (found_reg, min_gpr_num, min_num_uses)
     else do {
       num_uses \<leftarrow> NumUses (gpr_counts sched) i;
       Some (if num_uses < min_num_uses then (True, i, num_uses) else (found_reg, min_gpr_num, min_num_uses))
     }
   })"

definition GetGPR :: "RegisterScheduler \<Rightarrow> RegisterSet \<Rightarrow> VirtualRegister option" where
  "GetGPR sched used_regs =
     map_option (\<lambda>(found_reg, min_gpr_num, _). if found_reg then NthArchGPR min_gpr_num else VirtualRegister_default)
       (opt_fold (gpr_candidate sched used_regs) [0..<NUM_GENERAL_PURPOSE_REGISTERS]
          (False, NUM_GENERAL_PURPOSE_REGISTERS, 2 ^ 64 - 1))"

definition IsUsedOrDefined :: "NativeInstruction \<Rightarrow> nat \<Rightarrow> bool" where
  "IsUsedOrDefined instr vr_id \<longleftrightarrow> defined_vr instr = vr_id \<or> vr_id \<in> set (used_vrs instr)"

definition UpdateUseRegs ::
    "InstructionAnnotation \<Rightarrow> annotation_data \<Rightarrow> RegisterSet \<Rightarrow> (RegisterSet \<times> bool) option" where
  "UpdateUseRegs annotation d used_regs =
     (if annotation \<in> {kAnnotSaveRegister, kAnnotRestoreRegister, kAnnotSwapRestoreRegister} then
        (case d of RegData r \<Rightarrow> map_option (\<lambda>u. (u, True)) (Revive used_regs r) | _ \<Rightarrow> None)
      else if annotation = kAnnotReviveRegisters then
        (case d of RegSetData r \<Rightarrow> Some (snd (RegisterSet_Union used_regs r), True) | _ \<Rightarrow> None)
      else Some (used_regs, False))"

section \<open>Scheduling one virtual register in one fragment\<close>

text \<open>The state of the scheduling of a fragment: the scheduler, the fragments, the home of the
  register at the current point, and two local variables.\<close>

record sched_state =
  ss_sched :: RegisterScheduler
  ss_frags :: frag_state
  vr_home :: VirtualRegister
  vr_is_used_in_later_instr :: bool
  first_vr_instr :: "nat option"

definition InsertAfter :: "nat \<Rightarrow> nat \<Rightarrow> Instruction \<Rightarrow> frag_state \<Rightarrow> frag_state" where
  "InsertAfter frag instr i s =
     upd_frag frag (\<lambda>f. f\<lparr>f_instrs := insert_after instr (next_instr s) (f_instrs f)\<rparr>)
       (s\<lparr>instr_at := (instr_at s)(next_instr s := i), next_instr := next_instr s + 1\<rparr>)"

text \<open>\<open>sched\<close> makes the instruction, with the scheduler's slot for \<open>gpr\<close>.\<close>

definition insert_slot_move ::
    "(VirtualRegister \<Rightarrow> VirtualRegister \<Rightarrow> Instruction option) \<Rightarrow> nat \<Rightarrow> nat \<Rightarrow> VirtualRegister \<Rightarrow>
     RegisterScheduler \<times> frag_state \<Rightarrow> (RegisterScheduler \<times> frag_state) option" where
  "insert_slot_move move frag instr gpr = (\<lambda>(sched, s). do {
     (slot, sched) \<leftarrow> SlotForGPR gpr sched;
     i \<leftarrow> move gpr slot;
     Some (sched, InsertAfter frag instr i s)
   })"

definition ChangeVRHome ::
    "gpr_builder \<Rightarrow> nat \<Rightarrow> nat \<Rightarrow> VirtualRegister \<Rightarrow> VirtualRegister \<Rightarrow>
     RegisterScheduler \<times> frag_state \<Rightarrow> (RegisterScheduler \<times> frag_state) option" where
  "ChangeVRHome B frag instr old_home new_home st = do {
     (sched, s) \<leftarrow> insert_slot_move (RestoreGPRFromSlot B) frag instr new_home st;
     i \<leftarrow> SwapGPRWithGPR B old_home new_home;
     insert_slot_move (SaveGPRToSlot B) frag instr old_home (sched, InsertAfter frag instr i s)
   }"

text \<open>The registers an instruction uses, whether it uses or defines the virtual register, and
  whether it is one that the scheduling has to come before.\<close>

definition instr_use :: "frag_state \<Rightarrow> nat \<Rightarrow> nat \<Rightarrow> (RegisterSet \<times> bool \<times> bool) option" where
  "instr_use s vr_id instr =
     (case instr_at s instr of
        Native ninstr \<Rightarrow> do {
          used_regs \<leftarrow> Used_Visit (ops ninstr) 0;
          used_regs \<leftarrow> (if IsUsedOrDefined ninstr vr_id then ReviveRestrictedRegisters (ops ninstr) used_regs
                        else Some used_regs);
          Some (used_regs, IsUsedOrDefined ninstr vr_id, True)
        }
      | Annotation annotation d \<Rightarrow> map_option (\<lambda>(u, first). (u, False, first)) (UpdateUseRegs annotation d 0))"

definition replace_vr :: "nat \<Rightarrow> nat \<Rightarrow> VirtualRegister \<Rightarrow> frag_state \<Rightarrow> frag_state option" where
  "replace_vr vr_id instr home s =
     (if IsNative home \<and> IsGeneralPurpose home then do {
        ninstr \<leftarrow> native_at s instr;
        (ninstr, replaced) \<leftarrow> TryReplaceRegInInstruction ninstr (vr_register vr_id) home;
        if replaced then Some (s\<lparr>instr_at := (instr_at s)(instr := Native ninstr)\<rparr>) else None
      } else None)"

definition note_first :: "nat \<Rightarrow> bool \<Rightarrow> sched_state \<Rightarrow> sched_state" where
  "note_first instr first L = (if first then L\<lparr>first_vr_instr := Some instr\<rparr> else L)"

definition rehome :: "gpr_builder \<Rightarrow> nat \<Rightarrow> VirtualRegister \<Rightarrow> RegisterSet \<Rightarrow> nat \<Rightarrow> sched_state \<Rightarrow> sched_state option" where
  "rehome B frag preferred_gpr used_regs instr L = do {
     pref_used \<leftarrow> IsLive used_regs (Number preferred_gpr);
     new_vr_home \<leftarrow> (if pref_used then GetGPR (ss_sched L) used_regs else Some preferred_gpr);
     if vr_eq (vr_home L) new_vr_home \<or> \<not> IsNative new_vr_home then None
     else do {
       (sched, s) \<leftarrow> ChangeVRHome B frag instr (vr_home L) new_vr_home (ss_sched L, ss_frags L);
       Some (L\<lparr>ss_sched := sched, ss_frags := s, vr_home := new_vr_home\<rparr>)
     }
   }"

definition sched_gpr_instr ::
    "gpr_builder \<Rightarrow> nat \<Rightarrow> nat \<Rightarrow> VirtualRegister \<Rightarrow> nat \<Rightarrow> sched_state \<Rightarrow> sched_state option" where
  "sched_gpr_instr B frag vr_id preferred_gpr instr L = do {
     (used_regs, vr_is_used_or_defined_in_instr, first) \<leftarrow> instr_use (ss_frags L) vr_id instr;
     let L = note_first instr first L;
     home_used \<leftarrow> IsLive used_regs (Number (vr_home L));
     L \<leftarrow> (if home_used then rehome B frag preferred_gpr used_regs instr L else Some L);
     if vr_is_used_or_defined_in_instr then do {
       s \<leftarrow> replace_vr vr_id instr (vr_home L) (ss_frags L);
       Some (L\<lparr>ss_frags := s, vr_is_used_in_later_instr := True\<rparr>)
     } else Some L
   }"

definition MarkPartitionAsUsingVRs :: "nat \<Rightarrow> frag_state \<Rightarrow> frag_state option" where
  "MarkPartitionAsUsingVRs frag s = do {
     (ps, p) \<leftarrow> Value (parts s) frag;
     partition \<leftarrow> p;
     Some (s\<lparr>parts := ps, info_at := (info_at s)(partition := (info_at s partition)\<lparr>uses_vrs := True\<rparr>)\<rparr>)
   }"

text \<open>The instruction in front of another one in a list.\<close>

fun Previous :: "nat list \<Rightarrow> nat \<Rightarrow> nat option" where
  "Previous (x # y # xs) instr = (if y = instr then Some x else Previous (y # xs) instr)"
| "Previous _ instr = None"

definition LabelInstruction :: Instruction where
  "LabelInstruction = Annotation kAnnotationLabel NoData"

definition InsertBefore :: "nat \<Rightarrow> nat \<Rightarrow> Instruction \<Rightarrow> frag_state \<Rightarrow> frag_state" where
  "InsertBefore frag instr i s =
     upd_frag frag (\<lambda>f. f\<lparr>f_instrs := takeWhile (\<lambda>x. x \<noteq> instr) (f_instrs f) @ next_instr s #
         dropWhile (\<lambda>x. x \<noteq> instr) (f_instrs f)\<rparr>)
       (s\<lparr>instr_at := (instr_at s)(next_instr s := i), next_instr := next_instr s + 1\<rparr>)"

definition AddSchedLabel :: "nat \<Rightarrow> nat option \<Rightarrow> frag_state \<Rightarrow> nat \<times> frag_state" where
  "AddSchedLabel frag first s =
     (case first of
        None \<Rightarrow> (next_instr s, Prepend frag LabelInstruction s)
      | Some instr \<Rightarrow>
          (case Previous (f_instrs (frag_at s frag)) instr of
             Some p \<Rightarrow> (p, s)
           | None \<Rightarrow> (next_instr s, InsertBefore frag instr LabelInstruction s)))"

definition mark_used :: "nat \<Rightarrow> sched_state \<Rightarrow> frag_state option" where
  "mark_used frag L =
     (if vr_is_used_in_later_instr L then MarkPartitionAsUsingVRs frag (ss_frags L) else Some (ss_frags L))"

text \<open>\<^verbatim>\<open>ScheduleRegisters\<close> for a preferred register.\<close>

definition ScheduleRegisters_gpr ::
    "gpr_builder \<Rightarrow> nat \<Rightarrow> VirtualRegister \<Rightarrow> nat \<Rightarrow> RegisterScheduler \<times> frag_state \<Rightarrow> (RegisterScheduler \<times> frag_state) option" where
  "ScheduleRegisters_gpr B vr_id preferred_gpr frag = (\<lambda>(sched, s).
     if vr_id \<notin> exit_regs (frag_at s frag) then Some (sched, s)
     else do {
       let vr_is_live_on_entry = vr_id \<in> entry_regs (frag_at s frag);
       L \<leftarrow> opt_fold (sched_gpr_instr B frag vr_id preferred_gpr) (rev (f_instrs (frag_at s frag)))
              \<lparr>ss_sched = ResetLocal s frag sched, ss_frags = s, vr_home = preferred_gpr,
               vr_is_used_in_later_instr = False, first_vr_instr = None\<rparr>;
       s \<leftarrow> mark_used frag L;
       if vr_is_live_on_entry then
         if vr_eq preferred_gpr (vr_home L) then Some (ss_sched L, s)
         else let (sched_label, s) = AddSchedLabel frag (first_vr_instr L) s
              in ChangeVRHome B frag sched_label (vr_home L) preferred_gpr (ss_sched L, s)
       else let (sched_label, s) = AddSchedLabel frag (first_vr_instr L) s
            in insert_slot_move (SaveGPRToSlot B) frag sched_label (vr_home L) (ss_sched L, s)
     })"

section \<open>Virtual registers that live in a slot\<close>

definition VRIsLiveOnExit :: "frag_state \<Rightarrow> nat \<Rightarrow> nat \<Rightarrow> bool" where
  "VRIsLiveOnExit s frag vr_id \<longleftrightarrow>
     list_ex (\<lambda>succ. if is_compensation_frag (attr (frag_at s succ)) then vr_id \<in> exit_regs (frag_at s succ) else True)
       (code_succs s frag)"

definition home_to_slot :: "gpr_builder \<Rightarrow> nat \<Rightarrow> VirtualRegister \<Rightarrow> nat \<Rightarrow> sched_state \<Rightarrow> sched_state option" where
  "home_to_slot B frag slot_reg instr L =
     (if vr_is_used_in_later_instr L then do {
        i \<leftarrow> RestoreGPRFromSlot B (vr_home L) slot_reg;
        (sched, s) \<leftarrow> insert_slot_move (SaveGPRToSlot B) frag instr (vr_home L)
                       (ss_sched L, InsertAfter frag instr i (ss_frags L));
        Some (L\<lparr>ss_sched := sched, ss_frags := s, vr_home := slot_reg\<rparr>)
      } else None)"

definition home_from_slot ::
    "gpr_builder \<Rightarrow> nat \<Rightarrow> bool \<Rightarrow> VirtualRegister \<Rightarrow> RegisterSet \<Rightarrow> nat \<Rightarrow> sched_state \<Rightarrow> sched_state option" where
  "home_from_slot B frag vr_is_defined_in_frag slot_reg used_regs instr L = do {
     home \<leftarrow> GetGPR (ss_sched L) used_regs;
     (sched, s) \<leftarrow> insert_slot_move (RestoreGPRFromSlot B) frag instr home (ss_sched L, ss_frags L);
     s \<leftarrow> (if vr_is_used_in_later_instr L \<and> vr_is_defined_in_frag
           then map_option (\<lambda>i. InsertAfter frag instr i s) (SaveGPRToSlot B home slot_reg) else Some s);
     Some (L\<lparr>ss_sched := sched, ss_frags := s, vr_home := home\<rparr>)
   }"

definition sched_slot_instr ::
    "gpr_builder \<Rightarrow> nat \<Rightarrow> nat \<Rightarrow> bool \<Rightarrow> VirtualRegister \<Rightarrow> nat \<Rightarrow> sched_state \<Rightarrow> sched_state option" where
  "sched_slot_instr B frag vr_id vr_is_defined_in_frag slot_reg instr L = do {
     (used_regs, vr_is_used_or_defined_in_instr, first) \<leftarrow> instr_use (ss_frags L) vr_id instr;
     let L = note_first instr first L;
     home_used \<leftarrow> (if IsNative (vr_home L) then IsLive used_regs (Number (vr_home L)) else Some False);
     L \<leftarrow> (if home_used then home_to_slot B frag slot_reg instr L else Some L);
     if vr_is_used_or_defined_in_instr then do {
       L \<leftarrow> (if vr_eq slot_reg (vr_home L)
             then home_from_slot B frag vr_is_defined_in_frag slot_reg used_regs instr L else Some L);
       s \<leftarrow> replace_vr vr_id instr (vr_home L) (ss_frags L);
       Some (L\<lparr>ss_frags := s, vr_is_used_in_later_instr := True\<rparr>)
     } else Some L
   }"

text \<open>\<^verbatim>\<open>ScheduleRegisters\<close> for a slot. The fragment's counters of definitions have an entry
  exactly for the registers they do not count as zero.\<close>

definition ScheduleRegisters_slot ::
    "gpr_builder \<Rightarrow> nat \<Rightarrow> nat \<Rightarrow> nat \<Rightarrow> RegisterScheduler \<times> frag_state \<Rightarrow> (RegisterScheduler \<times> frag_state) option" where
  "ScheduleRegisters_slot B vr_id slot frag = (\<lambda>(sched, s).
     if vr_id \<notin> exit_regs (frag_at s frag) then Some (sched, s)
     else do {
       let vr_is_defined_in_frag = def_regs (frag_at s frag) vr_id \<noteq> 0;
       let vr_is_live_on_entry = vr_id \<in> entry_regs (frag_at s frag);
       slot_reg \<leftarrow> NthSpillSlot slot;
       L \<leftarrow> opt_fold (sched_slot_instr B frag vr_id vr_is_defined_in_frag slot_reg) (rev (f_instrs (frag_at s frag)))
              \<lparr>ss_sched = ResetLocal s frag sched, ss_frags = s, vr_home = slot_reg,
               vr_is_used_in_later_instr = VRIsLiveOnExit s frag vr_id, first_vr_instr = None\<rparr>;
       s \<leftarrow> mark_used frag L;
       if vr_eq slot_reg (vr_home L) then Some (ss_sched L, s)
       else if vr_is_used_in_later_instr L then do {
         let (sched_label, s) = AddSchedLabel frag (first_vr_instr L) s;
         s \<leftarrow> (if vr_is_live_on_entry
               then map_option (\<lambda>i. InsertAfter frag sched_label i s) (RestoreGPRFromSlot B (vr_home L) slot_reg)
               else Some s);
         insert_slot_move (SaveGPRToSlot B) frag sched_label (vr_home L) (ss_sched L, s)
       } else None
     })"

section \<open>Save and restore annotations\<close>

definition ScheduleSaveRestores_instr ::
    "gpr_builder \<Rightarrow> nat \<Rightarrow> nat \<Rightarrow> RegisterScheduler \<times> frag_state \<Rightarrow> (RegisterScheduler \<times> frag_state) option" where
  "ScheduleSaveRestores_instr B frag instr = (\<lambda>(sched, s).
     case instr_at s instr of
       Annotation annotation (RegData gpr) \<Rightarrow>
         let move = (if annotation = kAnnotSaveRegister then Some (SaveGPRToSlot B)
                     else if annotation = kAnnotRestoreRegister then Some (RestoreGPRFromSlot B)
                     else if annotation = kAnnotSwapRestoreRegister then Some (SwapGPRWithSlot B)
                     else None)
         in (case move of
               None \<Rightarrow> Some (sched, s)
             | Some mv \<Rightarrow> do {
                 (sched, s) \<leftarrow> insert_slot_move mv frag instr gpr (sched, s);
                 s \<leftarrow> MarkPartitionAsUsingVRs frag s;
                 Some (sched, s)
               })
     | _ \<Rightarrow> Some (sched, s))"

definition ScheduleSaveRestores_frag ::
    "gpr_builder \<Rightarrow> nat \<Rightarrow> RegisterScheduler \<times> frag_state \<Rightarrow> (RegisterScheduler \<times> frag_state) option" where
  "ScheduleSaveRestores_frag B frag = (\<lambda>(sched, s).
     if is_code s frag then opt_fold (ScheduleSaveRestores_instr B frag) (f_instrs (frag_at s frag)) (sched, s)
     else Some (sched, s))"

definition ScheduleSaveRestores ::
    "gpr_builder \<Rightarrow> RegisterScheduler \<times> frag_state \<Rightarrow> (RegisterScheduler \<times> frag_state) option" where
  "ScheduleSaveRestores B st = opt_fold (ScheduleSaveRestores_frag B) (flist (snd st)) st"

definition MarkPartitionUseCounts :: "RegisterScheduler \<Rightarrow> frag_state \<Rightarrow> frag_state option" where
  "MarkPartitionUseCounts sched s =
     (if sch_num_slots sched = 0 then Some s
      else opt_fold (\<lambda>frag s. do {
        (ps, p) \<leftarrow> Value (parts s) frag;
        let s = s\<lparr>parts := ps\<rparr>;
        Some (case p of
                None \<Rightarrow> s
              | Some info \<Rightarrow>
                  if uses_vrs (info_at s info)
                  then s\<lparr>info_at := (info_at s)(info := (info_at s info)\<lparr>num_slots := sch_num_slots sched\<rparr>)\<rparr>
                  else s)
      }) (flist s) s)"

section \<open>The pass\<close>

definition GetSchedulableVRs :: "frag_state \<Rightarrow> nat set" where
  "GetSchedulableVRs s =
     fold (\<lambda>frag vrs. if is_code s frag then vrs \<union> entry_regs (frag_at s frag) \<union> exit_regs (frag_at s frag) else vrs)
       (flist s) {}"

definition schedule_frag ::
    "gpr_builder \<Rightarrow> nat \<Rightarrow> VirtualRegister \<Rightarrow> nat \<Rightarrow> nat \<Rightarrow> RegisterScheduler \<times> frag_state \<Rightarrow>
     (RegisterScheduler \<times> frag_state) option" where
  "schedule_frag B vr_id preferred_gpr slot frag = (\<lambda>(sched, s).
     if \<not> is_code s frag then Some (sched, s)
     else if VirtualRegister_IsValid preferred_gpr then
       if is_compensation_frag (attr (frag_at s frag)) then
         if vr_id \<in> entry_regs (frag_at s frag) \<and> vr_id \<notin> exit_regs (frag_at s frag) then do {
           (slot, sched) \<leftarrow> SlotForGPR preferred_gpr sched;
           i \<leftarrow> RestoreGPRFromSlot B preferred_gpr slot;
           Some (sched, Prepend frag i s)
         } else Some (sched, s)
       else ScheduleRegisters_gpr B vr_id preferred_gpr frag (sched, s)
     else if is_compensation_frag (attr (frag_at s frag)) then Some (sched, s)
     else ScheduleRegisters_slot B vr_id slot frag (sched, s))"

definition schedule_vr ::
    "gpr_builder \<Rightarrow> nat \<Rightarrow> RegisterScheduler \<times> frag_state \<times> RegisterSet \<Rightarrow> (RegisterScheduler \<times> frag_state \<times> RegisterSet) option" where
  "schedule_vr B vr_id = (\<lambda>(sched, s, preferred_gprs). do {
     let sched = ResetGlobal s sched;
     preferred_gpr \<leftarrow> GetPreferredGPR sched preferred_gprs;
     (sched, slot, preferred_gprs) \<leftarrow>
        (if VirtualRegister_IsValid preferred_gpr
         then map_option (\<lambda>u. (sched, 0, u)) (Revive preferred_gprs preferred_gpr)
         else Some (sched\<lparr>sch_num_slots := sch_num_slots sched + 1\<rparr>, sch_num_slots sched, preferred_gprs));
     (sched, s) \<leftarrow> opt_fold (schedule_frag B vr_id preferred_gpr slot) (flist s) (sched, s);
     Some (sched, s, preferred_gprs)
   })"

definition ScheduleRegisters :: "gpr_builder \<Rightarrow> (nat set \<Rightarrow> nat list) \<Rightarrow> frag_state \<Rightarrow> frag_state option" where
  "ScheduleRegisters B order s = do {
     (sched, s, _) \<leftarrow> opt_fold (schedule_vr B) (order (GetSchedulableVRs s)) (RegisterScheduler_new, s, 0);
     (sched, s) \<leftarrow> ScheduleSaveRestores B (ResetGPRSlots sched, s);
     MarkPartitionUseCounts sched s
   }"

end
