(* ===== verification/Schedule_Sim.thy ===== *)
theory Schedule_Sim
  imports Schedule_Regs
begin

text \<open>
  Scheduling a virtual register keeps the meaning of a fragment. Code runs over locations:
  general-purpose registers, virtual registers and spill slots. The scheduled code simulates the
  original code when the home of the virtual register holds its value and the slot of that home
  holds the application's value of the home. What is relied on of the processor is that an
  instruction reads and writes only the locations it names, that its meaning is uniform in the
  registers its explicit operands name, and that the four moves and exchanges do what they say.
\<close>

section \<open>Locations\<close>

datatype loc = Gpr nat | Vr nat | Slot nat

definition reg_locs :: "VirtualRegister \<Rightarrow> loc set" where
  "reg_locs r =
     (case vr_kind r of
        kVirtualRegisterKindArchGpr \<Rightarrow> {Gpr (Number r)}
      | kVirtualRegisterKindVirtualGpr \<Rightarrow> {Vr (Number r)}
      | kVirtualRegisterKindSlot \<Rightarrow> {Slot (Number r)}
      | _ \<Rightarrow> {})"

definition op_regs :: "Operand \<Rightarrow> VirtualRegister list" where
  "op_regs op =
     (if IsRegister op then [op_reg op]
      else if IsMemory op \<and> \<not> IsPointer op then if is_compound op then [op_reg op, mem_index op] else [op_reg op]
      else [])"

definition op_locs :: "Operand \<Rightarrow> loc set" where
  "op_locs op = (\<Union>r \<in> set (op_regs op). reg_locs r)"

definition ops_locs :: "Operand list \<Rightarrow> loc set" where
  "ops_locs os = (\<Union>op \<in> set os. op_locs op)"

lemma ops_locs_simps [simp]: "ops_locs [] = {}" "ops_locs (op # os) = op_locs op \<union> ops_locs os"
  by (simp_all add: ops_locs_def)

definition instr_locs :: "Instruction \<Rightarrow> loc set" where
  "instr_locs i =
     (case i of
        Native n \<Rightarrow> ops_locs (ops n)
      | Annotation annotation d \<Rightarrow>
          if annotation \<in> {kAnnotSaveRegister, kAnnotRestoreRegister, kAnnotSwapRestoreRegister}
          then (case d of RegData r \<Rightarrow> reg_locs r | _ \<Rightarrow> {})
          else if annotation = kAnnotReviveRegisters
          then (case d of RegSetData u \<Rightarrow> Gpr ` live_regs u | _ \<Rightarrow> {})
          else {})"

lemma reg_locs_gprs: "Gpr g \<in> reg_locs r \<longleftrightarrow> g \<in> gprs r"
  by (auto simp: reg_locs_def gprs_def IsNative_def IsGeneralPurpose_def split: VirtualRegisterKind.splits)

lemma op_locs_mentions: "Gpr g \<in> op_locs op \<longleftrightarrow> g \<in> op_mentions op"
  by (auto simp: op_locs_def op_regs_def op_mentions_def reg_locs_gprs)

section \<open>Registers of the scheduler\<close>

lemma NthArchGPR_simps [simp]:
  "vr_kind (NthArchGPR g) = kVirtualRegisterKindArchGpr" "IsNative (NthArchGPR g)" "IsGeneralPurpose (NthArchGPR g)"
  "VirtualRegister_IsValid (NthArchGPR g)" "g < 65536 \<Longrightarrow> Number (NthArchGPR g) = g" "reg_num (NthArchGPR g) = of_nat g"
  by (simp_all add: NthArchGPR_def VirtualRegister_new_def IsNative_def IsGeneralPurpose_def VirtualRegister_IsValid_def
      Number_def unat_of_nat)

lemma vr_register_simps [simp]:
  "vr_kind (vr_register v) = kVirtualRegisterKindVirtualGpr" "reg_num (vr_register v) = of_nat v"
  by (simp_all add: vr_register_def VirtualRegister_new_def)

definition slot_register :: "nat \<Rightarrow> VirtualRegister" where
  "slot_register k = the (VirtualRegister_new kVirtualRegisterKindSlot 8 (of_nat k))"

lemma slot_register_simps [simp]:
  "vr_kind (slot_register k) = kVirtualRegisterKindSlot" "IsVirtualSlot (slot_register k)" "\<not> IsNative (slot_register k)"
  "k < 65536 \<Longrightarrow> Number (slot_register k) = k"
  by (simp_all add: slot_register_def VirtualRegister_new_def IsVirtualSlot_def IsNative_def Number_def unat_of_nat)

lemma NthSpillSlot_eq: "NthSpillSlot k = (if k < MAX_NUM_SPILL_SLOTS then Some (slot_register k) else None)"
  by (simp add: NthSpillSlot_def slot_register_def VirtualRegister_new_def)

lemma vr_eq_gpr: "g < 65536 \<Longrightarrow> h < 65536 \<Longrightarrow> vr_eq (NthArchGPR g) (NthArchGPR h) \<longleftrightarrow> g = h"
  by (simp add: vr_eq_def word_of_nat_eq_iff take_bit_nat_eq_self)

lemma vr_eq_vr_register:
  assumes "v < 65536"
  shows "vr_eq r (vr_register v) \<longleftrightarrow> Vr v \<in> reg_locs r"
proof -
  have "reg_num r = of_nat v \<longleftrightarrow> Number r = v"
    using assms by (auto simp: Number_def unat_of_nat)
  then show ?thesis by (auto simp: vr_eq_def reg_locs_def split: VirtualRegisterKind.splits)
qed

section \<open>Renaming\<close>

definition sw :: "nat \<Rightarrow> nat \<Rightarrow> loc \<Rightarrow> loc" where
  "sw v g l = (if l = Vr v then Gpr g else if l = Gpr g then Vr v else l)"

definition width_ok :: "VirtualRegister \<Rightarrow> bool" where
  "width_ok r \<longleftrightarrow> ByteWidth r \<in> {1, 2, 4, 8}"

lemma reg_locs_same: "vr_kind r' = vr_kind r \<Longrightarrow> reg_num r' = reg_num r \<Longrightarrow> reg_locs r' = reg_locs r"
  by (simp add: reg_locs_def Number_def split: VirtualRegisterKind.split)

lemma Widen_locs:
  assumes "width_ok r"
  obtains r' where "Widen q (ByteWidth r) = Some r'" "reg_locs r' = reg_locs q"
proof -
  obtain r' where r': "Widen q (ByteWidth r) = Some r'" using assms by (auto simp: width_ok_def Widen_def)
  then have "reg_locs r' = reg_locs q" by (intro reg_locs_same) (auto simp: Widen_def split: if_splits)
  with r' show thesis by (rule that)
qed

lemma TryReplaceReg_locs:
  assumes "v < 65536" "g < 65536" "Gpr g \<notin> reg_locs r" "Vr v \<in> reg_locs r \<Longrightarrow> width_ok r"
  shows "\<exists>r'. TryReplaceReg (vr_register v) (NthArchGPR g) r = Some (r', Vr v \<in> reg_locs r) \<and>
    reg_locs r' = sw v g ` reg_locs r"
proof (cases "Vr v \<in> reg_locs r")
  case True
  then have "reg_locs r = {Vr v}" by (auto simp: reg_locs_def split: VirtualRegisterKind.splits)
  moreover have "reg_locs (NthArchGPR g) = {Gpr g}" using assms(2) by (simp add: reg_locs_def)
  moreover obtain r' where "Widen (NthArchGPR g) (ByteWidth r) = Some r'" "reg_locs r' = reg_locs (NthArchGPR g)"
    by (rule Widen_locs [OF assms(4) [OF True]])
  ultimately show ?thesis by (simp add: TryReplaceReg_def vr_eq_vr_register [OF assms(1)] sw_def)
next
  case False
  then have "sw v g ` reg_locs r = reg_locs r"
    using assms(3) by (auto simp: sw_def image_iff)
  then show ?thesis using False by (simp add: TryReplaceReg_def vr_eq_vr_register [OF assms(1)])
qed

definition op_widths_ok :: "nat \<Rightarrow> Operand \<Rightarrow> bool" where
  "op_widths_ok v op \<longleftrightarrow> (\<forall>r \<in> set (op_regs op). Vr v \<in> reg_locs r \<longrightarrow> width_ok r)"

lemma op_regs_update:
  "op_regs (op\<lparr>op_reg := r\<rparr>) = (if op_regs op = [] then [] else r # tl (op_regs op))"
  "op_regs (op\<lparr>op_reg := r, mem_index := q\<rparr>) =
     (if op_regs op = [] then [] else if length (op_regs op) = 1 then [r] else [r, q])"
  by (auto simp: op_regs_def IsRegister_def IsMemory_def IsPointer_def)

lemma TryReplaceRegInOperand_locs:
  assumes "v < 65536" "g < 65536" "Gpr g \<notin> op_locs op" "op_widths_ok v op"
  shows "\<exists>op'. TryReplaceRegInOperand (vr_register v) (NthArchGPR g) op = Some (op', Vr v \<in> op_locs op) \<and>
    op_locs op' = sw v g ` op_locs op"
proof -
  let ?T = "TryReplaceReg (vr_register v) (NthArchGPR g)"
  have T: "\<exists>r'. ?T r = Some (r', Vr v \<in> reg_locs r) \<and> reg_locs r' = sw v g ` reg_locs r" if "r \<in> set (op_regs op)" for r
    using that assms(3,4) by (intro TryReplaceReg_locs [OF assms(1,2)]) (auto simp: op_locs_def op_widths_ok_def)
  consider "op_regs op = []" | "op_regs op = [op_reg op]" | "op_regs op = [op_reg op, mem_index op]"
    unfolding op_regs_def by meson
  then show ?thesis
  proof cases
    case 1
    then have "TryReplaceRegInOperand (vr_register v) (NthArchGPR g) op = Some (op, False)"
      by (auto simp: TryReplaceRegInOperand_def op_regs_def split: if_splits)
    then show ?thesis using 1 by (simp add: op_locs_def)
  next
    case 2
    then obtain r' where r': "?T (op_reg op) = Some (r', Vr v \<in> reg_locs (op_reg op))"
      "reg_locs r' = sw v g ` reg_locs (op_reg op)" using T [of "op_reg op"] by auto
    have "TryReplaceRegInOperand (vr_register v) (NthArchGPR g) op = Some (op\<lparr>op_reg := r'\<rparr>, Vr v \<in> reg_locs (op_reg op))"
      using 2 r'(1) by (auto simp: TryReplaceRegInOperand_def op_regs_def split: if_splits)
    then show ?thesis using 2 r'(2) by (auto simp: op_locs_def op_regs_update)
  next
    case 3
    obtain r' q' where r': "?T (op_reg op) = Some (r', Vr v \<in> reg_locs (op_reg op))" "reg_locs r' = sw v g ` reg_locs (op_reg op)"
      "?T (mem_index op) = Some (q', Vr v \<in> reg_locs (mem_index op))" "reg_locs q' = sw v g ` reg_locs (mem_index op)"
      using T [of "op_reg op"] T [of "mem_index op"] 3 by auto
    have "TryReplaceRegInOperand (vr_register v) (NthArchGPR g) op =
        Some (op\<lparr>op_reg := r', mem_index := q'\<rparr>, Vr v \<in> reg_locs (mem_index op) \<or> Vr v \<in> reg_locs (op_reg op))"
      using 3 r' by (auto simp: TryReplaceRegInOperand_def op_regs_def split: if_splits)
    then show ?thesis using 3 r'(2,4) by (auto simp: op_locs_def op_regs_update image_Un)
  qed
qed

text \<open>Only explicit operands name virtual registers, and at a width that a register has.\<close>

fun vr_explicit :: "nat \<Rightarrow> Operand list \<Rightarrow> bool" where
  "vr_explicit v [] \<longleftrightarrow> True"
| "vr_explicit v (op # os) \<longleftrightarrow>
     (if \<not> Operand_IsValid op \<or> \<not> is_explicit op then Vr v \<notin> ops_locs (op # os)
      else op_widths_ok v op \<and> vr_explicit v os)"

lemma sw_image_same: "Vr v \<notin> A \<Longrightarrow> Gpr g \<notin> A \<Longrightarrow> sw v g ` A = A"
  by (auto simp: sw_def image_iff)

lemma replace_ops_locs:
  assumes "v < 65536" "g < 65536"
  shows "Gpr g \<notin> ops_locs os \<Longrightarrow> vr_explicit v os \<Longrightarrow>
    \<exists>os'. replace_ops (vr_register v) (NthArchGPR g) os changed = Some (os', Vr v \<in> ops_locs os \<or> changed) \<and>
      ops_locs os' = sw v g ` ops_locs os"
proof (induction os arbitrary: changed)
  case (Cons op os)
  show ?case
  proof (cases "\<not> Operand_IsValid op \<or> \<not> is_explicit op")
    case True
    then have "Vr v \<notin> ops_locs (op # os)" using Cons.prems(2) by simp
    then show ?thesis using True Cons.prems(1) sw_image_same [of v "ops_locs (op # os)" g] by auto
  next
    case False
    then have prems: "Gpr g \<notin> op_locs op" "op_widths_ok v op" "Gpr g \<notin> ops_locs os" "vr_explicit v os"
      using Cons.prems by auto
    obtain op' where op': "TryReplaceRegInOperand (vr_register v) (NthArchGPR g) op = Some (op', Vr v \<in> op_locs op)"
      "op_locs op' = sw v g ` op_locs op"
      using TryReplaceRegInOperand_locs [OF assms prems(1,2)] by blast
    obtain os' where "replace_ops (vr_register v) (NthArchGPR g) os (Vr v \<in> op_locs op \<or> changed) =
        Some (os', Vr v \<in> ops_locs os \<or> Vr v \<in> op_locs op \<or> changed)" "ops_locs os' = sw v g ` ops_locs os"
      using Cons.IH [OF prems(3,4)] by blast
    then show ?thesis using False op' by (auto simp: image_Un)
  qed
qed simp

section \<open>The processor\<close>

type_synonym ('v, 'r) machine = "(loc \<Rightarrow> 'v) \<times> 'r"

definition cpu_frame :: "(Instruction \<Rightarrow> ('v, 'r) machine \<Rightarrow> ('v, 'r) machine) \<Rightarrow> bool" where
  "cpu_frame isem \<longleftrightarrow>
     (\<forall>i f r l. l \<notin> instr_locs i \<longrightarrow> fst (isem i (f, r)) l = f l) \<and>
     (\<forall>i f g r. (\<forall>l \<in> instr_locs i. g l = f l) \<longrightarrow>
        snd (isem i (g, r)) = snd (isem i (f, r)) \<and> (\<forall>l \<in> instr_locs i. fst (isem i (g, r)) l = fst (isem i (f, r)) l)) \<and>
     (\<forall>x. isem LabelInstruction x = x)"

definition cpu_uniform :: "(Instruction \<Rightarrow> ('v, 'r) machine \<Rightarrow> ('v, 'r) machine) \<Rightarrow> bool" where
  "cpu_uniform isem \<longleftrightarrow> (\<forall>n n' v g f f' r.
     TryReplaceRegInInstruction n (vr_register v) (NthArchGPR g) = Some (n', True) \<and>
     v < 65536 \<and> g < NUM_GENERAL_PURPOSE_REGISTERS \<and> vr_explicit v (ops n) \<and>
     Gpr g \<notin> instr_locs (Native n) \<and> (UsesLegacyRegisters (ops n) \<longrightarrow> g < 7) \<and>
     (\<forall>l \<in> instr_locs (Native n). f' (sw v g l) = f l) \<longrightarrow>
     snd (isem (Native n') (f', r)) = snd (isem (Native n) (f, r)) \<and>
     (\<forall>l \<in> instr_locs (Native n). fst (isem (Native n') (f', r)) (sw v g l) = fst (isem (Native n) (f, r)) l))"

definition cpu_moves :: "(Instruction \<Rightarrow> ('v, 'r) machine \<Rightarrow> ('v, 'r) machine) \<Rightarrow> gpr_builder \<Rightarrow> bool" where
  "cpu_moves isem B \<longleftrightarrow> (\<forall>g h k f r i. g < NUM_GENERAL_PURPOSE_REGISTERS \<and> h < NUM_GENERAL_PURPOSE_REGISTERS \<and>
       k < MAX_NUM_SPILL_SLOTS \<longrightarrow>
     (SaveGPRToSlot B (NthArchGPR g) (slot_register k) = Some i \<longrightarrow> isem i (f, r) = (f(Slot k := f (Gpr g)), r)) \<and>
     (RestoreGPRFromSlot B (NthArchGPR g) (slot_register k) = Some i \<longrightarrow> isem i (f, r) = (f(Gpr g := f (Slot k)), r)) \<and>
     (SwapGPRWithGPR B (NthArchGPR g) (NthArchGPR h) = Some i \<longrightarrow>
        isem i (f, r) = (f(Gpr g := f (Gpr h), Gpr h := f (Gpr g)), r)) \<and>
     (SwapGPRWithSlot B (NthArchGPR g) (slot_register k) = Some i \<longrightarrow>
        isem i (f, r) = (f(Gpr g := f (Slot k), Slot k := f (Gpr g)), r)))"

definition cpu_ok :: "(Instruction \<Rightarrow> ('v, 'r) machine \<Rightarrow> ('v, 'r) machine) \<Rightarrow> gpr_builder \<Rightarrow> bool" where
  "cpu_ok isem B \<longleftrightarrow> cpu_frame isem \<and> cpu_uniform isem \<and> cpu_moves isem B"

definition exec :: "(Instruction \<Rightarrow> ('v, 'r) machine \<Rightarrow> ('v, 'r) machine) \<Rightarrow> Instruction list \<Rightarrow> ('v, 'r) machine \<Rightarrow> ('v, 'r) machine" where
  "exec isem = fold isem"

lemma exec_simps [simp]:
  "exec isem [] x = x" "exec isem (i # is) x = exec isem is (isem i x)"
  "exec isem (is @ js) x = exec isem js (exec isem is x)"
  by (simp_all add: exec_def)

text \<open>The simulation: \<open>h\<close> is the home of the virtual register \<open>v\<close>, \<open>slot\<close> gives the slots of the
  registers, \<open>Z\<close> are the slots that the scheduling of \<open>v\<close> may change.\<close>

definition sim :: "nat \<Rightarrow> (nat \<Rightarrow> nat) \<Rightarrow> nat set \<Rightarrow> nat \<Rightarrow> ('v, 'r) machine \<Rightarrow> ('v, 'r) machine \<Rightarrow> bool" where
  "sim v slot Z h x y \<longleftrightarrow> snd y = snd x \<and> fst y (Gpr h) = fst x (Vr v) \<and> fst y (Slot (slot h)) = fst x (Gpr h) \<and>
     (\<forall>l. l \<noteq> Gpr h \<and> l \<noteq> Vr v \<and> l \<notin> Slot ` Z \<longrightarrow> fst y l = fst x l)"

text \<open>Without a home: the register has no value yet.\<close>

definition sim_free :: "nat \<Rightarrow> nat set \<Rightarrow> ('v, 'r) machine \<Rightarrow> ('v, 'r) machine \<Rightarrow> bool" where
  "sim_free v Z x y \<longleftrightarrow> snd y = snd x \<and> (\<forall>l. l \<noteq> Vr v \<and> l \<notin> Slot ` Z \<longrightarrow> fst y l = fst x l)"

lemma frame_agree:
  assumes "cpu_frame isem" "\<forall>l \<in> instr_locs i. fst y l = fst x l" "snd y = snd x"
  shows "snd (isem i y) = snd (isem i x)" "l \<in> instr_locs i \<Longrightarrow> fst (isem i y) l = fst (isem i x) l"
proof -
  obtain f r where x: "x = (f, r)" by (cases x)
  obtain g where y: "y = (g, r)" using assms(3) x by (cases y) simp
  have "\<forall>l \<in> instr_locs i. g l = f l" using assms(2) by (simp add: x y)
  then have "snd (isem i (g, r)) = snd (isem i (f, r)) \<and> (\<forall>l \<in> instr_locs i. fst (isem i (g, r)) l = fst (isem i (f, r)) l)"
    using assms(1) unfolding cpu_frame_def by blast
  then show "snd (isem i y) = snd (isem i x)" "l \<in> instr_locs i \<Longrightarrow> fst (isem i y) l = fst (isem i x) l"
    by (simp_all add: x y)
qed

lemma frame_keeps: "cpu_frame isem \<Longrightarrow> l \<notin> instr_locs i \<Longrightarrow> fst (isem i x) l = fst x l"
  unfolding cpu_frame_def by (metis prod.collapse)

text \<open>An instruction that names neither the virtual register, nor its home, nor a scratch slot.\<close>

lemma sim_plain:
  assumes "cpu_frame isem" "Vr v \<notin> instr_locs i" "Gpr h \<notin> instr_locs i" "instr_locs i \<inter> Slot ` Z = {}"
    and "slot h \<in> Z" "sim v slot Z h x y"
  shows "sim v slot Z h (isem i x) (isem i y)"
proof -
  have agree: "\<forall>l \<in> instr_locs i. fst y l = fst x l"
  proof
    fix l assume "l \<in> instr_locs i"
    then have "l \<noteq> Gpr h" "l \<noteq> Vr v" "l \<notin> Slot ` Z" using assms(2-4) by blast+
    then show "fst y l = fst x l" using assms(6) by (simp add: sim_def)
  qed
  have s: "snd y = snd x" using assms(6) by (simp add: sim_def)
  note F = frame_agree [OF assms(1) agree s] and K = frame_keeps [OF assms(1)]
  have "fst (isem i y) l = fst (isem i x) l" if "l \<noteq> Gpr h" "l \<noteq> Vr v" "l \<notin> Slot ` Z" for l
    using that assms(6) F(2) [of l] K [of l i x] K [of l i y] by (cases "l \<in> instr_locs i") (simp_all add: sim_def)
  moreover have "Slot (slot h) \<notin> instr_locs i" using assms(4,5) by auto
  ultimately show ?thesis using assms(2,3,6) F(1) K unfolding sim_def by simp
qed

lemma sim_free_plain:
  assumes "cpu_frame isem" "instr_locs i = {}" "sim_free v Z x y"
  shows "sim_free v Z (isem i x) (isem i y)"
proof -
  have "snd (isem i y) = snd (isem i x)"
    by (rule frame_agree(1) [OF assms(1)]) (use assms(2,3) in \<open>simp_all add: sim_free_def\<close>)
  then show ?thesis using assms(2,3) frame_keeps [OF assms(1), of _ i] by (simp add: sim_free_def)
qed

text \<open>An instruction that names the virtual register, with the home put in its place.\<close>

lemma TryReplaceRegInInstruction_locs:
  assumes "v < 65536" "g < 65536" "Gpr g \<notin> instr_locs (Native n)" "vr_explicit v (ops n)"
  obtains n' where "TryReplaceRegInInstruction n (vr_register v) (NthArchGPR g) = Some (n', Vr v \<in> instr_locs (Native n))"
    "instr_locs (Native n') = sw v g ` instr_locs (Native n)"
  using replace_ops_locs [OF assms(1,2), of "ops n" False] assms(3,4) that
  by (auto simp: TryReplaceRegInInstruction_def instr_locs_def)

lemma sim_vr:
  assumes "cpu_ok isem B" "v < 65536" "h < NUM_GENERAL_PURPOSE_REGISTERS" "vr_explicit v (ops n)"
    and "TryReplaceRegInInstruction n (vr_register v) (NthArchGPR h) = Some (n', True)"
    and "Gpr h \<notin> instr_locs (Native n)" "UsesLegacyRegisters (ops n) \<Longrightarrow> h < 7"
    and "instr_locs (Native n) \<inter> Slot ` Z = {}" "slot h \<in> Z" "sim v slot Z h x y"
  shows "sim v slot Z h (isem (Native n) x) (isem (Native n') y)"
proof -
  have h: "h < 65536" using assms(3) by (simp add: granary_simps)
  have locs: "instr_locs (Native n') = sw v h ` instr_locs (Native n)" "Vr v \<in> instr_locs (Native n)"
    using TryReplaceRegInInstruction_locs [OF assms(2) h assms(6,4)] assms(5) by auto
  obtain f r where x: "x = (f, r)" by (cases x)
  obtain f' where y: "y = (f', r)" using assms(10) x by (cases y) (simp add: sim_def)
  have ag: "\<forall>l \<in> instr_locs (Native n). f' (sw v h l) = f l"
  proof
    fix l assume "l \<in> instr_locs (Native n)"
    then have "l \<noteq> Gpr h" "l \<notin> Slot ` Z" using assms(6,8) by blast+
    then show "f' (sw v h l) = f l" using assms(10) by (simp add: sim_def x y sw_def)
  qed
  have U: "snd (isem (Native n') (f', r)) = snd (isem (Native n) (f, r)) \<and>
      (\<forall>l \<in> instr_locs (Native n). fst (isem (Native n') (f', r)) (sw v h l) = fst (isem (Native n) (f, r)) l)"
    using assms(1) assms(2-7) ag unfolding cpu_ok_def cpu_uniform_def by blast
  have K: "l \<notin> instr_locs i \<Longrightarrow> fst (isem i z) l = fst z l" for i l z
    using frame_keeps assms(1) unfolding cpu_ok_def by blast
  have home: "fst (isem (Native n') y) (Gpr h) = fst (isem (Native n) x) (Vr v)"
    using U locs(2) unfolding x y by (metis sw_def)
  have "Slot (slot h) \<notin> instr_locs (Native n)" "Slot (slot h) \<notin> instr_locs (Native n')"
    using assms(8,9) locs(1) by (auto simp: sw_def)
  then have slot: "fst (isem (Native n') y) (Slot (slot h)) = fst (isem (Native n) x) (Gpr h)"
    using K assms(6,10) by (simp add: sim_def)
  have "fst (isem (Native n') y) l = fst (isem (Native n) x) l" if l: "l \<noteq> Gpr h" "l \<noteq> Vr v" "l \<notin> Slot ` Z" for l
  proof (cases "l \<in> instr_locs (Native n)")
    case True
    then show ?thesis using U l unfolding x y by (metis sw_def)
  next
    case False
    then have "l \<notin> instr_locs (Native n')" using l locs(1) by (auto simp: sw_def split: if_splits)
    then show ?thesis using False K l assms(10) by (simp add: sim_def)
  qed
  then show ?thesis using U home slot unfolding sim_def by (simp add: x y)
qed

section \<open>Moving the home\<close>

lemma Widen_home [simp]: "\<exists>r. Widen q GPR_WIDTH_BYTES = Some r"
  by (simp add: Widen_def GPR_WIDTH_BYTES_def)

lemma moves_exist:
  obtains i1 i2 i3 where "SaveGPRToSlot B (NthArchGPR g) (slot_register k) = Some i1"
    "RestoreGPRFromSlot B (NthArchGPR g) (slot_register k) = Some i2"
    "SwapGPRWithGPR B (NthArchGPR g) (NthArchGPR h) = Some i3"
proof -
  obtain r q r' where "Widen (NthArchGPR g) GPR_WIDTH_BYTES = Some r" "Widen (slot_register k) GPR_WIDTH_BYTES = Some q"
    "Widen (NthArchGPR h) GPR_WIDTH_BYTES = Some r'" using Widen_home by metis
  then show ?thesis by (intro that) (simp_all add: SaveGPRToSlot_def RestoreGPRFromSlot_def SwapGPRWithGPR_def)
qed

definition change_code :: "gpr_builder \<Rightarrow> (nat \<Rightarrow> nat) \<Rightarrow> nat \<Rightarrow> nat \<Rightarrow> Instruction list" where
  "change_code B slot h g =
     [the (SaveGPRToSlot B (NthArchGPR h) (slot_register (slot h))), the (SwapGPRWithGPR B (NthArchGPR h) (NthArchGPR g)),
      the (RestoreGPRFromSlot B (NthArchGPR g) (slot_register (slot g)))]"

definition good_slots :: "(nat \<Rightarrow> nat) \<Rightarrow> nat set \<Rightarrow> bool" where
  "good_slots slot Z \<longleftrightarrow> inj_on slot {..<NUM_GENERAL_PURPOSE_REGISTERS} \<and>
     (\<forall>g < NUM_GENERAL_PURPOSE_REGISTERS. slot g \<in> Z \<and> slot g < MAX_NUM_SPILL_SLOTS)"

text \<open>From home \<open>g\<close> to home \<open>h\<close>.\<close>

lemma sim_change:
  assumes "cpu_moves isem B" "g < NUM_GENERAL_PURPOSE_REGISTERS" "h < NUM_GENERAL_PURPOSE_REGISTERS" "g \<noteq> h"
    and "good_slots slot Z" "sim v slot Z g x y"
  shows "sim v slot Z h x (exec isem (change_code B slot h g) y)"
proof -
  have ne: "slot g \<noteq> slot h" and Z: "slot g \<in> Z" "slot h \<in> Z" "slot g < MAX_NUM_SPILL_SLOTS" "slot h < MAX_NUM_SPILL_SLOTS"
    using assms(2-5) by (auto simp: good_slots_def inj_on_def)
  obtain i1 i3 where i: "SaveGPRToSlot B (NthArchGPR h) (slot_register (slot h)) = Some i1"
    "SwapGPRWithGPR B (NthArchGPR h) (NthArchGPR g) = Some i3" using moves_exist by metis
  obtain i2 where i2: "RestoreGPRFromSlot B (NthArchGPR g) (slot_register (slot g)) = Some i2" using moves_exist by metis
  obtain f r where y: "y = (f, r)" by (cases y)
  have m: "isem i1 (f, r) = (f(Slot (slot h) := f (Gpr h)), r)" "isem i3 (f, r) = (f(Gpr h := f (Gpr g), Gpr g := f (Gpr h)), r)"
    "isem i2 (f, r) = (f(Gpr g := f (Slot (slot g))), r)" for f r
    using assms(1-3) i i2 Z unfolding cpu_moves_def by blast+
  have "exec isem (change_code B slot h g) y =
      (f(Slot (slot h) := f (Gpr h), Gpr h := f (Gpr g), Gpr g := f (Slot (slot g))), r)"
    using ne by (simp add: change_code_def i i2 y m fun_eq_iff)
  then show ?thesis using assms(4,6) ne Z unfolding sim_def y by auto
qed

text \<open>The first home: its own value goes to its slot, and the virtual register starts with the
  value that is in the home.\<close>

lemma sim_first_home:
  assumes "cpu_moves isem B" "h < NUM_GENERAL_PURPOSE_REGISTERS" "good_slots slot Z"
    and "SaveGPRToSlot B (NthArchGPR h) (slot_register (slot h)) = Some i" "sim_free v Z x y"
  shows "sim v slot Z h ((fst x)(Vr v := fst x (Gpr h)), snd x) (isem i y)"
proof -
  have Z: "slot h \<in> Z" "slot h < MAX_NUM_SPILL_SLOTS" using assms(2,3) by (auto simp: good_slots_def)
  obtain f r where y: "y = (f, r)" by (cases y)
  have "isem i (f, r) = (f(Slot (slot h) := f (Gpr h)), r)"
    using assms(1,2,4) Z unfolding cpu_moves_def by blast
  then show ?thesis using assms(5) Z unfolding sim_def sim_free_def y by auto
qed

section \<open>The scheduler's slots\<close>

definition has_slots :: "RegisterScheduler \<Rightarrow> nat set" where
  "has_slots sched = live_regs (gpr_has_slot sched)"

text \<open>Different registers have different slots, and there are slots left for those that have none.\<close>

definition sched_ok :: "RegisterScheduler \<Rightarrow> bool" where
  "sched_ok sched \<longleftrightarrow> length (slot_for_gpr sched) = NUM_GENERAL_PURPOSE_REGISTERS \<and>
     (\<forall>g \<in> has_slots sched. slot_for_gpr sched ! g < sch_num_slots sched) \<and>
     inj_on (\<lambda>g. slot_for_gpr sched ! g) (has_slots sched) \<and>
     sch_num_slots sched + (NUM_GENERAL_PURPOSE_REGISTERS - card (has_slots sched)) \<le> MAX_NUM_SPILL_SLOTS"

definition sched_extends :: "RegisterScheduler \<Rightarrow> RegisterScheduler \<Rightarrow> bool" where
  "sched_extends sched sched' \<longleftrightarrow> has_slots sched \<subseteq> has_slots sched' \<and>
     (\<forall>g \<in> has_slots sched. slot_for_gpr sched' ! g = slot_for_gpr sched ! g) \<and>
     gpr_counts sched' = gpr_counts sched"

lemma sched_extends_trans: "sched_extends a b \<Longrightarrow> sched_extends b c \<Longrightarrow> sched_extends a c"
  by (auto simp: sched_extends_def)

lemma has_slots_bound: "has_slots sched \<subseteq> {..<NUM_GENERAL_PURPOSE_REGISTERS}" "finite (has_slots sched)"
  by (auto simp: has_slots_def live_regs_def)

definition slots_agree :: "(nat \<Rightarrow> nat) \<Rightarrow> RegisterScheduler \<Rightarrow> bool" where
  "slots_agree slot sched \<longleftrightarrow> (\<forall>g \<in> has_slots sched. slot_for_gpr sched ! g = slot g)"

lemma slots_agree_extends: "slots_agree slot sched' \<Longrightarrow> sched_extends sched sched' \<Longrightarrow> slots_agree slot sched"
  unfolding slots_agree_def sched_extends_def by (metis subsetD)

text \<open>A slot of its own for every register: \<^verbatim>\<open>SlotForGPR\<close> returns, the slot is below the
  number of slots, registers that had a slot keep it, and registers have different slots.\<close>

lemma SlotForGPR_ok:
  assumes "sched_ok sched" "g < NUM_GENERAL_PURPOSE_REGISTERS"
  obtains sched' where "SlotForGPR (NthArchGPR g) sched = Some (slot_register (slot_for_gpr sched' ! g), sched')"
    "sched_ok sched'" "sched_extends sched sched'" "g \<in> has_slots sched'" "slot_for_gpr sched' ! g < MAX_NUM_SPILL_SLOTS"
proof -
  note N = NUM_GENERAL_PURPOSE_REGISTERS_def
  have num: "Number (NthArchGPR g) = g" using assms(2) by (simp add: N)
  have live: "IsLive (gpr_has_slot sched) g = Some (g \<in> has_slots sched)"
    using IsLive_regs(1) [OF assms(2)] by (simp add: has_slots_def)
  show ?thesis
  proof (cases "g \<in> has_slots sched")
    case True
    then have "slot_for_gpr sched ! g < sch_num_slots sched" using assms(1) by (simp add: sched_ok_def)
    then have "slot_for_gpr sched ! g < MAX_NUM_SPILL_SLOTS" using assms(1) by (simp add: sched_ok_def)
    then show ?thesis using True assms(1) num live
      by (intro that [of sched]) (simp_all add: SlotForGPR_def NthSpillSlot_eq sched_extends_def)
  next
    case False
    obtain u where u: "Revive_num (gpr_has_slot sched) g = Some u" "live_regs u = insert g (live_regs (gpr_has_slot sched))"
      using set_num [OF assms(2), of "gpr_has_slot sched" True] assms(2) by (auto simp: Revive_num_def)
    let ?s = "sched\<lparr>slot_for_gpr := (slot_for_gpr sched)[g := sch_num_slots sched],
        sch_num_slots := sch_num_slots sched + 1, gpr_has_slot := u\<rparr>"
    have has: "has_slots ?s = insert g (has_slots sched)" using u(2) by (simp add: has_slots_def)
    have len: "length (slot_for_gpr sched) = NUM_GENERAL_PURPOSE_REGISTERS" using assms(1) by (simp add: sched_ok_def)
    have card: "card (has_slots sched) < NUM_GENERAL_PURPOSE_REGISTERS"
      using psubset_card_mono [of "{..<NUM_GENERAL_PURPOSE_REGISTERS}" "has_slots sched"] has_slots_bound(1) False assms(2) by auto
    have card': "card (has_slots ?s) = card (has_slots sched) + 1"
      unfolding has using False has_slots_bound(2) [of sched] by simp
    have "sch_num_slots sched + (NUM_GENERAL_PURPOSE_REGISTERS - card (has_slots sched)) \<le> MAX_NUM_SPILL_SLOTS"
      using assms(1) by (simp add: sched_ok_def)
    then have room: "sch_num_slots sched < MAX_NUM_SPILL_SLOTS"
      "sch_num_slots ?s + (NUM_GENERAL_PURPOSE_REGISTERS - card (has_slots ?s)) \<le> MAX_NUM_SPILL_SLOTS"
      unfolding card' using card by simp_all
    have old: "slot_for_gpr ?s ! x = slot_for_gpr sched ! x" if "x \<in> has_slots sched" for x
      using that False by (cases "x = g") simp_all
    have new: "slot_for_gpr ?s ! g = sch_num_slots sched" using len assms(2) by simp
    have less: "x \<in> has_slots sched \<Longrightarrow> slot_for_gpr sched ! x < sch_num_slots sched" for x
      using assms(1) by (simp add: sched_ok_def)
    have "inj_on (\<lambda>x. slot_for_gpr ?s ! x) (has_slots ?s)"
      unfolding has
    proof (rule inj_onI)
      fix x y assume "x \<in> insert g (has_slots sched)" "y \<in> insert g (has_slots sched)" "slot_for_gpr ?s ! x = slot_for_gpr ?s ! y"
      then show "x = y" using old new less assms(1) False unfolding sched_ok_def inj_on_def
        by (metis insertE less_irrefl)
    qed
    moreover have "\<forall>x \<in> has_slots ?s. slot_for_gpr ?s ! x < sch_num_slots ?s"
      unfolding has using old new less by (auto simp del: nth_list_update simp: less_SucI)
    ultimately have "sched_ok ?s" using len room(2) by (simp add: sched_ok_def)
    moreover have "sched_extends sched ?s" using has old by (auto simp: sched_extends_def)
    ultimately show ?thesis
      using num live False u(1) room(1) new has
      by (intro that [of ?s]) (simp_all add: SlotForGPR_def NthSpillSlot_eq)
  qed
qed

section \<open>The least used register\<close>

definition counts_ok :: "RegisterScheduler \<Rightarrow> bool" where
  "counts_ok sched \<longleftrightarrow> length (gpr_counts sched) = NUM_GENERAL_PURPOSE_REGISTERS \<and> (\<forall>c \<in> set (gpr_counts sched). c < 2 ^ 64 - 1)"

definition least_used :: "RegisterScheduler \<Rightarrow> RegisterSet \<Rightarrow> nat \<Rightarrow> bool \<times> nat \<times> nat \<Rightarrow> bool" where
  "least_used sched u n st \<longleftrightarrow> (case st of (found, g, c) \<Rightarrow>
     if found then g < n \<and> g \<notin> live_regs u \<and> c = gpr_counts sched ! g \<and>
       (\<forall>i < n. i \<notin> live_regs u \<longrightarrow> c \<le> gpr_counts sched ! i)
     else c = 2 ^ 64 - 1 \<and> (\<forall>i < n. i \<in> live_regs u))"

lemma gpr_candidate_least:
  assumes "counts_ok sched" "n < NUM_GENERAL_PURPOSE_REGISTERS" "least_used sched u n st"
  shows "\<exists>st'. gpr_candidate sched u n st = Some st' \<and> least_used sched u (Suc n) st'"
proof -
  obtain found g c where st: "st = (found, g, c)" by (metis prod.exhaust)
  have live: "IsLive u n = Some (n \<in> live_regs u)" by (rule IsLive_regs(1) [OF assms(2)])
  have nth: "NumUses (gpr_counts sched) n = Some (gpr_counts sched ! n)" "gpr_counts sched ! n < 2 ^ 64 - 1"
    using assms(1,2) by (simp_all add: NumUses_def counts_ok_def)
  show ?thesis using assms(3) live nth
    by (cases "n \<in> live_regs u"; cases found)
      (auto simp: gpr_candidate_def st least_used_def less_Suc_eq intro: order.trans less_imp_le)
qed

lemma GetGPR_least:
  assumes "counts_ok sched" "\<exists>g < NUM_GENERAL_PURPOSE_REGISTERS. g \<notin> live_regs u"
  obtains g where "GetGPR sched u = Some (NthArchGPR g)" "g < NUM_GENERAL_PURPOSE_REGISTERS" "g \<notin> live_regs u"
    "\<And>i. i < NUM_GENERAL_PURPOSE_REGISTERS \<Longrightarrow> i \<notin> live_regs u \<Longrightarrow> gpr_counts sched ! g \<le> gpr_counts sched ! i"
proof -
  let ?st = "(False, NUM_GENERAL_PURPOSE_REGISTERS, 2 ^ 64 - 1)"
  have snoc: "opt_fold f (xs @ [x]) s = Option.bind (opt_fold f xs s) (f x)" for f xs x and s :: "bool \<times> nat \<times> nat"
    by (induction xs arbitrary: s) (auto split: bind_splits)
  have "n \<le> NUM_GENERAL_PURPOSE_REGISTERS \<Longrightarrow>
      \<exists>st. opt_fold (gpr_candidate sched u) [0..<n] ?st = Some st \<and> least_used sched u n st" for n
  proof (induction n)
    case 0
    then show ?case by (simp add: least_used_def)
  next
    case (Suc n)
    then obtain st where "opt_fold (gpr_candidate sched u) [0..<n] ?st = Some st" "least_used sched u n st" by auto
    then show ?case using gpr_candidate_least [OF assms(1), of n u st] Suc.prems by (auto simp: snoc)
  qed
  then obtain found g c where st: "opt_fold (gpr_candidate sched u) [0..<NUM_GENERAL_PURPOSE_REGISTERS] ?st = Some (found, g, c)"
    "least_used sched u NUM_GENERAL_PURPOSE_REGISTERS (found, g, c)" by (metis le_refl prod.exhaust)
  then have found using assms(2) by (auto simp: least_used_def split: if_splits)
  then show ?thesis using st by (intro that [of g]) (auto simp: GetGPR_def least_used_def)
qed

lemma ResetLocal_simps [simp]:
  "has_slots (ResetLocal s a sched) = has_slots sched" "slot_for_gpr (ResetLocal s a sched) = slot_for_gpr sched"
  "sch_num_slots (ResetLocal s a sched) = sch_num_slots sched" "sched_ok (ResetLocal s a sched) = sched_ok sched"
  "slots_agree slot (ResetLocal s a sched) = slots_agree slot sched"
  by (simp_all add: ResetLocal_def has_slots_def sched_ok_def slots_agree_def)

section \<open>Inserting instructions\<close>

text \<open>\<open>is\<close> has been put behind \<open>i\<close> in fragment \<open>a\<close>.\<close>

definition inserts :: "nat \<Rightarrow> nat \<Rightarrow> Instruction list \<Rightarrow> frag_state \<Rightarrow> frag_state \<Rightarrow> bool" where
  "inserts a i is s s' \<longleftrightarrow> (\<exists>new. map (instr_at s') new = is \<and> distinct new \<and> set new \<subseteq> {next_instr s..<next_instr s'} \<and>
     (\<forall>pre post. f_instrs (frag_at s a) = pre @ i # post \<and> i \<notin> set pre \<longrightarrow> f_instrs (frag_at s' a) = pre @ i # new @ post)) \<and>
     (\<forall>j < next_instr s. instr_at s' j = instr_at s j) \<and> next_instr s \<le> next_instr s' \<and>
     (\<forall>b. b \<noteq> a \<longrightarrow> frag_at s' b = frag_at s b) \<and> parts s' = parts s \<and> info_at s' = info_at s \<and> flist s' = flist s"

lemma insert_after_split: "i \<notin> set pre \<Longrightarrow> insert_after i x (pre @ i # post) = pre @ i # x # post"
  by (induction pre) auto

lemma inserts_Nil: "inserts a i [] s s"
  by (simp add: inserts_def)

lemma inserts_Cons:
  assumes "inserts a i is s s'"
  shows "inserts a i (j # is) s (InsertAfter a i j s')"
proof -
  obtain new where new: "map (instr_at s') new = is" "distinct new" "set new \<subseteq> {next_instr s..<next_instr s'}"
    "\<And>pre post. f_instrs (frag_at s a) = pre @ i # post \<Longrightarrow> i \<notin> set pre \<Longrightarrow> f_instrs (frag_at s' a) = pre @ i # new @ post"
    and rest: "\<forall>j < next_instr s. instr_at s' j = instr_at s j" "next_instr s \<le> next_instr s'"
    "\<forall>b. b \<noteq> a \<longrightarrow> frag_at s' b = frag_at s b"
    "parts s' = parts s" "info_at s' = info_at s" "flist s' = flist s"
    using assms by (auto simp: inserts_def)
  let ?s = "InsertAfter a i j s'"
  have "map (instr_at ?s) (next_instr s' # new) = j # is" "distinct (next_instr s' # new)"
    "set (next_instr s' # new) \<subseteq> {next_instr s..<next_instr ?s}"
    using new(1-3) rest(2) by (auto simp: InsertAfter_def upd_frag_def)
  moreover have "f_instrs (frag_at ?s a) = pre @ i # (next_instr s' # new) @ post"
    if "f_instrs (frag_at s a) = pre @ i # post" "i \<notin> set pre" for pre post
    using new(4) [OF that] that(2) by (simp add: InsertAfter_def frag_at_upd_frag insert_after_split)
  ultimately show ?thesis using rest unfolding inserts_def
    by (intro conjI exI [of _ "next_instr s' # new"]) (auto simp: InsertAfter_def frag_at_upd_frag)
qed

lemma insert_slot_move_ok:
  assumes "sched_ok sched" "g < NUM_GENERAL_PURPOSE_REGISTERS" "\<And>k. \<exists>j. move (NthArchGPR g) (slot_register k) = Some j"
  obtains sched' where "insert_slot_move move a i (NthArchGPR g) (sched, s) =
      Some (sched', InsertAfter a i (the (move (NthArchGPR g) (slot_register (slot_for_gpr sched' ! g)))) s)"
    "sched_ok sched'" "sched_extends sched sched'" "g \<in> has_slots sched'"
proof -
  obtain sched' where s': "SlotForGPR (NthArchGPR g) sched = Some (slot_register (slot_for_gpr sched' ! g), sched')"
    "sched_ok sched'" "sched_extends sched sched'" "g \<in> has_slots sched'"
    by (rule SlotForGPR_ok [OF assms(1,2)])
  obtain j where "move (NthArchGPR g) (slot_register (slot_for_gpr sched' ! g)) = Some j" using assms(3) by blast
  then show ?thesis using s' by (intro that [of sched']) (simp_all add: insert_slot_move_def)
qed

lemma moves_total:
  "\<exists>j. SaveGPRToSlot B (NthArchGPR g) (slot_register k) = Some j" "\<exists>j. RestoreGPRFromSlot B (NthArchGPR g) (slot_register k) = Some j"
  "\<exists>j. SwapGPRWithGPR B (NthArchGPR g) (NthArchGPR h) = Some j"
  using moves_exist by metis+

lemma ChangeVRHome_ok:
  assumes "sched_ok sched" "g < NUM_GENERAL_PURPOSE_REGISTERS" "h < NUM_GENERAL_PURPOSE_REGISTERS"
  obtains sched' s' where "ChangeVRHome B a i (NthArchGPR h) (NthArchGPR g) (sched, s) = Some (sched', s')"
    "sched_ok sched'" "sched_extends sched sched'"
    "inserts a i (change_code B (\<lambda>g. slot_for_gpr sched' ! g) h g) s s'" "g \<in> has_slots sched'" "h \<in> has_slots sched'"
proof -
  let ?r = "\<lambda>k. the (RestoreGPRFromSlot B (NthArchGPR g) (slot_register k))"
  let ?w = "\<lambda>k. the (SaveGPRToSlot B (NthArchGPR h) (slot_register k))"
  obtain x where x: "SwapGPRWithGPR B (NthArchGPR h) (NthArchGPR g) = Some x" using moves_total by blast
  obtain c1 where c1: "insert_slot_move (RestoreGPRFromSlot B) a i (NthArchGPR g) (sched, s) =
      Some (c1, InsertAfter a i (?r (slot_for_gpr c1 ! g)) s)" "sched_ok c1" "sched_extends sched c1" "g \<in> has_slots c1"
    using insert_slot_move_ok [OF assms(1,2), of "RestoreGPRFromSlot B" a i s] moves_total(2) by blast
  let ?s1 = "InsertAfter a i x (InsertAfter a i (?r (slot_for_gpr c1 ! g)) s)"
  obtain c2 where c2: "insert_slot_move (SaveGPRToSlot B) a i (NthArchGPR h) (c1, ?s1) =
      Some (c2, InsertAfter a i (?w (slot_for_gpr c2 ! h)) ?s1)" "sched_ok c2" "sched_extends c1 c2" "h \<in> has_slots c2"
    using insert_slot_move_ok [OF c1(2) assms(3), of "SaveGPRToSlot B" a i ?s1] moves_total(1) by blast
  show ?thesis
  proof (rule that)
    show "ChangeVRHome B a i (NthArchGPR h) (NthArchGPR g) (sched, s) = Some (c2, InsertAfter a i (?w (slot_for_gpr c2 ! h)) ?s1)"
      using c1(1) c2(1) x by (simp add: ChangeVRHome_def)
    show "sched_extends sched c2" using sched_extends_trans c1(3) c2(3) by blast
    have "slot_for_gpr c1 ! g = slot_for_gpr c2 ! g" "g \<in> has_slots c2" using c1(4) c2(3) by (auto simp: sched_extends_def)
    then show "inserts a i (change_code B (\<lambda>g. slot_for_gpr c2 ! g) h g) s (InsertAfter a i (?w (slot_for_gpr c2 ! h)) ?s1)"
      "g \<in> has_slots c2"
      unfolding change_code_def x by (simp_all add: inserts_Cons inserts_Nil)
  qed (rule c2(2), rule c2(4))
qed

section \<open>The registers of an instruction\<close>

text \<open>What the earlier passes leave of an instruction: its registers are ones that the sets hold,
  virtual registers are in explicit operands and tracked, some register is free, and it does not
  name a scratch slot.\<close>

definition instr_ok :: "nat \<Rightarrow> nat set \<Rightarrow> Instruction \<Rightarrow> bool" where
  "instr_ok v Z i \<longleftrightarrow> instr_locs i \<inter> Slot ` Z = {} \<and>
     (case i of
        Native n \<Rightarrow> list_all op_ok (ops n) \<and> vr_explicit v (ops n) \<and> (IsUsedOrDefined n v \<longleftrightarrow> Vr v \<in> instr_locs i) \<and>
          (\<exists>g < NUM_GENERAL_PURPOSE_REGISTERS. Gpr g \<notin> instr_locs i \<and> (UsesLegacyRegisters (ops n) \<longrightarrow> g < 7))
      | Annotation annotation d \<Rightarrow>
          (annotation \<in> {kAnnotSaveRegister, kAnnotRestoreRegister, kAnnotSwapRestoreRegister} \<longrightarrow>
             (\<exists>r. d = RegData r \<and> IsNative r \<and> reg_ok r)) \<and>
          (annotation = kAnnotReviveRegisters \<longrightarrow> (\<exists>u. d = RegSetData u)) \<and>
          (\<exists>g < NUM_GENERAL_PURPOSE_REGISTERS. Gpr g \<notin> instr_locs i))"

lemma legacy_regs:
  "\<exists>u'. ReviveRestrictedRegisters os u = Some u' \<and>
     live_regs u' = live_regs u \<union> (if UsesLegacyRegisters os then {7..<NUM_GENERAL_PURPOSE_REGISTERS} else {})"
proof (cases "UsesLegacyRegisters os")
  case True
  have "list_all (\<lambda>k. k < NUM_GENERAL_PURPOSE_REGISTERS) ks \<Longrightarrow>
      \<exists>u'. opt_fold (\<lambda>num s. Revive_num s num) ks u = Some u' \<and> live_regs u' = live_regs u \<union> set ks" for ks
  proof (induction ks arbitrary: u)
    case (Cons k ks)
    then obtain u1 where "Revive_num u k = Some u1" "live_regs u1 = insert k (live_regs u)"
      using set_num [of k u True] by (auto simp: Revive_num_def)
    then show ?case using Cons.IH [of u1] Cons.prems by auto
  qed simp
  from this [of "[14, 13, 12, 11, 10, 9, 8, 7]"] show ?thesis
    using True by (auto simp: ReviveRestrictedRegisters_def NUM_GENERAL_PURPOSE_REGISTERS_def)
qed (simp add: ReviveRestrictedRegisters_def)

definition use_ok :: "nat \<Rightarrow> Instruction \<Rightarrow> RegisterSet \<Rightarrow> bool \<Rightarrow> bool" where
  "use_ok v i u first \<longleftrightarrow> (\<forall>g < NUM_GENERAL_PURPOSE_REGISTERS. Gpr g \<in> instr_locs i \<longrightarrow> g \<in> live_regs u) \<and>
     (\<exists>g < NUM_GENERAL_PURPOSE_REGISTERS. g \<notin> live_regs u) \<and> (\<not> first \<longrightarrow> instr_locs i = {} \<and> live_regs u = {}) \<and>
     (\<forall>n. i = Native n \<and> Vr v \<in> instr_locs i \<and> UsesLegacyRegisters (ops n) \<longrightarrow>
        (\<forall>g < NUM_GENERAL_PURPOSE_REGISTERS. g \<notin> live_regs u \<longrightarrow> g < 7))"

lemma live_regs_0 [simp]: "live_regs 0 = {}"
  by (simp add: live_regs_def)

lemma instr_use_ok:
  assumes "instr_ok v Z (instr_at s j)"
  shows "\<exists>u first. instr_use s v j = Some (u, Vr v \<in> instr_locs (instr_at s j), first) \<and> use_ok v (instr_at s j) u first"
proof (cases "instr_at s j")
  case (Native n)
  let ?M = "\<Union>op \<in> set (ops n). op_mentions op"
  have ok: "list_all op_ok (ops n)" "IsUsedOrDefined n v \<longleftrightarrow> Vr v \<in> instr_locs (Native n)"
    and free: "\<exists>g < NUM_GENERAL_PURPOSE_REGISTERS. Gpr g \<notin> instr_locs (Native n) \<and> (UsesLegacyRegisters (ops n) \<longrightarrow> g < 7)"
    using assms Native by (simp_all add: instr_ok_def)
  have locs: "Gpr g \<in> instr_locs (Native n) \<longleftrightarrow> g \<in> ?M" for g
    by (auto simp: instr_locs_def ops_locs_def op_locs_mentions)
  obtain u where u: "Used_Visit (ops n) 0 = Some u" "live_regs u = ?M" using Used_Visit_regs [OF ok(1), of 0] by auto
  obtain u' where u': "ReviveRestrictedRegisters (ops n) u = Some u'"
    "live_regs u' = ?M \<union> (if UsesLegacyRegisters (ops n) then {7..<NUM_GENERAL_PURPOSE_REGISTERS} else {})"
    using legacy_regs [of "ops n" u] u(2) by auto
  show ?thesis
  proof (cases "Vr v \<in> instr_locs (Native n)")
    case True
    then have "instr_use s v j = Some (u', True, True)" using Native u(1) u'(1) ok(2) by (simp add: instr_use_def)
    moreover have "use_ok v (Native n) u' True" using u'(2) locs free by (auto simp: use_ok_def)
    ultimately show ?thesis using Native True by auto
  next
    case False
    then have "instr_use s v j = Some (u, False, True)" using Native u(1) ok(2) by (simp add: instr_use_def)
    moreover have "use_ok v (Native n) u True" using u(2) locs free False by (auto simp: use_ok_def)
    ultimately show ?thesis using Native False by auto
  qed
next
  case (Annotation annotation d)
  have free: "\<exists>g < NUM_GENERAL_PURPOSE_REGISTERS. Gpr g \<notin> instr_locs (Annotation annotation d)"
    using assms Annotation by (simp add: instr_ok_def)
  consider (reg) "annotation \<in> {kAnnotSaveRegister, kAnnotRestoreRegister, kAnnotSwapRestoreRegister}"
    | (set) "annotation = kAnnotReviveRegisters"
    | (other) "annotation \<notin> {kAnnotSaveRegister, kAnnotRestoreRegister, kAnnotSwapRestoreRegister, kAnnotReviveRegisters}" by auto
  then show ?thesis
  proof cases
    case reg
    then obtain r where r: "d = RegData r" "IsNative r" "reg_ok r" using assms Annotation by (auto simp: instr_ok_def)
    obtain u where u: "Revive 0 r = Some u" "live_regs u = gprs r" using Revive_regs [OF r(3), of 0] by auto
    have locs: "instr_locs (Annotation annotation d) = reg_locs r" using reg r(1) by (auto simp: instr_locs_def)
    have "Vr v \<notin> reg_locs r" using r(2) by (auto simp: reg_locs_def IsNative_def split: VirtualRegisterKind.splits)
    moreover have "use_ok v (Annotation annotation d) u True"
      using u(2) free unfolding use_ok_def locs by (auto simp: reg_locs_gprs)
    ultimately show ?thesis using Annotation reg r(1) u(1) locs by (auto simp: instr_use_def UpdateUseRegs_def)
  next
    case set
    then obtain u where u: "d = RegSetData u" using assms Annotation by (auto simp: instr_ok_def)
    have locs: "instr_locs (Annotation annotation d) = Gpr ` live_regs u" using set u by (simp add: instr_locs_def)
    have "live_regs (snd (RegisterSet_Union 0 u)) = live_regs u" by (simp add: Union_regs)
    then have "use_ok v (Annotation annotation d) (snd (RegisterSet_Union 0 u)) True"
      using free unfolding use_ok_def locs by auto
    then show ?thesis using Annotation set u locs by (auto simp: instr_use_def UpdateUseRegs_def)
  next
    case other
    then have "instr_locs (Annotation annotation d) = {}" by (simp add: instr_locs_def)
    moreover have "instr_use s v j = Some (0, False, False)" using other Annotation by (simp add: instr_use_def UpdateUseRegs_def)
    moreover have "0 < NUM_GENERAL_PURPOSE_REGISTERS" by (simp add: NUM_GENERAL_PURPOSE_REGISTERS_def)
    ultimately show ?thesis using Annotation by (auto simp: use_ok_def)
  qed
qed

section \<open>One instruction\<close>

text \<open>The scheduled code \<open>js\<close> follows the original code \<open>is\<close>, from home \<open>h\<close> to home \<open>p\<close>, whatever slots
  registers without one will get.\<close>

definition follows ::
    "(Instruction \<Rightarrow> ('v, 'r) machine \<Rightarrow> ('v, 'r) machine) \<Rightarrow> nat \<Rightarrow> nat set \<Rightarrow> RegisterScheduler \<Rightarrow> nat \<Rightarrow> nat \<Rightarrow>
     Instruction list \<Rightarrow> Instruction list \<Rightarrow> bool" where
  "follows isem v Z sched h p is js \<longleftrightarrow> (\<forall>slot. slots_agree slot sched \<and> good_slots slot Z \<longrightarrow>
     (\<forall>x y. sim v slot Z h x y \<longrightarrow> sim v slot Z p (exec isem is x) (exec isem js y)))"

lemma follows_extends: "follows isem v Z sched h p is js \<Longrightarrow> sched_extends sched sched' \<Longrightarrow> follows isem v Z sched' h p is js"
  unfolding follows_def using slots_agree_extends by blast

lemma follows_sim:
  "follows isem v Z sched h p is js \<Longrightarrow> slots_agree slot sched \<Longrightarrow> good_slots slot Z \<Longrightarrow> sim v slot Z h x y \<Longrightarrow>
   sim v slot Z p (exec isem is x) (exec isem js y)"
  by (simp only: follows_def)

lemma follows_append:
  assumes "follows isem v Z sched h g is js" "follows isem v Z sched g p is' js'"
  shows "follows isem v Z sched h p (is @ is') (js @ js')"
  unfolding follows_def exec_simps(3) using assms [THEN follows_sim] by blast

lemma follows_Nil: "follows isem v Z sched h h [] []"
  unfolding follows_def exec_simps(1) by blast

lemma follows_plain:
  assumes "cpu_frame isem" "h < NUM_GENERAL_PURPOSE_REGISTERS" "Vr v \<notin> instr_locs i" "Gpr h \<notin> instr_locs i" "instr_locs i \<inter> Slot ` Z = {}"
  shows "follows isem v Z sched h h [i] [i]"
proof -
  have "sim v slot Z h (isem i x) (isem i y)" if "good_slots slot Z" "sim v slot Z h x y" for slot x y
    by (rule sim_plain [OF assms(1,3-5) _ that(2)]) (use that(1) assms(2) in \<open>simp add: good_slots_def\<close>)
  then show ?thesis unfolding follows_def exec_simps by blast
qed

lemma follows_trivial:
  assumes "cpu_frame isem" "h < NUM_GENERAL_PURPOSE_REGISTERS"
  shows "\<forall>i \<in> set is. instr_locs i = {} \<Longrightarrow> follows isem v Z sched h h is is"
proof (induction "is")
  case (Cons i "is")
  then have "follows isem v Z sched h h [i] [i]" by (intro follows_plain [OF assms]) auto
  from follows_append [OF this] Cons show ?case by fastforce
qed (simp add: follows_Nil)

text \<open>Making room: the new home is not among the registers in use.\<close>

definition home_moved ::
    "(Instruction \<Rightarrow> ('v, 'r) machine \<Rightarrow> ('v, 'r) machine) \<Rightarrow> nat \<Rightarrow> nat set \<Rightarrow> nat \<Rightarrow> nat \<Rightarrow> nat \<Rightarrow> sched_state \<Rightarrow> nat \<Rightarrow> sched_state \<Rightarrow> bool" where
  "home_moved isem v Z a j h L g L' \<longleftrightarrow> g < NUM_GENERAL_PURPOSE_REGISTERS \<and> vr_home L' = NthArchGPR g \<and>
     sched_ok (ss_sched L') \<and> sched_extends (ss_sched L) (ss_sched L') \<and>
     vr_is_used_in_later_instr L' = vr_is_used_in_later_instr L \<and> first_vr_instr L' = first_vr_instr L \<and>
     (\<exists>is. inserts a j is (ss_frags L) (ss_frags L') \<and> follows isem v Z (ss_sched L') g h [] is)"

lemma change_follows:
  assumes "cpu_ok isem B" "g < NUM_GENERAL_PURPOSE_REGISTERS" "h < NUM_GENERAL_PURPOSE_REGISTERS" "g \<noteq> h" "sched_ok sched"
  obtains sched' s' "is" where "ChangeVRHome B a j (NthArchGPR h) (NthArchGPR g) (sched, s) = Some (sched', s')"
    "sched_ok sched'" "sched_extends sched sched'" "inserts a j is s s'" "follows isem v Z sched' g h [] is"
proof -
  obtain sched' s' where c: "ChangeVRHome B a j (NthArchGPR h) (NthArchGPR g) (sched, s) = Some (sched', s')"
    "sched_ok sched'" "sched_extends sched sched'" "inserts a j (change_code B (\<lambda>g. slot_for_gpr sched' ! g) h g) s s'"
    "g \<in> has_slots sched'" "h \<in> has_slots sched'"
    by (rule ChangeVRHome_ok [OF assms(5,2,3)])
  have m: "cpu_moves isem B" using assms(1) by (simp add: cpu_ok_def)
  have "sim v slot Z h x (exec isem (change_code B (\<lambda>g. slot_for_gpr sched' ! g) h g) y)"
    if s: "slots_agree slot sched'" "good_slots slot Z" "sim v slot Z g x y" for slot x y
  proof -
    have "change_code B (\<lambda>g. slot_for_gpr sched' ! g) h g = change_code B slot h g"
      using s(1) c(5,6) by (simp add: change_code_def slots_agree_def)
    then show ?thesis using sim_change [OF m assms(2-4) s(2,3)] by simp
  qed
  then have "follows isem v Z sched' g h [] (change_code B (\<lambda>g. slot_for_gpr sched' ! g) h g)"
    unfolding follows_def exec_simps(1) by blast
  with c(1-4) show ?thesis by (rule that)
qed

lemma rehome_ok:
  assumes "cpu_ok isem B" "sched_ok (ss_sched L)" "counts_ok (ss_sched L)" "use_ok v i u first"
    and "vr_home L = NthArchGPR h" "h < NUM_GENERAL_PURPOSE_REGISTERS" "p < NUM_GENERAL_PURPOSE_REGISTERS" "h \<in> live_regs u"
  obtains L' g where "rehome B a (NthArchGPR p) u j L = Some L'" "home_moved isem v Z a j h L g L'" "g \<notin> live_regs u"
proof -
  have small: "g < NUM_GENERAL_PURPOSE_REGISTERS \<Longrightarrow> g < 65536" for g by (simp add: NUM_GENERAL_PURPOSE_REGISTERS_def)
  obtain g where g: "(if p \<in> live_regs u then GetGPR (ss_sched L) u else Some (NthArchGPR p)) = Some (NthArchGPR g)"
    "g < NUM_GENERAL_PURPOSE_REGISTERS" "g \<notin> live_regs u"
  proof (cases "p \<in> live_regs u")
    case True
    then show ?thesis using that GetGPR_least [OF assms(3), of u] assms(4) unfolding use_ok_def by metis
  next
    case False
    then show ?thesis using that [of p] assms(7) by simp
  qed
  then have ne: "g \<noteq> h" using assms(8) by auto
  obtain sched' s' "is" where c: "ChangeVRHome B a j (NthArchGPR h) (NthArchGPR g) (ss_sched L, ss_frags L) = Some (sched', s')"
    "sched_ok sched'" "sched_extends (ss_sched L) sched'" "inserts a j is (ss_frags L) s'" "follows isem v Z sched' g h [] is"
    by (rule change_follows [OF assms(1) g(2) assms(6) ne assms(2)])
  let ?L = "L\<lparr>ss_sched := sched', ss_frags := s', vr_home := NthArchGPR g\<rparr>"
  have "rehome B a (NthArchGPR p) u j L = Some ?L"
    using g ne assms(5-7) small IsLive_regs(1) [OF assms(7), of u] c(1)
    by (simp add: rehome_def vr_eq_gpr)
  moreover have "home_moved isem v Z a j h L g ?L" using g(2) c(2-5) by (auto simp: home_moved_def)
  ultimately show ?thesis using g(3) by (rule that)
qed

text \<open>The instruction itself, with the home put in place of the virtual register.\<close>

lemma replace_ok:
  assumes "cpu_ok isem B" "v < 65536" "g < NUM_GENERAL_PURPOSE_REGISTERS" "instr_ok v Z (instr_at s i)"
    and "use_ok v (instr_at s i) u first" "g \<notin> live_regs u"
  obtains i' where "(if Vr v \<in> instr_locs (instr_at s i) then replace_vr v i (NthArchGPR g) s else Some s) =
      Some (s\<lparr>instr_at := (instr_at s)(i := i')\<rparr>)"
    "\<And>sched. follows isem v Z sched g g [instr_at s i] [i']" "Vr v \<notin> instr_locs i'"
proof (cases "Vr v \<in> instr_locs (instr_at s i)")
  case True
  then obtain n where n: "instr_at s i = Native n"
    using assms(4) by (cases "instr_at s i")
      (auto simp: instr_ok_def instr_locs_def reg_locs_def IsNative_def split: if_splits annotation_data.splits VirtualRegisterKind.splits)
  have g: "g < 65536" using assms(3) by (simp add: NUM_GENERAL_PURPOSE_REGISTERS_def)
  have free: "Gpr g \<notin> instr_locs (Native n)" "UsesLegacyRegisters (ops n) \<Longrightarrow> g < 7"
    using assms(3,5,6) n True by (auto simp: use_ok_def)
  have ok: "vr_explicit v (ops n)" "instr_locs (Native n) \<inter> Slot ` Z = {}" using assms(4) n by (auto simp: instr_ok_def)
  obtain n' where n': "TryReplaceRegInInstruction n (vr_register v) (NthArchGPR g) = Some (n', True)"
    "instr_locs (Native n') = sw v g ` instr_locs (Native n)"
    using TryReplaceRegInInstruction_locs [OF assms(2) g free(1) ok(1)] True n by auto
  have "sim v slot Z g (isem (Native n) x) (isem (Native n') y)" if "good_slots slot Z" "sim v slot Z g x y" for slot x y
    by (rule sim_vr [OF assms(1-3) ok(1) n'(1) free ok(2) _ that(2)]) (use that(1) assms(3) in \<open>simp_all add: good_slots_def\<close>)
  then have "follows isem v Z sched g g [instr_at s i] [Native n']" for sched
    unfolding follows_def exec_simps n by blast
  moreover have "Vr v \<notin> instr_locs (Native n')" using n'(2) free(1) by (auto simp: sw_def split: if_splits)
  moreover have "replace_vr v i (NthArchGPR g) s = Some (s\<lparr>instr_at := (instr_at s)(i := Native n')\<rparr>)"
    using n n'(1) by (simp add: replace_vr_def native_at_def)
  ultimately show ?thesis using True by (intro that [of "Native n'"]) simp_all
next
  case False
  have "cpu_frame isem" using assms(1) by (simp add: cpu_ok_def)
  then have "follows isem v Z sched g g [instr_at s i] [instr_at s i]" for sched
    by (rule follows_plain) (use assms(3-6) False in \<open>auto simp: use_ok_def instr_ok_def\<close>)
  then show ?thesis using False by (intro that [of "instr_at s i"]) simp_all
qed

section \<open>The loop\<close>

text \<open>The state when the instructions \<open>rem\<close>, in reverse order, are still to be visited: \<open>P\<close> are
  annotations that use no register, \<open>R\<close> is the scheduled code for the original \<open>Ro\<close>.\<close>

definition sched_inv ::
    "(Instruction \<Rightarrow> ('v, 'r) machine \<Rightarrow> ('v, 'r) machine) \<Rightarrow> nat \<Rightarrow> nat set \<Rightarrow> nat \<Rightarrow> nat \<Rightarrow> frag_state \<Rightarrow> RegisterScheduler \<Rightarrow>
     nat list \<Rightarrow> nat list \<Rightarrow> nat list \<Rightarrow> nat list \<Rightarrow> nat \<Rightarrow> sched_state \<Rightarrow> bool" where
  "sched_inv isem v Z a p s0 sched0 rem P R Ro h L \<longleftrightarrow>
     f_instrs (frag_at s0 a) = rev rem @ P @ Ro \<and> f_instrs (frag_at (ss_frags L) a) = rev rem @ P @ R \<and>
     distinct (rem @ P @ R) \<and> set Ro \<subseteq> set R \<and> (\<forall>j \<in> set (rem @ P @ R). j < next_instr (ss_frags L)) \<and>
     (\<forall>j \<in> set (rem @ P). instr_at (ss_frags L) j = instr_at s0 j) \<and> (\<forall>j \<in> set P. instr_locs (instr_at s0 j) = {}) \<and>
     (\<forall>j \<in> set Ro. Vr v \<notin> instr_locs (instr_at (ss_frags L) j)) \<and>
     vr_home L = NthArchGPR h \<and> h < NUM_GENERAL_PURPOSE_REGISTERS \<and>
     sched_ok (ss_sched L) \<and> counts_ok (ss_sched L) \<and> sched_extends sched0 (ss_sched L) \<and>
     first_vr_instr L = (if R = [] then None else Some (hd R)) \<and> (R = [] \<longrightarrow> h = p \<and> Ro = []) \<and>
     parts (ss_frags L) = parts s0 \<and>
     follows isem v Z (ss_sched L) h p (map (instr_at s0) Ro) (map (instr_at (ss_frags L)) R)"

lemma counts_ok_extends: "counts_ok sched \<Longrightarrow> sched_extends sched sched' \<Longrightarrow> counts_ok sched'"
  by (simp add: counts_ok_def sched_extends_def)

text \<open>An instruction that needs a place.\<close>

lemma sched_inv_place:
  assumes inv: "sched_inv isem v Z a p s0 sched0 (i # rem) P R Ro h L" and "cpu_frame isem"
    and m: "home_moved isem v Z a i h (L\<lparr>first_vr_instr := Some i\<rparr>) g L1"
    and f: "\<And>sched. follows isem v Z sched g g [instr_at s0 i] [i']" and "Vr v \<notin> instr_locs i'"
  shows "\<exists>R'. sched_inv isem v Z a p s0 sched0 rem [] R' (i # P @ Ro) g
    (L1\<lparr>ss_frags := (ss_frags L1)\<lparr>instr_at := (instr_at (ss_frags L1))(i := i')\<rparr>, vr_is_used_in_later_instr := b\<rparr>)"
proof -
  have I: "f_instrs (frag_at s0 a) = rev rem @ i # P @ Ro" "f_instrs (frag_at (ss_frags L) a) = rev rem @ i # P @ R"
    "distinct (rem @ i # P @ R)" "set Ro \<subseteq> set R" "\<forall>j \<in> set (rem @ i # P @ R). j < next_instr (ss_frags L)"
    "\<forall>j \<in> set (rem @ i # P). instr_at (ss_frags L) j = instr_at s0 j" "\<forall>j \<in> set P. instr_locs (instr_at s0 j) = {}"
    "\<forall>j \<in> set Ro. Vr v \<notin> instr_locs (instr_at (ss_frags L) j)"
    "h < NUM_GENERAL_PURPOSE_REGISTERS" "counts_ok (ss_sched L)" "sched_extends sched0 (ss_sched L)" "parts (ss_frags L) = parts s0"
    "follows isem v Z (ss_sched L) h p (map (instr_at s0) Ro) (map (instr_at (ss_frags L)) R)"
    using inv by (auto simp: sched_inv_def)
  obtain "is" where M: "g < NUM_GENERAL_PURPOSE_REGISTERS" "vr_home L1 = NthArchGPR g" "sched_ok (ss_sched L1)"
    "sched_extends (ss_sched L) (ss_sched L1)" "first_vr_instr L1 = Some i" "inserts a i is (ss_frags L) (ss_frags L1)"
    "follows isem v Z (ss_sched L1) g h [] is"
    using m by (auto simp: home_moved_def)
  obtain new where N: "map (instr_at (ss_frags L1)) new = is" "distinct new"
    "set new \<subseteq> {next_instr (ss_frags L)..<next_instr (ss_frags L1)}"
    "f_instrs (frag_at (ss_frags L1) a) = rev rem @ i # new @ P @ R"
    "\<forall>j < next_instr (ss_frags L). instr_at (ss_frags L1) j = instr_at (ss_frags L) j"
    "next_instr (ss_frags L) \<le> next_instr (ss_frags L1)" "parts (ss_frags L1) = parts (ss_frags L)"
    using M(6) I(2,3) by (auto simp: inserts_def)
  let ?at = "(instr_at (ss_frags L1))(i := i')"
  have fresh: "j \<in> set new \<Longrightarrow> j \<notin> set (rem @ i # P @ R)" for j
    using subsetD [OF N(3), of j] I(5) by (meson atLeastLessThan_iff not_less)
  have old: "?at j = instr_at (ss_frags L) j" if "j \<in> set (rem @ P @ R)" for j
    using that N(5) I(3,5) by (auto split: if_splits)
  have at_new: "map ?at new = is" using N(1) fresh by (auto intro!: map_cong [OF refl])
  have at_P: "map ?at P = map (instr_at s0) P" using old I(6) by simp
  have at_R: "map ?at R = map (instr_at (ss_frags L)) R" using old by simp
  have "follows isem v Z (ss_sched L1) h h (map (instr_at s0) P) (map (instr_at s0) P)"
    by (rule follows_trivial [OF assms(2) I(9)]) (use I(7) in auto)
  from follows_append [OF f follows_append [OF M(7) follows_append [OF this follows_extends [OF I(13) M(4)]]]]
  have "follows isem v Z (ss_sched L1) g p (map (instr_at s0) (i # P @ Ro)) (map ?at (i # new @ P @ R))"
    by (simp add: at_new at_P at_R)
  moreover have "distinct (rem @ [] @ i # new @ P @ R)" using I(3) N(2) fresh by auto
  moreover have "Vr v \<notin> instr_locs (?at j)" if "j \<in> set (i # P @ Ro)" for j
    using that assms(5) old [of j] I(4,6,7,8) by (auto split: if_splits)
  moreover have "\<forall>j \<in> set (rem @ [] @ i # new @ P @ R). j < next_instr (ss_frags L1)"
    using I(5) N(6) subsetD [OF N(3)] by (auto intro: less_le_trans)
  moreover have "set (i # P @ Ro) \<subseteq> set (i # new @ P @ R)" "\<forall>j \<in> set (rem @ []). ?at j = instr_at s0 j"
    using I(4,6) old by auto
  ultimately show ?thesis
    using I(1,12) M(1-5) N(4,7) counts_ok_extends [OF I(10) M(4)] sched_extends_trans [OF I(11) M(4)]
    unfolding sched_inv_def by (intro exI [of _ "i # new @ P @ R"]) (simp del: set_append list.set(2) fun_upd_apply)
qed

lemma sched_gpr_instr_ok:
  assumes "cpu_ok isem B" "v < 65536" "p < NUM_GENERAL_PURPOSE_REGISTERS" "instr_ok v Z (instr_at s0 i)"
    and inv: "sched_inv isem v Z a p s0 sched0 (i # rem) P R Ro h L"
  shows "\<exists>L' P R Ro h. sched_gpr_instr B a v (NthArchGPR p) i L = Some L' \<and> sched_inv isem v Z a p s0 sched0 rem P R Ro h L'"
proof -
  have frame: "cpu_frame isem" using assms(1) by (simp add: cpu_ok_def)
  have at: "instr_at (ss_frags L) i = instr_at s0 i" and home: "vr_home L = NthArchGPR h" "h < NUM_GENERAL_PURPOSE_REGISTERS"
    and sched: "sched_ok (ss_sched L)" "counts_ok (ss_sched L)" and lt: "i < next_instr (ss_frags L)"
    using inv by (simp_all add: sched_inv_def)
  have num: "Number (NthArchGPR h) = h" using home(2) by (simp add: NUM_GENERAL_PURPOSE_REGISTERS_def)
  obtain u first where u: "instr_use (ss_frags L) v i = Some (u, Vr v \<in> instr_locs (instr_at s0 i), first)"
    "use_ok v (instr_at s0 i) u first"
    using instr_use_ok [of v Z "ss_frags L" i] assms(4) at by auto
  have live: "IsLive u (Number (vr_home L)) = Some (h \<in> live_regs u)" using IsLive_regs(1) home num by simp
  show ?thesis
  proof (cases first)
    case False
    then have e: "instr_locs (instr_at s0 i) = {}" "live_regs u = {}" using u(2) by (simp_all add: use_ok_def)
    then have "sched_gpr_instr B a v (NthArchGPR p) i L = Some L"
      using u(1) live False by (simp add: sched_gpr_instr_def note_first_def)
    moreover have "sched_inv isem v Z a p s0 sched0 rem (i # P) R Ro h L" using inv e(1) by (auto simp: sched_inv_def)
    ultimately show ?thesis by blast
  next
    case True
    let ?L = "L\<lparr>first_vr_instr := Some i\<rparr>"
    obtain L1 g where L1: "(if h \<in> live_regs u then rehome B a (NthArchGPR p) u i ?L else Some ?L) = Some L1"
      "home_moved isem v Z a i h ?L g L1" "g \<notin> live_regs u"
    proof (cases "h \<in> live_regs u")
      case True
      obtain L1 g where "rehome B a (NthArchGPR p) u i ?L = Some L1" "home_moved isem v Z a i h ?L g L1" "g \<notin> live_regs u"
        by (rule rehome_ok [OF assms(1) _ _ u(2) _ home(2) assms(3) True, of ?L]) (use home sched in simp_all)
      then show ?thesis using True by (intro that) simp_all
    next
      case False
      moreover have "home_moved isem v Z a i h ?L h ?L"
        using home sched inserts_Nil [of a i "ss_frags L"] follows_Nil [of isem v Z "ss_sched L" h]
        unfolding home_moved_def sched_extends_def by fastforce
      ultimately show ?thesis by (intro that) simp_all
    qed
    have g: "g < NUM_GENERAL_PURPOSE_REGISTERS" "vr_home L1 = NthArchGPR g" using L1(2) by (simp_all add: home_moved_def)
    have at1: "instr_at (ss_frags L1) i = instr_at s0 i" using L1(2) lt at by (auto simp: home_moved_def inserts_def)
    obtain i' where i': "(if Vr v \<in> instr_locs (instr_at s0 i) then replace_vr v i (NthArchGPR g) (ss_frags L1) else Some (ss_frags L1)) =
        Some ((ss_frags L1)\<lparr>instr_at := (instr_at (ss_frags L1))(i := i')\<rparr>)"
      "\<And>sched. follows isem v Z sched g g [instr_at s0 i] [i']" "Vr v \<notin> instr_locs i'"
      using replace_ok [OF assms(1,2) g(1), of Z "ss_frags L1" i u first] assms(4) u(2) L1(3) unfolding at1 by blast
    let ?b = "Vr v \<in> instr_locs (instr_at s0 i) \<or> vr_is_used_in_later_instr L1"
    let ?L' = "L1\<lparr>ss_frags := (ss_frags L1)\<lparr>instr_at := (instr_at (ss_frags L1))(i := i')\<rparr>, vr_is_used_in_later_instr := ?b\<rparr>"
    have "sched_gpr_instr B a v (NthArchGPR p) i L = Some ?L'"
      using u(1) live True L1(1) g(2) i'(1) by (auto simp: sched_gpr_instr_def note_first_def split: if_splits)
    then show ?thesis using sched_inv_place [OF inv frame L1(2) i'(2,3)] by blast
  qed
qed

lemma sched_loop_ok:
  assumes "cpu_ok isem B" "v < 65536" "p < NUM_GENERAL_PURPOSE_REGISTERS"
  shows "\<forall>j \<in> set rem. instr_ok v Z (instr_at s0 j) \<Longrightarrow> sched_inv isem v Z a p s0 sched0 rem P R Ro h L \<Longrightarrow>
    \<exists>L' P R Ro h. opt_fold (sched_gpr_instr B a v (NthArchGPR p)) rem L = Some L' \<and> sched_inv isem v Z a p s0 sched0 [] P R Ro h L'"
proof (induction rem arbitrary: P R Ro h L)
  case (Cons i rem)
  then have "instr_ok v Z (instr_at s0 i)" by simp
  from sched_gpr_instr_ok [OF assms this Cons.prems(2)] Cons.IH Cons.prems(1) show ?case by fastforce
qed auto

section \<open>The code in front\<close>

text \<open>The start of the live range: the register has whatever value its first home had.\<close>

definition starts ::
    "(Instruction \<Rightarrow> ('v, 'r) machine \<Rightarrow> ('v, 'r) machine) \<Rightarrow> nat \<Rightarrow> nat set \<Rightarrow> RegisterScheduler \<Rightarrow> nat \<Rightarrow>
     Instruction list \<Rightarrow> Instruction list \<Rightarrow> bool" where
  "starts isem v Z sched p is js \<longleftrightarrow> (\<forall>slot. slots_agree slot sched \<and> good_slots slot Z \<longrightarrow>
     (\<forall>x y. sim_free v Z x y \<longrightarrow> (\<exists>w. sim v slot Z p (exec isem is ((fst x)(Vr v := w), snd x)) (exec isem js y))))"

lemma exec_trivial:
  assumes "cpu_frame isem"
  shows "\<forall>i \<in> set is. instr_locs i = {} \<Longrightarrow> \<exists>k. \<forall>f r. exec isem is (f, r) = (f, k r)"
proof (induction "is")
  case (Cons i "is")
  then obtain k where k: "\<forall>f r. exec isem is (f, r) = (f, k r)" by auto
  have e: "instr_locs i = {}" using Cons.prems by simp
  have "isem i (f, r) = (f, snd (isem i (undefined, r)))" for f r
    using frame_keeps [OF assms, of _ i "(f, r)"] frame_agree(1) [OF assms, of i "(f, r)" "(undefined, r)"]
    by (simp add: prod_eq_iff fun_eq_iff e)
  then show ?case using k by (intro exI [of _ "\<lambda>r. k (snd (isem i (undefined, r)))"]) (metis exec_simps(2))
qed auto

lemma starts_save:
  assumes "cpu_ok isem B" "h < NUM_GENERAL_PURPOSE_REGISTERS" "h \<in> has_slots sched" "\<forall>i \<in> set is. instr_locs i = {}"
    and "SaveGPRToSlot B (NthArchGPR h) (slot_register (slot_for_gpr sched ! h)) = Some i"
  shows "starts isem v Z sched h is (is @ [i])"
proof -
  have cpu: "cpu_frame isem" "cpu_moves isem B" using assms(1) by (simp_all add: cpu_ok_def)
  obtain k where k: "exec isem is (f, r) = (f, k r)" for f r using exec_trivial [OF cpu(1) assms(4)] by blast
  have "sim v slot Z h (exec isem is ((fst x)(Vr v := fst x (Gpr h)), snd x)) (exec isem (is @ [i]) y)"
    if s: "slots_agree slot sched" "good_slots slot Z" "sim_free v Z x y" for slot x y
  proof -
    have i: "SaveGPRToSlot B (NthArchGPR h) (slot_register (slot h)) = Some i"
      using assms(3,5) s(1) by (simp add: slots_agree_def)
    have "sim_free v Z (fst x, k (snd x)) (fst y, k (snd y))" using s(3) by (simp add: sim_free_def)
    from sim_first_home [OF cpu(2) assms(2) s(2) i this] show ?thesis
      using k [of "fst y" "snd y"] by (simp add: k)
  qed
  then show ?thesis unfolding starts_def by blast
qed

lemma starts_follows:
  assumes "starts isem v Z sched h is js" "follows isem v Z sched h p is' js'"
  shows "starts isem v Z sched p (is @ is') (js @ js')"
  using assms(1) follows_sim [OF assms(2)] unfolding starts_def exec_simps(3) by blast

lemma starts_label: "cpu_frame isem \<Longrightarrow> starts isem v Z sched p is js \<Longrightarrow> starts isem v Z sched p is (LabelInstruction # js)"
  by (simp add: starts_def cpu_frame_def)

lemma follows_label:
  "cpu_frame isem \<Longrightarrow> follows isem v Z sched h p is js \<Longrightarrow> follows isem v Z sched h p is (LabelInstruction # js)"
  by (simp add: follows_def cpu_frame_def)

lemma Previous_append: "distinct (xs @ y # zs) \<Longrightarrow> Previous (xs @ y # zs) y = (if xs = [] then None else Some (last xs))"
proof (induction xs)
  case Nil
  have "distinct (y # zs) \<Longrightarrow> Previous (y # zs) y = None"
    by (induction zs) (auto elim: Previous.elims)
  then show ?case using Nil by simp
next
  case (Cons x xs)
  then show ?case by (cases xs) auto
qed

text \<open>Where the code in front goes: behind the leading annotations, or behind a new label.\<close>

lemma AddSchedLabel_ok:
  assumes "f_instrs (frag_at s a) = P @ R" "distinct (P @ R)" "\<forall>j \<in> set (P @ R). j < next_instr s"
  obtains j s' A C where "AddSchedLabel a (if R = [] then None else Some (hd R)) s = (j, s')"
    "f_instrs (frag_at s' a) = A @ j # C" "distinct (A @ j # C)" "\<forall>x \<in> set (A @ j # C). x < next_instr s'"
    "\<forall>x < next_instr s. instr_at s' x = instr_at s x"
    "A @ [j] = P \<and> C = R \<or> A = [] \<and> instr_at s' j = LabelInstruction \<and> C = P @ R \<and> (R = [] \<or> P = [])"
proof (cases R)
  case Nil
  show ?thesis
    by (rule that [of "next_instr s" "Prepend a LabelInstruction s" "[]" P])
      (use assms Nil in \<open>auto simp: AddSchedLabel_def Prepend_def frag_at_upd_frag\<close>)
next
  case (Cons r R')
  show ?thesis
  proof (cases "P = []")
    case True
    have "Previous (r # R') r = None" using Previous_append [of "[]" r R'] assms(2) Cons by simp
    then show ?thesis
      by (intro that [of "next_instr s" "InsertBefore a r LabelInstruction s" "[]" R])
        (use assms Cons True in \<open>auto simp: AddSchedLabel_def InsertBefore_def frag_at_upd_frag\<close>)
  next
    case False
    then obtain A j where P: "P = A @ [j]" by (metis rev_exhaust)
    have "Previous (P @ r # R') r = Some j" using Previous_append [of P r R'] assms(2) Cons P by simp
    then show ?thesis by (intro that [of j s A R]) (use assms Cons P in \<open>simp_all add: AddSchedLabel_def\<close>)
  qed
qed

definition frag_code :: "frag_state \<Rightarrow> nat \<Rightarrow> Instruction list" where
  "frag_code s a = map (instr_at s) (f_instrs (frag_at s a))"

lemma front_code:
  assumes "f_instrs (frag_at s a) = P @ R" "distinct (P @ R)" "\<forall>j \<in> set (P @ R). j < next_instr s"
    and "AddSchedLabel a (if R = [] then None else Some (hd R)) s = (j, s')" "inserts a j is s' s''"
  shows "frag_code s'' a = map (instr_at s) P @ is @ map (instr_at s) R \<or>
      frag_code s'' a = LabelInstruction # is @ map (instr_at s) P @ map (instr_at s) R"
    and "\<forall>x \<in> set (P @ R). instr_at s'' x = instr_at s x"
proof -
  obtain A C where L: "f_instrs (frag_at s' a) = A @ j # C" "distinct (A @ j # C)" "\<forall>x \<in> set (A @ j # C). x < next_instr s'"
    "\<forall>x < next_instr s. instr_at s' x = instr_at s x"
    "A @ [j] = P \<and> C = R \<or> A = [] \<and> instr_at s' j = LabelInstruction \<and> C = P @ R \<and> (R = [] \<or> P = [])"
  proof (rule AddSchedLabel_ok [OF assms(1-3)], goal_cases)
    case (1 j2 s2 A C)
    then have "j2 = j" "s2 = s'" using assms(4) by simp_all
    with 1 show ?case by blast
  qed
  obtain new where N: "map (instr_at s'') new = is" "f_instrs (frag_at s'' a) = A @ j # new @ C"
    "\<forall>x < next_instr s'. instr_at s'' x = instr_at s' x"
    using assms(5) L(1,2) by (auto simp: inserts_def)
  have at': "\<forall>x \<in> set (A @ j # C). instr_at s'' x = instr_at s' x" using L(3) N(3) by blast
  have PR: "set P \<subseteq> set (A @ j # C)" "set R \<subseteq> set (A @ j # C)" using L(5) by auto
  show at: "\<forall>x \<in> set (P @ R). instr_at s'' x = instr_at s x"
  proof
    fix x assume x: "x \<in> set (P @ R)"
    then have "instr_at s' x = instr_at s x" using assms(3) L(4) by blast
    then show "instr_at s'' x = instr_at s x" using at' PR x by auto
  qed
  then have m: "map (instr_at s'') P = map (instr_at s) P" "map (instr_at s'') R = map (instr_at s) R" by simp_all
  show "frag_code s'' a = map (instr_at s) P @ is @ map (instr_at s) R \<or>
      frag_code s'' a = LabelInstruction # is @ map (instr_at s) P @ map (instr_at s) R"
    using L(5)
  proof
    assume l: "A @ [j] = P \<and> C = R"
    then have "frag_code s'' a = map (instr_at s'') P @ is @ map (instr_at s'') R"
      using N(1,2) by (auto simp: frag_code_def)
    then show ?thesis by (simp add: m)
  next
    assume l: "A = [] \<and> instr_at s' j = LabelInstruction \<and> C = P @ R \<and> (R = [] \<or> P = [])"
    moreover have "instr_at s'' j = instr_at s' j" using at' by simp
    ultimately have "frag_code s'' a = LabelInstruction # is @ map (instr_at s'') P @ map (instr_at s'') R"
      using N(1,2) by (simp add: frag_code_def)
    then show ?thesis by (simp add: m)
  qed
qed

lemma mark_used_ok:
  assumes "parts (ss_frags L) = parts s0" "Value (parts s0) a = Some (ps, Some q)"
  obtains s where "mark_used a L = Some s" "frag_at s = frag_at (ss_frags L)" "instr_at s = instr_at (ss_frags L)"
    "next_instr s = next_instr (ss_frags L)"
  using assms that [of "ss_frags L"]
  by (cases "vr_is_used_in_later_instr L") (auto simp: mark_used_def MarkPartitionAsUsingVRs_def)

section \<open>A fragment\<close>

definition fragment_ok :: "nat \<Rightarrow> nat set \<Rightarrow> frag_state \<Rightarrow> nat \<Rightarrow> bool" where
  "fragment_ok v Z s a \<longleftrightarrow> distinct (f_instrs (frag_at s a)) \<and>
     list_all (\<lambda>j. j < next_instr s \<and> instr_ok v Z (instr_at s j)) (f_instrs (frag_at s a)) \<and>
     v \<in> exit_regs (frag_at s a) \<and> (\<exists>ps q. Value (parts s) a = Some (ps, Some q))"

text \<open>What scheduling \<open>v\<close> in a fragment gives: no instruction that was there names \<open>v\<close>, and the new
  code follows the old one with the preferred register as the home at both ends, or starts to.\<close>

definition scheduled ::
    "(Instruction \<Rightarrow> ('v, 'r) machine \<Rightarrow> ('v, 'r) machine) \<Rightarrow> nat \<Rightarrow> nat set \<Rightarrow> nat \<Rightarrow> nat \<Rightarrow> frag_state \<Rightarrow>
     RegisterScheduler \<Rightarrow> frag_state \<Rightarrow> bool" where
  "scheduled isem v Z a p s sched' s' \<longleftrightarrow>
     (\<forall>j \<in> set (f_instrs (frag_at s a)). Vr v \<notin> instr_locs (instr_at s' j)) \<and>
     (if v \<in> entry_regs (frag_at s a) then follows isem v Z sched' p p (frag_code s a) (frag_code s' a)
      else starts isem v Z sched' p (frag_code s a) (frag_code s' a))"

lemma scheduled_front:
  assumes "cpu_frame isem" and inv: "sched_inv isem v Z a p s0 sched0 [] P R Ro h L" and "p < NUM_GENERAL_PURPOSE_REGISTERS"
    and s: "frag_at s = frag_at (ss_frags L)" "instr_at s = instr_at (ss_frags L)" "next_instr s = next_instr (ss_frags L)"
    and ins: "AddSchedLabel a (first_vr_instr L) s = (j, s1)" "inserts a j is s1 s2" and ext: "sched_extends (ss_sched L) sched'"
    and front: "\<And>t. \<forall>i \<in> set t. instr_locs i = {} \<Longrightarrow>
      if v \<in> entry_regs (frag_at s0 a) then follows isem v Z sched' p h t (t @ is) else starts isem v Z sched' h t (t @ is)"
  shows "scheduled isem v Z a p s0 sched' s2"
proof -
  have I: "f_instrs (frag_at s0 a) = P @ Ro" "f_instrs (frag_at (ss_frags L) a) = P @ R" "distinct (P @ R)" "set Ro \<subseteq> set R"
    "\<forall>j \<in> set (P @ R). j < next_instr (ss_frags L)" "\<forall>j \<in> set P. instr_at (ss_frags L) j = instr_at s0 j"
    "\<forall>j \<in> set P. instr_locs (instr_at s0 j) = {}" "\<forall>j \<in> set Ro. Vr v \<notin> instr_locs (instr_at (ss_frags L) j)"
    "h < NUM_GENERAL_PURPOSE_REGISTERS" "first_vr_instr L = (if R = [] then None else Some (hd R))"
    "follows isem v Z (ss_sched L) h p (map (instr_at s0) Ro) (map (instr_at (ss_frags L)) R)"
    using inv by (simp_all add: sched_inv_def)
  let ?P = "map (instr_at s0) P" and ?R = "map (instr_at (ss_frags L)) R" and ?Ro = "map (instr_at s0) Ro"
  have mP: "map (instr_at s) P = ?P" using I(6) s(2) by simp
  have c: "frag_code s2 a = ?P @ is @ ?R \<or> frag_code s2 a = LabelInstruction # is @ ?P @ ?R"
    and at: "\<forall>x \<in> set (P @ R). instr_at s2 x = instr_at (ss_frags L) x"
    using front_code [of s a P R j s1 "is" s2] I(2,3,5,10) s ins unfolding mP by simp_all
  have names: "\<forall>j \<in> set (f_instrs (frag_at s0 a)). Vr v \<notin> instr_locs (instr_at s2 j)"
    using at I(1,4,6-8) by (auto simp: subset_iff)
  have e: "\<forall>i \<in> set ?P. instr_locs i = {}" using I(7) by auto
  have R: "follows isem v Z sched' h p ?Ro ?R" by (rule follows_extends [OF I(11) ext])
  have P: "follows isem v Z sched' h h ?P ?P" by (rule follows_trivial [OF assms(1) I(9) e])
  have F1: "if v \<in> entry_regs (frag_at s0 a) then follows isem v Z sched' p p (?P @ ?Ro) ((?P @ is) @ ?R)
      else starts isem v Z sched' p (?P @ ?Ro) ((?P @ is) @ ?R)"
    using front [OF e] by (auto simp del: append_assoc split: if_splits intro: follows_append [OF _ R] starts_follows [OF _ R])
  have "if v \<in> entry_regs (frag_at s0 a) then follows isem v Z sched' p p ([] @ ?P @ ?Ro) (([] @ is) @ ?P @ ?R)
      else starts isem v Z sched' p ([] @ ?P @ ?Ro) (([] @ is) @ ?P @ ?R)"
    using front [of "[]"] follows_append [OF P R]
    by (auto simp del: append_assoc append_Nil split: if_splits intro: follows_append starts_follows)
  then have F2: "if v \<in> entry_regs (frag_at s0 a) then follows isem v Z sched' p p (?P @ ?Ro) (LabelInstruction # is @ ?P @ ?R)
      else starts isem v Z sched' p (?P @ ?Ro) (LabelInstruction # is @ ?P @ ?R)"
    using follows_label [OF assms(1)] starts_label [OF assms(1)] by (simp split: if_splits)
  have "frag_code s0 a = ?P @ ?Ro" using I(1) by (simp add: frag_code_def)
  then show ?thesis using c F1 F2 names by (auto simp: scheduled_def)
qed

lemma front_change:
  assumes "cpu_ok isem B" and inv: "sched_inv isem v Z a p s0 sched0 [] P R Ro h L" and "p < NUM_GENERAL_PURPOSE_REGISTERS" "h \<noteq> p"
    and s: "frag_at s = frag_at (ss_frags L)" "instr_at s = instr_at (ss_frags L)" "next_instr s = next_instr (ss_frags L)"
    and "v \<in> entry_regs (frag_at s0 a)" "AddSchedLabel a (first_vr_instr L) s = (j, s1)"
  obtains sched' s' where "ChangeVRHome B a j (vr_home L) (NthArchGPR p) (ss_sched L, s1) = Some (sched', s')"
    "sched_ok sched'" "sched_extends sched0 sched'" "scheduled isem v Z a p s0 sched' s'"
proof -
  have frame: "cpu_frame isem" using assms(1) by (simp add: cpu_ok_def)
  have I: "vr_home L = NthArchGPR h" "h < NUM_GENERAL_PURPOSE_REGISTERS" "sched_ok (ss_sched L)" "sched_extends sched0 (ss_sched L)"
    using inv by (simp_all add: sched_inv_def)
  obtain sched' s' "is" where c: "ChangeVRHome B a j (NthArchGPR h) (NthArchGPR p) (ss_sched L, s1) = Some (sched', s')"
    "sched_ok sched'" "sched_extends (ss_sched L) sched'" "inserts a j is s1 s'" "follows isem v Z sched' p h [] is"
    by (rule change_follows [OF assms(1,3) I(2) assms(4) [symmetric] I(3)])
  have "follows isem v Z sched' p h t (t @ is)" if "\<forall>i \<in> set t. instr_locs i = {}" for t
    using follows_append [OF follows_trivial [OF frame assms(3) that] c(5)] by simp
  then have "scheduled isem v Z a p s0 sched' s'"
    using assms(8) by (intro scheduled_front [OF frame inv assms(3) s assms(9) c(4,3)]) simp
  with c(1,2) sched_extends_trans [OF I(4) c(3)] show ?thesis unfolding I(1) [symmetric] by (rule that)
qed

lemma front_save:
  assumes "cpu_ok isem B" and inv: "sched_inv isem v Z a p s0 sched0 [] P R Ro h L" and "p < NUM_GENERAL_PURPOSE_REGISTERS"
    and s: "frag_at s = frag_at (ss_frags L)" "instr_at s = instr_at (ss_frags L)" "next_instr s = next_instr (ss_frags L)"
    and "v \<notin> entry_regs (frag_at s0 a)" "AddSchedLabel a (first_vr_instr L) s = (j, s1)"
  obtains sched' s' where "insert_slot_move (SaveGPRToSlot B) a j (vr_home L) (ss_sched L, s1) = Some (sched', s')"
    "sched_ok sched'" "sched_extends sched0 sched'" "scheduled isem v Z a p s0 sched' s'"
proof -
  have frame: "cpu_frame isem" using assms(1) by (simp add: cpu_ok_def)
  have I: "vr_home L = NthArchGPR h" "h < NUM_GENERAL_PURPOSE_REGISTERS" "sched_ok (ss_sched L)" "sched_extends sched0 (ss_sched L)"
    using inv by (simp_all add: sched_inv_def)
  let ?i = "\<lambda>k. the (SaveGPRToSlot B (NthArchGPR h) (slot_register k))"
  obtain sched' where c: "insert_slot_move (SaveGPRToSlot B) a j (NthArchGPR h) (ss_sched L, s1) =
      Some (sched', InsertAfter a j (?i (slot_for_gpr sched' ! h)) s1)"
    "sched_ok sched'" "sched_extends (ss_sched L) sched'" "h \<in> has_slots sched'"
    using insert_slot_move_ok [OF I(3,2), of "SaveGPRToSlot B" a j s1] moves_total(1) by blast
  obtain i where i: "SaveGPRToSlot B (NthArchGPR h) (slot_register (slot_for_gpr sched' ! h)) = Some i"
    using moves_total(1) by blast
  have ins: "inserts a j [i] s1 (InsertAfter a j i s1)" by (rule inserts_Cons [OF inserts_Nil])
  have "starts isem v Z sched' h t (t @ [i])" if "\<forall>i \<in> set t. instr_locs i = {}" for t
    by (rule starts_save [OF assms(1) I(2) c(4) that i])
  then have "scheduled isem v Z a p s0 sched' (InsertAfter a j i s1)"
    using assms(7) by (intro scheduled_front [OF frame inv assms(3) s assms(8) ins c(3)]) simp
  moreover have "insert_slot_move (SaveGPRToSlot B) a j (vr_home L) (ss_sched L, s1) = Some (sched', InsertAfter a j i s1)"
    using c(1) i I(1) by simp
  ultimately show ?thesis using c(2) sched_extends_trans [OF I(4) c(3)] by (intro that)
qed

lemma scheduled_same:
  assumes "cpu_frame isem" and inv: "sched_inv isem v Z a p s0 sched0 [] P R Ro p L" and "p < NUM_GENERAL_PURPOSE_REGISTERS"
    and s: "frag_at s = frag_at (ss_frags L)" "instr_at s = instr_at (ss_frags L)" and "v \<in> entry_regs (frag_at s0 a)"
  shows "scheduled isem v Z a p s0 (ss_sched L) s"
proof -
  have I: "f_instrs (frag_at s0 a) = P @ Ro" "f_instrs (frag_at (ss_frags L) a) = P @ R"
    "\<forall>j \<in> set P. instr_at (ss_frags L) j = instr_at s0 j" "\<forall>j \<in> set P. instr_locs (instr_at s0 j) = {}"
    "\<forall>j \<in> set Ro. Vr v \<notin> instr_locs (instr_at (ss_frags L) j)"
    "follows isem v Z (ss_sched L) p p (map (instr_at s0) Ro) (map (instr_at (ss_frags L)) R)"
    using inv by (simp_all add: sched_inv_def)
  have "follows isem v Z (ss_sched L) p p (map (instr_at s0) P) (map (instr_at s0) P)"
    by (rule follows_trivial [OF assms(1,3)]) (use I(4) in auto)
  from follows_append [OF this I(6)] I(1-5) s assms(6) show ?thesis
    by (auto simp: scheduled_def frag_code_def cong: map_cong)
qed

lemma ScheduleRegisters_gpr_ok:
  assumes "cpu_ok isem B" "v < 65536" "p < NUM_GENERAL_PURPOSE_REGISTERS" "sched_ok sched" "counts_ok (ResetLocal s a sched)"
    and "fragment_ok v Z s a"
  shows "\<exists>sched' s'. ScheduleRegisters_gpr B v (NthArchGPR p) a (sched, s) = Some (sched', s') \<and> sched_ok sched' \<and>
    sched_extends (ResetLocal s a sched) sched' \<and> scheduled isem v Z a p s sched' s'"
proof -
  have frame: "cpu_frame isem" using assms(1) by (simp add: cpu_ok_def)
  obtain ps q where F: "distinct (f_instrs (frag_at s a))" "\<forall>j \<in> set (f_instrs (frag_at s a)). j < next_instr s"
    "\<forall>j \<in> set (rev (f_instrs (frag_at s a))). instr_ok v Z (instr_at s j)" "v \<in> exit_regs (frag_at s a)"
    "Value (parts s) a = Some (ps, Some q)"
    using assms(6) by (auto simp: fragment_ok_def list_all_iff)
  let ?c = "ResetLocal s a sched" and ?rem = "rev (f_instrs (frag_at s a))"
  let ?L = "\<lparr>ss_sched = ?c, ss_frags = s, vr_home = NthArchGPR p, vr_is_used_in_later_instr = False, first_vr_instr = None\<rparr>"
  have "sched_inv isem v Z a p s ?c ?rem [] [] [] p ?L"
    using assms(3-5) F(1,2) follows_Nil [of isem v Z ?c p] by (simp add: sched_inv_def sched_extends_def)
  from sched_loop_ok [OF assms(1-3) F(3) this] obtain L P R Ro h where
    L: "opt_fold (sched_gpr_instr B a v (NthArchGPR p)) ?rem ?L = Some L" and inv: "sched_inv isem v Z a p s ?c [] P R Ro h L" by blast
  have I: "parts (ss_frags L) = parts s" "vr_home L = NthArchGPR h" "h < NUM_GENERAL_PURPOSE_REGISTERS" "sched_ok (ss_sched L)"
    "sched_extends ?c (ss_sched L)" using inv by (simp_all add: sched_inv_def)
  obtain s2 where s2: "mark_used a L = Some s2" "frag_at s2 = frag_at (ss_frags L)" "instr_at s2 = instr_at (ss_frags L)"
    "next_instr s2 = next_instr (ss_frags L)" by (rule mark_used_ok [OF I(1) F(5)])
  obtain j s3 where add: "AddSchedLabel a (first_vr_instr L) s2 = (j, s3)" by (metis prod.exhaust)
  have same: "vr_eq (NthArchGPR p) (vr_home L) \<longleftrightarrow> h = p"
    using I(2,3) assms(3) vr_eq_gpr [of p h] by (auto simp: NUM_GENERAL_PURPOSE_REGISTERS_def)
  note run = ScheduleRegisters_gpr_def F(4) L s2(1) add same
  consider (free) "v \<notin> entry_regs (frag_at s a)" | (kept) "v \<in> entry_regs (frag_at s a)" "h = p"
    | (moved) "v \<in> entry_regs (frag_at s a)" "h \<noteq> p" by blast
  then show ?thesis
  proof cases
    case free
    show ?thesis by (rule front_save [OF assms(1) inv assms(3) s2(2-4) free add]) (use free in \<open>simp add: run\<close>)
  next
    case kept
    have "scheduled isem v Z a p s (ss_sched L) s2"
      using scheduled_same [OF frame _ assms(3) s2(2,3) kept(1)] inv kept(2) by blast
    then show ?thesis using kept I(4,5) by (simp add: run)
  next
    case moved
    show ?thesis by (rule front_change [OF assms(1) inv assms(3) moved(2) s2(2-4) moved(1) add]) (use moved in \<open>simp add: run\<close>)
  qed
qed

text \<open>The slots of the registers that have one can be completed by slots for the others.\<close>

lemma slot_map_exists:
  assumes "sched_ok sched" "{..<MAX_NUM_SPILL_SLOTS} \<subseteq> Z"
  shows "\<exists>slot. slots_agree slot sched \<and> good_slots slot Z"
proof -
  let ?H = "has_slots sched" and ?n = "sch_num_slots sched" and ?N = NUM_GENERAL_PURPOSE_REGISTERS
  let ?old = "\<lambda>g. slot_for_gpr sched ! g"
  have S: "\<forall>g \<in> ?H. ?old g < ?n" "inj_on ?old ?H" "?n + (?N - card ?H) \<le> MAX_NUM_SPILL_SLOTS"
    using assms(1) by (simp_all add: sched_ok_def)
  have "card ({..<?N} - ?H) = ?N - card ?H" using has_slots_bound [of sched] by (simp add: card_Diff_subset)
  then have "card ({..<?N} - ?H) \<le> card {?n..<MAX_NUM_SPILL_SLOTS}" using S(3) by simp
  then obtain new where new: "new ` ({..<?N} - ?H) \<subseteq> {?n..<MAX_NUM_SPILL_SLOTS}" "inj_on new ({..<?N} - ?H)"
    using card_le_inj [of "{..<?N} - ?H" "{?n..<MAX_NUM_SPILL_SLOTS}"] by auto
  define slot where "slot g = (if g \<in> ?H then ?old g else new g)" for g
  have old: "slot g < ?n" if "g \<in> ?H" for g using S(1) that by (simp add: slot_def)
  have fresh: "?n \<le> slot g \<and> slot g < MAX_NUM_SPILL_SLOTS" if "g < ?N" "g \<notin> ?H" for g using new(1) that by (auto simp: slot_def)
  have "inj_on slot {..<?N}"
  proof (rule inj_onI)
    fix g h assume gh: "g \<in> {..<?N}" "h \<in> {..<?N}" "slot g = slot h"
    then have "g \<in> ?H \<longleftrightarrow> h \<in> ?H" using old [of g] old [of h] fresh [of g] fresh [of h] by fastforce
    then show "g = h" using gh S(2) new(2) by (auto simp: slot_def inj_on_def split: if_splits)
  qed
  moreover have max: "slot g < MAX_NUM_SPILL_SLOTS" if "g < ?N" for g using old [of g] fresh [of g] that S(3) by fastforce
  moreover have "slot g \<in> Z" if "g < ?N" for g using max [OF that] assms(2) by (simp add: subset_iff)
  ultimately have "good_slots slot Z" by (simp add: good_slots_def)
  moreover have "slots_agree slot sched" by (simp add: slots_agree_def slot_def)
  ultimately show ?thesis by blast
qed

text \<open>C15 Scheduling a virtual register that has a preferred register, in a fragment on whose exit it
  is live and whose instructions name none of the slots \<open>Z\<close> that the scheduling may change, succeeds and keeps the meaning of the
  fragment: for every choice of different slots in \<open>Z\<close> for the registers, among them the slots they have, and with
  the preferred register as the home at the fragment's ends, the new code computes what the old one
  computes; when the register is not live on entry, the new code also makes room for it. Registers
  keep their slots, different registers have different slots, and no instruction names the virtual register any
  more. In a fragment that names no slot, as before the first virtual register is scheduled in it, there is such a
  choice of slots. Where the scheduling of another virtual register left moves to and
  from slots of registers, there is none and nothing is said: registers, not virtual
  registers, own the slots, and the value that is kept there can be overwritten.\<close>

theorem ScheduleRegisters_gpr_simulates:
  assumes "cpu_ok isem B" "v < 65536" "p < NUM_GENERAL_PURPOSE_REGISTERS" "sched_ok sched" "counts_ok (ResetLocal s a sched)"
    and "fragment_ok v Z s a"
  shows "\<exists>sched' s'. ScheduleRegisters_gpr B v (NthArchGPR p) a (sched, s) = Some (sched', s') \<and> sched_ok sched' \<and>
    sched_extends (ResetLocal s a sched) sched' \<and> scheduled isem v Z a p s sched' s' \<and>
    ({..<MAX_NUM_SPILL_SLOTS} \<subseteq> Z \<longrightarrow> (\<exists>slot. slots_agree slot sched' \<and> good_slots slot Z))"
  using ScheduleRegisters_gpr_ok [OF assms] slot_map_exists by blast

section \<open>A processor with moves and exchanges\<close>

definition reg_loc :: "VirtualRegister \<Rightarrow> loc option" where
  "reg_loc r =
     (case vr_kind r of
        kVirtualRegisterKindArchGpr \<Rightarrow> Some (Gpr (Number r))
      | kVirtualRegisterKindVirtualGpr \<Rightarrow> Some (Vr (Number r))
      | kVirtualRegisterKindSlot \<Rightarrow> Some (Slot (Number r))
      | _ \<Rightarrow> None)"

definition op_loc :: "Operand \<Rightarrow> loc option" where
  "op_loc op = (case op_regs op of [r] \<Rightarrow> reg_loc r | _ \<Rightarrow> None)"

definition mov_cpu :: "Instruction \<Rightarrow> (nat, nat) machine \<Rightarrow> (nat, nat) machine" where
  "mov_cpu i = (\<lambda>(f, r).
     case i of
       Native n \<Rightarrow>
         (case map op_loc (ops n) of
            [Some d, Some s] \<Rightarrow>
              if iform n = 1 then (f(d := f s), r)
              else if iform n = 2 then (f(d := f s, s := f d), r)
              else (f, r)
          | _ \<Rightarrow> (f, r))
     | _ \<Rightarrow> (f, r))"

definition operand_of :: "VirtualRegister \<Rightarrow> Operand" where
  "operand_of r = Operand_new\<lparr>op_type := (if IsVirtualSlot r then XED_ENCODER_OPERAND_TYPE_MEM else XED_ENCODER_OPERAND_TYPE_REG),
     op_reg := r, is_explicit := True\<rparr>"

definition mov_instr :: "nat \<Rightarrow> VirtualRegister \<Rightarrow> VirtualRegister \<Rightarrow> NativeInstruction" where
  "mov_instr f d s = (plain_instr f)\<lparr>ops := [operand_of d, operand_of s]\<rparr>"

definition mov_builder :: gpr_builder where
  "mov_builder = \<lparr>mov_mem_gpr = mov_instr 1, mov_gpr_mem = mov_instr 1, xchg_gpr_gpr = mov_instr 2, xchg_mem_gpr = mov_instr 2\<rparr>"

lemma reg_loc_locs: "reg_locs r = set_option (reg_loc r)"
  by (simp add: reg_locs_def reg_loc_def split: VirtualRegisterKind.split)

lemma op_loc_locs: "op_loc op = Some l \<Longrightarrow> l \<in> op_locs op"
  by (auto simp: op_loc_def op_locs_def reg_loc_locs split: list.splits)

lemma mov_cpu_frame: "cpu_frame mov_cpu"
  unfolding cpu_frame_def LabelInstruction_def
  by (auto simp: mov_cpu_def instr_locs_def dest: op_loc_locs split: Instruction.splits list.splits option.splits)

lemma TryReplaceReg_loc:
  assumes "v < 65536" "g < 65536" "Gpr g \<notin> reg_locs r" "TryReplaceReg (vr_register v) (NthArchGPR g) r = Some (r', b)"
  shows "reg_loc r' = map_option (sw v g) (reg_loc r)"
proof (cases "Vr v \<in> reg_locs r")
  case True
  then have "reg_loc r = Some (Vr v)" by (auto simp: reg_loc_locs)
  moreover have "vr_kind r' = kVirtualRegisterKindArchGpr" "Number r' = g"
    using assms(2,4) True vr_eq_vr_register [OF assms(1), of r]
    by (auto simp: TryReplaceReg_def Widen_def Number_def unat_of_nat split: if_splits)
  ultimately show ?thesis by (simp add: reg_loc_def sw_def)
next
  case False
  then have "r' = r" using assms(4) vr_eq_vr_register [OF assms(1), of r] by (auto simp: TryReplaceReg_def)
  then show ?thesis using False assms(3) by (cases "reg_loc r") (auto simp: reg_loc_locs sw_def)
qed

lemma TryReplaceRegInOperand_loc:
  assumes "v < 65536" "g < 65536" "Gpr g \<notin> op_locs op" "TryReplaceRegInOperand (vr_register v) (NthArchGPR g) op = Some (op', b)"
  shows "op_loc op' = map_option (sw v g) (op_loc op)"
proof -
  have *: "reg_loc r' = map_option (sw v g) (reg_loc r)"
    if "TryReplaceReg (vr_register v) (NthArchGPR g) r = Some (r', b)" "r \<in> set (op_regs op)" for r r' b
    using TryReplaceReg_loc [OF assms(1,2) _ that(1)] that(2) assms(3) by (auto simp: op_locs_def)
  show ?thesis
    using assms(4) * by (auto simp: TryReplaceRegInOperand_def op_loc_def op_regs_update split: if_splits bind_splits)
      (auto simp: op_regs_def split: if_splits)
qed

lemma replace_ops_loc:
  assumes "v < 65536" "g < 65536"
  shows "Gpr g \<notin> ops_locs os \<Longrightarrow> vr_explicit v os \<Longrightarrow> replace_ops (vr_register v) (NthArchGPR g) os changed = Some (os', b) \<Longrightarrow>
    map op_loc os' = map (map_option (sw v g) \<circ> op_loc) os"
proof (induction os arbitrary: changed os' b)
  case (Cons op os)
  have same: "op_loc op = map_option (sw v g) (op_loc op)" if "Gpr g \<notin> op_locs op" "Vr v \<notin> op_locs op" for op
    using that by (cases "op_loc op") (auto dest: op_loc_locs simp: sw_def)
  show ?case
  proof (cases "\<not> Operand_IsValid op \<or> \<not> is_explicit op")
    case True
    then have n: "Vr v \<notin> ops_locs (op # os)" "os' = op # os" using Cons.prems(2,3) by (auto split: if_splits)
    have "op_loc q = map_option (sw v g) (op_loc q)" if "q \<in> set (op # os)" for q
      by (rule same) (use Cons.prems(1) n(1) that in \<open>auto simp: ops_locs_def\<close>)
    then show ?thesis using n(2) by simp
  next
    case False
    then show ?thesis using Cons TryReplaceRegInOperand_loc [OF assms, of op] by (fastforce split: bind_splits)
  qed
qed simp

lemma sw_inj: "sw v g a = sw v g b \<longleftrightarrow> a = b"
  by (auto simp: sw_def split: if_splits)

lemma mov_cpu_uniform: "cpu_uniform mov_cpu"
  unfolding cpu_uniform_def
proof (intro allI impI, elim conjE)
  fix n n' v g and f f' :: "loc \<Rightarrow> nat" and r :: nat
  assume R: "TryReplaceRegInInstruction n (vr_register v) (NthArchGPR g) = Some (n', True)" "v < 65536"
    "g < NUM_GENERAL_PURPOSE_REGISTERS" "vr_explicit v (ops n)" "Gpr g \<notin> instr_locs (Native n)"
    and f: "\<forall>l \<in> instr_locs (Native n). f' (sw v g l) = f l"
  have g: "g < 65536" using R(3) by (simp add: NUM_GENERAL_PURPOSE_REGISTERS_def)
  have n': "iform n' = iform n" "map op_loc (ops n') = map (map_option (sw v g) \<circ> op_loc) (ops n)"
    using R(1,4,5) replace_ops_loc [OF R(2) g, of "ops n" False] by (auto simp: TryReplaceRegInInstruction_def instr_locs_def)
  show "snd (mov_cpu (Native n') (f', r)) = snd (mov_cpu (Native n) (f, r)) \<and>
    (\<forall>l \<in> instr_locs (Native n). fst (mov_cpu (Native n') (f', r)) (sw v g l) = fst (mov_cpu (Native n) (f, r)) l)"
  proof (cases "\<exists>d s. map op_loc (ops n) = [Some d, Some s]")
    case True
    then obtain o1 o2 d s where o: "ops n = [o1, o2]" "op_loc o1 = Some d" "op_loc o2 = Some s" by auto
    then have "map op_loc (ops n') = [Some (sw v g d), Some (sw v g s)]" using n'(2) by simp
    moreover have "d \<in> instr_locs (Native n)" "s \<in> instr_locs (Native n)"
      using o op_loc_locs by (auto simp: instr_locs_def)
    ultimately show ?thesis using o f n'(1) by (simp add: mov_cpu_def sw_inj)
  next
    case False
    have "\<nexists>d s. map op_loc (ops n') = [Some d, Some s]" using False n'(2) by auto
    then have "mov_cpu (Native n') (f', r) = (f', r)" "mov_cpu (Native n) (f, r) = (f, r)"
      using False by (auto simp: mov_cpu_def split: list.splits option.splits)
    then show ?thesis using f by simp
  qed
qed

lemma Widen_loc: "Widen q n = Some r \<Longrightarrow> reg_loc r = reg_loc q" "Widen q n = Some r \<Longrightarrow> IsVirtualSlot r = IsVirtualSlot q"
  by (auto simp: Widen_def reg_loc_def IsVirtualSlot_def Number_def split: if_splits VirtualRegisterKind.split)

lemma mov_instr_loc: "op_loc (operand_of r) = reg_loc r" "op_loc (op\<lparr>op_width := w\<rparr>) = op_loc op"
  by (simp_all add: operand_of_def op_loc_def op_regs_def IsRegister_def IsMemory_def IsPointer_def Operand_new_def)

lemma mov_cpu_moves: "cpu_moves mov_cpu mov_builder"
proof -
  have k: "k < MAX_NUM_SPILL_SLOTS \<Longrightarrow> reg_loc (slot_register k) = Some (Slot k)" for k
    by (simp add: reg_loc_def MAX_NUM_SPILL_SLOTS_def)
  have g: "g < NUM_GENERAL_PURPOSE_REGISTERS \<Longrightarrow> reg_loc (NthArchGPR g) = Some (Gpr g)" for g
    by (simp add: reg_loc_def NUM_GENERAL_PURPOSE_REGISTERS_def)
  show ?thesis unfolding cpu_moves_def
    by (auto simp: SaveGPRToSlot_def RestoreGPRFromSlot_def SwapGPRWithGPR_def SwapGPRWithSlot_def mov_builder_def
        mov_instr_def set_op_width_def mov_cpu_def mov_instr_loc k g plain_instr_def Instruction_new_def fun_upd_twist dest!: Widen_loc(1) split: bind_splits)
qed

lemma mov_cpu_ok: "cpu_ok mov_cpu mov_builder"
  by (simp add: cpu_ok_def mov_cpu_frame mov_cpu_uniform mov_cpu_moves)

text \<open>A fragment that copies register 0 to virtual register 7, and that to register 1, which is the
  preferred one.\<close>

definition copy_frags :: frag_state where
  "copy_frags = (backward_frags FlagUsageInfo_new FlagUsageInfo_new FlagUsageInfo_new)
     \<lparr>frag_at := (\<lambda>_. (Fragment_new CodeFragment)\<lparr>f_instrs := [5, 6], exit_regs := {7}\<rparr>), flist := [2], next_instr := 9,
      instr_at := (\<lambda>j. if j = 5 then Native ((mov_instr 1 (vr_register 7) (NthArchGPR 0))\<lparr>defined_vr := 7\<rparr>)
        else Native ((mov_instr 1 (NthArchGPR 1) (vr_register 7))\<lparr>used_vrs := [7]\<rparr>)),
      parts := singletons (\<lambda>_. Some 0)\<rparr>"

lemma copy_frags_ok: "fragment_ok 7 {..<64} copy_frags 2"
proof -
  have locs: "op_locs (operand_of r) = reg_locs r" for r
    by (simp add: op_locs_def operand_of_def op_regs_def IsRegister_def IsMemory_def IsPointer_def Operand_new_def)
  have regs: "reg_locs (vr_register 7) = {Vr 7}" "g < 65536 \<Longrightarrow> reg_locs (NthArchGPR g) = {Gpr g}" for g
    by (simp_all add: reg_locs_def Number_def unat_of_nat)
  have ops: "op_ok (operand_of (NthArchGPR g))" "op_ok (operand_of (vr_register 7))" "op_widths_ok 7 (operand_of r)"
    "is_explicit (operand_of r)" "Operand_IsValid (operand_of r)" if "g < 15" "r \<in> {vr_register 7, NthArchGPR g}" for g r
    using that by (auto simp: op_ok_def reg_ok_def operand_of_def Operand_new_def VirtualRegister_default_def IsNative_def
        IsVirtualSlot_def NUM_GENERAL_PURPOSE_REGISTERS_def Operand_IsValid_def op_widths_ok_def op_regs_def IsRegister_def
        width_ok_def ByteWidth_def vr_register_def NthArchGPR_def VirtualRegister_new_def Number_def unat_of_nat)
  have legacy: "\<not> UsesLegacyRegisters [operand_of a, operand_of b]"
    if "a \<in> {vr_register 7, NthArchGPR g}" "b \<in> {vr_register 7, NthArchGPR h}" for a b g h
    using that by (auto simp: UsesLegacyRegisters_def operand_of_def vr_register_def NthArchGPR_def VirtualRegister_new_def
        VirtualRegister_default_def)
  have free: "\<exists>g < NUM_GENERAL_PURPOSE_REGISTERS. g \<noteq> x" for x :: nat
    by (rule exI [of _ "if x = 0 then 1 else 0"]) (simp add: NUM_GENERAL_PURPOSE_REGISTERS_def)
  have def: "instr_ok 7 {..<64} (Native ((mov_instr 1 (vr_register 7) (NthArchGPR 0))\<lparr>defined_vr := 7\<rparr>))"
    and "use": "instr_ok 7 {..<64} (Native ((mov_instr 1 (NthArchGPR 1) (vr_register 7))\<lparr>used_vrs := [7]\<rparr>))"
    using ops [of 0 "vr_register 7"] ops(1,3-5) [of 0 "NthArchGPR 0"] ops(1,3-5) [of 1 "NthArchGPR 1"] legacy [of _ 0 _ 0] legacy [of _ 1 _ 1] free [of 0] free [of 1]
    by (auto simp: instr_ok_def mov_instr_def instr_locs_def locs regs IsUsedOrDefined_def)
  have "Value (singletons (\<lambda>_. Some (0 :: nat))) 2 = Some (singletons (\<lambda>_. Some 0), Some 0)"
    by (simp add: Value_def Find_def singletons_def find_root.simps [of id 2])
  then show ?thesis using def "use" by (auto simp: fragment_ok_def copy_frags_def)
qed

lemma copy_counts: "counts_ok (ResetLocal copy_frags 2 RegisterScheduler_new)"
proof -
  have "gpr_counts (ResetLocal copy_frags 2 RegisterScheduler_new) = [1,1,0,0,0,0,0,0,0,0,0,0,0,0,0]" by code_simp
  then show ?thesis by (simp add: counts_ok_def NUM_GENERAL_PURPOSE_REGISTERS_def)
qed

lemma RegisterScheduler_new_ok: "sched_ok RegisterScheduler_new"
  by (simp add: sched_ok_def RegisterScheduler_new_def has_slots_def NUM_GENERAL_PURPOSE_REGISTERS_def MAX_NUM_SPILL_SLOTS_def)

theorem ScheduleRegisters_gpr_simulates_witness:
  "\<exists>sched' s'. ScheduleRegisters_gpr mov_builder 7 (NthArchGPR 1) 2 (RegisterScheduler_new, copy_frags) = Some (sched', s') \<and>
     sched_ok sched' \<and> sched_extends (ResetLocal copy_frags 2 RegisterScheduler_new) sched' \<and>
     scheduled mov_cpu 7 {..<64} 2 1 copy_frags sched' s' \<and> (\<exists>slot. slots_agree slot sched' \<and> good_slots slot {..<64})"
proof -
  have "{..<MAX_NUM_SPILL_SLOTS} \<subseteq> {..<64}" "(7 :: nat) < 65536" "1 < NUM_GENERAL_PURPOSE_REGISTERS"
    by (simp_all add: MAX_NUM_SPILL_SLOTS_def NUM_GENERAL_PURPOSE_REGISTERS_def)
  then show ?thesis using ScheduleRegisters_gpr_simulates [OF mov_cpu_ok _ _ RegisterScheduler_new_ok copy_counts copy_frags_ok, of 1] by blast
qed

end
