(* ===== verification/Instructions.thy ===== *)
theory Instructions
  imports Fragments "HOL-Library.Monad_Syntax" "HOL-Library.Sublist"
begin

text \<open>
  The architecture's instructions (\<^verbatim>\<open>arch/x86-64/instruction.cc\<close>,
  \<^verbatim>\<open>arch/x86-64/instruction.h\<close>): how they use the stack pointer, operand matching, and how
  they are built (\<^verbatim>\<open>arch/x86-64/builder.cc\<close>, \<^verbatim>\<open>arch/x86-64/builder.h\<close>,
  \<^verbatim>\<open>arch/util.h\<close>, \<^verbatim>\<open>arch/x86-64/util.cc\<close>, \<^verbatim>\<open>arch/x86-64/slot.cc\<close>).
  The operand array of an instruction is a list of its operands; the cells behind it are cleared
  operands. The tables of implicit operands are generated code and a parameter. \<^const>\<open>None\<close> is a
  failed assertion, or an operation that the language leaves undefined.
\<close>

section \<open>Constants\<close>

definition XED_ICLASS_ADD :: nat where [granary_simps]: "XED_ICLASS_ADD = 7"
definition XED_ICLASS_BNDCL :: nat where [granary_simps]: "XED_ICLASS_BNDCL = 44"
definition XED_ICLASS_BNDCN :: nat where [granary_simps]: "XED_ICLASS_BNDCN = 45"
definition XED_ICLASS_BNDCU :: nat where [granary_simps]: "XED_ICLASS_BNDCU = 46"
definition XED_ICLASS_BNDMK :: nat where [granary_simps]: "XED_ICLASS_BNDMK = 48"
definition XED_ICLASS_BOUND :: nat where [granary_simps]: "XED_ICLASS_BOUND = 51"
definition XED_ICLASS_CALL_FAR :: nat where [granary_simps]: "XED_ICLASS_CALL_FAR = 60"
definition XED_ICLASS_CALL_NEAR :: nat where [granary_simps]: "XED_ICLASS_CALL_NEAR = 61"
definition XED_ICLASS_CLI :: nat where [granary_simps]: "XED_ICLASS_CLI = 71"
definition XED_ICLASS_DEC :: nat where [granary_simps]: "XED_ICLASS_DEC = 133"
definition XED_ICLASS_ENTER :: nat where [granary_simps]: "XED_ICLASS_ENTER = 144"
definition XED_ICLASS_FWAIT :: nat where [granary_simps]: "XED_ICLASS_FWAIT = 234"
definition XED_ICLASS_INC :: nat where [granary_simps]: "XED_ICLASS_INC = 253"
definition XED_ICLASS_INT :: nat where [granary_simps]: "XED_ICLASS_INT = 259"
definition XED_ICLASS_INT3 :: nat where [granary_simps]: "XED_ICLASS_INT3 = 261"
definition XED_ICLASS_LEA :: nat where [granary_simps]: "XED_ICLASS_LEA = 347"
definition XED_ICLASS_LEAVE :: nat where [granary_simps]: "XED_ICLASS_LEAVE = 348"
definition XED_ICLASS_MOV :: nat where [granary_simps]: "XED_ICLASS_MOV = 383"
definition XED_ICLASS_POP :: nat where [granary_simps]: "XED_ICLASS_POP = 562"
definition XED_ICLASS_POPA :: nat where [granary_simps]: "XED_ICLASS_POPA = 563"
definition XED_ICLASS_POPAD :: nat where [granary_simps]: "XED_ICLASS_POPAD = 564"
definition XED_ICLASS_POPF :: nat where [granary_simps]: "XED_ICLASS_POPF = 566"
definition XED_ICLASS_POPFD :: nat where [granary_simps]: "XED_ICLASS_POPFD = 567"
definition XED_ICLASS_POPFQ :: nat where [granary_simps]: "XED_ICLASS_POPFQ = 568"
definition XED_ICLASS_PUSH :: nat where [granary_simps]: "XED_ICLASS_PUSH = 614"
definition XED_ICLASS_PUSHA :: nat where [granary_simps]: "XED_ICLASS_PUSHA = 615"
definition XED_ICLASS_PUSHAD :: nat where [granary_simps]: "XED_ICLASS_PUSHAD = 616"
definition XED_ICLASS_PUSHF :: nat where [granary_simps]: "XED_ICLASS_PUSHF = 617"
definition XED_ICLASS_PUSHFD :: nat where [granary_simps]: "XED_ICLASS_PUSHFD = 618"
definition XED_ICLASS_PUSHFQ :: nat where [granary_simps]: "XED_ICLASS_PUSHFQ = 619"
definition XED_ICLASS_STI :: nat where [granary_simps]: "XED_ICLASS_STI = 700"
definition XED_ICLASS_SUB :: nat where [granary_simps]: "XED_ICLASS_SUB = 707"
definition XED_ICLASS_WRMSR :: nat where [granary_simps]: "XED_ICLASS_WRMSR = 1393"
definition XED_ICLASS_XCHG :: nat where [granary_simps]: "XED_ICLASS_XCHG = 1397"
definition XED_ICLASS_LAST :: nat where [granary_simps]: "XED_ICLASS_LAST = 1418"

definition XED_IFORM_LEA_GPRv_AGEN :: nat where [granary_simps]: "XED_IFORM_LEA_GPRv_AGEN = 715"
definition XED_IFORM_BNDCL_BND_AGEN :: nat where [granary_simps]: "XED_IFORM_BNDCL_BND_AGEN = 145"
definition XED_IFORM_BNDCN_BND_AGEN :: nat where [granary_simps]: "XED_IFORM_BNDCN_BND_AGEN = 148"
definition XED_IFORM_BNDCU_BND_AGEN :: nat where [granary_simps]: "XED_IFORM_BNDCU_BND_AGEN = 151"
definition XED_IFORM_BNDMK_BND_AGEN :: nat where [granary_simps]: "XED_IFORM_BNDMK_BND_AGEN = 156"
definition XED_IFORM_CLFLUSH_MEMmprefetch :: nat where [granary_simps]: "XED_IFORM_CLFLUSH_MEMmprefetch = 203"
definition XED_IFORM_CLFLUSHOPT_MEMmprefetch :: nat where [granary_simps]: "XED_IFORM_CLFLUSHOPT_MEMmprefetch = 204"
definition XED_IFORM_PREFETCHNTA_MEMmprefetch :: nat where [granary_simps]: "XED_IFORM_PREFETCHNTA_MEMmprefetch = 1313"
definition XED_IFORM_PREFETCH_RESERVED_0F0Dr7 :: nat where [granary_simps]: "XED_IFORM_PREFETCH_RESERVED_0F0Dr7 = 1324"
definition XED_IFORM_LAST :: nat where [granary_simps]: "XED_IFORM_LAST = 5862"

definition MAX_NUM_OPERANDS :: nat where [granary_simps]: "MAX_NUM_OPERANDS = 11"
definition ADDRESS_WIDTH_BYTES :: int where [granary_simps]: "ADDRESS_WIDTH_BYTES = 8"
definition ADDRESS_WIDTH_BITS :: u16 where [granary_simps]: "ADDRESS_WIDTH_BITS = 64"
definition GPR_WIDTH_BITS :: u16 where [granary_simps]: "GPR_WIDTH_BITS = 64"
definition QUADWORD_WIDTH_BYTES :: int where [granary_simps]: "QUADWORD_WIDTH_BYTES = 8"
definition DOUBLEWORD_WIDTH_BYTES :: int where [granary_simps]: "DOUBLEWORD_WIDTH_BYTES = 4"
definition WORD_WIDTH_BYTES :: int where [granary_simps]: "WORD_WIDTH_BYTES = 2"
definition BYTE_WIDTH_BITS :: int where [granary_simps]: "BYTE_WIDTH_BITS = 8"

section \<open>Addresses and immediates\<close>

definition SIGNED_MAX :: int where
  "SIGNED_MAX = 2 ^ 32 div 2"

definition MaxRelativeOffset :: int where
  "MaxRelativeOffset = SIGNED_MAX - SIGNED_MAX div 2 ^ 4"

definition MinRelativeOffset :: int where
  "MinRelativeOffset = - SIGNED_MAX"

definition AddrIsOffsetReachable :: "u64 \<Rightarrow> u64 \<Rightarrow> bool" where
  "AddrIsOffsetReachable source dest \<longleftrightarrow>
     (let diff = sint (source - dest) in MinRelativeOffset \<le> diff \<and> diff \<le> MaxRelativeOffset)"

text \<open>The compiler's count of leading zeros is undefined at zero.\<close>

definition builtin_clzl :: "u64 \<Rightarrow> nat option" where
  "builtin_clzl x = (if x = 0 then None else Some (length (takeWhile (\<lambda>k. \<not> bit x k) (rev [0..<64]))))"

definition ImmediateWidthBits :: "u64 \<Rightarrow> nat option" where
  "ImmediateWidthBits imm =
     (if imm = 0 then Some 8
      else do {
        leading_zeros \<leftarrow> builtin_clzl imm;
        if 56 < leading_zeros then Some 8
        else if 48 < leading_zeros then Some 16
        else if 32 < leading_zeros then Some 32
        else do {
          leading_zeros \<leftarrow> builtin_clzl (NOT imm);
          Some (if 56 < leading_zeros then 8 else if 48 < leading_zeros then 16 else if 32 < leading_zeros then 32 else 64)
        }
      })"

section \<open>Use of the stack pointer\<close>

definition op_at :: "NativeInstruction \<Rightarrow> nat \<Rightarrow> Operand" where
  "op_at instr n = (if n < length (ops instr) then ops instr ! n else Operand_new)"

text \<open>Writing a cell of the operand array.\<close>

definition set_op :: "nat \<Rightarrow> Operand \<Rightarrow> NativeInstruction \<Rightarrow> NativeInstruction" where
  "set_op n op instr =
     instr\<lparr>ops := (if n < length (ops instr) then (ops instr)[n := op]
                  else ops instr @ replicate (n - length (ops instr)) Operand_new @ [op])\<rparr>"

definition is_sp_reg :: "Operand \<Rightarrow> bool" where
  "is_sp_reg op \<longleftrightarrow> IsRegister op \<and> IsStackPointer (op_reg op)"

definition is_sp_agen :: "Operand \<Rightarrow> bool" where
  "is_sp_agen op \<longleftrightarrow> IsMemory op \<and> \<not> IsPointer op \<and> is_compound op \<and> IsStackPointer (op_reg op) \<and>
     \<not> VirtualRegister_IsValid (mem_index op) \<and> mem_scale op \<le> 1"

definition ShiftsStackPointer :: "NativeInstruction \<Rightarrow> bool" where
  "ShiftsStackPointer instr \<longleftrightarrow>
     (let c = iclass instr; op0 = op_at instr 0; op1 = op_at instr 1 in
      if c = XED_ICLASS_POP then \<not> is_sp_reg op0
      else if c \<in> {XED_ICLASS_PUSHA, XED_ICLASS_POPA, XED_ICLASS_PUSHAD, XED_ICLASS_POPAD, XED_ICLASS_PUSHF, XED_ICLASS_POPF,
          XED_ICLASS_PUSHFD, XED_ICLASS_POPFD, XED_ICLASS_PUSHFQ, XED_ICLASS_POPFQ, XED_ICLASS_PUSH, XED_ICLASS_CALL_NEAR,
          XED_ICLASS_RET_NEAR, XED_ICLASS_ENTER} then True
      else if c \<in> {XED_ICLASS_ADD, XED_ICLASS_SUB} then is_sp_reg op0 \<and> IsImmediate op1
      else if c \<in> {XED_ICLASS_INC, XED_ICLASS_DEC} then is_sp_reg op0
      else if c = XED_ICLASS_LEA then is_sp_reg op0 \<and> is_sp_agen op1
      else False)"

definition StackPointerShiftAmount :: "NativeInstruction \<Rightarrow> int option" where
  "StackPointerShiftAmount instr =
     (let c = iclass instr; op0 = op_at instr 0; op1 = op_at instr 1; w = effective_operand_width instr in
      if is_stack_blind instr then Some 0
      else if c = XED_ICLASS_PUSHA then Some (- 8 * WORD_WIDTH_BYTES)
      else if c = XED_ICLASS_POPA then Some (8 * WORD_WIDTH_BYTES)
      else if c = XED_ICLASS_PUSHAD then Some (- 8 * DOUBLEWORD_WIDTH_BYTES)
      else if c = XED_ICLASS_POPAD then Some (8 * DOUBLEWORD_WIDTH_BYTES)
      else if c = XED_ICLASS_PUSHFD then Some (- DOUBLEWORD_WIDTH_BYTES)
      else if c = XED_ICLASS_POPFD then Some DOUBLEWORD_WIDTH_BYTES
      else if c = XED_ICLASS_PUSHF then Some (- WORD_WIDTH_BYTES)
      else if c = XED_ICLASS_POPF then Some WORD_WIDTH_BYTES
      else if c = XED_ICLASS_PUSHFQ then Some (- QUADWORD_WIDTH_BYTES)
      else if c = XED_ICLASS_POPFQ then Some QUADWORD_WIDTH_BYTES
      else if c = XED_ICLASS_POP then
        if is_sp_reg op0 then Some 0 else if w = 0 then None else Some (uint w div BYTE_WIDTH_BITS)
      else if c = XED_ICLASS_PUSH then if w = 0 then None else Some (- (uint w div BYTE_WIDTH_BITS))
      else if c = XED_ICLASS_CALL_NEAR then Some (- ADDRESS_WIDTH_BYTES)
      else if c = XED_ICLASS_RET_NEAR then
        Some (if IsImmediate op0 then ADDRESS_WIDTH_BYTES + uint (ucast (op_imm op0) :: u16) else ADDRESS_WIDTH_BYTES)
      else if c \<in> {XED_ICLASS_ENTER, XED_ICLASS_LEAVE} then None
      else if c \<in> {XED_ICLASS_ADD, XED_ICLASS_SUB} then
        Some (if is_sp_reg op0 \<and> IsImmediate op1
              then sint (ucast (op_imm op1) :: u32) * (if c = XED_ICLASS_ADD then 1 else -1) else 0)
      else if c \<in> {XED_ICLASS_INC, XED_ICLASS_DEC} then
        Some (if is_sp_reg op0 then if c = XED_ICLASS_INC then 1 else -1 else 0)
      else if c = XED_ICLASS_LEA then Some (if is_sp_reg op0 \<and> is_sp_agen op1 then sint (mem_disp op1) else 0)
      else Some 0)"

definition ComputedOffsetBelowStackPointer :: "NativeInstruction \<Rightarrow> int" where
  "ComputedOffsetBelowStackPointer instr =
     (let op1 = op_at instr 1 in
      if is_stack_blind instr \<or> iclass instr \<noteq> XED_ICLASS_LEA \<or> \<not> is_compound op1 \<or> \<not> IsStackPointer (op_reg op1) \<or>
         VirtualRegister_IsValid (mem_index op1) \<or> 0 \<le> sint (mem_disp op1)
      then 0 else sint (mem_disp op1))"

definition AnalyzeOperandStackUsage :: "xed_api \<Rightarrow> Operand \<Rightarrow> NativeInstruction \<Rightarrow> NativeInstruction option" where
  "AnalyzeOperandStackUsage X op instr =
     (if op_type op = XED_ENCODER_OPERAND_TYPE_REG then
        Some (if IsStackPointer (op_reg op)
              then instr\<lparr>reads_from_stack_pointer := reads_from_stack_pointer instr \<or> IsRead X op \<or> IsConditionalWrite X op,
                         writes_to_stack_pointer := writes_to_stack_pointer instr \<or> IsWrite X op\<rparr>
              else instr)
      else if op_type op = XED_ENCODER_OPERAND_TYPE_MEM then
        if is_compound op then
          if IsStackPointer (mem_index op) then None
          else Some (instr\<lparr>reads_from_stack_pointer := reads_from_stack_pointer instr \<or> IsStackPointer (op_reg op)\<rparr>)
        else Some (instr\<lparr>reads_from_stack_pointer := reads_from_stack_pointer instr \<or> IsStackPointer (op_reg op)\<rparr>)
      else Some instr)"

definition AnalyzeStackUsage :: "xed_api \<Rightarrow> NativeInstruction \<Rightarrow> NativeInstruction option" where
  "AnalyzeStackUsage X instr =
     (if iform instr = 0 \<or> isel instr = 0 \<or> num_ops instr < num_explicit_ops instr then None
      else let instr = instr\<lparr>analyzed_stack_usage := True, reads_from_stack_pointer := False, writes_to_stack_pointer := False\<rparr>
           in if is_stack_blind instr then Some instr
              else opt_fold (AnalyzeOperandStackUsage X) (filter Operand_IsValid (ops instr)) instr)"

text \<open>The answer, and the instruction with its cached analysis.\<close>

definition ReadsFromStackPointer :: "xed_api \<Rightarrow> NativeInstruction \<Rightarrow> (bool \<times> NativeInstruction) option" where
  "ReadsFromStackPointer X instr =
     map_option (\<lambda>i. (reads_from_stack_pointer i, i))
       (if analyzed_stack_usage instr then Some instr else AnalyzeStackUsage X instr)"

definition WritesToStackPointer :: "xed_api \<Rightarrow> NativeInstruction \<Rightarrow> (bool \<times> NativeInstruction) option" where
  "WritesToStackPointer X instr =
     map_option (\<lambda>i. (writes_to_stack_pointer i, i))
       (if analyzed_stack_usage instr then Some instr else AnalyzeStackUsage X instr)"

definition EnablesInterrupts :: "NativeInstruction \<Rightarrow> bool" where
  "EnablesInterrupts instr \<longleftrightarrow> iclass instr = XED_ICLASS_STI"

definition DisablesInterrupts :: "NativeInstruction \<Rightarrow> bool" where
  "DisablesInterrupts instr \<longleftrightarrow> iclass instr = XED_ICLASS_CLI"

definition CanEnableOrDisableInterrupts :: "NativeInstruction \<Rightarrow> bool" where
  "CanEnableOrDisableInterrupts instr \<longleftrightarrow> iclass instr \<in> {XED_ICLASS_POPF, XED_ICLASS_WRMSR, XED_ICLASS_FWAIT}"

definition PrefixNames :: "NativeInstruction \<Rightarrow> string" where
  "PrefixNames instr =
     (if has_prefix_rep instr then ''REP'' else if has_prefix_repne instr then ''REPNE''
      else if has_prefix_lock instr then ''LOCK'' else [])"

definition WillBeEncoded :: "NativeInstruction \<Rightarrow> bool" where
  "WillBeEncoded instr \<longleftrightarrow> \<not> dont_encode instr"

definition SetBranchTarget_pc :: "u64 \<Rightarrow> NativeInstruction \<Rightarrow> NativeInstruction" where
  "SetBranchTarget_pc pc instr =
     set_op 0 ((op_at instr 0)\<lparr>op_imm := pc, is_annotation_instr := False, op_type := XED_ENCODER_OPERAND_TYPE_BRDISP\<rparr>) instr"

definition SetBranchTarget_label :: "u64 \<Rightarrow> NativeInstruction \<Rightarrow> NativeInstruction" where
  "SetBranchTarget_label label instr =
     set_op 0 ((op_at instr 0)\<lparr>op_imm := label, is_annotation_instr := True, op_type := XED_ENCODER_OPERAND_TYPE_BRDISP\<rparr>) instr"

section \<open>Matching operands\<close>

datatype OperandAction =
    kOperandActionAny | kOperandActionRead | kOperandActionWrite | kOperandActionReadOnly | kOperandActionWriteOnly
  | kOperandActionReadWrite

datatype OperandConstraint = kOperandConstraintMatch | kOperandConstraintBind

datatype OperandType = kOperandTypeRegister | kOperandTypeMemory | kOperandTypeImmediate

text \<open>The matcher's own operand is the one to be matched, or the one that is bound: a copy of the
  matched operand, and where that is.\<close>

record OperandMatcher =
  m_op :: Operand
  m_action :: OperandAction
  m_constraint :: OperandConstraint
  m_type :: OperandType
  m_bound :: "nat option"

definition OperandMatchesAction :: "xed_api \<Rightarrow> OperandMatcher \<Rightarrow> Operand \<Rightarrow> bool option" where
  "OperandMatchesAction X m op =
     (let is_read = IsRead X op; is_write = IsWrite X op in
      if is_read \<and> is_write then Some (m_action m \<notin> {kOperandActionReadOnly, kOperandActionWriteOnly})
      else if is_read then Some (m_action m \<notin> {kOperandActionWrite, kOperandActionWriteOnly, kOperandActionReadWrite})
      else if is_write then Some (m_action m \<notin> {kOperandActionRead, kOperandActionReadOnly, kOperandActionReadWrite})
      else None)"

definition BindOperand :: "OperandMatcher \<Rightarrow> nat \<Rightarrow> Operand \<Rightarrow> OperandMatcher option" where
  "BindOperand m n op =
     (if IsRegister op \<and> m_type m = kOperandTypeRegister \<or> IsMemory op \<and> m_type m = kOperandTypeMemory \<or>
         IsImmediate op \<and> m_type m = kOperandTypeImmediate
      then Some (m\<lparr>m_op := op, m_bound := Some n\<rparr>) else None)"

definition MatchOperand :: "OperandMatcher \<Rightarrow> Operand \<Rightarrow> bool" where
  "MatchOperand m op \<longleftrightarrow> IsRegister (m_op m) \<and> IsRegister op \<and> vr_eq (op_reg op) (op_reg (m_op m))"

text \<open>The matcher after a match, or nothing when there is none.\<close>

definition TryMatchOperand :: "xed_api \<Rightarrow> OperandMatcher \<Rightarrow> nat \<Rightarrow> Operand \<Rightarrow> OperandMatcher option option" where
  "TryMatchOperand X m n op =
     map_option (\<lambda>ok. if \<not> ok then None
                     else if m_constraint m = kOperandConstraintBind then BindOperand m n op
                     else if MatchOperand m op then Some m else None)
       (OperandMatchesAction X m op)"

fun match_loop :: "xed_api \<Rightarrow> nat \<Rightarrow> Operand list \<Rightarrow> OperandMatcher list \<Rightarrow> OperandMatcher list option" where
  "match_loop X op_num rest [] = Some []"
| "match_loop X op_num [] (m # ms) = Some []"
| "match_loop X op_num (op # rest) (m # ms) =
     (if \<not> Operand_IsValid op then Some []
      else do {
        r \<leftarrow> TryMatchOperand X m op_num op;
        case r of
          None \<Rightarrow> match_loop X (op_num + 1) rest (m # ms)
        | Some m' \<Rightarrow> map_option ((#) m') (match_loop X (op_num + 1) rest ms)
      })"

text \<open>The matchers that matched, with what they bound; the code returns their number.\<close>

definition CountMatchedOperands :: "xed_api \<Rightarrow> OperandMatcher list \<Rightarrow> NativeInstruction \<Rightarrow> OperandMatcher list option" where
  "CountMatchedOperands X matchers instr =
     (if iform instr = 0 \<or> isel instr = 0 \<or> num_ops instr < num_explicit_ops instr then None
      else match_loop X 0 (ops instr) matchers)"

section \<open>Building instructions\<close>

definition BuildInstruction :: "nat \<Rightarrow> nat \<Rightarrow> nat \<Rightarrow> xed_category \<Rightarrow> NativeInstruction \<Rightarrow> NativeInstruction option" where
  "BuildInstruction c f s cat instr =
     (if iclass instr < XED_ICLASS_LAST \<and> iform instr < XED_IFORM_LAST \<and> decoded_length instr \<le> 15
      then Some (instr\<lparr>iclass := c, iform := f, isel := s, category := cat, ops := [], has_prefix_rep := False,
             has_prefix_repne := False, dont_encode := False, effective_operand_width := 0, num_explicit_ops := 0,
             num_ops := 0, has_prefix_lock := False, reads_from_stack_pointer := False, writes_to_stack_pointer := False,
             analyzed_stack_usage := False, is_sticky_instr := False, is_stack_blind := False, is_tail_call := False,
             is_atomic := (c = XED_ICLASS_XCHG \<or> cat = XED_CATEGORY_SEMAPHORE)\<rparr>)
      else None)"

definition FinalizeInstruction :: "xed_api \<Rightarrow> (nat \<Rightarrow> Operand list) \<Rightarrow> NativeInstruction \<Rightarrow> NativeInstruction option" where
  "FinalizeInstruction X implicit_ops instr =
     AnalyzeStackUsage X (instr\<lparr>ops := take (num_explicit_ops instr) (ops instr) @ implicit_ops (isel instr),
       num_ops := length (implicit_ops (isel instr)) + num_explicit_ops instr\<rparr>)"

text \<open>Taking the next operand of an instruction under construction.\<close>

definition build_op :: "(Operand \<Rightarrow> Operand) \<Rightarrow> NativeInstruction \<Rightarrow> NativeInstruction option" where
  "build_op f instr =
     (if num_explicit_ops instr < MAX_NUM_OPERANDS
      then Some ((set_op (num_explicit_ops instr) (f (op_at instr (num_explicit_ops instr))) instr)
             \<lparr>num_explicit_ops := num_explicit_ops instr + 1\<rparr>)
      else None)"

definition RegisterBuilder_Build :: "VirtualRegister \<Rightarrow> xed_operand_action \<Rightarrow> NativeInstruction \<Rightarrow> NativeInstruction option" where
  "RegisterBuilder_Build reg action =
     build_op (\<lambda>op. op\<lparr>op_type := XED_ENCODER_OPERAND_TYPE_REG, op_reg := reg, op_rw := action, op_width := of_nat (BitWidth reg),
       is_explicit := True,
       is_sticky := is_sticky op \<or> IsNative reg \<and> XED_REG_AH \<le> EncodeToNative reg \<and> EncodeToNative reg \<le> XED_REG_BH\<rparr>)"

definition ImmediateBuilder_Build :: "u64 \<Rightarrow> xed_encoder_operand_type \<Rightarrow> u16 \<Rightarrow> NativeInstruction \<Rightarrow> NativeInstruction option" where
  "ImmediateBuilder_Build imm type width instr = do {
     w \<leftarrow> (if width = 0 then map_option of_nat (ImmediateWidthBits imm) else Some width);
     build_op (\<lambda>op. op\<lparr>op_imm := imm, op_type := type, op_rw := XED_OPERAND_ACTION_R, op_width := w, is_explicit := True\<rparr>) instr
   }"

datatype memory_source = BUILD_POINTER u64 | BUILD_REGISTER VirtualRegister | BUILD_OPERAND Operand

definition is_agen_form :: "nat \<Rightarrow> bool" where
  "is_agen_form f \<longleftrightarrow>
     f \<in> {XED_IFORM_BNDCN_BND_AGEN, XED_IFORM_BNDCL_BND_AGEN, XED_IFORM_BNDCU_BND_AGEN, XED_IFORM_BNDMK_BND_AGEN,
          XED_IFORM_CLFLUSH_MEMmprefetch, XED_IFORM_CLFLUSHOPT_MEMmprefetch, XED_IFORM_LEA_GPRv_AGEN} \<or>
     XED_IFORM_PREFETCHNTA_MEMmprefetch \<le> f \<and> f \<le> XED_IFORM_PREFETCH_RESERVED_0F0Dr7"

definition MemoryBuilder_Build :: "memory_source \<Rightarrow> xed_operand_action \<Rightarrow> NativeInstruction \<Rightarrow> NativeInstruction option" where
  "MemoryBuilder_Build kind action instr =
     build_op (\<lambda>op.
       let op = op\<lparr>op_width := 0, is_compound := False\<rparr>;
           op = (case kind of
                   BUILD_POINTER ptr \<Rightarrow> op\<lparr>op_segment := XED_REG_DS, op_type := XED_ENCODER_OPERAND_TYPE_PTR, op_imm := ptr\<rparr>
                 | BUILD_REGISTER reg \<Rightarrow> op\<lparr>op_type := XED_ENCODER_OPERAND_TYPE_MEM, op_reg := reg\<rparr>
                 | BUILD_OPERAND that \<Rightarrow> Operand_assign op that);
           op = op\<lparr>op_rw := action, is_explicit := True\<rparr>;
           op = (if is_agen_form (iform instr) then op\<lparr>is_effective_address := True\<rparr> else op)
       in if category instr \<in> {XED_CATEGORY_CALL, XED_CATEGORY_COND_BR, XED_CATEGORY_UNCOND_BR}
          then op\<lparr>op_width := ADDRESS_WIDTH_BITS\<rparr> else op) instr"

datatype branch_target = BRANCH_TARGET_PC u64 | BRANCH_TARGET_LABEL u64

definition BranchTargetBuilder_of_op :: "Operand \<Rightarrow> branch_target" where
  "BranchTargetBuilder_of_op op =
     (if is_annotation_instr op then BRANCH_TARGET_PC (op_imm op) else BRANCH_TARGET_LABEL (op_imm op))"

definition BranchTargetBuilder_Build :: "branch_target \<Rightarrow> NativeInstruction \<Rightarrow> NativeInstruction option" where
  "BranchTargetBuilder_Build target =
     build_op (\<lambda>op. (case target of
         BRANCH_TARGET_LABEL label \<Rightarrow> op\<lparr>is_annotation_instr := True, op_imm := label, op_width := 32\<rparr>
       | BRANCH_TARGET_PC pc \<Rightarrow> op\<lparr>op_imm := pc, op_width := ADDRESS_WIDTH_BITS\<rparr>)
       \<lparr>op_type := XED_ENCODER_OPERAND_TYPE_BRDISP, op_rw := XED_OPERAND_ACTION_R, is_explicit := True\<rparr>)"

definition BaseDispMemOp :: "int \<Rightarrow> VirtualRegister \<Rightarrow> u16 \<Rightarrow> Operand" where
  "BaseDispMemOp disp base_reg bit_width =
     Operand_new\<lparr>op_type := XED_ENCODER_OPERAND_TYPE_MEM, is_compound := (disp \<noteq> 0), mem_disp := of_int disp,
       op_reg := base_reg, op_width := bit_width\<rparr>"

definition BaseDispMemOp_index :: "int \<Rightarrow> VirtualRegister \<Rightarrow> VirtualRegister \<Rightarrow> u16 \<Rightarrow> Operand" where
  "BaseDispMemOp_index disp base_reg index_reg bit_width =
     Operand_new\<lparr>op_type := XED_ENCODER_OPERAND_TYPE_MEM, is_compound := True, mem_disp := of_int disp,
       op_reg := base_reg, mem_index := index_reg, op_width := bit_width\<rparr>"

text \<open>What the builders use of code outside the sources: the tables of implicit operands, and the
  decoder's tables.\<close>

record builder_env =
  be_xed :: xed_api
  be_implicit :: "nat \<Rightarrow> Operand list"

definition LEA_GPRv_AGEN_ISEL :: nat where "LEA_GPRv_AGEN_ISEL = 1734"
definition BNDCN_BND_AGEN_ISEL :: nat where "BNDCN_BND_AGEN_ISEL = 127"
definition BNDCU_BND_AGEN_ISEL :: nat where "BNDCU_BND_AGEN_ISEL = 133"
definition BNDCL_BND_AGEN_ISEL :: nat where "BNDCL_BND_AGEN_ISEL = 784"
definition BNDMK_BND_AGEN_ISEL :: nat where "BNDMK_BND_AGEN_ISEL = 1170"

definition LEA_GPRv_AGEN_add ::
    "builder_env \<Rightarrow> VirtualRegister \<Rightarrow> VirtualRegister \<Rightarrow> VirtualRegister \<Rightarrow> NativeInstruction \<Rightarrow> NativeInstruction option" where
  "LEA_GPRv_AGEN_add E a0 a1 a2 instr = do {
     instr \<leftarrow> BuildInstruction XED_ICLASS_LEA XED_IFORM_LEA_GPRv_AGEN LEA_GPRv_AGEN_ISEL XED_CATEGORY_MISC instr;
     instr \<leftarrow> RegisterBuilder_Build a0 XED_OPERAND_ACTION_W instr;
     FinalizeInstruction (be_xed E) (be_implicit E)
       ((set_op 1 ((op_at instr 1)\<lparr>op_type := XED_ENCODER_OPERAND_TYPE_MEM, op_reg := a1, mem_index := a2, mem_disp := 0,
           mem_scale := 1, op_width := ADDRESS_WIDTH_BITS, is_compound := True, is_explicit := True,
           is_effective_address := True, op_rw := XED_OPERAND_ACTION_R\<rparr>) instr)\<lparr>num_explicit_ops := 2\<rparr>)
   }"

text \<open>The builders of an instruction with a register and an address.\<close>

definition build_agen ::
    "nat \<Rightarrow> nat \<Rightarrow> nat \<Rightarrow> xed_category \<Rightarrow> xed_operand_action \<Rightarrow> builder_env \<Rightarrow> VirtualRegister \<Rightarrow> Operand \<Rightarrow>
     NativeInstruction \<Rightarrow> NativeInstruction option" where
  "build_agen c f s cat action E a0 a1 instr = do {
     instr \<leftarrow> BuildInstruction c f s cat instr;
     instr \<leftarrow> RegisterBuilder_Build a0 action instr;
     instr \<leftarrow> MemoryBuilder_Build (BUILD_OPERAND a1) XED_OPERAND_ACTION_R instr;
     FinalizeInstruction (be_xed E) (be_implicit E) instr
   }"

definition LEA_GPRv_AGEN :: "builder_env \<Rightarrow> VirtualRegister \<Rightarrow> Operand \<Rightarrow> NativeInstruction \<Rightarrow> NativeInstruction option" where
  "LEA_GPRv_AGEN = build_agen XED_ICLASS_LEA XED_IFORM_LEA_GPRv_AGEN LEA_GPRv_AGEN_ISEL XED_CATEGORY_MISC XED_OPERAND_ACTION_W"

definition BNDCN_BND_AGEN :: "builder_env \<Rightarrow> VirtualRegister \<Rightarrow> Operand \<Rightarrow> NativeInstruction \<Rightarrow> NativeInstruction option" where
  "BNDCN_BND_AGEN = build_agen XED_ICLASS_BNDCN XED_IFORM_BNDCN_BND_AGEN BNDCN_BND_AGEN_ISEL XED_CATEGORY_MPX XED_OPERAND_ACTION_R"

definition BNDCU_BND_AGEN :: "builder_env \<Rightarrow> VirtualRegister \<Rightarrow> Operand \<Rightarrow> NativeInstruction \<Rightarrow> NativeInstruction option" where
  "BNDCU_BND_AGEN = build_agen XED_ICLASS_BNDCU XED_IFORM_BNDCU_BND_AGEN BNDCU_BND_AGEN_ISEL XED_CATEGORY_MPX XED_OPERAND_ACTION_R"

definition BNDCL_BND_AGEN :: "builder_env \<Rightarrow> VirtualRegister \<Rightarrow> Operand \<Rightarrow> NativeInstruction \<Rightarrow> NativeInstruction option" where
  "BNDCL_BND_AGEN = build_agen XED_ICLASS_BNDCL XED_IFORM_BNDCL_BND_AGEN BNDCL_BND_AGEN_ISEL XED_CATEGORY_MPX XED_OPERAND_ACTION_R"

definition BNDMK_BND_AGEN :: "builder_env \<Rightarrow> VirtualRegister \<Rightarrow> Operand \<Rightarrow> NativeInstruction \<Rightarrow> NativeInstruction option" where
  "BNDMK_BND_AGEN = build_agen XED_ICLASS_BNDMK XED_IFORM_BNDMK_BND_AGEN BNDMK_BND_AGEN_ISEL XED_CATEGORY_MPX XED_OPERAND_ACTION_W"

text \<open>The stack pointer as a register, and moves of it over the red zone.\<close>

definition rsp_register :: "xed_api \<Rightarrow> VirtualRegister option" where
  "rsp_register X = DecodeFromNative X XED_REG_RSP"

definition SHIFT_REDZONE :: "builder_env \<Rightarrow> NativeInstruction \<Rightarrow> NativeInstruction option" where
  "SHIFT_REDZONE E instr = do {
     rsp \<leftarrow> rsp_register (be_xed E);
     LEA_GPRv_AGEN E rsp (BaseDispMemOp (- int REDZONE_SIZE_BYTES) rsp ADDRESS_WIDTH_BITS) instr
   }"

definition UNSHIFT_REDZONE :: "builder_env \<Rightarrow> NativeInstruction \<Rightarrow> NativeInstruction option" where
  "UNSHIFT_REDZONE E instr = do {
     rsp \<leftarrow> rsp_register (be_xed E);
     LEA_GPRv_AGEN E rsp (BaseDispMemOp (int REDZONE_SIZE_BYTES) rsp ADDRESS_WIDTH_BITS) instr
   }"

section \<open>Spill slots in a segment\<close>

datatype SlotCategory = SLOT_VIRTUAL_REGISTER | SLOT_PRIVATE_STACK | SLOT_SAVED_FLAGS

text \<open>The offsets of the members of a slot set.\<close>

definition slot_offset :: "SlotCategory \<Rightarrow> nat \<Rightarrow> nat option" where
  "slot_offset cat sub_category =
     (case cat of
        SLOT_VIRTUAL_REGISTER \<Rightarrow> if sub_category < MAX_NUM_SPILL_SLOTS then Some (16 + 8 * sub_category) else None
      | SLOT_PRIVATE_STACK \<Rightarrow> Some 0
      | SLOT_SAVED_FLAGS \<Rightarrow> Some 8)"

text \<open>\<open>granary_slots\<close> is the address of the calling thread's slot set, \<open>thread_base\<close> where its segment starts.\<close>

definition os_Slot :: "u64 \<Rightarrow> u64 \<Rightarrow> SlotCategory \<Rightarrow> nat \<Rightarrow> u64 option" where
  "os_Slot granary_slots thread_base cat sub_category =
     map_option (\<lambda>off. granary_slots + of_nat off - thread_base) (slot_offset cat sub_category)"

definition XED_REG_FS :: nat where [granary_simps]: "XED_REG_FS = 157"

definition SlotMemOp :: "(SlotCategory \<Rightarrow> nat \<Rightarrow> u64 option) \<Rightarrow> SlotCategory \<Rightarrow> nat \<Rightarrow> u16 \<Rightarrow> Operand option" where
  "SlotMemOp slot cat sub_category width = do {
     addr \<leftarrow> slot cat sub_category;
     Some (Operand_new\<lparr>op_type := XED_ENCODER_OPERAND_TYPE_PTR, op_segment := XED_REG_FS, is_compound := True,
       op_imm := addr, op_width := (if width = 0 then GPR_WIDTH_BITS else width)\<rparr>)
   }"

section \<open>Widths and distances\<close>

lemma top_bits_clear: "(\<forall>i. n \<le> i \<and> i < 64 \<longrightarrow> \<not> bit (x :: u64) i) \<longleftrightarrow> uint x < 2 ^ n" if "n \<le> 64"
proof -
  have "(\<forall>i. n \<le> i \<and> i < 64 \<longrightarrow> \<not> bit x i) \<longleftrightarrow> take_bit n x = x"
  proof
    assume *: "\<forall>i. n \<le> i \<and> i < 64 \<longrightarrow> \<not> bit x i"
    have "bit x i \<Longrightarrow> i < n" for i
      using *[rule_format, of i] bit_imp_le_length [of x i] by (cases "n \<le> i") auto
    then show "take_bit n x = x" by (auto simp: bit_eq_iff bit_take_bit_iff)
  next
    assume "take_bit n x = x"
    then have "bit x i = (i < n \<and> bit x i)" for i using bit_take_bit_iff [of n x i] by simp
    then show "\<forall>i. n \<le> i \<and> i < 64 \<longrightarrow> \<not> bit x i" by (metis not_less)
  qed
  also have "\<dots> \<longleftrightarrow> uint x < 2 ^ n"
    by (metis take_bit_int_eq_self_iff unsigned_take_bit_eq word_uint_eq_iff uint_ge_0)
  finally show ?thesis .
qed

lemma length_takeWhile_gt: "k < length (takeWhile P xs) \<longleftrightarrow> k < length xs \<and> (\<forall>i \<le> k. P (xs ! i))"
proof (induction xs arbitrary: k)
  case (Cons a xs)
  have "(\<forall>i \<le> Suc k'. P ((a # xs) ! i)) \<longleftrightarrow> P a \<and> (\<forall>i \<le> k'. P (xs ! i))" for k'
    by (auto simp: All_less_Suc2 simp flip: less_Suc_eq_le)
  then show ?case using Cons by (cases k) auto
qed simp

lemma clzl_less: "builtin_clzl x = Some n \<Longrightarrow> k < 64 \<Longrightarrow> k < n \<longleftrightarrow> uint x < 2 ^ (63 - k)"
proof -
  assume x: "builtin_clzl x = Some n" and k: "k < 64"
  have nth: "rev [0..<64] ! i = 63 - i" if "i < 64" for i using that by (simp add: rev_nth)
  have "k < n \<longleftrightarrow> (\<forall>i \<le> k. \<not> bit x (63 - i))"
    using x k by (auto simp: builtin_clzl_def length_takeWhile_gt nth split: if_splits)
  also have "\<dots> \<longleftrightarrow> (\<forall>j. 63 - k \<le> j \<and> j < 64 \<longrightarrow> \<not> bit x j)"
  proof
    assume *: "\<forall>i \<le> k. \<not> bit x (63 - i)"
    show "\<forall>j. 63 - k \<le> j \<and> j < 64 \<longrightarrow> \<not> bit x j"
    proof (intro allI impI)
      fix j assume "63 - k \<le> j \<and> j < 64"
      then show "\<not> bit x j" using *[rule_format, of "63 - j"] k by (simp add: le_diff_conv)
    qed
  next
    assume *: "\<forall>j. 63 - k \<le> j \<and> j < 64 \<longrightarrow> \<not> bit x j"
    then show "\<forall>i \<le> k. \<not> bit x (63 - i)" using k by (auto intro!: *[rule_format])
  qed
  also have "\<dots> \<longleftrightarrow> uint x < 2 ^ (63 - k)" by (rule top_bits_clear) simp
  finally show ?thesis .
qed

text \<open>An immediate of \<open>w\<close> bits that is sign-extended to 64 bits.\<close>

definition fits :: "nat \<Rightarrow> u64 \<Rightarrow> bool" where
  "fits w imm \<longleftrightarrow> - (2 ^ (w - 1)) \<le> sint imm \<and> sint imm < 2 ^ (w - 1)"

lemma sint_uint_64: "sint (x :: u64) = (if uint x < 2 ^ 63 then uint x else uint x - 2 ^ 64)"
proof -
  have u: "uint x < 2 ^ 64" "0 \<le> uint x" using uint_lt2p [of x] by simp_all
  then have "\<not> uint x < 2 ^ 63 \<Longrightarrow> uint x div 2 ^ 63 = 1" by (intro int_div_pos_eq [of _ _ _ "uint x - 2 ^ 63"]) auto
  then show ?thesis using u by (auto simp: sint_uint signed_take_bit_int_eq_self signed_take_bit_eq_take_bit_minus
      take_bit_int_eq_self bit_iff_odd)
qed

lemma uint_NOT_64: "uint (NOT x :: u64) = 2 ^ 64 - 1 - uint x"
proof -
  have "take_bit 64 (uint x) = uint x" using uint_lt2p [of x] by (intro take_bit_int_eq_self) simp_all
  then show ?thesis by (simp add: unsigned_not_eq take_bit_not_eq_mask_diff mask_eq_exp_minus_1)
qed

lemma ImmediateWidthBits_least:
  assumes "imm \<noteq> - 1"
  shows "\<exists>w \<in> {8, 16, 32, 64}. ImmediateWidthBits imm = Some w \<and> fits w imm \<and> (\<forall>v \<in> {8, 16, 32, 64}. fits v imm \<longrightarrow> w \<le> v)"
proof (cases "imm = 0")
  case True
  then show ?thesis by (simp add: ImmediateWidthBits_def fits_def)
next
  case False
  have n0: "NOT imm \<noteq> 0" using assms by (metis bit.double_compl bit.compl_zero)
  obtain a b where ab: "builtin_clzl imm = Some a" "builtin_clzl (NOT imm) = Some b"
    using False n0 by (simp add: builtin_clzl_def)
  have a: "(56 < a) = (uint imm < 2 ^ 7)" "(48 < a) = (uint imm < 2 ^ 15)" "(32 < a) = (uint imm < 2 ^ 31)"
    using clzl_less [OF ab(1)] by simp_all
  have b: "(56 < b) = (2 ^ 64 - 1 - uint imm < 2 ^ 7)" "(48 < b) = (2 ^ 64 - 1 - uint imm < 2 ^ 15)"
    "(32 < b) = (2 ^ 64 - 1 - uint imm < 2 ^ 31)"
    using clzl_less [OF ab(2)] by (simp_all only: uint_NOT_64) simp_all
  have u: "uint imm < 2 ^ 64" "0 \<le> uint imm" using uint_lt2p [of imm] by simp_all
  define x where "x = uint imm"
  have "- 128 \<le> x" "x < 2 ^ 64" "0 \<le> x" using u unfolding x_def by linarith+
  then show ?thesis
    using False by (simp add: ImmediateWidthBits_def ab a [folded x_def] b [folded x_def] fits_def sint_uint_64 x_def [symmetric])
qed

text \<open>The count of leading zeros is undefined for the immediate that is all ones.\<close>

lemma ImmediateWidthBits_minus_1: "ImmediateWidthBits (- 1) = None"
proof -
  have "(- 1 :: u64) \<noteq> 0" by simp
  then obtain a where a: "builtin_clzl (- 1) = Some a" by (simp add: builtin_clzl_def)
  have "\<not> 32 < a" "\<not> 48 < a" "\<not> 56 < a" using clzl_less [OF a, of 32] clzl_less [OF a, of 48] clzl_less [OF a, of 56]
    by (simp_all add: unsigned_minus_1_eq_mask mask_eq_exp_minus_1)
  then show ?thesis by (simp add: ImmediateWidthBits_def a) (simp add: builtin_clzl_def)
qed

text \<open>The test of reachability bounds the distance from the target to the source, so it takes a
  target that is \<open>2\<^sup>3\<^sup>1\<close> bytes ahead, which no signed 32-bit displacement reaches; every other target
  it takes is reachable.\<close>

lemma AddrIsOffsetReachable_diff:
  "AddrIsOffsetReachable source dest \<longleftrightarrow> - (2 ^ 31) \<le> sint (source - dest) \<and> sint (source - dest) \<le> 2 ^ 31 - 2 ^ 27"
  by (simp add: AddrIsOffsetReachable_def MinRelativeOffset_def MaxRelativeOffset_def SIGNED_MAX_def Let_def)

lemma sint_swap: "sint (x - y :: u64) \<noteq> - (2 ^ 63) \<Longrightarrow> sint (y - x) = - sint (x - y)"
proof -
  assume s: "sint (x - y) \<noteq> - (2 ^ 63)"
  define z where "z = x - y"
  have u: "uint z < 2 ^ 64" "0 \<le> uint z" using uint_lt2p [of z] by simp_all
  have "uint (- z) = (if uint z = 0 then 0 else 2 ^ 64 - uint z)"
    using u by (simp add: uint_word_ariths zmod_zminus1_eq_if)
  moreover have "y - x = - z" by (simp add: z_def)
  ultimately show ?thesis using s u unfolding z_def [symmetric] sint_uint_64 by (auto split: if_splits)
qed

section \<open>The matched operands\<close>

text \<open>What a matcher accepts, and the operands that are looked at.\<close>

definition matcher_accepts :: "xed_api \<Rightarrow> OperandMatcher \<Rightarrow> Operand \<Rightarrow> bool" where
  "matcher_accepts X m op \<longleftrightarrow> (\<exists>m'. TryMatchOperand X m 0 op = Some (Some m'))"

definition valid_operands :: "NativeInstruction \<Rightarrow> Operand list" where
  "valid_operands instr = takeWhile Operand_IsValid (ops instr)"

lemma TryMatchOperand_cases:
  assumes "IsRead X op \<or> IsWrite X op"
  obtains (yes) m' where "TryMatchOperand X m n op = Some (Some m')" "matcher_accepts X m op"
    "m_constraint m = kOperandConstraintBind \<Longrightarrow> m_op m' = op \<and> m_bound m' = Some n"
    "m_constraint m \<noteq> kOperandConstraintBind \<Longrightarrow> m' = m"
  | (no) "TryMatchOperand X m n op = Some None" "\<not> matcher_accepts X m op"
proof -
  have "OperandMatchesAction X m op \<noteq> None" using assms by (auto simp: OperandMatchesAction_def Let_def)
  then obtain a where a: "OperandMatchesAction X m op = Some a" by blast
  consider "TryMatchOperand X m n op = Some None" | m' where "TryMatchOperand X m n op = Some (Some m')"
    using a by (cases "TryMatchOperand X m n op") (auto simp: TryMatchOperand_def)
  then show ?thesis
  proof cases
    case 1
    then have "\<not> matcher_accepts X m op" using a
      by (auto simp: TryMatchOperand_def matcher_accepts_def BindOperand_def split: if_splits)
    then show ?thesis using 1 no by blast
  next
    case 2
    then have "matcher_accepts X m op" using a
      by (auto simp: TryMatchOperand_def matcher_accepts_def BindOperand_def split: if_splits)
    moreover have "m_constraint m = kOperandConstraintBind \<Longrightarrow> m_op m' = op \<and> m_bound m' = Some n"
      "m_constraint m \<noteq> kOperandConstraintBind \<Longrightarrow> m' = m"
      using 2 a by (auto simp: TryMatchOperand_def BindOperand_def split: if_splits)
    ultimately show ?thesis using 2 yes by blast
  qed
qed

text \<open>Some of the operands, in order, are accepted by the matchers one by one.\<close>

definition match_in_order :: "xed_api \<Rightarrow> OperandMatcher list \<Rightarrow> Operand list \<Rightarrow> bool" where
  "match_in_order X ms os \<longleftrightarrow> (\<exists>zs. subseq zs os \<and> list_all2 (matcher_accepts X) ms zs)"

lemma match_in_order_simps:
  "match_in_order X [] os" "\<not> match_in_order X (m # ms) []"
  "matcher_accepts X m op \<Longrightarrow> match_in_order X (m # ms) (op # os) \<longleftrightarrow> match_in_order X ms os"
  "\<not> matcher_accepts X m op \<Longrightarrow> match_in_order X (m # ms) (op # os) \<longleftrightarrow> match_in_order X (m # ms) os"
proof -
  show "match_in_order X [] os" "\<not> match_in_order X (m # ms) []" by (auto simp: match_in_order_def list_all2_Cons1)
next
  assume a: "matcher_accepts X m op"
  have "match_in_order X ms os" if "match_in_order X (m # ms) (op # os)"
  proof -
    obtain z zs where "subseq (z # zs) (op # os)" "list_all2 (matcher_accepts X) ms zs"
      using \<open>match_in_order X (m # ms) (op # os)\<close> by (auto simp: match_in_order_def list_all2_Cons1)
    then show ?thesis unfolding match_in_order_def by (metis subseq_Cons' subseq_Cons2_iff)
  qed
  moreover have "match_in_order X (m # ms) (op # os)" if "match_in_order X ms os"
    using \<open>match_in_order X ms os\<close> a unfolding match_in_order_def by (metis list_all2_Cons subseq_Cons2)
  ultimately show "match_in_order X (m # ms) (op # os) \<longleftrightarrow> match_in_order X ms os" by blast
next
  assume a: "\<not> matcher_accepts X m op"
  have "subseq zs (op # os) \<and> list_all2 (matcher_accepts X) (m # ms) zs \<longleftrightarrow>
      subseq zs os \<and> list_all2 (matcher_accepts X) (m # ms) zs" for zs
    using a by (cases zs) (auto split: if_splits)
  then show "match_in_order X (m # ms) (op # os) \<longleftrightarrow> match_in_order X (m # ms) os" by (simp only: match_in_order_def)
qed

lemma match_loop_longest:
  "\<forall>op \<in> set (takeWhile Operand_IsValid rest). IsRead X op \<or> IsWrite X op \<Longrightarrow>
   \<exists>r. match_loop X n rest ms = Some r \<and> length r \<le> length ms \<and>
     match_in_order X (take (length r) ms) (takeWhile Operand_IsValid rest) \<and>
     (\<forall>k \<le> length ms. match_in_order X (take k ms) (takeWhile Operand_IsValid rest) \<longrightarrow> k \<le> length r)"
proof (induction X n rest ms rule: match_loop.induct)
  case (3 X n op rest m ms)
  show ?case
  proof (cases "Operand_IsValid op")
    case False
    have "k = 0" if "k \<le> length (m # ms)" "match_in_order X (take k (m # ms)) []" for k
      using that by (cases k) (auto simp: match_in_order_simps)
    then show ?thesis using False by (auto simp: match_in_order_simps)
  next
    case True
    then have rw: "IsRead X op \<or> IsWrite X op"
      and rest: "\<forall>op \<in> set (takeWhile Operand_IsValid rest). IsRead X op \<or> IsWrite X op" using "3.prems" by auto
    let ?v = "takeWhile Operand_IsValid rest"
    show ?thesis using rw
    proof (cases rule: TryMatchOperand_cases [of X op m n, case_names yes no])
      case (yes m')
      obtain r where r: "match_loop X (n + 1) rest ms = Some r" "length r \<le> length ms"
        "match_in_order X (take (length r) ms) ?v"
        "\<forall>k \<le> length ms. match_in_order X (take k ms) ?v \<longrightarrow> k \<le> length r"
        using "3.IH"(2) [OF _ yes(1) refl rest] True by blast
      have "k \<le> Suc (length r)" if k: "k \<le> length (m # ms)" "match_in_order X (take k (m # ms)) (op # ?v)" for k
      proof (cases k)
        case (Suc k')
        then have "match_in_order X (take k' ms) ?v" using k(2) yes(2) by (simp add: match_in_order_simps)
        then show ?thesis using r(4) k(1) Suc by auto
      qed simp
      then show ?thesis using True yes r by (auto simp: match_in_order_simps)
    next
      case no
      obtain r where r: "match_loop X (n + 1) rest (m # ms) = Some r" "length r \<le> length (m # ms)"
        "match_in_order X (take (length r) (m # ms)) ?v"
        "\<forall>k \<le> length (m # ms). match_in_order X (take k (m # ms)) ?v \<longrightarrow> k \<le> length r"
        using "3.IH"(1) [OF _ no(1) refl rest] True by blast
      have "k \<le> length r" if k: "k \<le> length (m # ms)" "match_in_order X (take k (m # ms)) (op # ?v)" for k
      proof (cases k)
        case (Suc k')
        then have "match_in_order X (take k (m # ms)) ?v" using k(2) no(2) by (simp add: match_in_order_simps)
        then show ?thesis using r(4) k(1) by auto
      qed simp
      moreover have "match_in_order X (take (length r) (m # ms)) (op # ?v)"
        using r(3) no(2) by (cases "length r") (simp_all add: match_in_order_simps)
      ultimately show ?thesis using True no r(1,2) by auto
    qed
  qed
next
  case (2 X n m ms)
  have "k = 0" if "k \<le> length (m # ms)" "match_in_order X (take k (m # ms)) []" for k
    using that by (cases k) (auto simp: match_in_order_simps)
  then show ?case by (auto simp: match_in_order_simps)
qed (simp add: match_in_order_simps)

section \<open>Shifts of the stack pointer\<close>

text \<open>An instruction with a shift amount shifts the stack pointer.\<close>

lemma shift_amount_shifts:
  assumes "StackPointerShiftAmount instr = Some k" "k \<noteq> 0"
  shows "ShiftsStackPointer instr"
  using assms unfolding StackPointerShiftAmount_def ShiftsStackPointer_def Let_def
  by (simp add: granary_simps split: if_splits)

text \<open>The instruction that the builder makes for \<^verbatim>\<open>LEA\<close> with the stack pointer as destination and as
  base shifts the stack pointer by the displacement.\<close>

definition sp_form :: "VirtualRegister \<Rightarrow> bool" where
  "sp_form r \<longleftrightarrow> IsNative r \<and> IsStackPointer r \<and> \<not> (XED_REG_AH \<le> EncodeToNative r \<and> EncodeToNative r \<le> XED_REG_BH)"

definition lea_ops :: "VirtualRegister \<Rightarrow> Operand \<Rightarrow> Operand list" where
  "lea_ops r a =
     [Operand_new\<lparr>op_type := XED_ENCODER_OPERAND_TYPE_REG, op_reg := r, op_rw := XED_OPERAND_ACTION_W,
        op_width := of_nat (BitWidth r), is_explicit := True\<rparr>,
      (Operand_assign Operand_new a)\<lparr>op_rw := XED_OPERAND_ACTION_R, is_effective_address := True\<rparr>]"

lemma build_op_new:
  assumes "length (ops i) = num_explicit_ops i" "num_explicit_ops i < MAX_NUM_OPERANDS"
  shows "build_op f i = Some (i\<lparr>ops := ops i @ [f Operand_new], num_explicit_ops := num_explicit_ops i + 1\<rparr>)"
  using assms by (simp add: build_op_def set_op_def op_at_def)

lemma LEA_GPRv_AGEN_built:
  assumes "sp_form r" "be_implicit E LEA_GPRv_AGEN_ISEL = []" "\<not> IsStackPointer (mem_index a)"
  obtains i where "LEA_GPRv_AGEN E r a Instruction_new = Some i" "iclass i = XED_ICLASS_LEA" "ops i = lea_ops r a"
    "\<not> is_stack_blind i" "meta_data i = 0" "effective_operand_width i = 0"
proof -
  let ?i0 = "Instruction_new\<lparr>iclass := XED_ICLASS_LEA, iform := XED_IFORM_LEA_GPRv_AGEN, isel := LEA_GPRv_AGEN_ISEL,
      category := XED_CATEGORY_MISC\<rparr>"
  have b: "BuildInstruction XED_ICLASS_LEA XED_IFORM_LEA_GPRv_AGEN LEA_GPRv_AGEN_ISEL XED_CATEGORY_MISC Instruction_new = Some ?i0"
    by (simp add: BuildInstruction_def Instruction_new_def granary_simps)
  let ?i1 = "?i0\<lparr>ops := [hd (lea_ops r a)], num_explicit_ops := 1\<rparr>"
  have r: "RegisterBuilder_Build r XED_OPERAND_ACTION_W ?i0 = Some ?i1"
    using assms(1) unfolding RegisterBuilder_Build_def
    by (subst build_op_new) (auto simp: Instruction_new_def granary_simps lea_ops_def sp_form_def Operand_new_def)
  let ?i2 = "?i0\<lparr>ops := lea_ops r a, num_explicit_ops := 2\<rparr>"
  have m: "MemoryBuilder_Build (BUILD_OPERAND a) XED_OPERAND_ACTION_R ?i1 = Some ?i2"
    unfolding MemoryBuilder_Build_def
    by (subst build_op_new)
      (simp_all add: Instruction_new_def granary_simps lea_ops_def is_agen_form_def Operand_assign_def Let_def Operand_new_def)
  have "\<exists>i. opt_fold (AnalyzeOperandStackUsage (be_xed E)) (filter Operand_IsValid (lea_ops r a)) j = Some i \<and>
      iclass i = iclass j \<and> ops i = ops j \<and> is_stack_blind i = is_stack_blind j \<and> meta_data i = meta_data j \<and>
      effective_operand_width i = effective_operand_width j" for j
    using assms(3) by (auto simp: lea_ops_def AnalyzeOperandStackUsage_def Operand_assign_def Operand_IsValid_def)
  note usage = this
  have "LEA_GPRv_AGEN_ISEL \<noteq> 0" "length (lea_ops r a) = 2" by (simp_all add: LEA_GPRv_AGEN_ISEL_def lea_ops_def)
  then have "FinalizeInstruction (be_xed E) (be_implicit E) ?i2 =
      opt_fold (AnalyzeOperandStackUsage (be_xed E)) (filter Operand_IsValid (lea_ops r a)) (?i2\<lparr>num_ops := 2, analyzed_stack_usage := True\<rparr>)"
    using assms(2) by (simp add: FinalizeInstruction_def AnalyzeStackUsage_def Instruction_new_def granary_simps numeral_2_eq_2)
  with usage [of "?i2\<lparr>num_ops := 2, analyzed_stack_usage := True\<rparr>"] obtain i where
    "FinalizeInstruction (be_xed E) (be_implicit E) ?i2 = Some i" "iclass i = XED_ICLASS_LEA" "ops i = lea_ops r a"
    "\<not> is_stack_blind i" "meta_data i = 0" "effective_operand_width i = 0"
    by (auto simp: Instruction_new_def)
  then show ?thesis using b r m by (intro that) (simp_all add: LEA_GPRv_AGEN_def build_agen_def)
qed

lemma lea_sp_shift:
  assumes "iclass i = XED_ICLASS_LEA" "ops i = lea_ops r (BaseDispMemOp k r w)" "\<not> is_stack_blind i" "IsStackPointer r"
    and "- (2 ^ 31) \<le> k" "k < 2 ^ 31"
  shows "StackPointerShiftAmount i = Some k"
proof -
  have "sint (of_int k :: u32) = k" using assms(5,6) by (simp add: signed_of_int signed_take_bit_int_eq_self)
  then show ?thesis using assms(1-4)
    by (auto simp: StackPointerShiftAmount_def op_at_def lea_ops_def is_sp_reg_def is_sp_agen_def BaseDispMemOp_def
        Operand_assign_def Operand_new_def IsRegister_def IsMemory_def IsPointer_def VirtualRegister_IsValid_def
        VirtualRegister_default_def granary_simps)
qed

text \<open>A branch target that is built from a label operand is taken for an address, and the other way
  round.\<close>

lemma branch_target_swapped:
  assumes "BranchTargetBuilder_Build (BRANCH_TARGET_LABEL l) i = Some j" "length (ops i) = num_explicit_ops i"
  shows "BranchTargetBuilder_of_op (op_at j (num_explicit_ops i)) = BRANCH_TARGET_PC l"
  using assms
  by (auto simp: BranchTargetBuilder_Build_def build_op_def set_op_def op_at_def BranchTargetBuilder_of_op_def nth_append
      split: if_splits)

section \<open>Properties\<close>

text \<open>Matching the operands of an instruction greedily finds the longest sequence of matchers that
  some of its operands match in order.\<close>

theorem CountMatchedOperands_longest:
  assumes "iform i \<noteq> 0" "isel i \<noteq> 0" "num_explicit_ops i \<le> num_ops i" "list_all (\<lambda>op. IsRead X op \<or> IsWrite X op) (valid_operands i)"
  shows "\<exists>r. CountMatchedOperands X ms i = Some r \<and> length r \<le> length ms \<and> match_in_order X (take (length r) ms) (valid_operands i) \<and>
    (\<forall>k \<le> length ms. match_in_order X (take k ms) (valid_operands i) \<longrightarrow> k \<le> length r)"
  using match_loop_longest [of "ops i" X 0 ms] assms by (simp add: CountMatchedOperands_def valid_operands_def list_all_iff)

definition match_example :: NativeInstruction where
  "match_example = Instruction_new\<lparr>iform := 5, isel := 5, num_ops := 1, num_explicit_ops := 1,
     ops := [Operand_new\<lparr>op_type := XED_ENCODER_OPERAND_TYPE_REG, op_rw := XED_OPERAND_ACTION_R\<rparr>]\<rparr>"

definition bind_example :: OperandMatcher where
  "bind_example = \<lparr>m_op = Operand_new, m_action = kOperandActionRead, m_constraint = kOperandConstraintBind,
     m_type = kOperandTypeRegister, m_bound = None\<rparr>"

theorem CountMatchedOperands_longest_witness:
  "\<exists>r. CountMatchedOperands doc_xed [bind_example] match_example = Some r \<and> length r = 1"
proof -
  have ok: "iform match_example \<noteq> 0" "isel match_example \<noteq> 0" "num_explicit_ops match_example \<le> num_ops match_example"
    "list_all (\<lambda>op. IsRead doc_xed op \<or> IsWrite doc_xed op) (valid_operands match_example)" by code_simp+
  have op: "ops match_example = [Operand_new\<lparr>op_type := XED_ENCODER_OPERAND_TYPE_REG, op_rw := XED_OPERAND_ACTION_R\<rparr>]"
    "valid_operands match_example = ops match_example" by (simp add: match_example_def) code_simp
  have "TryMatchOperand doc_xed bind_example 0 (hd (ops match_example)) \<noteq> Some None" "TryMatchOperand doc_xed bind_example 0 (hd (ops match_example)) \<noteq> None"
    by code_simp+
  then have "matcher_accepts doc_xed bind_example (hd (ops match_example))" by (auto simp: matcher_accepts_def)
  then have one: "match_in_order doc_xed [bind_example] (valid_operands match_example)"
    by (simp add: op match_in_order_simps)
  obtain r where "CountMatchedOperands doc_xed [bind_example] match_example = Some r" "length r \<le> 1"
    "\<forall>k \<le> 1. match_in_order doc_xed (take k [bind_example]) (valid_operands match_example) \<longrightarrow> k \<le> length r"
    using CountMatchedOperands_longest [OF ok, of "[bind_example]"] by auto
  then show ?thesis using one by (intro exI [of _ r]) (auto dest: spec [of _ 1])
qed

text \<open>The width that is found for an immediate is the least of 8, 16, 32 and 64 bits from which
  sign-extension gives the immediate, for every immediate but the one with all bits set.\<close>

theorem ImmediateWidthBits_sign_extends:
  assumes "imm \<noteq> - 1"
  shows "\<exists>w \<in> {8, 16, 32, 64}. ImmediateWidthBits imm = Some w \<and> fits w imm \<and> (\<forall>v \<in> {8, 16, 32, 64}. fits v imm \<longrightarrow> w \<le> v)"
  by (rule ImmediateWidthBits_least [OF assms])

theorem ImmediateWidthBits_sign_extends_witness: "ImmediateWidthBits (- 128) = Some 8 \<and> fits 8 (- 128)"
proof -
  have "fits 8 (- 128)" by (simp add: fits_def)
  then show ?thesis using ImmediateWidthBits_sign_extends [of "- 128"] by auto
qed

end
