(* ===== verification/Alloc_Slots.thy ===== *)
theory Alloc_Slots
  imports Instructions Schedule_Regs Entry_Exit "HOL-Library.Signed_Division"
begin

text \<open>
  The assembler's pass that gives spill slots a place
  (\<^verbatim>\<open>granary/code/assemble/9_allocate_slots.cc\<close> and its architecture-specific part): the sizes
  of the stack frames of a partition are found, space below the frame and the red zone is taken on
  entry to the partition and given back on its exits, instructions that use the stack pointer are
  changed to work with the shifted one, and spill slots become places on the stack, or in the
  thread's segment where the stack is not usable. This is the build for user space with
  assertions. The generated instruction builders are a parameter. \<^const>\<open>None\<close> is a failed
  assertion or a loop that runs forever.
\<close>

section \<open>Stack frame analysis\<close>

text \<open>The partition of a fragment; a null pointer is not followed.\<close>

definition partition_of :: "nat \<Rightarrow> frag_state \<Rightarrow> (nat \<times> frag_state) option" where
  "partition_of frag s = do {
     (ps, p) \<leftarrow> Value (parts s) frag;
     info \<leftarrow> p;
     Some (info, s\<lparr>parts := ps\<rparr>)
   }"

definition upd_info :: "nat \<Rightarrow> (PartitionInfo \<Rightarrow> PartitionInfo) \<Rightarrow> frag_state \<Rightarrow> frag_state" where
  "upd_info p f s = s\<lparr>info_at := (info_at s)(p := f (info_at s p))\<rparr>"

definition upd_native :: "nat \<Rightarrow> (NativeInstruction \<Rightarrow> NativeInstruction) \<Rightarrow> frag_state \<Rightarrow> frag_state" where
  "upd_native i f s = s\<lparr>instr_at := (instr_at s)(i := (case instr_at s i of Native n \<Rightarrow> Native (f n) | x \<Rightarrow> x))\<rparr>"

text \<open>The second part of the state counts the partition entry fragments of each partition.\<close>

definition InitStackFrameAnalysis_frag :: "nat \<Rightarrow> frag_state \<times> (nat \<Rightarrow> nat) \<Rightarrow> (frag_state \<times> (nat \<Rightarrow> nat)) option" where
  "InitStackFrameAnalysis_frag frag = (\<lambda>(s, entries). do {
     s \<leftarrow> (if stack_status (frag_at s frag) = kStackStatusInvalid then do {
             (ps, p) \<leftarrow> Value (parts s) frag;
             let s = s\<lparr>parts := ps\<rparr>;
             Some (case p of None \<Rightarrow> s | Some info \<Rightarrow> upd_info info (\<lambda>i. i\<lparr>analyze_stack_frame := False\<rparr>) s)
           } else Some s);
     if IsA PartitionEntryFragment s (Some frag) then do {
       (info, s) \<leftarrow> partition_of frag s;
       let entries = entries(info := entries info + 1);
       if entries info = 1 then Some (s, entries) else None
     } else Some (s, entries)
   })"

definition InitStackFrameAnalysis :: "frag_state \<Rightarrow> frag_state option" where
  "InitStackFrameAnalysis s = map_option fst (opt_fold InitStackFrameAnalysis_frag (flist s) (s, \<lambda>_. 0))"

record FrameAdjust =
  fa_shift :: int
  fa_compute :: int

text \<open>The two 32-bit members, as the instruction's meta-data.\<close>

definition frame_adjust_meta :: "FrameAdjust \<Rightarrow> u64" where
  "frame_adjust_meta adjust =
     ucast (of_int (fa_shift adjust) :: u32) OR push_bit 32 (ucast (of_int (fa_compute adjust) :: u32))"

definition meta_frame_adjust :: "u64 \<Rightarrow> FrameAdjust" where
  "meta_frame_adjust meta = \<lparr>fa_shift = sint (ucast meta :: u32), fa_compute = sint (ucast (drop_bit 32 meta) :: u32)\<rparr>"

definition InitFrameAdjust_instr :: "nat \<Rightarrow> frag_state \<Rightarrow> frag_state option" where
  "InitFrameAdjust_instr i s =
     (case instr_at s i of
        Native n \<Rightarrow>
          map_option (\<lambda>shift. upd_native i (\<lambda>n. n\<lparr>meta_data := frame_adjust_meta
              \<lparr>fa_shift = shift, fa_compute = ComputedOffsetBelowStackPointer n\<rparr>\<rparr>) s) (StackPointerShiftAmount n)
      | _ \<Rightarrow> Some s)"

definition InitFrameAdjust :: "nat \<Rightarrow> frag_state \<Rightarrow> frag_state option" where
  "InitFrameAdjust frag s = opt_fold InitFrameAdjust_instr (f_instrs (frag_at s frag)) s"

text \<open>The offset of the stack pointer and the least offset of the partition, over an instruction. Offsets are
  integers here, 32-bit ones in the code: the sum of the shifts of one partition's
  instructions stays far below \<open>2 ^ 31\<close>, and an overflow of \<^verbatim>\<open>int\<close> is undefined.\<close>

definition frame_step :: "FrameAdjust \<Rightarrow> int \<times> int \<Rightarrow> (int \<times> int) option" where
  "frame_step adjust = (\<lambda>(offset, least). do {
     least \<leftarrow> (if fa_compute adjust = 0 then Some least
               else if fa_compute adjust < 0 then Some (min least (offset + fa_compute adjust)) else None);
     Some (if fa_shift adjust \<noteq> 0 then (offset + fa_shift adjust, min least (offset + fa_shift adjust)) else (offset, least))
   })"

definition frame_adjusts :: "frag_state \<Rightarrow> nat \<Rightarrow> FrameAdjust list" where
  "frame_adjusts s frag =
     map (meta_frame_adjust \<circ> meta_data) (List.map_filter (native_at s) (f_instrs (frag_at s frag)))"

definition FindFrameSize :: "nat \<Rightarrow> nat \<Rightarrow> frag_state \<Rightarrow> (bool \<times> frag_state) option" where
  "FindFrameSize info frag s = do {
     let old_part_min = min_frame_offset (info_at s info);
     (offset, least) \<leftarrow> opt_fold frame_step (frame_adjusts s frag) (entry_offset (stack_frame (frag_at s frag)), old_part_min);
     let s = upd_info info (\<lambda>i. i\<lparr>min_frame_offset := least\<rparr>) s;
     if offset \<noteq> exit_offset (stack_frame (frag_at s frag))
     then Some (True, upd_frag frag (\<lambda>f. f\<lparr>stack_frame := (stack_frame f)\<lparr>exit_offset := offset\<rparr>\<rparr>) s)
     else Some (old_part_min \<noteq> least, s)
   }"

definition frame_edge :: "nat \<Rightarrow> nat option \<Rightarrow> frag_state \<Rightarrow> frag_state option" where
  "frame_edge frag succ s =
     (case succ of
        None \<Rightarrow> Some s
      | Some b \<Rightarrow> do {
          (s, same) \<leftarrow> same_partition b frag s;
          Some (if \<not> same \<or> IsA PartitionEntryFragment s (Some b) then s
                else upd_frag b (\<lambda>f. f\<lparr>stack_frame := (stack_frame f)
                  \<lparr>entry_offset := exit_offset (stack_frame (frag_at s frag))\<rparr>\<rparr>) s)
        })"

definition init_adjust_frag :: "nat \<Rightarrow> frag_state \<Rightarrow> frag_state option" where
  "init_adjust_frag frag s = do {
     (info, s) \<leftarrow> partition_of frag s;
     if analyze_stack_frame (info_at s info) then InitFrameAdjust frag s else Some s
   }"

definition frame_frag :: "nat \<Rightarrow> bool \<times> frag_state \<Rightarrow> (bool \<times> frag_state) option" where
  "frame_frag frag = (\<lambda>(changed, s). do {
     (info, s) \<leftarrow> partition_of frag s;
     if \<not> analyze_stack_frame (info_at s info) then Some (changed, s)
     else do {
       (c, s) \<leftarrow> FindFrameSize info frag s;
       s \<leftarrow> opt_fold (frame_edge frag) (successors (frag_at s frag)) s;
       Some (c \<or> changed, s)
     }
   })"

partial_function (option) frames_loop :: "frag_state \<Rightarrow> frag_state option" where
  "frames_loop s =
     Option.bind (opt_fold frame_frag (flist s) (False, s)) (\<lambda>(changed, s). if changed then frames_loop s else Some s)"

definition FindFrameSizes :: "frag_state \<Rightarrow> frag_state option" where
  "FindFrameSizes s = Option.bind (opt_fold init_adjust_frag (flist s) s) frames_loop"

section \<open>Instructions that use the stack pointer\<close>

text \<open>The generated builders overwrite an instruction.\<close>

record stack_builder =
  sb_env :: builder_env
  sb_mov_mem_gpr :: "Operand \<Rightarrow> VirtualRegister \<Rightarrow> NativeInstruction \<Rightarrow> NativeInstruction"
  sb_mov_mem_imm :: "Operand \<Rightarrow> u64 \<Rightarrow> u16 \<Rightarrow> NativeInstruction \<Rightarrow> NativeInstruction"
  sb_mov_gpr_mem :: "VirtualRegister \<Rightarrow> Operand \<Rightarrow> NativeInstruction \<Rightarrow> NativeInstruction"
  sb_pop_gpr :: "VirtualRegister \<Rightarrow> NativeInstruction \<Rightarrow> NativeInstruction"
  sb_push_mem :: "Operand \<Rightarrow> NativeInstruction \<Rightarrow> NativeInstruction"
  sb_nop :: "NativeInstruction \<Rightarrow> NativeInstruction"
  sb_test_gpr_gpr :: "VirtualRegister \<Rightarrow> VirtualRegister \<Rightarrow> NativeInstruction \<Rightarrow> NativeInstruction"

abbreviation sb_rsp :: "stack_builder \<Rightarrow> VirtualRegister option" where
  "sb_rsp B \<equiv> rsp_register (be_xed (sb_env B))"

definition AllocateStackSpace :: "stack_builder \<Rightarrow> int \<Rightarrow> NativeInstruction option" where
  "AllocateStackSpace B amount = do {
     rsp \<leftarrow> sb_rsp B;
     LEA_GPRv_AGEN (sb_env B) rsp (BaseDispMemOp amount rsp ADDRESS_WIDTH_BITS) Instruction_new
   }"

definition FreeStackSpace :: "stack_builder \<Rightarrow> int \<Rightarrow> NativeInstruction option" where
  "FreeStackSpace B amount = AllocateStackSpace B amount"

definition ManglePush :: "stack_builder \<Rightarrow> int \<Rightarrow> NativeInstruction \<Rightarrow> NativeInstruction option" where
  "ManglePush B adjusted_offset ainstr = do {
     rsp \<leftarrow> sb_rsp B;
     let op = op_at ainstr 0;
     let mem_width = effective_operand_width ainstr;
     let mem_op = BaseDispMemOp adjusted_offset rsp mem_width;
     if mem_width = 0 then None
     else map_option (\<lambda>n. n\<lparr>effective_operand_width := mem_width\<rparr>)
       (if IsRegister op then Some (sb_mov_mem_gpr B mem_op (op_reg op) ainstr)
        else if IsImmediate op then
          if mem_width = 16
          then if ucast (ucast (op_imm op) :: u16) = op_imm op then Some (sb_mov_mem_imm B mem_op (op_imm op) 16 ainstr) else None
          else if ucast (ucast (op_imm op) :: u32) = op_imm op then Some (sb_mov_mem_imm B mem_op (op_imm op) 32 ainstr) else None
        else None)
   }"

definition ManglePop :: "stack_builder \<Rightarrow> int \<Rightarrow> NativeInstruction \<Rightarrow> NativeInstruction option" where
  "ManglePop B adjusted_offset ainstr = do {
     rsp \<leftarrow> sb_rsp B;
     let op = op_at ainstr 0;
     let mem_width = effective_operand_width ainstr;
     if IsRegister op \<and> mem_width \<noteq> 0
     then Some ((sb_mov_gpr_mem B (op_reg op) (BaseDispMemOp adjusted_offset rsp mem_width) ainstr)
            \<lparr>effective_operand_width := mem_width\<rparr>)
     else None
   }"

definition IsSpillSlot :: "Operand \<Rightarrow> bool" where
  "IsSpillSlot op \<longleftrightarrow> IsMemory op \<and> \<not> IsPointer op \<and> \<not> is_compound op \<and> IsVirtualSlot (op_reg op)"

definition ManglePushFlags :: "stack_builder \<Rightarrow> nat \<Rightarrow> nat \<Rightarrow> int \<Rightarrow> frag_state \<Rightarrow> frag_state option" where
  "ManglePushFlags B frag instr adjusted_offset s = do {
     rsp \<leftarrow> sb_rsp B;
     ainstr \<leftarrow> native_at s instr;
     let op_width_bits = effective_operand_width ainstr;
     flag_access_reg \<leftarrow> Widen (op_reg (op_at ainstr 0)) (unat op_width_bits div 8);
     if op_width_bits = 0 then None
     else do {
       let mov = (sb_mov_mem_gpr B (BaseDispMemOp adjusted_offset rsp op_width_bits) flag_access_reg Instruction_new)
         \<lparr>effective_operand_width := op_width_bits\<rparr>;
       let s = InsertAfter frag instr (Native mov) s;
       let pop = (sb_pop_gpr B flag_access_reg mov)\<lparr>effective_operand_width := op_width_bits\<rparr>;
       let s = InsertAfter frag instr (Native pop) s;
       Some (upd_native instr (\<lambda>n. (set_op 0 ((op_at n 0)\<lparr>op_type := XED_ENCODER_OPERAND_TYPE_INVALID\<rparr>) n)
         \<lparr>num_explicit_ops := num_explicit_ops n - 1\<rparr>) s)
     }
   }"

definition ManglePopFlags :: "stack_builder \<Rightarrow> nat \<Rightarrow> nat \<Rightarrow> int \<Rightarrow> frag_state \<Rightarrow> frag_state option" where
  "ManglePopFlags B frag instr adjusted_offset s = do {
     rsp \<leftarrow> sb_rsp B;
     ainstr \<leftarrow> native_at s instr;
     let op_width = effective_operand_width ainstr;
     if op_width = 0 then None
     else Some (InsertBefore frag instr (Native ((sb_push_mem B (BaseDispMemOp adjusted_offset rsp op_width) Instruction_new)
            \<lparr>effective_operand_width := op_width\<rparr>)) s)
   }"

definition AdjustMemOp :: "VirtualRegister \<Rightarrow> int \<Rightarrow> Operand \<Rightarrow> Operand option" where
  "AdjustMemOp rsp adjusted_offset mem_op =
     (if \<not> is_explicit mem_op \<or> IsPointer mem_op then Some mem_op
      else if is_compound mem_op then
        if IsStackPointer (mem_index mem_op) then None
        else Some (if IsStackPointer (op_reg mem_op) then mem_op\<lparr>mem_disp := mem_disp mem_op + of_int adjusted_offset\<rparr> else mem_op)
      else Some (if IsStackPointer (op_reg mem_op)
                 then Operand_assign mem_op (BaseDispMemOp adjusted_offset rsp GPR_WIDTH_BITS) else mem_op))"

fun adjust_ops :: "VirtualRegister \<Rightarrow> int \<Rightarrow> Operand list \<Rightarrow> Operand list option" where
  "adjust_ops rsp adjusted_offset [] = Some []"
| "adjust_ops rsp adjusted_offset (op # rest) = do {
     op \<leftarrow> (if IsMemory op then AdjustMemOp rsp adjusted_offset op else Some op);
     rest \<leftarrow> adjust_ops rsp adjusted_offset rest;
     Some (op # rest)
   }"

definition GenericAdjustMemOps :: "stack_builder \<Rightarrow> int \<Rightarrow> NativeInstruction \<Rightarrow> NativeInstruction option" where
  "GenericAdjustMemOps B adjusted_offset instr = do {
     rsp \<leftarrow> sb_rsp B;
     (w, instr) \<leftarrow> WritesToStackPointer (be_xed (sb_env B)) instr;
     if w then None
     else do {
       (r, instr) \<leftarrow> ReadsFromStackPointer (be_xed (sb_env B)) instr;
       if r then map_option (\<lambda>os. instr\<lparr>ops := os\<rparr>) (adjust_ops rsp adjusted_offset (ops instr)) else Some instr
     }
   }"

text \<open>A spill slot on the stack: the members of the memory operand and whether it is compound.\<close>

definition stack_slot_op :: "VirtualRegister \<Rightarrow> Operand \<Rightarrow> Operand" where
  "stack_slot_op rsp mem_op =
     (let new_mem_op = BaseDispMemOp (int (Number (op_reg mem_op)) * int GPR_WIDTH_BYTES) rsp GPR_WIDTH_BITS in
      mem_op\<lparr>op_reg := op_reg new_mem_op, mem_index := mem_index new_mem_op, mem_disp := mem_disp new_mem_op,
             mem_scale := mem_scale new_mem_op, is_compound := is_compound new_mem_op\<rparr>)"

definition MangleMov :: "stack_builder \<Rightarrow> int \<Rightarrow> NativeInstruction \<Rightarrow> NativeInstruction option" where
  "MangleMov B adjusted_offset ainstr = do {
     rsp \<leftarrow> sb_rsp B;
     let op0 = op_at ainstr 0;
     let op1 = op_at ainstr 1;
     if IsSpillSlot op0 then Some (set_op 0 (stack_slot_op rsp op0) ainstr)
     else if IsSpillSlot op1 then Some (set_op 1 (stack_slot_op rsp op1) ainstr)
     else if IsMemory op0 then map_option (\<lambda>op. set_op 0 op ainstr) (AdjustMemOp rsp adjusted_offset op0)
     else if IsMemory op1 then map_option (\<lambda>op. set_op 1 op ainstr) (AdjustMemOp rsp adjusted_offset op1)
     else Some ainstr
   }"

definition MangleXchg :: "stack_builder \<Rightarrow> int \<Rightarrow> NativeInstruction \<Rightarrow> NativeInstruction option" where
  "MangleXchg B adjusted_offset ainstr = do {
     rsp \<leftarrow> sb_rsp B;
     let op0 = op_at ainstr 0;
     if \<not> IsMemory op0 then Some ainstr
     else if IsSpillSlot op0 then Some (set_op 0 (stack_slot_op rsp op0) ainstr)
     else map_option (\<lambda>op. set_op 0 op ainstr) (AdjustMemOp rsp adjusted_offset op0)
   }"

definition MangleLEA :: "stack_builder \<Rightarrow> int \<Rightarrow> NativeInstruction \<Rightarrow> NativeInstruction option" where
  "MangleLEA B adjusted_offset ainstr = do {
     rsp \<leftarrow> sb_rsp B;
     let dst = op_at ainstr 0;
     let src = op_at ainstr 1;
     if IsStackPointer (op_reg dst) then
       if (if is_compound src then IsStackPointer (op_reg src) \<and> \<not> VirtualRegister_IsValid (mem_index src)
           else IsStackPointer (op_reg src)) \<and> \<not> is_sticky_instr ainstr
       then Some (sb_nop B ainstr) else None
     else map_option (\<lambda>op. set_op 1 op ainstr) (AdjustMemOp rsp adjusted_offset src)
   }"

definition MangleArith :: "stack_builder \<Rightarrow> int \<Rightarrow> NativeInstruction \<Rightarrow> NativeInstruction option" where
  "MangleArith B adjusted_offset ainstr =
     (if \<not> is_sp_reg (op_at ainstr 0) then GenericAdjustMemOps B adjusted_offset ainstr
      else if iclass ainstr \<in> {XED_ICLASS_ADD, XED_ICLASS_SUB} \<and> \<not> IsImmediate (op_at ainstr 1) then None
      else do {
        rsp \<leftarrow> sb_rsp B;
        Some ((sb_test_gpr_gpr B rsp rsp ainstr)\<lparr>effective_operand_width := GPR_WIDTH_BITS\<rparr>)
      })"

definition mangle_native ::
    "(NativeInstruction \<Rightarrow> NativeInstruction option) \<Rightarrow> nat \<Rightarrow> frag_state \<Rightarrow> frag_state option" where
  "mangle_native f instr s =
     (case instr_at s instr of
        Native n \<Rightarrow> map_option (\<lambda>n. s\<lparr>instr_at := (instr_at s)(instr := Native n)\<rparr>) (f n)
      | _ \<Rightarrow> Some s)"

definition AdjustStackInstruction :: "stack_builder \<Rightarrow> nat \<Rightarrow> nat \<Rightarrow> int \<Rightarrow> int \<Rightarrow> frag_state \<Rightarrow> frag_state option" where
  "AdjustStackInstruction B frag instr adjusted_offset next_adjusted_offset s = do {
     ainstr \<leftarrow> native_at s instr;
     let c = iclass ainstr;
     if is_stack_blind ainstr then Some s
     else if c = XED_ICLASS_PUSH then mangle_native (ManglePush B next_adjusted_offset) instr s
     else if c = XED_ICLASS_POP then mangle_native (ManglePop B adjusted_offset) instr s
     else if c \<in> {XED_ICLASS_PUSHF, XED_ICLASS_PUSHFQ} then
       if is_sticky_instr ainstr then Some s else ManglePushFlags B frag instr next_adjusted_offset s
     else if c \<in> {XED_ICLASS_POPF, XED_ICLASS_POPFQ} then ManglePopFlags B frag instr adjusted_offset s
     else if c = XED_ICLASS_RET_NEAR then Some s
     else if c = XED_ICLASS_MOV then mangle_native (MangleMov B adjusted_offset) instr s
     else if c = XED_ICLASS_XCHG then mangle_native (MangleXchg B adjusted_offset) instr s
     else if c = XED_ICLASS_LEA then mangle_native (MangleLEA B adjusted_offset) instr s
     else if c \<in> {XED_ICLASS_SUB, XED_ICLASS_ADD, XED_ICLASS_INC, XED_ICLASS_DEC} then
       mangle_native (MangleArith B adjusted_offset) instr s
     else if c \<in> {XED_ICLASS_CALL_NEAR, XED_ICLASS_CALL_FAR, XED_ICLASS_RET_FAR, XED_ICLASS_IRET, XED_ICLASS_INT3,
         XED_ICLASS_INT, XED_ICLASS_BOUND, XED_ICLASS_PUSHFD, XED_ICLASS_POPFD} then None
     else mangle_native (GenericAdjustMemOps B adjusted_offset) instr s
   }"

section \<open>Space on the stack\<close>

definition adjust_instr ::
    "stack_builder \<Rightarrow> nat \<Rightarrow> int \<Rightarrow> nat \<Rightarrow> int \<times> frag_state \<Rightarrow> (int \<times> frag_state) option" where
  "adjust_instr B frag frame_space instr = (\<lambda>(offset, s).
     case instr_at s instr of
       Native ninstr \<Rightarrow>
         let next_offset = offset + fa_shift (meta_frame_adjust (meta_data ninstr))
         in map_option (\<lambda>s. (next_offset, s))
              (AdjustStackInstruction B frag instr (offset - frame_space) (next_offset - frame_space) s)
     | _ \<Rightarrow> Some (offset, s))"

definition AdjustStackInstructions :: "stack_builder \<Rightarrow> nat \<Rightarrow> int \<Rightarrow> frag_state \<Rightarrow> frag_state option" where
  "AdjustStackInstructions B frag frame_space s =
     map_option snd (opt_fold (adjust_instr B frag frame_space) (f_instrs (frag_at s frag))
       (entry_offset (stack_frame (frag_at s frag)), s))"

text \<open>The alignment macro on signed numbers: the remainder has the sign of the dividend.\<close>

definition GRANARY_ALIGN_TO :: "int \<Rightarrow> int \<Rightarrow> int" where
  "GRANARY_ALIGN_TO x align = x + (if x smod align \<noteq> 0 then align - x smod align else 0)"

definition frame_space_of :: "PartitionInfo \<Rightarrow> int" where
  "frame_space_of info =
     (let vr_space = int (num_slots info * GPR_WIDTH_BYTES + REDZONE_SIZE_BYTES)
      in GRANARY_ALIGN_TO (min_frame_offset info - vr_space) (- int GPR_WIDTH_BYTES))"

definition AllocateStackSlotsStackValid :: "stack_builder \<Rightarrow> nat \<Rightarrow> nat \<Rightarrow> frag_state \<Rightarrow> frag_state option" where
  "AllocateStackSlotsStackValid B info frag s =
     (let frame_space = frame_space_of (info_at s info) in
      if IsA PartitionEntryFragment s (Some frag) then
        map_option (\<lambda>n. Append frag (Native n) s) (AllocateStackSpace B frame_space)
      else if IsA PartitionExitFragment s (Some frag) then
        map_option (\<lambda>n. Append frag (Native n) s)
          (FreeStackSpace B (- (frame_space - entry_offset (stack_frame (frag_at s frag)))))
      else if is_code s frag then AdjustStackInstructions B frag frame_space s
      else Some s)"

definition op_scheduled :: "Operand \<Rightarrow> bool" where
  "op_scheduled op \<longleftrightarrow>
     (if \<not> is_explicit op then True
      else if IsMemory op then list_all (\<lambda>r. \<not> IsVirtual r) (CountMatchedRegisters op)
      else if IsRegister op then \<not> IsVirtual (op_reg op)
      else True)"

definition VerifyAllSlotsScheduled :: "nat \<Rightarrow> frag_state \<Rightarrow> bool" where
  "VerifyAllSlotsScheduled frag s \<longleftrightarrow>
     list_all (\<lambda>i. case instr_at s i of
         Native n \<Rightarrow> WillBeEncoded n \<longrightarrow> list_all op_scheduled (filter Operand_IsValid (ops n))
       | _ \<Rightarrow> True) (f_instrs (frag_at s frag))"

definition AllocateStackSlots_frag :: "stack_builder \<Rightarrow> nat \<Rightarrow> frag_state \<Rightarrow> frag_state option" where
  "AllocateStackSlots_frag B frag s = do {
     (info, s) \<leftarrow> partition_of frag s;
     if num_slots (info_at s info) = 0 then (if VerifyAllSlotsScheduled frag s then Some s else None)
     else if \<not> analyze_stack_frame (info_at s info) then Some s
     else AllocateStackSlotsStackValid B info frag s
   }"

definition AllocateStackSlots :: "stack_builder \<Rightarrow> frag_state \<Rightarrow> frag_state option" where
  "AllocateStackSlots B s = opt_fold (AllocateStackSlots_frag B) (flist s) s"

section \<open>Slots in the thread's segment\<close>

definition switch_stack ::
    "(builder_env \<Rightarrow> NativeInstruction \<Rightarrow> NativeInstruction option) \<Rightarrow> stack_builder \<Rightarrow> nat \<Rightarrow> nat \<Rightarrow> frag_state \<Rightarrow> frag_state option" where
  "switch_stack shift B frag instr s =
     map_option (\<lambda>n. InsertBefore frag instr (Native (n\<lparr>is_stack_blind := True, analyzed_stack_usage := False\<rparr>)) s)
       (shift (sb_env B) Instruction_new)"

definition SwitchOffStack :: "stack_builder \<Rightarrow> nat \<Rightarrow> nat \<Rightarrow> frag_state \<Rightarrow> frag_state option" where
  "SwitchOffStack = switch_stack SHIFT_REDZONE"

definition SwitchOnStack :: "stack_builder \<Rightarrow> nat \<Rightarrow> nat \<Rightarrow> frag_state \<Rightarrow> frag_state option" where
  "SwitchOnStack = switch_stack UNSHIFT_REDZONE"

definition switch_annotation :: "stack_builder \<Rightarrow> nat \<Rightarrow> nat \<Rightarrow> InstructionAnnotation \<Rightarrow> frag_state \<Rightarrow> frag_state option" where
  "switch_annotation B frag instr annotation s =
     (if annotation = kAnnotCondLeaveNativeStack then SwitchOffStack B frag instr s
      else if annotation = kAnnotCondEnterNativeStack then SwitchOnStack B frag instr s
      else Some s)"

definition AllocateSlot :: "(SlotCategory \<Rightarrow> nat \<Rightarrow> u64 option) \<Rightarrow> Operand \<Rightarrow> Operand option" where
  "AllocateSlot slot op =
     map_option (Operand_assign op) (SlotMemOp slot SLOT_VIRTUAL_REGISTER (Number (op_reg op)) (op_width op))"

definition AllocateSlots_instr :: "(SlotCategory \<Rightarrow> nat \<Rightarrow> u64 option) \<Rightarrow> NativeInstruction \<Rightarrow> NativeInstruction option" where
  "AllocateSlots_instr slot ainstr =
     (if iclass ainstr \<notin> {XED_ICLASS_MOV, XED_ICLASS_XCHG} then Some ainstr
      else do {
        ainstr \<leftarrow> (if IsSpillSlot (op_at ainstr 0)
                   then map_option (\<lambda>op. set_op 0 op ainstr) (AllocateSlot slot (op_at ainstr 0)) else Some ainstr);
        if IsSpillSlot (op_at ainstr 1)
        then map_option (\<lambda>op. set_op 1 op ainstr) (AllocateSlot slot (op_at ainstr 1)) else Some ainstr
      })"

definition segment_instr ::
    "stack_builder \<Rightarrow> (SlotCategory \<Rightarrow> nat \<Rightarrow> u64 option) \<Rightarrow> nat \<Rightarrow> nat \<Rightarrow> frag_state \<Rightarrow> frag_state option" where
  "segment_instr B slot frag instr s =
     (case instr_at s instr of
        Annotation annotation d \<Rightarrow> switch_annotation B frag instr annotation s
      | Native n \<Rightarrow> mangle_native (AllocateSlots_instr slot) instr s)"

definition exit_instr :: "stack_builder \<Rightarrow> nat \<Rightarrow> nat \<Rightarrow> frag_state \<Rightarrow> frag_state option" where
  "exit_instr B frag instr s =
     (case instr_at s instr of Annotation annotation d \<Rightarrow> switch_annotation B frag instr annotation s | _ \<Rightarrow> Some s)"

definition arch_AllocateSlots_frag ::
    "stack_builder \<Rightarrow> (SlotCategory \<Rightarrow> nat \<Rightarrow> u64 option) \<Rightarrow> nat \<Rightarrow> frag_state \<Rightarrow> frag_state option" where
  "arch_AllocateSlots_frag B slot frag s =
     (if is_code s frag then do {
        (info, s) \<leftarrow> partition_of frag s;
        if analyze_stack_frame (info_at s info) then Some s
        else opt_fold (segment_instr B slot frag) (f_instrs (frag_at s frag)) s
      }
      else if IsA ExitFragment s (Some frag) then opt_fold (exit_instr B frag) (f_instrs (frag_at s frag)) s
      else Some s)"

definition arch_AllocateSlots :: "stack_builder \<Rightarrow> (SlotCategory \<Rightarrow> nat \<Rightarrow> u64 option) \<Rightarrow> frag_state \<Rightarrow> frag_state option" where
  "arch_AllocateSlots B slot s = opt_fold (arch_AllocateSlots_frag B slot) (flist s) s"

definition AllocateSlots :: "stack_builder \<Rightarrow> (SlotCategory \<Rightarrow> nat \<Rightarrow> u64 option) \<Rightarrow> frag_state \<Rightarrow> frag_state option" where
  "AllocateSlots B slot s = do {
     s \<leftarrow> InitStackFrameAnalysis s;
     s \<leftarrow> FindFrameSizes s;
     s \<leftarrow> AllocateStackSlots B s;
     arch_AllocateSlots B slot s
   }"

end
