(* ===== verification/Frame_Sizes.thy ===== *)
theory Frame_Sizes
  imports Alloc_Slots
begin

text \<open>
  The analysis of stack frames: the offsets of the stack pointer that the pass finds for the
  fragments of a partition, that it ends, and where the space for spill slots lies.
\<close>

section \<open>The meta-data\<close>

lemma sint_of_int_32: "- (2 ^ 31) \<le> k \<Longrightarrow> k < 2 ^ 31 \<Longrightarrow> sint (of_int k :: u32) = k"
  by (simp add: signed_of_int signed_take_bit_int_eq_self)

lemma frame_adjust_roundtrip:
  assumes "- (2 ^ 31) \<le> fa_shift adjust" "fa_shift adjust < 2 ^ 31" "- (2 ^ 31) \<le> fa_compute adjust" "fa_compute adjust < 2 ^ 31"
  shows "meta_frame_adjust (frame_adjust_meta adjust) = adjust"
proof -
  have lo: "(ucast (ucast x OR push_bit 32 (ucast y :: u64)) :: u32) = x" for x y :: u32
    by (rule bit_eqI) (simp add: bit_simps)
  have hi: "(ucast (drop_bit 32 (ucast x OR push_bit 32 (ucast y :: u64))) :: u32) = y" for x y :: u32
    by (rule bit_eqI) (auto simp: bit_simps dest: bit_imp_le_length)
  show ?thesis unfolding meta_frame_adjust_def frame_adjust_meta_def lo hi using assms by (simp add: sint_of_int_32)
qed

section \<open>Offsets along a fragment\<close>

definition shift_sum :: "FrameAdjust list \<Rightarrow> int" where
  "shift_sum adjusts = sum_list (map fa_shift adjusts)"

fun lows :: "FrameAdjust list \<Rightarrow> int \<Rightarrow> int list" where
  "lows [] off = []"
| "lows (a # rest) off =
     (if fa_compute a \<noteq> 0 then [off + fa_compute a] else []) @ (if fa_shift a \<noteq> 0 then [off + fa_shift a] else []) @
     lows rest (off + fa_shift a)"

definition computes_ok :: "FrameAdjust list \<Rightarrow> bool" where
  "computes_ok adjusts \<longleftrightarrow> list_all (\<lambda>a. fa_compute a \<le> 0) adjusts"

lemma frame_fold:
  "computes_ok adjusts \<Longrightarrow>
   opt_fold frame_step adjusts (off, least) = Some (off + shift_sum adjusts, Min (insert least (set (lows adjusts off))))"
proof (induction adjusts arbitrary: off least)
  case (Cons a rest)
  have M: "Min (insert (min l x) A) = Min (insert l (insert x A))" if "finite A" for l x :: int and A
    using that by (cases "A = {}") (auto simp: Min_insert min.assoc)
  define h where "h = (if fa_compute a \<noteq> 0 then [off + fa_compute a] else []) @ (if fa_shift a \<noteq> 0 then [off + fa_shift a] else [])"
  have "frame_step a (off, least) = Some (off + fa_shift a, Min (insert least (set h)))"
    using Cons.prems by (auto simp: h_def frame_step_def computes_ok_def min.commute)
  moreover have "Min (insert (Min (insert least (set xs))) (set ys)) = Min (insert least (set (xs @ ys)))" for xs ys
  proof (induction xs arbitrary: least)
    case (Cons x xs)
    have "Min (insert least (set (x # xs))) = Min (insert (min least x) (set xs))" by (simp add: M)
    then show ?case using Cons [of "min least x"] M [of "set (xs @ ys)" least x] by simp
  qed simp
  moreover have "lows (a # rest) off = h @ lows rest (off + fa_shift a)" by (simp add: h_def)
  moreover have "computes_ok rest" using Cons.prems by (simp add: computes_ok_def)
  ultimately show ?case using Cons.IH by (simp add: shift_sum_def add.assoc del: lows.simps)
qed (simp add: shift_sum_def)

section \<open>What the analysis changes\<close>

definition part_at :: "frag_state \<Rightarrow> nat \<Rightarrow> nat option" where
  "part_at s a = ds_value (parts s) (root (parts s) a)"

definition analysed :: "frag_state \<Rightarrow> nat \<Rightarrow> bool" where
  "analysed s a \<longleftrightarrow> (\<exists>p. part_at s a = Some p \<and> analyze_stack_frame (info_at s p))"

definition frame_succ :: "frag_state \<Rightarrow> nat \<Rightarrow> nat \<Rightarrow> bool" where
  "frame_succ s a b \<longleftrightarrow> Some b \<in> set (successors (frag_at s a)) \<and> root (parts s) b = root (parts s) a \<and>
     \<not> IsA PartitionEntryFragment s (Some b)"

definition ent :: "frag_state \<Rightarrow> nat \<Rightarrow> int" where
  "ent s a = entry_offset (stack_frame (frag_at s a))"

definition ext_off :: "frag_state \<Rightarrow> nat \<Rightarrow> int" where
  "ext_off s a = exit_offset (stack_frame (frag_at s a))"

definition low :: "frag_state \<Rightarrow> nat \<Rightarrow> int" where
  "low s p = min_frame_offset (info_at s p)"

text \<open>Only offsets differ, and paths to the roots of the partitions.\<close>

definition frame_like :: "frag_state \<Rightarrow> frag_state \<Rightarrow> bool" where
  "frame_like s t \<longleftrightarrow> forest (parts t) \<and> root (parts t) = root (parts s) \<and> ds_value (parts t) = ds_value (parts s) \<and>
     flist t = flist s \<and> instr_at t = instr_at s \<and> next_instr t = next_instr s \<and>
     (\<exists>G. info_at t = (\<lambda>p. (info_at s p)\<lparr>min_frame_offset := G p\<rparr>)) \<and>
     (\<exists>F. frag_at t = (\<lambda>a. (frag_at s a)\<lparr>stack_frame := F a\<rparr>))"

lemma frame_likeI:
  assumes "forest (parts t)" "root (parts t) = root (parts s)" "ds_value (parts t) = ds_value (parts s)"
    "flist t = flist s" "instr_at t = instr_at s" "next_instr t = next_instr s"
    "\<And>p. info_at t p = (info_at s p)\<lparr>min_frame_offset := min_frame_offset (info_at t p)\<rparr>"
    "\<And>a. frag_at t a = (frag_at s a)\<lparr>stack_frame := stack_frame (frag_at t a)\<rparr>"
  shows "frame_like s t"
proof -
  have "\<exists>G. info_at t = (\<lambda>p. (info_at s p)\<lparr>min_frame_offset := G p\<rparr>)" "\<exists>F. frag_at t = (\<lambda>a. (frag_at s a)\<lparr>stack_frame := F a\<rparr>)"
    by (intro exI ext, rule assms(7)) (intro exI ext, rule assms(8))
  then show ?thesis using assms(1-6) unfolding frame_like_def by blast
qed

lemma frame_like_refl: "forest (parts s) \<Longrightarrow> frame_like s s"
  by (rule frame_likeI) simp_all

lemma frame_like_trans:
  assumes "frame_like s t" "frame_like t u"
  shows "frame_like s u"
proof -
  obtain F G F' G' where "info_at t = (\<lambda>p. (info_at s p)\<lparr>min_frame_offset := G p\<rparr>)" "frag_at t = (\<lambda>a. (frag_at s a)\<lparr>stack_frame := F a\<rparr>)"
    "info_at u = (\<lambda>p. (info_at t p)\<lparr>min_frame_offset := G' p\<rparr>)" "frag_at u = (\<lambda>a. (frag_at t a)\<lparr>stack_frame := F' a\<rparr>)"
    using assms by (auto simp: frame_like_def)
  then have "info_at u p = (info_at s p)\<lparr>min_frame_offset := min_frame_offset (info_at u p)\<rparr>"
    "frag_at u a = (frag_at s a)\<lparr>stack_frame := stack_frame (frag_at u a)\<rparr>" for a p by simp_all
  then show ?thesis using assms by (intro frame_likeI) (simp_all add: frame_like_def)
qed

lemma frame_like_fields:
  assumes "frame_like s t"
  shows "successors (frag_at t a) = successors (frag_at s a)" "f_class (frag_at t a) = f_class (frag_at s a)"
    "f_instrs (frag_at t a) = f_instrs (frag_at s a)" "analyze_stack_frame (info_at t p) = analyze_stack_frame (info_at s p)"
    "num_slots (info_at t p) = num_slots (info_at s p)"
  using assms by (auto simp: frame_like_def successors_def)

lemma frame_like_views:
  assumes "frame_like s t"
  shows "part_at t = part_at s" "analysed t = analysed s" "frame_succ t = frame_succ s" "frame_adjusts t = frame_adjusts s"
    "IsA c t = IsA c s"
proof -
  show IsA: "IsA c t = IsA c s" for c by (rule ext) (simp add: IsA_def frame_like_fields [OF assms] split: option.split)
  show part: "part_at t = part_at s" using assms by (simp add: fun_eq_iff part_at_def frame_like_def)
  then show "analysed t = analysed s" by (simp add: fun_eq_iff analysed_def frame_like_fields [OF assms])
  show "frame_succ t = frame_succ s"
    using assms by (simp add: fun_eq_iff frame_succ_def frame_like_fields [OF assms] IsA frame_like_def)
  have "native_at t = native_at s" using assms by (simp add: fun_eq_iff native_at_def frame_like_def)
  then have "frame_adjusts t a = frame_adjusts s a" for a unfolding frame_adjusts_def frame_like_fields(3) [OF assms] by metis
  then show "frame_adjusts t = frame_adjusts s" by (rule ext)
qed

lemma partition_of_ok:
  assumes "forest (parts t)" "part_at t a = Some p"
  obtains t' where "partition_of a t = Some (p, t')" "frame_like t t'" "frag_at t' = frag_at t" "info_at t' = info_at t"
proof -
  obtain ps where ps: "Find (parts t) a = Some (ps, root (parts t) a)" "forest ps" "root ps = root (parts t)" "ds_value ps = ds_value (parts t)"
    by (rule Find_correct [OF assms(1)])
  have "partition_of a t = Some (p, t\<lparr>parts := ps\<rparr>)"
    using assms(2) ps by (simp add: partition_of_def Value_def part_at_def)
  moreover have "frame_like t (t\<lparr>parts := ps\<rparr>)" using ps(2-4) by (intro frame_likeI) simp_all
  ultimately show ?thesis by (rule that) simp_all
qed

lemma same_partition_ok:
  assumes "forest (parts t)"
  obtains t' where "same_partition b a t = Some (t', root (parts t) b = root (parts t) a)" "frame_like t t'" "frag_at t' = frag_at t"
    "info_at t' = info_at t"
proof -
  obtain q1 where q1: "Find (parts t) b = Some (q1, root (parts t) b)" "forest q1" "root q1 = root (parts t)" "ds_value q1 = ds_value (parts t)"
    by (rule Find_correct [OF assms])
  obtain q2 where q2: "Find q1 a = Some (q2, root q1 a)" "forest q2" "root q2 = root q1" "ds_value q2 = ds_value q1"
    by (rule Find_correct [OF q1(2)])
  have "same_partition b a t = Some (t\<lparr>parts := q2\<rparr>, root (parts t) b = root (parts t) a)"
    using q1 q2 by (auto simp: same_partition_def set_eq_def)
  moreover have "frame_like t (t\<lparr>parts := q2\<rparr>)" using q1(2-4) q2(2-4) by (intro frame_likeI) simp_all
  ultimately show ?thesis by (rule that) simp_all
qed

section \<open>One fragment\<close>

lemma frame_edge_ok:
  assumes "forest (parts t)"
  obtains t' where "frame_edge a succ t = Some t'" "frame_like t t'" "info_at t' = info_at t" "ext_off t' = ext_off t"
    "ent t' = (\<lambda>b. if succ = Some b \<and> root (parts t) b = root (parts t) a \<and> \<not> IsA PartitionEntryFragment t (Some b)
                  then ext_off t a else ent t b)"
proof (cases succ)
  case None
  then show ?thesis using frame_like_refl [OF assms] by (intro that [of t]) (simp_all add: frame_edge_def)
next
  case (Some b)
  obtain t1 where t1: "same_partition b a t = Some (t1, root (parts t) b = root (parts t) a)" "frame_like t t1" "frag_at t1 = frag_at t"
    "info_at t1 = info_at t" by (rule same_partition_ok [OF assms])
  let ?t = "if root (parts t) b \<noteq> root (parts t) a \<or> IsA PartitionEntryFragment t1 (Some b) then t1
    else upd_frag b (\<lambda>f. f\<lparr>stack_frame := (stack_frame f)\<lparr>entry_offset := exit_offset (stack_frame (frag_at t1 a))\<rparr>\<rparr>) t1"
  have run: "frame_edge a succ t = Some ?t" using Some t1(1) by (simp add: frame_edge_def)
  have "forest (parts t1)" using t1(2) by (simp add: frame_like_def)
  then have "frame_like t1 ?t" by (auto intro!: frame_likeI simp: upd_frag_def)
  then have like: "frame_like t ?t" using t1(2) frame_like_trans by blast
  have "IsA PartitionEntryFragment t1 = IsA PartitionEntryFragment t" by (rule frame_like_views(5) [OF t1(2)])
  then show ?thesis using run like t1(3,4) Some
    by (intro that [of ?t]) (auto simp: fun_eq_iff ent_def ext_off_def upd_frag_def)
qed

lemma frame_edges_ok:
  assumes "forest (parts t)"
  obtains t' where "opt_fold (frame_edge a) (successors (frag_at t a)) t = Some t'" "frame_like t t'" "info_at t' = info_at t"
    "ext_off t' = ext_off t" "ent t' = (\<lambda>b. if frame_succ t a b then ext_off t a else ent t b)"
proof -
  obtain t1 where t1: "frame_edge a (succ_fall (frag_at t a)) t = Some t1" "frame_like t t1" "info_at t1 = info_at t" "ext_off t1 = ext_off t"
    "ent t1 = (\<lambda>b. if succ_fall (frag_at t a) = Some b \<and> root (parts t) b = root (parts t) a \<and> \<not> IsA PartitionEntryFragment t (Some b)
      then ext_off t a else ent t b)" by (rule frame_edge_ok [OF assms])
  have f1: "forest (parts t1)" "root (parts t1) = root (parts t)" using t1(2) by (simp_all add: frame_like_def)
  obtain t2 where t2: "frame_edge a (succ_branch (frag_at t a)) t1 = Some t2" "frame_like t1 t2" "info_at t2 = info_at t1" "ext_off t2 = ext_off t1"
    "ent t2 = (\<lambda>b. if succ_branch (frag_at t a) = Some b \<and> root (parts t1) b = root (parts t1) a \<and> \<not> IsA PartitionEntryFragment t1 (Some b)
      then ext_off t1 a else ent t1 b)" by (rule frame_edge_ok [OF f1(1)])
  show ?thesis
  proof (rule that)
    show "opt_fold (frame_edge a) (successors (frag_at t a)) t = Some t2" using t1(1) t2(1) by (simp add: successors_def)
    show "frame_like t t2" by (rule frame_like_trans [OF t1(2) t2(2)])
    show "ent t2 = (\<lambda>b. if frame_succ t a b then ext_off t a else ent t b)"
      using t1(4,5) t2(5) f1(2) frame_like_views(5) [OF t1(2)] by (auto simp: fun_eq_iff frame_succ_def successors_def)
  qed (use t1 t2 in simp_all)
qed

lemma FindFrameSize_ok:
  assumes "forest (parts t)" "computes_ok (frame_adjusts t a)" and m_def: "m = Min (insert (low t p) (set (lows (frame_adjusts t a) (ent t a))))"
  obtains t' where "FindFrameSize p a t = Some (ext_off t a \<noteq> ent t a + shift_sum (frame_adjusts t a) \<or> low t p \<noteq> m, t')"
    "frame_like t t'" "ent t' = ent t" "ext_off t' = (ext_off t)(a := ent t a + shift_sum (frame_adjusts t a))" "low t' = (low t)(p := m)"
proof -
  let ?o = "ent t a + shift_sum (frame_adjusts t a)"
  let ?t = "upd_info p (\<lambda>i. i\<lparr>min_frame_offset := m\<rparr>) t"
  let ?t' = "if ?o = ext_off t a then ?t else upd_frag a (\<lambda>f. f\<lparr>stack_frame := (stack_frame f)\<lparr>exit_offset := ?o\<rparr>\<rparr>) ?t"
  have "opt_fold frame_step (frame_adjusts t a) (entry_offset (stack_frame (frag_at t a)), min_frame_offset (info_at t p)) = Some (?o, m)"
    using frame_fold [OF assms(2)] by (simp add: m_def ent_def low_def)
  then have "FindFrameSize p a t = Some (ext_off t a \<noteq> ?o \<or> low t p \<noteq> m, ?t')"
    by (simp add: FindFrameSize_def ext_off_def upd_info_def low_def)
  moreover have "frame_like t ?t'" using assms(1) by (auto intro!: frame_likeI simp: upd_info_def upd_frag_def)
  ultimately show ?thesis
    by (rule that) (auto simp: fun_eq_iff ent_def ext_off_def low_def upd_info_def upd_frag_def)
qed

text \<open>What a visit of fragment \<open>a\<close> does to the offsets.\<close>

definition visit_ok :: "nat \<Rightarrow> frag_state \<Rightarrow> bool \<Rightarrow> frag_state \<Rightarrow> bool" where
  "visit_ok a t c t' \<longleftrightarrow> frame_like t t' \<and>
     (if analysed t a then
        let p = the (part_at t a); adj = frame_adjusts t a; e = ent t a + shift_sum adj;
            m = Min (insert (low t p) (set (lows adj (ent t a))))
        in c = (ext_off t a \<noteq> e \<or> low t p \<noteq> m) \<and> ext_off t' = (ext_off t)(a := e) \<and> low t' = (low t)(p := m) \<and>
           ent t' = (\<lambda>b. if frame_succ t a b then e else ent t b)
      else \<not> c \<and> ext_off t' = ext_off t \<and> low t' = low t \<and> ent t' = ent t)"

lemma frame_frag_ok:
  assumes "forest (parts t)" "part_at t a \<noteq> None" "analysed t a \<Longrightarrow> computes_ok (frame_adjusts t a)"
  obtains c t' where "frame_frag a (changed, t) = Some (c \<or> changed, t')" "visit_ok a t c t'"
proof -
  obtain p where p: "part_at t a = Some p" using assms(2) by blast
  obtain t1 where t1: "partition_of a t = Some (p, t1)" "frame_like t t1" "frag_at t1 = frag_at t" "info_at t1 = info_at t"
    by (rule partition_of_ok [OF assms(1) p])
  have same: "ent t1 = ent t" "ext_off t1 = ext_off t" "low t1 = low t"
    using t1(3,4) by (simp_all add: fun_eq_iff ent_def ext_off_def low_def)
  have an: "analysed t a \<longleftrightarrow> analyze_stack_frame (info_at t1 p)" using p t1(4) by (simp add: analysed_def)
  show ?thesis
  proof (cases "analysed t a")
    case False
    then have "frame_frag a (changed, t) = Some (False \<or> changed, t1)" using t1(1) an by (simp add: frame_frag_def)
    moreover have "visit_ok a t False t1" using False t1(2) same by (simp add: visit_ok_def)
    ultimately show ?thesis by (rule that)
  next
    case True
    note V = frame_like_views [OF t1(2)]
    have f1: "forest (parts t1)" using t1(2) by (simp add: frame_like_def)
    have co: "computes_ok (frame_adjusts t1 a)" using assms(3) [OF True] by (simp add: V(4))
    define adj where "adj = frame_adjusts t a"
    define m where "m = Min (insert (low t p) (set (lows adj (ent t a))))"
    obtain t2 where t2: "FindFrameSize p a t1 = Some (ext_off t a \<noteq> ent t a + shift_sum adj \<or> low t p \<noteq> m, t2)"
      "frame_like t1 t2" "ent t2 = ent t" "ext_off t2 = (ext_off t)(a := ent t a + shift_sum adj)" "low t2 = (low t)(p := m)"
      using FindFrameSize_ok [OF f1 co, of m p] unfolding same V(4) m_def adj_def by blast
    have f2: "forest (parts t2)" using t2(2) by (simp add: frame_like_def)
    obtain t3 where t3: "opt_fold (frame_edge a) (successors (frag_at t2 a)) t2 = Some t3" "frame_like t2 t3" "info_at t3 = info_at t2"
      "ext_off t3 = ext_off t2" "ent t3 = (\<lambda>b. if frame_succ t2 a b then ext_off t2 a else ent t2 b)" by (rule frame_edges_ok [OF f2])
    have like: "frame_like t t3" using frame_like_trans t1(2) t2(2) t3(2) by blast
    have low3: "low t3 = low t2" using t3(3) by (simp add: fun_eq_iff low_def)
    have succ: "frame_succ t2 = frame_succ t" using frame_like_views(3) t1(2) t2(2) by metis
    have "frame_frag a (changed, t) = Some ((ext_off t a \<noteq> ent t a + shift_sum adj \<or> low t p \<noteq> m) \<or> changed, t3)"
      using True t1(1) an t2(1) t3(1) by (simp add: frame_frag_def)
    moreover have "visit_ok a t (ext_off t a \<noteq> ent t a + shift_sum adj \<or> low t p \<noteq> m) t3"
      using True like p t2(3-5) t3(4,5) low3 succ by (simp add: visit_ok_def Let_def adj_def m_def fun_eq_iff)
    ultimately show ?thesis by (rule that)
  qed
qed

section \<open>The loop\<close>

text \<open>\<open>sol\<close> gives the stack pointer's offset on entry to each fragment: edges agree with it, and in
  the list, a fragment that does not start with its offset comes behind one of its predecessors.\<close>

definition frames_sol :: "frag_state \<Rightarrow> (nat \<Rightarrow> int) \<Rightarrow> bool" where
  "frames_sol s sol \<longleftrightarrow> distinct (flist s) \<and>
     (\<forall>a \<in> set (flist s). part_at s a \<noteq> None \<and> (analysed s a \<longrightarrow> computes_ok (frame_adjusts s a) \<and>
        (\<forall>b. frame_succ s a b \<longrightarrow> sol b = sol a + shift_sum (frame_adjusts s a)))) \<and>
     (\<forall>pre a post. flist s = pre @ a # post \<and> analysed s a \<longrightarrow>
        ent s a = sol a \<or> (\<exists>b \<in> set pre. analysed s b \<and> frame_succ s b a))"

text \<open>The offsets found for \<open>a\<close> are those of \<open>sol\<close>, and none along \<open>a\<close> is below the least one of the partition.\<close>

definition frame_found :: "(nat \<Rightarrow> int) \<Rightarrow> frag_state \<Rightarrow> nat \<Rightarrow> bool" where
  "frame_found sol t a \<longleftrightarrow> ext_off t a = sol a + shift_sum (frame_adjusts t a) \<and>
     (\<forall>x \<in> set (lows (frame_adjusts t a) (sol a)). low t (the (part_at t a)) \<le> x)"

definition round_inv :: "frag_state \<Rightarrow> (nat \<Rightarrow> int) \<Rightarrow> nat set \<Rightarrow> frag_state \<Rightarrow> bool" where
  "round_inv s sol V t \<longleftrightarrow> frame_like s t \<and> (\<forall>a \<in> V. analysed s a \<longrightarrow> frame_found sol t a) \<and>
     (\<forall>b. ent t b = (if \<exists>a \<in> V. analysed s a \<and> frame_succ s a b then sol b else ent s b)) \<and> (\<forall>p. low t p \<le> low s p)"

lemma round_step:
  assumes sol: "frames_sol s sol" and l: "flist s = pre @ a # post" and inv: "round_inv s sol (set pre) t"
  obtains c t' where "frame_frag a (changed, t) = Some (c, t')" "round_inv s sol (insert a (set pre)) t'"
proof -
  have like: "frame_like s t" and f: "forest (parts t)" using inv by (simp_all add: round_inv_def frame_like_def)
  note V = frame_like_views [OF like]
  have a: "a \<in> set (flist s)" "a \<notin> set pre" using l sol by (auto simp: frames_sol_def)
  obtain c t' where t': "frame_frag a (changed, t) = Some (c \<or> changed, t')" "visit_ok a t c t'"
    using frame_frag_ok [OF f, of a changed] sol a(1) by (auto simp: frames_sol_def V)
  have like': "frame_like t t'" using t'(2) by (simp add: visit_ok_def)
  note V' = frame_like_views [OF like'] and like2 = frame_like_trans [OF like like']
  have "round_inv s sol (insert a (set pre)) t'"
  proof (cases "analysed s a")
    case False
    then have "ext_off t' = ext_off t" "low t' = low t" "ent t' = ent t" using t'(2) by (simp_all add: visit_ok_def V)
    then show ?thesis using inv False like2 by (auto simp: round_inv_def frame_found_def V V')
  next
    case True
    define adj where "adj = frame_adjusts s a"
    define p where "p = the (part_at s a)"
    define m where "m = Min (insert (low t p) (set (lows adj (sol a))))"
    have e: "ent t a = sol a" using inv sol l True unfolding round_inv_def frames_sol_def by metis
    have succ: "frame_succ s a b \<Longrightarrow> sol b = sol a + shift_sum adj" for b
      using sol a(1) True by (auto simp: frames_sol_def adj_def)
    have U: "ext_off t' = (ext_off t)(a := sol a + shift_sum adj)" "low t' = (low t)(p := m)"
      "ent t' = (\<lambda>b. if frame_succ s a b then sol b else ent t b)"
      using t'(2) True e succ by (simp_all add: visit_ok_def V Let_def adj_def m_def p_def fun_eq_iff)
    have m: "m \<le> low t p" "\<And>x. x \<in> set (lows adj (sol a)) \<Longrightarrow> m \<le> x" by (simp_all add: m_def)
    have low: "low t' q \<le> low t q" for q using m(1) by (simp add: U(2))
    have "frame_found sol t' b" if b: "b \<in> set pre" "analysed s b" for b
    proof -
      have "frame_found sol t b" using inv b by (simp add: round_inv_def)
      moreover have "b \<noteq> a" using b(1) a(2) by blast
      ultimately show ?thesis using low order_trans unfolding frame_found_def V V' U(1) by fastforce
    qed
    moreover have "frame_found sol t' a" using m(2) by (simp add: frame_found_def V V' U adj_def p_def)
    moreover have "low t' q \<le> low s q" for q using inv low order_trans unfolding round_inv_def by blast
    ultimately show ?thesis using inv True like2 by (auto simp: round_inv_def U(3))
  qed
  with t'(1) show ?thesis by (rule that)
qed

lemma first_round:
  assumes sol: "frames_sol s sol"
  shows "flist s = pre @ rest \<Longrightarrow> round_inv s sol (set pre) t \<Longrightarrow>
    \<exists>c t'. opt_fold frame_frag rest (changed, t) = Some (c, t') \<and> round_inv s sol (set (flist s)) t'"
proof (induction rest arbitrary: pre changed t)
  case (Cons a rest)
  obtain c t1 where t1: "frame_frag a (changed, t) = Some (c, t1)" "round_inv s sol (insert a (set pre)) t1"
    by (rule round_step [OF sol Cons.prems(1,2)])
  then show ?case using Cons.IH [of "pre @ [a]" t1 c] Cons.prems(1) by simp
qed simp

definition frames_stable :: "frag_state \<Rightarrow> (nat \<Rightarrow> int) \<Rightarrow> frag_state \<Rightarrow> bool" where
  "frames_stable s sol t \<longleftrightarrow> frame_like s t \<and> (\<forall>a \<in> set (flist s). analysed s a \<longrightarrow> ent t a = sol a \<and> frame_found sol t a)"

lemma round_stable:
  assumes "frames_sol s sol" "round_inv s sol (set (flist s)) t"
  shows "frames_stable s sol t"
proof -
  have "ent t a = sol a" if a: "a \<in> set (flist s)" "analysed s a" for a
  proof -
    obtain pre post where l: "flist s = pre @ a # post" using a(1) by (meson split_list)
    then have "ent s a = sol a \<or> (\<exists>b \<in> set (flist s). analysed s b \<and> frame_succ s b a)"
      using assms(1) a(2) unfolding frames_sol_def by (metis Un_iff set_append)
    then show ?thesis using assms(2) by (auto simp: round_inv_def)
  qed
  then show ?thesis using assms(2) by (simp add: frames_stable_def round_inv_def)
qed

lemma second_round:
  assumes sol: "frames_sol s sol"
  shows "set rest \<subseteq> set (flist s) \<Longrightarrow> frames_stable s sol t \<Longrightarrow>
    \<exists>t'. opt_fold frame_frag rest (False, t) = Some (False, t') \<and> frames_stable s sol t'"
proof (induction rest arbitrary: t)
  case (Cons a rest)
  have like: "frame_like s t" and f: "forest (parts t)" using Cons.prems(2) by (simp_all add: frames_stable_def frame_like_def)
  note V = frame_like_views [OF like]
  obtain c t' where t': "frame_frag a (False, t) = Some (c, t')" "visit_ok a t c t'"
    using frame_frag_ok [OF f, of a False] sol Cons.prems(1) by (auto simp: frames_sol_def V)
  have like': "frame_like t t'" using t'(2) by (simp add: visit_ok_def)
  note V' = frame_like_views [OF like']
  have "\<not> c \<and> frames_stable s sol t'"
  proof (cases "analysed s a")
    case False
    then have "\<not> c" "ext_off t' = ext_off t" "low t' = low t" "ent t' = ent t" using t'(2) by (simp_all add: visit_ok_def V)
    then show ?thesis using Cons.prems(2) frame_like_trans [OF like like'] by (auto simp: frames_stable_def frame_found_def V V')
  next
    case True
    define p where "p = the (part_at s a)"
    have e: "ent t a = sol a" "frame_found sol t a" using Cons.prems True by (auto simp: frames_stable_def)
    then have x: "ext_off t a = sol a + shift_sum (frame_adjusts s a)"
      and m: "Min (insert (low t p) (set (lows (frame_adjusts s a) (sol a)))) = low t p"
      by (auto simp: frame_found_def V p_def intro: Min_eqI)
    have succ: "frame_succ s a b \<Longrightarrow> sol b = sol a + shift_sum (frame_adjusts s a)" for b
      using sol True Cons.prems(1) by (auto simp: frames_sol_def)
    have U: "\<not> c" "ext_off t' = ext_off t" "low t' = low t" "ent t' = (\<lambda>b. if frame_succ s a b then sol b else ent t b)"
      using t'(2) True e(1) x m succ by (simp_all add: visit_ok_def V Let_def p_def fun_eq_iff)
    then show ?thesis using Cons.prems(2) frame_like_trans [OF like like'] by (auto simp: frames_stable_def frame_found_def V V')
  qed
  then show ?case using Cons.IH [of t'] Cons.prems(1) t'(1) by auto
qed simp

lemma frames_loop_ok:
  assumes "forest (parts s)" "frames_sol s sol"
  shows "\<exists>t. frames_loop s = Some t \<and> frames_stable s sol t"
proof -
  have "round_inv s sol (set []) s" using frame_like_refl [OF assms(1)] by (simp add: round_inv_def)
  then obtain c t where t: "opt_fold frame_frag (flist s) (False, s) = Some (c, t)" "round_inv s sol (set (flist s)) t"
    using first_round [OF assms(2), of "[]" "flist s" s False] by auto
  have st: "frames_stable s sol t" by (rule round_stable [OF assms(2) t(2)])
  then have fl: "flist t = flist s" by (simp add: frames_stable_def frame_like_def)
  obtain u where u: "opt_fold frame_frag (flist s) (False, t) = Some (False, u)" "frames_stable s sol u"
    using second_round [OF assms(2) order_refl st] by blast
  have "frames_loop t = Some u" using u(1) fl by (subst frames_loop.simps) simp
  then have "frames_loop s = Some (if c then u else t)" using t(1) by (subst frames_loop.simps) simp
  then show ?thesis using st u(2) by auto
qed

section \<open>From the instructions\<close>

definition instr_adjust :: "NativeInstruction \<Rightarrow> FrameAdjust" where
  "instr_adjust n = \<lparr>fa_shift = the (StackPointerShiftAmount n), fa_compute = ComputedOffsetBelowStackPointer n\<rparr>"

definition instr_adjusts :: "frag_state \<Rightarrow> nat \<Rightarrow> FrameAdjust list" where
  "instr_adjusts s a = map instr_adjust (List.map_filter (native_at s) (f_instrs (frag_at s a)))"

text \<open>The shift is known, and is one of 32 bits.\<close>

definition shift_ok :: "NativeInstruction \<Rightarrow> bool" where
  "shift_ok n \<longleftrightarrow> (\<exists>k. StackPointerShiftAmount n = Some k \<and> - (2 ^ 31) \<le> k \<and> k < 2 ^ 31)"

lemma meta_data_irrelevant [simp]:
  "StackPointerShiftAmount (n\<lparr>meta_data := m\<rparr>) = StackPointerShiftAmount n"
  "ComputedOffsetBelowStackPointer (n\<lparr>meta_data := m\<rparr>) = ComputedOffsetBelowStackPointer n"
  "instr_adjust (n\<lparr>meta_data := m\<rparr>) = instr_adjust n"
proof -
  have "op_at (n\<lparr>meta_data := m\<rparr>) = op_at n" by (simp add: fun_eq_iff op_at_def)
  moreover have "iclass (n\<lparr>meta_data := m\<rparr>) = iclass n" "is_stack_blind (n\<lparr>meta_data := m\<rparr>) = is_stack_blind n"
    "effective_operand_width (n\<lparr>meta_data := m\<rparr>) = effective_operand_width n" by simp_all
  ultimately show 1: "StackPointerShiftAmount (n\<lparr>meta_data := m\<rparr>) = StackPointerShiftAmount n"
    and 2: "ComputedOffsetBelowStackPointer (n\<lparr>meta_data := m\<rparr>) = ComputedOffsetBelowStackPointer n"
    by (simp_all only: StackPointerShiftAmount_def ComputedOffsetBelowStackPointer_def)
  show "instr_adjust (n\<lparr>meta_data := m\<rparr>) = instr_adjust n" by (simp only: instr_adjust_def 1 2)
qed

lemma ComputedOffset_range:
  "ComputedOffsetBelowStackPointer n \<le> 0" "- (2 ^ 31) \<le> ComputedOffsetBelowStackPointer n"
  using sint_greater_eq [of "mem_disp (op_at n 1)"] by (auto simp: ComputedOffsetBelowStackPointer_def Let_def)

lemma instr_adjust_meta: "shift_ok n \<Longrightarrow> meta_frame_adjust (frame_adjust_meta (instr_adjust n)) = instr_adjust n"
proof (rule frame_adjust_roundtrip)
  assume "shift_ok n"
  then show "- (2 ^ 31) \<le> fa_shift (instr_adjust n)" "fa_shift (instr_adjust n) < 2 ^ 31" by (auto simp: shift_ok_def instr_adjust_def)
  show "- (2 ^ 31) \<le> fa_compute (instr_adjust n)" using ComputedOffset_range(2) [of n] by (simp add: instr_adjust_def)
  have "ComputedOffsetBelowStackPointer n < 2 ^ 31" by (rule le_less_trans [OF ComputedOffset_range(1)]) simp
  then show "fa_compute (instr_adjust n) < 2 ^ 31" by (simp add: instr_adjust_def)
qed

definition annotated :: "NativeInstruction \<Rightarrow> NativeInstruction" where
  "annotated n = n\<lparr>meta_data := frame_adjust_meta (instr_adjust n)\<rparr>"

text \<open>Only meta-data differs; it is right for the instructions in \<open>I\<close>.\<close>

definition meta_like :: "frag_state \<Rightarrow> nat set \<Rightarrow> frag_state \<Rightarrow> bool" where
  "meta_like s I t \<longleftrightarrow> forest (parts t) \<and> root (parts t) = root (parts s) \<and> ds_value (parts t) = ds_value (parts s) \<and>
     flist t = flist s \<and> next_instr t = next_instr s \<and> info_at t = info_at s \<and> frag_at t = frag_at s \<and>
     (\<forall>i. native_at s i = None \<longrightarrow> instr_at t i = instr_at s i) \<and>
     (\<forall>i n. native_at s i = Some n \<longrightarrow> (\<exists>m. native_at t i = Some (n\<lparr>meta_data := m\<rparr>))) \<and>
     (\<forall>i \<in> I. \<forall>n. native_at s i = Some n \<longrightarrow> native_at t i = Some (annotated n))"

lemma InitFrameAdjust_ok:
  "\<forall>i \<in> set js. \<forall>n. native_at s i = Some n \<longrightarrow> shift_ok n \<Longrightarrow> meta_like s I t \<Longrightarrow>
   \<exists>t'. opt_fold InitFrameAdjust_instr js t = Some t' \<and> meta_like s (I \<union> set js) t'"
proof (induction js arbitrary: I t)
  case (Cons i js)
  have "\<exists>t'. InitFrameAdjust_instr i t = Some t' \<and> meta_like s (insert i I) t'"
  proof (cases "native_at s i")
    case None
    then have "instr_at t i = instr_at s i" using Cons.prems(2) by (simp add: meta_like_def)
    then have "InitFrameAdjust_instr i t = Some t" using None by (auto simp: InitFrameAdjust_instr_def native_at_def split: Instruction.splits)
    then show ?thesis using Cons.prems(2) None by (auto simp: meta_like_def)
  next
    case (Some n)
    then obtain m where m: "native_at t i = Some (n\<lparr>meta_data := m\<rparr>)" using Cons.prems(2) unfolding meta_like_def by blast
    then have ti: "instr_at t i = Native (n\<lparr>meta_data := m\<rparr>)" by (auto simp: native_at_def split: Instruction.splits)
    obtain k where k: "StackPointerShiftAmount n = Some k" using Cons.prems(1) Some by (auto simp: shift_ok_def)
    let ?t = "t\<lparr>instr_at := (instr_at t)(i := Native (annotated n))\<rparr>"
    have run: "InitFrameAdjust_instr i t = Some ?t"
      using k by (simp add: InitFrameAdjust_instr_def ti upd_native_def annotated_def instr_adjust_def)
    have nat: "native_at ?t = (native_at t)(i := Some (annotated n))" by (auto simp: native_at_def fun_eq_iff)
    have M: "\<forall>i. native_at s i = None \<longrightarrow> instr_at t i = instr_at s i"
      "\<And>i n. native_at s i = Some n \<Longrightarrow> \<exists>m. native_at t i = Some (n\<lparr>meta_data := m\<rparr>)"
      "\<And>i n. i \<in> I \<Longrightarrow> native_at s i = Some n \<Longrightarrow> native_at t i = Some (annotated n)"
      using Cons.prems(2) unfolding meta_like_def by blast+
    have "\<exists>m. native_at ?t j = Some (x\<lparr>meta_data := m\<rparr>)" if "native_at s j = Some x" for j x
      using M(2) [OF that] that Some unfolding nat by (cases "j = i") (auto simp: annotated_def)
    moreover have "native_at ?t j = Some (annotated x)" if "j \<in> insert i I" "native_at s j = Some x" for j x
      using M(3) [of j x] that Some unfolding nat by (cases "j = i") auto
    moreover have "\<forall>j. native_at s j = None \<longrightarrow> instr_at ?t j = instr_at s j" using M(1) Some by auto
    ultimately have "meta_like s (insert i I) ?t" using Cons.prems(2) unfolding meta_like_def by simp
    with run show ?thesis by blast
  qed
  then obtain t1 where "InitFrameAdjust_instr i t = Some t1" "meta_like s (insert i I) t1" by blast
  then show ?case using Cons.IH [of "insert i I" t1] Cons.prems(1) by simp
qed simp

lemma init_frags_ok:
  "\<forall>a \<in> set as. part_at s a \<noteq> None \<and> (analysed s a \<longrightarrow> (\<forall>i \<in> set (f_instrs (frag_at s a)). \<forall>n. native_at s i = Some n \<longrightarrow> shift_ok n)) \<Longrightarrow>
   meta_like s I t \<Longrightarrow>
   \<exists>t'. opt_fold init_adjust_frag as t = Some t' \<and> meta_like s (I \<union> (\<Union>a \<in> {a \<in> set as. analysed s a}. set (f_instrs (frag_at s a)))) t'"
proof (induction "as" arbitrary: I t)
  case (Cons a "as")
  have same: "forest (parts t)" "part_at t a = part_at s a" "info_at t = info_at s" "frag_at t = frag_at s"
    using Cons.prems(2) by (simp_all add: meta_like_def part_at_def)
  obtain p where p: "part_at t a = Some p" using same(2) Cons.prems(1) by auto
  obtain t1 where t1: "partition_of a t = Some (p, t1)" "frame_like t t1" "frag_at t1 = frag_at t" "info_at t1 = info_at t"
    by (rule partition_of_ok [OF same(1) p])
  have m1: "meta_like s I t1"
    using Cons.prems(2) t1(2-4) by (simp add: meta_like_def frame_like_def native_at_def)
  let ?J = "if analysed s a then set (f_instrs (frag_at s a)) else {}"
  have "\<exists>t2. init_adjust_frag a t = Some t2 \<and> meta_like s (I \<union> ?J) t2"
    using InitFrameAdjust_ok [OF _ m1, of "f_instrs (frag_at s a)"] Cons.prems(1) t1 same p m1
    by (auto simp: init_adjust_frag_def InitFrameAdjust_def analysed_def)
  then obtain t2 where t2: "init_adjust_frag a t = Some t2" "meta_like s (I \<union> ?J) t2" by blast
  have "I \<union> (\<Union>b \<in> {b \<in> set (a # as). analysed s b}. set (f_instrs (frag_at s b))) =
      (I \<union> ?J) \<union> (\<Union>b \<in> {b \<in> set as. analysed s b}. set (f_instrs (frag_at s b)))" by auto
  then show ?case using Cons.IH [OF _ t2(2)] Cons.prems(1) t2(1) by simp
qed simp

lemma meta_like_adjusts:
  assumes "meta_like s I t" "set (f_instrs (frag_at s a)) \<subseteq> I" "\<forall>i \<in> set (f_instrs (frag_at s a)). \<forall>n. native_at s i = Some n \<longrightarrow> shift_ok n"
  shows "frame_adjusts t a = instr_adjusts s a"
proof -
  have "map (meta_frame_adjust \<circ> meta_data) (List.map_filter (native_at t) js) = map instr_adjust (List.map_filter (native_at s) js)"
    if "set js \<subseteq> set (f_instrs (frag_at s a))" for js
    using that
  proof (induction js)
    case (Cons i js)
    show ?case
    proof (cases "native_at s i")
      case None
      then have "native_at t i = None" using assms(1) by (auto simp: meta_like_def native_at_def)
      then show ?thesis using None Cons by (simp add: map_filter_simps)
    next
      case (Some n)
      then have "native_at t i = Some (annotated n)" "shift_ok n" using assms Cons.prems by (auto simp: meta_like_def)
      then show ?thesis using Some Cons by (simp add: map_filter_simps annotated_def instr_adjust_meta)
    qed
  qed (simp add: map_filter_simps)
  moreover have "frag_at t = frag_at s" using assms(1) by (simp add: meta_like_def)
  ultimately show ?thesis by (simp add: frame_adjusts_def instr_adjusts_def)
qed

section \<open>The analysis\<close>

definition frames_consistent :: "frag_state \<Rightarrow> (nat \<Rightarrow> int) \<Rightarrow> bool" where
  "frames_consistent s sol \<longleftrightarrow> distinct (flist s) \<and>
     (\<forall>a \<in> set (flist s). part_at s a \<noteq> None \<and> (analysed s a \<longrightarrow>
        (\<forall>i \<in> set (f_instrs (frag_at s a)). \<forall>n. native_at s i = Some n \<longrightarrow> shift_ok n) \<and>
        (\<forall>b. frame_succ s a b \<longrightarrow> sol b = sol a + shift_sum (instr_adjusts s a)))) \<and>
     (\<forall>pre a post. flist s = pre @ a # post \<and> analysed s a \<longrightarrow>
        ent s a = sol a \<or> (\<exists>b \<in> set pre. analysed s b \<and> frame_succ s b a))"

definition frame_result :: "frag_state \<Rightarrow> (nat \<Rightarrow> int) \<Rightarrow> frag_state \<Rightarrow> nat \<Rightarrow> bool" where
  "frame_result s sol t a \<longleftrightarrow> entry_offset (stack_frame (frag_at t a)) = sol a \<and>
     exit_offset (stack_frame (frag_at t a)) = sol a + shift_sum (instr_adjusts s a) \<and>
     (\<forall>x \<in> set (lows (instr_adjusts s a) (sol a)). min_frame_offset (info_at t (the (part_at s a))) \<le> x) \<and>
     num_slots (info_at t (the (part_at s a))) = num_slots (info_at s (the (part_at s a)))"

lemma computes_instr_adjusts: "computes_ok (instr_adjusts s a)"
  using ComputedOffset_range(1) by (auto simp: computes_ok_def instr_adjusts_def instr_adjust_def list_all_iff)

lemma meta_like_views:
  assumes "meta_like s I t"
  shows "part_at t = part_at s" "analysed t = analysed s" "frame_succ t = frame_succ s" "ent t = ent s"
  using assms by (simp_all add: meta_like_def fun_eq_iff part_at_def analysed_def frame_succ_def ent_def IsA_def)

lemma FindFrameSizes_found:
  assumes "forest (parts s)" "frames_consistent s sol"
  shows "\<exists>t. FindFrameSizes s = Some t \<and> (\<forall>a. a \<in> set (flist s) \<and> analysed s a \<longrightarrow> frame_result s sol t a)"
proof -
  let ?I = "\<Union>a \<in> {a \<in> set (flist s). analysed s a}. set (f_instrs (frag_at s a))"
  have C: "part_at s a \<noteq> None" "analysed s a \<Longrightarrow> i \<in> set (f_instrs (frag_at s a)) \<Longrightarrow> native_at s i = Some n \<Longrightarrow> shift_ok n"
    if "a \<in> set (flist s)" for a i n using assms(2) that by (auto simp: frames_consistent_def)
  have "\<exists>m. n = n\<lparr>meta_data := m\<rparr>" for n :: NativeInstruction by (rule exI [of _ "meta_data n"]) simp
  then have "meta_like s {} s" using assms(1) by (simp add: meta_like_def)
  then obtain u where u: "opt_fold init_adjust_frag (flist s) s = Some u" "meta_like s ?I u"
    using init_frags_ok [of "flist s" s "{}" s] C by auto
  note V = meta_like_views [OF u(2)]
  have adj: "frame_adjusts u a = instr_adjusts s a" if "a \<in> set (flist s)" "analysed s a" for a
    by (rule meta_like_adjusts [OF u(2)]) (use that C in auto)
  have fu: "forest (parts u)" "flist u = flist s" using u(2) by (simp_all add: meta_like_def)
  have "frames_sol u sol"
    using assms(2) adj computes_instr_adjusts unfolding frames_sol_def frames_consistent_def V fu(2) by simp
  then obtain t where t: "frames_loop u = Some t" "frames_stable u sol t" using frames_loop_ok [OF fu(1)] by blast
  note like = t(2) [unfolded frames_stable_def, THEN conjunct1]
  note V' = frame_like_views [OF like]
  have slots: "num_slots (info_at t p) = num_slots (info_at s p)" for p
    using frame_like_fields(5) [OF like] u(2) by (simp add: meta_like_def)
  have "frame_result s sol t a" if "a \<in> set (flist s)" "analysed s a" for a
    using t(2) that adj [OF that] by (auto simp: frames_stable_def frame_found_def frame_result_def V V' fu(2) slots ent_def ext_off_def low_def)
  then show ?thesis using u(1) t(1) by (auto simp: FindFrameSizes_def)
qed

text \<open>C18 The analysis of stack frames ends when the offsets of the stack pointer agree along the edges of
  a partition and fragments follow a predecessor in the list. It finds these offsets on entry to
  and exit from every fragment, and a least offset of the partition that no offset along a fragment
  is below.\<close>

theorem FindFrameSizes_offsets:
  assumes "forest (parts s)" "frames_consistent s sol"
  shows "\<exists>t. FindFrameSizes s = Some t \<and> (\<forall>a. a \<in> set (flist s) \<and> analysed s a \<longrightarrow> frame_result s sol t a)"
  by (rule FindFrameSizes_found [OF assms])

text \<open>A fragment that loops to itself and moves the stack pointer: the analysis never ends.\<close>

definition unbalanced_loop :: "nat \<Rightarrow> frag_state \<Rightarrow> bool" where
  "unbalanced_loop a t \<longleftrightarrow> forest (parts t) \<and> flist t = [a] \<and> analysed t a \<and> computes_ok (frame_adjusts t a) \<and>
     frame_succ t a a \<and> shift_sum (frame_adjusts t a) \<noteq> 0 \<and> ext_off t a = ent t a"

theorem unbalanced_loop_diverges: "unbalanced_loop a s \<Longrightarrow> frames_loop s = None"
proof -
  have step: "\<exists>t'. opt_fold frame_frag (flist t) (False, t) = Some (True, t') \<and> unbalanced_loop a t'" if u: "unbalanced_loop a t" for t
  proof -
    have U: "forest (parts t)" "flist t = [a]" "analysed t a" "frame_succ t a a" "shift_sum (frame_adjusts t a) \<noteq> 0"
      "ext_off t a = ent t a" using u by (simp_all add: unbalanced_loop_def)
    have p: "part_at t a \<noteq> None" using U(3) by (auto simp: analysed_def)
    obtain c t' where t': "frame_frag a (False, t) = Some (c, t')" "visit_ok a t c t'"
      using frame_frag_ok [OF U(1) p, of False] u by (auto simp: unbalanced_loop_def)
    have like: "frame_like t t'" using t'(2) by (simp add: visit_ok_def)
    have "c" "ext_off t' a = ent t' a" using t'(2) U(3-6) by (simp_all add: visit_ok_def Let_def)
    moreover have "forest (parts t')" "flist t' = flist t" using like by (simp_all add: frame_like_def)
    ultimately show ?thesis using t'(1) u U(2) frame_like_views [OF like] by (auto simp: unbalanced_loop_def)
  qed
  have "\<not> unbalanced_loop a s" if "frames_loop s = Some y" for s y
  proof (rule frames_loop.raw_induct [of "\<lambda>s y. \<not> unbalanced_loop a s", OF _ that])
    fix f s y
    assume IH: "\<And>s y. f s = Some y \<Longrightarrow> \<not> unbalanced_loop a s"
      and run: "Option.bind (opt_fold frame_frag (flist s) (False, s)) (\<lambda>x. case x of (changed, s) \<Rightarrow> if changed then f s else Some s) = Some y"
    show "\<not> unbalanced_loop a s"
    proof
      assume "unbalanced_loop a s"
      from step [OF this] obtain t' where "opt_fold frame_frag (flist s) (False, s) = Some (True, t')" "unbalanced_loop a t'" by blast
      then show False using run IH by simp
    qed
  qed
  then show "unbalanced_loop a s \<Longrightarrow> frames_loop s = None" by fastforce
qed

section \<open>Where the slots are\<close>

lemma align_down: "GRANARY_ALIGN_TO x (- 8) \<le> x" "8 dvd GRANARY_ALIGN_TO x (- 8)" "x \<le> 0 \<Longrightarrow> x - 8 < GRANARY_ALIGN_TO x (- 8)"
proof -
  have *: "GRANARY_ALIGN_TO x (- 8) = (if x mod 8 = 0 then x else if x < 0 then x - x mod 8 else x - 8 - x mod 8)"
  proof (cases "x < 0")
    case True
    then have "x smod (- 8) = - ((- x) mod 8)" by (simp add: signed_modulo_int_def sgn_if)
    then show ?thesis using True unfolding GRANARY_ALIGN_TO_def by (simp add: zmod_zminus1_eq_if)
  next
    case False
    then have "x smod (- 8) = x mod 8" by (simp add: signed_modulo_int_def sgn_if)
    then show ?thesis using False unfolding GRANARY_ALIGN_TO_def by simp
  qed
  show "GRANARY_ALIGN_TO x (- 8) \<le> x" "8 dvd GRANARY_ALIGN_TO x (- 8)" "x \<le> 0 \<Longrightarrow> x - 8 < GRANARY_ALIGN_TO x (- 8)"
    unfolding * by presburger+
qed

text \<open>C40 Where the offsets of the stack pointer agree along all edges, the spill slots of a
  partition lie below everything the application may use of its stack: after the analysis every slot is
  aligned as the stack pointer was, and ends below the red zone of each offset that the
  instructions of the partition move the stack pointer to. Where predecessors disagree
  the code keeps the offset of the last one and nothing is said.\<close>

theorem slots_below_red_zone:
  assumes "forest (parts s)" "frames_consistent s sol" "a \<in> set (flist s)" "analysed s a" "x \<in> set (lows (instr_adjusts s a) (sol a))"
  shows "\<exists>t info. FindFrameSizes s = Some t \<and> info = info_at t (the (part_at s a)) \<and> 8 dvd frame_space_of info \<and>
    (\<forall>k. k < num_slots (info_at s (the (part_at s a))) \<longrightarrow> frame_space_of info + 8 * int k + 8 \<le> x - int REDZONE_SIZE_BYTES)"
proof -
  obtain t where t: "FindFrameSizes s = Some t" "frame_result s sol t a" using FindFrameSizes_found [OF assms(1,2)] assms(3,4) by blast
  define info where "info = info_at t (the (part_at s a))"
  have "min_frame_offset info \<le> x" using t(2) assms(5) by (simp add: frame_result_def info_def)
  moreover have space: "frame_space_of info = GRANARY_ALIGN_TO (min_frame_offset info - (8 * int (num_slots info) + 128)) (- 8)"
    by (simp add: frame_space_of_def granary_simps mult.commute)
  ultimately have "frame_space_of info + 8 * int k + 8 \<le> x - int REDZONE_SIZE_BYTES" if "k < num_slots info" for k
    using align_down(1) [of "min_frame_offset info - (8 * int (num_slots info) + 128)"] that by (simp add: granary_simps)
  moreover have "num_slots info = num_slots (info_at s (the (part_at s a)))" using t(2) by (simp add: frame_result_def info_def)
  ultimately show ?thesis using t(1) space align_down(2) by (auto simp: info_def)
qed

text \<open>A fragment that pushes a register and one that follows it and pops the register again.\<close>

definition push_pop_frags :: frag_state where
  "push_pop_frags =
     \<lparr>frag_at = (\<lambda>a. if a = 2 then (Fragment_new CodeFragment)\<lparr>f_instrs := [0], succ_fall := Some 3\<rparr>
        else (Fragment_new CodeFragment)\<lparr>f_instrs := [1]\<rparr>),
      instr_at = (\<lambda>i. Native (Instruction_new\<lparr>iclass := if i = 0 then XED_ICLASS_PUSH else XED_ICLASS_POP,
        effective_operand_width := 64\<rparr>)),
      flist = [2, 3], next_frag = 4, next_instr = 2, parts = \<lparr>ds_parent = id(3 := 2), ds_value = (\<lambda>_. Some 0)\<rparr>,
      zones = singletons (\<lambda>_. FlagZone_new), info_at = (\<lambda>_. (PartitionInfo_new 0)\<lparr>num_slots := 3\<rparr>), next_info = 1\<rparr>"

definition push_pop_offsets :: "nat \<Rightarrow> int" where
  "push_pop_offsets a = (if a = 2 then 0 else if a = 3 then - 8 else 0)"

lemma push_pop_roots: "is_root (id(3 := 2)) x (if x = 3 then 2 else x)"
proof -
  have "is_root (id(3 := 2)) 2 2" by (rule root_here) simp
  then have "is_root (id(3 := 2)) 3 2" by - (rule root_up, simp_all)
  then show ?thesis by (auto intro: root_here)
qed

lemma push_pop_forest: "forest (parts push_pop_frags)" "root (parts push_pop_frags) x = (if x = 3 then 2 else x)"
proof -
  show f: "forest (parts push_pop_frags)" using push_pop_roots by (auto simp: forest_def push_pop_frags_def)
  show "root (parts push_pop_frags) x = (if x = 3 then 2 else x)"
    using root_iff [OF f, of x] push_pop_roots [of x] by (simp add: push_pop_frags_def)
qed

lemma push_pop_analysed: "analysed push_pop_frags a" "part_at push_pop_frags a = Some 0"
  by (simp_all add: analysed_def part_at_def push_pop_frags_def PartitionInfo_new_def)

lemma push_pop_shifts:
  "StackPointerShiftAmount (Instruction_new\<lparr>iclass := XED_ICLASS_PUSH, effective_operand_width := 64\<rparr>) = Some (- 8)"
  "StackPointerShiftAmount (Instruction_new\<lparr>iclass := XED_ICLASS_POP, effective_operand_width := 64\<rparr>) = Some 8"
  "c \<noteq> XED_ICLASS_LEA \<Longrightarrow> ComputedOffsetBelowStackPointer (Instruction_new\<lparr>iclass := c, effective_operand_width := 64\<rparr>) = 0"
  by (code_simp, code_simp, simp add: ComputedOffsetBelowStackPointer_def)

lemma push_pop_native:
  "native_at push_pop_frags i = Some (Instruction_new\<lparr>iclass := if i = 0 then XED_ICLASS_PUSH else XED_ICLASS_POP, effective_operand_width := 64\<rparr>)"
  by (simp add: native_at_def push_pop_frags_def)

lemma push_pop_adjusts:
  "instr_adjusts push_pop_frags a = [\<lparr>fa_shift = if a = 2 then - 8 else 8, fa_compute = 0\<rparr>]"
  "shift_ok (the (native_at push_pop_frags i))"
proof -
  have "f_instrs (frag_at push_pop_frags a) = (if a = 2 then [0] else [1])" by (simp add: push_pop_frags_def Fragment_new_def)
  then show "instr_adjusts push_pop_frags a = [\<lparr>fa_shift = if a = 2 then - 8 else 8, fa_compute = 0\<rparr>]"
    by (simp add: instr_adjusts_def map_filter_simps push_pop_native instr_adjust_def push_pop_shifts
        XED_ICLASS_PUSH_def XED_ICLASS_POP_def XED_ICLASS_LEA_def push_pop_shifts [unfolded XED_ICLASS_PUSH_def XED_ICLASS_POP_def XED_ICLASS_LEA_def])
  show "shift_ok (the (native_at push_pop_frags i))" by (simp add: push_pop_native shift_ok_def push_pop_shifts)
qed

lemma push_pop_succ: "frame_succ push_pop_frags a b \<longleftrightarrow> a = 2 \<and> b = 3"
proof -
  have "successors (frag_at push_pop_frags a) = [if a = 2 then Some 3 else None, None]" "f_class (frag_at push_pop_frags a) = CodeFragment" for a
    by (simp_all add: push_pop_frags_def successors_def Fragment_new_def)
  then show ?thesis by (auto simp: frame_succ_def push_pop_forest IsA_def IsDerivedFrom_def)
qed

lemma push_pop_consistent: "frames_consistent push_pop_frags push_pop_offsets"
proof -
  have l: "flist push_pop_frags = [2, 3]" by (simp add: push_pop_frags_def)
  have e: "ent push_pop_frags a = 0" for a by (simp add: ent_def push_pop_frags_def Fragment_new_def)
  have "shift_ok n" if "native_at push_pop_frags i = Some n" for i n using push_pop_adjusts(2) [of i] that by simp
  moreover have "push_pop_offsets b = push_pop_offsets a + shift_sum (instr_adjusts push_pop_frags a)" if "frame_succ push_pop_frags a b" for a b
    using that by (simp add: push_pop_succ push_pop_offsets_def push_pop_adjusts shift_sum_def)
  moreover have "0 = push_pop_offsets a \<or> 2 \<in> set pre \<and> a = 3" if "[2, 3] = pre @ a # post" for pre a post
    using that by (auto simp: Cons_eq_append_conv push_pop_offsets_def)
  ultimately show ?thesis unfolding frames_consistent_def l e using push_pop_analysed by (fastforce simp: push_pop_succ)
qed

theorem FindFrameSizes_offsets_witness:
  "\<exists>t. FindFrameSizes push_pop_frags = Some t \<and> entry_offset (stack_frame (frag_at t 3)) = - 8 \<and>
     exit_offset (stack_frame (frag_at t 3)) = 0 \<and> min_frame_offset (info_at t 0) \<le> - 8"
proof -
  have "2 \<in> set (flist push_pop_frags)" "3 \<in> set (flist push_pop_frags)" by (simp_all add: push_pop_frags_def)
  with FindFrameSizes_offsets [OF push_pop_forest(1) push_pop_consistent] push_pop_analysed(1)
  obtain t where "FindFrameSizes push_pop_frags = Some t" "frame_result push_pop_frags push_pop_offsets t 2"
    "frame_result push_pop_frags push_pop_offsets t 3" by blast
  then show ?thesis by (auto simp: frame_result_def push_pop_analysed push_pop_adjusts push_pop_offsets_def shift_sum_def)
qed

theorem slots_below_red_zone_witness:
  "\<exists>t info. FindFrameSizes push_pop_frags = Some t \<and> info = info_at t 0 \<and> 8 dvd frame_space_of info \<and>
     frame_space_of info + 24 \<le> - 136"
proof -
  have "2 \<in> set (flist push_pop_frags)" "- 8 \<in> set (lows (instr_adjusts push_pop_frags 2) (push_pop_offsets 2))"
    "2 < num_slots (info_at push_pop_frags 0)"
    by (simp add: push_pop_frags_def, simp add: push_pop_adjusts push_pop_offsets_def, simp add: push_pop_frags_def)
  with slots_below_red_zone [OF push_pop_forest(1) push_pop_consistent this(1) push_pop_analysed(1) this(2)]
  show ?thesis by (fastforce simp: push_pop_analysed granary_simps)
qed

end
