(* ===== verification/Stack_Adjust.thy ===== *)
theory Stack_Adjust
  imports Alloc_Slots
begin

text \<open>
  The instructions of a partition after its stack pointer is lowered: the places in memory that
  the changed instructions access are those that the application's instructions access, and spill
  slots are in the partition's own space.
\<close>

section \<open>Addresses\<close>

text \<open>Registers have the values \<open>rv\<close>, segments start at \<open>sb\<close>.\<close>

definition op_address :: "(nat \<Rightarrow> u64) \<Rightarrow> (VirtualRegister \<Rightarrow> u64) \<Rightarrow> Operand \<Rightarrow> u64" where
  "op_address sb rv op = sb (op_segment op) +
     (if is_compound op
      then (if VirtualRegister_IsValid (op_reg op) then rv (op_reg op) else 0) +
           (if VirtualRegister_IsValid (mem_index op) then rv (mem_index op) * ucast (mem_scale op) else 0) + scast (mem_disp op)
      else rv (op_reg op))"

text \<open>The stack pointer lowered by \<open>adj\<close>.\<close>

definition lowered :: "int \<Rightarrow> (VirtualRegister \<Rightarrow> u64) \<Rightarrow> VirtualRegister \<Rightarrow> u64" where
  "lowered adj rv r = (if IsStackPointer r then rv r - of_int adj else rv r)"

definition fits_s32 :: "int \<Rightarrow> bool" where
  "fits_s32 k \<longleftrightarrow> - (2 ^ 31) \<le> k \<and> k < 2 ^ 31"

lemma scast_of_int: "fits_s32 k \<Longrightarrow> (scast (of_int k :: u32) :: u64) = of_int k"
  by (simp add: scast_eq fits_s32_def signed_of_int signed_take_bit_int_eq_self)

lemma scast_add:
  assumes "fits_s32 (sint d + k)"
  shows "(scast (d + of_int k :: u32) :: u64) = scast d + of_int k"
proof -
  have "d + of_int k = of_int (sint d + k)" by simp
  then have "(scast (d + of_int k :: u32) :: u64) = of_int (sint d + k)" using scast_of_int [OF assms] by metis
  moreover have "(of_int (sint d + k) :: u64) = scast d + of_int k" by (simp only: of_int_add scast_eq)
  ultimately show ?thesis by (rule trans)
qed

lemma IsStackPointer_valid: "IsStackPointer r \<Longrightarrow> VirtualRegister_IsValid r"
  by (auto simp: IsStackPointer_def VirtualRegister_IsValid_def split: if_splits)

text \<open>A place relative to the lowered stack pointer; segments other than those of threads start at 0.\<close>

lemma BaseDisp_address:
  assumes "IsStackPointer rsp" "fits_s32 k" "sb XED_REG_INVALID = 0"
  shows "op_address sb rv (BaseDispMemOp k rsp w) = rv rsp + of_int k"
  using assms IsStackPointer_valid [OF assms(1)] scast_of_int [OF assms(2)]
  by (simp add: op_address_def BaseDispMemOp_def Operand_new_def VirtualRegister_default_def VirtualRegister_IsValid_def)

text \<open>The stack pointer is named as such, and displacements do not overflow.\<close>

definition op_stack_ok :: "VirtualRegister \<Rightarrow> int \<Rightarrow> Operand \<Rightarrow> bool" where
  "op_stack_ok rsp adj op \<longleftrightarrow> IsStackPointer (op_reg op) \<longrightarrow>
     op_reg op = rsp \<and> fits_s32 adj \<and> (is_compound op \<longrightarrow> fits_s32 (sint (mem_disp op) + adj))"

text \<open>The start of the segment that a changed operand no longer names: the code replaces an operand that is
  the stack pointer alone by a new one without the segment of the old one.\<close>

definition lost_base :: "(nat \<Rightarrow> u64) \<Rightarrow> Operand \<Rightarrow> u64" where
  "lost_base sb op = (if IsStackPointer (op_reg op) \<and> \<not> is_compound op then sb (op_segment op) else 0)"

text \<open>What becomes of an operand: the same access to the same place, less the base of a segment that is lost.\<close>

definition op_follows :: "(nat \<Rightarrow> u64) \<Rightarrow> (VirtualRegister \<Rightarrow> u64) \<Rightarrow> int \<Rightarrow> Operand \<Rightarrow> Operand \<Rightarrow> bool" where
  "op_follows sb rv adj op op' \<longleftrightarrow>
     (if IsMemory op \<and> is_explicit op \<and> \<not> IsPointer op
      then op_type op' = op_type op \<and> (op_width op \<noteq> 0 \<longrightarrow> op_width op' = op_width op) \<and>
           is_effective_address op' = is_effective_address op \<and>
           (op_rw op \<noteq> XED_OPERAND_ACTION_INVALID \<longrightarrow> op_rw op' = op_rw op) \<and>
           op_address sb (lowered adj rv) op' = op_address sb rv op - lost_base sb op
      else op' = op)"

lemma op_follows_same:
  assumes "\<not> (IsMemory op \<and> is_explicit op \<and> \<not> IsPointer op \<and> (IsStackPointer (op_reg op) \<or> is_compound op \<and> IsStackPointer (mem_index op)))"
  shows "op_follows sb rv adj op op"
  using assms by (auto simp: op_follows_def op_address_def lowered_def lost_base_def)

lemma AdjustMemOp_follows:
  assumes "AdjustMemOp rsp adj op = Some op'" "IsMemory op" "op_stack_ok rsp adj op" "sb XED_REG_INVALID = 0"
  shows "op_follows sb rv adj op op'"
proof (cases "is_explicit op \<and> \<not> IsPointer op \<and> IsStackPointer (op_reg op)")
  case False
  then have "op' = op" "\<not> (is_explicit op \<and> \<not> IsPointer op \<and> is_compound op \<and> IsStackPointer (mem_index op))"
    using assms(1) by (auto simp: AdjustMemOp_def split: if_splits)
  then show ?thesis using op_follows_same False by blast
next
  case True
  then have ok: "op_reg op = rsp" "fits_s32 adj" "is_compound op \<Longrightarrow> fits_s32 (sint (mem_disp op) + adj)"
    and type: "op_type op = XED_ENCODER_OPERAND_TYPE_MEM"
    using assms(2,3) by (auto simp: op_stack_ok_def IsMemory_def IsPointer_def split: if_splits)
  show ?thesis
  proof (cases "is_compound op")
    case comp: True
    have op': "op' = op\<lparr>mem_disp := mem_disp op + of_int adj\<rparr>" "\<not> IsStackPointer (mem_index op)"
      using assms(1) True comp by (auto simp: AdjustMemOp_def split: if_splits)
    have "lowered adj rv rsp + of_int adj = rv rsp" using True ok(1) by (simp add: lowered_def)
    then have "op_address sb (lowered adj rv) op' = op_address sb rv op"
      using op' comp scast_add [OF ok(3) [OF comp]] True ok(1) IsStackPointer_valid [of rsp]
      by (simp add: op_address_def lowered_def algebra_simps)
    then show ?thesis using op' True comp assms(2) by (simp add: op_follows_def lost_base_def)
  next
    case simple: False
    have op': "op' = Operand_assign op (BaseDispMemOp adj rsp GPR_WIDTH_BITS)"
      using assms(1) True simple by (auto simp: AdjustMemOp_def split: if_splits)
    have "op_address sb (lowered adj rv) op' = op_address sb (lowered adj rv) (BaseDispMemOp adj rsp GPR_WIDTH_BITS)"
      by (simp add: op' op_address_def Operand_assign_def)
    then have "op_address sb (lowered adj rv) op' = op_address sb rv op - lost_base sb op"
      using BaseDisp_address [of rsp adj sb "lowered adj rv", OF _ ok(2) assms(4)] True simple ok(1) by (simp add: lowered_def op_address_def lost_base_def)
    then show ?thesis using True assms(2) by (simp add: op_follows_def op' type Operand_assign_def BaseDispMemOp_def)
  qed
qed

section \<open>Instructions\<close>

lemma adjust_ops_follow:
  "adjust_ops rsp adj xs = Some ys \<Longrightarrow> \<forall>op \<in> set xs. op_stack_ok rsp adj op \<Longrightarrow> sb XED_REG_INVALID = 0 \<Longrightarrow>
   list_all2 (op_follows sb rv adj) xs ys"
proof (induction xs arbitrary: ys)
  case (Cons op xs)
  then obtain op' rest where *: "ys = op' # rest" "adjust_ops rsp adj xs = Some rest"
    "(if IsMemory op then AdjustMemOp rsp adj op else Some op) = Some op'" by (auto split: bind_splits)
  have "op_follows sb rv adj op op'"
    using *(3) AdjustMemOp_follows [of rsp adj op op' sb rv] op_follows_same [of op] Cons.prems(2,3) by (auto split: if_splits)
  then show ?case using * Cons by simp
qed simp

lemma usage_fold:
  "opt_fold (AnalyzeOperandStackUsage X) os i = Some i' \<Longrightarrow>
   (reads_from_stack_pointer i \<longrightarrow> reads_from_stack_pointer i') \<and> (\<exists>r w. i' = i\<lparr>reads_from_stack_pointer := r, writes_to_stack_pointer := w\<rparr>) \<and>
   (\<forall>op \<in> set os. op_type op = XED_ENCODER_OPERAND_TYPE_MEM \<longrightarrow>
      (IsStackPointer (op_reg op) \<longrightarrow> reads_from_stack_pointer i') \<and> \<not> (is_compound op \<and> IsStackPointer (mem_index op)))"
proof (induction os arbitrary: i)
  case Nil
  have "i = i\<lparr>reads_from_stack_pointer := reads_from_stack_pointer i, writes_to_stack_pointer := writes_to_stack_pointer i\<rparr>" by simp
  then have "\<exists>r w. i = i\<lparr>reads_from_stack_pointer := r, writes_to_stack_pointer := w\<rparr>" by blast
  then show ?case using Nil by simp
next
  case (Cons op os)
  then obtain j where j: "AnalyzeOperandStackUsage X op i = Some j" "opt_fold (AnalyzeOperandStackUsage X) os j = Some i'"
    by (auto split: bind_splits)
  have head: "reads_from_stack_pointer i \<longrightarrow> reads_from_stack_pointer j"
    "op_type op = XED_ENCODER_OPERAND_TYPE_MEM \<longrightarrow> (IsStackPointer (op_reg op) \<longrightarrow> reads_from_stack_pointer j) \<and> \<not> (is_compound op \<and> IsStackPointer (mem_index op))"
    using j(1) by (auto simp: AnalyzeOperandStackUsage_def split: if_splits)
  define r' w' where "r' = reads_from_stack_pointer j" and "w' = writes_to_stack_pointer j"
  have "j = i\<lparr>reads_from_stack_pointer := r', writes_to_stack_pointer := w'\<rparr>"
    using j(1) unfolding r'_def w'_def by (auto simp: AnalyzeOperandStackUsage_def split: if_splits)
  moreover obtain r w where "i' = j\<lparr>reads_from_stack_pointer := r, writes_to_stack_pointer := w\<rparr>" using Cons.IH [OF j(2)] by blast
  ultimately have "i' = i\<lparr>reads_from_stack_pointer := r, writes_to_stack_pointer := w\<rparr>" by simp
  then have "\<exists>r w. i' = i\<lparr>reads_from_stack_pointer := r, writes_to_stack_pointer := w\<rparr>" by blast
  moreover have "reads_from_stack_pointer j \<longrightarrow> reads_from_stack_pointer i'" using Cons.IH [OF j(2)] by blast
  moreover have "\<forall>op \<in> set os. op_type op = XED_ENCODER_OPERAND_TYPE_MEM \<longrightarrow>
      (IsStackPointer (op_reg op) \<longrightarrow> reads_from_stack_pointer i') \<and> \<not> (is_compound op \<and> IsStackPointer (mem_index op))"
    using Cons.IH [OF j(2)] by blast
  ultimately show ?case using head unfolding list.set ball_simps by blast
qed

text \<open>The cached analysis of the stack's use, if there is one, is that of the instruction.\<close>

definition usage_current :: "xed_api \<Rightarrow> NativeInstruction \<Rightarrow> bool" where
  "usage_current X n \<longleftrightarrow> analyzed_stack_usage n \<longrightarrow> AnalyzeStackUsage X n = Some n"

lemma usage_found:
  assumes "usage_current X n" "\<not> is_stack_blind n" "(if analyzed_stack_usage n then Some n else AnalyzeStackUsage X n) = Some n'"
  shows "\<exists>a r w. n' = n\<lparr>analyzed_stack_usage := a, reads_from_stack_pointer := r, writes_to_stack_pointer := w\<rparr>"
    "op \<in> set (ops n) \<Longrightarrow> op_type op = XED_ENCODER_OPERAND_TYPE_MEM \<Longrightarrow>
     (IsStackPointer (op_reg op) \<longrightarrow> reads_from_stack_pointer n') \<and> \<not> (is_compound op \<and> IsStackPointer (mem_index op))"
    "analyzed_stack_usage n'"
proof -
  let ?i = "n\<lparr>analyzed_stack_usage := True, reads_from_stack_pointer := False, writes_to_stack_pointer := False\<rparr>"
  have "AnalyzeStackUsage X n = Some n'" using assms(1,3) by (auto simp: usage_current_def split: if_splits)
  then have f: "opt_fold (AnalyzeOperandStackUsage X) (filter Operand_IsValid (ops n)) ?i = Some n'"
    using assms(2) by (auto simp: AnalyzeStackUsage_def Let_def split: if_splits)
  from usage_fold [OF f] obtain r w where n': "n' = ?i\<lparr>reads_from_stack_pointer := r, writes_to_stack_pointer := w\<rparr>" by blast
  then show "\<exists>a r w. n' = n\<lparr>analyzed_stack_usage := a, reads_from_stack_pointer := r, writes_to_stack_pointer := w\<rparr>"
    "analyzed_stack_usage n'" by auto
  show "(IsStackPointer (op_reg op) \<longrightarrow> reads_from_stack_pointer n') \<and> \<not> (is_compound op \<and> IsStackPointer (mem_index op))"
    if "op \<in> set (ops n)" "op_type op = XED_ENCODER_OPERAND_TYPE_MEM"
    using usage_fold [OF f] that by (auto simp: Operand_IsValid_def)
qed

lemma GenericAdjustMemOps_follows:
  assumes run: "GenericAdjustMemOps B adj n = Some n'" and cur: "usage_current (be_xed (sb_env B)) n" "\<not> is_stack_blind n"
    and rsp: "sb_rsp B = Some rsp" and ok: "\<forall>op \<in> set (ops n). op_stack_ok rsp adj op" "sb XED_REG_INVALID = 0"
  shows "list_all2 (op_follows sb rv adj) (ops n) (ops n')" "iclass n' = iclass n" "iform n' = iform n"
    "effective_operand_width n' = effective_operand_width n"
proof -
  obtain m where m: "(if analyzed_stack_usage n then Some n else AnalyzeStackUsage (be_xed (sb_env B)) n) = Some m"
    and n': "(if reads_from_stack_pointer m then map_option (\<lambda>os. m\<lparr>ops := os\<rparr>) (adjust_ops rsp adj (ops m)) else Some m) = Some n'"
  proof -
    from run obtain m where m: "(if analyzed_stack_usage n then Some n else AnalyzeStackUsage (be_xed (sb_env B)) n) = Some m"
      by (auto simp: GenericAdjustMemOps_def WritesToStackPointer_def rsp split: bind_splits if_splits)
    have "analyzed_stack_usage m" by (rule usage_found(3) [OF cur m])
    then show thesis using that [OF m] run m
      by (auto simp: GenericAdjustMemOps_def WritesToStackPointer_def ReadsFromStackPointer_def rsp split: bind_splits if_splits)
  qed
  note u = usage_found [OF cur m]
  have same: "ops m = ops n" "iclass m = iclass n" "iform m = iform n" "effective_operand_width m = effective_operand_width n"
    using u(1) by auto
  show "iclass n' = iclass n" "iform n' = iform n" "effective_operand_width n' = effective_operand_width n"
    using n' same by (auto split: if_splits)
  show "list_all2 (op_follows sb rv adj) (ops n) (ops n')"
  proof (cases "reads_from_stack_pointer m")
    case True
    then show ?thesis using n' adjust_ops_follow [of rsp adj "ops n" _ sb rv, OF _ ok] same by auto
  next
    case False
    then have "op_follows sb rv adj op op" if "op \<in> set (ops n)" for op
      using u(2) [OF that] op_follows_same [of op] by (auto simp: IsMemory_def IsPointer_def)
    then show ?thesis using n' False same by (auto intro: list.rel_refl_strong)
  qed
qed

section \<open>The pass over an instruction\<close>

text \<open>Spill slots are places above the lowered stack pointer.\<close>

definition op_placed :: "(nat \<Rightarrow> u64) \<Rightarrow> (VirtualRegister \<Rightarrow> u64) \<Rightarrow> VirtualRegister \<Rightarrow> int \<Rightarrow> Operand \<Rightarrow> Operand \<Rightarrow> bool" where
  "op_placed sb rv rsp adj op op' \<longleftrightarrow>
     (if IsSpillSlot op
      then op_type op' = op_type op \<and> op_width op' = op_width op \<and> op_rw op' = op_rw op \<and>
           op_address sb (lowered adj rv) op' = sb (op_segment op) + lowered adj rv rsp + of_nat (8 * Number (op_reg op))
      else op_follows sb rv adj op op')"

lemma stack_slot_placed:
  assumes "IsSpillSlot op" "IsStackPointer rsp"
  shows "op_placed sb rv rsp adj op (stack_slot_op rsp op)"
proof -
  have "Number (op_reg op) < 2 ^ 16" using unsigned_less [of "reg_num (op_reg op)", where 'a = nat] by (simp add: Number_def)
  then have "fits_s32 (int (Number (op_reg op)) * 8)" by (simp add: fits_s32_def)
  from scast_of_int [OF this]
  have "(scast (of_int (int (Number (op_reg op)) * 8) :: u32) :: u64) = of_nat (8 * Number (op_reg op))" by (simp add: mult.commute)
  then show ?thesis using assms IsStackPointer_valid [OF assms(2)]
    by (auto simp: op_placed_def stack_slot_op_def Let_def op_address_def BaseDispMemOp_def Operand_new_def granary_simps
        VirtualRegister_default_def VirtualRegister_IsValid_def)
qed

lemma set_op_placed:
  assumes "k < length (ops n)" "R (ops n ! k) op'" "\<And>j. j < length (ops n) \<Longrightarrow> j \<noteq> k \<Longrightarrow> R (ops n ! j) (ops n ! j)"
  shows "list_all2 R (ops n) (ops (set_op k op' n))"
  using assms by (auto simp: set_op_def list_all2_conv_all_nth nth_list_update)

text \<open>The forms of moves and exchanges, of address computations and of other instructions: where they
  may have a memory operand. They do not change the stack pointer.\<close>

definition access_form :: "NativeInstruction \<Rightarrow> bool" where
  "access_form n \<longleftrightarrow> (let mem = (\<lambda>k. k < length (ops n) \<and> IsMemory (ops n ! k)) in
     if iclass n = XED_ICLASS_MOV then 2 \<le> length (ops n) \<and> (\<forall>k. mem k \<longrightarrow> k = 0 \<or> k = 1 \<and> \<not> mem 0)
     else if iclass n = XED_ICLASS_XCHG then 2 \<le> length (ops n) \<and> (\<forall>k. mem k \<longrightarrow> k = 0)
     else \<not> list_ex IsSpillSlot (ops n) \<and>
       (if iclass n = XED_ICLASS_LEA then 2 \<le> length (ops n) \<and> (\<forall>k. mem k \<longleftrightarrow> k = 1) \<and> \<not> IsStackPointer (op_reg (op_at n 0))
        else iclass n \<notin> {XED_ICLASS_PUSH, XED_ICLASS_POP, XED_ICLASS_PUSHF, XED_ICLASS_PUSHFQ, XED_ICLASS_POPF, XED_ICLASS_POPFQ,
            XED_ICLASS_RET_NEAR} \<and>
          (iclass n \<in> {XED_ICLASS_SUB, XED_ICLASS_ADD, XED_ICLASS_INC, XED_ICLASS_DEC} \<longrightarrow> \<not> is_sp_reg (op_at n 0))))"

definition instr_placed where
  "instr_placed sb rv rsp adj n n' \<longleftrightarrow> iclass n' = iclass n \<and> iform n' = iform n \<and>
     effective_operand_width n' = effective_operand_width n \<and> list_all2 (op_placed sb rv rsp adj) (ops n) (ops n')"

lemma not_memory_placed: "\<not> IsMemory op \<Longrightarrow> op_placed sb rv rsp adj op op"
  by (simp add: op_placed_def IsSpillSlot_def op_follows_def)

lemma set_op_fields [simp]: "iclass (set_op k op n) = iclass n" "iform (set_op k op n) = iform n"
    "effective_operand_width (set_op k op n) = effective_operand_width n"
  by (simp_all add: set_op_def)

lemma one_memory_placed:
  assumes "k < length (ops n)" "\<And>j. j < length (ops n) \<Longrightarrow> IsMemory (ops n ! j) \<Longrightarrow> j = k" "op_placed sb rv rsp adj (ops n ! k) op'"
  shows "instr_placed sb rv rsp adj n (set_op k op' n)"
proof -
  have "op_placed sb rv rsp adj (ops n ! j) (ops n ! j)" if "j < length (ops n)" "j \<noteq> k" for j
    using assms(2) that by (intro not_memory_placed) blast
  then show ?thesis using set_op_placed [of k n "op_placed sb rv rsp adj" op', OF assms(1,3)] by (simp add: instr_placed_def)
qed

lemma no_memory_placed: "(\<And>op. op \<in> set (ops n) \<Longrightarrow> \<not> IsMemory op) \<Longrightarrow> instr_placed sb rv rsp adj n n"
  by (auto simp: instr_placed_def not_memory_placed intro: list.rel_refl_strong)

text \<open>What the lowering of a stack pointer by \<open>adj\<close> asks of the operands.\<close>

definition stack_ops_ok :: "stack_builder \<Rightarrow> (nat \<Rightarrow> u64) \<Rightarrow> VirtualRegister \<Rightarrow> int \<Rightarrow> NativeInstruction \<Rightarrow> bool" where
  "stack_ops_ok B sb rsp adj n \<longleftrightarrow> sb_rsp B = Some rsp \<and> IsStackPointer rsp \<and> sb XED_REG_INVALID = 0 \<and>
     \<not> is_stack_blind n \<and> usage_current (be_xed (sb_env B)) n \<and> list_all (op_stack_ok rsp adj) (ops n)"

lemma spill_slot_reg: "IsSpillSlot op \<Longrightarrow> IsMemory op"
  by (simp add: IsSpillSlot_def)

lemma AdjustMemOp_placed:
  assumes "AdjustMemOp rsp adj op = Some op'" "IsMemory op" "\<not> IsSpillSlot op" "stack_ops_ok B sb rsp adj n" "op \<in> set (ops n)"
  shows "op_placed sb rv rsp adj op op'"
  using AdjustMemOp_follows [OF assms(1,2)] assms(3-5) by (simp add: op_placed_def stack_ops_ok_def list_all_iff)

lemma MangleMov_placed:
  assumes "MangleMov B adj n = Some n'" "stack_ops_ok B sb rsp adj n" "access_form n" "iclass n = XED_ICLASS_MOV"
  shows "instr_placed sb rv rsp adj n n'"
proof -
  have rsp: "sb_rsp B = Some rsp" "IsStackPointer rsp" using assms(2) by (simp_all add: stack_ops_ok_def)
  have len: "2 \<le> length (ops n)" and mem: "\<And>k. k < length (ops n) \<Longrightarrow> IsMemory (ops n ! k) \<Longrightarrow> k = 0 \<or> k = 1 \<and> \<not> IsMemory (ops n ! 0)"
    using assms(3,4) by (auto simp: access_form_def Let_def)
  have at: "op_at n 0 = ops n ! 0" "op_at n 1 = ops n ! 1" "ops n ! 0 \<in> set (ops n)" "ops n ! 1 \<in> set (ops n)"
    using len by (auto simp: op_at_def intro!: nth_mem)
  have put: "instr_placed sb rv rsp adj n (set_op k op' n)"
    if "k \<in> {0, 1}" "IsMemory (ops n ! k)" "op_placed sb rv rsp adj (ops n ! k) op'" for k op'
  proof (rule one_memory_placed)
    show "j = k" if "j < length (ops n)" "IsMemory (ops n ! j)" for j
      using mem [OF that] mem [of k] \<open>k \<in> {0, 1}\<close> \<open>IsMemory (ops n ! k)\<close> that len by auto
  qed (use that len in auto)
  have none: "instr_placed sb rv rsp adj n n" if "\<not> IsMemory (ops n ! 0)" "\<not> IsMemory (ops n ! 1)"
    using mem that by (intro no_memory_placed) (metis in_set_conv_nth)
  consider "IsSpillSlot (ops n ! 0)" | "\<not> IsSpillSlot (ops n ! 0)" "IsSpillSlot (ops n ! 1)"
    | "\<not> IsSpillSlot (ops n ! 0)" "\<not> IsSpillSlot (ops n ! 1)" by blast
  then show ?thesis
  proof cases
    case 1
    then show ?thesis using assms(1) put [of 0] stack_slot_placed [OF 1 rsp(2)] spill_slot_reg [OF 1] by (auto simp: MangleMov_def rsp at)
  next
    case 2
    then show ?thesis using assms(1) put [of 1] stack_slot_placed [OF 2(2) rsp(2)] spill_slot_reg [OF 2(2)]
      by (auto simp: MangleMov_def rsp at simp del: One_nat_def)
  next
    case 3
    then show ?thesis using assms(1) put [of 0] put [of 1] none AdjustMemOp_placed [OF _ _ _ assms(2)] at(3,4)
      by (auto simp: MangleMov_def rsp at(1,2) Let_def simp del: One_nat_def split: if_splits)
  qed
qed

lemma MangleXchg_placed:
  assumes "MangleXchg B adj n = Some n'" "stack_ops_ok B sb rsp adj n" "access_form n" "iclass n = XED_ICLASS_XCHG"
  shows "instr_placed sb rv rsp adj n n'"
proof -
  have rsp: "sb_rsp B = Some rsp" "IsStackPointer rsp" using assms(2) by (simp_all add: stack_ops_ok_def)
  have len: "2 \<le> length (ops n)" and mem: "\<And>k. k < length (ops n) \<Longrightarrow> IsMemory (ops n ! k) \<Longrightarrow> k = 0"
    using assms(3,4) by (auto simp: access_form_def Let_def XED_ICLASS_XCHG_def XED_ICLASS_MOV_def)
  have at: "op_at n 0 = ops n ! 0" "ops n ! 0 \<in> set (ops n)" "0 < length (ops n)" using len by (auto simp: op_at_def intro!: nth_mem)
  note put = one_memory_placed [OF at(3) mem]
  have none: "instr_placed sb rv rsp adj n n" if "\<not> IsMemory (ops n ! 0)"
    using mem that by (intro no_memory_placed) (metis in_set_conv_nth)
  show ?thesis
    using assms(1) put none stack_slot_placed [OF _ rsp(2)] AdjustMemOp_placed [OF _ _ _ assms(2) at(2)]
    by (auto simp: MangleXchg_def rsp at(1) Let_def split: if_splits)
qed

lemma MangleLEA_placed:
  assumes "MangleLEA B adj n = Some n'" "stack_ops_ok B sb rsp adj n" "access_form n" "iclass n = XED_ICLASS_LEA"
  shows "instr_placed sb rv rsp adj n n'"
proof -
  have rsp: "sb_rsp B = Some rsp" using assms(2) by (simp_all add: stack_ops_ok_def)
  have form: "2 \<le> length (ops n)" "\<And>k. k < length (ops n) \<and> IsMemory (ops n ! k) \<longleftrightarrow> k = 1" "\<not> IsStackPointer (op_reg (op_at n 0))"
    "\<not> list_ex IsSpillSlot (ops n)"
    using assms(3,4) by (auto simp: access_form_def Let_def XED_ICLASS_LEA_def XED_ICLASS_MOV_def XED_ICLASS_XCHG_def)
  have at: "op_at n 1 = ops n ! 1" "ops n ! 1 \<in> set (ops n)" "1 < length (ops n)" using form(1) by (auto simp: op_at_def intro!: nth_mem)
  have slot: "\<not> IsSpillSlot (ops n ! 1)" using form(4) at(2) by (auto simp: list_ex_iff)
  obtain op' where op': "AdjustMemOp rsp adj (ops n ! 1) = Some op'" "n' = set_op 1 op' n"
    using assms(1) form(3) by (auto simp: MangleLEA_def rsp at(1) simp del: One_nat_def)
  show ?thesis unfolding op'(2)
    by (rule one_memory_placed [OF at(3)]) (use form(2) op'(1) slot AdjustMemOp_placed [OF _ _ _ assms(2) at(2)] in blast)+
qed

lemma Generic_placed:
  assumes "GenericAdjustMemOps B adj n = Some n'" "stack_ops_ok B sb rsp adj n" "\<not> list_ex IsSpillSlot (ops n)"
  shows "instr_placed sb rv rsp adj n n'"
proof -
  have ok: "usage_current (be_xed (sb_env B)) n" "\<not> is_stack_blind n" "sb_rsp B = Some rsp" "\<forall>op \<in> set (ops n). op_stack_ok rsp adj op"
    "sb XED_REG_INVALID = 0" using assms(2) by (simp_all add: stack_ops_ok_def list_all_iff)
  note G = GenericAdjustMemOps_follows [of B adj n n' rsp sb, OF assms(1) ok]
  have "list_all2 (op_placed sb rv rsp adj) (ops n) (ops n')"
    using G(1) assms(3) by (auto simp: op_placed_def list_ex_iff list_all2_conv_all_nth)
  then show ?thesis using G(2-4) by (simp add: instr_placed_def)
qed

lemma native_at_iff: "native_at s i = Some n \<longleftrightarrow> instr_at s i = Native n"
  by (auto simp: native_at_def split: Instruction.splits)

lemma mangle_native_some:
  assumes "native_at s i = Some n" "mangle_native f i s = Some s'"
  obtains n' where "f n = Some n'" "s' = s\<lparr>instr_at := (instr_at s)(i := Native n')\<rparr>"
  using assms by (auto simp: mangle_native_def native_at_iff)

text \<open>C16 With the stack pointer lowered by the space of the partition, a changed instruction that
  does not itself move the stack pointer accesses the places that the instruction accessed: every
  memory operand has the same width and kind of access as before and the same address, except that
  an operand which is the stack pointer alone loses the base of its segment; a spill slot is at its index above
  the lowered stack pointer, and other operands are unchanged. Instructions that
  move the stack pointer are not in \<open>access_form\<close>: pushes and pops of operands or of the flags, near returns, and
  arithmetic or address computations into the stack pointer; neither are
  spill slots in instructions other than moves and exchanges. Displacements do not overflow 32 bits.\<close>

theorem AdjustStackInstruction_same_places:
  assumes "native_at s i = Some n" "stack_ops_ok B sb rsp adj n" "access_form n" "AdjustStackInstruction B frag i adj next_adj s = Some s'"
  shows "\<exists>n'. s' = s\<lparr>instr_at := (instr_at s)(i := Native n')\<rparr> \<and> instr_placed sb rv rsp adj n n'"
proof -
  have placed: ?thesis if "mangle_native f i s = Some s'" "\<And>n'. f n = Some n' \<Longrightarrow> instr_placed sb rv rsp adj n n'" for f
    using mangle_native_some [OF assms(1) that(1)] that(2) by metis
  have blind: "\<not> is_stack_blind n" using assms(2) by (simp add: stack_ops_ok_def)
  consider "iclass n = XED_ICLASS_MOV" | "iclass n = XED_ICLASS_XCHG" | "iclass n = XED_ICLASS_LEA"
    | (other) "iclass n \<notin> {XED_ICLASS_MOV, XED_ICLASS_XCHG, XED_ICLASS_LEA}" by blast
  then show ?thesis
  proof cases
    case 1
    then have "mangle_native (MangleMov B adj) i s = Some s'" using assms(1,4) blind by (simp add: AdjustStackInstruction_def Let_def granary_simps)
    then show ?thesis using placed MangleMov_placed [OF _ assms(2,3) 1] by blast
  next
    case 2
    then have "mangle_native (MangleXchg B adj) i s = Some s'" using assms(1,4) blind by (simp add: AdjustStackInstruction_def Let_def granary_simps)
    then show ?thesis using placed MangleXchg_placed [OF _ assms(2,3) 2] by blast
  next
    case 3
    then have "mangle_native (MangleLEA B adj) i s = Some s'" using assms(1,4) blind by (simp add: AdjustStackInstruction_def Let_def granary_simps)
    then show ?thesis using placed MangleLEA_placed [OF _ assms(2,3) 3] by blast
  next
    case other
    have form: "\<not> list_ex IsSpillSlot (ops n)" "iclass n \<in> {XED_ICLASS_SUB, XED_ICLASS_ADD, XED_ICLASS_INC, XED_ICLASS_DEC} \<Longrightarrow> \<not> is_sp_reg (op_at n 0)"
      and "iclass n \<notin> {XED_ICLASS_PUSH, XED_ICLASS_POP, XED_ICLASS_PUSHF, XED_ICLASS_PUSHFQ, XED_ICLASS_POPF, XED_ICLASS_POPFQ, XED_ICLASS_RET_NEAR}"
      using assms(3) other by (auto simp: access_form_def Let_def)
    then have "mangle_native (if iclass n \<in> {XED_ICLASS_SUB, XED_ICLASS_ADD, XED_ICLASS_INC, XED_ICLASS_DEC}
        then MangleArith B adj else GenericAdjustMemOps B adj) i s = Some s'" (is "mangle_native ?f i s = Some s'")
      using assms(1,4) blind other by (auto simp: AdjustStackInstruction_def Let_def split: if_splits)
    moreover have "?f n = GenericAdjustMemOps B adj n" using form(2) by (simp add: MangleArith_def)
    ultimately show ?thesis using placed [of ?f] Generic_placed [OF _ assms(2) form(1)] by simp
  qed
qed

text \<open>The store that a push becomes: of a register, or of a number that its low half gives without a sign. The code
  asserts that the operand is one of these.\<close>

definition store_for_push :: "stack_builder \<Rightarrow> Operand \<Rightarrow> NativeInstruction \<Rightarrow> NativeInstruction option" where
  "store_for_push B m n = (let op = op_at n 0; w = (if effective_operand_width n = 16 then 16 else 32) in
     if IsRegister op then Some (sb_mov_mem_gpr B m (op_reg op) n)
     else if IsImmediate op \<and> unat (op_imm op) < 2 ^ unat (w :: u16) then Some (sb_mov_mem_imm B m (op_imm op) w n) else None)"

definition load_for_pop :: "stack_builder \<Rightarrow> Operand \<Rightarrow> NativeInstruction \<Rightarrow> NativeInstruction option" where
  "load_for_pop B m n = (if IsRegister (op_at n 0) then Some (sb_mov_gpr_mem B (op_reg (op_at n 0)) m n) else None)"

lemma narrow_iff: "ucast (ucast (x :: u64) :: u16) = x \<longleftrightarrow> unat x < 2 ^ 16" "ucast (ucast (x :: u64) :: u32) = x \<longleftrightarrow> unat x < 2 ^ 32"
proof -
  show "ucast (ucast (x :: u64) :: u16) = x \<longleftrightarrow> unat x < 2 ^ 16"
    by (simp add: word_unat_eq_iff unsigned_ucast_eq unsigned_take_bit_eq take_bit_nat_eq_self_iff)
  show "ucast (ucast (x :: u64) :: u32) = x \<longleftrightarrow> unat x < 2 ^ 32"
    by (simp add: word_unat_eq_iff unsigned_ucast_eq unsigned_take_bit_eq take_bit_nat_eq_self_iff)
qed

lemma ManglePush_store:
  assumes "sb_rsp B = Some rsp" "effective_operand_width n \<noteq> 0"
  shows "ManglePush B k n = map_option (\<lambda>n'. n'\<lparr>effective_operand_width := effective_operand_width n\<rparr>)
    (store_for_push B (BaseDispMemOp k rsp (effective_operand_width n)) n)"
  using assms by (simp add: ManglePush_def store_for_push_def Let_def narrow_iff)

lemma ManglePop_load:
  assumes "sb_rsp B = Some rsp" "effective_operand_width n \<noteq> 0"
  shows "ManglePop B k n = map_option (\<lambda>n'. n'\<lparr>effective_operand_width := effective_operand_width n\<rparr>)
    (load_for_pop B (BaseDispMemOp k rsp (effective_operand_width n)) n)"
  using assms by (simp add: ManglePop_def load_for_pop_def Let_def)

text \<open>The instruction replaced by a new one of the same width.\<close>

definition replaced :: "nat \<Rightarrow> NativeInstruction \<Rightarrow> frag_state \<Rightarrow> NativeInstruction \<Rightarrow> frag_state" where
  "replaced i n s n' = s\<lparr>instr_at := (instr_at s)(i := Native (n'\<lparr>effective_operand_width := effective_operand_width n\<rparr>))\<rparr>"

text \<open>C17 A push of a register, or of an immediate that its low 32 bits (16 for a push of that width) give
  without a sign, becomes a store of that operand to the place the push would write, and a pop into a
  register a load from the place it would read; the pass moves on by the amount of the shift that
  was found for the instruction. On every other operand, a negative immediate among them, the assertion
  in the code fails.\<close>

theorem adjust_push_pop_places:
  assumes "native_at s i = Some n" "\<not> is_stack_blind n" "effective_operand_width n \<noteq> 0"
    and "sb_rsp B = Some rsp" "IsStackPointer rsp" "sb XED_REG_INVALID = 0"
    and "shift = fa_shift (meta_frame_adjust (meta_data n))" "fits_s32 (off - frame_space)" "fits_s32 (off + shift - frame_space)"
  shows "\<exists>m. op_width m = effective_operand_width n \<and>
    (iclass n = XED_ICLASS_PUSH \<longrightarrow> op_address sb (lowered (off - frame_space) rv) m = rv rsp + of_int shift \<and>
       adjust_instr B frag frame_space i (off, s) = map_option (\<lambda>n'. (off + shift, replaced i n s n')) (store_for_push B m n)) \<and>
    (iclass n = XED_ICLASS_POP \<longrightarrow> op_address sb (lowered (off - frame_space) rv) m = rv rsp \<and>
       adjust_instr B frag frame_space i (off, s) = map_option (\<lambda>n'. (off + shift, replaced i n s n')) (load_for_pop B m n))"
proof -
  let ?m = "\<lambda>k. BaseDispMemOp k rsp (effective_operand_width n)"
  have addr: "op_address sb (lowered (off - frame_space) rv) (?m k) = rv rsp + of_int (k - (off - frame_space))" if "fits_s32 k" for k
    using BaseDisp_address [of rsp k sb "lowered (off - frame_space) rv", OF assms(5) that assms(6)] assms(5) by (simp add: lowered_def)
  have width: "op_width (?m k) = effective_operand_width n" for k by (simp add: BaseDispMemOp_def)
  have i: "instr_at s i = Native n" using assms(1) by (simp add: native_at_iff)
  have classes: "XED_ICLASS_PUSH \<noteq> XED_ICLASS_POP" by (simp add: granary_simps)
  note run = adjust_instr_def AdjustStackInstruction_def mangle_native_def Let_def option.map_comp comp_def replaced_def
    ManglePush_store [OF assms(4,3)] ManglePop_load [OF assms(4,3)]
  show ?thesis
  proof (cases "iclass n = XED_ICLASS_PUSH")
    case True
    then show ?thesis using assms i addr [OF assms(9)] width classes
      by (intro exI [of _ "?m (off + shift - frame_space)"]) (simp add: run)
  next
    case False
    then show ?thesis using assms i addr [OF assms(8)] width
      by (intro exI [of _ "?m (off - frame_space)"]) (simp add: run)
  qed
qed

text \<open>A push of a negative number does not become a store: the decoder sign-extends the number to 64
  bits, the check asks for one that its low 32 bits give without a sign.\<close>

lemma ManglePush_negative:
  assumes "IsImmediate (op_at n 0)" "\<not> IsRegister (op_at n 0)" "effective_operand_width n = 64" "op_imm (op_at n 0) = - 1"
  shows "ManglePush B adj n = None"
proof -
  have "(ucast (ucast (- 1 :: u64) :: u32) :: u64) \<noteq> - 1" by code_simp
  then show ?thesis using assms by (simp add: ManglePush_def Let_def)
qed

section \<open>Examples\<close>

definition rsp_example :: VirtualRegister where
  "rsp_example = the (rsp_register doc_xed)"

definition reg_op_example :: "VirtualRegister \<Rightarrow> Operand" where
  "reg_op_example r = Operand_new\<lparr>op_type := XED_ENCODER_OPERAND_TYPE_REG, op_reg := r, op_width := 64, is_explicit := True\<rparr>"

definition imm_op_example :: "u64 \<Rightarrow> u16 \<Rightarrow> Operand" where
  "imm_op_example k w = Operand_new\<lparr>op_type := XED_ENCODER_OPERAND_TYPE_IMM0, op_imm := k, op_width := w, is_explicit := True\<rparr>"

text \<open>A move in place of an instruction, destination first.\<close>

definition mov_example :: "Operand \<Rightarrow> Operand \<Rightarrow> NativeInstruction \<Rightarrow> NativeInstruction" where
  "mov_example dst src n = n\<lparr>iclass := XED_ICLASS_MOV, ops := [dst, src]\<rparr>"

definition stack_example :: stack_builder where
  "stack_example = \<lparr>sb_env = \<lparr>be_xed = doc_xed, be_implicit = (\<lambda>_. [])\<rparr>, sb_mov_mem_gpr = (\<lambda>m r n. mov_example m (reg_op_example r) n), sb_mov_mem_imm = (\<lambda>m k w n. mov_example m (imm_op_example k w) n),
     sb_mov_gpr_mem = (\<lambda>r m n. mov_example (reg_op_example r) m n), sb_pop_gpr = (\<lambda>r n. n), sb_push_mem = (\<lambda>m n. n), sb_nop = (\<lambda>n. n), sb_test_gpr_gpr = (\<lambda>a b n. n)\<rparr>"

text \<open>A load of the word that is 8 bytes above the stack pointer.\<close>

definition load_example :: NativeInstruction where
  "load_example = Instruction_new\<lparr>iclass := XED_ICLASS_MOV, effective_operand_width := 64,
     ops := [reg_op_example (NthArchGPR 0),
             (BaseDispMemOp 8 rsp_example 64)\<lparr>is_explicit := True\<rparr>]\<rparr>"

definition push_example :: NativeInstruction where
  "push_example = Instruction_new\<lparr>iclass := XED_ICLASS_PUSH, effective_operand_width := 64, meta_data := frame_adjust_meta \<lparr>fa_shift = - 8, fa_compute = 0\<rparr>,
     ops := [reg_op_example (NthArchGPR 0)]\<rparr>"

definition instr_example :: "NativeInstruction \<Rightarrow> frag_state" where
  "instr_example n = (backward_frags FlagUsageInfo_new FlagUsageInfo_new FlagUsageInfo_new)\<lparr>instr_at := (\<lambda>_. Native n)\<rparr>"

lemma rsp_example_ok: "rsp_register doc_xed = Some rsp_example" "IsStackPointer rsp_example"
proof -
  have "rsp_register doc_xed \<noteq> None" by code_simp
  then show "rsp_register doc_xed = Some rsp_example" by (auto simp: rsp_example_def)
  show "IsStackPointer rsp_example" by code_simp
qed

lemma load_example_ok: "stack_ops_ok stack_example (\<lambda>_. 0) rsp_example 160 load_example" "access_form load_example"
proof -
  have "\<not> IsStackPointer (NthArchGPR 0)" by code_simp
  then show "stack_ops_ok stack_example (\<lambda>_. 0) rsp_example 160 load_example"
    using rsp_example_ok by (simp add: stack_ops_ok_def stack_example_def load_example_def usage_current_def Instruction_new_def op_stack_ok_def
        fits_s32_def BaseDispMemOp_def reg_op_example_def)
  show "access_form load_example"
    by (auto simp: access_form_def load_example_def BaseDispMemOp_def reg_op_example_def IsMemory_def less_Suc_eq Let_def)
qed

lemma load_example_runs: "AdjustStackInstruction stack_example 2 7 160 160 (instr_example load_example) \<noteq> None"
proof -
  have "MangleMov stack_example 160 load_example \<noteq> None" by code_simp
  then show ?thesis
    by (simp add: AdjustStackInstruction_def native_at_def instr_example_def mangle_native_def load_example_def Instruction_new_def granary_simps)
qed

theorem AdjustStackInstruction_same_places_witness:
  "\<exists>s' n'. AdjustStackInstruction stack_example 2 7 160 160 (instr_example load_example) = Some s' \<and> instr_at s' 7 = Native n' \<and>
     op_address (\<lambda>_. 0) (lowered 160 (\<lambda>_. 4096)) (ops n' ! 1) = 4104"
proof -
  obtain s' where s': "AdjustStackInstruction stack_example 2 7 160 160 (instr_example load_example) = Some s'" using load_example_runs by auto
  have nat: "native_at (instr_example load_example) 7 = Some load_example" by (simp add: native_at_def instr_example_def)
  have mem: "op_address (\<lambda>_. 0) (\<lambda>_. 4096) (ops load_example ! 1) = 4104" "\<not> IsSpillSlot (ops load_example ! 1)" "IsMemory (ops load_example ! 1)"
    "is_explicit (ops load_example ! 1)" "\<not> IsPointer (ops load_example ! 1)" "length (ops load_example) = 2" by code_simp+
  from AdjustStackInstruction_same_places [OF nat load_example_ok s', of "\<lambda>_. 4096"] obtain n' where n':
    "instr_at s' 7 = Native n'" "instr_placed (\<lambda>_. 0) (\<lambda>_. 4096) rsp_example 160 load_example n'" by auto
  then have "op_placed (\<lambda>_. 0) (\<lambda>_. 4096) rsp_example 160 (ops load_example ! 1) (ops n' ! 1)"
    using mem(6) by (simp add: instr_placed_def list_all2_conv_all_nth)
  then show ?thesis using s' n'(1) mem by (auto simp: op_placed_def op_follows_def lost_base_def)
qed

theorem adjust_push_pop_places_witness:
  "\<exists>m s' n'. op_address (\<lambda>_. 0) (lowered 160 (\<lambda>_. 4096)) m = 4088 \<and> op_width m = 64 \<and>
     adjust_instr stack_example 2 (- 160) 7 (0, instr_example push_example) = Some (- 8, s') \<and>
     instr_at s' 7 = Native n' \<and> iclass n' = XED_ICLASS_MOV \<and> ops n' = [m, reg_op_example (NthArchGPR 0)]"
proof -
  have nat: "native_at (instr_example push_example) 7 = Some push_example" by (simp add: native_at_def instr_example_def)
  have ex: "\<not> is_stack_blind push_example" "effective_operand_width push_example \<noteq> 0"
    "fa_shift (meta_frame_adjust (meta_data push_example)) = - 8" "iclass push_example = XED_ICLASS_PUSH" "effective_operand_width push_example = 64"
    by code_simp+
  have rsp: "sb_rsp stack_example = Some rsp_example" using rsp_example_ok(1) by (simp add: stack_example_def)
  have st: "store_for_push stack_example m push_example = Some (mov_example m (reg_op_example (NthArchGPR 0)) push_example)" for m
    by (simp add: store_for_push_def stack_example_def push_example_def op_at_def reg_op_example_def IsRegister_def Let_def)
  from adjust_push_pop_places [of _ 7 push_example stack_example rsp_example "\<lambda>_. 0" "- 8" 0 "- 160" "\<lambda>_. 4096" 2,
      OF nat ex(1,2) rsp rsp_example_ok(2) _ ex(3) [symmetric]]
  obtain m where "op_width m = 64" "op_address (\<lambda>_. 0) (lowered 160 (\<lambda>_. 4096)) m = 4088"
    "adjust_instr stack_example 2 (- 160) 7 (0, instr_example push_example) =
       Some (- 8, replaced 7 push_example (instr_example push_example) (mov_example m (reg_op_example (NthArchGPR 0)) push_example))"
    using ex(4,5) by (auto simp: fits_s32_def st)
  then show ?thesis
    by (intro exI [of _ m] exI [of _ "replaced 7 push_example (instr_example push_example) (mov_example m (reg_op_example (NthArchGPR 0)) push_example)"])
      (simp add: replaced_def mov_example_def)
qed

end
