(* ===== verification/Blocks.thy ===== *)
theory Blocks
  imports Lists Instructions Metadata
begin

text \<open>
  The control-flow graph that tools instrument (\<^verbatim>\<open>granary/cfg/trace.cc\<close>,
  \<^verbatim>\<open>block.cc\<close>) and the factory that makes its blocks (\<^verbatim>\<open>granary/cfg/factory.cc\<close>).  The
  blocks of a trace are a doubly linked list through the blocks themselves (\<^verbatim>\<open>Lists\<close>), so
  whether a block is in the list is read from its links, as in the code.  The instructions of a block are a
  sequence.  Meta-data are values with the operations of theory \<^verbatim>\<open>Metadata\<close>; the decoder, the early
  mangler, the code cache index and the layout of memory are parameters.  \<^const>\<open>None\<close> is a failed
  assertion or a loop that runs forever.
\<close>

section \<open>Blocks\<close>

datatype block_class =
    Block_base | NativeBlock | InstrumentedBlock | CachedBlock | DecodedBlock | CompensationBlock | DirectBlock
  | IndirectBlock | ReturnBlock

text \<open>The identifiers of the classes, products of primes: a class is derived from those whose
  identifiers divide its own.\<close>

fun block_TypeId :: "block_class \<Rightarrow> nat" where
  "block_TypeId Block_base = 2"
| "block_TypeId NativeBlock = 2 * 3"
| "block_TypeId InstrumentedBlock = 2 * 5"
| "block_TypeId CachedBlock = 2 * 5 * 7"
| "block_TypeId DecodedBlock = 2 * 5 * 11"
| "block_TypeId CompensationBlock = 2 * 5 * 11 * 13"
| "block_TypeId DirectBlock = 2 * 5 * 17"
| "block_TypeId IndirectBlock = 2 * 5 * 19"
| "block_TypeId ReturnBlock = 2 * 5 * 23"

datatype BlockRequestKind =
    kRequestBlockLater | kRequestBlockFromIndexOrTraceOnly | kRequestBlockFromIndexOrTrace | kRequestBlockFromTrace
  | kRequestBlockDecodeNow | kRequestBlockExecuteNatively | kRequestBlockInFuture

fun request_value :: "BlockRequestKind \<Rightarrow> nat" where
  "request_value kRequestBlockLater = 0"
| "request_value kRequestBlockFromIndexOrTraceOnly = 5"
| "request_value kRequestBlockFromIndexOrTrace = 10"
| "request_value kRequestBlockFromTrace = 20"
| "request_value kRequestBlockDecodeNow = 30"
| "request_value kRequestBlockExecuteNatively = 40"
| "request_value kRequestBlockInFuture = 50"

definition request_max :: "BlockRequestKind \<Rightarrow> BlockRequestKind \<Rightarrow> BlockRequestKind" where
  "request_max a b = (if request_value b < request_value a then a else b)"

text \<open>Instructions of a block: annotations with their data, native instructions, control-flow
  instructions with their target block, and those that may raise an exception, with the original
  instruction, the block to recover in and the address of the emulation code.\<close>

datatype block_instr =
    InstrAnnotation InstructionAnnotation nat
  | InstrNative NativeInstruction
  | InstrCFI NativeInstruction nat
  | InstrExceptional NativeInstruction NativeInstruction nat nat

fun cfi_target :: "block_instr \<Rightarrow> nat option" where
  "cfi_target (InstrCFI i b) = Some b"
| "cfi_target (InstrExceptional i orig b pc) = Some b"
| "cfi_target _ = None"

fun cfi_native :: "block_instr \<Rightarrow> NativeInstruction option" where
  "cfi_native (InstrCFI i b) = Some i"
| "cfi_native (InstrExceptional i orig b pc) = Some i"
| "cfi_native _ = None"

fun ChangeTarget :: "nat \<Rightarrow> block_instr \<Rightarrow> block_instr" where
  "ChangeTarget new_target (InstrCFI i b) = InstrCFI i new_target"
| "ChangeTarget new_target (InstrExceptional i orig b pc) = InstrExceptional i orig new_target pc"
| "ChangeTarget new_target x = x"

text \<open>The members of all classes of blocks. The instructions are those between the annotations that
  mark the begin and the end of the block. A null pointer to meta-data is 0.\<close>

record Block =
  b_class :: block_class
  b_id :: int
  b_generation :: int
  is_reachable :: bool
  native_pc :: nat
  b_meta :: nat
  lazy_meta :: nat
  b_instrs :: "block_instr list"
  materialized_block :: "nat option"
  materialize_strategy :: BlockRequestKind
  is_comparable :: bool
  is_cold_code :: bool

definition Block_new :: "block_class \<Rightarrow> Block" where
  "Block_new c = \<lparr>b_class = c, b_id = -1, b_generation = 0, is_reachable = False, native_pc = 0, b_meta = 0, lazy_meta = 0,
     b_instrs = [], materialized_block = None, materialize_strategy = kRequestBlockLater, is_comparable = True, is_cold_code = False\<rparr>"

text \<open>The trace, its factory and the heap of blocks and meta-data. What was deleted is recorded.\<close>

record 'm trace_state =
  blk :: "nat \<Rightarrow> Block"
  next_blk :: nat
  links :: list_heap
  blocks :: list_of_heads
  entry_block :: "nat option"
  first_new_block :: "nat option"
  num_temporary_regs :: nat
  num_virtual_regs :: nat
  num_basic_blocks :: int
  trace_generation :: int
  has_pending_request :: bool
  gNumDecodedBlocks :: u32
  metas :: "nat \<Rightarrow> 'm"
  next_meta :: nat
  deleted_metas :: "nat list"
  deleted_blocks :: "nat list"

record 'm factory_env =
  fe_new_meta :: "nat \<Rightarrow> 'm"
  fe_start_pc :: "'m \<Rightarrow> nat"
  fe_equals :: "'m \<Rightarrow> 'm \<Rightarrow> bool"
  fe_unify :: "'m \<Rightarrow> 'm \<Rightarrow> UnificationStatus"
  fe_index :: "'m \<Rightarrow> UnificationStatus \<times> nat"
  fe_decode :: "nat \<Rightarrow> (NativeInstruction \<times> nat) option"
  fe_mangle :: "NativeInstruction \<Rightarrow> block_instr list \<times> NativeInstruction"
  fe_exception :: "NativeInstruction \<Rightarrow> (nat \<times> nat) option"
  fe_save_state :: "block_instr \<Rightarrow> block_instr list"
  fe_jump :: "nat \<Rightarrow> NativeInstruction"
  fe_xed :: xed_api
  fe_module :: "nat \<Rightarrow> bool"
  fe_code_cache :: "nat \<times> nat"
  fe_inst_exports :: "nat \<times> nat"
  fe_text :: "nat \<times> nat"
  fe_fini :: nat
  fe_exit_group :: nat
  FLAG_transparent_returns :: bool
  FLAG_max_num_instructions_per_block :: nat
  FLAG_debug_max_num_decoded_blocks :: u32
  HAS_FLAG_debug_max_num_decoded_blocks :: bool

definition upd_block :: "nat \<Rightarrow> (Block \<Rightarrow> Block) \<Rightarrow> 'm trace_state \<Rightarrow> 'm trace_state" where
  "upd_block b f s = s\<lparr>blk := (blk s)(b := f (blk s b))\<rparr>"

definition block_IsA :: "block_class \<Rightarrow> 'm trace_state \<Rightarrow> nat \<Rightarrow> bool" where
  "block_IsA c s b \<longleftrightarrow> block_TypeId c dvd block_TypeId (b_class (blk s b))"

definition alloc_block :: "Block \<Rightarrow> 'm trace_state \<Rightarrow> nat \<times> 'm trace_state" where
  "alloc_block b s = (next_blk s, s\<lparr>blk := (blk s)(next_blk s := b), links := (links s)(next_blk s := ListHead_new), next_blk := next_blk s + 1\<rparr>)"

definition BlockMetaData_new_pc :: "'m factory_env \<Rightarrow> nat \<Rightarrow> 'm trace_state \<Rightarrow> nat \<times> 'm trace_state" where
  "BlockMetaData_new_pc E pc s = (next_meta s, s\<lparr>metas := (metas s)(next_meta s := fe_new_meta E pc), next_meta := next_meta s + 1\<rparr>)"

definition delete_meta :: "nat \<Rightarrow> 'm trace_state \<Rightarrow> 'm trace_state" where
  "delete_meta m s = (if m = 0 then s else s\<lparr>deleted_metas := m # deleted_metas s\<rparr>)"

definition Trace_AllocateVirtualRegister :: "nat \<Rightarrow> 'm trace_state \<Rightarrow> (VirtualRegister \<times> 'm trace_state) option" where
  "Trace_AllocateVirtualRegister bytes s =
     (if 0 < bytes \<and> bytes \<le> GPR_WIDTH_BYTES \<and> kMinTraceVirtualRegister \<le> num_virtual_regs s + 1 \<and>
         num_virtual_regs s + 1 < kMinGlobalVirtualRegister
      then map_option (\<lambda>r. (r, s\<lparr>num_virtual_regs := num_virtual_regs s + 1\<rparr>))
             (VirtualRegister_new kVirtualRegisterKindVirtualGpr (of_nat bytes) (of_nat (num_virtual_regs s)))
      else None)"

definition Trace_AllocateTemporaryRegister :: "nat \<Rightarrow> 'm trace_state \<Rightarrow> (VirtualRegister \<times> 'm trace_state) option" where
  "Trace_AllocateTemporaryRegister bytes s =
     (if 0 < bytes \<and> bytes \<le> GPR_WIDTH_BYTES \<and> kMinTemporaryVirtualRegister \<le> num_temporary_regs s \<and>
         num_temporary_regs s < kMinTraceVirtualRegister
      then map_option (\<lambda>r. (r, s\<lparr>num_temporary_regs := num_temporary_regs s + 1\<rparr>))
             (VirtualRegister_new kVirtualRegisterKindVirtualGpr (of_nat bytes) (of_nat (num_temporary_regs s)))
      else None)"

definition FreeTemporaryRegisters :: "'m trace_state \<Rightarrow> 'm trace_state" where
  "FreeTemporaryRegisters s = s\<lparr>num_temporary_regs := kMinTemporaryVirtualRegister\<rparr>"

definition kMaxNumFuncOperands :: nat where
  "kMaxNumFuncOperands = 6"

definition instrumented_block :: "'m factory_env \<Rightarrow> block_class \<Rightarrow> nat \<Rightarrow> 'm trace_state \<Rightarrow> Block" where
  "instrumented_block E c meta s =
     (Block_new c)\<lparr>b_meta := meta, native_pc := (if meta = 0 then 0 else fe_start_pc E (metas s meta))\<rparr>"

text \<open>A decoded block has a virtual register for each argument of a call.\<close>

definition DecodedBlock_new :: "'m factory_env \<Rightarrow> block_class \<Rightarrow> nat \<Rightarrow> 'm trace_state \<Rightarrow> (nat \<times> 'm trace_state) option" where
  "DecodedBlock_new E c meta s =
     map_option (alloc_block (instrumented_block E c meta s))
       (opt_fold (\<lambda>_ s. map_option snd (Trace_AllocateVirtualRegister GPR_WIDTH_BYTES s)) [0..<kMaxNumFuncOperands] s)"

definition CachedBlock_new :: "'m factory_env \<Rightarrow> nat \<Rightarrow> 'm trace_state \<Rightarrow> nat \<times> 'm trace_state" where
  "CachedBlock_new E meta s = alloc_block (instrumented_block E CachedBlock meta s) s"

definition DirectBlock_new :: "'m factory_env \<Rightarrow> nat \<Rightarrow> 'm trace_state \<Rightarrow> nat \<times> 'm trace_state" where
  "DirectBlock_new E meta s = alloc_block (instrumented_block E DirectBlock meta s) s"

definition IndirectBlock_new :: "'m factory_env \<Rightarrow> nat \<Rightarrow> 'm trace_state \<Rightarrow> nat \<times> 'm trace_state" where
  "IndirectBlock_new E meta s = alloc_block (instrumented_block E IndirectBlock meta s) s"

definition ReturnBlock_new :: "'m factory_env \<Rightarrow> nat \<Rightarrow> 'm trace_state \<Rightarrow> nat \<times> 'm trace_state" where
  "ReturnBlock_new E meta s =
     alloc_block ((instrumented_block E ReturnBlock (if FLAG_transparent_returns E then meta else 0) s)
       \<lparr>lazy_meta := (if FLAG_transparent_returns E then 0 else meta)\<rparr>) s"

definition NativeBlock_new :: "nat \<Rightarrow> 'm trace_state \<Rightarrow> nat \<times> 'm trace_state" where
  "NativeBlock_new pc s = alloc_block ((Block_new NativeBlock)\<lparr>native_pc := pc\<rparr>) s"

definition ReturnBlock_MetaData :: "nat \<Rightarrow> 'm trace_state \<Rightarrow> nat \<times> 'm trace_state" where
  "ReturnBlock_MetaData b s =
     (if b_meta (blk s b) = 0
      then (lazy_meta (blk s b), upd_block b (\<lambda>x. x\<lparr>b_meta := lazy_meta x, lazy_meta := b_meta x\<rparr>) s)
      else (b_meta (blk s b), s))"

definition StartAppPC :: "'m trace_state \<Rightarrow> nat \<Rightarrow> nat option" where
  "StartAppPC s b = (if b_class (blk s b) \<in> {IndirectBlock, ReturnBlock} then None else Some (native_pc (blk s b)))"

definition block_targets :: "block_instr list \<Rightarrow> nat list" where
  "block_targets is = List.map_filter cfi_target is"

definition Successors :: "'m trace_state \<Rightarrow> nat \<Rightarrow> nat list" where
  "Successors s b = (if block_IsA DecodedBlock s b then block_targets (b_instrs (blk s b)) else [])"

definition AppendInstruction :: "nat \<Rightarrow> block_instr \<Rightarrow> 'm trace_state \<Rightarrow> 'm trace_state" where
  "AppendInstruction b i s = upd_block b (\<lambda>x. x\<lparr>b_instrs := b_instrs x @ [i]\<rparr>) s"

definition PrependInstruction :: "nat \<Rightarrow> block_instr \<Rightarrow> 'm trace_state \<Rightarrow> 'm trace_state" where
  "PrependInstruction b i s = upd_block b (\<lambda>x. x\<lparr>b_instrs := i # b_instrs x\<rparr>) s"

section \<open>The trace\<close>

definition Trace_new :: "(nat \<Rightarrow> 'm) \<Rightarrow> u32 \<Rightarrow> nat \<Rightarrow> 'm trace_state" where
  "Trace_new ms decoded next =
     \<lparr>blk = (\<lambda>_. Block_new Block_base), next_blk = 0, links = (\<lambda>_. ListHead_new), blocks = ListOfListHead_new, entry_block = None,
      first_new_block = None, num_temporary_regs = kMinTemporaryVirtualRegister, num_virtual_regs = kMinTraceVirtualRegister,
      num_basic_blocks = 0, trace_generation = 0, has_pending_request = False, gNumDecodedBlocks = decoded, metas = ms, next_meta = next,
      deleted_metas = [], deleted_blocks = []\<rparr>"

definition with_blocks :: "(list_state \<Rightarrow> list_state) \<Rightarrow> 'm trace_state \<Rightarrow> 'm trace_state" where
  "with_blocks f s = (case f (links s, blocks s) of (h, l) \<Rightarrow> s\<lparr>links := h, blocks := l\<rparr>)"

text \<open>A new block at the end of the list.\<close>

definition link_block :: "nat \<Rightarrow> 'm trace_state \<Rightarrow> 'm trace_state" where
  "link_block b s =
     (let s = (if b_id (blk s b) = -1
               then (upd_block b (\<lambda>x. x\<lparr>b_id := num_basic_blocks s\<rparr>) s)\<lparr>num_basic_blocks := num_basic_blocks s + 1\<rparr> else s)
      in with_blocks (\<lambda>l. Lists.Append l b) (upd_block b (\<lambda>x. x\<lparr>b_generation := trace_generation s\<rparr>) s))"

text \<open>The recursion over successors, with the calls that are still to be made as a list.\<close>

partial_function (option) add_blocks :: "nat list \<Rightarrow> 'm trace_state \<Rightarrow> 'm trace_state option" where
  "add_blocks bs s =
     (case bs of
        [] \<Rightarrow> Some s
      | b # rest \<Rightarrow>
          if IsLinked (links s) b then (if b_id (blk s b) \<noteq> -1 then add_blocks rest s else None)
          else let s' = link_block b s in add_blocks (Successors s' b @ rest) s')"

definition AddBlock :: "nat \<Rightarrow> 'm trace_state \<Rightarrow> 'm trace_state option" where
  "AddBlock b s = add_blocks [b] s"

definition AddEntryBlock :: "nat \<Rightarrow> 'm trace_state \<Rightarrow> 'm trace_state option" where
  "AddEntryBlock b s = do {
     s \<leftarrow> AddBlock b (s\<lparr>entry_block := Some b\<rparr>);
     let s = (if l_first (blocks s) \<noteq> Some b then with_blocks (\<lambda>l. Lists.Prepend (Lists.Remove l b) b) s else s);
     Some (s\<lparr>first_new_block := Some b, trace_generation := trace_generation s + 1\<rparr>)
   }"

text \<open>A loop over the blocks of the trace: the next block is looked up after the body ran.\<close>

partial_function (option) for_blocks ::
    "(nat \<Rightarrow> 'a \<times> 'm trace_state \<Rightarrow> ('a \<times> 'm trace_state) option) \<Rightarrow> nat option \<Rightarrow> 'a \<times> 'm trace_state \<Rightarrow> ('a \<times> 'm trace_state) option" where
  "for_blocks f cursor st =
     (case cursor of
        None \<Rightarrow> Some st
      | Some b \<Rightarrow> Option.bind (f b st) (\<lambda>st. for_blocks f (lh_next (links (snd st) b)) st))"

definition for_all_blocks ::
    "(nat \<Rightarrow> 'a \<times> 'm trace_state \<Rightarrow> ('a \<times> 'm trace_state) option) \<Rightarrow> 'a \<times> 'm trace_state \<Rightarrow> ('a \<times> 'm trace_state) option" where
  "for_all_blocks f st = for_blocks f (l_first (blocks (snd st))) st"

text \<open>The same for bodies without a result of their own.\<close>

definition for_each_block :: "(nat \<Rightarrow> 'm trace_state \<Rightarrow> 'm trace_state option) \<Rightarrow> 'm trace_state \<Rightarrow> 'm trace_state option" where
  "for_each_block f s = map_option snd (for_all_blocks (\<lambda>b (u, s). map_option (Pair ()) (f b s)) ((), s))"

section \<open>Making blocks\<close>

text \<open>Requests. A block that is not direct has nothing to request.\<close>

definition RequestBlock :: "nat \<Rightarrow> BlockRequestKind \<Rightarrow> 'm trace_state \<Rightarrow> 'm trace_state" where
  "RequestBlock b strategy s =
     (if \<not> block_IsA DirectBlock s b then s
      else let old = materialize_strategy (blk s b); new = request_max old strategy;
               s = upd_block b (\<lambda>x. x\<lparr>materialize_strategy := new\<rparr>) s
           in if old \<noteq> new then s\<lparr>has_pending_request := True\<rparr> else s)"

definition HasPendingMaterializationRequest :: "'m trace_state \<Rightarrow> bool" where
  "HasPendingMaterializationRequest s = has_pending_request s"

text \<open>A jump to a block, as an instruction of the application.\<close>

definition app_jump :: "'m factory_env \<Rightarrow> nat \<Rightarrow> nat \<Rightarrow> 'm trace_state \<Rightarrow> block_instr option" where
  "app_jump E target pc s = map_option (\<lambda>start. InstrCFI ((fe_jump E start)\<lparr>decoded_pc := pc\<rparr>) target) (StartAppPC s target)"

definition AdaptToBlock :: "'m factory_env \<Rightarrow> nat \<Rightarrow> nat \<Rightarrow> 'm trace_state \<Rightarrow> (nat \<times> 'm trace_state) option" where
  "AdaptToBlock E meta existing_block s = do {
     (adapt, s) \<leftarrow> DecodedBlock_new E CompensationBlock meta s;
     jump \<leftarrow> app_jump E existing_block (fe_start_pc E (metas s meta)) s;
     Some (adapt, AppendInstruction adapt jump s)
   }"

definition BranchTargetPC :: "NativeInstruction \<Rightarrow> nat" where
  "BranchTargetPC i = unat (op_imm (op_at i 0))"

definition MakeInstruction ::
    "'m factory_env \<Rightarrow> NativeInstruction \<Rightarrow> NativeInstruction \<Rightarrow> 'm trace_state \<Rightarrow> (block_instr \<times> 'm trace_state) option" where
  "MakeInstruction E instr orig s =
     (if arch_HasIndirectTarget instr then
        let (target, s) =
          (if IsFunctionCall instr \<or> IsJump instr then case BlockMetaData_new_pc E 0 s of (m, s) \<Rightarrow> IndirectBlock_new E m s
           else if IsFunctionReturn instr then case BlockMetaData_new_pc E 0 s of (m, s) \<Rightarrow> ReturnBlock_new E m s
           else NativeBlock_new 0 s)
        in Some (InstrCFI instr target, s)
      else if IsJump instr \<or> IsFunctionCall instr then
        let (m, s) = BlockMetaData_new_pc E (BranchTargetPC instr) s; (target, s) = DirectBlock_new E m s
        in Some (InstrCFI instr target, s)
      else
        case fe_exception E orig of
          Some (recovery_pc, emulation_pc) \<Rightarrow>
            let (m, s) = BlockMetaData_new_pc E recovery_pc s; (target, s) = DirectBlock_new E m s;
                s = RequestBlock target kRequestBlockInFuture s
            in Option.bind (WritesToStackPointer (fe_xed E) orig) (\<lambda>(w, orig).
                 if w then None else Some (InstrExceptional instr orig target emulation_pc, s))
        | None \<Rightarrow> Some (InstrNative instr, s))"

definition AddFallThroughInstruction ::
    "'m factory_env \<Rightarrow> nat \<Rightarrow> block_instr option \<Rightarrow> nat \<Rightarrow> 'm trace_state \<Rightarrow> 'm trace_state option" where
  "AddFallThroughInstruction E this last_instr pc s =
     (let cfi = Option.bind last_instr cfi_native in
      if (case cfi of None \<Rightarrow> False
          | Some i \<Rightarrow> FLAG_transparent_returns E \<and> IsFunctionCall i \<or> IsUnconditionalJump i \<or> IsFunctionReturn i \<or>
              IsSystemReturn i \<or> IsInterruptReturn i)
      then Some s
      else do {
        let (m, s) = BlockMetaData_new_pc E pc s;
        let (fall, s) = DirectBlock_new E m s;
        jump \<leftarrow> app_jump E fall pc s;
        let s = AppendInstruction this jump s;
        Some (case last_instr of
                Some (InstrCFI i t) \<Rightarrow>
                  if IsFunctionCall i \<or> IsSystemCall i \<or> IsInterruptCall i then RequestBlock fall kRequestBlockInFuture s else s
              | Some (InstrExceptional i orig t e) \<Rightarrow>
                  if IsFunctionCall i \<or> IsSystemCall i \<or> IsInterruptCall i then RequestBlock fall kRequestBlockInFuture s
                  else RequestBlock t kRequestBlockDecodeNow (RequestBlock fall kRequestBlockDecodeNow s)
              | _ \<Rightarrow> s)
      })"

definition Materialize :: "'m factory_env \<Rightarrow> nat \<Rightarrow> 'm trace_state \<Rightarrow> (nat \<times> 'm trace_state) option" where
  "Materialize E start_pc s =
     (let (m, s) = BlockMetaData_new_pc E start_pc s; (b, s) = DirectBlock_new E m s
      in map_option (Pair b) (AddBlock b s))"

definition MaterializeEmptyBlock :: "'m factory_env \<Rightarrow> nat \<Rightarrow> 'm trace_state \<Rightarrow> (nat \<times> 'm trace_state) option" where
  "MaterializeEmptyBlock E start_pc s = do {
     let (m, s) = BlockMetaData_new_pc E start_pc s;
     (b, s) \<leftarrow> DecodedBlock_new E CompensationBlock m s;
     map_option (Pair b) (AddBlock b (s\<lparr>has_pending_request := True\<rparr>))
   }"

text \<open>The instructions from index \<open>k\<close> on were added for one instruction of the application.\<close>

definition AnnotateInstruction :: "'m factory_env \<Rightarrow> nat \<Rightarrow> nat \<Rightarrow> nat \<Rightarrow> 'm trace_state \<Rightarrow> 'm trace_state option" where
  "AnnotateInstruction E this k next_pc s =
     (let is = b_instrs (blk s this);
          saves = concat (map (\<lambda>i. case i of InstrExceptional _ _ _ _ \<Rightarrow> fe_save_state E i | _ \<Rightarrow> []) (drop k is));
          s = upd_block this (\<lambda>x. x\<lparr>b_instrs := take k is @ saves @ drop k is\<rparr>) s
      in if list_ex (\<lambda>i. case i of InstrAnnotation a d \<Rightarrow> a = kAnnotInterruptDeliveryStateChange | _ \<Rightarrow> False) (drop k is)
         then do {
           (b, s) \<leftarrow> Materialize E next_pc s;
           let s = RequestBlock b kRequestBlockLater s;
           jump \<leftarrow> app_jump E b next_pc s;
           Some (AppendInstruction this jump s)
         } else Some s)"

text \<open>The number of instructions that may still be decoded is the recursion's measure; the option that
  limits it is positive.\<close>

fun decode_loop :: "'m factory_env \<Rightarrow> nat \<Rightarrow> nat \<Rightarrow> nat \<Rightarrow> 'm trace_state \<Rightarrow> 'm trace_state option" where
  "decode_loop E this 0 decode_pc s = None"
| "decode_loop E this (Suc n) decode_pc s = do {
     let k = length (b_instrs (blk s this));
     let s = AppendInstruction this (InstrAnnotation kAnnotLogicalInstructionBoundary decode_pc) s;
     case fe_decode E decode_pc of
       Some (dinstr, next_pc) \<Rightarrow>
         if IsInterruptCall dinstr then do {
           let (native, s) = NativeBlock_new decode_pc s;
           jump \<leftarrow> app_jump E native decode_pc s;
           Some (AppendInstruction this jump s)
         } else do {
           let (before, minstr) = fe_mangle E dinstr;
           let s = fold (AppendInstruction this) before s;
           (i, s) \<leftarrow> MakeInstruction E minstr dinstr s;
           s \<leftarrow> AnnotateInstruction E this k next_pc (AppendInstruction this i s);
           let final = last (b_instrs (blk s this));
           if cfi_target final = None \<and> n \<noteq> 0 then decode_loop E this n next_pc s
           else AddFallThroughInstruction E this (Some final) next_pc s
         }
     | None \<Rightarrow> do {
         let (native, s) = NativeBlock_new decode_pc s;
         jump \<leftarrow> app_jump E native decode_pc s;
         Some (AppendInstruction this jump s)
       }
   }"

definition DecodeInstructionList :: "'m factory_env \<Rightarrow> nat \<Rightarrow> 'm trace_state \<Rightarrow> 'm trace_state option" where
  "DecodeInstructionList E this s =
     decode_loop E this (FLAG_max_num_instructions_per_block E) (native_pc (blk s this)) s"

section \<open>Materialisation\<close>

definition CanMaterializeBlock :: "'m trace_state \<Rightarrow> nat \<Rightarrow> bool" where
  "CanMaterializeBlock s b \<longleftrightarrow> materialized_block (blk s b) = None \<and>
     materialize_strategy (blk s b) \<notin> {kRequestBlockLater, kRequestBlockInFuture}"

text \<open>The block found, if any, and whether the meta-data were used up.\<close>

definition RequestIndexedBlock ::
    "'m factory_env \<Rightarrow> nat \<Rightarrow> 'm trace_state \<Rightarrow> (nat option \<times> 'm trace_state) option" where
  "RequestIndexedBlock E meta s =
     (case fe_index E (metas s meta) of
        (kUnificationStatusAccept, found) \<Rightarrow>
          let (b, s) = CachedBlock_new E found s
          in Some (Some b, if found \<noteq> meta then delete_meta meta s else s)
      | (kUnificationStatusAdapt, found) \<Rightarrow>
          let (b, s) = CachedBlock_new E found s
          in map_option (\<lambda>(a, s). (Some a, s)) (AdaptToBlock E meta b s)
      | (kUnificationStatusReject, _) \<Rightarrow> Some (None, s))"

text \<open>The search goes backwards: a perfect match, or the earliest block that can be adapted to.\<close>

fun match_in_trace :: "'m factory_env \<Rightarrow> 'm trace_state \<Rightarrow> nat \<Rightarrow> nat list \<Rightarrow> nat option \<Rightarrow> (bool \<times> nat) option" where
  "match_in_trace E s exclude [] adapt = map_option (Pair False) adapt"
| "match_in_trace E s exclude (b # rest) adapt =
     (let found = (if b = exclude then None
                   else case (if block_IsA DirectBlock s b then materialized_block (blk s b) else Some b) of
                     None \<Rightarrow> None
                   | Some c \<Rightarrow>
                       if block_IsA InstrumentedBlock s c \<and> b_meta (blk s c) \<noteq> 0 \<and>
                          (block_IsA CompensationBlock s c \<longrightarrow> is_comparable (blk s c)) \<and>
                          fe_equals E (metas s (b_meta (blk s exclude))) (metas s (b_meta (blk s c)))
                       then Some c else None)
      in case found of
           None \<Rightarrow> match_in_trace E s exclude rest adapt
         | Some c \<Rightarrow>
             (case fe_unify E (metas s (b_meta (blk s exclude))) (metas s (b_meta (blk s c))) of
                kUnificationStatusAccept \<Rightarrow> Some (True, c)
              | kUnificationStatusAdapt \<Rightarrow> match_in_trace E s exclude rest (Some c)
              | kUnificationStatusReject \<Rightarrow> match_in_trace E s exclude rest adapt))"

definition MaterializeFromTrace :: "'m factory_env \<Rightarrow> nat \<Rightarrow> 'm trace_state \<Rightarrow> (nat option \<times> 'm trace_state) option" where
  "MaterializeFromTrace E exclude s = do {
     bs \<leftarrow> ReverseListHeadIterator (links s) (l_last (blocks s));
     let meta = b_meta (blk s exclude);
     case match_in_trace E s exclude bs None of
       None \<Rightarrow> Some (None, s)
     | Some (perfect, b) \<Rightarrow>
         if perfect then Some (Some b, upd_block exclude (\<lambda>x. x\<lparr>b_meta := 0\<rparr>) (delete_meta meta s))
         else map_option (\<lambda>(a, s). (Some a, s)) (AdaptToBlock E meta b (upd_block exclude (\<lambda>x. x\<lparr>b_meta := 0\<rparr>) s))
   }"

definition within :: "nat \<times> nat \<Rightarrow> nat \<Rightarrow> bool" where
  "within r pc \<longleftrightarrow> fst r \<le> pc \<and> pc < snd r"

text \<open>The kind of the request and the address that is gone to.\<close>

definition RequestKindForTargetPC ::
    "'m factory_env \<Rightarrow> nat \<Rightarrow> BlockRequestKind \<Rightarrow> 'm trace_state \<Rightarrow> (BlockRequestKind \<times> nat \<times> 'm trace_state) option" where
  "RequestKindForTargetPC E target_pc default_kind s = do {
     (kind, pc) \<leftarrow> (if within (fe_code_cache E) target_pc \<or> within (fe_inst_exports E) target_pc then Some (kRequestBlockExecuteNatively, target_pc)
                   else if target_pc = fe_fini E then Some (kRequestBlockExecuteNatively, fe_exit_group E)
                   else if within (fe_text E) target_pc then None
                   else if fe_module E target_pc then Some (default_kind, target_pc)
                   else None);
     let num = (if kind = kRequestBlockDecodeNow then gNumDecodedBlocks s + 1 else gNumDecodedBlocks s);
     let s = s\<lparr>gNumDecodedBlocks := num\<rparr>;
     Some (if FLAG_debug_max_num_decoded_blocks E \<le> num then kRequestBlockExecuteNatively else kind, pc, s)
   }"

text \<open>A decoded block, a native one, one from the index or from the trace.\<close>

definition decode_now :: "'m factory_env \<Rightarrow> nat \<Rightarrow> 'm trace_state \<Rightarrow> 'm trace_state option" where
  "decode_now E this s = do {
     (d, s) \<leftarrow> DecodedBlock_new E DecodedBlock (b_meta (blk s this)) s;
     DecodeInstructionList E d (upd_block this (\<lambda>x. x\<lparr>b_meta := 0, materialized_block := Some d\<rparr>) s)
   }"

definition from_trace :: "'m factory_env \<Rightarrow> bool \<Rightarrow> nat \<Rightarrow> 'm trace_state \<Rightarrow> 'm trace_state option" where
  "from_trace E only this s = do {
     (r, s) \<leftarrow> MaterializeFromTrace E this s;
     let s = upd_block this (\<lambda>x. x\<lparr>materialized_block := r\<rparr>) s;
     if r \<noteq> None \<or> only then Some s else decode_now E this s
   }"

definition from_index :: "'m factory_env \<Rightarrow> bool \<Rightarrow> nat \<Rightarrow> 'm trace_state \<Rightarrow> 'm trace_state option" where
  "from_index E only this s =
     (if HAS_FLAG_debug_max_num_decoded_blocks E then from_trace E only this s
      else do {
        (r, s) \<leftarrow> RequestIndexedBlock E (b_meta (blk s this)) s;
        let s = upd_block this (\<lambda>x. x\<lparr>materialized_block := r, b_meta := (if r = None then b_meta x else 0)\<rparr>) s;
        if r \<noteq> None then Some s else from_trace E only this s
      })"

definition native_now :: "nat \<Rightarrow> nat \<Rightarrow> 'm trace_state \<Rightarrow> 'm trace_state" where
  "native_now start_pc this s =
     (let (n, s) = NativeBlock_new start_pc s
      in upd_block this (\<lambda>x. x\<lparr>materialized_block := Some n, b_meta := 0\<rparr>) (delete_meta (b_meta (blk s this)) s))"

definition MaterializeBlock :: "'m factory_env \<Rightarrow> nat \<Rightarrow> 'm trace_state \<Rightarrow> (bool \<times> 'm trace_state) option" where
  "MaterializeBlock E this s =
     (if \<not> CanMaterializeBlock s this then Some (False, s)
      else do {
        (kind, start_pc, s) \<leftarrow> RequestKindForTargetPC E (native_pc (blk s this)) (materialize_strategy (blk s this)) s;
        let s = upd_block this (\<lambda>x. x\<lparr>materialize_strategy := kRequestBlockInFuture\<rparr>) s;
        s \<leftarrow> (case kind of
                kRequestBlockFromIndexOrTrace \<Rightarrow> from_index E False this s
              | kRequestBlockFromIndexOrTraceOnly \<Rightarrow> from_index E True this s
              | kRequestBlockFromTrace \<Rightarrow> from_trace E False this s
              | kRequestBlockDecodeNow \<Rightarrow> decode_now E this s
              | kRequestBlockExecuteNatively \<Rightarrow> Some (native_now start_pc this s)
              | _ \<Rightarrow> Some s);
        case materialized_block (blk s this) of
          None \<Rightarrow> Some (False, s)
        | Some m \<Rightarrow>
            let s = (if b_id (blk s m) = -1 then upd_block m (\<lambda>x. x\<lparr>b_id := b_id (blk s this)\<rparr>) s else s)
            in map_option (Pair True) (AddBlock m s)
      })"

definition MaterializeDirectBlocks :: "'m factory_env \<Rightarrow> 'm trace_state \<Rightarrow> (bool \<times> 'm trace_state) option" where
  "MaterializeDirectBlocks E s =
     for_all_blocks (\<lambda>b (any, s).
       if block_IsA DirectBlock s b then map_option (\<lambda>(m, s). (m \<or> any, s)) (MaterializeBlock E b s) else Some (any, s)) (False, s)"

text \<open>What a target becomes; the block that replaces it is in the list.\<close>

definition relink_target :: "'m trace_state \<Rightarrow> nat \<Rightarrow> nat option" where
  "relink_target s t =
     (case (if block_IsA DirectBlock s t then materialized_block (blk s t) else None) of
        None \<Rightarrow> Some t
      | Some m \<Rightarrow> if IsLinked (links s) m then Some m else None)"

fun relink_instrs :: "'m trace_state \<Rightarrow> block_instr list \<Rightarrow> block_instr list option" where
  "relink_instrs s [] = Some []"
| "relink_instrs s (i # rest) = do {
     i' \<leftarrow> (case cfi_target i of None \<Rightarrow> Some i | Some t \<Rightarrow> map_option (\<lambda>t. ChangeTarget t i) (relink_target s t));
     map_option ((#) i') (relink_instrs s rest)
   }"

definition RelinkCFIs :: "'m trace_state \<Rightarrow> 'm trace_state option" where
  "RelinkCFIs s =
     for_each_block (\<lambda>b s.
       if block_IsA DecodedBlock s b
       then map_option (\<lambda>is. upd_block b (\<lambda>x. x\<lparr>b_instrs := is\<rparr>) s) (relink_instrs s (b_instrs (blk s b))) else Some s) s"

section \<open>Unreachable blocks\<close>

text \<open>The lists of the traversal are threaded through the links of the same blocks.\<close>

record 'm reach_state =
  rs_trace :: "'m trace_state"
  rs_old :: list_of_heads
  rs_new :: list_of_heads
  rs_work :: list_of_heads

definition reach_succ :: "nat \<Rightarrow> 'm reach_state \<Rightarrow> 'm reach_state" where
  "reach_succ b r =
     (let s = rs_trace r in
      if is_reachable (blk s b) then r
      else let s = with_blocks (\<lambda>l. Lists.Remove l b) (upd_block b (\<lambda>x. x\<lparr>is_reachable := True\<rparr>) s);
               (h, work) = Lists.Append (links s, rs_work r) b
           in r\<lparr>rs_trace := s\<lparr>links := h\<rparr>, rs_work := work\<rparr>)"

text \<open>The oldest block of the work list goes to the old or to the new blocks.\<close>

definition reach_pop :: "nat \<Rightarrow> 'm reach_state \<Rightarrow> 'm reach_state" where
  "reach_pop b r =
     (let s = rs_trace r;
          (h, work) = Lists.Remove (links s, rs_work r) b
      in if b_generation (blk s b) < trace_generation s
         then let (h, old) = Lists.Append (h, rs_old r) b in r\<lparr>rs_trace := s\<lparr>links := h\<rparr>, rs_work := work, rs_old := old\<rparr>
         else let (h, new) = Lists.Append (h, rs_new r) b in r\<lparr>rs_trace := s\<lparr>links := h\<rparr>, rs_work := work, rs_new := new\<rparr>)"

partial_function (option) reach_loop :: "'m reach_state \<Rightarrow> 'm reach_state option" where
  "reach_loop r =
     (case l_first (rs_work r) of
        None \<Rightarrow> Some r
      | Some b \<Rightarrow> reach_loop (fold reach_succ (Successors (rs_trace r) b) (reach_pop b r)))"

text \<open>A block is deleted after its meta-data; the destructor of a return block deletes those it kept aside.\<close>

definition delete_block :: "nat \<Rightarrow> 'm trace_state \<Rightarrow> 'm trace_state" where
  "delete_block b s =
     (let s = with_blocks (\<lambda>l. Lists.Remove l b) s;
          s = (if block_IsA InstrumentedBlock s b \<and> \<not> block_IsA CachedBlock s b then delete_meta (b_meta (blk s b)) s else s);
          s = (if b_class (blk s b) = ReturnBlock \<and> b_meta (blk s b) = 0 then delete_meta (lazy_meta (blk s b)) s else s)
      in s\<lparr>deleted_blocks := b # deleted_blocks s\<rparr>)"

partial_function (option) delete_loop :: "'m trace_state \<Rightarrow> 'm trace_state option" where
  "delete_loop s = (case l_first (blocks s) of None \<Rightarrow> Some s | Some b \<Rightarrow> delete_loop (delete_block b s))"

text \<open>All blocks to the trace, then a traversal from the entry block.\<close>

definition add_successors :: "'m trace_state \<Rightarrow> 'm trace_state option" where
  "add_successors s = for_each_block (\<lambda>b s. opt_fold AddBlock (Successors s b) s) s"

definition mark_unreachable :: "'m trace_state \<Rightarrow> 'm trace_state option" where
  "mark_unreachable s = for_each_block (\<lambda>b s. Some (upd_block b (\<lambda>x. x\<lparr>is_reachable := False\<rparr>) s)) s"

definition reach_start :: "nat \<Rightarrow> 'm trace_state \<Rightarrow> 'm reach_state" where
  "reach_start entry s =
     (let s = with_blocks (\<lambda>l. Lists.Remove l entry) (upd_block entry (\<lambda>x. x\<lparr>is_reachable := True\<rparr>) s);
          (h, work) = Lists.Append (links s, ListOfListHead_new) entry
      in \<lparr>rs_trace = s\<lparr>links := h\<rparr>, rs_old = ListOfListHead_new, rs_new = ListOfListHead_new, rs_work = work\<rparr>)"

definition RemoveUnreachableBlocks :: "'m trace_state \<Rightarrow> 'm trace_state option" where
  "RemoveUnreachableBlocks s = do {
     s \<leftarrow> add_successors s;
     s \<leftarrow> mark_unreachable s;
     entry \<leftarrow> entry_block s;
     r \<leftarrow> reach_loop (reach_start entry s);
     s \<leftarrow> delete_loop (rs_trace r);
     Some (case Lists.Extend (links s) (rs_old r) (rs_new r) of
             (h, l, _) \<Rightarrow> s\<lparr>links := h, blocks := l, first_new_block := l_first (rs_new r)\<rparr>)
   }"

definition MaterializeRequestedBlocks :: "'m factory_env \<Rightarrow> 'm trace_state \<Rightarrow> 'm trace_state option" where
  "MaterializeRequestedBlocks E s = do {
     (any, s) \<leftarrow> MaterializeDirectBlocks E (s\<lparr>has_pending_request := False, first_new_block := None\<rparr>);
     s \<leftarrow> (if any then Option.bind (RelinkCFIs s) RemoveUnreachableBlocks else Some s);
     Some (s\<lparr>trace_generation := trace_generation s + 1\<rparr>)
   }"

section \<open>Entry blocks\<close>

definition MaterializeIndirectEntryBlock :: "'m factory_env \<Rightarrow> nat \<Rightarrow> 'm trace_state \<Rightarrow> (nat \<times> 'm trace_state) option" where
  "MaterializeIndirectEntryBlock E meta s = do {
     (kind, start_pc, s) \<leftarrow> RequestKindForTargetPC E (fe_start_pc E (metas s meta)) kRequestBlockFromIndexOrTrace s;
     (target, s) \<leftarrow> (if kind = kRequestBlockExecuteNatively then Some (NativeBlock_new start_pc s)
                     else let (m, s) = BlockMetaData_new_pc E start_pc s; (t, s) = DirectBlock_new E m s; s = RequestBlock t kind s
                          in if has_pending_request s then Some (t, s) else None);
     (adapt, s) \<leftarrow> AdaptToBlock E meta target s;
     map_option (Pair adapt) (AddEntryBlock adapt (upd_block adapt (\<lambda>x. x\<lparr>is_comparable := False\<rparr>) s))
   }"

definition MaterializeDirectEntryBlock :: "'m factory_env \<Rightarrow> nat \<Rightarrow> 'm trace_state \<Rightarrow> (nat \<times> 'm trace_state) option" where
  "MaterializeDirectEntryBlock E meta s = do {
     _ \<leftarrow> (if meta = 0 then None else Some ());
     (kind, start_pc, s) \<leftarrow> RequestKindForTargetPC E (fe_start_pc E (metas s meta)) kRequestBlockDecodeNow s;
     (entry, s) \<leftarrow> (if kind = kRequestBlockDecodeNow then do {
                      (d, s) \<leftarrow> DecodedBlock_new E DecodedBlock meta s;
                      map_option (Pair d) (DecodeInstructionList E d s)
                    } else if kind = kRequestBlockExecuteNatively then
                      let (n, s) = NativeBlock_new start_pc s in AdaptToBlock E meta n s
                    else None);
     s \<leftarrow> AddEntryBlock entry s;
     Some (entry, s\<lparr>has_pending_request := False\<rparr>)
   }"

definition RequestDirectEntryBlock :: "'m factory_env \<Rightarrow> nat \<Rightarrow> 'm trace_state \<Rightarrow> (nat option \<times> 'm trace_state) option" where
  "RequestDirectEntryBlock E meta s = do {
     (r, s) \<leftarrow> RequestIndexedBlock E meta s;
     case r of None \<Rightarrow> Some (None, s) | Some b \<Rightarrow> map_option (Pair (Some b)) (AddEntryBlock b s)
   }"

end
