(* ===== verification/Trace_Graph.thy ===== *)
theory Trace_Graph
  imports Blocks
begin

text \<open>
  The blocks of a trace: adding a block adds everything that is reachable from it, and removing
  unreachable blocks leaves exactly the blocks that are reachable from the entry block, old ones
  first.  A trace whose only block branches to itself is the exception: the code takes its block
  for one that is not in the list.
\<close>

section \<open>Linked blocks\<close>

lemma IsLinked_iff:
  assumes "owns (h, l) xs"
  shows "IsLinked h b \<longleftrightarrow> b \<in> set xs \<and> xs \<noteq> [b]"
proof (cases "b \<in> set xs")
  case True
  then obtain as bs where xs: "xs = as @ b # bs" by (auto simp: in_set_conv_decomp)
  then have "lh_prev (h b) = last_or None as" "lh_next (h b) = head_or bs None"
    using assms by (auto simp: owns_def holds_list_def)
  then have "IsLinked h b \<longleftrightarrow> as \<noteq> [] \<or> bs \<noteq> []"
    by (cases as rule: rev_cases; cases bs) (auto simp: IsLinked_def)
  then show ?thesis using True xs by (auto simp: append_eq_Cons_conv)
next
  case False
  then show ?thesis using assms by (auto simp: owns_def unlinked_def)
qed

lemma owns_append: "owns s xs \<Longrightarrow> b \<notin> set xs \<Longrightarrow> owns (Lists.Append s b) (xs @ [b])"
proof -
  assume o: "owns s xs" and b: "b \<notin> set xs"
  then have hs: "holds_list s xs" "unlinked (fst s) b" by (simp_all add: owns_def)
  show "owns (Lists.Append s b) (xs @ [b])"
    by (rule owns_insert [OF o b Append_holds(1) [OF hs(1) b hs(2)]]) (use Append_holds(2) [OF hs(1) b hs(2)] in auto)
qed

section \<open>The graph\<close>

definition trace_owns :: "'m trace_state \<Rightarrow> nat list \<Rightarrow> bool" where
  "trace_owns s xs \<longleftrightarrow> owns (links s, blocks s) xs"

text \<open>Only identifiers, generations, marks and the list of blocks differ.\<close>

definition same_graph :: "'m trace_state \<Rightarrow> 'm trace_state \<Rightarrow> bool" where
  "same_graph s t \<longleftrightarrow> (\<forall>b. b_class (blk t b) = b_class (blk s b) \<and> b_instrs (blk t b) = b_instrs (blk s b) \<and>
       b_meta (blk t b) = b_meta (blk s b) \<and> materialized_block (blk t b) = materialized_block (blk s b)) \<and>
     next_blk t = next_blk s \<and> entry_block t = entry_block s \<and> metas t = metas s \<and> trace_generation t = trace_generation s"

lemma same_graph_refl [simp]: "same_graph s s"
  by (simp add: same_graph_def)

lemma same_graph_trans: "same_graph s t \<Longrightarrow> same_graph t u \<Longrightarrow> same_graph s u"
  by (simp add: same_graph_def)

lemma same_graph_views:
  assumes "same_graph s t"
  shows "block_IsA c t = block_IsA c s" "Successors t = Successors s" "next_blk t = next_blk s" "entry_block t = entry_block s"
    "trace_generation t = trace_generation s"
proof -
  show IsA: "block_IsA c t = block_IsA c s" for c using assms by (simp add: fun_eq_iff block_IsA_def same_graph_def)
  show "Successors t = Successors s" using assms by (simp add: fun_eq_iff Successors_def IsA same_graph_def)
qed (use assms in \<open>simp_all add: same_graph_def\<close>)

text \<open>Blocks are allocated below \<open>next_blk\<close>, and so are the targets of their instructions.\<close>

definition blocks_closed :: "'m trace_state \<Rightarrow> bool" where
  "blocks_closed s \<longleftrightarrow> (\<forall>b < next_blk s. set (Successors s b) \<subseteq> {..<next_blk s})"

definition block_reach :: "'m trace_state \<Rightarrow> nat \<Rightarrow> nat set" where
  "block_reach s b = {c. (b, c) \<in> {(x, y). y \<in> set (Successors s x)}\<^sup>*}"

section \<open>Adding blocks\<close>

text \<open>What adding the blocks \<open>ys\<close> does.\<close>

definition added :: "'m trace_state \<Rightarrow> nat list \<Rightarrow> 'm trace_state \<Rightarrow> bool" where
  "added s ys t \<longleftrightarrow> same_graph s t \<and>
     (\<forall>b. b \<notin> set ys \<longrightarrow> b_generation (blk t b) = b_generation (blk s b) \<and> b_id (blk t b) = b_id (blk s b)) \<and>
     (\<forall>b \<in> set ys. b_generation (blk t b) = trace_generation s) \<and> deleted_blocks t = deleted_blocks s \<and> deleted_metas t = deleted_metas s"

lemma added_Nil [simp]: "added s [] s"
  by (simp add: added_def)

lemma added_trans: "added s xs t \<Longrightarrow> added t ys u \<Longrightarrow> set xs \<inter> set ys = {} \<Longrightarrow> added s (xs @ ys) u"
  unfolding added_def using same_graph_trans [of s t u] by (auto simp: same_graph_def)

lemma link_block_ok:
  assumes "trace_owns s xs" "b \<notin> set xs" "0 \<le> num_basic_blocks s"
  shows "trace_owns (link_block b s) (xs @ [b])" "added s [b] (link_block b s)" "b_id (blk (link_block b s) b) \<noteq> -1"
    "0 \<le> num_basic_blocks (link_block b s)"
proof -
  obtain h l where hl: "Lists.Append (links s, blocks s) b = (h, l)" by fastforce
  have "owns (h, l) (xs @ [b])" using owns_append [OF _ assms(2)] assms(1) hl by (metis trace_owns_def)
  then show "trace_owns (link_block b s) (xs @ [b])" "added s [b] (link_block b s)" "b_id (blk (link_block b s) b) \<noteq> -1"
    "0 \<le> num_basic_blocks (link_block b s)"
    using hl assms(3) by (auto simp: link_block_def Let_def with_blocks_def upd_block_def trace_owns_def added_def same_graph_def)
qed

lemma add_blocks_simps:
  "add_blocks [] s = Some s"
  "IsLinked (links s) b \<Longrightarrow> b_id (blk s b) \<noteq> -1 \<Longrightarrow> add_blocks (b # rest) s = add_blocks rest s"
  "\<not> IsLinked (links s) b \<Longrightarrow> add_blocks (b # rest) s = add_blocks (Successors (link_block b s) b @ rest) (link_block b s)"
  by (simp_all add: add_blocks.simps [of "[]"] add_blocks.simps [of "b # rest"] Let_def)

text \<open>The blocks of the list have identifiers.\<close>

definition ids_ok :: "'m trace_state \<Rightarrow> nat list \<Rightarrow> bool" where
  "ids_ok s xs \<longleftrightarrow> 0 \<le> num_basic_blocks s \<and> (\<forall>b \<in> set xs. b_id (blk s b) \<noteq> -1)"

lemma add_blocks_ok:
  assumes "trace_owns s xs" "ids_ok s xs" "set xs \<union> set bs \<subseteq> {..<next_blk s}" "blocks_closed s"
    and "length xs = 1 \<Longrightarrow> bs \<noteq> [] \<Longrightarrow> hd bs \<noteq> hd xs" "xs \<noteq> []"
  shows "\<exists>t ys. add_blocks bs s = Some t \<and> trace_owns t (xs @ ys) \<and> ids_ok t (xs @ ys) \<and> added s ys t \<and>
    set bs \<subseteq> set (xs @ ys) \<and> set ys \<subseteq> (\<Union>b \<in> set bs. block_reach s b) \<and> (\<forall>y \<in> set ys. set (Successors s y) \<subseteq> set (xs @ ys))"
  using assms
proof (induction "(next_blk s - length xs, length bs)" arbitrary: s xs bs rule: wf_induct_rule [OF wf_lex_prod [OF wf_less_than wf_less_than]])
  case 1
  show ?case
  proof (cases bs)
    case Nil
    then show ?thesis using 1(2,3) by (intro exI [of _ s] exI [of _ "[]"]) (simp add: add_blocks_simps)
  next
    case (Cons b rest)
    have linked: "IsLinked (links s) b \<longleftrightarrow> b \<in> set xs"
      using IsLinked_iff [of "links s" "blocks s" xs b] 1(2,6) Cons by (auto simp: trace_owns_def)
    show ?thesis
    proof (cases "b \<in> set xs")
      case True
      then have "length xs \<noteq> 1" using 1(6) Cons by (cases xs) auto
      then have step: "\<exists>t ys. add_blocks rest s = Some t \<and> trace_owns t (xs @ ys) \<and> ids_ok t (xs @ ys) \<and> added s ys t \<and>
          set rest \<subseteq> set (xs @ ys) \<and> set ys \<subseteq> (\<Union>b \<in> set rest. block_reach s b) \<and> (\<forall>y \<in> set ys. set (Successors s y) \<subseteq> set (xs @ ys))"
        using 1(2-7) Cons by (intro "1.hyps") auto
      have "add_blocks bs s = add_blocks rest s"
        using True linked 1(3) Cons add_blocks_simps(2) by (auto simp: ids_ok_def)
      moreover from step obtain t ys where "add_blocks rest s = Some t" "trace_owns t (xs @ ys)" "ids_ok t (xs @ ys)" "added s ys t"
        "set rest \<subseteq> set (xs @ ys)" "set ys \<subseteq> (\<Union>b \<in> set rest. block_reach s b)" "\<forall>y \<in> set ys. set (Successors s y) \<subseteq> set (xs @ ys)" by blast
      ultimately show ?thesis using True Cons by (intro exI [of _ t] exI [of _ ys]) auto
    next
      case False
      let ?s = "link_block b s" and ?bs = "Successors s b @ rest"
      have n: "0 \<le> num_basic_blocks s" using 1(3) by (simp add: ids_ok_def)
      note L = link_block_ok [OF 1(2) False n]
      have g: "same_graph s ?s" using L(2) by (simp add: added_def)
      note V = same_graph_views [OF g]
      have reach: "block_reach ?s = block_reach s" by (simp add: fun_eq_iff block_reach_def V)
      have len: "length (xs @ [b]) \<le> next_blk s"
        using card_mono [of "{..<next_blk s}" "set (xs @ [b])"] 1(2,4) False Cons
        by (simp add: distinct_card trace_owns_def owns_def holds_list_def)
      have "\<exists>t ys. add_blocks ?bs ?s = Some t \<and> trace_owns t ((xs @ [b]) @ ys) \<and> ids_ok t ((xs @ [b]) @ ys) \<and> added ?s ys t \<and>
          set ?bs \<subseteq> set ((xs @ [b]) @ ys) \<and> set ys \<subseteq> (\<Union>b \<in> set ?bs. block_reach ?s b) \<and>
          (\<forall>y \<in> set ys. set (Successors ?s y) \<subseteq> set ((xs @ [b]) @ ys))"
      proof (rule "1.hyps" [OF _ L(1)])
        show "((next_blk ?s - length (xs @ [b]), length ?bs), (next_blk s - length xs, length bs)) \<in> less_than <*lex*> less_than"
          using len diff_less_mono2 [of "length xs" "Suc (length xs)" "next_blk s"] by (simp add: V)
        show "ids_ok ?s (xs @ [b])" using L(2-4) 1(3) False by (auto simp: ids_ok_def added_def)
        show "set (xs @ [b]) \<union> set ?bs \<subseteq> {..<next_blk ?s}" using 1(4,5) Cons by (auto simp: blocks_closed_def V)
        show "blocks_closed ?s" using 1(5) by (simp add: blocks_closed_def V)
      qed (use 1(7) in simp_all)
      then obtain t ys where t: "add_blocks ?bs ?s = Some t" "trace_owns t (xs @ b # ys)" "ids_ok t (xs @ b # ys)" "added ?s ys t"
        "set ?bs \<subseteq> set (xs @ b # ys)" "set ys \<subseteq> (\<Union>b \<in> set ?bs. block_reach s b)" "\<forall>y \<in> set ys. set (Successors s y) \<subseteq> set (xs @ b # ys)"
        by (auto simp: V reach)
      have "b \<notin> set ys" using t(2) by (simp add: trace_owns_def owns_def holds_list_def)
      then have "added s (b # ys) t" using added_trans [OF L(2) t(4)] by simp
      moreover have "set ys \<subseteq> (\<Union>b \<in> set bs. block_reach s b)" "b \<in> block_reach s b"
        using t(6) Cons by (auto simp: block_reach_def intro: converse_rtrancl_into_rtrancl)
      moreover have "add_blocks bs s = Some t" using t(1) linked False Cons add_blocks_simps(3) [of s b rest] by (simp add: V)
      ultimately show ?thesis using t(2,3,5,7) Cons by (intro exI [of _ t] exI [of _ "b # ys"]) auto
    qed
  qed
qed

lemma AddBlock_ok:
  assumes "trace_owns s xs" "ids_ok s xs" "set xs \<subseteq> {..<next_blk s}" "b < next_blk s" "blocks_closed s" "xs \<noteq> [b]" "xs \<noteq> []"
  shows "\<exists>t ys. AddBlock b s = Some t \<and> trace_owns t (xs @ ys) \<and> ids_ok t (xs @ ys) \<and> added s ys t \<and>
    b \<in> set (xs @ ys) \<and> set ys \<subseteq> block_reach s b \<and> (\<forall>y \<in> set ys. set (Successors s y) \<subseteq> set (xs @ ys))"
proof -
  have "length xs = 1 \<Longrightarrow> [b] \<noteq> [] \<Longrightarrow> hd [b] \<noteq> hd xs" using assms(6) by (cases xs) auto
  from add_blocks_ok [of s xs "[b]", OF assms(1,2) _ assms(5) this assms(7)] show ?thesis
    using assms(3,4) by (simp add: AddBlock_def)
qed

section \<open>Loops over blocks\<close>

text \<open>A loop whose body may put blocks at the end of the list. \<open>I\<close> holds of the blocks visited, those
  to come and the state.\<close>

lemma for_blocks_ok:
  assumes own: "\<And>pre post st. I pre post st \<Longrightarrow> trace_owns (snd st) (pre @ post) \<and> length (pre @ post) \<le> n"
    and body: "\<And>pre b post st. I pre (b # post) st \<Longrightarrow> \<exists>st' ys. f b st = Some st' \<and> I (pre @ [b]) (post @ ys) st'"
    and "I pre post st"
  shows "\<exists>st' ys. for_blocks f (head_or post None) st = Some st' \<and> I (pre @ post @ ys) [] st'"
  using assms(3)
proof (induction "n - length pre" arbitrary: pre post st rule: less_induct)
  case less
  show ?case
  proof (cases post)
    case Nil
    then show ?thesis using less.prems by (intro exI [of _ st] exI [of _ "[]"]) (simp add: for_blocks.simps [of f None])
  next
    case (Cons b rest)
    then obtain st1 ys where st1: "f b st = Some st1" "I (pre @ [b]) (rest @ ys) st1" using body less.prems by blast
    have "trace_owns (snd st1) (pre @ b # rest @ ys)" "length pre < n"
      using own [OF st1(2)] own [OF less.prems] Cons by auto
    then have "lh_next (links (snd st1) b) = head_or (rest @ ys) None" by (auto simp: trace_owns_def owns_def holds_list_def)
    then have "for_blocks f (head_or post None) st = for_blocks f (head_or (rest @ ys) None) st1"
      using Cons st1(1) by (simp add: for_blocks.simps [of f "Some b"])
    moreover obtain st' zs where "for_blocks f (head_or (rest @ ys) None) st1 = Some st'" "I ((pre @ [b]) @ (rest @ ys) @ zs) [] st'"
      using less.hyps [OF _ st1(2)] diff_less_mono2 [of "length pre" "Suc (length pre)" n] \<open>length pre < n\<close> by auto
    ultimately show ?thesis using Cons by (intro exI [of _ st'] exI [of _ "ys @ zs"]) simp
  qed
qed

lemma for_each_block_ok:
  assumes own: "\<And>pre post s. I pre post s \<Longrightarrow> trace_owns s (pre @ post) \<and> length (pre @ post) \<le> n"
    and body: "\<And>pre b post s. I pre (b # post) s \<Longrightarrow> \<exists>t ys. f b s = Some t \<and> I (pre @ [b]) (post @ ys) t"
    and init: "I [] xs s"
  shows "\<exists>t ys. for_each_block f s = Some t \<and> I (xs @ ys) [] t"
proof -
  have "\<exists>st' ys. for_blocks (\<lambda>b (u, s). map_option (Pair ()) (f b s)) (head_or xs None) ((), s) = Some st' \<and> I ([] @ xs @ ys) [] (snd st')"
  proof (rule for_blocks_ok [where I = "\<lambda>pre post st. I pre post (snd st)"])
    fix pre b post and st :: "unit \<times> 'a trace_state"
    assume "I pre (b # post) (snd st)"
    then show "\<exists>st' ys. (case st of (u, s) \<Rightarrow> map_option (Pair ()) (f b s)) = Some st' \<and> I (pre @ [b]) (post @ ys) (snd st')"
      using body by (cases st) fastforce
  qed (use own init in auto)
  moreover have "l_first (blocks s) = head_or xs None" using own [OF init] by (auto simp: trace_owns_def owns_def holds_list_def)
  ultimately show ?thesis by (auto simp: for_each_block_def for_all_blocks_def)
qed

section \<open>All successors in the trace\<close>

text \<open>A trace: its list of blocks, identifiers and targets; its only block does not branch to itself.\<close>

definition trace_ok :: "'m trace_state \<Rightarrow> nat list \<Rightarrow> bool" where
  "trace_ok s xs \<longleftrightarrow> trace_owns s xs \<and> ids_ok s xs \<and> set xs \<subseteq> {..<next_blk s} \<and> blocks_closed s \<and> xs \<noteq> [] \<and>
     (\<forall>e. xs = [e] \<longrightarrow> e \<notin> set (Successors s e))"

lemma trace_ok_length: "trace_ok s xs \<Longrightarrow> length xs \<le> next_blk s"
  using card_mono [of "{..<next_blk s}" "set xs"] by (auto simp: trace_ok_def trace_owns_def owns_def holds_list_def distinct_card)

lemma trace_ok_more:
  assumes "trace_ok s xs" "trace_owns t (xs @ ys)" "ids_ok t (xs @ ys)" "added s ys t" "set ys \<subseteq> {..<next_blk s}"
  shows "trace_ok t (xs @ ys)"
proof -
  note V = same_graph_views [OF assms(4) [unfolded added_def, THEN conjunct1]]
  have "xs = [e]" "ys = []" if "xs @ ys = [e]" for e using that assms(1) by (auto simp: trace_ok_def append_eq_Cons_conv)
  then show ?thesis using assms by (auto simp: trace_ok_def blocks_closed_def V)
qed

lemma block_reach_bound: "blocks_closed s \<Longrightarrow> b < next_blk s \<Longrightarrow> block_reach s b \<subseteq> {..<next_blk s}"
proof
  fix c assume c: "blocks_closed s" "b < next_blk s" "c \<in> block_reach s b"
  then have "(b, c) \<in> {(x, y). y \<in> set (Successors s x)}\<^sup>*" by (simp add: block_reach_def)
  then show "c \<in> {..<next_blk s}" using c(1,2) by (induction rule: rtrancl_induct) (auto simp: blocks_closed_def)
qed

lemma AddBlocks_ok:
  assumes "trace_ok s xs" "set bs \<subseteq> {..<next_blk s}" "\<And>e. xs = [e] \<Longrightarrow> e \<notin> set bs"
  shows "\<exists>t ys. opt_fold AddBlock bs s = Some t \<and> trace_ok t (xs @ ys) \<and> added s ys t \<and> set bs \<subseteq> set (xs @ ys) \<and>
    set ys \<subseteq> (\<Union>b \<in> set bs. block_reach s b) \<and> (\<forall>y \<in> set ys. set (Successors s y) \<subseteq> set (xs @ ys))"
  using assms
proof (induction bs arbitrary: s xs)
  case Nil
  then show ?case by (intro exI [of _ s] exI [of _ "[]"]) simp
next
  case (Cons b bs)
  have ok: "trace_owns s xs" "ids_ok s xs" "set xs \<subseteq> {..<next_blk s}" "b < next_blk s" "blocks_closed s" "xs \<noteq> [b]" "xs \<noteq> []"
    using Cons.prems by (auto simp: trace_ok_def)
  obtain t ys where t: "AddBlock b s = Some t" "trace_owns t (xs @ ys)" "ids_ok t (xs @ ys)" "added s ys t" "b \<in> set (xs @ ys)"
    "set ys \<subseteq> block_reach s b" "\<forall>y \<in> set ys. set (Successors s y) \<subseteq> set (xs @ ys)"
    using AddBlock_ok [OF ok] by blast
  have "set ys \<subseteq> {..<next_blk s}" using t(6) block_reach_bound [OF ok(5,4)] by blast
  then have tok: "trace_ok t (xs @ ys)" by (rule trace_ok_more [OF Cons.prems(1) t(2-4)])
  note V = same_graph_views [OF t(4) [unfolded added_def, THEN conjunct1]]
  have reach: "block_reach t = block_reach s" by (simp add: fun_eq_iff block_reach_def V)
  have "e \<notin> set bs" if "xs @ ys = [e]" for e
    using that Cons.prems(3) ok(7) t(5) by (auto simp: append_eq_Cons_conv)
  then obtain u zs where u: "opt_fold AddBlock bs t = Some u" "trace_ok u ((xs @ ys) @ zs)" "added t zs u" "set bs \<subseteq> set ((xs @ ys) @ zs)"
    "set zs \<subseteq> (\<Union>b \<in> set bs. block_reach s b)" "\<forall>y \<in> set zs. set (Successors s y) \<subseteq> set ((xs @ ys) @ zs)"
    using Cons.IH [OF tok] Cons.prems(2) by (auto simp: V reach)
  have "set ys \<inter> set zs = {}" using u(2) by (auto simp: trace_ok_def trace_owns_def owns_def holds_list_def)
  then have "added s (ys @ zs) u" by (rule added_trans [OF t(4) u(3)])
  then show ?case using t(1,5-7) u by (intro exI [of _ u] exI [of _ "ys @ zs"]) auto
qed

lemma reach_step: "y \<in> set (Successors s x) \<Longrightarrow> block_reach s y \<subseteq> block_reach s x"
  by (auto simp: block_reach_def intro: converse_rtrancl_into_rtrancl)

lemma reach_self [simp]: "x \<in> block_reach s x"
  by (simp add: block_reach_def)

lemma add_successors_ok:
  assumes "trace_ok s xs"
  shows "\<exists>t ys. add_successors s = Some t \<and> trace_ok t (xs @ ys) \<and> added s ys t \<and> set ys \<subseteq> (\<Union>x \<in> set xs. block_reach s x) \<and>
    (\<forall>b \<in> set (xs @ ys). set (Successors s b) \<subseteq> set (xs @ ys))"
proof -
  define I where "I pre post t \<longleftrightarrow> (\<exists>ys. pre @ post = xs @ ys \<and> trace_ok t (xs @ ys) \<and> added s ys t \<and> set ys \<subseteq> (\<Union>x \<in> set xs. block_reach s x) \<and>
    (\<forall>b \<in> set pre. set (Successors s b) \<subseteq> set (xs @ ys)))" for pre post t
  have "\<exists>t ys. for_each_block (\<lambda>b s. opt_fold AddBlock (Successors s b) s) s = Some t \<and> I (xs @ ys) [] t"
  proof (rule for_each_block_ok [where n = "next_blk s"])
    fix pre post t assume "I pre post t"
    then obtain ys where "pre @ post = xs @ ys" "trace_ok t (xs @ ys)" "added s ys t" by (auto simp: I_def)
    then show "trace_owns t (pre @ post) \<and> length (pre @ post) \<le> next_blk s"
      using trace_ok_length [of t "xs @ ys"] by (auto simp: trace_ok_def added_def same_graph_def)
  next
    fix pre b post t assume "I pre (b # post) t"
    then obtain ys where ys: "pre @ b # post = xs @ ys" "trace_ok t (xs @ ys)" "added s ys t" "set ys \<subseteq> (\<Union>x \<in> set xs. block_reach s x)"
      "\<forall>b \<in> set pre. set (Successors s b) \<subseteq> set (xs @ ys)" by (auto simp: I_def)
    note V = same_graph_views [OF ys(3) [unfolded added_def, THEN conjunct1]]
    have reach: "block_reach t = block_reach s" by (simp add: fun_eq_iff block_reach_def V)
    have b: "b \<in> set (xs @ ys)" using ys(1) by (metis in_set_conv_decomp)
    have "set (Successors t b) \<subseteq> {..<next_blk t}" using ys(2) b by (auto simp: trace_ok_def blocks_closed_def)
    moreover have "e \<notin> set (Successors t b)" if "xs @ ys = [e]" for e using that ys(2) b by (auto simp: trace_ok_def)
    ultimately obtain u zs where u: "opt_fold AddBlock (Successors t b) t = Some u" "trace_ok u ((xs @ ys) @ zs)" "added t zs u"
      "set (Successors t b) \<subseteq> set ((xs @ ys) @ zs)" "set zs \<subseteq> (\<Union>c \<in> set (Successors s b). block_reach s c)"
      using AddBlocks_ok [OF ys(2), of "Successors t b"] by (auto simp: V reach)
    have "set ys \<inter> set zs = {}" using u(2) by (auto simp: trace_ok_def trace_owns_def owns_def holds_list_def)
    then have "added s (ys @ zs) u" by (rule added_trans [OF ys(3) u(3)])
    moreover have "block_reach s b \<subseteq> (\<Union>x \<in> set xs. block_reach s x)"
      using b ys(4) by (auto simp: block_reach_def intro: rtrancl_trans)
    then have "set (ys @ zs) \<subseteq> (\<Union>x \<in> set xs. block_reach s x)"
      using u(5) ys(4) reach_step [of _ s b] unfolding set_append by blast
    moreover have "\<forall>c \<in> set (pre @ [b]). set (Successors s c) \<subseteq> set (xs @ ys @ zs)"
      using u(4) ys(5) by (auto simp: V)
    ultimately have "I (pre @ [b]) (post @ zs) u"
      using u(2) ys(1) unfolding I_def by (intro exI [of _ "ys @ zs"]) simp
    then show "\<exists>u zs. opt_fold AddBlock (Successors t b) t = Some u \<and> I (pre @ [b]) (post @ zs) u" using u(1) by blast
  next
    show "I [] xs s" using assms by (auto simp: I_def intro!: exI [of _ "[]"])
  qed
  then show ?thesis by (auto simp: I_def add_successors_def)
qed

end
