(* ===== verification/Trace_Reach.thy ===== *)
theory Trace_Reach
  imports Trace_Graph
begin

text \<open>
  The removal of unreachable blocks (\<^verbatim>\<open>BlockFactory::RemoveUnreachableBlocks\<close>). The traversal moves
  blocks between four lists that are threaded through the links of the blocks themselves; what stays in the
  list of the trace is deleted, and the two lists of visited blocks become the list of the trace.
\<close>

section \<open>Moving a node from one list to another\<close>

lemma holds_list_frame: "holds_list (h, l) xs \<Longrightarrow> (\<And>x. x \<in> set xs \<Longrightarrow> h' x = h x) \<Longrightarrow> holds_list (h', l) xs"
  using dlseg_frame [of xs h' h] by (auto simp: holds_list_def)

lemma holds_list_new [simp]: "holds_list (h, ListOfListHead_new) []"
  by (simp add: holds_list_def ListOfListHead_new_def)

lemma move_holds:
  assumes "holds_list (h, l) (as @ x # bs)" "holds_list (h, m) ys" "set (as @ x # bs) \<inter> set ys = {}"
    and "Lists.Remove (h, l) x = (h1, l1)" "Lists.Append (h1, m) x = (h2, m2)"
  shows "holds_list (h2, l1) (as @ bs)" "holds_list (h2, m2) (ys @ [x])"
    and "y \<notin> set (as @ x # bs) \<Longrightarrow> y \<notin> set ys \<Longrightarrow> h2 y = h y"
proof -
  note R = Remove_holds [OF assms(1), unfolded assms(4) fst_conv]
  have ys: "holds_list (h1, m) ys" using assms(3) by (intro holds_list_frame [OF assms(2)] R(3)) blast
  have x: "x \<notin> set ys" "unlinked (fst (h1, m)) x" using assms(3) R(2) by auto
  note A = Append_holds [OF ys x, unfolded assms(5) fst_conv]
  show "holds_list (h2, m2) (ys @ [x])" by (rule A(1))
  have "distinct (as @ x # bs)" using assms(1) by (simp add: holds_list_def)
  then show "holds_list (h2, l1) (as @ bs)" using assms(3) by (intro holds_list_frame [OF R(1)] A(2)) auto
  show "h2 y = h y" if "y \<notin> set (as @ x # bs)" "y \<notin> set ys" using A(2) R(3) that by auto
qed

lemma Extend_frame:
  assumes "holds_list (h, l) xs" "holds_list (h, that) ys" "p \<notin> set xs" "p \<notin> set ys"
  shows "fst (Extend h l that) p = h p"
proof -
  have "l_last l \<noteq> Some p" "l_first that \<noteq> Some p"
    using assms last_or_in [of xs p] head_or_in [of ys p] by (auto simp: holds_list_def)
  then show ?thesis by (auto simp: Extend_def Let_def link_simps split: option.splits)
qed

section \<open>The four lists\<close>

definition four_lists :: "'m reach_state \<Rightarrow> nat list \<Rightarrow> nat list \<Rightarrow> nat list \<Rightarrow> nat list \<Rightarrow> bool" where
  "four_lists r bs ws os ns \<longleftrightarrow>
     (let h = links (rs_trace r) in
      holds_list (h, blocks (rs_trace r)) bs \<and> holds_list (h, rs_work r) ws \<and> holds_list (h, rs_old r) os \<and> holds_list (h, rs_new r) ns \<and>
      distinct (bs @ ws @ os @ ns) \<and> (\<forall>p. p \<notin> set (bs @ ws @ os @ ns) \<longrightarrow> unlinked h p))"

text \<open>What the traversal leaves of a trace.\<close>

definition same_blocks :: "'m trace_state \<Rightarrow> 'm trace_state \<Rightarrow> bool" where
  "same_blocks s t \<longleftrightarrow> same_graph s t \<and> (\<forall>b. b_generation (blk t b) = b_generation (blk s b) \<and> b_id (blk t b) = b_id (blk s b))"

lemma same_blocks_trans: "same_blocks s t \<Longrightarrow> same_blocks t u \<Longrightarrow> same_blocks s u"
  using same_graph_trans [of s t u] by (simp add: same_blocks_def)

lemma same_blocks_refl [simp]: "same_blocks s s"
  by (simp add: same_blocks_def)

text \<open>The steps of the traversal on the lists.\<close>

lemma reach_succ_lists:
  assumes "four_lists r bs ws os ns" "b \<in> set bs" "\<not> is_reachable (blk (rs_trace r) b)"
  shows "four_lists (reach_succ b r) (remove1 b bs) (ws @ [b]) os ns"
    and "same_blocks (rs_trace r) (rs_trace (reach_succ b r))"
    and "is_reachable (blk (rs_trace (reach_succ b r)) c) = (c = b \<or> is_reachable (blk (rs_trace r) c))"
    and "deleted_blocks (rs_trace (reach_succ b r)) = deleted_blocks (rs_trace r)"
proof -
  let ?s = "rs_trace r"
  obtain as cs where bs: "bs = as @ b # cs" using assms(2) by (auto simp: in_set_conv_decomp)
  obtain h1 l1 where R: "Lists.Remove (links ?s, blocks ?s) b = (h1, l1)" by fastforce
  obtain h2 m2 where A: "Lists.Append (h1, rs_work r) b = (h2, m2)" by fastforce
  have L: "holds_list (links ?s, blocks ?s) (as @ b # cs)" "holds_list (links ?s, rs_work r) ws" "holds_list (links ?s, rs_old r) os"
    "holds_list (links ?s, rs_new r) ns" "distinct (bs @ ws @ os @ ns)" "\<And>p. p \<notin> set (bs @ ws @ os @ ns) \<Longrightarrow> unlinked (links ?s) p"
    using assms(1) by (simp_all add: four_lists_def Let_def bs)
  have "set (as @ b # cs) \<inter> set ws = {}" using L(5) by (auto simp: bs)
  note M = move_holds [OF L(1,2) this R A]
  have r: "reach_succ b r = r\<lparr>rs_trace := (upd_block b (\<lambda>x. x\<lparr>is_reachable := True\<rparr>) ?s)\<lparr>links := h2, blocks := l1\<rparr>, rs_work := m2\<rparr>"
    using assms(3) R A by (simp add: reach_succ_def with_blocks_def upd_block_def Let_def)
  have "remove1 b bs = as @ cs" using L(5) by (auto simp: bs remove1_append)
  moreover have "holds_list (h2, rs_old r) os" "holds_list (h2, rs_new r) ns"
    using L(5) by (auto intro!: holds_list_frame [OF L(3)] holds_list_frame [OF L(4)] M(3) simp: bs)
  moreover have "unlinked h2 p" if "p \<notin> set (bs @ ws @ os @ ns)" for p
    using L(6) [OF that] M(3) [of p] that by (simp add: unlinked_iff bs)
  ultimately show "four_lists (reach_succ b r) (remove1 b bs) (ws @ [b]) os ns"
    using M(1,2) L(5) by (simp add: four_lists_def r upd_block_def bs)
  show "same_blocks ?s (rs_trace (reach_succ b r))" "is_reachable (blk (rs_trace (reach_succ b r)) c) = (c = b \<or> is_reachable (blk ?s c))"
    "deleted_blocks (rs_trace (reach_succ b r)) = deleted_blocks ?s"
    by (simp_all add: r upd_block_def same_blocks_def same_graph_def)
qed

lemma reach_pop_lists:
  assumes "four_lists r bs (b # ws) os ns"
  defines "old \<equiv> b_generation (blk (rs_trace r) b) < trace_generation (rs_trace r)"
  shows "four_lists (reach_pop b r) bs ws (if old then os @ [b] else os) (if old then ns else ns @ [b])"
    and "same_blocks (rs_trace r) (rs_trace (reach_pop b r))"
    and "blk (rs_trace (reach_pop b r)) = blk (rs_trace r)"
    and "deleted_blocks (rs_trace (reach_pop b r)) = deleted_blocks (rs_trace r)"
proof -
  let ?s = "rs_trace r"
  obtain h1 l1 where R: "Lists.Remove (links ?s, rs_work r) b = (h1, l1)" by fastforce
  obtain h2 m2 where A: "Lists.Append (h1, if old then rs_old r else rs_new r) b = (h2, m2)" by fastforce
  have L: "holds_list (links ?s, rs_work r) ([] @ b # ws)" "holds_list (links ?s, if old then rs_old r else rs_new r) (if old then os else ns)"
    "holds_list (links ?s, blocks ?s) bs" "holds_list (links ?s, rs_old r) os"
    "holds_list (links ?s, rs_new r) ns" "distinct (bs @ (b # ws) @ os @ ns)" "\<And>p. p \<notin> set (bs @ (b # ws) @ os @ ns) \<Longrightarrow> unlinked (links ?s) p"
    using assms(1) by (simp_all add: four_lists_def Let_def)
  have "set ([] @ b # ws) \<inter> set (if old then os else ns) = {}" using L(6) by auto
  note M = move_holds [OF L(1,2) this R A]
  have r: "reach_pop b r = (if old then r\<lparr>rs_trace := ?s\<lparr>links := h2\<rparr>, rs_work := l1, rs_old := m2\<rparr>
      else r\<lparr>rs_trace := ?s\<lparr>links := h2\<rparr>, rs_work := l1, rs_new := m2\<rparr>)"
    using R A by (cases old) (simp_all add: reach_pop_def old_def Let_def)
  have "holds_list (h2, blocks ?s) bs" using L(6) by (auto intro!: holds_list_frame [OF L(3)] M(3) split: if_splits)
  moreover have "\<not> old \<Longrightarrow> holds_list (h2, rs_old r) os" "old \<Longrightarrow> holds_list (h2, rs_new r) ns"
    using L(6) by (auto intro!: holds_list_frame [OF L(4)] holds_list_frame [OF L(5)] M(3))
  moreover have "unlinked h2 p" if "p \<notin> set (bs @ (b # ws) @ os @ ns)" for p
    using L(7) [OF that] M(3) [of p] that by (auto simp: unlinked_iff split: if_splits)
  ultimately show "four_lists (reach_pop b r) bs ws (if old then os @ [b] else os) (if old then ns else ns @ [b])"
    using M(1,2) L(6) by (cases old) (auto simp: four_lists_def r)
  show "same_blocks ?s (rs_trace (reach_pop b r))" "blk (rs_trace (reach_pop b r)) = blk ?s"
    "deleted_blocks (rs_trace (reach_pop b r)) = deleted_blocks ?s"
    by (simp_all add: r same_blocks_def same_graph_def)
qed

section \<open>The traversal\<close>

text \<open>The blocks \<open>xs\<close> of a trace during the traversal from \<open>e\<close>.\<close>

definition reach_inv ::
    "'m trace_state \<Rightarrow> nat \<Rightarrow> nat list \<Rightarrow> 'm reach_state \<Rightarrow> nat list \<Rightarrow> nat list \<Rightarrow> nat list \<Rightarrow> nat list \<Rightarrow> bool" where
  "reach_inv s e xs r bs ws os ns \<longleftrightarrow>
     four_lists r bs ws os ns \<and> set (bs @ ws @ os @ ns) = set xs \<and> same_blocks s (rs_trace r) \<and>
     deleted_blocks (rs_trace r) = deleted_blocks s \<and>
     (\<forall>b \<in> set xs. is_reachable (blk (rs_trace r) b) \<longleftrightarrow> b \<notin> set bs) \<and>
     set (ws @ os @ ns) \<subseteq> block_reach s e \<and> e \<in> set (ws @ os @ ns) \<and>
     (\<forall>b \<in> set os. b_generation (blk s b) < trace_generation s) \<and> (\<forall>b \<in> set ns. \<not> b_generation (blk s b) < trace_generation s)"

lemma reach_invD:
  assumes "reach_inv s e xs r bs ws os ns"
  shows "four_lists r bs ws os ns" "set (bs @ ws @ os @ ns) = set xs" "same_blocks s (rs_trace r)"
    "deleted_blocks (rs_trace r) = deleted_blocks s" "b \<in> set xs \<Longrightarrow> is_reachable (blk (rs_trace r) b) \<longleftrightarrow> b \<notin> set bs"
    "set (ws @ os @ ns) \<subseteq> block_reach s e" "e \<in> set (ws @ os @ ns)"
    "b \<in> set os \<Longrightarrow> b_generation (blk s b) < trace_generation s" "b \<in> set ns \<Longrightarrow> \<not> b_generation (blk s b) < trace_generation s"
  using assms unfolding reach_inv_def by blast+

lemma reach_succ_inv:
  assumes "reach_inv s e xs r bs ws os ns" "b \<in> set xs" "b \<in> block_reach s e"
  shows "\<exists>bs' zs. reach_inv s e xs (reach_succ b r) bs' (ws @ zs) os ns \<and> b \<in> set ((ws @ zs) @ os @ ns)"
proof (cases "b \<in> set bs")
  case False
  then have "reach_succ b r = r" using reach_invD(5) [OF assms(1,2)] by (simp add: reach_succ_def Let_def)
  moreover have "b \<in> set (ws @ os @ ns)" using False reach_invD(2) [OF assms(1)] assms(2) by auto
  ultimately show ?thesis using assms(1) by (intro exI [of _ bs] exI [of _ "[]"]) simp
next
  case True
  note I = reach_invD [OF assms(1)]
  have "\<not> is_reachable (blk (rs_trace r) b)" using I(5) assms(2) True by blast
  note R = reach_succ_lists [OF I(1) True this]
  have d: "distinct bs" "b \<notin> set (ws @ os @ ns)" using I(1) True by (auto simp: four_lists_def Let_def)
  have "reach_inv s e xs (reach_succ b r) (remove1 b bs) (ws @ [b]) os ns"
    unfolding reach_inv_def
  proof (intro conjI ballI)
    show "set (remove1 b bs @ (ws @ [b]) @ os @ ns) = set xs" using I(2) d(1) True by auto
    show "same_blocks s (rs_trace (reach_succ b r))" by (rule same_blocks_trans [OF I(3) R(2)])
    show "set ((ws @ [b]) @ os @ ns) \<subseteq> block_reach s e" using I(6) assms(3) by simp
    fix c assume "c \<in> set xs"
    then show "is_reachable (blk (rs_trace (reach_succ b r)) c) \<longleftrightarrow> c \<notin> set (remove1 b bs)" using I(5) [of c] d(1) R(3) [of c] by auto
  qed (use I R in auto)
  then show ?thesis by (intro exI [of _ "remove1 b bs"] exI [of _ "[b]"]) simp
qed

lemma reach_succs_inv:
  assumes "reach_inv s e xs r bs ws os ns" "set cs \<subseteq> set xs" "set cs \<subseteq> block_reach s e"
  shows "\<exists>bs' zs. reach_inv s e xs (fold reach_succ cs r) bs' (ws @ zs) os ns \<and> set cs \<subseteq> set ((ws @ zs) @ os @ ns)"
  using assms
proof (induction cs arbitrary: r bs ws)
  case Nil
  then show ?case by (intro exI [of _ bs] exI [of _ "[]"]) simp
next
  case (Cons c cs)
  then obtain bs1 zs1 where 1: "reach_inv s e xs (reach_succ c r) bs1 (ws @ zs1) os ns" "c \<in> set ((ws @ zs1) @ os @ ns)"
    using reach_succ_inv [OF Cons.prems(1), of c] by auto
  then obtain bs2 zs2 where 2: "reach_inv s e xs (fold reach_succ cs (reach_succ c r)) bs2 ((ws @ zs1) @ zs2) os ns"
    "set cs \<subseteq> set (((ws @ zs1) @ zs2) @ os @ ns)" using Cons.IH [OF 1(1)] Cons.prems(2,3) by auto
  then show ?case using 1(2) by (intro exI [of _ bs2] exI [of _ "zs1 @ zs2"]) auto
qed

lemma distinct_subset_length: "distinct as \<Longrightarrow> set as \<subseteq> set bs \<Longrightarrow> length as \<le> length bs"
  using card_mono [of "set bs" "set as"] card_length [of bs] by (simp add: distinct_card)

text \<open>The visited blocks have all their successors in the lists; in the end that makes them
  the reachable ones.\<close>

lemma reach_loop_ok:
  assumes closed: "\<And>b. b \<in> set xs \<Longrightarrow> set (Successors s b) \<subseteq> set xs"
    and "reach_inv s e xs r bs ws os ns" "\<And>b. b \<in> set (os @ ns) \<Longrightarrow> set (Successors s b) \<subseteq> set (ws @ os @ ns)"
  shows "\<exists>r' bs' os' ns'. reach_loop r = Some r' \<and> reach_inv s e xs r' bs' [] os' ns' \<and> set (os' @ ns') = block_reach s e"
  using assms(2,3)
proof (induction "length xs - length (os @ ns)" arbitrary: r bs ws os ns rule: less_induct)
  case less
  note I = reach_invD [OF less.prems(1)]
  have first: "l_first (rs_work r) = head_or ws None" using I(1) by (simp add: four_lists_def Let_def holds_list_def)
  show ?case
  proof (cases ws)
    case Nil
    have "c \<in> set (os @ ns)" if "c \<in> block_reach s e" for c
    proof -
      from that have "(e, c) \<in> {(x, y). y \<in> set (Successors s x)}\<^sup>*" by (simp add: block_reach_def)
      then show ?thesis using I(7) less.prems(2) Nil by (induction rule: rtrancl_induct) auto
    qed
    moreover have "set (os @ ns) \<subseteq> block_reach s e" using I(6) by auto
    ultimately have "set (os @ ns) = block_reach s e" by blast
    moreover have "reach_loop r = Some r" using first Nil by (simp add: reach_loop.simps [of r])
    ultimately show ?thesis using less.prems(1) Nil by blast
  next
    case (Cons b ws')
    let ?old = "b_generation (blk (rs_trace r) b) < trace_generation (rs_trace r)"
    define os1 where "os1 = (if ?old then os @ [b] else os)"
    define ns1 where "ns1 = (if ?old then ns else ns @ [b])"
    note P = reach_pop_lists [OF I(1) [unfolded Cons], folded os1_def ns1_def]
    have sets: "set (os1 @ ns1) = insert b (set (os @ ns))" "length (os1 @ ns1) = Suc (length (os @ ns))" by (auto simp: os1_def ns1_def)
    have gen: "b_generation (blk (rs_trace r) b) = b_generation (blk s b)" "trace_generation (rs_trace r) = trace_generation s"
      using I(3) by (simp_all add: same_blocks_def same_graph_def)
    have inv1: "reach_inv s e xs (reach_pop b r) bs ws' os1 ns1"
      unfolding reach_inv_def using P(1) I(2-9) sets(1) Cons P(3,4) same_blocks_trans [OF I(3) P(2)] gen
      by (auto simp: os1_def ns1_def)
    have b: "b \<in> set xs" "b \<in> block_reach s e" using I(2,6) Cons by auto
    have succ: "Successors (rs_trace r) b = Successors s b" using I(3) same_graph_views(2) by (metis same_blocks_def)
    have "set (Successors s b) \<subseteq> block_reach s e" using b(2) by (auto simp: block_reach_def intro: rtrancl_into_rtrancl)
    then obtain bs2 zs where 2: "reach_inv s e xs (fold reach_succ (Successors s b) (reach_pop b r)) bs2 (ws' @ zs) os1 ns1"
      "set (Successors s b) \<subseteq> set ((ws' @ zs) @ os1 @ ns1)" using reach_succs_inv [OF inv1 closed [OF b(1)]] by blast
    have len: "length (os1 @ ns1) \<le> length xs"
      using distinct_subset_length [of "os1 @ ns1" xs] reach_invD(1,2) [OF inv1] by (auto simp: four_lists_def Let_def)
    have "\<exists>r' bs' os' ns'. reach_loop (fold reach_succ (Successors s b) (reach_pop b r)) = Some r' \<and> reach_inv s e xs r' bs' [] os' ns' \<and>
        set (os' @ ns') = block_reach s e"
    proof (rule less.hyps [OF _ 2(1)])
      show "length xs - length (os1 @ ns1) < length xs - length (os @ ns)" using len sets(2) by linarith
      fix c assume "c \<in> set (os1 @ ns1)"
      then have "c = b \<or> c \<in> set (os @ ns)" using sets(1) by blast
      then show "set (Successors s c) \<subseteq> set ((ws' @ zs) @ os1 @ ns1)" using 2(2) less.prems(2) [of c] Cons sets(1) by auto
    qed
    then show ?thesis using first Cons succ by (simp add: reach_loop.simps [of r])
  qed
qed

section \<open>The steps around it\<close>

lemma mark_unreachable_ok:
  assumes "trace_owns s xs"
  shows "\<exists>t. mark_unreachable s = Some t \<and> trace_owns t xs \<and> same_blocks s t \<and> deleted_blocks t = deleted_blocks s \<and>
    (\<forall>b \<in> set xs. \<not> is_reachable (blk t b))"
proof -
  define I where "I pre post t \<longleftrightarrow> pre @ post = xs \<and> trace_owns t xs \<and> same_blocks s t \<and> deleted_blocks t = deleted_blocks s \<and>
    (\<forall>b \<in> set pre. \<not> is_reachable (blk t b))" for pre post t
  have "\<exists>t ys. for_each_block (\<lambda>b s. Some (upd_block b (\<lambda>x. x\<lparr>is_reachable := False\<rparr>) s)) s = Some t \<and> I (xs @ ys) [] t"
  proof (rule for_each_block_ok [where n = "length xs"])
    fix pre b post t assume "I pre (b # post) t"
    then have "I (pre @ [b]) (post @ []) (upd_block b (\<lambda>x. x\<lparr>is_reachable := False\<rparr>) t)"
      by (auto simp: I_def trace_owns_def upd_block_def same_blocks_def same_graph_def)
    then show "\<exists>u ys. Some (upd_block b (\<lambda>x. x\<lparr>is_reachable := False\<rparr>) t) = Some u \<and> I (pre @ [b]) (post @ ys) u" by blast
  qed (use assms in \<open>auto simp: I_def\<close>)
  then show ?thesis by (auto simp: I_def mark_unreachable_def)
qed

lemma four_lists_start: "trace_owns s xs \<Longrightarrow>
    four_lists \<lparr>rs_trace = s, rs_old = ListOfListHead_new, rs_new = ListOfListHead_new, rs_work = ListOfListHead_new\<rparr> xs [] [] []"
  by (simp add: four_lists_def trace_owns_def owns_def holds_list_def ListOfListHead_new_def)

lemma reach_start_inv:
  assumes "trace_owns s xs" "e \<in> set xs" "\<forall>b \<in> set xs. \<not> is_reachable (blk s b)"
  shows "\<exists>bs. reach_inv s e xs (reach_start e s) bs [e] [] []"
proof -
  let ?r = "\<lparr>rs_trace = s, rs_old = ListOfListHead_new, rs_new = ListOfListHead_new, rs_work = ListOfListHead_new\<rparr>"
  have ne: "\<not> is_reachable (blk (rs_trace ?r) e)" using assms(2,3) by simp
  have eq: "reach_start e s = reach_succ e ?r"
    using ne by (simp add: reach_start_def reach_succ_def Let_def split: prod.split)
  have "distinct xs" using assms(1) by (simp add: trace_owns_def owns_def holds_list_def)
  then have "reach_inv s e xs (reach_start e s) (remove1 e xs) [e] [] []"
    using reach_succ_lists [OF four_lists_start [OF assms(1)] assms(2) ne] assms(2,3) unfolding eq reach_inv_def by auto
  then show ?thesis by blast
qed

text \<open>The blocks that were not reached are deleted, with their meta-data.\<close>

lemma delete_block_ok:
  assumes "four_lists r (b # bs) ws os ns"
  shows "four_lists (r\<lparr>rs_trace := delete_block b (rs_trace r)\<rparr>) bs ws os ns" "same_blocks (rs_trace r) (delete_block b (rs_trace r))"
    "deleted_blocks (delete_block b (rs_trace r)) = b # deleted_blocks (rs_trace r)"
proof -
  let ?s = "rs_trace r"
  have L: "holds_list (links ?s, blocks ?s) ([] @ b # bs)" "holds_list (links ?s, rs_work r) ws" "holds_list (links ?s, rs_old r) os"
    "holds_list (links ?s, rs_new r) ns" "distinct ((b # bs) @ ws @ os @ ns)" "\<And>p. p \<notin> set ((b # bs) @ ws @ os @ ns) \<Longrightarrow> unlinked (links ?s) p"
    using assms by (simp_all add: four_lists_def Let_def)
  obtain h l where R: "Lists.Remove (links ?s, blocks ?s) b = (h, l)" by fastforce
  note H = Remove_holds [OF L(1), unfolded R fst_conv]
  have d: "links (delete_block b ?s) = h" "blocks (delete_block b ?s) = l" "blk (delete_block b ?s) = blk ?s"
    "deleted_blocks (delete_block b ?s) = b # deleted_blocks ?s"
    using R by (auto simp: delete_block_def Let_def with_blocks_def delete_meta_def)
  show "same_blocks ?s (delete_block b ?s)"
    using R by (simp add: same_blocks_def same_graph_def delete_block_def Let_def with_blocks_def delete_meta_def)
  show "deleted_blocks (delete_block b ?s) = b # deleted_blocks ?s" by (rule d(4))
  have "holds_list (h, rs_work r) ws" "holds_list (h, rs_old r) os" "holds_list (h, rs_new r) ns"
    using L(5) by (auto intro!: holds_list_frame [OF L(2)] holds_list_frame [OF L(3)] holds_list_frame [OF L(4)] H(3))
  moreover have "unlinked h p" if "p \<notin> set (bs @ ws @ os @ ns)" for p
    using H(2) H(3) [of p] L(6) [of p] that by (cases "p = b") (auto simp: unlinked_iff)
  ultimately show "four_lists (r\<lparr>rs_trace := delete_block b ?s\<rparr>) bs ws os ns"
    using H(1) L(5) by (simp add: four_lists_def d)
qed

lemma delete_loop_ok:
  assumes "four_lists r bs ws os ns"
  shows "\<exists>t. delete_loop (rs_trace r) = Some t \<and> four_lists (r\<lparr>rs_trace := t\<rparr>) [] ws os ns \<and> same_blocks (rs_trace r) t \<and>
    deleted_blocks t = rev bs @ deleted_blocks (rs_trace r)"
  using assms
proof (induction bs arbitrary: r)
  case Nil
  then show ?case by (simp add: delete_loop.simps [of "rs_trace r"] four_lists_def Let_def holds_list_def)
next
  case (Cons b bs)
  note D = delete_block_ok [OF Cons.prems]
  have "l_first (blocks (rs_trace r)) = Some b" using Cons.prems by (simp add: four_lists_def Let_def holds_list_def)
  then have "delete_loop (rs_trace r) = delete_loop (delete_block b (rs_trace r))" by (simp add: delete_loop.simps [of "rs_trace r"])
  then show ?case using Cons.IH [OF D(1)] same_blocks_trans [OF D(2)] D(3) by auto
qed

lemma Extend_owns:
  assumes "four_lists r [] [] os ns" "Lists.Extend (links (rs_trace r)) (rs_old r) (rs_new r) = (h, l, rest)"
  shows "owns (h, l) (os @ ns)"
proof -
  let ?h = "links (rs_trace r)"
  have L: "holds_list (?h, rs_old r) os" "holds_list (?h, rs_new r) ns" "set os \<inter> set ns = {}"
    "\<And>p. p \<notin> set (os @ ns) \<Longrightarrow> unlinked ?h p" using assms(1) by (auto simp: four_lists_def Let_def)
  have "unlinked h p" if "p \<notin> set (os @ ns)" for p
    using L(4) [OF that] Extend_frame [OF L(1,2), of p] that assms(2) by (simp add: unlinked_iff)
  then show ?thesis using Extend_holds [OF L(1-3)] assms(2) by (simp add: owns_def)
qed

section \<open>Removing unreachable blocks\<close>

lemma same_graph_block_reach: "same_graph s t \<Longrightarrow> block_reach t = block_reach s"
  by (simp add: fun_eq_iff block_reach_def same_graph_views(2))

lemma closed_reach:
  assumes "\<forall>b \<in> set zs. set (Successors s b) \<subseteq> set zs" "x \<in> set zs"
  shows "block_reach s x \<subseteq> set zs"
proof
  fix c assume "c \<in> block_reach s x"
  then have "(x, c) \<in> {(x, y). y \<in> set (Successors s x)}\<^sup>*" by (simp add: block_reach_def)
  then show "c \<in> set zs" using assms by (induction rule: rtrancl_induct) auto
qed

text \<open>The traversal of a trace whose list has all successors of its blocks.\<close>

lemma traverse_ok:
  assumes "trace_owns s xs" "e \<in> set xs" "entry_block s = Some e" "\<forall>b \<in> set xs. set (Successors s b) \<subseteq> set xs"
  shows "\<exists>t os ns dead. Option.bind (mark_unreachable s) (\<lambda>s. Option.bind (entry_block s) (\<lambda>entry.
        Option.bind (reach_loop (reach_start entry s)) (\<lambda>r. Option.bind (delete_loop (rs_trace r)) (\<lambda>s.
        Some (case Lists.Extend (links s) (rs_old r) (rs_new r) of
             (h, l, _) \<Rightarrow> s\<lparr>links := h, blocks := l, first_new_block := l_first (rs_new r)\<rparr>))))) = Some t \<and>
     trace_owns t (os @ ns) \<and> same_blocks s t \<and> set (os @ ns) = block_reach s e \<and> deleted_blocks t = dead @ deleted_blocks s \<and>
     set dead = set xs - block_reach s e \<and> (\<forall>b \<in> set os. b_generation (blk s b) < trace_generation s) \<and>
     (\<forall>b \<in> set ns. \<not> b_generation (blk s b) < trace_generation s) \<and> first_new_block t = head_or ns None"
proof -
  obtain s1 where s1: "mark_unreachable s = Some s1" "trace_owns s1 xs" "same_blocks s s1" "deleted_blocks s1 = deleted_blocks s"
    "\<forall>b \<in> set xs. \<not> is_reachable (blk s1 b)" using mark_unreachable_ok [OF assms(1)] by blast
  have g: "same_graph s s1" using s1(3) by (simp add: same_blocks_def)
  note V = same_graph_views [OF g] same_graph_block_reach [OF g]
  obtain bs0 where start: "reach_inv s1 e xs (reach_start e s1) bs0 [e] [] []" using reach_start_inv [OF s1(2) assms(2) s1(5)] by blast
  have "set (Successors s1 b) \<subseteq> set xs" if "b \<in> set xs" for b using assms(4) that by (simp add: V)
  then obtain r bs os ns where r: "reach_loop (reach_start e s1) = Some r" "reach_inv s1 e xs r bs [] os ns" "set (os @ ns) = block_reach s e"
    using reach_loop_ok [OF _ start] by (auto simp: V)
  note I = reach_invD [OF r(2)]
  obtain t where t: "delete_loop (rs_trace r) = Some t" "four_lists (r\<lparr>rs_trace := t\<rparr>) [] [] os ns" "same_blocks (rs_trace r) t"
    "deleted_blocks t = rev bs @ deleted_blocks (rs_trace r)" using delete_loop_ok [OF I(1)] by blast
  obtain h l rest where X: "Lists.Extend (links t) (rs_old r) (rs_new r) = (h, l, rest)" by (metis prod_cases3)
  let ?u = "t\<lparr>links := h, blocks := l, first_new_block := l_first (rs_new r)\<rparr>"
  have own: "trace_owns ?u (os @ ns)" using Extend_owns [OF t(2)] X by (simp add: trace_owns_def)
  have same: "same_blocks s ?u"
    using same_blocks_trans [OF same_blocks_trans [OF s1(3) I(3)] t(3)] by (simp add: same_blocks_def same_graph_def)
  have "set bs \<inter> set (os @ ns) = {}" using I(1) by (auto simp: four_lists_def Let_def)
  then have dead: "set (rev bs) = set xs - block_reach s e" using I(2) r(3) by auto
  have "b_generation (blk s1 b) = b_generation (blk s b)" for b using s1(3) by (simp add: same_blocks_def)
  then have gens: "\<forall>b \<in> set os. b_generation (blk s b) < trace_generation s" "\<forall>b \<in> set ns. \<not> b_generation (blk s b) < trace_generation s"
    using I(8,9) by (simp_all add: V)
  have first: "l_first (rs_new r) = head_or ns None" using I(1) by (simp add: four_lists_def Let_def holds_list_def)
  show ?thesis
  proof (rule exI [of _ ?u], rule exI [of _ os], rule exI [of _ ns], rule exI [of _ "rev bs"], intro conjI)
    show "deleted_blocks ?u = rev bs @ deleted_blocks s" using t(4) I(4) s1(4) by simp
  qed (use s1(1) r(1,3) t(1) X own same dead gens first assms(3) in \<open>simp_all add: V\<close>)
qed

text \<open>C9. Let a trace have a block other than its entry block, or an entry block that is not its own successor (a
  lone block that branches to itself is linked after itself, and the loop over the blocks does not end:
  \<open>self_loop_diverges\<close> below). Then removing unreachable blocks from the trace returns and leaves exactly the blocks that
  are reachable from its entry block, as one well-formed list in which those of earlier rounds of
  instrumentation stand before the new ones, at which the list of new blocks starts. Every block that the
  trace held or could get to and that the entry block does not reach is deleted, and the blocks that
  remain keep their classes, instructions and meta-data.\<close>

theorem RemoveUnreachableBlocks_reachable:
  assumes "trace_ok s xs" "entry_block s = Some e" "e \<in> set xs"
  shows "\<exists>t old new dead. RemoveUnreachableBlocks s = Some t \<and> trace_owns t (old @ new) \<and> set (old @ new) = block_reach s e \<and>
    deleted_blocks t = dead @ deleted_blocks s \<and> set dead = (\<Union>x \<in> set xs. block_reach s x) - block_reach s e \<and>
    (\<forall>b \<in> set old. b_generation (blk t b) < trace_generation t) \<and> (\<forall>b \<in> set new. \<not> b_generation (blk t b) < trace_generation t) \<and>
    first_new_block t = head_or new None \<and> same_graph s t"
proof -
  obtain s1 ys where s1: "add_successors s = Some s1" "trace_ok s1 (xs @ ys)" "added s ys s1" "set ys \<subseteq> (\<Union>x \<in> set xs. block_reach s x)"
    "\<forall>b \<in> set (xs @ ys). set (Successors s b) \<subseteq> set (xs @ ys)" using add_successors_ok [OF assms(1)] by blast
  have g: "same_graph s s1" and d: "deleted_blocks s1 = deleted_blocks s" using s1(3) by (simp_all add: added_def)
  note V = same_graph_views [OF g] same_graph_block_reach [OF g]
  have "trace_owns s1 (xs @ ys)" "e \<in> set (xs @ ys)" "entry_block s1 = Some e" "\<forall>b \<in> set (xs @ ys). set (Successors s1 b) \<subseteq> set (xs @ ys)"
    using s1(2,5) assms(2,3) by (simp_all add: trace_ok_def V)
  from traverse_ok [OF this] obtain t os ns dead where t: "RemoveUnreachableBlocks s = Some t" "trace_owns t (os @ ns)" "same_blocks s1 t"
    "set (os @ ns) = block_reach s e" "deleted_blocks t = dead @ deleted_blocks s" "set dead = set (xs @ ys) - block_reach s e"
    "\<forall>b \<in> set os. b_generation (blk s1 b) < trace_generation s1" "\<forall>b \<in> set ns. \<not> b_generation (blk s1 b) < trace_generation s1"
    "first_new_block t = head_or ns None"
    using s1(1) by (auto simp: RemoveUnreachableBlocks_def V d)
  have "(\<Union>x \<in> set xs. block_reach s x) \<subseteq> set (xs @ ys)" using closed_reach [OF s1(5)] by auto
  moreover have "set (xs @ ys) \<subseteq> (\<Union>x \<in> set xs. block_reach s x)" using s1(4) reach_self [of _ s] by auto
  ultimately have "set dead = (\<Union>x \<in> set xs. block_reach s x) - block_reach s e" using t(6) by blast
  moreover have "same_graph s t" using same_graph_trans [OF g] t(3) by (simp add: same_blocks_def)
  moreover have "b_generation (blk t b) = b_generation (blk s1 b)" "trace_generation t = trace_generation s1" for b
    using t(3) by (simp_all add: same_blocks_def same_graph_def)
  ultimately show ?thesis using t by - (rule exI [of _ t], rule exI [of _ os], rule exI [of _ ns], rule exI [of _ dead], simp)
qed

text \<open>A trace of three blocks: the first jumps to the second, the third is dead.\<close>

definition example_trace :: "unit trace_state" where
  "example_trace =
     (Trace_new (\<lambda>_. ()) 0 1)\<lparr>
       blk := (\<lambda>b. if b = 0 then (Block_new DecodedBlock)\<lparr>b_id := 0, b_instrs := [InstrCFI Instruction_new 1]\<rparr>
                   else if b = 1 then (Block_new NativeBlock)\<lparr>b_id := 1, b_generation := 1\<rparr>
                   else (Block_new NativeBlock)\<lparr>b_id := 2\<rparr>),
       next_blk := 3, entry_block := Some 0, num_basic_blocks := 3, trace_generation := 1,
       links := (\<lambda>b. if b = 0 then \<lparr>lh_next = Some 1, lh_prev = None\<rparr>
                     else if b = 1 then \<lparr>lh_next = Some 2, lh_prev = Some 0\<rparr>
                     else if b = 2 then \<lparr>lh_next = None, lh_prev = Some 1\<rparr> else ListHead_new),
       blocks := \<lparr>l_first = Some 0, l_last = Some 2\<rparr>\<rparr>"

lemma example_trace_Successors: "Successors example_trace b = (if b = 0 then [1] else [])"
  by (simp add: Successors_def block_IsA_def example_trace_def Block_new_def block_targets_def List.map_filter_def)

lemma example_trace_ok: "trace_ok example_trace [0, 1, 2]"
proof -
  have "trace_owns example_trace [0, 1, 2]"
    by (auto simp: trace_owns_def owns_def holds_list_def example_trace_def unlinked_iff ListHead_new_def)
  moreover have "ids_ok example_trace [0, 1, 2]" "next_blk example_trace = 3" by (simp_all add: ids_ok_def example_trace_def)
  ultimately show ?thesis by (auto simp: trace_ok_def blocks_closed_def example_trace_Successors)
qed

lemma example_trace_reach: "block_reach example_trace 0 = {0, 1}" "block_reach example_trace 1 = {1}" "block_reach example_trace 2 = {2}"
proof -
  have sub: "block_reach example_trace x \<subseteq> set zs" if "x \<in> set zs" "0 \<in> set zs \<Longrightarrow> 1 \<in> set zs" for x zs
    using closed_reach [of zs example_trace x] that by (auto simp: example_trace_Successors)
  have "1 \<in> block_reach example_trace 0" using reach_step [of 1 example_trace 0] by (simp add: example_trace_Successors subset_iff)
  then show "block_reach example_trace 0 = {0, 1}" using sub [of 0 "[0, 1]"] by auto
  show "block_reach example_trace 1 = {1}" using sub [of 1 "[1]"] by auto
  show "block_reach example_trace 2 = {2}" using sub [of 2 "[2]"] by auto
qed

theorem RemoveUnreachableBlocks_reachable_witness:
  "\<exists>t old new dead. RemoveUnreachableBlocks example_trace = Some t \<and> trace_owns t (old @ new) \<and> set (old @ new) = {0, 1} \<and>
     deleted_blocks t = dead \<and> set dead = {2}"
proof -
  have e: "entry_block example_trace = Some 0" "0 \<in> set [0::nat, 1, 2]" and d: "deleted_blocks example_trace = []"
    by (simp_all add: example_trace_def Trace_new_def)
  from RemoveUnreachableBlocks_reachable [OF example_trace_ok e] obtain t old new dead where t:
    "RemoveUnreachableBlocks example_trace = Some t" "trace_owns t (old @ new)" "set (old @ new) = block_reach example_trace 0"
    "deleted_blocks t = dead @ deleted_blocks example_trace"
    "set dead = (\<Union>x \<in> set [0, 1, 2]. block_reach example_trace x) - block_reach example_trace 0" by - (elim exE conjE, rule that)
  have "(\<Union>x \<in> set [0, 1, 2]. block_reach example_trace x) - block_reach example_trace 0 = {2}"
    unfolding list.set UN_insert UN_empty example_trace_reach by auto
  then show ?thesis using t unfolding d example_trace_reach(1) by (intro exI [of _ t] exI) (simp only: append_Nil2)
qed

section \<open>A lone block that branches to itself\<close>

text \<open>The only element of a list is not linked to another one, so \<^verbatim>\<open>IsLinked\<close> does not tell that it is in
  the list, and it is appended again.\<close>

lemma link_block_self:
  assumes "trace_owns s [e]" "b_id (blk s e) \<noteq> -1"
  shows "lh_next (links (link_block e s) e) = Some e" "Successors (link_block e s) = Successors s" "b_id (blk (link_block e s) e) \<noteq> -1"
proof -
  have "links s e = \<lparr>lh_next = None, lh_prev = None\<rparr>" "blocks s = \<lparr>l_first = Some e, l_last = Some e\<rparr>"
    using assms(1) by (auto simp: trace_owns_def owns_def holds_list_def intro: list_head.equality list_of_heads.equality)
  then show "lh_next (links (link_block e s) e) = Some e" "b_id (blk (link_block e s) e) \<noteq> -1"
    using assms(2) by (auto simp: link_block_def Let_def with_blocks_def upd_block_def Append_def SetNext_def set_next_def set_prev_def)
  have "same_graph s (link_block e s)"
    using assms(2) by (auto simp: link_block_def Let_def with_blocks_def upd_block_def same_graph_def split: prod.split)
  then show "Successors (link_block e s) = Successors s" by (rule same_graph_views(2))
qed

lemma add_blocks_linked:
  "IsLinked (links s) e \<Longrightarrow> b_id (blk s e) \<noteq> -1 \<Longrightarrow> set bs \<subseteq> {e} \<Longrightarrow> add_blocks bs s = Some s"
  by (induction bs) (simp_all add: add_blocks.simps [of "[]"] add_blocks.simps [of "b # bs" for b bs])

lemma for_blocks_cyclic:
  "for_blocks f c st = Some t \<Longrightarrow> c = Some b \<Longrightarrow> P st \<Longrightarrow> (\<And>st. P st \<Longrightarrow> f b st = Some st \<and> lh_next (links (snd st) b) = Some b) \<Longrightarrow> False"
proof (induction rule: for_blocks.raw_induct [rotated, consumes 1])
  case (1 rec f c st t)
  then have "rec f (Some b) st = Some t" by (auto simp: bind_eq_Some_conv)
  then show False using "1.IH" "1.prems" by blast
qed

text \<open>Removing the unreachable blocks of such a trace does not return.\<close>

theorem self_loop_diverges:
  assumes "trace_owns s [e]" "b_id (blk s e) \<noteq> -1" "set (Successors s e) = {e}"
  shows "RemoveUnreachableBlocks s = None"
proof -
  let ?f = "\<lambda>b (u :: unit, s). map_option (Pair ()) (opt_fold AddBlock (Successors s b) s)"
  let ?P = "\<lambda>(u :: unit, t). lh_next (links t e) = Some e \<and> Successors t e = Successors s e \<and> b_id (blk t e) \<noteq> -1"
  note L = link_block_self [OF assms(1,2)]
  have un: "\<not> IsLinked (links s) e" and first: "l_first (blocks s) = Some e"
    using assms(1) by (auto simp: trace_owns_def owns_def holds_list_def IsLinked_def)
  have again: "opt_fold AddBlock bs t = Some t" if "lh_next (links t e) = Some e" "b_id (blk t e) \<noteq> -1" "set bs \<subseteq> {e}" for bs t
    using that(3)
  proof (induction bs)
    case (Cons b bs)
    then have "AddBlock b t = Some t" using add_blocks_linked [of t e "[e]"] that(1,2) by (simp add: AddBlock_def IsLinked_def)
    then show ?case using Cons by simp
  qed simp
  have inv: "?f e st = Some st \<and> lh_next (links (snd st) e) = Some e" if "?P st" for st
    using that again [of "snd st" "Successors s e"] assms(3) by (cases st) auto
  obtain bs where bs: "Successors s e = e # bs" "set bs \<subseteq> {e}" using assms(3) by (cases "Successors s e") auto
  have "AddBlock e s = Some (link_block e s)"
    using add_blocks_linked [of "link_block e s" e "Successors s e"] L un assms(3)
    by (simp add: AddBlock_def add_blocks.simps [of "[e]"] IsLinked_def)
  then have one: "?f e ((), s) = Some ((), link_block e s)" using again [OF L(1,3) bs(2)] bs(1) by simp
  have "for_blocks ?f (Some e) ((), s) = for_blocks ?f (Some e) ((), link_block e s)"
    using one L(1) by (simp add: for_blocks.simps [of ?f "Some e" "((), s)"])
  also have "\<dots> = None"
    using for_blocks_cyclic [of ?f "Some e" "((), link_block e s)" _ e ?P] inv L by (cases "for_blocks ?f (Some e) ((), link_block e s)") auto
  finally have "add_successors s = None" by (simp add: add_successors_def for_each_block_def for_all_blocks_def first)
  then show ?thesis by (simp add: RemoveUnreachableBlocks_def)
qed

end
