(* ===== verification/Trace_Relink.thy ===== *)
theory Trace_Relink
  imports Trace_Reach
begin

text \<open>
  Requests for blocks, and the change of branch targets from blocks that stand for code to come to the
  blocks that they became (\<^verbatim>\<open>BlockFactory::RequestBlock\<close>, \<^verbatim>\<open>RelinkCFIs\<close>).
\<close>

section \<open>Relinking\<close>

text \<open>What a branch target becomes.\<close>

definition resolved :: "'m trace_state \<Rightarrow> nat \<Rightarrow> nat" where
  "resolved s t = (if block_IsA DirectBlock s t then case materialized_block (blk s t) of None \<Rightarrow> t | Some m \<Rightarrow> m else t)"

text \<open>A direct block became a block that is in the list of the trace and that is not direct itself.\<close>

definition materialized_ok :: "'m trace_state \<Rightarrow> bool" where
  "materialized_ok s \<longleftrightarrow> (\<forall>t m. block_IsA DirectBlock s t \<and> materialized_block (blk s t) = Some m \<longrightarrow>
     IsLinked (links s) m \<and> \<not> block_IsA DirectBlock s m)"

lemma relink_target_ok: "materialized_ok s \<Longrightarrow> relink_target s t = Some (resolved s t)"
  by (auto simp: relink_target_def resolved_def materialized_ok_def split: option.split)

lemma cfi_target_ChangeTarget: "cfi_target i \<noteq> None \<Longrightarrow> cfi_target (ChangeTarget b i) = Some b"
  by (cases i) auto

lemma relink_instrs_ok:
  assumes "materialized_ok s"
  shows "\<exists>js. relink_instrs s is = Some js \<and> block_targets js = map (resolved s) (block_targets is) \<and> map cfi_native js = map cfi_native is"
proof (induction "is")
  case (Cons i "is")
  then obtain js where js: "relink_instrs s is = Some js" "block_targets js = map (resolved s) (block_targets is)"
    "map cfi_native js = map cfi_native is" by blast
  show ?case
  proof (cases "cfi_target i")
    case None
    then show ?thesis using js by (simp add: block_targets_def List.map_filter_simps)
  next
    case (Some t)
    moreover have "cfi_native (ChangeTarget (resolved s t) i) = cfi_native i" by (cases i) auto
    ultimately show ?thesis using js relink_target_ok [OF assms, of t] cfi_target_ChangeTarget [of i "resolved s t"]
      by (simp add: block_targets_def List.map_filter_simps)
  qed
qed (simp add: block_targets_def List.map_filter_simps)

text \<open>Only instructions differ, and for the targets as said.\<close>

definition relinked :: "'m trace_state \<Rightarrow> nat set \<Rightarrow> 'm trace_state \<Rightarrow> bool" where
  "relinked s B t \<longleftrightarrow> (\<exists>f. t = s\<lparr>blk := \<lambda>b. (blk s b)\<lparr>b_instrs := f b\<rparr>\<rparr> \<and>
     (\<forall>b. if b \<in> B \<and> block_IsA DecodedBlock s b
          then block_targets (f b) = map (resolved s) (block_targets (b_instrs (blk s b))) \<and> map cfi_native (f b) = map cfi_native (b_instrs (blk s b))
          else f b = b_instrs (blk s b)))"

lemma relinked_views:
  assumes "relinked s B t"
  shows "block_IsA c t b = block_IsA c s b" "materialized_block (blk t b) = materialized_block (blk s b)" "links t = links s" "blocks t = blocks s"
    "relink_target t = relink_target s" "resolved t = resolved s" "materialized_ok t = materialized_ok s"
proof -
  obtain f where t: "t = s\<lparr>blk := \<lambda>b. (blk s b)\<lparr>b_instrs := f b\<rparr>\<rparr>" using assms by (auto simp: relinked_def)
  show "block_IsA c t b = block_IsA c s b" "materialized_block (blk t b) = materialized_block (blk s b)" "links t = links s" "blocks t = blocks s"
    "relink_target t = relink_target s" "resolved t = resolved s" "materialized_ok t = materialized_ok s"
    by (simp_all add: t block_IsA_def fun_eq_iff relink_target_def resolved_def materialized_ok_def split: option.split)
qed

lemma relink_instrs_cong: "relink_target t = relink_target s \<Longrightarrow> relink_instrs t is = relink_instrs s is"
  by (induction "is") (simp_all cong: option.case_cong)

lemma relinked_step:
  assumes "relinked s B t" "b \<notin> B" "materialized_ok s"
  shows "\<exists>u. (if block_IsA DecodedBlock t b
       then map_option (\<lambda>is. upd_block b (\<lambda>x. x\<lparr>b_instrs := is\<rparr>) t) (relink_instrs t (b_instrs (blk t b))) else Some t) = Some u \<and>
     relinked s (insert b B) u"
proof -
  note V = relinked_views [OF assms(1)]
  obtain f where t: "t = s\<lparr>blk := \<lambda>b. (blk s b)\<lparr>b_instrs := f b\<rparr>\<rparr>" and f: "\<And>b. if b \<in> B \<and> block_IsA DecodedBlock s b
    then block_targets (f b) = map (resolved s) (block_targets (b_instrs (blk s b))) \<and> map cfi_native (f b) = map cfi_native (b_instrs (blk s b))
    else f b = b_instrs (blk s b)" using assms(1) by (auto simp: relinked_def)
  obtain js where js: "relink_instrs s (b_instrs (blk s b)) = Some js" "block_targets js = map (resolved s) (block_targets (b_instrs (blk s b)))"
    "map cfi_native js = map cfi_native (b_instrs (blk s b))" using relink_instrs_ok [OF assms(3)] by blast
  have b: "f b = b_instrs (blk s b)" using f [of b] assms(2) by simp
  show ?thesis
  proof (cases "block_IsA DecodedBlock s b")
    case True
    have "upd_block b (\<lambda>x. x\<lparr>b_instrs := js\<rparr>) t = s\<lparr>blk := \<lambda>c. (blk s c)\<lparr>b_instrs := (f(b := js)) c\<rparr>\<rparr>"
      by (simp add: t upd_block_def fun_eq_iff)
    moreover have "if c \<in> insert b B \<and> block_IsA DecodedBlock s c
      then block_targets ((f(b := js)) c) = map (resolved s) (block_targets (b_instrs (blk s c))) \<and>
        map cfi_native ((f(b := js)) c) = map cfi_native (b_instrs (blk s c))
      else (f(b := js)) c = b_instrs (blk s c)" for c using f [of c] True js(2,3) by (auto split: if_splits)
    ultimately have "relinked s (insert b B) (upd_block b (\<lambda>x. x\<lparr>b_instrs := js\<rparr>) t)" unfolding relinked_def by blast
    moreover have "relink_instrs t (b_instrs (blk t b)) = Some js" using js(1) b relink_instrs_cong [OF V(5)] by (simp add: t)
    ultimately show ?thesis using True by (simp add: V(1))
  next
    case False
    have "if c \<in> insert b B \<and> block_IsA DecodedBlock s c
      then block_targets (f c) = map (resolved s) (block_targets (b_instrs (blk s c))) \<and> map cfi_native (f c) = map cfi_native (b_instrs (blk s c))
      else f c = b_instrs (blk s c)" for c using f [of c] False by (auto split: if_splits)
    then have "relinked s (insert b B) t" unfolding relinked_def using t by blast
    then show ?thesis using False by (simp add: V(1))
  qed
qed

lemma RelinkCFIs_ok:
  assumes "trace_owns s xs" "materialized_ok s"
  shows "\<exists>t. RelinkCFIs s = Some t \<and> relinked s (set xs) t"
proof -
  define I where "I pre post t \<longleftrightarrow> pre @ post = xs \<and> trace_owns t xs \<and> relinked s (set pre) t" for pre post t
  have "\<exists>t ys. RelinkCFIs s = Some t \<and> I (xs @ ys) [] t"
    unfolding RelinkCFIs_def
  proof (rule for_each_block_ok [where n = "length xs" and I = I])
    fix pre b post t assume I: "I pre (b # post) t"
    then have "b \<notin> set pre" using assms(1) by (auto simp: I_def trace_owns_def owns_def holds_list_def)
    then obtain u where u: "(if block_IsA DecodedBlock t b
       then map_option (\<lambda>is. upd_block b (\<lambda>x. x\<lparr>b_instrs := is\<rparr>) t) (relink_instrs t (b_instrs (blk t b))) else Some t) = Some u"
      "relinked s (insert b (set pre)) u" using relinked_step [of s "set pre" t b] I assms(2) by (auto simp: I_def)
    then have "I (pre @ [b]) (post @ []) u"
      using I assms(1) relinked_views(3,4) [OF u(2)] by (simp add: I_def trace_owns_def)
    then show "\<exists>u ys. (if block_IsA DecodedBlock t b
       then map_option (\<lambda>is. upd_block b (\<lambda>x. x\<lparr>b_instrs := is\<rparr>) t) (relink_instrs t (b_instrs (blk t b))) else Some t) = Some u \<and>
       I (pre @ [b]) (post @ ys) u" using u(1) by blast
  next
    have "relinked s {} s" unfolding relinked_def by (rule exI [of _ "\<lambda>b. b_instrs (blk s b)"]) simp
    then show "I [] xs s" using assms(1) by (simp add: I_def)
  qed (auto simp: I_def)
  then show ?thesis by (auto simp: I_def)
qed

text \<open>C10. Relinking leaves no branch to a block that was materialised: afterwards the
  successors of every block of the trace are its former successors with each direct block replaced by what it became, in the same
  order, none of them is a direct block with a replacement, the control-flow instructions themselves are
  unchanged and the list of blocks is the same.\<close>

theorem RelinkCFIs_resolves:
  assumes "trace_owns s xs" "materialized_ok s"
  shows "\<exists>t. RelinkCFIs s = Some t \<and> trace_owns t xs \<and>
    (\<forall>b \<in> set xs. Successors t b = map (resolved s) (Successors s b) \<and>
       (\<forall>c \<in> set (Successors t b). \<not> (block_IsA DirectBlock t c \<and> materialized_block (blk t c) \<noteq> None)) \<and>
       map cfi_native (b_instrs (blk t b)) = map cfi_native (b_instrs (blk s b)))"
proof -
  obtain t where t: "RelinkCFIs s = Some t" "relinked s (set xs) t" using RelinkCFIs_ok [OF assms] by blast
  note V = relinked_views [OF t(2)]
  obtain f where f: "t = s\<lparr>blk := \<lambda>b. (blk s b)\<lparr>b_instrs := f b\<rparr>\<rparr>" "\<And>b. if b \<in> set xs \<and> block_IsA DecodedBlock s b
    then block_targets (f b) = map (resolved s) (block_targets (b_instrs (blk s b))) \<and> map cfi_native (f b) = map cfi_native (b_instrs (blk s b))
    else f b = b_instrs (blk s b)" using t(2) by (auto simp: relinked_def)
  have "Successors t b = map (resolved s) (Successors s b)" if "b \<in> set xs" for b
    using f(2) [of b] that by (simp add: Successors_def V(1)) (simp add: f(1))
  moreover have "\<not> (block_IsA DirectBlock t (resolved s c) \<and> materialized_block (blk t (resolved s c)) \<noteq> None)" for c
    using assms(2) by (auto simp: V(1,2) resolved_def materialized_ok_def split: option.split)
  moreover have "map cfi_native (b_instrs (blk t b)) = map cfi_native (b_instrs (blk s b))" if "b \<in> set xs" for b
    using f(2) [of b] that by (auto simp: f(1) split: if_splits)
  ultimately show ?thesis using t(1) assms(1) V(3,4) by (intro exI [of _ t]) (simp add: trace_owns_def)
qed

text \<open>The second of three blocks became the third.\<close>

definition relink_example :: "unit trace_state" where
  "relink_example = upd_block 1 (\<lambda>x. x\<lparr>b_class := DirectBlock, materialized_block := Some 2\<rparr>) example_trace"

theorem RelinkCFIs_resolves_witness:
  "\<exists>t. RelinkCFIs relink_example = Some t \<and> Successors relink_example 0 = [1] \<and> Successors t 0 = [2]"
proof -
  have own: "trace_owns relink_example [0, 1, 2]"
    using example_trace_ok by (simp add: trace_ok_def trace_owns_def relink_example_def upd_block_def)
  have cls: "block_IsA DirectBlock relink_example b \<longleftrightarrow> b = 1" for b
    by (simp add: relink_example_def upd_block_def block_IsA_def example_trace_def Block_new_def)
  have mat: "materialized_block (blk relink_example 1) = Some 2" by (simp add: relink_example_def upd_block_def)
  have "IsLinked (links relink_example) 2"
    using own IsLinked_iff [of "links relink_example" "blocks relink_example" "[0, 1, 2]" 2] by (simp add: trace_owns_def)
  then have ok: "materialized_ok relink_example" using mat by (simp add: materialized_ok_def cls)
  obtain t where "RelinkCFIs relink_example = Some t" "Successors t 0 = map (resolved relink_example) (Successors relink_example 0)"
    using RelinkCFIs_resolves [OF own ok] by auto
  moreover have "Successors relink_example 0 = [1]"
    by (simp add: Successors_def block_IsA_def relink_example_def upd_block_def example_trace_def Block_new_def block_targets_def List.map_filter_def)
  moreover have "resolved relink_example 1 = 2" using mat by (simp add: resolved_def cls)
  ultimately show ?thesis by simp
qed

end
