(* ===== verification/Instrument.thy ===== *)
theory Instrument
  imports Trace_Relink
begin

text \<open>
  The instrumentation of a trace by tools (\<^verbatim>\<open>granary/instrument.cc\<close>). A tool is a value with its four
  virtual methods, which may change the trace and make requests for blocks in any way; \<^const>\<open>None\<close> is a
  failed assertion. The number of rounds in which the tools saw the control flow is returned beside the
  trace.
\<close>

section \<open>Tools\<close>

datatype EntryPointKind =
    kEntryPointKernelSyscall | kEntryPointKernelInterrupt | kEntryPointKernelModuleInit | kEntryPointKernelModuleExit
  | kEntryPointKernelModuleCallback | kEntryPointUserSignalHandler | kEntryPointUserAttach | kEntryPointUserThread | kEntryPointTestCase

record 'm InstrumentationTool =
  tool_EntryPoint :: "nat option \<Rightarrow> EntryPointKind \<Rightarrow> int \<Rightarrow> 'm trace_state \<Rightarrow> 'm trace_state option"
  tool_ControlFlow :: "'m trace_state \<Rightarrow> 'm trace_state option"
  tool_Blocks :: "'m trace_state \<Rightarrow> 'm trace_state option"
  tool_Block :: "nat \<Rightarrow> 'm trace_state \<Rightarrow> 'm trace_state option"


section \<open>The instrumenter\<close>

text \<open>Blocks that no tool asked for are looked up, without decoding.\<close>

definition FinalizeControlFlow :: "'m trace_state \<Rightarrow> (bool \<times> 'm trace_state) option" where
  "FinalizeControlFlow s = do {
     s \<leftarrow> for_each_block (\<lambda>b s. Some (if block_IsA DirectBlock s b then RequestBlock b kRequestBlockFromIndexOrTraceOnly s else s)) s;
     Some (HasPendingMaterializationRequest s, s)
   }"

text \<open>The loop, with the number of the round as an argument; \<open>limit\<close> is the option
  \<^verbatim>\<open>max_num_control_flow_iterations\<close>. A round after the limit or after nothing was left to
  request is the last.\<close>

function control_flow :: "'m factory_env \<Rightarrow> 'm InstrumentationTool list \<Rightarrow> nat \<Rightarrow> nat \<Rightarrow> bool \<Rightarrow> 'm trace_state \<Rightarrow> (nat \<times> 'm trace_state) option" where
  "control_flow E tools limit num_iterations stop s =
     Option.bind (opt_fold tool_ControlFlow tools s) (\<lambda>s.
       map_option (apfst Suc)
         (if stop then Some (0, s)
          else if \<not> HasPendingMaterializationRequest s then
            Option.bind (FinalizeControlFlow s) (\<lambda>(pending, s).
              if pending then
                Option.bind (MaterializeRequestedBlocks E s) (\<lambda>s.
                Option.bind (MaterializeRequestedBlocks E s) (\<lambda>s. control_flow E tools limit num_iterations True s))
              else Some (0, s))
          else if num_iterations + 1 \<ge> limit then
            Option.bind (FinalizeControlFlow s) (\<lambda>(_, s).
            Option.bind (MaterializeRequestedBlocks E s) (\<lambda>s. control_flow E tools limit (num_iterations + 1) True s))
          else Option.bind (MaterializeRequestedBlocks E s) (\<lambda>s. control_flow E tools limit (num_iterations + 1) False s)))"
  by pat_completeness auto
termination
  by (relation "measure (\<lambda>(E, tools, limit, n, stop, s). if stop then 0 else Suc (limit - n))") auto

definition InstrumentControlFlow :: "'m factory_env \<Rightarrow> 'm InstrumentationTool list \<Rightarrow> nat \<Rightarrow> 'm trace_state \<Rightarrow> (nat \<times> 'm trace_state) option" where
  "InstrumentControlFlow E tools limit s = control_flow E tools limit 1 False s"

definition InstrumentBlocks :: "'m InstrumentationTool list \<Rightarrow> 'm trace_state \<Rightarrow> 'm trace_state option" where
  "InstrumentBlocks tools s = opt_fold tool_Blocks tools s"

definition InstrumentBlock :: "'m InstrumentationTool list \<Rightarrow> 'm trace_state \<Rightarrow> 'm trace_state option" where
  "InstrumentBlock tools s =
     for_each_block (\<lambda>b s. opt_fold (\<lambda>tool s. if block_IsA DecodedBlock s b then tool_Block tool b s else Some s) tools s) s"

text \<open>What the three ways to start have in common.\<close>

definition instrument_trace :: "'m factory_env \<Rightarrow> 'm InstrumentationTool list \<Rightarrow> nat \<Rightarrow> 'm trace_state \<Rightarrow> 'm trace_state option" where
  "instrument_trace E tools limit s = do {
     (_, s) \<leftarrow> InstrumentControlFlow E tools limit s;
     s \<leftarrow> InstrumentBlocks tools s;
     s \<leftarrow> InstrumentBlock tools s;
     RemoveUnreachableBlocks s
   }"

definition InstrumentDirect :: "'m factory_env \<Rightarrow> 'm InstrumentationTool list \<Rightarrow> nat \<Rightarrow> nat \<Rightarrow> 'm trace_state \<Rightarrow> (nat \<times> 'm trace_state) option" where
  "InstrumentDirect E tools limit meta s = do {
     (r, s) \<leftarrow> RequestDirectEntryBlock E meta s;
     (entry, s) \<leftarrow> (case r of None \<Rightarrow> MaterializeDirectEntryBlock E meta s | Some b \<Rightarrow> Some (b, s));
     s \<leftarrow> (if block_IsA DecodedBlock s entry then instrument_trace E tools limit s else Some s);
     Some (b_meta (blk s entry), s)
   }"

definition InstrumentIndirect :: "'m factory_env \<Rightarrow> 'm InstrumentationTool list \<Rightarrow> nat \<Rightarrow> nat \<Rightarrow> 'm trace_state \<Rightarrow> 'm trace_state option" where
  "InstrumentIndirect E tools limit meta s = do {
     (_, s) \<leftarrow> MaterializeIndirectEntryBlock E meta s;
     instrument_trace E tools limit s
   }"

definition InstrumentEntryPoint ::
    "'m factory_env \<Rightarrow> 'm InstrumentationTool list \<Rightarrow> nat \<Rightarrow> nat \<Rightarrow> EntryPointKind \<Rightarrow> int \<Rightarrow> 'm trace_state \<Rightarrow> 'm trace_state option" where
  "InstrumentEntryPoint E tools limit meta kind code s = do {
     (_, s) \<leftarrow> MaterializeIndirectEntryBlock E meta s;
     let entry = Option.bind (entry_block s) (\<lambda>b. if block_IsA CompensationBlock s b then Some b else None);
     s \<leftarrow> opt_fold (\<lambda>tool. tool_EntryPoint tool entry kind code) tools s;
     s \<leftarrow> MaterializeRequestedBlocks E s;
     instrument_trace E tools limit s
   }"

section \<open>Bounded rounds\<close>

declare control_flow.simps [simp del]


section \<open>The last requests\<close>

lemma request_later [simp]:
  "request_max a kRequestBlockFromIndexOrTraceOnly = (if a = kRequestBlockLater then kRequestBlockFromIndexOrTraceOnly else a)"
  by (cases a) (simp_all add: request_max_def)

lemma FinalizeControlFlow_ok:
  assumes "trace_owns s xs"
  shows "\<exists>t. FinalizeControlFlow s =
      Some (has_pending_request s \<or> (\<exists>b \<in> set xs. block_IsA DirectBlock s b \<and> materialize_strategy (blk s b) = kRequestBlockLater), t) \<and>
    trace_owns t xs \<and> same_blocks s t \<and>
    (\<forall>b \<in> set xs. block_IsA DirectBlock s b \<longrightarrow>
       materialize_strategy (blk t b) = request_max (materialize_strategy (blk s b)) kRequestBlockFromIndexOrTraceOnly)"
proof -
  define late where "late b \<longleftrightarrow> block_IsA DirectBlock s b \<and> materialize_strategy (blk s b) = kRequestBlockLater" for b
  define I where "I pre post t \<longleftrightarrow> pre @ post = xs \<and> trace_owns t xs \<and> same_blocks s t \<and>
    has_pending_request t = (has_pending_request s \<or> (\<exists>b \<in> set pre. late b)) \<and>
    (\<forall>b. materialize_strategy (blk t b) =
       (if b \<in> set pre \<and> late b then kRequestBlockFromIndexOrTraceOnly else materialize_strategy (blk s b)))" for pre post t
  have "\<exists>t ys. for_each_block (\<lambda>b s. Some (if block_IsA DirectBlock s b then RequestBlock b kRequestBlockFromIndexOrTraceOnly s else s)) s = Some t \<and>
    I (xs @ ys) [] t"
  proof (rule for_each_block_ok [where n = "length xs" and I = I])
    fix pre b post t assume I: "I pre (b # post) t"
    then have "b \<notin> set pre" using assms by (auto simp: I_def trace_owns_def owns_def holds_list_def)
    moreover have "block_IsA DirectBlock t b = block_IsA DirectBlock s b" using I same_graph_views(1) by (metis I_def same_blocks_def)
    ultimately have "I (pre @ [b]) (post @ []) (if block_IsA DirectBlock t b then RequestBlock b kRequestBlockFromIndexOrTraceOnly t else t)"
      using I by (auto simp: I_def RequestBlock_def Let_def upd_block_def trace_owns_def same_blocks_def same_graph_def late_def)
    then show "\<exists>u ys. Some (if block_IsA DirectBlock t b then RequestBlock b kRequestBlockFromIndexOrTraceOnly t else t) = Some u \<and>
      I (pre @ [b]) (post @ ys) u" by blast
  qed (use assms in \<open>auto simp: I_def\<close>)
  then obtain t where t: "for_each_block (\<lambda>b s. Some (if block_IsA DirectBlock s b then RequestBlock b kRequestBlockFromIndexOrTraceOnly s else s)) s = Some t"
    "I xs [] t" by (auto simp: I_def)
  then have "FinalizeControlFlow s = Some (has_pending_request s \<or> (\<exists>b \<in> set xs. late b), t)"
    by (simp add: FinalizeControlFlow_def HasPendingMaterializationRequest_def I_def)
  then show ?thesis using t(2) by (intro exI [of _ t]) (auto simp: I_def late_def)
qed

text \<open>When the tools are done, every direct block of the trace that no tool asked for is
  requested from the code cache index or from the trace, a request that a tool made for a block stands, and the
  function reports a pending request exactly if there was one before or a block was left over.\<close>

theorem FinalizeControlFlow_requests:
  assumes "trace_owns s xs"
  shows "\<exists>t. FinalizeControlFlow s =
      Some (has_pending_request s \<or> (\<exists>b \<in> set xs. block_IsA DirectBlock s b \<and> materialize_strategy (blk s b) = kRequestBlockLater), t) \<and>
    trace_owns t xs \<and> same_blocks s t \<and>
    (\<forall>b \<in> set xs. block_IsA DirectBlock s b \<longrightarrow> materialize_strategy (blk t b) =
       (if materialize_strategy (blk s b) = kRequestBlockLater then kRequestBlockFromIndexOrTraceOnly else materialize_strategy (blk s b)))"
  using FinalizeControlFlow_ok [OF assms] by simp

theorem FinalizeControlFlow_requests_witness:
  "\<exists>t. FinalizeControlFlow relink_example = Some (True, t) \<and> materialize_strategy (blk t 1) = kRequestBlockFromIndexOrTraceOnly"
proof -
  have own: "trace_owns relink_example [0, 1, 2]"
    using example_trace_ok by (simp add: trace_ok_def trace_owns_def relink_example_def upd_block_def)
  have "block_IsA DirectBlock relink_example 1" "materialize_strategy (blk relink_example 1) = kRequestBlockLater"
    by (simp_all add: relink_example_def upd_block_def block_IsA_def example_trace_def Block_new_def)
  then show ?thesis using FinalizeControlFlow_requests [OF own] by auto
qed

section \<open>The rounds of the loop\<close>









section \<open>Rounds without requests\<close>

lemma MaterializeDirectBlocks_idle:
  assumes "trace_owns s xs" "\<forall>b \<in> set xs. \<not> (block_IsA DirectBlock s b \<and> CanMaterializeBlock s b)"
  shows "MaterializeDirectBlocks E s = Some (False, s)"
proof -
  let ?f = "\<lambda>b (any, s). if block_IsA DirectBlock s b then map_option (\<lambda>(m, s). (m \<or> any, s)) (MaterializeBlock E b s) else Some (any, s)"
  define I where "I pre post st \<longleftrightarrow> pre @ post = xs \<and> st = (False, s)" for pre post st
  have "\<exists>st' ys. for_blocks ?f (head_or xs None) (False, s) = Some st' \<and> I ([] @ xs @ ys) [] st'"
  proof (rule for_blocks_ok [where n = "length xs"])
    fix pre b post and st :: "bool \<times> 'a trace_state"
    assume I: "I pre (b # post) st"
    then have "b \<in> set xs" by (auto simp: I_def)
    then have "?f b st = Some st" using I assms(2) by (auto simp: I_def MaterializeBlock_def)
    moreover have "I (pre @ [b]) (post @ []) st" using I by (simp add: I_def)
    ultimately show "\<exists>st' ys. ?f b st = Some st' \<and> I (pre @ [b]) (post @ ys) st'" by blast
  qed (use assms(1) in \<open>auto simp: I_def\<close>)
  then have "for_blocks ?f (head_or xs None) (False, s) = Some (False, s)" by (auto simp: I_def)
  moreover have "l_first (blocks s) = head_or xs None" using assms(1) by (simp add: trace_owns_def owns_def holds_list_def)
  ultimately show ?thesis by (simp add: MaterializeDirectBlocks_def for_all_blocks_def)
qed

lemma MaterializeRequestedBlocks_idle_step:
  assumes "trace_owns s xs" "\<forall>b \<in> set xs. \<not> (block_IsA DirectBlock s b \<and> CanMaterializeBlock s b)"
  shows "MaterializeRequestedBlocks E s =
    Some (s\<lparr>has_pending_request := False, first_new_block := None, trace_generation := trace_generation s + 1\<rparr>)"
proof -
  let ?s = "s\<lparr>has_pending_request := False, first_new_block := None\<rparr>"
  have "MaterializeDirectBlocks E ?s = Some (False, ?s)"
    using assms by (intro MaterializeDirectBlocks_idle [of _ xs]) (auto simp: trace_owns_def block_IsA_def CanMaterializeBlock_def)
  then show ?thesis by (simp add: MaterializeRequestedBlocks_def)
qed

text \<open>C12. Materialising when no block of the trace can be materialised leaves the blocks as they
  are, but forgets which of them are new: the list of new blocks that tools go through is empty
  afterwards. The loop over the control flow does this after it looked up the last blocks, for which
  it calls the function twice before it calls the tools.\<close>

theorem MaterializeRequestedBlocks_idle:
  assumes "trace_owns s xs" "\<forall>b \<in> set xs. \<not> (block_IsA DirectBlock s b \<and> CanMaterializeBlock s b)"
  shows "MaterializeRequestedBlocks E s =
    Some (s\<lparr>has_pending_request := False, first_new_block := None, trace_generation := trace_generation s + 1\<rparr>)"
  using assms by (rule MaterializeRequestedBlocks_idle_step)

theorem MaterializeRequestedBlocks_idle_witness:
  "\<forall>E. \<exists>t. MaterializeRequestedBlocks E (example_trace\<lparr>first_new_block := Some 1\<rparr>) = Some t \<and> first_new_block t = None \<and> trace_generation t = 2"
proof
  fix E
  let ?s = "example_trace\<lparr>first_new_block := Some 1\<rparr>"
  have "trace_owns ?s [0, 1, 2]" using example_trace_ok by (simp add: trace_ok_def trace_owns_def)
  moreover have "\<not> block_IsA DirectBlock ?s b" for b by (simp add: block_IsA_def example_trace_def Block_new_def)
  moreover have "trace_generation ?s = 1" by (simp add: example_trace_def)
  ultimately show "\<exists>t. MaterializeRequestedBlocks E ?s = Some t \<and> first_new_block t = None \<and> trace_generation t = 2"
    using MaterializeRequestedBlocks_idle [of ?s "[0, 1, 2]" E] by simp
qed

section \<open>A tool that asks for a block\<close>









end
