(* ===== verification/Compile.thy ===== *)
theory Compile
  imports Jumps
begin

text \<open>
  The encoding of fragments into the code caches (\<^verbatim>\<open>granary/code/compile.cc\<close>): a first encoding gives the
  sizes of instructions and fragments, each code cache allocates one block for its fragments, the
  fragments get their addresses in the order in which pass 10 chained them, and branches, labels, block
  meta-data and edges get the addresses they refer to. The encoder is a parameter: the length of an instruction that is
  encoded at an address. The bytes that are written in the end and the release of the fragments are not
  modelled.
\<close>

section \<open>Model\<close>

text \<open>What the passes before do not use: the sizes and addresses of code, the labels of fragments, the
  edges of exit fragments, the pointers that annotations name, and the addresses in block meta-data.\<close>

record compile_state =
  cs_frags :: frag_state
  frag_size :: "nat \<Rightarrow> nat"
  entry_label :: "nat \<Rightarrow> nat option"
  instr_pc :: "nat \<Rightarrow> nat"
  instr_length :: "nat \<Rightarrow> nat"
  annot_pc :: "nat \<Rightarrow> nat option"
  annot_data :: "nat \<Rightarrow> nat"
  pointed_pc :: "nat \<Rightarrow> nat option"
  meta_cache_pc :: "nat \<Rightarrow> nat option"
  direct_edge :: "nat \<Rightarrow> nat option"
  patch_instruction_pc :: "nat \<Rightarrow> nat option"

abbreviation frag_of :: "compile_state \<Rightarrow> nat \<Rightarrow> Fragment" where
  "frag_of c a \<equiv> frag_at (cs_frags c) a"

definition upd_cfrag :: "nat \<Rightarrow> (Fragment \<Rightarrow> Fragment) \<Rightarrow> compile_state \<Rightarrow> compile_state" where
  "upd_cfrag a f c = c\<lparr>cs_frags := upd_frag a f (cs_frags c)\<rparr>"

definition set_native :: "nat \<Rightarrow> NativeInstruction \<Rightarrow> compile_state \<Rightarrow> compile_state" where
  "set_native i n c = c\<lparr>cs_frags := (cs_frags c)\<lparr>instr_at := (instr_at (cs_frags c))(i := Native n)\<rparr>\<rparr>"

text \<open>The fragments in the order of encoding.\<close>

partial_function (option) encode_ordered :: "frag_state \<Rightarrow> nat option \<Rightarrow> nat list option" where
  "encode_ordered s p =
     (case p of None \<Rightarrow> Some [] | Some a \<Rightarrow> Option.bind (encode_ordered s (f_next (frag_at s a))) (\<lambda>rest. Some (a # rest)))"

definition encoded_frags :: "compile_state \<Rightarrow> nat list option" where
  "encoded_frags c = (case flist (cs_frags c) of [] \<Rightarrow> Some [] | a # _ \<Rightarrow> encode_ordered (cs_frags c) (Some a))"

definition SetEncodedPC :: "nat \<Rightarrow> nat \<Rightarrow> compile_state \<Rightarrow> compile_state" where
  "SetEncodedPC label pc c = c\<lparr>annot_pc := (annot_pc c)(label := Some pc), annot_data := (annot_data c)(label := pc)\<rparr>"

definition is_label :: "compile_state \<Rightarrow> nat \<Rightarrow> bool" where
  "is_label c i = (case instr_at (cs_frags c) i of Annotation k _ \<Rightarrow> k = kAnnotationLabel | _ \<Rightarrow> False)"

definition label_entry :: "nat \<Rightarrow> nat \<Rightarrow> compile_state \<Rightarrow> compile_state" where
  "label_entry frag pc c = (case entry_label c frag of None \<Rightarrow> c | Some l \<Rightarrow> SetEncodedPC l pc c)"

definition StageEncodeLabels :: "nat \<Rightarrow> nat \<Rightarrow> compile_state \<Rightarrow> compile_state" where
  "StageEncodeLabels estimated_encode_pc frag c =
     fold (\<lambda>i c. if is_label c i then SetEncodedPC i estimated_encode_pc c else c) (f_instrs (frag_of c frag))
       (label_entry frag estimated_encode_pc c)"

type_synonym encoder = "NativeInstruction \<Rightarrow> nat \<Rightarrow> nat option"

definition EncodeNext :: "encoder \<Rightarrow> nat \<Rightarrow> NativeInstruction \<Rightarrow> nat \<Rightarrow> compile_state \<Rightarrow> (nat \<times> compile_state) option" where
  "EncodeNext enc i n pc c =
     map_option (\<lambda>len. (pc + len, (set_native i n c)\<lparr>instr_pc := (instr_pc c)(i := pc), instr_length := (instr_length c)(i := len)\<rparr>))
       (if dont_encode n then Some 0 else enc n pc)"

definition stage_instr :: "encoder \<Rightarrow> nat \<Rightarrow> nat \<times> compile_state \<Rightarrow> (nat \<times> compile_state) option" where
  "stage_instr enc i = (\<lambda>(pc, c).
     case native_at (cs_frags c) i of
       None \<Rightarrow> Some (pc, c)
     | Some n \<Rightarrow> EncodeNext enc i (if IsNoOp n then DontEncode n else n) pc c)"

definition StageEncodeNativeInstructions :: "encoder \<Rightarrow> nat \<Rightarrow> nat \<Rightarrow> compile_state \<Rightarrow> (nat \<times> compile_state) option" where
  "StageEncodeNativeInstructions enc estimated_encode_pc frag c =
     map_option (apfst (\<lambda>pc. pc - estimated_encode_pc)) (opt_fold (stage_instr enc) (f_instrs (frag_of c frag)) (estimated_encode_pc, c))"

type_synonym cache_sizes = "code_cache_kind \<Rightarrow> nat"

definition stage_frag :: "encoder \<Rightarrow> nat \<Rightarrow> nat \<Rightarrow> cache_sizes \<times> compile_state \<Rightarrow> (cache_sizes \<times> compile_state) option" where
  "stage_frag enc estimated_encode_pc frag = (\<lambda>(use, c).
     if encoded_pc (frag_of c frag) \<noteq> None then (if is_code (cs_frags c) frag then None else Some (use, c))
     else map_option (\<lambda>(n, c). (use(f_cache (frag_of c frag) := use (f_cache (frag_of c frag)) + n), c\<lparr>frag_size := (frag_size c)(frag := n)\<rparr>))
            (StageEncodeNativeInstructions enc estimated_encode_pc frag c))"

definition StageEncode :: "encoder \<Rightarrow> nat \<Rightarrow> compile_state \<Rightarrow> (cache_sizes \<times> compile_state) option" where
  "StageEncode enc estimated_encode_pc c =
     Option.bind (encoded_frags c) (\<lambda>L.
       opt_fold (stage_frag enc estimated_encode_pc) L (\<lambda>_. 0, fold (StageEncodeLabels estimated_encode_pc) L c))"

text \<open>The allocation of the code, one block for each cache.\<close>

type_synonym cache_addresses = "code_cache_kind \<Rightarrow> nat option"

definition allocate_caches ::
    "'s pages_fn \<Rightarrow> cache_sizes \<Rightarrow> 's \<times> code_caches \<Rightarrow> ('s \<times> code_caches) \<times> cache_addresses" where
  "allocate_caches alloc sizes st =
     fold (\<lambda>k ((s, caches), code). case AllocateCode alloc s caches k (sizes k) of (s, caches, addr) \<Rightarrow> ((s, caches), code(k := addr)))
       kinds (st, \<lambda>_. None)"

definition relativize_instr :: "nat \<Rightarrow> nat \<times> bool \<times> compile_state \<Rightarrow> nat \<times> bool \<times> compile_state" where
  "relativize_instr i = (\<lambda>(curr_pc, update, c).
     case instr_at (cs_frags c) i of
       Native n \<Rightarrow> (curr_pc + instr_length c i, update, c\<lparr>instr_pc := (instr_pc c)(i := curr_pc)\<rparr>)
     | Annotation k d \<Rightarrow>
         if k = kAnnotationLabel then (curr_pc, update, SetEncodedPC i curr_pc c)
         else if k = kAnnotUpdateAddressWhenEncoded then (curr_pc, True, c\<lparr>annot_pc := (annot_pc c)(i := Some curr_pc)\<rparr>)
         else (curr_pc, update, c))"

definition RelativizeInstructions :: "nat \<Rightarrow> nat \<Rightarrow> bool \<times> compile_state \<Rightarrow> bool \<times> compile_state" where
  "RelativizeInstructions frag curr_pc = (\<lambda>(update, c).
     snd (fold relativize_instr (f_instrs (frag_of c frag)) (curr_pc, update, label_entry frag curr_pc c)))"

text \<open>A fragment without an address gets the next one of its cache.\<close>

definition place_code :: "nat \<Rightarrow> cache_addresses \<times> compile_state \<Rightarrow> (nat \<times> cache_addresses \<times> compile_state) option" where
  "place_code frag = (\<lambda>(code, c).
     case encoded_pc (frag_of c frag) of
       Some pc \<Rightarrow> Some (pc, code, c)
     | None \<Rightarrow> map_option (\<lambda>pc. (pc, code(f_cache (frag_of c frag) \<mapsto> pc + frag_size c frag), upd_cfrag frag (\<lambda>f. f\<lparr>encoded_pc := Some pc\<rparr>) c))
                 (code (f_cache (frag_of c frag))))"

definition relativize_frag :: "nat \<Rightarrow> cache_addresses \<times> bool \<times> compile_state \<Rightarrow> (cache_addresses \<times> bool \<times> compile_state) option" where
  "relativize_frag frag = (\<lambda>(code, update, c).
     map_option (\<lambda>(pc, code, c). (code, RelativizeInstructions frag pc (update, c))) (place_code frag (code, c)))"

definition RelativizeCode :: "cache_addresses \<Rightarrow> compile_state \<Rightarrow> (bool \<times> compile_state) option" where
  "RelativizeCode code c =
     Option.bind (encoded_frags c) (\<lambda>L. map_option snd (opt_fold relativize_frag L (code, False, c)))"

definition SetBranchTarget :: "nat \<Rightarrow> NativeInstruction \<Rightarrow> NativeInstruction" where
  "SetBranchTarget pc n =
     (let op = (case ops n of [] \<Rightarrow> Operand_new | op # _ \<Rightarrow> op)
      in n\<lparr>ops := op\<lparr>op_imm := of_nat pc, is_annotation_instr := False, op_type := XED_ENCODER_OPERAND_TYPE_BRDISP\<rparr> # tl (ops n)\<rparr>)"

definition RelativizeBranch :: "nat option \<Rightarrow> nat option \<Rightarrow> compile_state \<Rightarrow> compile_state option" where
  "RelativizeBranch cfi succ c =
     (case cfi of None \<Rightarrow> Some c
      | Some i \<Rightarrow> Option.bind (native_at (cs_frags c) i) (\<lambda>n.
          if HasIndirectTarget n then Some c
          else Option.bind succ (\<lambda>b. map_option (\<lambda>pc. set_native i (SetBranchTarget pc n) c) (encoded_pc (frag_of c b)))))"

definition RelativizeControlFlow :: "compile_state \<Rightarrow> compile_state option" where
  "RelativizeControlFlow c =
     Option.bind (encoded_frags c) (\<lambda>L.
       opt_fold (\<lambda>a c. Option.bind (RelativizeBranch (fall_through_instr (frag_of c a)) (succ_fall (frag_of c a)) c)
                   (\<lambda>c. RelativizeBranch (branch_instr (frag_of c a)) (succ_branch (frag_of c a)) c)) L c)"

definition UpdateEncodeAddresses :: "compile_state \<Rightarrow> compile_state option" where
  "UpdateEncodeAddresses c =
     map_option (\<lambda>L. fold (\<lambda>a c. fold (\<lambda>i c.
         case instr_at (cs_frags c) i of
           Annotation k d \<Rightarrow> if k = kAnnotUpdateAddressWhenEncoded then c\<lparr>pointed_pc := (pointed_pc c)(annot_data c i := annot_pc c i)\<rparr> else c
         | _ \<Rightarrow> c) (f_instrs (frag_of c a)) c) L c) (encoded_frags c)"

definition AssignBlockCacheLocation :: "nat \<Rightarrow> compile_state \<Rightarrow> compile_state option" where
  "AssignBlockCacheLocation a c =
     (if \<not> is_code (cs_frags c) a \<or> \<not> is_block_head (attr (frag_of c a)) then Some c
      else Option.bind (block_meta (frag_of c a)) (\<lambda>m.
           Option.bind (Value (parts (cs_frags c)) a) (\<lambda>(ps, v).
           Option.bind v (\<lambda>p.
           Option.bind (entry_frag (info_at (cs_frags c) p)) (\<lambda>entry.
             if meta_cache_pc c m \<noteq> None then None
             else Some (c\<lparr>cs_frags := (cs_frags c)\<lparr>parts := ps\<rparr>, meta_cache_pc := (meta_cache_pc c)(m := encoded_pc (frag_of c entry))\<rparr>))))))"

definition AssignBlockCacheLocations :: "compile_state \<Rightarrow> compile_state option" where
  "AssignBlockCacheLocations c = opt_fold AssignBlockCacheLocation (flist (cs_frags c)) c"

definition ConnectEdgesToInstruction :: "nat option \<Rightarrow> nat option \<Rightarrow> compile_state \<Rightarrow> compile_state option" where
  "ConnectEdgesToInstruction succ br c =
     (case succ of None \<Rightarrow> Some c
      | Some x \<Rightarrow>
          if \<not> IsA ExitFragment (cs_frags c) succ then Some c
          else case direct_edge c x of None \<Rightarrow> Some c
            | Some e \<Rightarrow> Option.bind br (\<lambda>i.
                if patch_instruction_pc c e \<noteq> None then None
                else Some (c\<lparr>patch_instruction_pc := (patch_instruction_pc c)(e \<mapsto> instr_pc c i)\<rparr>)))"

definition ConnectEdgesToInstructions :: "compile_state \<Rightarrow> compile_state option" where
  "ConnectEdgesToInstructions c =
     opt_fold (\<lambda>a c. Option.bind (ConnectEdgesToInstruction (succ_fall (frag_of c a)) (fall_through_instr (frag_of c a)) c)
                  (\<lambda>c. ConnectEdgesToInstruction (succ_branch (frag_of c a)) (branch_instr (frag_of c a)) c)) (flist (cs_frags c)) c"

text \<open>The address of the first fragment, after everything refers to the right places.\<close>

definition EncodeAndFree ::
    "encoder \<Rightarrow> 's pages_fn \<Rightarrow> nat \<Rightarrow> 's \<times> code_caches \<Rightarrow> compile_state \<Rightarrow> (nat \<times> ('s \<times> code_caches) \<times> compile_state) option" where
  "EncodeAndFree enc alloc estimated_pc st c =
     Option.bind (StageEncode enc estimated_pc c) (\<lambda>(sizes, c).
     case allocate_caches alloc sizes st of (st, code) \<Rightarrow>
     Option.bind (RelativizeCode code c) (\<lambda>(update, c).
     Option.bind (RelativizeControlFlow c) (\<lambda>c.
     case flist (cs_frags c) of [] \<Rightarrow> None
     | first # _ \<Rightarrow>
         Option.bind (encoded_pc (frag_of c first)) (\<lambda>entry_pc.
         Option.bind (if update then UpdateEncodeAddresses c else Some c) (\<lambda>c.
         Option.bind (AssignBlockCacheLocations c) (\<lambda>c.
         Option.bind (ConnectEdgesToInstructions c) (\<lambda>c. Some (entry_pc, st, c))))))))"

section \<open>Frames\<close>

lemma opt_fold_append: "opt_fold f (xs @ ys) s = Option.bind (opt_fold f xs s) (opt_fold f ys)"
  by (induction xs arbitrary: s) (auto simp: fun_eq_iff split: Option.bind_split)

text \<open>Addresses of instructions and labels aside, relativising leaves a state as it is.\<close>

definition same_code_state :: "compile_state \<Rightarrow> compile_state \<Rightarrow> bool" where
  "same_code_state c d \<longleftrightarrow> cs_frags d = cs_frags c \<and> frag_size d = frag_size c \<and> instr_length d = instr_length c \<and> entry_label d = entry_label c"

lemma same_code_state_refl [simp]: "same_code_state c c"
  by (simp add: same_code_state_def)

lemma same_code_state_trans: "same_code_state c d \<Longrightarrow> same_code_state d e \<Longrightarrow> same_code_state c e"
  by (simp add: same_code_state_def)

lemma SetEncodedPC_same [simp]: "same_code_state c (SetEncodedPC l pc c)"
  by (simp add: same_code_state_def SetEncodedPC_def)

lemma label_entry_same [simp]: "same_code_state c (label_entry frag pc c)"
  by (simp add: label_entry_def split: option.split)

lemma relativize_instr_same: "same_code_state (snd (snd st)) (snd (snd (relativize_instr i st)))"
  by (auto simp: relativize_instr_def same_code_state_def SetEncodedPC_def split: prod.split Instruction.split)

lemma fold_relativize_same: "same_code_state (snd (snd st)) (snd (snd (fold relativize_instr is st)))"
proof (induction "is" arbitrary: st)
  case (Cons i "is")
  then show ?case using same_code_state_trans [OF relativize_instr_same [of st i] Cons.IH [of "relativize_instr i st"]] by simp
qed simp

lemma RelativizeInstructions_same: "same_code_state c (snd (RelativizeInstructions frag pc (u, c)))"
  using same_code_state_trans [OF label_entry_same [of c frag pc]]
    fold_relativize_same [of "(pc, u, label_entry frag pc c)" "f_instrs (frag_of c frag)"] by (simp add: RelativizeInstructions_def)

section \<open>The places of fragments\<close>

definition unplaced :: "compile_state \<Rightarrow> nat \<Rightarrow> bool" where
  "unplaced c a \<longleftrightarrow> encoded_pc (frag_of c a) = None"

text \<open>The bytes that the fragments of a list take in a cache.\<close>

definition used_bytes :: "compile_state \<Rightarrow> code_cache_kind \<Rightarrow> nat list \<Rightarrow> nat" where
  "used_bytes c k xs = sum_list (map (frag_size c) (filter (\<lambda>a. unplaced c a \<and> f_cache (frag_of c a) = k) xs))"

lemma used_bytes_append [simp]: "used_bytes c k (xs @ ys) = used_bytes c k xs + used_bytes c k ys"
  by (simp add: used_bytes_def)

definition placed_at :: "cache_addresses \<Rightarrow> compile_state \<Rightarrow> nat list \<Rightarrow> compile_state \<Rightarrow> bool" where
  "placed_at code c L d \<longleftrightarrow> frag_size d = frag_size c \<and> instr_length d = instr_length c \<and>
     (\<exists>pos. cs_frags d = (cs_frags c)\<lparr>frag_at := \<lambda>a. if a \<in> set L \<and> unplaced c a then (frag_of c a)\<lparr>encoded_pc := pos a\<rparr> else frag_of c a\<rparr> \<and>
       (\<forall>pre a post. L = pre @ a # post \<longrightarrow> unplaced c a \<longrightarrow>
          (\<exists>base. code (f_cache (frag_of c a)) = Some base \<and> pos a = Some (base + used_bytes c (f_cache (frag_of c a)) pre))))"

lemma relativize_frag_placed:
  assumes "placed_at code c pre d" "distinct (pre @ [a])" "now = (\<lambda>k. map_option (\<lambda>b. b + used_bytes c k pre) (code k))"
    and "relativize_frag a (now, u, d) = Some (now', u', d')"
  shows "placed_at code c (pre @ [a]) d' \<and> now' = (\<lambda>k. map_option (\<lambda>b. b + used_bytes c k (pre @ [a])) (code k))"
proof -
  obtain pos where pos: "cs_frags d = (cs_frags c)\<lparr>frag_at := \<lambda>a. if a \<in> set pre \<and> unplaced c a then (frag_of c a)\<lparr>encoded_pc := pos a\<rparr> else frag_of c a\<rparr>"
    "\<And>p x q. pre = p @ x # q \<Longrightarrow> unplaced c x \<Longrightarrow> \<exists>base. code (f_cache (frag_of c x)) = Some base \<and> pos x = Some (base + used_bytes c (f_cache (frag_of c x)) p)"
    and sizes: "frag_size d = frag_size c" "instr_length d = instr_length c" using assms(1) unfolding placed_at_def by blast
  have a: "frag_of d a = frag_of c a" "a \<notin> set pre" using assms(2) by (simp_all add: pos(1))
  let ?k = "f_cache (frag_of c a)"
  have split: "(q = [] \<and> x = a \<and> p = pre) \<or> (\<exists>q'. q = q' @ [a] \<and> pre = p @ x # q' \<and> x \<noteq> a)" if "pre @ [a] = p @ x # q" for p x q
    using that a(2) by (cases q rule: rev_cases) auto
  show ?thesis
  proof (cases "encoded_pc (frag_of c a)")
    case (Some pc)
    then have r: "now' = now" "same_code_state d d'"
      using assms(4) a(1) RelativizeInstructions_same [of d a pc u] by (auto simp: relativize_frag_def place_code_def)
    have un: "\<not> unplaced c a" using Some by (simp add: unplaced_def)
    then have "cs_frags d' = (cs_frags c)\<lparr>frag_at := \<lambda>x. if x \<in> set (pre @ [a]) \<and> unplaced c x then (frag_of c x)\<lparr>encoded_pc := pos x\<rparr> else frag_of c x\<rparr>"
      using r(2) pos(1) by (auto simp: same_code_state_def fun_eq_iff)
    moreover have "\<exists>base. code (f_cache (frag_of c x)) = Some base \<and> pos x = Some (base + used_bytes c (f_cache (frag_of c x)) p)"
      if "pre @ [a] = p @ x # q" "unplaced c x" for p x q using split [OF that(1)] that(2) un pos(2) by auto
    ultimately have "placed_at code c (pre @ [a]) d'" using r(2) sizes unfolding placed_at_def same_code_state_def by auto
    then show ?thesis using r(1) assms(3) un by (simp add: used_bytes_def)
  next
    case None
    then have un: "unplaced c a" by (simp add: unplaced_def)
    obtain base where base: "code ?k = Some base"
      using assms(3,4) None a(1) by (auto simp: relativize_frag_def place_code_def split: option.splits)
    let ?pc = "base + used_bytes c ?k pre"
    have r: "now' = now(?k \<mapsto> ?pc + frag_size c a)" "same_code_state (upd_cfrag a (\<lambda>f. f\<lparr>encoded_pc := Some ?pc\<rparr>) d) d'"
      using assms(3,4) None a(1) base sizes(1) RelativizeInstructions_same [of "upd_cfrag a (\<lambda>f. f\<lparr>encoded_pc := Some ?pc\<rparr>) d" a ?pc u]
      by (auto simp: relativize_frag_def place_code_def)
    have "cs_frags d' = (cs_frags c)\<lparr>frag_at := \<lambda>x. if x \<in> set (pre @ [a]) \<and> unplaced c x then (frag_of c x)\<lparr>encoded_pc := (pos(a := Some ?pc)) x\<rparr> else frag_of c x\<rparr>"
      using r(2) pos(1) a(2) un by (auto simp: same_code_state_def upd_cfrag_def upd_frag_def fun_eq_iff)
    moreover have "\<exists>base. code (f_cache (frag_of c x)) = Some base \<and> (pos(a := Some ?pc)) x = Some (base + used_bytes c (f_cache (frag_of c x)) p)"
      if "pre @ [a] = p @ x # q" "unplaced c x" for p x q using split [OF that(1)] that(2) base pos(2) by auto
    ultimately have "placed_at code c (pre @ [a]) d'"
      using r(2) sizes unfolding placed_at_def same_code_state_def upd_cfrag_def by auto
    then show ?thesis using r(1) assms(3) un base by (auto simp: used_bytes_def fun_eq_iff)
  qed
qed

lemma relativize_frags_placed:
  assumes "opt_fold relativize_frag L (code, u, c) = Some (now, u', d)" "distinct L"
  shows "placed_at code c L d \<and> now = (\<lambda>k. map_option (\<lambda>b. b + used_bytes c k L) (code k))"
  using assms
proof (induction L arbitrary: now u' d rule: rev_induct)
  case Nil
  then show ?case by (auto simp: placed_at_def used_bytes_def fun_eq_iff option.map_ident)
next
  case (snoc a L)
  then obtain m v e where m: "opt_fold relativize_frag L (code, u, c) = Some (m, v, e)" "relativize_frag a (m, v, e) = Some (now, u', d)"
    by (auto simp: opt_fold_append bind_eq_Some_conv)
  then show ?case using snoc.IH [OF m(1)] snoc.prems(2) relativize_frag_placed [of code c L e a m v now u' d] by simp
qed

section \<open>The sizes of fragments\<close>

text \<open>The first encoding changes instructions and sizes, not the fragments.\<close>

definition same_frag_heap :: "compile_state \<Rightarrow> compile_state \<Rightarrow> bool" where
  "same_frag_heap c d \<longleftrightarrow> frag_at (cs_frags d) = frag_at (cs_frags c) \<and> flist (cs_frags d) = flist (cs_frags c)"

lemma same_frag_heap_refl [simp]: "same_frag_heap c c"
  by (simp add: same_frag_heap_def)

lemma same_frag_heap_trans: "same_frag_heap c d \<Longrightarrow> same_frag_heap d e \<Longrightarrow> same_frag_heap c e"
  by (simp add: same_frag_heap_def)

lemma same_code_frags: "same_code_state c d \<Longrightarrow> same_frag_heap c d"
  by (simp add: same_code_state_def same_frag_heap_def)

lemma encode_ordered_simps:
  "encode_ordered s None = Some []"
  "encode_ordered s (Some a) = Option.bind (encode_ordered s (f_next (frag_at s a))) (\<lambda>rest. Some (a # rest))"
  by (simp_all add: encode_ordered.simps [of s None] encode_ordered.simps [of s "Some a"])

lemma encode_ordered_cong:
  "encode_ordered s p = Some L \<Longrightarrow> frag_at s' = frag_at s \<Longrightarrow> encode_ordered s' p = Some L"
proof (induction L arbitrary: p)
  case Nil
  then show ?case by (cases p) (simp_all add: encode_ordered_simps bind_eq_Some_conv)
next
  case (Cons a L)
  then obtain q where "p = Some a" "f_next (frag_at s a) = q" "encode_ordered s q = Some L"
    by (cases p) (auto simp: encode_ordered_simps bind_eq_Some_conv)
  then show ?case using Cons.IH [of q] Cons.prems(2) by (simp add: encode_ordered_simps)
qed

lemma same_frag_heap_order: "same_frag_heap c d \<Longrightarrow> encoded_frags c = Some L \<Longrightarrow> encoded_frags d = Some L"
  using encode_ordered_cong [of "cs_frags c" _ L "cs_frags d"] by (auto simp: encoded_frags_def same_frag_heap_def split: list.splits)

lemma StageEncodeLabels_code: "same_code_state c (fold (StageEncodeLabels pc) L c)"
proof -
  have labels: "same_code_state d (fold (\<lambda>i c. if is_label c i then SetEncodedPC i pc c else c) is d)" for "is" d
    by (induction "is" arbitrary: d) (auto intro: same_code_state_trans [OF SetEncodedPC_same])
  then have "same_code_state d (StageEncodeLabels pc a d)" for a d
    unfolding StageEncodeLabels_def using same_code_state_trans [OF label_entry_same] by blast
  then show ?thesis by (induction L arbitrary: c) (auto intro: same_code_state_trans)
qed

lemma StageEncodeLabels_same: "same_frag_heap c (fold (StageEncodeLabels pc) L c) \<and> frag_size (fold (StageEncodeLabels pc) L c) = frag_size c"
  using StageEncodeLabels_code [of c pc L] same_code_frags by (auto simp: same_code_state_def)

lemma stage_instrs_same:
  "opt_fold (stage_instr enc) is (pc, c) = Some (pc', d) \<Longrightarrow> same_frag_heap c d \<and> frag_size d = frag_size c"
proof (induction "is" arbitrary: pc c)
  case (Cons i "is")
  then obtain pc1 c1 where 1: "stage_instr enc i (pc, c) = Some (pc1, c1)" "opt_fold (stage_instr enc) is (pc1, c1) = Some (pc', d)"
    by (auto simp: bind_eq_Some_conv)
  then have "same_frag_heap c c1 \<and> frag_size c1 = frag_size c"
    by (auto simp: stage_instr_def EncodeNext_def set_native_def same_frag_heap_def split: option.splits if_splits)
  then show ?case using Cons.IH [OF 1(2)] same_frag_heap_trans by auto
qed simp

lemma stage_frag_same:
  assumes "stage_frag enc pc a (use, c) = Some (use', d)"
  shows "same_frag_heap c d \<and> (\<forall>x. x \<noteq> a \<longrightarrow> frag_size d x = frag_size c x) \<and>
    (\<forall>k. use' k = use k + (if unplaced c a \<and> f_cache (frag_of c a) = k then frag_size d a else 0))"
proof (cases "encoded_pc (frag_of c a)")
  case (Some p)
  then show ?thesis using assms by (auto simp: stage_frag_def unplaced_def split: if_splits)
next
  case None
  then obtain pc' e where e: "opt_fold (stage_instr enc) (f_instrs (frag_of c a)) (pc, c) = Some (pc', e)"
    "use' = use(f_cache (frag_of e a) := use (f_cache (frag_of e a)) + (pc' - pc))" "d = e\<lparr>frag_size := (frag_size e)(a := pc' - pc)\<rparr>"
    using assms by (auto simp: stage_frag_def StageEncodeNativeInstructions_def)
  then have "same_frag_heap c e" "frag_size e = frag_size c" using stage_instrs_same by blast+
  then show ?thesis using e(2,3) None by (auto simp: same_frag_heap_def unplaced_def)
qed

lemma used_bytes_cong:
  "same_frag_heap c d \<Longrightarrow> (\<And>x. x \<in> set L \<Longrightarrow> frag_size d x = frag_size c x) \<Longrightarrow> used_bytes d k L = used_bytes c k L"
  by (induction L) (auto simp: used_bytes_def same_frag_heap_def unplaced_def)

lemma stage_frags_used:
  assumes "opt_fold (stage_frag enc pc) L (\<lambda>_. 0, c) = Some (use, d)" "distinct L"
  shows "same_frag_heap c d \<and> (\<forall>k. use k = used_bytes d k L)"
  using assms
proof (induction L arbitrary: use d rule: rev_induct)
  case Nil
  then show ?case by (auto simp: used_bytes_def)
next
  case (snoc a L)
  then obtain u e where u: "opt_fold (stage_frag enc pc) L (\<lambda>_. 0, c) = Some (u, e)" "stage_frag enc pc a (u, e) = Some (use, d)"
    by (auto simp: opt_fold_append bind_eq_Some_conv)
  have IH: "same_frag_heap c e" "\<And>k. u k = used_bytes e k L" using snoc.IH [OF u(1)] snoc.prems(2) by auto
  note S = stage_frag_same [OF u(2)]
  have "used_bytes d k L = used_bytes e k L" for k using S snoc.prems(2) by (intro used_bytes_cong) auto
  moreover have "used_bytes d k [a] = (if unplaced e a \<and> f_cache (frag_of e a) = k then frag_size d a else 0)" for k
    using S by (auto simp: used_bytes_def same_frag_heap_def unplaced_def)
  ultimately show ?case using S IH same_frag_heap_trans by auto
qed

lemma StageEncode_sizes:
  assumes "StageEncode enc pc c = Some (sizes, d)" "encoded_frags c = Some L" "distinct L"
  shows "same_frag_heap c d \<and> encoded_frags d = Some L \<and> (\<forall>k. sizes k = used_bytes d k L)"
proof -
  let ?c = "fold (StageEncodeLabels pc) L c"
  have "opt_fold (stage_frag enc pc) L (\<lambda>_. 0, ?c) = Some (sizes, d)" using assms(1,2) by (simp add: StageEncode_def)
  then have "same_frag_heap ?c d \<and> (\<forall>k. sizes k = used_bytes d k L)" using stage_frags_used assms(3) by blast
  then show ?thesis using StageEncodeLabels_same [of c pc L] same_frag_heap_trans same_frag_heap_order assms(2) by blast
qed

section \<open>The sizes are the lengths of instructions\<close>

text \<open>What the encoder says of an instruction at an address; a no-op is not encoded.\<close>

definition staged_length :: "encoder \<Rightarrow> NativeInstruction \<Rightarrow> nat \<Rightarrow> nat option" where
  "staged_length enc n pc = (if IsNoOp n \<or> dont_encode n then Some 0 else enc n pc)"

text \<open>The lengths of the native instructions of a list, and that these stand one after the other from
  an address on.\<close>

definition instrs_bytes :: "compile_state \<Rightarrow> nat list \<Rightarrow> nat" where
  "instrs_bytes c is = sum_list (map (instr_length c) (filter (\<lambda>i. native_at (cs_frags c) i \<noteq> None) is))"

fun consecutive :: "compile_state \<Rightarrow> nat \<Rightarrow> nat list \<Rightarrow> bool" where
  "consecutive c p [] \<longleftrightarrow> True"
| "consecutive c p (i # is) \<longleftrightarrow>
     (if native_at (cs_frags c) i = None then consecutive c p is
      else instr_pc c i = p \<and> consecutive c (p + instr_length c i) is)"

definition all_instrs :: "compile_state \<Rightarrow> nat list \<Rightarrow> nat list" where
  "all_instrs c L = concat (map (\<lambda>a. f_instrs (frag_of c a)) L)"

lemma instrs_bytes_simps [simp]:
  "instrs_bytes c [] = 0"
  "instrs_bytes c (i # is) = (if native_at (cs_frags c) i = None then 0 else instr_length c i) + instrs_bytes c is"
  by (simp_all add: instrs_bytes_def)

lemma instrs_bytes_cong:
  "(\<And>i. i \<in> set is \<Longrightarrow> instr_length d i = instr_length c i \<and> (native_at (cs_frags d) i = None \<longleftrightarrow> native_at (cs_frags c) i = None)) \<Longrightarrow>
   instrs_bytes d is = instrs_bytes c is"
  by (induction "is") auto

lemma consecutive_cong:
  "consecutive c p is \<Longrightarrow> (\<And>i. i \<in> set is \<Longrightarrow> instr_length d i = instr_length c i \<and> instr_pc d i = instr_pc c i \<and>
     (native_at (cs_frags d) i = None \<longleftrightarrow> native_at (cs_frags c) i = None)) \<Longrightarrow> consecutive d p is"
  by (induction "is" arbitrary: p) (auto split: if_splits)

text \<open>The first encoding of one instruction, and of a list of them.\<close>

lemma stage_instr_length:
  assumes "stage_instr enc i (pc, c) = Some (pc', d)"
  shows "pc' = pc + instrs_bytes d [i]" "j \<noteq> i \<Longrightarrow> instr_length d j = instr_length c j \<and> native_at (cs_frags d) j = native_at (cs_frags c) j"
    "native_at (cs_frags d) i = None \<longleftrightarrow> native_at (cs_frags c) i = None"
    "native_at (cs_frags c) i = Some n \<Longrightarrow> \<exists>at. staged_length enc n at = Some (instr_length d i)"
proof -
  have de: "dont_encode (DontEncode n)" for n by (simp add: DontEncode_def)
  show "pc' = pc + instrs_bytes d [i]" "j \<noteq> i \<Longrightarrow> instr_length d j = instr_length c j \<and> native_at (cs_frags d) j = native_at (cs_frags c) j"
    "native_at (cs_frags d) i = None \<longleftrightarrow> native_at (cs_frags c) i = None"
    using assms by (auto simp: stage_instr_def EncodeNext_def set_native_def native_at_def split: option.splits if_splits)
  show "\<exists>at. staged_length enc n at = Some (instr_length d i)" if "native_at (cs_frags c) i = Some n"
    using assms that de [of n] by (auto simp: stage_instr_def EncodeNext_def staged_length_def split: if_splits)
qed

lemma stage_instrs_length:
  assumes "opt_fold (stage_instr enc) is (pc, c) = Some (pc', d)" "distinct is"
  shows "pc' = pc + instrs_bytes d is \<and>
    (\<forall>j. j \<notin> set is \<longrightarrow> instr_length d j = instr_length c j \<and> native_at (cs_frags d) j = native_at (cs_frags c) j) \<and>
    (\<forall>j. native_at (cs_frags d) j = None \<longleftrightarrow> native_at (cs_frags c) j = None) \<and>
    (\<forall>i \<in> set is. \<forall>n. native_at (cs_frags c) i = Some n \<longrightarrow> (\<exists>at. staged_length enc n at = Some (instr_length d i)))"
  using assms
proof (induction "is" arbitrary: pc c)
  case (Cons i "is")
  then obtain p e where e: "stage_instr enc i (pc, c) = Some (p, e)" "opt_fold (stage_instr enc) is (p, e) = Some (pc', d)"
    by (auto simp: bind_eq_Some_conv)
  note one = stage_instr_length [OF e(1)]
  note IH = Cons.IH [OF e(2)]
  have d: "distinct is" "i \<notin> set is" using Cons.prems(2) by auto
  have i: "instr_length d i = instr_length e i" "native_at (cs_frags d) i = native_at (cs_frags e) i" using IH d by auto
  have "pc' = pc + instrs_bytes d (i # is)" using IH d(1) one(1) i by simp
  moreover have "instr_length d j = instr_length c j \<and> native_at (cs_frags d) j = native_at (cs_frags c) j" if "j \<notin> set (i # is)" for j
    using IH d(1) one(2) that by auto
  moreover have "native_at (cs_frags d) j = None \<longleftrightarrow> native_at (cs_frags c) j = None" for j
    using IH d(1) one(2,3) by (cases "j = i") auto
  moreover have "\<exists>at. staged_length enc n at = Some (instr_length d j)" if "j \<in> set (i # is)" "native_at (cs_frags c) j = Some n" for j n
  proof (cases "j = i")
    case True
    then show ?thesis using one(4) that(2) i(1) by simp
  next
    case False
    then show ?thesis using IH d(1) one(2) that by auto
  qed
  ultimately show ?case by blast
qed simp

text \<open>The first encoding of the fragments: the size of each is the sum of the lengths of its instructions.\<close>

definition sized :: "encoder \<Rightarrow> compile_state \<Rightarrow> nat list \<Rightarrow> compile_state \<Rightarrow> bool" where
  "sized enc c L d \<longleftrightarrow> (\<forall>j. native_at (cs_frags d) j = None \<longleftrightarrow> native_at (cs_frags c) j = None) \<and>
     (\<forall>j. j \<notin> set (all_instrs c L) \<longrightarrow> native_at (cs_frags d) j = native_at (cs_frags c) j) \<and>
     (\<forall>a \<in> set L. unplaced c a \<longrightarrow> frag_size d a = instrs_bytes d (f_instrs (frag_of c a)) \<and>
        (\<forall>i \<in> set (f_instrs (frag_of c a)). \<forall>n. native_at (cs_frags c) i = Some n \<longrightarrow> (\<exists>at. staged_length enc n at = Some (instr_length d i))))"

lemma sizedD:
  assumes "sized enc c L d"
  shows "native_at (cs_frags d) j = None \<longleftrightarrow> native_at (cs_frags c) j = None"
    "j \<notin> set (all_instrs c L) \<Longrightarrow> native_at (cs_frags d) j = native_at (cs_frags c) j"
    "a \<in> set L \<Longrightarrow> unplaced c a \<Longrightarrow> frag_size d a = instrs_bytes d (f_instrs (frag_of c a))"
    "a \<in> set L \<Longrightarrow> unplaced c a \<Longrightarrow> i \<in> set (f_instrs (frag_of c a)) \<Longrightarrow> native_at (cs_frags c) i = Some n \<Longrightarrow>
       \<exists>at. staged_length enc n at = Some (instr_length d i)"
  using assms unfolding sized_def by blast+

lemma all_instrs_simps [simp]:
  "all_instrs c [] = []" "all_instrs c (L @ M) = all_instrs c L @ all_instrs c M" "all_instrs c (a # L) = f_instrs (frag_of c a) @ all_instrs c L"
  by (simp_all add: all_instrs_def)

lemma stage_frag_sized:
  assumes "sized enc c L e" "same_frag_heap c e" "stage_frag enc pc a (use, e) = Some (use', d)"
    and "distinct (all_instrs c (L @ [a]))" "a \<notin> set L"
  shows "sized enc c (L @ [a]) d"
proof (cases "unplaced c a")
  case False
  then have "d = e" using assms(2,3) by (auto simp: stage_frag_def unplaced_def same_frag_heap_def split: if_splits)
  then show ?thesis using assms(1) False unfolding sized_def by auto
next
  case True
  let ?is = "f_instrs (frag_of c a)"
  have fr: "frag_of e = frag_of c" using assms(2) by (simp add: same_frag_heap_def)
  obtain pc' x where x: "opt_fold (stage_instr enc) ?is (pc, e) = Some (pc', x)" "d = x\<lparr>frag_size := (frag_size x)(a := pc' - pc)\<rparr>"
    using assms(3) True fr by (auto simp: stage_frag_def StageEncodeNativeInstructions_def unplaced_def)
  have dist: "distinct ?is" "set ?is \<inter> set (all_instrs c L) = {}" using assms(4) by auto
  note st = stage_instrs_length [OF x(1) dist(1)]
  have fs: "frag_size x = frag_size e" using stage_instrs_same [OF x(1)] by blast
  have same: "native_at (cs_frags d) = native_at (cs_frags x)" "instr_length d = instr_length x" "instrs_bytes d = instrs_bytes x"
    by (auto simp: x(2) instrs_bytes_def fun_eq_iff)
  have none: "native_at (cs_frags d) j = None \<longleftrightarrow> native_at (cs_frags c) j = None" for j
    using st sizedD(1) [OF assms(1)] same(1) by auto
  have other: "native_at (cs_frags d) j = native_at (cs_frags c) j" if "j \<notin> set (all_instrs c (L @ [a]))" for j
    using st sizedD(2) [OF assms(1)] same(1) that by auto
  have new: "frag_size d a = instrs_bytes d ?is" using st same(3) by (simp add: x(2))
  have nat: "native_at (cs_frags e) i = native_at (cs_frags c) i" if "i \<in> set ?is" for i
    using sizedD(2) [OF assms(1)] that dist(2) by blast
  have len: "\<exists>at. staged_length enc n at = Some (instr_length d i)" if "i \<in> set ?is" "native_at (cs_frags c) i = Some n" for i n
    using st nat [OF that(1)] that same(2) by auto
  have old: "frag_size d b = instrs_bytes d (f_instrs (frag_of c b)) \<and> (\<forall>i \<in> set (f_instrs (frag_of c b)). instr_length d i = instr_length e i)"
    if b: "b \<in> set L" "unplaced c b" for b
  proof -
    have sub: "set (f_instrs (frag_of c b)) \<subseteq> set (all_instrs c L)" using b(1) by (auto simp: all_instrs_def)
    then have l: "instr_length d i = instr_length e i" if "i \<in> set (f_instrs (frag_of c b))" for i
      using st same(2) dist(2) that by auto
    have "instrs_bytes d (f_instrs (frag_of c b)) = instrs_bytes e (f_instrs (frag_of c b))"
      using l none sizedD(1) [OF assms(1)] by (intro instrs_bytes_cong) auto
    moreover have "frag_size d b = frag_size e b" using b(1) assms(5) fs by (auto simp: x(2))
    ultimately show ?thesis using sizedD(3) [OF assms(1) b] l by simp
  qed
  show ?thesis unfolding sized_def
  proof (intro conjI allI ballI impI)
    fix b assume b: "b \<in> set (L @ [a])" "unplaced c b"
    show "frag_size d b = instrs_bytes d (f_instrs (frag_of c b))" using b old new by (cases "b = a") auto
    fix i n assume i: "i \<in> set (f_instrs (frag_of c b))" "native_at (cs_frags c) i = Some n"
    show "\<exists>at. staged_length enc n at = Some (instr_length d i)"
    proof (cases "b = a")
      case True
      then show ?thesis using len i by simp
    next
      case False
      then have "b \<in> set L" using b(1) by simp
      then show ?thesis using sizedD(4) [OF assms(1) _ b(2) i] old [OF _ b(2)] i(1) by simp
    qed
  qed (use none other in auto)
qed

lemma stage_frags_sized:
  assumes "opt_fold (stage_frag enc pc) L (\<lambda>_. 0, c) = Some (use, d)" "distinct L" "distinct (all_instrs c L)"
  shows "sized enc c L d"
  using assms
proof (induction L arbitrary: use d rule: rev_induct)
  case Nil
  then show ?case by (simp add: sized_def)
next
  case (snoc a L)
  then obtain u e where u: "opt_fold (stage_frag enc pc) L (\<lambda>_. 0, c) = Some (u, e)" "stage_frag enc pc a (u, e) = Some (use, d)"
    by (auto simp: opt_fold_append bind_eq_Some_conv)
  have "sized enc c L e" using snoc.IH [OF u(1)] snoc.prems(2,3) by simp
  moreover have "same_frag_heap c e" using stage_frags_used [OF u(1)] snoc.prems(2) by simp
  ultimately show ?case using stage_frag_sized [OF _ _ u(2)] snoc.prems(2,3) by simp
qed

lemma StageEncode_sized:
  assumes "StageEncode enc pc c = Some (sizes, d)" "encoded_frags c = Some L" "distinct L" "distinct (all_instrs c L)"
  shows "sized enc c L d"
proof -
  let ?c = "fold (StageEncodeLabels pc) L c"
  have "opt_fold (stage_frag enc pc) L (\<lambda>_. 0, ?c) = Some (sizes, d)" using assms(1,2) by (simp add: StageEncode_def)
  moreover have same: "cs_frags ?c = cs_frags c" using StageEncodeLabels_code [of c pc L] by (simp add: same_code_state_def)
  ultimately show ?thesis
    using stage_frags_sized [of enc pc L ?c sizes d] assms(3,4) by (simp add: sized_def all_instrs_def unplaced_def)
qed

section \<open>The addresses of instructions\<close>

lemma relativize_instrs_consecutive:
  assumes "fold relativize_instr is (pc, u, c) = (pc', u', d)" "distinct is"
  shows "consecutive d pc is \<and> (\<forall>i. i \<notin> set is \<longrightarrow> instr_pc d i = instr_pc c i)"
  using assms
proof (induction "is" arbitrary: pc u c)
  case (Cons i "is")
  obtain p v e where e: "relativize_instr i (pc, u, c) = (p, v, e)" by (cases "relativize_instr i (pc, u, c)")
  then have rest: "fold relativize_instr is (p, v, e) = (pc', u', d)" using Cons.prems(1) by simp
  note IH = Cons.IH [OF rest]
  have same: "same_code_state c e" "same_code_state e d"
    using relativize_instr_same [of "(pc, u, c)" i] fold_relativize_same [of "(p, v, e)" "is"] e rest by simp_all
  have i: "p = pc + (if native_at (cs_frags c) i = None then 0 else instr_length c i)"
      "native_at (cs_frags c) i \<noteq> None \<Longrightarrow> instr_pc e i = pc" "j \<noteq> i \<Longrightarrow> instr_pc e j = instr_pc c j" for j
    using e by (auto simp: relativize_instr_def native_at_def SetEncodedPC_def split: Instruction.splits if_splits)
  show ?case using IH Cons.prems(2) i same by (auto simp: same_code_state_def)
qed simp

lemma RelativizeInstructions_consecutive:
  assumes "RelativizeInstructions a pc (u, c) = (u', d)" "distinct (f_instrs (frag_of c a))"
  shows "consecutive d pc (f_instrs (frag_of c a)) \<and> (\<forall>i. i \<notin> set (f_instrs (frag_of c a)) \<longrightarrow> instr_pc d i = instr_pc c i)"
proof -
  let ?c = "label_entry a pc c"
  obtain pc' where "fold relativize_instr (f_instrs (frag_of c a)) (pc, u, ?c) = (pc', u', d)"
    using assms(1) by (auto simp: RelativizeInstructions_def label_entry_same [unfolded same_code_state_def] prod_eq_iff)
  moreover have "instr_pc ?c = instr_pc c" by (simp add: label_entry_def SetEncodedPC_def split: option.split)
  ultimately show ?thesis using relativize_instrs_consecutive assms(2) by metis
qed

lemma relativize_frags_consecutive:
  assumes "opt_fold relativize_frag L (code, u, c) = Some (now, u', d)" "distinct L" "distinct (all_instrs c L)"
  shows "\<forall>a \<in> set L. \<exists>p. encoded_pc (frag_of d a) = Some p \<and> consecutive d p (f_instrs (frag_of c a))"
  using assms
proof (induction L arbitrary: now u' d rule: rev_induct)
  case (snoc a L)
  then obtain m v e where m: "opt_fold relativize_frag L (code, u, c) = Some (m, v, e)" "relativize_frag a (m, v, e) = Some (now, u', d)"
    by (auto simp: opt_fold_append bind_eq_Some_conv)
  have IH: "\<forall>a \<in> set L. \<exists>p. encoded_pc (frag_of e a) = Some p \<and> consecutive e p (f_instrs (frag_of c a))"
    using snoc.IH [OF m(1)] snoc.prems by simp
  have "placed_at code c L e" using relativize_frags_placed [OF m(1)] snoc.prems(2) by simp
  then have ins: "f_instrs (frag_of e b) = f_instrs (frag_of c b)" for b by (auto simp: placed_at_def)
  obtain pc x where x: "encoded_pc (frag_of x a) = Some pc" "RelativizeInstructions a pc (v, x) = (u', d)"
      "\<And>b. b \<noteq> a \<Longrightarrow> frag_of x b = frag_of e b" "f_instrs (frag_of x a) = f_instrs (frag_of e a)"
      "instr_length x = instr_length e" "instr_pc x = instr_pc e" "native_at (cs_frags x) = native_at (cs_frags e)"
  proof (cases "encoded_pc (frag_of e a)")
    case (Some pc)
    then show thesis using m(2) by (intro that [of e pc]) (auto simp: relativize_frag_def place_code_def)
  next
    case None
    then obtain pc where "m (f_cache (frag_of e a)) = Some pc" using m(2) by (auto simp: relativize_frag_def place_code_def)
    then show thesis using m(2) None
      by (intro that [of "upd_cfrag a (\<lambda>f. f\<lparr>encoded_pc := Some pc\<rparr>) e" pc])
        (auto simp: relativize_frag_def place_code_def upd_cfrag_def upd_frag_def native_at_def)
  qed
  have dist: "distinct (f_instrs (frag_of c a))" "set (f_instrs (frag_of c a)) \<inter> set (all_instrs c L) = {}" using snoc.prems(3) by auto
  have same: "same_code_state x d" using RelativizeInstructions_same [of x a pc v] x(2) by simp
  note ra = RelativizeInstructions_consecutive [OF x(2)]
  show ?case
  proof
    fix b assume b: "b \<in> set (L @ [a])"
    show "\<exists>p. encoded_pc (frag_of d b) = Some p \<and> consecutive d p (f_instrs (frag_of c b))"
    proof (cases "b = a")
      case True
      then show ?thesis using ra x(1,4) ins dist(1) same by (auto simp: same_code_state_def)
    next
      case False
      then have bL: "b \<in> set L" using b by simp
      then obtain p where p: "encoded_pc (frag_of e b) = Some p" "consecutive e p (f_instrs (frag_of c b))" using IH by blast
      have "set (f_instrs (frag_of c b)) \<subseteq> set (all_instrs c L)" using bL by (auto simp: all_instrs_def)
      then have "instr_pc d i = instr_pc x i" if "i \<in> set (f_instrs (frag_of c b))" for i
        using that ra x(4) ins dist by auto
      then have "consecutive d p (f_instrs (frag_of c b))"
        using same x(5-7) by (intro consecutive_cong [OF p(2)]) (simp add: same_code_state_def)
      moreover have "encoded_pc (frag_of d b) = Some p" using p(1) x(3) [OF False] same by (simp add: same_code_state_def)
      ultimately show ?thesis by blast
    qed
  qed
qed simp

section \<open>The later steps\<close>

text \<open>The steps after the fragments have their places change neither places nor sizes, of fragments and
  of instructions.\<close>

definition same_places :: "compile_state \<Rightarrow> compile_state \<Rightarrow> bool" where
  "same_places c d \<longleftrightarrow> same_frag_heap c d \<and> frag_size d = frag_size c \<and> instr_length d = instr_length c \<and> instr_pc d = instr_pc c \<and>
     (\<forall>i. native_at (cs_frags d) i = None \<longleftrightarrow> native_at (cs_frags c) i = None)"

lemma same_places_refl [simp]: "same_places c c"
  by (simp add: same_places_def)

lemma same_places_trans: "same_places c d \<Longrightarrow> same_places d e \<Longrightarrow> same_places c e"
  using same_frag_heap_trans by (auto simp: same_places_def)

lemma set_native_places: "native_at (cs_frags c) i \<noteq> None \<Longrightarrow> same_places c (set_native i n c)"
  by (auto simp: same_places_def same_frag_heap_def set_native_def native_at_def split: Instruction.splits if_splits)

lemma opt_fold_same_places:
  assumes "\<And>x c d. f x c = Some d \<Longrightarrow> same_places c d" "opt_fold f xs c = Some d"
  shows "same_places c d"
  using assms(2)
proof (induction xs arbitrary: c)
  case (Cons x xs)
  then obtain e where "f x c = Some e" "opt_fold f xs e = Some d" by (auto simp: bind_eq_Some_conv)
  then show ?case using Cons.IH assms(1) same_places_trans by blast
qed simp

lemma RelativizeBranch_places: "RelativizeBranch cfi succ c = Some d \<Longrightarrow> same_places c d"
  by (auto simp: RelativizeBranch_def bind_eq_Some_conv set_native_places split: option.splits if_splits)

lemma RelativizeControlFlow_places: "RelativizeControlFlow c = Some d \<Longrightarrow> same_places c d"
  unfolding RelativizeControlFlow_def bind_eq_Some_conv
  by (elim exE conjE, erule opt_fold_same_places [rotated]) (auto simp: bind_eq_Some_conv intro: same_places_trans RelativizeBranch_places)

lemma AssignBlockCacheLocations_places: "AssignBlockCacheLocations c = Some d \<Longrightarrow> same_places c d"
  unfolding AssignBlockCacheLocations_def
  by (rule opt_fold_same_places)
    (auto simp: AssignBlockCacheLocation_def bind_eq_Some_conv same_places_def same_frag_heap_def native_at_def split: if_splits)

lemma ConnectEdgesToInstruction_places: "ConnectEdgesToInstruction succ br c = Some d \<Longrightarrow> same_places c d"
  by (auto simp: ConnectEdgesToInstruction_def bind_eq_Some_conv same_places_def same_frag_heap_def split: option.splits if_splits)

lemma ConnectEdgesToInstructions_places: "ConnectEdgesToInstructions c = Some d \<Longrightarrow> same_places c d"
  unfolding ConnectEdgesToInstructions_def
  by (erule opt_fold_same_places [rotated]) (auto simp: bind_eq_Some_conv intro: same_places_trans ConnectEdgesToInstruction_places)

lemma fold_same_places: "(\<And>x c. same_places c (f x c)) \<Longrightarrow> same_places c (fold f xs c)"
  by (induction xs arbitrary: c) (auto intro: same_places_trans)

lemma UpdateEncodeAddresses_places: "UpdateEncodeAddresses c = Some d \<Longrightarrow> same_places c d"
  unfolding UpdateEncodeAddresses_def map_option_eq_Some
  by (elim exE conjE, hypsubst, intro fold_same_places) (simp add: same_places_def same_frag_heap_def split: Instruction.split)

text \<open>From the places that relativising gives to fragments: order and bounds.\<close>

lemma placed_at_bounds:
  assumes "placed_at code c L d" "L = pre @ a # post" "unplaced c a"
  obtains base where "code (f_cache (frag_of c a)) = Some base"
    "encoded_pc (frag_of d a) = Some (base + used_bytes c (f_cache (frag_of c a)) pre)"
    "used_bytes c (f_cache (frag_of c a)) pre + frag_size d a + used_bytes c (f_cache (frag_of c a)) post = used_bytes c (f_cache (frag_of c a)) L"
proof -
  obtain pos base where "cs_frags d = (cs_frags c)\<lparr>frag_at := \<lambda>a. if a \<in> set L \<and> unplaced c a then (frag_of c a)\<lparr>encoded_pc := pos a\<rparr> else frag_of c a\<rparr>"
    "code (f_cache (frag_of c a)) = Some base" "pos a = Some (base + used_bytes c (f_cache (frag_of c a)) pre)"
    using assms unfolding placed_at_def by blast
  moreover have "used_bytes c (f_cache (frag_of c a)) (a # post) = frag_size d a + used_bytes c (f_cache (frag_of c a)) post"
    using assms(1,3) by (simp add: used_bytes_def placed_at_def)
  ultimately show thesis using that assms(2,3) by simp
qed

definition code_range :: "compile_state \<Rightarrow> nat \<Rightarrow> nat set" where
  "code_range c a = (case encoded_pc (frag_of c a) of None \<Rightarrow> {} | Some p \<Rightarrow> {p..<p + frag_size c a})"

lemma placed_at_disjoint:
  assumes "placed_at code c L d" "L = pre @ a # mid @ b # post" "unplaced c a" "unplaced c b" "f_cache (frag_of c a) = f_cache (frag_of c b)"
  shows "code_range d a \<inter> code_range d b = {}"
proof -
  let ?k = "f_cache (frag_of c b)"
  obtain base where a: "code ?k = Some base" "encoded_pc (frag_of d a) = Some (base + used_bytes c ?k pre)"
    using placed_at_bounds [OF assms(1,2,3)] assms(5) by metis
  have L: "L = (pre @ a # mid) @ b # post" using assms(2) by simp
  obtain base' where b: "code ?k = Some base'" "encoded_pc (frag_of d b) = Some (base' + used_bytes c ?k (pre @ a # mid))"
    using placed_at_bounds [OF assms(1) L assms(4)] by metis
  have "used_bytes c ?k (pre @ a # mid) = used_bytes c ?k pre + frag_size d a + used_bytes c ?k mid"
    using assms(1,3,5) by (simp add: used_bytes_def placed_at_def)
  then show ?thesis using a b by (auto simp: code_range_def)
qed

text \<open>C13. The code of fragments does not overlap. When the encoding of a list of fragments that share no
  instruction succeeds, each code cache is asked for a block whose size is the sum of the lengths of the native instructions
  of those of its fragments that had no address before, as the encoder gave them in the first encoding. Each of these
  fragments gets an address in the block of its cache; its instructions stand one after the other from that address on and
  end within the block, and the code of two fragments of one cache does not overlap.\<close>

theorem EncodeAndFree_disjoint:
  assumes "EncodeAndFree enc alloc pc st c = Some (entry_pc, st', c')" "encoded_frags c = Some L" "distinct L"
    and "distinct (all_instrs c L)"
  shows "\<exists>sizes code. allocate_caches alloc sizes st = (st', code) \<and>
    (\<forall>k. sizes k = sum_list (map (\<lambda>a. instrs_bytes c' (f_instrs (frag_of c a))) (filter (\<lambda>a. unplaced c a \<and> f_cache (frag_of c a) = k) L))) \<and>
    (\<forall>a \<in> set L. unplaced c a \<longrightarrow> (\<forall>i \<in> set (f_instrs (frag_of c a)). \<forall>n. native_at (cs_frags c) i = Some n \<longrightarrow>
       (\<exists>at. staged_length enc n at = Some (instr_length c' i)))) \<and>
    (\<forall>a \<in> set L. unplaced c a \<longrightarrow> (\<exists>base p. code (f_cache (frag_of c a)) = Some base \<and> encoded_pc (frag_of c' a) = Some p \<and>
       code_range c' a = {p..<p + instrs_bytes c' (f_instrs (frag_of c a))} \<and> consecutive c' p (f_instrs (frag_of c a)) \<and>
       base \<le> p \<and> p + instrs_bytes c' (f_instrs (frag_of c a)) \<le> base + sizes (f_cache (frag_of c a)))) \<and>
    (\<forall>a \<in> set L. \<forall>b \<in> set L. a \<noteq> b \<and> unplaced c a \<and> unplaced c b \<and> f_cache (frag_of c a) = f_cache (frag_of c b) \<longrightarrow>
       code_range c' a \<inter> code_range c' b = {})"
proof -
  obtain sizes c1 where 1: "StageEncode enc pc c = Some (sizes, c1)" using assms(1) by (auto simp: EncodeAndFree_def bind_eq_Some_conv)
  obtain st1 code where 2: "allocate_caches alloc sizes st = (st1, code)" by fastforce
  obtain u c2 where 3: "RelativizeCode code c1 = Some (u, c2)" using assms(1) 1 2 by (auto simp: EncodeAndFree_def bind_eq_Some_conv)
  obtain c3 where 4: "RelativizeControlFlow c2 = Some c3" using assms(1) 1 2 3 by (auto simp: EncodeAndFree_def bind_eq_Some_conv)
  obtain c4 c5 where steps: "(if u then UpdateEncodeAddresses c3 else Some c3) = Some c4" "AssignBlockCacheLocations c4 = Some c5"
    "ConnectEdgesToInstructions c5 = Some c'" "st1 = st'"
    using assms(1) 1 2 3 4 by (auto simp: EncodeAndFree_def bind_eq_Some_conv split: list.splits)
  have c1: "same_frag_heap c c1" "encoded_frags c1 = Some L" "\<And>k. sizes k = used_bytes c1 k L"
    using StageEncode_sizes [OF 1 assms(2,3)] by auto
  obtain now where opt: "opt_fold relativize_frag L (code, False, c1) = Some (now, u, c2)"
    using 3 c1(2) by (auto simp: RelativizeCode_def)
  then have P: "placed_at code c1 L c2" using relativize_frags_placed assms(3) by blast
  have "same_places c3 c4" using steps(1) UpdateEncodeAddresses_places [of c3 c4] by (auto split: if_splits)
  then have "same_places c2 c'"
    using RelativizeControlFlow_places [OF 4] AssignBlockCacheLocations_places [OF steps(2)] ConnectEdgesToInstructions_places [OF steps(3)]
    same_places_trans by blast
  then have later: "frag_of c' = frag_of c2" "frag_size c' = frag_size c2" "instr_length c' = instr_length c2" "instr_pc c' = instr_pc c2"
      "\<And>i. native_at (cs_frags c') i = None \<longleftrightarrow> native_at (cs_frags c2) i = None"
    by (simp_all add: same_places_def same_frag_heap_def)
  then have range: "code_range c' a = code_range c2 a" for a by (simp add: code_range_def split: option.split)
  have V: "unplaced c1 = unplaced c" "frag_of c1 = frag_of c" using c1(1) by (auto simp: same_frag_heap_def unplaced_def fun_eq_iff)
  have S: "sized enc c L c1" using StageEncode_sized [OF 1 assms(2-4)] .
  have c2: "frag_size c2 = frag_size c1" "instr_length c2 = instr_length c1" "instr_at (cs_frags c2) = instr_at (cs_frags c1)"
    using P by (auto simp: placed_at_def)
  have bytes: "instrs_bytes c' is = instrs_bytes c1 is" for "is"
    using later c2 by (intro instrs_bytes_cong) (simp add: native_at_def)
  have size: "frag_size c1 a = instrs_bytes c' (f_instrs (frag_of c a))" if "a \<in> set L" "unplaced c a" for a
    using sizedD(3) [OF S that] by (simp add: bytes)
  have "sizes k = sum_list (map (\<lambda>a. instrs_bytes c' (f_instrs (frag_of c a))) (filter (\<lambda>a. unplaced c a \<and> f_cache (frag_of c a) = k) L))" for k
    unfolding c1(3) used_bytes_def V by (intro arg_cong [of _ _ sum_list] map_cong) (auto simp: size)
  moreover have "\<exists>at. staged_length enc n at = Some (instr_length c' i)"
    if "a \<in> set L" "unplaced c a" "i \<in> set (f_instrs (frag_of c a))" "native_at (cs_frags c) i = Some n" for a i n
    using sizedD(4) [OF S that] later(3) c2(2) by simp
  moreover have "\<exists>base p. code (f_cache (frag_of c a)) = Some base \<and> encoded_pc (frag_of c' a) = Some p \<and>
      code_range c' a = {p..<p + instrs_bytes c' (f_instrs (frag_of c a))} \<and> consecutive c' p (f_instrs (frag_of c a)) \<and>
      base \<le> p \<and> p + instrs_bytes c' (f_instrs (frag_of c a)) \<le> base + sizes (f_cache (frag_of c a))"
    if a: "a \<in> set L" "unplaced c a" for a
  proof -
    obtain pre post where L: "L = pre @ a # post" using a(1) by (auto simp: in_set_conv_decomp)
    obtain base where base: "code (f_cache (frag_of c a)) = Some base" "encoded_pc (frag_of c2 a) = Some (base + used_bytes c1 (f_cache (frag_of c a)) pre)"
      "used_bytes c1 (f_cache (frag_of c a)) pre + frag_size c2 a + used_bytes c1 (f_cache (frag_of c a)) post = sizes (f_cache (frag_of c a))"
      using placed_at_bounds [OF P L] a(2) unfolding V c1(3) by metis
    let ?p = "base + used_bytes c1 (f_cache (frag_of c a)) pre"
    have sz: "frag_size c2 a = instrs_bytes c' (f_instrs (frag_of c a))" using size [OF a] c2(1) by simp
    have "all_instrs c1 L = all_instrs c L" by (simp add: all_instrs_def V)
    then obtain p where "encoded_pc (frag_of c2 a) = Some p" "consecutive c2 p (f_instrs (frag_of c a))"
      using bspec [OF relativize_frags_consecutive [OF opt assms(3)] a(1)] assms(4) V by auto
    then have "consecutive c2 ?p (f_instrs (frag_of c a))" using base(2) by simp
    then have "consecutive c' ?p (f_instrs (frag_of c a))" using later by (rule_tac consecutive_cong) simp_all
    moreover have "code_range c' a = {?p..<?p + instrs_bytes c' (f_instrs (frag_of c a))}"
      unfolding range using base(2) sz by (simp add: code_range_def)
    moreover have "?p + instrs_bytes c' (f_instrs (frag_of c a)) \<le> base + sizes (f_cache (frag_of c a))" using base(3) sz by linarith
    ultimately show ?thesis using base(1,2) later(1) by (intro exI [of _ base] exI [of _ ?p]) simp
  qed
  moreover have "code_range c' a \<inter> code_range c' b = {}"
    if "a \<in> set L" "b \<in> set L" "a \<noteq> b" "unplaced c a" "unplaced c b" "f_cache (frag_of c a) = f_cache (frag_of c b)" for a b
  proof -
    have "(\<exists>p m q. L = p @ a # m @ b # q) \<or> (\<exists>p m q. L = p @ b # m @ a # q)"
      using that(1-3) by (metis append.assoc append_Cons in_set_conv_decomp set_ConsD split_list Un_iff set_append)
    then show ?thesis using placed_at_disjoint [OF P] that(4-6) unfolding V range by (metis inf_commute)
  qed
  ultimately show ?thesis using 2 steps(4) by - (rule exI [of _ sizes], rule exI [of _ code], blast)
qed

section \<open>Branches\<close>

text \<open>The branches of a list of fragments with the fragments they go to, in the order of the code.\<close>

definition frag_branches :: "(nat \<Rightarrow> Fragment) \<Rightarrow> nat list \<Rightarrow> (nat option \<times> nat option) list" where
  "frag_branches F L = concat (map (\<lambda>a. [(fall_through_instr (F a), succ_fall (F a)), (branch_instr (F a), succ_branch (F a))]) L)"

definition branch_ids :: "(nat option \<times> nat option) list \<Rightarrow> nat list" where
  "branch_ids bs = List.map_filter fst bs"

lemma branch_ids_simps [simp]: "branch_ids [] = []" "branch_ids ((None, b) # bs) = branch_ids bs" "branch_ids ((Some i, b) # bs) = i # branch_ids bs"
  by (simp_all add: branch_ids_def List.map_filter_simps)

lemma RelativizeControlFlow_branches:
  assumes "opt_fold (\<lambda>a c. Option.bind (RelativizeBranch (fall_through_instr (frag_of c a)) (succ_fall (frag_of c a)) c)
                   (\<lambda>c. RelativizeBranch (branch_instr (frag_of c a)) (succ_branch (frag_of c a)) c)) L c = Some d"
  shows "opt_fold (\<lambda>(i, b). RelativizeBranch i b) (frag_branches (frag_of c) L) c = Some d"
  using assms
proof (induction L arbitrary: c)
  case Nil
  then show ?case by (simp add: frag_branches_def)
next
  case (Cons a L)
  then obtain e f where e: "RelativizeBranch (fall_through_instr (frag_of c a)) (succ_fall (frag_of c a)) c = Some e"
    "RelativizeBranch (branch_instr (frag_of e a)) (succ_branch (frag_of e a)) e = Some f"
    "opt_fold (\<lambda>a c. Option.bind (RelativizeBranch (fall_through_instr (frag_of c a)) (succ_fall (frag_of c a)) c)
                   (\<lambda>c. RelativizeBranch (branch_instr (frag_of c a)) (succ_branch (frag_of c a)) c)) L f = Some d"
    by (auto simp: bind_eq_Some_conv)
  have "frag_of e = frag_of c" "frag_of f = frag_of e"
    using RelativizeBranch_places [OF e(1)] RelativizeBranch_places [OF e(2)] by (simp_all add: same_places_def same_frag_heap_def)
  then show ?case using e(1,2) Cons.IH [OF e(3)] by (simp add: frag_branches_def)
qed

lemma RelativizeBranch_native:
  assumes "RelativizeBranch cfi b c = Some d"
  shows "cfi \<noteq> Some i \<Longrightarrow> native_at (cs_frags d) i = native_at (cs_frags c) i"
    "cfi = Some i \<Longrightarrow> native_at (cs_frags c) i = Some n \<Longrightarrow> \<not> HasIndirectTarget n \<Longrightarrow>
      \<exists>x p. b = Some x \<and> encoded_pc (frag_of c x) = Some p \<and> native_at (cs_frags d) i = Some (SetBranchTarget p n)"
  using assms by (auto simp: RelativizeBranch_def set_native_def native_at_def bind_eq_Some_conv split: option.splits if_splits)

lemma branches_other:
  "opt_fold (\<lambda>(i, b). RelativizeBranch i b) bs c = Some d \<Longrightarrow> i \<notin> set (branch_ids bs) \<Longrightarrow> native_at (cs_frags d) i = native_at (cs_frags c) i"
proof (induction bs arbitrary: c)
  case (Cons x bs)
  obtain cfi b where x: "x = (cfi, b)" by (cases x)
  then obtain e where e: "RelativizeBranch cfi b c = Some e" "opt_fold (\<lambda>(i, b). RelativizeBranch i b) bs e = Some d"
    using Cons.prems(1) by (auto simp: bind_eq_Some_conv)
  then show ?case using Cons.IH [OF e(2)] Cons.prems(2) RelativizeBranch_native(1) [OF e(1), of i] x by (cases cfi) auto
qed simp

lemma branches_targets:
  assumes "opt_fold (\<lambda>(i, b). RelativizeBranch i b) bs c = Some d" "distinct (branch_ids bs)" "(Some i, b) \<in> set bs"
    and "native_at (cs_frags c) i = Some n" "\<not> HasIndirectTarget n"
  shows "\<exists>x p. b = Some x \<and> encoded_pc (frag_of c x) = Some p \<and> native_at (cs_frags d) i = Some (SetBranchTarget p n)"
  using assms
proof (induction bs arbitrary: c)
  case (Cons y bs)
  obtain cfi t where y: "y = (cfi, t)" by (cases y)
  then obtain e where e: "RelativizeBranch cfi t c = Some e" "opt_fold (\<lambda>(i, b). RelativizeBranch i b) bs e = Some d"
    using Cons.prems(1) by (auto simp: bind_eq_Some_conv)
  show ?case
  proof (cases "(Some i, b) \<in> set bs")
    case True
    then have "i \<in> set (branch_ids bs)" by (auto simp: branch_ids_def List.map_filter_def image_iff)
    then have "cfi \<noteq> Some i" "distinct (branch_ids bs)" using Cons.prems(2) y by (cases cfi; auto)+
    then have "\<exists>x p. b = Some x \<and> encoded_pc (frag_of e x) = Some p \<and> native_at (cs_frags d) i = Some (SetBranchTarget p n)"
      using Cons.IH [OF e(2) _ True] RelativizeBranch_native(1) [OF e(1)] Cons.prems(4,5) by simp
    moreover have "frag_of e = frag_of c" using RelativizeBranch_places [OF e(1)] by (simp add: same_places_def same_frag_heap_def)
    ultimately show ?thesis by simp
  next
    case False
    then have y': "cfi = Some i" "t = b" using Cons.prems(3) y by auto
    then have "i \<notin> set (branch_ids bs)" using Cons.prems(2) y by simp
    then show ?thesis using RelativizeBranch_native(2) [OF e(1) y'(1) Cons.prems(4,5)] branches_other [OF e(2)] y'(2) by simp
  qed
qed simp

text \<open>C14. After the control flow was relativised, every direct branch that leaves a fragment, be it the
  fall-through jump or the branch proper, goes to the address at which the successor fragment is encoded; no two fragments share
  a branch instruction.\<close>

theorem RelativizeControlFlow_targets:
  assumes "RelativizeControlFlow c = Some d" "encoded_frags c = Some L" "distinct (branch_ids (frag_branches (frag_of c) L))"
    and "(Some i, succ) \<in> set (frag_branches (frag_of c) L)" "native_at (cs_frags c) i = Some n" "\<not> HasIndirectTarget n"
  shows "\<exists>x p. succ = Some x \<and> encoded_pc (frag_of d x) = Some p \<and> native_at (cs_frags d) i = Some (SetBranchTarget p n)"
proof -
  have "opt_fold (\<lambda>(i, b). RelativizeBranch i b) (frag_branches (frag_of c) L) c = Some d"
    using RelativizeControlFlow_branches assms(1,2) by (simp add: RelativizeControlFlow_def)
  from branches_targets [OF this assms(3-6)] show ?thesis
    using RelativizeControlFlow_places [OF assms(1)] by (simp add: same_places_def same_frag_heap_def)
qed

section \<open>An example\<close>

text \<open>Two fragments of the hot code cache, the first with a jump to the second.\<close>

definition example_jump :: NativeInstruction where
  "example_jump = Instruction_new\<lparr>category := XED_CATEGORY_UNCOND_BR, ops := [Operand_new\<lparr>op_type := XED_ENCODER_OPERAND_TYPE_BRDISP\<rparr>]\<rparr>"

definition example_compile :: compile_state where
  "example_compile =
     \<lparr>cs_frags = two_frags\<lparr>frag_at := (\<lambda>a. if a = 0 then (Fragment_new CodeFragment)\<lparr>f_next := Some 1, succ_fall := Some 1, f_instrs := [0, 1], fall_through_instr := Some 1\<rparr>
                                      else (Fragment_new CodeFragment)\<lparr>f_instrs := [2]\<rparr>),
        instr_at := (\<lambda>i. Native (if i = 1 then example_jump else Instruction_new)), next_instr := 3\<rparr>,
      frag_size = (\<lambda>_. 0), entry_label = (\<lambda>_. None), instr_pc = (\<lambda>_. 0), instr_length = (\<lambda>_. 0), annot_pc = (\<lambda>_. None), annot_data = (\<lambda>_. 0),
      pointed_pc = (\<lambda>_. None), meta_cache_pc = (\<lambda>_. None), direct_edge = (\<lambda>_. None), patch_instruction_pc = (\<lambda>_. None)\<rparr>"

definition example_caches :: "unit \<times> code_caches" where
  "example_caches = ((), \<lambda>_. \<lparr>slab_num_pages = 8, slab_num_bytes = 32768, slab_byte_offset = 100, slab_list = [Some 0x100000]\<rparr>)"

lemma example_order: "encoded_frags example_compile = Some [0, 1]"
  by (simp add: encoded_frags_def example_compile_def two_frags_def encode_ordered_simps Fragment_new_def)

lemma example_stage:
  "StageEncode (\<lambda>_ _. Some 5) 0 example_compile = Some ((\<lambda>_. 0)(kCodeCacheKindHot := 15),
     example_compile\<lparr>frag_size := (\<lambda>_. 0)(0 := 10, 1 := 5), instr_pc := (\<lambda>_. 0)(1 := 5), instr_length := (\<lambda>_. 0)(0 := 5, 1 := 5, 2 := 5)\<rparr>)"
  unfolding StageEncode_def example_order
  by (simp add: example_compile_def two_frags_def Fragment_new_def StageEncodeLabels_def label_entry_def is_label_def stage_frag_def
      StageEncodeNativeInstructions_def stage_instr_def EncodeNext_def native_at_def IsNoOp_def Instruction_new_def example_jump_def set_native_def fun_eq_iff)

lemma example_allocates:
  "snd (allocate_caches (\<lambda>s _. (s, None)) ((\<lambda>_. 0)(kCodeCacheKindHot := 15)) example_caches) = (\<lambda>_. None)(kCodeCacheKindHot \<mapsto> 0x100064)"
  by (simp add: allocate_caches_def kinds_def example_caches_def AllocateCode_def CodeCache_AllocateCode_def Let_def index_pointer_def
      align_to_def align_factor_def CODE_ALIGN_BYTES_def fun_eq_iff)

definition example_staged :: compile_state where
  "example_staged =
     example_compile\<lparr>frag_size := (\<lambda>_. 0)(0 := 10, 1 := 5), instr_pc := (\<lambda>_. 0)(1 := 5), instr_length := (\<lambda>_. 0)(0 := 5, 1 := 5, 2 := 5)\<rparr>"

definition example_placed :: compile_state where
  "example_placed = (upd_cfrag 1 (\<lambda>f. f\<lparr>encoded_pc := Some 0x10006e\<rparr>) (upd_cfrag 0 (\<lambda>f. f\<lparr>encoded_pc := Some 0x100064\<rparr>) example_staged))
     \<lparr>instr_pc := (\<lambda>_. 0)(0 := 0x100064, 1 := 0x100069, 2 := 0x10006e)\<rparr>"

lemma example_staged_order: "encoded_frags example_staged = Some [0, 1]"
  using same_frag_heap_order [OF _ example_order] by (simp add: same_frag_heap_def example_staged_def)

lemma example_relativized: "RelativizeCode ((\<lambda>_. None)(kCodeCacheKindHot \<mapsto> 0x100064)) example_staged = Some (False, example_placed)"
  unfolding RelativizeCode_def example_staged_order
  by (simp add: relativize_frag_def place_code_def RelativizeInstructions_def label_entry_def relativize_instr_def upd_cfrag_def upd_frag_def
      example_placed_def example_staged_def example_compile_def two_frags_def Fragment_new_def fun_eq_iff)

lemma example_placed_order: "encoded_frags example_placed = Some [0, 1]"
  by (simp add: encoded_frags_def example_placed_def example_staged_def example_compile_def two_frags_def upd_cfrag_def upd_frag_def encode_ordered_simps Fragment_new_def)

lemma example_flow: "\<exists>c. RelativizeControlFlow example_placed = Some c \<and> flist (cs_frags c) = [0, 1] \<and> encoded_pc (frag_of c 0) = Some 0x100064 \<and>
    AssignBlockCacheLocations c = Some c \<and> ConnectEdgesToInstructions c = Some c"
  unfolding RelativizeControlFlow_def example_placed_order
  by (simp add: RelativizeBranch_def native_at_def HasIndirectTarget_def arch_HasIndirectTarget_def IsUnconditionalJump_def IsFunctionCall_def first_op_type_def
      set_native_def upd_cfrag_def upd_frag_def example_placed_def example_staged_def example_compile_def two_frags_def Fragment_new_def
      example_jump_def Instruction_new_def AssignBlockCacheLocations_def AssignBlockCacheLocation_def CodeAttributes_new_def
      ConnectEdgesToInstructions_def ConnectEdgesToInstruction_def IsA_def IsDerivedFrom_def)

lemma example_encodes:
  "\<exists>st c. EncodeAndFree (\<lambda>_ _. Some 5) (\<lambda>s _. (s, None)) 0 example_caches example_compile = Some (0x100064, st, c)"
proof -
  obtain st where a: "allocate_caches (\<lambda>s _. (s, None)) ((\<lambda>_. 0)(kCodeCacheKindHot := 15)) example_caches = (st, (\<lambda>_. None)(kCodeCacheKindHot \<mapsto> 0x100064))"
    using example_allocates by (metis prod.collapse)
  obtain c where c: "RelativizeControlFlow example_placed = Some c" "flist (cs_frags c) = [0, 1]" "encoded_pc (frag_of c 0) = Some 0x100064"
    "AssignBlockCacheLocations c = Some c" "ConnectEdgesToInstructions c = Some c" using example_flow by blast
  have r: "RelativizeCode ((\<lambda>_. None)(kCodeCacheKindHot \<mapsto> 0x100064))
      (example_compile\<lparr>frag_size := (\<lambda>_. 0)(0 := 10, 1 := 5), instr_pc := (\<lambda>_. 0)(1 := 5), instr_length := (\<lambda>_. 0)(0 := 5, 1 := 5, 2 := 5)\<rparr>) =
      Some (False, example_placed)" using example_relativized by (simp only: example_staged_def)
  show ?thesis unfolding EncodeAndFree_def example_stage by (simp only: bind.simps prod.case a r c list.case if_False) blast
qed

theorem EncodeAndFree_disjoint_witness:
  "\<exists>st c. EncodeAndFree (\<lambda>_ _. Some 5) (\<lambda>s _. (s, None)) 0 example_caches example_compile = Some (0x100064, st, c) \<and>
     code_range c 0 \<inter> code_range c 1 = {} \<and> instr_length c 1 = 5"
proof -
  obtain st c where e: "EncodeAndFree (\<lambda>_ _. Some 5) (\<lambda>s _. (s, None)) 0 example_caches example_compile = Some (0x100064, st, c)"
    using example_encodes by blast
  have "distinct [0, 1 :: nat]" "distinct (all_instrs example_compile [0, 1])" by (simp_all add: example_compile_def Fragment_new_def)
  note D = EncodeAndFree_disjoint [OF e example_order this]
  have un: "unplaced example_compile 0" "unplaced example_compile 1" "f_cache (frag_of example_compile 0) = f_cache (frag_of example_compile 1)"
    by (simp_all add: unplaced_def example_compile_def Fragment_new_def)
  have n: "native_at (cs_frags example_compile) 1 = Some example_jump" "\<not> IsNoOp example_jump" "\<not> dont_encode example_jump"
    "1 \<in> set (f_instrs (frag_of example_compile 0))"
    by (simp_all add: example_compile_def native_at_def IsNoOp_def example_jump_def Instruction_new_def Fragment_new_def)
  obtain sizes code where D: "\<forall>a \<in> set [0, 1]. unplaced example_compile a \<longrightarrow> (\<forall>i \<in> set (f_instrs (frag_of example_compile a)).
         \<forall>n. native_at (cs_frags example_compile) i = Some n \<longrightarrow> (\<exists>at. staged_length (\<lambda>_ _. Some 5) n at = Some (instr_length c i)))"
    "\<forall>a \<in> set [0, 1]. \<forall>b \<in> set [0, 1]. a \<noteq> b \<and> unplaced example_compile a \<and> unplaced example_compile b \<and>
       f_cache (frag_of example_compile a) = f_cache (frag_of example_compile b) \<longrightarrow> code_range c a \<inter> code_range c b = {}"
    using D by (elim exE conjE) (rule that)
  have "code_range c 0 \<inter> code_range c 1 = {}" using bspec [OF bspec [OF D(2)], of 0 1] un by simp
  moreover have "instr_length c 1 = 5" using bspec [OF D(1), of 0] un n by (auto simp: staged_length_def)
  ultimately show ?thesis using e by blast
qed

theorem RelativizeControlFlow_targets_witness:
  "\<exists>c. RelativizeControlFlow example_placed = Some c \<and> native_at (cs_frags c) 1 = Some (SetBranchTarget 0x10006e example_jump)"
proof -
  obtain c where c: "RelativizeControlFlow example_placed = Some c" using example_flow by blast
  have b: "frag_branches (frag_of example_placed) [0, 1] = [(Some 1, Some 1), (None, None), (None, None), (None, None)]"
    by (simp add: frag_branches_def example_placed_def example_staged_def example_compile_def upd_cfrag_def upd_frag_def Fragment_new_def)
  have n: "native_at (cs_frags example_placed) 1 = Some example_jump" "\<not> HasIndirectTarget example_jump"
    by (simp_all add: native_at_def example_placed_def example_staged_def example_compile_def upd_cfrag_def upd_frag_def HasIndirectTarget_def
        arch_HasIndirectTarget_def example_jump_def Instruction_new_def IsUnconditionalJump_def IsFunctionCall_def first_op_type_def)
  have "encoded_pc (frag_of c 1) = Some 0x10006e"
    using RelativizeControlFlow_places [OF c]
    by (simp add: same_places_def same_frag_heap_def example_placed_def upd_cfrag_def upd_frag_def)
  then show ?thesis using RelativizeControlFlow_targets [OF c example_placed_order, of 1 "Some 1" example_jump] b n c by simp
qed

end
