(* ===== verification/Spec2Isabelle.thy ===== *)
theory Spec2Isabelle
  imports Prelude Bits Cstring Strings Options Locks Lists Disjoint Tiny Modules Pages Code_Cache
    Slab Metadata Index Registers Fragments Partitions Flags Entry_Exit Track_VRs Jumps Tools Save_Flags
    Schedule_Regs Schedule_Sim Instructions Alloc_Slots Frame_Sizes Stack_Adjust Blocks Trace_Graph
    Trace_Reach Trace_Relink Instrument Compile
begin

text \<open>
  \<^bold>\<open>Granary, a dynamic binary translation framework.\<close>

  Granary decodes a program's code block by block, lets tools instrument the blocks, assembles the
  result into fragments of native code, and encodes the fragments into code caches from which the
  program then runs.  An index finds the translated block of a program counter again; modules tell
  where a program counter comes from; the translated blocks carry meta-data.  Underneath is a small
  runtime of its own: no C library, its own allocators, locks, containers, strings and options.

  \<^bold>\<open>Theories and the sources they model.\<close>

  \<^item> \<^verbatim>\<open>Prelude\<close>: constants and alignment (\<^verbatim>\<open>granary/base/base.h\<close>,
    \<^verbatim>\<open>arch/x86-64/base.h\<close>), and refinement of operation sequences as a locale.
  \<^item> \<^verbatim>\<open>Bits\<close> (\<^verbatim>\<open>packed_array.h\<close>, \<^verbatim>\<open>bitset.h\<close>,
    \<^verbatim>\<open>bloom_filter.h\<close>): storage at the width of the code; reads after writes, no false negatives.
  \<^item> \<^verbatim>\<open>Cstring\<close> (\<^verbatim>\<open>cstring.cc\<close>): loops over a byte memory; copying of overlapping ranges.
  \<^item> \<^verbatim>\<open>Strings\<close> (\<^verbatim>\<open>string.cc\<close>): formatting stays in its buffer, scanning reads back what
    formatting wrote, splitting at commas undoes joining.
  \<^item> \<^verbatim>\<open>Options\<close> (\<^verbatim>\<open>option.cc\<close>): command-line options, their parsers and the help text.
  \<^item> \<^verbatim>\<open>Locks\<close> (\<^verbatim>\<open>lock.cc\<close>): step relations over the atomic accesses of any number of threads;
    mutual exclusion and progress as invariants of the reachable states.
  \<^item> \<^verbatim>\<open>Lists\<close> (\<^verbatim>\<open>list.h\<close>): intrusive lists over a heap of links refine sequences.
  \<^item> \<^verbatim>\<open>Disjoint\<close> (\<^verbatim>\<open>disjoint_set.h\<close>): union-find with path compression computes equivalence
    closures; the locale \<^verbatim>\<open>partition\<close> is what the assembler relies on.
  \<^item> \<^verbatim>\<open>Tiny\<close> (\<^verbatim>\<open>tiny_vector.h\<close>, \<^verbatim>\<open>tiny_set.h\<close>, \<^verbatim>\<open>tiny_map.h\<close>):
    chunked containers refine lists, finite sets and finite maps.
  \<^item> \<^verbatim>\<open>Modules\<close> (\<^verbatim>\<open>os/module.cc\<close>): address ranges and offsets.
  \<^item> \<^verbatim>\<open>Pages\<close> (\<^verbatim>\<open>os/memory.h\<close>, \<^verbatim>\<open>os/memory.cc\<close>), \<^verbatim>\<open>Code_Cache\<close>
    (\<^verbatim>\<open>granary/cache.cc\<close>) and \<^verbatim>\<open>Slab\<close> (\<^verbatim>\<open>granary/base/new.cc\<close>): the allocators, each on
    the interface of the one below; nothing is handed out twice.
  \<^item> \<^verbatim>\<open>Metadata\<close> (\<^verbatim>\<open>granary/metadata.cc\<close>, \<^verbatim>\<open>granary/app.cc\<close>) and \<^verbatim>\<open>Index\<close>
    (\<^verbatim>\<open>granary/index.cc\<close>): layout, allocation, copy and comparison of block meta-data, and the
    radix tree that finds it, with the races of concurrent additions.
  \<^item> \<^verbatim>\<open>Tools\<close> (\<^verbatim>\<open>granary/tool.cc\<close>, \<^verbatim>\<open>granary/client.cc\<close>): the tool manager;
    activation of tools and their dependencies, and the blocks of tool instances on the slab allocator.
  \<^item> \<^verbatim>\<open>Registers\<close> (\<^verbatim>\<open>granary/code/register.h\<close>, \<^verbatim>\<open>arch/x86-64/register.cc\<close>): virtual
    registers, their conversion from and to the decoder's, register sets and liveness of an instruction.
  \<^item> \<^verbatim>\<open>Fragments\<close> (\<^verbatim>\<open>granary/code/fragment.h\<close>): the heap of fragments and instructions the
    assembler's passes work on.
  \<^item> \<^verbatim>\<open>Instructions\<close> (\<^verbatim>\<open>arch/x86-64/instruction.cc\<close>, \<^verbatim>\<open>builder.cc\<close>,
    \<^verbatim>\<open>builder.h\<close>, \<^verbatim>\<open>util.cc\<close>, \<^verbatim>\<open>slot.cc\<close>): how instructions use the stack, matching
    of operands, building of instructions and operands, widths of immediates.
  \<^item> \<^verbatim>\<open>Partitions\<close>, \<^verbatim>\<open>Flags\<close>, \<^verbatim>\<open>Entry_Exit\<close>, \<^verbatim>\<open>Save_Flags\<close>,
    \<^verbatim>\<open>Track_VRs\<close> and \<^verbatim>\<open>Jumps\<close> (\<^verbatim>\<open>granary/code/assemble/\<close>, passes 3, 4, 5, 6, and 10
    with 11): partitions are connected components; every edge that enters or leaves a partition or a
    flag zone gets its fragment and no other edge changes, which the locale \<^verbatim>\<open>edge_pass\<close> shows
    once for four passes; the live flags and the live virtual registers are exactly those live along
    some path; the flags that a zone kills are brought back on its exits; compensating fragments make
    the registers consistent on every edge; ordering and connecting fragments keeps every edge, swapped where
    the branch is negated.
  \<^item> \<^verbatim>\<open>Schedule_Regs\<close> and \<^verbatim>\<open>Schedule_Sim\<close> (pass 8): the register scheduler, and that the
    code of a fragment after the scheduling of a virtual register simulates the code before.
  \<^item> \<^verbatim>\<open>Alloc_Slots\<close>, \<^verbatim>\<open>Frame_Sizes\<close> and \<^verbatim>\<open>Stack_Adjust\<close> (pass 9): the pass that
    gives spill slots their places; that the analysis of stack frames ends with the right offsets, that the slots
    lie below the application's frame and red zone, and that instructions rewritten for the lowered
    stack pointer access the places they accessed.
  \<^item> \<^verbatim>\<open>Blocks\<close> (\<^verbatim>\<open>granary/cfg/trace.cc\<close>, \<^verbatim>\<open>block.cc\<close>,
    \<^verbatim>\<open>factory.cc\<close>): the traces of blocks that tools instrument and the factory that makes and
    replaces blocks; the trace's list runs through the links of the blocks (\<^verbatim>\<open>Lists\<close>), the index
    and the decoder are parameters. \<^verbatim>\<open>Trace_Graph\<close>: adding a block adds what is reachable from
    it, and a rule for loops over a list that grows meanwhile. \<^verbatim>\<open>Trace_Reach\<close>: removing unreachable
    blocks leaves the reachable ones. \<^verbatim>\<open>Trace_Relink\<close>: branches go to the blocks that replaced
    their targets.
  \<^item> \<^verbatim>\<open>Instrument\<close> (\<^verbatim>\<open>granary/instrument.cc\<close>): the rounds in which tools see the control flow of a
    trace, bounded by the limit of rounds whatever the tools request, how the rounds end, and what is requested last.
  \<^item> \<^verbatim>\<open>Compile\<close> (\<^verbatim>\<open>granary/code/compile.cc\<close>): the fragments in the order of pass 10 get their
    places in the code caches, whose blocks have the size of the encoded instructions; they do not overlap and branches go to their successors.

  \<^bold>\<open>Conventions.\<close>  A pointer is a number and memory a function or a record of functions, so that
  aliasing is visible; machine integers are words where overflow matters and naturals where the code
  computes sizes and addresses.  An operation returns \<^const>\<open>None\<close> where the code fails an
  assertion or runs forever.  Loops that may run forever are partial functions into options; the
  theorems state that they return, the measures being the length of the data, the number of
  fragments times the number of flags or registers not yet live, or the free slots of a heap.  No
  fuel is used.  Code that is not part of the program is a parameter: the instruction decoder and the
  encoder's lengths, the generated flag tables, the instruction builder, the operating system's list of
  modules, and the methods and component values of tools; what is relied on is a named hypothesis, and the witnesses instantiate it.

  \<^bold>\<open>Exceptions.\<close>  Where the code does not do what it means to, the theorems say so or exclude
  the case in their text: a search of the index is rejected when the head of the bucket rejects it;
  a module range that is split loses what follows; a lone block or fragment that comes after itself makes a
  walk endless (\<^verbatim>\<open>self_loop_diverges\<close>, \<^verbatim>\<open>lone_fragment_diverges\<close>); a fragment that already uses the slots of registers
  is outside the simulation of the scheduler; stack offsets that disagree on two edges are outside the
  analysis of frames; a plain stack pointer operand loses its segment, and a push of a negative immediate fails an
  assertion; the counter of pages wraps around (\<^verbatim>\<open>counter_wraps\<close>); a scalar key stays in
  a tiny map (\<^verbatim>\<open>Map_Remove_scalar\<close>); a negated option with a value fails an assertion.

  \<^bold>\<open>Not modelled.\<close>  The decoder, encoder and mangler of instructions translate to and from a
  third-party library; the fragment builder (pass 2), late mangling, the inline assembly compiler and the
  code of edges rest on them and on instructions that are unlinked through pointers.  Contexts and
  translation are glue around the instrumenter, the compiler and the index.  The operating system back
  ends, start-up and exit are input, output and inline assembly.  The client tools are examples.  Memory orders
  weaker than sequential consistency, the debug build's poisoning and logging are left out.
\<close>

end
